(* ===== verification/Prelude.thy ===== *)
theory Prelude
  imports Main "HOL-Library.Word"
begin

text \<open>
  Shared vocabulary of the development: the machine integers of the C++ sources as fixed-width
  words, byte vectors, results of throwing operations, and the generic facts about words,
  naturals and lists the component theories rest on.

  The collections \<open>unat_simps\<close> and \<open>result_simps\<close> gather the rewrite rules that
  carry a goal from words to naturals and through the error monad.
\<close>

unbundle bit_operations_syntax

section \<open>Machine integers and byte vectors\<close>

type_synonym u8 = "8 word"
type_synonym u16 = "16 word"
type_synonym u32 = "32 word"
type_synonym u64 = "64 word"
type_synonym bytes = "8 word list"

named_theorems unat_simps
named_theorems result_simps

section \<open>Results of operations that may throw\<close>

text \<open>
  Every exception class thrown by the modelled code, without its message. An operation that may
  throw returns \<open>exn + 'a\<close>, \<open>Inl\<close> being the exception. \<open>Undefined\<close> stands for an operation that
  C++ leaves undefined: an access outside a vector, a shift by too many bits, a division by zero.
\<close>

datatype exn =
    DeserializationException
  | SerializationException
  | FileException
  | TxHashSetException
  | BadDataException
  | BlockChainException
  | InvalidArgumentException
  | RuntimeError
  | CryptoException
  | StdException
  | DatabaseException
  | Undefined

type_synonym 'a result = "exn + 'a"

definition rbind :: "'a result \<Rightarrow> ('a \<Rightarrow> 'b result) \<Rightarrow> 'b result" where
  "rbind m f = (case m of Inl e \<Rightarrow> Inl e | Inr x \<Rightarrow> f x)"

lemma rbind_Inl [simp]: "rbind (Inl e) f = Inl e"
  by (simp add: rbind_def)

lemma rbind_Inr [simp]: "rbind (Inr x) f = f x"
  by (simp add: rbind_def)

lemma rbind_eq_Inr_iff [result_simps]:
  "rbind m f = Inr y \<longleftrightarrow> (\<exists>x. m = Inr x \<and> f x = Inr y)"
  by (simp add: rbind_def split: sum.split)

lemma rbind_eq_Inl_iff [result_simps]:
  "rbind m f = Inl e \<longleftrightarrow> m = Inl e \<or> (\<exists>x. m = Inr x \<and> f x = Inl e)"
  by (auto simp add: rbind_def split: sum.split)

lemma rbind_assoc: "rbind (rbind m f) g = rbind m (\<lambda>x. rbind (f x) g)"
  by (simp add: rbind_def split: sum.split)

lemma rbind_cong [fundef_cong]:
  "m = m' \<Longrightarrow> (\<And>x. m' = Inr x \<Longrightarrow> f x = f' x) \<Longrightarrow> rbind m f = rbind m' f'"
  by (simp add: rbind_def split: sum.split)

text \<open>A loop that appends the results of a fallible body, stopping at the first exception.\<close>

fun rmap :: "('a \<Rightarrow> 'b result) \<Rightarrow> 'a list \<Rightarrow> 'b list result" where
  "rmap f [] = Inr []"
| "rmap f (x # xs) = rbind (f x) (\<lambda>y. rbind (rmap f xs) (\<lambda>ys. Inr (y # ys)))"

lemma length_rmap: "rmap f xs = Inr ys \<Longrightarrow> length ys = length xs"
  by (induction xs arbitrary: ys) (auto simp: result_simps)

section \<open>Lists\<close>

lemma sort_key_sorted: "sorted (map f xs) \<Longrightarrow> sort_key f xs = xs"
  by (induction xs) (simp_all add: insort_is_Cons)

section \<open>Words and naturals\<close>

lemma unat_add_no_overflow [unat_simps]:
  "unat a + unat b < 2 ^ 64 \<Longrightarrow> unat ((a::u64) + b) = unat a + unat b"
  by (simp add: unat_word_ariths)

lemma unat_sub_no_underflow [unat_simps]:
  "unat b \<le> unat a \<Longrightarrow> unat ((a::u64) - b) = unat a - unat b"
  by (metis unat_sub word_le_nat_alt)

lemma unat_drop_bit_one: "unat (drop_bit 1 (x::u64)) = unat x div 2"
  by (simp add: drop_bit_eq_div unat_div)

lemma unat_two_power: "k < 64 \<Longrightarrow> unat ((2::u64) ^ k) = 2 ^ k"
proof -
  assume "k < 64"
  then have "(2::nat) ^ k < 2 ^ 64" by (rule power_strict_increasing) simp
  then show ?thesis using of_nat_inverse [of "2 ^ k" "2 ^ k :: u64"] by simp
qed

lemma unat_push_bit_one: "k < 64 \<Longrightarrow> unat (push_bit k (1::u64)) = 2 ^ k"
  by (simp add: push_bit_eq_mult unat_two_power)

lemma unat_less_iff_two_power [simp]: "unat (x::u64) < 18446744073709551616"
  using unsigned_less [of x, where ?'a = nat] by simp

lemma take_bit_word_self: "unat x < 2 ^ n \<Longrightarrow> take_bit n x = x" for x :: "'a :: len word"
  by (simp add: word_unat_eq_iff unsigned_take_bit_eq take_bit_nat_eq_self)

lemma ucast_ucast_self:
  "unat x < 2 ^ LENGTH('b) \<Longrightarrow> ucast (ucast x :: 'b :: len word) = x" for x :: "'a :: len word"
  by (simp add: unsigned_ucast_eq take_bit_word_self)

lemma sint_small: "unat x < 2 ^ 63 \<Longrightarrow> sint (x :: u64) = int (unat x)"
proof -
  assume "unat x < 2 ^ 63"
  then have "int (unat x) < int (2 ^ 63)" by (simp only: of_nat_less_iff)
  then have "uint x < 2 ^ 63" by simp
  moreover have "- (2 ^ 63) \<le> uint x" by (rule order_trans [of _ 0]) simp_all
  ultimately have "signed_take_bit 63 (uint x) = uint x" by (intro signed_take_bit_int_eq_self)
  then show ?thesis by (simp add: sint_uint)
qed

section \<open>Bit width and population count of naturals\<close>

fun bit_width :: "nat \<Rightarrow> nat" where
  "bit_width n = (if n = 0 then 0 else Suc (bit_width (n div 2)))"

declare bit_width.simps [simp del]

lemma bit_width_0 [simp]: "bit_width 0 = 0"
  by (simp add: bit_width.simps)

lemma bit_width_pos: "0 < n \<Longrightarrow> bit_width n = Suc (bit_width (n div 2))"
  by (simp add: bit_width.simps [of n])

lemma less_two_power_bit_width: "n < 2 ^ bit_width n"
proof (induction n rule: bit_width.induct)
  case (1 n)
  show ?case
  proof (cases "n = 0")
    case False
    with 1 have "n div 2 < 2 ^ bit_width (n div 2)" by simp
    with False show ?thesis by (simp add: bit_width_pos)
  qed simp
qed

lemma bit_width_le_iff: "bit_width n \<le> k \<longleftrightarrow> n < 2 ^ k"
proof (induction n arbitrary: k rule: bit_width.induct)
  case (1 n)
  show ?case
  proof (cases "n = 0")
    case False
    show ?thesis
    proof (cases k)
      case 0
      with False show ?thesis by (simp add: bit_width_pos)
    next
      case (Suc j)
      have "n div 2 < 2 ^ j \<longleftrightarrow> n < 2 * 2 ^ j" by linarith
      with False Suc 1 [of j] show ?thesis by (simp add: bit_width_pos)
    qed
  qed simp
qed

lemma bit_width_u64: "bit_width (unat (x::u64)) \<le> 64"
  by (simp add: bit_width_le_iff)

fun popcount :: "nat \<Rightarrow> nat" where
  "popcount n = (if n = 0 then 0 else n mod 2 + popcount (n div 2))"

declare popcount.simps [simp del]

lemma popcount_0 [simp]: "popcount 0 = 0"
  by (simp add: popcount.simps)

lemma popcount_double [simp]: "popcount (2 * n) = popcount n"
  by (cases "n = 0") (simp_all add: popcount.simps [of "2 * n"])

lemma popcount_Suc_double [simp]: "popcount (Suc (2 * n)) = Suc (popcount n)"
  by (simp add: popcount.simps [of "Suc (2 * n)"])

lemma popcount_le: "popcount n \<le> n"
proof (induction n rule: popcount.induct)
  case (1 n)
  show ?case
  proof (cases "n = 0")
    case False
    with 1 have "popcount (n div 2) \<le> n div 2" by simp
    with False show ?thesis by (simp add: popcount.simps [of n])
  qed simp
qed

lemma popcount_add_two_power: "m < 2 ^ k \<Longrightarrow> popcount (2 ^ k + m) = Suc (popcount m)"
proof (induction k arbitrary: m)
  case 0
  then show ?case by (simp add: popcount.simps [of 1] popcount.simps [of "Suc 0"])
next
  case (Suc k)
  have half: "m div 2 < 2 ^ k" using Suc.prems by auto
  have "(2 ^ Suc k + m) div 2 = 2 ^ k + m div 2" and "(2 ^ Suc k + m) mod 2 = m mod 2"
    by simp_all
  moreover have "2 ^ Suc k + m \<noteq> 0" by simp
  ultimately have "popcount (2 ^ Suc k + m) = m mod 2 + Suc (popcount (m div 2))"
    using Suc.IH [OF half] popcount.simps [of "2 ^ Suc k + m"] by presburger
  then show ?case by (cases "m = 0") (simp_all add: popcount.simps [of m])
qed

lemma popcount_le_width: "n < 2 ^ k \<Longrightarrow> popcount n \<le> k"
proof (induction k arbitrary: n)
  case (Suc k)
  then have "popcount (n div 2) \<le> k" by auto
  then show ?case by (cases "n = 0") (auto simp: popcount.simps [of n])
qed simp

lemma popcount_all_ones: "popcount (2 ^ k - 1) = k"
proof (induction k)
  case (Suc k)
  have "2 ^ Suc k - 1 = 2 ^ k + (2 ^ k - 1 :: nat)" by simp
  with Suc show ?case using popcount_add_two_power [of "2 ^ k - 1" k] by simp
qed simp

lemma unat_of_nat_u64: "n < 2 ^ 64 \<Longrightarrow> unat (of_nat n :: u64) = n"
  by (rule of_nat_inverse [OF refl]) simp

lemma and_one_bit: "x AND push_bit k 1 \<noteq> 0 \<longleftrightarrow> bit x k" for x :: "'a :: len word"
  by (simp add: push_bit_eq_mult and_exp_eq_0_iff_not_bit)

end
