(* ===== verification/Serialization.thy ===== *)
theory Serialization
  imports Prelude "HOL-Library.List_Lexorder"
begin

text \<open>
  The byte-level reader and writer of \<^verbatim>\<open>include/Core/Serialization/ByteBuffer.h\<close> and
  \<^verbatim>\<open>Serializer.h\<close>, \<open>CBigInteger\<close> of \<^verbatim>\<open>include/Crypto/Models/BigInteger.h\<close>, and the contract a
  serialisable type keeps.

  A \<open>Serializer\<close> only ever appends to its vector, so an \<open>Append\<close> or \<open>Serialize\<close> is modelled by the
  bytes it appends. A \<open>ByteBuffer\<close> is its vector, the 64-bit read index and the protocol version; a
  \<open>Read\<close> or \<open>Deserialize\<close> is a function from the buffer to an exception or a value with the advanced
  buffer. The bounds checks are kept as the code has them, in \<open>size_t\<close> arithmetic.
\<close>

section \<open>Protocol versions\<close>

datatype EProtocolVersion = V1 | V2 | V3 | V1000

fun version_number :: "EProtocolVersion \<Rightarrow> nat" where
  "version_number V1 = 1"
| "version_number V2 = 2"
| "version_number V3 = 3"
| "version_number V1000 = 1000"

definition version_ge :: "EProtocolVersion \<Rightarrow> EProtocolVersion \<Rightarrow> bool" where
  "version_ge a b = (version_number b \<le> version_number a)"

definition ProtocolVersion_Local :: EProtocolVersion where
  "ProtocolVersion_Local = V1000"

definition ProtocolVersion_ToEnum :: "u32 \<Rightarrow> EProtocolVersion" where
  "ProtocolVersion_ToEnum version =
     (if 1000 \<le> version then V1000 else if 3 \<le> version then V3
      else if version = 2 then V2 else V1)"

section \<open>Integers as bytes\<close>

fun le_bytes :: "nat \<Rightarrow> nat \<Rightarrow> bytes" where
  "le_bytes 0 x = []"
| "le_bytes (Suc n) x = of_nat (x mod 256) # le_bytes n (x div 256)"

fun le_value :: "bytes \<Rightarrow> nat" where
  "le_value [] = 0"
| "le_value (b # bs) = unat b + 256 * le_value bs"

text \<open>
  \<open>memcpy\<close> of an integer yields its bytes in the order of the host; \<open>IsBigEndian\<close> tests that order.
\<close>

definition host_bytes :: "bool \<Rightarrow> nat \<Rightarrow> nat \<Rightarrow> bytes" where
  "host_bytes isBigEndian n x = (if isBigEndian then rev (le_bytes n x) else le_bytes n x)"

definition host_value :: "bool \<Rightarrow> bytes \<Rightarrow> nat" where
  "host_value isBigEndian bs = (if isBigEndian then le_value (rev bs) else le_value bs)"

definition Append_host :: "bool \<Rightarrow> nat \<Rightarrow> nat \<Rightarrow> bytes" where
  "Append_host isBigEndian n t =
     (let temp = host_bytes isBigEndian n t
      in if isBigEndian then temp else rev temp)"

definition AppendLittleEndian_host :: "bool \<Rightarrow> nat \<Rightarrow> nat \<Rightarrow> bytes" where
  "AppendLittleEndian_host isBigEndian n t =
     (let temp = host_bytes isBigEndian n t
      in if isBigEndian then rev temp else temp)"

section \<open>The writer\<close>

definition be_bytes :: "nat \<Rightarrow> nat \<Rightarrow> bytes" where
  "be_bytes n x = rev (le_bytes n x)"

definition AppendU8 :: "u8 \<Rightarrow> bytes" where "AppendU8 x = be_bytes 1 (unat x)"
definition AppendU16 :: "u16 \<Rightarrow> bytes" where "AppendU16 x = be_bytes 2 (unat x)"
definition AppendU32 :: "u32 \<Rightarrow> bytes" where "AppendU32 x = be_bytes 4 (unat x)"
definition AppendU64 :: "u64 \<Rightarrow> bytes" where "AppendU64 x = be_bytes 8 (unat x)"
definition AppendU64_LE :: "u64 \<Rightarrow> bytes" where "AppendU64_LE x = le_bytes 8 (unat x)"

datatype ESerializeLength = SL_U32 | SL_U64 | SL_NONE

fun AppendLength :: "ESerializeLength \<Rightarrow> nat \<Rightarrow> bytes" where
  "AppendLength SL_U64 n = AppendU64 (of_nat n)"
| "AppendLength SL_U32 n = AppendU32 (of_nat n)"
| "AppendLength SL_NONE n = []"

definition AppendByteVector :: "bytes \<Rightarrow> ESerializeLength \<Rightarrow> bytes" where
  "AppendByteVector bs prepend_length = AppendLength prepend_length (length bs) @ bs"

definition AppendVarStr :: "bytes \<Rightarrow> bytes" where
  "AppendVarStr s = AppendLength SL_U64 (length s) @ s"

definition AppendBigInteger :: "bytes \<Rightarrow> bytes" where
  "AppendBigInteger bigInteger = bigInteger"

section \<open>The reader\<close>

record ByteBuffer =
  m_index :: u64
  m_bytes :: bytes
  m_protocolVersion :: EProtocolVersion

type_synonym 'a reader = "ByteBuffer \<Rightarrow> ('a \<times> ByteBuffer) result"

definition ByteBuffer_New :: "bytes \<Rightarrow> EProtocolVersion \<Rightarrow> ByteBuffer" where
  "ByteBuffer_New bs version = \<lparr>m_index = 0, m_bytes = bs, m_protocolVersion = version\<rparr>"

text \<open>
  Copying the range of \<open>n\<close> bytes at the index. Where the range is not inside the vector (the sum of
  index and length has wrapped around), constructing the copy throws \<open>std::length_error\<close>.
\<close>

definition copy_range :: "ByteBuffer \<Rightarrow> u64 \<Rightarrow> (bytes \<times> ByteBuffer) result" where
  "copy_range b n =
     (if unat (m_index b) + unat n \<le> length (m_bytes b)
      then Inr (take (unat n) (drop (unat (m_index b)) (m_bytes b)), b\<lparr>m_index := m_index b + n\<rparr>)
      else Inl StdException)"

definition read_checked :: "u64 \<Rightarrow> bytes reader" where
  "read_checked n b =
     (if of_nat (length (m_bytes b)) < m_index b + n then Inl DeserializationException
      else copy_range b n)"

definition ReadBigEndian :: "nat \<Rightarrow> nat reader" where
  "ReadBigEndian n b = rbind (read_checked (of_nat n) b) (\<lambda>(bs, b). Inr (le_value (rev bs), b))"

definition ReadLittleEndian :: "nat \<Rightarrow> nat reader" where
  "ReadLittleEndian n b = rbind (read_checked (of_nat n) b) (\<lambda>(bs, b). Inr (le_value bs, b))"

definition ReadBigEndian_host :: "bool \<Rightarrow> nat \<Rightarrow> nat reader" where
  "ReadBigEndian_host isBigEndian n b =
     rbind (read_checked (of_nat n) b)
       (\<lambda>(bs, b). Inr (host_value isBigEndian (if isBigEndian then bs else rev bs), b))"

definition ReadU8 :: "u8 reader" where
  "ReadU8 b = rbind (ReadBigEndian 1 b) (\<lambda>(x, b). Inr (of_nat x, b))"
definition ReadU16 :: "u16 reader" where
  "ReadU16 b = rbind (ReadBigEndian 2 b) (\<lambda>(x, b). Inr (of_nat x, b))"
definition ReadU32 :: "u32 reader" where
  "ReadU32 b = rbind (ReadBigEndian 4 b) (\<lambda>(x, b). Inr (of_nat x, b))"
definition ReadU64 :: "u64 reader" where
  "ReadU64 b = rbind (ReadBigEndian 8 b) (\<lambda>(x, b). Inr (of_nat x, b))"
definition ReadU64_LE :: "u64 reader" where
  "ReadU64_LE b = rbind (ReadLittleEndian 8 b) (\<lambda>(x, b). Inr (of_nat x, b))"

definition ReadVector :: "u64 \<Rightarrow> bytes reader" where
  "ReadVector numBytes = read_checked numBytes"

definition ReadBigInteger :: "nat \<Rightarrow> bytes reader" where
  "ReadBigInteger NUM_BYTES = read_checked (of_nat NUM_BYTES)"

definition ReadVarStr :: "bytes reader" where
  "ReadVarStr b =
     rbind (ReadU64 b) (\<lambda>(stringLength, b).
       if stringLength = 0 then Inr ([], b) else read_checked stringLength b)"

definition ReadString :: "u64 \<Rightarrow> bytes reader" where
  "ReadString n = read_checked n"

definition GetRemainingSize :: "ByteBuffer \<Rightarrow> u64" where
  "GetRemainingSize b = of_nat (length (m_bytes b)) - m_index b"

definition ReadRemainingBytes :: "ByteBuffer \<Rightarrow> bytes \<times> ByteBuffer" where
  "ReadRemainingBytes b =
     (drop (unat (m_index b)) (m_bytes b), b\<lparr>m_index := m_index b + GetRemainingSize b\<rparr>)"

text \<open>The loops \<open>for (i = 0; i < num; i++) xs.push_back(T::Deserialize(byteBuffer))\<close>.\<close>

fun read_n :: "'a reader \<Rightarrow> nat \<Rightarrow> 'a list reader" where
  "read_n d 0 b = Inr ([], b)"
| "read_n d (Suc n) b =
     rbind (d b) (\<lambda>(x, b). rbind (read_n d n b) (\<lambda>(xs, b). Inr (x # xs, b)))"

section \<open>Big integers\<close>

text \<open>
  \<open>operator<\<close> and \<open>operator==\<close> of \<open>CBigInteger\<close>, and \<open>operator++\<close>, which scans from the last byte. Its
  loop counter is unsigned, so on the maximal value it runs past the first byte: an out-of-range access.
\<close>

fun BigInteger_less :: "bytes \<Rightarrow> bytes \<Rightarrow> bool" where
  "BigInteger_less (x # xs) (y # ys) = (if y \<noteq> x then x < y else BigInteger_less xs ys)"
| "BigInteger_less _ _ = False"

fun BigInteger_equal :: "bytes \<Rightarrow> bytes \<Rightarrow> bool" where
  "BigInteger_equal (x # xs) (y # ys) = (x = y \<and> BigInteger_equal xs ys)"
| "BigInteger_equal _ _ = True"

fun increment_le :: "bytes \<Rightarrow> bytes option" where
  "increment_le [] = None"
| "increment_le (x # xs) =
     (if x = 255 then map_option ((#) 0) (increment_le xs) else Some ((x + 1) # xs))"

definition BigInteger_increment :: "bytes \<Rightarrow> bytes option" where
  "BigInteger_increment m_data = map_option rev (increment_le (rev m_data))"

definition BigInteger_ValueOf :: "nat \<Rightarrow> u8 \<Rightarrow> bytes" where
  "BigInteger_ValueOf NUM_BYTES value' = (replicate NUM_BYTES 0)[NUM_BYTES - 1 := value']"

definition BigInteger_xor :: "bytes \<Rightarrow> bytes \<Rightarrow> bytes" where
  "BigInteger_xor a b = map2 (XOR) a b"

section \<open>Facts about integer encodings\<close>

lemma length_le_bytes [simp]: "length (le_bytes n x) = n"
  by (induction n arbitrary: x) simp_all

lemma length_be_bytes [simp]: "length (be_bytes n x) = n"
  by (simp add: be_bytes_def)

lemma le_value_le_bytes [simp]: "le_value (le_bytes n x) = x mod 256 ^ n"
proof (induction n arbitrary: x)
  case 0
  then show ?case by simp
next
  case (Suc n)
  have "x mod 256 ^ Suc n = x mod 256 + 256 * (x div 256 mod 256 ^ n)"
    using mod_mult2_eq [of x 256 "256 ^ n"] by simp
  with Suc show ?case by (simp add: unat_of_nat)
qed

lemma le_value_less: "le_value bs < 256 ^ length bs"
proof (induction bs)
  case (Cons b bs)
  have "unat b < 256" using unsigned_less [of b, where ?'a = nat] by simp
  with Cons show ?case by simp
qed simp

lemma le_bytes_le_value [simp]: "le_bytes (length bs) (le_value bs) = bs"
proof (induction bs)
  case (Cons b bs)
  have "unat b < 256" using unsigned_less [of b, where ?'a = nat] by simp
  with Cons show ?case by simp
qed simp

theorem Append_host_be: "Append_host be n x = be_bytes n x"
  by (simp add: Append_host_def host_bytes_def be_bytes_def)

theorem AppendLittleEndian_host_le: "AppendLittleEndian_host be n x = le_bytes n x"
  by (simp add: AppendLittleEndian_host_def host_bytes_def)

theorem ReadBigEndian_host_be: "ReadBigEndian_host be n b = ReadBigEndian n b"
  by (auto simp: ReadBigEndian_host_def ReadBigEndian_def host_value_def rbind_def split: sum.split)

lemmas Append_defs = AppendU8_def AppendU16_def AppendU32_def AppendU64_def

lemma length_Append [simp]:
  "length (AppendU8 a) = 1" "length (AppendU16 b) = 2" "length (AppendU32 c) = 4"
  "length (AppendU64 d) = 8"
  by (simp_all add: Append_defs)

section \<open>Facts about the reader\<close>

definition bb_wf :: "ByteBuffer \<Rightarrow> bool" where
  "bb_wf b \<longleftrightarrow> unat (m_index b) \<le> length (m_bytes b) \<and> length (m_bytes b) < 2 ^ 63"

definition bb_rest :: "ByteBuffer \<Rightarrow> bytes" where
  "bb_rest b = drop (unat (m_index b)) (m_bytes b)"

text \<open>\<open>decodes d v bs x\<close>: reading at \<open>bs\<close> yields \<open>x\<close> and consumes exactly \<open>bs\<close>.\<close>

definition decodes :: "'a reader \<Rightarrow> EProtocolVersion \<Rightarrow> bytes \<Rightarrow> 'a \<Rightarrow> bool" where
  "decodes d v bs x \<longleftrightarrow>
     (\<forall>b rest. bb_wf b \<longrightarrow> m_protocolVersion b = v \<longrightarrow> bb_rest b = bs @ rest \<longrightarrow>
        (\<exists>b'. d b = Inr (x, b') \<and> bb_wf b' \<and> m_protocolVersion b' = v \<and> bb_rest b' = rest \<and>
              m_bytes b' = m_bytes b))"

lemma decodesI:
  assumes "\<And>b rest. bb_wf b \<Longrightarrow> m_protocolVersion b = v \<Longrightarrow> bb_rest b = bs @ rest \<Longrightarrow>
    \<exists>b'. d b = Inr (x, b') \<and> bb_wf b' \<and> m_protocolVersion b' = v \<and> bb_rest b' = rest \<and>
         m_bytes b' = m_bytes b"
  shows "decodes d v bs x"
  using assms by (simp add: decodes_def)

lemma decodes_return: "decodes (\<lambda>b. Inr (x, b)) v [] x"
  by (simp add: decodes_def)

lemma decodes_bind:
  assumes "decodes d v bs x" "decodes (f x) v bs' y"
  shows "decodes (\<lambda>b. rbind (d b) (\<lambda>(x, b). f x b)) v (bs @ bs') y"
proof (rule decodesI)
  fix b rest
  assume b: "bb_wf b" "m_protocolVersion b = v" "bb_rest b = (bs @ bs') @ rest"
  then obtain b1 where b1: "d b = Inr (x, b1)" "bb_wf b1" "m_protocolVersion b1 = v"
      "bb_rest b1 = bs' @ rest" "m_bytes b1 = m_bytes b"
    using assms(1) by (auto simp: decodes_def)
  then show "\<exists>b'. rbind (d b) (\<lambda>(x, b). f x b) = Inr (y, b') \<and> bb_wf b' \<and>
      m_protocolVersion b' = v \<and> bb_rest b' = rest \<and> m_bytes b' = m_bytes b"
    using assms(2) by (auto simp: decodes_def)
qed

lemma decodes_map:
  assumes "decodes d v bs x"
  shows "decodes (\<lambda>b. rbind (d b) (\<lambda>(x, b). Inr (f x, b))) v bs (f x)"
  using decodes_bind [where f = "\<lambda>x b. Inr (f x, b)", OF assms decodes_return] by simp

lemma decodes_read_checked:
  assumes "length bs < 2 ^ 63" "n = of_nat (length bs)"
  shows "decodes (read_checked n) v bs bs"
proof (rule decodesI)
  fix b rest
  assume b: "bb_wf b" "m_protocolVersion b = v" "bb_rest b = bs @ rest"
  have un: "unat n = length bs" using assms of_nat_inverse [of "length bs" n] by simp
  have len: "length (m_bytes b) < 2 ^ 63" "unat (m_index b) \<le> length (m_bytes b)"
    using b(1) by (auto simp: bb_wf_def)
  have "length (bb_rest b) = length bs + length rest" using b(3) by simp
  then have fits: "unat (m_index b) + length bs \<le> length (m_bytes b)"
    using len by (simp add: bb_rest_def)
  have sum: "unat (m_index b + n) = unat (m_index b) + length bs"
    using un fits len(1) by (subst unat_add_no_overflow) simp_all
  have ulen: "unat (of_nat (length (m_bytes b)) :: u64) = length (m_bytes b)"
    using len(1) of_nat_inverse [of "length (m_bytes b)" "of_nat (length (m_bytes b)) :: u64"] by simp
  have "drop (length bs) (bb_rest b) = rest" using b(3) by simp
  then have rest: "drop (length bs + unat (m_index b)) (m_bytes b) = rest"
    by (simp add: bb_rest_def)
  show "\<exists>b'. read_checked n b = Inr (bs, b') \<and> bb_wf b' \<and> m_protocolVersion b' = v \<and>
      bb_rest b' = rest \<and> m_bytes b' = m_bytes b"
    using b fits sum ulen un len rest
    by (auto simp: read_checked_def copy_range_def word_less_nat_alt bb_wf_def bb_rest_def add.commute)
qed

lemma decodes_ReadBigEndian:
  assumes "x < 256 ^ n" "n < 256"
  shows "decodes (ReadBigEndian n) v (be_bytes n x) x"
proof -
  have "decodes (read_checked (of_nat n)) v (be_bytes n x) (be_bytes n x)"
    using assms(2) by (intro decodes_read_checked) simp_all
  from decodes_map [OF this, of "\<lambda>bs. le_value (rev bs)"] assms(1) show ?thesis
    by (simp add: ReadBigEndian_def [abs_def] be_bytes_def)
qed

lemma decodes_U8: "decodes ReadU8 v (AppendU8 x) x"
  using decodes_map [OF decodes_ReadBigEndian [of "unat x" 1 v], of "of_nat :: nat \<Rightarrow> u8"] unsigned_less [of x, where ?'a = nat]
  by (simp add: ReadU8_def [abs_def] AppendU8_def)

lemma decodes_U16: "decodes ReadU16 v (AppendU16 x) x"
  using decodes_map [OF decodes_ReadBigEndian [of "unat x" 2 v], of "of_nat :: nat \<Rightarrow> u16"] unsigned_less [of x, where ?'a = nat]
  by (simp add: ReadU16_def [abs_def] AppendU16_def)

lemma decodes_U32: "decodes ReadU32 v (AppendU32 x) x"
  using decodes_map [OF decodes_ReadBigEndian [of "unat x" 4 v], of "of_nat :: nat \<Rightarrow> u32"] unsigned_less [of x, where ?'a = nat]
  by (simp add: ReadU32_def [abs_def] AppendU32_def)

lemma decodes_U64: "decodes ReadU64 v (AppendU64 x) x"
  using decodes_map [OF decodes_ReadBigEndian [of "unat x" 8 v], of "of_nat :: nat \<Rightarrow> u64"]
  by (simp add: ReadU64_def [abs_def] AppendU64_def)

lemma decodes_BigInteger:
  "length bs = n \<Longrightarrow> n < 256 \<Longrightarrow> decodes (ReadBigInteger n) v (AppendBigInteger bs) bs"
  unfolding ReadBigInteger_def AppendBigInteger_def by (rule decodes_read_checked) auto

lemma decodes_Vector:
  "length bs < 2 ^ 63 \<Longrightarrow> n = of_nat (length bs) \<Longrightarrow> decodes (ReadVector n) v bs bs"
  unfolding ReadVector_def by (rule decodes_read_checked)

lemmas decodes_ints = decodes_U8 decodes_U16 decodes_U32 decodes_U64

lemma decodes_VarStr:
  assumes "length s < 2 ^ 63"
  shows "decodes ReadVarStr v (AppendVarStr s) s"
proof -
  let ?f = "\<lambda>n b. if n = 0 then Inr ([], b) else read_checked n b"
  have un: "unat (of_nat (length s) :: u64) = length s"
    using assms of_nat_inverse [of "length s" "of_nat (length s) :: u64"] by simp
  have "decodes (?f (of_nat (length s))) v s s"
  proof (cases "s = []")
    case True
    then show ?thesis using decodes_return [of "[]"] by simp
  next
    case False
    then have "(of_nat (length s) :: u64) \<noteq> 0" using un by auto
    then show ?thesis using decodes_read_checked [OF assms refl] by simp
  qed
  from decodes_bind [OF decodes_U64, where f = ?f, OF this] show ?thesis
    by (simp add: ReadVarStr_def [abs_def] AppendVarStr_def)
qed

lemma decodes_read_n:
  assumes "\<And>x. x \<in> set xs \<Longrightarrow> decodes d v (e x) x"
  shows "decodes (read_n d (length xs)) v (concat (map e xs)) xs"
  using assms
proof (induction xs)
  case Nil
  then show ?case using decodes_return [of "[]"] by (simp add: decodes_def)
next
  case (Cons x xs)
  have "decodes (read_n d (length xs)) v (concat (map e xs)) xs" using Cons by simp
  from decodes_map [OF this, of "(#) x"]
  have tl: "decodes (\<lambda>b. rbind (read_n d (length xs) b) (\<lambda>(xs, b). Inr (x # xs, b))) v
      (concat (map e xs)) (x # xs)" .
  have hd: "decodes d v (e x) x" using Cons.prems by simp
  from decodes_bind [OF hd, where f = "\<lambda>x b. rbind (read_n d (length xs) b) (\<lambda>(xs, b). Inr (x # xs, b))", OF tl]
  show ?case by (simp add: decodes_def)
qed

lemma decodes_New:
  assumes "decodes d v bs x" "length bs < 2 ^ 63"
  shows "\<exists>b'. d (ByteBuffer_New bs v) = Inr (x, b') \<and> bb_rest b' = []"
proof -
  have "bb_wf (ByteBuffer_New bs v)" "bb_rest (ByteBuffer_New bs v) = bs @ []"
    using assms(2) by (simp_all add: bb_wf_def bb_rest_def ByteBuffer_New_def)
  moreover have "m_protocolVersion (ByteBuffer_New bs v) = v" by (simp add: ByteBuffer_New_def)
  ultimately show ?thesis using assms(1) unfolding decodes_def by blast
qed

lemma decodes_unique:
  assumes "decodes d v bs x" "decodes d v bs' y" "bs @ r = bs' @ r'" "length (bs @ r) < 2 ^ 63"
  shows "x = y \<and> r = r'"
proof -
  let ?b = "ByteBuffer_New (bs @ r) v"
  have b: "bb_wf ?b" "bb_rest ?b = bs @ r" "m_protocolVersion ?b = v"
    using assms(4) by (simp_all add: bb_wf_def bb_rest_def ByteBuffer_New_def)
  then obtain b1 where "d ?b = Inr (x, b1)" "bb_rest b1 = r"
    using assms(1) unfolding decodes_def by blast
  moreover obtain b2 where "d ?b = Inr (y, b2)" "bb_rest b2 = r'"
    using assms(2) b assms(3) unfolding decodes_def by metis
  ultimately show ?thesis by simp
qed

section \<open>The contract of a serialisable type\<close>

text \<open>
  What every \<open>Serialize\<close>/\<open>Deserialize\<close> pair of the models promises: on well-formed values, reading
  back what was written yields the value and consumes exactly the bytes written. From this law alone,
  the encoding is self-delimiting and the length-prefixed and counted sequences of such values, which
  bodies, blocks and messages are made of, read back as well.
\<close>

locale codec =
  fixes ser :: "EProtocolVersion \<Rightarrow> 'a \<Rightarrow> bytes"
    and deser :: "'a reader"
    and valid :: "EProtocolVersion \<Rightarrow> 'a \<Rightarrow> bool"
  assumes reads_back: "valid v x \<Longrightarrow> decodes deser v (ser v x) x"
begin

lemma roundtrip:
  "valid v x \<Longrightarrow> length (ser v x) < 2 ^ 63 \<Longrightarrow>
   \<exists>b'. deser (ByteBuffer_New (ser v x) v) = Inr (x, b') \<and> bb_rest b' = []"
  using reads_back by (rule decodes_New)

lemma self_delimiting:
  "valid v x \<Longrightarrow> valid v y \<Longrightarrow> ser v x @ r = ser v y @ r' \<Longrightarrow> length (ser v x @ r) < 2 ^ 63 \<Longrightarrow>
   x = y \<and> r = r'"
  by (rule decodes_unique [OF reads_back reads_back])

lemma sequence:
  "(\<And>x. x \<in> set xs \<Longrightarrow> valid v x) \<Longrightarrow>
   decodes (read_n deser (length xs)) v (concat (map (ser v) xs)) xs"
  by (intro decodes_read_n reads_back)

end

section \<open>Big integer order\<close>

lemma BigInteger_less_iff: "length xs = length ys \<Longrightarrow> BigInteger_less xs ys \<longleftrightarrow> xs < ys"
  by (induction xs ys rule: list_induct2) auto

lemma BigInteger_equal_iff: "length xs = length ys \<Longrightarrow> BigInteger_equal xs ys \<longleftrightarrow> xs = ys"
  by (induction xs ys rule: list_induct2) auto

lemma word_not_max_Suc: "(x::u8) \<noteq> 255 \<Longrightarrow> unat (x + 1) = Suc (unat x)"
proof -
  assume "x \<noteq> 255"
  then have "unat x \<noteq> 255" by (auto simp: word_unat_eq_iff)
  moreover have "unat x < 256" using unsigned_less [of x, where ?'a = nat] by simp
  ultimately have "unat x + 1 < 256" by simp
  then show ?thesis by (simp add: unat_word_ariths)
qed

lemma increment_le_value:
  "increment_le xs = Some ys \<Longrightarrow> le_value ys = Suc (le_value xs) \<and> length ys = length xs"
proof (induction xs arbitrary: ys)
  case (Cons x xs)
  show ?case
  proof (cases "x = 255")
    case True
    with Cons show ?thesis by auto
  next
    case False
    then have "unat (x + 1) = Suc (unat x)"
      using word_not_max_Suc [of x] by simp
    with Cons.prems False show ?thesis by auto
  qed
qed simp

lemma increment_le_None: "increment_le xs = None \<longleftrightarrow> (\<forall>x \<in> set xs. x = 255)"
  by (induction xs) auto

section \<open>Properties of the reader and the writer\<close>

text \<open>
  The wire format does not depend on the byte order of the hosts: an integer written by \<open>Append\<close> on a
  host of either byte order is read back by \<open>ReadBigEndian\<close> on a host of either byte order, and
  exactly its bytes are consumed.
\<close>

theorem integers_portable:
  assumes "x < 256 ^ n" "n < 256"
  shows "decodes (ReadBigEndian_host reader_be n) v (Append_host writer_be n x) x"
proof -
  have "ReadBigEndian_host reader_be n = ReadBigEndian n"
    by (rule ext) (rule ReadBigEndian_host_be)
  then show ?thesis using decodes_ReadBigEndian [OF assms] by (simp add: Append_host_be)
qed

theorem integers_portable_witness:
  "decodes (ReadBigEndian_host True 8) V2 (Append_host False 8 123456789) 123456789"
  by (rule integers_portable) simp_all

text \<open>
  The bounds check of the reader adds index and length at 64 bits. For a length near the top of the
  range the sum wraps around and passes the check: a string that announces \<open>2 ^ 64 - 8\<close> bytes is
  not rejected as a deserialization error but reaches the construction of the string.
\<close>

theorem ReadVarStr_bounds_check_wraps:
  assumes "length s < 2 ^ 62"
  shows "ReadVarStr (ByteBuffer_New (AppendU64 (- 8) @ s) v) = Inl StdException"
proof -
  let ?b = "ByteBuffer_New (AppendU64 (- 8) @ s) v"
  have wf: "bb_wf ?b" "m_protocolVersion ?b = v" "bb_rest ?b = AppendU64 (- 8) @ s"
    using assms by (simp_all add: bb_wf_def bb_rest_def ByteBuffer_New_def)
  obtain b' where b': "ReadU64 ?b = Inr (- 8, b')" "bb_wf b'" "bb_rest b' = s" "m_bytes b' = m_bytes ?b"
    using decodes_U64 wf unfolding decodes_def by metis
  have "unat (m_index b') = 8"
  proof -
    have "length (bb_rest b') = length (m_bytes b') - unat (m_index b')" by (simp add: bb_rest_def)
    moreover have "length (m_bytes b') = 8 + length s" using b'(4) by (simp add: ByteBuffer_New_def)
    moreover have "length (bb_rest b') = length s" using b'(3) by simp
    ultimately show ?thesis using b'(2) unfolding bb_wf_def by arith
  qed
  then have i: "m_index b' = 8" by (simp add: word_unat_eq_iff)
  have "unat (- 8 :: u64) = 2 ^ 64 - 8" by simp
  then have "read_checked (- 8) b' = Inl StdException"
    using assms b'(4) by (simp add: read_checked_def copy_range_def i ByteBuffer_New_def)
  then show ?thesis using b'(1) by (simp add: ReadVarStr_def rbind_def)
qed

theorem ReadVarStr_bounds_check_wraps_witness:
  "ReadVarStr (ByteBuffer_New (AppendU64 (- 8) @ [1, 2, 3]) V2) = Inl StdException"
  by (rule ReadVarStr_bounds_check_wraps) simp

text \<open>
  \<open>operator++\<close> of a big integer adds one to its value and keeps its length, whatever the carry, and
  has no result exactly for the maximal value, on which the loop of the code leaves the vector.
\<close>

theorem BigInteger_increment_correct:
  "(case BigInteger_increment m_data of
      Some m_data' \<Rightarrow> le_value (rev m_data') = Suc (le_value (rev m_data)) \<and> length m_data' = length m_data
    | None \<Rightarrow> list_all (\<lambda>x. x = 255) m_data)"
  using increment_le_value [of "rev m_data"] increment_le_None [of "rev m_data"]
  by (auto simp: BigInteger_increment_def list_all_iff split: option.splits)

end
