(* ===== verification/Consensus.thy ===== *)
theory Consensus
  imports Prelude
begin

text \<open>
  The consensus parameters and formulas of \<^verbatim>\<open>include/Consensus.h\<close>, with the C++ integer widths. The
  environment that the code takes from \<open>Global::GetEnv()\<close> is an argument.
\<close>

section \<open>The code\<close>

datatype Environment = MAINNET | FLOONET | AUTOMATED_TESTING

definition GRIN_BASE :: u64 where "GRIN_BASE = 1000000000"
definition REWARD :: u64 where "REWARD = 60 * GRIN_BASE"

definition INPUT_WEIGHT :: u64 where "INPUT_WEIGHT = 1"
definition OUTPUT_WEIGHT :: u64 where "OUTPUT_WEIGHT = 21"
definition KERNEL_WEIGHT :: u64 where "KERNEL_WEIGHT = 3"
definition MAX_BLOCK_WEIGHT :: u64 where "MAX_BLOCK_WEIGHT = 40000"

text \<open>The arguments of \<open>CalculateWeightV4\<close> are signed; its result is converted back to unsigned.\<close>

definition CalculateWeightV4 :: "u64 \<Rightarrow> u64 \<Rightarrow> u64 \<Rightarrow> u64" where
  "CalculateWeightV4 num_inputs num_outputs numKernels =
     (let w = (- num_inputs) + 4 * num_outputs + numKernels
      in if sint w < 1 then 1 else w)"

definition CalculateWeightV5 :: "u64 \<Rightarrow> u64 \<Rightarrow> u64 \<Rightarrow> u64" where
  "CalculateWeightV5 num_inputs num_outputs num_kernels =
     num_inputs * INPUT_WEIGHT + num_outputs * OUTPUT_WEIGHT + num_kernels * KERNEL_WEIGHT"

definition BLOCK_TIME_SEC :: u64 where "BLOCK_TIME_SEC = 60"
definition HOUR_HEIGHT :: u64 where "HOUR_HEIGHT = 3600 div BLOCK_TIME_SEC"
definition DAY_HEIGHT :: u64 where "DAY_HEIGHT = 24 * HOUR_HEIGHT"
definition WEEK_HEIGHT :: u64 where "WEEK_HEIGHT = 7 * DAY_HEIGHT"
definition YEAR_HEIGHT :: u64 where "YEAR_HEIGHT = 52 * WEEK_HEIGHT"
definition COINBASE_MATURITY :: u64 where "COINBASE_MATURITY = (24 * 60 * 60) div BLOCK_TIME_SEC"

definition GetMaxCoinbaseHeight :: "Environment \<Rightarrow> u64 \<Rightarrow> u64" where
  "GetMaxCoinbaseHeight environment blockHeight =
     (if environment = AUTOMATED_TESTING then max blockHeight 25 - 25
      else max blockHeight COINBASE_MATURITY - COINBASE_MATURITY)"

definition CUT_THROUGH_HORIZON :: u64 where "CUT_THROUGH_HORIZON = WEEK_HEIGHT"

definition GetHorizonHeight :: "u64 \<Rightarrow> u64" where
  "GetHorizonHeight blockHeight = max blockHeight CUT_THROUGH_HORIZON - CUT_THROUGH_HORIZON"

definition STATE_SYNC_THRESHOLD :: u64 where "STATE_SYNC_THRESHOLD = 2 * DAY_HEIGHT"
definition TXHASHSET_ARCHIVE_INTERVAL :: u64 where "TXHASHSET_ARCHIVE_INTERVAL = 12 * HOUR_HEIGHT"

definition GetTxHashSetArchiveInterval :: "Environment \<Rightarrow> u64" where
  "GetTxHashSetArchiveInterval environment =
     (if environment = AUTOMATED_TESTING then 10 else TXHASHSET_ARCHIVE_INTERVAL)"

definition GetTxHashSetArchiveHeight :: "Environment \<Rightarrow> u64 \<Rightarrow> u64" where
  "GetTxHashSetArchiveHeight environment headerHeight =
     (let archiveInterval = GetTxHashSetArchiveInterval environment;
          txHashSetHeight = (if STATE_SYNC_THRESHOLD < headerHeight
                             then headerHeight - STATE_SYNC_THRESHOLD else 0)
      in txHashSetHeight - txHashSetHeight mod archiveInterval)"

definition DIFFICULTY_ADJUST_WINDOW :: u64 where "DIFFICULTY_ADJUST_WINDOW = HOUR_HEIGHT"
definition BLOCK_TIME_WINDOW :: u64 where
  "BLOCK_TIME_WINDOW = DIFFICULTY_ADJUST_WINDOW * BLOCK_TIME_SEC"
definition DEFAULT_FUTURE_TIME_LIMIT_SEC :: u64 where
  "DEFAULT_FUTURE_TIME_LIMIT_SEC = 5 * BLOCK_TIME_SEC"

text \<open>
  \<open>time_since_epoch().count()\<close> counts ticks of \<open>system_clock\<close>, whose number per second depends on the
  platform (\<open>10 ^ 9\<close> with libstdc++). The current time is given in ticks.
\<close>

definition GetMaxBlockTime :: "u64 \<Rightarrow> u64 \<Rightarrow> u64" where
  "GetMaxBlockTime ticksPerSecond currentTime =
     currentTime + DEFAULT_FUTURE_TIME_LIMIT_SEC * ticksPerSecond"

definition WTEMA_HALF_LIFE :: u64 where "WTEMA_HALF_LIFE = 4 * 3600"

definition PROOFSIZE :: nat where "PROOFSIZE = 42"
definition DEFAULT_MIN_EDGE_BITS :: u8 where "DEFAULT_MIN_EDGE_BITS = 31"
definition SECOND_POW_EDGE_BITS :: u8 where "SECOND_POW_EDGE_BITS = 29"
definition BASE_EDGE_BITS :: u8 where "BASE_EDGE_BITS = 24"
definition CLAMP_FACTOR :: u64 where "CLAMP_FACTOR = 2"
definition DMA_DAMP_FACTOR :: u64 where "DMA_DAMP_FACTOR = 3"
definition AR_SCALE_DAMP_FACTOR :: u64 where "AR_SCALE_DAMP_FACTOR = 13"
definition MIN_AR_SCALE :: u64 where "MIN_AR_SCALE = AR_SCALE_DAMP_FACTOR"
definition MIN_DMA_DIFFICULTY :: u64 where "MIN_DMA_DIFFICULTY = DMA_DAMP_FACTOR"

text \<open>
  \<open>2ull << (edge_bits - BASE_EDGE_BITS)\<close>: for a number of edge bits below 24 or above 87 the shift
  amount is negative or too large, which C++ leaves undefined; this is \<open>None\<close>.
\<close>

definition shifted_two :: "u8 \<Rightarrow> u64 option" where
  "shifted_two edge_bits =
     (if BASE_EDGE_BITS \<le> edge_bits \<and> unat edge_bits - unat BASE_EDGE_BITS < 64
      then Some (push_bit (unat edge_bits - unat BASE_EDGE_BITS) 2) else None)"

definition GraphWeight :: "u64 \<Rightarrow> u8 \<Rightarrow> u64 option" where
  "GraphWeight height edge_bits =
     (let expiry_height = YEAR_HEIGHT;
          xpr_edge_bits = (ucast edge_bits :: u64);
          xpr_edge_bits =
            (if edge_bits = 31 \<and> expiry_height \<le> height
             then xpr_edge_bits - min xpr_edge_bits (1 + (height - expiry_height) div WEEK_HEIGHT)
             else xpr_edge_bits)
      in map_option (\<lambda>s. s * xpr_edge_bits) (shifted_two edge_bits))"

definition Damp :: "u64 \<Rightarrow> u64 \<Rightarrow> u64 \<Rightarrow> u64" where
  "Damp actual goal damp_factor = (actual + (damp_factor - 1) * goal) div damp_factor"

definition Clamp :: "u64 \<Rightarrow> u64 \<Rightarrow> u64 \<Rightarrow> u64" where
  "Clamp actual goal clamp_factor = max (goal div clamp_factor) (min actual (goal * clamp_factor))"

definition SecondaryPOWRatio :: "u64 \<Rightarrow> u64" where
  "SecondaryPOWRatio height = 90 - min 90 (height div (2 * YEAR_HEIGHT div 90))"

definition ScalingDifficulty :: "u8 \<Rightarrow> u64 option" where
  "ScalingDifficulty edgeBits = map_option (\<lambda>s. s * ucast edgeBits) (shifted_two edgeBits)"

definition C32_GRAPH_WEIGHT :: u64 where "C32_GRAPH_WEIGHT = push_bit (32 - 24) 2 * 32"

definition min_wtema_graph_weight :: "Environment \<Rightarrow> u64" where
  "min_wtema_graph_weight env =
     (if env = MAINNET then C32_GRAPH_WEIGHT else the (GraphWeight 0 SECOND_POW_EDGE_BITS))"

definition INITIAL_GRAPH_WEIGHT :: u32 where
  "INITIAL_GRAPH_WEIGHT = ucast (the (GraphWeight 0 SECOND_POW_EDGE_BITS))"

definition HARD_FORK_INTERVAL :: u64 where "HARD_FORK_INTERVAL = YEAR_HEIGHT div 2"
definition FLOONET_FIRST_HARD_FORK :: u64 where "FLOONET_FIRST_HARD_FORK = 185040"
definition FLOONET_SECOND_HARD_FORK :: u64 where "FLOONET_SECOND_HARD_FORK = 298080"
definition FLOONET_THIRD_HARD_FORK :: u64 where "FLOONET_THIRD_HARD_FORK = 552960"
definition FLOONET_FOURTH_HARD_FORK :: u64 where "FLOONET_FOURTH_HARD_FORK = 642240"

definition GetHeaderVersion :: "Environment \<Rightarrow> u64 \<Rightarrow> u16" where
  "GetHeaderVersion environment height =
     (if environment = FLOONET then
        (if height < FLOONET_FIRST_HARD_FORK then 1
         else if height < FLOONET_SECOND_HARD_FORK then 2
         else if height < FLOONET_THIRD_HARD_FORK then 3
         else if height < FLOONET_FOURTH_HARD_FORK then 4 else 5)
      else
        (if height < HARD_FORK_INTERVAL then 1
         else if height < 2 * HARD_FORK_INTERVAL then 2
         else if height < 3 * HARD_FORK_INTERVAL then 3
         else if height < 4 * HARD_FORK_INTERVAL then 4 else 5))"

fun IsSorted :: "('a \<Rightarrow> bytes) \<Rightarrow> (bytes \<Rightarrow> bytes \<Rightarrow> bool) \<Rightarrow> 'a list \<Rightarrow> bool" where
  "IsSorted hash gt (x # y # zs) = (\<not> gt (hash x) (hash y) \<and> IsSorted hash gt (y # zs))"
| "IsSorted hash gt _ = True"

lemmas height_defs = BLOCK_TIME_SEC_def HOUR_HEIGHT_def DAY_HEIGHT_def WEEK_HEIGHT_def
  YEAR_HEIGHT_def HARD_FORK_INTERVAL_def COINBASE_MATURITY_def CUT_THROUGH_HORIZON_def
  STATE_SYNC_THRESHOLD_def TXHASHSET_ARCHIVE_INTERVAL_def DIFFICULTY_ADJUST_WINDOW_def
  BLOCK_TIME_WINDOW_def

lemmas fork_defs = FLOONET_FIRST_HARD_FORK_def FLOONET_SECOND_HARD_FORK_def
  FLOONET_THIRD_HARD_FORK_def FLOONET_FOURTH_HARD_FORK_def

section \<open>Values\<close>

lemma heights:
  "HOUR_HEIGHT = 60" "DAY_HEIGHT = 1440" "WEEK_HEIGHT = 10080" "YEAR_HEIGHT = 524160"
  "COINBASE_MATURITY = 1440" "HARD_FORK_INTERVAL = 262080" "DIFFICULTY_ADJUST_WINDOW = 60"
  "BLOCK_TIME_WINDOW = 3600"
  by (simp_all add: height_defs)

section \<open>Properties\<close>

lemma threshold_mono:
  "a \<le> b \<Longrightarrow> x \<le> v \<Longrightarrow> u \<le> v \<Longrightarrow> (if a < t then x else u) \<le> (if b < t then x else (v :: u16))"
  for a b t :: u64
  by (auto dest: le_less_trans)

lemma GetHeaderVersion_mono:
  assumes "a \<le> b"
  shows "GetHeaderVersion env a \<le> GetHeaderVersion env b"
proof (cases "env = FLOONET")
  case True
  show ?thesis unfolding GetHeaderVersion_def if_P [OF True]
    by (intro threshold_mono assms) simp_all
next
  case False
  show ?thesis unfolding GetHeaderVersion_def if_not_P [OF False]
    by (intro threshold_mono assms) simp_all
qed

lemma GetHeaderVersion_range: "1 \<le> GetHeaderVersion env h \<and> GetHeaderVersion env h \<le> 5"
  by (simp add: GetHeaderVersion_def)

lemma Damp_between:
  assumes "unat actual + (unat d - 1) * unat goal < 2 ^ 64" "0 < unat d"
  shows "min (unat actual) (unat goal) \<le> unat (Damp actual goal d)"
    and "unat (Damp actual goal d) \<le> max (unat actual) (unat goal)"
proof -
  have d1: "unat (d - 1) = unat d - 1" using assms(2) by (simp add: unat_sub_no_underflow)
  have mult: "unat ((d - 1) * goal) = (unat d - 1) * unat goal"
    using assms(1) d1 by (simp add: unat_word_ariths)
  then have damp: "unat (Damp actual goal d) = (unat actual + (unat d - 1) * unat goal) div unat d"
    using assms(1) by (simp add: Damp_def unat_div unat_add_no_overflow)
  let ?lo = "min (unat actual) (unat goal)" and ?hi = "max (unat actual) (unat goal)"
  have split: "x + (unat d - 1) * x = unat d * x" for x
    using assms(2) by (cases "unat d") (simp_all add: algebra_simps)
  have "unat d * ?lo \<le> unat actual + (unat d - 1) * unat goal"
    unfolding split [symmetric] by (intro add_mono mult_le_mono2) auto
  then have "unat d * ?lo div unat d \<le> (unat actual + (unat d - 1) * unat goal) div unat d"
    by (rule div_le_mono)
  then show "?lo \<le> unat (Damp actual goal d)" using assms(2) damp by simp
  have "unat actual + (unat d - 1) * unat goal \<le> unat d * ?hi"
    unfolding split [symmetric] by (intro add_mono mult_le_mono2) auto
  then have "(unat actual + (unat d - 1) * unat goal) div unat d \<le> unat d * ?hi div unat d"
    by (rule div_le_mono)
  then show "unat (Damp actual goal d) \<le> ?hi" using assms(2) damp by simp
qed

lemma Clamp_between:
  assumes "unat goal * unat c < 2 ^ 64" "0 < unat c"
  shows "goal div c \<le> Clamp actual goal c \<and> Clamp actual goal c \<le> goal * c"
proof -
  have "unat (goal div c) \<le> unat goal" by (simp add: unat_div)
  also have "\<dots> \<le> unat goal * unat c" using assms(2) by simp
  also have "\<dots> = unat (goal * c)" using assms(1) by (simp add: unat_word_ariths)
  finally have "goal div c \<le> goal * c" by (simp add: word_le_nat_alt)
  then show ?thesis by (simp add: Clamp_def)
qed

end
