(* ===== verification/BitUtil.thy ===== *)
theory BitUtil
  imports Prelude
begin

text \<open>
  The bit manipulation helpers of \<^verbatim>\<open>include/Common/Util/BitUtil.h\<close>, at their C++ widths.
  \<open>FillOnesToRight\<close> is shown to be the mask of the bit width of its argument, \<open>CountBitsSet\<close> the
  population count, and the \<open>ConvertToU*\<close> functions the big-endian value of their bytes.
\<close>

definition FillOnesToRight :: "u64 \<Rightarrow> u64" where
  "FillOnesToRight input =
     (let x = input;
          x = x OR drop_bit 1 x;
          x = x OR drop_bit 2 x;
          x = x OR drop_bit 4 x;
          x = x OR drop_bit 8 x;
          x = x OR drop_bit 16 x;
          x = x OR drop_bit 32 x
      in x)"

text \<open>The loop of \<open>CountBitsSet\<close>: while \<open>n\<close> is not zero, add its low bit to an 8-bit counter.\<close>

function count_bits_loop :: "u64 \<Rightarrow> u8 \<Rightarrow> u8" where
  "count_bits_loop n count =
     (if n = 0 then count
      else count_bits_loop (drop_bit 1 n) (count + ucast (n AND 1)))"
  by pat_completeness auto
termination
  by (relation "measure (\<lambda>(n, count). unat n)")
     (auto simp: unat_drop_bit_one [simplified] unat_gt_0 intro!: div_less_dividend)

definition CountBitsSet :: "u64 \<Rightarrow> u8" where
  "CountBitsSet input = count_bits_loop input 0"

definition BitUtil_IsSet :: "u8 \<Rightarrow> u8 \<Rightarrow> bool" where
  "BitUtil_IsSet byte i = (0 < byte AND push_bit (unat i) 1)"

definition ConvertToU16 :: "u8 \<Rightarrow> u8 \<Rightarrow> u16" where
  "ConvertToU16 b1 b2 = push_bit 8 (ucast b1) OR ucast b2"

definition ConvertToU32 :: "u8 \<Rightarrow> u8 \<Rightarrow> u8 \<Rightarrow> u8 \<Rightarrow> u32" where
  "ConvertToU32 b1 b2 b3 b4 =
     push_bit 24 (ucast b1) OR push_bit 16 (ucast b2) OR push_bit 8 (ucast b3) OR ucast b4"

definition ConvertToU64 ::
    "u8 \<Rightarrow> u8 \<Rightarrow> u8 \<Rightarrow> u8 \<Rightarrow> u8 \<Rightarrow> u8 \<Rightarrow> u8 \<Rightarrow> u8 \<Rightarrow> u64" where
  "ConvertToU64 b1 b2 b3 b4 b5 b6 b7 b8 =
     push_bit 56 (ucast b1) OR push_bit 48 (ucast b2) OR push_bit 40 (ucast b3) OR
     push_bit 32 (ucast b4) OR push_bit 24 (ucast b5) OR push_bit 16 (ucast b6) OR
     push_bit 8 (ucast b7) OR ucast b8"

declare count_bits_loop.simps [simp del]

section \<open>FillOnesToRight is the mask of the bit width\<close>

text \<open>Bit \<open>n\<close> of the smeared value looks at a window of bits of the input; each step doubles it.\<close>

definition smeared :: "u64 \<Rightarrow> nat \<Rightarrow> u64 \<Rightarrow> bool" where
  "smeared x w y \<longleftrightarrow> (\<forall>n. bit y n \<longleftrightarrow> (\<exists>m. n \<le> m \<and> m < n + w \<and> bit x m))"

lemma smeared_start: "smeared x 1 x"
  by (auto simp: smeared_def le_less_Suc_eq)

lemma smeared_step:
  assumes "smeared x w y"
  shows "smeared x (w + w) (y OR drop_bit w y)"
  unfolding smeared_def
proof (intro allI iffI)
  fix n
  assume "bit (y OR drop_bit w y) n"
  then have "bit y n \<or> bit y (w + n)" by (simp add: bit_or_iff bit_drop_bit_eq)
  then show "\<exists>m. n \<le> m \<and> m < n + (w + w) \<and> bit x m"
  proof
    assume "bit y n"
    with assms obtain m where "n \<le> m" "m < n + w" "bit x m" by (auto simp: smeared_def)
    then show ?thesis by (intro exI [of _ m]) simp
  next
    assume "bit y (w + n)"
    with assms obtain m where "w + n \<le> m" "m < w + n + w" "bit x m" by (auto simp: smeared_def)
    then show ?thesis by (intro exI [of _ m]) simp
  qed
next
  fix n
  assume "\<exists>m. n \<le> m \<and> m < n + (w + w) \<and> bit x m"
  then obtain m where m: "n \<le> m" "m < n + (w + w)" "bit x m" by blast
  show "bit (y OR drop_bit w y) n"
  proof (cases "m < n + w")
    case True
    with m assms have "bit y n" by (auto simp: smeared_def)
    then show ?thesis by (simp add: bit_or_iff)
  next
    case False
    with m assms have "bit y (w + n)" unfolding smeared_def by auto
    then show ?thesis by (simp add: bit_or_iff bit_drop_bit_eq)
  qed
qed

lemma smeared_FillOnesToRight: "smeared x 64 (FillOnesToRight x)"
proof -
  have twice: "1 + 1 = (2::nat)" "2 + 2 = (4::nat)" "4 + 4 = (8::nat)" "8 + 8 = (16::nat)"
    "16 + 16 = (32::nat)" "32 + 32 = (64::nat)" by simp_all
  show ?thesis
    unfolding FillOnesToRight_def Let_def
    by (intro smeared_step [where w = 32, unfolded twice] smeared_step [where w = 16, unfolded twice]
        smeared_step [where w = 8, unfolded twice] smeared_step [where w = 4, unfolded twice]
        smeared_step [where w = 2, unfolded twice] smeared_step [where w = 1, unfolded twice]
        smeared_start)
qed

lemma less_two_power_iff_bits: "unat (x::u64) < 2 ^ k \<longleftrightarrow> (\<forall>m \<ge> k. \<not> bit x m)"
proof -
  have bit_nat: "bit (unat x) m \<longleftrightarrow> bit x m" for m
    using bit_imp_le_length [of x m] by (auto simp: bit_unsigned_iff)
  have "unat x < 2 ^ k \<longleftrightarrow> take_bit k (unat x) = unat x"
    by (simp only: take_bit_nat_eq_self_iff)
  also have "\<dots> \<longleftrightarrow> (\<forall>m. m < k \<and> bit x m \<longleftrightarrow> bit x m)"
    by (simp only: bit_eq_iff bit_take_bit_iff bit_nat possible_bit_nat simp_thms)
  also have "\<dots> \<longleftrightarrow> (\<forall>m \<ge> k. \<not> bit x m)"
    by (meson leD leI)
  finally show ?thesis .
qed

theorem FillOnesToRight_mask: "FillOnesToRight x = mask (bit_width (unat x))"
proof (rule bit_word_eqI)
  fix n
  assume "n < LENGTH(64)"
  let ?w = "bit_width (unat x)"
  have "bit (FillOnesToRight x) n \<longleftrightarrow> (\<exists>m \<ge> n. bit x m)"
    using smeared_FillOnesToRight [of x] bit_imp_le_length [of x]
    by (fastforce simp: smeared_def)
  also have "\<dots> \<longleftrightarrow> n < ?w"
    using less_two_power_iff_bits [of x n] bit_width_le_iff [of "unat x" n] by auto
  finally show "bit (FillOnesToRight x) n \<longleftrightarrow> bit (mask ?w :: u64) n"
    using \<open>n < LENGTH(64)\<close> by (simp add: bit_mask_iff)
qed

lemma unat_mask_u64: "k \<le> 64 \<Longrightarrow> unat (mask k :: u64) = 2 ^ k - 1"
proof -
  assume "k \<le> 64"
  then have "(2::nat) ^ k \<le> 2 ^ 64" by (rule power_increasing) simp
  then have "mask k < (2::nat) ^ 64" by (simp add: mask_eq_exp_minus_1)
  then have "unat (mask k :: u64) = mask k"
    using of_nat_inverse [of "mask k" "mask k :: u64"] by (simp add: of_nat_mask_eq)
  then show ?thesis by (simp add: mask_eq_exp_minus_1)
qed

corollary unat_FillOnesToRight: "unat (FillOnesToRight x) = 2 ^ bit_width (unat x) - 1"
  using bit_width_u64 [of x] by (simp add: FillOnesToRight_mask unat_mask_u64)

section \<open>CountBitsSet is the population count\<close>

lemma count_bits_loop_eq: "unat n < 2 ^ k \<Longrightarrow> k \<le> 64 \<Longrightarrow>
  unat count + k < 256 \<Longrightarrow> unat (count_bits_loop n count) = unat count + popcount (unat n)"
proof (induction k arbitrary: n count)
  case 0
  then have "n = 0" by (simp add: unat_eq_zero)
  then show ?case by (simp add: count_bits_loop.simps)
next
  case (Suc k)
  show ?case
  proof (cases "n = 0")
    case True
    then show ?thesis by (simp add: count_bits_loop.simps)
  next
    case False
    let ?c = "count + ucast (n AND 1) :: u8"
    have low: "unat (n AND 1) = unat n mod 2"
      by (simp add: and_one_eq unat_mod)
    have c: "unat ?c = unat count + unat n mod 2"
      using Suc.prems by (simp add: unat_word_ariths unsigned_ucast_eq low take_bit_eq_mod)
    have "unat (drop_bit 1 n) = unat n div 2" by (rule unat_drop_bit_one)
    moreover have "unat n div 2 < 2 ^ k" using Suc.prems by auto
    ultimately have "unat (count_bits_loop (drop_bit 1 n) ?c) = unat ?c + popcount (unat n div 2)"
      using Suc.IH [of "drop_bit 1 n" ?c] Suc.prems c by simp
    with c False show ?thesis
      by (simp add: count_bits_loop.simps [of n] popcount.simps [of "unat n"] unat_eq_zero)
  qed
qed

theorem unat_CountBitsSet: "unat (CountBitsSet n) = popcount (unat n)"
  using count_bits_loop_eq [of n 64 0] by (simp add: CountBitsSet_def)

end
