(* ===== verification/MMRIndex.thy ===== *)
theory MMRIndex
  imports BitUtil
begin

text \<open>
  Node and leaf numbering of a Merkle mountain range: \<^verbatim>\<open>include/PMMR/Common/Index.h\<close>,
  \<^verbatim>\<open>include/PMMR/Common/LeafIndex.h\<close> and \<^verbatim>\<open>src/PMMR/Common/Index.cpp\<close>. An \<open>Index\<close> is a
  zero-based postorder position with its height, a \<open>LeafIndex\<close> counts leaves only.

  The reference is the pair \<open>(n, h)\<close> of a leaf number and a height: node \<open>(n, h)\<close> exists when
  \<open>2 ^ h\<close> divides \<open>n + 1\<close> (leaf \<open>n\<close> closes a perfect subtree of height \<open>h\<close>), and stands at position
  \<open>mmr_pos n h\<close>. The word-level operations of the code are shown to compute on this pair.
\<close>

section \<open>The code\<close>

record Index =
  m_position :: u64
  m_height :: u64

function calc_height_loop :: "u64 \<Rightarrow> u64 \<Rightarrow> u64" where
  "calc_height_loop height peakSize =
     (if peakSize = 0 then height
      else calc_height_loop (if peakSize \<le> height then height - peakSize else height)
             (drop_bit 1 peakSize))"
  by pat_completeness auto
termination
  by (relation "measure (\<lambda>(h, ps). unat ps)")
     (auto simp: unat_drop_bit_one [simplified] unat_gt_0 intro!: div_less_dividend)

definition CalculateHeight :: "u64 \<Rightarrow> u64" where
  "CalculateHeight position = calc_height_loop position (FillOnesToRight position)"

function calc_leaf_loop :: "u64 \<Rightarrow> u64 \<Rightarrow> u64 \<Rightarrow> u64" where
  "calc_leaf_loop leafIndex numLeft peakSize =
     (if peakSize = 0 then leafIndex
      else if peakSize \<le> numLeft
           then calc_leaf_loop (leafIndex + (peakSize + 1) div 2) (numLeft - peakSize)
                  (drop_bit 1 peakSize)
           else calc_leaf_loop leafIndex numLeft (drop_bit 1 peakSize))"
  by pat_completeness auto
termination
  by (relation "measure (\<lambda>(l, nl, ps). unat ps)")
     (auto simp: unat_drop_bit_one [simplified] unat_gt_0 intro!: div_less_dividend)

definition CalculateLeafIndex :: "u64 \<Rightarrow> u64" where
  "CalculateLeafIndex position = calc_leaf_loop 0 position (FillOnesToRight position)"

definition Index_At :: "u64 \<Rightarrow> Index" where
  "Index_At position = \<lparr>m_position = position, m_height = CalculateHeight position\<rparr>"

definition IsLeaf :: "Index \<Rightarrow> bool" where
  "IsLeaf i = (m_height i = 0)"

definition GetLeafIndex :: "Index \<Rightarrow> u64" where
  "GetLeafIndex i = CalculateLeafIndex (m_position i)"

definition GetNext :: "Index \<Rightarrow> Index" where
  "GetNext i = Index_At (m_position i + 1)"

definition Index_plus :: "Index \<Rightarrow> u64 \<Rightarrow> Index" where
  "Index_plus i inc = Index_At (m_position i + inc)"

definition Index_minus :: "Index \<Rightarrow> u64 \<Rightarrow> Index" where
  "Index_minus i dec = Index_At (m_position i - dec)"

definition GetParent :: "Index \<Rightarrow> Index" where
  "GetParent i =
     (if CalculateHeight (m_position i + 1) = m_height i + 1
      then \<lparr>m_position = m_position i + 1, m_height = m_height i + 1\<rparr>
      else \<lparr>m_position = m_position i + push_bit (unat (m_height i + 1)) 1,
             m_height = m_height i + 1\<rparr>)"

definition GetSibling :: "Index \<Rightarrow> Index" where
  "GetSibling i =
     (if CalculateHeight (m_position i + 1) = m_height i + 1
      then \<lparr>m_position = m_position i + 1 - push_bit (unat (m_height i + 1)) 1,
             m_height = m_height i\<rparr>
      else \<lparr>m_position = m_position i + push_bit (unat (m_height i + 1)) 1 - 1,
             m_height = m_height i\<rparr>)"

definition GetLeftChild :: "Index \<Rightarrow> Index" where
  "GetLeftChild i =
     \<lparr>m_position = m_position i - push_bit (unat (m_height i)) 1, m_height = m_height i - 1\<rparr>"

definition GetRightChild :: "Index \<Rightarrow> Index" where
  "GetRightChild i = \<lparr>m_position = m_position i - 1, m_height = m_height i - 1\<rparr>"

record LeafIndex =
  m_leafIndex :: u64
  m_nodeIndex :: Index

definition LeafIndex_At :: "u64 \<Rightarrow> LeafIndex" where
  "LeafIndex_At leafIndex =
     \<lparr>m_leafIndex = leafIndex,
      m_nodeIndex = \<lparr>m_position = 2 * leafIndex - ucast (CountBitsSet leafIndex), m_height = 0\<rparr>\<rparr>"

definition LeafIndex_From :: "Index \<Rightarrow> LeafIndex" where
  "LeafIndex_From mmr_idx =
     \<lparr>m_leafIndex = GetLeafIndex mmr_idx,
      m_nodeIndex = \<lparr>m_position = m_position mmr_idx, m_height = 0\<rparr>\<rparr>"

definition LeafIndex_AtPos :: "u64 \<Rightarrow> LeafIndex" where
  "LeafIndex_AtPos mmr_idx = LeafIndex_From (Index_At mmr_idx)"

definition LeafIndex_Next :: "LeafIndex \<Rightarrow> LeafIndex" where
  "LeafIndex_Next l = LeafIndex_At (m_leafIndex l + 1)"

definition LeafIndex_Prev :: "LeafIndex \<Rightarrow> LeafIndex" where
  "LeafIndex_Prev l = LeafIndex_At (m_leafIndex l - 1)"

definition LeafIndex_GetPosition :: "LeafIndex \<Rightarrow> u64" where
  "LeafIndex_GetPosition l = m_position (m_nodeIndex l)"

declare calc_height_loop.simps [simp del] calc_leaf_loop.simps [simp del]

section \<open>The reference numbering\<close>

definition mmr_pos :: "nat \<Rightarrow> nat \<Rightarrow> nat" where
  "mmr_pos n h = 2 * n - popcount n + h"

definition is_node :: "nat \<Rightarrow> nat \<Rightarrow> bool" where
  "is_node n h \<longleftrightarrow> 2 ^ h dvd Suc n"

fun peak_rest :: "nat \<Rightarrow> nat \<Rightarrow> nat" where
  "peak_rest 0 x = x"
| "peak_rest (Suc k) x =
     peak_rest k (if 2 ^ Suc k - 1 \<le> x then x - (2 ^ Suc k - 1) else x)"

fun peak_leaves :: "nat \<Rightarrow> nat \<Rightarrow> nat" where
  "peak_leaves 0 x = 0"
| "peak_leaves (Suc k) x =
     (if 2 ^ Suc k - 1 \<le> x then 2 ^ k + peak_leaves k (x - (2 ^ Suc k - 1))
      else peak_leaves k x)"

text \<open>The record the code builds for node \<open>(n, h)\<close>.\<close>

definition node :: "nat \<Rightarrow> nat \<Rightarrow> Index" where
  "node n h = \<lparr>m_position = of_nat (mmr_pos n h), m_height = of_nat h\<rparr>"

definition height_at :: "nat \<Rightarrow> nat" where
  "height_at p = peak_rest (bit_width p) p"

definition leaf_at :: "nat \<Rightarrow> nat" where
  "leaf_at p = peak_leaves (bit_width p) p"

lemma peak_rest_above: "peak_rest (Suc k) ((2 ^ Suc k - 1) + x) = peak_rest k x"
  by (simp only: peak_rest.simps le_add1 if_True add_diff_cancel_left')

lemma peak_leaves_above: "peak_leaves (Suc k) ((2 ^ Suc k - 1) + x) = 2 ^ k + peak_leaves k x"
  by (simp only: peak_leaves.simps le_add1 if_True add_diff_cancel_left')

lemma popcount_le_double: "popcount n \<le> 2 * n"
  using popcount_le [of n] by simp

lemma mmr_pos_ge: "n \<le> mmr_pos n h"
  using popcount_le [of n] by (simp add: mmr_pos_def)

lemma mmr_pos_add_two_power:
  assumes "m < 2 ^ k"
  shows "mmr_pos (2 ^ k + m) h = (2 ^ Suc k - 1) + mmr_pos m h"
proof -
  have "(1::nat) \<le> 2 ^ k" by simp
  then show ?thesis
    using popcount_le_double [of m] popcount_add_two_power [OF assms]
    unfolding mmr_pos_def power_Suc by arith
qed

lemma mmr_pos_all_ones: "mmr_pos (2 ^ k - 1) h = 2 ^ Suc k - 2 - k + h"
  using popcount_all_ones [of k] by (simp add: mmr_pos_def algebra_simps)

lemma Suc_le_two_power: "Suc k \<le> 2 ^ k"
  by (simp add: Suc_leI)

lemma is_node_height_bound: "is_node n h \<Longrightarrow> n < 2 ^ k \<Longrightarrow> h \<le> k"
proof (rule ccontr)
  assume "is_node n h" "n < 2 ^ k" "\<not> h \<le> k"
  then have "2 ^ h \<le> Suc n" by (auto simp: is_node_def dest: dvd_imp_le)
  moreover have "(2::nat) ^ Suc k \<le> 2 ^ h" using \<open>\<not> h \<le> k\<close> by (intro power_increasing) simp_all
  ultimately show False using \<open>n < 2 ^ k\<close> by simp
qed

lemma is_node_drop_top:
  assumes "is_node (2 ^ k + m) h" "m < 2 ^ k" "Suc m \<noteq> 2 ^ k"
  shows "is_node m h"
proof -
  have "h \<le> k"
  proof (rule ccontr)
    assume "\<not> h \<le> k"
    then have "(2::nat) ^ Suc k dvd 2 ^ h" by (intro le_imp_power_dvd) simp
    then have "2 ^ Suc k dvd Suc (2 ^ k + m)"
      using assms(1) unfolding is_node_def by (rule dvd_trans)
    then have "2 ^ Suc k \<le> Suc (2 ^ k + m)" by (rule dvd_imp_le) simp
    with assms(2,3) show False by simp
  qed
  then have "(2::nat) ^ h dvd 2 ^ k" by (rule le_imp_power_dvd)
  with assms(1) show ?thesis
    unfolding is_node_def by (metis add_Suc_right dvd_add_right_iff)
qed

lemma mmr_pos_upper: "is_node n h \<Longrightarrow> n < 2 ^ k \<Longrightarrow> mmr_pos n h \<le> 2 ^ Suc k - 2"
proof (induction k arbitrary: n)
  case 0
  then show ?case using is_node_height_bound [of n h 0] by (simp add: mmr_pos_def)
next
  case (Suc k)
  show ?case
  proof (cases "n < 2 ^ k")
    case True
    then show ?thesis using Suc.IH [OF Suc.prems(1) True] by simp
  next
    case False
    define m where "m = n - 2 ^ k"
    have m: "n = 2 ^ k + m" "m < 2 ^ k" using False Suc.prems(2) by (simp_all add: m_def)
    show ?thesis
    proof (cases "Suc n = 2 ^ Suc k")
      case True
      then have n: "n = 2 ^ Suc k - 1" by simp
      have "h \<le> Suc k" using Suc.prems is_node_height_bound by blast
      then show ?thesis unfolding n mmr_pos_all_ones
        using Suc_le_two_power [of "Suc k"] by simp
    next
      case False
      then have "is_node m h" using is_node_drop_top [of k m h] Suc.prems m by auto
      then have "mmr_pos m h \<le> 2 ^ Suc k - 2" using Suc.IH m by blast
      then show ?thesis by (simp add: m mmr_pos_add_two_power)
    qed
  qed
qed

text \<open>
  The greedy loop of the code, from any peak size that is large enough, finds the leaf number
  and leaves the height. The second disjunct covers the remainders below the last peak.
\<close>

lemma peak_loop_correct:
  "n < 2 ^ k \<Longrightarrow> is_node n h \<or> n = 2 ^ k - 1 \<Longrightarrow>
   peak_rest k (mmr_pos n h) = h \<and> peak_leaves k (mmr_pos n h) = n"
proof (induction k arbitrary: n)
  case 0
  then show ?case by (simp add: mmr_pos_def)
next
  case (Suc k)
  show ?case
  proof (cases "n < 2 ^ k")
    case True
    with Suc.prems have node: "is_node n h" by auto
    have "mmr_pos n h < 2 ^ Suc k - 1"
      using mmr_pos_upper [OF node True] Suc_le_two_power [of "Suc k"] by linarith
    then show ?thesis using Suc.IH [OF True] node by simp
  next
    case False
    define m where "m = n - 2 ^ k"
    have m: "n = 2 ^ k + m" "m < 2 ^ k" using False Suc.prems(1) by (simp_all add: m_def)
    have "is_node m h \<or> m = 2 ^ k - 1"
      using Suc.prems(2) m is_node_drop_top [of k m h] by auto
    then have "peak_rest k (mmr_pos m h) = h \<and> peak_leaves k (mmr_pos m h) = m"
      using Suc.IH m by blast
    then show ?thesis
      unfolding m(1) mmr_pos_add_two_power [OF m(2)]
      by (simp only: peak_rest_above peak_leaves_above simp_thms)
  qed
qed

lemma node_coordinates:
  assumes "is_node n h"
  shows "height_at (mmr_pos n h) = h" and "leaf_at (mmr_pos n h) = n"
proof -
  have "n < 2 ^ bit_width (mmr_pos n h)"
    using less_two_power_bit_width [of "mmr_pos n h"] mmr_pos_ge [of n h] by linarith
  with assms peak_loop_correct show "height_at (mmr_pos n h) = h" "leaf_at (mmr_pos n h) = n"
    by (auto simp: height_at_def leaf_at_def)
qed

lemma odd_node_half:
  assumes "is_node n (Suc h)" "\<not> is_node n (Suc (Suc h))"
  obtains m where "n = Suc (2 * m)" "is_node m h" "\<not> is_node m (Suc h)"
proof -
  from assms have "odd n" by (auto simp: is_node_def dest: dvd_mult_left)
  then obtain m where n: "n = Suc (2 * m)" by (auto elim: oddE)
  have "Suc n = 2 * Suc m" using n by simp
  with assms have "is_node m h" "\<not> is_node m (Suc h)"
    unfolding is_node_def by (simp_all del: mult_Suc_right)
  with n that show ?thesis by blast
qed

lemma popcount_Suc_node:
  "is_node n h \<Longrightarrow> \<not> is_node n (Suc h) \<Longrightarrow> popcount (Suc n) + h = Suc (popcount n)"
proof (induction h arbitrary: n)
  case 0
  then have "even n" by (simp add: is_node_def)
  then obtain m where "n = 2 * m" by blast
  then show ?case by simp
next
  case (Suc h)
  from Suc.prems obtain m where n: "n = Suc (2 * m)" and m: "is_node m h" "\<not> is_node m (Suc h)"
    by (rule odd_node_half)
  have "Suc n = 2 * Suc m" using n by simp
  from m have "popcount (Suc m) + h = Suc (popcount m)" by (rule Suc.IH)
  moreover have "popcount (Suc n) = popcount (Suc m)"
    unfolding \<open>Suc n = 2 * Suc m\<close> by (rule popcount_double)
  ultimately show ?case by (simp add: n)
qed

lemma popcount_add_left:
  "is_node n h \<Longrightarrow> \<not> is_node n (Suc h) \<Longrightarrow> popcount (n + 2 ^ h) = Suc (popcount n)"
proof (induction h arbitrary: n)
  case 0
  then have "even n" by (simp add: is_node_def)
  then obtain m where "n = 2 * m" by blast
  then show ?case by simp
next
  case (Suc h)
  from Suc.prems obtain m where m: "n = Suc (2 * m)" "is_node m h" "\<not> is_node m (Suc h)"
    by (rule odd_node_half)
  have "n + 2 ^ Suc h = Suc (2 * (m + 2 ^ h))" by (simp add: m)
  then show ?case using Suc.IH [OF m(2,3)] m(1) by (simp only: popcount_Suc_double)
qed

text \<open>The postorder successor: up to the parent when a subtree is closed, else the next leaf.\<close>

lemma mmr_pos_next_leaf:
  assumes "is_node n h" "\<not> is_node n (Suc h)"
  shows "mmr_pos (Suc n) 0 = Suc (mmr_pos n h)"
  using popcount_Suc_node [OF assms] popcount_le [of n] by (simp add: mmr_pos_def)

lemma popcount_Suc_le: "popcount (Suc n) \<le> Suc (popcount n)"
proof (induction n rule: popcount.induct)
  case (1 n)
  show ?case
  proof (cases "even n")
    case True
    then show ?thesis by (auto elim!: evenE)
  next
    case False
    then obtain m where m: "n = Suc (2 * m)" by (auto elim: oddE)
    have "Suc n = 2 * Suc m" by (simp add: m)
    then have "popcount (Suc n) = popcount (Suc m)" by (simp only: popcount_double)
    with 1 m show ?thesis by simp
  qed
qed

lemma leaf_pos_mono: "m < n \<Longrightarrow> mmr_pos m 0 < mmr_pos n 0"
proof (induction n)
  case (Suc n)
  have "mmr_pos n 0 < mmr_pos (Suc n) 0"
    using popcount_Suc_le [of n] popcount_le [of n] popcount_le [of "Suc n"]
    by (simp add: mmr_pos_def)
  with Suc show ?case by (cases "m = n") auto
qed simp

lemma mmr_pos_lower: "is_node n h \<Longrightarrow> 2 ^ Suc h - 2 \<le> mmr_pos n h"
proof -
  assume "is_node n h"
  then have "2 ^ h \<le> Suc n" by (auto simp: is_node_def dest: dvd_imp_le)
  then have "2 ^ h - 1 \<le> n" by simp
  then have "mmr_pos (2 ^ h - 1) 0 \<le> mmr_pos n 0"
    using leaf_pos_mono [of "2 ^ h - 1" n] by (cases "2 ^ h - 1 = n") auto
  moreover have "h \<le> 2 ^ Suc h - 2" using Suc_le_two_power [of h] by simp
  ultimately show ?thesis unfolding mmr_pos_all_ones by (simp add: mmr_pos_def)
qed

lemma mmr_pos_exists: "\<exists>n h. is_node n h \<and> p = mmr_pos n h"
proof (induction p)
  case 0
  show ?case by (intro exI [of _ 0]) (simp add: is_node_def mmr_pos_def)
next
  case (Suc p)
  then obtain n h where nh: "is_node n h" "p = mmr_pos n h" by blast
  show ?case
  proof (cases "is_node n (Suc h)")
    case True
    with nh show ?thesis by (intro exI [of _ n] exI [of _ "Suc h"]) (simp add: mmr_pos_def)
  next
    case False
    with nh show ?thesis
      by (intro exI [of _ "Suc n"] exI [of _ 0]) (simp add: mmr_pos_next_leaf is_node_def)
  qed
qed

lemma coordinates_node:
  "is_node (leaf_at p) (height_at p)" "mmr_pos (leaf_at p) (height_at p) = p"
  using mmr_pos_exists [of p] node_coordinates by auto

lemma mmr_pos_inj:
  "is_node n h \<Longrightarrow> is_node n' h' \<Longrightarrow> mmr_pos n h = mmr_pos n' h' \<Longrightarrow> n = n' \<and> h = h'"
  using node_coordinates by metis

section \<open>The code computes on coordinates\<close>

lemma drop_bit_mask: "drop_bit 1 (mask (Suc k) :: u64) = mask k" if "k < 64"
proof (rule word_unat_eq_iff [THEN iffD2])
  have "unat (drop_bit 1 (mask (Suc k) :: u64)) = (2 ^ Suc k - 1) div 2"
    using that by (simp only: unat_drop_bit_one unat_mask_u64 Suc_leI)
  also have "\<dots> = 2 ^ k - 1" by simp
  finally show "unat (drop_bit 1 (mask (Suc k) :: u64)) = unat (mask k :: u64)"
    using that by (simp add: unat_mask_u64)
qed

lemma mask_nonzero: "k < 64 \<Longrightarrow> (mask (Suc k) :: u64) \<noteq> 0"
  using unat_mask_u64 [of "Suc k"] Suc_le_two_power [of "Suc k"] by (auto simp del: power_Suc)

lemma calc_height_loop_mask:
  "k \<le> 64 \<Longrightarrow> unat (calc_height_loop x (mask k)) = peak_rest k (unat x)"
proof (induction k arbitrary: x)
  case 0
  then show ?case by (simp add: calc_height_loop.simps)
next
  case (Suc k)
  let ?x = "if mask (Suc k) \<le> x then x - mask (Suc k) else x"
  have "calc_height_loop x (mask (Suc k)) = calc_height_loop ?x (mask k)"
    using Suc.prems drop_bit_mask [of k] mask_nonzero [of k]
    by (simp add: calc_height_loop.simps [of x "mask (Suc k)"])
  moreover have "unat ?x = (if 2 ^ Suc k - 1 \<le> unat x then unat x - (2 ^ Suc k - 1) else unat x)"
    using Suc.prems by (simp add: word_le_nat_alt unat_mask_u64 unat_sub_no_underflow del: power_Suc)
  ultimately show ?case using Suc by simp
qed

lemma unat_CalculateHeight: "unat (CalculateHeight p) = height_at (unat p)"
  using calc_height_loop_mask [of "bit_width (unat p)" p] bit_width_u64 [of p]
  by (simp add: CalculateHeight_def FillOnesToRight_mask height_at_def)

lemma half_mask: "k < 63 \<Longrightarrow> (mask (Suc k) + 1 :: u64) div 2 = 2 ^ k"
proof (rule word_unat_eq_iff [THEN iffD2])
  assume k: "k < 63"
  have lt: "(2::nat) ^ Suc k < 2 ^ 64" using k by (intro power_strict_increasing) simp_all
  have "unat (mask (Suc k) + 1 :: u64) = unat (mask (Suc k) :: u64) + 1"
    using k lt unat_mask_u64 [of "Suc k"] by (subst unat_add_no_overflow) simp_all
  also have "\<dots> = 2 ^ Suc k" using k by (simp add: unat_mask_u64 del: power_Suc)
  finally show "unat ((mask (Suc k) + 1 :: u64) div 2) = unat (2 ^ k :: u64)"
    using k by (simp add: unat_div unat_two_power)
qed

lemma calc_leaf_loop_mask:
  "k \<le> 64 \<Longrightarrow> unat x < 2 ^ 64 - 1 \<Longrightarrow>
   calc_leaf_loop acc x (mask k) = acc + of_nat (peak_leaves k (unat x))"
proof (induction k arbitrary: x acc)
  case 0
  then show ?case by (simp add: calc_leaf_loop.simps)
next
  case (Suc k)
  have unmask: "unat (mask (Suc k) :: u64) = 2 ^ Suc k - 1"
    using Suc.prems(1) by (rule unat_mask_u64)
  have le: "mask (Suc k) \<le> x \<longleftrightarrow> 2 ^ Suc k - 1 \<le> unat x"
    unfolding word_le_nat_alt unmask ..
  show ?case
  proof (cases "mask (Suc k) \<le> x")
    case True
    have "k < 63"
    proof (rule ccontr)
      assume "\<not> k < 63"
      with Suc.prems(1) have "k = 63" by simp
      with True Suc.prems(2) show False unfolding le by simp
    qed
    have ux: "unat (x - mask (Suc k)) = unat x - (2 ^ Suc k - 1)"
      using True unmask by (simp add: unat_sub_no_underflow word_le_nat_alt del: power_Suc)
    have "calc_leaf_loop acc x (mask (Suc k)) =
        calc_leaf_loop (acc + (mask (Suc k) + 1) div 2) (x - mask (Suc k)) (mask k)"
      using True \<open>k < 63\<close> drop_bit_mask [of k] mask_nonzero [of k]
      by (simp add: calc_leaf_loop.simps [of acc x "mask (Suc k)"])
    also have "\<dots> = acc + 2 ^ k + of_nat (peak_leaves k (unat x - (2 ^ Suc k - 1)))"
    proof -
      have "unat (x - mask (Suc k)) < 2 ^ 64 - 1" using Suc.prems(2) ux by linarith
      with Suc.IH [of "x - mask (Suc k)" "acc + (mask (Suc k) + 1) div 2"] Suc.prems(1)
      show ?thesis by (simp only: half_mask [OF \<open>k < 63\<close>] ux Suc_leD)
    qed
    also have "\<dots> = acc + of_nat (peak_leaves (Suc k) (unat x))"
      using True unfolding le by (simp del: power_Suc)
    finally show ?thesis .
  next
    case False
    have "calc_leaf_loop acc x (mask (Suc k)) = calc_leaf_loop acc x (mask k)"
      using False Suc.prems(1) drop_bit_mask [of k] mask_nonzero [of k]
      by (simp add: calc_leaf_loop.simps [of acc x "mask (Suc k)"])
    with Suc False show ?thesis unfolding le by (simp del: power_Suc)
  qed
qed

lemma CalculateLeafIndex_eq:
  "unat p < 2 ^ 64 - 1 \<Longrightarrow> CalculateLeafIndex p = of_nat (leaf_at (unat p))"
  using calc_leaf_loop_mask [of "bit_width (unat p)" p 0] bit_width_u64 [of p]
  by (simp add: CalculateLeafIndex_def FillOnesToRight_mask leaf_at_def)

lemma CalculateHeight_node:
  "is_node n h \<Longrightarrow> mmr_pos n h < 2 ^ 64 \<Longrightarrow> CalculateHeight (of_nat (mmr_pos n h)) = of_nat h"
proof (rule word_unat_eq_iff [THEN iffD2])
  assume n: "is_node n h" and p: "mmr_pos n h < 2 ^ 64"
  then have "h < 2 ^ 64" by (simp add: mmr_pos_def)
  then have "unat (of_nat h :: u64) = h" by (rule unat_of_nat_u64)
  with n show "unat (CalculateHeight (of_nat (mmr_pos n h))) = unat (of_nat h :: u64)"
    by (simp only: unat_CalculateHeight unat_of_nat_u64 [OF p] node_coordinates)
qed

lemma Index_At_node:
  "is_node n h \<Longrightarrow> mmr_pos n h < 2 ^ 64 \<Longrightarrow> Index_At (of_nat (mmr_pos n h)) = node n h"
  by (simp add: Index_At_def node_def CalculateHeight_node)

lemma Index_At_coordinates: "Index_At p = node (leaf_at (unat p)) (height_at (unat p))"
  using Index_At_node [of "leaf_at (unat p)" "height_at (unat p)"] by (simp add: coordinates_node)

lemma node_height_less: "is_node n h \<Longrightarrow> mmr_pos n h < 2 ^ k - 2 \<Longrightarrow> Suc h < k"
proof -
  assume "is_node n h" "mmr_pos n h < 2 ^ k - 2"
  then have "(2::nat) ^ Suc h < 2 ^ k" using mmr_pos_lower [of n h] by linarith
  then show ?thesis by (simp only: power_strict_increasing_iff one_less_numeral_iff semiring_norm)
qed

text \<open>
  Every operation on a node below \<open>2 ^ 63 - 2\<close>: no 64-bit wrap-around, the shift amounts stay
  below 64.
\<close>

definition in_range :: "nat \<Rightarrow> nat \<Rightarrow> bool" where
  "in_range n h \<longleftrightarrow> is_node n h \<and> mmr_pos n h < 2 ^ 63 - 2"

definition is_right :: "nat \<Rightarrow> nat \<Rightarrow> bool" where
  "is_right n h \<longleftrightarrow> is_node n (Suc h)"

lemma in_range_height: "in_range n h \<Longrightarrow> h < 62"
  using node_height_less [of n h 63] by (simp add: in_range_def)

lemma left_node_shift:
  assumes "is_node n h" "\<not> is_right n h"
  shows "is_node (n + 2 ^ h) (Suc h)" and "popcount (n + 2 ^ h) = Suc (popcount n)"
proof -
  obtain q where q: "Suc n = 2 ^ h * q" using assms(1) by (auto simp: is_node_def elim: dvdE)
  have "odd q"
  proof
    assume "even q"
    then have "2 ^ Suc h dvd Suc n" unfolding q by (auto elim!: evenE)
    with assms(2) show False by (simp add: is_right_def is_node_def)
  qed
  then obtain r where r: "q = 2 * r + 1" by (auto elim: oddE)
  have "Suc (n + 2 ^ h) = 2 ^ Suc h * Suc r" using q r by (simp add: algebra_simps)
  then show "is_node (n + 2 ^ h) (Suc h)" unfolding is_node_def by (metis dvd_triv_left)
  show "popcount (n + 2 ^ h) = Suc (popcount n)"
    using assms popcount_add_left by (simp add: is_right_def)
qed

lemma unat_height_Suc:
  assumes "h < 63"
  shows "unat (of_nat h + 1 :: u64) = Suc h" and "unat (1 + of_nat h :: u64) = Suc h"
  using unat_of_nat_u64 [of "Suc h"] assms by (simp_all add: add.commute)

lemma mmr_pos_left_shift:
  assumes "is_node n h" "\<not> is_right n h"
  shows "Suc (mmr_pos (n + 2 ^ h) k) = mmr_pos n k + 2 ^ Suc h"
proof -
  have "(1::nat) \<le> 2 ^ h" by simp
  with left_node_shift [OF assms] popcount_le [of n] show ?thesis
    unfolding mmr_pos_def power_Suc by arith
qed

lemma CalculateHeight_successor:
  assumes "in_range n h"
  shows "CalculateHeight (of_nat (mmr_pos n h) + 1) = of_nat h + 1 \<longleftrightarrow> is_right n h"
proof (cases "is_right n h")
  case True
  have "mmr_pos n (Suc h) < 2 ^ 64" using assms by (simp add: in_range_def mmr_pos_def)
  with True CalculateHeight_node [of n "Suc h"] show ?thesis
    by (simp add: is_right_def mmr_pos_def add.assoc [symmetric] add.commute)
next
  case False
  have nxt: "mmr_pos (Suc n) 0 = Suc (mmr_pos n h)"
    using assms False by (simp add: in_range_def is_right_def mmr_pos_next_leaf)
  then have "mmr_pos (Suc n) 0 < 2 ^ 64" using assms by (simp add: in_range_def)
  then have "CalculateHeight (of_nat (Suc (mmr_pos n h))) = 0"
    using CalculateHeight_node [of "Suc n" 0] by (simp add: nxt is_node_def)
  moreover have "(of_nat h + 1 :: u64) \<noteq> 0"
    using in_range_height [OF assms] unat_height_Suc [of h] by auto
  ultimately show ?thesis using False by (simp add: add.commute)
qed

lemma of_nat_Suc_eqD: "Suc a = b + c \<Longrightarrow> (of_nat a + 1 :: u64) = of_nat b + of_nat c"
  by (metis Suc_eq_plus1 of_nat_1 of_nat_add)

lemma GetParent_node:
  assumes "in_range n h"
  shows "GetParent (node n h) = (if is_right n h then node n (Suc h) else node (n + 2 ^ h) (Suc h))"
proof (cases "is_right n h")
  case True
  then show ?thesis
    using CalculateHeight_successor [OF assms]
    by (simp add: GetParent_def node_def mmr_pos_def add.commute)
next
  case False
  have "mmr_pos (n + 2 ^ h) (Suc h) = mmr_pos n h + 2 ^ Suc h"
    using assms False mmr_pos_left_shift [of n h h] by (simp add: in_range_def mmr_pos_def)
  then have "of_nat (mmr_pos (n + 2 ^ h) (Suc h)) = (of_nat (mmr_pos n h) + 2 ^ Suc h :: u64)"
    by simp
  then show ?thesis
    using False CalculateHeight_successor [OF assms] in_range_height [OF assms]
    by (simp add: GetParent_def node_def unat_height_Suc add.commute)
qed

lemma right_node_shift:
  assumes "is_right n h"
  shows "2 ^ h \<le> n" "is_node (n - 2 ^ h) h" "\<not> is_right (n - 2 ^ h) h"
proof -
  obtain q where q: "Suc n = 2 ^ Suc h * q"
    using assms unfolding is_right_def is_node_def by (rule dvdE)
  then have "q \<noteq> 0" by (metis mult_0_right nat.distinct(1))
  with q have "2 ^ Suc h \<le> Suc n" by simp
  then show le: "2 ^ h \<le> n" using Suc_le_two_power [of h] unfolding power_Suc by linarith
  then have eq: "Suc (n - 2 ^ h) = 2 ^ h * (2 * q - 1)"
    using q by (simp add: Suc_diff_le [symmetric] algebra_simps)
  then show "is_node (n - 2 ^ h) h" unfolding is_node_def by (metis dvd_triv_left)
  have "odd (2 * q - 1)" using \<open>q \<noteq> 0\<close> by simp
  show "\<not> is_right (n - 2 ^ h) h"
  proof
    assume "is_right (n - 2 ^ h) h"
    then have "2 ^ h * 2 dvd 2 ^ h * (2 * q - 1)"
      by (simp add: is_right_def is_node_def eq mult.commute)
    with \<open>odd (2 * q - 1)\<close> show False by simp
  qed
qed

lemma mmr_pos_right_shift:
  assumes "is_right n h"
  shows "Suc (mmr_pos n k) = mmr_pos (n - 2 ^ h) k + 2 ^ Suc h"
  using right_node_shift [OF assms] mmr_pos_left_shift [of "n - 2 ^ h" h k] by simp

lemma GetSibling_node:
  assumes "in_range n h"
  shows "GetSibling (node n h) = (if is_right n h then node (n - 2 ^ h) h else node (n + 2 ^ h) h)"
proof (cases "is_right n h")
  case True
  then show ?thesis
    using of_nat_Suc_eqD [OF mmr_pos_right_shift [OF True, of h]]
      CalculateHeight_successor [OF assms] in_range_height [OF assms]
    by (simp add: GetSibling_def node_def unat_height_Suc)
next
  case False
  then show ?thesis
    using of_nat_Suc_eqD [OF mmr_pos_left_shift [of n h h]] assms
      CalculateHeight_successor [OF assms] in_range_height [OF assms]
    by (simp add: GetSibling_def node_def unat_height_Suc in_range_def diff_eq_eq)
qed

lemma GetRightChild_node: "GetRightChild (node n (Suc h)) = node n h"
  by (simp add: GetRightChild_def node_def mmr_pos_def)

lemma GetLeftChild_node:
  assumes "is_node n (Suc h)" "h < 63"
  shows "GetLeftChild (node n (Suc h)) = node (n - 2 ^ h) h"
proof -
  have "mmr_pos n (Suc h) = mmr_pos (n - 2 ^ h) h + 2 ^ Suc h"
    using mmr_pos_right_shift [of n h h] assms by (simp add: is_right_def mmr_pos_def)
  then have "(of_nat (mmr_pos n (Suc h)) :: u64) - 2 ^ Suc h = of_nat (mmr_pos (n - 2 ^ h) h)"
    by simp
  with assms(2) show ?thesis
    by (simp add: GetLeftChild_def node_def unat_height_Suc add.commute)
qed

lemma IsLeaf_node: "h < 2 ^ 64 \<Longrightarrow> IsLeaf (node n h) \<longleftrightarrow> h = 0"
  using unat_of_nat_u64 [of h] by (auto simp: IsLeaf_def node_def)

lemma GetNext_node:
  assumes "in_range n h"
  shows "GetNext (node n h) = (if is_right n h then node n (Suc h) else node (Suc n) 0)"
proof (cases "is_right n h")
  case True
  then show ?thesis
    using Index_At_node [of n "Suc h"] assms
    by (simp add: GetNext_def is_right_def in_range_def node_def mmr_pos_def add.commute)
next
  case False
  then have "mmr_pos (Suc n) 0 = Suc (mmr_pos n h)"
    using assms by (simp add: mmr_pos_next_leaf in_range_def is_right_def)
  then show ?thesis
    using Index_At_node [of "Suc n" 0] False assms
    by (simp add: GetNext_def in_range_def node_def is_node_def add.commute)
qed

section \<open>Leaf indices\<close>

lemma LeafIndex_At_position: "LeafIndex_GetPosition (LeafIndex_At n) = of_nat (mmr_pos (unat n) 0)"
proof -
  have "(of_nat (mmr_pos (unat n) 0) :: u64) = of_nat (2 * unat n) - of_nat (popcount (unat n))"
    using popcount_le [of "unat n"] by (simp add: mmr_pos_def of_nat_diff)
  moreover have "(ucast (CountBitsSet n) :: u64) = of_nat (popcount (unat n))"
    by (simp flip: unat_CountBitsSet)
  ultimately show ?thesis by (simp add: LeafIndex_GetPosition_def LeafIndex_At_def)
qed

lemma LeafIndex_At_node: "m_nodeIndex (LeafIndex_At n) = node (unat n) 0"
  using LeafIndex_At_position [of n] by (simp add: LeafIndex_GetPosition_def LeafIndex_At_def node_def)

lemma LeafIndex_AtPos_At:
  assumes "in_range (unat n) 0"
  shows "LeafIndex_AtPos (LeafIndex_GetPosition (LeafIndex_At n)) = LeafIndex_At n"
proof -
  let ?p = "mmr_pos (unat n) 0"
  have range: "?p < 2 ^ 63 - 2" and leaf: "is_node (unat n) 0" using assms by (simp_all add: in_range_def)
  then have u: "unat (of_nat ?p :: u64) = ?p" by (intro unat_of_nat_u64) simp
  have "CalculateLeafIndex (of_nat ?p) = n"
    using range u node_coordinates(2) [OF leaf] by (subst CalculateLeafIndex_eq) simp_all
  moreover have "Index_At (of_nat ?p) = node (unat n) 0"
    using range leaf by (intro Index_At_node) simp_all
  moreover have "LeafIndex_At n = \<lparr>m_leafIndex = n, m_nodeIndex = node (unat n) 0\<rparr>"
    using LeafIndex_At_node [of n] by (simp add: LeafIndex_At_def)
  ultimately show ?thesis
    by (simp add: LeafIndex_AtPos_def LeafIndex_From_def LeafIndex_GetPosition_def GetLeafIndex_def node_def)
qed

end
