(* ===== verification/TxModels.thy ===== *)
theory TxModels
  imports Serialization Consensus MMRIndex
begin

text \<open>
  The parts of transactions (\<^verbatim>\<open>include/Core/Models\<close>, \<^verbatim>\<open>src/Core/Models\<close>,
  \<^verbatim>\<open>include/Crypto/Models/RangeProof.h\<close>): fees, kernels, inputs, outputs, output locations, block
  sums and short ids, with their binary encodings for every protocol version.

  Feature bytes are kept as bytes: \<open>Deserialize\<close> casts any byte to the enumeration. Commitments,
  signatures, hashes and blinding factors are byte vectors of 33, 64, 32 and 32 bytes; the validity
  predicates state the lengths. The 256-bit Blake2b hash of \<^verbatim>\<open>Crypto/Hasher.h\<close>, SipHash24 and the coin
  view consulted by \<open>TransactionInput::Deserialize\<close> are arguments. A hash that a constructor stores
  in \<open>m_hash\<close> is the function of the other members that the constructor computes.
\<close>

section \<open>Reading sequences of members\<close>

lemma decodes_bind_return:
  "decodes d v bs x \<Longrightarrow> y = g x \<Longrightarrow> decodes (\<lambda>b. rbind (d b) (\<lambda>(x, b). Inr (g x, b))) v bs y"
  using decodes_map [of d v bs x g] by simp

lemma decodes_version:
  assumes "decodes d' v bs x" "\<And>b. m_protocolVersion b = v \<Longrightarrow> d b = d' b"
  shows "decodes d v bs x"
  using assms unfolding decodes_def by metis

lemma decodes_nil: "decodes (\<lambda>b. Inr (y, b)) v [] x \<longleftrightarrow> x = y"
proof
  assume "decodes (\<lambda>b. Inr (y, b)) v [] x"
  from decodes_New [OF this] show "x = y" by simp
qed (simp add: decodes_return)

section \<open>Fees\<close>

record Fee =
  fee_shift :: u8
  fee_value :: u64

definition Fee_Default :: Fee where "Fee_Default = \<lparr>fee_shift = 0, fee_value = 0\<rparr>"

definition Fee_From :: "u64 \<Rightarrow> Fee" where
  "Fee_From raw_fee = \<lparr>fee_shift = 0, fee_value = raw_fee\<rparr>"

definition Fee_Serialize :: "Fee \<Rightarrow> bytes" where
  "Fee_Serialize fee =
     AppendU16 0 @ AppendU8 (fee_shift fee) @ AppendU8 (ucast (drop_bit 32 (fee_value fee))) @
     AppendU32 (ucast (fee_value fee AND 0xffffffff))"

definition Fee_Deserialize :: "Fee reader" where
  "Fee_Deserialize b =
     rbind (ReadU16 b) (\<lambda>(_, b).
     rbind (ReadU8 b) (\<lambda>(shift, b).
     rbind (ReadU8 b) (\<lambda>(high, b).
     rbind (ReadU32 b) (\<lambda>(low, b).
       Inr (\<lparr>fee_shift = shift AND 0x0f, fee_value = push_bit 32 (ucast high) + ucast low\<rparr>, b)))))"

definition Fee_ToJSON :: "Fee \<Rightarrow> u64 result" where
  "Fee_ToJSON fee = rbind (ReadU64 (ByteBuffer_New (Fee_Serialize fee) V1)) (\<lambda>(x, b). Inr x)"

definition Fee_FromJSON :: "u64 \<Rightarrow> Fee" where
  "Fee_FromJSON json = Fee_From json"

definition fee_valid :: "Fee \<Rightarrow> bool" where
  "fee_valid fee \<longleftrightarrow> fee_shift fee < 16 \<and> fee_value fee < 2 ^ 40"

section \<open>Kernels\<close>

definition DEFAULT_KERNEL :: u8 where "DEFAULT_KERNEL = 0"
definition COINBASE_KERNEL :: u8 where "COINBASE_KERNEL = 1"
definition HEIGHT_LOCKED :: u8 where "HEIGHT_LOCKED = 2"
definition NO_RECENT_DUPLICATE :: u8 where "NO_RECENT_DUPLICATE = 3"

lemmas kernel_features_defs = DEFAULT_KERNEL_def COINBASE_KERNEL_def HEIGHT_LOCKED_def
  NO_RECENT_DUPLICATE_def

record TransactionKernel =
  k_features :: u8
  k_fee :: Fee
  k_lockHeight :: u64
  k_excessCommitment :: bytes
  k_excessSignature :: bytes

definition Kernel_IsCoinbase :: "TransactionKernel \<Rightarrow> bool" where
  "Kernel_IsCoinbase k = (k_features k AND COINBASE_KERNEL = COINBASE_KERNEL)"

definition Kernel_Serialize :: "EProtocolVersion \<Rightarrow> TransactionKernel \<Rightarrow> bytes" where
  "Kernel_Serialize v k =
     (if version_ge v V2 then
        AppendU8 (k_features k) @
        (if k_features k = DEFAULT_KERNEL then Fee_Serialize (k_fee k)
         else if k_features k = COINBASE_KERNEL then []
         else if k_features k = HEIGHT_LOCKED
              then Fee_Serialize (k_fee k) @ AppendU64 (k_lockHeight k)
         else if k_features k = NO_RECENT_DUPLICATE
              then Fee_Serialize (k_fee k) @ AppendU16 (ucast (k_lockHeight k))
         else []) @
        AppendBigInteger (k_excessCommitment k) @ AppendBigInteger (k_excessSignature k)
      else
        AppendU8 (k_features k) @ Fee_Serialize (k_fee k) @ AppendU64 (k_lockHeight k) @
        AppendBigInteger (k_excessCommitment k) @ AppendBigInteger (k_excessSignature k))"

definition read_kernel_terms :: "u8 \<Rightarrow> (Fee \<times> u64) reader" where
  "read_kernel_terms features b =
     (if version_ge (m_protocolVersion b) V2 then
        rbind (if features \<noteq> COINBASE_KERNEL then Fee_Deserialize b else Inr (Fee_Default, b))
          (\<lambda>(fee, b).
             if features = HEIGHT_LOCKED then
               rbind (ReadU64 b) (\<lambda>(lockHeight, b). Inr ((fee, lockHeight), b))
             else if features = NO_RECENT_DUPLICATE then
               rbind (ReadU16 b) (\<lambda>(lockHeight, b). Inr ((fee, ucast lockHeight), b))
             else Inr ((fee, 0), b))
      else
        rbind (Fee_Deserialize b) (\<lambda>(fee, b).
        rbind (ReadU64 b) (\<lambda>(lockHeight, b). Inr ((fee, lockHeight), b))))"

definition Kernel_Deserialize :: "TransactionKernel reader" where
  "Kernel_Deserialize b =
     rbind (ReadU8 b) (\<lambda>(features, b).
     rbind (read_kernel_terms features b) (\<lambda>((fee, lockHeight), b).
     rbind (ReadBigInteger 33 b) (\<lambda>(excessCommitment, b).
     rbind (ReadBigInteger 64 b) (\<lambda>(excessSignature, b).
       if features = NO_RECENT_DUPLICATE \<and> (lockHeight = 0 \<or> WEEK_HEIGHT < lockHeight)
       then Inl DeserializationException
       else Inr (\<lparr>k_features = features, k_fee = fee, k_lockHeight = lockHeight,
                  k_excessCommitment = excessCommitment, k_excessSignature = excessSignature\<rparr>, b)))))"

definition Kernel_GetHash :: "(bytes \<Rightarrow> bytes) \<Rightarrow> TransactionKernel \<Rightarrow> bytes" where
  "Kernel_GetHash Blake2b k = Blake2b (Kernel_Serialize V1 k)"

definition signature_message_bytes :: "u8 \<Rightarrow> Fee \<Rightarrow> u64 \<Rightarrow> bytes" where
  "signature_message_bytes features fee lockHeight =
     AppendU8 features @
     (if features \<noteq> COINBASE_KERNEL then Fee_Serialize fee else []) @
     (if features = HEIGHT_LOCKED then AppendU64 lockHeight else []) @
     (if features = NO_RECENT_DUPLICATE then AppendU16 (ucast lockHeight) else [])"

definition GetSignatureMessage :: "(bytes \<Rightarrow> bytes) \<Rightarrow> TransactionKernel \<Rightarrow> bytes" where
  "GetSignatureMessage Blake2b k =
     Blake2b (signature_message_bytes (k_features k) (k_fee k) (k_lockHeight k))"

text \<open>
  The kernels of the four kinds, as an encoding of version \<open>v\<close> can represent them: from version 2 on, an
  encoding has no fee for a coinbase kernel and a lock height only for the two locked kinds.
\<close>

definition kernel_valid :: "EProtocolVersion \<Rightarrow> TransactionKernel \<Rightarrow> bool" where
  "kernel_valid v k \<longleftrightarrow>
     k_features k \<le> 3 \<and> fee_valid (k_fee k) \<and>
     length (k_excessCommitment k) = 33 \<and> length (k_excessSignature k) = 64 \<and>
     (k_features k = NO_RECENT_DUPLICATE \<longrightarrow> k_lockHeight k \<noteq> 0 \<and> k_lockHeight k \<le> WEEK_HEIGHT) \<and>
     (version_ge v V2 \<longrightarrow>
        (k_features k = COINBASE_KERNEL \<longrightarrow> k_fee k = Fee_Default) \<and>
        (k_features k \<noteq> HEIGHT_LOCKED \<and> k_features k \<noteq> NO_RECENT_DUPLICATE \<longrightarrow> k_lockHeight k = 0))"

section \<open>Inputs\<close>

definition DEFAULT_OUTPUT :: u8 where "DEFAULT_OUTPUT = 0"
definition COINBASE_OUTPUT :: u8 where "COINBASE_OUTPUT = 1"

record TransactionInput =
  i_features :: u8
  i_commitment :: bytes

definition Input_Serialize :: "EProtocolVersion \<Rightarrow> TransactionInput \<Rightarrow> bytes" where
  "Input_Serialize v i =
     (if \<not> version_ge v V3 then AppendU8 (i_features i) else []) @ AppendBigInteger (i_commitment i)"

definition Input_Deserialize :: "(bytes \<Rightarrow> u8) \<Rightarrow> TransactionInput reader" where
  "Input_Deserialize GetOutputType b =
     (if version_ge (m_protocolVersion b) V3 then
        rbind (ReadBigInteger 33 b) (\<lambda>(commitment, b).
          Inr (\<lparr>i_features = GetOutputType commitment, i_commitment = commitment\<rparr>, b))
      else
        rbind (ReadU8 b) (\<lambda>(features, b).
        rbind (ReadBigInteger 33 b) (\<lambda>(commitment, b).
          Inr (\<lparr>i_features = features, i_commitment = commitment\<rparr>, b))))"

definition Input_GetHash :: "(bytes \<Rightarrow> bytes) \<Rightarrow> TransactionInput \<Rightarrow> bytes" where
  "Input_GetHash Blake2b i = Blake2b (Input_Serialize ProtocolVersion_Local i)"

definition Input_equal :: "TransactionInput \<Rightarrow> TransactionInput \<Rightarrow> bool" where
  "Input_equal a b =
     (i_features a = i_features b \<and> BigInteger_equal (i_commitment a) (i_commitment b))"

definition input_valid :: "(bytes \<Rightarrow> u8) \<Rightarrow> EProtocolVersion \<Rightarrow> TransactionInput \<Rightarrow> bool" where
  "input_valid GetOutputType v i \<longleftrightarrow>
     length (i_commitment i) = 33 \<and>
     (version_ge v V3 \<longrightarrow> i_features i = GetOutputType (i_commitment i))"

section \<open>Range proofs and outputs\<close>

definition MAX_PROOF_SIZE :: nat where "MAX_PROOF_SIZE = 675"

definition RangeProof_Normalize :: "bytes \<Rightarrow> bytes result" where
  "RangeProof_Normalize proofBytes =
     (if MAX_PROOF_SIZE < length proofBytes then Inl DeserializationException
      else Inr (proofBytes @ replicate (MAX_PROOF_SIZE - length proofBytes) 0))"

definition RangeProof_Serialize :: "bytes \<Rightarrow> bytes" where
  "RangeProof_Serialize proofBytes =
     AppendU64 (of_nat (length proofBytes)) @ AppendByteVector proofBytes SL_NONE"

definition RangeProof_Deserialize :: "bytes reader" where
  "RangeProof_Deserialize b =
     rbind (ReadU64 b) (\<lambda>(proofSize, b).
       if of_nat MAX_PROOF_SIZE < proofSize then Inl DeserializationException
       else rbind (ReadVector proofSize b) (\<lambda>(proofBytes, b).
              rbind (RangeProof_Normalize proofBytes) (\<lambda>proof. Inr (proof, b))))"

record TransactionOutput =
  o_features :: u8
  o_commitment :: bytes
  o_rangeProof :: bytes

definition Output_Serialize :: "TransactionOutput \<Rightarrow> bytes" where
  "Output_Serialize out =
     AppendU8 (o_features out) @ AppendBigInteger (o_commitment out) @
     RangeProof_Serialize (o_rangeProof out)"

definition Output_Deserialize :: "TransactionOutput reader" where
  "Output_Deserialize b =
     rbind (ReadU8 b) (\<lambda>(features, b).
     rbind (ReadBigInteger 33 b) (\<lambda>(commitment, b).
     rbind (RangeProof_Deserialize b) (\<lambda>(rangeProof, b).
       Inr (\<lparr>o_features = features, o_commitment = commitment, o_rangeProof = rangeProof\<rparr>, b))))"

definition Output_GetHash :: "(bytes \<Rightarrow> bytes) \<Rightarrow> TransactionOutput \<Rightarrow> bytes" where
  "Output_GetHash Blake2b out = Blake2b (AppendU8 (o_features out) @ AppendBigInteger (o_commitment out))"

definition Output_IsCoinbase :: "TransactionOutput \<Rightarrow> bool" where
  "Output_IsCoinbase out = (o_features out AND COINBASE_OUTPUT = COINBASE_OUTPUT)"

definition output_valid :: "TransactionOutput \<Rightarrow> bool" where
  "output_valid out \<longleftrightarrow> length (o_commitment out) = 33 \<and> length (o_rangeProof out) = MAX_PROOF_SIZE"

record OutputIdentifier =
  oi_features :: u8
  oi_commitment :: bytes

definition OutputIdentifier_FromOutput :: "TransactionOutput \<Rightarrow> OutputIdentifier" where
  "OutputIdentifier_FromOutput out =
     \<lparr>oi_features = o_features out, oi_commitment = o_commitment out\<rparr>"

definition OutputIdentifier_Serialize :: "OutputIdentifier \<Rightarrow> bytes" where
  "OutputIdentifier_Serialize oi =
     AppendU8 (oi_features oi) @ AppendBigInteger (oi_commitment oi)"

definition OutputIdentifier_Deserialize :: "OutputIdentifier reader" where
  "OutputIdentifier_Deserialize b =
     rbind (ReadU8 b) (\<lambda>(features, b).
     rbind (ReadBigInteger 33 b) (\<lambda>(commitment, b).
       Inr (\<lparr>oi_features = features, oi_commitment = commitment\<rparr>, b)))"

section \<open>Locations of spent outputs, block sums, short ids\<close>

record OutputLocation =
  ol_leafIndex :: LeafIndex
  ol_blockHeight :: u64

definition OutputLocation_Serialize :: "OutputLocation \<Rightarrow> bytes" where
  "OutputLocation_Serialize l =
     AppendU64 (LeafIndex_GetPosition (ol_leafIndex l)) @ AppendU64 (ol_blockHeight l)"

definition OutputLocation_Deserialize :: "OutputLocation reader" where
  "OutputLocation_Deserialize b =
     rbind (ReadU64 b) (\<lambda>(position, b).
     rbind (ReadU64 b) (\<lambda>(blockHeight, b).
       Inr (\<lparr>ol_leafIndex = LeafIndex_From (Index_At position), ol_blockHeight = blockHeight\<rparr>, b)))"

record SpentOutput =
  so_commitment :: bytes
  so_location :: OutputLocation

definition SpentOutput_Serialize :: "SpentOutput \<Rightarrow> bytes" where
  "SpentOutput_Serialize s =
     AppendBigInteger (so_commitment s) @ OutputLocation_Serialize (so_location s)"

definition SpentOutput_Deserialize :: "SpentOutput reader" where
  "SpentOutput_Deserialize b =
     rbind (ReadBigInteger 33 b) (\<lambda>(commitment, b).
     rbind (OutputLocation_Deserialize b) (\<lambda>(location, b).
       Inr (\<lparr>so_commitment = commitment, so_location = location\<rparr>, b)))"

definition SpentOutputs_Serialize :: "SpentOutput list \<Rightarrow> bytes" where
  "SpentOutputs_Serialize outputs =
     AppendU8 0 @ AppendU16 (of_nat (length outputs)) @ concat (map SpentOutput_Serialize outputs)"

definition SpentOutputs_Deserialize :: "SpentOutput list reader" where
  "SpentOutputs_Deserialize b =
     rbind (ReadU8 b) (\<lambda>(version, b).
     rbind (ReadU16 b) (\<lambda>(numOutputs, b).
       read_n SpentOutput_Deserialize (unat numOutputs) b))"

text \<open>\<open>unordered_map::insert\<close> keeps the value already present for a key.\<close>

definition SpentOutputs_BuildMap :: "SpentOutput list \<Rightarrow> (bytes \<rightharpoonup> OutputLocation)" where
  "SpentOutputs_BuildMap outputs =
     fold (\<lambda>out m. if m (so_commitment out) = None
                   then m(so_commitment out \<mapsto> so_location out) else m) outputs Map.empty"

record BlockSums =
  bs_outputSum :: bytes
  bs_kernelSum :: bytes

definition BlockSums_Serialize :: "BlockSums \<Rightarrow> bytes" where
  "BlockSums_Serialize s = AppendBigInteger (bs_outputSum s) @ AppendBigInteger (bs_kernelSum s)"

definition BlockSums_Deserialize :: "BlockSums reader" where
  "BlockSums_Deserialize b =
     rbind (ReadBigInteger 33 b) (\<lambda>(outputSum, b).
     rbind (ReadBigInteger 33 b) (\<lambda>(kernelSum, b).
       Inr (\<lparr>bs_outputSum = outputSum, bs_kernelSum = kernelSum\<rparr>, b)))"

definition ShortId_Create ::
  "(bytes \<Rightarrow> bytes) \<Rightarrow> (u64 \<Rightarrow> u64 \<Rightarrow> bytes \<Rightarrow> u64) \<Rightarrow> bytes \<Rightarrow> bytes \<Rightarrow> u64 \<Rightarrow> bytes result" where
  "ShortId_Create Blake2b SipHash24 hash blockHash nonce =
     (let hashWithNonce = Blake2b (AppendBigInteger blockHash @ AppendU64 nonce);
          byteBuffer = ByteBuffer_New hashWithNonce V1
      in rbind (ReadU64_LE byteBuffer) (\<lambda>(k0, byteBuffer).
         rbind (ReadU64_LE byteBuffer) (\<lambda>(k1, byteBuffer).
           Inr (take 6 (AppendU64_LE (SipHash24 k0 k1 hash))))))"

definition ShortId_Serialize :: "bytes \<Rightarrow> bytes" where
  "ShortId_Serialize m_id = AppendBigInteger m_id"

definition ShortId_Deserialize :: "bytes reader" where
  "ShortId_Deserialize b = ReadVector 6 b"

section \<open>Decoding what was encoded\<close>

lemma fee_parts:
  assumes "fee < (2 ^ 40 :: u64)"
  shows "push_bit 32 (ucast (ucast (drop_bit 32 fee) :: u8)) + ucast (ucast (fee AND 0xffffffff) :: u32) = fee"
proof -
  have hi: "unat (drop_bit 32 fee) < 256"
  proof -
    have "unat fee < 2 ^ 40" using assms by (simp add: word_less_nat_alt unat_two_power)
    then have "unat fee div 2 ^ 32 < 2 ^ 8" by (simp add: less_mult_imp_div_less)
    then show ?thesis by (simp add: drop_bit_eq_div unat_div)
  qed
  have "ucast (ucast (drop_bit 32 fee) :: u8) = drop_bit 32 fee"
    using hi by (intro ucast_ucast_self) simp
  moreover have "fee AND 0xffffffff = take_bit 32 fee"
    by (simp add: take_bit_eq_mask mask_eq_exp_minus_1)
  moreover have "ucast (ucast (take_bit 32 fee) :: u32) = take_bit 32 fee"
    by (simp add: bit_eq_iff bit_simps) 
  moreover have "push_bit 32 (drop_bit 32 fee) + take_bit 32 fee = fee"
    by (rule bits_ident)
  ultimately show ?thesis by simp
qed

lemma low_nibble: "(s :: u8) < 16 \<Longrightarrow> s AND 0x0f = s"
proof -
  assume "s < 16"
  then have "unat s < 2 ^ 4" by (simp add: word_less_nat_alt)
  then have "take_bit 4 s = s" by (rule take_bit_word_self)
  then show ?thesis by (simp add: take_bit_eq_mask mask_eq_exp_minus_1)
qed

lemma decodes_Fee: "fee_valid fee \<Longrightarrow> decodes Fee_Deserialize v (Fee_Serialize fee) fee"
  unfolding Fee_Deserialize_def [abs_def] Fee_Serialize_def fee_valid_def
  by ((rule decodes_bind, rule decodes_ints)+, rule decodes_bind_return, rule decodes_ints)
    (simp add: fee_parts low_nibble)

lemma kernel_features_cases:
  assumes "f \<le> (3 :: u8)"
  obtains "f = DEFAULT_KERNEL" | "f = COINBASE_KERNEL" | "f = HEIGHT_LOCKED" | "f = NO_RECENT_DUPLICATE"
proof -
  have "unat f \<le> 3" using assms by (simp add: word_le_nat_alt)
  then have "unat f \<in> {0, 1, 2, 3}" by auto
  then have "f \<in> {0, 1, 2, 3}" by (auto simp: word_unat_eq_iff)
  then show thesis using that by (auto simp: kernel_features_defs)
qed

definition kernel_terms_bytes :: "EProtocolVersion \<Rightarrow> TransactionKernel \<Rightarrow> bytes" where
  "kernel_terms_bytes v k =
     (if version_ge v V2 then
        (if k_features k = DEFAULT_KERNEL then Fee_Serialize (k_fee k)
         else if k_features k = COINBASE_KERNEL then []
         else if k_features k = HEIGHT_LOCKED
              then Fee_Serialize (k_fee k) @ AppendU64 (k_lockHeight k)
         else if k_features k = NO_RECENT_DUPLICATE
              then Fee_Serialize (k_fee k) @ AppendU16 (ucast (k_lockHeight k))
         else [])
      else Fee_Serialize (k_fee k) @ AppendU64 (k_lockHeight k))"

lemma Kernel_Serialize_eq:
  "Kernel_Serialize v k =
     AppendU8 (k_features k) @ kernel_terms_bytes v k @
     AppendBigInteger (k_excessCommitment k) @ AppendBigInteger (k_excessSignature k)"
  by (simp add: Kernel_Serialize_def kernel_terms_bytes_def)

lemma ucast_lockHeight:
  assumes "h \<le> WEEK_HEIGHT"
  shows "ucast (ucast h :: u16) = h"
proof -
  have "unat h \<le> 10080" using assms by (simp add: word_le_nat_alt heights)
  then show ?thesis by (intro ucast_ucast_self) simp
qed

lemma decodes_kernel_terms:
  assumes "kernel_valid v k"
  shows "decodes (read_kernel_terms (k_features k)) v (kernel_terms_bytes v k) (k_fee k, k_lockHeight k)"
proof (cases "version_ge v V2")
  case False
  have Fee: "decodes Fee_Deserialize v (Fee_Serialize (k_fee k)) (k_fee k)"
    using assms by (intro decodes_Fee) (simp add: kernel_valid_def)
  have "decodes (\<lambda>b. rbind (Fee_Deserialize b) (\<lambda>(fee, b).
      rbind (ReadU64 b) (\<lambda>(lockHeight, b). Inr ((fee, lockHeight), b)))) v
      (Fee_Serialize (k_fee k) @ AppendU64 (k_lockHeight k)) (k_fee k, k_lockHeight k)"
    by (rule decodes_bind, rule Fee, rule decodes_bind_return, rule decodes_U64) simp
  with False show ?thesis
    by (intro decodes_version [where d = "read_kernel_terms (k_features k)"])
      (auto simp: kernel_terms_bytes_def read_kernel_terms_def)
next
  case True
  let ?fee = "k_fee k" and ?lock = "k_lockHeight k"
  have valid: "fee_valid ?fee" "k_features k \<le> 3" using assms by (auto simp: kernel_valid_def)
  note Fee = decodes_Fee [OF valid(1), of v]
  note ver = decodes_version [where d = "read_kernel_terms (k_features k)"]
  from valid(2) show ?thesis
  proof (cases rule: kernel_features_cases)
    case 1
    then have "?lock = 0" using assms True by (simp add: kernel_valid_def kernel_features_defs)
    with 1 True decodes_map [OF Fee, of "\<lambda>fee. (fee, 0)"] show ?thesis
      by (intro ver) (auto simp: kernel_terms_bytes_def read_kernel_terms_def kernel_features_defs)
  next
    case 2
    then have "?lock = 0" "?fee = Fee_Default"
      using assms True by (simp_all add: kernel_valid_def kernel_features_defs)
    with 2 True decodes_return [of "(Fee_Default, 0)" v] show ?thesis
      by (intro ver) (auto simp: kernel_terms_bytes_def read_kernel_terms_def kernel_features_defs)
  next
    case 3
    have "decodes (\<lambda>b. rbind (Fee_Deserialize b) (\<lambda>(fee, b).
        rbind (ReadU64 b) (\<lambda>(lockHeight, b). Inr ((fee, lockHeight), b)))) v
        (Fee_Serialize ?fee @ AppendU64 ?lock) (?fee, ?lock)"
      by (rule decodes_bind, rule Fee, rule decodes_bind_return, rule decodes_U64) simp
    with 3 True show ?thesis
      by (intro ver) (auto simp: kernel_terms_bytes_def read_kernel_terms_def kernel_features_defs)
  next
    case 4
    then have lock: "ucast (ucast ?lock :: u16) = ?lock"
      using assms by (intro ucast_lockHeight) (simp add: kernel_valid_def)
    have "decodes (\<lambda>b. rbind (Fee_Deserialize b) (\<lambda>(fee, b).
        rbind (ReadU16 b) (\<lambda>(lockHeight, b). Inr ((fee, ucast lockHeight), b)))) v
        (Fee_Serialize ?fee @ AppendU16 (ucast ?lock)) (?fee, ?lock)"
      by (rule decodes_bind, rule Fee, rule decodes_bind_return, rule decodes_U16) (simp add: lock)
    with 4 True show ?thesis
      by (intro ver) (auto simp: kernel_terms_bytes_def read_kernel_terms_def kernel_features_defs)
  qed
qed

lemma decodes_Kernel:
  assumes "kernel_valid v k"
  shows "decodes Kernel_Deserialize v (Kernel_Serialize v k) k"
proof -
  have len: "length (k_excessCommitment k) = 33" "length (k_excessSignature k) = 64"
    and lock: "\<not> (k_features k = NO_RECENT_DUPLICATE \<and> (k_lockHeight k = 0 \<or> WEEK_HEIGHT < k_lockHeight k))"
    using assms by (auto simp: kernel_valid_def)
  note commitment = decodes_BigInteger [OF len(1)] and signature = decodes_BigInteger [OF len(2)]
  have last: "decodes (\<lambda>b. rbind (ReadBigInteger 64 b) (\<lambda>(excessSignature, b).
      if k_features k = NO_RECENT_DUPLICATE \<and> (k_lockHeight k = 0 \<or> WEEK_HEIGHT < k_lockHeight k)
      then Inl DeserializationException
      else Inr (\<lparr>k_features = k_features k, k_fee = k_fee k, k_lockHeight = k_lockHeight k,
                 k_excessCommitment = k_excessCommitment k, k_excessSignature = excessSignature\<rparr>, b))) v
      (AppendBigInteger (k_excessSignature k)) k"
    unfolding if_not_P [OF lock] by (rule decodes_bind_return, rule signature) simp_all
  have tail: "decodes (case (k_fee k, k_lockHeight k) of (fee, lockHeight) \<Rightarrow> \<lambda>b.
      rbind (ReadBigInteger 33 b) (\<lambda>(excessCommitment, b).
      rbind (ReadBigInteger 64 b) (\<lambda>(excessSignature, b).
        if k_features k = NO_RECENT_DUPLICATE \<and> (lockHeight = 0 \<or> WEEK_HEIGHT < lockHeight)
        then Inl DeserializationException
        else Inr (\<lparr>k_features = k_features k, k_fee = fee, k_lockHeight = lockHeight,
                   k_excessCommitment = excessCommitment, k_excessSignature = excessSignature\<rparr>, b)))) v
      (AppendBigInteger (k_excessCommitment k) @ AppendBigInteger (k_excessSignature k)) k"
    unfolding prod.case by (rule decodes_bind, rule commitment, simp, rule last)
  show ?thesis
    unfolding Kernel_Deserialize_def [abs_def] Kernel_Serialize_eq
    by (rule decodes_bind, rule decodes_U8, rule decodes_bind, rule decodes_kernel_terms [OF assms], rule tail)
qed

interpretation kernel_codec: codec Kernel_Serialize Kernel_Deserialize kernel_valid
  by unfold_locales (rule decodes_Kernel)

lemma decodes_Input:
  assumes "input_valid GetOutputType v i"
  shows "decodes (Input_Deserialize GetOutputType) v (Input_Serialize v i) i"
proof (cases "version_ge v V3")
  case True
  have "decodes (\<lambda>b. rbind (ReadBigInteger 33 b) (\<lambda>(commitment, b).
      Inr (\<lparr>i_features = GetOutputType commitment, i_commitment = commitment\<rparr>, b))) v
      (AppendBigInteger (i_commitment i)) i"
    using assms True by (intro decodes_bind_return [OF decodes_BigInteger]) (auto simp: input_valid_def)
  with True show ?thesis
    by (intro decodes_version [where d = "Input_Deserialize GetOutputType"])
      (auto simp: Input_Serialize_def Input_Deserialize_def)
next
  case False
  have len: "length (i_commitment i) = 33" using assms by (simp add: input_valid_def)
  have "decodes (\<lambda>b. rbind (ReadU8 b) (\<lambda>(features, b). rbind (ReadBigInteger 33 b) (\<lambda>(commitment, b).
      Inr (\<lparr>i_features = features, i_commitment = commitment\<rparr>, b)))) v
      (AppendU8 (i_features i) @ AppendBigInteger (i_commitment i)) i"
    by (rule decodes_bind, rule decodes_U8, rule decodes_bind_return, rule decodes_BigInteger [OF len]) simp_all
  with False show ?thesis
    by (intro decodes_version [where d = "Input_Deserialize GetOutputType"])
      (auto simp: Input_Serialize_def Input_Deserialize_def)
qed

interpretation input_codec:
  codec Input_Serialize "Input_Deserialize GetOutputType" "input_valid GetOutputType" for GetOutputType
  by unfold_locales (rule decodes_Input)

lemma decodes_RangeProof:
  assumes "length p = MAX_PROOF_SIZE"
  shows "decodes RangeProof_Deserialize v (RangeProof_Serialize p) p"
proof -
  have norm: "RangeProof_Normalize p = Inr p" using assms by (simp add: RangeProof_Normalize_def)
  have "decodes (\<lambda>b. rbind (ReadVector (of_nat (length p)) b) (\<lambda>(q, b).
      rbind (RangeProof_Normalize q) (\<lambda>r. Inr (r, b)))) v (p @ []) p"
    using norm decodes_return [of p v]
    by (intro decodes_bind [OF decodes_Vector]) (simp_all add: assms MAX_PROOF_SIZE_def)
  then have "decodes (\<lambda>b. if of_nat MAX_PROOF_SIZE < (of_nat (length p) :: u64)
      then Inl DeserializationException
      else rbind (ReadVector (of_nat (length p)) b) (\<lambda>(q, b).
        rbind (RangeProof_Normalize q) (\<lambda>r. Inr (r, b)))) v p p"
    by (simp add: assms)
  note tail = this
  show ?thesis
    unfolding RangeProof_Serialize_def RangeProof_Deserialize_def [abs_def] AppendByteVector_def
      AppendLength.simps append_Nil
    by (rule decodes_bind, rule decodes_U64, rule tail)
qed

lemma decodes_Output:
  assumes "output_valid out"
  shows "decodes Output_Deserialize v (Output_Serialize out) out"
proof -
  have len: "length (o_commitment out) = 33" "length (o_rangeProof out) = MAX_PROOF_SIZE"
    using assms by (simp_all add: output_valid_def)
  show ?thesis
    unfolding Output_Deserialize_def [abs_def] Output_Serialize_def
    by (rule decodes_bind, rule decodes_U8, rule decodes_bind, rule decodes_BigInteger [OF len(1)], simp,
        rule decodes_bind_return, rule decodes_RangeProof [OF len(2)]) simp
qed

interpretation output_codec: codec "\<lambda>_. Output_Serialize" Output_Deserialize "\<lambda>_. output_valid"
  by unfold_locales (rule decodes_Output)

lemma decodes_OutputIdentifier:
  assumes "length (oi_commitment oi) = 33"
  shows "decodes OutputIdentifier_Deserialize v (OutputIdentifier_Serialize oi) oi"
  unfolding OutputIdentifier_Deserialize_def [abs_def] OutputIdentifier_Serialize_def
  by (rule decodes_bind, rule decodes_U8, rule decodes_bind_return, rule decodes_BigInteger [OF assms]) simp_all

interpretation identifier_codec: codec
  "\<lambda>_. OutputIdentifier_Serialize" OutputIdentifier_Deserialize "\<lambda>_ oi. length (oi_commitment oi) = 33"
  by unfold_locales (rule decodes_OutputIdentifier)

lemma decodes_BlockSums:
  assumes "length (bs_outputSum s) = 33" "length (bs_kernelSum s) = 33"
  shows "decodes BlockSums_Deserialize v (BlockSums_Serialize s) s"
  unfolding BlockSums_Deserialize_def [abs_def] BlockSums_Serialize_def
  by (rule decodes_bind, rule decodes_BigInteger [OF assms(1)], simp,
      rule decodes_bind_return, rule decodes_BigInteger [OF assms(2)]) simp_all

interpretation block_sums_codec: codec "\<lambda>_. BlockSums_Serialize" BlockSums_Deserialize
  "\<lambda>_ s. length (bs_outputSum s) = 33 \<and> length (bs_kernelSum s) = 33"
  by unfold_locales (simp add: decodes_BlockSums)

lemma decodes_ShortId:
  "length m_id = 6 \<Longrightarrow> decodes ShortId_Deserialize v (ShortId_Serialize m_id) m_id"
  unfolding ShortId_Deserialize_def [abs_def] ShortId_Serialize_def AppendBigInteger_def
  by (rule decodes_Vector) simp_all

definition location_valid :: "OutputLocation \<Rightarrow> bool" where
  "location_valid l \<longleftrightarrow>
     in_range (unat (m_leafIndex (ol_leafIndex l))) 0 \<and>
     ol_leafIndex l = LeafIndex_At (m_leafIndex (ol_leafIndex l))"

lemma decodes_OutputLocation:
  assumes "location_valid l"
  shows "decodes OutputLocation_Deserialize v (OutputLocation_Serialize l) l"
proof -
  have "LeafIndex_From (Index_At (LeafIndex_GetPosition (ol_leafIndex l))) = ol_leafIndex l"
    using assms LeafIndex_AtPos_At unfolding location_valid_def LeafIndex_AtPos_def by metis
  then show ?thesis
    unfolding OutputLocation_Deserialize_def [abs_def] OutputLocation_Serialize_def
    apply -
    by (rule decodes_bind, rule decodes_U64, rule decodes_bind_return, rule decodes_U64) simp
qed

lemma decodes_SpentOutput:
  assumes "location_valid (so_location s)" "length (so_commitment s) = 33"
  shows "decodes SpentOutput_Deserialize v (SpentOutput_Serialize s) s"
  unfolding SpentOutput_Deserialize_def [abs_def] SpentOutput_Serialize_def
  by (rule decodes_bind, rule decodes_BigInteger [OF assms(2)], simp,
      rule decodes_bind_return, rule decodes_OutputLocation [OF assms(1)]) simp

interpretation spent_output_codec: codec "\<lambda>_. SpentOutput_Serialize" SpentOutput_Deserialize
  "\<lambda>_ s. location_valid (so_location s) \<and> length (so_commitment s) = 33"
  by unfold_locales (simp add: decodes_SpentOutput)

lemma decodes_SpentOutputs:
  assumes "\<And>s. s \<in> set outs \<Longrightarrow> location_valid (so_location s) \<and> length (so_commitment s) = 33"
    and "length outs < 2 ^ 16"
  shows "decodes SpentOutputs_Deserialize v (SpentOutputs_Serialize outs) outs"
proof -
  have "unat (of_nat (length outs) :: u16) = length outs"
    using assms(2) by (intro of_nat_inverse [OF refl]) simp
  then have list: "decodes (read_n SpentOutput_Deserialize (unat (of_nat (length outs) :: u16))) v
      (concat (map SpentOutput_Serialize outs)) outs"
    using spent_output_codec.sequence [OF assms(1)] by simp
  show ?thesis
    unfolding SpentOutputs_Deserialize_def [abs_def] SpentOutputs_Serialize_def
    by (rule decodes_bind, rule decodes_U8, rule decodes_bind, rule decodes_U16, rule list)
qed

end
