(* ===== verification/BlockModels.thy ===== *)
theory BlockModels
  imports TxModels
begin

text \<open>
  Proofs of work, block headers, transaction bodies, transactions, full and compact blocks
  (\<^verbatim>\<open>src/Core/Models/{ProofOfWork,BlockHeader,TransactionBody,Transaction,FullBlock,CompactBlock}.cpp\<close>).

  A proof of work keeps the hash it was built with, as the code does: the constructor from nonces hashes
  the packed nonces, \<open>Deserialize\<close> hashes the bytes it read. The other hashes are functions of the
  members. The sorts of a body by hash are \<open>sort_key\<close>; on elements with equal hashes \<open>std::sort\<close> may
  choose another order.
\<close>

section \<open>Proof of work\<close>

record ProofOfWork =
  pow_edgeBits :: u8
  pow_proofNonces :: "u64 list"
  pow_hash :: bytes

definition ProofOfWork_IsPrimary :: "ProofOfWork \<Rightarrow> bool" where
  "ProofOfWork_IsPrimary pow =
     (pow_edgeBits pow \<noteq> SECOND_POW_EDGE_BITS \<and> DEFAULT_MIN_EDGE_BITS \<le> pow_edgeBits pow)"

definition ProofOfWork_IsSecondary :: "ProofOfWork \<Rightarrow> bool" where
  "ProofOfWork_IsSecondary pow = (pow_edgeBits pow = SECOND_POW_EDGE_BITS)"

definition cycle_bytes_len :: "u8 \<Rightarrow> nat" where
  "cycle_bytes_len edgeBits = (unat edgeBits * PROOFSIZE + 7) div 8"

text \<open>
  The two loops of \<open>SerializeCycle\<close>. The packed vector has room for \<open>PROOFSIZE\<close> nonces; the model's
  list update ignores the out-of-range writes that more nonces would make.
\<close>

definition set_cycle_bit :: "nat \<Rightarrow> u64 \<Rightarrow> nat \<Rightarrow> nat \<Rightarrow> bytes \<Rightarrow> bytes" where
  "set_cycle_bit edgeBits nonce n bt bits =
     (if nonce AND push_bit bt 1 \<noteq> 0 then
        let positionTemp = n * edgeBits + bt
        in bits[positionTemp div 8 := bits ! (positionTemp div 8) OR push_bit (positionTemp mod 8) 1]
      else bits)"

definition SerializeCycle :: "u8 \<Rightarrow> u64 list \<Rightarrow> bytes" where
  "SerializeCycle edgeBits proofNonces =
     fold (\<lambda>n. fold (\<lambda>bt. set_cycle_bit (unat edgeBits) (proofNonces ! n) n bt) [0..<unat edgeBits])
       [0..<length proofNonces] (replicate (cycle_bytes_len edgeBits) 0)"

definition ProofOfWork_New :: "(bytes \<Rightarrow> bytes) \<Rightarrow> u8 \<Rightarrow> u64 list \<Rightarrow> ProofOfWork" where
  "ProofOfWork_New Blake2b edgeBits proofNonces =
     \<lparr>pow_edgeBits = edgeBits, pow_proofNonces = proofNonces,
      pow_hash = Blake2b (SerializeCycle edgeBits proofNonces)\<rparr>"

definition ProofOfWork_Serialize :: "ProofOfWork \<Rightarrow> bytes" where
  "ProofOfWork_Serialize pow =
     AppendU8 (pow_edgeBits pow) @ SerializeCycle (pow_edgeBits pow) (pow_proofNonces pow)"

definition read_nonce :: "bytes \<Rightarrow> nat \<Rightarrow> nat \<Rightarrow> u64" where
  "read_nonce bits edgeBits n =
     fold (\<lambda>bt proofNonce.
             let positionTemp = n * edgeBits + bt
             in if bits ! (positionTemp div 8) AND push_bit (positionTemp mod 256 mod 8) 1 \<noteq> 0
                then proofNonce OR push_bit bt 1 else proofNonce)
       [0..<edgeBits] 0"

definition DeserializeProofNonces :: "bytes \<Rightarrow> u8 \<Rightarrow> u64 list result" where
  "DeserializeProofNonces bits edgeBits =
     (if edgeBits = 0 \<or> 63 < edgeBits then Inl DeserializationException
      else Inr (map (read_nonce bits (unat edgeBits)) [0..<PROOFSIZE]))"

definition ProofOfWork_Deserialize :: "(bytes \<Rightarrow> bytes) \<Rightarrow> ProofOfWork reader" where
  "ProofOfWork_Deserialize Blake2b b =
     rbind (ReadU8 b) (\<lambda>(edgeBits, b).
     rbind (ReadVector (of_nat (cycle_bytes_len edgeBits)) b) (\<lambda>(bits, b).
     rbind (DeserializeProofNonces bits edgeBits) (\<lambda>proofNonces.
       Inr (\<lparr>pow_edgeBits = edgeBits, pow_proofNonces = proofNonces, pow_hash = Blake2b bits\<rparr>, b))))"

definition pow_valid :: "(bytes \<Rightarrow> bytes) \<Rightarrow> ProofOfWork \<Rightarrow> bool" where
  "pow_valid Blake2b pow \<longleftrightarrow>
     pow_edgeBits pow \<noteq> 0 \<and> pow_edgeBits pow \<le> 63 \<and> length (pow_proofNonces pow) = PROOFSIZE \<and>
     (\<forall>nonce \<in> set (pow_proofNonces pow). unat nonce < 2 ^ unat (pow_edgeBits pow)) \<and>
     pow_hash pow = Blake2b (SerializeCycle (pow_edgeBits pow) (pow_proofNonces pow))"

section \<open>Block headers\<close>

record BlockHeader =
  h_version :: u16
  h_height :: u64
  h_timestamp :: "64 word"
  h_previousBlockHash :: bytes
  h_previousRoot :: bytes
  h_outputRoot :: bytes
  h_rangeProofRoot :: bytes
  h_kernelRoot :: bytes
  h_totalKernelOffset :: bytes
  h_outputMMRSize :: u64
  h_kernelMMRSize :: u64
  h_totalDifficulty :: u64
  h_scalingDifficulty :: u32
  h_nonce :: u64
  h_proofOfWork :: ProofOfWork

definition Header_GetHash :: "BlockHeader \<Rightarrow> bytes" where
  "Header_GetHash h = pow_hash (h_proofOfWork h)"

definition Header_GetNumOutputs :: "BlockHeader \<Rightarrow> u64" where
  "Header_GetNumOutputs h = GetLeafIndex (Index_At (h_outputMMRSize h))"

definition Header_GetNumKernels :: "BlockHeader \<Rightarrow> u64" where
  "Header_GetNumKernels h = GetLeafIndex (Index_At (h_kernelMMRSize h))"

definition GetPreProofOfWork :: "BlockHeader \<Rightarrow> bytes" where
  "GetPreProofOfWork h =
     AppendU16 (h_version h) @ AppendU64 (h_height h) @ AppendU64 (h_timestamp h) @
     AppendBigInteger (h_previousBlockHash h) @ AppendBigInteger (h_previousRoot h) @
     AppendBigInteger (h_outputRoot h) @ AppendBigInteger (h_rangeProofRoot h) @
     AppendBigInteger (h_kernelRoot h) @ AppendBigInteger (h_totalKernelOffset h) @
     AppendU64 (h_outputMMRSize h) @ AppendU64 (h_kernelMMRSize h) @ AppendU64 (h_totalDifficulty h) @
     AppendU32 (h_scalingDifficulty h) @ AppendU64 (h_nonce h)"

definition Header_Serialize :: "BlockHeader \<Rightarrow> bytes" where
  "Header_Serialize h =
     AppendU16 (h_version h) @ AppendU64 (h_height h) @ AppendU64 (h_timestamp h) @
     AppendBigInteger (h_previousBlockHash h) @ AppendBigInteger (h_previousRoot h) @
     AppendBigInteger (h_outputRoot h) @ AppendBigInteger (h_rangeProofRoot h) @
     AppendBigInteger (h_kernelRoot h) @ AppendBigInteger (h_totalKernelOffset h) @
     AppendU64 (h_outputMMRSize h) @ AppendU64 (h_kernelMMRSize h) @ AppendU64 (h_totalDifficulty h) @
     AppendU32 (h_scalingDifficulty h) @ AppendU64 (h_nonce h) @
     ProofOfWork_Serialize (h_proofOfWork h)"

definition Header_Deserialize :: "(bytes \<Rightarrow> bytes) \<Rightarrow> BlockHeader reader" where
  "Header_Deserialize Blake2b b =
     rbind (ReadU16 b) (\<lambda>(version, b).
     rbind (ReadU64 b) (\<lambda>(height, b).
     rbind (ReadU64 b) (\<lambda>(timestamp, b).
     rbind (ReadBigInteger 32 b) (\<lambda>(previousBlockHash, b).
     rbind (ReadBigInteger 32 b) (\<lambda>(previousRoot, b).
     rbind (ReadBigInteger 32 b) (\<lambda>(outputRoot, b).
     rbind (ReadBigInteger 32 b) (\<lambda>(rangeProofRoot, b).
     rbind (ReadBigInteger 32 b) (\<lambda>(kernelRoot, b).
     rbind (ReadBigInteger 32 b) (\<lambda>(totalKernelOffset, b).
     rbind (ReadU64 b) (\<lambda>(outputMMRSize, b).
     rbind (ReadU64 b) (\<lambda>(kernelMMRSize, b).
     rbind (ReadU64 b) (\<lambda>(totalDifficulty, b).
     rbind (ReadU32 b) (\<lambda>(scalingDifficulty, b).
     rbind (ReadU64 b) (\<lambda>(nonce, b).
     rbind (ProofOfWork_Deserialize Blake2b b) (\<lambda>(proofOfWork, b).
       Inr (\<lparr>h_version = version, h_height = height, h_timestamp = timestamp,
             h_previousBlockHash = previousBlockHash, h_previousRoot = previousRoot,
             h_outputRoot = outputRoot, h_rangeProofRoot = rangeProofRoot, h_kernelRoot = kernelRoot,
             h_totalKernelOffset = totalKernelOffset, h_outputMMRSize = outputMMRSize,
             h_kernelMMRSize = kernelMMRSize, h_totalDifficulty = totalDifficulty,
             h_scalingDifficulty = scalingDifficulty, h_nonce = nonce,
             h_proofOfWork = proofOfWork\<rparr>, b))))))))))))))))"

definition Header_SerializeWithIndex :: "BlockHeader \<Rightarrow> u64 \<Rightarrow> bytes" where
  "Header_SerializeWithIndex h index =
     AppendU64 index @
     SerializeCycle (pow_edgeBits (h_proofOfWork h)) (pow_proofNonces (h_proofOfWork h))"

definition header_valid :: "(bytes \<Rightarrow> bytes) \<Rightarrow> BlockHeader \<Rightarrow> bool" where
  "header_valid Blake2b h \<longleftrightarrow>
     length (h_previousBlockHash h) = 32 \<and> length (h_previousRoot h) = 32 \<and>
     length (h_outputRoot h) = 32 \<and> length (h_rangeProofRoot h) = 32 \<and>
     length (h_kernelRoot h) = 32 \<and> length (h_totalKernelOffset h) = 32 \<and>
     pow_valid Blake2b (h_proofOfWork h)"

section \<open>Transaction bodies and transactions\<close>

record TransactionBody =
  b_inputs :: "TransactionInput list"
  b_outputs :: "TransactionOutput list"
  b_kernels :: "TransactionKernel list"

definition TransactionBody_NoSort ::
  "TransactionInput list \<Rightarrow> TransactionOutput list \<Rightarrow> TransactionKernel list \<Rightarrow> TransactionBody" where
  "TransactionBody_NoSort inputs outputs kernels =
     \<lparr>b_inputs = inputs, b_outputs = outputs, b_kernels = kernels\<rparr>"

text \<open>
  The library's sort may put elements of equal hash in any order; the model keeps their order. Elements with different
  hashes, which is all the round trips below need, are sorted in one way only.
\<close>

definition TransactionBody_New ::
  "(bytes \<Rightarrow> bytes) \<Rightarrow> TransactionInput list \<Rightarrow> TransactionOutput list \<Rightarrow> TransactionKernel list \<Rightarrow>
   TransactionBody" where
  "TransactionBody_New Blake2b inputs outputs kernels =
     \<lparr>b_inputs = sort_key (Input_GetHash Blake2b) inputs,
      b_outputs = sort_key (Output_GetHash Blake2b) outputs,
      b_kernels = sort_key (Kernel_GetHash Blake2b) kernels\<rparr>"

definition CalcFee :: "TransactionBody \<Rightarrow> u64" where
  "CalcFee body = foldl (\<lambda>sum kernel. sum + fee_value (k_fee kernel)) 0 (b_kernels body)"

definition GetFeeShift :: "TransactionBody \<Rightarrow> u8" where
  "GetFeeShift body =
     foldl (\<lambda>shift kernel. if shift < fee_shift (k_fee kernel) then fee_shift (k_fee kernel) else shift)
       0 (b_kernels body)"

definition CalcWeight :: "Environment \<Rightarrow> TransactionBody \<Rightarrow> u64 \<Rightarrow> u64" where
  "CalcWeight env body block_height =
     (let num_inputs = of_nat (length (b_inputs body));
          num_outputs = of_nat (length (b_outputs body));
          num_kernels = of_nat (length (b_kernels body))
      in if GetHeaderVersion env block_height < 5
         then CalculateWeightV4 num_inputs num_outputs num_kernels
         else CalculateWeightV5 num_inputs num_outputs num_kernels)"

definition Body_Serialize :: "EProtocolVersion \<Rightarrow> TransactionBody \<Rightarrow> bytes" where
  "Body_Serialize v body =
     AppendU64 (of_nat (length (b_inputs body))) @ AppendU64 (of_nat (length (b_outputs body))) @
     AppendU64 (of_nat (length (b_kernels body))) @
     concat (map (Input_Serialize v) (b_inputs body)) @
     concat (map Output_Serialize (b_outputs body)) @
     concat (map (Kernel_Serialize v) (b_kernels body))"

text \<open>
  The counters of the reading loops are signed 32-bit integers; a buffer holds far fewer elements than they can count, and
  reading past its end raises an exception, so that they do not overflow.
\<close>

definition Body_Deserialize :: "(bytes \<Rightarrow> bytes) \<Rightarrow> (bytes \<Rightarrow> u8) \<Rightarrow> TransactionBody reader" where
  "Body_Deserialize Blake2b GetOutputType b =
     rbind (ReadU64 b) (\<lambda>(numInputs, b).
     rbind (ReadU64 b) (\<lambda>(numOutputs, b).
     rbind (ReadU64 b) (\<lambda>(numKernels, b).
     rbind (read_n (Input_Deserialize GetOutputType) (unat numInputs) b) (\<lambda>(inputs, b).
     rbind (read_n Output_Deserialize (unat numOutputs) b) (\<lambda>(outputs, b).
     rbind (read_n Kernel_Deserialize (unat numKernels) b) (\<lambda>(kernels, b).
       Inr (TransactionBody_New Blake2b
              (sort_key (Input_GetHash Blake2b) inputs)
              (sort_key (Output_GetHash Blake2b) outputs)
              (sort_key (Kernel_GetHash Blake2b) kernels), b)))))))"

record Transaction =
  tx_offset :: bytes
  tx_body :: TransactionBody

definition Transaction_Serialize :: "EProtocolVersion \<Rightarrow> Transaction \<Rightarrow> bytes" where
  "Transaction_Serialize v tx = AppendBigInteger (tx_offset tx) @ Body_Serialize v (tx_body tx)"

definition Transaction_Deserialize :: "(bytes \<Rightarrow> bytes) \<Rightarrow> (bytes \<Rightarrow> u8) \<Rightarrow> Transaction reader" where
  "Transaction_Deserialize Blake2b GetOutputType b =
     rbind (ReadBigInteger 32 b) (\<lambda>(offset, b).
     rbind (Body_Deserialize Blake2b GetOutputType b) (\<lambda>(body, b).
       Inr (\<lparr>tx_offset = offset, tx_body = body\<rparr>, b)))"

definition Transaction_GetHash :: "(bytes \<Rightarrow> bytes) \<Rightarrow> Transaction \<Rightarrow> bytes" where
  "Transaction_GetHash Blake2b tx = Blake2b (Transaction_Serialize V1 tx)"

text \<open>\<open>min_fee << shift\<close>: a shift of 64 or more is undefined in C++; a fee read from the wire has at most 15.\<close>

definition FeeMeetsMinimum :: "Environment \<Rightarrow> u64 \<Rightarrow> Transaction \<Rightarrow> u64 \<Rightarrow> bool" where
  "FeeMeetsMinimum env fee_base tx block_height =
     (let min_fee = fee_base * CalcWeight env (tx_body tx) block_height
      in push_bit (unat (GetFeeShift (tx_body tx))) min_fee \<le> CalcFee (tx_body tx))"

definition CalculateFee :: "u64 \<Rightarrow> u64 \<Rightarrow> u64 \<Rightarrow> u64 \<Rightarrow> u64" where
  "CalculateFee feeBase numInputs numOutputs numKernels =
     feeBase * CalculateWeightV5 numInputs numOutputs numKernels"

section \<open>Blocks\<close>

record FullBlock =
  fb_header :: BlockHeader
  fb_body :: TransactionBody

definition FullBlock_Serialize :: "EProtocolVersion \<Rightarrow> FullBlock \<Rightarrow> bytes" where
  "FullBlock_Serialize v block = Header_Serialize (fb_header block) @ Body_Serialize v (fb_body block)"

definition FullBlock_Deserialize :: "(bytes \<Rightarrow> bytes) \<Rightarrow> (bytes \<Rightarrow> u8) \<Rightarrow> FullBlock reader" where
  "FullBlock_Deserialize Blake2b GetOutputType b =
     rbind (Header_Deserialize Blake2b b) (\<lambda>(header, b).
     rbind (Body_Deserialize Blake2b GetOutputType b) (\<lambda>(body, b).
       Inr (\<lparr>fb_header = header, fb_body = body\<rparr>, b)))"

record CompactBlock =
  cb_header :: BlockHeader
  cb_nonce :: u64
  cb_outputs :: "TransactionOutput list"
  cb_kernels :: "TransactionKernel list"
  cb_shortIds :: "bytes list"

definition CompactBlock_Serialize :: "EProtocolVersion \<Rightarrow> CompactBlock \<Rightarrow> bytes" where
  "CompactBlock_Serialize v block =
     Header_Serialize (cb_header block) @ AppendU64 (cb_nonce block) @
     AppendU64 (of_nat (length (cb_outputs block))) @ AppendU64 (of_nat (length (cb_kernels block))) @
     AppendU64 (of_nat (length (cb_shortIds block))) @
     concat (map Output_Serialize (cb_outputs block)) @
     concat (map (Kernel_Serialize v) (cb_kernels block)) @
     concat (map ShortId_Serialize (cb_shortIds block))"

definition CompactBlock_Deserialize :: "(bytes \<Rightarrow> bytes) \<Rightarrow> CompactBlock reader" where
  "CompactBlock_Deserialize Blake2b b =
     rbind (Header_Deserialize Blake2b b) (\<lambda>(header, b).
     rbind (ReadU64 b) (\<lambda>(nonce, b).
     rbind (ReadU64 b) (\<lambda>(numOutputs, b).
     rbind (ReadU64 b) (\<lambda>(numKernels, b).
     rbind (ReadU64 b) (\<lambda>(numShortIds, b).
     rbind (read_n Output_Deserialize (unat numOutputs) b) (\<lambda>(outputs, b).
     rbind (read_n Kernel_Deserialize (unat numKernels) b) (\<lambda>(kernels, b).
     rbind (read_n ShortId_Deserialize (unat numShortIds) b) (\<lambda>(shortIds, b).
       Inr (\<lparr>cb_header = header, cb_nonce = nonce, cb_outputs = outputs, cb_kernels = kernels,
             cb_shortIds = shortIds\<rparr>, b)))))))))"

section \<open>Packing and unpacking of the nonces\<close>

definition packed_bit :: "bytes \<Rightarrow> nat \<Rightarrow> bool" where
  "packed_bit bits k = bit (bits ! (k div 8)) (k mod 8)"

lemma length_set_cycle_bit [simp]: "length (set_cycle_bit e nonce n b bits) = length bits"
  by (simp add: set_cycle_bit_def Let_def)

lemma packed_bit_set:
  assumes "p < 8 * length bits"
  shows "packed_bit (bits[p div 8 := bits ! (p div 8) OR push_bit (p mod 8) 1]) k
    \<longleftrightarrow> packed_bit bits k \<or> k = p"
proof (cases "k div 8 = p div 8")
  case True
  then have same: "k = p \<longleftrightarrow> k mod 8 = p mod 8" by (metis mod_div_mult_eq)
  have "p div 8 < length bits" "k mod 8 < 8" using assms by simp_all
  with True show ?thesis by (auto simp: packed_bit_def bit_simps same)
next
  case False
  then show ?thesis by (auto simp: packed_bit_def)
qed

lemma packed_bit_set_cycle_bit:
  "n * e + b < 8 * length bits \<Longrightarrow>
   packed_bit (set_cycle_bit e nonce n b bits) k \<longleftrightarrow> packed_bit bits k \<or> k = n * e + b \<and> bit nonce b"
  using packed_bit_set [of "n * e + b" bits k]
  by (simp only: set_cycle_bit_def and_one_bit Let_def split: if_splits) auto

lemma packed_bit_inner:
  "n * e + m \<le> 8 * length bits \<Longrightarrow>
   length (fold (\<lambda>b. set_cycle_bit e nonce n b) [0..<m] bits) = length bits \<and>
   (packed_bit (fold (\<lambda>b. set_cycle_bit e nonce n b) [0..<m] bits) k \<longleftrightarrow>
    packed_bit bits k \<or> (\<exists>b<m. k = n * e + b \<and> bit nonce b))"
proof (induction m)
  case (Suc m)
  then show ?case by (auto simp: packed_bit_set_cycle_bit less_Suc_eq)
qed simp

lemma packed_bit_outer:
  assumes "length bits * 8 \<ge> m * e"
  shows "length (fold (\<lambda>n. fold (\<lambda>b. set_cycle_bit e (nonces ! n) n b) [0..<e]) [0..<m] bits) = length bits \<and>
    (packed_bit (fold (\<lambda>n. fold (\<lambda>b. set_cycle_bit e (nonces ! n) n b) [0..<e]) [0..<m] bits) k \<longleftrightarrow>
     packed_bit bits k \<or> (\<exists>n<m. \<exists>b<e. k = n * e + b \<and> bit (nonces ! n) b))"
  using assms
proof (induction m)
  case (Suc m)
  then have "m * e + e \<le> 8 * length bits" by simp
  with Suc packed_bit_inner [of m e e] show ?case by (auto simp: less_Suc_eq)
qed simp

lemma length_SerializeCycle:
  assumes "length nonces \<le> PROOFSIZE"
  shows "length (SerializeCycle e nonces) = cycle_bytes_len e"
    and "n < length nonces \<Longrightarrow> b < unat e \<Longrightarrow>
      packed_bit (SerializeCycle e nonces) (n * unat e + b) \<longleftrightarrow> bit (nonces ! n) b"
proof -
  let ?bits = "replicate (cycle_bytes_len e) 0 :: bytes"
  have "length nonces * unat e \<le> unat e * PROOFSIZE"
    using assms by (simp add: mult.commute)
  also have "\<dots> \<le> cycle_bytes_len e * 8" by (simp add: cycle_bytes_len_def)
  finally have room: "length nonces * unat e \<le> length ?bits * 8" by simp
  note outer = packed_bit_outer [OF room, where nonces = nonces]
  show "length (SerializeCycle e nonces) = cycle_bytes_len e"
    using outer by (simp add: SerializeCycle_def)
  assume n: "n < length nonces" and b: "b < unat e"
  have "n * unat e + b < length nonces * unat e"
  proof -
    have "n * unat e + b < Suc n * unat e" using b by simp
    also have "\<dots> \<le> length nonces * unat e" using n by (intro mult_le_mono1) simp
    finally show ?thesis .
  qed
  with room have "packed_bit ?bits (n * unat e + b) = False"
    by (simp add: packed_bit_def)
  moreover have "n' = n \<and> b' = b" if "n * unat e + b = n' * unat e + b'" "b' < unat e" for n' b'
    using that b by (metis add.commute div_mult_self3 div_less mod_less mod_mult_self3 add_0_right not_less_zero)
  ultimately show "packed_bit (SerializeCycle e nonces) (n * unat e + b) \<longleftrightarrow> bit (nonces ! n) b"
    using outer n b by (auto simp: SerializeCycle_def)
qed

lemma bit_read_nonce:
  "bit (read_nonce bits e n) j \<longleftrightarrow> j < e \<and> j < 64 \<and> packed_bit bits (n * e + j)"
proof -
  let ?step = "\<lambda>b acc. let p = n * e + b in
    if bits ! (p div 8) AND push_bit (p mod 256 mod 8) 1 \<noteq> 0 then acc OR push_bit b 1 else acc :: u64"
  have "bit (fold ?step [0..<m] 0) j \<longleftrightarrow> j < m \<and> j < 64 \<and> packed_bit bits (n * e + j)" for m
  proof (induction m)
    case (Suc m)
    have "(n * e + m) mod 256 mod 8 = (n * e + m) mod 8" by (rule mod_mod_cancel) simp
    with Suc show ?case
      by (auto simp: Let_def and_exp_eq_0_iff_not_bit bit_simps packed_bit_def less_Suc_eq)
  qed simp
  then show ?thesis by (simp add: read_nonce_def)
qed

lemma read_nonce_SerializeCycle:
  assumes "length nonces = PROOFSIZE" "n < PROOFSIZE" "e \<le> 63" "unat (nonces ! n) < 2 ^ unat e"
  shows "read_nonce (SerializeCycle e nonces) (unat e) n = nonces ! n"
proof (rule bit_word_eqI)
  fix j
  have "bit (nonces ! n) j \<Longrightarrow> j < unat e"
    using take_bit_word_self [OF assms(4)] by (metis bit_take_bit_iff)
  then show "bit (read_nonce (SerializeCycle e nonces) (unat e) n) j = bit (nonces ! n) j" if "j < LENGTH(64)"
    using that assms(1,2) length_SerializeCycle(2) [of nonces n j e] by (auto simp: bit_read_nonce)
qed

section \<open>Decoding what was encoded\<close>

lemma decodes_ProofOfWork:
  assumes "pow_valid Blake2b pow"
  shows "decodes (ProofOfWork_Deserialize Blake2b) v (ProofOfWork_Serialize pow) pow"
proof -
  let ?e = "pow_edgeBits pow" and ?ns = "pow_proofNonces pow"
  let ?bits = "SerializeCycle ?e ?ns"
  have valid: "length ?ns = PROOFSIZE" "?e \<noteq> 0" "?e \<le> 63" "pow_hash pow = Blake2b ?bits"
    "\<And>n. n < PROOFSIZE \<Longrightarrow> unat (?ns ! n) < 2 ^ unat ?e"
    using assms by (auto simp: pow_valid_def)
  have "map (read_nonce ?bits (unat ?e)) [0..<PROOFSIZE] = ?ns"
    using valid by (intro nth_equalityI) (simp_all add: read_nonce_SerializeCycle)
  then have nonces: "DeserializeProofNonces ?bits ?e = Inr ?ns"
    using valid by (simp add: DeserializeProofNonces_def)
  have len: "length ?bits = cycle_bytes_len ?e" using valid(1) by (simp add: length_SerializeCycle)
  have "unat ?e < 256" using unsigned_less [of ?e, where ?'a = nat] by simp
  then have "cycle_bytes_len ?e < 2 ^ 63" by (simp add: cycle_bytes_len_def PROOFSIZE_def)
  then have read: "decodes (ReadVector (of_nat (cycle_bytes_len ?e))) v ?bits ?bits"
    using len by (intro decodes_Vector) simp_all
  have "decodes (\<lambda>b. rbind (ReadVector (of_nat (cycle_bytes_len ?e)) b) (\<lambda>(bits, b).
      rbind (DeserializeProofNonces bits ?e) (\<lambda>proofNonces.
        Inr (\<lparr>pow_edgeBits = ?e, pow_proofNonces = proofNonces, pow_hash = Blake2b bits\<rparr>, b)))) v
      (?bits @ []) pow"
    by (rule decodes_bind, rule read) (simp add: nonces decodes_nil valid(4) [symmetric])
  then have tail: "decodes (\<lambda>b. rbind (ReadVector (of_nat (cycle_bytes_len ?e)) b) (\<lambda>(bits, b).
      rbind (DeserializeProofNonces bits ?e) (\<lambda>proofNonces.
        Inr (\<lparr>pow_edgeBits = ?e, pow_proofNonces = proofNonces, pow_hash = Blake2b bits\<rparr>, b)))) v
      ?bits pow" by simp
  show ?thesis
    unfolding ProofOfWork_Deserialize_def [abs_def] ProofOfWork_Serialize_def
    by (rule decodes_bind, rule decodes_U8, rule tail)
qed

lemma decodes_Header:
  assumes "header_valid Blake2b h"
  shows "decodes (Header_Deserialize Blake2b) v (Header_Serialize h) h"
proof -
  have valid: "pow_valid Blake2b (h_proofOfWork h)"
    using assms by (simp add: header_valid_def)
  have len: "length (h_previousBlockHash h) = 32" "length (h_previousRoot h) = 32"
     "length (h_outputRoot h) = 32" "length (h_rangeProofRoot h) = 32"
     "length (h_kernelRoot h) = 32" "length (h_totalKernelOffset h) = 32"
    using assms by (simp_all add: header_valid_def)
  have small: "32 < (256 :: nat)" by simp
  note hashes = len [THEN decodes_BigInteger, OF small, of v]
  show ?thesis
    unfolding Header_Deserialize_def [abs_def] Header_Serialize_def
    by ((rule decodes_bind, rule decodes_ints hashes)+, rule decodes_bind_return,
        rule decodes_ProofOfWork [OF valid]) simp
qed

interpretation header_codec:
  codec "\<lambda>_. Header_Serialize" "Header_Deserialize Blake2b" "\<lambda>_. header_valid Blake2b" for Blake2b
  by unfold_locales (rule decodes_Header)

definition body_valid ::
  "(bytes \<Rightarrow> bytes) \<Rightarrow> (bytes \<Rightarrow> u8) \<Rightarrow> EProtocolVersion \<Rightarrow> TransactionBody \<Rightarrow> bool" where
  "body_valid Blake2b GetOutputType v body \<longleftrightarrow>
     (\<forall>i \<in> set (b_inputs body). input_valid GetOutputType v i) \<and>
     (\<forall>out \<in> set (b_outputs body). output_valid out) \<and>
     (\<forall>k \<in> set (b_kernels body). kernel_valid v k) \<and>
     sorted (map (Input_GetHash Blake2b) (b_inputs body)) \<and>
     sorted (map (Output_GetHash Blake2b) (b_outputs body)) \<and>
     sorted (map (Kernel_GetHash Blake2b) (b_kernels body)) \<and>
     length (b_inputs body) < 2 ^ 64 \<and> length (b_outputs body) < 2 ^ 64 \<and>
     length (b_kernels body) < 2 ^ 64"

lemma decodes_Body:
  assumes "body_valid Blake2b GetOutputType v body"
  shows "decodes (Body_Deserialize Blake2b GetOutputType) v (Body_Serialize v body) body"
proof -
  have lens: "unat (of_nat (length (b_inputs body)) :: u64) = length (b_inputs body)"
    "unat (of_nat (length (b_outputs body)) :: u64) = length (b_outputs body)"
    "unat (of_nat (length (b_kernels body)) :: u64) = length (b_kernels body)"
    using assms by (simp_all add: body_valid_def unat_of_nat_u64)
  have inputs: "decodes (read_n (Input_Deserialize GetOutputType) (length (b_inputs body))) v
      (concat (map (Input_Serialize v) (b_inputs body))) (b_inputs body)"
    using assms by (intro input_codec.sequence) (simp add: body_valid_def)
  have outputs: "decodes (read_n Output_Deserialize (length (b_outputs body))) v
      (concat (map Output_Serialize (b_outputs body))) (b_outputs body)"
    using assms by (intro output_codec.sequence) (simp add: body_valid_def)
  have kernels: "decodes (read_n Kernel_Deserialize (length (b_kernels body))) v
      (concat (map (Kernel_Serialize v) (b_kernels body))) (b_kernels body)"
    using assms by (intro kernel_codec.sequence) (simp add: body_valid_def)
  have body: "body = TransactionBody_New Blake2b
      (sort_key (Input_GetHash Blake2b) (b_inputs body))
      (sort_key (Output_GetHash Blake2b) (b_outputs body))
      (sort_key (Kernel_GetHash Blake2b) (b_kernels body))"
    using assms by (simp add: TransactionBody_New_def body_valid_def sort_key_sorted)
  show ?thesis
    unfolding Body_Deserialize_def [abs_def] Body_Serialize_def
    by (rule decodes_bind, rule decodes_U64, rule decodes_bind, rule decodes_U64,
        rule decodes_bind, rule decodes_U64, unfold lens, rule decodes_bind, rule inputs,
        rule decodes_bind, rule outputs, rule decodes_bind_return, rule kernels, rule body)
qed

interpretation body_codec: codec Body_Serialize "Body_Deserialize Blake2b GetOutputType"
  "body_valid Blake2b GetOutputType" for Blake2b GetOutputType
  by unfold_locales (rule decodes_Body)

lemma decodes_Transaction:
  assumes "body_valid Blake2b GetOutputType v (tx_body tx)" "length (tx_offset tx) = 32"
  shows "decodes (Transaction_Deserialize Blake2b GetOutputType) v (Transaction_Serialize v tx) tx"
  unfolding Transaction_Deserialize_def [abs_def] Transaction_Serialize_def
  by (rule decodes_bind, rule decodes_BigInteger [OF assms(2)], simp,
      rule decodes_bind_return, rule decodes_Body [OF assms(1)]) simp

interpretation transaction_codec: codec Transaction_Serialize "Transaction_Deserialize Blake2b GetOutputType"
  "\<lambda>v tx. body_valid Blake2b GetOutputType v (tx_body tx) \<and> length (tx_offset tx) = 32"
  for Blake2b GetOutputType
  by unfold_locales (simp add: decodes_Transaction)

lemma decodes_FullBlock:
  assumes "header_valid Blake2b (fb_header block)" "body_valid Blake2b GetOutputType v (fb_body block)"
  shows "decodes (FullBlock_Deserialize Blake2b GetOutputType) v (FullBlock_Serialize v block) block"
  unfolding FullBlock_Deserialize_def [abs_def] FullBlock_Serialize_def
  by (rule decodes_bind, rule decodes_Header [OF assms(1)],
      rule decodes_bind_return, rule decodes_Body [OF assms(2)]) simp

interpretation block_codec: codec FullBlock_Serialize "FullBlock_Deserialize Blake2b GetOutputType"
  "\<lambda>v block. header_valid Blake2b (fb_header block) \<and> body_valid Blake2b GetOutputType v (fb_body block)"
  for Blake2b GetOutputType
  by unfold_locales (simp add: decodes_FullBlock)

definition compact_valid :: "(bytes \<Rightarrow> bytes) \<Rightarrow> EProtocolVersion \<Rightarrow> CompactBlock \<Rightarrow> bool" where
  "compact_valid Blake2b v block \<longleftrightarrow>
     header_valid Blake2b (cb_header block) \<and>
     (\<forall>out \<in> set (cb_outputs block). output_valid out) \<and>
     (\<forall>k \<in> set (cb_kernels block). kernel_valid v k) \<and>
     (\<forall>m_id \<in> set (cb_shortIds block). length m_id = 6) \<and>
     length (cb_outputs block) < 2 ^ 64 \<and> length (cb_kernels block) < 2 ^ 64 \<and>
     length (cb_shortIds block) < 2 ^ 64"

lemma decodes_CompactBlock:
  assumes "compact_valid Blake2b v block"
  shows "decodes (CompactBlock_Deserialize Blake2b) v (CompactBlock_Serialize v block) block"
proof -
  have lens: "unat (of_nat (length (cb_outputs block)) :: u64) = length (cb_outputs block)"
    "unat (of_nat (length (cb_kernels block)) :: u64) = length (cb_kernels block)"
    "unat (of_nat (length (cb_shortIds block)) :: u64) = length (cb_shortIds block)"
    using assms by (simp_all add: compact_valid_def unat_of_nat_u64)
  have header: "decodes (Header_Deserialize Blake2b) v (Header_Serialize (cb_header block)) (cb_header block)"
    using assms by (intro decodes_Header) (simp add: compact_valid_def)
  have outputs: "decodes (read_n Output_Deserialize (length (cb_outputs block))) v
      (concat (map Output_Serialize (cb_outputs block))) (cb_outputs block)"
    using assms by (intro output_codec.sequence) (simp add: compact_valid_def)
  have kernels: "decodes (read_n Kernel_Deserialize (length (cb_kernels block))) v
      (concat (map (Kernel_Serialize v) (cb_kernels block))) (cb_kernels block)"
    using assms by (intro kernel_codec.sequence) (simp add: compact_valid_def)
  have ids: "decodes (read_n ShortId_Deserialize (length (cb_shortIds block))) v
      (concat (map ShortId_Serialize (cb_shortIds block))) (cb_shortIds block)"
    using assms by (intro decodes_read_n decodes_ShortId) (simp add: compact_valid_def)
  show ?thesis
    unfolding CompactBlock_Deserialize_def [abs_def] CompactBlock_Serialize_def
    by (rule decodes_bind, rule header, (rule decodes_bind, rule decodes_U64)+, unfold lens,
        rule decodes_bind, rule outputs, rule decodes_bind, rule kernels,
        rule decodes_bind_return, rule ids) simp
qed

interpretation compact_codec: codec CompactBlock_Serialize "CompactBlock_Deserialize Blake2b"
  "compact_valid Blake2b" for Blake2b
  by unfold_locales (rule decodes_CompactBlock)

section \<open>Properties of the encodings\<close>

definition sample_header :: "(bytes \<Rightarrow> bytes) \<Rightarrow> BlockHeader" where
  "sample_header Blake2b =
     \<lparr>h_version = 5, h_height = 1048320, h_timestamp = 1, h_previousBlockHash = replicate 32 1,
      h_previousRoot = replicate 32 2, h_outputRoot = replicate 32 3, h_rangeProofRoot = replicate 32 4,
      h_kernelRoot = replicate 32 5, h_totalKernelOffset = replicate 32 6, h_outputMMRSize = 4,
      h_kernelMMRSize = 4, h_totalDifficulty = 9, h_scalingDifficulty = 1, h_nonce = 77,
      h_proofOfWork = ProofOfWork_New Blake2b 32 (map of_nat [0..<42])\<rparr>"

definition sample_body :: TransactionBody where
  "sample_body =
     \<lparr>b_inputs = [], b_outputs = [\<lparr>o_features = 1, o_commitment = replicate 33 8,
                                     o_rangeProof = replicate MAX_PROOF_SIZE 9\<rparr>],
      b_kernels = [\<lparr>k_features = COINBASE_KERNEL, k_fee = Fee_Default, k_lockHeight = 0,
                    k_excessCommitment = replicate 33 8, k_excessSignature = replicate 64 7\<rparr>]\<rparr>"

lemma sample_header_valid: "header_valid Blake2b (sample_header Blake2b)"
  by (auto simp: header_valid_def sample_header_def pow_valid_def ProofOfWork_New_def PROOFSIZE_def
      unat_of_nat)

lemma sample_body_valid: "body_valid Blake2b GetOutputType v sample_body"
  by (simp add: body_valid_def sample_body_def output_valid_def kernel_valid_def fee_valid_def
      Fee_Default_def kernel_features_defs)

lemma length_Header_Serialize:
  assumes "header_valid Blake2b h"
  shows "length (Header_Serialize h) = 247 + cycle_bytes_len (pow_edgeBits (h_proofOfWork h))"
  using assms length_SerializeCycle(1) [of "pow_proofNonces (h_proofOfWork h)"]
  by (simp add: Header_Serialize_def ProofOfWork_Serialize_def header_valid_def pow_valid_def
      AppendBigInteger_def)

lemma length_sample_body: "length (Body_Serialize v sample_body) < 2 ^ 12"
  by (simp add: Body_Serialize_def sample_body_def Output_Serialize_def Kernel_Serialize_def
      RangeProof_Serialize_def Fee_Serialize_def AppendBigInteger_def MAX_PROOF_SIZE_def
      AppendByteVector_def kernel_features_defs)

text \<open>
  C27. Round trip of blocks: whatever well-formed header and sorted body a block has, reading back what
  \<open>Serialize\<close> writes yields the block, proof-of-work hash included, and consumes all the bytes, for
  every protocol version and every hash function.
\<close>

theorem FullBlock_roundtrip:
  assumes "header_valid Blake2b (fb_header block)"
    and "body_valid Blake2b GetOutputType v (fb_body block)"
    and "length (FullBlock_Serialize v block) < 2 ^ 63"
  shows "\<exists>b'. FullBlock_Deserialize Blake2b GetOutputType (ByteBuffer_New (FullBlock_Serialize v block) v) =
    Inr (block, b') \<and> bb_rest b' = []"
  using assms by (intro block_codec.roundtrip) simp_all

theorem FullBlock_roundtrip_witness:
  "\<exists>b'. FullBlock_Deserialize (\<lambda>bs. take 32 bs) (\<lambda>_. 0) (ByteBuffer_New (FullBlock_Serialize V2
       \<lparr>fb_header = sample_header (\<lambda>bs. take 32 bs), fb_body = sample_body\<rparr>) V2) =
     Inr (\<lparr>fb_header = sample_header (\<lambda>bs. take 32 bs), fb_body = sample_body\<rparr>, b') \<and> bb_rest b' = []"
proof (rule FullBlock_roundtrip)
  have "length (FullBlock_Serialize V2
      \<lparr>fb_header = sample_header (\<lambda>bs. take 32 bs), fb_body = sample_body\<rparr>) < 2 ^ 14"
    using length_sample_body [of V2] length_Header_Serialize [OF sample_header_valid]
    by (simp add: FullBlock_Serialize_def sample_header_def cycle_bytes_len_def ProofOfWork_New_def
        PROOFSIZE_def)
  then show "length (FullBlock_Serialize V2
      \<lparr>fb_header = sample_header (\<lambda>bs. take 32 bs), fb_body = sample_body\<rparr>) < 2 ^ 63"
    by simp
qed (simp_all add: sample_header_valid sample_body_valid)

text \<open>
  Transactions are self-delimiting: of two well-formed transactions, neither encoding is a prefix of
  the other, so a stream of transactions parses in one way only.
\<close>

theorem Transaction_self_delimiting:
  assumes "body_valid Blake2b GetOutputType v (tx_body t)" "length (tx_offset t) = 32"
    and "body_valid Blake2b GetOutputType v (tx_body t')" "length (tx_offset t') = 32"
    and "length (Transaction_Serialize v t @ r) < 2 ^ 63"
  shows "Transaction_Serialize v t @ r = Transaction_Serialize v t' @ r' \<longleftrightarrow> t = t' \<and> r = r'"
  using transaction_codec.self_delimiting [of Blake2b GetOutputType v t t' r r'] assms by blast

theorem Transaction_self_delimiting_witness:
  "let t = \<lparr>tx_offset = replicate 32 3, tx_body = sample_body\<rparr>;
       t' = \<lparr>tx_offset = replicate 32 4, tx_body = sample_body\<rparr>
   in Transaction_Serialize V3 t @ [1] = Transaction_Serialize V3 t' @ [2] \<longleftrightarrow> t = t' \<and> [1 :: u8] = [2]"
  unfolding Let_def
proof (rule Transaction_self_delimiting [where Blake2b = id and GetOutputType = "\<lambda>_. 0"])
  have "length (Transaction_Serialize V3 \<lparr>tx_offset = replicate 32 3, tx_body = sample_body\<rparr> @ [1::u8]) < 2 ^ 14"
    using length_sample_body [of V3] by (simp add: Transaction_Serialize_def AppendBigInteger_def)
  then show "length (Transaction_Serialize V3 \<lparr>tx_offset = replicate 32 3, tx_body = sample_body\<rparr> @ [1::u8]) < 2 ^ 63"
    by simp
qed (simp_all add: sample_body_valid)

lemma read_nonce_cong:
  assumes "\<And>k. k < PROOFSIZE * e \<Longrightarrow> packed_bit bits k = packed_bit bits' k" "n < PROOFSIZE"
  shows "read_nonce bits e n = read_nonce bits' e n"
proof (rule bit_eqI)
  fix j
  have "n * e + j < PROOFSIZE * e" if "j < e"
  proof -
    have "n * e + j < Suc n * e" using that by simp
    also have "\<dots> \<le> PROOFSIZE * e" using assms(2) by (intro mult_le_mono1) simp
    finally show ?thesis .
  qed
  then show "bit (read_nonce bits e n) j \<longleftrightarrow> bit (read_nonce bits' e n) j"
    using assms(1) by (auto simp: bit_read_nonce)
qed

lemma DeserializeProofNonces_cong:
  assumes "\<And>k. k < PROOFSIZE * unat e \<Longrightarrow> packed_bit bits k = packed_bit bits' k"
  shows "DeserializeProofNonces bits e = DeserializeProofNonces bits' e"
  using read_nonce_cong [OF assms] by (simp add: DeserializeProofNonces_def)

lemma high_bit_only: "bit (128 :: u8) k \<longleftrightarrow> k = 7"
proof -
  have "(128 :: u8) = push_bit 7 1" by simp
  then show ?thesis by (simp only: bit_push_bit_iff bit_1_iff) auto
qed

text \<open>
  The packed nonces of a 29-bit proof leave six bits of the last byte unused, and \<open>Deserialize\<close> does
  not look at them although it hashes them: setting the last bit of a packed vector gives a proof with the
  same edge bits and nonces, whose hash (the block hash) is that of the changed bytes.
\<close>

theorem pow_padding_ignored:
  assumes "length bits = 153"
  shows "\<exists>nonces. \<forall>bits' \<in> {bits, bits[152 := bits ! 152 XOR 128]}.
     \<exists>b'. ProofOfWork_Deserialize Blake2b (ByteBuffer_New (29 # bits') v) =
       Inr (\<lparr>pow_edgeBits = 29, pow_proofNonces = nonces, pow_hash = Blake2b bits'\<rparr>, b')"
proof -
  let ?nonces = "map (read_nonce bits 29) [0..<PROOFSIZE]"
  have pb: "packed_bit bits k = packed_bit (bits[152 := bits ! 152 XOR 128]) k" if "k < PROOFSIZE * 29" for k
  proof (cases "k div 8 = 152")
    case True
    then have "k mod 8 < 2"
      using that div_mult_mod_eq [of k 8] by (simp add: PROOFSIZE_def)
    then have "\<not> bit (128 :: u8) (k mod 8)"
      using high_bit_only [of "k mod 8"] by simp
    then show ?thesis using True assms by (simp add: packed_bit_def bit_xor_iff)
  qed (simp add: packed_bit_def)
  have nonces: "DeserializeProofNonces bits' 29 = Inr ?nonces"
    if "bits' \<in> {bits, bits[152 := bits ! 152 XOR 128]}" for bits'
    using that DeserializeProofNonces_cong [of 29, OF pb] by (auto simp: DeserializeProofNonces_def)
  have "\<exists>b'. ProofOfWork_Deserialize Blake2b (ByteBuffer_New (29 # bits') v) =
       Inr (\<lparr>pow_edgeBits = 29, pow_proofNonces = ?nonces, pow_hash = Blake2b bits'\<rparr>, b')"
    if b: "bits' \<in> {bits, bits[152 := bits ! 152 XOR 128]}" for bits'
  proof -
    have len: "length bits' = 153" using b assms by auto
    have "decodes (ProofOfWork_Deserialize Blake2b) v (AppendU8 29 @ bits' @ [])
        \<lparr>pow_edgeBits = 29, pow_proofNonces = ?nonces, pow_hash = Blake2b bits'\<rparr>"
      unfolding ProofOfWork_Deserialize_def [abs_def]
      by (rule decodes_bind [OF decodes_U8], rule decodes_bind [OF decodes_Vector])
         (simp_all add: len cycle_bytes_len_def PROOFSIZE_def nonces [OF b, unfolded PROOFSIZE_def]
           rbind_def decodes_nil)
    then show ?thesis
      using len by (auto dest!: decodes_New simp: AppendU8_def be_bytes_def)
  qed
  then show ?thesis by blast
qed

theorem pow_padding_ignored_witness:
  "\<exists>nonces. \<forall>bits' \<in> {replicate 153 0, (replicate 153 0)[152 := replicate 153 0 ! 152 XOR 128]}.
     \<exists>b'. ProofOfWork_Deserialize id (ByteBuffer_New (29 # bits') V2) =
       Inr (\<lparr>pow_edgeBits = 29, pow_proofNonces = nonces, pow_hash = id bits'\<rparr>, b')"
  by (rule pow_padding_ignored) simp

end
