(* ===== verification/Cuckoo.thy ===== *)
theory Cuckoo
  imports BlockModels
begin

text \<open>
  The verifiers of the Cuckoo Cycle family (\<^verbatim>\<open>src/PoW/Common.h\<close>, \<^verbatim>\<open>Cuckatoo.cpp\<close>, \<^verbatim>\<open>Cuckaroo.cpp\<close>,
  \<^verbatim>\<open>Cuckarood.cpp\<close>, \<^verbatim>\<open>Cuckaroom.cpp\<close>, \<^verbatim>\<open>Cuckarooz.cpp\<close>): SipHash on 64-bit words, the computation of
  the edge endpoints from the header's hash, and the loops that follow the cycle.

  Edge ends are the positions \<open>0, ..., 2 * PROOFSIZE - 1\<close>, the ends of an edge being \<open>2 n\<close> and
  \<open>2 n + 1\<close>. The loop \<open>do { ... } while (i != 0)\<close> is a partial function into \<open>option\<close>: \<open>None\<close> means that
  it runs forever. The locale \<open>cycle_walk\<close> gives what the search for the matching end has to promise
  for the loop to end and for its answer to be a cycle; three of the verifiers interpret it.
\<close>

section \<open>SipHash\<close>

datatype verify_code = POW_OK | POW_HEADER_LENGTH | POW_TOO_BIG | POW_TOO_SMALL | POW_NON_MATCHING
  | POW_BRANCH | POW_DEAD_END | POW_SHORT_CYCLE | POW_UNBALANCED

record siphash_state =
  v0 :: u64
  v1 :: u64
  v2 :: u64
  v3 :: u64

text \<open>\<open>siphash_keys\<close> reads four little-endian words; a state starts with the four keys.\<close>

definition siphash_keys :: "bytes \<Rightarrow> siphash_state" where
  "siphash_keys keybuf =
     \<lparr>v0 = of_nat (le_value (take 8 keybuf)), v1 = of_nat (le_value (take 8 (drop 8 keybuf))),
      v2 = of_nat (le_value (take 8 (drop 16 keybuf))), v3 = of_nat (le_value (take 8 (drop 24 keybuf)))\<rparr>"

definition xor_lanes :: "siphash_state \<Rightarrow> u64" where
  "xor_lanes s = (v0 s XOR v1 s) XOR (v2 s XOR v3 s)"

definition rotl :: "u64 \<Rightarrow> nat \<Rightarrow> u64" where
  "rotl x b = push_bit b x OR drop_bit (64 - b) x"

definition sip_round :: "nat \<Rightarrow> siphash_state \<Rightarrow> siphash_state" where
  "sip_round rotE s =
     (let a0 = v0 s + v1 s; a2 = v2 s + v3 s; a1 = rotl (v1 s) 13;
          a3 = rotl (v3 s) 16; a1 = a1 XOR a0; a3 = a3 XOR a2;
          a0 = rotl a0 32; a2 = a2 + a1; a0 = a0 + a3;
          a1 = rotl a1 17; a3 = rotl a3 rotE;
          a1 = a1 XOR a2; a3 = a3 XOR a0; a2 = rotl a2 32
      in \<lparr>v0 = a0, v1 = a1, v2 = a2, v3 = a3\<rparr>)"

definition hash24 :: "nat \<Rightarrow> u64 \<Rightarrow> siphash_state \<Rightarrow> siphash_state" where
  "hash24 rotE nonce s =
     (let s = s\<lparr>v3 := v3 s XOR nonce\<rparr>;
          s = sip_round rotE (sip_round rotE s);
          s = s\<lparr>v0 := v0 s XOR nonce, v2 := v2 s XOR 0xff\<rparr>
      in sip_round rotE (sip_round rotE (sip_round rotE (sip_round rotE s))))"

text \<open>The outputs of the block of 64 edges that contains an edge; the state runs on through the block.\<close>

fun sip_outputs :: "nat \<Rightarrow> siphash_state \<Rightarrow> u64 \<Rightarrow> nat \<Rightarrow> u64 list" where
  "sip_outputs rotE s edge 0 = []"
| "sip_outputs rotE s edge (Suc n) =
     (let s = hash24 rotE edge s in xor_lanes s # sip_outputs rotE s (edge + 1) n)"

definition sip_buffer :: "nat \<Rightarrow> siphash_state \<Rightarrow> u64 \<Rightarrow> u64 list" where
  "sip_buffer rotE keys edge = sip_outputs rotE keys (edge AND NOT 63) 64"

definition sipblock :: "nat \<Rightarrow> siphash_state \<Rightarrow> u64 \<Rightarrow> u64" where
  "sipblock rotE keys edge =
     (let buf = sip_buffer rotE keys edge;
          last = buf ! 63;
          buf = map (\<lambda>x. x XOR last) (take 63 buf) @ [last]
      in buf ! unat (edge AND 63))"

text \<open>\<open>for (i = 63; i; i--) buf[i - 1] ^= buf[i];\<close> replaces every element by the xor of its suffix.\<close>

fun xor_suffixes :: "u64 list \<Rightarrow> u64 list" where
  "xor_suffixes [] = []"
| "xor_suffixes [x] = [x]"
| "xor_suffixes (x # y # zs) = (let ys = xor_suffixes (y # zs) in (x XOR hd ys) # ys)"

definition suffix_sipblock :: "siphash_state \<Rightarrow> u64 \<Rightarrow> u64" where
  "suffix_sipblock keys edge = xor_suffixes (sip_buffer 21 keys edge) ! unat (edge AND 63)"

definition sipnode :: "siphash_state \<Rightarrow> u64 \<Rightarrow> u64 \<Rightarrow> u64 \<Rightarrow> u64" where
  "sipnode keys edge uorv edgeMask = xor_lanes (hash24 21 (2 * edge + uorv) keys) AND edgeMask"

section \<open>Collecting the endpoints\<close>

text \<open>
  The first loop of four of the verifiers: every edge in range, the edges ascending; the endpoints are
  collected in order.
\<close>

fun collect_ends ::
  "u64 \<Rightarrow> (u64 \<Rightarrow> u64 \<times> u64) \<Rightarrow> u64 option \<Rightarrow> u64 list \<Rightarrow> verify_code + (u64 \<times> u64) list" where
  "collect_ends edgeMask ends prev [] = Inr []"
| "collect_ends edgeMask ends prev (e # es) =
     (if edgeMask < e then Inl POW_TOO_BIG
      else if (case prev of None \<Rightarrow> False | Some p \<Rightarrow> e \<le> p) then Inl POW_TOO_SMALL
      else case collect_ends edgeMask ends (Some e) es of
             Inl c \<Rightarrow> Inl c
           | Inr uvs \<Rightarrow> Inr (ends e # uvs))"

fun flatten :: "('a \<times> 'a) list \<Rightarrow> 'a list" where
  "flatten [] = []"
| "flatten ((u, v) # uvs) = u # v # flatten uvs"

definition xor_all :: "u64 \<Rightarrow> u64 list \<Rightarrow> u64" where
  "xor_all start xs = foldl (XOR) start xs"

section \<open>Following the cycle\<close>

text \<open>
  The search for the other end that matches the one at \<open>i\<close>, among the positions \<open>ks\<close> in the order
  in which the loop visits them; \<open>j = i\<close> means that none was found yet.
\<close>

fun scan :: "(nat \<Rightarrow> nat \<Rightarrow> bool) \<Rightarrow> nat \<Rightarrow> nat list \<Rightarrow> nat \<Rightarrow> verify_code + nat" where
  "scan same i [] j = Inr j"
| "scan same i (k # ks) j =
     (if same k i then (if j \<noteq> i then Inl POW_BRANCH else scan same i ks k) else scan same i ks j)"

text \<open>\<open>for (k = i; (k = (k + d) % (2 * PROOFSIZE)) != i; )\<close>\<close>

definition other_positions :: "nat \<Rightarrow> nat \<Rightarrow> nat list" where
  "other_positions d i = map (\<lambda>t. (i + d * t) mod (2 * PROOFSIZE)) [1..<2 * PROOFSIZE div d]"

definition other_end :: "nat \<Rightarrow> nat" where
  "other_end j = (if even j then j + 1 else j - 1)"

definition find_end ::
  "(nat \<Rightarrow> nat \<Rightarrow> bool) \<Rightarrow> (nat \<Rightarrow> nat \<Rightarrow> bool) \<Rightarrow> (nat \<Rightarrow> nat list) \<Rightarrow> nat \<Rightarrow> verify_code + nat" where
  "find_end same bad positions i =
     (case scan same i (positions i) i of
        Inl c \<Rightarrow> Inl c
      | Inr j \<Rightarrow> if j = i \<or> bad j i then Inl POW_DEAD_END else Inr j)"

partial_function (option) follow :: "(nat \<Rightarrow> verify_code + nat) \<Rightarrow> nat \<Rightarrow> nat \<Rightarrow> verify_code option" where
  "follow seek n i =
     (case seek i of
        Inl c \<Rightarrow> Some c
      | Inr j \<Rightarrow>
          let i = other_end j; n = Suc n
          in if i = 0 then Some (if n = PROOFSIZE then POW_OK else POW_SHORT_CYCLE)
             else follow seek n i)"

section \<open>Cuckatoo\<close>

definition cuckatoo_find :: "u64 list \<Rightarrow> nat \<Rightarrow> verify_code + nat" where
  "cuckatoo_find uvs =
     find_end (\<lambda>k i. drop_bit 1 (uvs ! k) = drop_bit 1 (uvs ! i)) (\<lambda>j i. uvs ! j = uvs ! i)
       (other_positions 2)"

definition verify_cuckatoo :: "u64 list \<Rightarrow> siphash_state \<Rightarrow> u8 \<Rightarrow> verify_code option" where
  "verify_cuckatoo edges keys edgeBits =
     (let numEdges = push_bit (unat edgeBits) (1 :: u64);
          edgeMask = numEdges - 1;
          ends = (\<lambda>e. (sipnode keys e 0 edgeMask, sipnode keys e 1 edgeMask))
      in case collect_ends edgeMask ends None edges of
           Inl c \<Rightarrow> Some c
         | Inr uvs \<Rightarrow>
             if xor_all 1 (map fst uvs) OR xor_all 1 (map snd uvs) \<noteq> 0 then Some POW_NON_MATCHING
             else follow (cuckatoo_find (flatten uvs)) 0 0)"

section \<open>Cuckaroo and Cuckarooz\<close>

definition cuckaroo_find :: "nat \<Rightarrow> u64 list \<Rightarrow> nat \<Rightarrow> verify_code + nat" where
  "cuckaroo_find d uvs =
     find_end (\<lambda>k i. uvs ! k = uvs ! i) (\<lambda>j i. False) (other_positions d)"

definition verify_cuckaroo :: "u64 list \<Rightarrow> siphash_state \<Rightarrow> u8 \<Rightarrow> verify_code option" where
  "verify_cuckaroo edges keys edgeBits =
     (let numEdges = push_bit (unat edgeBits) (1 :: u64);
          edgeMask = numEdges - 1;
          ends = (\<lambda>e. let edge = sipblock 21 keys e
                      in (edge AND edgeMask, drop_bit 32 edge AND edgeMask))
      in case collect_ends edgeMask ends None edges of
           Inl c \<Rightarrow> Some c
         | Inr uvs \<Rightarrow>
             if xor_all 0 (map fst uvs) OR xor_all 0 (map snd uvs) \<noteq> 0 then Some POW_NON_MATCHING
             else follow (cuckaroo_find 2 (flatten uvs)) 0 0)"

definition EDGEMASK29 :: u64 where "EDGEMASK29 = push_bit 29 1 - 1"
definition NODEMASK30 :: u64 where "NODEMASK30 = 2 * push_bit 29 1 - 1"

definition verify_cuckarooz :: "u64 list \<Rightarrow> siphash_state \<Rightarrow> verify_code option" where
  "verify_cuckarooz edges keys =
     (let ends = (\<lambda>e. let edge = suffix_sipblock keys e
                      in (edge AND NODEMASK30, drop_bit 32 edge AND NODEMASK30))
      in case collect_ends EDGEMASK29 ends None edges of
           Inl c \<Rightarrow> Some c
         | Inr uvs \<Rightarrow>
             if xor_all 0 (flatten uvs) \<noteq> 0 then Some POW_NON_MATCHING
             else follow (cuckaroo_find 1 (flatten uvs)) 0 0)"

section \<open>Cuckaroom\<close>

fun find_index :: "u64 list \<Rightarrow> u64 \<Rightarrow> nat \<Rightarrow> nat option" where
  "find_index [] x n = None"
| "find_index (y # ys) x n = (if y = x then Some n else find_index ys x (Suc n))"

partial_function (option) follow_directed ::
  "u64 list \<Rightarrow> u64 list \<Rightarrow> bool list \<Rightarrow> nat \<Rightarrow> nat \<Rightarrow> verify_code option" where
  "follow_directed from to visited n i =
     (if visited ! i then Some POW_BRANCH
      else case find_index from (to ! i) 0 of
             None \<Rightarrow> Some POW_DEAD_END
           | Some nexti \<Rightarrow>
               let visited = visited[i := True]; i = nexti; n = Suc n
               in if i = 0 then Some (if n = PROOFSIZE then POW_OK else POW_SHORT_CYCLE)
                  else follow_directed from to visited n i)"

definition verify_cuckaroom :: "u64 list \<Rightarrow> siphash_state \<Rightarrow> verify_code option" where
  "verify_cuckaroom edges keys =
     (let ends = (\<lambda>e. let edge = suffix_sipblock keys e
                      in (edge AND EDGEMASK29, drop_bit 32 edge AND EDGEMASK29))
      in case collect_ends EDGEMASK29 ends None edges of
           Inl c \<Rightarrow> Some c
         | Inr uvs \<Rightarrow>
             if xor_all 0 (map fst uvs) \<noteq> xor_all 0 (map snd uvs) then Some POW_NON_MATCHING
             else follow_directed (map fst uvs) (map snd uvs) (replicate PROOFSIZE False) 0 0)"

section \<open>Cuckarood\<close>

text \<open>
  The edges are sorted by direction: the ends of the \<open>m\<close>-th edge of direction \<open>d\<close> go to the positions
  \<open>4 m + 2 d\<close> and \<open>4 m + 2 d + 1\<close>.
\<close>

record cuckarood_state =
  ndir :: "nat list"
  uvs_arr :: "u64 list"
  xor0 :: u64
  xor1 :: u64

definition NODE1MASK :: u64 where "NODE1MASK = push_bit 29 1 div 2 - 1"

fun cuckarood_collect ::
  "(u64 \<Rightarrow> u64) \<Rightarrow> u64 option \<Rightarrow> u64 list \<Rightarrow> cuckarood_state \<Rightarrow> verify_code + cuckarood_state" where
  "cuckarood_collect sip prev [] s = Inr s"
| "cuckarood_collect sip prev (e # es) s =
     (let dir = unat (e AND 1) in
      if PROOFSIZE div 2 \<le> ndir s ! dir then Inl POW_UNBALANCED
      else if push_bit 29 1 \<le> e then Inl POW_TOO_BIG
      else if (case prev of None \<Rightarrow> False | Some p \<Rightarrow> e \<le> p) then Inl POW_TOO_SMALL
      else
        let edge = sip e;
            u = edge AND NODE1MASK;
            v = drop_bit 32 edge AND NODE1MASK;
            pos = 4 * (ndir s ! dir) + 2 * dir
        in cuckarood_collect sip (Some e) es
             \<lparr>ndir = (ndir s)[dir := Suc (ndir s ! dir)],
              uvs_arr = (uvs_arr s)[pos := u, pos + 1 := v],
              xor0 = xor0 s XOR u, xor1 = xor1 s XOR v\<rparr>)"

text \<open>\<open>for (k = (i % 4) ^ 2; k < 2 * PROOFSIZE; k += 4)\<close>\<close>

definition reverse_positions :: "nat \<Rightarrow> nat list" where
  "reverse_positions i =
     map (\<lambda>t. (if i mod 4 < 2 then i mod 4 + 2 else i mod 4 - 2) + 4 * t) [0..<PROOFSIZE div 2]"

definition cuckarood_find :: "u64 list \<Rightarrow> nat \<Rightarrow> verify_code + nat" where
  "cuckarood_find uvs = find_end (\<lambda>k i. uvs ! k = uvs ! i) (\<lambda>j i. False) reverse_positions"

definition cuckarood_check :: "(u64 \<Rightarrow> u64) \<Rightarrow> u64 list \<Rightarrow> verify_code option" where
  "cuckarood_check sip edges =
     (case cuckarood_collect sip None edges
             \<lparr>ndir = [0, 0], uvs_arr = replicate (2 * PROOFSIZE) 0, xor0 = 0, xor1 = 0\<rparr> of
        Inl c \<Rightarrow> Some c
      | Inr s \<Rightarrow>
          if xor0 s OR xor1 s \<noteq> 0 then Some POW_NON_MATCHING
          else follow (cuckarood_find (uvs_arr s)) 0 0)"

definition verify_cuckarood :: "u64 list \<Rightarrow> siphash_state \<Rightarrow> verify_code option" where
  "verify_cuckarood edges keys = cuckarood_check (sipblock 25 keys) edges"

section \<open>The validators\<close>

definition validate_with ::
  "(u64 list \<Rightarrow> siphash_state \<Rightarrow> verify_code option) \<Rightarrow> (bytes \<Rightarrow> bytes) \<Rightarrow> BlockHeader \<Rightarrow> bool option" where
  "validate_with verify Blake2b header =
     (let proofNonces = pow_proofNonces (h_proofOfWork header)
      in if length proofNonces \<noteq> PROOFSIZE then Some False
         else map_option (\<lambda>result. result = POW_OK)
                (verify proofNonces (siphash_keys (Blake2b (GetPreProofOfWork header)))))"

definition Cuckatoo_Validate :: "(bytes \<Rightarrow> bytes) \<Rightarrow> BlockHeader \<Rightarrow> bool option" where
  "Cuckatoo_Validate Blake2b header =
     validate_with (\<lambda>edges keys. verify_cuckatoo edges keys (pow_edgeBits (h_proofOfWork header))) Blake2b header"

definition Cuckaroo_Validate :: "(bytes \<Rightarrow> bytes) \<Rightarrow> BlockHeader \<Rightarrow> bool option" where
  "Cuckaroo_Validate Blake2b header =
     validate_with (\<lambda>edges keys. verify_cuckaroo edges keys (pow_edgeBits (h_proofOfWork header))) Blake2b header"

definition Cuckarood_Validate :: "(bytes \<Rightarrow> bytes) \<Rightarrow> BlockHeader \<Rightarrow> bool option" where
  "Cuckarood_Validate = validate_with verify_cuckarood"

definition Cuckaroom_Validate :: "(bytes \<Rightarrow> bytes) \<Rightarrow> BlockHeader \<Rightarrow> bool option" where
  "Cuckaroom_Validate = validate_with verify_cuckaroom"

definition Cuckarooz_Validate :: "(bytes \<Rightarrow> bytes) \<Rightarrow> BlockHeader \<Rightarrow> bool option" where
  "Cuckarooz_Validate = validate_with verify_cuckarooz"

section \<open>The search for the matching end\<close>

lemma scan_found:
  "j \<noteq> i \<Longrightarrow> scan same i ks j = Inr j' \<longleftrightarrow> j' = j \<and> (\<forall>k \<in> set ks. \<not> same k i)"
  by (induction ks) auto

lemma scan_spec:
  assumes "i \<notin> set ks" "distinct ks" "j \<noteq> i"
  shows "scan same i ks i = Inr j \<longleftrightarrow> j \<in> set ks \<and> same j i \<and> (\<forall>k \<in> set ks. same k i \<longrightarrow> k = j)"
  using assms
proof (induction ks)
  case (Cons k ks)
  show ?case
  proof (cases "same k i")
    case True
    with Cons.prems have "scan same i (k # ks) i = Inr j \<longleftrightarrow> j = k \<and> (\<forall>k \<in> set ks. \<not> same k i)"
      by (simp add: scan_found)
    with True Cons.prems show ?thesis by auto
  next
    case False
    with Cons show ?thesis by auto
  qed
qed simp

lemma scan_not_ok: "scan same i ks j \<noteq> Inl POW_OK"
  by (induction ks arbitrary: j) auto

lemma find_end_not_ok: "find_end same bad positions i \<noteq> Inl POW_OK"
  using scan_not_ok [of same i "positions i" i] by (auto simp: find_end_def split: sum.split)

definition matched ::
  "(nat \<Rightarrow> nat \<Rightarrow> bool) \<Rightarrow> (nat \<Rightarrow> nat \<Rightarrow> bool) \<Rightarrow> nat set \<Rightarrow> nat \<Rightarrow> nat \<Rightarrow> bool" where
  "matched same bad candidates i j \<longleftrightarrow>
     j \<noteq> i \<and> j \<in> candidates \<and> same j i \<and> \<not> bad j i \<and> (\<forall>k \<in> candidates. k \<noteq> i \<and> same k i \<longrightarrow> k = j)"

lemma find_end_spec:
  assumes "i \<notin> set (positions i)" "distinct (positions i)"
  shows "find_end same bad positions i = Inr j \<longleftrightarrow> matched same bad (set (positions i)) i j"
proof (cases "j = i")
  case True
  then show ?thesis by (auto simp: find_end_def matched_def split: sum.split)
next
  case False
  have "find_end same bad positions i = Inr j \<longleftrightarrow> scan same i (positions i) i = Inr j \<and> \<not> bad j i"
    using False by (auto simp: find_end_def split: sum.split)
  with False assms(1) show ?thesis by (auto simp: scan_spec [OF assms False] matched_def)
qed

section \<open>The walk along the cycle\<close>

lemma other_end_involution [simp]: "other_end (other_end j) = j"
proof (cases "even j")
  case False
  then have "even (j - 1)" "j \<noteq> 0" by (auto elim!: oddE)
  with False show ?thesis unfolding other_end_def by simp
qed (simp add: other_end_def)

lemma other_end_neq [simp]: "other_end j \<noteq> j"
  by (cases j) (auto simp: other_end_def)

lemma other_end_less: "even numEnds \<Longrightarrow> j < numEnds \<Longrightarrow> other_end j < numEnds"
  by (auto simp: other_end_def elim!: evenE)

lemma same_edge: "i div 2 = i' div 2 \<longleftrightarrow> i = i' \<or> i = other_end i'"
proof (cases "even i'")
  case True
  then obtain a where "i' = 2 * a" by (rule evenE)
  then show ?thesis unfolding other_end_def by simp linarith
next
  case False
  then obtain a where "i' = 2 * a + 1" by (rule oddE)
  then show ?thesis unfolding other_end_def by simp linarith
qed

fun walk :: "(nat \<Rightarrow> verify_code + nat) \<Rightarrow> nat \<Rightarrow> nat option" where
  "walk seek 0 = Some 0"
| "walk seek (Suc k) =
     (case walk seek k of
        None \<Rightarrow> None
      | Some i \<Rightarrow> (case seek i of Inl c \<Rightarrow> None | Inr j \<Rightarrow> Some (other_end j)))"

lemma walk_Suc:
  "walk seek (Suc k) = Some y \<longleftrightarrow> (\<exists>i. walk seek k = Some i \<and> seek i = Inr (other_end y))"
  by (auto split: option.split sum.split)

declare walk.simps(2) [simp del]

lemma walk_prefix: "walk seek k \<noteq> None \<Longrightarrow> m \<le> k \<Longrightarrow> walk seek m \<noteq> None"
  by (induction k) (auto simp: le_Suc_eq walk.simps(2) split: option.splits)

text \<open>A closed walk of \<open>PROOFSIZE\<close> steps from the end at 0 that uses no edge twice.\<close>

definition closed_walk :: "(nat \<Rightarrow> verify_code + nat) \<Rightarrow> nat list \<Rightarrow> bool" where
  "closed_walk seek is \<longleftrightarrow>
     length is = PROOFSIZE \<and> is ! 0 = 0 \<and> distinct (map (\<lambda>i. i div 2) is) \<and>
     (\<forall>k < PROOFSIZE. seek (is ! k) = Inr (other_end (is ! (Suc k mod PROOFSIZE))))"

lemma follow_closed_walk:
  assumes "closed_walk seek is"
  shows "follow seek 0 0 = Some POW_OK"
proof -
  have len: "length is = PROOFSIZE" and start: "is ! 0 = 0"
    and step: "\<And>k. k < PROOFSIZE \<Longrightarrow> seek (is ! k) = Inr (other_end (is ! (Suc k mod PROOFSIZE)))"
    and dist: "distinct (map (\<lambda>i. i div 2) is)"
    using assms by (auto simp: closed_walk_def)
  have nonzero: "is ! k \<noteq> 0" if "0 < k" "k < PROOFSIZE" for k
  proof
    assume "is ! k = 0"
    then have "map (\<lambda>i. i div 2) is ! k = map (\<lambda>i. i div 2) is ! 0" using that len start by simp
    then show False using dist that len nth_eq_iff_index_eq [OF dist, of k 0] by simp
  qed
  have "follow seek k (is ! k) = Some POW_OK" if "k < PROOFSIZE" for k
    using that
  proof (induction "PROOFSIZE - k" arbitrary: k)
    case (Suc d)
    show ?case
    proof (cases "Suc k = PROOFSIZE")
      case True
      then show ?thesis using step [OF Suc.prems] start by (subst follow.simps) (simp add: Let_def)
    next
      case False
      then have less: "Suc k < PROOFSIZE" using Suc.prems by simp
      then have "follow seek (Suc k) (is ! Suc k) = Some POW_OK" using Suc by simp
      with less nonzero [of "Suc k"] step [OF Suc.prems] show ?thesis
        by (subst follow.simps) (simp add: Let_def)
    qed
  qed simp
  from this [of 0] show ?thesis using start by (simp add: PROOFSIZE_def)
qed

locale cycle_walk =
  fixes seek :: "nat \<Rightarrow> verify_code + nat" and numEnds :: nat
  assumes even_size: "even numEnds" and size_pos: "0 < numEnds"
    and seek_range: "i < numEnds \<Longrightarrow> seek i = Inr j \<Longrightarrow> j < numEnds \<and> j \<noteq> i"
    and seek_sym: "i < numEnds \<Longrightarrow> seek i = Inr j \<Longrightarrow> seek j = Inr i"
    and seek_error: "seek i \<noteq> Inl POW_OK"
begin

lemma walk_range: "walk seek k = Some i \<Longrightarrow> i < numEnds"
proof (induction k arbitrary: i)
  case (Suc k)
  then obtain x where "x < numEnds" "seek x = Inr (other_end i)" unfolding walk_Suc by blast
  then have "other_end i < numEnds" using seek_range by blast
  from other_end_less [OF even_size this] show ?case by simp
qed (simp add: size_pos)

lemma walk_back: "walk seek a = Some x \<Longrightarrow> walk seek b = Some x \<Longrightarrow> a \<le> b \<Longrightarrow> walk seek (b - a) = Some 0"
proof (induction a arbitrary: b x)
  case (Suc a)
  then obtain b' where b: "b = Suc b'" by (cases b) auto
  obtain y z where yz: "walk seek a = Some y" "seek y = Inr (other_end x)"
      "walk seek b' = Some z" "seek z = Inr (other_end x)"
    using Suc.prems b by (auto simp: walk_Suc)
  then have "seek (other_end x) = Inr y" "seek (other_end x) = Inr z"
    using walk_range seek_sym by blast+
  with yz Suc.IH [of y b'] Suc.prems b show ?case by simp
qed simp

lemma walk_no_turn: "walk seek a = Some x \<Longrightarrow> walk seek b = Some (other_end x) \<Longrightarrow> a \<le> b \<Longrightarrow> False"
proof (induction "b - a" arbitrary: a b x rule: less_induct)
  case less
  have "a \<noteq> b" using less.prems by (metis option.inject other_end_neq)
  then obtain b' where b: "b = Suc b'" and ab: "a \<le> b'" using less.prems(3) by (cases b) auto
  obtain y where y: "walk seek b' = Some y" "seek y = Inr x"
    using less.prems(2) unfolding b walk_Suc by auto
  have "y < numEnds" using walk_range [OF y(1)] .
  then have opp: "seek x = Inr y" "y \<noteq> x" using y(2) seek_sym seek_range by blast+
  have next_a: "walk seek (Suc a) = Some (other_end y)" using less.prems(1) opp by (simp add: walk_Suc)
  have "a \<noteq> b'" using y(1) less.prems(1) opp(2) by auto
  then have le: "Suc a \<le> b'" using ab by simp
  then have "b' - Suc a < b - a" using b by linarith
  from less.hyps [OF this next_a _ le] show False using y(1) by simp
qed

lemma walk_distinct:
  assumes "\<And>m. 0 < m \<Longrightarrow> m \<le> k \<Longrightarrow> walk seek m \<noteq> Some 0" "walk seek k \<noteq> None"
  shows "inj_on (\<lambda>m. the (walk seek m)) {..k}"
proof -
  have defined: "walk seek m \<noteq> None" if "m \<le> k" for m
    using that assms(2) by (rule walk_prefix [rotated])
  have "a = b" if "the (walk seek a) = the (walk seek b)" "a \<le> b" "b \<le> k" for a b
  proof (rule ccontr)
    assume "a \<noteq> b"
    have "walk seek (b - a) = Some 0"
      using defined [of a] defined [of b] that by (intro walk_back [of a "the (walk seek a)"]) auto
    then show False using assms(1) [of "b - a"] that \<open>a \<noteq> b\<close> by simp
  qed
  then show ?thesis by (intro inj_onI) (metis atMost_iff nle_le)
qed

lemma walk_bounded:
  assumes "\<And>m. 0 < m \<Longrightarrow> m \<le> k \<Longrightarrow> walk seek m \<noteq> Some 0" "walk seek k \<noteq> None"
  shows "k < numEnds"
proof -
  have "the (walk seek m) < numEnds" if "m \<le> k" for m
    using walk_prefix [OF assms(2) that] walk_range by auto
  then have "(\<lambda>m. the (walk seek m)) ` {..k} \<subseteq> {..<numEnds}" by auto
  from card_inj_on_le [OF walk_distinct [OF assms] this] show ?thesis by simp
qed

lemma follow_returns:
  assumes "\<And>m. 0 < m \<Longrightarrow> m \<le> k \<Longrightarrow> walk seek m \<noteq> Some 0" "walk seek k = Some i"
  shows "\<exists>c. follow seek k i = Some c \<and>
    (c = POW_OK \<longrightarrow> walk seek PROOFSIZE = Some 0 \<and> (\<forall>m. 0 < m \<and> m < PROOFSIZE \<longrightarrow> walk seek m \<noteq> Some 0))"
  using assms
proof (induction "numEnds - k" arbitrary: k i rule: less_induct)
  case less
  have bound: "k < numEnds" using walk_bounded less.prems by simp
  show ?case
  proof (cases "seek i")
    case (Inl c)
    then show ?thesis using seek_error [of i] by (subst follow.simps) auto
  next
    case (Inr j)
    then have suc: "walk seek (Suc k) = Some (other_end j)" using less.prems(2) by (simp add: walk.simps(2))
    show ?thesis
    proof (cases "other_end j = 0")
      case True
      have "walk seek PROOFSIZE = Some 0" if "Suc k = PROOFSIZE" using that True suc by simp
      with True Inr suc less.prems(1) show ?thesis by (subst follow.simps) (auto simp: Let_def)
    next
      case False
      have "walk seek m \<noteq> Some 0" if "0 < m" "m \<le> Suc k" for m
        using that less.prems(1) suc False by (cases "m = Suc k") auto
      moreover have "numEnds - Suc k < numEnds - k" using bound by simp
      ultimately obtain c where
        "follow seek (Suc k) (other_end j) = Some c \<and>
         (c = POW_OK \<longrightarrow> walk seek PROOFSIZE = Some 0 \<and>
           (\<forall>m. 0 < m \<and> m < PROOFSIZE \<longrightarrow> walk seek m \<noteq> Some 0))"
        using less.hyps [of "Suc k" "other_end j"] suc by blast
      with False Inr show ?thesis by (subst follow.simps) (simp add: Let_def)
    qed
  qed
qed

lemma follow_terminates: "\<exists>c. follow seek 0 0 = Some c"
  using follow_returns [of 0 0] by auto

lemma closed_walk_of_walk:
  assumes "walk seek PROOFSIZE = Some 0" "\<And>m. 0 < m \<Longrightarrow> m < PROOFSIZE \<Longrightarrow> walk seek m \<noteq> Some 0"
  shows "closed_walk seek (map (\<lambda>k. the (walk seek k)) [0..<PROOFSIZE])"
proof -
  have N: "PROOFSIZE = Suc 41" by (simp add: PROOFSIZE_def)
  let ?w = "\<lambda>k. the (walk seek k)"
  have def_N: "walk seek 41 \<noteq> None" using assms(1) unfolding N walk_Suc by auto
  have defined: "walk seek k = Some (?w k)" if "k \<le> 41" for k
    using walk_prefix [OF def_N that] by auto
  have inj: "inj_on ?w {..41}"
    by (rule walk_distinct [OF assms(2) def_N]) (simp_all add: N)
  have edges: "k = k'" if edge: "?w k div 2 = ?w k' div 2" and k: "k \<le> 41" "k' \<le> 41" for k k'
  proof -
    consider "?w k = ?w k'" | "?w k = other_end (?w k')" using edge unfolding same_edge by blast
    then show ?thesis
    proof cases
      case 1
      then show ?thesis by (rule inj_onD [OF inj]) (simp_all add: k)
    next
      case 2
      have other: "?w k' = other_end (?w k)" unfolding 2 by simp
      have w: "walk seek k = Some (other_end (?w k'))" using defined [OF k(1)] unfolding 2 .
      have w': "walk seek k' = Some (other_end (?w k))" using defined [OF k(2)] unfolding other .
      have False
        using walk_no_turn [OF defined [OF k(1)] w'] walk_no_turn [OF defined [OF k(2)] w]
        by (cases "k \<le> k'") simp_all
      then show ?thesis ..
    qed
  qed
  have step: "seek (?w k) = Inr (other_end (?w (Suc k mod PROOFSIZE)))" if k: "k < PROOFSIZE" for k
  proof -
    have "k \<le> 41" using k N by simp
    have "walk seek (Suc k) = Some (?w (Suc k mod PROOFSIZE))"
    proof (cases "Suc k = PROOFSIZE")
      case True
      then show ?thesis using assms(1) by simp
    next
      case False
      then have "Suc k \<le> 41" "Suc k mod PROOFSIZE = Suc k" using k N by simp_all
      then show ?thesis using defined by metis
    qed
    then obtain x where "walk seek k = Some x" "seek x = Inr (other_end (?w (Suc k mod PROOFSIZE)))"
      unfolding walk_Suc by blast
    then show ?thesis by simp
  qed
  have "inj_on (\<lambda>k. ?w k div 2) {0..<PROOFSIZE}"
    by (rule inj_onI, rule edges) (simp_all add: N)
  then have "distinct (map (\<lambda>k. ?w k div 2) [0..<PROOFSIZE])"
    by (simp only: distinct_map distinct_upt set_upt simp_thms)
  moreover have "0 < PROOFSIZE" using N by simp
  ultimately show ?thesis using step by (simp add: closed_walk_def o_def)
qed

lemma closed_walk_range:
  assumes "closed_walk seek is" "k < PROOFSIZE"
  shows "is ! k < numEnds"
  using assms(2)
proof (induction k)
  case 0
  then show ?case using assms(1) size_pos by (simp add: closed_walk_def)
next
  case (Suc k)
  then have "is ! k < numEnds" "seek (is ! k) = Inr (other_end (is ! Suc k))"
    using assms(1) by (auto simp: closed_walk_def)
  then have "other_end (is ! Suc k) < numEnds" using seek_range by blast
  from other_end_less [OF even_size this] show ?case by simp
qed

lemma follow_ok_iff: "follow seek 0 0 = Some POW_OK \<longleftrightarrow> (\<exists>is. closed_walk seek is)"
proof
  assume "follow seek 0 0 = Some POW_OK"
  then show "\<exists>is. closed_walk seek is"
    using follow_returns [of 0 0] closed_walk_of_walk by auto
qed (auto dest: follow_closed_walk)

end

section \<open>The verifiers that walk on matched ends\<close>

definition candidates :: "(nat \<Rightarrow> nat) \<Rightarrow> nat \<Rightarrow> nat set" where
  "candidates side i = {k. k < 2 * PROOFSIZE \<and> k \<noteq> i \<and> side k = side i}"

lemma wrap_positions: "i < 84 \<Longrightarrow> x < 84 \<Longrightarrow> (i + x) mod 84 = (if i + x < 84 then i + x else i + x - 84)" for i x :: nat
  by (auto simp: mod_if)

lemma other_positions_1:
  assumes "i < 2 * PROOFSIZE"
  shows "set (other_positions 1 i) = candidates (\<lambda>_. 0) i" "distinct (other_positions 1 i)"
proof -
  have i: "i < 84" using assms by (simp add: PROOFSIZE_def)
  have eq: "(\<lambda>t. (i + 1 * t) mod 84) ` {1..<84} = {k. k < 84 \<and> k \<noteq> i}"
  proof (intro equalityI subsetI)
    fix k assume "k \<in> {k. k < 84 \<and> k \<noteq> i}"
    then have k: "k < 84" "k \<noteq> i" by auto
    define t where "t = (if i < k then k - i else k + 84 - i)"
    have "t \<in> {1..<84}" "k = (i + 1 * t) mod 84"
      using k i by (auto simp: t_def wrap_positions)
    then show "k \<in> (\<lambda>t. (i + 1 * t) mod 84) ` {1..<84}" by (rule image_eqI [rotated])
  qed (use i in \<open>auto simp: wrap_positions\<close>)
  then show "set (other_positions 1 i) = candidates (\<lambda>_. 0) i"
    by (simp only: other_positions_def candidates_def set_map set_upt PROOFSIZE_def) simp
  have "inj_on (\<lambda>t. (i + 1 * t) mod 84) {1..<84}"
    using i by (intro inj_onI) (auto simp: wrap_positions split: if_splits)
  then show "distinct (other_positions 1 i)"
    by (simp add: other_positions_def distinct_map PROOFSIZE_def del: upt_rec_numeral)
qed

lemma other_positions_2:
  assumes "i < 2 * PROOFSIZE"
  shows "set (other_positions 2 i) = candidates (\<lambda>k. k mod 2) i" "distinct (other_positions 2 i)"
proof -
  have i: "i < 84" using assms by (simp add: PROOFSIZE_def)
  have wrap: "(i + 2 * t) mod 84 = (if i + 2 * t < 84 then i + 2 * t else i + 2 * t - 84)" if "t < 42" for t
    using wrap_positions [of i "2 * t"] i that by simp
  have eq: "(\<lambda>t. (i + 2 * t) mod 84) ` {1..<42} = {k. k < 84 \<and> k \<noteq> i \<and> k mod 2 = i mod 2}"
  proof (intro equalityI subsetI)
    fix k assume "k \<in> {k. k < 84 \<and> k \<noteq> i \<and> k mod 2 = i mod 2}"
    then have k: "k < 84" "k \<noteq> i" "k mod 2 = i mod 2" by auto
    define r where "r = i mod 2"
    have "i = 2 * (i div 2) + r" "k = 2 * (k div 2) + r" unfolding r_def
      using k(3) mult_div_mod_eq [of 2 i] mult_div_mod_eq [of 2 k] by simp_all
    then obtain a b where ab: "i = 2 * a + r" "k = 2 * b + r" by blast
    define t where "t = (if a < b then b - a else b + 42 - a)"
    have t: "t \<in> {1..<42}" "i + 2 * t = (if a < b then k else k + 84)"
      using ab k(1,2) i by (auto simp: t_def)
    then have "k = (i + 2 * t) mod 84" using k(1) by simp
    with t(1) show "k \<in> (\<lambda>t. (i + 2 * t) mod 84) ` {1..<42}" by (rule image_eqI [rotated])
  next
    fix k assume "k \<in> (\<lambda>t. (i + 2 * t) mod 84) ` {1..<42}"
    then obtain t where t: "k = (i + 2 * t) mod 84" "1 \<le> t" "t < 42" by auto
    then have k: "k = (if i + 2 * t < 84 then i + 2 * t else i + 2 * t - 84)" using wrap by simp
    have "((i + 2 * t) mod 84) mod 2 = (i + 2 * t) mod 2" by (rule mod_mod_cancel) simp
    then have "k mod 2 = i mod 2" using t(1) by simp
    moreover have "k < 84 \<and> k \<noteq> i" using k t(2,3) i by (auto split: if_splits)
    ultimately show "k \<in> {k. k < 84 \<and> k \<noteq> i \<and> k mod 2 = i mod 2}" by simp
  qed
  then show "set (other_positions 2 i) = candidates (\<lambda>k. k mod 2) i"
    by (simp only: other_positions_def candidates_def set_map set_upt PROOFSIZE_def) simp
  have "inj_on (\<lambda>t. (i + 2 * t) mod 84) {1..<42}"
    using i by (intro inj_onI) (auto simp: wrap split: if_splits)
  then show "distinct (other_positions 2 i)"
    by (simp add: other_positions_def distinct_map PROOFSIZE_def del: upt_rec_numeral)
qed

lemma matched_sym:
  assumes m: "matched same bad (candidates side i) i j" and i: "i < 2 * PROOFSIZE"
    and sym: "\<And>a b. same a b \<Longrightarrow> same b a" and trans: "\<And>a b c. same a b \<Longrightarrow> same b c \<Longrightarrow> same a c"
    and bad: "\<And>a b. bad a b \<Longrightarrow> bad b a"
  shows "matched same bad (candidates side j) j i"
proof -
  have j: "j \<noteq> i" "side j = side i" "same j i" "\<not> bad j i"
    and unique: "\<And>k. k \<in> candidates side i \<Longrightarrow> k \<noteq> i \<Longrightarrow> same k i \<Longrightarrow> k = j"
    using m by (auto simp: matched_def candidates_def)
  have "k = i" if k: "k \<in> candidates side j" "k \<noteq> j" "same k j" for k
  proof (rule ccontr)
    assume "k \<noteq> i"
    moreover have "same k i" using trans k(3) j(3) by blast
    ultimately show False using unique [of k] k j(2) by (simp add: candidates_def)
  qed
  moreover have "same i j" "\<not> bad i j" using sym [OF j(3)] bad j(4) by blast+
  ultimately show ?thesis using i j(1,2) by (auto simp: matched_def candidates_def)
qed

lemma find_end_cycle_walk:
  assumes "\<And>i. i < 2 * PROOFSIZE \<Longrightarrow> set (positions i) = candidates side i"
    and "\<And>i. i < 2 * PROOFSIZE \<Longrightarrow> distinct (positions i)"
    and "\<And>a b. same a b \<Longrightarrow> same b a" "\<And>a b c. same a b \<Longrightarrow> same b c \<Longrightarrow> same a c"
    and "\<And>a b. bad a b \<Longrightarrow> bad b a"
  shows "cycle_walk (find_end same bad positions) (2 * PROOFSIZE)"
    and "i < 2 * PROOFSIZE \<Longrightarrow>
      find_end same bad positions i = Inr j \<longleftrightarrow> matched same bad (candidates side i) i j"
proof -
  have spec: "find_end same bad positions i = Inr j \<longleftrightarrow> matched same bad (candidates side i) i j"
    if "i < 2 * PROOFSIZE" for i j
    using find_end_spec [of i positions same bad j] assms(1,2) [OF that] by (simp add: candidates_def)
  then show "i < 2 * PROOFSIZE \<Longrightarrow>
      find_end same bad positions i = Inr j \<longleftrightarrow> matched same bad (candidates side i) i j" .
  show "cycle_walk (find_end same bad positions) (2 * PROOFSIZE)"
  proof
    fix i j
    assume i: "i < 2 * PROOFSIZE" and found: "find_end same bad positions i = Inr j"
    then have m: "matched same bad (candidates side i) i j" using spec by simp
    then show range: "j < 2 * PROOFSIZE \<and> j \<noteq> i" by (auto simp: matched_def candidates_def)
    show "find_end same bad positions j = Inr i"
      using range matched_sym [OF m i assms(3-5)] spec by simp
  qed (simp_all add: PROOFSIZE_def find_end_not_ok)
qed

text \<open>
  A cycle of \<open>PROOFSIZE\<close> edges through the graph of the edge ends: it starts at the end 0, leaves each
  edge at an end whose node it shares with exactly one other end of the same side, and enters the next
  edge there; no edge occurs twice.
\<close>

definition end_cycle ::
  "(nat \<Rightarrow> nat \<Rightarrow> bool) \<Rightarrow> (nat \<Rightarrow> nat \<Rightarrow> bool) \<Rightarrow> (nat \<Rightarrow> nat) \<Rightarrow> nat list \<Rightarrow> bool" where
  "end_cycle same bad side is \<longleftrightarrow>
     length is = PROOFSIZE \<and> is ! 0 = 0 \<and> set is \<subseteq> {..<2 * PROOFSIZE} \<and>
     distinct (map (\<lambda>i. i div 2) is) \<and>
     (\<forall>k < PROOFSIZE. matched same bad (candidates side (is ! k)) (is ! k)
        (other_end (is ! (Suc k mod PROOFSIZE))))"

lemma closed_walk_end_cycle:
  assumes "cycle_walk seek (2 * PROOFSIZE)"
    and "\<And>i j. i < 2 * PROOFSIZE \<Longrightarrow> seek i = Inr j \<longleftrightarrow> matched same bad (candidates side i) i j"
  shows "closed_walk seek is \<longleftrightarrow> end_cycle same bad side is"
proof
  assume cw: "closed_walk seek is"
  have "is ! k < 2 * PROOFSIZE" if "k < PROOFSIZE" for k
    using cycle_walk.closed_walk_range [OF assms(1) cw that] .
  with cw assms(2) show "end_cycle same bad side is"
    by (auto simp: end_cycle_def closed_walk_def in_set_conv_nth)
next
  assume ec: "end_cycle same bad side is"
  then have "is ! k < 2 * PROOFSIZE" if "k < PROOFSIZE" for k
    using that unfolding end_cycle_def by (metis lessThan_iff nth_mem subsetD)
  with ec assms(2) show "closed_walk seek is" by (auto simp: end_cycle_def closed_walk_def)
qed

lemma follow_ok_end_cycle:
  assumes "\<And>i. i < 2 * PROOFSIZE \<Longrightarrow> set (positions i) = candidates side i"
    and "\<And>i. i < 2 * PROOFSIZE \<Longrightarrow> distinct (positions i)"
    and "\<And>a b. same a b \<Longrightarrow> same b a" "\<And>a b c. same a b \<Longrightarrow> same b c \<Longrightarrow> same a c"
    and "\<And>a b. bad a b \<Longrightarrow> bad b a"
  shows "follow (find_end same bad positions) 0 0 = Some POW_OK \<longleftrightarrow> (\<exists>is. end_cycle same bad side is)"
proof -
  note insts = find_end_cycle_walk [where same = same and bad = bad and positions = positions and side = side]
  note walk = insts(1) [OF assms] and spec = insts(2) [OF assms]
  have "closed_walk (find_end same bad positions) is \<longleftrightarrow> end_cycle same bad side is" for "is"
    by (rule closed_walk_end_cycle [OF walk spec])
  then show ?thesis using cycle_walk.follow_ok_iff [OF walk] by simp
qed

lemma cuckatoo_cycle_walk: "cycle_walk (cuckatoo_find uvs) (2 * PROOFSIZE)"
  unfolding cuckatoo_find_def
  by (rule find_end_cycle_walk) (use other_positions_2 in auto)

lemma cuckaroo_cycle_walk: "cycle_walk (cuckaroo_find 2 uvs) (2 * PROOFSIZE)"
  unfolding cuckaroo_find_def
  by (rule find_end_cycle_walk) (use other_positions_2 in auto)

lemma cuckarooz_cycle_walk: "cycle_walk (cuckaroo_find 1 uvs) (2 * PROOFSIZE)"
  unfolding cuckaroo_find_def
  by (rule find_end_cycle_walk) (use other_positions_1 in auto)

interpretation cuckatoo: cycle_walk "cuckatoo_find uvs" "2 * PROOFSIZE" for uvs
  by (rule cuckatoo_cycle_walk)

interpretation cuckaroo: cycle_walk "cuckaroo_find 2 uvs" "2 * PROOFSIZE" for uvs
  by (rule cuckaroo_cycle_walk)

interpretation cuckarooz: cycle_walk "cuckaroo_find 1 uvs" "2 * PROOFSIZE" for uvs
  by (rule cuckarooz_cycle_walk)

section \<open>The directed walk\<close>

lemma find_index_Some:
  "find_index ys x n = Some m \<Longrightarrow> n \<le> m \<and> m < n + length ys \<and> ys ! (m - n) = x \<and> (\<forall>l < m - n. ys ! l \<noteq> x)"
proof (induction ys arbitrary: n)
  case (Cons y ys)
  show ?case
  proof (cases "y = x")
    case False
    then have "find_index ys x (Suc n) = Some m" using Cons.prems by simp
    note IH = Cons.IH [OF this]
    then have "m - n = Suc (m - Suc n)" by linarith
    with IH False show ?thesis by (auto simp: nth_Cons split: nat.split)
  qed (use Cons in auto)
qed simp

lemma count_unvisited:
  "i < length visited \<Longrightarrow> \<not> visited ! i \<Longrightarrow>
   count_list (visited[i := True]) False < count_list visited False"
proof (induction visited arbitrary: i)
  case (Cons v visited)
  then show ?case by (cases i) auto
qed simp

lemma follow_directed_terminates:
  "length from = N \<Longrightarrow> length visited = N \<Longrightarrow> i < N \<Longrightarrow>
   \<exists>c. follow_directed from to visited n i = Some c"
proof (induction "count_list visited False" arbitrary: visited n i rule: less_induct)
  case less
  show ?case
  proof (cases "visited ! i")
    case False
    then have dec: "count_list (visited[i := True]) False < count_list visited False"
      using less.prems by (intro count_unvisited) simp_all
    show ?thesis
    proof (cases "find_index from (to ! i) 0")
      case (Some nexti)
      then have "nexti < N" using find_index_Some less.prems(1) by fastforce
      then obtain c where "follow_directed from to (visited[i := True]) (Suc n) nexti = Some c"
        using less.hyps [OF dec] less.prems by fastforce
      with False Some show ?thesis by (subst follow_directed.simps) (simp add: Let_def)
    qed (subst follow_directed.simps, simp add: False)
  qed (subst follow_directed.simps, simp)
qed

definition directed_cycle :: "u64 list \<Rightarrow> u64 list \<Rightarrow> nat list \<Rightarrow> bool" where
  "directed_cycle from to is \<longleftrightarrow>
     length is = PROOFSIZE \<and> distinct is \<and> set is = {..<PROOFSIZE} \<and> is ! 0 = 0 \<and>
     (\<forall>k < PROOFSIZE. from ! (is ! (Suc k mod PROOFSIZE)) = to ! (is ! k))"

lemma follow_directed_sound:
  assumes "follow_directed from to visited n i = Some POW_OK"
    and "length from = PROOFSIZE" "length visited = PROOFSIZE" "i < PROOFSIZE"
    and "length ps = n" "distinct ps" "\<And>x. x < PROOFSIZE \<Longrightarrow> visited ! x \<longleftrightarrow> x \<in> set ps" "set ps \<subseteq> {..<PROOFSIZE}"
    and "(ps @ [i]) ! 0 = 0"
    and "\<And>k. k < n \<Longrightarrow> from ! ((ps @ [i]) ! Suc k) = to ! ((ps @ [i]) ! k)"
  shows "\<exists>is. directed_cycle from to is"
  using assms
proof (induction "count_list visited False" arbitrary: visited n i ps rule: less_induct)
  case less
  note run = less.prems(1) [unfolded follow_directed.simps [of "from" to visited n i]]
  have fresh: "\<not> visited ! i" using run by (auto split: if_splits)
  then obtain nexti where nexti: "find_index from (to ! i) 0 = Some nexti"
    using run by (auto split: option.splits)
  then have nx: "nexti < PROOFSIZE" "from ! nexti = to ! i"
    using find_index_Some less.prems(2) by fastforce+
  let ?ps = "ps @ [i]"
  have ps: "length ?ps = Suc n" "distinct ?ps" "set ?ps \<subseteq> {..<PROOFSIZE}"
    using less.prems fresh by auto
  have links: "from ! ((?ps @ [nexti]) ! Suc k) = to ! ((?ps @ [nexti]) ! k)" if "k < Suc n" for k
  proof (cases "k = n")
    case True
    then show ?thesis using less.prems(5) nx(2) by (simp add: nth_append)
  next
    case False
    then have "k < n" using that by simp
    from less.prems(10) [OF this] show ?thesis
      using \<open>k < n\<close> less.prems(5) by (auto simp: nth_append less_Suc_eq split: if_splits)
  qed
  show ?case
  proof (cases "nexti = 0")
    case True
    then have n: "Suc n = PROOFSIZE" using run fresh nexti by (auto simp: Let_def split: if_splits)
    have "set ?ps = {..<PROOFSIZE}"
      using ps n by (metis card_lessThan card_subset_eq distinct_card finite_lessThan)
    moreover have "from ! (?ps ! (Suc k mod PROOFSIZE)) = to ! (?ps ! k)" if "k < PROOFSIZE" for k
      using links [of k] that n True less.prems(5,9) ps(1)
      by (cases "k = n") (auto simp: nth_append split: if_splits)
    ultimately have "directed_cycle from to ?ps"
      using ps n less.prems(9) by (simp add: directed_cycle_def)
    then show ?thesis ..
  next
    case False
    have dec: "count_list (visited[i := True]) False < count_list visited False"
      using less.prems fresh by (intro count_unvisited) simp_all
    have rec: "follow_directed from to (visited[i := True]) (Suc n) nexti = Some POW_OK"
      using run fresh nexti False by (simp add: Let_def)
    have vis: "visited[i := True] ! x \<longleftrightarrow> x \<in> set ?ps" if "x < PROOFSIZE" for x
      using less.prems that by (auto simp: nth_list_update)
    have start: "(?ps @ [nexti]) ! 0 = 0" using less.prems(9) by (simp add: nth_append split: if_splits)
    have len: "length (visited[i := True]) = PROOFSIZE" using less.prems(3) by simp
    show ?thesis
      using less.hyps [OF dec rec less.prems(2) len nx(1) ps(1,2) vis ps(3) start links] by blast
  qed
qed

section \<open>The endpoints that are accepted\<close>

lemma collect_ends_Inr:
  "collect_ends edgeMask ends prev es = Inr uvs \<longleftrightarrow>
     uvs = map ends es \<and> (\<forall>e \<in> set es. e \<le> edgeMask) \<and>
     sorted_wrt (<) ((case prev of None \<Rightarrow> [] | Some p \<Rightarrow> [p]) @ es)"
proof (induction es arbitrary: prev uvs)
  case Nil
  then show ?case by (auto split: option.split)
next
  case (Cons e es)
  let ?small = "case prev of None \<Rightarrow> False | Some p \<Rightarrow> e \<le> p"
  have "collect_ends edgeMask ends prev (e # es) = Inr uvs \<longleftrightarrow>
      e \<le> edgeMask \<and> \<not> ?small \<and> (\<exists>vs. collect_ends edgeMask ends (Some e) es = Inr vs \<and> uvs = ends e # vs)"
    by (auto split: sum.split)
  also have "\<dots> \<longleftrightarrow> uvs = map ends (e # es) \<and> (\<forall>x \<in> set (e # es). x \<le> edgeMask) \<and>
      \<not> ?small \<and> sorted_wrt (<) (e # es)"
    unfolding Cons.IH by auto
  also have "\<not> ?small \<and> sorted_wrt (<) (e # es) \<longleftrightarrow>
      sorted_wrt (<) ((case prev of None \<Rightarrow> [] | Some p \<Rightarrow> [p]) @ (e # es))"
    by (cases prev) (auto simp: not_le)
  finally show ?case .
qed

lemma collect_ends_not_ok: "collect_ends edgeMask ends prev es \<noteq> Inl POW_OK"
  by (induction es arbitrary: prev) (auto split: sum.splits)

lemma length_collect_ends:
  "collect_ends edgeMask ends prev es = Inr uvs \<Longrightarrow> length uvs = length es"
  by (simp add: collect_ends_Inr)

lemma verify_cuckaroom_returns:
  "length edges = PROOFSIZE \<Longrightarrow> \<exists>c. verify_cuckaroom edges keys = Some c"
  unfolding verify_cuckaroom_def Let_def
  by (auto split: sum.split dest!: length_collect_ends
      intro!: follow_directed_terminates [where N = PROOFSIZE] simp: PROOFSIZE_def)

lemma validate_with_returns:
  "(\<And>edges keys. length edges = PROOFSIZE \<Longrightarrow> \<exists>c. verify edges keys = Some c) \<Longrightarrow>
   \<exists>r. validate_with verify Blake2b header = Some r"
  by (fastforce simp: validate_with_def Let_def)

text \<open>
  C29. Validation of a proof of work returns: for every header, whatever its nonces, the loops of the
  Cuckatoo, Cuckaroo, Cuckaroom and Cuckarooz verifiers end with an answer. For the three walks on edge
  ends this rests on the matching of ends being symmetric, so that the walk is injective and can only
  come back to its start; for Cuckaroom on the marks of the visited edges.
\<close>

theorem validators_return:
  "(\<exists>r. Cuckatoo_Validate Blake2b header = Some r) \<and> (\<exists>r. Cuckaroo_Validate Blake2b header = Some r) \<and>
   (\<exists>r. Cuckaroom_Validate Blake2b header = Some r) \<and> (\<exists>r. Cuckarooz_Validate Blake2b header = Some r)"
proof (intro conjI)
  show "\<exists>r. Cuckatoo_Validate Blake2b header = Some r"
    unfolding Cuckatoo_Validate_def
    by (rule validate_with_returns)
      (use cuckatoo.follow_terminates in \<open>auto simp: verify_cuckatoo_def Let_def split: sum.split\<close>)
  show "\<exists>r. Cuckaroo_Validate Blake2b header = Some r"
    unfolding Cuckaroo_Validate_def
    by (rule validate_with_returns)
      (use cuckaroo.follow_terminates in \<open>auto simp: verify_cuckaroo_def Let_def split: sum.split\<close>)
  show "\<exists>r. Cuckaroom_Validate Blake2b header = Some r"
    unfolding Cuckaroom_Validate_def
    by (rule validate_with_returns) (rule verify_cuckaroom_returns)
  show "\<exists>r. Cuckarooz_Validate Blake2b header = Some r"
    unfolding Cuckarooz_Validate_def
    by (rule validate_with_returns)
      (use cuckarooz.follow_terminates in \<open>auto simp: verify_cuckarooz_def Let_def split: sum.split\<close>)
qed

definition cuckatoo_ends :: "siphash_state \<Rightarrow> u8 \<Rightarrow> u64 list \<Rightarrow> (u64 \<times> u64) list" where
  "cuckatoo_ends keys edgeBits edges =
     map (\<lambda>e. (sipnode keys e 0 (push_bit (unat edgeBits) 1 - 1),
               sipnode keys e 1 (push_bit (unat edgeBits) 1 - 1))) edges"

definition cuckatoo_cycle :: "u64 list \<Rightarrow> nat list \<Rightarrow> bool" where
  "cuckatoo_cycle uvs =
     end_cycle (\<lambda>k i. drop_bit 1 (uvs ! k) = drop_bit 1 (uvs ! i)) (\<lambda>j i. uvs ! j = uvs ! i) (\<lambda>k. k mod 2)"

text \<open>
  C2. The Cuckatoo verifier accepts exactly the proofs that are cycles: the edges are strictly ascending
  and in range, the endpoints xor to zero on each side, and there is a cycle through \<open>PROOFSIZE\<close>
  different edges in which every end shares its node pair with exactly one other end, of the other parity.
\<close>

theorem verify_cuckatoo_iff_cycle:
  "verify_cuckatoo edges keys edgeBits = Some POW_OK \<longleftrightarrow>
     sorted_wrt (<) edges \<and> list_all (\<lambda>e. e \<le> push_bit (unat edgeBits) 1 - 1) edges \<and>
     xor_all 1 (map fst (cuckatoo_ends keys edgeBits edges)) = 0 \<and>
     xor_all 1 (map snd (cuckatoo_ends keys edgeBits edges)) = 0 \<and>
     (\<exists>is. cuckatoo_cycle (flatten (cuckatoo_ends keys edgeBits edges)) is)"
proof -
  let ?mask = "push_bit (unat edgeBits) (1 :: u64) - 1"
  let ?ends = "\<lambda>e. (sipnode keys e 0 ?mask, sipnode keys e 1 ?mask)"
  have walk: "follow (cuckatoo_find uvs) 0 0 = Some POW_OK \<longleftrightarrow> (\<exists>is. cuckatoo_cycle uvs is)" for uvs
    unfolding cuckatoo_find_def cuckatoo_cycle_def
    by (rule follow_ok_end_cycle) (use other_positions_2 in auto)
  have "verify_cuckatoo edges keys edgeBits = Some POW_OK \<longleftrightarrow>
      (\<exists>uvs. collect_ends ?mask ?ends None edges = Inr uvs \<and>
        xor_all 1 (map fst uvs) OR xor_all 1 (map snd uvs) = 0 \<and>
        follow (cuckatoo_find (flatten uvs)) 0 0 = Some POW_OK)"
    by (auto simp: verify_cuckatoo_def Let_def collect_ends_not_ok split: sum.split)
  then show ?thesis
    unfolding collect_ends_Inr walk or_eq_0_iff
    by (auto simp: cuckatoo_ends_def list_all_iff)
qed

section \<open>A proof on which the Cuckarood verifier does not return\<close>

lemma follow_loops:
  assumes "\<And>i. i \<in> S \<Longrightarrow> \<exists>j. seek i = Inr j \<and> other_end j \<noteq> 0 \<and> other_end j \<in> S" "i \<in> S"
  shows "follow seek n i = None"
proof (rule ccontr)
  assume "follow seek n i \<noteq> None"
  then obtain c where "follow seek n i = Some c" by auto
  then have "i \<in> S \<longrightarrow> seek = seek \<longrightarrow> False"
  proof (rule follow.raw_induct [where P = "\<lambda>seek' n' i' c. i' \<in> S \<longrightarrow> seek' = seek \<longrightarrow> False", rotated])
    fix follow' :: "(nat \<Rightarrow> verify_code + nat) \<Rightarrow> nat \<Rightarrow> nat \<Rightarrow> verify_code option" and seek' n' i' c
    assume IH: "\<And>seek' n' i' c. follow' seek' n' i' = Some c \<Longrightarrow> i' \<in> S \<longrightarrow> seek' = seek \<longrightarrow> False"
      and run: "(case seek' i' of Inl c \<Rightarrow> Some c
        | Inr j \<Rightarrow> let i = other_end j; n = Suc n'
            in if i = 0 then Some (if n = PROOFSIZE then POW_OK else POW_SHORT_CYCLE)
               else follow' seek' n i) = Some c"
    show "i' \<in> S \<longrightarrow> seek' = seek \<longrightarrow> False"
    proof (intro impI)
      assume "i' \<in> S" "seek' = seek"
      then obtain j where "seek' i' = Inr j" "other_end j \<noteq> 0" "other_end j \<in> S"
        using assms(1) by blast
      with run IH [of seek' "Suc n'" "other_end j" c] \<open>seek' = seek\<close> show False by (simp add: Let_def)
    qed
  qed
  then show False using assms(2) by simp
qed

definition stuck_sip :: "u64 \<Rightarrow> u64" where
  "stuck_sip e =
     (if e = 0 then 1 else if e = 1 then 0x200000001 else if e = 2 then 0x200000001
      else if e = 3 then 101 else if e = 4 then 100 else 0)"

definition stuck_uvs :: "u64 list" where
  "stuck_uvs = [1, 0, 1, 2, 1, 2, 101, 0, 100, 0] @ replicate 74 0"

lemma stuck_collect:
  "cuckarood_collect stuck_sip None (map of_nat [0..<42])
     \<lparr>ndir = [0, 0], uvs_arr = replicate (2 * PROOFSIZE) 0, xor0 = 0, xor1 = 0\<rparr> =
   Inr \<lparr>ndir = [21, 21], uvs_arr = stuck_uvs, xor0 = 0, xor1 = 0\<rparr>"
  by code_simp

lemma stuck_find:
  "cuckarood_find stuck_uvs 0 = Inr 2" "cuckarood_find stuck_uvs 3 = Inr 5" "cuckarood_find stuck_uvs 4 = Inr 2"
  by code_simp+

text \<open>
  Nothing in the loop of the Cuckarood verifier makes it end: the matching of ends of opposite directions is not symmetric,
  and the walk can enter a cycle that does not contain its start. There are edge ends and 42 ascending, balanced edges
  with matching xors for which it never returns. The ends are a function here; that SipHash yields them for the hash of
  some header is not claimed.
\<close>

theorem cuckarood_may_not_return:
  "\<exists>sip edges. length edges = PROOFSIZE \<and> sorted_wrt (<) edges \<and> cuckarood_check sip edges = None"
proof (intro exI conjI)
  let ?edges = "map of_nat [0..<42] :: u64 list"
  have loop: "follow (cuckarood_find stuck_uvs) 1 3 = None"
    by (rule follow_loops [where S = "{3, 4}"]) (auto simp: stuck_find other_end_def)
  then have "follow (cuckarood_find stuck_uvs) 0 0 = None"
    by (subst follow.simps) (simp add: stuck_find other_end_def)
  then show "cuckarood_check stuck_sip ?edges = None"
    by (simp only: cuckarood_check_def stuck_collect sum.case cuckarood_state.simps or.left_neutral simp_thms if_False)
  show "length ?edges = PROOFSIZE" by (simp add: PROOFSIZE_def)
  show "sorted_wrt (<) ?edges" by code_simp
qed

end
