(* ===== verification/Difficulty.thy ===== *)
theory Difficulty
  imports Cuckoo
begin

text \<open>
  The difficulty adjustment and the validation of proofs of work (\<^verbatim>\<open>src/PoW/DifficultyLoader.cpp\<close>,
  \<^verbatim>\<open>DifficultyCalculator.cpp\<close>, \<^verbatim>\<open>HeaderInfo.h\<close>, \<^verbatim>\<open>PoWValidator.cpp\<close>). The block database is consulted
  only through \<open>GetBlockHeader\<close>, a partial map from hashes to headers. Timestamps are signed in headers
  and converted to unsigned 64-bit integers; all arithmetic wraps as in C++.
\<close>

section \<open>The window of past headers\<close>

record HeaderInfo =
  hi_timestamp :: u64
  hi_difficulty :: u64
  hi_secondaryScaling :: u32
  hi_secondary :: bool

definition FromTimeAndDiff :: "u64 \<Rightarrow> u64 \<Rightarrow> HeaderInfo" where
  "FromTimeAndDiff timestamp difficulty =
     \<lparr>hi_timestamp = timestamp, hi_difficulty = difficulty,
      hi_secondaryScaling = INITIAL_GRAPH_WEIGHT, hi_secondary = True\<rparr>"

definition FromDiffAndScaling :: "u64 \<Rightarrow> u64 \<Rightarrow> HeaderInfo" where
  "FromDiffAndScaling difficulty secondaryScaling =
     \<lparr>hi_timestamp = 1, hi_difficulty = difficulty,
      hi_secondaryScaling = ucast secondaryScaling, hi_secondary = True\<rparr>"

definition numBlocksNeeded :: nat where
  "numBlocksNeeded = unat (DIFFICULTY_ADJUST_WINDOW + 1)"

text \<open>The loop that walks back from the previous header; its bound is the number of entries missing.\<close>

fun load_loop :: "(bytes \<rightharpoonup> BlockHeader) \<Rightarrow> nat \<Rightarrow> BlockHeader option \<Rightarrow> HeaderInfo list" where
  "load_loop GetBlockHeader 0 pHeader = []"
| "load_loop GetBlockHeader (Suc missing) None = []"
| "load_loop GetBlockHeader (Suc missing) (Some h) =
     (let pPrev = GetBlockHeader (h_previousBlockHash h)
      in \<lparr>hi_timestamp = h_timestamp h,
          hi_difficulty = (case pPrev of
                             Some prev \<Rightarrow> h_totalDifficulty h - h_totalDifficulty prev
                           | None \<Rightarrow> h_totalDifficulty h),
          hi_secondaryScaling = h_scalingDifficulty h,
          hi_secondary = ProofOfWork_IsSecondary (h_proofOfWork h)\<rparr>
         # load_loop GetBlockHeader missing pPrev)"

fun pad_loop :: "nat \<Rightarrow> u64 \<Rightarrow> u64 \<Rightarrow> u64 \<Rightarrow> HeaderInfo list" where
  "pad_loop 0 last_ts last_ts_delta last_diff = []"
| "pad_loop (Suc missing) last_ts last_ts_delta last_diff =
     (let last_ts = last_ts - min last_ts last_ts_delta
      in FromTimeAndDiff last_ts last_diff # pad_loop missing last_ts last_ts_delta last_diff)"

definition PadDifficultyData :: "HeaderInfo list \<Rightarrow> HeaderInfo list result" where
  "PadDifficultyData difficultyData =
     (if length difficultyData < numBlocksNeeded then
        (if difficultyData = [] then Inl Undefined
         else
           let last_ts_delta =
                 (if 1 < length difficultyData
                  then hi_timestamp (difficultyData ! 0) - hi_timestamp (difficultyData ! 1)
                  else BLOCK_TIME_SEC);
               last_diff = hi_difficulty (difficultyData ! 0);
               last_ts = hi_timestamp (last difficultyData)
           in Inr (rev (difficultyData @
                pad_loop (numBlocksNeeded - length difficultyData) last_ts last_ts_delta last_diff)))
      else Inr (rev difficultyData))"

definition LoadDifficultyData :: "(bytes \<rightharpoonup> BlockHeader) \<Rightarrow> BlockHeader \<Rightarrow> HeaderInfo list result" where
  "LoadDifficultyData GetBlockHeader header =
     PadDifficultyData
       (load_loop GetBlockHeader numBlocksNeeded (GetBlockHeader (h_previousBlockHash header)))"

section \<open>The next difficulty\<close>

definition ARCount :: "HeaderInfo list \<Rightarrow> u64" where
  "ARCount difficultyData =
     foldl (\<lambda>numSecondary info. if hi_secondary info then numSecondary + 1 else numSecondary) 0 difficultyData
     * 100"

definition ScalingFactorSum :: "HeaderInfo list \<Rightarrow> u64" where
  "ScalingFactorSum difficultyData =
     foldl (\<lambda>sum info. sum + ucast (hi_secondaryScaling info)) 0 difficultyData"

definition SecondaryPOWScaling :: "u64 \<Rightarrow> HeaderInfo list \<Rightarrow> u32" where
  "SecondaryPOWScaling height difficultyData =
     (let scale_sum = ScalingFactorSum difficultyData;
          target_pct = SecondaryPOWRatio height;
          target_count = DIFFICULTY_ADJUST_WINDOW * target_pct;
          actual = Damp (ARCount difficultyData) target_count AR_SCALE_DAMP_FACTOR;
          adj_count = Clamp actual target_count CLAMP_FACTOR;
          scale = scale_sum * target_pct div max 1 adj_count
      in ucast (max MIN_AR_SCALE scale))"

definition dma_adjusted_time :: "HeaderInfo list \<Rightarrow> u64" where
  "dma_adjusted_time difficultyData =
     (let ts_delta = hi_timestamp (difficultyData ! unat DIFFICULTY_ADJUST_WINDOW)
                     - hi_timestamp (difficultyData ! 0);
          actual = Damp ts_delta BLOCK_TIME_WINDOW DMA_DAMP_FACTOR
      in Clamp actual BLOCK_TIME_WINDOW CLAMP_FACTOR)"

definition difficulty_sum :: "HeaderInfo list \<Rightarrow> u64" where
  "difficulty_sum difficultyData = foldl (\<lambda>sum info. sum + hi_difficulty info) 0 difficultyData"

definition NextDMA :: "(bytes \<rightharpoonup> BlockHeader) \<Rightarrow> BlockHeader \<Rightarrow> HeaderInfo result" where
  "NextDMA GetBlockHeader header =
     rbind (LoadDifficultyData GetBlockHeader header) (\<lambda>difficultyData.
       let difficultyDataSkipFirst = tl difficultyData;
           sec_pow_scaling = SecondaryPOWScaling (h_height header) difficultyDataSkipFirst;
           difficultySum = difficulty_sum difficultyDataSkipFirst;
           adj_ts = dma_adjusted_time difficultyData;
           difficulty = max MIN_DMA_DIFFICULTY (difficultySum * BLOCK_TIME_SEC div adj_ts)
       in Inr (FromDiffAndScaling difficulty (ucast sec_pow_scaling)))"

definition wtema_difficulty :: "Environment \<Rightarrow> u64 \<Rightarrow> u64 \<Rightarrow> u64 result" where
  "wtema_difficulty env last_diff last_block_time =
     (let divisor = WTEMA_HALF_LIFE - BLOCK_TIME_SEC + last_block_time
      in if divisor = 0 then Inl Undefined
         else Inr (max (min_wtema_graph_weight env) (last_diff * WTEMA_HALF_LIFE div divisor)))"

definition NextWTEMA :: "Environment \<Rightarrow> (bytes \<rightharpoonup> BlockHeader) \<Rightarrow> BlockHeader \<Rightarrow> HeaderInfo result" where
  "NextWTEMA env GetBlockHeader header =
     (case GetBlockHeader (h_previousBlockHash header) of
        None \<Rightarrow> Inl RuntimeError
      | Some lastHeader \<Rightarrow>
          (case GetBlockHeader (h_previousBlockHash lastHeader) of
             None \<Rightarrow> Inl RuntimeError
           | Some prevHeader \<Rightarrow>
               rbind (wtema_difficulty env
                        (h_totalDifficulty lastHeader - h_totalDifficulty prevHeader)
                        (h_timestamp lastHeader - h_timestamp prevHeader))
                 (\<lambda>difficulty. Inr (FromDiffAndScaling difficulty 0))))"

definition CalculateNextDifficulty ::
  "Environment \<Rightarrow> (bytes \<rightharpoonup> BlockHeader) \<Rightarrow> BlockHeader \<Rightarrow> HeaderInfo result" where
  "CalculateNextDifficulty env GetBlockHeader header =
     (if h_version header < 5 then NextDMA GetBlockHeader header
      else NextWTEMA env GetBlockHeader header)"

section \<open>Validation of a proof of work\<close>

definition pow_hash64 :: "ProofOfWork \<Rightarrow> u64" where
  "pow_hash64 pow = of_nat (le_value (rev (take 8 (pow_hash pow))))"

definition GetMaximumDifficulty :: "BlockHeader \<Rightarrow> u64 result" where
  "GetMaximumDifficulty header =
     (let pow = h_proofOfWork header;
          scaling = (if pow_edgeBits pow = SECOND_POW_EDGE_BITS
                     then Some (ucast (h_scalingDifficulty header))
                     else map_option ucast (ScalingDifficulty (pow_edgeBits pow)))
      in case scaling of
           None \<Rightarrow> Inl Undefined
         | Some scalingDifficulty \<Rightarrow>
             let scaled = push_bit 64 (scalingDifficulty :: 128 word);
                 hash128 = ucast (max 1 (pow_hash64 pow));
                 difference = scaled div hash128
             in Inr (if difference < 0xffffffffffffffff then ucast difference
                     else 0xffffffffffffffff))"

definition validate_cycle :: "(bytes \<Rightarrow> bytes) \<Rightarrow> BlockHeader \<Rightarrow> bool option" where
  "validate_cycle Blake2b header =
     (if pow_edgeBits (h_proofOfWork header) = 29 then
        (if h_version header = 1 then Cuckaroo_Validate Blake2b header
         else if h_version header = 2 then Cuckarood_Validate Blake2b header
         else if h_version header = 3 then Cuckaroom_Validate Blake2b header
         else Cuckarooz_Validate Blake2b header)
      else Cuckatoo_Validate Blake2b header)"

text \<open>The result is \<open>None\<close> where the verifier does not return.\<close>

definition IsPoWValid ::
  "(bytes \<Rightarrow> bytes) \<Rightarrow> Environment \<Rightarrow> (bytes \<rightharpoonup> BlockHeader) \<Rightarrow> BlockHeader \<Rightarrow> BlockHeader \<Rightarrow>
   bool result option" where
  "IsPoWValid Blake2b env GetBlockHeader header previousHeader =
     (if h_totalDifficulty header \<le> h_totalDifficulty previousHeader then Some (Inr False)
      else case GetMaximumDifficulty header of
        Inl e \<Rightarrow> Some (Inl e)
      | Inr max_difficulty \<Rightarrow>
          let targetDifficulty = h_totalDifficulty header - h_totalDifficulty previousHeader
          in if max_difficulty < targetDifficulty then Some (Inr False)
             else case CalculateNextDifficulty env GetBlockHeader header of
               Inl e \<Rightarrow> Some (Inl e)
             | Inr nextHeaderInfo \<Rightarrow>
                 if targetDifficulty \<noteq> hi_difficulty nextHeaderInfo then Some (Inr False)
                 else if h_scalingDifficulty header \<noteq> hi_secondaryScaling nextHeaderInfo
                 then Some (Inr False)
                 else map_option Inr (validate_cycle Blake2b header))"

section \<open>The window is complete\<close>

lemma numBlocksNeeded_eq: "numBlocksNeeded = 61"
  by (simp add: numBlocksNeeded_def heights)

lemma load_loop_None [simp]: "load_loop GetBlockHeader missing None = []"
  by (cases missing) simp_all

lemma length_load_loop: "length (load_loop GetBlockHeader missing pHeader) \<le> missing"
  by (induction GetBlockHeader missing pHeader rule: load_loop.induct) (simp_all add: Let_def)

lemma load_loop_nonempty: "load_loop GetBlockHeader (Suc missing) (Some h) \<noteq> []"
  by (simp add: Let_def)

lemma length_pad_loop [simp]: "length (pad_loop missing ts delta diff) = missing"
  by (induction missing arbitrary: ts) (simp_all add: Let_def)

lemma pad_loop_difficulty: "map (\<lambda>info. unat (hi_difficulty info)) (pad_loop missing ts delta diff) = replicate missing (unat diff)"
  by (induction missing arbitrary: ts) (simp_all add: Let_def FromTimeAndDiff_def)

lemma sum_list_tl_le: "sum_list (tl xs) \<le> sum_list xs" for xs :: "nat list"
  by (cases xs) simp_all

lemma PadDifficultyData_length:
  assumes "difficultyData \<noteq> []" "length difficultyData \<le> numBlocksNeeded"
  shows "\<exists>d. PadDifficultyData difficultyData = Inr d \<and> length d = numBlocksNeeded"
  using assms by (auto simp: PadDifficultyData_def Let_def)

lemma LoadDifficultyData_length:
  "GetBlockHeader (h_previousBlockHash header) = Some prev \<Longrightarrow>
   \<exists>d. LoadDifficultyData GetBlockHeader header = Inr d \<and> length d = numBlocksNeeded"
  unfolding LoadDifficultyData_def
  using load_loop_nonempty [of GetBlockHeader 60 prev]
  by (intro PadDifficultyData_length length_load_loop) (simp add: numBlocksNeeded_eq)

section \<open>Bounds of the adjusted difficulty\<close>

lemma Clamp_window:
  "1800 \<le> unat (Clamp actual BLOCK_TIME_WINDOW CLAMP_FACTOR)"
  "unat (Clamp actual BLOCK_TIME_WINDOW CLAMP_FACTOR) \<le> 7200"
  using Clamp_between [of BLOCK_TIME_WINDOW CLAMP_FACTOR actual]
  by (simp_all add: heights CLAMP_FACTOR_def word_le_nat_alt)

lemma foldl_add_word:
  assumes "unat a + sum_list (map f xs) < 2 ^ 64" "\<And>x. f x = unat (g x)"
  shows "unat (foldl (\<lambda>sum x. sum + g x) (a :: u64) xs) = unat a + sum_list (map f xs)"
  using assms(1)
proof (induction xs arbitrary: a)
  case (Cons x xs)
  have "unat (a + g x) = unat a + f x"
    using Cons.prems assms(2) [of x] by (simp add: unat_add_no_overflow)
  with Cons show ?case by simp
qed simp

lemma unat_difficulty_sum:
  "sum_list (map (\<lambda>info. unat (hi_difficulty info)) xs) < 2 ^ 64 \<Longrightarrow>
   unat (difficulty_sum xs) = sum_list (map (\<lambda>info. unat (hi_difficulty info)) xs)"
  unfolding difficulty_sum_def
  by (subst foldl_add_word [where f = "\<lambda>info. unat (hi_difficulty info)"]) simp_all

lemma unat_max: "unat (max a b) = max (unat a) (unat b)" for a b :: u64
  by (simp add: max_def word_le_nat_alt)

lemma unat_mult_no_overflow: "unat a * unat b < 2 ^ 64 \<Longrightarrow> unat (a * b) = unat a * unat b" for a b :: u64
  by (simp add: unat_word_ariths)

lemma dma_adjusted_time_eq:
  assumes "unat (hi_timestamp (d ! 60) - hi_timestamp (d ! 0)) < 2 ^ 63"
  shows "unat (dma_adjusted_time d) = max 1800 (min ((unat (hi_timestamp (d ! 60) - hi_timestamp (d ! 0)) + 7200) div 3) 7200)"
proof -
  let ?t = "hi_timestamp (d ! 60) - hi_timestamp (d ! 0)"
  have "unat (Damp ?t BLOCK_TIME_WINDOW DMA_DAMP_FACTOR) = (unat ?t + 7200) div 3"
    using assms by (simp add: Damp_def heights DMA_DAMP_FACTOR_def unat_div unat_add_no_overflow)
  then show ?thesis
    by (simp add: dma_adjusted_time_def Let_def Clamp_def heights CLAMP_FACTOR_def unat_max min_def word_le_nat_alt)
qed

lemma NextDMA_eq:
  assumes "LoadDifficultyData GetBlockHeader header = Inr d"
    and "60 * sum_list (map (\<lambda>info. unat (hi_difficulty info)) (tl d)) < 2 ^ 64"
  defines "S \<equiv> sum_list (map (\<lambda>info. unat (hi_difficulty info)) (tl d))"
  shows "\<exists>info. NextDMA GetBlockHeader header = Inr info \<and> unat (hi_difficulty info) = max 3 (S * 60 div unat (dma_adjusted_time d))"
proof -
  have sum: "unat (difficulty_sum (tl d)) = S"
    using assms(2) unfolding S_def by (intro unat_difficulty_sum) simp
  have "unat (difficulty_sum (tl d) * BLOCK_TIME_SEC) = S * 60"
    using assms(2) sum by (subst unat_mult_no_overflow) (simp_all add: BLOCK_TIME_SEC_def S_def)
  then show ?thesis
    using assms(1)
    by (simp add: NextDMA_def Let_def FromDiffAndScaling_def unat_max unat_div MIN_DMA_DIFFICULTY_def DMA_DAMP_FACTOR_def)
qed

lemma adjusted_between:
  fixes S t :: nat
  assumes "1800 \<le> t" "t \<le> 7200"
  shows "max 3 (S div 120) \<le> max 3 (S * 60 div t)" "max 3 (S * 60 div t) \<le> max 3 (S div 30)"
proof -
  have "S * 60 div 7200 \<le> S * 60 div t" "S * 60 div t \<le> S * 60 div 1800"
    by (rule div_le_mono2; use assms in simp)+
  then have "S div 120 \<le> S * 60 div t" "S * 60 div t \<le> S div 30" by simp_all
  then show "max 3 (S div 120) \<le> max 3 (S * 60 div t)" "max 3 (S * 60 div t) \<le> max 3 (S div 30)" by linarith+
qed

lemma wtema_divisor:
  assumes "unat t < 2 ^ 63"
  shows "unat (WTEMA_HALF_LIFE - BLOCK_TIME_SEC + t) = 14340 + unat t"
  using assms by (subst unat_add_no_overflow) (simp_all add: WTEMA_HALF_LIFE_def BLOCK_TIME_SEC_def)

lemma wtema_difficulty_eq:
  assumes "unat t < 2 ^ 63" "unat d * 14400 < 2 ^ 64"
  shows "\<exists>r. wtema_difficulty env d t = Inr r \<and>
    unat r = max (unat (min_wtema_graph_weight env)) (unat d * 14400 div (14340 + unat t))"
proof -
  let ?div = "WTEMA_HALF_LIFE - BLOCK_TIME_SEC + t"
  have divisor: "unat ?div = 14340 + unat t" using assms(1) by (rule wtema_divisor)
  then have "?div \<noteq> 0" by (metis add_is_0 numeral_neq_zero unsigned_0)
  moreover have "unat (d * WTEMA_HALF_LIFE) = unat d * 14400"
    using assms(2) by (subst unat_mult_no_overflow) (simp_all add: WTEMA_HALF_LIFE_def)
  ultimately show ?thesis
    using divisor by (simp add: wtema_difficulty_def Let_def unat_max unat_div)
qed

lemma wtema_quotient:
  fixes d t :: nat
  shows "t = 60 \<Longrightarrow> d * 14400 div (14340 + t) = d"
    and "t < 60 \<Longrightarrow> 14400 \<le> d \<Longrightarrow> d < d * 14400 div (14340 + t)"
    and "60 \<le> t \<Longrightarrow> d * 14400 div (14340 + t) \<le> d"
proof -
  show "t = 60 \<Longrightarrow> d * 14400 div (14340 + t) = d" by simp
  show "d * 14400 div (14340 + t) \<le> d" if "60 \<le> t"
  proof -
    have "d * 14400 div (14340 + t) \<le> d * 14400 div 14400" using that by (intro div_le_mono2) simp_all
    then show ?thesis by simp
  qed
  show "d < d * 14400 div (14340 + t)" if "t < 60" "14400 \<le> d"
  proof -
    have "Suc d * (14340 + t) \<le> Suc d * 14399" using that(1) by (intro mult_le_mono2) simp
    also have "\<dots> \<le> d * 14400" using that(2) by simp
    finally have "Suc d * (14340 + t) div (14340 + t) \<le> d * 14400 div (14340 + t)" by (rule div_le_mono)
    then show ?thesis by simp
  qed
qed

section \<open>The work of an accepted header\<close>

definition pow_scaling :: "BlockHeader \<Rightarrow> nat" where
  "pow_scaling header =
     (let edgeBits = pow_edgeBits (h_proofOfWork header)
      in if edgeBits = SECOND_POW_EDGE_BITS then unat (h_scalingDifficulty header)
         else unat (the (ScalingDifficulty edgeBits)))"

lemma unat_ucast_128: "unat (ucast w :: 128 word) = unat w" for w :: u64
proof -
  have "unat w < 2 ^ 128" by (rule order.strict_trans [OF unat_less_iff_two_power]) simp
  then show ?thesis by (simp add: unsigned_ucast_eq take_bit_nat_eq_self)
qed

lemma GetMaximumDifficulty_eq:
  assumes "GetMaximumDifficulty header = Inr m"
  shows "unat m = min (2 ^ 64 - 1) (pow_scaling header * 2 ^ 64 div max 1 (unat (pow_hash64 (h_proofOfWork header))))"
proof -
  let ?pow = "h_proofOfWork header"
  let ?hash = "max 1 (pow_hash64 ?pow)"
  obtain sc :: "128 word" where sc: "unat sc = pow_scaling header" and small: "unat sc < 2 ^ 64"
    and m: "m = (let difference = push_bit 64 sc div ucast ?hash
                 in if difference < 0xffffffffffffffff then ucast difference else 0xffffffffffffffff)"
  proof (cases "pow_edgeBits ?pow = SECOND_POW_EDGE_BITS")
    case True
    have "unat (h_scalingDifficulty header) < 2 ^ 32"
      using unsigned_less [of "h_scalingDifficulty header", where ?'a = nat] by simp
    then show thesis
      using True assms that [of "ucast (h_scalingDifficulty header)"]
      by (simp add: GetMaximumDifficulty_def pow_scaling_def Let_def unsigned_ucast_eq take_bit_nat_eq_self)
  next
    case False
    then obtain w where "ScalingDifficulty (pow_edgeBits ?pow) = Some w"
      using assms by (auto simp: GetMaximumDifficulty_def Let_def split: option.splits)
    with False assms that [of "ucast w"] show thesis
      by (simp add: GetMaximumDifficulty_def pow_scaling_def Let_def unat_ucast_128)
  qed
  let ?d = "push_bit 64 sc div ucast ?hash :: 128 word"
  have "unat (push_bit 64 sc) = unat sc * 2 ^ 64"
    using small by (simp add: push_bit_eq_mult unat_word_ariths)
  moreover have "unat (ucast ?hash :: 128 word) = max 1 (unat (pow_hash64 ?pow))"
    by (simp add: unat_ucast_128 unat_max)
  ultimately have d: "unat ?d = pow_scaling header * 2 ^ 64 div max 1 (unat (pow_hash64 ?pow))"
    using sc by (simp add: unat_div)
  show ?thesis
  proof (cases "?d < 0xffffffffffffffff")
    case True
    then have "unat ?d < 2 ^ 64 - 1" by (simp add: word_less_nat_alt)
    with True m d show ?thesis by (simp add: Let_def unsigned_ucast_eq take_bit_nat_eq_self)
  next
    case False
    then have "2 ^ 64 - 1 \<le> unat ?d" by (simp add: word_less_nat_alt)
    with False m d show ?thesis by (simp add: Let_def)
  qed
qed

section \<open>Properties\<close>

definition example_header :: "u16 \<Rightarrow> bytes \<Rightarrow> BlockHeader" where
  "example_header version previous =
     \<lparr>h_version = version, h_height = 1, h_timestamp = 1546569600, h_previousBlockHash = previous,
      h_previousRoot = [], h_outputRoot = [], h_rangeProofRoot = [], h_kernelRoot = [],
      h_totalKernelOffset = [], h_outputMMRSize = 1, h_kernelMMRSize = 1, h_totalDifficulty = 1000,
      h_scalingDifficulty = 1856, h_nonce = 0,
      h_proofOfWork = \<lparr>pow_edgeBits = 29, pow_proofNonces = [], pow_hash = []\<rparr>\<rparr>"

definition example_chain :: "bytes \<rightharpoonup> BlockHeader" where
  "example_chain = [[1] \<mapsto> example_header 1 [2]]"

definition scaling_defined :: "BlockHeader \<Rightarrow> bool" where
  "scaling_defined header \<longleftrightarrow>
     pow_edgeBits (h_proofOfWork header) = SECOND_POW_EDGE_BITS \<or>
     ScalingDifficulty (pow_edgeBits (h_proofOfWork header)) \<noteq> None"

lemma GetMaximumDifficulty_defined:
  "scaling_defined header \<longleftrightarrow> (\<exists>m. GetMaximumDifficulty header = Inr m)"
  by (auto simp: scaling_defined_def GetMaximumDifficulty_def Let_def split: option.split)

lemma meets_difficulty:
  assumes "GetMaximumDifficulty header = Inr m"
  shows "t \<le> m \<longleftrightarrow>
    unat t * max 1 (unat (pow_hash64 (h_proofOfWork header))) \<le> pow_scaling header * 2 ^ 64"
proof -
  let ?hash = "max 1 (unat (pow_hash64 (h_proofOfWork header)))" and ?S = "pow_scaling header * 2 ^ 64"
  have "unat t < 2 ^ 64" by simp
  then have "unat t \<le> 2 ^ 64 - 1" by linarith
  then have "t \<le> m \<longleftrightarrow> unat t \<le> ?S div ?hash"
    using GetMaximumDifficulty_eq [OF assms] by (simp add: word_le_nat_alt)
  also have "\<dots> \<longleftrightarrow> unat t * ?hash \<le> ?S"
    by (rule less_eq_div_iff_mult_less_eq) simp
  finally show ?thesis .
qed

lemma difference_eq_iff:
  "a < b \<and> b - a = d \<longleftrightarrow> unat b = unat a + unat d \<and> 0 < d" for a b d :: u64
proof
  assume l: "a < b \<and> b - a = d"
  then have "unat a < unat b" by (simp add: word_less_nat_alt)
  then show "unat b = unat a + unat d \<and> 0 < d"
    using l by (auto simp: unat_sub_no_underflow word_less_nat_alt)
next
  assume r: "unat b = unat a + unat d \<and> 0 < d"
  then have "unat a < unat b" by (simp add: word_less_nat_alt)
  then show "a < b \<and> b - a = d"
    using r by (auto simp: word_less_nat_alt unat_sub_no_underflow word_unat_eq_iff)
qed

lemma IsPoWValid_True_iff:
  "IsPoWValid Blake2b env GetBlockHeader header prev = Some (Inr True) \<longleftrightarrow>
     h_totalDifficulty prev < h_totalDifficulty header \<and>
     (\<exists>m. GetMaximumDifficulty header = Inr m \<and> h_totalDifficulty header - h_totalDifficulty prev \<le> m) \<and>
     (\<exists>info. CalculateNextDifficulty env GetBlockHeader header = Inr info \<and>
        h_totalDifficulty header - h_totalDifficulty prev = hi_difficulty info \<and>
        h_scalingDifficulty header = hi_secondaryScaling info) \<and>
     validate_cycle Blake2b header = Some True"
  unfolding IsPoWValid_def
  by (auto simp: Let_def not_le not_less split: sum.split)

text \<open>
  C3. \<open>IsPoWValid\<close> accepts exactly the headers that carry the work they claim: the total difficulty
  exceeds the previous one by the (positive) difficulty the network computes, the scaling factor is the
  computed one, the hash of the proof meets that difficulty (\<open>difficulty * hash \<le> scaling * 2 ^ 64\<close>, as
  integers), and the verifier of the version and edge bits accepts the cycle.
\<close>

theorem IsPoWValid_iff:
  "IsPoWValid Blake2b env GetBlockHeader header prev = Some (Inr True) \<longleftrightarrow>
     scaling_defined header \<and>
     (\<exists>info. CalculateNextDifficulty env GetBlockHeader header = Inr info \<and>
       unat (h_totalDifficulty header) = unat (h_totalDifficulty prev) + unat (hi_difficulty info) \<and>
       0 < hi_difficulty info \<and> h_scalingDifficulty header = hi_secondaryScaling info \<and>
       unat (hi_difficulty info) * max 1 (unat (pow_hash64 (h_proofOfWork header)))
         \<le> pow_scaling header * 2 ^ 64) \<and>
     validate_cycle Blake2b header = Some True"
proof (cases "GetMaximumDifficulty header")
  case (Inl e)
  then show ?thesis by (simp add: IsPoWValid_True_iff GetMaximumDifficulty_defined)
next
  case (Inr m)
  then have scaling: "scaling_defined header" by (simp add: GetMaximumDifficulty_defined)
  let ?a = "h_totalDifficulty prev" and ?b = "h_totalDifficulty header"
  have "?a < ?b \<and> (\<exists>n. GetMaximumDifficulty header = Inr n \<and> ?b - ?a \<le> n) \<and> ?b - ?a = d \<longleftrightarrow>
      (unat ?b = unat ?a + unat d \<and> 0 < d) \<and>
      unat d * max 1 (unat (pow_hash64 (h_proofOfWork header))) \<le> pow_scaling header * 2 ^ 64" for d
    unfolding difference_eq_iff [symmetric] meets_difficulty [OF Inr, symmetric] using Inr by auto
  then show ?thesis
    unfolding IsPoWValid_True_iff using scaling by blast
qed

text \<open>
  C33. After the fourth hard fork only Cuckatoo proofs count: a header of version 5 or later is accepted exactly when its
  size is not the secondary one, its total difficulty goes up by the difficulty \<open>NextWTEMA\<close> prescribes, its proof reaches
  this difficulty, its scaling factor is 0 and its cycle is a valid Cuckatoo cycle. \<open>IsPoWValid\<close> still dispatches 29-bit proofs
  to Cuckarooz, but never accepts one, since the difficulty they can reach is 0.
\<close>

theorem IsPoWValid_v5_primary_only:
  assumes "5 \<le> h_version header"
  shows "IsPoWValid Blake2b env GetBlockHeader header prev = Some (Inr True) \<longleftrightarrow>
    pow_edgeBits (h_proofOfWork header) \<noteq> 29 \<and> h_totalDifficulty prev < h_totalDifficulty header \<and>
    (\<exists>info. NextWTEMA env GetBlockHeader header = Inr info \<and> hi_difficulty info = h_totalDifficulty header - h_totalDifficulty prev) \<and>
    (\<exists>m. GetMaximumDifficulty header = Inr m \<and> h_totalDifficulty header - h_totalDifficulty prev \<le> m) \<and>
    h_scalingDifficulty header = 0 \<and> Cuckatoo_Validate Blake2b header = Some True"
proof -
  have wtema: "CalculateNextDifficulty env GetBlockHeader header = NextWTEMA env GetBlockHeader header"
    using assms by (simp add: CalculateNextDifficulty_def not_le [symmetric])
  have scaling: "hi_secondaryScaling info = 0" if "NextWTEMA env GetBlockHeader header = Inr info" for info
    using that by (auto simp: NextWTEMA_def FromDiffAndScaling_def result_simps split: option.splits)
  have size: "pow_edgeBits (h_proofOfWork header) \<noteq> 29"
    if "GetMaximumDifficulty header = Inr m" "h_scalingDifficulty header = 0" "0 < m" for m
  proof
    assume "pow_edgeBits (h_proofOfWork header) = 29"
    then have "pow_scaling header = 0" using that(2) by (simp add: pow_scaling_def Let_def SECOND_POW_EDGE_BITS_def)
    then have "m = 0" using GetMaximumDifficulty_eq [OF that(1)] by (simp add: unat_eq_zero)
    with that(3) show False by simp
  qed
  have "0 < h_totalDifficulty header - h_totalDifficulty prev" if "h_totalDifficulty prev < h_totalDifficulty header"
    using that by (simp add: word_neq_0_conv [symmetric])
  then have "pow_edgeBits (h_proofOfWork header) \<noteq> 29"
    if "GetMaximumDifficulty header = Inr m" "h_totalDifficulty header - h_totalDifficulty prev \<le> m"
      "h_totalDifficulty prev < h_totalDifficulty header" "h_scalingDifficulty header = 0" for m
    using that size [of m] by (meson less_le_trans)
  moreover have "validate_cycle Blake2b header = Cuckatoo_Validate Blake2b header" if "pow_edgeBits (h_proofOfWork header) \<noteq> 29"
    using that by (simp add: validate_cycle_def)
  ultimately show ?thesis unfolding IsPoWValid_True_iff wtema using scaling by metis
qed

theorem IsPoWValid_v5_primary_only_witness:
  "IsPoWValid (\<lambda>_. []) MAINNET (\<lambda>_. None) (example_header 5 [1]) (example_header 5 [2]) \<noteq> Some (Inr True)"
proof -
  have "5 \<le> h_version (example_header 5 [1])" "pow_edgeBits (h_proofOfWork (example_header 5 [1])) = 29"
    by (simp_all add: example_header_def)
  then show ?thesis using IsPoWValid_v5_primary_only by blast
qed

text \<open>
  C32. The damped moving average. With a known previous header \<open>LoadDifficultyData\<close> yields the full window of 61 entries.
  The window took \<open>span\<close> seconds instead of the 3600 it should have; this is damped to 3600 plus a third of the deviation
  and clamped to between 1800 and 7200 seconds, and the next difficulty is the sum of the last 60 difficulties times 60 over
  this time, at least 3. So, whatever the timestamps are, it lies between half and twice the average of the 60.
\<close>

theorem NextDMA_window:
  assumes "GetBlockHeader (h_previousBlockHash header) = Some prev"
    and "LoadDifficultyData GetBlockHeader header = Inr d"
    and "60 * sum_list (map (\<lambda>info. unat (hi_difficulty info)) (tl d)) < 2 ^ 64"
  shows "length d = 61 \<and>
    (\<exists>info. NextDMA GetBlockHeader header = Inr info \<and>
      max 3 (sum_list (map (\<lambda>info. unat (hi_difficulty info)) (tl d)) div 120) \<le> unat (hi_difficulty info) \<and>
      unat (hi_difficulty info) \<le> max 3 (sum_list (map (\<lambda>info. unat (hi_difficulty info)) (tl d)) div 30) \<and>
      (\<forall>span < 2 ^ 63. unat (hi_timestamp (d ! 60) - hi_timestamp (d ! 0)) = span \<longrightarrow>
        unat (hi_difficulty info) =
          max 3 (sum_list (map (\<lambda>info. unat (hi_difficulty info)) (tl d)) * 60 div max 1800 (min ((span + 2 * 3600) div 3) 7200))))"
proof -
  have "length d = 61"
    using LoadDifficultyData_length [of GetBlockHeader header prev] assms(1,2)
    by (auto simp: numBlocksNeeded_eq)
  moreover obtain info where info: "NextDMA GetBlockHeader header = Inr info"
    "unat (hi_difficulty info) =
       max 3 (sum_list (map (\<lambda>info. unat (hi_difficulty info)) (tl d)) * 60 div unat (dma_adjusted_time d))"
    using NextDMA_eq [OF assms(2,3)] by blast
  moreover have "1800 \<le> unat (dma_adjusted_time d)" "unat (dma_adjusted_time d) \<le> 7200"
    using Clamp_window by (simp_all add: dma_adjusted_time_def Let_def)
  note adjusted_between [OF this, of "sum_list (map (\<lambda>info. unat (hi_difficulty info)) (tl d))"]
  ultimately show ?thesis using dma_adjusted_time_eq [of d] by (intro conjI exI [of _ info]) auto
qed

text \<open>With one known block the window is padded: all difficulties are 1000, and the window took an hour.\<close>

theorem NextDMA_window_witness:
  "let d = projr (LoadDifficultyData example_chain (example_header 1 [1]))
   in length d = 61 \<and> unat (hi_timestamp (d ! 60) - hi_timestamp (d ! 0)) = 3600 \<and>
    (\<exists>info. NextDMA example_chain (example_header 1 [1]) = Inr info \<and> unat (hi_difficulty info) = 1000)"
proof -
  let ?d = "projr (LoadDifficultyData example_chain (example_header 1 [1]))"
  have prev: "example_chain (h_previousBlockHash (example_header 1 [1])) = Some (example_header 1 [2])"
    by (simp add: example_chain_def example_header_def)
  have load: "LoadDifficultyData example_chain (example_header 1 [1]) = Inr ?d"
    using LoadDifficultyData_length [of example_chain "example_header 1 [1]" "example_header 1 [2]"] prev by auto
  let ?g = "\<lparr>hi_timestamp = 1546569600, hi_difficulty = 1000, hi_secondaryScaling = 1856, hi_secondary = True\<rparr>"
  have "load_loop example_chain (Suc (Suc 59)) (Some (example_header 1 [2])) = [?g]"
    by (simp only: load_loop.simps Let_def)
      (simp add: example_chain_def example_header_def ProofOfWork_IsSecondary_def SECOND_POW_EDGE_BITS_def)
  then have "load_loop example_chain 61 (Some (example_header 1 [2])) = [?g]" by simp
  then have d: "?d = rev (?g # pad_loop 60 1546569600 60 1000)"
    using prev
    by (simp add: LoadDifficultyData_def PadDifficultyData_def numBlocksNeeded_eq BLOCK_TIME_SEC_def)
  have data: "map (\<lambda>info. unat (hi_difficulty info)) (tl ?d) = replicate 60 1000"
    "unat (hi_timestamp (?d ! 60) - hi_timestamp (?d ! 0)) = 3600"
    unfolding d by code_simp+
  have sum: "sum_list (map (\<lambda>info. unat (hi_difficulty info)) (tl ?d)) = 60000" unfolding data(1) by (simp add: sum_list_replicate)
  then have small: "60 * sum_list (map (\<lambda>info. unat (hi_difficulty info)) (tl ?d)) < 2 ^ 64" by simp
  from NextDMA_window [of example_chain "example_header 1 [1]", OF prev load small] data(2) sum show ?thesis
    unfolding Let_def by fastforce
qed

text \<open>
  The exponential moving average reacts in the right direction and never stalls: a block time of exactly
  60 seconds keeps the difficulty, a slower block does not raise it, and a faster one raises it strictly.
  The claim of the comment in \<open>NextWTEMA\<close>, that the minimum difficulty of the main network makes
  the difficulty increase on a 59 second block, is the last conjunct.
\<close>

theorem wtema_reacts:
  assumes "unat t < 2 ^ 63" "unat d * 14400 < 2 ^ 64" "min_wtema_graph_weight MAINNET \<le> d"
  shows "\<exists>r. wtema_difficulty MAINNET d t = Inr r \<and> (t = 60 \<longrightarrow> r = d) \<and> (60 \<le> t \<longrightarrow> r \<le> d) \<and>
    (t \<le> 59 \<longrightarrow> d < r)"
proof -
  have min: "unat (min_wtema_graph_weight MAINNET) = 16384"
    by (simp add: min_wtema_graph_weight_def C32_GRAPH_WEIGHT_def push_bit_eq_mult)
  then have d: "16384 \<le> unat d" using assms(3) by (simp add: word_le_nat_alt)
  obtain r where r: "wtema_difficulty MAINNET d t = Inr r"
    "unat r = max 16384 (unat d * 14400 div (14340 + unat t))"
    using wtema_difficulty_eq [OF assms(1,2), of MAINNET] min by auto
  have "t = 60 \<Longrightarrow> r = d" using r(2) d wtema_quotient(1) [of "unat t" "unat d"] by (simp add: word_unat_eq_iff)
  moreover have "60 \<le> t \<Longrightarrow> r \<le> d"
    using r(2) d wtema_quotient(3) [of "unat t" "unat d"] by (simp add: word_le_nat_alt)
  moreover have "t \<le> 59 \<Longrightarrow> d < r"
    using r(2) d wtema_quotient(2) [of "unat t" "unat d"] by (simp add: word_le_nat_alt word_less_nat_alt)
  ultimately show ?thesis using r(1) by blast
qed

theorem wtema_reacts_witness:
  "\<exists>r. wtema_difficulty MAINNET 16384 59 = Inr r \<and> (59 = (60 :: u64) \<longrightarrow> r = 16384) \<and>
    (60 \<le> (59 :: u64) \<longrightarrow> r \<le> 16384) \<and> (59 \<le> (59 :: u64) \<longrightarrow> 16384 < r)"
  by (rule wtema_reacts) (simp_all add: min_wtema_graph_weight_def C32_GRAPH_WEIGHT_def)

end
