(* ===== verification/Caches.thy ===== *)
theory Caches
  imports Prelude
begin

text \<open>
  The fixed-size cache that the node's components share (\<^verbatim>\<open>deps/caches/include/cache.hpp\<close>) with its two
  policies: the pairs in the order of the policy's queue, newest first. Under the least-recently-used policy
  (\<^verbatim>\<open>lru_cache_policy.hpp\<close>) \<open>Get\<close> and \<open>Put\<close> move the key to the front; under the first-in-first-out policy
  (\<^verbatim>\<open>fifo_cache_policy.hpp\<close>) they do not. A \<open>Put\<close> of a new key into a full cache drops the last pair.
\<close>

record ('k, 'v) fixed_sized_cache =
  max_cache_size :: nat
  cache_items :: "('k \<times> 'v) list"

definition Cache_New :: "nat \<Rightarrow> ('k, 'v) fixed_sized_cache" where
  "Cache_New max_size = \<lparr>max_cache_size = max_size, cache_items = []\<rparr>"

definition Cached :: "('k, 'v) fixed_sized_cache \<Rightarrow> 'k \<Rightarrow> bool" where
  "Cached cache key = (map_of (cache_items cache) key \<noteq> None)"

definition Touch :: "'k \<Rightarrow> 'v \<Rightarrow> ('k \<times> 'v) list \<Rightarrow> ('k \<times> 'v) list" where
  "Touch key val items = (key, val) # filter (\<lambda>(k, v). k \<noteq> key) items"

definition Cache_Get :: "('k, 'v) fixed_sized_cache \<Rightarrow> 'k \<Rightarrow> ('v \<times> ('k, 'v) fixed_sized_cache) result" where
  "Cache_Get cache key =
     (case map_of (cache_items cache) key of
        None \<Rightarrow> Inl StdException
      | Some val \<Rightarrow> Inr (val, cache\<lparr>cache_items := Touch key val (cache_items cache)\<rparr>))"

definition Cache_Put :: "'k \<Rightarrow> 'v \<Rightarrow> ('k, 'v) fixed_sized_cache \<Rightarrow> ('k, 'v) fixed_sized_cache" where
  "Cache_Put key val cache =
     (if Cached cache key then cache\<lparr>cache_items := Touch key val (cache_items cache)\<rparr>
      else
        let items = (if max_cache_size cache < length (cache_items cache) + 1
                     then butlast (cache_items cache) else cache_items cache)
        in cache\<lparr>cache_items := (key, val) # items\<rparr>)"

definition FIFO_Get :: "('k, 'v) fixed_sized_cache \<Rightarrow> 'k \<Rightarrow> 'v result" where
  "FIFO_Get cache key =
     (case map_of (cache_items cache) key of None \<Rightarrow> Inl StdException | Some val \<Rightarrow> Inr val)"

definition FIFO_Put :: "'k \<Rightarrow> 'v \<Rightarrow> ('k, 'v) fixed_sized_cache \<Rightarrow> ('k, 'v) fixed_sized_cache" where
  "FIFO_Put key val cache =
     (if Cached cache key
      then cache\<lparr>cache_items := map (\<lambda>(k, v). (k, if k = key then val else v)) (cache_items cache)\<rparr>
      else
        let items = (if max_cache_size cache < length (cache_items cache) + 1
                     then butlast (cache_items cache) else cache_items cache)
        in cache\<lparr>cache_items := (key, val) # items\<rparr>)"

definition cache_inv :: "('k, 'v) fixed_sized_cache \<Rightarrow> bool" where
  "cache_inv cache \<longleftrightarrow>
     0 < max_cache_size cache \<and> distinct (map fst (cache_items cache)) \<and>
     length (cache_items cache) \<le> max_cache_size cache"

lemma map_of_filter_other: "x \<noteq> key \<Longrightarrow> map_of (filter (\<lambda>(k, v). k \<noteq> key) items) x = map_of items x"
  by (induction items) auto

lemma Touch_map_of: "map_of (Touch key val items) = (map_of items)(key \<mapsto> val)"
  by (rule ext) (simp add: Touch_def map_of_filter_other)

lemma distinct_Touch: "distinct (map fst items) \<Longrightarrow> distinct (map fst (Touch key val items))"
  by (induction items) (auto simp: Touch_def)

lemma filter_key_length:
  "distinct (map fst items) \<Longrightarrow> map_of items key = Some w \<Longrightarrow>
   Suc (length (filter (\<lambda>(k, v). k \<noteq> key) items)) = length items"
proof (induction items)
  case (Cons kv items)
  show ?case
  proof (cases "fst kv = key")
    case True
    with Cons.prems have "filter (\<lambda>(k, v). k \<noteq> key) items = items"
      by (auto simp: filter_id_conv image_iff split: prod.split)
    moreover have "\<not> (case kv of (k, v) \<Rightarrow> k \<noteq> key)" using True by (cases kv) simp
    ultimately show ?thesis by simp
  next
    case False
    with Cons show ?thesis by (auto simp: split_beta)
  qed
qed simp

lemma Cache_New_inv: "0 < max_size \<Longrightarrow> cache_inv (Cache_New max_size)"
  by (simp add: cache_inv_def Cache_New_def)

lemma Cache_Get_inv: "cache_inv cache \<Longrightarrow> Cache_Get cache key = Inr (val, cache') \<Longrightarrow> cache_inv cache'"
  using filter_key_length [of "cache_items cache" key]
  by (auto simp: cache_inv_def Cache_Get_def distinct_Touch split: option.splits) (simp add: Touch_def)

lemma Cache_Put_inv:
  assumes "cache_inv cache"
  shows "cache_inv (Cache_Put key val cache)"
proof (cases "Cached cache key")
  case True
  with assms filter_key_length [of "cache_items cache" key] show ?thesis
    by (auto simp: cache_inv_def Cache_Put_def Cached_def distinct_Touch) (simp add: Touch_def)
next
  case False
  then have "key \<notin> set (map fst (cache_items cache))"
    by (simp add: Cached_def map_of_eq_None_iff)
  moreover have "set (map fst (butlast xs)) \<subseteq> set (map fst xs)" for xs :: "('a \<times> 'b) list"
    using in_set_butlastD by fastforce
  ultimately show ?thesis
    using assms False
    by (auto simp: cache_inv_def Cache_Put_def Let_def map_butlast distinct_butlast dest: in_set_butlastD)
qed

lemma Cache_Put_Get:
  "\<exists>cache'. Cache_Get (Cache_Put key val cache) key = Inr (val, cache')"
  by (auto simp: Cache_Get_def Cache_Put_def Touch_map_of Let_def)

lemma FIFO_Put_inv:
  assumes "cache_inv cache"
  shows "cache_inv (FIFO_Put key val cache)"
proof (cases "Cached cache key")
  case True
  have "map fst (map (\<lambda>(k, v). (k, if k = key then val else v)) xs) = map fst xs" for xs
    by (induction xs) auto
  then show ?thesis using assms True by (simp add: cache_inv_def FIFO_Put_def del: map_map)
next
  case False
  then have "FIFO_Put key val cache = Cache_Put key val cache" by (simp add: FIFO_Put_def Cache_Put_def)
  then show ?thesis using Cache_Put_inv [OF assms] by simp
qed

lemma map_of_replace:
  "map_of (map (\<lambda>(k, v). (k, if k = key then val else v)) items) x =
     (if x = key then map_option (\<lambda>_. val) (map_of items x) else map_of items x)"
  by (induction items) auto

text \<open>What is in the cache after a \<open>Put\<close> was there before or is the new pair.\<close>

lemma FIFO_Put_lookup:
  assumes "distinct (map fst (cache_items cache))" "map_of (cache_items (FIFO_Put key val cache)) x = Some v"
  shows "(x = key \<and> v = val) \<or> (x \<noteq> key \<and> map_of (cache_items cache) x = Some v)"
proof -
  have "map_of (butlast xs) x = Some v \<Longrightarrow> map_of xs x = Some v" if "distinct (map fst xs)" for xs
    using that by (cases xs rule: rev_cases) (auto simp: map_add_def map_of_eq_None_iff dom_map_of_conv_image_fst
        split: option.splits dest: map_of_SomeD)
  then show ?thesis
    using assms by (auto simp: FIFO_Put_def map_of_replace Let_def Cached_def split: if_splits)
qed

end
