(* ===== verification/Validation.thy ===== *)
theory Validation
  imports Difficulty Caches
begin

text \<open>
  The validators (\<^verbatim>\<open>include/Core/Validation\<close>, \<^verbatim>\<open>src/Core/Validation\<close>, \<^verbatim>\<open>src/BlockChain/Validators\<close>) and
  the parts of \<^verbatim>\<open>src/Crypto\<close> they go through: sums of commitments, range proofs with their cache,
  kernel signatures.

  The functions of the secp256k1-zkp library are the fields of the record \<open>secp\<close>; \<open>None\<close> is a result
  other than 1. A validator that throws returns \<open>Inl\<close>; where it also changes the cache of verified range
  proofs, the cache is returned beside the result, since it keeps its changes when a later check throws.
\<close>

section \<open>The library functions and their wrappers\<close>

record secp =
  pedersen_commit :: "bytes \<Rightarrow> u64 \<Rightarrow> bytes option"
  pedersen_commit_sum :: "bytes list \<Rightarrow> bytes list \<Rightarrow> bytes option"
  rangeproof_verify_multi :: "bytes list \<Rightarrow> bytes list \<Rightarrow> bool option"
  schnorrsig_verify_batch :: "bytes list \<Rightarrow> bytes list \<Rightarrow> bytes list \<Rightarrow> bool"

definition or_throw :: "exn \<Rightarrow> 'a option \<Rightarrow> 'a result" where
  "or_throw e r = (case r of None \<Rightarrow> Inl e | Some x \<Rightarrow> Inr x)"

definition require :: "bool \<Rightarrow> exn \<Rightarrow> unit result" where
  "require c e = (if c then Inr () else Inl e)"

definition CommitTransparent :: "secp \<Rightarrow> u64 \<Rightarrow> bytes result" where
  "CommitTransparent s val = or_throw CryptoException (pedersen_commit s (BigInteger_ValueOf 32 0) val)"

definition CommitBlinded :: "secp \<Rightarrow> u64 \<Rightarrow> bytes \<Rightarrow> bytes result" where
  "CommitBlinded s val blindingFactor = or_throw CryptoException (pedersen_commit s blindingFactor val)"

definition AddCommitments :: "secp \<Rightarrow> bytes list \<Rightarrow> bytes list \<Rightarrow> bytes result" where
  "AddCommitments s positive negative =
     (let zeroCommitment = BigInteger_ValueOf 33 0
      in or_throw CryptoException
           (pedersen_commit_sum s (filter (\<lambda>c. \<not> BigInteger_equal c zeroCommitment) positive)
              (filter (\<lambda>c. \<not> BigInteger_equal c zeroCommitment) negative)))"

type_synonym proof_cache = "(bytes, bytes) fixed_sized_cache"

definition AddToCache :: "bytes \<Rightarrow> proof_cache \<Rightarrow> proof_cache" where
  "AddToCache commitment cache = Cache_Put commitment commitment cache"

definition WasAlreadyVerified :: "proof_cache \<Rightarrow> bytes \<Rightarrow> bool \<times> proof_cache" where
  "WasAlreadyVerified cache commitment =
     (case Cache_Get cache commitment of
        Inl e \<Rightarrow> (False, cache)
      | Inr (c, cache) \<Rightarrow> (BigInteger_equal c commitment, cache))"

fun collect_unverified ::
  "proof_cache \<Rightarrow> (bytes \<times> bytes) list \<Rightarrow> (bytes \<times> bytes) list \<times> proof_cache" where
  "collect_unverified cache [] = ([], cache)"
| "collect_unverified cache ((commitment, proof) # rangeProofs) =
     (let (verified, cache) = WasAlreadyVerified cache commitment;
          (rest, cache) = collect_unverified cache rangeProofs
      in (if verified then rest else (commitment, proof) # rest, cache))"

text \<open>The proof length is read from \<open>rangeProofs.front()\<close>, which does not exist for an empty vector.\<close>

definition VerifyBulletproofs ::
  "secp \<Rightarrow> proof_cache \<Rightarrow> (bytes \<times> bytes) list \<Rightarrow> bool result \<times> proof_cache" where
  "VerifyBulletproofs s cache rangeProofs =
     (if rangeProofs = [] then (Inl Undefined, cache)
      else
        let (unverified, cache) = collect_unverified cache rangeProofs
        in if unverified = [] then (Inr True, cache)
           else case rangeproof_verify_multi s (map fst unverified) (map snd unverified) of
                  None \<Rightarrow> (Inl CryptoException, cache)
                | Some False \<Rightarrow> (Inr False, cache)
                | Some True \<Rightarrow> (Inr True, fold AddToCache (map fst unverified) cache))"

definition VerifyKernelSignatures :: "secp \<Rightarrow> bytes list \<Rightarrow> bytes list \<Rightarrow> bytes list \<Rightarrow> bool" where
  "VerifyKernelSignatures s signatures commitments messages =
     schnorrsig_verify_batch s signatures messages commitments"

section \<open>Kernel sums\<close>

definition COMMITMENT_SUM_CHUNK_SIZE :: nat where "COMMITMENT_SUM_CHUNK_SIZE = 65536"

text \<open>The loop of \<open>AppendChunkSums\<close>: \<open>chunk\<close> holds the commitments not yet summed.\<close>

fun chunk_sums :: "secp \<Rightarrow> nat \<Rightarrow> bytes list \<Rightarrow> bytes list \<Rightarrow> bytes list result" where
  "chunk_sums s chunk_size chunk [] =
     (if chunk = [] then Inr [] else rbind (AddCommitments s chunk []) (\<lambda>c. Inr [c]))"
| "chunk_sums s chunk_size chunk (commitment # commitments) =
     (let chunk = chunk @ [commitment]
      in if chunk_size \<le> length chunk then
           rbind (AddCommitments s chunk []) (\<lambda>c.
           rbind (chunk_sums s chunk_size [] commitments) (\<lambda>cs. Inr (c # cs)))
         else chunk_sums s chunk_size chunk commitments)"

definition AppendChunkSums :: "secp \<Rightarrow> bytes list \<Rightarrow> bytes list \<Rightarrow> bytes list result" where
  "AppendChunkSums s commitments additionalCommitments =
     chunk_sums s COMMITMENT_SUM_CHUNK_SIZE [] (commitments @ additionalCommitments)"

definition AddCommitmentsChunked ::
  "secp \<Rightarrow> bytes list \<Rightarrow> bytes list \<Rightarrow> bytes list \<Rightarrow> bytes list \<Rightarrow> bytes result" where
  "AddCommitmentsChunked s positive negative additionalPositive additionalNegative =
     (let total = length positive + length additionalPositive + (length negative + length additionalNegative)
      in if total \<le> COMMITMENT_SUM_CHUNK_SIZE
         then AddCommitments s (positive @ additionalPositive) (negative @ additionalNegative)
         else
           rbind (AppendChunkSums s positive additionalPositive) (\<lambda>positivePartials.
           rbind (AppendChunkSums s negative additionalNegative) (\<lambda>negativePartials.
             AddCommitments s positivePartials negativePartials)))"

definition AddKernelOffset :: "secp \<Rightarrow> bytes \<Rightarrow> bytes \<Rightarrow> bytes result" where
  "AddKernelOffset s kernelSum totalKernelOffset =
     (if BigInteger_equal totalKernelOffset (BigInteger_ValueOf 32 0) then Inr kernelSum
      else rbind (CommitBlinded s 0 totalKernelOffset) (\<lambda>offset_commit.
             AddCommitments s [kernelSum, offset_commit] []))"

definition overage_commitments :: "secp \<Rightarrow> 64 word \<Rightarrow> (bytes list \<times> bytes list) result" where
  "overage_commitments s overage =
     (if 0 < sint overage then rbind (CommitTransparent s overage) (\<lambda>c. Inr ([c], []))
      else if sint overage < 0 then rbind (CommitTransparent s (0 - overage)) (\<lambda>c. Inr ([], [c]))
      else Inr ([], []))"

definition ValidateKernelSums ::
  "secp \<Rightarrow> bytes list \<Rightarrow> bytes list \<Rightarrow> bytes list \<Rightarrow> 64 word \<Rightarrow> bytes \<Rightarrow> BlockSums option \<Rightarrow>
   BlockSums result" where
  "ValidateKernelSums s inputs outputs kernels overage kernelOffset blockSumsOpt =
     rbind (overage_commitments s overage) (\<lambda>(overOutputs, additionalInputs).
       let additionalOutputs =
             overOutputs @ (case blockSumsOpt of None \<Rightarrow> [] | Some sums \<Rightarrow> [bs_outputSum sums]);
           additionalKernels = (case blockSumsOpt of None \<Rightarrow> [] | Some sums \<Rightarrow> [bs_kernelSum sums])
       in rbind (AddCommitmentsChunked s outputs inputs additionalOutputs additionalInputs) (\<lambda>utxoSum.
          rbind (AddCommitmentsChunked s kernels [] additionalKernels []) (\<lambda>kernelSum.
          rbind (AddKernelOffset s kernelSum kernelOffset) (\<lambda>kernelSumPlusOffset.
            if \<not> BigInteger_equal utxoSum kernelSumPlusOffset then Inl BadDataException
            else Inr \<lparr>bs_outputSum = utxoSum, bs_kernelSum = kernelSum\<rparr>))))"

definition ValidateKernelSums_body ::
  "secp \<Rightarrow> TransactionBody \<Rightarrow> 64 word \<Rightarrow> bytes \<Rightarrow> BlockSums option \<Rightarrow> BlockSums result" where
  "ValidateKernelSums_body s body overage kernelOffset blockSumsOpt =
     ValidateKernelSums s (map i_commitment (b_inputs body)) (map o_commitment (b_outputs body))
       (map k_excessCommitment (b_kernels body)) overage kernelOffset blockSumsOpt"

section \<open>Transaction bodies\<close>

fun adjacent :: "('a \<Rightarrow> 'a \<Rightarrow> bool) \<Rightarrow> 'a list \<Rightarrow> bool" where
  "adjacent r (x # y # zs) = (r y x \<or> adjacent r (y # zs))"
| "adjacent r _ = False"

abbreviation hash_gt :: "bytes \<Rightarrow> bytes \<Rightarrow> bool" where
  "hash_gt a b \<equiv> BigInteger_less b a"

definition Output_equal :: "(bytes \<Rightarrow> bytes) \<Rightarrow> TransactionOutput \<Rightarrow> TransactionOutput \<Rightarrow> bool" where
  "Output_equal Blake2b a b = BigInteger_equal (Output_GetHash Blake2b a) (Output_GetHash Blake2b b)"

definition VerifySorted :: "(bytes \<Rightarrow> bytes) \<Rightarrow> TransactionBody \<Rightarrow> unit result" where
  "VerifySorted Blake2b body =
     rbind (require (IsSorted (Input_GetHash Blake2b) hash_gt (b_inputs body) \<and>
                     IsSorted (Output_GetHash Blake2b) hash_gt (b_outputs body) \<and>
                     IsSorted (Kernel_GetHash Blake2b) hash_gt (b_kernels body)) BadDataException) (\<lambda>_.
     rbind (require (\<not> adjacent Input_equal (b_inputs body)) BadDataException) (\<lambda>_.
       require (\<not> adjacent (Output_equal Blake2b) (b_outputs body)) BadDataException))"

definition VerifyCutThrough :: "TransactionBody \<Rightarrow> unit result" where
  "VerifyCutThrough body =
     (let output_commits = set (map o_commitment (b_outputs body))
      in require (\<not> list_ex (\<lambda>i. i_commitment i \<in> output_commits) (b_inputs body)) BadDataException)"

definition VerifyRangeProofs ::
  "secp \<Rightarrow> proof_cache \<Rightarrow> TransactionOutput list \<Rightarrow> unit result \<times> proof_cache" where
  "VerifyRangeProofs s cache outputs =
     (let (r, cache) = VerifyBulletproofs s cache (map (\<lambda>out. (o_commitment out, o_rangeProof out)) outputs)
      in (rbind r (\<lambda>valid. require valid BadDataException), cache))"

definition BatchVerify :: "secp \<Rightarrow> (bytes \<Rightarrow> bytes) \<Rightarrow> TransactionKernel list \<Rightarrow> bool" where
  "BatchVerify s Blake2b kernels =
     (kernels = [] \<or>
      VerifyKernelSignatures s (map k_excessSignature kernels) (map k_excessCommitment kernels)
        (map (GetSignatureMessage Blake2b) kernels))"

definition TxBodyValidator_Validate ::
  "secp \<Rightarrow> (bytes \<Rightarrow> bytes) \<Rightarrow> proof_cache \<Rightarrow> TransactionBody \<Rightarrow> unit result \<times> proof_cache" where
  "TxBodyValidator_Validate s Blake2b cache body =
     (case rbind (VerifySorted Blake2b body) (\<lambda>_. VerifyCutThrough body) of
        Inl e \<Rightarrow> (Inl e, cache)
      | Inr _ \<Rightarrow>
          let (r, cache) = VerifyRangeProofs s cache (b_outputs body)
          in (rbind r (\<lambda>_. require (BatchVerify s Blake2b (b_kernels body)) BadDataException), cache))"

section \<open>Transactions\<close>

definition ValidateWeight :: "Environment \<Rightarrow> TransactionBody \<Rightarrow> u64 \<Rightarrow> unit result" where
  "ValidateWeight env body block_height =
     (let weight = CalcWeight env body block_height;
          reserve_weight = OUTPUT_WEIGHT + KERNEL_WEIGHT
      in require (\<not> MAX_BLOCK_WEIGHT < weight + reserve_weight) BadDataException)"

definition ValidateFeatures :: "TransactionBody \<Rightarrow> unit result" where
  "ValidateFeatures body =
     rbind (require (\<not> list_ex Output_IsCoinbase (b_outputs body)) BadDataException) (\<lambda>_.
       require (\<not> list_ex Kernel_IsCoinbase (b_kernels body)) BadDataException)"

definition rethrow_bad_data :: "'a result \<Rightarrow> 'a result" where
  "rethrow_bad_data r = (case r of Inl Undefined \<Rightarrow> Inl Undefined | Inl e \<Rightarrow> Inl BadDataException | Inr x \<Rightarrow> Inr x)"

definition Transaction_ValidateKernelSums :: "secp \<Rightarrow> Transaction \<Rightarrow> unit result" where
  "Transaction_ValidateKernelSums s tx =
     (let overage = foldl (\<lambda>overage kernel. overage + fee_value (k_fee kernel)) 0 (b_kernels (tx_body tx))
      in rbind (rethrow_bad_data (ValidateKernelSums_body s (tx_body tx) overage (tx_offset tx) None))
           (\<lambda>_. Inr ()))"

definition TransactionValidator_Validate ::
  "secp \<Rightarrow> (bytes \<Rightarrow> bytes) \<Rightarrow> Environment \<Rightarrow> proof_cache \<Rightarrow> Transaction \<Rightarrow> u64 \<Rightarrow>
   unit result \<times> proof_cache" where
  "TransactionValidator_Validate s Blake2b env cache tx block_height =
     (case ValidateWeight env (tx_body tx) block_height of
        Inl e \<Rightarrow> (Inl e, cache)
      | Inr _ \<Rightarrow>
          let (r, cache) = TxBodyValidator_Validate s Blake2b cache (tx_body tx)
          in (rbind r (\<lambda>_. rbind (ValidateFeatures (tx_body tx)) (\<lambda>_. Transaction_ValidateKernelSums s tx)), cache))"

section \<open>Blocks\<close>

definition VerifyWeight :: "Environment \<Rightarrow> FullBlock \<Rightarrow> unit result" where
  "VerifyWeight env block =
     require (\<not> MAX_BLOCK_WEIGHT < CalcWeight env (fb_body block) (h_height (fb_header block))) BadDataException"

definition VerifyKernelLockHeights :: "FullBlock \<Rightarrow> unit result" where
  "VerifyKernelLockHeights block =
     (let blockHeight = h_height (fb_header block)
      in require (\<not> list_ex (\<lambda>k. blockHeight < k_lockHeight k) (b_kernels (fb_body block))) BadDataException)"

definition VerifyBody ::
  "secp \<Rightarrow> (bytes \<Rightarrow> bytes) \<Rightarrow> proof_cache \<Rightarrow> FullBlock \<Rightarrow> unit result \<times> proof_cache" where
  "VerifyBody s Blake2b cache block =
     (let (r, cache) = TxBodyValidator_Validate s Blake2b cache (fb_body block)
      in (rethrow_bad_data r, cache))"

definition VerifyCoinbase :: "secp \<Rightarrow> FullBlock \<Rightarrow> unit result" where
  "VerifyCoinbase s block =
     (let coinbaseCommitments = map o_commitment (filter Output_IsCoinbase (b_outputs (fb_body block)));
          coinbaseKernelExcesses = map k_excessCommitment (filter Kernel_IsCoinbase (b_kernels (fb_body block)));
          reward = REWARD + CalcFee (fb_body block)
      in rbind (CommitTransparent s reward) (\<lambda>over.
         rbind (AddCommitments s coinbaseCommitments [over]) (\<lambda>outputAdjustedSum.
         rbind (AddCommitments s coinbaseKernelExcesses []) (\<lambda>kernelSum.
           require (BigInteger_equal kernelSum outputAdjustedSum) BadDataException))))"

text \<open>The flag \<open>validated\<close> is the member \<open>m_validated\<close> of the block.\<close>

definition VerifySelfConsistent ::
  "secp \<Rightarrow> (bytes \<Rightarrow> bytes) \<Rightarrow> Environment \<Rightarrow> proof_cache \<Rightarrow> FullBlock \<Rightarrow> bool \<Rightarrow>
   unit result \<times> proof_cache \<times> bool" where
  "VerifySelfConsistent s Blake2b env cache block validated =
     (if validated then (Inr (), cache, True)
      else case rbind (VerifyWeight env block) (\<lambda>_. VerifyKernelLockHeights block) of
             Inl e \<Rightarrow> (Inl e, cache, False)
           | Inr _ \<Rightarrow>
               let (r, cache) = VerifyBody s Blake2b cache block;
                   r = rbind r (\<lambda>_. VerifyCoinbase s block)
               in (r, cache, r = Inr ()))"

section \<open>Headers\<close>

text \<open>
  The root of the header MMR at a height is an argument, as is the current time in ticks. Timestamps are
  compared as signed integers. \<open>None\<close> is a proof of work whose verification does not return.
\<close>

definition Header_IsPoWValid ::
  "(bytes \<Rightarrow> bytes) \<Rightarrow> Environment \<Rightarrow> (bytes \<rightharpoonup> BlockHeader) \<Rightarrow> BlockHeader \<Rightarrow> BlockHeader \<Rightarrow>
   bool result option" where
  "Header_IsPoWValid Blake2b env GetBlockHeader header prev_header =
     (if env = AUTOMATED_TESTING then Some (Inr True)
      else IsPoWValid Blake2b env GetBlockHeader header prev_header)"

definition BlockHeaderValidator_Validate ::
  "(bytes \<Rightarrow> bytes) \<Rightarrow> Environment \<Rightarrow> u64 \<Rightarrow> u64 \<Rightarrow> (bytes \<rightharpoonup> BlockHeader) \<Rightarrow> (u64 \<Rightarrow> bytes) \<Rightarrow>
   BlockHeader \<Rightarrow> BlockHeader \<Rightarrow> unit result option" where
  "BlockHeaderValidator_Validate Blake2b env ticksPerSecond now GetBlockHeader Root header prev_header =
     (if h_height header \<noteq> h_height prev_header + 1 then Some (Inl BadDataException)
      else if sint (GetMaxBlockTime ticksPerSecond now) < sint (h_timestamp header) then Some (Inl BadDataException)
      else if h_version header \<noteq> GetHeaderVersion env (h_height header) then Some (Inl BadDataException)
      else if sint (h_timestamp header) \<le> sint (h_timestamp prev_header) then Some (Inl BadDataException)
      else case Header_IsPoWValid Blake2b env GetBlockHeader header prev_header of
             None \<Rightarrow> None
           | Some (Inl e) \<Rightarrow> Some (Inl e)
           | Some (Inr validPoW) \<Rightarrow>
               if \<not> validPoW then Some (Inl BadDataException)
               else if \<not> BigInteger_equal (Root (h_height header - 1)) (h_previousRoot header)
               then Some (Inl BadDataException)
               else Some (Inr ()))"

section \<open>Sums of commitments\<close>

text \<open>
  What the library documents of its commitments, for a group of values: a commitment has 33 bytes, a
  successful sum commits to the sum of the values, and \<open>pedersen_commit\<close> to the value \<open>com blind v\<close>.
\<close>

definition commitment_laws :: "secp \<Rightarrow> (bytes \<Rightarrow> 'g :: ab_group_add) \<Rightarrow> (bytes \<Rightarrow> u64 \<Rightarrow> 'g) \<Rightarrow> bool" where
  "commitment_laws s val com \<longleftrightarrow>
     val (BigInteger_ValueOf 33 0) = 0 \<and>
     (\<forall>ps ns c. pedersen_commit_sum s ps ns = Some c \<longrightarrow>
        length c = 33 \<and> val c = sum_list (map val ps) - sum_list (map val ns)) \<and>
     (\<forall>b v c. pedersen_commit s b v = Some c \<longrightarrow> length c = 33 \<and> val c = com b v)"

abbreviation commitments :: "bytes list \<Rightarrow> bool" where
  "commitments cs \<equiv> list_all (\<lambda>c. length c = 33) cs"

lemma length_ValueOf [simp]: "length (BigInteger_ValueOf n v) = n"
  by (simp add: BigInteger_ValueOf_def)

lemma sum_filter_zero:
  assumes "val (BigInteger_ValueOf 33 0) = (0 :: 'g :: ab_group_add)" "commitments cs"
  shows "sum_list (map val (filter (\<lambda>c. \<not> BigInteger_equal c (BigInteger_ValueOf 33 0)) cs)) = sum_list (map val cs)"
  using assms by (induction cs) (auto simp: BigInteger_equal_iff)

lemma or_throw_Inr [simp]: "or_throw e r = Inr x \<longleftrightarrow> r = Some x"
  by (simp add: or_throw_def split: option.split)

lemma require_Inr [simp]: "require c e = Inr u \<longleftrightarrow> c"
  by (simp add: require_def)

lemma require_True [simp]: "require True e = Inr ()"
  by (simp add: require_def)

lemma AddCommitments_val:
  assumes "commitment_laws s val com" "commitments ps" "commitments ns" "AddCommitments s ps ns = Inr c"
  shows "length c = 33" "val c = sum_list (map val ps) - sum_list (map val ns)"
proof -
  let ?f = "filter (\<lambda>c. \<not> BigInteger_equal c (BigInteger_ValueOf 33 0))"
  have "pedersen_commit_sum s (?f ps) (?f ns) = Some c"
    using assms(4) by (simp add: AddCommitments_def Let_def)
  then have "length c = 33 \<and> val c = sum_list (map val (?f ps)) - sum_list (map val (?f ns))"
    and zero: "val (BigInteger_ValueOf 33 0) = 0"
    using assms(1) unfolding commitment_laws_def by blast+
  then show "length c = 33" "val c = sum_list (map val ps) - sum_list (map val ns)"
    using sum_filter_zero [of val ps, OF zero assms(2)] sum_filter_zero [of val ns, OF zero assms(3)] by simp_all
qed

lemma chunk_sums_val:
  assumes "commitment_laws s val com" "commitments chunk" "commitments cs" "chunk_sums s n chunk cs = Inr ps"
  shows "commitments ps \<and> sum_list (map val ps) = sum_list (map val chunk) + sum_list (map val cs)"
  using assms(2-4)
proof (induction cs arbitrary: chunk ps)
  case Nil
  show ?case
  proof (cases "chunk = []")
    case True
    then show ?thesis using Nil by simp
  next
    case False
    then obtain x where x: "AddCommitments s chunk [] = Inr x" "ps = [x]"
      using Nil.prems(3) by (simp add: result_simps) blast
    then show ?thesis using AddCommitments_val [OF assms(1) Nil.prems(1) _ x(1)] by simp
  qed
next
  case (Cons c cs)
  let ?chunk = "chunk @ [c]"
  have cs: "commitments ?chunk" "commitments cs" using Cons.prems by simp_all
  show ?case
  proof (cases "n \<le> length ?chunk")
    case True
    then obtain x ps' where x: "AddCommitments s ?chunk [] = Inr x" and rest: "chunk_sums s n [] cs = Inr ps'"
      and ps: "ps = x # ps'"
      using Cons.prems(3) by (simp add: Let_def result_simps) blast
    have "length x = 33" "val x = sum_list (map val ?chunk)"
      using AddCommitments_val [OF assms(1) cs(1) _ x] by simp_all
    with Cons.IH [OF _ cs(2) rest] ps show ?thesis by (simp add: algebra_simps)
  next
    case False
    then have "chunk_sums s n ?chunk cs = Inr ps" using Cons.prems(3) by (simp add: Let_def)
    from Cons.IH [OF cs this] show ?thesis by (simp add: algebra_simps)
  qed
qed

lemma AddCommitmentsChunked_val:
  assumes "commitment_laws s val com" "commitments ps" "commitments ns" "commitments aps" "commitments ans"
    and "AddCommitmentsChunked s ps ns aps ans = Inr c"
  shows "length c = 33"
    and "val c = sum_list (map val ps) + sum_list (map val aps) - sum_list (map val ns) - sum_list (map val ans)"
proof -
  let ?direct = "length ps + length aps + (length ns + length ans) \<le> COMMITMENT_SUM_CHUNK_SIZE"
  have "length c = 33 \<and>
    val c = sum_list (map val ps) + sum_list (map val aps) - sum_list (map val ns) - sum_list (map val ans)"
  proof (cases ?direct)
    case True
    then have "AddCommitments s (ps @ aps) (ns @ ans) = Inr c"
      using assms(6) by (simp add: AddCommitmentsChunked_def Let_def)
    from AddCommitments_val [OF assms(1) _ _ this] assms(2-5) show ?thesis by (simp add: algebra_simps)
  next
    case False
    then obtain pp np where pp: "AppendChunkSums s ps aps = Inr pp" and np: "AppendChunkSums s ns ans = Inr np"
      and c: "AddCommitments s pp np = Inr c"
      using assms(6) by (auto simp: AddCommitmentsChunked_def Let_def result_simps)
    note sums = chunk_sums_val [OF assms(1), of "[]", simplified]
    have p: "commitments pp" "sum_list (map val pp) = sum_list (map val ps) + sum_list (map val aps)"
      using sums [of "ps @ aps"] pp assms(2,4) by (simp_all add: AppendChunkSums_def)
    have n: "commitments np" "sum_list (map val np) = sum_list (map val ns) + sum_list (map val ans)"
      using sums [of "ns @ ans"] np assms(3,5) by (simp_all add: AppendChunkSums_def)
    from AddCommitments_val [OF assms(1) p(1) n(1) c] p(2) n(2) show ?thesis by (simp add: algebra_simps)
  qed
  then show "length c = 33"
    "val c = sum_list (map val ps) + sum_list (map val aps) - sum_list (map val ns) - sum_list (map val ans)"
    by simp_all
qed

definition overage_value :: "(bytes \<Rightarrow> u64 \<Rightarrow> 'g :: ab_group_add) \<Rightarrow> 64 word \<Rightarrow> 'g" where
  "overage_value com overage =
     (if 0 < sint overage then com (BigInteger_ValueOf 32 0) overage
      else if sint overage < 0 then - com (BigInteger_ValueOf 32 0) (0 - overage) else 0)"

definition offset_value :: "(bytes \<Rightarrow> u64 \<Rightarrow> 'g :: ab_group_add) \<Rightarrow> bytes \<Rightarrow> 'g" where
  "offset_value com offset = (if offset = BigInteger_ValueOf 32 0 then 0 else com offset 0)"

definition sums_value :: "(BlockSums \<Rightarrow> bytes) \<Rightarrow> (bytes \<Rightarrow> 'g :: ab_group_add) \<Rightarrow> BlockSums option \<Rightarrow> 'g" where
  "sums_value sel val sums = (case sums of None \<Rightarrow> 0 | Some b \<Rightarrow> val (sel b))"

definition block_sums_ok :: "BlockSums option \<Rightarrow> bool" where
  "block_sums_ok sums = (case sums of None \<Rightarrow> True | Some b \<Rightarrow> length (bs_outputSum b) = 33 \<and> length (bs_kernelSum b) = 33)"

lemma overage_commitments_val:
  assumes "commitment_laws s val com" "overage_commitments s overage = Inr (outs, ins)"
  shows "commitments outs \<and> commitments ins \<and>
    sum_list (map val outs) - sum_list (map val ins) = overage_value com overage"
  using assms
  by (auto simp: overage_commitments_def overage_value_def CommitTransparent_def commitment_laws_def
      result_simps split: if_splits)

lemma AddKernelOffset_val:
  assumes "commitment_laws s val com" "length k = 33" "length offset = 32" "AddKernelOffset s k offset = Inr c"
  shows "length c = 33 \<and> val c = val k + offset_value com offset"
proof (cases "offset = BigInteger_ValueOf 32 0")
  case True
  then show ?thesis
    using assms by (simp add: AddKernelOffset_def offset_value_def BigInteger_equal_iff)
next
  case False
  then obtain oc where oc: "pedersen_commit s offset 0 = Some oc" "AddCommitments s [k, oc] [] = Inr c"
    using assms(3,4) by (auto simp: AddKernelOffset_def CommitBlinded_def BigInteger_equal_iff result_simps)
  then have "length oc = 33 \<and> val oc = com offset 0" using assms(1) by (auto simp: commitment_laws_def)
  with AddCommitments_val [OF assms(1) _ _ oc(2)] assms(2) False show ?thesis
    by (simp add: offset_value_def)
qed

lemma ValidateKernelSums_val:
  assumes "commitment_laws s val com" "commitments inputs" "commitments outputs" "commitments kernels"
    and "length offset = 32" "block_sums_ok prev"
    and "ValidateKernelSums s inputs outputs kernels overage offset prev = Inr sums"
  shows "block_sums_ok (Some sums)"
    and "val (bs_outputSum sums) = sum_list (map val outputs) - sum_list (map val inputs)
           + overage_value com overage + sums_value bs_outputSum val prev"
    and "val (bs_kernelSum sums) = sum_list (map val kernels) + sums_value bs_kernelSum val prev"
    and "val (bs_outputSum sums) = val (bs_kernelSum sums) + offset_value com offset"
proof -
  obtain outs ins utxo ker plus where over: "overage_commitments s overage = Inr (outs, ins)"
    and utxo: "AddCommitmentsChunked s outputs inputs
      (outs @ (case prev of None \<Rightarrow> [] | Some sums \<Rightarrow> [bs_outputSum sums])) ins = Inr utxo"
    and ker: "AddCommitmentsChunked s kernels []
      (case prev of None \<Rightarrow> [] | Some sums \<Rightarrow> [bs_kernelSum sums]) [] = Inr ker"
    and plus: "AddKernelOffset s ker offset = Inr plus"
    and eq: "BigInteger_equal utxo plus" and sums: "sums = \<lparr>bs_outputSum = utxo, bs_kernelSum = ker\<rparr>"
    using assms(7) by (auto simp: ValidateKernelSums_def Let_def result_simps split: prod.splits if_splits)
  note ov = overage_commitments_val [OF assms(1) over]
  have prev_ok: "commitments (case prev of None \<Rightarrow> [] | Some sums \<Rightarrow> [bs_outputSum sums])"
    "commitments (case prev of None \<Rightarrow> [] | Some sums \<Rightarrow> [bs_kernelSum sums])"
    using assms(6) by (auto simp: block_sums_ok_def split: option.splits)
  have prev_val: "sum_list (map val (case prev of None \<Rightarrow> [] | Some sums \<Rightarrow> [bs_outputSum sums])) = sums_value bs_outputSum val prev"
    "sum_list (map val (case prev of None \<Rightarrow> [] | Some sums \<Rightarrow> [bs_kernelSum sums])) = sums_value bs_kernelSum val prev"
    by (auto simp: sums_value_def split: option.split)
  have outs: "commitments (outs @ (case prev of None \<Rightarrow> [] | Some sums \<Rightarrow> [bs_outputSum sums]))" "commitments ins"
    using ov prev_ok by simp_all
  note U = AddCommitmentsChunked_val [OF assms(1,3,2) outs utxo]
  note K = AddCommitmentsChunked_val [OF assms(1,4) _ prev_ok(2) _ ker, simplified]
  note P = AddKernelOffset_val [OF assms(1) K(1) assms(5) plus]
  have "utxo = plus" using eq U(1) P by (simp add: BigInteger_equal_iff)
  then show "val (bs_outputSum sums) = val (bs_kernelSum sums) + offset_value com offset" using P sums by simp
  show "block_sums_ok (Some sums)" using sums U(1) K(1) by (simp add: block_sums_ok_def)
  show "val (bs_kernelSum sums) = sum_list (map val kernels) + sums_value bs_kernelSum val prev"
    using K(2) prev_val(2) sums by simp
  have "val utxo = sum_list (map val outputs) + (sum_list (map val outs) + sums_value bs_outputSum val prev)
      - sum_list (map val inputs) - sum_list (map val ins)"
    using U(2) prev_val(1) by simp
  then show "val (bs_outputSum sums) = sum_list (map val outputs) - sum_list (map val inputs)
           + overage_value com overage + sums_value bs_outputSum val prev"
    using ov sums by (simp add: algebra_simps)
qed

section \<open>Properties of the sums\<close>

text \<open>
  An instance of the laws in which a commitment is the encoding of a 64-bit number: it shows that the laws
  can hold.
\<close>

definition toy_val :: "bytes \<Rightarrow> u64" where
  "toy_val c = of_nat (le_value c)"

definition toy_com :: "bytes \<Rightarrow> u64 \<Rightarrow> u64" where
  "toy_com b v = of_nat (le_value b) + v"

definition toy_secp :: secp where
  "toy_secp =
     \<lparr>pedersen_commit = (\<lambda>b v. Some (le_bytes 33 (unat (toy_com b v)))),
      pedersen_commit_sum =
        (\<lambda>ps ns. Some (le_bytes 33 (unat (sum_list (map toy_val ps) - sum_list (map toy_val ns))))),
      rangeproof_verify_multi = (\<lambda>cs ps. Some True),
      schnorrsig_verify_batch = (\<lambda>ss ms cs. True)\<rparr>"

lemma toy_val_le_bytes: "toy_val (le_bytes 33 (unat w)) = w"
proof -
  have "unat w < 256 ^ 33"
    by (rule order.strict_trans [OF unat_less_iff_two_power]) simp
  then show ?thesis by (simp add: toy_val_def)
qed

lemma le_value_zeros: "le_value (replicate n 0) = 0"
  by (induction n) simp_all

lemma toy_laws: "commitment_laws toy_secp toy_val toy_com"
proof -
  have zeros: "BigInteger_ValueOf 33 0 = replicate 33 0"
    by (simp add: BigInteger_ValueOf_def list_update_same_conv)
  have "toy_val (BigInteger_ValueOf 33 0) = 0" unfolding zeros toy_val_def le_value_zeros by simp
  then show ?thesis by (auto simp: commitment_laws_def toy_secp_def toy_val_le_bytes)
qed

abbreviation toy_enc :: "u64 \<Rightarrow> bytes" where
  "toy_enc w \<equiv> le_bytes 33 (unat w)"

lemma toy_AddCommitments:
  "AddCommitments toy_secp (map toy_enc ps) (map toy_enc ns) = Inr (toy_enc (sum_list ps - sum_list ns))"
proof -
  have zero: "toy_val (BigInteger_ValueOf 33 0) = 0" using toy_laws unfolding commitment_laws_def by blast
  have "sum_list (map toy_val (filter (\<lambda>c. \<not> BigInteger_equal c (BigInteger_ValueOf 33 0)) (map toy_enc ws))) = sum_list ws" for ws
    using sum_filter_zero [of toy_val "map toy_enc ws", OF zero] by (simp add: o_def toy_val_le_bytes list_all_iff)
  then show ?thesis by (simp add: AddCommitments_def Let_def toy_secp_def or_throw_def)
qed

lemma toy_AddCommitmentsChunked:
  assumes "length ps + length aps + (length ns + length ans) \<le> 65536"
  shows "AddCommitmentsChunked toy_secp (map toy_enc ps) (map toy_enc ns) (map toy_enc aps) (map toy_enc ans) =
    Inr (toy_enc (sum_list (ps @ aps) - sum_list (ns @ ans)))"
  using assms toy_AddCommitments [of "ps @ aps" "ns @ ans"]
  by (simp add: AddCommitmentsChunked_def COMMITMENT_SUM_CHUNK_SIZE_def)

text \<open>
  C30. Splitting a large sum into chunks of 65536 commitments does not change it: whenever
  \<open>AddCommitmentsChunked\<close> returns, the commitment it returns has the value of the positive commitments
  less the negative ones, on the direct path and on the path with partial sums.
\<close>

theorem chunked_sum_correct:
  assumes "commitment_laws s val com"
    and "list_all (\<lambda>c. length c = 33) (positive @ negative @ additionalPositive @ additionalNegative)"
    and "AddCommitmentsChunked s positive negative additionalPositive additionalNegative = Inr c"
  shows "val c = sum_list (map val (positive @ additionalPositive)) - sum_list (map val (negative @ additionalNegative))"
  using assms AddCommitmentsChunked_val(2) [OF assms(1) _ _ _ _ assms(3)] by (simp add: algebra_simps)

theorem chunked_sum_correct_witness:
  "toy_val (le_bytes 33 (unat (toy_com [] 7 - toy_com [] 3))) =
   sum_list (map toy_val ([le_bytes 33 7] @ [])) - sum_list (map toy_val ([le_bytes 33 3] @ []))"
proof (rule chunked_sum_correct [OF toy_laws])
  show "AddCommitmentsChunked toy_secp [le_bytes 33 7] [le_bytes 33 3] [] [] =
      Inr (le_bytes 33 (unat (toy_com [] 7 - toy_com [] 3)))"
    using toy_AddCommitmentsChunked [of "[7]" "[]" "[3]" "[]"] by (simp add: toy_com_def)
qed simp

text \<open>The sums of a chain of blocks, as \<open>BlockProcessor\<close> computes them one block after the other.\<close>

fun kernel_sum_chain :: "secp \<Rightarrow> BlockSums \<Rightarrow> FullBlock list \<Rightarrow> BlockSums result" where
  "kernel_sum_chain s sums [] = Inr sums"
| "kernel_sum_chain s sums (block # blocks) =
     rbind (ValidateKernelSums_body s (fb_body block) (0 - REWARD) (h_totalKernelOffset (fb_header block)) (Some sums))
       (\<lambda>sums. kernel_sum_chain s sums blocks)"

definition block_commitments_ok :: "FullBlock \<Rightarrow> bool" where
  "block_commitments_ok block \<longleftrightarrow>
     commitments (map i_commitment (b_inputs (fb_body block))) \<and>
     commitments (map o_commitment (b_outputs (fb_body block))) \<and>
     commitments (map k_excessCommitment (b_kernels (fb_body block))) \<and>
     length (h_totalKernelOffset (fb_header block)) = 32"

definition created_value :: "(bytes \<Rightarrow> 'g :: ab_group_add) \<Rightarrow> FullBlock \<Rightarrow> 'g" where
  "created_value val block =
     sum_list (map (\<lambda>out. val (o_commitment out)) (b_outputs (fb_body block)))
     - sum_list (map (\<lambda>i. val (i_commitment i)) (b_inputs (fb_body block)))"

lemma reward_overage: "overage_value com (0 - REWARD) = - com (BigInteger_ValueOf 32 0) REWARD"
  by (simp add: overage_value_def REWARD_def GRIN_BASE_def)

lemma kernel_sum_chain_val:
  assumes "commitment_laws s val com" "list_all block_commitments_ok blocks" "block_sums_ok (Some sums)"
    and "kernel_sum_chain s sums blocks = Inr final"
  shows "block_sums_ok (Some final) \<and>
    val (bs_outputSum final) = val (bs_outputSum sums) + sum_list (map (created_value val) blocks)
      - sum_list (map (\<lambda>_. com (BigInteger_ValueOf 32 0) REWARD) blocks) \<and>
    val (bs_kernelSum final) = val (bs_kernelSum sums)
      + sum_list (map (\<lambda>b. sum_list (map (\<lambda>k. val (k_excessCommitment k)) (b_kernels (fb_body b)))) blocks) \<and>
    (blocks \<noteq> [] \<longrightarrow> val (bs_outputSum final) =
       val (bs_kernelSum final) + offset_value com (h_totalKernelOffset (fb_header (last blocks))))"
  using assms(2-4)
proof (induction blocks arbitrary: sums)
  case Nil
  then show ?case by simp
next
  case (Cons b bs)
  then obtain s1 where s1: "ValidateKernelSums_body s (fb_body b) (0 - REWARD)
      (h_totalKernelOffset (fb_header b)) (Some sums) = Inr s1"
    and rest: "kernel_sum_chain s s1 bs = Inr final"
    by (simp add: result_simps) blast
  have ok: "block_commitments_ok b" "list_all block_commitments_ok bs" using Cons.prems by simp_all
  note V = ValidateKernelSums_val [OF assms(1) _ _ _ _ Cons.prems(2) s1 [unfolded ValidateKernelSums_body_def]]
  have v: "block_sums_ok (Some s1)"
    "val (bs_outputSum s1) = created_value val b - com (BigInteger_ValueOf 32 0) REWARD + val (bs_outputSum sums)"
    "val (bs_kernelSum s1) = sum_list (map (\<lambda>k. val (k_excessCommitment k)) (b_kernels (fb_body b))) + val (bs_kernelSum sums)"
    "val (bs_outputSum s1) = val (bs_kernelSum s1) + offset_value com (h_totalKernelOffset (fb_header b))"
    using V ok(1) unfolding reward_overage
    by (simp_all add: block_commitments_ok_def created_value_def sums_value_def o_def)
  note IH = Cons.IH [OF ok(2) v(1) rest]
  show ?case
  proof (cases "bs = []")
    case True
    then show ?thesis using rest v by (simp add: algebra_simps)
  next
    case False
    have o: "val (bs_outputSum final) = val (bs_outputSum s1) + sum_list (map (created_value val) bs)
        - sum_list (map (\<lambda>_. com (BigInteger_ValueOf 32 0) REWARD) bs)"
      and k: "val (bs_kernelSum final) = val (bs_kernelSum s1)
        + sum_list (map (\<lambda>b. sum_list (map (\<lambda>k. val (k_excessCommitment k)) (b_kernels (fb_body b)))) bs)"
      and eq: "val (bs_outputSum final) =
        val (bs_kernelSum final) + offset_value com (h_totalKernelOffset (fb_header (last bs)))"
      and ok: "block_sums_ok (Some final)"
      using IH False by blast+
    show ?thesis
    proof (intro conjI impI)
      show "val (bs_outputSum final) = val (bs_outputSum sums) + sum_list (map (created_value val) (b # bs))
          - sum_list (map (\<lambda>_. com (BigInteger_ValueOf 32 0) REWARD) (b # bs))"
        unfolding o v(2) by (simp add: algebra_simps)
      show "val (bs_kernelSum final) = val (bs_kernelSum sums)
          + sum_list (map (\<lambda>b. sum_list (map (\<lambda>k. val (k_excessCommitment k)) (b_kernels (fb_body b)))) (b # bs))"
        unfolding k v(3) by (simp add: algebra_simps)
      show "val (bs_outputSum final) =
          val (bs_kernelSum final) + offset_value com (h_totalKernelOffset (fb_header (last (b # bs))))"
        using eq False by simp
    qed (rule ok)
  qed
qed

lemma balance_algebra:
  fixes C :: "'g :: ab_group_add"
  assumes "out = out0 + C - R" "ker = ker0 + K" "out = ker + off" "out0 = ker0 + off0"
  shows "C = R + K + (off - off0)"
proof -
  have "C = out - out0 + R" using assms(1) by (simp add: algebra_simps)
  also have "\<dots> = R + K + (off - off0)" unfolding assms(3) assms(2) assms(4) by (simp add: algebra_simps)
  finally show ?thesis .
qed

text \<open>
  C1. Supply is conserved along a chain: if the kernel sums of consecutive blocks validate, starting from
  sums that belong to an earlier block, then everything created minus everything spent in these blocks is
  the block rewards plus the excesses of all their kernels plus the change of the kernel offset. No block can
  add value beyond its reward.
\<close>

theorem supply_conserved:
  assumes "commitment_laws s val com" "list_all block_commitments_ok (b # blocks)"
    and "length (bs_outputSum sums) = 33" "length (bs_kernelSum sums) = 33"
    and "val (bs_outputSum sums) = val (bs_kernelSum sums) + offset_value com offset0"
    and "kernel_sum_chain s sums (b # blocks) = Inr final"
  shows "sum_list (map (created_value val) (b # blocks)) =
    sum_list (map (\<lambda>_. com (BigInteger_ValueOf 32 0) REWARD) (b # blocks))
    + sum_list (map (\<lambda>b. sum_list (map (\<lambda>k. val (k_excessCommitment k)) (b_kernels (fb_body b)))) (b # blocks))
    + (offset_value com (h_totalKernelOffset (fb_header (last (b # blocks)))) - offset_value com offset0)"
proof -
  have "block_sums_ok (Some sums)" using assms(3,4) by (simp add: block_sums_ok_def)
  note chain = kernel_sum_chain_val [OF assms(1,2) this assms(6)]
  show ?thesis
    by (rule balance_algebra [where out = "val (bs_outputSum final)" and out0 = "val (bs_outputSum sums)"
          and ker = "val (bs_kernelSum final)" and ker0 = "val (bs_kernelSum sums)"])
      (use chain assms(5) in blast)+
qed

definition toy_block :: "u64 \<Rightarrow> u64 \<Rightarrow> FullBlock" where
  "toy_block v k =
     \<lparr>fb_header = (example_header 1 [])\<lparr>h_totalKernelOffset := BigInteger_ValueOf 32 0\<rparr>,
      fb_body = \<lparr>b_inputs = [], b_outputs = [\<lparr>o_features = 1, o_commitment = toy_enc v, o_rangeProof = []\<rparr>],
                 b_kernels = [\<lparr>k_features = 1, k_fee = Fee_Default, k_lockHeight = 0,
                               k_excessCommitment = toy_enc k, k_excessSignature = []\<rparr>]\<rparr>\<rparr>"

definition toy_sums :: "u64 \<Rightarrow> BlockSums" where
  "toy_sums v = \<lparr>bs_outputSum = toy_enc v, bs_kernelSum = toy_enc v\<rparr>"

lemma BigInteger_equal_refl [simp]: "BigInteger_equal xs xs"
  by (induction xs) simp_all

lemma toy_overage: "overage_commitments toy_secp (0 - REWARD) = Inr ([], [toy_enc REWARD])"
proof -
  have zeros: "BigInteger_ValueOf 32 0 = replicate 32 0"
    by (simp add: BigInteger_ValueOf_def list_update_same_conv)
  have "toy_com (BigInteger_ValueOf 32 0) REWARD = REWARD" unfolding zeros toy_com_def le_value_zeros by simp
  moreover have "sint (0 - REWARD) < 0" by (simp add: REWARD_def GRIN_BASE_def)
  ultimately show ?thesis
    by (simp add: overage_commitments_def CommitTransparent_def or_throw_def toy_secp_def)
qed

lemma toy_chain: "kernel_sum_chain toy_secp (toy_sums 5) [toy_block (REWARD + 2) 2] = Inr (toy_sums 7)"
  using toy_AddCommitmentsChunked [of "[REWARD + 2]" "[5]" "[]" "[REWARD]"]
    toy_AddCommitmentsChunked [of "[2]" "[5]" "[]" "[]"]
  by (simp add: ValidateKernelSums_body_def ValidateKernelSums_def toy_overage [simplified] toy_block_def toy_sums_def
      AddKernelOffset_def)

theorem supply_conserved_witness:
  "sum_list (map (created_value toy_val) [toy_block (REWARD + 2) 2]) =
    sum_list (map (\<lambda>_. toy_com (BigInteger_ValueOf 32 0) REWARD) [toy_block (REWARD + 2) 2])
    + sum_list (map (\<lambda>b. sum_list (map (\<lambda>k. toy_val (k_excessCommitment k)) (b_kernels (fb_body b)))) [toy_block (REWARD + 2) 2])
    + (offset_value toy_com (h_totalKernelOffset (fb_header (last [toy_block (REWARD + 2) 2])))
       - offset_value toy_com (BigInteger_ValueOf 32 0))"
  by (rule supply_conserved [OF toy_laws _ _ _ _ toy_chain])
    (simp_all add: block_commitments_ok_def toy_block_def toy_sums_def offset_value_def)

section \<open>Properties of the validators\<close>

lemma IsSorted_sorted:
  assumes "\<And>x. x \<in> set xs \<Longrightarrow> length (hash x) = n"
  shows "IsSorted hash hash_gt xs \<longleftrightarrow> sorted (map hash xs)"
  using assms
proof (induction xs rule: induct_list012)
  case (3 x y zs)
  then have "hash_gt (hash x) (hash y) \<longleftrightarrow> hash y < hash x" by (simp add: BigInteger_less_iff)
  with 3 show ?case by (auto simp: not_less intro: order_trans)
qed simp_all

lemma not_adjacent_strict:
  assumes "sorted (map hash xs)" "\<not> adjacent r xs" "\<And>x y. hash x = hash y \<Longrightarrow> x \<in> set xs \<Longrightarrow> y \<in> set xs \<Longrightarrow> r x y"
  shows "sorted_wrt (<) (map hash xs)"
  using assms
proof (induction xs rule: induct_list012)
  case (3 x y zs)
  have "hash x \<le> hash y" "\<not> r y x" using 3 by simp_all
  moreover have "hash x = hash y \<Longrightarrow> r y x" using "3.prems"(3) [of y x] by simp
  ultimately have xy: "hash x < hash y" by (metis order_le_less)
  have IH: "sorted_wrt (<) (map hash (y # zs))"
    by (rule "3.IH"(2)) (use "3.prems" in auto)
  then have "hash y < hash z" if "z \<in> set zs" for z using that by simp
  with xy IH show ?case by (auto intro: less_trans)
qed simp_all

text \<open>
  A body that passes \<open>VerifySorted\<close> is in canonical order and repeats no output: the hashes of inputs and
  kernels are ascending and those of the outputs strictly ascending, so that no output (features and commitment)
  occurs twice anywhere in the body, although the code only compares neighbours.
\<close>

theorem VerifySorted_canonical:
  assumes "\<And>x. length (Blake2b x) = 32" "VerifySorted Blake2b body = Inr ()"
  shows "sorted (map (Input_GetHash Blake2b) (b_inputs body)) \<and>
    sorted_wrt (<) (map (Output_GetHash Blake2b) (b_outputs body)) \<and>
    sorted (map (Kernel_GetHash Blake2b) (b_kernels body)) \<and> distinct (b_outputs body)"
proof -
  have v: "IsSorted (Input_GetHash Blake2b) hash_gt (b_inputs body)"
    "IsSorted (Output_GetHash Blake2b) hash_gt (b_outputs body)"
    "IsSorted (Kernel_GetHash Blake2b) hash_gt (b_kernels body)"
    "\<not> adjacent (Output_equal Blake2b) (b_outputs body)"
    using assms(2) by (auto simp: VerifySorted_def result_simps)
  have len: "length (Input_GetHash Blake2b i) = 32" "length (Output_GetHash Blake2b out) = 32"
    "length (Kernel_GetHash Blake2b k) = 32" for i out k
    by (simp_all add: Input_GetHash_def Output_GetHash_def Kernel_GetHash_def assms(1))
  have outputs: "sorted_wrt (<) (map (Output_GetHash Blake2b) (b_outputs body))"
    by (rule not_adjacent_strict [OF _ v(4)]) (use v(2) len in \<open>simp_all add: IsSorted_sorted Output_equal_def\<close>)
  then have "distinct (map (Output_GetHash Blake2b) (b_outputs body))"
    by (simp add: strict_sorted_iff)
  then have "distinct (b_outputs body)" by (simp add: distinct_map)
  with outputs v(1,3) len show ?thesis by (simp add: IsSorted_sorted)
qed

definition toy_hash :: "bytes \<Rightarrow> bytes" where
  "toy_hash bs = replicate 31 0 @ [of_nat (length bs)]"

theorem VerifySorted_canonical_witness:
  "let body = \<lparr>b_inputs = [], b_outputs = [\<lparr>o_features = 0, o_commitment = [1], o_rangeProof = []\<rparr>,
                 \<lparr>o_features = 0, o_commitment = [1, 2], o_rangeProof = []\<rparr>], b_kernels = []\<rparr>
   in sorted (map (Input_GetHash toy_hash) (b_inputs body)) \<and>
    sorted_wrt (<) (map (Output_GetHash toy_hash) (b_outputs body)) \<and>
    sorted (map (Kernel_GetHash toy_hash) (b_kernels body)) \<and> distinct (b_outputs body)"
  unfolding Let_def
proof (rule VerifySorted_canonical)
  show "VerifySorted toy_hash \<lparr>b_inputs = [], b_outputs = [\<lparr>o_features = 0, o_commitment = [1], o_rangeProof = []\<rparr>,
      \<lparr>o_features = 0, o_commitment = [1, 2], o_rangeProof = []\<rparr>], b_kernels = []\<rparr> = Inr ()"
    by code_simp
qed (simp add: toy_hash_def)

lemma IsSorted_snoc: "IsSorted f gt (xs @ [x, y]) \<longleftrightarrow> IsSorted f gt (xs @ [x]) \<and> \<not> gt (f x) (f y)"
proof (induction xs)
  case (Cons z xs)
  then show ?case by (cases xs) auto
qed simp

lemma adjacent_snoc: "adjacent r (xs @ [x, y]) \<longleftrightarrow> adjacent r (xs @ [x]) \<or> r y x"
proof (induction xs)
  case (Cons z xs)
  then show ?case by (cases xs) auto
qed simp

text \<open>
  C36. A body may spend the same commitment twice: inputs are ordered by the hash of the commitment alone, but compared for
  duplicates with their features. When the last input spends a commitment as a plain output, a further input that spends
  it as a coinbase output never changes the verdict of the validator of bodies: order, duplicates, cut-through, range proofs
  and signatures are judged as without it.
\<close>

theorem duplicate_input_commitment_accepted:
  "TxBodyValidator_Validate s Blake2b cache
     (body\<lparr>b_inputs := xs @ [\<lparr>i_features = DEFAULT_OUTPUT, i_commitment = c\<rparr>, \<lparr>i_features = COINBASE_OUTPUT, i_commitment = c\<rparr>]\<rparr>) =
   TxBodyValidator_Validate s Blake2b cache (body\<lparr>b_inputs := xs @ [\<lparr>i_features = DEFAULT_OUTPUT, i_commitment = c\<rparr>]\<rparr>)"
proof -
  have less: "\<not> BigInteger_less h h" for h by (induction h) simp_all
  let ?a = "\<lparr>i_features = DEFAULT_OUTPUT, i_commitment = c\<rparr>" and ?b = "\<lparr>i_features = COINBASE_OUTPUT, i_commitment = c\<rparr>"
  have "Input_GetHash Blake2b ?a = Input_GetHash Blake2b ?b"
    by (simp add: Input_GetHash_def Input_Serialize_def ProtocolVersion_Local_def version_ge_def)
  moreover have "\<not> Input_equal ?b ?a" by (simp add: Input_equal_def DEFAULT_OUTPUT_def COINBASE_OUTPUT_def)
  ultimately have "VerifySorted Blake2b (body\<lparr>b_inputs := xs @ [?a, ?b]\<rparr>) = VerifySorted Blake2b (body\<lparr>b_inputs := xs @ [?a]\<rparr>)"
    using less by (simp add: VerifySorted_def IsSorted_snoc adjacent_snoc)
  moreover have "VerifyCutThrough (body\<lparr>b_inputs := xs @ [?a, ?b]\<rparr>) = VerifyCutThrough (body\<lparr>b_inputs := xs @ [?a]\<rparr>)"
    by (simp add: VerifyCutThrough_def Let_def)
  ultimately show ?thesis by (simp add: TxBodyValidator_Validate_def cong: sum.case_cong)
qed

text \<open>
  C38. Range proofs are remembered by commitment only: once any proof for a commitment was accepted, every
  other proof for it is accepted without being looked at.
\<close>

theorem cached_commitment_accepts_any_proof:
  "fst (VerifyBulletproofs s (AddToCache c cache) [(c, proof)]) = Inr True"
proof -
  obtain cache' where "Cache_Get (AddToCache c cache) c = Inr (c, cache')"
    using Cache_Put_Get [of c c cache] by (auto simp: AddToCache_def)
  then show ?thesis by (simp add: VerifyBulletproofs_def WasAlreadyVerified_def)
qed

text \<open>
  A body without outputs is not rejected with an exception: the check of its range proofs reads the first
  element of an empty vector, for every transaction of one input and one kernel.
\<close>

theorem no_outputs_undefined:
  "fst (TxBodyValidator_Validate s Blake2b cache \<lparr>b_inputs = [i], b_outputs = [], b_kernels = [k]\<rparr>) = Inl Undefined"
  by (simp add: TxBodyValidator_Validate_def VerifySorted_def VerifyCutThrough_def VerifyRangeProofs_def
      VerifyBulletproofs_def)

text \<open>
  The coinbase test of a kernel takes the bit of the enumeration value: a no-recent-duplicate kernel
  (value 3) passes for a coinbase kernel, and every transaction that contains one is rejected.
\<close>

theorem NRD_kernel_taken_for_coinbase:
  "ValidateFeatures (body\<lparr>b_kernels := k\<lparr>k_features := NO_RECENT_DUPLICATE\<rparr> # ks\<rparr>) = Inl BadDataException"
proof -
  have "(3 :: u8) AND 1 = 1" by code_simp
  then have "Kernel_IsCoinbase (k\<lparr>k_features := NO_RECENT_DUPLICATE\<rparr>)"
    by (simp add: Kernel_IsCoinbase_def kernel_features_defs)
  then show ?thesis by (simp add: ValidateFeatures_def require_def)
qed

text \<open>
  C28. Headers that are validated one after the other form an ordered chain: each has the height that its distance from
  the first prescribes and, from the second on, the version scheduled for this height; timestamps (signed) strictly
  increase, and outside automated testing so does the total difficulty, over the whole chain; each commits to the
  root of the range of the headers before it.
\<close>

theorem validated_headers_ordered:
  assumes "successively (\<lambda>prev header. BlockHeaderValidator_Validate Blake2b env tps now GetBlockHeader Root header prev
      = Some (Inr ())) headers"
  shows "(\<forall>i < length headers. h_height (headers ! i) = h_height (headers ! 0) + of_nat i \<and>
      (0 < i \<longrightarrow> h_version (headers ! i) = GetHeaderVersion env (h_height (headers ! i)) \<and>
        BigInteger_equal (Root (h_height (headers ! (i - 1)))) (h_previousRoot (headers ! i)))) \<and>
    sorted_wrt (\<lambda>a b. sint (h_timestamp a) < sint (h_timestamp b)) headers \<and>
    (env \<noteq> AUTOMATED_TESTING \<longrightarrow> sorted_wrt (\<lambda>a b. h_totalDifficulty a < h_totalDifficulty b) headers)"
proof -
  have step: "sint (h_timestamp prev) < sint (h_timestamp header) \<and> h_height header = h_height prev + 1 \<and>
      h_version header = GetHeaderVersion env (h_height header) \<and> BigInteger_equal (Root (h_height prev)) (h_previousRoot header) \<and>
      (env \<noteq> AUTOMATED_TESTING \<longrightarrow> h_totalDifficulty prev < h_totalDifficulty header)"
    if "BlockHeaderValidator_Validate Blake2b env tps now GetBlockHeader Root header prev = Some (Inr ())"
    for prev header
    using that unfolding BlockHeaderValidator_Validate_def Header_IsPoWValid_def
    by (auto simp: IsPoWValid_True_iff split: if_splits option.splits sum.splits)
  have at: "BlockHeaderValidator_Validate Blake2b env tps now GetBlockHeader Root (headers ! Suc i) (headers ! i) = Some (Inr ())"
    if "Suc i < length headers" for i
    using assms that by (simp add: successively_conv_nth)
  have height: "h_height (headers ! i) = h_height (headers ! 0) + of_nat i" if "i < length headers" for i
    using that
  proof (induction i)
    case (Suc i)
    then show ?case using step [OF at [of i]] by (simp add: add.assoc add.commute)
  qed simp
  have "h_version (headers ! i) = GetHeaderVersion env (h_height (headers ! i)) \<and>
      BigInteger_equal (Root (h_height (headers ! (i - 1)))) (h_previousRoot (headers ! i))" if "i < length headers" "0 < i" for i
    using step [OF at [of "i - 1"]] that by simp
  moreover have "successively (\<lambda>a b. sint (h_timestamp a) < sint (h_timestamp b)) headers"
    using assms by (rule successively_mono) (use step in blast)
  moreover have "successively (\<lambda>a b. h_totalDifficulty a < h_totalDifficulty b) headers"
    if "env \<noteq> AUTOMATED_TESTING"
    using assms by (rule successively_mono) (use step that in blast)
  moreover have "transp (\<lambda>a b. sint (h_timestamp a) < sint (h_timestamp b))"
    "transp (\<lambda>a b. h_totalDifficulty a < h_totalDifficulty b)"
    by (auto intro!: transpI)
  ultimately show ?thesis using height by (blast intro: successively_conv_sorted_wrt [THEN iffD1])
qed

theorem validated_headers_ordered_witness:
  "let h1 = (example_header 1 [])\<lparr>h_previousRoot := [7]\<rparr>;
       h2 = h1\<lparr>h_height := 2, h_timestamp := 1546569660\<rparr>
   in (\<forall>i < length [h1, h2]. h_height ([h1, h2] ! i) = h_height ([h1, h2] ! 0) + of_nat i \<and>
      (0 < i \<longrightarrow> h_version ([h1, h2] ! i) = GetHeaderVersion AUTOMATED_TESTING (h_height ([h1, h2] ! i)) \<and>
        BigInteger_equal [7] (h_previousRoot ([h1, h2] ! i)))) \<and>
    sorted_wrt (\<lambda>a b. sint (h_timestamp a) < sint (h_timestamp b)) [h1, h2] \<and>
    (AUTOMATED_TESTING \<noteq> AUTOMATED_TESTING \<longrightarrow>
      sorted_wrt (\<lambda>a b. h_totalDifficulty a < h_totalDifficulty b) [h1, h2])"
  unfolding Let_def
  by (rule validated_headers_ordered [where Blake2b = "\<lambda>_. []" and tps = 1 and now = 1546569700
        and GetBlockHeader = "\<lambda>_. None" and Root = "\<lambda>_. [7]"])
    (simp add: BlockHeaderValidator_Validate_def Header_IsPoWValid_def example_header_def GetMaxBlockTime_def
      DEFAULT_FUTURE_TIME_LIMIT_SEC_def BLOCK_TIME_SEC_def GetHeaderVersion_def heights)

text \<open>
  The limit on timestamps, where the clock counts nanoseconds: it is a number of clock ticks, so that at every time
  \<open>now\<close> (in seconds, before the clock overflows) every timestamp up to \<open>10 ^ 9\<close> times \<open>now\<close> is within it.
\<close>

lemma future_limit_ticks:
  assumes "unat now < 2 ^ 33" "sint ts \<le> 1000000000 * sint now"
  shows "\<not> sint (GetMaxBlockTime 1000000000 (now * 1000000000)) < sint ts"
proof -
  let ?limit = "GetMaxBlockTime 1000000000 (now * 1000000000)"
  have now: "unat (now * 1000000000) = unat now * 1000000000"
    using assms(1) by (simp add: unat_word_ariths)
  have limit: "unat ?limit = unat now * 1000000000 + 300000000000"
    unfolding GetMaxBlockTime_def
    by (subst unat_add_no_overflow)
      (use assms(1) now in \<open>simp_all add: DEFAULT_FUTURE_TIME_LIMIT_SEC_def BLOCK_TIME_SEC_def\<close>)
  then have "sint ?limit = int (unat now) * 1000000000 + 300000000000"
    using assms(1) by (subst sint_small) simp_all
  moreover have "sint now = int (unat now)" using assms(1) by (intro sint_small) simp
  ultimately show ?thesis using assms(2) by simp
qed

text \<open>
  C40. The limit on timestamps in the future has no effect where the clock counts nanoseconds: the limit is a number of clock
  ticks, while timestamps count seconds. Whatever the clock shows (a time up to the year 2242), the validator of headers gives
  the same verdict on a header whose timestamp, in seconds, is at most \<open>10 ^ 9\<close> times the time shown.
\<close>

theorem future_limit_ineffective:
  assumes "unat now < 2 ^ 33" "sint (h_timestamp header) \<le> 1000000000 * sint now"
    and "unat now' < 2 ^ 33" "sint (h_timestamp header) \<le> 1000000000 * sint now'"
  shows "BlockHeaderValidator_Validate Blake2b env 1000000000 (now * 1000000000) GetBlockHeader Root header prev =
    BlockHeaderValidator_Validate Blake2b env 1000000000 (now' * 1000000000) GetBlockHeader Root header prev"
  using future_limit_ticks [OF assms(1,2)] future_limit_ticks [OF assms(3,4)] by (simp add: BlockHeaderValidator_Validate_def)

text \<open>In 2023 a header of the year 33658 is accepted.\<close>

theorem future_limit_ineffective_witness:
  "let h1 = (example_header 1 [])\<lparr>h_previousRoot := [7]\<rparr>; h2 = h1\<lparr>h_height := 2, h_timestamp := 1000000000000\<rparr>
   in BlockHeaderValidator_Validate (\<lambda>_. []) AUTOMATED_TESTING 1000000000 (1700000000 * 1000000000) (\<lambda>_. None) (\<lambda>_. [7]) h2 h1 =
      Some (Inr ())"
proof -
  let ?h1 = "(example_header 1 [])\<lparr>h_previousRoot := [7]\<rparr>"
  let ?h2 = "?h1\<lparr>h_height := 2, h_timestamp := 1000000000000\<rparr>"
  have "BlockHeaderValidator_Validate (\<lambda>_. []) AUTOMATED_TESTING 1000000000 (1700000000 * 1000000000) (\<lambda>_. None) (\<lambda>_. [7]) ?h2 ?h1 =
      BlockHeaderValidator_Validate (\<lambda>_. []) AUTOMATED_TESTING 1000000000 (1000 * 1000000000) (\<lambda>_. None) (\<lambda>_. [7]) ?h2 ?h1"
    by (rule future_limit_ineffective) simp_all
  also have "\<dots> = Some (Inr ())"
    by (simp add: BlockHeaderValidator_Validate_def Header_IsPoWValid_def example_header_def GetMaxBlockTime_def
      DEFAULT_FUTURE_TIME_LIMIT_SEC_def BLOCK_TIME_SEC_def GetHeaderVersion_def heights)
  finally show ?thesis by (simp add: Let_def)
qed

end
