(* ===== verification/Files.thy ===== *)
theory Files
  imports Prelude
begin

text \<open>
  The file layer under the Merkle mountain ranges: the memory-mapped file of
  \<^verbatim>\<open>src/Core/File/MappedFile_Nix.cpp\<close>, the append-only file with its write buffer
  (\<^verbatim>\<open>AppendOnlyFile.cpp\<close>) and the file of fixed-size records (\<^verbatim>\<open>include/Core/File/DataFile.h\<close>).

  The state holds the bytes on disk and the unflushed part; what clients see is the \<open>view\<close>, what survives
  a rollback is the disk. The outcome of opening the file for writing is an argument, so that the failing
  branches of the code are branches of the model.
\<close>

section \<open>The mapped file\<close>

definition TruncateFile :: "bytes \<Rightarrow> u64 \<Rightarrow> bytes" where
  "TruncateFile file size' =
     take (unat size') file @ replicate (unat size' - length file) 0"

text \<open>The result and the new content of the file. The file is opened in append mode.\<close>

definition MappedFile_Write :: "bool \<Rightarrow> u64 \<Rightarrow> bytes \<Rightarrow> bytes \<Rightarrow> bool \<times> bytes" where
  "MappedFile_Write is_open startIndex data file =
     (let file = TruncateFile file startIndex
      in if data = [] then (True, file)
         else if \<not> is_open then (False, file)
         else (True, file @ data))"

text \<open>Mapping an empty file fails; reading outside the mapped range is undefined.\<close>

definition MappedFile_Read :: "u64 \<Rightarrow> u64 \<Rightarrow> bytes \<Rightarrow> bytes result" where
  "MappedFile_Read position numBytes file =
     (if file = [] then Inl FileException
      else if unat position + unat numBytes \<le> length file
      then Inr (take (unat numBytes) (drop (unat position) file))
      else Inl Undefined)"

section \<open>The append-only file\<close>

record AppendOnlyFile =
  aof_bufferIndex :: u64
  aof_fileSize :: u64
  aof_buffer :: bytes
  aof_mapped :: bytes

definition AppendOnlyFile_Load :: "bytes \<Rightarrow> AppendOnlyFile" where
  "AppendOnlyFile_Load file =
     \<lparr>aof_bufferIndex = of_nat (length file), aof_fileSize = of_nat (length file), aof_buffer = [],
      aof_mapped = file\<rparr>"

definition Flush :: "bool \<Rightarrow> AppendOnlyFile \<Rightarrow> bool \<times> AppendOnlyFile" where
  "Flush is_open f =
     (if aof_fileSize f = aof_bufferIndex f \<and> aof_buffer f = [] then (True, f)
      else if aof_fileSize f < aof_bufferIndex f then (False, f)
      else
        let (written, file) = MappedFile_Write is_open (aof_bufferIndex f) (aof_buffer f) (aof_mapped f)
        in if \<not> written then (False, f\<lparr>aof_mapped := file\<rparr>)
           else
             let fileSize = aof_bufferIndex f + of_nat (length (aof_buffer f))
             in (True, \<lparr>aof_bufferIndex = fileSize, aof_fileSize = fileSize, aof_buffer = [],
                        aof_mapped = file\<rparr>))"

definition AppendOnlyFile_Commit :: "bool \<Rightarrow> AppendOnlyFile \<Rightarrow> unit result \<times> AppendOnlyFile" where
  "AppendOnlyFile_Commit is_open f =
     (let (flushed, f) = Flush is_open f in (if flushed then Inr () else Inl FileException, f))"

definition AppendOnlyFile_Append :: "bytes \<Rightarrow> AppendOnlyFile \<Rightarrow> AppendOnlyFile" where
  "AppendOnlyFile_Append data f = f\<lparr>aof_buffer := aof_buffer f @ data\<rparr>"

definition AppendOnlyFile_GetSize :: "AppendOnlyFile \<Rightarrow> u64" where
  "AppendOnlyFile_GetSize f = aof_bufferIndex f + of_nat (length (aof_buffer f))"

definition AppendOnlyFile_Rewind :: "u64 \<Rightarrow> AppendOnlyFile \<Rightarrow> bool \<times> AppendOnlyFile" where
  "AppendOnlyFile_Rewind nextPosition f =
     (if aof_bufferIndex f + of_nat (length (aof_buffer f)) < nextPosition then (False, f)
      else if nextPosition \<le> aof_bufferIndex f
      then (True, f\<lparr>aof_buffer := [], aof_bufferIndex := nextPosition\<rparr>)
      else (True, f\<lparr>aof_buffer := take (unat (nextPosition - aof_bufferIndex f)) (aof_buffer f)\<rparr>))"

definition Discard :: "AppendOnlyFile \<Rightarrow> AppendOnlyFile" where
  "Discard f = f\<lparr>aof_bufferIndex := aof_fileSize f, aof_buffer := []\<rparr>"

definition AppendOnlyFile_Rollback :: "AppendOnlyFile \<Rightarrow> AppendOnlyFile" where
  "AppendOnlyFile_Rollback f = Discard f"

text \<open>\<open>Inr None\<close> is the return value false.\<close>

definition AppendOnlyFile_Read :: "u64 \<Rightarrow> u64 \<Rightarrow> AppendOnlyFile \<Rightarrow> bytes option result" where
  "AppendOnlyFile_Read position numBytes f =
     (if numBytes = 0 then Inr (Some [])
      else if AppendOnlyFile_GetSize f < position \<or> AppendOnlyFile_GetSize f - position < numBytes
      then Inr None
      else if position < aof_bufferIndex f then
        let mappedBytes = min numBytes (aof_bufferIndex f - position)
        in rbind (MappedFile_Read position mappedBytes (aof_mapped f)) (\<lambda>mappedData.
             if mappedBytes = numBytes then Inr (Some mappedData)
             else
               let remainingBytes = numBytes - mappedBytes
               in if of_nat (length (aof_buffer f)) < remainingBytes then Inr None
                  else Inr (Some (mappedData @ take (unat remainingBytes) (aof_buffer f))))
      else
        let firstBufferIndex = position - aof_bufferIndex f
        in if of_nat (length (aof_buffer f)) < firstBufferIndex \<or>
              of_nat (length (aof_buffer f)) - firstBufferIndex < numBytes
           then Inr None
           else Inr (Some (take (unat numBytes) (drop (unat firstBufferIndex) (aof_buffer f)))))"

section \<open>The file of records\<close>

record DataFile =
  df_file :: AppendOnlyFile
  df_dirty :: bool

definition DataFile_Load :: "bytes \<Rightarrow> DataFile" where
  "DataFile_Load file = \<lparr>df_file = AppendOnlyFile_Load file, df_dirty = False\<rparr>"

definition DataFile_Commit :: "bool \<Rightarrow> DataFile \<Rightarrow> unit result \<times> DataFile" where
  "DataFile_Commit is_open d =
     (if df_dirty d then
        let (flushed, f) = Flush is_open (df_file d)
        in if flushed then (Inr (), \<lparr>df_file = f, df_dirty = False\<rparr>)
           else (Inl FileException, d\<lparr>df_file := f\<rparr>)
      else (Inr (), d\<lparr>df_dirty := False\<rparr>))"

definition DataFile_Rollback :: "DataFile \<Rightarrow> DataFile" where
  "DataFile_Rollback d =
     (if df_dirty d then \<lparr>df_file = Discard (df_file d), df_dirty = False\<rparr>
      else d\<lparr>df_dirty := False\<rparr>)"

definition DataFile_Rewind :: "nat \<Rightarrow> u64 \<Rightarrow> DataFile \<Rightarrow> unit result \<times> DataFile" where
  "DataFile_Rewind NUM_BYTES size' d =
     (let (ok, f) = AppendOnlyFile_Rewind (size' * of_nat NUM_BYTES) (df_file d)
      in (if ok then Inr () else Inl FileException, \<lparr>df_file = f, df_dirty = True\<rparr>))"

definition DataFile_GetSize :: "nat \<Rightarrow> DataFile \<Rightarrow> u64" where
  "DataFile_GetSize NUM_BYTES d = AppendOnlyFile_GetSize (df_file d) div of_nat NUM_BYTES"

definition GetDataAt :: "nat \<Rightarrow> u64 \<Rightarrow> DataFile \<Rightarrow> bytes result" where
  "GetDataAt NUM_BYTES position d =
     rbind (AppendOnlyFile_Read (position * of_nat NUM_BYTES) (of_nat NUM_BYTES) (df_file d)) (\<lambda>data.
       case data of None \<Rightarrow> Inl FileException | Some data \<Rightarrow> Inr data)"

definition AddData :: "bytes \<Rightarrow> DataFile \<Rightarrow> DataFile" where
  "AddData data d = \<lparr>df_file = AppendOnlyFile_Append data (df_file d), df_dirty = True\<rparr>"

section \<open>View and invariant\<close>

definition aof_view :: "AppendOnlyFile \<Rightarrow> bytes" where
  "aof_view f = take (unat (aof_bufferIndex f)) (aof_mapped f) @ aof_buffer f"

text \<open>
  The recorded size is that of the file, the buffer starts inside it, and everything together is far
  from the end of the 64-bit range.
\<close>

definition aof_inv :: "AppendOnlyFile \<Rightarrow> bool" where
  "aof_inv f \<longleftrightarrow>
     unat (aof_fileSize f) = length (aof_mapped f) \<and> aof_bufferIndex f \<le> aof_fileSize f \<and>
     length (aof_mapped f) < 2 ^ 62 \<and> unat (aof_bufferIndex f) + length (aof_buffer f) < 2 ^ 62"

definition data_inv :: "DataFile \<Rightarrow> bool" where
  "data_inv d \<longleftrightarrow>
     aof_inv (df_file d) \<and>
     (\<not> df_dirty d \<longrightarrow> aof_buffer (df_file d) = [] \<and> aof_bufferIndex (df_file d) = aof_fileSize (df_file d))"

abbreviation data_view :: "DataFile \<Rightarrow> bytes" where
  "data_view d \<equiv> aof_view (df_file d)"

abbreviation data_saved :: "DataFile \<Rightarrow> bytes" where
  "data_saved d \<equiv> aof_mapped (df_file d)"

text \<open>The whole records of size \<open>n\<close> at the start of a byte vector.\<close>

definition records :: "nat \<Rightarrow> bytes \<Rightarrow> bytes list" where
  "records n bs = map (\<lambda>i. take n (drop (i * n) bs)) [0..<length bs div n]"

lemma unat_of_nat_small: "n < 2 ^ 63 \<Longrightarrow> unat (of_nat n :: u64) = n"
  by (rule unat_of_nat_u64) simp

lemma aof_index_le: "aof_inv f \<Longrightarrow> unat (aof_bufferIndex f) \<le> length (aof_mapped f)"
  by (simp add: aof_inv_def word_le_nat_alt)

lemma length_aof_view: "aof_inv f \<Longrightarrow> length (aof_view f) = unat (aof_bufferIndex f) + length (aof_buffer f)"
  using aof_index_le by (simp add: aof_view_def)

lemma aof_view_bound: "aof_inv f \<Longrightarrow> length (aof_view f) < 2 ^ 62"
  using aof_index_le [of f] by (simp add: length_aof_view aof_inv_def)

lemma unat_GetSize:
  assumes "aof_inv f"
  shows "unat (AppendOnlyFile_GetSize f) = length (aof_view f)"
    and "unat (aof_bufferIndex f + of_nat (length (aof_buffer f))) = length (aof_view f)"
proof -
  have b: "unat (of_nat (length (aof_buffer f)) :: u64) = length (aof_buffer f)"
    using assms by (intro unat_of_nat_small) (simp add: aof_inv_def)
  show "unat (aof_bufferIndex f + of_nat (length (aof_buffer f))) = length (aof_view f)"
    using aof_view_bound [OF assms] length_aof_view [OF assms] b
    by (subst unat_add_no_overflow) simp_all
  then show "unat (AppendOnlyFile_GetSize f) = length (aof_view f)"
    by (simp add: AppendOnlyFile_GetSize_def)
qed

lemma Load_view: "aof_view (AppendOnlyFile_Load file) = file"
  if "length file < 2 ^ 62"
  using that by (simp add: AppendOnlyFile_Load_def aof_view_def unat_of_nat_small)

lemma Load_inv: "length file < 2 ^ 62 \<Longrightarrow> aof_inv (AppendOnlyFile_Load file)"
  by (simp add: AppendOnlyFile_Load_def aof_inv_def unat_of_nat_small)

lemma Append_view: "aof_view (AppendOnlyFile_Append data f) = aof_view f @ data"
  by (simp add: AppendOnlyFile_Append_def aof_view_def)

lemma Append_inv:
  "aof_inv f \<Longrightarrow> length (aof_view f) + length data < 2 ^ 62 \<Longrightarrow> aof_inv (AppendOnlyFile_Append data f)"
  using length_aof_view [of f] by (simp add: AppendOnlyFile_Append_def aof_inv_def)

lemma Discard_view: "aof_inv f \<Longrightarrow> aof_view (Discard f) = aof_mapped f"
  by (simp add: Discard_def aof_view_def aof_inv_def)

lemma Discard_inv: "aof_inv f \<Longrightarrow> aof_inv (Discard f)"
  by (simp add: Discard_def aof_inv_def)

lemma Rewind_view:
  assumes "aof_inv f" "AppendOnlyFile_Rewind n f = (ok, f')"
  shows "ok \<longleftrightarrow> unat n \<le> length (aof_view f)"
    and "aof_view f' = (if ok then take (unat n) (aof_view f) else aof_view f)"
    and "aof_mapped f' = aof_mapped f" and "aof_inv f'"
proof -
  let ?size = "aof_bufferIndex f + of_nat (length (aof_buffer f))"
  have lt: "?size < n \<longleftrightarrow> length (aof_view f) < unat n"
    by (simp add: word_less_nat_alt unat_GetSize(2) [OF assms(1)])
  have le: "n \<le> aof_bufferIndex f \<longleftrightarrow> unat n \<le> unat (aof_bufferIndex f)"
    by (rule word_le_nat_alt)
  note idx = aof_index_le [OF assms(1)]
  have "(ok \<longleftrightarrow> unat n \<le> length (aof_view f)) \<and>
    aof_view f' = (if ok then take (unat n) (aof_view f) else aof_view f) \<and>
    aof_mapped f' = aof_mapped f \<and> aof_inv f'"
  proof (cases "?size < n")
    case True
    then show ?thesis using assms lt by (simp add: AppendOnlyFile_Rewind_def)
  next
    case False
    then have ok: "ok" "unat n \<le> length (aof_view f)"
      using assms(2) lt by (auto simp: AppendOnlyFile_Rewind_def split: if_splits)
    show ?thesis
    proof (cases "n \<le> aof_bufferIndex f")
      case True
      have "f' = f\<lparr>aof_buffer := [], aof_bufferIndex := n\<rparr>"
        using assms(2) False True by (simp add: AppendOnlyFile_Rewind_def)
      then show ?thesis
        using ok idx True le assms(1)
        by (auto simp: aof_view_def aof_inv_def min_def word_le_nat_alt)
    next
      case out: False
      have "f' = f\<lparr>aof_buffer := take (unat (n - aof_bufferIndex f)) (aof_buffer f)\<rparr>"
        using assms(2) False out by (simp add: AppendOnlyFile_Rewind_def)
      moreover have "unat (n - aof_bufferIndex f) = unat n - unat (aof_bufferIndex f)"
        using out by (intro unat_sub_no_underflow) (simp add: word_le_nat_alt)
      ultimately show ?thesis
        using ok idx out le assms(1) by (auto simp: aof_view_def aof_inv_def)
    qed
  qed
  then show "ok \<longleftrightarrow> unat n \<le> length (aof_view f)"
    and "aof_view f' = (if ok then take (unat n) (aof_view f) else aof_view f)"
    and "aof_mapped f' = aof_mapped f" and "aof_inv f'" by blast+
qed

lemma TruncateFile_view:
  "aof_inv f \<Longrightarrow> TruncateFile (aof_mapped f) (aof_bufferIndex f) = take (unat (aof_bufferIndex f)) (aof_mapped f)"
  using aof_index_le by (simp add: TruncateFile_def)

lemma flushed_view:
  "unat s = length bs \<Longrightarrow>
   aof_view \<lparr>aof_bufferIndex = s, aof_fileSize = s, aof_buffer = [], aof_mapped = bs\<rparr> = bs"
  by (simp add: aof_view_def)

lemma Flush_view:
  assumes "aof_inv f" "Flush True f = (ok, f')"
  shows "ok" "aof_mapped f' = aof_view f" "aof_view f' = aof_view f" "aof_inv f'"
    "aof_buffer f' = []" "aof_bufferIndex f' = aof_fileSize f'"
proof -
  have "ok \<and> aof_mapped f' = aof_view f \<and> aof_view f' = aof_view f \<and> aof_inv f' \<and> aof_buffer f' = [] \<and>
    aof_bufferIndex f' = aof_fileSize f'"
  proof (cases "aof_fileSize f = aof_bufferIndex f \<and> aof_buffer f = []")
    case True
    then show ?thesis using assms by (auto simp: Flush_def aof_view_def aof_inv_def)
  next
    case False
    have "\<not> aof_fileSize f < aof_bufferIndex f" using assms(1) by (simp add: aof_inv_def not_less)
    then have "ok \<and> f' = \<lparr>aof_bufferIndex = aof_bufferIndex f + of_nat (length (aof_buffer f)),
        aof_fileSize = aof_bufferIndex f + of_nat (length (aof_buffer f)), aof_buffer = [],
        aof_mapped = aof_view f\<rparr>"
      using False assms(2) TruncateFile_view [OF assms(1)]
      by (auto simp: Flush_def MappedFile_Write_def Let_def aof_view_def split: if_splits)
    then show ?thesis
      using aof_view_bound [OF assms(1)] unat_GetSize(2) [OF assms(1)] flushed_view by (simp add: aof_inv_def)
  qed
  then show "ok" "aof_mapped f' = aof_view f" "aof_view f' = aof_view f" "aof_inv f'"
    "aof_buffer f' = []" "aof_bufferIndex f' = aof_fileSize f'" by blast+
qed

lemma take_drop_append:
  "p \<le> length xs \<Longrightarrow> take n (drop p (xs @ ys)) =
     take n (drop p xs) @ take (n - (length xs - p)) ys"
  by simp

lemma Read_view:
  assumes inv: "aof_inv f" and n: "n \<noteq> 0"
  shows "AppendOnlyFile_Read p n f =
    (if unat p + unat n \<le> length (aof_view f) then Inr (Some (take (unat n) (drop (unat p) (aof_view f))))
     else Inr None)"
proof -
  let ?i = "unat (aof_bufferIndex f)"
  note size = unat_GetSize(1) [OF inv] and view = length_aof_view [OF inv] and idx = aof_index_le [OF inv]
  have out: "(AppendOnlyFile_GetSize f < p \<or> AppendOnlyFile_GetSize f - p < n) \<longleftrightarrow>
      length (aof_view f) < unat p + unat n"
    using unat_sub_no_underflow [of p "AppendOnlyFile_GetSize f"] n
    by (cases "AppendOnlyFile_GetSize f < p")
       (auto simp: word_less_nat_alt word_le_nat_alt not_less size)
  show ?thesis
  proof (cases "unat p + unat n \<le> length (aof_view f)")
    case False
    then show ?thesis using out n by (simp add: AppendOnlyFile_Read_def)
  next
    case True
    show ?thesis
    proof (cases "p < aof_bufferIndex f")
      case mapped: True
      have p: "unat p < ?i" using mapped by (simp add: word_less_nat_alt)
      have sub: "unat (aof_bufferIndex f - p) = ?i - unat p"
        using p by (intro unat_sub_no_underflow) (simp add: word_le_nat_alt)
      let ?m = "min n (aof_bufferIndex f - p)"
      have m: "unat ?m = min (unat n) (?i - unat p)"
        by (simp add: min_def word_le_nat_alt sub)
      have "aof_mapped f \<noteq> []" using p idx by auto
      then have rd: "MappedFile_Read p ?m (aof_mapped f) = Inr (take (unat ?m) (drop (unat p) (aof_mapped f)))"
        using p idx m by (simp add: MappedFile_Read_def)
      have first: "take (unat ?m) (drop (unat p) (aof_mapped f)) =
          take (unat n) (drop (unat p) (take ?i (aof_mapped f)))"
        by (simp add: m drop_take min.commute)
      show ?thesis
      proof (cases "?m = n")
        case whole: True
        then have "unat n \<le> ?i - unat p" using m by simp
        then show ?thesis
          using True out n mapped rd whole first p idx
          by (simp add: AppendOnlyFile_Read_def aof_view_def)
      next
        case part: False
        have "unat n \<noteq> unat ?m" using part by (metis word_unat_eq_iff)
        then have lt: "?i - unat p < unat n" and m': "unat ?m = ?i - unat p" using m by auto
        have rem: "unat (n - ?m) = unat n - (?i - unat p)"
          using m' lt by (subst unat_sub_no_underflow) (simp_all add: word_le_nat_alt)
        have b: "unat (of_nat (length (aof_buffer f)) :: u64) = length (aof_buffer f)"
          using inv by (intro unat_of_nat_small) (simp add: aof_inv_def)
        have "\<not> of_nat (length (aof_buffer f)) < n - ?m"
          unfolding word_less_nat_alt b rem using True view p by linarith
        then show ?thesis
          using True out n mapped rd part first p idx rem
          by (simp add: AppendOnlyFile_Read_def aof_view_def Let_def)
      qed
    next
      case buf: False
      then have p: "?i \<le> unat p" by (simp add: word_less_nat_alt)
      have sub: "unat (p - aof_bufferIndex f) = unat p - ?i"
        using p by (intro unat_sub_no_underflow) (simp add: word_le_nat_alt)
      have b: "unat (of_nat (length (aof_buffer f)) :: u64) = length (aof_buffer f)"
        using inv by (intro unat_of_nat_small) (simp add: aof_inv_def)
      have le: "\<not> of_nat (length (aof_buffer f)) < p - aof_bufferIndex f"
        unfolding word_less_nat_alt b sub using True view p by linarith
      have "unat p - ?i \<le> length (aof_buffer f)" using True view p by linarith
      then have "unat (of_nat (length (aof_buffer f)) - (p - aof_bufferIndex f)) =
          length (aof_buffer f) - (unat p - ?i)"
        by (subst unat_sub_no_underflow) (simp_all add: b sub)
      then have "\<not> of_nat (length (aof_buffer f)) - (p - aof_bufferIndex f) < n"
        unfolding word_less_nat_alt using True view p by linarith
      then show ?thesis
        using True out n buf le p idx
        by (simp add: AppendOnlyFile_Read_def aof_view_def sub)
    qed
  qed
qed

section \<open>Batched state\<close>

text \<open>
  The contract of \<open>Traits::IBatchable\<close>, which every store of the node implements: a commit makes the
  current view the saved one, a rollback returns to the saved view. What clients rely on follows: whatever
  operations run after a commit, as long as they leave the saved state alone, a rollback undoes them.
\<close>

locale batchable =
  fixes inv :: "'s \<Rightarrow> bool"
    and view :: "'s \<Rightarrow> 'v"
    and saved :: "'s \<Rightarrow> 'v"
    and commit :: "'s \<Rightarrow> 's"
    and rollback :: "'s \<Rightarrow> 's"
  assumes commit_inv: "inv s \<Longrightarrow> inv (commit s)"
    and commit_view: "inv s \<Longrightarrow> view (commit s) = view s"
    and commit_saved: "inv s \<Longrightarrow> saved (commit s) = view s"
    and rollback_inv: "inv s \<Longrightarrow> inv (rollback s)"
    and rollback_view: "inv s \<Longrightarrow> view (rollback s) = saved s"
    and rollback_saved: "inv s \<Longrightarrow> saved (rollback s) = saved s"
begin

lemma run_keeps_saved:
  "inv s \<Longrightarrow> (\<And>op t. op \<in> set ops \<Longrightarrow> inv t \<Longrightarrow> inv (op t) \<and> saved (op t) = saved t) \<Longrightarrow>
   inv (fold (\<lambda>op. op) ops s) \<and> saved (fold (\<lambda>op. op) ops s) = saved s"
  by (induction ops arbitrary: s) auto

lemma abort:
  "inv s \<Longrightarrow> (\<And>op t. op \<in> set ops \<Longrightarrow> inv t \<Longrightarrow> inv (op t) \<and> saved (op t) = saved t) \<Longrightarrow>
   view (rollback (fold (\<lambda>op. op) ops (commit s))) = view s"
  using run_keeps_saved [of "commit s" ops] by (simp add: commit_inv commit_saved rollback_view)

lemma commit_twice: "inv s \<Longrightarrow> saved (commit (commit s)) = saved (commit s)"
  by (simp add: commit_inv commit_saved commit_view)

end

definition aof_commit :: "AppendOnlyFile \<Rightarrow> AppendOnlyFile" where
  "aof_commit f = snd (AppendOnlyFile_Commit True f)"

definition data_commit :: "DataFile \<Rightarrow> DataFile" where
  "data_commit d = snd (DataFile_Commit True d)"

lemma aof_commit_Flush: "aof_commit f = snd (Flush True f)"
  by (simp add: aof_commit_def AppendOnlyFile_Commit_def split: prod.split)

interpretation aof: batchable aof_inv aof_view aof_mapped aof_commit AppendOnlyFile_Rollback
proof
  fix f assume inv: "aof_inv f"
  note flush = Flush_view [OF inv, of "fst (Flush True f)" "snd (Flush True f)", simplified]
  show "aof_inv (aof_commit f)" "aof_view (aof_commit f) = aof_view f" "aof_mapped (aof_commit f) = aof_view f"
    using flush by (simp_all add: aof_commit_Flush)
  show "aof_inv (AppendOnlyFile_Rollback f)" "aof_view (AppendOnlyFile_Rollback f) = aof_mapped f"
    "aof_mapped (AppendOnlyFile_Rollback f) = aof_mapped f"
    using inv Discard_inv Discard_view by (simp_all add: AppendOnlyFile_Rollback_def) (simp add: Discard_def)
qed

lemma data_clean: "data_inv d \<Longrightarrow> \<not> df_dirty d \<Longrightarrow> data_view d = data_saved d"
  by (simp add: data_inv_def aof_view_def aof_inv_def)

lemma data_commit_flush:
  assumes "data_inv d"
  shows "data_inv (data_commit d) \<and> data_view (data_commit d) = data_view d \<and>
    data_saved (data_commit d) = data_view d \<and> \<not> df_dirty (data_commit d)"
proof (cases "df_dirty d")
  case True
  have inv: "aof_inv (df_file d)" using assms by (simp add: data_inv_def)
  note flush = Flush_view [OF inv, of "fst (Flush True (df_file d))" "snd (Flush True (df_file d))", simplified]
  have "data_commit d = \<lparr>df_file = snd (Flush True (df_file d)), df_dirty = False\<rparr>"
    using True flush(1) by (auto simp: data_commit_def DataFile_Commit_def split: prod.split)
  then show ?thesis using flush by (simp add: data_inv_def)
next
  case False
  then show ?thesis
    using assms data_clean [OF assms] by (simp add: data_commit_def DataFile_Commit_def data_inv_def)
qed

interpretation data: batchable data_inv "\<lambda>d. data_view d" "\<lambda>d. data_saved d" data_commit DataFile_Rollback
proof
  fix d assume inv: "data_inv d"
  then have a: "aof_inv (df_file d)" by (simp add: data_inv_def)
  show "data_inv (data_commit d)" "data_view (data_commit d) = data_view d" "data_saved (data_commit d) = data_view d"
    using data_commit_flush [OF inv] by simp_all
  show "data_inv (DataFile_Rollback d)" "data_view (DataFile_Rollback d) = data_saved d"
    "data_saved (DataFile_Rollback d) = data_saved d"
    using inv Discard_inv [OF a] Discard_view [OF a] data_clean [OF inv]
    by (auto simp: DataFile_Rollback_def data_inv_def Discard_def)
qed

section \<open>Records\<close>

definition aligned :: "nat \<Rightarrow> DataFile \<Rightarrow> bool" where
  "aligned n d \<longleftrightarrow> data_inv d \<and> 0 < n \<and> n < 2 ^ 32 \<and> n dvd length (data_view d)"

lemma length_records: "length (records n bs) = length bs div n"
  by (simp add: records_def)

lemma records_nth: "i < length bs div n \<Longrightarrow> records n bs ! i = take n (drop (i * n) bs)"
  by (simp add: records_def)

lemma records_append:
  assumes "0 < n" "n dvd length bs" "length r = n"
  shows "records n (bs @ r) = records n bs @ [r]"
proof -
  obtain k where k: "length bs = n * k" using assms(2) by (rule dvdE)
  have part: "take n (drop (i * n) (bs @ r)) = take n (drop (i * n) bs)" if "i < k" for i
  proof -
    have "Suc i * n \<le> k * n" using that by (intro mult_le_mono1) simp
    then show ?thesis by (simp add: k mult.commute)
  qed
  have "length (bs @ r) div n = Suc k" using assms k by simp
  moreover have "length bs div n = k" using assms k by simp
  ultimately show ?thesis using part assms k by (simp add: records_def)
qed

lemma records_concat:
  assumes "0 < n" "\<And>x. x \<in> set xs \<Longrightarrow> length x = n"
  shows "length (concat xs) = n * length xs" and "records n (concat xs) = xs"
proof -
  have "length (concat xs) = n * length xs \<and> records n (concat xs) = xs"
    using assms
  proof (induction xs rule: rev_induct)
    case Nil
    then show ?case by (simp add: records_def)
  next
    case (snoc x xs)
    then have ih: "length (concat xs) = n * length xs" "records n (concat xs) = xs" and x: "length x = n"
      by auto
    then have "records n (concat xs @ x) = xs @ [x]"
      using records_append [of n "concat xs" x] snoc.prems(1) by simp
    then show ?case using ih x by simp
  qed
  then show "length (concat xs) = n * length xs" "records n (concat xs) = xs" by auto
qed

lemma records_take:
  assumes "0 < n" "n dvd length bs" "i \<le> length bs div n"
  shows "records n (take (i * n) bs) = take i (records n bs)"
proof -
  have "i * n \<le> length bs" using assms by (metis dvd_div_mult_self mult_le_mono1)
  moreover have "take n (drop (j * n) (take (i * n) bs)) = take n (drop (j * n) bs)" if "j < i" for j
  proof -
    have "Suc j * n \<le> i * n" using that by (intro mult_le_mono1) simp
    then show ?thesis by (simp add: drop_take min_def)
  qed
  ultimately show ?thesis using assms by (simp add: records_def take_map min_absorb2)
qed

lemma unat_mult_small:
  assumes "n < 2 ^ 32" "unat p * n < 2 ^ 64"
  shows "unat (p * of_nat n :: u64) = unat p * n"
proof -
  have "unat (of_nat n :: u64) = n" using assms(1) by (intro unat_of_nat_u64) simp
  then show ?thesis using assms(2) by (simp add: unat_word_ariths)
qed

lemma GetSize_records: "aligned n d \<Longrightarrow> unat (DataFile_GetSize n d) = length (records n (data_view d))"
  using unat_GetSize(1) [of "df_file d"]
  by (simp add: aligned_def data_inv_def DataFile_GetSize_def length_records unat_div unat_of_nat_u64)

lemma GetDataAt_view:
  assumes "aligned n d" "unat p * n < 2 ^ 64"
  shows "GetDataAt n p d =
    (if unat p < length (records n (data_view d)) then Inr (records n (data_view d) ! unat p)
     else Inl FileException)"
proof -
  obtain k where k: "length (data_view d) = n * k" using assms(1) by (auto simp: aligned_def elim: dvdE)
  have n: "0 < n" "n < 2 ^ 32" and inv: "aof_inv (df_file d)"
    using assms(1) by (auto simp: aligned_def data_inv_def)
  have un: "unat (of_nat n :: u64) = n" using n by (intro unat_of_nat_u64) simp
  then have "of_nat n \<noteq> (0 :: u64)" using n by (metis less_irrefl unat_0)
  note rd = Read_view [OF inv this, of "p * of_nat n", unfolded unat_mult_small [OF n(2) assms(2)] un]
  have "unat p * n + n \<le> n * k \<longleftrightarrow> Suc (unat p) * n \<le> k * n" by (simp add: algebra_simps)
  also have "\<dots> \<longleftrightarrow> unat p < k" using n(1) by (simp only: mult_le_cancel2 Suc_le_eq) simp
  finally have "unat p * n + n \<le> length (data_view d) \<longleftrightarrow> unat p < length (records n (data_view d))"
    using k n(1) by (simp add: length_records)
  then show ?thesis
    using rd k n(1) by (simp add: GetDataAt_def records_nth length_records)
qed

lemma AddData_view: "data_view (AddData r d) = data_view d @ r"
  by (simp add: AddData_def Append_view)

lemma AddData_aligned:
  assumes "aligned n d" "length r = n" "length (data_view d) + n < 2 ^ 62"
  shows "aligned n (AddData r d)"
    and "records n (data_view (AddData r d)) = records n (data_view d) @ [r]"
  using assms Append_inv [of "df_file d" r] records_append [of n "data_view d" r]
  by (simp_all add: aligned_def data_inv_def AddData_def Append_view)

lemma DataFile_Rewind_view:
  assumes "aligned n d" "unat k \<le> length (records n (data_view d))"
  shows "\<exists>d'. DataFile_Rewind n k d = (Inr (), d') \<and> aligned n d' \<and>
    records n (data_view d') = take (unat k) (records n (data_view d)) \<and> data_saved d' = data_saved d"
proof -
  have n: "0 < n" "n < 2 ^ 32" "n dvd length (data_view d)" and inv: "aof_inv (df_file d)"
    using assms(1) by (auto simp: aligned_def data_inv_def)
  have le: "unat k * n \<le> length (data_view d)"
    using assms(2) n by (metis length_records dvd_div_mult_self mult_le_mono1)
  then have small: "unat k * n < 2 ^ 64" using aof_view_bound [OF inv] by simp
  obtain ok f where f: "AppendOnlyFile_Rewind (k * of_nat n) (df_file d) = (ok, f)" by fastforce
  note rw = Rewind_view [OF inv f, unfolded unat_mult_small [OF n(2) small]]
  have "aof_view f = take (unat k * n) (data_view d)" using rw le by simp
  then show ?thesis
    using f rw le n assms(2) records_take [of n "data_view d" "unat k"]
    by (auto simp: DataFile_Rewind_def aligned_def data_inv_def length_records min_def)
qed

lemma DataFile_Rewind_fail:
  assumes "aligned n d" "length (records n (data_view d)) < unat k" "unat k * n < 2 ^ 64"
  shows "\<exists>d'. DataFile_Rewind n k d = (Inl FileException, d') \<and> aligned n d' \<and>
    data_view d' = data_view d \<and> data_saved d' = data_saved d"
proof -
  have n: "0 < n" "n < 2 ^ 32" "n dvd length (data_view d)" and inv: "aof_inv (df_file d)"
    using assms(1) by (auto simp: aligned_def data_inv_def)
  have "length (data_view d) div n * n < unat k * n" using assms(2) n(1) by (simp add: length_records)
  then have lt: "\<not> unat k * n \<le> length (data_view d)" using n(3) by simp
  obtain ok f where f: "AppendOnlyFile_Rewind (k * of_nat n) (df_file d) = (ok, f)" by fastforce
  note rw = Rewind_view [OF inv f, unfolded unat_mult_small [OF n(2) assms(3)]]
  show ?thesis
    using f rw lt n by (auto simp: DataFile_Rewind_def aligned_def data_inv_def)
qed

lemma DataFile_Commit_True: "data_inv d \<Longrightarrow> DataFile_Commit True d = (Inr (), data_commit d)"
proof -
  assume inv: "data_inv d"
  then have "fst (Flush True (df_file d))"
    using Flush_view(1) [OF _ surjective_pairing] by (simp add: data_inv_def)
  then show ?thesis by (auto simp: data_commit_def DataFile_Commit_def split: prod.split)
qed

section \<open>The file refines a pair of byte vectors\<close>

datatype file_op = FileAppend bytes | FileRewind u64 | FileFlush | FileRollback

fun file_step :: "file_op \<Rightarrow> AppendOnlyFile \<Rightarrow> AppendOnlyFile" where
  "file_step (FileAppend data) f = AppendOnlyFile_Append data f"
| "file_step (FileRewind n) f = snd (AppendOnlyFile_Rewind n f)"
| "file_step FileFlush f = snd (Flush True f)"
| "file_step FileRollback f = AppendOnlyFile_Rollback f"

text \<open>The specification: what readers see, and what is on disk.\<close>

fun spec_step :: "file_op \<Rightarrow> bytes \<times> bytes \<Rightarrow> bytes \<times> bytes" where
  "spec_step (FileAppend data) (v, d) = (v @ data, d)"
| "spec_step (FileRewind n) (v, d) = (if unat n \<le> length v then take (unat n) v else v, d)"
| "spec_step FileFlush (v, d) = (v, v)"
| "spec_step FileRollback (v, d) = (d, d)"

fun appended :: "file_op \<Rightarrow> nat" where
  "appended (FileAppend data) = length data"
| "appended _ = 0"

definition file_abs :: "AppendOnlyFile \<Rightarrow> bytes \<times> bytes" where
  "file_abs f = (aof_view f, aof_mapped f)"

lemma file_step_refines:
  assumes "aof_inv f" "length (aof_view f) + appended op < 2 ^ 62"
  shows "aof_inv (file_step op f) \<and> file_abs (file_step op f) = spec_step op (file_abs f)"
proof (cases op)
  case (FileAppend data)
  then show ?thesis
    using assms Append_inv by (simp add: file_abs_def Append_view) (simp add: AppendOnlyFile_Append_def)
next
  case (FileRewind n)
  then show ?thesis
    using Rewind_view [OF assms(1) surjective_pairing, of n] by (simp add: file_abs_def)
next
  case FileFlush
  then show ?thesis
    using Flush_view [OF assms(1) surjective_pairing] by (simp add: file_abs_def)
next
  case FileRollback
  then show ?thesis
    using assms(1) aof.rollback_inv aof.rollback_view aof.rollback_saved by (simp add: file_abs_def)
qed

lemma spec_step_bound:
  "length v + appended op + m < b \<Longrightarrow> length d + appended op + m < b \<Longrightarrow>
   length (fst (spec_step op (v, d))) + m < b \<and> length (snd (spec_step op (v, d))) + m < b"
  by (cases op) auto

lemma run_file_refines:
  "aof_inv f \<Longrightarrow> length (aof_view f) + sum_list (map appended ops) < 2 ^ 62 \<Longrightarrow>
   length (aof_mapped f) + sum_list (map appended ops) < 2 ^ 62 \<Longrightarrow>
   aof_inv (fold file_step ops f) \<and> file_abs (fold file_step ops f) = fold spec_step ops (file_abs f)"
proof (induction ops arbitrary: f)
  case (Cons op ops)
  have step: "aof_inv (file_step op f)" "file_abs (file_step op f) = spec_step op (file_abs f)"
    using file_step_refines [of f op] Cons.prems by simp_all
  have "length (aof_view (file_step op f)) + sum_list (map appended ops) < 2 ^ 62 \<and>
      length (aof_mapped (file_step op f)) + sum_list (map appended ops) < 2 ^ 62"
    using spec_step_bound [of "aof_view f" op "sum_list (map appended ops)" "2 ^ 62" "aof_mapped f"]
      Cons.prems step(2) by (simp add: file_abs_def prod_eq_iff)
  then show ?case using Cons.IH [OF step(1)] step(2) by simp
qed simp

text \<open>
  C19. The append-only file with its buffer and memory map implements a pair of byte vectors, the view and the
  disk: after any sequence of appends, rewinds, flushes and rollbacks, the view and the disk are those of the
  specification, and every read returns exactly the requested range of the view, or false where the range
  is not inside it.
\<close>

theorem append_only_file_refines:
  assumes "length file + sum_list (map appended ops) < 2 ^ 62" "n \<noteq> 0"
  shows "let f = fold file_step ops (AppendOnlyFile_Load file); (v, d) = fold spec_step ops (file, file) in
    file_abs f = (v, d) \<and>
    AppendOnlyFile_Read p n f =
      Inr (if unat p + unat n \<le> length v then Some (take (unat n) (drop (unat p) v)) else None)"
proof -
  have l: "length file < 2 ^ 62" using assms(1) by simp
  have m: "aof_mapped (AppendOnlyFile_Load file) = file" by (simp add: AppendOnlyFile_Load_def)
  have "aof_inv (fold file_step ops (AppendOnlyFile_Load file)) \<and>
      file_abs (fold file_step ops (AppendOnlyFile_Load file)) = fold spec_step ops (file, file)"
    using run_file_refines [OF Load_inv [OF l], of ops] Load_view [OF l] assms(1) m
    by (simp add: file_abs_def)
  then show ?thesis
    using Read_view [of "fold file_step ops (AppendOnlyFile_Load file)" n p] assms(2)
    by (auto simp: file_abs_def Let_def split: prod.splits)
qed

theorem append_only_file_refines_witness:
  "let ops = [FileAppend [4, 5], FileRewind 2, FileAppend [6], FileFlush, FileRewind 1, FileRollback];
       f = fold file_step ops (AppendOnlyFile_Load [1, 2, 3]);
       (v, d) = fold spec_step ops ([1, 2, 3], [1, 2, 3])
   in file_abs f = (v, d) \<and>
      AppendOnlyFile_Read 1 2 f =
        Inr (if unat (1 :: u64) + unat (2 :: u64) \<le> length v
             then Some (take (unat (2 :: u64)) (drop (unat (1 :: u64)) v)) else None)"
  unfolding Let_def [of "[FileAppend [4, 5], FileRewind 2, FileAppend [6], FileFlush, FileRewind 1, FileRollback]"]
  by (rule append_only_file_refines) simp_all

lemma read_mapped:
  assumes "length bs < 2 ^ 62" "0 < k" "p + k \<le> length bs"
  shows "AppendOnlyFile_Read (of_nat p) (of_nat k)
      \<lparr>aof_bufferIndex = of_nat (length bs), aof_fileSize = of_nat (length bs), aof_buffer = [], aof_mapped = file\<rparr> =
    rbind (MappedFile_Read (of_nat p) (of_nat k) file) (\<lambda>bs. Inr (Some bs))"
proof -
  have u: "unat (of_nat (length bs) :: u64) = length bs" "unat (of_nat p :: u64) = p" "unat (of_nat k :: u64) = k"
    using assms by (simp_all add: unat_of_nat_u64)
  have "(of_nat k :: u64) \<noteq> 0" using assms(2) u(3) by (metis neq0_conv unat_0)
  moreover have sub: "unat (of_nat (length bs) - of_nat p :: u64) = length bs - p"
    using assms(3) u by (subst unat_sub) (simp_all add: word_le_nat_alt)
  moreover have "(of_nat p :: u64) < of_nat (length bs)" "\<not> (of_nat (length bs) :: u64) < of_nat p"
    "\<not> (of_nat (length bs) - of_nat p :: u64) < of_nat k"
    using assms(2,3) u sub by (simp_all add: word_less_nat_alt)
  moreover have "min (of_nat k :: u64) (of_nat (length bs) - of_nat p) = of_nat k"
    using assms(3) u sub by (intro min_absorb1) (simp add: word_le_nat_alt)
  ultimately show ?thesis by (simp add: AppendOnlyFile_Read_def AppendOnlyFile_GetSize_def Let_def)
qed

text \<open>
  C39. A failed flush is not atomic: the mapped file is truncated before it is opened for writing, while the recorded size
  is kept. Take any file, a rewind to any position \<open>n\<close> inside it, an append of some bytes, a flush for which the file cannot
  be opened, and a rollback. Bytes below \<open>n\<close> are read as before; reading anything that reaches to \<open>n\<close> or beyond, which gave
  the committed bytes, now is an access outside the mapping (or, if \<open>n\<close> is 0, the empty file cannot be mapped).
\<close>

theorem failed_flush_loses_committed_data:
  assumes bytes: "length bs < 2 ^ 62" "n < length bs" "data \<noteq> []" and access: "0 < k" "p + k \<le> length bs"
    and f1: "f1 = AppendOnlyFile_Append data (snd (AppendOnlyFile_Rewind (of_nat n) (AppendOnlyFile_Load bs)))"
  shows "\<not> fst (Flush False f1) \<and>
    AppendOnlyFile_Read (of_nat p) (of_nat k) (AppendOnlyFile_Load bs) = Inr (Some (take k (drop p bs))) \<and>
    AppendOnlyFile_Read (of_nat p) (of_nat k) (AppendOnlyFile_Rollback (snd (Flush False f1))) =
      (if p + k \<le> n then Inr (Some (take k (drop p bs))) else if n = 0 then Inl FileException else Inl Undefined)"
proof -
  have u: "unat (of_nat (length bs) :: u64) = length bs" "unat (of_nat n :: u64) = n" "unat (of_nat p :: u64) = p"
    "unat (of_nat k :: u64) = k"
    using bytes(1,2) access by (simp_all add: unat_of_nat_u64)
  have f1': "f1 = \<lparr>aof_bufferIndex = of_nat n, aof_fileSize = of_nat (length bs), aof_buffer = data, aof_mapped = bs\<rparr>"
    using bytes(2) u unfolding f1
    by (simp add: AppendOnlyFile_Append_def AppendOnlyFile_Rewind_def AppendOnlyFile_Load_def word_less_nat_alt word_le_nat_alt)
  have flush: "Flush False f1 = (False, f1\<lparr>aof_mapped := take n bs\<rparr>)"
    using bytes(2,3) u unfolding f1' by (simp add: Flush_def MappedFile_Write_def TruncateFile_def word_less_nat_alt)
  have rolled: "AppendOnlyFile_Rollback (f1\<lparr>aof_mapped := take n bs\<rparr>) =
      \<lparr>aof_bufferIndex = of_nat (length bs), aof_fileSize = of_nat (length bs), aof_buffer = [], aof_mapped = take n bs\<rparr>"
    unfolding f1' by (simp add: AppendOnlyFile_Rollback_def Discard_def)
  have "bs \<noteq> []" using bytes(2) by auto
  then show ?thesis
    unfolding flush snd_conv rolled AppendOnlyFile_Load_def read_mapped [OF bytes(1) access]
    using u bytes(2) access by (simp add: MappedFile_Read_def drop_take min_def)
qed

theorem failed_flush_loses_committed_data_witness:
  "let f = AppendOnlyFile_Load [1, 2, 3];
       f1 = AppendOnlyFile_Append [9] (snd (AppendOnlyFile_Rewind (of_nat 1) f));
       f3 = AppendOnlyFile_Rollback (snd (Flush False f1))
   in \<not> fst (Flush False f1) \<and> AppendOnlyFile_Read (of_nat 1) (of_nat 2) f = Inr (Some [2, 3]) \<and>
      AppendOnlyFile_Read (of_nat 1) (of_nat 2) f3 = Inl Undefined"
  unfolding Let_def
  using failed_flush_loses_committed_data [of "[1, 2, 3]" 1 "[9]" 2 1, OF _ _ _ _ _ refl] by simp

end
