(* ===== verification/MMRUtil.thy ===== *)
theory MMRUtil
  imports MMRIndex
begin

text \<open>
  \<^verbatim>\<open>src/PMMR/Common/MMRUtil.cpp\<close>: the peaks of a range of a given size, its number of leaves, the
  side of a node and the path from a node to its peak. The peaks are shown to be the roots of the
  perfect subtrees given by the binary digits of the number of leaves.
\<close>

section \<open>The code\<close>

function peak_indices_loop :: "u64 \<Rightarrow> u64 \<Rightarrow> u64 \<Rightarrow> u64 list \<Rightarrow> u64 list \<times> u64" where
  "peak_indices_loop peakSize numLeft sumPrevPeaks peakIndices =
     (if peakSize = 0 then (peakIndices, numLeft)
      else if peakSize \<le> numLeft
           then peak_indices_loop (drop_bit 1 peakSize) (numLeft - peakSize)
                  (sumPrevPeaks + peakSize) (peakIndices @ [sumPrevPeaks + peakSize - 1])
           else peak_indices_loop (drop_bit 1 peakSize) numLeft sumPrevPeaks peakIndices)"
  by pat_completeness auto
termination
  by (relation "measure (\<lambda>(ps, nl, s, ps'). unat ps)")
     (auto simp: unat_drop_bit_one [simplified] unat_gt_0 intro!: div_less_dividend)

definition GetPeakIndices :: "u64 \<Rightarrow> u64 list" where
  "GetPeakIndices size' =
     (if 0 < size' then
        (let (peakIndices, numLeft) = peak_indices_loop (FillOnesToRight size') size' 0 []
         in if 0 < numLeft then [] else peakIndices)
      else [])"

definition CountLeaves :: "u64 \<Rightarrow> u64" where
  "CountLeaves size' = (if size' = 0 then 0 else m_leafIndex (LeafIndex_AtPos size'))"

definition IsLeftSibling :: "u64 \<Rightarrow> bool" where
  "IsLeftSibling position =
     (let index = Index_At position; parent = GetParent index
      in GetLeftChild parent = index)"

text \<open>
  The loop of \<open>FamilyBranch\<close> climbs while the parent lies below the size. On sizes near the top of
  the 64-bit range the positions wrap around and the loop need not end, which is \<open>None\<close> here.
\<close>

partial_function (option) family_branch_loop ::
    "Index \<Rightarrow> Index \<Rightarrow> u64 \<Rightarrow> (u64 \<times> u64) list \<Rightarrow> (u64 \<times> u64) list option" where
  "family_branch_loop current parent size' branch =
     (if m_position parent < size'
      then family_branch_loop parent (GetParent parent) size'
             (branch @ [(m_position parent, m_position (GetSibling current))])
      else Some branch)"

definition FamilyBranch :: "u64 \<Rightarrow> u64 \<Rightarrow> (u64 \<times> u64) list option" where
  "FamilyBranch position size' =
     (if size' = 0 \<or> size' \<le> position then Some []
      else family_branch_loop (Index_At position) (GetParent (Index_At position)) size' [])"

section \<open>Reference\<close>

fun peak_list :: "nat \<Rightarrow> nat \<Rightarrow> nat \<Rightarrow> nat list" where
  "peak_list 0 s x = []"
| "peak_list (Suc k) s x =
     (if 2 ^ Suc k - 1 \<le> x
      then (s + (2 ^ Suc k - 1) - 1) # peak_list k (s + (2 ^ Suc k - 1)) (x - (2 ^ Suc k - 1))
      else peak_list k s x)"

text \<open>
  The peaks of a range with \<open>n\<close> leaves, from left to right: binary digit \<open>j\<close> of \<open>n\<close> stands for a
  perfect subtree of height \<open>j\<close> whose last leaf is the one before the next multiple of \<open>2 ^ j\<close>.
\<close>

definition peak_nodes :: "nat \<Rightarrow> nat \<Rightarrow> (nat \<times> nat) list" where
  "peak_nodes k n = map (\<lambda>j. (n div 2 ^ j * 2 ^ j - 1, j)) (filter (\<lambda>j. odd (n div 2 ^ j)) (rev [0..<k]))"

definition peaks_of :: "nat \<Rightarrow> nat list" where
  "peaks_of n = map (\<lambda>(m, h). mmr_pos m h) (peak_nodes (bit_width n) n)"

text \<open>The parent and the sibling of a node, and the path from a node up to the last ancestor below a size.\<close>

definition parent_of :: "nat \<times> nat \<Rightarrow> nat \<times> nat" where
  "parent_of = (\<lambda>(n, h). if is_right n h then (n, Suc h) else (n + 2 ^ h, Suc h))"

definition sibling_of :: "nat \<times> nat \<Rightarrow> nat \<times> nat" where
  "sibling_of = (\<lambda>(n, h). if is_right n h then (n - 2 ^ h, h) else (n + 2 ^ h, h))"

abbreviation pos_of :: "nat \<times> nat \<Rightarrow> nat" where
  "pos_of x \<equiv> mmr_pos (fst x) (snd x)"

function path_up :: "nat \<times> nat \<Rightarrow> nat \<Rightarrow> ((nat \<times> nat) \<times> (nat \<times> nat)) list" where
  "path_up x limit =
     (if pos_of x < pos_of (parent_of x) \<and> pos_of (parent_of x) < limit
      then (parent_of x, sibling_of x) # path_up (parent_of x) limit
      else [])"
  by pat_completeness auto
termination
  by (relation "measure (\<lambda>(x, limit). limit - pos_of x)") auto

declare peak_indices_loop.simps [simp del] path_up.simps [simp del]

lemma is_node_leaf [simp]: "is_node n 0"
  by (simp add: is_node_def)

lemma popcount_split: "r < 2 ^ k \<Longrightarrow> popcount (2 ^ k * b + r) = popcount b + popcount r"
proof (induction k arbitrary: r)
  case 0
  then show ?case by simp
next
  case (Suc k)
  define q where "q = r div 2"
  have q: "q < 2 ^ k" using Suc.prems by (auto simp: q_def)
  consider "r = 2 * q" | "r = Suc (2 * q)" unfolding q_def by linarith
  then show ?case
  proof cases
    case 1
    then have "2 ^ Suc k * b + r = 2 * (2 ^ k * b + q)" by (simp add: algebra_simps)
    then show ?thesis using Suc.IH [OF q] 1 by (simp only: popcount_double)
  next
    case 2
    then have "2 ^ Suc k * b + r = Suc (2 * (2 ^ k * b + q))" by (simp add: algebra_simps)
    then show ?thesis using Suc.IH [OF q] 2 by (simp only: popcount_Suc_double)
  qed
qed

lemma mmr_pos_split:
  assumes "2 ^ k dvd b" "r < 2 ^ k"
  shows "mmr_pos (b + r) h = mmr_pos b 0 + mmr_pos r h"
proof -
  obtain c where c: "b = 2 ^ k * c" using assms(1) by (rule dvdE)
  have "popcount b = popcount c" using popcount_split [of 0 k c] by (simp add: c)
  then have "popcount (b + r) = popcount b + popcount r"
    using popcount_split [OF assms(2), of c] by (simp add: c)
  then show ?thesis using popcount_le [of b] popcount_le [of r] by (simp add: mmr_pos_def)
qed

lemma peak_list_above:
  "peak_list (Suc k) s ((2 ^ Suc k - 1) + x) =
     (s + (2 ^ Suc k - 1) - 1) # peak_list k (s + (2 ^ Suc k - 1)) x"
  by (simp only: peak_list.simps le_add1 if_True add_diff_cancel_left')

lemma peak_list_nodes:
  "n < 2 ^ k \<Longrightarrow> 2 ^ k dvd b \<Longrightarrow>
   peak_list k (mmr_pos b 0) (mmr_pos n 0) = map (\<lambda>(m, h). mmr_pos (b + m) h) (peak_nodes k n)"
proof (induction k arbitrary: n b)
  case 0
  then show ?case by (simp add: peak_nodes_def)
next
  case (Suc k)
  have b: "2 ^ k dvd b" using Suc.prems(2) by (auto intro: dvd_trans [of "2 ^ k" "2 ^ Suc k"])
  show ?case
  proof (cases "n < 2 ^ k")
    case True
    have "mmr_pos n 0 < 2 ^ Suc k - 1"
      using mmr_pos_upper [OF is_node_leaf True] Suc_le_two_power [of "Suc k"] by linarith
    moreover have "peak_nodes (Suc k) n = peak_nodes k n"
      using True by (simp add: peak_nodes_def)
    ultimately show ?thesis using Suc.IH [OF True b] by (simp del: power_Suc)
  next
    case False
    define m where "m = n - 2 ^ k"
    have m: "n = 2 ^ k + m" "m < 2 ^ k" using False Suc.prems(1) by (simp_all add: m_def)
    have first: "mmr_pos b 0 + (2 ^ Suc k - 1) - 1 = mmr_pos (b + (2 ^ k - 1)) k"
      using mmr_pos_split [OF b, of "2 ^ k - 1" k] mmr_pos_all_ones [of k k] Suc_le_two_power [of k]
      by simp
    have base: "mmr_pos b 0 + (2 ^ Suc k - 1) = mmr_pos (b + 2 ^ k) 0"
      using mmr_pos_split [OF Suc.prems(2), of "2 ^ k" 0] mmr_pos_add_two_power [of 0 k 0]
      by (simp add: mmr_pos_def [of 0])
    have div: "n div 2 ^ j * 2 ^ j = 2 ^ k + m div 2 ^ j * 2 ^ j"
      and odd: "odd (n div 2 ^ j) \<longleftrightarrow> odd (m div 2 ^ j)" if "j < k" for j
    proof -
      have pow: "(2::nat) ^ k = 2 ^ j * (2 * 2 ^ (k - Suc j))"
        using that by (simp flip: power_add power_Suc)
      have "n div 2 ^ j = 2 * 2 ^ (k - Suc j) + m div 2 ^ j"
        unfolding m(1) pow by simp
      then show "n div 2 ^ j * 2 ^ j = 2 ^ k + m div 2 ^ j * 2 ^ j"
        and "odd (n div 2 ^ j) \<longleftrightarrow> odd (m div 2 ^ j)"
        by (simp_all add: pow algebra_simps)
    qed
    have mk: "2 ^ k \<le> n" using m by simp
    have "n div 2 ^ k = 1" unfolding m(1) using m(2) by (subst div_add_self1) simp_all
    note mk = mk this
    have pos: "1 \<le> m div 2 ^ j * 2 ^ j" if "odd (m div 2 ^ j)" for j
      using that by (simp add: Suc_le_eq odd_pos)
    have nodes: "map (\<lambda>(m, h). mmr_pos (b + m) h) (peak_nodes (Suc k) n) =
        mmr_pos (b + (2 ^ k - 1)) k # map (\<lambda>(m, h). mmr_pos (b + 2 ^ k + m) h) (peak_nodes k m)"
    proof -
      have "filter (\<lambda>j. odd (n div 2 ^ j)) (rev [0..<k]) = filter (\<lambda>j. odd (m div 2 ^ j)) (rev [0..<k])"
        using odd by (intro filter_cong) auto
      moreover have "b + (n div 2 ^ j * 2 ^ j - 1) = b + 2 ^ k + (m div 2 ^ j * 2 ^ j - 1)"
        if "j \<in> set (filter (\<lambda>j. odd (m div 2 ^ j)) (rev [0..<k]))" for j
      proof -
        have "n div 2 ^ j * 2 ^ j = 2 ^ k + m div 2 ^ j * 2 ^ j" and "1 \<le> m div 2 ^ j * 2 ^ j"
          using that div [of j] pos [of j] by simp_all
        then show ?thesis by linarith
      qed
      ultimately show ?thesis using mk by (simp add: peak_nodes_def add.assoc)
    qed
    have n: "mmr_pos n 0 = (2 ^ Suc k - 1) + mmr_pos m 0"
      unfolding m(1) by (rule mmr_pos_add_two_power [OF m(2)])
    have "2 ^ k dvd b + 2 ^ k" using b by simp
    from Suc.IH [OF m(2) this] show ?thesis
      unfolding nodes n peak_list_above first by (simp only: base)
  qed
qed

lemma peak_nodes_width: "n < 2 ^ k \<Longrightarrow> peak_nodes k n = peak_nodes (bit_width n) n"
proof (induction k)
  case 0
  then show ?case by simp
next
  case (Suc k)
  show ?case
  proof (cases "n < 2 ^ k")
    case True
    then show ?thesis using Suc.IH by (simp add: peak_nodes_def)
  next
    case False
    then have "bit_width n = Suc k"
      using Suc.prems bit_width_le_iff [of n k] bit_width_le_iff [of n "Suc k"] by simp
    then show ?thesis by simp
  qed
qed

lemma peak_indices_loop_mask:
  "k \<le> 64 \<Longrightarrow> unat s + unat x < 2 ^ 64 \<Longrightarrow>
   peak_indices_loop (mask k) x s acc =
     (acc @ map of_nat (peak_list k (unat s) (unat x)), of_nat (peak_rest k (unat x)))"
proof (induction k arbitrary: x s acc)
  case 0
  then show ?case by (simp add: peak_indices_loop.simps)
next
  case (Suc k)
  have unmask: "unat (mask (Suc k) :: u64) = 2 ^ Suc k - 1"
    using Suc.prems(1) by (rule unat_mask_u64)
  have le: "mask (Suc k) \<le> x \<longleftrightarrow> 2 ^ Suc k - 1 \<le> unat x"
    unfolding word_le_nat_alt unmask ..
  note unfold = peak_indices_loop.simps [of "mask (Suc k)" x s acc]
  have step: "mask (Suc k) \<noteq> (0::u64)" "drop_bit 1 (mask (Suc k) :: u64) = mask k"
    using Suc.prems(1) mask_nonzero [of k] drop_bit_mask [of k] by simp_all
  show ?case
  proof (cases "mask (Suc k) \<le> x")
    case True
    have ux: "unat (x - mask (Suc k)) = unat x - (2 ^ Suc k - 1)"
      using True unmask by (simp add: unat_sub_no_underflow word_le_nat_alt del: power_Suc)
    have us: "unat (s + mask (Suc k)) = unat s + (2 ^ Suc k - 1)"
      using True Suc.prems(2) unfolding le
      by (subst unat_add_no_overflow) (linarith | simp only: unmask)+
    have "s + mask (Suc k) - 1 = of_nat (unat s + (2 ^ Suc k - 1) - 1)"
    proof -
      have "1 \<le> unat (s + mask (Suc k))" using us Suc_le_two_power [of "Suc k"] by linarith
      then show ?thesis unfolding us [symmetric] by (simp add: of_nat_diff)
    qed
    moreover have "unat (s + mask (Suc k)) + unat (x - mask (Suc k)) < 2 ^ 64"
      using True Suc.prems(2) unfolding le ux us by linarith
    ultimately show ?thesis
      using True step Suc.IH [of "s + mask (Suc k)" "x - mask (Suc k)"] Suc.prems(1)
      unfolding unfold peak_list.simps peak_rest.simps
      by (simp only: le if_True if_False ux us append_assoc append_Cons append_Nil list.map Suc_leD)
  next
    case False
    then show ?thesis
      using step Suc.IH [of s x acc] Suc.prems
      unfolding unfold peak_list.simps peak_rest.simps
      by (simp only: le if_False Suc_leD)
  qed
qed

lemma GetPeakIndices_eq:
  "GetPeakIndices x =
     (if height_at (unat x) = 0 then map of_nat (peaks_of (leaf_at (unat x))) else [])"
proof -
  let ?k = "bit_width (unat x)"
  let ?n = "leaf_at (unat x)"
  have loop: "peak_indices_loop (FillOnesToRight x) x 0 [] =
      (map of_nat (peak_list ?k 0 (unat x)), of_nat (height_at (unat x)))"
    using peak_indices_loop_mask [of ?k 0 x "[]"] bit_width_u64 [of x]
    by (simp add: FillOnesToRight_mask height_at_def)
  have small: "height_at (unat x) < 2 ^ 64"
  proof -
    have "height_at (unat x) \<le> unat x"
      using coordinates_node(2) [of "unat x"] unfolding mmr_pos_def by linarith
    then show ?thesis by (simp add: le_less_trans)
  qed
  have h: "(0 :: u64) < of_nat (height_at (unat x)) \<longleftrightarrow> height_at (unat x) \<noteq> 0"
    using unat_of_nat_u64 [OF small] by (auto simp: word_less_nat_alt)
  show ?thesis
  proof (cases "height_at (unat x) = 0")
    case True
    then have x: "mmr_pos ?n 0 = unat x" using coordinates_node(2) [of "unat x"] by simp
    then have "?n < 2 ^ ?k"
      using mmr_pos_ge [of ?n 0] less_two_power_bit_width [of "unat x"] by linarith
    then have "peak_list ?k 0 (unat x) = peaks_of ?n"
      using peak_list_nodes [of ?n ?k 0] x peak_nodes_width [of ?n ?k]
      by (simp add: mmr_pos_def peaks_of_def)
    with True loop show ?thesis
      by (cases "x = 0") (auto simp: GetPeakIndices_def word_gt_0 peaks_of_def peak_nodes_def leaf_at_def)
  next
    case False
    then have "x \<noteq> 0" by (auto simp: height_at_def)
    with False loop h show ?thesis by (simp add: GetPeakIndices_def word_gt_0)
  qed
qed

section \<open>Leaves, sides and branches\<close>

lemma CountLeaves_eq: "unat x < 2 ^ 64 - 1 \<Longrightarrow> CountLeaves x = of_nat (leaf_at (unat x))"
  by (cases "x = 0")
     (simp_all add: CountLeaves_def LeafIndex_AtPos_def LeafIndex_From_def GetLeafIndex_def
       Index_At_def CalculateLeafIndex_eq leaf_at_def)

lemma node_inj:
  "is_node n h \<Longrightarrow> is_node n' h' \<Longrightarrow> mmr_pos n h < 2 ^ 64 \<Longrightarrow> mmr_pos n' h' < 2 ^ 64 \<Longrightarrow>
   node n h = node n' h' \<Longrightarrow> n = n' \<and> h = h'"
  using mmr_pos_inj unat_of_nat_u64 by (metis Index.ext_inject node_def)

lemma is_node_parent: "is_node n h \<Longrightarrow> is_node (fst (parent_of (n, h))) (snd (parent_of (n, h)))"
  using left_node_shift(1) by (simp add: parent_of_def is_right_def)

lemma is_node_sibling: "is_node n h \<Longrightarrow> is_node (fst (sibling_of (n, h))) (snd (sibling_of (n, h)))"
proof (cases "is_right n h")
  case True
  then show ?thesis using right_node_shift by (simp add: sibling_of_def)
next
  case False
  assume "is_node n h"
  from left_node_shift(1) [OF this False] have "is_node (n + 2 ^ h) (Suc h)" .
  then show ?thesis using False by (auto simp: sibling_of_def is_node_def dest: dvd_mult_right)
qed

lemma pos_parent_greater: "is_node n h \<Longrightarrow> mmr_pos n h < pos_of (parent_of (n, h))"
  using mmr_pos_left_shift [of n h h] by (auto simp: parent_of_def mmr_pos_def)

lemma in_range_less: "is_node n h \<Longrightarrow> mmr_pos n h < s \<Longrightarrow> s \<le> 2 ^ 63 - 2 \<Longrightarrow> in_range n h"
  by (simp add: in_range_def)

lemma IsLeftSibling_node:
  assumes "in_range n h"
  shows "IsLeftSibling (of_nat (mmr_pos n h)) \<longleftrightarrow> \<not> is_right n h"
proof -
  have node: "is_node n h" "mmr_pos n h < 2 ^ 64" using assms by (auto simp: in_range_def)
  have h: "h < 62" using assms by (rule in_range_height)
  show ?thesis
  proof (cases "is_right n h")
    case True
    have "mmr_pos (n - 2 ^ h) h < mmr_pos n h"
      using mmr_pos_right_shift [OF True, of h] Suc_le_two_power [of h] unfolding power_Suc by linarith
    note less = this
    then have s: "is_node (n - 2 ^ h) h" "mmr_pos (n - 2 ^ h) h < 2 ^ 64" "2 ^ h \<le> n"
      using right_node_shift [OF True] node by auto
    have "node (n - 2 ^ h) h \<noteq> node n h"
      using node_inj [OF s(1) node(1) s(2) node(2)] less by auto
    then show ?thesis
      using True assms node h GetLeftChild_node [of n h]
      by (simp add: IsLeftSibling_def Index_At_node GetParent_node is_right_def)
  next
    case False
    then show ?thesis
      using assms node h GetLeftChild_node [of "n + 2 ^ h" h] left_node_shift(1) [of n h]
      by (simp add: IsLeftSibling_def Index_At_node GetParent_node)
  qed
qed

lemma GetParent_node_of:
  "in_range n h \<Longrightarrow> GetParent (node n h) = node (fst (parent_of (n, h))) (snd (parent_of (n, h)))"
  by (simp add: GetParent_node parent_of_def)

lemma GetSibling_node_of:
  "in_range n h \<Longrightarrow> GetSibling (node n h) = node (fst (sibling_of (n, h))) (snd (sibling_of (n, h)))"
  by (simp add: GetSibling_node sibling_of_def)

lemma pos_parent_bound: "in_range n h \<Longrightarrow> pos_of (parent_of (n, h)) < 2 ^ 64"
  using mmr_pos_left_shift [of n h h] mmr_pos_lower [of n h]
  by (auto simp: parent_of_def mmr_pos_def in_range_def)

definition word_branch :: "((nat \<times> nat) \<times> (nat \<times> nat)) list \<Rightarrow> (u64 \<times> u64) list" where
  "word_branch = map (\<lambda>(p, s). (of_nat (pos_of p), of_nat (pos_of s)))"

lemma family_branch_loop_eq:
  assumes "is_node n h" "mmr_pos n h < unat s" "unat s \<le> 2 ^ 63 - 2"
  shows "family_branch_loop (node n h) (GetParent (node n h)) s acc =
     Some (acc @ word_branch (path_up (n, h) (unat s)))"
  using assms
proof (induction "unat s - mmr_pos n h" arbitrary: n h acc rule: less_induct)
  case less
  obtain pn ph where p: "parent_of (n, h) = (pn, ph)" by fastforce
  have range: "in_range n h" using less.prems by (rule in_range_less)
  have pnode: "is_node pn ph" using is_node_parent [OF less.prems(1)] p by simp
  have greater: "mmr_pos n h < mmr_pos pn ph" using pos_parent_greater [OF less.prems(1)] p by simp
  have "mmr_pos pn ph < 2 ^ 64" using pos_parent_bound [OF range] p by simp
  then have cond: "m_position (node pn ph) < s \<longleftrightarrow> mmr_pos pn ph < unat s"
    using unat_of_nat_u64 by (simp add: node_def word_less_nat_alt)
  have unf: "family_branch_loop (node n h) (node pn ph) s acc =
     (if mmr_pos pn ph < unat s
      then family_branch_loop (node pn ph) (GetParent (node pn ph)) s
             (acc @ [(of_nat (mmr_pos pn ph), of_nat (pos_of (sibling_of (n, h))))])
      else Some acc)"
    by (subst family_branch_loop.simps)
       (simp add: cond GetSibling_node_of [OF range], simp add: node_def)
  show ?case
  proof (cases "mmr_pos pn ph < unat s")
    case True
    have "unat s - mmr_pos pn ph < unat s - mmr_pos n h" using greater True by simp
    from less.hyps [OF this pnode True less.prems(3)] True greater show ?thesis
      unfolding GetParent_node_of [OF range] p fst_conv snd_conv unf
      by (subst path_up.simps) (simp add: p word_branch_def)
  next
    case False
    then show ?thesis
      unfolding GetParent_node_of [OF range] p fst_conv snd_conv unf
      by (subst path_up.simps) (simp add: p word_branch_def)
  qed
qed

lemma FamilyBranch_node:
  assumes "is_node n h" "mmr_pos n h < unat s" "unat s \<le> 2 ^ 63 - 2"
  shows "FamilyBranch (of_nat (mmr_pos n h)) s = Some (word_branch (path_up (n, h) (unat s)))"
proof -
  have lt: "mmr_pos n h < 2 ^ 64" using assms by simp
  then have "\<not> s \<le> of_nat (mmr_pos n h)" "s \<noteq> 0"
    using assms unat_of_nat_u64 [OF lt] by (auto simp: word_le_nat_alt)
  then show ?thesis
    using family_branch_loop_eq [OF assms, of "[]"] Index_At_node [OF assms(1) lt]
    by (simp add: FamilyBranch_def)
qed

section \<open>Properties of the numbering\<close>

lemma Index_At_cases:
  obtains n h where "is_node n h" "mmr_pos n h = unat p" "Index_At p = node n h"
  using coordinates_node [of "unat p"] Index_At_coordinates [of p] by blast

lemma Index_At_position_node:
  "is_node n h \<Longrightarrow> mmr_pos n h < 2 ^ 64 \<Longrightarrow> Index_At (m_position (node n h)) = node n h"
  using Index_At_node by (simp add: node_def)

lemma pos_sibling_bound: "in_range n h \<Longrightarrow> pos_of (sibling_of (n, h)) < 2 ^ 64"
proof (cases "is_right n h")
  case True
  assume r: "in_range n h"
  have "Suc (mmr_pos n h) = mmr_pos (n - 2 ^ h) h + 2 ^ Suc h" by (rule mmr_pos_right_shift [OF True])
  moreover have "1 \<le> (2::nat) ^ Suc h" by (rule one_le_power) simp
  ultimately have "mmr_pos (n - 2 ^ h) h \<le> mmr_pos n h" by linarith
  then show ?thesis using r True by (simp add: sibling_of_def in_range_def)
next
  case False
  assume r: "in_range n h"
  have "Suc (mmr_pos (n + 2 ^ h) h) = mmr_pos n h + 2 ^ Suc h"
    using r False by (intro mmr_pos_left_shift) (simp_all add: in_range_def)
  moreover have "(2::nat) ^ Suc h \<le> 2 ^ 63"
    using in_range_height [OF r] by (intro power_increasing) simp_all
  ultimately show ?thesis using r False by (simp add: sibling_of_def in_range_def)
qed

lemma sibling_distinct:
  assumes r: "in_range n h"
  shows "node n h \<noteq> GetSibling (node n h)"
proof
  assume "node n h = GetSibling (node n h)"
  then have "fst (sibling_of (n, h)) = n"
    using node_inj [of n h "fst (sibling_of (n, h))" "snd (sibling_of (n, h))"]
      is_node_sibling [of n h] pos_sibling_bound [OF r] r
    by (simp add: GetSibling_node_of [OF r] in_range_def)
  moreover have "n - 2 ^ h < n" if "is_right n h"
    using right_node_shift(1) [OF that] by (intro diff_less) (auto intro: less_le_trans [of 0 "2 ^ h"])
  ultimately show False by (auto simp: sibling_of_def split: if_splits)
qed

lemma children_of_parent:
  assumes r: "in_range n h"
  shows "{GetLeftChild (GetParent (node n h)), GetRightChild (GetParent (node n h))} =
         {node n h, GetSibling (node n h)}"
proof -
  have h: "h < 63" using in_range_height [OF r] by simp
  show ?thesis
  proof (cases "is_right n h")
    case True
    then show ?thesis
      using GetLeftChild_node [of n h] h
      by (auto simp: GetParent_node [OF r] GetSibling_node [OF r] GetRightChild_node is_right_def)
  next
    case False
    have "is_node (n + 2 ^ h) (Suc h)" using r False left_node_shift(1) by (simp add: in_range_def)
    then show ?thesis
      using GetLeftChild_node [of "n + 2 ^ h" h] h False
      by (auto simp: GetParent_node [OF r] GetSibling_node [OF r] GetRightChild_node)
  qed
qed

text \<open>
  C26. Family laws of \<open>Index\<close>: for every position below \<open>2 ^ 63 - 2\<close>, the parent and the sibling that
  the code computes are the nodes at their positions (height included), the parent is one level up
  and lies after the node, and its two children are exactly the node and its sibling.
\<close>

theorem index_family:
  assumes "p < 2 ^ 63 - 2"
  shows "let i = Index_At p; parent = GetParent i; s = GetSibling i in
    Index_At (m_position parent) = parent \<and> m_height parent = m_height i + 1 \<and>
    m_position i < m_position parent \<and>
    Index_At (m_position s) = s \<and> i \<noteq> s \<and>
    {GetLeftChild parent, GetRightChild parent} = {i, s}"
proof -
  obtain n h where n: "is_node n h" "mmr_pos n h = unat p" "Index_At p = node n h"
    by (rule Index_At_cases)
  have r: "in_range n h" using assms n by (simp add: in_range_def word_less_nat_alt)
  have parent: "Index_At (m_position (GetParent (node n h))) = GetParent (node n h)"
    unfolding GetParent_node_of [OF r]
    by (rule Index_At_position_node [OF is_node_parent [OF n(1)] pos_parent_bound [OF r]])
  have sib: "Index_At (m_position (GetSibling (node n h))) = GetSibling (node n h)"
    unfolding GetSibling_node_of [OF r]
    by (rule Index_At_position_node [OF is_node_sibling [OF n(1)] pos_sibling_bound [OF r]])
  have pos: "m_position (node n h) < m_position (GetParent (node n h))"
    unfolding GetParent_node_of [OF r]
    using pos_parent_greater [OF n(1)] pos_parent_bound [OF r]
    by (simp add: node_def word_less_nat_alt unat_of_nat_u64)
  have height: "m_height (GetParent (node n h)) = m_height (node n h) + 1"
    unfolding GetParent_node [OF r] by (simp add: node_def)
  show ?thesis
    unfolding Let_def n(3)
    using parent sib pos height sibling_distinct [OF r] children_of_parent [OF r] by blast
qed

theorem index_family_witness:
  "let i = Index_At 10; parent = GetParent i; s = GetSibling i in
    Index_At (m_position parent) = parent \<and> m_height parent = m_height i + 1 \<and>
    m_position i < m_position parent \<and>
    Index_At (m_position s) = s \<and> i \<noteq> s \<and>
    {GetLeftChild parent, GetRightChild parent} = {i, s}"
  by (rule index_family) simp

lemma mmr_pos_zero_le: "mmr_pos n 0 \<le> 2 * n"
  by (simp add: mmr_pos_def)

text \<open>
  Leaves and positions: for every leaf number below \<open>2 ^ 62 - 1\<close> the position computed from the
  population count is a leaf of the numbering, converting that position back gives the same leaf index,
  and the range that ends just before it has exactly that many leaves.
\<close>

theorem leaf_position_roundtrip:
  assumes "n < 2 ^ 62 - 1"
  shows "LeafIndex_AtPos (LeafIndex_GetPosition (LeafIndex_At n)) = LeafIndex_At n \<and>
    IsLeaf (Index_At (LeafIndex_GetPosition (LeafIndex_At n))) \<and>
    CountLeaves (LeafIndex_GetPosition (LeafIndex_At n)) = n"
proof -
  have bound: "mmr_pos (unat n) 0 < 2 ^ 63 - 2"
    using assms mmr_pos_zero_le [of "unat n"] by (simp add: word_less_nat_alt)
  then have r: "in_range (unat n) 0" by (simp add: in_range_def)
  have "IsLeaf (Index_At (LeafIndex_GetPosition (LeafIndex_At n)))"
    using bound by (simp add: LeafIndex_At_position Index_At_node IsLeaf_node)
  moreover have u: "unat (of_nat (mmr_pos (unat n) 0) :: u64) = mmr_pos (unat n) 0"
    using bound by (intro unat_of_nat_u64) simp
  moreover have "CountLeaves (of_nat (mmr_pos (unat n) 0)) = n"
    using bound node_coordinates(2) [of "unat n" 0] u
    by (subst CountLeaves_eq) simp_all
  ultimately show ?thesis
    using LeafIndex_AtPos_At [OF r] by (simp add: LeafIndex_At_position)
qed

theorem leaf_position_roundtrip_witness:
  "LeafIndex_AtPos (LeafIndex_GetPosition (LeafIndex_At 5)) = LeafIndex_At 5 \<and>
   IsLeaf (Index_At (LeafIndex_GetPosition (LeafIndex_At 5))) \<and>
   CountLeaves (LeafIndex_GetPosition (LeafIndex_At 5)) = 5"
  by (rule leaf_position_roundtrip) simp

text \<open>
  The peaks of a range with \<open>n\<close> leaves are the roots of the perfect subtrees given by the binary
  digits of \<open>n\<close>, largest first; a size that is not the size of any range has no peaks.
\<close>

theorem GetPeakIndices_correct:
  "GetPeakIndices size' =
     (if IsLeaf (Index_At size') then map of_nat (peaks_of (leaf_at (unat size'))) else [])"
proof -
  have "IsLeaf (Index_At size') \<longleftrightarrow> height_at (unat size') = 0"
    by (simp add: IsLeaf_def Index_At_def flip: unat_CalculateHeight unat_eq_zero)
  then show ?thesis by (simp add: GetPeakIndices_eq)
qed

text \<open>
  C31. \<open>FamilyBranch\<close> returns for every size up to \<open>2 ^ 63 - 2\<close>, and its branch is the path of parents
  and siblings from the node up to its last ancestor inside the range: each pair is the parent and the
  sibling of the previous node.
\<close>

theorem FamilyBranch_correct:
  assumes "position < size'" "size' \<le> 2 ^ 63 - 2"
  shows "FamilyBranch position size' =
    Some (word_branch (path_up (leaf_at (unat position), height_at (unat position)) (unat size')))"
proof -
  have "of_nat (mmr_pos (leaf_at (unat position)) (height_at (unat position))) = position"
    by (simp add: coordinates_node)
  then show ?thesis
    using FamilyBranch_node [of "leaf_at (unat position)" "height_at (unat position)" size'] assms
    by (simp add: coordinates_node word_less_nat_alt word_le_nat_alt)
qed

theorem FamilyBranch_correct_witness:
  "FamilyBranch 3 11 = Some (word_branch (path_up (leaf_at 3, height_at 3) 11))"
  using FamilyBranch_correct [of 3 11] by simp

end
