(* ===== verification/PruneList.thy ===== *)
theory PruneList
  imports MMRUtil
begin

text \<open>
  \<^verbatim>\<open>src/PMMR/Common/PruneList.cpp\<close>: the roots of the pruned subtrees of a range, with the caches that tell
  which positions are pruned and by how much a position is shifted in the compacted files.

  Roaring bitmaps are a library outside the repository: they are the parameter \<open>roaring\<close>, with the
  documented behaviour of a finite ordered set of 32-bit numbers as \<open>roaring_laws\<close>. The code stores a node
  under its position plus one, converted to 32 bits.
\<close>

section \<open>The bitmap library\<close>

record 'b roaring =
  rb_empty :: 'b
  rb_add :: "u32 \<Rightarrow> 'b \<Rightarrow> 'b"
  rb_remove :: "u32 \<Rightarrow> 'b \<Rightarrow> 'b"
  rb_contains :: "u32 \<Rightarrow> 'b \<Rightarrow> bool"
  rb_isEmpty :: "'b \<Rightarrow> bool"
  rb_maximum :: "'b \<Rightarrow> u32"
  rb_rank :: "u32 \<Rightarrow> 'b \<Rightarrow> u64"
  rb_elements :: "'b \<Rightarrow> u32 list"
  rb_runOptimize :: "'b \<Rightarrow> 'b"
  rb_write :: "'b \<Rightarrow> bytes"
  rb_readSafe :: "bytes \<Rightarrow> 'b result"

definition roaring_laws :: "'b roaring \<Rightarrow> bool" where
  "roaring_laws R \<longleftrightarrow>
     rb_elements R (rb_empty R) = [] \<and>
     (\<forall>b. sorted_wrt (<) (rb_elements R b)) \<and>
     (\<forall>x b. set (rb_elements R (rb_add R x b)) = insert x (set (rb_elements R b))) \<and>
     (\<forall>x b. set (rb_elements R (rb_remove R x b)) = set (rb_elements R b) - {x}) \<and>
     (\<forall>x b. rb_contains R x b \<longleftrightarrow> x \<in> set (rb_elements R b)) \<and>
     (\<forall>b. rb_isEmpty R b \<longleftrightarrow> rb_elements R b = []) \<and>
     (\<forall>b. rb_maximum R b = (if rb_elements R b = [] then 0 else last (rb_elements R b))) \<and>
     (\<forall>x b. rb_rank R x b = of_nat (length (filter (\<lambda>y. y \<le> x) (rb_elements R b)))) \<and>
     (\<forall>b. rb_elements R (rb_runOptimize R b) = rb_elements R b)"

section \<open>The prune list\<close>

record 'b PruneList =
  pl_prunedRoots :: 'b
  pl_prunedCache :: 'b
  pl_shiftCache :: "u64 list"
  pl_leafShiftCache :: "u64 list"
  pl_dirty :: bool
  pl_file :: "bytes option"

abbreviation wire :: "u64 \<Rightarrow> u32" where
  "wire position \<equiv> ucast (position + 1)"

definition root_index :: "u32 \<Rightarrow> Index" where
  "root_index rootWirePos = Index_At (ucast rootWirePos - 1)"

definition AddRootToPrunedCache :: "'b roaring \<Rightarrow> Index \<Rightarrow> 'b \<Rightarrow> 'b" where
  "AddRootToPrunedCache R mmrIndex cache =
     (let rootPos = m_position mmrIndex;
          nodeCount = push_bit (unat (m_height mmrIndex + 1)) 1 - 1;
          firstPos = rootPos + 1 - nodeCount
      in if firstPos \<le> rootPos
         then fold (\<lambda>k. rb_add R (wire (firstPos + of_nat k))) [0..<Suc (unat (rootPos - firstPos))] cache
         else cache)"

definition BuildPrunedCache :: "'b roaring \<Rightarrow> 'b \<Rightarrow> 'b" where
  "BuildPrunedCache R prunedRoots =
     (if rb_isEmpty R prunedRoots then rb_empty R
      else rb_runOptimize R
             (fold (\<lambda>w. AddRootToPrunedCache R (root_index w)) (rb_elements R prunedRoots) (rb_empty R)))"

definition root_shift :: "Index \<Rightarrow> u64" where
  "root_shift i = 2 * (push_bit (unat (m_height i)) 1 - 1)"

definition root_leaf_shift :: "Index \<Rightarrow> u64" where
  "root_leaf_shift i = (if m_height i = 0 then 0 else push_bit (unat (m_height i)) 1)"

fun shift_caches :: "u64 \<Rightarrow> u64 \<Rightarrow> u32 list \<Rightarrow> u64 list \<times> u64 list" where
  "shift_caches totalShift totalLeafShift [] = ([], [])"
| "shift_caches totalShift totalLeafShift (w # ws) =
     (let totalShift = totalShift + root_shift (root_index w);
          totalLeafShift = totalLeafShift + root_leaf_shift (root_index w);
          (shifts, leafShifts) = shift_caches totalShift totalLeafShift ws
      in (totalShift # shifts, totalLeafShift # leafShifts))"

definition BuildShiftCaches :: "'b roaring \<Rightarrow> 'b \<Rightarrow> u64 list \<times> u64 list" where
  "BuildShiftCaches R prunedRoots =
     (if rb_isEmpty R prunedRoots then ([], []) else shift_caches 0 0 (rb_elements R prunedRoots))"

definition RebuildCaches :: "'b roaring \<Rightarrow> 'b PruneList \<Rightarrow> 'b PruneList" where
  "RebuildCaches R p =
     p\<lparr>pl_prunedCache := BuildPrunedCache R (pl_prunedRoots p),
       pl_shiftCache := fst (BuildShiftCaches R (pl_prunedRoots p)),
       pl_leafShiftCache := snd (BuildShiftCaches R (pl_prunedRoots p))\<rparr>"

definition AppendRootToShiftCaches :: "Index \<Rightarrow> 'b PruneList \<Rightarrow> 'b PruneList" where
  "AppendRootToShiftCaches mmrIndex p =
     (let previousShift = (if pl_shiftCache p = [] then 0 else last (pl_shiftCache p));
          previousLeafShift = (if pl_leafShiftCache p = [] then 0 else last (pl_leafShiftCache p))
      in p\<lparr>pl_shiftCache := pl_shiftCache p @ [previousShift + root_shift mmrIndex],
           pl_leafShiftCache := pl_leafShiftCache p @ [previousLeafShift + root_leaf_shift mmrIndex]\<rparr>)"

definition PruneList_New :: "'b \<Rightarrow> bytes option \<Rightarrow> 'b roaring \<Rightarrow> 'b PruneList" where
  "PruneList_New prunedRoots file R =
     \<lparr>pl_prunedRoots = prunedRoots, pl_prunedCache = rb_empty R, pl_shiftCache = [], pl_leafShiftCache = [],
      pl_dirty = False, pl_file = file\<rparr>"

definition PruneList_Load :: "'b roaring \<Rightarrow> bytes option \<Rightarrow> 'b PruneList result" where
  "PruneList_Load R file =
     (case file of
        None \<Rightarrow> Inr (PruneList_New (rb_empty R) file R)
      | Some data \<Rightarrow>
          rbind (rb_readSafe R data) (\<lambda>prunedRoots. Inr (RebuildCaches R (PruneList_New prunedRoots file R))))"

definition PruneList_Flush :: "'b roaring \<Rightarrow> 'b PruneList \<Rightarrow> 'b PruneList" where
  "PruneList_Flush R p =
     (if \<not> pl_dirty p then p
      else
        let p = p\<lparr>pl_prunedRoots := rb_runOptimize R (pl_prunedRoots p)\<rparr>;
            buffer = rb_write R (pl_prunedRoots p);
            p = (if 0 < length buffer then RebuildCaches R (p\<lparr>pl_file := Some buffer\<rparr>) else p)
        in p\<lparr>pl_dirty := False\<rparr>)"

text \<open>\<open>Rollback\<close> swallows every exception; the members changed before it are kept.\<close>

definition PruneList_Rollback :: "'b roaring \<Rightarrow> 'b PruneList \<Rightarrow> 'b PruneList" where
  "PruneList_Rollback R p =
     (case (case pl_file p of None \<Rightarrow> Inr (rb_empty R) | Some data \<Rightarrow> rb_readSafe R data) of
        Inl e \<Rightarrow> p
      | Inr prunedRoots \<Rightarrow> (RebuildCaches R (p\<lparr>pl_prunedRoots := prunedRoots\<rparr>))\<lparr>pl_dirty := False\<rparr>)"

text \<open>The loop of \<open>Add\<close> climbs while the sibling is pruned.\<close>

partial_function (option) add_loop :: "'b roaring \<Rightarrow> Index \<Rightarrow> 'b PruneList \<Rightarrow> 'b PruneList option" where
  "add_loop R current_idx p =
     (let sibling_pos = m_position (GetSibling current_idx);
          p1 = p\<lparr>pl_prunedCache := rb_add R (wire (m_position current_idx)) (pl_prunedCache p)\<rparr>
      in if rb_contains R (wire sibling_pos) (pl_prunedRoots p) \<or>
            rb_contains R (wire sibling_pos) (pl_prunedCache p)
         then add_loop R (GetParent current_idx)
                (p1\<lparr>pl_prunedRoots := rb_remove R (wire sibling_pos) (pl_prunedRoots p)\<rparr>)
         else Some (p1\<lparr>pl_prunedRoots := rb_add R (wire (m_position current_idx)) (pl_prunedRoots p)\<rparr>))"

definition PruneList_Add :: "'b roaring \<Rightarrow> Index \<Rightarrow> 'b PruneList \<Rightarrow> 'b PruneList option" where
  "PruneList_Add R position p = add_loop R position (p\<lparr>pl_dirty := True\<rparr>)"

definition AddPrunedRoot :: "'b roaring \<Rightarrow> Index \<Rightarrow> 'b PruneList \<Rightarrow> 'b PruneList" where
  "AddPrunedRoot R mmrIndex p =
     (let wirePos = m_position mmrIndex + 1
      in if rb_contains R (ucast wirePos) (pl_prunedRoots p) then p
         else
           let appendOnly = rb_isEmpty R (pl_prunedRoots p) \<or> ucast (rb_maximum R (pl_prunedRoots p)) < wirePos;
               p = p\<lparr>pl_dirty := True, pl_prunedRoots := rb_add R (ucast wirePos) (pl_prunedRoots p)\<rparr>
           in if appendOnly
              then AppendRootToShiftCaches mmrIndex
                     (p\<lparr>pl_prunedCache := AddRootToPrunedCache R mmrIndex (pl_prunedCache p)\<rparr>)
              else RebuildCaches R p)"

definition IsPruned :: "'b roaring \<Rightarrow> 'b PruneList \<Rightarrow> Index \<Rightarrow> bool" where
  "IsPruned R p mmr_index = rb_contains R (wire (m_position mmr_index)) (pl_prunedCache p)"

definition IsPrunedRoot :: "'b roaring \<Rightarrow> 'b PruneList \<Rightarrow> Index \<Rightarrow> bool" where
  "IsPrunedRoot R p mmr_index = rb_contains R (wire (m_position mmr_index)) (pl_prunedRoots p)"

definition IsCompacted :: "'b roaring \<Rightarrow> 'b PruneList \<Rightarrow> Index \<Rightarrow> bool" where
  "IsCompacted R p mmr_index = (IsPruned R p mmr_index \<and> \<not> IsPrunedRoot R p mmr_index)"

definition cached_shift :: "u64 list \<Rightarrow> u64 \<Rightarrow> u64" where
  "cached_shift cache index =
     (if of_nat (length cache) < index then last cache else cache ! (unat index - 1))"

definition GetShift :: "'b roaring \<Rightarrow> 'b PruneList \<Rightarrow> Index \<Rightarrow> u64" where
  "GetShift R p mmr_index =
     (if rb_isEmpty R (pl_prunedRoots p) then 0
      else if pl_shiftCache p = [] then 0
      else
        let index = rb_rank R (wire (m_position mmr_index)) (pl_prunedRoots p)
        in if index = 0 then 0 else cached_shift (pl_shiftCache p) index)"

definition GetLeafShift :: "'b roaring \<Rightarrow> 'b PruneList \<Rightarrow> Index \<Rightarrow> u64" where
  "GetLeafShift R p mmr_idx =
     (if rb_isEmpty R (pl_prunedRoots p) then 0
      else
        let index = rb_rank R (wire (m_position mmr_idx)) (pl_prunedRoots p)
        in if index = 0 then 0
           else if pl_leafShiftCache p = [] then 0
           else cached_shift (pl_leafShiftCache p) index)"

definition GetTotalShift :: "'b roaring \<Rightarrow> 'b PruneList \<Rightarrow> u64" where
  "GetTotalShift R p = GetShift R p (Index_At (ucast (rb_maximum R (pl_prunedRoots p))))"

section \<open>Facts about the bitmap library\<close>

lemma roaring_elements:
  assumes "roaring_laws R"
  shows "rb_elements R (rb_empty R) = []"
    and "sorted_wrt (<) (rb_elements R b)"
    and "set (rb_elements R (rb_add R x b)) = insert x (set (rb_elements R b))"
    and "set (rb_elements R (rb_remove R x b)) = set (rb_elements R b) - {x}"
    and "rb_contains R x b \<longleftrightarrow> x \<in> set (rb_elements R b)"
    and "rb_isEmpty R b \<longleftrightarrow> rb_elements R b = []"
    and "rb_maximum R b = (if rb_elements R b = [] then 0 else last (rb_elements R b))"
    and "rb_rank R x b = of_nat (length (filter (\<lambda>y. y \<le> x) (rb_elements R b)))"
    and "rb_elements R (rb_runOptimize R b) = rb_elements R b"
  using assms unfolding roaring_laws_def by blast+

lemma elements_unique:
  assumes "roaring_laws R" "sorted_wrt (<) xs" "set xs = set (rb_elements R b)"
  shows "rb_elements R b = xs"
  using assms roaring_elements(2) [OF assms(1), of b] by (metis strict_sorted_equal)

text \<open>Adding an element above all others appends it to the enumeration.\<close>

lemma elements_append:
  assumes "roaring_laws R" "\<And>y. y \<in> set (rb_elements R b) \<Longrightarrow> y < x"
  shows "rb_elements R (rb_add R x b) = rb_elements R b @ [x]"
  using assms roaring_elements(2,3) [OF assms(1)]
  by (intro elements_unique) (auto simp: sorted_wrt_append)

section \<open>The caches are functions of the roots\<close>

definition caches_ok :: "'b roaring \<Rightarrow> 'b PruneList \<Rightarrow> bool" where
  "caches_ok R p \<longleftrightarrow>
     rb_elements R (pl_prunedCache p) = rb_elements R (BuildPrunedCache R (pl_prunedRoots p)) \<and>
     (pl_shiftCache p, pl_leafShiftCache p) = BuildShiftCaches R (pl_prunedRoots p)"

text \<open>The positions below a root, as wire positions.\<close>

definition pruned_wires :: "Index \<Rightarrow> u32 set" where
  "pruned_wires mmrIndex =
     (let rootPos = m_position mmrIndex;
          firstPos = rootPos + 1 - (push_bit (unat (m_height mmrIndex + 1)) 1 - 1)
      in if firstPos \<le> rootPos
         then (\<lambda>k. wire (firstPos + of_nat k)) ` {0..<Suc (unat (rootPos - firstPos))} else {})"

lemma elements_fold_add:
  "roaring_laws R \<Longrightarrow>
   set (rb_elements R (fold (\<lambda>k. rb_add R (g k)) ks c)) = g ` set ks \<union> set (rb_elements R c)"
  by (induction ks arbitrary: c) (auto simp: roaring_elements(3))

lemma elements_AddRoot:
  "roaring_laws R \<Longrightarrow>
   set (rb_elements R (AddRootToPrunedCache R i c)) = pruned_wires i \<union> set (rb_elements R c)"
  using elements_fold_add [of R _ "[0..<Suc _]" c]
  by (auto simp: AddRootToPrunedCache_def pruned_wires_def Let_def simp del: upt_Suc)

lemma elements_fold_roots:
  "roaring_laws R \<Longrightarrow>
   set (rb_elements R (fold (\<lambda>w. AddRootToPrunedCache R (root_index w)) ws c)) =
     (\<Union>w \<in> set ws. pruned_wires (root_index w)) \<union> set (rb_elements R c)"
  by (induction ws arbitrary: c) (auto simp: elements_AddRoot)

lemma elements_BuildPrunedCache:
  assumes "roaring_laws R"
  shows "set (rb_elements R (BuildPrunedCache R b)) = (\<Union>w \<in> set (rb_elements R b). pruned_wires (root_index w))"
  using elements_fold_roots [OF assms, of "rb_elements R b" "rb_empty R"]
  by (simp add: BuildPrunedCache_def roaring_elements(1,6,9) [OF assms])

lemma BuildShiftCaches_eq:
  "roaring_laws R \<Longrightarrow> BuildShiftCaches R b = shift_caches 0 0 (rb_elements R b)"
  by (auto simp: BuildShiftCaches_def roaring_elements(6))

abbreviation shift_of :: "u32 \<Rightarrow> u64" where
  "shift_of w \<equiv> root_shift (root_index w)"

abbreviation leaf_shift_of :: "u32 \<Rightarrow> u64" where
  "leaf_shift_of w \<equiv> root_leaf_shift (root_index w)"

lemma shift_caches_prefix_sums:
  "shift_caches a l ws =
     (map (\<lambda>i. a + sum_list (map shift_of (take (Suc i) ws))) [0..<length ws],
      map (\<lambda>i. l + sum_list (map leaf_shift_of (take (Suc i) ws))) [0..<length ws])"
proof (induction ws arbitrary: a l)
  case (Cons w ws)
  show ?case
    by (simp add: Cons.IH map_upt_Suc add.assoc del: upt_Suc)
qed simp

lemma prefix_sums_snoc:
  fixes g :: "u32 \<Rightarrow> u64"
  shows "map (\<lambda>i. a + sum_list (map g (take (Suc i) (ws @ [w])))) [0..<length (ws @ [w])] =
     map (\<lambda>i. a + sum_list (map g (take (Suc i) ws))) [0..<length ws] @ [a + sum_list (map g ws) + g w]"
  by (simp add: add.assoc)

lemma prefix_sums_last:
  fixes g :: "u32 \<Rightarrow> u64"
  shows "ws \<noteq> [] \<Longrightarrow> last (map (\<lambda>i. sum_list (map g (take (Suc i) ws))) [0..<length ws]) = sum_list (map g ws)"
  by (cases ws rule: rev_cases) auto

lemma unat_ucast_u32: "unat (ucast (x :: u32) :: u64) = unat x"
proof -
  have "unat x < 2 ^ 64" using unsigned_less [of x, where ?'a = nat] by simp
  then show ?thesis by (simp add: unsigned_ucast_eq take_bit_nat_eq_self)
qed

lemma unat_ucast_u64: "unat x < 2 ^ 32 \<Longrightarrow> unat (ucast (x :: u64) :: u32) = unat x"
  by (simp add: unsigned_ucast_eq take_bit_nat_eq_self)

lemma root_index_wire: "unat pos < 2 ^ 32 - 1 \<Longrightarrow> root_index (wire pos) = Index_At pos"
proof -
  assume "unat pos < 2 ^ 32 - 1"
  then have "unat (pos + 1) < 2 ^ 32" by (subst unat_add_no_overflow) simp_all
  then have "ucast (ucast (pos + 1) :: u32) = pos + 1"
    by (intro ucast_ucast_self) simp
  then show ?thesis by (simp add: root_index_def)
qed

lemma unat_wire: "unat pos < 2 ^ 32 - 1 \<Longrightarrow> unat (wire pos :: u32) = Suc (unat pos)"
  by (subst unat_ucast_u64) (simp_all add: unat_add_no_overflow)

text \<open>Appending a root above all others keeps the caches what a rebuild would make them.\<close>

lemma append_root_caches:
  assumes R: "roaring_laws R" and ok: "caches_ok R p" and pos: "unat pos < 2 ^ 32 - 1"
    and above: "\<And>y. y \<in> set (rb_elements R (pl_prunedRoots p)) \<Longrightarrow> y < wire pos"
  shows "caches_ok R (AppendRootToShiftCaches (Index_At pos)
    (p\<lparr>pl_dirty := True, pl_prunedRoots := rb_add R (wire pos) (pl_prunedRoots p),
       pl_prunedCache := AddRootToPrunedCache R (Index_At pos) (pl_prunedCache p)\<rparr>))"
proof -
  let ?es = "rb_elements R (pl_prunedRoots p)"
  have es: "rb_elements R (rb_add R (wire pos) (pl_prunedRoots p)) = ?es @ [wire pos]"
    by (rule elements_append [OF R above])
  have caches: "pl_shiftCache p = fst (shift_caches 0 0 ?es)" "pl_leafShiftCache p = snd (shift_caches 0 0 ?es)"
    using ok by (simp_all add: caches_ok_def BuildShiftCaches_eq [OF R] prod_eq_iff)
  have "set (rb_elements R (AddRootToPrunedCache R (Index_At pos) (pl_prunedCache p))) =
      set (rb_elements R (BuildPrunedCache R (rb_add R (wire pos) (pl_prunedRoots p))))"
    using ok by (simp add: caches_ok_def elements_AddRoot [OF R] elements_BuildPrunedCache [OF R] es
        root_index_wire [OF pos])
  then have "rb_elements R (AddRootToPrunedCache R (Index_At pos) (pl_prunedCache p)) =
      rb_elements R (BuildPrunedCache R (rb_add R (wire pos) (pl_prunedRoots p)))"
    by (intro elements_unique [OF R roaring_elements(2) [OF R]]) simp
  moreover have "shift_caches 0 0 (?es @ [wire pos]) =
      (pl_shiftCache p @ [sum_list (map shift_of ?es) + shift_of (wire pos)],
       pl_leafShiftCache p @ [sum_list (map leaf_shift_of ?es) + leaf_shift_of (wire pos)])"
    unfolding caches shift_caches_prefix_sums prefix_sums_snoc by simp
  ultimately show ?thesis
    unfolding caches_ok_def BuildShiftCaches_eq [OF R]
    using prefix_sums_last [of ?es shift_of] prefix_sums_last [of ?es leaf_shift_of]
    by (simp add: AppendRootToShiftCaches_def Let_def es caches shift_caches_prefix_sums root_index_wire [OF pos])
qed

lemma RebuildCaches_ok: "caches_ok R (RebuildCaches R p)"
  by (simp add: caches_ok_def RebuildCaches_def)

lemma caches_ok_AddPrunedRoot:
  assumes "roaring_laws R" "caches_ok R p" "pos < 2 ^ 32 - 1"
  shows "caches_ok R (AddPrunedRoot R (Index_At pos) p)"
proof -
  let ?roots = "pl_prunedRoots p"
  have pos: "unat pos < 2 ^ 32 - 1" using assms(3) by (simp add: word_less_nat_alt)
  have mpos: "m_position (Index_At pos) = pos" by (simp add: Index_At_def)
  show ?thesis
  proof (cases "rb_contains R (wire pos) ?roots")
    case True
    then show ?thesis using assms(2) by (simp add: AddPrunedRoot_def mpos)
  next
    case False
    show ?thesis
    proof (cases "rb_isEmpty R ?roots \<or> ucast (rb_maximum R ?roots) < pos + 1")
      case app: True
      have "y < wire pos" if "y \<in> set (rb_elements R ?roots)" for y
      proof -
        have "y \<le> rb_maximum R ?roots"
          using that roaring_elements(2,7) [OF assms(1), of ?roots]
          by (auto simp: strict_sorted_iff sorted_iff_nth_mono last_conv_nth in_set_conv_nth)
        moreover have "rb_maximum R ?roots < wire pos"
          using app that roaring_elements(6) [OF assms(1)] pos unat_wire [OF pos]
          by (auto simp only: word_less_nat_alt unat_ucast_u32) (auto simp: unat_add_no_overflow)
        ultimately show ?thesis by (rule le_less_trans)
      qed
      then show ?thesis
        using append_root_caches [OF assms(1,2) pos] False app
        by (simp add: AddPrunedRoot_def mpos Let_def)
    next
      case False
      then show ?thesis
        using \<open>\<not> rb_contains R (wire pos) ?roots\<close> by (simp add: AddPrunedRoot_def mpos Let_def RebuildCaches_ok)
    qed
  qed
qed

section \<open>Shifts count the compacted positions\<close>

definition root_pos :: "u32 \<Rightarrow> nat" where
  "root_pos w = unat w - 1"

text \<open>The positions of the subtree below a node are the interval that ends at it.\<close>

definition subtree_of :: "nat \<Rightarrow> nat set" where
  "subtree_of q = {q + 2 - 2 ^ Suc (height_at q) .. q}"

lemma height_at_bound: "2 ^ Suc (height_at q) \<le> q + 2"
  using mmr_pos_lower [OF coordinates_node(1) [of q]] unfolding coordinates_node(2) by linarith

lemma height_at_less: "q + 2 \<le> 2 ^ 32 \<Longrightarrow> height_at q < 32"
proof (rule ccontr)
  assume q: "q + 2 \<le> 2 ^ 32" and "\<not> height_at q < 32"
  then have "(2::nat) ^ 33 \<le> 2 ^ Suc (height_at q)" by (intro power_increasing) simp_all
  then show False using height_at_bound [of q] q by simp
qed

lemma root_index_nat:
  assumes "w \<noteq> 0"
  shows "root_index w = Index_At (of_nat (root_pos w))" and "root_pos w < 2 ^ 32 - 1"
    and "unat w = Suc (root_pos w)"
proof -
  have "unat w \<noteq> 0" using assms by (simp add: unat_eq_zero)
  then show w: "unat w = Suc (root_pos w)" by (simp add: root_pos_def)
  then show "root_pos w < 2 ^ 32 - 1" using unsigned_less [of w, where ?'a = nat] by simp
  have "ucast w = (of_nat (unat w) :: u64)"
    using unsigned_less [of w, where ?'a = nat]
    by (simp add: word_unat_eq_iff unat_ucast_u32 unat_of_nat_u64 del: of_nat_unat)
  then have "ucast w - 1 = (of_nat (root_pos w) :: u64)" unfolding w by simp
  then show "root_index w = Index_At (of_nat (root_pos w))" by (simp add: root_index_def)
qed

lemma m_height_Index_At: "q < 2 ^ 64 \<Longrightarrow> unat (m_height (Index_At (of_nat q))) = height_at q"
  by (simp add: Index_At_def unat_CalculateHeight unat_of_nat_u64)

lemma pruned_wires_iff:
  assumes "w \<noteq> 0"
  shows "x \<in> pruned_wires (root_index w) \<longleftrightarrow> x \<noteq> 0 \<and> root_pos x \<in> subtree_of (root_pos w)"
proof -
  define r where "r = root_pos w"
  define h where "h = height_at r"
  define a where "a = r + 2 - 2 ^ Suc h"
  have r: "r < 2 ^ 32 - 1" and idx: "root_index w = Index_At (of_nat r)"
    using root_index_nat [OF assms] by (simp_all add: r_def)
  have h: "h < 32" using r by (auto simp: h_def intro!: height_at_less)
  have bound: "2 ^ Suc h \<le> r + 2" unfolding h_def by (rule height_at_bound)
  have pow: "1 \<le> (2::nat) ^ Suc h" by (rule one_le_power) simp
  have a: "a \<le> r" "a = r + 1 - (2 ^ Suc h - 1)"
    using bound pow Suc_le_two_power [of "Suc h"] unfolding a_def by linarith+
  have height: "m_height (Index_At (of_nat r)) + 1 = of_nat (Suc h)"
  proof -
    have "m_height (Index_At (of_nat r)) = of_nat h"
      using m_height_Index_At [of r] r h by (simp add: word_unat_eq_iff unat_of_nat_u64 h_def)
    then show ?thesis by simp
  qed
  have "push_bit (unat (of_nat (Suc h) :: u64)) 1 - 1 = (of_nat (2 ^ Suc h - 1) :: u64)"
  proof -
    have "unat (of_nat (Suc h) :: u64) = Suc h" using h by (intro unat_of_nat_u64) simp
    then show ?thesis using pow by (simp add: push_bit_eq_mult of_nat_diff)
  qed
  moreover have "of_nat r + 1 - (of_nat (2 ^ Suc h - 1) :: u64) = of_nat a"
    using a bound pow by (simp add: of_nat_diff)
  moreover have "of_nat a \<le> (of_nat r :: u64)" and sub: "unat (of_nat r - of_nat a :: u64) = r - a"
    using a r by (simp_all add: word_le_nat_alt unat_of_nat_u64 unat_sub_no_underflow)
  ultimately have set: "pruned_wires (root_index w) = (\<lambda>k. wire (of_nat a + of_nat k)) ` {0..<Suc (r - a)}"
    unfolding idx pruned_wires_def Let_def height by (simp add: Index_At_def)
  have "x = wire (of_nat a + of_nat k) \<longleftrightarrow> unat x = Suc (a + k)" if "k < Suc (r - a)" for k
  proof -
    have ak: "a + k < 2 ^ 32 - 1" using that a(1) r by linarith
    then have u: "unat (of_nat (a + k) :: u64) = a + k" by (intro unat_of_nat_u64) simp
    have "unat (wire (of_nat (a + k)) :: u32) = Suc (unat (of_nat (a + k) :: u64))"
      by (rule unat_wire) (use ak u in linarith)
    then have "unat (wire (of_nat (a + k)) :: u32) = Suc (a + k)" by (simp only: u)
    then show ?thesis by (simp add: word_unat_eq_iff)
  qed
  then have "x \<in> pruned_wires (root_index w) \<longleftrightarrow> (\<exists>k<Suc (r - a). unat x = Suc (a + k))"
    unfolding set by (force simp only: image_iff atLeast0LessThan lessThan_iff Bex_def)
  also have "\<dots> \<longleftrightarrow> x \<noteq> 0 \<and> a \<le> root_pos x \<and> root_pos x \<le> r"
    using a by (auto simp: root_pos_def unat_eq_zero [symmetric] simp del: unat_eq_zero intro!: exI [of _ "unat x - 1 - a"])
  finally show ?thesis by (simp add: subtree_of_def a_def h_def r_def)
qed

lemma sorted_filter_take:
  "sorted_wrt (<) es \<Longrightarrow> filter (\<lambda>y. y \<le> x) es = take (length (filter (\<lambda>y. y \<le> x) es)) es"
  for x :: "'a :: linorder"
proof (induction es)
  case (Cons e es)
  show ?case
  proof (cases "e \<le> x")
    case True
    then show ?thesis using Cons by simp
  next
    case False
    then have "filter (\<lambda>y. y \<le> x) es = []" using Cons.prems by (force simp: filter_empty_conv)
    then show ?thesis using False by simp
  qed
qed simp

lemma roots_few: "roaring_laws R \<Longrightarrow> length (rb_elements R b) < 2 ^ 33"
proof -
  assume "roaring_laws R"
  then have "distinct (rb_elements R b)"
    using roaring_elements(2) [of R b] by (simp add: strict_sorted_iff)
  then have "length (rb_elements R b) = card (set (rb_elements R b))" by (simp add: distinct_card)
  also have "\<dots> \<le> card (UNIV :: u32 set)" by (intro card_mono) simp_all
  finally show ?thesis by (simp add: card_word)
qed

text \<open>A cache of prefix sums, looked up at the rank of a position, gives the sum over the roots up to it.\<close>

lemma cached_shift_sum:
  fixes g :: "u32 \<Rightarrow> u64"
  assumes R: "roaring_laws R" and es: "es = rb_elements R b"
    and cache: "cache = map (\<lambda>i. sum_list (map g (take (Suc i) es))) [0..<length es]"
  shows "(let index = rb_rank R x b in if index = 0 then 0 else cached_shift cache index) =
    sum_list (map g (filter (\<lambda>w. w \<le> x) es))"
proof -
  define k where "k = length (filter (\<lambda>w. w \<le> x) es)"
  have k: "k \<le> length es" by (simp add: k_def)
  have few: "length es < 2 ^ 64" using roots_few [OF R, of b] by (simp add: es)
  have uk: "unat (of_nat k :: u64) = k" and ue: "unat (of_nat (length es) :: u64) = length es"
    using le_less_trans [OF k few] few by (simp_all add: unat_of_nat_u64)
  have take: "filter (\<lambda>w. w \<le> x) es = take k es"
    unfolding k_def es by (rule sorted_filter_take [OF roaring_elements(2) [OF R]])
  have rank: "rb_rank R x b = of_nat k" by (simp add: roaring_elements(8) [OF R] k_def es)
  show ?thesis
  proof (cases "k = 0")
    case True
    then show ?thesis by (simp add: rank take)
  next
    case False
    then have "of_nat k \<noteq> (0 :: u64)" using uk by (metis unat_0)
    moreover have "\<not> of_nat (length es) < (of_nat k :: u64)"
      unfolding word_less_nat_alt uk ue using k by linarith
    moreover have "k - Suc 0 < length es" and "Suc (k - Suc 0) = k" using False k by auto
    ultimately show ?thesis by (simp add: rank take cached_shift_def cache uk)
  qed
qed

text \<open>The cached shifts of a node are the sums of the shifts of the roots up to it.\<close>

lemma GetShift_sum:
  assumes R: "roaring_laws R" and ok: "caches_ok R p"
  shows "GetShift R p i =
    sum_list (map shift_of (filter (\<lambda>w. w \<le> wire (m_position i)) (rb_elements R (pl_prunedRoots p))))"
proof -
  have cache: "pl_shiftCache p = map (\<lambda>i. sum_list (map shift_of (take (Suc i) (rb_elements R (pl_prunedRoots p)))))
      [0..<length (rb_elements R (pl_prunedRoots p))]"
    using ok by (simp add: caches_ok_def BuildShiftCaches_eq [OF R] shift_caches_prefix_sums)
  from cached_shift_sum [OF R refl cache, of "wire (m_position i)"] show ?thesis
    using cache by (auto simp: GetShift_def roaring_elements(6) [OF R])
qed

lemma GetLeafShift_sum:
  assumes R: "roaring_laws R" and ok: "caches_ok R p"
  shows "GetLeafShift R p i =
    sum_list (map leaf_shift_of (filter (\<lambda>w. w \<le> wire (m_position i)) (rb_elements R (pl_prunedRoots p))))"
proof -
  have cache: "pl_leafShiftCache p =
      map (\<lambda>i. sum_list (map leaf_shift_of (take (Suc i) (rb_elements R (pl_prunedRoots p)))))
        [0..<length (rb_elements R (pl_prunedRoots p))]"
    using ok by (simp add: caches_ok_def BuildShiftCaches_eq [OF R] shift_caches_prefix_sums)
  from cached_shift_sum [OF R refl cache, of "wire (m_position i)"] show ?thesis
    using cache by (auto simp: GetLeafShift_def Let_def roaring_elements(6) [OF R])
qed

text \<open>Roots of disjoint subtrees.\<close>

definition roots_disjoint :: "u32 list \<Rightarrow> bool" where
  "roots_disjoint es \<longleftrightarrow>
     (\<forall>w \<in> set es. w \<noteq> 0) \<and>
     (\<forall>w \<in> set es. \<forall>w' \<in> set es. w \<noteq> w' \<longrightarrow> subtree_of (root_pos w) \<inter> subtree_of (root_pos w') = {})"

definition compacted_below :: "nat \<Rightarrow> nat set" where
  "compacted_below q = subtree_of q - {q}"

lemma compacted_below_eq: "compacted_below q = {q + 2 - 2 ^ Suc (height_at q) ..< q}"
  by (auto simp: compacted_below_def subtree_of_def)

lemma card_compacted_below: "card (compacted_below q) = 2 * (2 ^ height_at q - 1)"
  using height_at_bound [of q] by (simp add: compacted_below_eq diff_mult_distrib2)

lemma unat_shift_of: "w \<noteq> 0 \<Longrightarrow> shift_of w = of_nat (card (compacted_below (root_pos w)))"
proof -
  assume w: "w \<noteq> 0"
  have "root_pos w < 2 ^ 64" using root_index_nat(2) [OF w] by simp
  then have "unat (m_height (root_index w)) = height_at (root_pos w)"
    unfolding root_index_nat(1) [OF w] by (rule m_height_Index_At)
  moreover have "1 \<le> (2::nat) ^ height_at (root_pos w)" by (rule one_le_power) simp
  ultimately show ?thesis
    by (simp add: root_shift_def card_compacted_below push_bit_eq_mult of_nat_diff)
qed

lemma finite_subtree_of [simp]: "finite (subtree_of q)"
  by (simp add: subtree_of_def)

lemma self_in_subtree: "q \<in> subtree_of q"
  using Suc_le_two_power [of "Suc (height_at q)"] by (simp add: subtree_of_def)

lemma IsCompacted_iff:
  assumes R: "roaring_laws R" and ok: "caches_ok R p" and d: "roots_disjoint (rb_elements R (pl_prunedRoots p))"
    and q: "q < 2 ^ 32 - 1"
  shows "IsCompacted R p (Index_At (of_nat q)) \<longleftrightarrow>
    (\<exists>w \<in> set (rb_elements R (pl_prunedRoots p)). q \<in> compacted_below (root_pos w))"
proof -
  let ?es = "rb_elements R (pl_prunedRoots p)"
  let ?x = "wire (of_nat q) :: u32"
  have uq: "unat (of_nat q :: u64) = q" using q by (intro unat_of_nat_u64) simp
  have ux: "unat ?x = Suc q" using unat_wire [of "of_nat q"] q uq by simp
  then have x: "?x \<noteq> 0" "root_pos ?x = q"
    unfolding root_pos_def by (metis nat.distinct(1) unat_0, linarith)
  have inj: "w = ?x" if "w \<in> set ?es" "root_pos w = q" for w
  proof -
    have "w \<noteq> 0" using that(1) d unfolding roots_disjoint_def by blast
    then have "unat w = unat ?x" using root_index_nat(3) [of w] that(2) ux by linarith
    then show ?thesis unfolding word_unat_eq_iff .
  qed
  have wires: "?x \<in> pruned_wires (root_index w) \<longleftrightarrow> q \<in> subtree_of (root_pos w)" if "w \<in> set ?es" for w
  proof -
    have "w \<noteq> 0" using that d unfolding roots_disjoint_def by blast
    from pruned_wires_iff [OF this, of ?x] show ?thesis unfolding x(2) using x(1) by blast
  qed
  have pruned: "IsPruned R p (Index_At (of_nat q)) \<longleftrightarrow> (\<exists>w \<in> set ?es. q \<in> subtree_of (root_pos w))"
  proof -
    have "IsPruned R p (Index_At (of_nat q)) \<longleftrightarrow> ?x \<in> (\<Union>w \<in> set ?es. pruned_wires (root_index w))"
      unfolding IsPruned_def roaring_elements(5) [OF R] ok [unfolded caches_ok_def, THEN conjunct1]
        elements_BuildPrunedCache [OF R] by (simp add: Index_At_def)
    then show ?thesis using wires by blast
  qed
  have root: "IsPrunedRoot R p (Index_At (of_nat q)) \<longleftrightarrow> ?x \<in> set ?es"
    by (simp add: IsPrunedRoot_def Index_At_def roaring_elements(5) [OF R])
  have apart: "w = ?x" if "w \<in> set ?es" "?x \<in> set ?es" "q \<in> subtree_of (root_pos w)" for w
  proof (rule ccontr)
    assume "w \<noteq> ?x"
    then have "subtree_of (root_pos w) \<inter> subtree_of (root_pos ?x) = {}"
      using d that(1,2) unfolding roots_disjoint_def by blast
    then show False using that(3) self_in_subtree [of q] unfolding x(2) by blast
  qed
  show ?thesis
  proof
    assume "IsCompacted R p (Index_At (of_nat q))"
    then obtain w where "w \<in> set ?es" "q \<in> subtree_of (root_pos w)" "?x \<notin> set ?es"
      unfolding IsCompacted_def pruned root by blast
    then show "\<exists>w \<in> set ?es. q \<in> compacted_below (root_pos w)"
      using inj unfolding compacted_below_def by blast
  next
    assume "\<exists>w \<in> set ?es. q \<in> compacted_below (root_pos w)"
    then obtain w where w: "w \<in> set ?es" "q \<in> subtree_of (root_pos w)" "q \<noteq> root_pos w"
      unfolding compacted_below_def by blast
    then have "?x \<notin> set ?es" using apart [of w] x(2) by metis
    then show "IsCompacted R p (Index_At (of_nat q))"
      unfolding IsCompacted_def pruned root using w by blast
  qed
qed

text \<open>A position is compacted when it lies below a root.\<close>

definition compacted :: "u32 list \<Rightarrow> nat \<Rightarrow> bool" where
  "compacted es q \<longleftrightarrow> (\<exists>w \<in> set es. q \<in> compacted_below (root_pos w))"

text \<open>Counting the numbers \<open>i\<close> whose position \<open>g i\<close> is compacted, root by root.\<close>

lemma card_compacted_roots:
  assumes "roots_disjoint es" "set fs \<subseteq> set es" "distinct fs" "\<And>q. finite (g -` compacted_below q)"
  shows "(\<Sum>w \<leftarrow> fs. card (g -` compacted_below (root_pos w))) = card {i. compacted fs (g i)}"
proof -
  have "{i. compacted fs (g i)} = (\<Union>w \<in> set fs. g -` compacted_below (root_pos w))" by (auto simp: compacted_def)
  also have "card \<dots> = (\<Sum>w \<in> set fs. card (g -` compacted_below (root_pos w)))"
  proof (intro card_UN_disjoint ballI impI)
    fix w w' assume "w \<in> set fs" "w' \<in> set fs" "w \<noteq> w'"
    then have "subtree_of (root_pos w) \<inter> subtree_of (root_pos w') = {}"
      using assms(1,2) unfolding roots_disjoint_def by blast
    then show "g -` compacted_below (root_pos w) \<inter> g -` compacted_below (root_pos w') = {}"
      unfolding compacted_below_def by blast
  qed (simp_all add: assms(4))
  also have "\<dots> = (\<Sum>w \<leftarrow> fs. card (g -` compacted_below (root_pos w)))"
    using assms(3) by (simp add: sum_list_distinct_conv_sum_set)
  finally show ?thesis ..
qed

text \<open>The shift of a position counts the positions compacted below the roots up to it.\<close>

lemma GetShift_card:
  assumes R: "roaring_laws R" and ok: "caches_ok R p" and d: "roots_disjoint (rb_elements R (pl_prunedRoots p))"
  shows "GetShift R p i =
    of_nat (card {r. compacted (filter (\<lambda>w. w \<le> wire (m_position i)) (rb_elements R (pl_prunedRoots p))) r})"
proof -
  let ?es = "rb_elements R (pl_prunedRoots p)"
  let ?fs = "filter (\<lambda>w. w \<le> wire (m_position i)) ?es"
  have distinct: "distinct ?es" using roaring_elements(2) [OF R, of "pl_prunedRoots p"] by (simp add: strict_sorted_iff)
  have "sum_list (map shift_of ?fs) = of_nat (\<Sum>w \<leftarrow> ?fs. card (compacted_below (root_pos w)))"
    unfolding sum_list_of_nat [symmetric] map_map
    using d unat_shift_of by (intro arg_cong [of _ _ sum_list] map_cong) (auto simp: roots_disjoint_def)
  then show ?thesis
    unfolding GetShift_sum [OF R ok] using card_compacted_roots [OF d, of ?fs id] distinct
    by (simp add: compacted_below_def)
qed

lemma wire_le_iff: "w \<noteq> 0 \<Longrightarrow> q < 2 ^ 32 - 1 \<Longrightarrow> w \<le> wire (of_nat q) \<longleftrightarrow> root_pos w \<le> q"
proof -
  assume w: "w \<noteq> 0" and q: "q < 2 ^ 32 - 1"
  have "unat (of_nat q :: u64) = q" using q by (intro unat_of_nat_u64) simp
  then have "unat (wire (of_nat q) :: u32) = Suc q" using unat_wire [of "of_nat q"] q by simp
  then show ?thesis using root_index_nat(3) [OF w] by (simp add: word_le_nat_alt)
qed

lemma compacted_before:
  assumes "q < 2 ^ 32 - 1" "\<not> compacted es q" "\<forall>w \<in> set es. w \<noteq> 0"
  shows "{r. compacted (filter (\<lambda>w. w \<le> wire (of_nat q)) es) r} = {r. r < q \<and> compacted es r}"
proof -
  have "filter (\<lambda>w. w \<le> wire (of_nat q)) es = filter (\<lambda>w. root_pos w \<le> q) es"
    using wire_le_iff [OF _ assms(1)] assms(3) by (intro filter_cong) auto
  then show ?thesis using assms(2) by (force simp: compacted_def compacted_below_eq)
qed

section \<open>An instance of the library and the properties\<close>

text \<open>Sets of 32-bit numbers, enumerated in increasing order, satisfy the laws.\<close>

definition set_roaring :: "u32 set roaring" where
  "set_roaring =
     \<lparr>rb_empty = {}, rb_add = insert, rb_remove = (\<lambda>x b. b - {x}), rb_contains = (\<in>), rb_isEmpty = (\<lambda>b. b = {}),
      rb_maximum = (\<lambda>b. if sorted_list_of_set b = [] then 0 else last (sorted_list_of_set b)),
      rb_rank = (\<lambda>x b. of_nat (length (filter (\<lambda>y. y \<le> x) (sorted_list_of_set b)))),
      rb_elements = sorted_list_of_set, rb_runOptimize = id, rb_write = (\<lambda>b. []),
      rb_readSafe = (\<lambda>bs. Inr {})\<rparr>"

lemma set_roaring_laws: "roaring_laws set_roaring"
proof -
  have "sorted_wrt (<) (sorted_list_of_set b)" for b :: "u32 set"
    by (simp add: strict_sorted_iff)
  moreover have "set (sorted_list_of_set b) = b" for b :: "u32 set"
    by (rule set_sorted_list_of_set) simp
  ultimately show ?thesis
    unfolding roaring_laws_def set_roaring_def by (simp del: sorted_list_of_set_insert_remove)
qed

definition sample_prune_list :: "u32 set PruneList" where
  "sample_prune_list = RebuildCaches set_roaring (PruneList_New {3} None set_roaring)"

text \<open>
  The incremental maintenance of the caches agrees with the rebuild: after \<open>AddPrunedRoot\<close>, in order or out
  of order, the cache of pruned positions and both shift caches are what \<open>BuildPrunedCache\<close> and
  \<open>BuildShiftCaches\<close> compute from the new set of roots.
\<close>

theorem AddPrunedRoot_caches:
  assumes "roaring_laws R" "caches_ok R p" "pos < 2 ^ 32 - 1"
  shows "caches_ok R (AddPrunedRoot R (Index_At pos) p)"
  using assms by (rule caches_ok_AddPrunedRoot)

theorem AddPrunedRoot_caches_witness:
  "caches_ok set_roaring (AddPrunedRoot set_roaring (Index_At 5) sample_prune_list)"
  unfolding sample_prune_list_def
  by (rule AddPrunedRoot_caches [OF set_roaring_laws RebuildCaches_ok]) simp

text \<open>
  C21. Compaction shifts are right: in a prune list whose caches are consistent and whose roots have disjoint
  subtrees, the shift of a position that is not compacted is exactly the number of compacted positions before
  it, so position minus shift is the place of its hash in the compacted file.
\<close>

theorem GetShift_counts_compacted:
  assumes R: "roaring_laws R" and ok: "caches_ok R p" and d: "roots_disjoint (rb_elements R (pl_prunedRoots p))"
    and q: "q < 2 ^ 32 - 1" and nc: "\<not> IsCompacted R p (Index_At (of_nat q))"
  shows "unat (GetShift R p (Index_At (of_nat q))) =
    card {r. r < q \<and> IsCompacted R p (Index_At (of_nat r))}"
proof -
  let ?es = "rb_elements R (pl_prunedRoots p)"
  have comp: "IsCompacted R p (Index_At (of_nat r)) \<longleftrightarrow> compacted ?es r" if "r \<le> q" for r
    using IsCompacted_iff [OF R ok d, of r] q that by (simp add: compacted_def)
  then have "\<not> compacted ?es q" using nc by blast
  note before = compacted_before [OF q this d [unfolded roots_disjoint_def, THEN conjunct1]]
  have set: "{r. r < q \<and> IsCompacted R p (Index_At (of_nat r))} = {r. r < q \<and> compacted ?es r}"
    using comp by auto
  have "card {r. r < q \<and> compacted ?es r} \<le> card {..<q}" by (intro card_mono) auto
  then show ?thesis
    unfolding set GetShift_card [OF R ok d] using before q by (simp add: Index_At_def unat_of_nat_u64)
qed

lemma sample_roots: "rb_elements set_roaring (pl_prunedRoots sample_prune_list) = [3]"
  by (simp add: sample_prune_list_def RebuildCaches_def PruneList_New_def set_roaring_def)

lemma sample_disjoint: "roots_disjoint (rb_elements set_roaring (pl_prunedRoots sample_prune_list))"
  unfolding sample_roots by (simp add: roots_disjoint_def)

lemma sample_not_compacted: "\<not> IsCompacted set_roaring sample_prune_list (Index_At (of_nat 3))"
proof -
  have "3 \<notin> compacted_below (root_pos 3)" by (simp add: compacted_below_def subtree_of_def root_pos_def)
  then show ?thesis
    unfolding sample_prune_list_def
    using IsCompacted_iff [OF set_roaring_laws RebuildCaches_ok, of "PruneList_New {3} None set_roaring" 3]
      sample_disjoint sample_roots
    by (simp add: sample_prune_list_def)
qed

theorem GetShift_counts_compacted_witness:
  "unat (GetShift set_roaring sample_prune_list (Index_At (of_nat 3))) =
    card {r. r < 3 \<and> IsCompacted set_roaring sample_prune_list (Index_At (of_nat r))}"
  by (rule GetShift_counts_compacted [OF set_roaring_laws _ sample_disjoint _ sample_not_compacted])
    (simp_all add: sample_prune_list_def RebuildCaches_ok)

end
