(* ===== verification/Bitmap.thy ===== *)
theory Bitmap
  imports Files PruneList
begin

text \<open>
  The bitmap of unspent outputs: \<^verbatim>\<open>include/Core/File/BitmapFile.h\<close> and the leaf set
  \<^verbatim>\<open>src/PMMR/Common/LeafSet.h\<close> built on it. The ordered map of modified bytes is an association list with
  distinct keys, the memory map the bytes of the file.
\<close>

section \<open>The bitmap file\<close>

record BitmapFile =
  bf_modifiedBytes :: "(u64 \<times> u8) list"
  bf_mmap :: bytes
  bf_dirty :: bool

definition map_put :: "'k \<Rightarrow> 'v \<Rightarrow> ('k \<times> 'v) list \<Rightarrow> ('k \<times> 'v) list" where
  "map_put key val m = (key, val) # filter (\<lambda>(k, v). k \<noteq> key) m"

definition GetByte :: "BitmapFile \<Rightarrow> u64 \<Rightarrow> u8" where
  "GetByte f byteIndex =
     (case map_of (bf_modifiedBytes f) byteIndex of
        Some bt \<Rightarrow> bt
      | None \<Rightarrow> if byteIndex < of_nat (length (bf_mmap f)) then bf_mmap f ! unat byteIndex else 0)"

definition BitToByte :: "u8 \<Rightarrow> u8" where
  "BitToByte bt = push_bit (7 - unat bt) 1"

definition IsSet :: "BitmapFile \<Rightarrow> u64 \<Rightarrow> bool" where
  "IsSet f leafIndex = (GetByte f (leafIndex div 8) AND BitToByte (ucast (leafIndex mod 8)) \<noteq> 0)"

definition BitmapFile_Set :: "u64 \<Rightarrow> BitmapFile \<Rightarrow> BitmapFile" where
  "BitmapFile_Set leafIndex f =
     (let bt = GetByte f (leafIndex div 8) OR BitToByte (ucast (leafIndex mod 8))
      in f\<lparr>bf_dirty := True, bf_modifiedBytes := map_put (leafIndex div 8) bt (bf_modifiedBytes f)\<rparr>)"

definition Unset :: "u64 \<Rightarrow> BitmapFile \<Rightarrow> BitmapFile" where
  "Unset leafIndex f =
     (let bt = GetByte f (leafIndex div 8) AND (0xff XOR BitToByte (ucast (leafIndex mod 8)))
      in f\<lparr>bf_dirty := True, bf_modifiedBytes := map_put (leafIndex div 8) bt (bf_modifiedBytes f)\<rparr>)"

text \<open>The value subtracted from is a 32-bit number, so the wire position 0 becomes \<open>2 ^ 32 - 1\<close>.\<close>

definition set_position :: "(u64 \<Rightarrow> BitmapFile \<Rightarrow> BitmapFile) \<Rightarrow> u32 \<Rightarrow> BitmapFile \<Rightarrow> BitmapFile" where
  "set_position change current_value f =
     (let mmr_idx = Index_At (ucast (current_value - 1))
      in if IsLeaf mmr_idx then change (GetLeafIndex mmr_idx) f else f)"

definition Set_Roaring :: "'b roaring \<Rightarrow> 'b \<Rightarrow> BitmapFile \<Rightarrow> BitmapFile" where
  "Set_Roaring R positionsToSet f = fold (set_position BitmapFile_Set) (rb_elements R positionsToSet) f"

definition Unset_Roaring :: "'b roaring \<Rightarrow> 'b \<Rightarrow> BitmapFile \<Rightarrow> BitmapFile" where
  "Unset_Roaring R positionsToUnset f = fold (set_position Unset) (rb_elements R positionsToUnset) f"

definition GetNumBytes :: "BitmapFile \<Rightarrow> u64" where
  "GetNumBytes f =
     (let size' = (if bf_modifiedBytes f \<noteq> [] then Max (fst ` set (bf_modifiedBytes f)) + 1 else 0)
      in if bf_mmap f \<noteq> [] then max size' (of_nat (length (bf_mmap f)) + 1) else size')"

definition BitmapFile_Rewind :: "u64 \<Rightarrow> u64 list \<Rightarrow> BitmapFile \<Rightarrow> BitmapFile" where
  "BitmapFile_Rewind numLeaves leavesToAdd f =
     (let f = fold BitmapFile_Set leavesToAdd f;
          currentSize = GetNumBytes f * 8
      in fold (\<lambda>k. Unset (numLeaves + of_nat k)) [0..<unat currentSize - unat numLeaves] f)"

text \<open>The leaf index of bit \<open>j\<close> of byte \<open>i\<close> is computed at 32 bits.\<close>

definition byte_positions :: "BitmapFile \<Rightarrow> u32 \<Rightarrow> u32 list" where
  "byte_positions f i =
     map (\<lambda>j. ucast (LeafIndex_GetPosition (LeafIndex_At (ucast (i * 8 + of_nat j))) + 1))
       (filter (\<lambda>j. 0 < GetByte f (ucast i) AND BitToByte (of_nat j)) [0..<8])"

definition ToRoaring :: "'b roaring \<Rightarrow> BitmapFile \<Rightarrow> 'b" where
  "ToRoaring R f =
     fold (rb_add R) (concat (map (\<lambda>i. byte_positions f (of_nat i)) [0..<unat (ucast (GetNumBytes f) :: u32)]))
       (rb_empty R)"

text \<open>Seeking past the end and writing fills the gap with zeros.\<close>

definition write_byte :: "u64 \<times> u8 \<Rightarrow> bytes \<Rightarrow> bytes" where
  "write_byte = (\<lambda>(pos, bt) file. (file @ replicate (Suc (unat pos) - length file) 0)[unat pos := bt])"

text \<open>Whether mapping the file again succeeds is an argument; the code ignores a failure.\<close>

definition BitmapFile_Commit :: "bool \<Rightarrow> BitmapFile \<Rightarrow> BitmapFile" where
  "BitmapFile_Commit mapped f =
     (if bf_modifiedBytes f \<noteq> [] then
        let file = fold write_byte (bf_modifiedBytes f) (bf_mmap f)
        in \<lparr>bf_modifiedBytes = [], bf_mmap = (if mapped then file else []), bf_dirty = False\<rparr>
      else f)"

definition BitmapFile_Rollback :: "BitmapFile \<Rightarrow> BitmapFile" where
  "BitmapFile_Rollback f = f\<lparr>bf_modifiedBytes := [], bf_dirty := False\<rparr>"

definition BitmapFile_New :: "bytes \<Rightarrow> BitmapFile" where
  "BitmapFile_New file = \<lparr>bf_modifiedBytes = [], bf_mmap = file, bf_dirty = False\<rparr>"

text \<open>\<open>Create\<close> loads the file and commits the bits of a bitmap.\<close>

definition BitmapFile_Create :: "'b roaring \<Rightarrow> bytes \<Rightarrow> 'b \<Rightarrow> BitmapFile" where
  "BitmapFile_Create R file bitmap = BitmapFile_Commit True (Set_Roaring R bitmap (BitmapFile_New file))"

text \<open>\<open>operator[]\<close> returns one of two static constants, both of which are initialised to false.\<close>

definition BitmapFile_at :: "BitmapFile \<Rightarrow> u64 \<Rightarrow> bool" where
  "BitmapFile_at f leafIndex = (if IsSet f leafIndex then False else False)"

section \<open>The leaf set\<close>

definition LeafSet_Add :: "LeafIndex \<Rightarrow> BitmapFile \<Rightarrow> BitmapFile" where
  "LeafSet_Add leafIndex = BitmapFile_Set (m_leafIndex leafIndex)"

definition LeafSet_Remove :: "LeafIndex \<Rightarrow> BitmapFile \<Rightarrow> BitmapFile" where
  "LeafSet_Remove leafIndex = Unset (m_leafIndex leafIndex)"

definition LeafSet_Contains :: "BitmapFile \<Rightarrow> LeafIndex \<Rightarrow> bool" where
  "LeafSet_Contains f leafIndex = IsSet f (m_leafIndex leafIndex)"

definition LeafSet_Rewind :: "u64 \<Rightarrow> u64 list \<Rightarrow> BitmapFile \<Rightarrow> BitmapFile" where
  "LeafSet_Rewind numLeaves leavesToAdd = BitmapFile_Rewind numLeaves leavesToAdd"

section \<open>Single bits\<close>

lemma map_of_map_put: "map_of (map_put k v m) k' = (if k' = k then Some v else map_of m k')"
proof -
  have "map_of (filter (\<lambda>(a, b). a \<noteq> k) m) k' = map_of m k'" if "k' \<noteq> k"
    using that by (induction m) auto
  then show ?thesis by (simp add: map_put_def)
qed

lemma distinct_map_put: "distinct (map fst m) \<Longrightarrow> distinct (map fst (map_put k v m))"
proof -
  have "distinct (map fst m) \<Longrightarrow> distinct (map fst (filter P m))" for P
    by (induction m) auto
  then show "distinct (map fst m) \<Longrightarrow> distinct (map fst (map_put k v m))"
    by (auto simp: map_put_def)
qed

lemma GetByte_put:
  "GetByte (f\<lparr>bf_dirty := d, bf_modifiedBytes := map_put k v (bf_modifiedBytes f)\<rparr>) k' =
     (if k' = k then v else GetByte f k')"
  by (simp add: GetByte_def map_of_map_put split: option.split)

text \<open>Bit \<open>j\<close> of a byte is counted from the left: the mask of leaf \<open>i\<close> is bit \<open>bit_of i\<close>.\<close>

definition bit_of :: "u64 \<Rightarrow> nat" where
  "bit_of i = 7 - unat i mod 8"

lemma BitToByte_leaf: "BitToByte (ucast (i mod 8)) = push_bit (bit_of i) 1"
proof -
  have "unat (i mod 8) = unat i mod 8" by (simp add: unat_mod)
  moreover have "unat (ucast (i mod 8) :: u8) = unat (i mod 8)"
    unfolding unsigned_ucast_eq by (simp add: take_bit_nat_eq_self unat_mod)
  ultimately show ?thesis by (simp only: BitToByte_def bit_of_def)
qed

lemma IsSet_bit: "IsSet f i \<longleftrightarrow> bit (GetByte f (i div 8)) (bit_of i)"
  unfolding IsSet_def BitToByte_leaf by (rule and_one_bit)

lemma leaf_eq_iff: "i = j \<longleftrightarrow> i div 8 = j div 8 \<and> bit_of i = bit_of j" for i j :: u64
proof -
  have "i div 8 = j div 8 \<longleftrightarrow> unat i div 8 = unat j div 8"
    by (simp add: word_unat_eq_iff unat_div)
  moreover have "bit_of i = bit_of j \<longleftrightarrow> unat i mod 8 = unat j mod 8"
  proof -
    have "unat i mod 8 < 8" "unat j mod 8 < 8" by simp_all
    then show ?thesis unfolding bit_of_def by linarith
  qed
  ultimately show ?thesis
    unfolding word_unat_eq_iff by (metis div_mod_decomp)
qed

lemma bit_of_less: "bit_of i < 8"
  by (simp add: bit_of_def)

lemma bit_set_mask: "n < 8 \<Longrightarrow> bit (x OR 2 ^ k) n \<longleftrightarrow> bit x n \<or> n = k" for x :: u8
  by (auto simp: bit_or_iff bit_exp_iff)

lemma bit_clear_mask: "n < 8 \<Longrightarrow> bit (x AND (0xff XOR 2 ^ k)) n \<longleftrightarrow> bit x n \<and> n \<noteq> k" for x :: u8
proof -
  assume n: "n < 8"
  have "(0xff :: u8) = - 1" by simp
  then have "0xff XOR (2 ^ k :: u8) = NOT (2 ^ k)" by (simp only: bit.xor_one_left)
  then show ?thesis using n by (auto simp: bit_and_iff bit_not_iff bit_exp_iff)
qed

lemma IsSet_Set: "IsSet (BitmapFile_Set j f) i \<longleftrightarrow> i = j \<or> IsSet f i"
  using bit_of_less [of i]
  by (auto simp: IsSet_bit BitmapFile_Set_def GetByte_put BitToByte_leaf bit_set_mask leaf_eq_iff [of i j])

lemma IsSet_Unset: "IsSet (Unset j f) i \<longleftrightarrow> i \<noteq> j \<and> IsSet f i"
  using bit_of_less [of i]
  by (auto simp: IsSet_bit Unset_def GetByte_put BitToByte_leaf bit_clear_mask leaf_eq_iff [of i j])

lemma IsSet_fold_Set: "IsSet (fold BitmapFile_Set js f) i \<longleftrightarrow> i \<in> set js \<or> IsSet f i"
  by (induction js arbitrary: f) (auto simp: IsSet_Set)

lemma IsSet_fold_Unset: "IsSet (fold (\<lambda>k. Unset (g k)) ks f) i \<longleftrightarrow> i \<notin> g ` set ks \<and> IsSet f i"
  by (induction ks arbitrary: f) (auto simp: IsSet_Unset)

section \<open>The invariant and the end of the bitmap\<close>

definition bitmap_ok :: "BitmapFile \<Rightarrow> bool" where
  "bitmap_ok f \<longleftrightarrow>
     distinct (map fst (bf_modifiedBytes f)) \<and>
     (\<forall>k \<in> fst ` set (bf_modifiedBytes f). unat k < 2 ^ 60) \<and> length (bf_mmap f) \<le> 2 ^ 60"

lemma bitmap_ok_put:
  "bitmap_ok f \<Longrightarrow> unat k < 2 ^ 60 \<Longrightarrow>
   bitmap_ok (f\<lparr>bf_dirty := d, bf_modifiedBytes := map_put k v (bf_modifiedBytes f)\<rparr>)"
  using distinct_map_put [of "bf_modifiedBytes f" k v] by (auto simp: bitmap_ok_def map_put_def)

lemma key_bound: "j < 2 ^ 63 \<Longrightarrow> unat (j div 8 :: u64) < 2 ^ 60"
  by (simp add: unat_div word_less_nat_alt)

lemma bitmap_ok_Set: "bitmap_ok f \<Longrightarrow> j < 2 ^ 63 \<Longrightarrow> bitmap_ok (BitmapFile_Set j f)"
  unfolding BitmapFile_Set_def Let_def by (intro bitmap_ok_put key_bound)

lemma bitmap_ok_Unset: "bitmap_ok f \<Longrightarrow> j < 2 ^ 63 \<Longrightarrow> bitmap_ok (Unset j f)"
  unfolding Unset_def Let_def by (intro bitmap_ok_put key_bound)

lemma bitmap_ok_fold_Set:
  "bitmap_ok f \<Longrightarrow> (\<And>j. j \<in> set js \<Longrightarrow> j < 2 ^ 63) \<Longrightarrow> bitmap_ok (fold BitmapFile_Set js f)"
  by (induction js arbitrary: f) (simp_all add: bitmap_ok_Set)

lemma unat_GetNumBytes:
  assumes "bitmap_ok f"
  shows "unat (GetNumBytes f) \<le> 2 ^ 60 + 1"
    and "unat (GetNumBytes f) \<le> unat k \<Longrightarrow> k \<notin> fst ` set (bf_modifiedBytes f) \<and> length (bf_mmap f) \<le> unat k"
proof -
  let ?m = "bf_modifiedBytes f"
  define a where "a = (if ?m \<noteq> [] then Max (fst ` set ?m) + 1 else 0)"
  have keys: "unat x < 2 ^ 60" if "x \<in> fst ` set ?m" for x
    using that assms unfolding bitmap_ok_def by blast
  have a: "unat a \<le> 2 ^ 60 \<and> (\<forall>x \<in> fst ` set ?m. unat x < unat a)"
  proof (cases "?m = []")
    case True
    then show ?thesis by (simp add: a_def)
  next
    case False
    then have "Max (fst ` set ?m) \<in> fst ` set ?m" by (intro Max_in) auto
    then have max: "unat (Max (fst ` set ?m)) < 2 ^ 60" by (rule keys)
    then have "unat a = Suc (unat (Max (fst ` set ?m)))"
      using False by (simp add: a_def unat_add_no_overflow)
    moreover have "unat x \<le> unat (Max (fst ` set ?m))" if "x \<in> fst ` set ?m" for x
      using that Max_ge [of "fst ` set ?m" x] by (simp add: word_le_nat_alt)
    ultimately show ?thesis using max by (simp add: less_Suc_eq_le)
  qed
  have len: "length (bf_mmap f) \<le> 2 ^ 60" using assms by (simp add: bitmap_ok_def)
  then have "unat (of_nat (length (bf_mmap f)) :: u64) = length (bf_mmap f)" by (intro unat_of_nat_u64) simp
  then have ul: "unat (of_nat (length (bf_mmap f)) + 1 :: u64) = Suc (length (bf_mmap f))"
    using len by (simp add: unat_add_no_overflow)
  have n: "unat (GetNumBytes f) = (if bf_mmap f \<noteq> [] then max (unat a) (Suc (length (bf_mmap f))) else unat a)"
    unfolding GetNumBytes_def a_def [symmetric] Let_def by (auto simp: max_def word_le_nat_alt ul)
  show "unat (GetNumBytes f) \<le> 2 ^ 60 + 1" using a len by (auto simp: n)
  show "k \<notin> fst ` set ?m \<and> length (bf_mmap f) \<le> unat k" if "unat (GetNumBytes f) \<le> unat k"
    using that a by (cases "bf_mmap f = []") (fastforce simp: n)+
qed

lemma IsSet_below:
  assumes "bitmap_ok f" "IsSet f i"
  shows "unat i < unat (GetNumBytes f) * 8"
proof (rule ccontr)
  assume "\<not> ?thesis"
  then have "unat (GetNumBytes f) \<le> unat i div 8" by linarith
  then have "unat (GetNumBytes f) \<le> unat (i div 8)" by (simp add: unat_div)
  note out = unat_GetNumBytes(2) [OF assms(1) this]
  have "length (bf_mmap f) < 2 ^ 64" using assms(1) by (simp add: bitmap_ok_def)
  then have "GetByte f (i div 8) = 0"
    using out map_of_eq_None_iff [of "bf_modifiedBytes f" "i div 8"]
    by (simp add: GetByte_def word_less_nat_alt unat_of_nat_u64)
  then show False using assms(2) by (simp add: IsSet_bit)
qed

lemma IsSet_Rewind:
  assumes ok: "bitmap_ok f" and ls: "\<And>j. j \<in> set leavesToAdd \<Longrightarrow> j < 2 ^ 63"
  shows "IsSet (BitmapFile_Rewind numLeaves leavesToAdd f) i \<longleftrightarrow>
    i < numLeaves \<and> (i \<in> set leavesToAdd \<or> IsSet f i)"
proof -
  let ?f = "fold BitmapFile_Set leavesToAdd f"
  have ok': "bitmap_ok ?f" by (rule bitmap_ok_fold_Set [OF ok ls])
  have size: "unat (GetNumBytes ?f * 8) = unat (GetNumBytes ?f) * 8"
    using unat_GetNumBytes(1) [OF ok'] by (simp add: unat_word_ariths)
  have "i \<in> (\<lambda>k. numLeaves + of_nat k) ` set [0..<unat (GetNumBytes ?f * 8) - unat numLeaves]"
    if "\<not> i < numLeaves" "IsSet ?f i"
  proof (rule image_eqI)
    have le: "unat numLeaves \<le> unat i" using that(1) by (simp add: word_less_nat_alt)
    then show "i = numLeaves + of_nat (unat i - unat numLeaves)"
      by (simp add: of_nat_diff)
    show "unat i - unat numLeaves \<in> set [0..<unat (GetNumBytes ?f * 8) - unat numLeaves]"
      using IsSet_below [OF ok' that(2)] le by (simp add: size)
  qed
  moreover have "i \<notin> (\<lambda>k. numLeaves + of_nat k) ` set [0..<unat (GetNumBytes ?f * 8) - unat numLeaves]"
    if "i < numLeaves"
  proof
    assume "i \<in> (\<lambda>k. numLeaves + of_nat k) ` set [0..<unat (GetNumBytes ?f * 8) - unat numLeaves]"
    then obtain k where k: "k < unat (GetNumBytes ?f) * 8 - unat numLeaves" "i = numLeaves + of_nat k"
      by (auto simp: size)
    have "unat (GetNumBytes ?f) * 8 < 2 ^ 64" using unat_GetNumBytes(1) [OF ok'] by simp
    then have "unat numLeaves + k < 2 ^ 64" using k(1) by arith
    moreover from this have "unat (of_nat k :: u64) = k" by (intro unat_of_nat_u64) simp
    ultimately have "unat i = unat numLeaves + k" by (simp add: k(2) unat_add_no_overflow)
    then show False using that by (simp add: word_less_nat_alt)
  qed
  ultimately show ?thesis
    unfolding BitmapFile_Rewind_def Let_def IsSet_fold_Unset by (auto simp: IsSet_fold_Set)
qed

section \<open>Commit and rollback\<close>

definition byte_at :: "bytes \<Rightarrow> nat \<Rightarrow> u8" where
  "byte_at bs k = (if k < length bs then bs ! k else 0)"

lemma byte_at_write: "byte_at (write_byte (p, v) bs) k = (if k = unat p then v else byte_at bs k)"
  by (auto simp: byte_at_def write_byte_def nth_append)

lemma length_write: "length (write_byte (p, v) bs) = max (length bs) (Suc (unat p))"
  by (simp add: write_byte_def)

lemma byte_at_fold_write:
  "distinct (map fst m) \<Longrightarrow>
   byte_at (fold write_byte m bs) (unat k) = (case map_of m k of Some v \<Rightarrow> v | None \<Rightarrow> byte_at bs (unat k))"
proof (induction m arbitrary: bs)
  case (Cons pv m)
  obtain p v where pv: "pv = (p, v)" by force
  have "map_of m p = None" using Cons.prems by (simp add: pv map_of_eq_None_iff)
  then show ?case
    using Cons by (auto simp: pv byte_at_write simp flip: word_unat_eq_iff split: option.split)
qed simp

lemma length_fold_write:
  "length bs \<le> b \<Longrightarrow> (\<And>k. k \<in> fst ` set m \<Longrightarrow> Suc (unat k) \<le> b) \<Longrightarrow> length (fold write_byte m bs) \<le> b"
proof (induction m arbitrary: bs)
  case (Cons pv m)
  obtain p v where pv: "pv = (p, v)" by force
  show ?case
    unfolding fold_simps comp_def pv
    by (rule Cons.IH) (use Cons.prems in \<open>simp_all add: pv length_write\<close>)
qed simp

lemma GetByte_byte_at:
  "bitmap_ok f \<Longrightarrow>
   GetByte f k = (case map_of (bf_modifiedBytes f) k of Some v \<Rightarrow> v | None \<Rightarrow> byte_at (bf_mmap f) (unat k))"
  by (auto simp: GetByte_def byte_at_def bitmap_ok_def word_less_nat_alt unat_of_nat_u64 split: option.split)

lemma GetByte_committed:
  assumes "length bs < 2 ^ 62"
  shows "GetByte \<lparr>bf_modifiedBytes = [], bf_mmap = bs, bf_dirty = d\<rparr> k = byte_at bs (unat k)"
  using assms by (simp add: GetByte_def byte_at_def word_less_nat_alt unat_of_nat_u64)

lemma Commit_ok:
  assumes ok: "bitmap_ok f"
  shows "bitmap_ok (BitmapFile_Commit True f)" and "IsSet (BitmapFile_Commit True f) = IsSet f"
    and "bf_modifiedBytes (BitmapFile_Commit True f) = []"
proof -
  let ?bs = "fold write_byte (bf_modifiedBytes f) (bf_mmap f)"
  have len: "length ?bs \<le> 2 ^ 60"
    using ok by (intro length_fold_write) (auto simp: bitmap_ok_def)
  have "GetByte (BitmapFile_Commit True f) k = GetByte f k" for k
  proof (cases "bf_modifiedBytes f = []")
    case False
    have "distinct (map fst (bf_modifiedBytes f))" using ok by (simp add: bitmap_ok_def)
    then show ?thesis
      using False len by (simp add: BitmapFile_Commit_def GetByte_committed byte_at_fold_write GetByte_byte_at [OF ok])
  qed (simp add: BitmapFile_Commit_def)
  then show "IsSet (BitmapFile_Commit True f) = IsSet f" by (intro ext) (simp add: IsSet_bit)
  show "bitmap_ok (BitmapFile_Commit True f)" "bf_modifiedBytes (BitmapFile_Commit True f) = []"
    using ok len by (simp_all add: BitmapFile_Commit_def bitmap_ok_def)
qed

definition saved_bits :: "BitmapFile \<Rightarrow> u64 \<Rightarrow> bool" where
  "saved_bits f = IsSet (BitmapFile_Rollback f)"

interpretation bitmap: batchable bitmap_ok IsSet saved_bits "BitmapFile_Commit True" BitmapFile_Rollback
proof
  fix f assume ok: "bitmap_ok f"
  show "bitmap_ok (BitmapFile_Commit True f)" "IsSet (BitmapFile_Commit True f) = IsSet f"
    using Commit_ok [OF ok] by blast+
  have "BitmapFile_Rollback (BitmapFile_Commit True f) = (BitmapFile_Commit True f)\<lparr>bf_dirty := False\<rparr>"
    using Commit_ok(3) [OF ok] by (simp add: BitmapFile_Rollback_def)
  moreover have "IsSet (g\<lparr>bf_dirty := False\<rparr>) = IsSet g" for g
    by (intro ext) (simp add: IsSet_def GetByte_def split: option.split)
  ultimately show "saved_bits (BitmapFile_Commit True f) = IsSet f"
    using Commit_ok(2) [OF ok] by (simp add: saved_bits_def)
  show "bitmap_ok (BitmapFile_Rollback f)" using ok by (simp add: bitmap_ok_def BitmapFile_Rollback_def)
  show "IsSet (BitmapFile_Rollback f) = saved_bits f" by (simp add: saved_bits_def)
  show "saved_bits (BitmapFile_Rollback f) = saved_bits f"
    by (simp add: saved_bits_def BitmapFile_Rollback_def)
qed

section \<open>The bitmap refines a pair of sets\<close>

datatype leaf_op = LeafAdd u64 | LeafRemove u64 | LeafRewind u64 "u64 list" | LeafCommit | LeafRollback

fun leaf_step :: "leaf_op \<Rightarrow> BitmapFile \<Rightarrow> BitmapFile" where
  "leaf_step (LeafAdd i) f = BitmapFile_Set i f"
| "leaf_step (LeafRemove i) f = Unset i f"
| "leaf_step (LeafRewind n is) f = BitmapFile_Rewind n is f"
| "leaf_step LeafCommit f = BitmapFile_Commit True f"
| "leaf_step LeafRollback f = BitmapFile_Rollback f"

fun leaf_spec :: "leaf_op \<Rightarrow> u64 set \<times> u64 set \<Rightarrow> u64 set \<times> u64 set" where
  "leaf_spec (LeafAdd i) (v, d) = (insert i v, d)"
| "leaf_spec (LeafRemove i) (v, d) = (v - {i}, d)"
| "leaf_spec (LeafRewind n is) (v, d) = ({i \<in> v \<union> set is. i < n}, d)"
| "leaf_spec LeafCommit (v, d) = (v, v)"
| "leaf_spec LeafRollback (v, d) = (d, d)"

fun leaves_below :: "nat \<Rightarrow> leaf_op \<Rightarrow> bool" where
  "leaves_below b (LeafAdd i) \<longleftrightarrow> unat i < 8 * b"
| "leaves_below b (LeafRemove i) \<longleftrightarrow> unat i < 8 * b"
| "leaves_below b (LeafRewind n is) \<longleftrightarrow> list_all (\<lambda>i. unat i < 8 * b) is"
| "leaves_below b _ \<longleftrightarrow> True"

definition bitmap_abs :: "BitmapFile \<Rightarrow> u64 set \<times> u64 set" where
  "bitmap_abs f = ({i. IsSet f i}, {i. saved_bits f i})"

text \<open>The modified bytes and the file are inside the first \<open>b\<close> bytes.\<close>

definition bitmap_le :: "nat \<Rightarrow> BitmapFile \<Rightarrow> bool" where
  "bitmap_le b f \<longleftrightarrow>
     distinct (map fst (bf_modifiedBytes f)) \<and>
     (\<forall>k \<in> fst ` set (bf_modifiedBytes f). unat k < b) \<and> length (bf_mmap f) \<le> b"

lemma bitmap_le_ok: "bitmap_le b f \<Longrightarrow> b \<le> 2 ^ 60 \<Longrightarrow> bitmap_ok f"
  unfolding bitmap_le_def bitmap_ok_def by (meson order.trans less_le_trans)

lemma bitmap_le_mono: "bitmap_le b f \<Longrightarrow> b \<le> c \<Longrightarrow> bitmap_le c f"
  unfolding bitmap_le_def by (meson order.trans less_le_trans)

lemma bitmap_le_put:
  "bitmap_le b f \<Longrightarrow> unat j < 8 * b \<Longrightarrow>
   bitmap_le b (f\<lparr>bf_dirty := d, bf_modifiedBytes := map_put (j div 8) v (bf_modifiedBytes f)\<rparr>)"
proof -
  assume le: "bitmap_le b f" and j: "unat j < 8 * b"
  have "unat j div 8 < b" using j by linarith
  then have "unat (j div 8) < b" by (simp add: unat_div)
  then show ?thesis
    using le distinct_map_put [of "bf_modifiedBytes f" "j div 8" v]
    by (auto simp: bitmap_le_def map_put_def)
qed

lemma bitmap_le_Set: "bitmap_le b f \<Longrightarrow> unat j < 8 * b \<Longrightarrow> bitmap_le b (BitmapFile_Set j f)"
  unfolding BitmapFile_Set_def Let_def by (rule bitmap_le_put)

lemma bitmap_le_Unset: "bitmap_le b f \<Longrightarrow> unat j < 8 * b \<Longrightarrow> bitmap_le b (Unset j f)"
  unfolding Unset_def Let_def by (rule bitmap_le_put)

lemma bitmap_le_fold_Set:
  "bitmap_le b f \<Longrightarrow> list_all (\<lambda>j. unat j < 8 * b) js \<Longrightarrow> bitmap_le b (fold BitmapFile_Set js f)"
  by (induction js arbitrary: f) (simp_all add: bitmap_le_Set)

lemma bitmap_le_fold_Unset:
  "bitmap_le b f \<Longrightarrow> (\<And>k. k \<in> set ks \<Longrightarrow> unat (g k) < 8 * b) \<Longrightarrow> bitmap_le b (fold (\<lambda>k. Unset (g k)) ks f)"
  by (induction ks arbitrary: f) (simp_all add: bitmap_le_Unset)

lemma GetNumBytes_le:
  assumes "bitmap_le b f" "b \<le> 2 ^ 60"
  shows "unat (GetNumBytes f) \<le> b + 1"
proof -
  let ?m = "bf_modifiedBytes f"
  have "unat (Max (fst ` set ?m) + 1) \<le> b" if "?m \<noteq> []"
  proof -
    have "Max (fst ` set ?m) \<in> fst ` set ?m" using that by (intro Max_in) auto
    then have "unat (Max (fst ` set ?m)) < b" using assms(1) unfolding bitmap_le_def by blast
    then show ?thesis using assms(2) by (subst unat_add_no_overflow) simp_all
  qed
  moreover have "unat (of_nat (length (bf_mmap f)) + 1 :: u64) \<le> b + 1"
  proof -
    have len: "length (bf_mmap f) \<le> b" using assms(1) by (simp add: bitmap_le_def)
    then have "unat (of_nat (length (bf_mmap f)) :: u64) = length (bf_mmap f)"
      using assms(2) by (intro unat_of_nat_u64) simp
    then show ?thesis using len assms(2) by (subst unat_add_no_overflow) simp_all
  qed
  ultimately show ?thesis unfolding GetNumBytes_def Let_def by (auto simp: max_def)
qed

lemma bitmap_le_Rewind:
  assumes "bitmap_le b f" "b + 1 \<le> 2 ^ 60" "list_all (\<lambda>j. unat j < 8 * b) js"
  shows "bitmap_le (b + 1) (BitmapFile_Rewind n js f)"
proof -
  let ?f = "fold BitmapFile_Set js f"
  have le: "bitmap_le b ?f" by (rule bitmap_le_fold_Set [OF assms(1,3)])
  have "unat (GetNumBytes ?f) \<le> b + 1" using GetNumBytes_le [OF le] assms(2) by simp
  then have size: "unat (GetNumBytes ?f * 8) \<le> 8 * (b + 1)" "unat (GetNumBytes ?f * 8) < 2 ^ 64"
    using assms(2) by (simp_all add: unat_word_ariths)
  show ?thesis
    unfolding BitmapFile_Rewind_def Let_def
  proof (rule bitmap_le_fold_Unset)
    show "bitmap_le (b + 1) ?f" using le by (rule bitmap_le_mono) simp
    fix k assume "k \<in> set [0..<unat (GetNumBytes ?f * 8) - unat n]"
    then have k: "unat n + k < unat (GetNumBytes ?f * 8)" by auto
    then have "unat (of_nat k :: u64) = k" using size(2) by (intro unat_of_nat_u64) linarith
    then have "unat (n + of_nat k) = unat n + k"
      using unat_add_no_overflow [of n "of_nat k"] less_trans [OF k size(2)] by simp
    then show "unat (n + of_nat k) < 8 * (b + 1)" using k size(1) by linarith
  qed
qed

lemma mmap_fold_Set: "bf_mmap (fold BitmapFile_Set js f) = bf_mmap f"
  by (induction js arbitrary: f) (simp_all add: BitmapFile_Set_def Let_def)

lemma mmap_fold_Unset: "bf_mmap (fold (\<lambda>k. Unset (g k)) ks f) = bf_mmap f"
  by (induction ks arbitrary: f) (simp_all add: Unset_def Let_def)

lemma saved_bits_mmap: "bf_mmap f = bf_mmap g \<Longrightarrow> saved_bits f = saved_bits g"
  by (intro ext) (simp add: saved_bits_def BitmapFile_Rollback_def IsSet_def GetByte_def)

lemma bitmap_le_Commit: "bitmap_le b f \<Longrightarrow> bitmap_le b (BitmapFile_Commit True f)"
  by (auto simp: bitmap_le_def BitmapFile_Commit_def Suc_le_eq intro!: length_fold_write)

lemma leaf_step_refines:
  assumes le: "bitmap_le b f" and b: "b + 1 \<le> 2 ^ 60" and op: "leaves_below b op"
  shows "bitmap_le (b + 1) (leaf_step op f) \<and> bitmap_abs (leaf_step op f) = leaf_spec op (bitmap_abs f)"
proof -
  have ok: "bitmap_ok f" using bitmap_le_ok [OF le] b by linarith
  have mono: "bitmap_le b g \<Longrightarrow> bitmap_le (b + 1) g" for g by (erule bitmap_le_mono) simp
  show ?thesis
  proof (cases op)
    case (LeafAdd i)
    have "saved_bits (BitmapFile_Set i f) = saved_bits f"
      by (rule saved_bits_mmap) (simp add: BitmapFile_Set_def Let_def)
    then show ?thesis
      using LeafAdd le op mono [OF bitmap_le_Set] by (auto simp: bitmap_abs_def IsSet_Set)
  next
    case (LeafRemove i)
    have "saved_bits (Unset i f) = saved_bits f"
      by (rule saved_bits_mmap) (simp add: Unset_def Let_def)
    then show ?thesis
      using LeafRemove le op mono [OF bitmap_le_Unset] by (auto simp: bitmap_abs_def IsSet_Unset)
  next
    case (LeafRewind n js)
    have "saved_bits (BitmapFile_Rewind n js f) = saved_bits f"
      by (rule saved_bits_mmap) (simp add: BitmapFile_Rewind_def Let_def mmap_fold_Set mmap_fold_Unset)
    moreover have "j < 2 ^ 63" if "j \<in> set js" for j
      using that LeafRewind op b by (auto simp: list_all_iff word_less_nat_alt)
    ultimately show ?thesis
      using LeafRewind op bitmap_le_Rewind [OF le b] IsSet_Rewind [OF ok] by (auto simp: bitmap_abs_def)
  next
    case LeafCommit
    then show ?thesis
      using mono [OF bitmap_le_Commit [OF le]] bitmap.commit_view [OF ok] bitmap.commit_saved [OF ok]
      by (simp add: bitmap_abs_def)
  next
    case LeafRollback
    have "bitmap_le b (BitmapFile_Rollback f)" using le by (simp add: bitmap_le_def BitmapFile_Rollback_def)
    then show ?thesis
      using LeafRollback mono bitmap.rollback_view [OF ok] bitmap.rollback_saved [OF ok]
      by (simp add: bitmap_abs_def)
  qed
qed

lemma leaves_below_mono: "leaves_below b op \<Longrightarrow> b \<le> c \<Longrightarrow> leaves_below c op"
  by (cases op) (auto simp: list_all_iff)

lemma leaf_run_refines:
  "bitmap_le b f \<Longrightarrow> b + length ops \<le> 2 ^ 60 \<Longrightarrow> list_all (leaves_below b) ops \<Longrightarrow>
   bitmap_le (b + length ops) (fold leaf_step ops f) \<and>
   bitmap_abs (fold leaf_step ops f) = fold leaf_spec ops (bitmap_abs f)"
proof (induction ops arbitrary: b f)
  case (Cons op ops)
  have step: "bitmap_le (b + 1) (leaf_step op f)" "bitmap_abs (leaf_step op f) = leaf_spec op (bitmap_abs f)"
    using leaf_step_refines [of b f op] Cons.prems by simp_all
  have "list_all (leaves_below (b + 1)) ops"
    using Cons.prems(3) leaves_below_mono [of b _ "b + 1"] by (auto simp: list_all_iff)
  then show ?case using Cons.IH [OF step(1)] Cons.prems(2) step(2) by simp
qed simp

text \<open>
  C20. The bitmap file with its buffered bytes and memory map implements a pair of sets of leaves, the current and
  the saved one: after any sequence of additions, removals, rewinds, commits and rollbacks, exactly the leaves of
  the specification are set. A rewind restores the given leaves and drops every leaf from the new size on.
\<close>

theorem leaf_set_refines:
  assumes "length bs \<le> b" "b + length ops \<le> 2 ^ 60" "list_all (leaves_below b) ops"
  shows "bitmap_abs (fold leaf_step ops (BitmapFile_New bs)) =
    fold leaf_spec ops (bitmap_abs (BitmapFile_New bs))"
  using leaf_run_refines [of b "BitmapFile_New bs" ops] assms
  by (simp add: bitmap_le_def BitmapFile_New_def)

theorem leaf_set_refines_witness:
  "let ops = [LeafAdd 3, LeafCommit, LeafRemove 3, LeafAdd 90, LeafRewind 8 [2], LeafRollback]
   in bitmap_abs (fold leaf_step ops (BitmapFile_New [0, 1])) =
      fold leaf_spec ops (bitmap_abs (BitmapFile_New [0, 1]))"
  unfolding Let_def by (rule leaf_set_refines [of _ 100]) simp_all

end
