(* ===== verification/MMRHash.thy ===== *)
theory MMRHash
  imports Bitmap BlockModels
begin

text \<open>
  The hash file of a Merkle mountain range (\<^verbatim>\<open>src/PMMR/Common/MMRHashUtil.cpp\<close> over the hash file of
  \<^verbatim>\<open>HashFile.h\<close>) and the header range \<^verbatim>\<open>src/PMMR/HeaderMMRImpl.cpp\<close>. The hash function is an argument.

  The specification is the list of all node hashes of the range over a list of leaves, in postorder; the root is
  the bagging of its peaks.
\<close>

section \<open>Hashes of nodes\<close>

definition ZERO_HASH :: bytes where
  "ZERO_HASH = BigInteger_ValueOf 32 0"

definition HashLeafWithIndex :: "(bytes \<Rightarrow> bytes) \<Rightarrow> bytes \<Rightarrow> u64 \<Rightarrow> bytes" where
  "HashLeafWithIndex Blake2b serializedLeaf mmrIndex =
     Blake2b (AppendU64 mmrIndex @ AppendByteVector serializedLeaf SL_NONE)"

definition HashParentWithIndex :: "(bytes \<Rightarrow> bytes) \<Rightarrow> bytes \<Rightarrow> bytes \<Rightarrow> u64 \<Rightarrow> bytes" where
  "HashParentWithIndex Blake2b leftChild rightChild parentIndex =
     Blake2b (AppendU64 parentIndex @ AppendBigInteger leftChild @ AppendBigInteger rightChild)"

text \<open>The prune list is a pointer that may be null; a range without pruning passes \<open>None\<close>.\<close>

definition GetShiftedIndex :: "'b roaring \<Rightarrow> Index \<Rightarrow> 'b PruneList option \<Rightarrow> u64" where
  "GetShiftedIndex R mmr_idx pPruneList =
     (case pPruneList of
        Some p \<Rightarrow> m_position mmr_idx - GetShift R p mmr_idx
      | None \<Rightarrow> m_position mmr_idx)"

definition GetHashAt :: "'b roaring \<Rightarrow> DataFile \<Rightarrow> Index \<Rightarrow> 'b PruneList option \<Rightarrow> bytes result" where
  "GetHashAt R hashFile mmr_idx pPruneList =
     (case pPruneList of
        Some p \<Rightarrow>
          if IsCompacted R p mmr_idx then Inl RuntimeError
          else GetDataAt 32 (m_position mmr_idx - GetShift R p mmr_idx) hashFile
      | None \<Rightarrow> GetDataAt 32 (m_position mmr_idx) hashFile)"

text \<open>
  The loop that adds the parents. What was appended before an exception stays in the file, so the file is
  part of the result in every case.
\<close>

partial_function (option) add_parents ::
    "(bytes \<Rightarrow> bytes) \<Rightarrow> 'b roaring \<Rightarrow> 'b PruneList option \<Rightarrow> Index \<Rightarrow> DataFile \<Rightarrow>
     (unit result \<times> DataFile) option" where
  "add_parents Blake2b R pPruneList mmr_idx hashFile =
     (if IsLeaf mmr_idx then Some (Inr (), hashFile)
      else
        case GetHashAt R hashFile (GetLeftChild mmr_idx) pPruneList of
          Inl e \<Rightarrow> Some (Inl e, hashFile)
        | Inr leftHash \<Rightarrow>
            (case GetHashAt R hashFile (GetRightChild mmr_idx) pPruneList of
               Inl e \<Rightarrow> Some (Inl e, hashFile)
             | Inr rightHash \<Rightarrow>
                 add_parents Blake2b R pPruneList (GetNext mmr_idx)
                   (AddData (HashParentWithIndex Blake2b leftHash rightHash (m_position mmr_idx)) hashFile)))"

definition next_position :: "'b roaring \<Rightarrow> 'b PruneList option \<Rightarrow> DataFile \<Rightarrow> u64" where
  "next_position R pPruneList hashFile =
     (case pPruneList of
        Some p \<Rightarrow> DataFile_GetSize 32 hashFile + GetTotalShift R p
      | None \<Rightarrow> DataFile_GetSize 32 hashFile)"

definition AddHashes ::
  "(bytes \<Rightarrow> bytes) \<Rightarrow> 'b roaring \<Rightarrow> bytes \<Rightarrow> 'b PruneList option \<Rightarrow> DataFile \<Rightarrow>
   (unit result \<times> DataFile) option" where
  "AddHashes Blake2b R serializedLeaf pPruneList hashFile =
     (let position = next_position R pPruneList hashFile;
          hashFile = AddData (HashLeafWithIndex Blake2b serializedLeaf position) hashFile
      in add_parents Blake2b R pPruneList (Index_At (position + 1)) hashFile)"

definition bag :: "(bytes \<Rightarrow> bytes) \<Rightarrow> u64 \<Rightarrow> bytes \<Rightarrow> bytes \<Rightarrow> bytes" where
  "bag Blake2b size' hash peakHash =
     (if \<not> BigInteger_equal peakHash ZERO_HASH then
        if BigInteger_equal hash ZERO_HASH then peakHash
        else HashParentWithIndex Blake2b peakHash hash size'
      else hash)"

fun bag_peaks ::
  "(bytes \<Rightarrow> bytes) \<Rightarrow> 'b roaring \<Rightarrow> 'b PruneList option \<Rightarrow> DataFile \<Rightarrow> u64 \<Rightarrow> u64 list \<Rightarrow> bytes \<Rightarrow> bytes result" where
  "bag_peaks Blake2b R pPruneList hashFile size' [] hash = Inr hash"
| "bag_peaks Blake2b R pPruneList hashFile size' (peak # peaks) hash =
     rbind (GetDataAt 32 (GetShiftedIndex R (Index_At peak) pPruneList) hashFile) (\<lambda>peakHash.
       bag_peaks Blake2b R pPruneList hashFile size' peaks (bag Blake2b size' hash peakHash))"

definition MMR_Root ::
  "(bytes \<Rightarrow> bytes) \<Rightarrow> 'b roaring \<Rightarrow> DataFile \<Rightarrow> u64 \<Rightarrow> 'b PruneList option \<Rightarrow> bytes result" where
  "MMR_Root Blake2b R hashFile size' pPruneList =
     (if size' = 0 then Inr ZERO_HASH
      else bag_peaks Blake2b R pPruneList hashFile size' (rev (GetPeakIndices size')) ZERO_HASH)"

text \<open>The loop over the leaves from the last one down; the leaf set is a pointer that may be null.\<close>

function last_leaf_hashes ::
  "'b roaring \<Rightarrow> DataFile \<Rightarrow> BitmapFile option \<Rightarrow> 'b PruneList option \<Rightarrow> u64 \<Rightarrow> LeafIndex \<Rightarrow> bytes list \<Rightarrow>
   bytes list result" where
  "last_leaf_hashes R hashFile pLeafSet pPruneList numHashes leaf_idx hashes =
     (if 0 < m_leafIndex leaf_idx \<and> of_nat (length hashes) < numHashes then
        let leaf_idx = LeafIndex_Prev leaf_idx
        in if (case pLeafSet of None \<Rightarrow> True | Some s \<Rightarrow> LeafSet_Contains s leaf_idx) then
             (case GetHashAt R hashFile (m_nodeIndex leaf_idx) pPruneList of
                Inl e \<Rightarrow> Inl e
              | Inr hash \<Rightarrow>
                  last_leaf_hashes R hashFile pLeafSet pPruneList numHashes leaf_idx (hashes @ [hash]))
           else last_leaf_hashes R hashFile pLeafSet pPruneList numHashes leaf_idx hashes
      else Inr hashes)"
  by pat_completeness auto
termination
proof (relation "measure (\<lambda>(R, hf, ls, pl, n, leaf_idx, hashes). unat (m_leafIndex leaf_idx))", goal_cases)
  case 1
  then show ?case by simp
qed (auto simp: LeafIndex_Prev_def LeafIndex_At_def word_gt_0 unat_minus_one unat_gt_0)

definition GetLastLeafHashes ::
  "'b roaring \<Rightarrow> DataFile \<Rightarrow> BitmapFile option \<Rightarrow> 'b PruneList option \<Rightarrow> u64 \<Rightarrow> bytes list result" where
  "GetLastLeafHashes R hashFile pLeafSet pPruneList numHashes =
     last_leaf_hashes R hashFile pLeafSet pPruneList numHashes
       (LeafIndex_AtPos (next_position R pPruneList hashFile)) []"

section \<open>Specification: the hashes of a range\<close>

fun node_hash :: "(bytes \<Rightarrow> bytes) \<Rightarrow> bytes list \<Rightarrow> nat \<Rightarrow> nat \<Rightarrow> bytes" where
  "node_hash B leaves n 0 = HashLeafWithIndex B (leaves ! n) (of_nat (mmr_pos n 0))"
| "node_hash B leaves n (Suc h) =
     HashParentWithIndex B (node_hash B leaves (n - 2 ^ h) h) (node_hash B leaves n h)
       (of_nat (mmr_pos n (Suc h)))"

definition hash_at :: "(bytes \<Rightarrow> bytes) \<Rightarrow> bytes list \<Rightarrow> nat \<Rightarrow> bytes" where
  "hash_at B leaves p = node_hash B leaves (leaf_at p) (height_at p)"

definition mmr_hashes :: "(bytes \<Rightarrow> bytes) \<Rightarrow> bytes list \<Rightarrow> bytes list" where
  "mmr_hashes B leaves = map (hash_at B leaves) [0..<mmr_pos (length leaves) 0]"

definition mmr_root :: "(bytes \<Rightarrow> bytes) \<Rightarrow> bytes list \<Rightarrow> bytes" where
  "mmr_root B leaves =
     fold (\<lambda>(n, h) hash. bag B (of_nat (mmr_pos (length leaves) 0)) hash (node_hash B leaves n h))
       (rev (peak_nodes (bit_width (length leaves)) (length leaves))) ZERO_HASH"

definition mmr_rep :: "(bytes \<Rightarrow> bytes) \<Rightarrow> DataFile \<Rightarrow> bytes list \<Rightarrow> bool" where
  "mmr_rep B hashFile leaves \<longleftrightarrow>
     aligned 32 hashFile \<and> records 32 (data_view hashFile) = mmr_hashes B leaves \<and> length leaves < 2 ^ 50"

lemma node_hash_cong:
  "(\<And>i. i \<le> n \<Longrightarrow> leaves ! i = leaves' ! i) \<Longrightarrow> node_hash B leaves n h = node_hash B leaves' n h"
proof (induction h arbitrary: n)
  case (Suc h)
  have "node_hash B leaves (n - 2 ^ h) h = node_hash B leaves' (n - 2 ^ h) h"
    "node_hash B leaves n h = node_hash B leaves' n h"
    using Suc.IH [of "n - 2 ^ h"] Suc.IH [of n] Suc.prems by simp_all
  then show ?case by simp
qed simp

lemma leaf_at_less: "p < mmr_pos n 0 \<Longrightarrow> leaf_at p < n"
proof (rule ccontr)
  assume p: "p < mmr_pos n 0" and "\<not> leaf_at p < n"
  then have "mmr_pos n 0 \<le> mmr_pos (leaf_at p) 0"
    using leaf_pos_mono [of n "leaf_at p"] by (cases "n = leaf_at p") auto
  also have "\<dots> \<le> mmr_pos (leaf_at p) (height_at p)" by (simp add: mmr_pos_def)
  finally show False using p by (simp add: coordinates_node(2))
qed

lemma hash_at_append: "p < mmr_pos (length leaves) 0 \<Longrightarrow> hash_at B (leaves @ xs) p = hash_at B leaves p"
  unfolding hash_at_def using leaf_at_less by (intro node_hash_cong) (fastforce simp: nth_append)

lemma hash_at_node: "is_node n h \<Longrightarrow> hash_at B leaves (mmr_pos n h) = node_hash B leaves n h"
  by (simp add: hash_at_def node_coordinates)

lemma length_hash:
  "(\<And>x. length (B x) = 32) \<Longrightarrow> length (node_hash B leaves n h) = 32"
  by (cases h) (simp_all add: HashLeafWithIndex_def HashParentWithIndex_def)

section \<open>Adding a leaf\<close>

declare last_leaf_hashes.simps [simp del]

lemma GetDataAt_record:
  assumes "aligned 32 d" "p < length (records 32 (data_view d))"
  shows "GetDataAt 32 (of_nat p) d = Inr (records 32 (data_view d) ! p)"
proof -
  have "length (data_view d) < 2 ^ 62"
    using assms(1) aof_view_bound by (auto simp: aligned_def data_inv_def)
  then have p: "p * 32 < 2 ^ 64" "p < 2 ^ 62" using assms(2) by (simp_all add: length_records)
  then have "unat (of_nat p :: u64) = p" by (intro unat_of_nat_u64) simp
  then show ?thesis using GetDataAt_view [OF assms(1), of "of_nat p"] p assms(2) by simp
qed

text \<open>The file while the parents of leaf \<open>n\<close> up to height \<open>h\<close> have been added.\<close>

definition partial_rep :: "(bytes \<Rightarrow> bytes) \<Rightarrow> DataFile \<Rightarrow> bytes list \<Rightarrow> nat \<Rightarrow> bool" where
  "partial_rep B hashFile leaves m \<longleftrightarrow>
     aligned 32 hashFile \<and> records 32 (data_view hashFile) = map (hash_at B leaves) [0..<m]"

lemma partial_rep_size: "partial_rep B d leaves m \<Longrightarrow> length (data_view d) = 32 * m"
proof -
  assume rep: "partial_rep B d leaves m"
  then have "length (records 32 (data_view d)) = m" by (simp add: partial_rep_def)
  then show ?thesis using rep by (auto simp: partial_rep_def aligned_def length_records)
qed

lemma partial_rep_get:
  assumes "partial_rep B d leaves m" "p < m"
  shows "GetDataAt 32 (of_nat p) d = Inr (hash_at B leaves p)"
proof -
  have "p < length (records 32 (data_view d))" using assms by (simp add: partial_rep_def)
  from GetDataAt_record [OF _ this] assms show ?thesis by (simp add: partial_rep_def)
qed

lemma partial_rep_add:
  assumes "partial_rep B d leaves m" "m < 2 ^ 56" "length (hash_at B leaves m) = 32"
  shows "partial_rep B (AddData (hash_at B leaves m) d) leaves (Suc m)"
  using AddData_aligned [of 32 d "hash_at B leaves m"] partial_rep_size [OF assms(1)] assms
  by (simp add: partial_rep_def)

lemma AddData_saved: "data_saved (AddData r d) = data_saved d" "df_dirty (AddData r d)"
  by (simp_all add: AddData_def AppendOnlyFile_Append_def)

lemma node_height_small: "is_node n h \<Longrightarrow> n < 2 ^ 50 \<Longrightarrow> h \<le> 50"
  by (rule is_node_height_bound)

lemma mmr_pos_small: "n < 2 ^ 50 \<Longrightarrow> h \<le> 60 \<Longrightarrow> mmr_pos n h < 2 ^ 52"
  by (simp add: mmr_pos_def)

section \<open>Laws of a hash file\<close>

lemma is_node_le: "is_node n h \<Longrightarrow> h \<le> n"
proof -
  assume "is_node n h"
  then have "2 ^ h \<le> Suc n" unfolding is_node_def by (rule dvd_imp_le) simp
  then show ?thesis using Suc_le_two_power [of h] by linarith
qed

lemma node_before_next: "is_node n h \<Longrightarrow> mmr_pos n h < mmr_pos (Suc n) 0"
proof (induction "n - h" arbitrary: h rule: less_induct)
  case less
  show ?case
  proof (cases "is_node n (Suc h)")
    case True
    then have "n - Suc h < n - h" using is_node_le [OF True] by simp
    from less.hyps [OF this True] show ?thesis by (simp add: mmr_pos_def)
  next
    case False
    then show ?thesis using mmr_pos_next_leaf [OF less.prems] by simp
  qed
qed

lemma leaf_pos_mono_le: "m \<le> n \<Longrightarrow> mmr_pos m 0 \<le> mmr_pos n 0"
  using leaf_pos_mono [of m n] by (cases "m = n") auto

lemma peak_node:
  assumes "(n, h) \<in> set (peak_nodes k m)"
  shows "is_node n h" and "n < m" and "mmr_pos n h < mmr_pos m 0" and "mmr_pos m 0 \<le> pos_of (parent_of (n, h))"
proof -
  have odd: "odd (m div 2 ^ h)" and n: "n = m div 2 ^ h * 2 ^ h - 1"
    using assms by (auto simp: peak_nodes_def)
  have pos: "0 < m div 2 ^ h * 2 ^ h" using odd by (simp add: odd_pos)
  then have Sn: "Suc n = m div 2 ^ h * 2 ^ h" using n by simp
  then show node: "is_node n h" by (simp add: is_node_def)
  have le: "Suc n \<le> m" unfolding Sn by (rule div_times_less_eq_dividend)
  then show "n < m" by simp
  have nr: "\<not> is_node n (Suc h)"
    unfolding is_node_def Sn power_Suc using odd by simp
  from mmr_pos_next_leaf [OF node this] leaf_pos_mono_le [OF le] show "mmr_pos n h < mmr_pos m 0" by simp
  have "m < Suc n + 2 ^ h"
    unfolding Sn using div_mult_mod_eq [of m "2 ^ h"] mod_less_divisor [of "2 ^ h" m, OF zero_less_power [OF zero_less_numeral]] by linarith
  then have "mmr_pos m 0 \<le> mmr_pos (n + 2 ^ h) 0" by (intro leaf_pos_mono_le) simp
  then show "mmr_pos m 0 \<le> pos_of (parent_of (n, h))"
    using nr by (simp add: parent_of_def is_right_def mmr_pos_def)
qed

text \<open>
  What \<^verbatim>\<open>MMRHashUtil\<close> needs of a hash file, with or without a prune list: when the file represents the nodes below a
  position, it finds the hash of every node whose parent is not yet there or stands behind the last pruned root
  (at least \<open>floor\<close>); adding the hash of the next position represents one position more; the next position
  is the size. Adding a leaf and computing the root are proved from these laws.
\<close>

locale hash_store =
  fixes B :: "bytes \<Rightarrow> bytes"
    and R :: "'b roaring"
    and pl :: "'b PruneList option"
    and rep :: "DataFile \<Rightarrow> bytes list \<Rightarrow> nat \<Rightarrow> bool"
    and floor :: nat
    and limit :: nat
  assumes fetch: "rep d leaves m \<Longrightarrow> is_node n h \<Longrightarrow> mmr_pos n h < m \<Longrightarrow> floor \<le> pos_of (parent_of (n, h)) \<Longrightarrow>
      GetDataAt 32 (GetShiftedIndex R (node n h) pl) d = Inr (node_hash B leaves n h)"
    and uncompacted: "rep d leaves m \<Longrightarrow> is_node n h \<Longrightarrow> mmr_pos n h < m \<Longrightarrow> floor \<le> pos_of (parent_of (n, h)) \<Longrightarrow>
      GetHashAt R d (node n h) pl = GetDataAt 32 (GetShiftedIndex R (node n h) pl) d"
    and add: "\<forall>x. length (B x) = 32 \<Longrightarrow> rep d leaves m \<Longrightarrow> floor \<le> m \<Longrightarrow> m < limit \<Longrightarrow> rep (AddData (hash_at B leaves m) d) leaves (Suc m)"
    and size: "rep d leaves m \<Longrightarrow> next_position R pl d = of_nat m"
    and extend: "rep d leaves (mmr_pos (length leaves) 0) \<Longrightarrow> rep d (leaves @ [leaf]) (mmr_pos (length leaves) 0)"
begin

lemma add_parents_store:
  assumes len: "\<forall>x. length (B x) = 32"
  shows "is_node n h \<Longrightarrow> n < 2 ^ 50 \<Longrightarrow> mmr_pos (Suc n) 0 \<le> limit \<Longrightarrow> floor \<le> mmr_pos n 0 \<Longrightarrow>
   rep d leaves (Suc (mmr_pos n h)) \<Longrightarrow> df_dirty d \<Longrightarrow>
   \<exists>d'. add_parents B R pl (GetNext (node n h)) d = Some (Inr (), d') \<and>
     rep d' leaves (mmr_pos (Suc n) 0) \<and> data_saved d' = data_saved d \<and> df_dirty d'"
proof (induction "60 - h" arbitrary: h d rule: less_induct)
  case less
  have h: "h \<le> 50" by (rule node_height_small [OF less.prems(1,2)])
  have pos: "mmr_pos n k < 2 ^ 52" if "k \<le> 60" for k using mmr_pos_small [OF less.prems(2) that] .
  have range: "in_range n h" using less.prems(1) pos [of h] h by (simp add: in_range_def)
  show ?case
  proof (cases "is_right n h")
    case False
    have "GetNext (node n h) = node (Suc n) 0" using GetNext_node [OF range] False by simp
    moreover have "mmr_pos (Suc n) 0 = Suc (mmr_pos n h)"
      using mmr_pos_next_leaf [OF less.prems(1)] False by (simp add: is_right_def)
    ultimately show ?thesis
      using less.prems(5,6) by (subst add_parents.simps) (simp add: IsLeaf_node)
  next
    case True
    have node: "is_node n (Suc h)" using True by (simp add: is_right_def)
    have idx: "GetNext (node n h) = node n (Suc h)" using GetNext_node [OF range] True by simp
    have nleaf: "\<not> IsLeaf (node n (Suc h))" using h by (subst IsLeaf_node) simp_all
    have left: "2 ^ h \<le> n" "is_node (n - 2 ^ h) h" "\<not> is_right (n - 2 ^ h) h" by (rule right_node_shift [OF True])+
    have lt: "mmr_pos (n - 2 ^ h) h < Suc (mmr_pos n h)"
      using mmr_pos_right_shift [OF True, of h] one_le_power [of "2::nat" "Suc h"] by linarith
    have floor: "floor \<le> pos_of (parent_of (n - 2 ^ h, h))" "floor \<le> pos_of (parent_of (n, h))"
      using less.prems(4) left True by (simp_all add: parent_of_def mmr_pos_def)
    have gl: "GetHashAt R d (GetLeftChild (node n (Suc h))) pl = Inr (node_hash B leaves (n - 2 ^ h) h)"
      using fetch [OF less.prems(5) left(2) lt floor(1)] uncompacted [OF less.prems(5) left(2) lt floor(1)]
        GetLeftChild_node [OF node] h by simp
    have gr: "GetHashAt R d (GetRightChild (node n (Suc h))) pl = Inr (node_hash B leaves n h)"
      using fetch [OF less.prems(5,1) lessI floor(2)] uncompacted [OF less.prems(5,1) lessI floor(2)]
      by (simp add: GetRightChild_node)
    have new: "HashParentWithIndex B (node_hash B leaves (n - 2 ^ h) h) (node_hash B leaves n h)
        (m_position (node n (Suc h))) = hash_at B leaves (mmr_pos n (Suc h))"
      by (simp add: hash_at_node [OF node] node_def)
    have next': "mmr_pos n (Suc h) = Suc (mmr_pos n h)" by (simp add: mmr_pos_def)
    have "mmr_pos n (Suc h) < limit" using node_before_next [OF node] less.prems(3) by simp
    then have rep: "rep (AddData (hash_at B leaves (mmr_pos n (Suc h))) d) leaves (Suc (mmr_pos n (Suc h)))"
      using add [OF len less.prems(5)] less.prems(4) by (simp add: next') (simp add: mmr_pos_def)
    have unf: "add_parents B R pl (GetNext (node n h)) d =
        add_parents B R pl (GetNext (node n (Suc h))) (AddData (hash_at B leaves (mmr_pos n (Suc h))) d)"
      unfolding idx by (subst add_parents.simps) (simp add: nleaf gl gr new)
    have "60 - Suc h < 60 - h" using h by simp
    from less.hyps [OF this node less.prems(2-4) rep] show ?thesis
      unfolding unf by (simp add: AddData_saved)
  qed
qed

lemma AddHashes_store:
  assumes len: "\<forall>x. length (B x) = 32" and rep: "rep d leaves (mmr_pos (length leaves) 0)"
    and n: "length leaves < 2 ^ 50" and limit: "mmr_pos (Suc (length leaves)) 0 \<le> limit" and floor: "floor \<le> mmr_pos (length leaves) 0"
  shows "\<exists>d'. AddHashes B R leaf pl d = Some (Inr (), d') \<and>
    rep d' (leaves @ [leaf]) (mmr_pos (Suc (length leaves)) 0) \<and> data_saved d' = data_saved d \<and> df_dirty d'"
proof -
  let ?n = "length leaves" and ?ls = "leaves @ [leaf]"
  have leaf: "HashLeafWithIndex B leaf (of_nat (mmr_pos ?n 0)) = hash_at B ?ls (mmr_pos ?n 0)"
    using hash_at_node [of ?n 0 B ?ls] by simp
  have "mmr_pos ?n 0 < limit" using node_before_next [of ?n 0] limit by simp
  then have p1: "rep (AddData (hash_at B ?ls (mmr_pos ?n 0)) d) ?ls (Suc (mmr_pos ?n 0))"
    using add [OF len extend [OF rep] floor] by simp
  have idx: "Index_At (of_nat (mmr_pos ?n 0) + 1) = GetNext (node ?n 0)"
    by (simp add: GetNext_def node_def)
  obtain d' where d': "add_parents B R pl (GetNext (node ?n 0)) (AddData (hash_at B ?ls (mmr_pos ?n 0)) d)
      = Some (Inr (), d')" "rep d' ?ls (mmr_pos (Suc ?n) 0)" "data_saved d' = data_saved d" "df_dirty d'"
    using add_parents_store [OF len is_node_leaf n limit floor p1] by (auto simp: AddData_saved)
  then show ?thesis by (simp add: AddHashes_def Let_def size [OF rep] leaf idx)
qed

lemma bag_peaks_store:
  assumes "\<forall>(n, h) \<in> set ns. GetDataAt 32 (GetShiftedIndex R (Index_At (of_nat (mmr_pos n h))) pl) d =
      Inr (node_hash B leaves n h)"
  shows "bag_peaks B R pl d size' (map (\<lambda>(n, h). of_nat (mmr_pos n h)) ns) hash =
    Inr (fold (\<lambda>(n, h) hash. bag B size' hash (node_hash B leaves n h)) ns hash)"
  using assms by (induction ns arbitrary: hash) auto

lemma Root_store:
  assumes rep: "rep d leaves (mmr_pos (length leaves) 0)" and small: "length leaves < 2 ^ 50"
    and m: "m \<le> length leaves" and floor: "floor \<le> mmr_pos m 0"
  shows "MMR_Root B R d (of_nat (mmr_pos m 0)) pl = Inr (mmr_root B (take m leaves))"
proof -
  let ?size = "of_nat (mmr_pos m 0) :: u64" and ?ns = "peak_nodes (bit_width m) m"
  have pos: "mmr_pos m 0 < 2 ^ 52" using mmr_pos_small [of m 0] m small by simp
  have us: "unat ?size = mmr_pos m 0" using pos by (intro unat_of_nat_u64) simp
  have peaks: "GetPeakIndices ?size = map (\<lambda>(n, h). of_nat (mmr_pos n h)) ?ns"
    using node_coordinates [OF is_node_leaf, of m]
    by (simp add: GetPeakIndices_eq us peaks_of_def comp_def case_prod_unfold)
  have len: "length (take m leaves) = m" using m by simp
  have nodes: "GetDataAt 32 (GetShiftedIndex R (Index_At (of_nat (mmr_pos n h))) pl) d = Inr (node_hash B leaves n h)"
    if "(n, h) \<in> set ?ns" for n h
  proof -
    note p = peak_node [OF that]
    have "mmr_pos n h < mmr_pos (length leaves) 0" using p(3) leaf_pos_mono_le [OF m] by linarith
    moreover have "floor \<le> pos_of (parent_of (n, h))" using p(4) floor by simp
    moreover have "Index_At (of_nat (mmr_pos n h)) = node n h" using Index_At_node [OF p(1)] p(3) pos by simp
    ultimately show ?thesis using fetch [OF rep p(1)] by simp
  qed
  have hashes: "node_hash B (take m leaves) n h = node_hash B leaves n h" if "(n, h) \<in> set (rev ?ns)" for n h
    using that peak_node(2) [of n h] by (intro node_hash_cong) (fastforce simp: nth_take)
  have "mmr_root B (take m leaves) =
      fold (\<lambda>(n, h) hash. bag B ?size hash (node_hash B leaves n h)) (rev ?ns) ZERO_HASH"
    unfolding mmr_root_def len using hashes by (intro fold_cong) auto
  moreover have "bag_peaks B R pl d ?size (rev (GetPeakIndices ?size)) ZERO_HASH =
      Inr (fold (\<lambda>(n, h) hash. bag B ?size hash (node_hash B leaves n h)) (rev ?ns) ZERO_HASH)"
    using bag_peaks_store [of "rev ?ns" d leaves ?size ZERO_HASH] nodes by (auto simp: peaks rev_map)
  moreover have "?ns = []" if "?size = 0"
    using that peaks by (simp add: GetPeakIndices_def)
  ultimately show ?thesis by (auto simp: MMR_Root_def)
qed

end

section \<open>A hash file without pruning\<close>

interpretation whole: hash_store B R None "partial_rep B" 0 "2 ^ 56" for B and R :: "'b roaring"
proof
  fix d leaves leaf and m n h :: nat
  assume rep: "partial_rep B d leaves m"
  show "next_position R None d = of_nat m"
  proof -
    have "unat (DataFile_GetSize 32 d) = m" using GetSize_records [of 32 d] rep by (simp add: partial_rep_def)
    then show ?thesis by (auto simp: next_position_def)
  qed
  show "partial_rep B (AddData (hash_at B leaves m) d) leaves (Suc m)"
    if "m < 2 ^ 56" "\<forall>x. length (B x) = 32"
    using partial_rep_add [of B d leaves m] rep that by (simp add: hash_at_def length_hash)
  assume "is_node n h" "mmr_pos n h < m"
  then show "GetDataAt 32 (GetShiftedIndex R (node n h) None) d = Inr (node_hash B leaves n h)"
    using partial_rep_get [of B d leaves m] rep by (simp add: GetShiftedIndex_def node_def hash_at_node)
  show "GetHashAt R d (node n h) None = GetDataAt 32 (GetShiftedIndex R (node n h) None) d"
    by (simp add: GetHashAt_def GetShiftedIndex_def)
next
  fix d leaves leaf
  assume rep: "partial_rep B d leaves (mmr_pos (length leaves) 0)"
  have "map (hash_at B leaves) [0..<mmr_pos (length leaves) 0] =
      map (hash_at B (leaves @ [leaf])) [0..<mmr_pos (length leaves) 0]"
    using hash_at_append by (intro map_cong) auto
  then show "partial_rep B d (leaves @ [leaf]) (mmr_pos (length leaves) 0)"
    using rep by (simp add: partial_rep_def)
qed

lemma mmr_rep_partial:
  "mmr_rep B d leaves \<longleftrightarrow> partial_rep B d leaves (mmr_pos (length leaves) 0) \<and> length leaves < 2 ^ 50"
  by (auto simp: mmr_rep_def partial_rep_def mmr_hashes_def)

lemma AddHashes_rep:
  assumes len: "\<And>x. length (B x) = 32" and rep: "mmr_rep B d leaves" and n: "length leaves + 1 < 2 ^ 50"
  shows "\<exists>d'. AddHashes B R leaf None d = Some (Inr (), d') \<and> mmr_rep B d' (leaves @ [leaf]) \<and>
    data_saved d' = data_saved d \<and> df_dirty d'"
proof -
  have "mmr_pos (Suc (length leaves)) 0 \<le> 2 ^ 56" using mmr_pos_small [of "Suc (length leaves)" 0] n by simp
  then show ?thesis
    using whole.AddHashes_store [of B d leaves R leaf] rep len n by (auto simp: mmr_rep_partial)
qed

lemma Root_rep:
  assumes "mmr_rep B d leaves" "m \<le> length leaves"
  shows "MMR_Root B R d (of_nat (mmr_pos m 0)) None = Inr (mmr_root B (take m leaves))"
  using whole.Root_store [of B d leaves m R] assms by (simp add: mmr_rep_partial)

section \<open>The header range\<close>

text \<open>
  The batch writes to the locked hash file; \<open>SetDirty\<close> decides whether a commit or a rollback touches it.
\<close>

record HeaderMMR =
  hm_hashFile :: DataFile
  hm_dirty :: bool

definition HeaderMMR_Load :: "bytes \<Rightarrow> HeaderMMR" where
  "HeaderMMR_Load bs = \<lparr>hm_hashFile = DataFile_Load bs, hm_dirty = False\<rparr>"

definition HeaderMMR_OnInitWrite :: "HeaderMMR \<Rightarrow> HeaderMMR" where
  "HeaderMMR_OnInitWrite m = m\<lparr>hm_dirty := False\<rparr>"

definition HeaderMMR_Commit :: "bool \<Rightarrow> HeaderMMR \<Rightarrow> unit result \<times> HeaderMMR" where
  "HeaderMMR_Commit is_open m =
     (if hm_dirty m then
        let (r, d) = DataFile_Commit is_open (hm_hashFile m)
        in (case r of Inl e \<Rightarrow> (Inl e, m\<lparr>hm_hashFile := d\<rparr>)
            | Inr _ \<Rightarrow> (Inr (), \<lparr>hm_hashFile = d, hm_dirty = False\<rparr>))
      else (Inr (), m))"

definition HeaderMMR_Rollback :: "HeaderMMR \<Rightarrow> HeaderMMR" where
  "HeaderMMR_Rollback m =
     (if hm_dirty m then \<lparr>hm_hashFile = DataFile_Rollback (hm_hashFile m), hm_dirty = False\<rparr> else m)"

definition HeaderMMR_Rewind :: "u64 \<Rightarrow> HeaderMMR \<Rightarrow> unit result \<times> HeaderMMR" where
  "HeaderMMR_Rewind size' m =
     (let mmrSize = LeafIndex_GetPosition (LeafIndex_At size')
      in if mmrSize \<noteq> DataFile_GetSize 32 (hm_hashFile m) then
           let (r, d) = DataFile_Rewind 32 mmrSize (hm_hashFile m)
           in (case r of Inl e \<Rightarrow> (Inl e, m\<lparr>hm_hashFile := d\<rparr>)
               | Inr _ \<Rightarrow> (Inr (), \<lparr>hm_hashFile = d, hm_dirty = True\<rparr>))
         else (Inr (), m))"

text \<open>The leaf of a header is the packed cycle of its proof of work.\<close>

definition header_leaf :: "BlockHeader \<Rightarrow> bytes" where
  "header_leaf header = SerializeCycle (pow_edgeBits (h_proofOfWork header)) (pow_proofNonces (h_proofOfWork header))"

definition AddHeader ::
  "(bytes \<Rightarrow> bytes) \<Rightarrow> 'b roaring \<Rightarrow> BlockHeader \<Rightarrow> HeaderMMR \<Rightarrow> (unit result \<times> HeaderMMR) option" where
  "AddHeader Blake2b R header m =
     (case AddHashes Blake2b R (header_leaf header) None (hm_hashFile m) of
        None \<Rightarrow> None
      | Some (Inl e, d) \<Rightarrow> Some (Inl e, m\<lparr>hm_hashFile := d\<rparr>)
      | Some (Inr _, d) \<Rightarrow> Some (Inr (), \<lparr>hm_hashFile = d, hm_dirty = True\<rparr>))"

definition HeaderMMR_Root :: "(bytes \<Rightarrow> bytes) \<Rightarrow> 'b roaring \<Rightarrow> u64 \<Rightarrow> HeaderMMR \<Rightarrow> bytes result" where
  "HeaderMMR_Root Blake2b R lastHeight m =
     (let position = LeafIndex_GetPosition (LeafIndex_At (lastHeight + 1))
      in MMR_Root Blake2b R (hm_hashFile m) position None)"

section \<open>Ranges as lists\<close>

text \<open>
  What a range promises to the code above it: the elements it holds and those on disk are two lists, and every
  operation acts on the pair as \<open>range_spec\<close> says. A rewind beyond the end is an error and changes nothing. The
  locale proves once that whole sequences of operations return and follow the specification.
\<close>

datatype 'a range_op = RangeAdd 'a | RangeRewind u64 | RangeCommit | RangeRollback

fun range_spec :: "'a range_op \<Rightarrow> 'a list \<times> 'a list \<Rightarrow> 'a list \<times> 'a list" where
  "range_spec (RangeAdd x) (v, d) = (v @ [x], d)"
| "range_spec (RangeRewind n) (v, d) = (if unat n \<le> length v then take (unat n) v else v, d)"
| "range_spec RangeCommit (v, d) = (v, v)"
| "range_spec RangeRollback (v, d) = (d, d)"

fun range_op_ok :: "('a \<Rightarrow> bool) \<Rightarrow> 'a range_op \<Rightarrow> bool" where
  "range_op_ok ok (RangeAdd x) \<longleftrightarrow> ok x"
| "range_op_ok ok (RangeRewind n) \<longleftrightarrow> n < 2 ^ 50"
| "range_op_ok ok _ \<longleftrightarrow> True"

fun range_run :: "('a range_op \<Rightarrow> 's \<Rightarrow> 's option) \<Rightarrow> 'a range_op list \<Rightarrow> 's \<Rightarrow> 's option" where
  "range_run step [] s = Some s"
| "range_run step (op # ops) s = (case step op s of None \<Rightarrow> None | Some s' \<Rightarrow> range_run step ops s')"

lemma range_spec_length:
  "length (fst (range_spec op (v, d))) \<le> max (Suc (length v)) (length d) \<and>
   length (snd (range_spec op (v, d))) \<le> max (length v) (length d)"
  by (cases op) auto

locale range_store =
  fixes step :: "'a range_op \<Rightarrow> 's \<Rightarrow> 's option"
    and rep :: "'s \<Rightarrow> 'a list \<times> 'a list \<Rightarrow> bool"
    and ok :: "'a \<Rightarrow> bool"
  assumes step_refines: "rep s (v, d) \<Longrightarrow> length v + 1 < 2 ^ 50 \<Longrightarrow> range_op_ok ok op \<Longrightarrow>
    \<exists>s'. step op s = Some s' \<and> rep s' (range_spec op (v, d))"
begin

lemma run_refines:
  "rep s (v, d) \<Longrightarrow> length v + length ops < 2 ^ 50 \<Longrightarrow> length d + length ops < 2 ^ 50 \<Longrightarrow>
   list_all (range_op_ok ok) ops \<Longrightarrow>
   \<exists>s'. range_run step ops s = Some s' \<and> rep s' (fold range_spec ops (v, d))"
proof (induction ops arbitrary: s v d)
  case (Cons op ops)
  obtain s' where s': "step op s = Some s'" "rep s' (range_spec op (v, d))"
    using step_refines [of s v d op] Cons.prems by auto
  obtain v' d' where spec: "range_spec op (v, d) = (v', d')" by force
  have "length v' + length ops < 2 ^ 50" "length d' + length ops < 2 ^ 50"
    using range_spec_length [of op v d] Cons.prems(2,3) by (auto simp: spec)
  then show ?case using Cons.IH [of s' v' d'] s' Cons.prems(4) by (simp add: spec)
qed simp

end

section \<open>The header range refines a list of headers\<close>

fun header_step ::
  "(bytes \<Rightarrow> bytes) \<Rightarrow> 'b roaring \<Rightarrow> BlockHeader range_op \<Rightarrow> HeaderMMR \<Rightarrow> HeaderMMR option" where
  "header_step B R (RangeAdd h) m = map_option snd (AddHeader B R h m)"
| "header_step B R (RangeRewind n) m = Some (snd (HeaderMMR_Rewind n m))"
| "header_step B R RangeCommit m = Some (snd (HeaderMMR_Commit True m))"
| "header_step B R RangeRollback m = Some (HeaderMMR_Rollback m)"

definition saved_rep :: "(bytes \<Rightarrow> bytes) \<Rightarrow> bytes \<Rightarrow> bytes list \<Rightarrow> bool" where
  "saved_rep B bs leaves \<longleftrightarrow>
     32 dvd length bs \<and> records 32 bs = mmr_hashes B leaves \<and> length leaves < 2 ^ 50"

definition header_rep :: "(bytes \<Rightarrow> bytes) \<Rightarrow> HeaderMMR \<Rightarrow> BlockHeader list \<times> BlockHeader list \<Rightarrow> bool" where
  "header_rep B m = (\<lambda>(v, d).
     mmr_rep B (hm_hashFile m) (map header_leaf v) \<and>
     saved_rep B (data_saved (hm_hashFile m)) (map header_leaf d) \<and>
     (\<not> hm_dirty m \<longrightarrow> data_view (hm_hashFile m) = data_saved (hm_hashFile m)))"

lemma mmr_rep_saved: "mmr_rep B d leaves \<longleftrightarrow> data_inv d \<and> saved_rep B (data_view d) leaves"
  by (auto simp: mmr_rep_def saved_rep_def aligned_def)

lemma mmr_hashes_take:
  assumes "k \<le> length leaves"
  shows "take (mmr_pos k 0) (mmr_hashes B leaves) = mmr_hashes B (take k leaves)"
proof -
  have le: "mmr_pos k 0 \<le> mmr_pos (length leaves) 0" by (rule leaf_pos_mono_le [OF assms])
  have "hash_at B (take k leaves @ drop k leaves) p = hash_at B (take k leaves) p" if "p < mmr_pos k 0" for p
    using that assms by (intro hash_at_append) simp
  then show ?thesis using assms le by (simp add: mmr_hashes_def take_map)
qed

lemma Rewind_rep:
  assumes "mmr_rep B d leaves" "unat n \<le> length leaves"
  shows "\<exists>d'. DataFile_Rewind 32 (LeafIndex_GetPosition (LeafIndex_At n)) d = (Inr (), d') \<and>
    mmr_rep B d' (take (unat n) leaves) \<and> data_saved d' = data_saved d"
proof -
  let ?k = "mmr_pos (unat n) 0"
  have len: "length leaves < 2 ^ 50" using assms(1) by (simp add: mmr_rep_def)
  then have "?k < 2 ^ 52" using mmr_pos_small [of "unat n" 0] assms(2) by simp
  then have k: "unat (of_nat ?k :: u64) = ?k" by (intro unat_of_nat_u64) simp
  have rec: "records 32 (data_view d) = mmr_hashes B leaves" and al: "aligned 32 d"
    using assms(1) by (simp_all add: mmr_rep_def)
  have "?k \<le> length (mmr_hashes B leaves)"
    using leaf_pos_mono_le [OF assms(2)] by (simp add: mmr_hashes_def)
  then have "unat (of_nat ?k :: u64) \<le> length (records 32 (data_view d))" unfolding k rec .
  from DataFile_Rewind_view [OF al this] show ?thesis
    using mmr_hashes_take [OF assms(2)] len rec k by (auto simp: LeafIndex_At_position mmr_rep_def)
qed

text \<open>A rewind beyond the last leaf throws and changes nothing but the dirty flag.\<close>

lemma Rewind_beyond:
  assumes "mmr_rep B d leaves" "length leaves < unat n" "n < 2 ^ 50"
  shows "\<exists>d'. DataFile_Rewind 32 (LeafIndex_GetPosition (LeafIndex_At n)) d = (Inl FileException, d') \<and>
    mmr_rep B d' leaves \<and> data_view d' = data_view d \<and> data_saved d' = data_saved d"
proof -
  let ?k = "mmr_pos (unat n) 0"
  have "?k < 2 ^ 52" using mmr_pos_small [of "unat n" 0] assms(3) by (simp add: word_less_nat_alt)
  then have k: "unat (of_nat ?k :: u64) = ?k" "?k * 32 < 2 ^ 64" by (simp_all add: unat_of_nat_u64)
  have rec: "records 32 (data_view d) = mmr_hashes B leaves" and al: "aligned 32 d"
    using assms(1) by (simp_all add: mmr_rep_def)
  have "length (records 32 (data_view d)) < unat (of_nat ?k :: u64)"
    using leaf_pos_mono [OF assms(2)] by (simp add: k rec mmr_hashes_def)
  from DataFile_Rewind_fail [OF al this] k assms(1) rec show ?thesis
    by (auto simp: LeafIndex_At_position mmr_rep_def)
qed

lemma GetSize_rep: "mmr_rep B d leaves \<Longrightarrow> DataFile_GetSize 32 d = of_nat (mmr_pos (length leaves) 0)"
proof -
  assume rep: "mmr_rep B d leaves"
  then have "unat (DataFile_GetSize 32 d) = mmr_pos (length leaves) 0"
    using GetSize_records [of 32 d] by (simp add: mmr_rep_def mmr_hashes_def)
  moreover have "mmr_pos (length leaves) 0 < 2 ^ 52"
    using rep mmr_pos_small [of "length leaves" 0] by (simp add: mmr_rep_def)
  ultimately show ?thesis by (simp add: word_unat_eq_iff unat_of_nat_u64)
qed

lemma header_rewind_refines:
  assumes rep: "header_rep B m (v, d)" and n: "n < 2 ^ 50"
  shows "header_rep B (snd (HeaderMMR_Rewind n m)) (range_spec (RangeRewind n) (v, d))"
proof -
  let ?f = "hm_hashFile m" and ?vs = "map header_leaf v"
  have r: "mmr_rep B ?f ?vs" "saved_rep B (data_saved ?f) (map header_leaf d)"
    "\<not> hm_dirty m \<Longrightarrow> data_view ?f = data_saved ?f"
    using rep by (simp_all add: header_rep_def)
  have size: "DataFile_GetSize 32 ?f = of_nat (mmr_pos (length v) 0)" using GetSize_rep [OF r(1)] by simp
  show ?thesis
  proof (cases "unat n \<le> length v")
    case True
    then obtain f' where f': "DataFile_Rewind 32 (LeafIndex_GetPosition (LeafIndex_At n)) ?f = (Inr (), f')"
      "mmr_rep B f' (take (unat n) ?vs)" "data_saved f' = data_saved ?f"
      using Rewind_rep [OF r(1), of n] by auto
    show ?thesis
    proof (cases "LeafIndex_GetPosition (LeafIndex_At n) = DataFile_GetSize 32 ?f")
      case same: True
      have "length v < 2 ^ 50" using r(1) by (simp add: mmr_rep_def)
      then have "mmr_pos (unat n) 0 < 2 ^ 52" "mmr_pos (length v) 0 < 2 ^ 52"
        using mmr_pos_small n by (simp_all add: word_less_nat_alt)
      then have u: "unat (of_nat (mmr_pos (unat n) 0) :: u64) = mmr_pos (unat n) 0"
        "unat (of_nat (mmr_pos (length v) 0) :: u64) = mmr_pos (length v) 0"
        by (auto intro!: unat_of_nat_u64)
      have "(of_nat (mmr_pos (unat n) 0) :: u64) = of_nat (mmr_pos (length v) 0)"
        using same unfolding size LeafIndex_At_position .
      then have "mmr_pos (unat n) 0 = mmr_pos (length v) 0" using u by metis
      then have "unat n = length v"
        using leaf_pos_mono [of "unat n" "length v"] True by (cases "unat n = length v") simp_all
      then have "range_spec (RangeRewind n) (v, d) = (v, d)" by simp
      moreover have "snd (HeaderMMR_Rewind n m) = m" using same by (simp add: HeaderMMR_Rewind_def Let_def)
      ultimately show ?thesis using rep by (simp only:)
    next
      case False
      then have "snd (HeaderMMR_Rewind n m) = \<lparr>hm_hashFile = f', hm_dirty = True\<rparr>"
        using f'(1) by (simp add: HeaderMMR_Rewind_def Let_def)
      then show ?thesis using True r f' by (simp add: header_rep_def take_map)
    qed
  next
    case False
    then obtain f' where f': "DataFile_Rewind 32 (LeafIndex_GetPosition (LeafIndex_At n)) ?f = (Inl FileException, f')"
      "mmr_rep B f' ?vs" "data_view f' = data_view ?f" "data_saved f' = data_saved ?f"
      using Rewind_beyond [OF r(1) _ n] by auto
    then have "snd (HeaderMMR_Rewind n m) = m \<or> snd (HeaderMMR_Rewind n m) = m\<lparr>hm_hashFile := f'\<rparr>"
      by (simp add: HeaderMMR_Rewind_def Let_def)
    then show ?thesis using False r f'(2-4) rep by (elim disjE) (simp_all add: header_rep_def)
  qed
qed

lemma header_step_refines:
  assumes len: "\<And>x. length (B x) = 32" and rep: "header_rep B m (v, d)"
    and bound: "length v + 1 < 2 ^ 50" and small: "range_op_ok (\<lambda>_. True) op"
  shows "\<exists>m'. header_step B R op m = Some m' \<and> header_rep B m' (range_spec op (v, d))"
proof -
  let ?f = "hm_hashFile m"
  have r: "mmr_rep B ?f (map header_leaf v)" "saved_rep B (data_saved ?f) (map header_leaf d)"
    "\<not> hm_dirty m \<Longrightarrow> data_view ?f = data_saved ?f"
    using rep by (simp_all add: header_rep_def)
  have inv: "data_inv ?f" using r(1) by (simp add: mmr_rep_saved)
  show ?thesis
  proof (cases op)
    case (RangeAdd h)
    obtain f' where "AddHashes B R (header_leaf h) None ?f = Some (Inr (), f')"
      "mmr_rep B f' (map header_leaf v @ [header_leaf h])" "data_saved f' = data_saved ?f"
      using AddHashes_rep [of B ?f "map header_leaf v" R "header_leaf h", OF len r(1)] bound by auto
    then show ?thesis using RangeAdd r by (simp add: AddHeader_def header_rep_def)
  next
    case (RangeRewind n)
    then show ?thesis using header_rewind_refines [OF rep, of n] small by simp
  next
    case RangeCommit
    have "DataFile_Commit True ?f = (Inr (), data_commit ?f)" by (rule DataFile_Commit_True [OF inv])
    then show ?thesis
      using RangeCommit r data_commit_flush [OF inv]
      by (cases "hm_dirty m") (simp_all add: HeaderMMR_Commit_def header_rep_def mmr_rep_saved)
  next
    case RangeRollback
    then show ?thesis
      using r data.rollback_inv [OF inv] data.rollback_view [OF inv] data.rollback_saved [OF inv] inv
      by (cases "hm_dirty m") (simp_all add: HeaderMMR_Rollback_def header_rep_def mmr_rep_saved)
  qed
qed

interpretation header_range: range_store "header_step B R"
  "\<lambda>m p. (\<forall>x. length (B x) = 32) \<and> header_rep B m p" "\<lambda>_. True" for B R
proof
  fix m v d and op :: "BlockHeader range_op"
  assume "(\<forall>x. length (B x) = 32) \<and> header_rep B m (v, d)" "length v + 1 < 2 ^ 50"
    "range_op_ok (\<lambda>_. True) op"
  then show "\<exists>m'. header_step B R op m = Some m' \<and>
      (\<forall>x. length (B x) = 32) \<and> header_rep B m' (range_spec op (v, d))"
    using header_step_refines [of B m v d op R] by blast
qed

lemma header_rep_empty: "header_rep B (HeaderMMR_Load []) ([], [])"
proof -
  have "data_inv (DataFile_Load [])"
    using Load_inv [of "[]"] by (simp add: data_inv_def DataFile_Load_def AppendOnlyFile_Load_def)
  then show ?thesis
    by (simp add: header_rep_def HeaderMMR_Load_def mmr_rep_saved saved_rep_def DataFile_Load_def
        AppendOnlyFile_Load_def aof_view_def records_def mmr_hashes_def mmr_pos_def)
qed

text \<open>
  C4. The header range implements a list of headers: from an empty file, any sequence of additions, rewinds,
  commits and rollbacks runs to its end, and afterwards the root at every height is the root of the headers up
  to that height in the list the specification keeps. In particular a reorganisation (rewind, then other
  headers) yields the same roots as building the new chain from scratch, and roots of earlier heights never
  change when headers are added.
\<close>

theorem header_mmr_refines:
  assumes "\<forall>x. length (B x) = 32" "length ops < 2 ^ 50" "list_all (range_op_ok (\<lambda>_. True)) ops"
    and "k < length (fst (fold range_spec ops ([], [])))"
  shows "\<exists>m. range_run (header_step B R) ops (HeaderMMR_Load []) = Some m \<and>
    HeaderMMR_Root B R (of_nat k) m =
      Inr (mmr_root B (map header_leaf (take (Suc k) (fst (fold range_spec ops ([], []))))))"
proof -
  obtain v d where s: "fold range_spec ops ([], []) = (v, d)" by force
  obtain m where m: "range_run (header_step B R) ops (HeaderMMR_Load []) = Some m" "header_rep B m (v, d)"
    using header_range.run_refines [of B "HeaderMMR_Load []" "[]" "[]" ops R] assms header_rep_empty s by auto
  have rep: "mmr_rep B (hm_hashFile m) (map header_leaf v)" using m(2) by (simp add: header_rep_def)
  then have "Suc k < 2 ^ 64" "k < 2 ^ 63" using assms(4) by (simp_all add: mmr_rep_def s)
  then have "unat (of_nat k + 1 :: u64) = Suc k" by (simp add: unat_add_no_overflow unat_of_nat_u64)
  then have "LeafIndex_GetPosition (LeafIndex_At (of_nat k + 1)) = of_nat (mmr_pos (Suc k) 0)"
    by (simp add: LeafIndex_At_position)
  then show ?thesis
    using m(1) Root_rep [OF rep, of "Suc k" R] assms(4) s by (simp add: HeaderMMR_Root_def take_map)
qed

theorem header_mmr_refines_witness:
  "let ops = [RangeAdd (sample_header id), RangeAdd (sample_header rev), RangeCommit, RangeRewind 1,
              RangeAdd (sample_header id)];
       B = (\<lambda>bs. replicate 32 (of_nat (length bs)))
   in \<exists>m. range_run (header_step B set_roaring) ops (HeaderMMR_Load []) = Some m \<and>
      HeaderMMR_Root B set_roaring (of_nat 1) m =
        Inr (mmr_root B (map header_leaf (take (Suc 1) (fst (fold range_spec ops ([], []))))))"
  unfolding Let_def by (rule header_mmr_refines) simp_all

end
