(* ===== verification/BitmapAccumulator.thy ===== *)
theory BitmapAccumulator
  imports MMRHash
begin

text \<open>
  \<^verbatim>\<open>include/PMMR/Common/BitmapAccumulator.h\<close>: the bitmap of unspent outputs cut into chunks of 1024 bits, with the
  hashes of a Merkle mountain range over the chunks kept in memory; and the root of a leaf set
  (\<open>LeafSet::Root\<close>), which is computed through it. The range is shown to be the one of \<^verbatim>\<open>MMRHash\<close> over the
  serialized chunks.
\<close>

section \<open>Chunks\<close>

type_synonym BitmapChunk = bytes

definition LEN_BITS :: u64 where "LEN_BITS = 1024"
definition LEN_BYTES :: nat where "LEN_BYTES = 128"

definition BitmapChunk_New :: BitmapChunk where
  "BitmapChunk_New = replicate LEN_BYTES 0"

definition Chunk_Any :: "BitmapChunk \<Rightarrow> bool" where
  "Chunk_Any chunk = list_ex (\<lambda>b. b \<noteq> 0) chunk"

text \<open>Every caller passes a bit index below 1024, so the array accesses are inside the chunk.\<close>

definition Chunk_IsSet :: "u64 \<Rightarrow> BitmapChunk \<Rightarrow> bool" where
  "Chunk_IsSet bitIndex chunk =
     (chunk ! unat (bitIndex div 8) AND BitToByte (ucast (bitIndex mod 8)) \<noteq> 0)"

definition Chunk_Set :: "u64 \<Rightarrow> bool \<Rightarrow> BitmapChunk \<Rightarrow> BitmapChunk" where
  "Chunk_Set bitIndex val chunk =
     (let byteIndex = unat (bitIndex div 8);
          bt = BitToByte (ucast (bitIndex mod 8))
      in if val then chunk[byteIndex := chunk ! byteIndex OR bt]
         else chunk[byteIndex := chunk ! byteIndex AND NOT bt])"

definition Chunk_Serialize :: "BitmapChunk \<Rightarrow> bytes" where
  "Chunk_Serialize chunk = concat (map AppendU8 chunk)"

definition Chunk_Deserialize :: "BitmapChunk reader" where
  "Chunk_Deserialize b = read_n ReadU8 LEN_BYTES b"

section \<open>The accumulator\<close>

record BitmapAccumulator =
  ba_chunks :: "BitmapChunk list"
  ba_nodes :: "bytes list"

definition Accumulator_New :: BitmapAccumulator where
  "Accumulator_New = \<lparr>ba_chunks = [], ba_nodes = []\<rparr>"

definition NBITS :: u64 where "NBITS = LEN_BITS"

definition ChunkStartIndex :: "u64 \<Rightarrow> u64" where
  "ChunkStartIndex bitIndex = bitIndex AND NOT (NBITS - 1)"

definition ChunkIndex :: "u64 \<Rightarrow> u64" where
  "ChunkIndex bitIndex = bitIndex div NBITS"

definition Chunk_HashLeafWithIndex :: "(bytes \<Rightarrow> bytes) \<Rightarrow> BitmapChunk \<Rightarrow> u64 \<Rightarrow> bytes" where
  "Chunk_HashLeafWithIndex Blake2b chunk mmrIndex =
     Blake2b (AppendU64 mmrIndex @ AppendByteVector (Chunk_Serialize chunk) SL_NONE)"

definition node_at :: "bytes list \<Rightarrow> u64 \<Rightarrow> bytes result" where
  "node_at nodes position = (if unat position < length nodes then Inr (nodes ! unat position) else Inl Undefined)"

partial_function (option) add_node_parents ::
    "(bytes \<Rightarrow> bytes) \<Rightarrow> Index \<Rightarrow> bytes list \<Rightarrow> bytes list result option" where
  "add_node_parents Blake2b mmrIndex nodes =
     (if IsLeaf mmrIndex then Some (Inr nodes)
      else
        case rbind (node_at nodes (m_position (GetLeftChild mmrIndex))) (\<lambda>leftHash.
             rbind (node_at nodes (m_position (GetRightChild mmrIndex))) (\<lambda>rightHash.
               Inr (leftHash, rightHash))) of
          Inl e \<Rightarrow> Some (Inl e)
        | Inr (leftHash, rightHash) \<Rightarrow>
            add_node_parents Blake2b (GetNext mmrIndex)
              (nodes @ [HashParentWithIndex Blake2b leftHash rightHash (m_position mmrIndex)]))"

definition AppendHashChunk :: "(bytes \<Rightarrow> bytes) \<Rightarrow> BitmapChunk \<Rightarrow> bytes list \<Rightarrow> bytes list result option" where
  "AppendHashChunk Blake2b chunk nodes =
     (let leafPos = of_nat (length nodes)
      in add_node_parents Blake2b (Index_At (leafPos + 1))
           (nodes @ [Chunk_HashLeafWithIndex Blake2b chunk leafPos]))"

definition AppendChunk ::
  "(bytes \<Rightarrow> bytes) \<Rightarrow> BitmapChunk \<Rightarrow> BitmapAccumulator \<Rightarrow> BitmapAccumulator result option" where
  "AppendChunk Blake2b chunk acc =
     map_option (\<lambda>r. rbind r (\<lambda>nodes. Inr \<lparr>ba_chunks = ba_chunks acc @ [chunk], ba_nodes = nodes\<rparr>))
       (AppendHashChunk Blake2b chunk (ba_nodes acc))"

fun append_hash_chunks :: "(bytes \<Rightarrow> bytes) \<Rightarrow> BitmapChunk list \<Rightarrow> bytes list \<Rightarrow> bytes list result option" where
  "append_hash_chunks Blake2b [] nodes = Some (Inr nodes)"
| "append_hash_chunks Blake2b (chunk # chunks) nodes =
     (case AppendHashChunk Blake2b chunk nodes of
        None \<Rightarrow> None
      | Some (Inl e) \<Rightarrow> Some (Inl e)
      | Some (Inr nodes) \<Rightarrow> append_hash_chunks Blake2b chunks nodes)"

definition Accumulator_Build :: "(bytes \<Rightarrow> bytes) \<Rightarrow> BitmapAccumulator \<Rightarrow> BitmapAccumulator result option" where
  "Accumulator_Build Blake2b acc =
     map_option (\<lambda>r. rbind r (\<lambda>nodes. Inr (acc\<lparr>ba_nodes := nodes\<rparr>)))
       (append_hash_chunks Blake2b (ba_chunks acc) [])"

definition Accumulator_GetHashAt :: "BitmapAccumulator \<Rightarrow> u64 \<Rightarrow> bytes option" where
  "Accumulator_GetHashAt acc mmrPosition =
     (if of_nat (length (ba_nodes acc)) \<le> mmrPosition then None else Some (ba_nodes acc ! unat mmrPosition))"

definition GetMMRSize :: "BitmapAccumulator \<Rightarrow> u64" where
  "GetMMRSize acc = of_nat (length (ba_nodes acc))"

fun bag_nodes :: "(bytes \<Rightarrow> bytes) \<Rightarrow> bytes list \<Rightarrow> u64 list \<Rightarrow> bytes \<Rightarrow> bytes result" where
  "bag_nodes Blake2b nodes [] root = Inr root"
| "bag_nodes Blake2b nodes (peak # peaks) root =
     rbind (node_at nodes peak) (\<lambda>peakHash.
       bag_nodes Blake2b nodes peaks
         (if BigInteger_equal root ZERO_HASH then peakHash
          else HashParentWithIndex Blake2b peakHash root (of_nat (length nodes))))"

definition Accumulator_Root :: "(bytes \<Rightarrow> bytes) \<Rightarrow> BitmapAccumulator \<Rightarrow> bytes result" where
  "Accumulator_Root Blake2b acc =
     (if ba_nodes acc = [] then Inr ZERO_HASH
      else bag_nodes Blake2b (ba_nodes acc) (rev (GetPeakIndices (GetMMRSize acc))) ZERO_HASH)"

text \<open>
  \<open>ApplyFrom\<close>: the chunks of an increasing sequence of bit indices. The inner loop fills up with chunks until the
  bit is inside the current one; at the very end of the 64-bit range its bound wraps around and it does not end.
\<close>

partial_function (option) skip_chunks ::
    "u64 \<Rightarrow> u64 \<Rightarrow> BitmapChunk \<Rightarrow> BitmapChunk list \<Rightarrow> (u64 \<times> BitmapChunk \<times> BitmapChunk list) option" where
  "skip_chunks bitIndex chunkIndex chunk chunks =
     (if (chunkIndex + 1) * NBITS \<le> bitIndex
      then skip_chunks bitIndex (chunkIndex + 1) BitmapChunk_New (chunks @ [chunk])
      else Some (chunkIndex, chunk, chunks))"

fun apply_bits ::
  "u64 list \<Rightarrow> u64 \<Rightarrow> u64 \<Rightarrow> BitmapChunk \<Rightarrow> BitmapChunk list \<Rightarrow> (BitmapChunk \<times> BitmapChunk list) option" where
  "apply_bits [] size' chunkIndex chunk chunks = Some (chunk, chunks)"
| "apply_bits (bitIndex # bits) size' chunkIndex chunk chunks =
     (if size' \<le> bitIndex then Some (chunk, chunks)
      else
        case skip_chunks bitIndex chunkIndex chunk chunks of
          None \<Rightarrow> None
        | Some (chunkIndex, chunk, chunks) \<Rightarrow>
            apply_bits bits size' chunkIndex (Chunk_Set (bitIndex mod NBITS) True chunk) chunks)"

definition ApplyFrom ::
  "(bytes \<Rightarrow> bytes) \<Rightarrow> u64 list \<Rightarrow> u64 \<Rightarrow> u64 \<Rightarrow> BitmapAccumulator \<Rightarrow> BitmapAccumulator result option" where
  "ApplyFrom Blake2b setBitIndices fromIndex size' acc =
     (case apply_bits setBitIndices size' (ChunkIndex fromIndex) BitmapChunk_New (ba_chunks acc) of
        None \<Rightarrow> None
      | Some (chunk, chunks) \<Rightarrow>
          Accumulator_Build Blake2b
            (acc\<lparr>ba_chunks := if Chunk_Any chunk \<or> setBitIndices \<noteq> [] then chunks @ [chunk] else chunks\<rparr>))"

definition Accumulator_Init ::
  "(bytes \<Rightarrow> bytes) \<Rightarrow> u64 list \<Rightarrow> u64 \<Rightarrow> BitmapAccumulator \<Rightarrow> BitmapAccumulator result option" where
  "Accumulator_Init Blake2b setBitIndices size' acc =
     ApplyFrom Blake2b setBitIndices 0 size' (acc\<lparr>ba_chunks := []\<rparr>)"

section \<open>The root of the leaf set\<close>

fun append_chunks ::
  "(bytes \<Rightarrow> bytes) \<Rightarrow> BitmapChunk list \<Rightarrow> BitmapAccumulator \<Rightarrow> BitmapAccumulator result option" where
  "append_chunks Blake2b [] acc = Some (Inr acc)"
| "append_chunks Blake2b (chunk # chunks) acc =
     (case AppendChunk Blake2b chunk acc of
        None \<Rightarrow> None
      | Some (Inl e) \<Rightarrow> Some (Inl e)
      | Some (Inr acc) \<Rightarrow> append_chunks Blake2b chunks acc)"

definition leaf_set_chunk :: "BitmapFile \<Rightarrow> nat \<Rightarrow> BitmapChunk" where
  "leaf_set_chunk f i = map (\<lambda>j. GetByte f (of_nat (i * LEN_BYTES + j))) [0..<LEN_BYTES]"

definition LeafSet_Root :: "(bytes \<Rightarrow> bytes) \<Rightarrow> BitmapFile \<Rightarrow> u64 \<Rightarrow> bytes result option" where
  "LeafSet_Root Blake2b f numOutputs =
     (let numChunks = (numOutputs + 1023) div 1024
      in map_option (\<lambda>r. rbind r (Accumulator_Root Blake2b))
           (append_chunks Blake2b (map (leaf_set_chunk f) [0..<unat numChunks]) Accumulator_New))"

section \<open>The accumulator holds the hashes of a range\<close>

lemma Chunk_HashLeaf: "Chunk_HashLeafWithIndex B chunk p = HashLeafWithIndex B (Chunk_Serialize chunk) p"
  by (simp add: Chunk_HashLeafWithIndex_def HashLeafWithIndex_def)

lemma node_at_hash: "p < m \<Longrightarrow> m < 2 ^ 64 \<Longrightarrow> node_at (map f [0..<m]) (of_nat p) = Inr (f p)"
  by (simp add: node_at_def unat_of_nat_u64)

lemma add_node_parents_correct:
  "is_node n h \<Longrightarrow> n < 2 ^ 50 \<Longrightarrow>
   add_node_parents B (GetNext (node n h)) (map (hash_at B leaves) [0..<Suc (mmr_pos n h)]) =
     Some (Inr (map (hash_at B leaves) [0..<mmr_pos (Suc n) 0]))"
proof (induction "60 - h" arbitrary: h rule: less_induct)
  case less
  have h: "h \<le> 50" by (rule node_height_small [OF less.prems])
  have pos: "mmr_pos n k < 2 ^ 52" if "k \<le> 60" for k using mmr_pos_small [OF less.prems(2) that] .
  have range: "in_range n h" using less.prems(1) pos [of h] h by (simp add: in_range_def)
  show ?case
  proof (cases "is_right n h")
    case False
    have "GetNext (node n h) = node (Suc n) 0" using GetNext_node [OF range] False by simp
    moreover have "mmr_pos (Suc n) 0 = Suc (mmr_pos n h)"
      using mmr_pos_next_leaf [OF less.prems(1)] False by (simp add: is_right_def)
    ultimately show ?thesis by (subst add_node_parents.simps) (simp add: IsLeaf_node)
  next
    case True
    have node: "is_node n (Suc h)" using True by (simp add: is_right_def)
    have idx: "GetNext (node n h) = node n (Suc h)" using GetNext_node [OF range] True by simp
    have nleaf: "\<not> IsLeaf (node n (Suc h))" using h by (subst IsLeaf_node) simp_all
    have left: "is_node (n - 2 ^ h) h" by (rule right_node_shift(2) [OF True])
    have lt: "mmr_pos (n - 2 ^ h) h < Suc (mmr_pos n h)"
      using mmr_pos_right_shift [OF True, of h] one_le_power [of "2::nat" "Suc h"] by linarith
    have mpos: "m_position (node a b) = of_nat (mmr_pos a b)" for a b by (simp add: node_def)
    let ?nodes = "map (hash_at B leaves) [0..<Suc (mmr_pos n h)]"
    have small: "Suc (mmr_pos n h) < 2 ^ 64" using pos [of h] h by simp
    have "node_at ?nodes (of_nat (mmr_pos (n - 2 ^ h) h)) = Inr (node_hash B leaves (n - 2 ^ h) h)"
      "node_at ?nodes (of_nat (mmr_pos n h)) = Inr (node_hash B leaves n h)"
      using node_at_hash [OF lt small, of "hash_at B leaves"] node_at_hash [OF lessI small, of "hash_at B leaves"]
      by (simp_all only: hash_at_node [OF left] hash_at_node [OF less.prems(1)])
    moreover have "GetLeftChild (node n (Suc h)) = node (n - 2 ^ h) h"
      using GetLeftChild_node [OF node] h by simp
    ultimately have "add_node_parents B (GetNext (node n h)) ?nodes =
        add_node_parents B (GetNext (node n (Suc h))) (?nodes @ [hash_at B leaves (mmr_pos n (Suc h))])"
      unfolding idx
      by (subst add_node_parents.simps) (simp add: nleaf GetRightChild_node mpos hash_at_node [OF node])
    moreover have "?nodes @ [hash_at B leaves (mmr_pos n (Suc h))] =
        map (hash_at B leaves) [0..<Suc (mmr_pos n (Suc h))]"
      by (simp add: mmr_pos_def)
    moreover have "60 - Suc h < 60 - h" using h by simp
    ultimately show ?thesis using less.hyps [of "Suc h", OF _ node less.prems(2)] by (simp only:)
  qed
qed

lemma AppendHashChunk_correct:
  assumes "length leaves < 2 ^ 50"
  shows "AppendHashChunk B chunk (mmr_hashes B leaves) =
    Some (Inr (mmr_hashes B (leaves @ [Chunk_Serialize chunk])))"
proof -
  let ?n = "length leaves" and ?ls = "leaves @ [Chunk_Serialize chunk]"
  have same: "mmr_hashes B leaves = map (hash_at B ?ls) [0..<mmr_pos ?n 0]"
    unfolding mmr_hashes_def using hash_at_append by (intro map_cong) auto
  have "Chunk_HashLeafWithIndex B chunk (of_nat (mmr_pos ?n 0)) = hash_at B ?ls (mmr_pos ?n 0)"
    using hash_at_node [of ?n 0 B ?ls] by (simp add: Chunk_HashLeaf)
  moreover have "Index_At (of_nat (mmr_pos ?n 0) + 1) = GetNext (node ?n 0)" by (simp add: GetNext_def node_def)
  ultimately show ?thesis
    using add_node_parents_correct [OF is_node_leaf assms, of B ?ls] unfolding same
    by (simp add: AppendHashChunk_def Let_def mmr_hashes_def)
qed

lemma append_chunks_correct:
  "length cs + length chunks < 2 ^ 50 \<Longrightarrow>
   append_chunks B chunks \<lparr>ba_chunks = cs, ba_nodes = mmr_hashes B (map Chunk_Serialize cs)\<rparr> =
     Some (Inr \<lparr>ba_chunks = cs @ chunks, ba_nodes = mmr_hashes B (map Chunk_Serialize (cs @ chunks))\<rparr>)"
proof (induction chunks arbitrary: cs)
  case (Cons c chunks)
  then show ?case
    using AppendHashChunk_correct [of "map Chunk_Serialize cs" B c] Cons.IH [of "cs @ [c]"]
    by (simp add: AppendChunk_def)
qed simp

lemma bag_nodes_fold:
  assumes "\<And>n h. (n, h) \<in> set ns \<Longrightarrow>
      node_at nodes (of_nat (mmr_pos n h)) = Inr (node_hash B leaves n h) \<and>
      \<not> BigInteger_equal (node_hash B leaves n h) ZERO_HASH"
  shows "bag_nodes B nodes (map (\<lambda>(n, h). of_nat (mmr_pos n h)) ns) root =
    Inr (fold (\<lambda>(n, h) hash. bag B (of_nat (length nodes)) hash (node_hash B leaves n h)) ns root)"
  using assms
proof (induction ns arbitrary: root)
  case (Cons x ns)
  obtain n h where x: "x = (n, h)" by force
  then show ?case using Cons.prems [of n h] Cons by (simp add: bag_def)
qed simp

text \<open>No node of the range hashes to zero, the value that the bagging loops take for \<open>no hash yet\<close>.\<close>

definition no_zero_hash :: "(bytes \<Rightarrow> bytes) \<Rightarrow> bytes list \<Rightarrow> bool" where
  "no_zero_hash B leaves \<longleftrightarrow>
     list_all (\<lambda>h. \<not> BigInteger_equal h ZERO_HASH) (mmr_hashes B leaves)"

lemma no_zero_node:
  assumes "no_zero_hash B leaves" "is_node n h" "mmr_pos n h < mmr_pos (length leaves) 0"
  shows "\<not> BigInteger_equal (node_hash B leaves n h) ZERO_HASH"
proof -
  have "hash_at B leaves (mmr_pos n h) \<in> set (mmr_hashes B leaves)"
    using assms(3) by (simp add: mmr_hashes_def)
  then show ?thesis using assms(1) unfolding no_zero_hash_def list_all_iff hash_at_node [OF assms(2)] by blast
qed

lemma Accumulator_Root_correct:
  assumes "length leaves < 2 ^ 50" "no_zero_hash B leaves"
  shows "Accumulator_Root B \<lparr>ba_chunks = cs, ba_nodes = mmr_hashes B leaves\<rparr> = Inr (mmr_root B leaves)"
proof -
  let ?n = "length leaves" let ?ns = "peak_nodes (bit_width ?n) ?n" and ?nodes = "mmr_hashes B leaves"
  have len: "length ?nodes = mmr_pos ?n 0" by (simp add: mmr_hashes_def)
  have pos: "mmr_pos ?n 0 < 2 ^ 52" using mmr_pos_small [of ?n 0] assms(1) by simp
  have us: "unat (of_nat (mmr_pos ?n 0) :: u64) = mmr_pos ?n 0" using pos by (intro unat_of_nat_u64) simp
  have peaks: "GetPeakIndices (of_nat (mmr_pos ?n 0)) = map (\<lambda>(n, h). of_nat (mmr_pos n h)) ?ns"
    using node_coordinates [OF is_node_leaf, of ?n]
    by (simp add: GetPeakIndices_eq us peaks_of_def comp_def case_prod_unfold)
  have nodes: "node_at ?nodes (of_nat (mmr_pos n h)) = Inr (node_hash B leaves n h) \<and>
      \<not> BigInteger_equal (node_hash B leaves n h) ZERO_HASH" if "(n, h) \<in> set (rev ?ns)" for n h
  proof -
    have p: "is_node n h" "mmr_pos n h < mmr_pos ?n 0" using peak_node that by auto
    then show ?thesis
      using node_at_hash [OF p(2), of "hash_at B leaves"] pos no_zero_node [OF assms(2) p] hash_at_node [OF p(1)]
      by (simp add: mmr_hashes_def)
  qed
  have "?nodes = [] \<Longrightarrow> leaves = []"
    using len mmr_pos_ge [of ?n 0] by auto
  then show ?thesis
    using bag_nodes_fold [of "rev ?ns" ?nodes B leaves ZERO_HASH, OF nodes]
    by (auto simp: Accumulator_Root_def GetMMRSize_def len peaks rev_map mmr_root_def peak_nodes_def)
qed

section \<open>The root of the leaf set commits to the leaf set\<close>

lemma Chunk_Serialize_id [simp]: "Chunk_Serialize chunk = chunk"
proof -
  have "AppendU8 x = [x]" for x
    using unsigned_less [of x, where ?'a = nat] by (simp add: AppendU8_def be_bytes_def)
  then show ?thesis by (induction chunk) (simp_all add: Chunk_Serialize_def)
qed

lemma leaf_set_chunk_IsSet:
  assumes "i < 2 ^ 40" "k < 1024"
  shows "Chunk_IsSet (of_nat k) (leaf_set_chunk f i) \<longleftrightarrow> IsSet f (of_nat (1024 * i + k))"
proof -
  have "k < 2 ^ 64" by (rule less_trans [OF assms(2)]) simp
  then have k: "unat (of_nat k :: u64) = k" by (rule unat_of_nat_u64)
  have ik: "unat (of_nat (1024 * i + k) :: u64) = 1024 * i + k" using assms by (intro unat_of_nat_u64) simp
  have byte: "unat ((of_nat k :: u64) div 8) = k div 8" by (simp add: unat_div k)
  have div: "(of_nat (1024 * i + k) :: u64) div 8 = of_nat (i * 128 + k div 8)"
  proof -
    have "unat (of_nat (i * 128 + k div 8) :: u64) = i * 128 + k div 8"
      using assms by (intro unat_of_nat_u64) simp
    moreover have "(1024 * i + k) div 8 = i * 128 + k div 8" by simp
    moreover have "unat (8 :: u64) = 8" by simp
    ultimately show ?thesis unfolding word_unat_eq_iff unat_div ik by metis
  qed
  have mod: "(of_nat (1024 * i + k) :: u64) mod 8 = of_nat k mod 8"
  proof -
    have "(8 * (128 * i) + k) mod 8 = k mod 8" by (rule mod_mult_self4)
    then have "(1024 * i + k) mod 8 = k mod 8" by simp
    moreover have "unat (8 :: u64) = 8" by simp
    ultimately show ?thesis unfolding word_unat_eq_iff unat_mod ik k by metis
  qed
  have "k div 8 < 128" using assms(2) by simp
  then have "leaf_set_chunk f i ! (k div 8) = GetByte f (of_nat (i * 128 + k div 8))"
    by (simp add: leaf_set_chunk_def LEN_BYTES_def)
  then show ?thesis unfolding Chunk_IsSet_def IsSet_def byte div mod by (simp only:)
qed

text \<open>
  C22. \<open>LeafSet::Root\<close> returns, and its value is the root of the range over the 1024-bit chunks of the leaf set: bit
  \<open>k\<close> of chunk \<open>i\<close> is set exactly when leaf \<open>1024 * i + k\<close> is in the set. So equal leaf sets have equal roots
  whatever bytes the files hold beyond them.
\<close>

theorem LeafSet_Root_correct:
  assumes "numOutputs < 2 ^ 40"
    and "no_zero_hash B (map (leaf_set_chunk f) [0..<(unat numOutputs + 1023) div 1024])"
  shows "LeafSet_Root B f numOutputs =
      Some (Inr (mmr_root B (map (leaf_set_chunk f) [0..<(unat numOutputs + 1023) div 1024]))) \<and>
    (\<forall>i < (unat numOutputs + 1023) div 1024. \<forall>k < 1024.
       Chunk_IsSet (of_nat k) (leaf_set_chunk f i) \<longleftrightarrow> LeafSet_Contains f (LeafIndex_At (of_nat (1024 * i + k))))"
proof -
  have n: "unat numOutputs < 2 ^ 40" using assms(1) by (simp add: word_less_nat_alt)
  then have u: "unat ((numOutputs + 1023) div 1024) = (unat numOutputs + 1023) div 1024"
    by (simp add: unat_div unat_add_no_overflow)
  let ?cs = "map (leaf_set_chunk f) [0..<(unat numOutputs + 1023) div 1024]"
  have len: "length ?cs < 2 ^ 50" using n by simp
  have "append_chunks B ?cs Accumulator_New = Some (Inr \<lparr>ba_chunks = ?cs, ba_nodes = mmr_hashes B ?cs\<rparr>)"
    using append_chunks_correct [of "[]" ?cs B] len
    by (simp add: Accumulator_New_def mmr_hashes_def [of B "[]"] mmr_pos_def comp_def)
  then have "LeafSet_Root B f numOutputs = Some (Inr (mmr_root B ?cs))"
    using Accumulator_Root_correct [OF len assms(2)] by (simp add: LeafSet_Root_def Let_def u)
  moreover have "Chunk_IsSet (of_nat k) (leaf_set_chunk f i) \<longleftrightarrow>
      LeafSet_Contains f (LeafIndex_At (of_nat (1024 * i + k)))"
    if "i < (unat numOutputs + 1023) div 1024" "k < 1024" for i k
  proof -
    have "i < 2 ^ 40" using that(1) n by simp
    from leaf_set_chunk_IsSet [OF this that(2), of f] show ?thesis
      by (simp add: LeafSet_Contains_def LeafIndex_At_def)
  qed
  ultimately show ?thesis by blast
qed

theorem LeafSet_Root_correct_witness:
  "let f = BitmapFile_Set 3 (BitmapFile_New []); B = (\<lambda>bs. replicate 32 1)
   in LeafSet_Root B f 5 = Some (Inr (mmr_root B (map (leaf_set_chunk f) [0..<(unat (5 :: u64) + 1023) div 1024]))) \<and>
    (\<forall>i < (unat (5 :: u64) + 1023) div 1024. \<forall>k < 1024.
       Chunk_IsSet (of_nat k) (leaf_set_chunk f i) \<longleftrightarrow> LeafSet_Contains f (LeafIndex_At (of_nat (1024 * i + k))))"
  unfolding Let_def
proof (rule LeafSet_Root_correct)
  have z: "\<not> BigInteger_equal (replicate 32 1) ZERO_HASH" by (simp add: ZERO_HASH_def BigInteger_ValueOf_def numeral_eq_Suc)
  have "node_hash (\<lambda>bs. replicate 32 1) leaves n h = replicate 32 1" for leaves n h
    by (cases h) (simp_all add: HashLeafWithIndex_def HashParentWithIndex_def)
  then show "no_zero_hash (\<lambda>bs. replicate 32 1)
      (map (leaf_set_chunk (BitmapFile_Set 3 (BitmapFile_New []))) [0..<(unat (5 :: u64) + 1023) div 1024])"
    using z by (simp add: no_zero_hash_def mmr_hashes_def hash_at_def list_all_iff)
qed simp

end
