(* ===== verification/Segments.thy ===== *)
theory Segments
  imports BitmapAccumulator
begin

text \<open>
  Segments of a Merkle mountain range, by which a node downloads the ranges piece by piece:
  \<^verbatim>\<open>include/PMMR/Common/SegmentId.h\<close>, \<^verbatim>\<open>SegmentProof.h\<close> and \<^verbatim>\<open>Segment.h\<close>. The serialization of a leaf is an
  argument. A segment height of 64 or more would be a shift by too many bits; such heights are outside the
  model. The bitmap is a pointer that may be null.

  Shown for segments without a bitmap: the segment of an honest range validates against its root, and a segment
  that validates holds the leaves of the range, unless the hash function has a second preimage of one of the
  range's hash inputs.
\<close>

section \<open>Identifiers\<close>

record SegmentIdentifier =
  si_height :: u8
  si_index :: u64

definition Segment_CountLeaves :: "u64 \<Rightarrow> u64" where
  "Segment_CountLeaves mmrSize = (if mmrSize = 0 then 0 else m_leafIndex (LeafIndex_AtPos mmrSize))"

definition GetSegmentCapacity :: "SegmentIdentifier \<Rightarrow> u64" where
  "GetSegmentCapacity si = push_bit (unat (si_height si)) 1"

definition GetLeafOffset :: "SegmentIdentifier \<Rightarrow> u64" where
  "GetLeafOffset si = si_index si * GetSegmentCapacity si"

definition GetSegmentUnprunedSize :: "u64 \<Rightarrow> SegmentIdentifier \<Rightarrow> u64" where
  "GetSegmentUnprunedSize mmrSize si =
     (let numLeaves = Segment_CountLeaves mmrSize; leafOffset = GetLeafOffset si
      in if numLeaves \<le> leafOffset then 0 else min (GetSegmentCapacity si) (numLeaves - leafOffset))"

definition GetPositionRange :: "u64 \<Rightarrow> SegmentIdentifier \<Rightarrow> u64 \<times> u64" where
  "GetPositionRange mmrSize si =
     (let segmentSize = GetSegmentUnprunedSize mmrSize si
      in if segmentSize = 0 then (0, 0)
         else
           let first = LeafIndex_GetPosition (LeafIndex_At (GetLeafOffset si))
           in if segmentSize = GetSegmentCapacity si then
                let lastLeafPos = LeafIndex_GetPosition (LeafIndex_At (GetLeafOffset si + segmentSize - 1))
                in (first, lastLeafPos + ucast (si_height si))
              else (first, mmrSize - 1))"

definition CountSegmentsRequired :: "u64 \<Rightarrow> u8 \<Rightarrow> u64" where
  "CountSegmentsRequired targetMMRSize height =
     (let numLeaves = Segment_CountLeaves targetMMRSize; segmentCapacity = push_bit (unat height) 1
      in (numLeaves + segmentCapacity - 1) div segmentCapacity)"

definition GetPMMRSize :: "u64 \<Rightarrow> u8 \<Rightarrow> u64" where
  "GetPMMRSize numSegments height =
     (if numSegments = 0 then 0
      else LeafIndex_GetPosition (LeafIndex_At (numSegments * push_bit (unat height) 1)))"

definition SegmentIdentifier_Serialize :: "SegmentIdentifier \<Rightarrow> bytes" where
  "SegmentIdentifier_Serialize si = AppendU8 (si_height si) @ AppendU64 (si_index si)"

definition SegmentIdentifier_Deserialize :: "SegmentIdentifier reader" where
  "SegmentIdentifier_Deserialize b =
     rbind (ReadU8 b) (\<lambda>(height, b).
     rbind (ReadU64 b) (\<lambda>(index, b). Inr (\<lparr>si_height = height, si_index = index\<rparr>, b)))"

section \<open>Proofs\<close>

text \<open>
  A proof is its vector of hashes. Reading a hash may throw and may find the node pruned. \<open>None\<close> around the
  result is the climb of \<open>FamilyBranch\<close> that does not end.
\<close>

type_synonym SegmentProof = "bytes list"

fun sibling_hashes ::
  "(u64 \<Rightarrow> bytes option result) \<Rightarrow> u64 option \<Rightarrow> (u64 \<times> u64) list \<Rightarrow> bytes list option result" where
  "sibling_hashes getHashAt startPos [] = Inr (Some [])"
| "sibling_hashes getHashAt startPos ((parentPos, siblingPos) # branch) =
     (if (case startPos of None \<Rightarrow> False | Some start \<Rightarrow> parentPos < start)
      then sibling_hashes getHashAt startPos branch
      else
        rbind (getHashAt siblingPos) (\<lambda>siblingHash.
          case siblingHash of
            None \<Rightarrow> Inr None
          | Some hash \<Rightarrow> rbind (sibling_hashes getHashAt startPos branch) (\<lambda>hs. Inr (map_option ((#) hash) hs))))"

fun right_peaks ::
  "(bytes \<Rightarrow> bytes) \<Rightarrow> (u64 \<Rightarrow> bytes option result) \<Rightarrow> u64 \<Rightarrow> u64 \<Rightarrow> u64 list \<Rightarrow> bytes option \<Rightarrow>
   bytes option option result" where
  "right_peaks Blake2b getHashAt mmrSize peakPos [] rhs = Inr (Some rhs)"
| "right_peaks Blake2b getHashAt mmrSize peakPos (peak # peaks) rhs =
     (if peak \<le> peakPos then right_peaks Blake2b getHashAt mmrSize peakPos peaks rhs
      else
        rbind (getHashAt peak) (\<lambda>peakHash.
          case peakHash of
            None \<Rightarrow> Inr None
          | Some hash \<Rightarrow>
              right_peaks Blake2b getHashAt mmrSize peakPos peaks
                (Some (case rhs of None \<Rightarrow> hash | Some r \<Rightarrow> HashParentWithIndex Blake2b hash r mmrSize))))"

fun left_peaks :: "(u64 \<Rightarrow> bytes option result) \<Rightarrow> u64 \<Rightarrow> u64 list \<Rightarrow> bytes list option result" where
  "left_peaks getHashAt segmentFirstPos [] = Inr (Some [])"
| "left_peaks getHashAt segmentFirstPos (peak # peaks) =
     (if segmentFirstPos \<le> peak then left_peaks getHashAt segmentFirstPos peaks
      else
        rbind (getHashAt peak) (\<lambda>peakHash.
          case peakHash of
            None \<Rightarrow> Inr None
          | Some hash \<Rightarrow> rbind (left_peaks getHashAt segmentFirstPos peaks) (\<lambda>hs. Inr (map_option ((#) hash) hs))))"

definition branch_peak :: "u64 \<Rightarrow> (u64 \<times> u64) list \<Rightarrow> u64" where
  "branch_peak segmentLastPos branch = (if branch = [] then segmentLastPos else fst (last branch))"

text \<open>The three loops of \<open>Generate\<close> run one after the other; each may find a pruned hash.\<close>

definition SegmentProof_Generate ::
  "(bytes \<Rightarrow> bytes) \<Rightarrow> u64 \<Rightarrow> u64 \<Rightarrow> u64 \<Rightarrow> u64 option \<Rightarrow> (u64 \<Rightarrow> bytes option result) \<Rightarrow>
   SegmentProof option result option" where
  "SegmentProof_Generate Blake2b mmrSize segmentFirstPos segmentLastPos startPos getHashAt =
     map_option (\<lambda>branch.
       let peaks = rev (GetPeakIndices mmrSize)
       in rbind (sibling_hashes getHashAt startPos branch) (\<lambda>siblings.
            case siblings of
              None \<Rightarrow> Inr None
            | Some siblings \<Rightarrow>
                rbind (right_peaks Blake2b getHashAt mmrSize (branch_peak segmentLastPos branch) peaks None) (\<lambda>rhs.
                  case rhs of
                    None \<Rightarrow> Inr None
                  | Some rhs \<Rightarrow>
                      rbind (left_peaks getHashAt segmentFirstPos peaks) (\<lambda>lefts.
                        Inr (map_option (\<lambda>lefts.
                          siblings @ (case rhs of None \<Rightarrow> [] | Some r \<Rightarrow> [r]) @ lefts) lefts)))))
       (FamilyBranch segmentLastPos mmrSize)"

text \<open>
  \<open>ReconstructRoot\<close> takes the hashes of the proof in order; running out of them or having some left is a failure.
  The state of each loop is the current root and the hashes not taken yet.
\<close>

fun reconstruct_branch ::
  "(bytes \<Rightarrow> bytes) \<Rightarrow> u64 \<Rightarrow> (u64 \<times> u64) list \<Rightarrow> bytes \<Rightarrow> bytes list \<Rightarrow> (bytes \<times> bytes list) option" where
  "reconstruct_branch Blake2b segmentUnprunedPos [] root hashes = Some (root, hashes)"
| "reconstruct_branch Blake2b segmentUnprunedPos ((parentPos, siblingPos) # branch) root hashes =
     (if parentPos < segmentUnprunedPos
      then reconstruct_branch Blake2b segmentUnprunedPos branch root hashes
      else
        case hashes of
          [] \<Rightarrow> None
        | siblingHash # hashes \<Rightarrow>
            reconstruct_branch Blake2b segmentUnprunedPos branch
              (if IsLeftSibling siblingPos then HashParentWithIndex Blake2b siblingHash root parentPos
               else HashParentWithIndex Blake2b root siblingHash parentPos) hashes)"

fun reconstruct_left ::
  "(bytes \<Rightarrow> bytes) \<Rightarrow> u64 \<Rightarrow> u64 \<Rightarrow> u64 list \<Rightarrow> bytes \<Rightarrow> bytes list \<Rightarrow> (bytes \<times> bytes list) option" where
  "reconstruct_left Blake2b mmrSize segmentFirstPos [] root hashes = Some (root, hashes)"
| "reconstruct_left Blake2b mmrSize segmentFirstPos (peak # peaks) root hashes =
     (if segmentFirstPos \<le> peak then reconstruct_left Blake2b mmrSize segmentFirstPos peaks root hashes
      else
        case hashes of
          [] \<Rightarrow> None
        | hash # hashes \<Rightarrow>
            reconstruct_left Blake2b mmrSize segmentFirstPos peaks
              (HashParentWithIndex Blake2b hash root mmrSize) hashes)"

definition reconstruct_right ::
  "(bytes \<Rightarrow> bytes) \<Rightarrow> u64 \<Rightarrow> u64 \<Rightarrow> u64 list \<Rightarrow> bytes \<Rightarrow> bytes list \<Rightarrow> (bytes \<times> bytes list) option" where
  "reconstruct_right Blake2b mmrSize peakPos peaks root hashes =
     (if list_ex (\<lambda>pos. peakPos < pos) peaks then
        case hashes of
          [] \<Rightarrow> None
        | hash # hashes \<Rightarrow> Some (HashParentWithIndex Blake2b root hash mmrSize, hashes)
      else Some (root, hashes))"

definition ReconstructRoot ::
  "(bytes \<Rightarrow> bytes) \<Rightarrow> u64 \<Rightarrow> u64 \<Rightarrow> u64 \<Rightarrow> bytes \<Rightarrow> u64 \<Rightarrow> SegmentProof \<Rightarrow> bytes option option" where
  "ReconstructRoot Blake2b mmrSize segmentFirstPos segmentLastPos segmentRoot segmentUnprunedPos hashes =
     map_option (\<lambda>branch.
       let peaks = GetPeakIndices mmrSize
       in Option.bind (reconstruct_branch Blake2b segmentUnprunedPos branch segmentRoot hashes) (\<lambda>(root, hashes).
          Option.bind (reconstruct_right Blake2b mmrSize (branch_peak segmentLastPos branch) peaks root hashes)
            (\<lambda>(root, hashes).
          Option.bind (reconstruct_left Blake2b mmrSize segmentFirstPos (rev peaks) root hashes) (\<lambda>(root, hashes).
            if hashes = [] then Some root else None))))
       (FamilyBranch segmentLastPos mmrSize)"

definition SegmentProof_Validate ::
  "(bytes \<Rightarrow> bytes) \<Rightarrow> u64 \<Rightarrow> u64 \<Rightarrow> u64 \<Rightarrow> bytes \<Rightarrow> u64 \<Rightarrow> bytes \<Rightarrow> SegmentProof \<Rightarrow> bool option" where
  "SegmentProof_Validate Blake2b mmrSize segmentFirstPos segmentLastPos segmentRoot segmentUnprunedPos expectedRoot
     prf =
     map_option (\<lambda>root. case root of None \<Rightarrow> False | Some root \<Rightarrow> BigInteger_equal root expectedRoot)
       (ReconstructRoot Blake2b mmrSize segmentFirstPos segmentLastPos segmentRoot segmentUnprunedPos prf)"

definition SegmentProof_ValidateWith ::
  "(bytes \<Rightarrow> bytes) \<Rightarrow> u64 \<Rightarrow> u64 \<Rightarrow> u64 \<Rightarrow> bytes \<Rightarrow> u64 \<Rightarrow> u64 \<Rightarrow> bytes \<Rightarrow> bool \<Rightarrow> bytes \<Rightarrow> SegmentProof \<Rightarrow>
   bool option" where
  "SegmentProof_ValidateWith Blake2b mmrSize segmentFirstPos segmentLastPos segmentRoot segmentUnprunedPos
     hashLastPos otherRoot otherIsLeft expectedRoot prf =
     map_option (\<lambda>root.
       case root of
         None \<Rightarrow> False
       | Some root \<Rightarrow>
           BigInteger_equal
             (if otherIsLeft then HashParentWithIndex Blake2b otherRoot root hashLastPos
              else HashParentWithIndex Blake2b root otherRoot hashLastPos) expectedRoot)
       (ReconstructRoot Blake2b mmrSize segmentFirstPos segmentLastPos segmentRoot segmentUnprunedPos prf)"

definition SegmentProof_Serialize :: "SegmentProof \<Rightarrow> bytes" where
  "SegmentProof_Serialize hashes =
     AppendU64 (of_nat (length hashes)) @ concat (map AppendBigInteger hashes)"

definition SegmentProof_Deserialize :: "SegmentProof reader" where
  "SegmentProof_Deserialize b =
     rbind (ReadU64 b) (\<lambda>(size', b). read_n (ReadBigInteger 32) (unat size') b)"

section \<open>Segments\<close>

record 'a Segment =
  sg_id :: SegmentIdentifier
  sg_hash_pos :: "u64 list"
  sg_hashes :: "bytes list"
  sg_leaf_pos :: "u64 list"
  sg_leaves :: "'a list"
  sg_proof :: SegmentProof

definition Segment_HashLeafWithIndex :: "(bytes \<Rightarrow> bytes) \<Rightarrow> ('a \<Rightarrow> bytes) \<Rightarrow> 'a \<Rightarrow> u64 \<Rightarrow> bytes" where
  "Segment_HashLeafWithIndex Blake2b ser leaf mmrIndex =
     Blake2b (AppendU64 mmrIndex @ AppendByteVector (ser leaf) SL_NONE)"

text \<open>\<open>std::find\<close> and the element at the same distance in the second vector.\<close>

fun find_index :: "'a \<Rightarrow> 'a list \<Rightarrow> nat option" where
  "find_index x [] = None"
| "find_index x (y # ys) = (if x = y then Some 0 else map_option Suc (find_index x ys))"

definition provided :: "u64 list \<Rightarrow> 'a list \<Rightarrow> u64 \<Rightarrow> 'a option" where
  "provided positions xs position = map_option ((!) xs) (find_index position positions)"

definition GetProvidedHash :: "(bytes \<Rightarrow> bytes) \<Rightarrow> ('a \<Rightarrow> bytes) \<Rightarrow> 'a Segment \<Rightarrow> u64 \<Rightarrow> bytes option" where
  "GetProvidedHash Blake2b ser sg position =
     (case provided (sg_hash_pos sg) (sg_hashes sg) position of
        Some hash \<Rightarrow> Some hash
      | None \<Rightarrow>
          map_option (\<lambda>leaf. Segment_HashLeafWithIndex Blake2b ser leaf position)
            (provided (sg_leaf_pos sg) (sg_leaves sg) position))"

definition GetProvidedStoredHash :: "'a Segment \<Rightarrow> u64 \<Rightarrow> bytes option" where
  "GetProvidedStoredHash sg position = provided (sg_hash_pos sg) (sg_hashes sg) position"

definition BitmapContains :: "BitmapAccumulator \<Rightarrow> u64 \<Rightarrow> bool" where
  "BitmapContains bitmap bitIndex =
     (if of_nat (length (ba_chunks bitmap)) \<le> ChunkIndex bitIndex then False
      else Chunk_IsSet (bitIndex mod LEN_BITS) (ba_chunks bitmap ! unat (ChunkIndex bitIndex)))"

text \<open>The loop of \<open>GetFirstLeafIndex\<close> goes to the left child until it is at a leaf.\<close>

partial_function (option) first_leaf_loop :: "Index \<Rightarrow> Index option" where
  "first_leaf_loop index = (if IsLeaf index then Some index else first_leaf_loop (GetLeftChild index))"

definition GetFirstLeafIndex :: "Index \<Rightarrow> u64 option" where
  "GetFirstLeafIndex index = map_option GetLeafIndex (first_leaf_loop index)"

definition IsRequiredByBitmap :: "BitmapAccumulator \<Rightarrow> Index \<Rightarrow> u64 \<Rightarrow> bool option" where
  "IsRequiredByBitmap bitmap index mmrSize =
     map_option (\<lambda>firstLeaf.
       let subtreeLeafCount = push_bit (unat (m_height index)) 1;
           maxLeafCount = CountLeaves mmrSize;
           lastLeaf = min maxLeafCount (firstLeaf + subtreeLeafCount)
       in list_ex (\<lambda>leafIndex. BitmapContains bitmap (of_nat leafIndex)) [unat firstLeaf..<unat lastLeaf])
       (GetFirstLeafIndex index)"

definition IsLeafRequiredByBitmap :: "BitmapAccumulator \<Rightarrow> Index \<Rightarrow> u64 \<Rightarrow> bool" where
  "IsLeafRequiredByBitmap bitmap index mmrSize =
     (let leafIndex = GetLeafIndex index
      in if BitmapContains bitmap leafIndex \<or> m_position index = mmrSize - 1 then True
         else
           let siblingLeafIndex =
                 (if IsLeftSibling (m_position index) then leafIndex + 1
                  else if leafIndex = 0 then leafIndex else leafIndex - 1)
           in siblingLeafIndex < CountLeaves mmrSize \<and> BitmapContains bitmap siblingLeafIndex)"

text \<open>
  One round of the loop of \<open>Root\<close>. The stack of optional hashes is a list with its top first; the result \<open>None\<close> is
  the early return of no hash.
\<close>

definition segment_leaf ::
  "(bytes \<Rightarrow> bytes) \<Rightarrow> ('a \<Rightarrow> bytes) \<Rightarrow> u64 \<Rightarrow> BitmapAccumulator option \<Rightarrow> 'a Segment \<Rightarrow> Index \<Rightarrow>
   bytes option list \<Rightarrow> bytes option list option" where
  "segment_leaf Blake2b ser mmrSize pBitmap sg index hashes =
     (if (case pBitmap of None \<Rightarrow> True | Some bitmap \<Rightarrow> IsLeafRequiredByBitmap bitmap index mmrSize) then
        map_option (\<lambda>leaf. Some (Segment_HashLeafWithIndex Blake2b ser leaf (m_position index)) # hashes)
          (provided (sg_leaf_pos sg) (sg_leaves sg) (m_position index))
      else Some (None # hashes))"

definition segment_parent ::
  "(bytes \<Rightarrow> bytes) \<Rightarrow> BitmapAccumulator option \<Rightarrow> 'a Segment \<Rightarrow> Index \<Rightarrow> bytes option list \<Rightarrow>
   bytes option list option" where
  "segment_parent Blake2b pBitmap sg index hashes =
     (case hashes of
        rightHash # leftHash # hashes \<Rightarrow>
          if pBitmap \<noteq> None \<and> leftHash = None \<and> rightHash = None then Some (None # hashes)
          else
            let leftHash = (if pBitmap \<noteq> None \<and> leftHash = None
                            then GetProvidedStoredHash sg (m_position (GetLeftChild index)) else leftHash);
                rightHash = (if pBitmap \<noteq> None \<and> rightHash = None
                             then GetProvidedStoredHash sg (m_position (GetRightChild index)) else rightHash)
            in (case (leftHash, rightHash) of
                  (Some l, Some r) \<Rightarrow> Some (Some (HashParentWithIndex Blake2b l r (m_position index)) # hashes)
                | _ \<Rightarrow> None)
      | _ \<Rightarrow> None)"

fun segment_hashes ::
  "(bytes \<Rightarrow> bytes) \<Rightarrow> ('a \<Rightarrow> bytes) \<Rightarrow> u64 \<Rightarrow> BitmapAccumulator option \<Rightarrow> 'a Segment \<Rightarrow> u64 list \<Rightarrow>
   bytes option list \<Rightarrow> bytes option list option" where
  "segment_hashes Blake2b ser mmrSize pBitmap sg [] hashes = Some hashes"
| "segment_hashes Blake2b ser mmrSize pBitmap sg (pos # poss) hashes =
     Option.bind
       (if IsLeaf (Index_At pos) then segment_leaf Blake2b ser mmrSize pBitmap sg (Index_At pos) hashes
        else segment_parent Blake2b pBitmap sg (Index_At pos) hashes)
       (segment_hashes Blake2b ser mmrSize pBitmap sg poss)"

fun segment_peaks ::
  "(bytes \<Rightarrow> bytes) \<Rightarrow> u64 \<Rightarrow> BitmapAccumulator option \<Rightarrow> 'a Segment \<Rightarrow> u64 \<times> u64 \<Rightarrow> u64 list \<Rightarrow>
   bytes option list \<Rightarrow> bytes option \<Rightarrow> bytes option" where
  "segment_peaks Blake2b mmrSize pBitmap sg posRange [] hashes root = root"
| "segment_peaks Blake2b mmrSize pBitmap sg posRange (peakPos # peaks) hashes root =
     (if peakPos < fst posRange \<or> snd posRange < peakPos
      then segment_peaks Blake2b mmrSize pBitmap sg posRange peaks hashes root
      else
        case hashes of
          [] \<Rightarrow> None
        | peakHash # hashes \<Rightarrow>
            (case if peakHash = None \<and> pBitmap \<noteq> None then GetProvidedStoredHash sg peakPos else peakHash of
               None \<Rightarrow> None
             | Some peakHash \<Rightarrow>
                 segment_peaks Blake2b mmrSize pBitmap sg posRange peaks hashes
                   (Some (case root of
                            None \<Rightarrow> peakHash
                          | Some r \<Rightarrow> HashParentWithIndex Blake2b peakHash r mmrSize))))"

text \<open>The loop over the positions: the last one is below the size of the range, so the counter does not wrap.\<close>

definition Segment_Root ::
  "(bytes \<Rightarrow> bytes) \<Rightarrow> ('a \<Rightarrow> bytes) \<Rightarrow> u64 \<Rightarrow> BitmapAccumulator option \<Rightarrow> 'a Segment \<Rightarrow> bytes option" where
  "Segment_Root Blake2b ser mmrSize pBitmap sg =
     (if length (sg_hash_pos sg) \<noteq> length (sg_hashes sg) \<or> length (sg_leaf_pos sg) \<noteq> length (sg_leaves sg) then None
      else
        let posRange = GetPositionRange mmrSize (sg_id sg)
        in if snd posRange < fst posRange \<or> mmrSize = 0 then None
           else
             case segment_hashes Blake2b ser mmrSize pBitmap sg
                    (map of_nat [unat (fst posRange)..<Suc (unat (snd posRange))]) [] of
               None \<Rightarrow> None
             | Some hashes \<Rightarrow>
                 if GetSegmentUnprunedSize mmrSize (sg_id sg) = GetSegmentCapacity (sg_id sg)
                 then (case hashes of [] \<Rightarrow> None | hash # _ \<Rightarrow> hash)
                 else segment_peaks Blake2b mmrSize pBitmap sg posRange (rev (GetPeakIndices mmrSize)) hashes None)"

fun first_stored_parent ::
  "BitmapAccumulator \<Rightarrow> u64 \<Rightarrow> 'a Segment \<Rightarrow> (u64 \<times> u64) list \<Rightarrow> (bytes \<times> u64) option option" where
  "first_stored_parent bitmap mmrSize sg [] = Some None"
| "first_stored_parent bitmap mmrSize sg ((parentPos, siblingPos) # branch) =
     (case IsRequiredByBitmap bitmap (Index_At parentPos) mmrSize of
        None \<Rightarrow> None
      | Some True \<Rightarrow> Some None
      | Some False \<Rightarrow>
          (case GetProvidedStoredHash sg parentPos of
             Some hash \<Rightarrow> Some (Some (hash, parentPos + 1))
           | None \<Rightarrow> first_stored_parent bitmap mmrSize sg branch))"

definition FirstUnprunedParent ::
  "(bytes \<Rightarrow> bytes) \<Rightarrow> ('a \<Rightarrow> bytes) \<Rightarrow> u64 \<Rightarrow> BitmapAccumulator option \<Rightarrow> 'a Segment \<Rightarrow>
   (bytes \<times> u64) option option" where
  "FirstUnprunedParent Blake2b ser mmrSize pBitmap sg =
     (let posRange = GetPositionRange mmrSize (sg_id sg)
      in case Segment_Root Blake2b ser mmrSize pBitmap sg of
           Some root \<Rightarrow> Some (Some (root, snd posRange + 1))
         | None \<Rightarrow>
             (case pBitmap of
                None \<Rightarrow> Some None
              | Some bitmap \<Rightarrow>
                  if GetSegmentUnprunedSize mmrSize (sg_id sg) \<noteq> GetSegmentCapacity (sg_id sg) then Some None
                  else
                    case IsRequiredByBitmap bitmap (Index_At (snd posRange)) mmrSize of
                      None \<Rightarrow> None
                    | Some True \<Rightarrow> Some None
                    | Some False \<Rightarrow>
                        (case GetProvidedStoredHash sg (snd posRange) of
                           Some hash \<Rightarrow> Some (Some (hash, snd posRange + 1))
                         | None \<Rightarrow>
                             Option.bind (FamilyBranch (snd posRange) mmrSize)
                               (first_stored_parent bitmap mmrSize sg))))"

definition Segment_Validate ::
  "(bytes \<Rightarrow> bytes) \<Rightarrow> ('a \<Rightarrow> bytes) \<Rightarrow> u64 \<Rightarrow> bytes \<Rightarrow> BitmapAccumulator option \<Rightarrow> 'a Segment \<Rightarrow> bool option" where
  "Segment_Validate Blake2b ser mmrSize mmrRoot pBitmap sg =
     Option.bind (FirstUnprunedParent Blake2b ser mmrSize pBitmap sg) (\<lambda>firstUnprunedParent.
       case firstUnprunedParent of
         None \<Rightarrow> Some False
       | Some (hash, pos) \<Rightarrow>
           let posRange = GetPositionRange mmrSize (sg_id sg)
           in SegmentProof_Validate Blake2b mmrSize (fst posRange) (snd posRange) hash pos mmrRoot (sg_proof sg))"

definition Segment_ValidateWith ::
  "(bytes \<Rightarrow> bytes) \<Rightarrow> ('a \<Rightarrow> bytes) \<Rightarrow> u64 \<Rightarrow> bytes \<Rightarrow> u64 \<Rightarrow> bytes \<Rightarrow> bool \<Rightarrow> BitmapAccumulator option \<Rightarrow>
   'a Segment \<Rightarrow> bool option" where
  "Segment_ValidateWith Blake2b ser mmrSize mmrRoot hashLastPos otherRoot otherIsLeft pBitmap sg =
     Option.bind (FirstUnprunedParent Blake2b ser mmrSize pBitmap sg) (\<lambda>firstUnprunedParent.
       case firstUnprunedParent of
         None \<Rightarrow> Some False
       | Some (hash, pos) \<Rightarrow>
           let posRange = GetPositionRange mmrSize (sg_id sg)
           in SegmentProof_ValidateWith Blake2b mmrSize (fst posRange) (snd posRange) hash pos hashLastPos otherRoot
                otherIsLeft mmrRoot (sg_proof sg))"

definition Segment_Serialize :: "('a \<Rightarrow> bytes) \<Rightarrow> 'a Segment \<Rightarrow> bytes" where
  "Segment_Serialize ser sg =
     SegmentIdentifier_Serialize (sg_id sg) @
     AppendU64 (of_nat (length (sg_hash_pos sg))) @
     concat (map (\<lambda>pos. AppendU64 (pos + 1)) (sg_hash_pos sg)) @
     concat (map AppendBigInteger (sg_hashes sg)) @
     AppendU64 (of_nat (length (sg_leaf_pos sg))) @
     concat (map (\<lambda>pos. AppendU64 (pos + 1)) (sg_leaf_pos sg)) @
     concat (map ser (sg_leaves sg)) @
     SegmentProof_Serialize (sg_proof sg)"

text \<open>Positions are sent plus one and strictly increasing.\<close>

fun read_positions :: "nat \<Rightarrow> u64 \<Rightarrow> u64 list reader" where
  "read_positions 0 lastWirePos b = Inr ([], b)"
| "read_positions (Suc n) lastWirePos b =
     rbind (ReadU64 b) (\<lambda>(wirePos, b).
       if wirePos \<le> lastWirePos then Inl DeserializationException
       else rbind (read_positions n wirePos b) (\<lambda>(poss, b). Inr ((wirePos - 1) # poss, b)))"

definition Segment_Deserialize :: "'a reader \<Rightarrow> 'a Segment reader" where
  "Segment_Deserialize deser b =
     rbind (SegmentIdentifier_Deserialize b) (\<lambda>(segmentId, b).
     rbind (ReadU64 b) (\<lambda>(numHashes, b).
     rbind (read_positions (unat numHashes) 0 b) (\<lambda>(hashPos, b).
     rbind (read_n (ReadBigInteger 32) (unat numHashes) b) (\<lambda>(hashes, b).
     rbind (ReadU64 b) (\<lambda>(numLeaves, b).
     rbind (read_positions (unat numLeaves) 0 b) (\<lambda>(leafPos, b).
     rbind (read_n deser (unat numLeaves) b) (\<lambda>(leaves, b).
     rbind (SegmentProof_Deserialize b) (\<lambda>(segmentProof, b).
       Inr (\<lparr>sg_id = segmentId, sg_hash_pos = hashPos, sg_hashes = hashes, sg_leaf_pos = leafPos,
             sg_leaves = leaves, sg_proof = segmentProof\<rparr>, b)))))))))"

section \<open>Writing and reading\<close>

lemma decodes_SegmentIdentifier: "decodes SegmentIdentifier_Deserialize v (SegmentIdentifier_Serialize si) si"
  unfolding SegmentIdentifier_Deserialize_def [abs_def] SegmentIdentifier_Serialize_def
  by (rule decodes_bind, rule decodes_U8, rule decodes_bind_return, rule decodes_U64) simp

lemma decodes_SegmentProof:
  assumes "\<forall>h \<in> set prf. length h = 32" "length prf < 2 ^ 64"
  shows "decodes SegmentProof_Deserialize v (SegmentProof_Serialize prf) prf"
proof -
  have un: "unat (of_nat (length prf) :: u64) = length prf" by (rule unat_of_nat_u64 [OF assms(2)])
  have "decodes (read_n (ReadBigInteger 32) (length prf)) v (concat (map AppendBigInteger prf)) prf"
    using assms(1) by (intro decodes_read_n decodes_BigInteger) simp_all
  then have "decodes (read_n (ReadBigInteger 32) (unat (of_nat (length prf) :: u64))) v
      (concat (map AppendBigInteger prf)) prf"
    unfolding un .
  then show ?thesis
    unfolding SegmentProof_Deserialize_def [abs_def] SegmentProof_Serialize_def by (rule decodes_bind [OF decodes_U64])
qed

text \<open>The positions of a segment, as they can be sent.\<close>

definition positions_ok :: "u64 list \<Rightarrow> bool" where
  "positions_ok poss \<longleftrightarrow> sorted_wrt (<) poss \<and> (\<forall>pos \<in> set poss. pos \<noteq> - 1) \<and> length poss < 2 ^ 63"

lemma decodes_read_positions:
  "sorted_wrt (<) poss \<Longrightarrow> \<forall>pos \<in> set poss. pos \<noteq> - 1 \<and> w \<le> pos \<Longrightarrow>
   decodes (read_positions (length poss) w) v (concat (map (\<lambda>pos. AppendU64 (pos + 1)) poss)) poss"
proof (induction poss arbitrary: w)
  case Nil
  then show ?case using decodes_return [of "[]"] by (simp add: decodes_def)
next
  case (Cons p poss)
  have up: "unat (p + 1) = Suc (unat p)" using Cons.prems(2) by (simp add: unatSuc add.commute eq_neg_iff_add_eq_0)
  then have gt: "\<not> p + 1 \<le> w" using Cons.prems(2) by (simp add: word_le_nat_alt)
  have "\<forall>q \<in> set poss. q \<noteq> - 1 \<and> p + 1 \<le> q" using Cons.prems up by (auto simp: word_le_nat_alt word_less_nat_alt)
  then have "decodes (read_positions (length poss) (p + 1)) v (concat (map (\<lambda>pos. AppendU64 (pos + 1)) poss)) poss"
    using Cons.IH Cons.prems(1) by simp
  then have rest: "decodes (\<lambda>b. rbind (read_positions (length poss) (p + 1) b) (\<lambda>(poss, b). Inr ((p + 1 - 1) # poss, b))) v
      (concat (map (\<lambda>pos. AppendU64 (pos + 1)) poss)) (p # poss)"
    by (rule decodes_bind_return) simp
  have "decodes (\<lambda>b. rbind (ReadU64 b) (\<lambda>(wirePos, b).
       if wirePos \<le> w then Inl DeserializationException
       else rbind (read_positions (length poss) wirePos b) (\<lambda>(poss, b). Inr ((wirePos - 1) # poss, b)))) v
      (AppendU64 (p + 1) @ concat (map (\<lambda>pos. AppendU64 (pos + 1)) poss)) (p # poss)"
    by (rule decodes_bind, rule decodes_U64) (use gt rest in simp)
  then show ?case by (simp add: decodes_def)
qed

lemma decodes_Segment:
  assumes leaf: "\<And>leaf. leaf \<in> set (sg_leaves sg) \<Longrightarrow> decodes deser v (ser leaf) leaf"
    and hash: "positions_ok (sg_hash_pos sg)" "length (sg_hashes sg) = length (sg_hash_pos sg)"
      "\<forall>h \<in> set (sg_hashes sg). length h = 32"
    and pos: "positions_ok (sg_leaf_pos sg)" "length (sg_leaves sg) = length (sg_leaf_pos sg)"
    and pr: "\<forall>h \<in> set (sg_proof sg). length h = 32" "length (sg_proof sg) < 2 ^ 64"
  shows "decodes (Segment_Deserialize deser) v (Segment_Serialize ser sg) sg"
proof -
  have un: "unat (of_nat (length (sg_hash_pos sg)) :: u64) = length (sg_hash_pos sg)"
    "unat (of_nat (length (sg_leaf_pos sg)) :: u64) = length (sg_leaf_pos sg)"
    using hash(1) pos(1) by (simp_all add: positions_ok_def unat_of_nat_u64)
  have hashes: "decodes (read_n (ReadBigInteger 32) (length (sg_hash_pos sg))) v
      (concat (map AppendBigInteger (sg_hashes sg))) (sg_hashes sg)"
    unfolding hash(2) [symmetric] using hash(3) by (intro decodes_read_n decodes_BigInteger) simp_all
  have leaves: "decodes (read_n deser (length (sg_leaf_pos sg))) v (concat (map ser (sg_leaves sg))) (sg_leaves sg)"
    unfolding pos(2) [symmetric] by (intro decodes_read_n leaf)
  have positions: "decodes (read_positions (length poss) 0) v (concat (map (\<lambda>pos. AppendU64 (pos + 1)) poss)) poss"
    if "positions_ok poss" for poss
    using that by (intro decodes_read_positions) (simp_all add: positions_ok_def)
  show ?thesis
    unfolding Segment_Deserialize_def [abs_def] Segment_Serialize_def
    by (rule decodes_bind, rule decodes_SegmentIdentifier, rule decodes_bind, rule decodes_U64, unfold un,
        rule decodes_bind, rule positions [OF hash(1)], rule decodes_bind, rule hashes, rule decodes_bind,
        rule decodes_U64, unfold un, rule decodes_bind, rule positions [OF pos(1)], rule decodes_bind, rule leaves,
        rule decodes_bind_return, rule decodes_SegmentProof [OF pr]) simp
qed

end
