(* ===== verification/SegmentCorrect.thy ===== *)
theory SegmentCorrect
  imports Segments
begin

text \<open>
  Segments without a bitmap: what \<open>Segment::Root\<close>, \<open>SegmentProof::Generate\<close> and \<open>SegmentProof::ReconstructRoot\<close>
  compute, in terms of the list of leaves. The peaks of a range are listed from left to right; the bagged root
  folds them from the right.
\<close>

section \<open>Positions and leaf numbers\<close>

lemma node_pos_less_iff:
  assumes "is_node m h"
  shows "mmr_pos m h < mmr_pos n 0 \<longleftrightarrow> m < n"
proof
  assume "mmr_pos m h < mmr_pos n 0"
  from leaf_at_less [OF this] show "m < n" by (simp add: node_coordinates [OF assms])
next
  assume "m < n"
  then have "mmr_pos (Suc m) 0 \<le> mmr_pos n 0" by (intro leaf_pos_mono_le) simp
  then show "mmr_pos m h < mmr_pos n 0" using node_before_next [OF assms] by simp
qed

lemma leaf_pos_le: "m \<le> n \<Longrightarrow> mmr_pos m 0 \<le> mmr_pos n h"
  using leaf_pos_mono_le [of m n] by (simp add: mmr_pos_def)

lemma node_pos_mono: "is_node m h \<Longrightarrow> m < n \<Longrightarrow> mmr_pos m h < mmr_pos n k"
  using node_before_next [of m h] leaf_pos_le [of "Suc m" n k] by simp

section \<open>The peaks of a range\<close>

abbreviation peaks :: "nat \<Rightarrow> (nat \<times> nat) list" where
  "peaks n \<equiv> peak_nodes (bit_width n) n"

lemma digit_width: "odd (n div 2 ^ h) \<Longrightarrow> h < bit_width n"
proof (rule ccontr)
  assume "odd (n div 2 ^ h)" "\<not> h < bit_width n"
  moreover from this have "n < 2 ^ h" using bit_width_le_iff [of n h] by simp
  ultimately show False by simp
qed

lemma peak_mem:
  "(m, h) \<in> set (peaks n) \<longleftrightarrow> odd (n div 2 ^ h) \<and> Suc m = n div 2 ^ h * 2 ^ h"
proof -
  have "0 < n div 2 ^ h * 2 ^ h" if "odd (n div 2 ^ h)" using that by (simp add: odd_pos)
  then show ?thesis using digit_width [of n h] by (force simp: peak_nodes_def image_iff)
qed

text \<open>A node whose parent is outside the range is a peak.\<close>

lemma top_is_peak:
  assumes node: "is_node m h" and m: "m < n" and top: "n \<le> fst (parent_of (m, h))"
  shows "(m, h) \<in> set (peaks n)"
proof -
  have left: "\<not> is_right m h" using m top by (auto simp: parent_of_def)
  then have le: "n \<le> m + 2 ^ h" using top by (simp add: parent_of_def)
  obtain q where q: "Suc m = 2 ^ h * q" using node unfolding is_node_def by (rule dvdE)
  have odd: "odd q"
  proof
    assume "even q"
    then have "2 ^ Suc h dvd Suc m" unfolding q by (auto elim!: evenE)
    then show False using left by (simp add: is_right_def is_node_def)
  qed
  have "n div 2 ^ h = q"
  proof (rule div_nat_eqI)
    show "2 ^ h * q \<le> n" using q m by linarith
    show "n < 2 ^ h * Suc q" using q le by simp
  qed
  then show ?thesis using odd q by (simp add: peak_mem mult.commute)
qed

definition peak_before :: "nat \<times> nat \<Rightarrow> nat \<times> nat \<Rightarrow> bool" where
  "peak_before x y \<longleftrightarrow> snd y < snd x \<and> fst x + 2 ^ snd y \<le> fst y"

lemma peaks_sorted: "sorted_wrt peak_before (peaks n)"
proof -
  have before: "peak_before (n div 2 ^ i * 2 ^ i - 1, i) (n div 2 ^ j * 2 ^ j - 1, j)"
    if "j < i" "odd (n div 2 ^ i)" "odd (n div 2 ^ j)" for i j
  proof -
    let ?x = "n div 2 ^ i * 2 ^ i" and ?y = "n div 2 ^ j * 2 ^ j"
    have y: "?y = n div 2 ^ Suc j * 2 ^ Suc j + 2 ^ j"
    proof -
      have "n div 2 ^ j = 2 * (n div 2 ^ Suc j) + 1"
        using that(3) by (metis div_mult2_eq mult.commute odd_two_times_div_two_succ power_Suc)
      then show ?thesis by (simp add: algebra_simps)
    qed
    have "2 ^ Suc j dvd ?x" using that(1) by (intro dvd_mult le_imp_power_dvd) simp
    then have "?x = ?x div 2 ^ Suc j * 2 ^ Suc j" by simp
    also have "\<dots> \<le> n div 2 ^ Suc j * 2 ^ Suc j" by (intro mult_le_mono1 div_le_mono) simp
    finally have "?x + 2 ^ j \<le> ?y" using y by simp
    moreover have "0 < ?x" using that(2) by (simp add: odd_pos)
    ultimately show ?thesis using that(1) by (simp add: peak_before_def)
  qed
  have "sorted_wrt (\<lambda>x y. y < x) (filter (\<lambda>j. odd (n div 2 ^ j)) (rev [0..<bit_width n]))"
    by (intro sorted_wrt_filter) (simp add: sorted_wrt_rev)
  then show ?thesis
    unfolding peak_nodes_def sorted_wrt_map by (rule sorted_wrt_mono_rel [rotated]) (use before in auto)
qed

text \<open>The peaks split at a leaf \<open>k\<close> into those left of it, the one above it, and those right of it.\<close>

lemma peaks_split:
  assumes "(m, h) \<in> set (peaks n)"
  obtains A C where "peaks n = A @ (m, h) # C"
    and "\<And>x. x \<in> set A \<Longrightarrow> fst x + 2 ^ h \<le> m" and "\<And>x. x \<in> set C \<Longrightarrow> m < fst x"
proof -
  obtain A C where split: "peaks n = A @ (m, h) # C" using assms by (auto dest: split_list)
  have "sorted_wrt peak_before (A @ (m, h) # C)" using peaks_sorted [of n] unfolding split .
  then have "peak_before x (m, h)" if "x \<in> set A" for x
    using that by (auto simp: sorted_wrt_append)
  moreover have "peak_before (m, h) x" if "x \<in> set C" for x
    using that \<open>sorted_wrt peak_before (A @ (m, h) # C)\<close> by (auto simp: sorted_wrt_append)
  moreover have "0 < (2::nat) ^ k" for k by simp
  ultimately show thesis
    using that [OF split] unfolding peak_before_def fst_conv snd_conv
    by (metis (no_types, lifting) add_lessD1 le_eq_less_or_eq less_add_same_cancel1 order_less_le_trans)
qed

lemma peak_is_node: "x \<in> set (peaks n) \<Longrightarrow> is_node (fst x) (snd x) \<and> fst x < n"
  using peak_node [of "fst x" "snd x"] by auto

section \<open>The bagged root\<close>

text \<open>Bagging a list of node hashes from the right.\<close>

fun bag_right :: "(bytes \<Rightarrow> bytes) \<Rightarrow> u64 \<Rightarrow> bytes list \<Rightarrow> bytes" where
  "bag_right B size' [] = ZERO_HASH"
| "bag_right B size' [h] = h"
| "bag_right B size' (h # hs) = HashParentWithIndex B h (bag_right B size' hs) size'"

abbreviation peak_hashes :: "(bytes \<Rightarrow> bytes) \<Rightarrow> bytes list \<Rightarrow> (nat \<times> nat) list \<Rightarrow> bytes list" where
  "peak_hashes B leaves ns \<equiv> map (\<lambda>(n, h). node_hash B leaves n h) ns"

abbreviation range_size :: "bytes list \<Rightarrow> u64" where
  "range_size leaves \<equiv> of_nat (mmr_pos (length leaves) 0)"

text \<open>
  The inputs that are hashed to compute the root of a range: those of the leaves and of the nodes, and those of the
  bagging.
\<close>

definition leaf_input :: "bytes list \<Rightarrow> nat \<Rightarrow> bytes" where
  "leaf_input leaves n = AppendU64 (of_nat (mmr_pos n 0)) @ leaves ! n"

definition node_input :: "(bytes \<Rightarrow> bytes) \<Rightarrow> bytes list \<Rightarrow> nat \<Rightarrow> nat \<Rightarrow> bytes" where
  "node_input B leaves n h =
     AppendU64 (of_nat (mmr_pos n (Suc h))) @ node_hash B leaves (n - 2 ^ h) h @ node_hash B leaves n h"

definition bag_input :: "(bytes \<Rightarrow> bytes) \<Rightarrow> u64 \<Rightarrow> bytes \<Rightarrow> bytes list \<Rightarrow> bytes" where
  "bag_input B size' h hs = AppendU64 size' @ h @ bag_right B size' hs"

definition range_inputs :: "(bytes \<Rightarrow> bytes) \<Rightarrow> bytes list \<Rightarrow> bytes set" where
  "range_inputs B leaves =
     leaf_input leaves ` {..<length leaves} \<union>
     {node_input B leaves n h | n h. is_node n (Suc h) \<and> n < length leaves} \<union>
     {bag_input B (range_size leaves) h hs | h hs ls.
        hs \<noteq> [] \<and> peak_hashes B leaves (peaks (length leaves)) = ls @ h # hs}"

text \<open>
  The hash function on a range: 32 bytes, never the zero hash that the code takes for no hash, and no second
  preimage of an input of the range.
\<close>

definition hash_ok :: "(bytes \<Rightarrow> bytes) \<Rightarrow> bytes list \<Rightarrow> bool" where
  "hash_ok B leaves \<longleftrightarrow>
     (\<forall>x. length (B x) = 32) \<and> (\<forall>x \<in> range_inputs B leaves. \<not> BigInteger_equal (B x) ZERO_HASH)"

definition second_preimage_free :: "(bytes \<Rightarrow> bytes) \<Rightarrow> bytes list \<Rightarrow> bool" where
  "second_preimage_free B leaves \<longleftrightarrow> (\<forall>x \<in> range_inputs B leaves. \<forall>y. B y = B x \<longrightarrow> y = x)"

lemma node_hash_input:
  "node_hash B leaves n 0 = B (leaf_input leaves n)"
  "node_hash B leaves n (Suc h) = B (node_input B leaves n h)"
  by (simp_all add: HashLeafWithIndex_def HashParentWithIndex_def leaf_input_def node_input_def AppendByteVector_def
      AppendBigInteger_def)

lemma bag_right_input: "hs \<noteq> [] \<Longrightarrow> bag_right B size' (h # hs) = B (bag_input B size' h hs)"
  by (cases hs) (simp_all add: HashParentWithIndex_def bag_input_def AppendBigInteger_def)

lemma node_hash_in:
  assumes "is_node n h" "n < length leaves"
  obtains x where "x \<in> range_inputs B leaves" "node_hash B leaves n h = B x"
proof (cases h)
  case 0
  then show thesis
    using that [of "leaf_input leaves n"] assms unfolding range_inputs_def 0 node_hash_input by blast
next
  case (Suc k)
  then show thesis
    using that [of "node_input B leaves n k"] assms unfolding range_inputs_def Suc node_hash_input by blast
qed

lemma node_hash_nonzero:
  "hash_ok B leaves \<Longrightarrow> is_node n h \<Longrightarrow> n < length leaves \<Longrightarrow> \<not> BigInteger_equal (node_hash B leaves n h) ZERO_HASH"
  using node_hash_in [of n h leaves B] by (metis hash_ok_def)

lemma bag_in:
  assumes "peak_hashes B leaves (peaks (length leaves)) = ls @ h # hs" "hs \<noteq> []"
  shows "bag_input B (range_size leaves) h hs \<in> range_inputs B leaves"
  using assms unfolding range_inputs_def by blast

lemma bag_suffix_nonzero:
  assumes ok: "hash_ok B leaves" and split: "peak_hashes B leaves (peaks (length leaves)) = ls @ hs" "hs \<noteq> []"
  shows "\<not> BigInteger_equal (bag_right B (range_size leaves) hs) ZERO_HASH"
proof (cases hs)
  case (Cons h hs')
  show ?thesis
  proof (cases "hs' = []")
    case True
    have "h \<in> set (peak_hashes B leaves (peaks (length leaves)))" using split Cons by simp
    then show ?thesis using node_hash_nonzero [OF ok] peak_is_node True Cons by fastforce
  next
    case False
    then show ?thesis
      using bag_right_input [OF False] bag_in [OF _ False, of B leaves ls h] ok split Cons by (auto simp: hash_ok_def)
  qed
qed (use split in simp)

lemma mmr_root_bag:
  assumes ok: "hash_ok B leaves"
  shows "mmr_root B leaves = bag_right B (range_size leaves) (peak_hashes B leaves (peaks (length leaves)))"
proof -
  let ?f = "\<lambda>(n, h) hash. bag B (range_size leaves) hash (node_hash B leaves n h)"
  have "fold ?f (rev ns) ZERO_HASH = bag_right B (range_size leaves) (peak_hashes B leaves ns)"
    if "peaks (length leaves) = ms @ ns" for ms ns
    using that
  proof (induction ns arbitrary: ms)
    case (Cons x ns)
    obtain n h where x: "x = (n, h)" by force
    have "(n, h) \<in> set (peaks (length leaves))" using Cons.prems x by simp
    then have "\<not> BigInteger_equal (node_hash B leaves n h) ZERO_HASH"
      using node_hash_nonzero [OF ok] peak_is_node by fastforce
    moreover have "\<not> BigInteger_equal (bag_right B (range_size leaves) (peak_hashes B leaves ns)) ZERO_HASH" if "ns \<noteq> []"
      using bag_suffix_nonzero [OF ok, of "peak_hashes B leaves (ms @ [x])" "peak_hashes B leaves ns"] Cons.prems that
      by simp
    moreover have "BigInteger_equal ZERO_HASH ZERO_HASH" by (simp add: BigInteger_equal_iff)
    ultimately show ?case
      using Cons.IH [of "ms @ [x]"] Cons.prems x by (cases ns) (auto simp: bag_def)
  qed simp
  from this [of "[]"] show ?thesis by (simp add: mmr_root_def)
qed

section \<open>The root of a segment\<close>

text \<open>
  The positions of a perfect subtree in postorder. Processing them pushes the hash of its root; if a leaf is missing
  the computation fails.
\<close>

definition subtree_positions :: "nat \<Rightarrow> nat \<Rightarrow> nat list" where
  "subtree_positions m h = [mmr_pos (Suc m - 2 ^ h) 0..<Suc (mmr_pos m h)]"

lemma upt_split: "a \<le> b \<Longrightarrow> b \<le> c \<Longrightarrow> [a..<c] = [a..<b] @ [b..<c]"
  using upt_add_eq_append [of a b "c - b"] by simp

lemma subtree_positions_0: "subtree_positions m 0 = [mmr_pos m 0]"
  by (simp add: subtree_positions_def)

lemma subtree_positions_Suc:
  assumes "is_node m (Suc h)"
  shows "subtree_positions m (Suc h) = subtree_positions (m - 2 ^ h) h @ subtree_positions m h @ [mmr_pos m (Suc h)]"
proof -
  have r: "is_right m h" using assms by (simp add: is_right_def)
  have le: "2 ^ h \<le> m" and left: "is_node (m - 2 ^ h) h" and nr: "\<not> is_node (m - 2 ^ h) (Suc h)"
    using right_node_shift [OF r] by (simp_all add: is_right_def)
  have mid: "mmr_pos (Suc m - 2 ^ h) 0 = Suc (mmr_pos (m - 2 ^ h) h)"
    using mmr_pos_next_leaf [OF left nr] le by (simp add: Suc_diff_le)
  have first: "Suc m - 2 ^ Suc h = Suc (m - 2 ^ h) - 2 ^ h" using le by simp
  have "Suc (m - 2 ^ h) - 2 ^ h \<le> m - 2 ^ h" using one_le_power [of "2::nat" h] by linarith
  from leaf_pos_le [OF this, of h] have "mmr_pos (Suc (m - 2 ^ h) - 2 ^ h) 0 \<le> Suc (mmr_pos (m - 2 ^ h) h)" by simp
  moreover have "Suc (mmr_pos (m - 2 ^ h) h) \<le> Suc (mmr_pos m h)"
    using mmr_pos_right_shift [OF r, of h] by simp
  moreover have "mmr_pos m (Suc h) = Suc (mmr_pos m h)" by (simp add: mmr_pos_def)
  ultimately show ?thesis
    unfolding subtree_positions_def first mid
    using upt_split [of "mmr_pos (Suc (m - 2 ^ h) - 2 ^ h) 0" "Suc (mmr_pos (m - 2 ^ h) h)" "Suc (mmr_pos m h)"] by simp
qed

lemma segment_hashes_append:
  "segment_hashes B ser size' b sg (xs @ ys) st =
     Option.bind (segment_hashes B ser size' b sg xs st) (segment_hashes B ser size' b sg ys)"
  by (induction xs arbitrary: st) (simp_all split: bind_splits)

text \<open>The leaf that a segment provides for leaf number \<open>n\<close>, and the list of leaves it stands for.\<close>

definition segment_leaf_at :: "'a Segment \<Rightarrow> nat \<Rightarrow> 'a option" where
  "segment_leaf_at sg n = provided (sg_leaf_pos sg) (sg_leaves sg) (of_nat (mmr_pos n 0))"

definition segment_list :: "('a \<Rightarrow> bytes) \<Rightarrow> 'a Segment \<Rightarrow> nat \<Rightarrow> bytes list" where
  "segment_list ser sg n = map (\<lambda>j. case segment_leaf_at sg j of Some leaf \<Rightarrow> ser leaf | None \<Rightarrow> []) [0..<n]"

definition leaves_provided :: "'a Segment \<Rightarrow> nat set \<Rightarrow> bool" where
  "leaves_provided sg ns \<longleftrightarrow> (\<forall>n \<in> ns. segment_leaf_at sg n \<noteq> None)"

lemma Index_At_pos: "is_node m h \<Longrightarrow> m < 2 ^ 50 \<Longrightarrow> Index_At (of_nat (mmr_pos m h)) = node m h"
  using Index_At_node [of m h] mmr_pos_small [of m h] node_height_small [of m h] by simp

lemma segment_subtree:
  assumes "is_node m h" "m < n" "n < 2 ^ 50"
  shows "segment_hashes B ser size' None sg (map of_nat (subtree_positions m h)) st =
    (if leaves_provided sg {Suc m - 2 ^ h..m}
     then Some (Some (node_hash B (segment_list ser sg n) m h) # st) else None)"
  using assms
proof (induction h arbitrary: m st)
  case 0
  then have idx: "Index_At (of_nat (mmr_pos m 0)) = node m 0" by (intro Index_At_pos) simp_all
  have leaf: "IsLeaf (node m 0)" by (simp add: IsLeaf_node)
  have pos: "m_position (node m 0) = of_nat (mmr_pos m 0)" by (simp add: node_def)
  show ?case
    using 0 leaf
    by (cases "segment_leaf_at sg m")
      (auto simp: subtree_positions_0 idx segment_leaf_def pos leaves_provided_def segment_leaf_at_def segment_list_def
        Segment_HashLeafWithIndex_def HashLeafWithIndex_def)
next
  case (Suc h)
  have r: "is_right m h" using Suc.prems by (simp add: is_right_def)
  have le: "2 ^ h \<le> m" and left: "is_node (m - 2 ^ h) h" using right_node_shift [OF r] by simp_all
  have right: "is_node m h" using Suc.prems(1) unfolding is_node_def by (rule dvd_trans [rotated]) (simp add: le_imp_power_dvd)
  have big: "2 ^ Suc h \<le> Suc m"
    using Suc.prems(1) unfolding is_node_def by (rule dvd_imp_le) simp
  have idx: "Index_At (of_nat (mmr_pos m (Suc h))) = node m (Suc h)" using Suc.prems by (intro Index_At_pos) simp_all
  have "Suc h \<le> 50" using node_height_small [OF Suc.prems(1)] Suc.prems by simp
  then have nleaf: "\<not> IsLeaf (node m (Suc h))" by (subst IsLeaf_node) simp_all
  have pos: "m_position (node m (Suc h)) = of_nat (mmr_pos m (Suc h))" by (simp add: node_def)
  have split: "{Suc m - 2 ^ Suc h..m} = {Suc (m - 2 ^ h) - 2 ^ h..m - 2 ^ h} \<union> {Suc m - 2 ^ h..m}"
    using le big by (auto simp: Suc_diff_le)
  have all: "leaves_provided sg {Suc m - 2 ^ Suc h..m} \<longleftrightarrow>
      leaves_provided sg {Suc (m - 2 ^ h) - 2 ^ h..m - 2 ^ h} \<and> leaves_provided sg {Suc m - 2 ^ h..m}"
    unfolding split leaves_provided_def by blast
  show ?case
    unfolding subtree_positions_Suc [OF Suc.prems(1)] map_append segment_hashes_append all
    using Suc.IH [OF left] Suc.IH [OF right] Suc.prems
    by (simp add: idx nleaf segment_parent_def pos)
qed

text \<open>The last, incomplete segment covers the peaks of the low binary digits.\<close>

lemma peak_nodes_Suc:
  "peak_nodes (Suc h) n = (if odd (n div 2 ^ h) then [(n div 2 ^ h * 2 ^ h - 1, h)] else []) @ peak_nodes h n"
  by (simp add: peak_nodes_def)

lemma low_step:
  assumes "odd (n div 2 ^ h)"
  shows "n div 2 ^ h * 2 ^ h = n div 2 ^ Suc h * 2 ^ Suc h + 2 ^ h"
    and "is_node (n div 2 ^ h * 2 ^ h - 1) h" "\<not> is_node (n div 2 ^ h * 2 ^ h - 1) (Suc h)"
    and "Suc (n div 2 ^ h * 2 ^ h - 1) = n div 2 ^ h * 2 ^ h"
proof -
  have "n div 2 ^ h = 2 * (n div 2 ^ Suc h) + 1"
    using assms by (metis div_mult2_eq mult.commute odd_two_times_div_two_succ power_Suc)
  then show "n div 2 ^ h * 2 ^ h = n div 2 ^ Suc h * 2 ^ Suc h + 2 ^ h" by (simp add: algebra_simps)
  have "0 < n div 2 ^ h * 2 ^ h" using assms by (simp add: odd_pos)
  then show S: "Suc (n div 2 ^ h * 2 ^ h - 1) = n div 2 ^ h * 2 ^ h" by simp
  then show "is_node (n div 2 ^ h * 2 ^ h - 1) h" by (simp add: is_node_def)
  show "\<not> is_node (n div 2 ^ h * 2 ^ h - 1) (Suc h)" unfolding is_node_def S power_Suc using assms by simp
qed

lemma low_positions:
  "concat (map (\<lambda>(m, k). subtree_positions m k) (peak_nodes h n)) = [mmr_pos (n div 2 ^ h * 2 ^ h) 0..<mmr_pos n 0]"
proof (induction h)
  case (Suc h)
  show ?case
  proof (cases "odd (n div 2 ^ h)")
    case True
    define a b where "a = n div 2 ^ h * 2 ^ h" and "b = n div 2 ^ Suc h * 2 ^ Suc h"
    have low: "a = b + 2 ^ h" "is_node (a - 1) h" "\<not> is_node (a - 1) (Suc h)" "Suc (a - 1) = a"
      using low_step [OF True] unfolding a_def b_def by blast+
    have "Suc (mmr_pos (a - 1) h) = mmr_pos a 0" using mmr_pos_next_leaf [OF low(2,3)] unfolding low(4) by simp
    then have "subtree_positions (a - 1) h = [mmr_pos b 0..<mmr_pos a 0]"
      unfolding subtree_positions_def low(4) by (simp add: low(1) del: upt_Suc)
    moreover have "mmr_pos b 0 \<le> mmr_pos a 0" by (intro leaf_pos_mono_le) (simp add: low(1))
    moreover have "mmr_pos a 0 \<le> mmr_pos n 0" unfolding a_def by (intro leaf_pos_mono_le div_times_less_eq_dividend)
    ultimately have "subtree_positions (a - 1) h @ [mmr_pos a 0..<mmr_pos n 0] = [mmr_pos b 0..<mmr_pos n 0]"
      using upt_split [of "mmr_pos b 0" "mmr_pos a 0" "mmr_pos n 0"] by simp
    then show ?thesis using True Suc unfolding peak_nodes_Suc a_def b_def by simp
  next
    case False
    define q where "q = n div 2 ^ h"
    have "n div 2 ^ Suc h = q div 2" unfolding q_def by (simp only: power_Suc2 div_mult2_eq)
    moreover have "q div 2 * (2 * 2 ^ h) = q * 2 ^ h" using False q_def by (simp add: mult.assoc [symmetric])
    ultimately have eq: "n div 2 ^ Suc h * 2 ^ Suc h = n div 2 ^ h * 2 ^ h" unfolding power_Suc q_def by simp
    show ?thesis unfolding peak_nodes_Suc eq using False Suc by simp
  qed
qed (simp add: peak_nodes_def)

lemma segment_low_peaks:
  assumes "\<And>m k. (m, k) \<in> set ns \<Longrightarrow> is_node m k \<and> m < n" "n < 2 ^ 50"
  shows "segment_hashes B ser size' None sg (map of_nat (concat (map (\<lambda>(m, k). subtree_positions m k) ns))) st =
    (if leaves_provided sg (\<Union>(m, k) \<in> set ns. {Suc m - 2 ^ k..m})
     then Some (map Some (rev (peak_hashes B (segment_list ser sg n) ns)) @ st) else None)"
  using assms
proof (induction ns arbitrary: st)
  case Nil
  then show ?case by (simp add: leaves_provided_def)
next
  case (Cons x ns)
  obtain m k where x: "x = (m, k)" by force
  have "leaves_provided sg (\<Union>(m, k) \<in> set (x # ns). {Suc m - 2 ^ k..m}) \<longleftrightarrow>
      leaves_provided sg {Suc m - 2 ^ k..m} \<and> leaves_provided sg (\<Union>(m, k) \<in> set ns. {Suc m - 2 ^ k..m})"
    by (auto simp: leaves_provided_def x)
  moreover have "is_node m k" "m < n" using Cons.prems(1) [of m k] x by simp_all
  moreover have "segment_hashes B ser size' None sg (map of_nat (concat (map (\<lambda>(m, k). subtree_positions m k) ns))) st' =
    (if leaves_provided sg (\<Union>(m, k) \<in> set ns. {Suc m - 2 ^ k..m})
     then Some (map Some (rev (peak_hashes B (segment_list ser sg n) ns)) @ st') else None)" for st'
    by (rule Cons.IH) (use Cons.prems in auto)
  ultimately show ?case
    using segment_subtree [of m k n B ser size' sg st] Cons.prems(2) x by (simp add: segment_hashes_append)
qed

lemma segment_peaks_skip:
  "(\<And>p. p \<in> set ps \<Longrightarrow> p < fst rng) \<Longrightarrow> segment_peaks B size' b sg rng ps st root = root"
  by (induction ps) auto

lemma segment_peaks_append:
  assumes "\<And>p. p \<in> set ps \<Longrightarrow> fst rng \<le> p \<and> p \<le> snd rng" "length ps = length hs" "hs \<noteq> [] \<or> root \<noteq> None"
  shows "segment_peaks B size' None sg rng (ps @ qs) (map Some (rev hs) @ st) root =
    segment_peaks B size' None sg rng qs st
      (Some (case root of None \<Rightarrow> bag_right B size' hs | Some r \<Rightarrow> bag_right B size' (hs @ [r])))"
  using assms
proof (induction ps arbitrary: hs root)
  case Nil
  then show ?case by auto
next
  case (Cons p ps)
  obtain h hs' where hs: "hs = hs' @ [h]" using Cons.prems(2) by (cases hs rule: rev_cases) auto
  have rng: "\<not> (p < fst rng \<or> snd rng < p)" using Cons.prems(1) by (auto simp: not_less)
  have bag2: "bag_right B size' (xs @ [a, b]) = bag_right B size' (xs @ [HashParentWithIndex B a b size'])" for xs a b
  proof (induction xs)
    case (Cons y ys)
    then show ?case by (cases ys) simp_all
  qed simp
  show ?case
    using Cons.IH [of hs' "Some (case root of None \<Rightarrow> h | Some r \<Rightarrow> HashParentWithIndex B h r size')"] Cons.prems rng
    by (cases root) (simp_all add: hs bag2)
qed

section \<open>Reconstructing the root\<close>

abbreviation branch_hash :: "(bytes \<Rightarrow> bytes) \<Rightarrow> bytes list \<Rightarrow> nat \<times> nat \<Rightarrow> bytes" where
  "branch_hash B leaves x \<equiv> node_hash B leaves (fst x) (snd x)"

abbreviation pos_word :: "nat \<times> nat \<Rightarrow> u64" where
  "pos_word x \<equiv> of_nat (pos_of x)"

lemma reconstruct_left_eq:
  assumes "\<And>p. p \<in> set ps \<Longrightarrow> \<not> first \<le> p"
  shows "reconstruct_left B size' first ps r hs =
    (if length hs < length ps then None
     else Some (fold (\<lambda>h r. HashParentWithIndex B h r size') (take (length ps) hs) r, drop (length ps) hs))"
  using assms
proof (induction ps arbitrary: r hs)
  case (Cons p ps)
  then show ?case by (cases hs) auto
qed simp

lemma reconstruct_left_skip:
  "(\<And>p. p \<in> set ps \<Longrightarrow> first \<le> p) \<Longrightarrow>
   reconstruct_left B size' first (ps @ qs) r hs = reconstruct_left B size' first qs r hs"
  by (induction ps) auto

lemma bag_right_append:
  "ys \<noteq> [] \<Longrightarrow> bag_right B size' (xs @ ys) = foldr (\<lambda>h r. HashParentWithIndex B h r size') xs (bag_right B size' ys)"
proof (induction xs)
  case (Cons x xs)
  then show ?case by (cases "xs @ ys") auto
qed simp

text \<open>Two equal hashes of parents, one of them of the range, have the same children.\<close>

lemma HashParent_inject:
  assumes spf: "second_preimage_free B leaves" and x: "AppendU64 p @ l @ r \<in> range_inputs B leaves"
    and eq: "HashParentWithIndex B l' r' p = HashParentWithIndex B l r p" and len: "length l' = length l"
  shows "l' = l" "r' = r"
proof -
  have "B (AppendU64 p @ l' @ r') = B (AppendU64 p @ l @ r)"
    using eq by (simp add: HashParentWithIndex_def AppendBigInteger_def)
  then have "AppendU64 p @ l' @ r' = AppendU64 p @ l @ r"
    using spf x unfolding second_preimage_free_def by blast
  then show "l' = l" "r' = r" using len by auto
qed

lemma length_peak_hash:
  "\<forall>x. length (B x) = 32 \<Longrightarrow> peak_hashes B leaves ns = xs @ h # ys \<Longrightarrow> length h = 32"
proof -
  assume len: "\<forall>x. length (B x) = 32" and "peak_hashes B leaves ns = xs @ h # ys"
  then have "h \<in> set (peak_hashes B leaves ns)" by simp
  then show ?thesis using length_hash [of B leaves] len by auto
qed

lemma fold_left_unique:
  assumes spf: "second_preimage_free B leaves" and len: "\<forall>x. length (B x) = 32" and ys: "ys \<noteq> []"
  shows "peak_hashes B leaves (peaks (length leaves)) = ls @ xs @ ys \<Longrightarrow> length gs = length xs \<Longrightarrow>
    (\<And>g. g \<in> set gs \<Longrightarrow> length g = 32) \<Longrightarrow>
    foldr (\<lambda>h r. HashParentWithIndex B h r (range_size leaves)) gs r = bag_right B (range_size leaves) (xs @ ys) \<Longrightarrow>
    r = bag_right B (range_size leaves) ys"
proof (induction xs arbitrary: ls gs)
  case (Cons x xs)
  obtain g gs' where gs: "gs = g # gs'" using Cons.prems(2) by (cases gs) auto
  let ?f = "\<lambda>h r. HashParentWithIndex B h r (range_size leaves)"
  have bag: "bag_right B (range_size leaves) (x # xs @ ys) = ?f x (bag_right B (range_size leaves) (xs @ ys))"
    using ys by (cases "xs @ ys") auto
  have mem: "AppendU64 (range_size leaves) @ x @ bag_right B (range_size leaves) (xs @ ys) \<in> range_inputs B leaves"
    using bag_in [of B leaves ls x "xs @ ys"] Cons.prems(1) ys by (simp add: bag_input_def)
  have "length g = length x"
    using Cons.prems(3) [of g] gs length_peak_hash [OF len, of leaves "peaks (length leaves)" ls x "xs @ ys"] Cons.prems(1)
    by simp
  from HashParent_inject(2) [OF spf mem _ this, of "foldr ?f gs' r"] Cons.prems(4)
  have "foldr ?f gs' r = bag_right B (range_size leaves) (xs @ ys)" unfolding gs append_Cons bag by simp
  then show ?case using Cons.IH [of "ls @ [x]" gs'] Cons.prems gs by simp
qed simp

definition path_top :: "nat \<times> nat \<Rightarrow> nat \<Rightarrow> nat \<times> nat" where
  "path_top x limit = (if path_up x limit = [] then x else fst (last (path_up x limit)))"

lemma path_up_step:
  assumes "is_node n h" "pos_of (parent_of (n, h)) < limit"
  shows "path_up (n, h) limit = (parent_of (n, h), sibling_of (n, h)) # path_up (parent_of (n, h)) limit"
    and "path_top (n, h) limit = path_top (parent_of (n, h)) limit"
  using pos_parent_greater [OF assms(1)] assms(2) path_up.simps [of "(n, h)" limit]
  by (simp_all add: path_top_def)

lemma path_up_end:
  assumes "\<not> pos_of (parent_of x) < limit"
  shows "path_up x limit = []" "path_top x limit = x"
  using assms path_up.simps [of x limit] by (simp_all add: path_top_def)

lemma path_top_peak:
  assumes "is_node n h" "n < N"
  shows "path_top (n, h) (mmr_pos N 0) \<in> set (peaks N) \<and> n \<le> fst (path_top (n, h) (mmr_pos N 0)) \<and>
    Suc (fst (path_top (n, h) (mmr_pos N 0))) + 2 ^ h \<le> Suc n + 2 ^ snd (path_top (n, h) (mmr_pos N 0))"
  using assms
proof (induction "mmr_pos N 0 - mmr_pos n h" arbitrary: n h rule: less_induct)
  case less
  obtain pn ph where p: "parent_of (n, h) = (pn, ph)" by fastforce
  have node: "is_node pn ph" using is_node_parent [OF less.prems(1)] p by simp
  have ph: "ph = Suc h" "n \<le> pn" "pn + 2 ^ h \<le> n + 2 ^ ph" using p by (auto simp: parent_of_def split: if_splits)
  show ?case
  proof (cases "mmr_pos pn ph < mmr_pos N 0")
    case True
    have "mmr_pos n h < mmr_pos pn ph" using pos_parent_greater [OF less.prems(1)] p by simp
    then have "mmr_pos N 0 - mmr_pos pn ph < mmr_pos N 0 - mmr_pos n h" using True by simp
    from less.hyps [OF this node] True show ?thesis
      using path_up_step(2) [OF less.prems(1), of "mmr_pos N 0"] p ph node_pos_less_iff [OF node] by auto
  next
    case False
    then have "N \<le> pn" using node_pos_less_iff [OF node] by simp
    then show ?thesis
      using top_is_peak [OF less.prems] path_up_end(2) [of "(n, h)" "mmr_pos N 0"] False p by simp
  qed
qed

text \<open>One step up: the parent's hash from the node's and its sibling's.\<close>

definition parent_hash :: "(bytes \<Rightarrow> bytes) \<Rightarrow> nat \<times> nat \<Rightarrow> bytes \<Rightarrow> bytes \<Rightarrow> bytes" where
  "parent_hash B x r s =
     (if is_right (fst x) (snd x) then HashParentWithIndex B s r (pos_word (parent_of x))
      else HashParentWithIndex B r s (pos_word (parent_of x)))"

lemma parent_hash_node:
  "is_node n h \<Longrightarrow>
   parent_hash B (n, h) (node_hash B leaves n h) (branch_hash B leaves (sibling_of (n, h))) =
     branch_hash B leaves (parent_of (n, h))"
  by (simp add: parent_hash_def parent_of_def sibling_of_def)

lemma parent_hash_unique:
  assumes "second_preimage_free B leaves" "\<forall>x. length (B x) = 32"
    and node: "is_node n h" and inside: "fst (parent_of (n, h)) < length leaves"
    and len: "length r = 32" "length s = 32"
    and eq: "parent_hash B (n, h) r s = branch_hash B leaves (parent_of (n, h))"
  shows "r = node_hash B leaves n h"
proof (cases "is_right n h")
  case True
  have mem: "node_input B leaves n h \<in> range_inputs B leaves"
    using True inside unfolding range_inputs_def is_right_def by (auto simp: parent_of_def is_right_def)
  show ?thesis
    using HashParent_inject(2) [OF assms(1) mem [unfolded node_input_def], of s r] eq True len assms(2) length_hash
    by (simp add: parent_hash_def parent_of_def)
next
  case False
  have "is_node (n + 2 ^ h) (Suc h)" by (rule left_node_shift(1) [OF node False])
  then have mem: "node_input B leaves (n + 2 ^ h) h \<in> range_inputs B leaves"
    using False inside unfolding range_inputs_def by (auto simp: parent_of_def)
  show ?thesis
    using HashParent_inject(1) [OF assms(1) mem [unfolded node_input_def], of r s] eq False len assms(2) length_hash
    by (simp add: parent_hash_def parent_of_def)
qed

lemma length_parent_hash: "\<forall>x. length (B x) = 32 \<Longrightarrow> length (parent_hash B x r s) = 32"
  by (simp add: parent_hash_def HashParentWithIndex_def)

lemma sibling_right:
  assumes "is_node n h"
  shows "is_right (fst (sibling_of (n, h))) h \<longleftrightarrow> \<not> is_right n h"
  using right_node_shift(3) [of n h] left_node_shift(1) [OF assms]
  by (auto simp: sibling_of_def is_right_def)

lemma reconstruct_branch_step:
  assumes node: "is_node n h" and N: "N < 2 ^ 50" and inside: "pos_of (parent_of (n, h)) < mmr_pos N 0"
    and u: "unat u \<le> Suc (mmr_pos n h)"
  shows "reconstruct_branch B u (word_branch (path_up (n, h) (mmr_pos N 0))) r hs =
    (case hs of [] \<Rightarrow> None
     | s # hs \<Rightarrow>
         reconstruct_branch B u (word_branch (path_up (parent_of (n, h)) (mmr_pos N 0))) (parent_hash B (n, h) r s) hs)"
proof -
  obtain pn where p: "parent_of (n, h) = (pn, Suc h)" "n \<le> pn"
    by (cases "is_right n h") (auto simp: parent_of_def)
  have pnode: "is_node pn (Suc h)" using is_node_parent [OF node] p by simp
  have pn: "pn < N" using inside p node_pos_less_iff [OF pnode] by simp
  have small: "pos_of (parent_of (n, h)) < 2 ^ 52"
    using mmr_pos_small [of pn "Suc h"] node_height_small [OF pnode] pn N p by simp
  then have up: "unat (pos_word (parent_of (n, h))) = pos_of (parent_of (n, h))" by (intro unat_of_nat_u64) simp
  have "mmr_pos n h < pos_of (parent_of (n, h))" using pos_parent_greater [OF node] by simp
  then have nskip: "\<not> pos_word (parent_of (n, h)) < u" using u up by (simp add: word_less_nat_alt)
  obtain sn where s: "sibling_of (n, h) = (sn, h)" "is_node sn h" "sn \<le> pn"
    using is_node_sibling [OF node] p by (auto simp: sibling_of_def parent_of_def split: if_splits)
  have "mmr_pos sn h < 2 ^ 52" using mmr_pos_small [of sn h] node_height_small [OF s(2)] s pn N by simp
  then have "in_range sn h" using s(2) by (simp add: in_range_def)
  then have left: "IsLeftSibling (pos_word (sibling_of (n, h))) \<longleftrightarrow> is_right n h"
    using IsLeftSibling_node [of sn h] sibling_right [OF node] s(1) by simp
  show ?thesis
    unfolding path_up_step(1) [OF node inside]
    using nskip left by (simp add: word_branch_def parent_hash_def split: list.split)
qed

lemma reconstruct_branch_complete:
  assumes "is_node n h" "n < N" "N < 2 ^ 50" "unat u \<le> Suc (mmr_pos n h)"
  shows "reconstruct_branch B u (word_branch (path_up (n, h) (mmr_pos N 0))) (node_hash B leaves n h)
      (map (\<lambda>(p, s). branch_hash B leaves s) (path_up (n, h) (mmr_pos N 0)) @ hs) =
    Some (branch_hash B leaves (path_top (n, h) (mmr_pos N 0)), hs)"
  using assms
proof (induction "mmr_pos N 0 - mmr_pos n h" arbitrary: n h rule: less_induct)
  case less
  obtain pn ph where p: "parent_of (n, h) = (pn, ph)" by fastforce
  have node: "is_node pn ph" using is_node_parent [OF less.prems(1)] p by simp
  show ?case
  proof (cases "mmr_pos pn ph < mmr_pos N 0")
    case True
    have gt: "mmr_pos n h < mmr_pos pn ph" using pos_parent_greater [OF less.prems(1)] p by simp
    then have "mmr_pos N 0 - mmr_pos pn ph < mmr_pos N 0 - mmr_pos n h" using True by simp
    from less.hyps [OF this node _ less.prems(3)] show ?thesis
      using reconstruct_branch_step [OF less.prems(1,3) _ less.prems(4)] True p gt less.prems(4)
        path_up_step [OF less.prems(1), of "mmr_pos N 0"] node_pos_less_iff [OF node]
        parent_hash_node [OF less.prems(1), of B leaves]
      by simp
  next
    case False
    then show ?thesis
      using path_up_end [of "(n, h)" "mmr_pos N 0"] p by (simp add: word_branch_def)
  qed
qed

lemma reconstruct_branch_sound:
  assumes spf: "second_preimage_free B leaves" and len: "\<forall>x. length (B x) = 32" and N: "N = length leaves" "N < 2 ^ 50"
  shows "is_node n h \<Longrightarrow> n < N \<Longrightarrow> unat u \<le> Suc (mmr_pos n h) \<Longrightarrow> length r = 32 \<Longrightarrow>
    list_all (\<lambda>g. length g = 32) hs \<Longrightarrow>
    reconstruct_branch B u (word_branch (path_up (n, h) (mmr_pos N 0))) r hs = Some (t, hs') \<Longrightarrow>
    length t = 32 \<and> list_all (\<lambda>g. length g = 32) hs' \<and>
    (t = branch_hash B leaves (path_top (n, h) (mmr_pos N 0)) \<longrightarrow> r = node_hash B leaves n h)"
proof (induction "mmr_pos N 0 - mmr_pos n h" arbitrary: n h r hs rule: less_induct)
  case less
  obtain pn ph where p: "parent_of (n, h) = (pn, ph)" by fastforce
  have node: "is_node pn ph" using is_node_parent [OF less.prems(1)] p by simp
  show ?case
  proof (cases "mmr_pos pn ph < mmr_pos N 0")
    case True
    have gt: "mmr_pos n h < mmr_pos pn ph" using pos_parent_greater [OF less.prems(1)] p by simp
    have inside: "pn < N" using True node_pos_less_iff [OF node] by simp
    obtain s hs1 where hs: "hs = s # hs1"
      and rec: "reconstruct_branch B u (word_branch (path_up (pn, ph) (mmr_pos N 0))) (parent_hash B (n, h) r s) hs1 =
        Some (t, hs')"
      using less.prems(6) reconstruct_branch_step [OF less.prems(1) N(2) _ less.prems(3)] True p
      by (auto split: list.splits)
    have s: "length s = 32" "list_all (\<lambda>g. length g = 32) hs1" using less.prems(5) hs by simp_all
    have "mmr_pos N 0 - mmr_pos pn ph < mmr_pos N 0 - mmr_pos n h" using True gt by simp
    from less.hyps [OF this node inside _ length_parent_hash [OF len] s(2) rec] less.prems(3) gt
    have "length t = 32 \<and> list_all (\<lambda>g. length g = 32) hs' \<and>
        (t = branch_hash B leaves (path_top (pn, ph) (mmr_pos N 0)) \<longrightarrow>
          parent_hash B (n, h) r s = node_hash B leaves pn ph)" by simp
    then show ?thesis
      using parent_hash_unique [OF spf len less.prems(1) _ less.prems(4) s(1)] inside N(1) p
        path_up_step(2) [OF less.prems(1), of "mmr_pos N 0"] True
      by auto
  next
    case False
    then show ?thesis
      using path_up_end [of "(n, h)" "mmr_pos N 0"] p less.prems by (simp add: word_branch_def)
  qed
qed

lemma unat_pos_word:
  assumes "is_node (fst x) (snd x)" "fst x < N" "N < 2 ^ 50"
  shows "unat (pos_word x) = pos_of x"
  using mmr_pos_small [of "fst x" "snd x"] node_height_small [OF assms(1)] assms(2,3)
  by (intro unat_of_nat_u64) simp

lemma unat_leaf_pos: "n \<le> N \<Longrightarrow> N < 2 ^ 50 \<Longrightarrow> unat (of_nat (mmr_pos n 0) :: u64) = mmr_pos n 0"
  using mmr_pos_small [of n 0] by (intro unat_of_nat_u64) simp

lemma GetPeakIndices_range:
  assumes "N < 2 ^ 50"
  shows "GetPeakIndices (of_nat (mmr_pos N 0)) = map pos_word (peaks N)"
  using node_coordinates [OF is_node_leaf, of N] unat_leaf_pos [OF order_refl assms]
  by (simp add: GetPeakIndices_eq peaks_of_def comp_def case_prod_unfold)

text \<open>The peaks right and left of the one above a segment, as the loops of the proof select them.\<close>

lemma peaks_around:
  assumes "peaks N = A @ x # C" "N < 2 ^ 50"
    and A: "\<And>y. y \<in> set A \<Longrightarrow> fst y < fst x" and C: "\<And>y. y \<in> set C \<Longrightarrow> fst x < fst y"
  shows "list_ex (\<lambda>p. pos_word x < p) (map pos_word (peaks N)) \<longleftrightarrow> C \<noteq> []"
proof -
  have nodes: "is_node (fst y) (snd y) \<and> fst y < N" if "y \<in> set A \<union> {x} \<union> set C" for y
    using peak_is_node [of y N] that unfolding assms(1) by auto
  have u: "unat (pos_word y) = pos_of y" if "y \<in> set A \<union> {x} \<union> set C" for y
    using unat_pos_word nodes [OF that] assms(2) by blast
  have "\<not> pos_word x < pos_word y" if "y \<in> set A" for y
    using node_pos_mono [of "fst y" "snd y" "fst x" "snd x"] A [OF that] nodes [of y] u [of y] u [of x] that
    by (simp add: word_less_nat_alt)
  moreover have "pos_word x < pos_word y" if "y \<in> set C" for y
    using node_pos_mono [of "fst x" "snd x" "fst y" "snd y"] C [OF that] nodes [of x] u [of y] u [of x] that
    by (simp add: word_less_nat_alt)
  ultimately show ?thesis by (cases C) (auto simp: assms(1) list_ex_iff)
qed

lemma peaks_left_of:
  assumes "x \<in> set (peaks N)" "N < 2 ^ 50" "o' \<le> N"
  shows "of_nat (mmr_pos o' 0) \<le> pos_word x \<longleftrightarrow> o' \<le> fst x"
proof -
  have x: "is_node (fst x) (snd x)" "fst x < N" using peak_is_node [OF assms(1)] by auto
  have "mmr_pos o' 0 \<le> pos_of x \<longleftrightarrow> o' \<le> fst x"
    using node_pos_less_iff [OF x(1), of o'] by (auto simp: not_less [symmetric])
  then show ?thesis
    using unat_pos_word [OF x assms(2)] unat_leaf_pos [OF assms(3,2)] by (simp add: word_le_nat_alt)
qed

lemma reconstruct_left_peaks:
  assumes split: "peaks N = A @ D" and N: "N < 2 ^ 50" "o' \<le> N"
    and A: "\<And>y. y \<in> set A \<Longrightarrow> fst y < o'" and D: "\<And>y. y \<in> set D \<Longrightarrow> o' \<le> fst y"
  shows "reconstruct_left B size' (of_nat (mmr_pos o' 0)) (rev (map pos_word (peaks N))) r hs =
    (if length hs < length A then None
     else Some (foldr (\<lambda>h r. HashParentWithIndex B h r size') (rev (take (length A) hs)) r, drop (length A) hs))"
proof -
  let ?first = "of_nat (mmr_pos o' 0) :: u64"
  have "?first \<le> p" if "p \<in> set (rev (map pos_word D))" for p
    using that peaks_left_of [OF _ N] D by (auto simp: split)
  moreover have "\<not> ?first \<le> p" if "p \<in> set (rev (map pos_word A))" for p
  proof -
    from that have "p \<in> pos_word ` set A" by simp
    then obtain y where y: "y \<in> set A" "p = pos_word y" by blast
    then have "y \<in> set (peaks N)" by (simp add: split)
    from peaks_left_of [OF this N] A [OF y(1)] y(2) show ?thesis by simp
  qed
  moreover have "rev (map pos_word (peaks N)) = rev (map pos_word D) @ rev (map pos_word A)" by (simp add: split)
  ultimately show ?thesis
    using reconstruct_left_skip [of "rev (map pos_word D)" ?first B size' "rev (map pos_word A)" r hs]
      reconstruct_left_eq [of "rev (map pos_word A)" ?first B size' r hs]
    by (simp add: foldr_conv_fold)
qed

text \<open>A complete segment with root \<open>r\<close> at node \<open>(m, h)\<close>: what \<open>ReconstructRoot\<close> computes.\<close>

lemma ReconstructRoot_full:
  assumes node: "is_node m h" and m: "m < N" and N: "N < 2 ^ 50"
    and split: "peaks N = A @ path_top (m, h) (mmr_pos N 0) # C"
    and A: "\<forall>y \<in> set A. fst y < Suc m - 2 ^ h"
    and C: "\<forall>y \<in> set C. fst (path_top (m, h) (mmr_pos N 0)) < fst y"
  shows "ReconstructRoot B (of_nat (mmr_pos N 0)) (of_nat (mmr_pos (Suc m - 2 ^ h) 0)) (of_nat (mmr_pos m h)) r u hs =
    Some (Option.bind (reconstruct_branch B u (word_branch (path_up (m, h) (mmr_pos N 0))) r hs) (\<lambda>(t, hs).
      Option.bind (if C = [] then Some (t, hs)
                   else case hs of [] \<Rightarrow> None
                        | g # hs \<Rightarrow> Some (HashParentWithIndex B t g (of_nat (mmr_pos N 0)), hs)) (\<lambda>(t, hs).
        if length hs = length A
        then Some (foldr (\<lambda>h r. HashParentWithIndex B h r (of_nat (mmr_pos N 0))) (rev hs) t) else None)))"
proof -
  let ?x = "path_top (m, h) (mmr_pos N 0)"
  have one: "Suc m - 2 ^ h \<le> m" using one_le_power [of "2::nat" h] by linarith
  have top: "m \<le> fst ?x" using path_top_peak [OF node m] by simp
  have lt: "mmr_pos m h < mmr_pos N 0" using node_pos_less_iff [OF node] m by simp
  have uN: "unat (of_nat (mmr_pos N 0) :: u64) = mmr_pos N 0" by (rule unat_leaf_pos [OF order_refl N])
  have branch: "FamilyBranch (of_nat (mmr_pos m h)) (of_nat (mmr_pos N 0)) =
      Some (word_branch (path_up (m, h) (mmr_pos N 0)))"
    using FamilyBranch_node [OF node, of "of_nat (mmr_pos N 0)"] lt mmr_pos_small [of N 0] N by (simp add: uN)
  have peak: "branch_peak (of_nat (mmr_pos m h)) (word_branch (path_up (m, h) (mmr_pos N 0))) = pos_word ?x"
    by (simp add: branch_peak_def word_branch_def path_top_def last_map case_prod_unfold)
  have ex: "list_ex (\<lambda>p. pos_word ?x < p) (map pos_word (peaks N)) \<longleftrightarrow> C \<noteq> []"
    using A C one top by (intro peaks_around [OF split N]) fastforce+
  have "fst y \<ge> Suc m - 2 ^ h" if "y \<in> set (?x # C)" for y
    using that C top one by fastforce
  then
  have left: "reconstruct_left B (of_nat (mmr_pos N 0)) (of_nat (mmr_pos (Suc m - 2 ^ h) 0))
      (rev (map pos_word (peaks N))) t hs =
    (if length hs < length A then None
     else Some (foldr (\<lambda>h r. HashParentWithIndex B h r (of_nat (mmr_pos N 0))) (rev (take (length A) hs)) t,
                drop (length A) hs))" for t hs
    using A one m by (intro reconstruct_left_peaks [OF split N]) auto
  show ?thesis
    unfolding ReconstructRoot_def branch GetPeakIndices_range [OF N] Let_def peak option.map reconstruct_right_def ex left
    by (cases "reconstruct_branch B u (word_branch (path_up (m, h) (mmr_pos N 0))) r hs")
      (auto split: list.splits)
qed

lemma top_split:
  assumes "is_node m h" "m < N"
  obtains A C where "peaks N = A @ path_top (m, h) (mmr_pos N 0) # C"
    and "\<forall>y \<in> set A. fst y < Suc m - 2 ^ h"
    and "\<forall>y \<in> set C. fst (path_top (m, h) (mmr_pos N 0)) < fst y"
proof -
  obtain a b where top: "path_top (m, h) (mmr_pos N 0) = (a, b)" by force
  have t: "(a, b) \<in> set (peaks N)" "a + 2 ^ h \<le> m + 2 ^ b" using path_top_peak [OF assms] top by auto
  obtain A C where split: "peaks N = A @ (a, b) # C" "\<And>x. x \<in> set A \<Longrightarrow> fst x + 2 ^ b \<le> a"
    "\<And>x. x \<in> set C \<Longrightarrow> a < fst x"
    using peaks_split [OF t(1)] by blast
  have "fst y < Suc m - 2 ^ h" if "y \<in> set A" for y using split(2) [OF that] t(2) by linarith
  then show thesis using that [of A C] split top by simp
qed

text \<open>The proof that an honest range gives for a complete segment.\<close>

definition full_proof :: "(bytes \<Rightarrow> bytes) \<Rightarrow> bytes list \<Rightarrow> nat \<Rightarrow> nat \<Rightarrow> bytes list" where
  "full_proof B leaves m h =
     (let N = length leaves; size' = mmr_pos N 0;
          x = path_top (m, h) size';
          rights = filter (\<lambda>y. fst x < fst y) (peaks N);
          lefts = filter (\<lambda>y. fst y < Suc m - 2 ^ h) (peaks N)
      in map (\<lambda>(p, s). branch_hash B leaves s) (path_up (m, h) size') @
         (if rights = [] then [] else [bag_right B (of_nat size') (peak_hashes B leaves rights)]) @
         rev (peak_hashes B leaves lefts))"

lemma full_reconstruct_complete:
  assumes ok: "hash_ok B leaves" and N: "length leaves < 2 ^ 50" and node: "is_node m h" and m: "m < length leaves"
    and u: "unat u \<le> Suc (mmr_pos m h)"
  shows "ReconstructRoot B (range_size leaves) (of_nat (mmr_pos (Suc m - 2 ^ h) 0)) (of_nat (mmr_pos m h))
      (node_hash B leaves m h) u (full_proof B leaves m h) = Some (Some (mmr_root B leaves))"
proof -
  let ?N = "length leaves" and ?x = "path_top (m, h) (mmr_pos (length leaves) 0)" and ?H = "peak_hashes B leaves"
  obtain A C where split: "peaks ?N = A @ ?x # C" and A: "\<forall>y \<in> set A. fst y < Suc m - 2 ^ h"
    and C: "\<forall>y \<in> set C. fst ?x < fst y"
    using top_split [OF node m] by blast
  have top: "m \<le> fst ?x" using path_top_peak [OF node m] by simp
  have one: "Suc m - 2 ^ h \<le> m" using one_le_power [of "2::nat" h] by linarith
  have rights: "filter (\<lambda>y. fst ?x < fst y) (peaks ?N) = C"
    using A C one top unfolding split by (fastforce simp: filter_empty_conv filter_id_conv)
  have lefts: "filter (\<lambda>y. fst y < Suc m - 2 ^ h) (peaks ?N) = A"
    using A C one top unfolding split by (fastforce simp: filter_empty_conv filter_id_conv)
  have bag: "bag_right B (range_size leaves) (?H A @ ?H (?x # C)) = mmr_root B leaves"
    using mmr_root_bag [OF ok] split by simp
  have top_hash: "?H (?x # C) = branch_hash B leaves ?x # ?H C" by (simp add: case_prod_unfold)
  show ?thesis
    unfolding full_proof_def Let_def rights lefts
      ReconstructRoot_full [OF node m N split A C] reconstruct_branch_complete [OF node m N u]
    using bag bag_right_append [of "?H (?x # C)" B "range_size leaves" "?H A"]
    unfolding top_hash by (cases C) (auto simp del: mmr_root_def)
qed

lemma full_reconstruct_sound:
  assumes spf: "second_preimage_free B leaves" and ok: "hash_ok B leaves"
    and N: "length leaves < 2 ^ 50" and node: "is_node m h" and m: "m < length leaves"
    and u: "unat u \<le> Suc (mmr_pos m h)" and r: "length r = 32" and hs: "list_all (\<lambda>g. length g = 32) hs"
    and rec: "ReconstructRoot B (range_size leaves) (of_nat (mmr_pos (Suc m - 2 ^ h) 0)) (of_nat (mmr_pos m h))
      r u hs = Some (Some (mmr_root B leaves))"
  shows "r = node_hash B leaves m h"
proof -
  let ?N = "length leaves" and ?x = "path_top (m, h) (mmr_pos (length leaves) 0)" and ?H = "peak_hashes B leaves"
  let ?size = "range_size leaves" let ?f = "\<lambda>h r. HashParentWithIndex B h r ?size"
  have len: "\<forall>x. length (B x) = 32" using ok by (simp add: hash_ok_def)
  obtain A C where split: "peaks ?N = A @ ?x # C" and A: "\<forall>y \<in> set A. fst y < Suc m - 2 ^ h"
    and C: "\<forall>y \<in> set C. fst ?x < fst y"
    using top_split [OF node m] by blast
  obtain t hs1 t2 hs2 where
    br: "reconstruct_branch B u (word_branch (path_up (m, h) (mmr_pos ?N 0))) r hs = Some (t, hs1)"
    and rt: "(if C = [] then Some (t, hs1)
              else case hs1 of [] \<Rightarrow> None | g # hs \<Rightarrow> Some (HashParentWithIndex B t g ?size, hs)) = Some (t2, hs2)"
    and lf: "length hs2 = length A" "foldr ?f (rev hs2) t2 = mmr_root B leaves"
    using rec unfolding ReconstructRoot_full [OF node m N split A C]
    by (auto split: bind_splits if_splits prod.splits)
  note b = reconstruct_branch_sound [OF spf len refl N node m u r hs br]
  have all2: "list_all (\<lambda>g. length g = 32) hs2" using rt b by (auto split: if_splits list.splits)
  have top_hash: "?H (?x # C) = branch_hash B leaves ?x # ?H C" by (simp add: case_prod_unfold)
  have peaks: "?H (peaks ?N) = [] @ ?H A @ ?H (?x # C)" by (simp add: split)
  have t2: "t2 = bag_right B ?size (?H (?x # C))"
    using fold_left_unique [OF spf len _ peaks, of "rev hs2" t2] lf all2 mmr_root_bag [OF ok] peaks
    by (simp add: list_all_iff)
  have "t = branch_hash B leaves ?x"
  proof (cases "C = []")
    case True
    then show ?thesis using t2 rt unfolding top_hash by simp
  next
    case False
    then obtain g where g: "t2 = HashParentWithIndex B t g ?size" using rt by (auto split: list.splits)
    have mem: "AppendU64 ?size @ branch_hash B leaves ?x @ bag_right B ?size (?H C) \<in> range_inputs B leaves"
      using bag_in [of B leaves "?H A" "branch_hash B leaves ?x" "?H C"] peaks False unfolding top_hash
      by (simp add: bag_input_def)
    have "bag_right B ?size (branch_hash B leaves ?x # ?H C) = ?f (branch_hash B leaves ?x) (bag_right B ?size (?H C))"
      using False by (cases C) auto
    then show ?thesis
      using HashParent_inject(1) [OF spf mem, of t g] t2 g b len length_hash unfolding top_hash by simp
  qed
  then show ?thesis using b by blast
qed

text \<open>The last segment, when it is incomplete.\<close>

lemma floor_mono: "k \<le> j \<Longrightarrow> N div 2 ^ j * 2 ^ j \<le> N div 2 ^ k * 2 ^ k" for N :: nat
proof -
  assume "k \<le> j"
  then have "(2::nat) ^ k dvd N div 2 ^ j * 2 ^ j" by (intro dvd_mult le_imp_power_dvd)
  then have "N div 2 ^ j * 2 ^ j = (N div 2 ^ j * 2 ^ j) div 2 ^ k * 2 ^ k" by simp
  also have "\<dots> \<le> N div 2 ^ k * 2 ^ k" by (intro mult_le_mono1 div_le_mono) simp
  finally show ?thesis .
qed

lemma low_peak_mem: "(m, k) \<in> set (peak_nodes h N) \<longleftrightarrow> (m, k) \<in> set (peaks N) \<and> k < h"
  using digit_width [of N k] by (auto simp: peak_nodes_def)

lemma high_low:
  obtains high where "peaks N = high @ peak_nodes h N"
    and "\<forall>y \<in> set high. fst y < N div 2 ^ h * 2 ^ h" and "\<forall>y \<in> set (peak_nodes h N). N div 2 ^ h * 2 ^ h \<le> fst y"
proof -
  have app: "\<exists>high. peak_nodes (h + d) N = high @ peak_nodes h N \<and> (\<forall>y \<in> set high. h \<le> snd y)" for d
    by (induction d) (auto simp: peak_nodes_Suc)
  obtain high where high: "peaks N = high @ peak_nodes h N" "\<forall>y \<in> set high. h \<le> snd y"
  proof (cases "h \<le> bit_width N")
    case True
    then show thesis using app [of "bit_width N - h"] that by auto
  next
    case False
    then have "peak_nodes h N = peaks N" using bit_width_le_iff [of N h] by (intro peak_nodes_width) simp
    then show thesis using that [of "[]"] by simp
  qed
  have "fst y < N div 2 ^ h * 2 ^ h" if "y \<in> set high" for y
  proof -
    have "Suc (fst y) = N div 2 ^ snd y * 2 ^ snd y"
      using that high(1) peak_mem [of "fst y" "snd y" N] by auto
    then show ?thesis using floor_mono [of h "snd y" N] high(2) that by fastforce
  qed
  moreover have "N div 2 ^ h * 2 ^ h \<le> fst y" if "y \<in> set (peak_nodes h N)" for y
  proof -
    have y: "odd (N div 2 ^ snd y)" "Suc (fst y) = N div 2 ^ snd y * 2 ^ snd y" "snd y < h"
      using that low_peak_mem [of "fst y" "snd y" h N] peak_mem [of "fst y" "snd y" N] by auto
    have "N div 2 ^ h * 2 ^ h \<le> N div 2 ^ Suc (snd y) * 2 ^ Suc (snd y)" using y(3) by (intro floor_mono) simp
    then show ?thesis using low_step(1) [OF y(1)] y(2) one_le_power [of "2::nat" "snd y"] by linarith
  qed
  ultimately show thesis using that high(1) by blast
qed

lemma low_nonempty:
  assumes "N div 2 ^ h * 2 ^ h < N"
  shows "peak_nodes h N \<noteq> []" "pos_of (last (peak_nodes h N)) = mmr_pos N 0 - 1"
    and "fst (last (peak_nodes h N)) = N - 1"
proof -
  have lt: "mmr_pos (N div 2 ^ h * 2 ^ h) 0 < mmr_pos N 0" by (rule leaf_pos_mono [OF assms])
  show ne: "peak_nodes h N \<noteq> []"
  proof
    assume "peak_nodes h N = []"
    then have "[mmr_pos (N div 2 ^ h * 2 ^ h) 0..<mmr_pos N 0] = []" unfolding low_positions [symmetric] by simp
    then show False using lt by simp
  qed
  let ?x = "last (peak_nodes h N)"
  have x: "?x \<in> set (peak_nodes h N)" using ne by simp
  have "peak_nodes h N = butlast (peak_nodes h N) @ [?x]" using ne by simp
  then have "concat (map (\<lambda>(m, k). subtree_positions m k) (peak_nodes h N)) =
      concat (map (\<lambda>(m, k). subtree_positions m k) (butlast (peak_nodes h N))) @ subtree_positions (fst ?x) (snd ?x)"
    by (metis (no_types, lifting) case_prod_unfold concat.simps concat_append list.simps(8,9) map_append append_Nil2)
  then have "[mmr_pos (N div 2 ^ h * 2 ^ h) 0..<mmr_pos N 0] =
      concat (map (\<lambda>(m, k). subtree_positions m k) (butlast (peak_nodes h N))) @ subtree_positions (fst ?x) (snd ?x)"
    unfolding low_positions .
  moreover have sub: "subtree_positions (fst ?x) (snd ?x) \<noteq> []" "last (subtree_positions (fst ?x) (snd ?x)) = pos_of ?x"
  proof -
    have "Suc (fst ?x) - 2 ^ snd ?x \<le> fst ?x" using one_le_power [of "2::nat" "snd ?x"] by linarith
    then have "mmr_pos (Suc (fst ?x) - 2 ^ snd ?x) 0 \<le> pos_of ?x" by (rule leaf_pos_le)
    then show "subtree_positions (fst ?x) (snd ?x) \<noteq> []" "last (subtree_positions (fst ?x) (snd ?x)) = pos_of ?x"
      by (simp_all add: subtree_positions_def)
  qed
  ultimately have "last [mmr_pos (N div 2 ^ h * 2 ^ h) 0..<mmr_pos N 0] = pos_of ?x" by simp
  then show pos: "pos_of ?x = mmr_pos N 0 - 1" using lt by simp
  have node: "is_node (fst ?x) (snd ?x)" "fst ?x < N"
    using peak_node [of "fst ?x" "snd ?x" h N] x by auto
  have "\<not> fst ?x < N - 1"
  proof
    assume "fst ?x < N - 1"
    then have "mmr_pos (Suc (fst ?x)) 0 \<le> mmr_pos (N - 1) 0" by (intro leaf_pos_mono_le) simp
    moreover have "mmr_pos (N - 1) 0 < mmr_pos N 0" using node(2) by (intro leaf_pos_mono) simp
    ultimately show False using node_before_next [OF node(1)] pos by simp
  qed
  then show "fst ?x = N - 1" using node(2) by simp
qed

lemma partial_top:
  assumes N: "N < 2 ^ 50" and o': "N div 2 ^ h * 2 ^ h < N" and split: "peaks N = high @ peak_nodes h N"
  shows "FamilyBranch (of_nat (mmr_pos N 0 - 1)) (of_nat (mmr_pos N 0)) = Some []"
    and "\<forall>y \<in> set (high @ butlast (peak_nodes h N)). fst y < fst (last (peak_nodes h N))"
proof -
  let ?x = "last (peak_nodes h N)"
  note ne = low_nonempty [OF o']
  have x: "?x \<in> set (peaks N)" using ne(1) by (simp add: split)
  have node: "is_node (fst ?x) (snd ?x)" "fst ?x < N" using peak_is_node [OF x] by auto
  have "0 < mmr_pos N 0" using node_pos_less_iff [OF node(1), of N] node(2) by linarith
  then have "\<not> pos_of (parent_of ?x) < mmr_pos N 0"
    using pos_parent_greater [OF node(1)] ne(2) by simp
  then have up: "path_up ?x (mmr_pos N 0) = []" by (rule path_up_end)
  have uN: "unat (of_nat (mmr_pos N 0) :: u64) = mmr_pos N 0" by (rule unat_leaf_pos [OF order_refl N])
  have "pos_of ?x < mmr_pos N 0" using node_pos_less_iff [OF node(1), of N] node(2) by simp
  then have "FamilyBranch (pos_word ?x) (of_nat (mmr_pos N 0)) = Some []"
    using FamilyBranch_node [OF node(1), of "of_nat (mmr_pos N 0)"] mmr_pos_small [of N 0] N up
    by (simp add: uN word_branch_def)
  then show "FamilyBranch (of_nat (mmr_pos N 0 - 1)) (of_nat (mmr_pos N 0)) = Some []" unfolding ne(2) .
  have sorted: "sorted_wrt peak_before ((high @ butlast (peak_nodes h N)) @ [?x])"
    using peaks_sorted [of N] ne(1) by (simp add: split)
  show "\<forall>y \<in> set (high @ butlast (peak_nodes h N)). fst y < fst ?x"
  proof
    fix y assume that: "y \<in> set (high @ butlast (peak_nodes h N))"
    have "peak_before y ?x" using sorted that unfolding sorted_wrt_append by auto
    moreover have "0 < (2::nat) ^ snd ?x" by simp
    ultimately show "fst y < fst ?x" unfolding peak_before_def by linarith
  qed
qed

lemma ReconstructRoot_partial:
  assumes N: "N < 2 ^ 50" and o': "N div 2 ^ h * 2 ^ h < N" and split: "peaks N = high @ peak_nodes h N"
    and high: "\<forall>y \<in> set high. fst y < N div 2 ^ h * 2 ^ h"
    and low: "\<forall>y \<in> set (peak_nodes h N). N div 2 ^ h * 2 ^ h \<le> fst y"
  shows "ReconstructRoot B (of_nat (mmr_pos N 0)) (of_nat (mmr_pos (N div 2 ^ h * 2 ^ h) 0))
      (of_nat (mmr_pos N 0 - 1)) r u hs =
    Some (if length hs = length high
          then Some (foldr (\<lambda>h r. HashParentWithIndex B h r (of_nat (mmr_pos N 0))) (rev hs) r) else None)"
proof -
  let ?x = "last (peak_nodes h N)"
  note ne = low_nonempty [OF o'] and branch = partial_top(1) [OF N o' split]
  have "\<not> list_ex (\<lambda>p. pos_word ?x < p) (map pos_word (peaks N))"
    using peaks_around [of N "high @ butlast (peak_nodes h N)" ?x "[]"] N partial_top(2) [OF N o' split] ne(1) by (simp add: split)
  then have ex: "\<not> list_ex (\<lambda>p. of_nat (mmr_pos N 0 - 1) < p) (map pos_word (peaks N))" unfolding ne(2) .
  have left: "reconstruct_left B (of_nat (mmr_pos N 0)) (of_nat (mmr_pos (N div 2 ^ h * 2 ^ h) 0))
      (rev (map pos_word (peaks N))) r hs =
    (if length hs < length high then None
     else Some (foldr (\<lambda>h r. HashParentWithIndex B h r (of_nat (mmr_pos N 0))) (rev (take (length high) hs)) r,
                drop (length high) hs))"
    using high low o' by (intro reconstruct_left_peaks [OF split N]) auto
  show ?thesis
    unfolding ReconstructRoot_def branch GetPeakIndices_range [OF N] Let_def option.map reconstruct_right_def
      branch_peak_def
    using ex left by auto
qed

section \<open>Equal hashes, equal leaves\<close>

lemma node_hash_unique:
  assumes spf: "second_preimage_free B leaves" and len: "\<forall>x. length (B x) = 32"
  shows "is_node m h \<Longrightarrow> m < length leaves \<Longrightarrow> node_hash B leaves' m h = node_hash B leaves m h \<Longrightarrow>
    \<forall>j \<in> {Suc m - 2 ^ h..m}. leaves' ! j = leaves ! j"
proof (induction h arbitrary: m)
  case 0
  have "leaf_input leaves m \<in> range_inputs B leaves" using 0 by (simp add: range_inputs_def)
  then have "leaf_input leaves' m = leaf_input leaves m"
    using spf 0(3) unfolding node_hash_input second_preimage_free_def by blast
  then show ?case by (simp add: leaf_input_def)
next
  case (Suc h)
  have r: "is_right m h" using Suc.prems by (simp add: is_right_def)
  have le: "2 ^ h \<le> m" and left: "is_node (m - 2 ^ h) h" using right_node_shift [OF r] by simp_all
  have right: "is_node m h"
    using Suc.prems(1) unfolding is_node_def by (rule dvd_trans [rotated]) (simp add: le_imp_power_dvd)
  have mem: "AppendU64 (of_nat (mmr_pos m (Suc h))) @ node_hash B leaves (m - 2 ^ h) h @ node_hash B leaves m h
      \<in> range_inputs B leaves"
    using Suc.prems(1,2) unfolding range_inputs_def node_input_def [symmetric] by blast
  note inj = HashParent_inject [OF spf mem Suc.prems(3) [unfolded node_hash.simps]]
  have "node_hash B leaves' (m - 2 ^ h) h = node_hash B leaves (m - 2 ^ h) h"
    "node_hash B leaves' m h = node_hash B leaves m h"
    using inj length_hash len by simp_all
  then have "\<forall>j \<in> {Suc (m - 2 ^ h) - 2 ^ h..m - 2 ^ h}. leaves' ! j = leaves ! j"
    "\<forall>j \<in> {Suc m - 2 ^ h..m}. leaves' ! j = leaves ! j"
    using Suc.IH [OF left] Suc.IH [OF right] Suc.prems(2) by auto
  moreover have "{Suc m - 2 ^ Suc h..m} = {Suc (m - 2 ^ h) - 2 ^ h..m - 2 ^ h} \<union> {Suc m - 2 ^ h..m}"
    using le by (auto simp: Suc_diff_le)
  ultimately show ?case by blast
qed

lemma bag_right_unique:
  assumes spf: "second_preimage_free B leaves" and len: "\<forall>x. length (B x) = 32"
  shows "peak_hashes B leaves (peaks (length leaves)) = ls @ ys \<Longrightarrow> length gs = length ys \<Longrightarrow>
    list_all (\<lambda>g. length g = 32) gs \<Longrightarrow>
    bag_right B (range_size leaves) gs = bag_right B (range_size leaves) ys \<Longrightarrow> gs = ys"
proof (induction ys arbitrary: gs ls)
  case (Cons y ys)
  obtain g gs' where gs: "gs = g # gs'" using Cons.prems(2) by (cases gs) auto
  show ?case
  proof (cases "ys = []")
    case True
    then show ?thesis using Cons.prems gs by simp
  next
    case False
    have bag: "bag_right B s (x # xs) = HashParentWithIndex B x (bag_right B s xs) s" if "length xs = length ys" for s x xs
      using False that by (cases xs) auto
    have mem: "AppendU64 (range_size leaves) @ y @ bag_right B (range_size leaves) ys \<in> range_inputs B leaves"
      using bag_in [of B leaves ls y ys] Cons.prems(1) False by (simp add: bag_input_def)
    have "HashParentWithIndex B g (bag_right B (range_size leaves) gs') (range_size leaves) =
        HashParentWithIndex B y (bag_right B (range_size leaves) ys) (range_size leaves)"
      using Cons.prems(2,4) bag [of gs'] bag [of ys] gs by simp
    from HashParent_inject [OF spf mem this] have "g = y" "bag_right B (range_size leaves) gs' = bag_right B (range_size leaves) ys"
      using Cons.prems(3) gs length_peak_hash [OF len Cons.prems(1)] by simp_all
    then show ?thesis using Cons.IH [of "ls @ [y]" gs'] Cons.prems gs by simp
  qed
qed simp

section \<open>Identifiers as intervals of leaves\<close>

abbreviation seg_first :: "SegmentIdentifier \<Rightarrow> nat" where
  "seg_first si \<equiv> unat (GetLeafOffset si)"

abbreviation seg_height :: "SegmentIdentifier \<Rightarrow> nat" where
  "seg_height si \<equiv> unat (si_height si)"

lemma GetSegmentCapacity_eq: "seg_height si < 64 \<Longrightarrow> GetSegmentCapacity si = of_nat (2 ^ seg_height si)"
  by (simp add: GetSegmentCapacity_def push_bit_eq_mult)

lemma unat_pow: "h < 64 \<Longrightarrow> unat (2 ^ h :: u64) = 2 ^ h"
  using unat_of_nat_u64 [of "2 ^ h"] power_strict_increasing [of h 64 "2::nat"] by simp

lemma seg_first_dvd: "seg_height si < 64 \<Longrightarrow> 2 ^ seg_height si dvd seg_first si"
proof -
  assume h: "seg_height si < 64"
  have "seg_first si = unat (si_index si) * 2 ^ seg_height si mod 2 ^ 64"
    by (simp add: GetLeafOffset_def GetSegmentCapacity_eq [OF h] unat_word_ariths unat_pow [OF h])
  moreover have "(2::nat) ^ seg_height si dvd 2 ^ 64" using h by (intro le_imp_power_dvd) simp
  ultimately show ?thesis by (simp add: dvd_mod)
qed

lemma Segment_CountLeaves_eq: "N < 2 ^ 50 \<Longrightarrow> Segment_CountLeaves (of_nat (mmr_pos N 0)) = of_nat N"
proof -
  assume N: "N < 2 ^ 50"
  then have small: "mmr_pos N 0 < 2 ^ 64 - 1" using mmr_pos_small [of N 0] by simp
  then have un: "unat (of_nat (mmr_pos N 0) :: u64) = mmr_pos N 0" by (simp add: unat_of_nat_u64)
  have "Segment_CountLeaves (of_nat (mmr_pos N 0)) = CountLeaves (of_nat (mmr_pos N 0))"
    by (simp add: Segment_CountLeaves_def CountLeaves_def)
  also have "\<dots> = of_nat (leaf_at (mmr_pos N 0))" using CountLeaves_eq [of "of_nat (mmr_pos N 0)"] small by (simp add: un)
  finally show ?thesis using node_coordinates(2) [of N 0] by (simp add: is_node_def)
qed

lemma seg_order: "seg_height si < 64 \<Longrightarrow> N < 2 ^ 50 \<Longrightarrow> seg_first si < N \<Longrightarrow> \<not> (of_nat N :: u64) \<le> GetLeafOffset si"
  by (simp add: word_le_nat_alt unat_of_nat_u64)

lemma mmr_pos_height: "mmr_pos n h = mmr_pos n 0 + h"
  by (simp add: mmr_pos_def)

lemma full_range:
  assumes h: "seg_height si < 64" and N: "N < 2 ^ 50" and full: "seg_first si + 2 ^ seg_height si \<le> N"
  shows "GetSegmentUnprunedSize (of_nat (mmr_pos N 0)) si = GetSegmentCapacity si"
    and "GetPositionRange (of_nat (mmr_pos N 0)) si =
      (of_nat (mmr_pos (seg_first si) 0), of_nat (mmr_pos (seg_first si + 2 ^ seg_height si - 1) (seg_height si)))"
proof -
  have pow: "0 < (2::nat) ^ seg_height si" by simp
  have lt: "seg_first si < N" using full pow by linarith
  have un: "unat (of_nat N - GetLeafOffset si) = N - seg_first si"
    using N lt by (simp add: unat_sub word_le_nat_alt unat_of_nat_u64)
  have cap: "unat (GetSegmentCapacity si) = 2 ^ seg_height si"
    by (simp add: GetSegmentCapacity_eq [OF h] unat_pow [OF h])
  have "GetSegmentCapacity si \<le> of_nat N - GetLeafOffset si" using full by (simp add: word_le_nat_alt cap un)
  then show size: "GetSegmentUnprunedSize (of_nat (mmr_pos N 0)) si = GetSegmentCapacity si"
    using seg_order [OF h N lt] by (simp add: GetSegmentUnprunedSize_def Segment_CountLeaves_eq [OF N] Let_def)
  have ne: "GetSegmentCapacity si \<noteq> 0" using cap by force
  have sum: "unat (GetLeafOffset si + GetSegmentCapacity si) = seg_first si + 2 ^ seg_height si"
    using full N by (subst unat_add_lem [THEN iffD1]) (simp_all add: cap)
  then have "GetLeafOffset si + GetSegmentCapacity si \<noteq> 0" using pow by force
  then have "unat (GetLeafOffset si + GetSegmentCapacity si - 1) = seg_first si + 2 ^ seg_height si - 1"
    using sum by (simp add: unat_minus_one)
  then show "GetPositionRange (of_nat (mmr_pos N 0)) si =
      (of_nat (mmr_pos (seg_first si) 0), of_nat (mmr_pos (seg_first si + 2 ^ seg_height si - 1) (seg_height si)))"
    using ne mmr_pos_height [of _ "seg_height si"]
    by (simp add: GetPositionRange_def size LeafIndex_At_position Let_def)
qed

lemma partial_range:
  assumes h: "seg_height si < 64" and N: "N < 2 ^ 50" and lt: "seg_first si < N"
    and partial: "N < seg_first si + 2 ^ seg_height si"
  shows "GetSegmentUnprunedSize (of_nat (mmr_pos N 0)) si \<noteq> GetSegmentCapacity si"
    and "GetPositionRange (of_nat (mmr_pos N 0)) si = (of_nat (mmr_pos (seg_first si) 0), of_nat (mmr_pos N 0 - 1))"
    and "seg_first si = N div 2 ^ seg_height si * 2 ^ seg_height si"
proof -
  have un: "unat (of_nat N - GetLeafOffset si) = N - seg_first si"
    using N lt by (simp add: unat_sub word_le_nat_alt unat_of_nat_u64)
  have cap: "unat (GetSegmentCapacity si) = 2 ^ seg_height si"
    by (simp add: GetSegmentCapacity_eq [OF h] unat_pow [OF h])
  have less: "of_nat N - GetLeafOffset si < GetSegmentCapacity si"
    using partial lt by (simp add: word_less_nat_alt cap un)
  then have size: "GetSegmentUnprunedSize (of_nat (mmr_pos N 0)) si = of_nat N - GetLeafOffset si"
    using seg_order [OF h N lt] by (simp add: GetSegmentUnprunedSize_def Segment_CountLeaves_eq [OF N] Let_def)
  show ne: "GetSegmentUnprunedSize (of_nat (mmr_pos N 0)) si \<noteq> GetSegmentCapacity si" using less size by simp
  have "of_nat N - GetLeafOffset si \<noteq> 0" using un lt by force
  moreover have "mmr_pos 0 0 < mmr_pos N 0" using lt by (intro leaf_pos_mono) simp
  then have "of_nat (mmr_pos N 0) - 1 = (of_nat (mmr_pos N 0 - 1) :: u64)" by (simp add: of_nat_diff)
  ultimately show "GetPositionRange (of_nat (mmr_pos N 0)) si =
      (of_nat (mmr_pos (seg_first si) 0), of_nat (mmr_pos N 0 - 1))"
    using ne unfolding GetPositionRange_def Let_def LeafIndex_At_position size by simp
  obtain q where q: "seg_first si = 2 ^ seg_height si * q" using seg_first_dvd [OF h] by blast
  have "N div 2 ^ seg_height si = q" by (rule div_nat_eqI) (use q lt partial in \<open>simp_all add: mult.commute\<close>)
  then show "seg_first si = N div 2 ^ seg_height si * 2 ^ seg_height si" using q by simp
qed

section \<open>The root of a segment\<close>

definition well_shaped :: "'a Segment \<Rightarrow> bool" where
  "well_shaped sg \<longleftrightarrow> length (sg_hash_pos sg) = length (sg_hashes sg) \<and> length (sg_leaf_pos sg) = length (sg_leaves sg)"

lemma low_leaves: "(\<Union>(m, k) \<in> set (peak_nodes h n). {Suc m - 2 ^ k..m}) = {n div 2 ^ h * 2 ^ h..<n}"
proof (induction h)
  case (Suc h)
  show ?case
  proof (cases "odd (n div 2 ^ h)")
    case True
    let ?f = "n div 2 ^ h * 2 ^ h" and ?g = "n div 2 ^ Suc h * 2 ^ Suc h"
    note step = low_step [OF True]
    have "peak_nodes (Suc h) n = (?f - 1, h) # peak_nodes h n" using True by (simp add: peak_nodes_Suc)
    moreover have "{Suc (?f - 1) - 2 ^ h..?f - 1} = {?g..<?f}" 
      unfolding step(4) step(1) using step(4) by (auto simp: atLeastLessThanSuc_atLeastAtMost [symmetric] step(1) simp del: power_Suc)
    moreover have "{?g..<?f} \<union> {?f..<n} = {?g..<n}" 
      by (intro ivl_disj_un_two(3)) (use floor_mono [of h "Suc h" n] in simp_all)
    ultimately show ?thesis using Suc.IH by simp
  next
    case False
    then have "n div 2 ^ Suc h * 2 ^ Suc h = n div 2 ^ h * 2 ^ h"
      by (simp add: power_Suc2 div_mult2_eq mult.assoc [symmetric] del: power_Suc)
    then show ?thesis using Suc.IH False by (simp add: peak_nodes_Suc del: power_Suc)
  qed
qed (simp add: peak_nodes_def)

lemma Segment_Root_full:
  assumes h: "seg_height (sg_id sg) < 64" and N: "N < 2 ^ 50"
    and full: "seg_first (sg_id sg) + 2 ^ seg_height (sg_id sg) \<le> N"
    and m: "m = seg_first (sg_id sg) + 2 ^ seg_height (sg_id sg) - 1"
  shows "Segment_Root B ser (of_nat (mmr_pos N 0)) None sg =
    (if well_shaped sg \<and> leaves_provided sg {seg_first (sg_id sg)..m}
     then Some (node_hash B (segment_list ser sg N) m (seg_height (sg_id sg))) else None)"
proof -
  let ?h = "seg_height (sg_id sg)" and ?o = "seg_first (sg_id sg)"
  have pow: "0 < (2::nat) ^ ?h" by simp
  have S: "Suc m = ?o + 2 ^ ?h" "Suc m - 2 ^ ?h = ?o" "m < N" using m full pow by linarith+
  have node: "is_node m ?h" unfolding is_node_def S(1) using seg_first_dvd [OF h] by simp
  have small: "mmr_pos m ?h < 2 ^ 52" using S(3) N node_height_small [OF node] by (intro mmr_pos_small) simp_all
  have le: "mmr_pos ?o 0 \<le> mmr_pos m ?h" using S(1) pow by (intro leaf_pos_le) linarith
  have un: "unat (of_nat (mmr_pos m ?h) :: u64) = mmr_pos m ?h" "unat (of_nat (mmr_pos ?o 0) :: u64) = mmr_pos ?o 0"
    using small le by (simp_all add: unat_of_nat_u64)
  have "\<not> (of_nat (mmr_pos m ?h) :: u64) < of_nat (mmr_pos ?o 0)" using le by (simp add: word_less_nat_alt un)
  moreover have "0 < mmr_pos N 0" using S(3) node_pos_less_iff [OF node, of N] by simp
  then have "(of_nat (mmr_pos N 0) :: u64) \<noteq> 0" using unat_leaf_pos [OF order_refl N] by force
  moreover have "segment_hashes B ser (of_nat (mmr_pos N 0)) None sg (map of_nat [mmr_pos ?o 0..<Suc (mmr_pos m ?h)]) [] =
      (if leaves_provided sg {?o..m} then Some [Some (node_hash B (segment_list ser sg N) m ?h)] else None)"
    using segment_subtree [OF node S(3) N, of B ser _ sg "[]"] S(2) by (simp add: subtree_positions_def)
  ultimately show ?thesis
    unfolding Segment_Root_def full_range [OF h N full] m [symmetric] Let_def fst_conv snd_conv un well_shaped_def
    by auto
qed

lemma Segment_Root_partial:
  assumes h: "seg_height (sg_id sg) < 64" and N: "N < 2 ^ 50" and lt: "seg_first (sg_id sg) < N"
    and partial: "N < seg_first (sg_id sg) + 2 ^ seg_height (sg_id sg)"
  shows "Segment_Root B ser (of_nat (mmr_pos N 0)) None sg =
    (if well_shaped sg \<and> leaves_provided sg {seg_first (sg_id sg)..<N}
     then Some (bag_right B (of_nat (mmr_pos N 0))
       (peak_hashes B (segment_list ser sg N) (peak_nodes (seg_height (sg_id sg)) N))) else None)"
proof -
  let ?h = "seg_height (sg_id sg)" and ?o = "seg_first (sg_id sg)" and ?size = "of_nat (mmr_pos N 0) :: u64"
  let ?rng = "(of_nat (mmr_pos ?o 0) :: u64, of_nat (mmr_pos N 0 - 1) :: u64)"
  note range = partial_range [OF h N lt partial]
  have fl: "N div 2 ^ ?h * 2 ^ ?h < N" using lt range(3) by simp
  note ne = low_nonempty [OF fl]
  obtain high where split: "peaks N = high @ peak_nodes ?h N" and high: "\<forall>y \<in> set high. fst y < ?o"
    and low: "\<forall>y \<in> set (peak_nodes ?h N). ?o \<le> fst y"
    using high_low [of N ?h] range(3) by metis
  have lt': "mmr_pos ?o 0 < mmr_pos N 0" by (rule leaf_pos_mono [OF lt])
  have small: "mmr_pos N 0 < 2 ^ 52" using N by (intro mmr_pos_small) simp_all
  have "mmr_pos N 0 - 1 < 2 ^ 64" "mmr_pos ?o 0 < 2 ^ 64" using small lt' by simp_all
  note un = this [THEN unat_of_nat_u64]
  have nw: "\<not> (of_nat (mmr_pos N 0 - 1) :: u64) < of_nat (mmr_pos ?o 0)" 
    unfolding word_less_nat_alt un using lt' by simp
  have nz: "?size \<noteq> 0" using unat_leaf_pos [OF order_refl N] lt' by force
  have "Suc (mmr_pos N 0 - 1) = mmr_pos N 0" using lt' by simp
  then have hashes: "segment_hashes B ser ?size None sg (map of_nat [mmr_pos ?o 0..<Suc (mmr_pos N 0 - 1)]) [] =
      (if leaves_provided sg {?o..<N}
       then Some (map Some (rev (peak_hashes B (segment_list ser sg N) (peak_nodes ?h N))) @ []) else None)"
    using segment_low_peaks [of "peak_nodes ?h N" N B ser ?size sg "[]"] N peak_node [of _ _ ?h N]
    unfolding low_positions low_leaves range(3) [symmetric] by simp
  have peaks: "rev (GetPeakIndices ?size) = rev (map pos_word (peak_nodes ?h N)) @ rev (map pos_word high)"
    by (simp add: GetPeakIndices_range [OF N] split)
  have in_range: "fst ?rng \<le> p \<and> p \<le> snd ?rng" if "p \<in> set (rev (map pos_word (peak_nodes ?h N)))" for p
  proof -
    from that obtain y where y: "y \<in> set (peak_nodes ?h N)" "p = pos_word y" by auto
    then have mem: "y \<in> set (peaks N)" by (simp add: split)
    have node: "is_node (fst y) (snd y)" "fst y < N" using peak_is_node [OF mem] by auto
    have "unat p \<le> mmr_pos N 0 - 1"
      using node_pos_less_iff [OF node(1), of N] node(2) unat_pos_word [OF node N] y(2) by simp
    then have "p \<le> snd ?rng" unfolding snd_conv word_le_nat_alt un .
    moreover have "fst ?rng \<le> p" using peaks_left_of [OF mem N, of ?o] lt low y by simp
    ultimately show ?thesis by blast
  qed
  have below: "p < fst ?rng" if p: "p \<in> set (rev (map pos_word high))" for p
  proof -
    from p have "p \<in> pos_word ` set high" by simp
    then obtain y where y: "y \<in> set high" "p = pos_word y" by blast
    then have "y \<in> set (peaks N)" by (simp add: split)
    from peaks_left_of [OF this N, of ?o] have "\<not> of_nat (mmr_pos ?o 0) \<le> p" using lt high y by auto
    then show ?thesis by (simp add: not_le)
  qed
  let ?PH = "peak_hashes B (segment_list ser sg N) (peak_nodes ?h N)"
  have root: "segment_peaks B ?size None sg ?rng (rev (map pos_word (peak_nodes ?h N)) @ rev (map pos_word high))
      (map Some (rev ?PH) @ []) None = Some (bag_right B ?size ?PH)"
    using segment_peaks_append [of "rev (map pos_word (peak_nodes ?h N))" ?rng ?PH None B ?size sg
        "rev (map pos_word high)" "[]"] in_range ne(1)
      segment_peaks_skip [of "rev (map pos_word high)" ?rng B ?size None sg "[]" "Some (bag_right B ?size ?PH)"] below
    by simp
  show ?thesis
    unfolding Segment_Root_def range(2) Let_def fst_conv snd_conv un well_shaped_def hashes peaks
    using nw nz range(1) root by simp
qed

section \<open>Soundness\<close>

lemma partial_reconstruct_sound:
  assumes spf: "second_preimage_free B leaves" and ok: "hash_ok B leaves" and N: "length leaves < 2 ^ 50"
    and o': "length leaves div 2 ^ h * 2 ^ h < length leaves"
    and gs: "list_all (\<lambda>g. length g = 32) gs" "length gs = length (peak_nodes h (length leaves))"
    and hs: "list_all (\<lambda>g. length g = 32) hs"
    and rec: "ReconstructRoot B (range_size leaves) (of_nat (mmr_pos (length leaves div 2 ^ h * 2 ^ h) 0))
      (of_nat (mmr_pos (length leaves) 0 - 1)) (bag_right B (range_size leaves) gs) u hs = Some (Some (mmr_root B leaves))"
  shows "gs = peak_hashes B leaves (peak_nodes h (length leaves))"
proof -
  let ?N = "length leaves" and ?H = "peak_hashes B leaves"
  have len: "\<forall>x. length (B x) = 32" using ok by (simp add: hash_ok_def)
  obtain high where split: "peaks ?N = high @ peak_nodes h ?N"
    and high: "\<forall>y \<in> set high. fst y < ?N div 2 ^ h * 2 ^ h"
    and low: "\<forall>y \<in> set (peak_nodes h ?N). ?N div 2 ^ h * 2 ^ h \<le> fst y"
    by (rule high_low)
  have peaks: "?H (peaks ?N) = [] @ ?H high @ ?H (peak_nodes h ?N)" by (simp add: split)
  have "length hs = length high"
    and "foldr (\<lambda>h r. HashParentWithIndex B h r (range_size leaves)) (rev hs) (bag_right B (range_size leaves) gs) =
      mmr_root B leaves"
    using rec unfolding ReconstructRoot_partial [OF N o' split high low] by (simp_all split: if_splits)
  then have "bag_right B (range_size leaves) gs = bag_right B (range_size leaves) (?H (peak_nodes h ?N))"
    using fold_left_unique [OF spf len _ peaks, of "rev hs"] low_nonempty(1) [OF o'] mmr_root_bag [OF ok] peaks hs
    by (simp add: list_all_iff)
  then show ?thesis using bag_right_unique [OF spf len, of "?H high" "?H (peak_nodes h ?N)" gs] peaks gs by simp
qed

lemma segment_list_nth: "j < n \<Longrightarrow> segment_leaf_at sg j \<noteq> None \<Longrightarrow>
  \<exists>leaf. segment_leaf_at sg j = Some leaf \<and> segment_list ser sg n ! j = ser leaf"
  by (auto simp: segment_list_def)

lemma length_HashParent: "\<forall>x. length (B x) = 32 \<Longrightarrow> length (HashParentWithIndex B l r p) = 32"
  by (simp add: HashParentWithIndex_def)

lemma length_reconstruct_branch:
  assumes "\<forall>x. length (B x) = 32"
  shows "reconstruct_branch B u br r hs = Some (t, hs') \<Longrightarrow> length r = 32 \<Longrightarrow> length t = 32"
  by (induction br arbitrary: r hs) (auto simp: length_HashParent assms split: list.splits if_splits)

lemma length_reconstruct_left:
  assumes "\<forall>x. length (B x) = 32"
  shows "reconstruct_left B n u ps r hs = Some (t, hs') \<Longrightarrow> length r = 32 \<Longrightarrow> length t = 32"
  by (induction ps arbitrary: r hs) (auto simp: length_HashParent assms split: list.splits if_splits)

lemma length_ReconstructRoot:
  assumes len: "\<forall>x. length (B x) = 32" and r: "length r = 32"
    and rec: "ReconstructRoot B n first' last' r u hs = Some (Some root)"
  shows "length root = 32"
proof -
  obtain br a as b bs where steps: "reconstruct_branch B u br r hs = Some (a, as)"
    "reconstruct_right B n (branch_peak last' br) (GetPeakIndices n) a as = Some (b, bs)"
    "reconstruct_left B n first' (rev (GetPeakIndices n)) b bs = Some (root, [])"
    using rec by (auto simp: ReconstructRoot_def Let_def bind_eq_Some_conv split: if_splits)
  have "length a = 32" by (rule length_reconstruct_branch [OF len steps(1) r])
  then have "length b = 32"
    using steps(2) by (auto simp: reconstruct_right_def length_HashParent [OF len] split: if_splits list.splits)
  then show ?thesis by (rule length_reconstruct_left [OF len steps(3)])
qed

lemma length_bag_right:
  assumes "\<forall>x. length (B x) = 32"
  shows "hs \<noteq> [] \<Longrightarrow> list_all (\<lambda>g. length g = 32) hs \<Longrightarrow> length (bag_right B n hs) = 32"
proof (induction hs)
  case (Cons h hs)
  then show ?case by (cases hs) (simp_all add: length_HashParent [OF assms])
qed simp

lemma peaks_nonempty: "0 < N \<Longrightarrow> peaks N \<noteq> []"
proof -
  assume "0 < N"
  then have "\<exists>A C. peaks N = A @ path_top (0, 0) (mmr_pos N 0) # C"
    using top_split [of 0 0 N] by (metis is_node_def one_dvd power_0)
  then show ?thesis by auto
qed

lemma length_mmr_root:
  assumes ok: "hash_ok B leaves" and ne: "leaves \<noteq> []"
  shows "length (mmr_root B leaves) = 32"
proof -
  have len: "\<forall>x. length (B x) = 32" using ok by (simp add: hash_ok_def)
  have "list_all (\<lambda>g. length g = 32) (peak_hashes B leaves (peaks (length leaves)))"
    using length_hash [of B leaves] len by (auto simp: list_all_iff)
  then show ?thesis
    unfolding mmr_root_bag [OF ok] using length_bag_right [OF len] peaks_nonempty [of "length leaves"] ne by simp
qed

lemma Segment_Validate_None:
  assumes ok: "hash_ok B leaves" and ne: "leaves \<noteq> []"
    and r: "Segment_Root B ser size' None sg = Some r" "length r = 32"
    and rng: "GetPositionRange size' (sg_id sg) = (first', last')"
  shows "Segment_Validate B ser size' (mmr_root B leaves) None sg = Some True \<longleftrightarrow>
    ReconstructRoot B size' first' last' r (last' + 1) (sg_proof sg) = Some (Some (mmr_root B leaves))"
proof -
  have len: "\<forall>x. length (B x) = 32" using ok by (simp add: hash_ok_def)
  have "BigInteger_equal root (mmr_root B leaves) \<longleftrightarrow> root = mmr_root B leaves"
    if "ReconstructRoot B size' first' last' r (last' + 1) (sg_proof sg) = Some (Some root)" for root
    using length_ReconstructRoot [OF len r(2) that] length_mmr_root [OF ok ne] by (intro BigInteger_equal_iff) simp
  then show ?thesis
    using r rng by (auto simp: Segment_Validate_def FirstUnprunedParent_def SegmentProof_Validate_def Let_def
        split: option.splits)
qed

lemma Segment_Validate_root:
  assumes "Segment_Validate B ser size' root None sg = Some True"
  obtains r where "Segment_Root B ser size' None sg = Some r"
  using assms by (auto simp: Segment_Validate_def FirstUnprunedParent_def Let_def split: option.splits)

lemma segment_sound_full:
  assumes spf: "second_preimage_free B leaves" and ok: "hash_ok B leaves" and N: "length leaves < 2 ^ 50"
    and h: "seg_height (sg_id sg) < 64" and hs: "list_all (\<lambda>g. length g = 32) (sg_proof sg)"
    and valid: "Segment_Validate B ser (range_size leaves) (mmr_root B leaves) None sg = Some True"
    and full: "seg_first (sg_id sg) + 2 ^ seg_height (sg_id sg) \<le> length leaves"
    and j: "seg_first (sg_id sg) \<le> j" "j < seg_first (sg_id sg) + 2 ^ seg_height (sg_id sg)"
  shows "segment_leaf_at sg j \<noteq> None \<and> segment_list ser sg (length leaves) ! j = leaves ! j"
proof -
  let ?N = "length leaves" and ?o = "seg_first (sg_id sg)" and ?h = "seg_height (sg_id sg)"
  let ?L = "segment_list ser sg (length leaves)" and ?m = "seg_first (sg_id sg) + 2 ^ seg_height (sg_id sg) - 1"
  have len: "\<forall>x. length (B x) = 32" using ok by (simp add: hash_ok_def)
  have "0 < (2::nat) ^ ?h" by simp
  then have m: "Suc ?m = ?o + 2 ^ ?h" "Suc ?m - 2 ^ ?h = ?o" "?m < ?N" using full by linarith+
  have ne: "leaves \<noteq> []" using m(3) by auto
  obtain r where r: "Segment_Root B ser (range_size leaves) None sg = Some r"
    using Segment_Validate_root [OF valid] .
  have node: "is_node ?m ?h" unfolding is_node_def m(1) using seg_first_dvd [OF h] by simp
  note range = full_range(2) [OF h N full]
  have prov: "leaves_provided sg {?o..?m}" and r': "r = node_hash B ?L ?m ?h"
    using r unfolding Segment_Root_full [OF h N full refl] by (simp_all split: if_splits)
  have rlen: "length r = 32" using r' length_hash len by simp
  have "mmr_pos ?m ?h < 2 ^ 52" using m(3) N node_height_small [OF node] by (intro mmr_pos_small) simp_all
  then have u: "unat (of_nat (mmr_pos ?m ?h) + 1 :: u64) \<le> Suc (mmr_pos ?m ?h)"
    using unat_of_nat_u64 [of "Suc (mmr_pos ?m ?h)"] by (simp add: add.commute)
  have "r = node_hash B leaves ?m ?h"
    by (rule full_reconstruct_sound [OF spf ok N node m(3) u rlen hs])
       (use valid [unfolded Segment_Validate_None [OF ok ne r rlen range]] in \<open>unfold m(2)\<close>)
  then have "\<forall>j \<in> {Suc ?m - 2 ^ ?h..?m}. ?L ! j = leaves ! j"
    by (rule node_hash_unique [OF spf len node m(3) trans [OF r' [symmetric]]])
  then show ?thesis using j m(1,2) prov by (simp add: less_Suc_eq_le leaves_provided_def)
qed

lemma segment_sound_partial:
  assumes spf: "second_preimage_free B leaves" and ok: "hash_ok B leaves" and N: "length leaves < 2 ^ 50"
    and h: "seg_height (sg_id sg) < 64" and hs: "list_all (\<lambda>g. length g = 32) (sg_proof sg)"
    and valid: "Segment_Validate B ser (range_size leaves) (mmr_root B leaves) None sg = Some True"
    and lt: "seg_first (sg_id sg) < length leaves" "length leaves < seg_first (sg_id sg) + 2 ^ seg_height (sg_id sg)"
    and j: "seg_first (sg_id sg) \<le> j" "j < length leaves"
  shows "segment_leaf_at sg j \<noteq> None \<and> segment_list ser sg (length leaves) ! j = leaves ! j"
proof -
  let ?N = "length leaves" and ?o = "seg_first (sg_id sg)" and ?h = "seg_height (sg_id sg)"
  let ?L = "segment_list ser sg (length leaves)"
  let ?low = "peak_nodes ?h ?N"
  have len: "\<forall>x. length (B x) = 32" using ok by (simp add: hash_ok_def)
  have ne: "leaves \<noteq> []" using lt(1) by auto
  obtain r where r: "Segment_Root B ser (range_size leaves) None sg = Some r"
    using Segment_Validate_root [OF valid] .
  note range = partial_range [OF h N lt]
  have prov: "leaves_provided sg {?o..<?N}" and r': "r = bag_right B (range_size leaves) (peak_hashes B ?L ?low)"
    using r unfolding Segment_Root_partial [OF h N lt] by (simp_all split: if_splits)
  have all: "list_all (\<lambda>g. length g = 32) (peak_hashes B ?L ?low)"
    using length_hash len by (auto simp: list_all_iff)
  have fl: "?N div 2 ^ ?h * 2 ^ ?h < ?N" using lt(1) range(3) by simp
  have "length r = 32" using r' length_bag_right [OF len _ all] low_nonempty(1) [OF fl] by simp
  from valid [unfolded Segment_Validate_None [OF ok ne r this range(2)]]
  have "ReconstructRoot B (range_size leaves) (of_nat (mmr_pos (?N div 2 ^ ?h * 2 ^ ?h) 0))
      (of_nat (mmr_pos ?N 0 - 1)) (bag_right B (range_size leaves) (peak_hashes B ?L ?low))
      (of_nat (mmr_pos ?N 0 - 1) + 1) (sg_proof sg) = Some (Some (mmr_root B leaves))"
    unfolding r' range(3) .
  from partial_reconstruct_sound [OF spf ok N fl all _ hs this]
  have eq: "peak_hashes B ?L ?low = peak_hashes B leaves ?low" by simp
  have "j \<in> (\<Union>(m, k) \<in> set ?low. {Suc m - 2 ^ k..m})" unfolding low_leaves range(3) [symmetric] using j by simp
  then obtain m k where mk: "(m, k) \<in> set ?low" "j \<in> {Suc m - 2 ^ k..m}" by blast
  then have "node_hash B ?L m k = node_hash B leaves m k" using eq by (auto simp: map_eq_conv)
  then have "?L ! j = leaves ! j" using node_hash_unique [OF spf len] peak_node [of m k ?h ?N] mk by blast
  then show ?thesis using prov j by (simp add: leaves_provided_def)
qed

text \<open>
  C7. A segment that validates against the root of a range, without a bitmap, holds the leaves of the range: for
  every leaf number of the segment's interval the segment provides a leaf, and its serialization is the one
  in the range.
\<close>

theorem segment_sound:
  assumes "second_preimage_free B leaves" "hash_ok B leaves" "length leaves < 2 ^ 50"
    and "seg_height (sg_id sg) < 64" "list_all (\<lambda>g. length g = 32) (sg_proof sg)"
    and "Segment_Validate B ser (range_size leaves) (mmr_root B leaves) None sg = Some True"
    and j: "seg_first (sg_id sg) \<le> j" "j < seg_first (sg_id sg) + 2 ^ seg_height (sg_id sg)" "j < length leaves"
  shows "\<exists>leaf. segment_leaf_at sg j = Some leaf \<and> ser leaf = leaves ! j"
proof -
  have "segment_leaf_at sg j \<noteq> None \<and> segment_list ser sg (length leaves) ! j = leaves ! j"
    using segment_sound_full [OF assms(1-6) _ j(1,2)] segment_sound_partial [OF assms(1-6) _ _ j(1,3)] j by linarith
  then show ?thesis using segment_list_nth [OF j(3)] by metis
qed

text \<open>
  A range of two leaves under a hash function that separates its three hash inputs, and the segment of its second
  leaf.
\<close>

definition pair_hash :: "bytes \<Rightarrow> bytes" where
  "pair_hash x =
     (if x = AppendU64 0 @ [7] then replicate 32 1
      else if x = AppendU64 1 @ [9] then replicate 32 2
      else if x = AppendU64 2 @ replicate 32 1 @ replicate 32 2 then replicate 32 3
      else replicate 32 4)"

definition pair_segment :: "bytes Segment" where
  "pair_segment = \<lparr>sg_id = \<lparr>si_height = 0, si_index = 1\<rparr>, sg_hash_pos = [], sg_hashes = [], sg_leaf_pos = [1],
     sg_leaves = [[9]], sg_proof = [replicate 32 1]\<rparr>"

declare family_branch_loop.simps [code]

lemma pair_validates: "Segment_Validate pair_hash id 3 (replicate 32 3) None pair_segment = Some True"
  by code_simp

lemma pair_root: "mmr_root pair_hash [[7], [9]] = replicate 32 3"
  by code_simp

lemma pair_inputs:
  "range_inputs pair_hash [[7], [9]] =
    {AppendU64 0 @ [7], AppendU64 1 @ [9], AppendU64 2 @ replicate 32 1 @ replicate 32 2}"
proof -
  have leaf: "leaf_input [[7], [9]] 0 = AppendU64 0 @ [7]" "leaf_input [[7], [9]] 1 = AppendU64 1 @ [9]" by code_simp+
  have node: "node_input pair_hash [[7], [9]] 1 0 = AppendU64 2 @ replicate 32 1 @ replicate 32 2" by code_simp
  have "is_node n (Suc h) \<and> n < 2 \<longleftrightarrow> n = 1 \<and> h = 0" for n h
  proof
    assume n: "is_node n (Suc h) \<and> n < 2"
    then have "2 ^ Suc h \<le> Suc n" unfolding is_node_def by (intro dvd_imp_le) simp_all
    then have "2 ^ h \<le> (1::nat)" using n by simp
    then have "h = 0" using one_less_power [of "2::nat" h] by (cases h) simp_all
    then show "n = 1 \<and> h = 0" using n by (cases n) (auto simp: is_node_def)
  qed (simp add: is_node_def)
  moreover have "length [[7], [9 :: u8]] = 2" by simp
  ultimately have nodes: "{node_input pair_hash [[7], [9]] n h | n h. is_node n (Suc h) \<and> n < length [[7], [9 :: u8]]} =
      {node_input pair_hash [[7], [9]] 1 0}"
    by (simp only:) blast
  have "length (peak_hashes pair_hash [[7], [9]] (peaks 2)) = 1" by code_simp
  then have bag: "{bag_input pair_hash (range_size [[7], [9 :: u8]]) h hs | h hs ls.
      hs \<noteq> [] \<and> peak_hashes pair_hash [[7], [9]] (peaks (length [[7], [9 :: u8]])) = ls @ h # hs} = {}"
    by (auto simp: numeral_2_eq_2 dest: arg_cong [of _ _ length])
  have "{..<length [[7], [9 :: u8]]} = {0, 1}" by auto
  then show ?thesis unfolding range_inputs_def nodes bag using leaf node by auto
qed

lemma pair_separates:
  "pair_hash y = replicate 32 1 \<longleftrightarrow> y = AppendU64 0 @ [7]"
  "pair_hash y = replicate 32 2 \<longleftrightarrow> y = AppendU64 1 @ [9]"
  "pair_hash y = replicate 32 3 \<longleftrightarrow> y = AppendU64 2 @ replicate 32 1 @ replicate 32 2"
proof -
  have neq: "AppendU64 0 @ [7] \<noteq> AppendU64 1 @ [9 :: u8]"
    "AppendU64 0 @ [7] \<noteq> AppendU64 2 @ replicate 32 1 @ replicate 32 2"
    "AppendU64 1 @ [9] \<noteq> AppendU64 2 @ replicate 32 1 @ replicate 32 2"
    by code_simp+
  have rep: "replicate 32 a = replicate 32 b \<longleftrightarrow> a = b" for a b :: u8 by (simp add: replicate_eq_replicate)
  show "pair_hash y = replicate 32 1 \<longleftrightarrow> y = AppendU64 0 @ [7]"
    "pair_hash y = replicate 32 2 \<longleftrightarrow> y = AppendU64 1 @ [9]"
    "pair_hash y = replicate 32 3 \<longleftrightarrow> y = AppendU64 2 @ replicate 32 1 @ replicate 32 2"
    unfolding pair_hash_def if_distrib [of "\<lambda>x. x = _"] rep using neq by auto
qed

lemma pair_second_preimage: "second_preimage_free pair_hash [[7], [9]]"
  unfolding second_preimage_free_def pair_inputs
proof (intro ballI allI impI)
  fix x y assume x: "x \<in> {AppendU64 0 @ [7], AppendU64 1 @ [9], AppendU64 2 @ replicate 32 1 @ replicate 32 2}"
    and eq: "pair_hash y = pair_hash x"
  from x consider "pair_hash x = replicate 32 1" | "pair_hash x = replicate 32 2" | "pair_hash x = replicate 32 3"
    unfolding pair_separates by blast
  then show "y = x"
  proof cases
    case 1
    with eq have "pair_hash y = replicate 32 1" by (rule trans)
    with 1 show ?thesis unfolding pair_separates by (simp only:)
  next
    case 2
    with eq have "pair_hash y = replicate 32 2" by (rule trans)
    with 2 show ?thesis unfolding pair_separates by (simp only:)
  next
    case 3
    with eq have "pair_hash y = replicate 32 3" by (rule trans)
    with 3 show ?thesis unfolding pair_separates by (simp only:)
  qed
qed

lemma pair_hash_ok: "hash_ok pair_hash [[7], [9]]"
proof -
  have "\<not> BigInteger_equal (replicate 32 b) ZERO_HASH" if "b \<noteq> 0" for b
    using that by (simp add: ZERO_HASH_def BigInteger_ValueOf_def numeral_eq_Suc)
  then show ?thesis by (simp add: hash_ok_def pair_hash_def)
qed

theorem segment_sound_witness:
  "\<exists>leaf. segment_leaf_at pair_segment 1 = Some leaf \<and> id leaf = [[7], [9]] ! 1"
proof (rule segment_sound [OF pair_second_preimage pair_hash_ok])
  have "range_size [[7], [9 :: u8]] = 3" by code_simp
  then show "Segment_Validate pair_hash id (range_size [[7], [9]]) (mmr_root pair_hash [[7], [9]]) None pair_segment =
      Some True"
    using pair_validates pair_root by simp
  show "list_all (\<lambda>g. length g = 32) (sg_proof pair_segment)" by (simp add: pair_segment_def)
qed (simp_all add: pair_segment_def GetLeafOffset_def GetSegmentCapacity_def)

end
