(* ===== verification/BitmapSegment.thy ===== *)
theory BitmapSegment
  imports Segments
begin

text \<open>
  \<^verbatim>\<open>include/PMMR/Common/BitmapSegment.h\<close>: segments of the bitmap of unspent outputs, whose chunks are sent in
  blocks of up to 64 that are written either raw or as the positions of the set or of the unset bits, whichever
  is shorter. Shown: a segment of the bitmap survives being packed into blocks, written, read and unpacked.
\<close>

section \<open>Blocks\<close>

datatype ESerializationMode = Raw | SetPositions | UnsetPositions

record BitmapSegmentBlock =
  bl_chunkCount :: u8
  bl_mode :: ESerializationMode
  bl_positions :: "u16 list"
  bl_bitmapBytes :: bytes

definition block_threshold :: nat where
  "block_threshold = 2 ^ 16 div 16"

definition block_bit :: "BitmapChunk list \<Rightarrow> nat \<Rightarrow> bool" where
  "block_bit chunks bitIdx =
     Chunk_IsSet (of_nat bitIdx mod LEN_BITS) (chunks ! (bitIdx div unat LEN_BITS))"

definition collect_position ::
  "BitmapChunk list \<Rightarrow> nat \<Rightarrow> u16 list \<times> u16 list \<Rightarrow> u16 list \<times> u16 list" where
  "collect_position chunks bitIdx st =
     (let (setPositions, unsetPositions) = st; set' = block_bit chunks bitIdx
      in if set' \<and> length setPositions < block_threshold then (setPositions @ [of_nat bitIdx], unsetPositions)
         else if \<not> set' \<and> length unsetPositions < block_threshold
         then (setPositions, unsetPositions @ [of_nat bitIdx])
         else (setPositions, unsetPositions))"

definition FromChunks :: "BitmapChunk list \<Rightarrow> BitmapSegmentBlock" where
  "FromChunks chunks =
     (let chunkCount = of_nat (length chunks);
          nBits = length chunks * unat LEN_BITS;
          (setPositions, unsetPositions) = fold (collect_position chunks) [0..<nBits] ([], [])
      in if length setPositions < block_threshold
         then \<lparr>bl_chunkCount = chunkCount, bl_mode = SetPositions, bl_positions = setPositions, bl_bitmapBytes = []\<rparr>
         else if length unsetPositions < block_threshold
         then \<lparr>bl_chunkCount = chunkCount, bl_mode = UnsetPositions, bl_positions = unsetPositions, bl_bitmapBytes = []\<rparr>
         else \<lparr>bl_chunkCount = chunkCount, bl_mode = Raw, bl_positions = [], bl_bitmapBytes = concat chunks\<rparr>)"

fun apply_positions :: "bool \<Rightarrow> u16 list \<Rightarrow> BitmapChunk list \<Rightarrow> BitmapChunk list result" where
  "apply_positions val [] chunks = Inr chunks"
| "apply_positions val (position # positions) chunks =
     (if length chunks * unat LEN_BITS \<le> unat position then Inl DeserializationException
      else
        let i = unat position div unat LEN_BITS
        in apply_positions val positions
             (chunks[i := Chunk_Set (ucast position mod LEN_BITS) val (chunks ! i)]))"

definition full_chunk :: "BitmapChunk \<Rightarrow> BitmapChunk" where
  "full_chunk = fold (\<lambda>bitIdx. Chunk_Set (of_nat bitIdx) True) [0..<unat LEN_BITS]"

definition ToChunks :: "BitmapSegmentBlock \<Rightarrow> BitmapChunk list result" where
  "ToChunks block =
     (let chunkCount = unat (bl_chunkCount block);
          chunks = replicate chunkCount BitmapChunk_New
      in case bl_mode block of
           Raw \<Rightarrow>
             if length (bl_bitmapBytes block) \<noteq> chunkCount * LEN_BYTES then Inl DeserializationException
             else Inr (map (\<lambda>chunkIdx. take LEN_BYTES (drop (chunkIdx * LEN_BYTES) (bl_bitmapBytes block)))
                         [0..<chunkCount])
         | SetPositions \<Rightarrow> apply_positions True (bl_positions block) chunks
         | UnsetPositions \<Rightarrow> apply_positions False (bl_positions block) (map full_chunk chunks))"

fun mode_value :: "ESerializationMode \<Rightarrow> u8" where
  "mode_value Raw = 0"
| "mode_value SetPositions = 1"
| "mode_value UnsetPositions = 2"

definition Block_Serialize :: "BitmapSegmentBlock \<Rightarrow> bytes" where
  "Block_Serialize block =
     AppendU8 (bl_chunkCount block) @ AppendU8 (mode_value (bl_mode block)) @
     (case bl_mode block of
        Raw \<Rightarrow> AppendByteVector (bl_bitmapBytes block) SL_NONE
      | _ \<Rightarrow> AppendU16 (of_nat (length (bl_positions block))) @ concat (map AppendU16 (bl_positions block)))"

definition read_raw_block :: "u8 \<Rightarrow> BitmapSegmentBlock reader" where
  "read_raw_block chunkCount b =
     rbind (read_n ReadU8 (unat chunkCount * 128) b) (\<lambda>(bitmapBytes, b).
       Inr (\<lparr>bl_chunkCount = chunkCount, bl_mode = Raw, bl_positions = [], bl_bitmapBytes = bitmapBytes\<rparr>, b))"

definition read_position_block :: "u8 \<Rightarrow> ESerializationMode \<Rightarrow> BitmapSegmentBlock reader" where
  "read_position_block chunkCount mode b =
     rbind (ReadU16 b) (\<lambda>(count, b).
     rbind (read_n ReadU16 (unat count) b) (\<lambda>(positions, b).
       Inr (\<lparr>bl_chunkCount = chunkCount, bl_mode = mode, bl_positions = positions, bl_bitmapBytes = []\<rparr>, b)))"

definition Block_Deserialize :: "BitmapSegmentBlock reader" where
  "Block_Deserialize b =
     rbind (ReadU8 b) (\<lambda>(chunkCount, b).
     rbind (ReadU8 b) (\<lambda>(modeValue, b).
       if mode_value UnsetPositions < modeValue then Inl DeserializationException
       else if modeValue = mode_value Raw then read_raw_block chunkCount b
       else if modeValue = mode_value SetPositions then read_position_block chunkCount SetPositions b
       else read_position_block chunkCount UnsetPositions b))"

section \<open>Bitmap segments\<close>

record BitmapSegment =
  bs_identifier :: SegmentIdentifier
  bs_blocks :: "BitmapSegmentBlock list"
  bs_proof :: SegmentProof

function blocks_of :: "BitmapChunk list \<Rightarrow> BitmapSegmentBlock list" where
  "blocks_of chunks = (if chunks = [] then [] else FromChunks (take 64 chunks) # blocks_of (drop 64 chunks))"
  by auto
termination by (relation "measure length") auto

declare blocks_of.simps [simp del]

definition FromSegment :: "BitmapChunk Segment \<Rightarrow> BitmapSegment" where
  "FromSegment segment =
     \<lparr>bs_identifier = sg_id segment, bs_blocks = blocks_of (sg_leaves segment), bs_proof = sg_proof segment\<rparr>"

fun chunks_of :: "BitmapSegmentBlock list \<Rightarrow> BitmapChunk list result" where
  "chunks_of [] = Inr []"
| "chunks_of (block # blocks) =
     rbind (ToChunks block) (\<lambda>chunks. rbind (chunks_of blocks) (\<lambda>rest. Inr (chunks @ rest)))"

definition ToSegment :: "BitmapSegment \<Rightarrow> BitmapChunk Segment result" where
  "ToSegment bs =
     rbind (chunks_of (bs_blocks bs)) (\<lambda>chunks.
       let leafOffset = GetLeafOffset (bs_identifier bs)
       in Inr \<lparr>sg_id = bs_identifier bs, sg_hash_pos = [], sg_hashes = [],
               sg_leaf_pos = map (\<lambda>i. LeafIndex_GetPosition (LeafIndex_At (leafOffset + of_nat i))) [0..<length chunks],
               sg_leaves = chunks, sg_proof = bs_proof bs\<rparr>)"

definition BitmapSegment_Serialize :: "BitmapSegment \<Rightarrow> bytes" where
  "BitmapSegment_Serialize bs =
     SegmentIdentifier_Serialize (bs_identifier bs) @ AppendU16 (of_nat (length (bs_blocks bs))) @
     concat (map Block_Serialize (bs_blocks bs)) @ SegmentProof_Serialize (bs_proof bs)"

definition BitmapSegment_Deserialize :: "BitmapSegment reader" where
  "BitmapSegment_Deserialize b =
     rbind (SegmentIdentifier_Deserialize b) (\<lambda>(identifier, b).
     rbind (ReadU16 b) (\<lambda>(numBlocks, b).
     rbind (read_n Block_Deserialize (unat numBlocks) b) (\<lambda>(blocks, b).
     rbind (SegmentProof_Deserialize b) (\<lambda>(prf, b).
       Inr (\<lparr>bs_identifier = identifier, bs_blocks = blocks, bs_proof = prf\<rparr>, b)))))"

section \<open>Chunks as sets of bits\<close>

lemma Chunk_IsSet_bit: "Chunk_IsSet i chunk \<longleftrightarrow> bit (chunk ! unat (i div 8)) (bit_of i)"
  unfolding Chunk_IsSet_def BitToByte_leaf by (rule and_one_bit)

lemma bit_clear_not: "n < 8 \<Longrightarrow> bit (x AND NOT (2 ^ k)) n \<longleftrightarrow> bit x n \<and> n \<noteq> k" for x :: u8
  by (auto simp: bit_and_iff bit_not_iff bit_exp_iff)

lemma length_Chunk_Set [simp]: "length (Chunk_Set i v chunk) = length chunk"
  by (simp add: Chunk_Set_def Let_def)

lemma byte_index: "unat i < 1024 \<Longrightarrow> unat (i div 8) < 128" for i :: u64
  by (simp add: unat_div)

lemma Chunk_IsSet_Set:
  assumes "length chunk = LEN_BYTES" "unat j < 1024"
  shows "Chunk_IsSet i (Chunk_Set j v chunk) \<longleftrightarrow> (if i = j then v else Chunk_IsSet i chunk)"
proof -
  have lt: "unat (j div 8) < length chunk" using byte_index [OF assms(2)] assms(1) by (simp add: LEN_BYTES_def)
  show ?thesis
    using bit_of_less [of i] lt leaf_eq_iff [of i j]
    by (cases "i div 8 = j div 8")
       (auto simp: Chunk_IsSet_bit Chunk_Set_def Let_def BitToByte_leaf bit_set_mask bit_clear_not nth_list_update
         word_unat_eq_iff)
qed

lemma chunk_eqI:
  assumes len: "length c = LEN_BYTES" "length d = LEN_BYTES"
    and eq: "\<And>i. unat i < 1024 \<Longrightarrow> Chunk_IsSet i c = Chunk_IsSet i d"
  shows "c = d"
proof (rule nth_equalityI)
  fix k assume k: "k < length c"
  show "c ! k = d ! k"
  proof (rule bit_word_eqI)
    fix n assume n: "n < LENGTH(8)"
    let ?i = "of_nat (k * 8 + (7 - n)) :: u64"
    have lt: "k * 8 + (7 - n) < 1024" using k len n by (simp add: LEN_BYTES_def)
    have un: "unat ?i = k * 8 + (7 - n)" using lt by (intro unat_of_nat_u64) simp
    have "unat (?i div 8) = k" unfolding unat_div un by simp
    moreover have "(k * 8 + (7 - n)) mod 8 = 7 - n" by (subst mod_mult_self3) simp
    then have "bit_of ?i = 7 - (7 - n)" unfolding bit_of_def un by (simp only:)
    then have "bit_of ?i = n" by (rule trans) (use n in simp)
    ultimately show "bit (c ! k) n = bit (d ! k) n"
      using eq [of ?i] lt un by (simp add: Chunk_IsSet_bit del: of_nat_add of_nat_mult)
  qed
qed (use len in simp)

section \<open>Packing and unpacking a block\<close>

abbreviation chunks_ok :: "BitmapChunk list \<Rightarrow> bool" where
  "chunks_ok chunks \<equiv> \<forall>c \<in> set chunks. length c = LEN_BYTES"

lemma unat_LEN_BITS [simp]: "unat LEN_BITS = 1024"
  by (simp add: LEN_BITS_def)

lemma unat_bit_index: "k < 2 ^ 64 \<Longrightarrow> unat (of_nat k mod LEN_BITS :: u64) = k mod 1024"
  by (simp add: unat_mod unat_of_nat_u64)

lemma fold_collect:
  "fold (collect_position chunks) [0..<n] ([], []) =
    (take block_threshold (map of_nat (filter (block_bit chunks) [0..<n])),
     take block_threshold (map of_nat (filter (\<lambda>k. \<not> block_bit chunks k) [0..<n])))"
  by (induction n) (auto simp: collect_position_def Let_def)

lemma blocks_eqI:
  assumes ok: "chunks_ok cs" "chunks_ok ds" and len: "length cs = length ds" "length cs \<le> 64"
    and eq: "\<And>k. k < length cs * 1024 \<Longrightarrow> block_bit cs k = block_bit ds k"
  shows "cs = ds"
proof (rule nth_equalityI [OF len(1)])
  fix i assume i: "i < length cs"
  show "cs ! i = ds ! i"
  proof (rule chunk_eqI)
    fix j :: u64 assume j: "unat j < 1024"
    let ?k = "i * 1024 + unat j"
    have k: "?k < length cs * 1024" "?k div 1024 = i" "?k mod 1024 = unat j" using i j by simp_all
    have "?k < 2 ^ 64" using k(1) len(2) by simp
    then have "of_nat ?k mod LEN_BITS = j" unfolding word_unat_eq_iff using unat_bit_index k(3) by metis
    then show "Chunk_IsSet j (cs ! i) = Chunk_IsSet j (ds ! i)"
      using eq [OF k(1)] unfolding block_bit_def unat_LEN_BITS k(2) by simp
  qed (use ok i len in auto)
qed

lemma block_bit_update:
  fixes p :: u16
  assumes ok: "chunks_ok chunks" and p: "unat p < length chunks * 1024" and k: "k < length chunks * 1024"
    and len: "length chunks \<le> 64"
  shows "block_bit (chunks[unat p div 1024 := Chunk_Set (ucast p mod LEN_BITS) v (chunks ! (unat p div 1024))]) k \<longleftrightarrow>
    (if k = unat p then v else block_bit chunks k)"
proof -
  have up: "unat (ucast p mod LEN_BITS :: u64) = unat p mod 1024"
    using unat_bit_index [of "unat p"] unsigned_less [of p, where ?'a = nat] by simp
  have uk: "unat (of_nat k mod LEN_BITS :: u64) = k mod 1024" using k len by (intro unat_bit_index) simp
  have i: "unat p div 1024 < length chunks" using p by (simp add: less_mult_imp_div_less)
  have "k = unat p \<longleftrightarrow> k div 1024 = unat p div 1024 \<and> k mod 1024 = unat p mod 1024" by (metis div_mod_decomp)
  moreover have "Chunk_IsSet (of_nat k mod LEN_BITS)
      (Chunk_Set (ucast p mod LEN_BITS) v (chunks ! (unat p div 1024))) \<longleftrightarrow>
    (if k mod 1024 = unat p mod 1024 then v else Chunk_IsSet (of_nat k mod LEN_BITS) (chunks ! (unat p div 1024)))"
    using ok i up uk by (subst Chunk_IsSet_Set) (simp_all add: word_unat_eq_iff)
  ultimately show ?thesis using i by (auto simp: block_bit_def nth_list_update)
qed

lemma apply_positions_correct:
  assumes "chunks_ok chunks" "length chunks \<le> 64" "\<forall>p \<in> set ps. unat p < length chunks * 1024"
  shows "\<exists>chunks'. apply_positions v ps chunks = Inr chunks' \<and> length chunks' = length chunks \<and> chunks_ok chunks' \<and>
    (\<forall>k < length chunks * 1024. block_bit chunks' k = (if \<exists>p \<in> set ps. k = unat p then v else block_bit chunks k))"
  using assms
proof (induction ps arbitrary: chunks)
  case (Cons p ps)
  let ?i = "unat p div 1024"
  let ?c = "chunks[?i := Chunk_Set (ucast p mod LEN_BITS) v (chunks ! ?i)]"
  have i: "?i < length chunks" using Cons.prems(3) by (simp add: less_mult_imp_div_less)
  have ok: "chunks_ok ?c" using Cons.prems(1) i by (auto dest!: set_update_subset_insert [THEN subsetD])
  obtain chunks' where c: "apply_positions v ps ?c = Inr chunks'" "length chunks' = length chunks" "chunks_ok chunks'"
    "\<forall>k < length chunks * 1024. block_bit chunks' k = (if \<exists>p \<in> set ps. k = unat p then v else block_bit ?c k)"
    using Cons.IH [OF ok] Cons.prems by auto
  have "block_bit ?c k = (if k = unat p then v else block_bit chunks k)" if "k < length chunks * 1024" for k
    using block_bit_update [OF Cons.prems(1) _ that Cons.prems(2)] Cons.prems(3) by simp
  then show ?case using c Cons.prems(3) by (auto simp: Let_def)
qed simp

lemma length_New: "length BitmapChunk_New = LEN_BYTES"
  by (simp add: BitmapChunk_New_def)

lemma Chunk_IsSet_New: "unat i < 1024 \<Longrightarrow> \<not> Chunk_IsSet i BitmapChunk_New"
  using byte_index [of i] by (simp add: Chunk_IsSet_bit BitmapChunk_New_def LEN_BYTES_def)

lemma fold_Chunk_Set:
  "n \<le> 1024 \<Longrightarrow> length c = LEN_BYTES \<Longrightarrow>
   length (fold (\<lambda>i. Chunk_Set (of_nat i) True) [0..<n] c) = LEN_BYTES \<and>
   (\<forall>i. Chunk_IsSet i (fold (\<lambda>i. Chunk_Set (of_nat i) True) [0..<n] c) \<longleftrightarrow> unat i < n \<or> Chunk_IsSet i c)"
proof (induction n)
  case (Suc n)
  have n: "unat (of_nat n :: u64) = n" using Suc.prems by (intro unat_of_nat_u64) simp
  show ?case using Suc n by (auto simp: Chunk_IsSet_Set word_unat_eq_iff less_Suc_eq)
qed simp

lemma full_chunk_correct:
  assumes "length c = LEN_BYTES"
  shows "length (full_chunk c) = LEN_BYTES" "unat i < 1024 \<Longrightarrow> Chunk_IsSet i (full_chunk c)"
  using fold_Chunk_Set [of 1024 c] assms by (simp_all add: full_chunk_def)

lemma concat_chunks:
  "chunks_ok cs \<Longrightarrow> length (concat cs) = length cs * LEN_BYTES \<and>
   map (\<lambda>i. take LEN_BYTES (drop (i * LEN_BYTES) (concat cs))) [0..<length cs] = cs"
proof (induction cs)
  case (Cons c cs)
  have "map (\<lambda>i. take LEN_BYTES (drop (i * LEN_BYTES) (concat (c # cs)))) [0..<length (c # cs)] =
      take LEN_BYTES (concat (c # cs)) #
      map (\<lambda>i. take LEN_BYTES (drop (Suc i * LEN_BYTES) (concat (c # cs)))) [0..<length cs]"
    by (simp add: upt_conv_Cons map_Suc_upt [symmetric] del: upt_Suc)
  then show ?case using Cons by (simp add: add.commute)
qed simp

text \<open>A block of at most 64 chunks.\<close>

lemma ToChunks_FromChunks:
  assumes ok: "chunks_ok cs" and len: "length cs \<le> 64"
  shows "ToChunks (FromChunks cs) = Inr cs"
proof -
  let ?n = "length cs * 1024"
  let ?S = "map of_nat (filter (block_bit cs) [0..<?n]) :: u16 list"
  let ?U = "map of_nat (filter (\<lambda>k. \<not> block_bit cs k) [0..<?n]) :: u16 list"
  have count: "unat (of_nat (length cs) :: u8) = length cs" using len by (intro of_nat_inverse) simp_all
  have un: "unat (of_nat k :: u16) = k" if "k < ?n" for k using that len by (intro of_nat_inverse) simp_all
  have S: "\<forall>p \<in> set ?S. unat p < ?n" "k < ?n \<Longrightarrow> (\<exists>p \<in> set ?S. k = unat p) = block_bit cs k" for k
    using un by auto
  have U: "\<forall>p \<in> set ?U. unat p < ?n" "k < ?n \<Longrightarrow> (\<exists>p \<in> set ?U. k = unat p) = (\<not> block_bit cs k)" for k
    using un by auto
  let ?new = "replicate (length cs) BitmapChunk_New"
  have new: "chunks_ok ?new" "chunks_ok (map full_chunk ?new)"
    using full_chunk_correct(1) [OF length_New] by (simp_all add: length_New)
  have idx: "unat (of_nat k mod LEN_BITS :: u64) < 1024" if "k < ?n" for k using that len by (subst unat_bit_index) simp_all
  have clear: "\<not> block_bit ?new k" "block_bit (map full_chunk ?new) k" if "k < ?n" for k
    using that idx [OF that] less_mult_imp_div_less [OF that]
    by (simp_all add: block_bit_def Chunk_IsSet_New full_chunk_correct length_New)
  have set_mode: "apply_positions True ?S ?new = Inr cs"
    using apply_positions_correct [OF new(1), of ?S True] S clear(1) len blocks_eqI [OF _ ok] by fastforce
  have unset_mode: "apply_positions False ?U (map full_chunk ?new) = Inr cs"
    using apply_positions_correct [OF new(2), of ?U False] U clear(2) len blocks_eqI [OF _ ok] by fastforce
  show ?thesis
    using set_mode unset_mode concat_chunks [OF ok]
    by (simp add: FromChunks_def ToChunks_def Let_def fold_collect count)
qed

lemma chunks_of_blocks_of: "chunks_ok cs \<Longrightarrow> chunks_of (blocks_of cs) = Inr cs"
proof (induction cs rule: blocks_of.induct)
  case (1 cs)
  show ?case
  proof (cases "cs = []")
    case False
    have "chunks_ok (take 64 cs)" "chunks_ok (drop 64 cs)" using 1(2) by (auto dest: in_set_takeD in_set_dropD)
    then show ?thesis using 1(1) [OF False] False ToChunks_FromChunks [of "take 64 cs"] by (subst blocks_of.simps) simp
  qed (simp add: blocks_of.simps)
qed

section \<open>Writing and reading\<close>

definition block_ok :: "BitmapSegmentBlock \<Rightarrow> bool" where
  "block_ok block \<longleftrightarrow>
     (case bl_mode block of
        Raw \<Rightarrow> bl_positions block = [] \<and> length (bl_bitmapBytes block) = unat (bl_chunkCount block) * 128
      | _ \<Rightarrow> bl_bitmapBytes block = [] \<and> length (bl_positions block) < 2 ^ 16)"

lemma FromChunks_ok: "chunks_ok cs \<Longrightarrow> length cs \<le> 64 \<Longrightarrow> block_ok (FromChunks cs)"
proof -
  assume ok: "chunks_ok cs" and len: "length cs \<le> 64"
  have "unat (of_nat (length cs) :: u8) = length cs" using len by (intro of_nat_inverse) simp_all
  then show ?thesis
    using concat_chunks [OF ok]
    by (auto simp: FromChunks_def Let_def fold_collect block_ok_def LEN_BYTES_def block_threshold_def min_less_iff_disj)
qed

lemma blocks_of_ok: "chunks_ok cs \<Longrightarrow> \<forall>block \<in> set (blocks_of cs). block_ok block"
proof (induction cs rule: blocks_of.induct)
  case (1 cs)
  show ?case
  proof (cases "cs = []")
    case False
    have "chunks_ok (take 64 cs)" "chunks_ok (drop 64 cs)" using 1(2) by (auto dest: in_set_takeD in_set_dropD)
    then show ?thesis using 1(1) [OF False] False FromChunks_ok [of "take 64 cs"] by (subst blocks_of.simps) simp
  qed (simp add: blocks_of.simps)
qed

lemma length_blocks_of: "length (blocks_of cs) \<le> length cs"
proof (induction cs rule: blocks_of.induct)
  case (1 cs)
  show ?case
  proof (cases "cs = []")
    case False
    then show ?thesis using 1 [OF False] by (subst blocks_of.simps) (cases cs; simp)
  qed (simp add: blocks_of.simps)
qed

lemma decodes_bytes: "decodes (read_n ReadU8 (length bs)) v bs bs"
  using decodes_read_n [of bs ReadU8 v AppendU8] decodes_U8 Chunk_Serialize_id [of bs, unfolded Chunk_Serialize_def]
  by simp

lemma decodes_positions:
  assumes "bl_bitmapBytes block = []" "length (bl_positions block) < 2 ^ 16" "bl_mode block = mode"
  shows "decodes (read_position_block (bl_chunkCount block) mode) v
    (AppendU16 (of_nat (length (bl_positions block))) @ concat (map AppendU16 (bl_positions block))) block"
proof -
  have un: "unat (of_nat (length (bl_positions block)) :: u16) = length (bl_positions block)"
    using assms(2) by (intro of_nat_inverse) simp_all
  show ?thesis
    unfolding read_position_block_def [abs_def]
    by (rule decodes_bind, rule decodes_U16, unfold un, rule decodes_bind_return, rule decodes_read_n, rule decodes_U16,
        rule BitmapSegmentBlock.equality) (simp_all add: assms)
qed

lemma decodes_Block: "block_ok block \<Longrightarrow> decodes Block_Deserialize v (Block_Serialize block) block"
proof (cases "bl_mode block")
  case Raw
  assume "block_ok block"
  then have ok: "bl_positions block = []" "unat (bl_chunkCount block) * 128 = length (bl_bitmapBytes block)"
    using Raw by (simp_all add: block_ok_def)
  have raw: "decodes (read_raw_block (bl_chunkCount block)) v (bl_bitmapBytes block) block"
    unfolding read_raw_block_def [abs_def] ok(2)
    by (rule decodes_bind_return, rule decodes_bytes, rule BitmapSegmentBlock.equality) (simp_all add: ok Raw)
  show ?thesis
    unfolding Block_Deserialize_def [abs_def] Block_Serialize_def Raw ESerializationMode.case
    by (rule decodes_bind, rule decodes_U8, rule decodes_bind, rule decodes_U8) (simp add: AppendByteVector_def raw)
next
  case SetPositions
  assume "block_ok block"
  then have pos: "decodes (read_position_block (bl_chunkCount block) SetPositions) v
      (AppendU16 (of_nat (length (bl_positions block))) @ concat (map AppendU16 (bl_positions block))) block"
    using decodes_positions [of block SetPositions v] SetPositions by (simp add: block_ok_def)
  show ?thesis
    unfolding Block_Deserialize_def [abs_def] Block_Serialize_def SetPositions ESerializationMode.case
    by (rule decodes_bind, rule decodes_U8, rule decodes_bind, rule decodes_U8) (simp add: pos)
next
  case UnsetPositions
  assume "block_ok block"
  then have pos: "decodes (read_position_block (bl_chunkCount block) UnsetPositions) v
      (AppendU16 (of_nat (length (bl_positions block))) @ concat (map AppendU16 (bl_positions block))) block"
    using decodes_positions [of block UnsetPositions v] UnsetPositions by (simp add: block_ok_def)
  show ?thesis
    unfolding Block_Deserialize_def [abs_def] Block_Serialize_def UnsetPositions ESerializationMode.case
    by (rule decodes_bind, rule decodes_U8, rule decodes_bind, rule decodes_U8) (simp add: pos)
qed

lemma decodes_BitmapSegment:
  assumes "\<forall>block \<in> set (bs_blocks bs). block_ok block" "length (bs_blocks bs) < 2 ^ 16"
    and pr: "\<forall>h \<in> set (bs_proof bs). length h = 32" "length (bs_proof bs) < 2 ^ 64"
  shows "decodes BitmapSegment_Deserialize v (BitmapSegment_Serialize bs) bs"
proof -
  have un: "unat (of_nat (length (bs_blocks bs)) :: u16) = length (bs_blocks bs)"
    using assms(2) by (intro of_nat_inverse) simp_all
  have blocks: "decodes (read_n Block_Deserialize (length (bs_blocks bs))) v
      (concat (map Block_Serialize (bs_blocks bs))) (bs_blocks bs)"
    using assms(1) by (intro decodes_read_n decodes_Block) simp
  have last: "decodes (\<lambda>b. rbind (SegmentProof_Deserialize b) (\<lambda>(prf, b).
      Inr (\<lparr>bs_identifier = bs_identifier bs, bs_blocks = bs_blocks bs, bs_proof = prf\<rparr>, b))) v
      (SegmentProof_Serialize (bs_proof bs)) bs"
    by (rule decodes_bind_return, rule decodes_SegmentProof [OF pr]) simp
  show ?thesis
    unfolding BitmapSegment_Deserialize_def [abs_def] BitmapSegment_Serialize_def
    by (rule decodes_bind, rule decodes_SegmentIdentifier, rule decodes_bind, rule decodes_U16, unfold un,
        rule decodes_bind, rule blocks, rule last)
qed

text \<open>
  C25. A segment of the bitmap that is packed into blocks and written is read back and unpacked to the same segment,
  whatever encoding each block chose.
\<close>

theorem bitmap_segment_roundtrip:
  assumes "chunks_ok (sg_leaves sg)" "length (sg_leaves sg) < 2 ^ 16"
    and "\<forall>h \<in> set (sg_proof sg). length h = 32" "length (sg_proof sg) < 2 ^ 64"
    and "sg_hash_pos sg = []" "sg_hashes sg = []"
    and "sg_leaf_pos sg = map (\<lambda>i. LeafIndex_GetPosition (LeafIndex_At (GetLeafOffset (sg_id sg) + of_nat i)))
      [0..<length (sg_leaves sg)]"
    and b: "bb_wf b" "bb_rest b = BitmapSegment_Serialize (FromSegment sg) @ rest"
  shows "\<exists>bs b'. BitmapSegment_Deserialize b = Inr (bs, b') \<and> bb_rest b' = rest \<and> ToSegment bs = Inr sg"
proof -
  have "decodes BitmapSegment_Deserialize (m_protocolVersion b) (BitmapSegment_Serialize (FromSegment sg)) (FromSegment sg)"
    using assms(1-4) blocks_of_ok [OF assms(1)] length_blocks_of [of "sg_leaves sg"]
    by (intro decodes_BitmapSegment) (simp_all add: FromSegment_def)
  then obtain b' where "BitmapSegment_Deserialize b = Inr (FromSegment sg, b')" "bb_rest b' = rest"
    using b unfolding decodes_def by blast
  moreover have "ToSegment (FromSegment sg) = Inr sg"
    using assms(5-7) chunks_of_blocks_of [OF assms(1)] by (simp add: ToSegment_def FromSegment_def Let_def)
  ultimately show ?thesis by blast
qed

lemma FromChunks_empty:
  "FromChunks [BitmapChunk_New] = \<lparr>bl_chunkCount = 1, bl_mode = SetPositions, bl_positions = [], bl_bitmapBytes = []\<rparr>"
proof -
  have "\<not> block_bit [BitmapChunk_New] k" if "k < 1024" for k
    using that by (simp add: block_bit_def Chunk_IsSet_New unat_bit_index)
  then have "filter (block_bit [BitmapChunk_New]) [0..<1024] = []" by (simp add: filter_empty_conv)
  then show ?thesis by (simp add: FromChunks_def Let_def fold_collect block_threshold_def)
qed

theorem bitmap_segment_roundtrip_witness:
  "let sg = \<lparr>sg_id = \<lparr>si_height = 9, si_index = 0\<rparr>, sg_hash_pos = [], sg_hashes = [], sg_leaf_pos = [0],
       sg_leaves = [BitmapChunk_New], sg_proof = [replicate 32 1]\<rparr>
   in \<exists>bs b'. BitmapSegment_Deserialize (ByteBuffer_New (BitmapSegment_Serialize (FromSegment sg)) V2) = Inr (bs, b') \<and>
      bb_rest b' = [] \<and> ToSegment bs = Inr sg"
  unfolding Let_def
proof (rule bitmap_segment_roundtrip)
  let ?sg = "\<lparr>sg_id = \<lparr>si_height = 9, si_index = 0\<rparr>, sg_hash_pos = [], sg_hashes = [], sg_leaf_pos = [0],
       sg_leaves = [BitmapChunk_New], sg_proof = [replicate 32 1]\<rparr>"
  have "blocks_of [BitmapChunk_New] = [FromChunks [BitmapChunk_New]]"
    using blocks_of.simps [of "[BitmapChunk_New]"] blocks_of.simps [of "[]"] by simp
  then have "length (BitmapSegment_Serialize (FromSegment ?sg)) < 2 ^ 63"
    by (simp add: BitmapSegment_Serialize_def FromSegment_def FromChunks_empty SegmentIdentifier_Serialize_def
        Block_Serialize_def SegmentProof_Serialize_def AppendBigInteger_def)
  then show "bb_wf (ByteBuffer_New (BitmapSegment_Serialize (FromSegment ?sg)) V2)"
    "bb_rest (ByteBuffer_New (BitmapSegment_Serialize (FromSegment ?sg)) V2) = BitmapSegment_Serialize (FromSegment ?sg) @ []"
    by (simp_all add: bb_wf_def bb_rest_def ByteBuffer_New_def)
qed (simp_all add: length_New LeafIndex_At_position GetLeafOffset_def mmr_pos_def)

end
