(* ===== verification/Segmenter.thy ===== *)
theory Segmenter
  imports BitmapSegment
begin

text \<open>
  \<^verbatim>\<open>src/PMMR/TxHashSetSegmenter.h\<close>: building the segments that a node sends. The readers of leaves and hashes are
  arguments; they may throw and may find nothing. \<open>None\<close> around a result is a loop of \<open>FamilyBranch\<close> or of the
  accumulator that does not end; \<open>None\<close> inside is the \<open>nullopt\<close> of the code. Warnings are left out. The loops
  over the positions of a segment stop below the size of the range, so their counters do not wrap.
\<close>

section \<open>Segments of the ranges on disk\<close>

definition RequiresLeafData :: "Index \<Rightarrow> u64 \<Rightarrow> (LeafIndex \<Rightarrow> bool) \<Rightarrow> bool" where
  "RequiresLeafData index mmrSize isUnpruned =
     (let leafIdx = LeafIndex_From index
      in if isUnpruned leafIdx \<or> m_position index = mmrSize - 1 then True
         else
           let siblingLeafIdx =
                 (if IsLeftSibling (m_position index) then m_leafIndex leafIdx + 1
                  else if m_leafIndex leafIdx = 0 then m_leafIndex leafIdx else m_leafIndex leafIdx - 1);
               sibling = LeafIndex_At siblingLeafIdx
           in LeafIndex_GetPosition sibling < mmrSize \<and> isUnpruned sibling)"

text \<open>The four vectors that the loop of \<open>BuildSegment\<close> fills.\<close>

record 'a SegmentVectors =
  sv_hash_pos :: "u64 list"
  sv_hashes :: "bytes list"
  sv_leaf_pos :: "u64 list"
  sv_leaves :: "'a list"

definition vectors_empty :: "'a SegmentVectors" where
  "vectors_empty = \<lparr>sv_hash_pos = [], sv_hashes = [], sv_leaf_pos = [], sv_leaves = []\<rparr>"

definition push_leaf :: "u64 \<Rightarrow> 'a \<Rightarrow> 'a SegmentVectors \<Rightarrow> 'a SegmentVectors" where
  "push_leaf pos leaf v = v\<lparr>sv_leaf_pos := sv_leaf_pos v @ [pos], sv_leaves := sv_leaves v @ [leaf]\<rparr>"

definition push_hash :: "u64 \<Rightarrow> bytes \<Rightarrow> 'a SegmentVectors \<Rightarrow> 'a SegmentVectors" where
  "push_hash pos hash v = v\<lparr>sv_hash_pos := sv_hash_pos v @ [pos], sv_hashes := sv_hashes v @ [hash]\<rparr>"

definition build_hash ::
  "bool \<Rightarrow> (Index \<Rightarrow> bytes option result) \<Rightarrow> u64 \<Rightarrow> 'a SegmentVectors \<Rightarrow> 'a SegmentVectors option result" where
  "build_hash prunable readHash pos v =
     (if prunable
      then rbind (readHash (Index_At pos)) (\<lambda>pHash.
             Inr (Some (case pHash of None \<Rightarrow> v | Some hash \<Rightarrow> push_hash pos hash v)))
      else Inr (Some v))"

definition build_position ::
  "u64 \<Rightarrow> bool \<Rightarrow> (LeafIndex \<Rightarrow> 'a option result) \<Rightarrow> (LeafIndex \<Rightarrow> 'a option result) \<Rightarrow> (LeafIndex \<Rightarrow> bool) \<Rightarrow>
   (Index \<Rightarrow> bytes option result) \<Rightarrow> u64 \<Rightarrow> 'a SegmentVectors \<Rightarrow> 'a SegmentVectors option result" where
  "build_position mmrSize prunable readLeaf readRawLeaf isUnpruned readHash pos v =
     (let index = Index_At pos
      in if IsLeaf index then
           rbind (if prunable then readRawLeaf (LeafIndex_From index) else readLeaf (LeafIndex_From index)) (\<lambda>pLeaf.
             case pLeaf of
               Some leaf \<Rightarrow> Inr (Some (push_leaf pos leaf v))
             | None \<Rightarrow>
                 if \<not> prunable then Inr None
                 else if RequiresLeafData index mmrSize isUnpruned then Inr None
                 else build_hash prunable readHash pos v)
         else build_hash prunable readHash pos v)"

fun build_positions ::
  "(u64 \<Rightarrow> 'a SegmentVectors \<Rightarrow> 'a SegmentVectors option result) \<Rightarrow> u64 list \<Rightarrow> 'a SegmentVectors \<Rightarrow>
   'a SegmentVectors option result" where
  "build_positions step [] v = Inr (Some v)"
| "build_positions step (pos # poss) v =
     rbind (step pos v) (\<lambda>r. case r of None \<Rightarrow> Inr None | Some v \<Rightarrow> build_positions step poss v)"

text \<open>A segment that is empty on disk: the hash of its first parent that is there.\<close>

fun first_parent_hash ::
  "(Index \<Rightarrow> bytes option result) \<Rightarrow> (u64 \<times> u64) list \<Rightarrow> 'a SegmentVectors \<Rightarrow>
   (u64 option \<times> 'a SegmentVectors) result" where
  "first_parent_hash readHash [] v = Inr (None, v)"
| "first_parent_hash readHash (entry # branch) v =
     rbind (readHash (Index_At (fst entry))) (\<lambda>pHash.
       case pHash of
         Some hash \<Rightarrow> Inr (Some (fst entry + 1), push_hash (fst entry) hash v)
       | None \<Rightarrow> first_parent_hash readHash branch v)"

definition start_position ::
  "(Index \<Rightarrow> bytes option result) \<Rightarrow> u64 \<Rightarrow> u64 \<Rightarrow> 'a SegmentVectors \<Rightarrow>
   (u64 option \<times> 'a SegmentVectors) result option" where
  "start_position readHash lastPos mmrSize v =
     (if sv_leaves v = [] \<and> sv_hashes v = []
      then map_option (\<lambda>branch. first_parent_hash readHash branch v) (FamilyBranch lastPos mmrSize)
      else Some (Inr (None, v)))"

definition BuildSegment ::
  "(bytes \<Rightarrow> bytes) \<Rightarrow> u64 \<Rightarrow> SegmentIdentifier \<Rightarrow> bool \<Rightarrow> (LeafIndex \<Rightarrow> 'a option result) \<Rightarrow>
   (LeafIndex \<Rightarrow> 'a option result) \<Rightarrow> (LeafIndex \<Rightarrow> bool) \<Rightarrow> (Index \<Rightarrow> bytes option result) \<Rightarrow>
   'a Segment option result option" where
  "BuildSegment Blake2b mmrSize identifier prunable readLeaf readRawLeaf isUnpruned readHash =
     (if GetSegmentUnprunedSize mmrSize identifier = 0 then Some (Inr None)
      else
        let posRange = GetPositionRange mmrSize identifier
        in case build_positions
                  (build_position mmrSize prunable readLeaf readRawLeaf isUnpruned readHash)
                  (map of_nat [unat (fst posRange)..<Suc (unat (snd posRange))]) vectors_empty of
             Inl e \<Rightarrow> Some (Inl e)
           | Inr None \<Rightarrow> Some (Inr None)
           | Inr (Some v) \<Rightarrow>
               (case start_position readHash (snd posRange) mmrSize v of
                  None \<Rightarrow> None
                | Some (Inl e) \<Rightarrow> Some (Inl e)
                | Some (Inr (startPos, v)) \<Rightarrow>
                    map_option (\<lambda>r. rbind r (\<lambda>prf. Inr (map_option (\<lambda>prf.
                        \<lparr>sg_id = identifier, sg_hash_pos = sv_hash_pos v, sg_hashes = sv_hashes v,
                         sg_leaf_pos = sv_leaf_pos v, sg_leaves = sv_leaves v, sg_proof = prf\<rparr>) prf)))
                      (SegmentProof_Generate Blake2b mmrSize (fst posRange) (snd posRange) startPos
                        (\<lambda>position. readHash (Index_At position)))))"

text \<open>Kernels cannot be pruned, outputs and range proofs can; both of these ask the output range what is unspent.\<close>

definition KernelSegment ::
  "(bytes \<Rightarrow> bytes) \<Rightarrow> u64 \<Rightarrow> (LeafIndex \<Rightarrow> 'a option result) \<Rightarrow> (Index \<Rightarrow> bytes option result) \<Rightarrow>
   SegmentIdentifier \<Rightarrow> 'a Segment option result option" where
  "KernelSegment Blake2b mmrSize getKernelAt getHashAt identifier =
     BuildSegment Blake2b mmrSize identifier False getKernelAt getKernelAt (\<lambda>_. False) getHashAt"

definition OutputSegment ::
  "(bytes \<Rightarrow> bytes) \<Rightarrow> u64 \<Rightarrow> (LeafIndex \<Rightarrow> 'a option result) \<Rightarrow> (LeafIndex \<Rightarrow> 'a option result) \<Rightarrow>
   (LeafIndex \<Rightarrow> bool) \<Rightarrow> (Index \<Rightarrow> bytes option result) \<Rightarrow> SegmentIdentifier \<Rightarrow> 'a Segment option result option" where
  "OutputSegment Blake2b mmrSize getAt getDataAt isUnpruned getSegmentHashAt identifier =
     BuildSegment Blake2b mmrSize identifier True getAt getDataAt isUnpruned getSegmentHashAt"

section \<open>Segments of the bitmap\<close>

definition output_chunk :: "(LeafIndex \<Rightarrow> bool) \<Rightarrow> u64 \<Rightarrow> nat \<Rightarrow> BitmapChunk" where
  "output_chunk isUnpruned outputLeaves chunkIdx =
     (let firstLeaf = of_nat chunkIdx * LEN_BITS;
          lastLeaf = min outputLeaves (firstLeaf + LEN_BITS)
      in fold (\<lambda>leafIdx chunk.
             if isUnpruned (LeafIndex_At (of_nat leafIdx)) then Chunk_Set (of_nat leafIdx - firstLeaf) True chunk
             else chunk) [unat firstLeaf..<unat lastLeaf] BitmapChunk_New)"

definition output_accumulator ::
  "(bytes \<Rightarrow> bytes) \<Rightarrow> u64 \<Rightarrow> (LeafIndex \<Rightarrow> bool) \<Rightarrow> BitmapAccumulator result option" where
  "output_accumulator Blake2b outputMMRSize isUnpruned =
     (let outputLeaves = CountLeaves outputMMRSize;
          chunkCount = (outputLeaves + LEN_BITS - 1) div LEN_BITS
      in append_chunks Blake2b (map (output_chunk isUnpruned outputLeaves) [0..<unat chunkCount]) Accumulator_New)"

fun collect_chunks :: "BitmapChunk list \<Rightarrow> u64 list \<Rightarrow> (u64 list \<times> BitmapChunk list) option" where
  "collect_chunks all_chunks [] = Some ([], [])"
| "collect_chunks all_chunks (pos # poss) =
     (if \<not> IsLeaf (Index_At pos) then collect_chunks all_chunks poss
      else if of_nat (length all_chunks) \<le> GetLeafIndex (Index_At pos) then None
      else map_option (\<lambda>(leafPositions, chunks).
             (pos # leafPositions, all_chunks ! unat (GetLeafIndex (Index_At pos)) # chunks))
             (collect_chunks all_chunks poss))"

definition OutputBitmapSegment ::
  "(bytes \<Rightarrow> bytes) \<Rightarrow> SegmentIdentifier \<Rightarrow> BitmapAccumulator \<Rightarrow> BitmapSegment option result option" where
  "OutputBitmapSegment Blake2b identifier accumulator =
     (let bitmapMMRSize = GetMMRSize accumulator
      in if GetSegmentUnprunedSize bitmapMMRSize identifier = 0 then Some (Inr None)
         else
           let posRange = GetPositionRange bitmapMMRSize identifier
           in case collect_chunks (ba_chunks accumulator)
                     (map of_nat [unat (fst posRange)..<Suc (unat (snd posRange))]) of
                None \<Rightarrow> Some (Inr None)
              | Some (leafPositions, chunks) \<Rightarrow>
                  map_option (\<lambda>r. rbind r (\<lambda>prf. Inr (map_option (\<lambda>prf. FromSegment
                      \<lparr>sg_id = identifier, sg_hash_pos = [], sg_hashes = [], sg_leaf_pos = leafPositions,
                       sg_leaves = chunks, sg_proof = prf\<rparr>) prf)))
                    (SegmentProof_Generate Blake2b bitmapMMRSize (fst posRange) (snd posRange) None
                      (\<lambda>position. Inr (Accumulator_GetHashAt accumulator position))))"

definition TxHashSet_OutputBitmapSegment ::
  "(bytes \<Rightarrow> bytes) \<Rightarrow> u64 \<Rightarrow> (LeafIndex \<Rightarrow> bool) \<Rightarrow> SegmentIdentifier \<Rightarrow> BitmapSegment option result option" where
  "TxHashSet_OutputBitmapSegment Blake2b outputMMRSize isUnpruned identifier =
     (case output_accumulator Blake2b outputMMRSize isUnpruned of
        None \<Rightarrow> None
      | Some (Inl e) \<Rightarrow> Some (Inl e)
      | Some (Inr accumulator) \<Rightarrow> OutputBitmapSegment Blake2b identifier accumulator)"

end
