(* ===== verification/SegmentComplete.thy ===== *)
theory SegmentComplete
  imports SegmentCorrect Segmenter
begin

text \<open>
  The segments that a node builds from its own ranges are accepted: \<open>SegmentProof::Generate\<close> gives the proof that
  \<open>ReconstructRoot\<close> needs, and the segmenter's kernel and bitmap segments validate against the root of the range.
\<close>

section \<open>The generated proof\<close>

text \<open>A reader of hashes that knows every node of the range.\<close>

definition reads_range :: "(bytes \<Rightarrow> bytes) \<Rightarrow> bytes list \<Rightarrow> (u64 \<Rightarrow> bytes option result) \<Rightarrow> bool" where
  "reads_range B leaves reader \<longleftrightarrow>
     (\<forall>m h. is_node m h \<longrightarrow> m < length leaves \<longrightarrow> reader (of_nat (mmr_pos m h)) = Inr (Some (node_hash B leaves m h)))"

lemma reads_peak:
  "reads_range B leaves reader \<Longrightarrow> y \<in> set (peaks (length leaves)) \<Longrightarrow>
   reader (pos_word y) = Inr (Some (branch_hash B leaves y))"
  using peak_is_node [of y "length leaves"] by (simp add: reads_range_def)

lemma sibling_hashes_complete:
  assumes rd: "reads_range B leaves reader" and N: "N = length leaves"
  shows "is_node n h \<Longrightarrow> n < N \<Longrightarrow>
    sibling_hashes reader None (word_branch (path_up (n, h) (mmr_pos N 0))) =
      Inr (Some (map (\<lambda>(p, s). branch_hash B leaves s) (path_up (n, h) (mmr_pos N 0))))"
proof (induction "mmr_pos N 0 - mmr_pos n h" arbitrary: n h rule: less_induct)
  case less
  obtain pn where p: "parent_of (n, h) = (pn, Suc h)" "n \<le> pn"
    by (cases "is_right n h") (auto simp: parent_of_def)
  have node: "is_node pn (Suc h)" using is_node_parent [OF less.prems(1)] p by simp
  show ?case
  proof (cases "mmr_pos pn (Suc h) < mmr_pos N 0")
    case True
    have gt: "mmr_pos n h < mmr_pos pn (Suc h)" using pos_parent_greater [OF less.prems(1)] p by simp
    then have dec: "mmr_pos N 0 - mmr_pos pn (Suc h) < mmr_pos N 0 - mmr_pos n h" using True by simp
    have pn: "pn < N" using True node_pos_less_iff [OF node] by simp
    obtain sn where s: "sibling_of (n, h) = (sn, h)" "is_node sn h" "sn \<le> pn"
      using is_node_sibling [OF less.prems(1)] p by (auto simp: sibling_of_def parent_of_def split: if_splits)
    have "reader (of_nat (mmr_pos sn h)) = Inr (Some (node_hash B leaves sn h))"
      using rd s pn N unfolding reads_range_def by simp
    then show ?thesis
      using less.hyps [OF dec node pn] path_up_step(1) [OF less.prems(1), of "mmr_pos N 0"] True p(1) s(1)
      by (simp add: word_branch_def)
  next
    case False
    then show ?thesis using path_up_end [of "(n, h)" "mmr_pos N 0"] p by (simp add: word_branch_def)
  qed
qed

lemma left_peaks_skip:
  "\<forall>p \<in> set ps. first \<le> p \<Longrightarrow> left_peaks reader first (ps @ qs) = left_peaks reader first qs"
  by (induction ps) auto

lemma left_peaks_complete:
  assumes rd: "reads_range B leaves reader" and N: "length leaves < 2 ^ 50" "o' \<le> length leaves"
    and split: "peaks (length leaves) = A @ D" and A: "\<forall>y \<in> set A. fst y < o'" and D: "\<forall>y \<in> set D. o' \<le> fst y"
  shows "left_peaks reader (of_nat (mmr_pos o' 0)) (rev (map pos_word (peaks (length leaves)))) =
    Inr (Some (rev (peak_hashes B leaves A)))"
proof -
  let ?first = "of_nat (mmr_pos o' 0) :: u64"
  have right: "\<forall>p \<in> set (rev (map pos_word D)). ?first \<le> p"
    using peaks_left_of [OF _ N] D by (auto simp: split)
  have left: "\<not> ?first \<le> pos_word y \<and> reader (pos_word y) = Inr (Some (branch_hash B leaves y))" if "y \<in> set A" for y
  proof -
    have "y \<in> set (peaks (length leaves))" using that by (simp add: split)
    from peaks_left_of [OF this N] reads_peak [OF rd this] A that show ?thesis by auto
  qed
  have "left_peaks reader ?first (map pos_word ys) = Inr (Some (map (branch_hash B leaves) ys))" if "set ys \<subseteq> set A" for ys
    using that left by (induction ys) auto
  from this [of "rev A"] have "left_peaks reader ?first (rev (map pos_word A)) = Inr (Some (rev (peak_hashes B leaves A)))"
    by (simp add: rev_map case_prod_unfold)
  then show ?thesis using left_peaks_skip [OF right, of reader "rev (map pos_word A)"] by (simp add: split)
qed

lemma right_peaks_skip:
  "\<forall>p \<in> set ps. p \<le> q \<Longrightarrow> right_peaks B reader n q ps rhs = Inr (Some rhs)"
  by (induction ps) auto

lemma right_peaks_bag:
  "\<forall>p \<in> set ps. \<not> p \<le> q \<and> reader p = Inr (Some (H p)) \<Longrightarrow>
   right_peaks B reader n q (rev ps @ qs) None =
     right_peaks B reader n q qs (if ps = [] then None else Some (bag_right B n (map H ps)))"
proof (induction ps arbitrary: qs)
  case (Cons p ps)
  then show ?case by (cases ps) (auto simp: Let_def)
qed simp

lemma right_peaks_complete:
  assumes rd: "reads_range B leaves reader" and N: "length leaves < 2 ^ 50"
    and split: "peaks (length leaves) = A @ x # C"
    and A: "\<forall>y \<in> set A. fst y < fst x" and C: "\<forall>y \<in> set C. fst x < fst y"
  shows "right_peaks B reader n (pos_word x) (rev (map pos_word (peaks (length leaves)))) None =
    Inr (Some (if C = [] then None else Some (bag_right B n (peak_hashes B leaves C))))"
proof -
  let ?N = "length leaves"
  have un: "unat (pos_word y) = pos_of y" "is_node (fst y) (snd y)" "fst y < ?N" if "y \<in> set (peaks ?N)" for y
    using unat_pos_word [of y ?N] peak_is_node [OF that] N by auto
  have x: "x \<in> set (peaks ?N)" by (simp add: split)
  have right: "\<not> pos_word y \<le> pos_word x \<and> reader (pos_word y) = Inr (Some (branch_hash B leaves y))" if "y \<in> set C" for y
  proof -
    have y: "y \<in> set (peaks ?N)" using that by (simp add: split)
    have "pos_of x < pos_of y" using node_pos_mono [OF un(2) [OF x], of "fst y"] C that by simp
    then show ?thesis using reads_peak [OF rd y] un(1) [OF x] un(1) [OF y] by (simp add: word_le_nat_alt)
  qed
  have left: "pos_word y \<le> pos_word x" if "y \<in> set (A @ [x])" for y
  proof (cases "y = x")
    case False
    then have y: "y \<in> set (peaks ?N)" "fst y < fst x" using that A by (auto simp: split)
    have "pos_of y < pos_of x" using node_pos_mono [OF un(2) [OF y(1)] y(2)] .
    then show ?thesis using un(1) [OF x] un(1) [OF y(1)] by (simp add: word_le_nat_alt)
  qed simp
  have bag: "right_peaks B reader n (pos_word x) (rev (map pos_word ys) @ qs) None =
      right_peaks B reader n (pos_word x) qs
        (if ys = [] then None else Some (bag_right B n (map (branch_hash B leaves) ys)))" if "set ys \<subseteq> set C" for ys qs
    using that
  proof (induction ys arbitrary: qs)
    case (Cons y ys)
    then show ?case using right [of y] by (cases ys) auto
  qed simp
  have "rev (map pos_word (peaks ?N)) = rev (map pos_word C) @ rev (map pos_word (A @ [x]))" by (simp add: split)
  moreover have "\<forall>p \<in> set (rev (map pos_word (A @ [x]))). p \<le> pos_word x" using left by auto
  ultimately show ?thesis
    using bag [of C "rev (map pos_word (A @ [x]))"] right_peaks_skip by (simp add: case_prod_unfold)
qed

lemma generate_full:
  assumes rd: "reads_range B leaves reader" and N: "length leaves < 2 ^ 50" and node: "is_node m h" and m: "m < length leaves"
  shows "SegmentProof_Generate B (range_size leaves) (of_nat (mmr_pos (Suc m - 2 ^ h) 0)) (of_nat (mmr_pos m h)) None reader =
    Some (Inr (Some (full_proof B leaves m h)))"
proof -
  let ?N = "length leaves" and ?x = "path_top (m, h) (mmr_pos (length leaves) 0)"
  obtain A C where split: "peaks ?N = A @ ?x # C" and A: "\<forall>y \<in> set A. fst y < Suc m - 2 ^ h"
    and C: "\<forall>y \<in> set C. fst ?x < fst y"
    using top_split [OF node m] by blast
  have top: "m \<le> fst ?x" using path_top_peak [OF node m] by simp
  have one: "Suc m - 2 ^ h \<le> m" using one_le_power [of "2::nat" h] by linarith
  have rights: "filter (\<lambda>y. fst ?x < fst y) (peaks ?N) = C" and lefts: "filter (\<lambda>y. fst y < Suc m - 2 ^ h) (peaks ?N) = A"
    using A C one top unfolding split by (fastforce simp: filter_empty_conv filter_id_conv)+
  have A': "\<forall>y \<in> set A. fst y < fst ?x" using A one top by fastforce
  have D: "\<forall>y \<in> set (?x # C). Suc m - 2 ^ h \<le> fst y" 
    using C le_trans [OF one top] by (auto intro: le_trans [OF _ less_imp_le])
  have lt: "mmr_pos m h < mmr_pos ?N 0" using node_pos_less_iff [OF node] m by simp
  have uN: "unat (of_nat (mmr_pos ?N 0) :: u64) = mmr_pos ?N 0" by (rule unat_leaf_pos [OF order_refl N])
  have branch: "FamilyBranch (of_nat (mmr_pos m h)) (range_size leaves) = Some (word_branch (path_up (m, h) (mmr_pos ?N 0)))"
    using FamilyBranch_node [OF node, of "range_size leaves"] lt mmr_pos_small [of ?N 0] N by (simp add: uN)
  have peak: "branch_peak (of_nat (mmr_pos m h)) (word_branch (path_up (m, h) (mmr_pos ?N 0))) = pos_word ?x"
    by (simp add: branch_peak_def word_branch_def path_top_def last_map case_prod_unfold)
  have "Suc m - 2 ^ h \<le> ?N" using one m by simp
  note left = left_peaks_complete [OF rd N this split A D]
  note right = right_peaks_complete [OF rd N split A' C]
  show ?thesis
    unfolding SegmentProof_Generate_def branch option.map Let_def GetPeakIndices_range [OF N] peak
      sibling_hashes_complete [OF rd refl node m] left right full_proof_def rights lefts
    by simp
qed

lemma generate_partial:
  assumes rd: "reads_range B leaves reader" and N: "length leaves < 2 ^ 50"
    and o': "length leaves div 2 ^ h * 2 ^ h < length leaves" and split: "peaks (length leaves) = high @ peak_nodes h (length leaves)"
    and high: "\<forall>y \<in> set high. fst y < length leaves div 2 ^ h * 2 ^ h"
    and low: "\<forall>y \<in> set (peak_nodes h (length leaves)). length leaves div 2 ^ h * 2 ^ h \<le> fst y"
  shows "SegmentProof_Generate B (range_size leaves) (of_nat (mmr_pos (length leaves div 2 ^ h * 2 ^ h) 0))
      (of_nat (mmr_pos (length leaves) 0 - 1)) None reader = Some (Inr (Some (rev (peak_hashes B leaves high))))"
proof -
  let ?N = "length leaves" and ?x = "last (peak_nodes h (length leaves))"
  note ne = low_nonempty [OF o']
  note top = partial_top [OF N o' split]
  have split': "peaks ?N = (high @ butlast (peak_nodes h ?N)) @ ?x # []" using ne(1) by (simp add: split)
  have right: "right_peaks B reader (range_size leaves) (of_nat (mmr_pos ?N 0 - 1)) (rev (map pos_word (peaks ?N))) None =
      Inr (Some None)"
    using right_peaks_complete [OF rd N split', of "range_size leaves"] top(2) unfolding ne(2) by simp
  note left = left_peaks_complete [OF rd N less_imp_le [OF o'] split high low]
  show ?thesis
    unfolding SegmentProof_Generate_def top(1) option.map Let_def GetPeakIndices_range [OF N] left branch_peak_def
      if_P [OF refl] right
    by simp
qed

section \<open>Honest segments\<close>

definition holds_leaves :: "('a \<Rightarrow> bytes) \<Rightarrow> bytes list \<Rightarrow> 'a Segment \<Rightarrow> bool" where
  "holds_leaves ser leaves sg \<longleftrightarrow> well_shaped sg \<and>
     (\<forall>j. seg_first (sg_id sg) \<le> j \<longrightarrow> j < seg_first (sg_id sg) + 2 ^ seg_height (sg_id sg) \<longrightarrow> j < length leaves \<longrightarrow>
        (\<exists>leaf. segment_leaf_at sg j = Some leaf \<and> ser leaf = leaves ! j))"

lemma holds_leaves_list:
  assumes "holds_leaves ser leaves sg" "seg_first (sg_id sg) \<le> j" "j < seg_first (sg_id sg) + 2 ^ seg_height (sg_id sg)"
    "j < length leaves"
  shows "segment_leaf_at sg j \<noteq> None" "segment_list ser sg (length leaves) ! j = leaves ! j"
  using assms by (auto simp: holds_leaves_def segment_list_def)

lemma node_hash_agree:
  "is_node m h \<Longrightarrow> \<forall>j \<in> {Suc m - 2 ^ h..m}. L ! j = L' ! j \<Longrightarrow> node_hash B L m h = node_hash B L' m h"
proof (induction h arbitrary: m)
  case (Suc h)
  have r: "is_right m h" using Suc.prems by (simp add: is_right_def)
  have le: "2 ^ h \<le> m" and left: "is_node (m - 2 ^ h) h" using right_node_shift [OF r] by simp_all
  have right: "is_node m h"
    using Suc.prems(1) unfolding is_node_def by (rule dvd_trans [rotated]) (simp add: le_imp_power_dvd)
  have "\<forall>j \<in> {Suc (m - 2 ^ h) - 2 ^ h..m - 2 ^ h}. L ! j = L' ! j" "\<forall>j \<in> {Suc m - 2 ^ h..m}. L ! j = L' ! j"
    using Suc.prems(2) le by (auto simp: Suc_diff_le mult_2)
  then show ?case using Suc.IH [OF left] Suc.IH [OF right] by simp
qed simp

lemma honest_segment_full:
  assumes ok: "hash_ok B leaves" and N: "length leaves < 2 ^ 50" and h: "seg_height (sg_id sg) < 64"
    and full: "seg_first (sg_id sg) + 2 ^ seg_height (sg_id sg) \<le> length leaves"
    and holds: "holds_leaves ser leaves sg" and rd: "reads_range B leaves reader"
    and gen: "SegmentProof_Generate B (range_size leaves) (fst (GetPositionRange (range_size leaves) (sg_id sg)))
      (snd (GetPositionRange (range_size leaves) (sg_id sg))) None reader = Some (Inr (Some (sg_proof sg)))"
  shows "Segment_Validate B ser (range_size leaves) (mmr_root B leaves) None sg = Some True"
proof -
  let ?N = "length leaves" and ?o = "seg_first (sg_id sg)" and ?h = "seg_height (sg_id sg)"
  let ?L = "segment_list ser sg (length leaves)" and ?m = "seg_first (sg_id sg) + 2 ^ seg_height (sg_id sg) - 1"
  have len: "\<forall>x. length (B x) = 32" using ok by (simp add: hash_ok_def)
  have "0 < (2::nat) ^ ?h" by simp
  then have m: "Suc ?m = ?o + 2 ^ ?h" "Suc ?m - 2 ^ ?h = ?o" "?m < ?N" using full by linarith+
  have ne: "leaves \<noteq> []" using m(3) by auto
  have node: "is_node ?m ?h" unfolding is_node_def m(1) using seg_first_dvd [OF h] by simp
  note range = full_range(2) [OF h N full]
  have mem: "segment_leaf_at sg j \<noteq> None \<and> ?L ! j = leaves ! j" if "j \<in> {?o..?m}" for j
    using holds_leaves_list [OF holds, of j] that m by (simp add: less_Suc_eq_le [symmetric])
  have root: "Segment_Root B ser (range_size leaves) None sg = Some (node_hash B leaves ?m ?h)"
    unfolding Segment_Root_full [OF h N full refl]
    using holds mem node_hash_agree [OF node, of ?L leaves B] m(2) by (simp add: holds_leaves_def leaves_provided_def)
  have "mmr_pos ?m ?h < 2 ^ 52" using m(3) N node_height_small [OF node] by (intro mmr_pos_small) simp_all
  then have u: "unat (of_nat (mmr_pos ?m ?h) + 1 :: u64) \<le> Suc (mmr_pos ?m ?h)"
    using unat_of_nat_u64 [of "Suc (mmr_pos ?m ?h)"] by (simp add: add.commute)
  have "sg_proof sg = full_proof B leaves ?m ?h"
    using gen generate_full [OF rd N node m(3)] unfolding range fst_conv snd_conv m(2) by simp
  then have "ReconstructRoot B (range_size leaves) (of_nat (mmr_pos ?o 0)) (of_nat (mmr_pos ?m ?h))
      (node_hash B leaves ?m ?h) (of_nat (mmr_pos ?m ?h) + 1) (sg_proof sg) = Some (Some (mmr_root B leaves))"
    using full_reconstruct_complete [OF ok N node m(3) u] unfolding m(2) by simp
  then show ?thesis
    using Segment_Validate_None [OF ok ne root _ range] length_hash [of B leaves ?m ?h] len by simp
qed

lemma honest_segment_partial:
  assumes ok: "hash_ok B leaves" and N: "length leaves < 2 ^ 50" and h: "seg_height (sg_id sg) < 64"
    and lt: "seg_first (sg_id sg) < length leaves" "length leaves < seg_first (sg_id sg) + 2 ^ seg_height (sg_id sg)"
    and holds: "holds_leaves ser leaves sg" and rd: "reads_range B leaves reader"
    and gen: "SegmentProof_Generate B (range_size leaves) (fst (GetPositionRange (range_size leaves) (sg_id sg)))
      (snd (GetPositionRange (range_size leaves) (sg_id sg))) None reader = Some (Inr (Some (sg_proof sg)))"
  shows "Segment_Validate B ser (range_size leaves) (mmr_root B leaves) None sg = Some True"
proof -
  let ?N = "length leaves" and ?o = "seg_first (sg_id sg)" and ?h = "seg_height (sg_id sg)"
  let ?L = "segment_list ser sg (length leaves)" and ?H = "peak_hashes B leaves" and ?size = "range_size leaves"
  let ?low = "peak_nodes ?h ?N" let ?f = "\<lambda>h r. HashParentWithIndex B h r ?size"
  have len: "\<forall>x. length (B x) = 32" using ok by (simp add: hash_ok_def)
  have ne: "leaves \<noteq> []" using lt(1) by auto
  note range = partial_range [OF h N lt]
  have fl: "?N div 2 ^ ?h * 2 ^ ?h < ?N" using lt(1) range(3) by simp
  obtain high where split: "peaks ?N = high @ ?low" and high: "\<forall>y \<in> set high. fst y < ?N div 2 ^ ?h * 2 ^ ?h"
    and low: "\<forall>y \<in> set ?low. ?N div 2 ^ ?h * 2 ^ ?h \<le> fst y"
    by (rule high_low)
  have mem: "segment_leaf_at sg j \<noteq> None \<and> ?L ! j = leaves ! j" if "j \<in> {?o..<?N}" for j
    using holds_leaves_list [OF holds, of j] that lt by simp
  have agree: "node_hash B ?L m k = node_hash B leaves m k" if "(m, k) \<in> set ?low" for m k
  proof (rule node_hash_agree)
    show "is_node m k" using peak_node [OF that] by simp
    have "{Suc m - 2 ^ k..m} \<subseteq> {?o..<?N}" using that low_leaves [of ?h ?N] unfolding range(3) [symmetric] by blast
    then show "\<forall>j \<in> {Suc m - 2 ^ k..m}. ?L ! j = leaves ! j" using mem by blast
  qed
  then have "peak_hashes B ?L ?low = ?H ?low" by (auto simp: map_eq_conv)
  then have root: "Segment_Root B ser ?size None sg = Some (bag_right B ?size (?H ?low))"
    unfolding Segment_Root_partial [OF h N lt]
    by (simp only: if_P) (use holds mem in \<open>simp add: holds_leaves_def leaves_provided_def del: map_eq_conv\<close>)
  have "sg_proof sg = rev (?H high)"
    using gen generate_partial [OF rd N fl split high low] unfolding range(2) fst_conv snd_conv range(3) [symmetric] by simp
  then have "ReconstructRoot B ?size (of_nat (mmr_pos (?N div 2 ^ ?h * 2 ^ ?h) 0)) (of_nat (mmr_pos ?N 0 - 1))
      (bag_right B ?size (?H ?low)) (of_nat (mmr_pos ?N 0 - 1) + 1) (sg_proof sg) =
    Some (Some (foldr ?f (?H high) (bag_right B ?size (?H ?low))))"
    unfolding ReconstructRoot_partial [OF N fl split high low] by simp
  moreover have "foldr ?f (?H high) (bag_right B ?size (?H ?low)) = mmr_root B leaves"
    using bag_right_append [of "?H ?low" B ?size "?H high"] low_nonempty(1) [OF fl] mmr_root_bag [OF ok] by (simp add: split)
  moreover have "length (bag_right B ?size (?H ?low)) = 32"
    by (intro length_bag_right [OF len])
       (use low_nonempty(1) [OF fl] length_hash len in \<open>auto simp: list_all_iff\<close>)
  ultimately show ?thesis using Segment_Validate_None [OF ok ne root _ range(2)] range(3) by simp
qed

section \<open>The positions of a segment\<close>

definition segment_positions :: "u64 \<Rightarrow> SegmentIdentifier \<Rightarrow> u64 list" where
  "segment_positions mmrSize si =
     (let posRange = GetPositionRange mmrSize si in map of_nat [unat (fst posRange)..<Suc (unat (snd posRange))])"

lemma capacity_nonzero: "seg_height si < 64 \<Longrightarrow> GetSegmentCapacity si \<noteq> 0"
proof -
  assume h: "seg_height si < 64"
  have "unat (GetSegmentCapacity si) = 2 ^ seg_height si" by (simp add: GetSegmentCapacity_eq [OF h] unat_pow [OF h])
  then show ?thesis by force
qed

lemma segment_interval:
  assumes h: "seg_height si < 64" and N: "N < 2 ^ 50" and lt: "seg_first si < N"
  obtains e where "segment_positions (of_nat (mmr_pos N 0)) si = map of_nat [mmr_pos (seg_first si) 0..<e]"
    and "e \<le> mmr_pos N 0" and "\<And>j. j < seg_first si + 2 ^ seg_height si \<Longrightarrow> j < N \<Longrightarrow> mmr_pos j 0 < e"
    and "GetSegmentUnprunedSize (of_nat (mmr_pos N 0)) si \<noteq> 0" and "e \<le> mmr_pos (seg_first si + 2 ^ seg_height si) 0"
proof (cases "seg_first si + 2 ^ seg_height si \<le> N")
  case True
  let ?m = "seg_first si + 2 ^ seg_height si - 1" and ?h = "seg_height si"
  have pow: "0 < (2::nat) ^ ?h" by simp
  then have m: "Suc ?m = seg_first si + 2 ^ ?h" "?m < N" using True by linarith+
  have node: "is_node ?m ?h" unfolding is_node_def m(1) using seg_first_dvd [OF h] by simp
  have "mmr_pos ?m ?h < 2 ^ 52" using m(2) N node_height_small [OF node] by (intro mmr_pos_small) simp_all
  moreover have "mmr_pos (seg_first si) 0 < 2 ^ 52" using lt N by (intro mmr_pos_small) simp_all
  ultimately have pos: "segment_positions (of_nat (mmr_pos N 0)) si =
      map of_nat [mmr_pos (seg_first si) 0..<Suc (mmr_pos ?m ?h)]"
    unfolding segment_positions_def Let_def full_range(2) [OF h N True] by (simp add: unat_of_nat_u64 del: upt_Suc)
  have "GetSegmentCapacity si \<noteq> 0" by (rule capacity_nonzero [OF h])
  then show thesis
    using that [OF pos] node_pos_less_iff [OF node, of N] m full_range(1) [OF h N True]
      leaf_pos_le [of _ ?m ?h] node_before_next [OF node] by (simp add: Suc_le_eq less_Suc_eq_le)
next
  case False
  then have lt': "N < seg_first si + 2 ^ seg_height si" by simp
  note range = partial_range [OF h N lt lt']
  have le: "mmr_pos (seg_first si) 0 < mmr_pos N 0" by (rule leaf_pos_mono [OF lt])
  have "mmr_pos N 0 < 2 ^ 52" using N by (intro mmr_pos_small) simp_all
  then have "mmr_pos N 0 - 1 < 2 ^ 64" "mmr_pos (seg_first si) 0 < 2 ^ 64" using le by simp_all
  note un = this [THEN unat_of_nat_u64]
  have pos: "segment_positions (of_nat (mmr_pos N 0)) si = map of_nat [mmr_pos (seg_first si) 0..<mmr_pos N 0]"
    unfolding segment_positions_def Let_def range(2) fst_conv snd_conv un using le by simp
  have "GetSegmentUnprunedSize (of_nat (mmr_pos N 0)) si \<noteq> 0"
  proof -
    have "GetSegmentUnprunedSize (of_nat (mmr_pos N 0)) si = min (GetSegmentCapacity si) (of_nat N - GetLeafOffset si)"
      using seg_order [OF h N lt] by (simp add: GetSegmentUnprunedSize_def Segment_CountLeaves_eq [OF N] Let_def)
    moreover have "GetSegmentCapacity si \<noteq> 0" by (rule capacity_nonzero [OF h])
    moreover have "of_nat N - GetLeafOffset si \<noteq> 0" using seg_order [OF h N lt] by auto
    ultimately show ?thesis by (simp add: min_def)
  qed
  then show thesis using that [OF pos order_refl] leaf_pos_mono leaf_pos_le [OF less_imp_le [OF lt']] by blast
qed

lemma provided_map: "x \<in> set ps \<Longrightarrow> provided ps (map f ps) x = Some (f x)"
proof -
  have "\<exists>i < length ps. find_index x ps = Some i \<and> ps ! i = x" if "x \<in> set ps"
    using that
  proof (induction ps)
    case (Cons p ps)
    then show ?case by (cases "x = p") auto
  qed simp
  then show "x \<in> set ps \<Longrightarrow> provided ps (map f ps) x = Some (f x)" by (auto simp: provided_def)
qed

abbreviation leaf_positions :: "u64 list \<Rightarrow> u64 list" where
  "leaf_positions ps \<equiv> filter (\<lambda>p. IsLeaf (Index_At p)) ps"

lemma Index_At_leaf: "n < 2 ^ 50 \<Longrightarrow> Index_At (of_nat (mmr_pos n 0)) = node n 0"
  by (intro Index_At_pos) (simp_all add: is_node_def)

lemma leaf_position_mem:
  assumes h: "seg_height si < 64" and N: "N < 2 ^ 50"
    and j: "seg_first si \<le> j" "j < seg_first si + 2 ^ seg_height si" "j < N"
  shows "of_nat (mmr_pos j 0) \<in> set (leaf_positions (segment_positions (of_nat (mmr_pos N 0)) si))"
proof -
  have lt: "seg_first si < N" using j by simp
  obtain e where e: "segment_positions (of_nat (mmr_pos N 0)) si = map of_nat [mmr_pos (seg_first si) 0..<e]"
    "\<And>j. j < seg_first si + 2 ^ seg_height si \<Longrightarrow> j < N \<Longrightarrow> mmr_pos j 0 < e"
    using segment_interval [OF h N lt] by metis
  have "mmr_pos (seg_first si) 0 \<le> mmr_pos j 0" using j(1) by (rule leaf_pos_le)
  then have "of_nat (mmr_pos j 0) \<in> set (segment_positions (of_nat (mmr_pos N 0)) si)"
    using e(2) [OF j(2,3)] unfolding e(1) by simp
  moreover have "IsLeaf (Index_At (of_nat (mmr_pos j 0)))" using Index_At_leaf [of j] j(3) N by (simp add: IsLeaf_node)
  ultimately show ?thesis by simp
qed

lemma leaf_position_cases:
  assumes h: "seg_height si < 64" and N: "N < 2 ^ 50" and lt: "seg_first si < N"
    and p: "p \<in> set (leaf_positions (segment_positions (of_nat (mmr_pos N 0)) si))"
  obtains j where "j < N" "p = of_nat (mmr_pos j 0)" "seg_first si \<le> j" "j < seg_first si + 2 ^ seg_height si"
proof -
  obtain e where e: "segment_positions (of_nat (mmr_pos N 0)) si = map of_nat [mmr_pos (seg_first si) 0..<e]"
    "e \<le> mmr_pos N 0" "e \<le> mmr_pos (seg_first si + 2 ^ seg_height si) 0"
    using segment_interval [OF h N lt] by metis
  then obtain k where k: "p = of_nat k" "k < mmr_pos N 0" "mmr_pos (seg_first si) 0 \<le> k"
    "k < mmr_pos (seg_first si + 2 ^ seg_height si) 0"
    using p by auto
  have "mmr_pos N 0 < 2 ^ 52" using N by (intro mmr_pos_small) simp_all
  then have un: "unat p = k" using k by (simp add: unat_of_nat_u64)
  have node: "is_node (leaf_at k) (height_at k)" "mmr_pos (leaf_at k) (height_at k) = k" by (rule coordinates_node)+
  have j: "leaf_at k < N" using node_pos_less_iff [OF node(1), of N] node(2) k(2) by simp
  have "IsLeaf (node (leaf_at k) (height_at k))" using p Index_At_coordinates [of p] un by simp
  then have "height_at k = 0" using IsLeaf_node [of "height_at k"] node_height_small [OF node(1)] j N by simp
  then have k': "k = mmr_pos (leaf_at k) 0" using node(2) by simp
  have "\<not> leaf_at k < seg_first si" using leaf_pos_mono [of "leaf_at k" "seg_first si"] k(3) k' by linarith
  moreover have "\<not> seg_first si + 2 ^ seg_height si \<le> leaf_at k"
    using leaf_pos_le [of "seg_first si + 2 ^ seg_height si" "leaf_at k" 0] k(4) k' by linarith
  ultimately show thesis using that [OF j] k' k(1) by simp
qed

lemma leaf_positions_eq:
  assumes h: "seg_height si < 64" and N: "N < 2 ^ 50" and lt: "seg_first si < N"
  shows "leaf_positions (segment_positions (of_nat (mmr_pos N 0)) si) =
    map (\<lambda>j. of_nat (mmr_pos j 0)) [seg_first si..<min N (seg_first si + 2 ^ seg_height si)]"
proof (rule strict_sorted_equal)
  have small: "mmr_pos N 0 < 2 ^ 52" using N by (intro mmr_pos_small) simp_all
  have mono: "(of_nat a :: u64) < of_nat b" if "a < b" "b < mmr_pos N 0" for a b
    using that small by (simp add: word_less_nat_alt unat_of_nat_u64)
  obtain e where e: "segment_positions (of_nat (mmr_pos N 0)) si = map of_nat [mmr_pos (seg_first si) 0..<e]"
    "e \<le> mmr_pos N 0"
    using segment_interval [OF h N lt] by metis
  have "sorted_wrt (\<lambda>a b. (of_nat a :: u64) < of_nat b) [mmr_pos (seg_first si) 0..<e]"
    by (rule sorted_wrt_mono_rel [OF _ sorted_wrt_upt]) (use mono e(2) in auto)
  then show "sorted_wrt (<) (leaf_positions (segment_positions (of_nat (mmr_pos N 0)) si))"
    unfolding e(1) by (intro sorted_wrt_filter) (simp add: sorted_wrt_map)
  have "sorted_wrt (\<lambda>a b. (of_nat (mmr_pos a 0) :: u64) < of_nat (mmr_pos b 0))
      [seg_first si..<min N (seg_first si + 2 ^ seg_height si)]"
    by (rule sorted_wrt_mono_rel [OF _ sorted_wrt_upt]) (use mono leaf_pos_mono in auto)
  then show "sorted_wrt (<) (map (\<lambda>j. of_nat (mmr_pos j 0) :: u64) [seg_first si..<min N (seg_first si + 2 ^ seg_height si)])"
    by (simp add: sorted_wrt_map)
  show "set (leaf_positions (segment_positions (of_nat (mmr_pos N 0)) si)) =
      set (map (\<lambda>j. of_nat (mmr_pos j 0)) [seg_first si..<min N (seg_first si + 2 ^ seg_height si)])"
  proof (rule equalityI [rotated])
    show "set (map (\<lambda>j. of_nat (mmr_pos j 0)) [seg_first si..<min N (seg_first si + 2 ^ seg_height si)]) \<subseteq>
        set (leaf_positions (segment_positions (of_nat (mmr_pos N 0)) si))"
      using leaf_position_mem [OF h N] by (simp add: image_subset_iff)
    show "set (leaf_positions (segment_positions (of_nat (mmr_pos N 0)) si)) \<subseteq>
        set (map (\<lambda>j. of_nat (mmr_pos j 0)) [seg_first si..<min N (seg_first si + 2 ^ seg_height si)])"
    proof
      fix p assume "p \<in> set (leaf_positions (segment_positions (of_nat (mmr_pos N 0)) si))"
      from leaf_position_cases [OF h N lt this] obtain j where "j < N" "p = of_nat (mmr_pos j 0)" "seg_first si \<le> j"
        "j < seg_first si + 2 ^ seg_height si" .
      then show "p \<in> set (map (\<lambda>j. of_nat (mmr_pos j 0)) [seg_first si..<min N (seg_first si + 2 ^ seg_height si)])" by simp
    qed
  qed
qed

lemma segment_positions_fold:
  "map of_nat [unat (fst (GetPositionRange s si))..<Suc (unat (snd (GetPositionRange s si)))] = segment_positions s si"
  by (simp add: segment_positions_def Let_def)

lemma holds_leaves_positions:
  assumes h: "seg_height (sg_id sg) < 64" and N: "length leaves < 2 ^ 50"
    and hash: "sg_hash_pos sg = []" "sg_hashes sg = []"
    and pos: "sg_leaf_pos sg = leaf_positions (segment_positions (range_size leaves) (sg_id sg))"
    and leaf: "sg_leaves sg = map f (sg_leaf_pos sg)"
    and f: "\<And>j. j < length leaves \<Longrightarrow> ser (f (of_nat (mmr_pos j 0))) = leaves ! j"
  shows "holds_leaves ser leaves sg"
  using leaf_position_mem [OF h N] f provided_map [of _ "sg_leaf_pos sg" f] hash
  unfolding holds_leaves_def well_shaped_def segment_leaf_at_def leaf pos by auto

lemma honest_segment:
  assumes "hash_ok B leaves" "length leaves < 2 ^ 50" "seg_height (sg_id sg) < 64"
    and lt: "seg_first (sg_id sg) < length leaves"
    and "holds_leaves ser leaves sg" "reads_range B leaves reader"
    and "SegmentProof_Generate B (range_size leaves) (fst (GetPositionRange (range_size leaves) (sg_id sg)))
      (snd (GetPositionRange (range_size leaves) (sg_id sg))) None reader = Some (Inr (Some (sg_proof sg)))"
  shows "Segment_Validate B ser (range_size leaves) (mmr_root B leaves) None sg = Some True"
  using honest_segment_full [OF assms(1-3) _ assms(5-7)] honest_segment_partial [OF assms(1-4) _ assms(5-7)] by linarith

text \<open>\<open>Generate\<close> always finds the proof of a segment of the range.\<close>

lemma generate_total:
  assumes rd: "reads_range B leaves reader" and N: "length leaves < 2 ^ 50" and h: "seg_height si < 64"
    and lt: "seg_first si < length leaves"
  obtains hs where "SegmentProof_Generate B (range_size leaves) (fst (GetPositionRange (range_size leaves) si))
    (snd (GetPositionRange (range_size leaves) si)) None reader = Some (Inr (Some hs))"
proof (cases "seg_first si + 2 ^ seg_height si \<le> length leaves")
  case True
  let ?m = "seg_first si + 2 ^ seg_height si - 1"
  have "0 < (2::nat) ^ seg_height si" by simp
  then have m: "Suc ?m = seg_first si + 2 ^ seg_height si" "Suc ?m - 2 ^ seg_height si = seg_first si" "?m < length leaves"
    using True by linarith+
  have node: "is_node ?m (seg_height si)" unfolding is_node_def m(1) using seg_first_dvd [OF h] by simp
  show thesis
    using that generate_full [OF rd N node m(3)] unfolding full_range(2) [OF h N True] m(2) fst_conv snd_conv by blast
next
  case False
  then have lt': "length leaves < seg_first si + 2 ^ seg_height si" by simp
  note range = partial_range [OF h N lt lt']
  have fl: "length leaves div 2 ^ seg_height si * 2 ^ seg_height si < length leaves" using lt range(3) by simp
  obtain high where "peaks (length leaves) = high @ peak_nodes (seg_height si) (length leaves)"
    "\<forall>y \<in> set high. fst y < length leaves div 2 ^ seg_height si * 2 ^ seg_height si"
    "\<forall>y \<in> set (peak_nodes (seg_height si) (length leaves)). length leaves div 2 ^ seg_height si * 2 ^ seg_height si \<le> fst y"
    by (rule high_low)
  from generate_partial [OF rd N fl this] show thesis
    using that unfolding range(2) range(3) [symmetric] fst_conv snd_conv by blast
qed

lemma GetLeafIndex_pos: "j < 2 ^ 50 \<Longrightarrow> unat (GetLeafIndex (Index_At (of_nat (mmr_pos j 0)))) = j"
proof -
  assume j: "j < 2 ^ 50"
  then have "mmr_pos j 0 < 2 ^ 52" by (intro mmr_pos_small) simp_all
  then have un: "unat (of_nat (mmr_pos j 0) :: u64) = mmr_pos j 0" "mmr_pos j 0 < 2 ^ 64 - 1"
    by (simp_all add: unat_of_nat_u64)
  have "GetLeafIndex (Index_At (of_nat (mmr_pos j 0))) = CalculateLeafIndex (of_nat (mmr_pos j 0))"
    using Index_At_leaf [OF j] by (simp add: GetLeafIndex_def node_def)
  also have "\<dots> = of_nat j"
    using CalculateLeafIndex_eq [of "of_nat (mmr_pos j 0)"] un node_coordinates(2) [OF is_node_leaf] by simp
  finally show ?thesis using j by (simp add: unat_of_nat_u64)
qed

section \<open>Kernel segments\<close>

lemma build_positions_kernels:
  assumes "\<forall>p \<in> set (leaf_positions ps). readLeaf (LeafIndex_From (Index_At p)) = Inr (Some (f p))"
  shows "build_positions (build_position mmrSize False readLeaf raw unpruned readHash) ps v =
    Inr (Some (v\<lparr>sv_leaf_pos := sv_leaf_pos v @ leaf_positions ps, sv_leaves := sv_leaves v @ map f (leaf_positions ps)\<rparr>))"
  using assms
proof (induction ps arbitrary: v)
  case (Cons p ps)
  then show ?case by (cases "IsLeaf (Index_At p)") (simp_all add: build_position_def build_hash_def push_leaf_def)
qed simp

text \<open>The segment of kernels that a node builds, and that it validates.\<close>

definition kernel_segment_of ::
  "(LeafIndex \<Rightarrow> 'a option result) \<Rightarrow> u64 \<Rightarrow> SegmentIdentifier \<Rightarrow> SegmentProof \<Rightarrow> 'a Segment" where
  "kernel_segment_of getKernelAt size' si hs =
     (let ps = leaf_positions (segment_positions size' si)
      in \<lparr>sg_id = si, sg_hash_pos = [], sg_hashes = [], sg_leaf_pos = ps,
          sg_leaves = map (\<lambda>p. the (projr (getKernelAt (LeafIndex_From (Index_At p))))) ps, sg_proof = hs\<rparr>)"

lemma kernel_segment_built:
  assumes ok: "hash_ok B leaves" and N: "length leaves < 2 ^ 50" and h: "seg_height si < 64"
    and lt: "seg_first si < length leaves"
    and hash: "\<forall>m h. is_node m h \<longrightarrow> m < length leaves \<longrightarrow> getHashAt (node m h) = Inr (Some (node_hash B leaves m h))"
    and leaf: "\<forall>j < length leaves. \<exists>k. getKernelAt (LeafIndex_From (node j 0)) = Inr (Some k) \<and> ser k = leaves ! j"
  shows "\<exists>hs. KernelSegment B (range_size leaves) getKernelAt getHashAt si =
      Some (Inr (Some (kernel_segment_of getKernelAt (range_size leaves) si hs))) \<and>
    Segment_Validate B ser (range_size leaves) (mmr_root B leaves) None
      (kernel_segment_of getKernelAt (range_size leaves) si hs) = Some True"
proof -
  let ?ps = "segment_positions (range_size leaves) si" and ?rng = "GetPositionRange (range_size leaves) si"
  let ?f = "\<lambda>p. the (projr (getKernelAt (LeafIndex_From (Index_At p))))"
  have f: "getKernelAt (LeafIndex_From (Index_At (of_nat (mmr_pos j 0)))) = Inr (Some (?f (of_nat (mmr_pos j 0)))) \<and>
      ser (?f (of_nat (mmr_pos j 0))) = leaves ! j" if "j < length leaves" for j
    using leaf that Index_At_leaf [of j] N by auto
  have rd: "reads_range B leaves (\<lambda>position. getHashAt (Index_At position))"
    using hash Index_At_pos N unfolding reads_range_def by simp
  obtain hs where gen: "SegmentProof_Generate B (range_size leaves) (fst ?rng) (snd ?rng) None
      (\<lambda>position. getHashAt (Index_At position)) = Some (Inr (Some hs))"
    using generate_total [OF rd N h lt] .
  have leaf_pos: "\<forall>p \<in> set (leaf_positions ?ps). getKernelAt (LeafIndex_From (Index_At p)) = Inr (Some (?f p))"
    using f leaf_position_cases [OF h N lt] by metis
  let ?sg = "\<lparr>sg_id = si, sg_hash_pos = [], sg_hashes = [], sg_leaf_pos = leaf_positions ?ps,
      sg_leaves = map ?f (leaf_positions ?ps), sg_proof = hs\<rparr>"
  have "of_nat (mmr_pos (seg_first si) 0) \<in> set (leaf_positions ?ps)" using h lt by (intro leaf_position_mem [OF h N]) simp_all
  then have ne: "leaf_positions ?ps \<noteq> []" by force
  have "GetSegmentUnprunedSize (range_size leaves) si \<noteq> 0" using segment_interval [OF h N lt] by metis
  then have "KernelSegment B (range_size leaves) getKernelAt getHashAt si = Some (Inr (Some ?sg))"
    using build_positions_kernels [OF leaf_pos, where v = vectors_empty] ne gen
    by (simp add: KernelSegment_def BuildSegment_def segment_positions_fold Let_def start_position_def vectors_empty_def
        del: upt_Suc)
  moreover have "holds_leaves ser leaves ?sg" using f by (intro holds_leaves_positions [where f = ?f, OF _ N]) (simp_all add: h)
  then have "Segment_Validate B ser (range_size leaves) (mmr_root B leaves) None ?sg = Some True"
    using gen by (intro honest_segment [OF ok N _ _ _ rd]) (simp_all add: h lt)
  ultimately show ?thesis by (intro exI [of _ hs]) (simp add: kernel_segment_of_def Let_def)
qed

text \<open>
  A kernel segment that a node builds from its own range is found and validates against the root of the
  range, for every identifier whose interval starts inside the range.
\<close>

theorem kernel_segment_validates:
  assumes ok: "hash_ok B leaves" and N: "length leaves < 2 ^ 50" and h: "seg_height si < 64"
    and lt: "seg_first si < length leaves"
    and hash: "\<forall>m h. is_node m h \<longrightarrow> m < length leaves \<longrightarrow> getHashAt (node m h) = Inr (Some (node_hash B leaves m h))"
    and leaf: "\<forall>j < length leaves. \<exists>k. getKernelAt (LeafIndex_From (node j 0)) = Inr (Some k) \<and> ser k = leaves ! j"
  shows "\<exists>sg. KernelSegment B (range_size leaves) getKernelAt getHashAt si = Some (Inr (Some sg)) \<and> sg_id sg = si \<and>
    Segment_Validate B ser (range_size leaves) (mmr_root B leaves) None sg = Some True"
  using kernel_segment_built [OF assms] by (auto simp: kernel_segment_of_def Let_def)

text \<open>A hash function of one value and the readers of a range over three leaves.\<close>

definition one_hash :: "bytes \<Rightarrow> bytes" where
  "one_hash x = replicate 32 1"

lemma one_hash_ok: "hash_ok one_hash leaves"
proof -
  have "\<not> BigInteger_equal (replicate 32 1) ZERO_HASH"
    by (simp add: ZERO_HASH_def BigInteger_ValueOf_def numeral_eq_Suc)
  then show ?thesis by (simp add: hash_ok_def one_hash_def)
qed

lemma one_hash_node: "node_hash one_hash leaves m h = replicate 32 1"
  by (cases h) (simp_all add: HashLeafWithIndex_def HashParentWithIndex_def one_hash_def)

theorem kernel_segment_validates_witness:
  "let leaves = [[1], [2], [3]]; si = \<lparr>si_height = 1, si_index = 1\<rparr>
   in \<exists>sg. KernelSegment one_hash (range_size leaves) (\<lambda>l. Inr (Some (leaves ! unat (m_leafIndex l))))
        (\<lambda>_. Inr (Some (replicate 32 1))) si = Some (Inr (Some sg)) \<and> sg_id sg = si \<and>
      Segment_Validate one_hash id (range_size leaves) (mmr_root one_hash leaves) None sg = Some True"
  unfolding Let_def
proof (rule kernel_segment_validates [OF one_hash_ok])
  have idx: "unat (m_leafIndex (LeafIndex_From (node j 0))) = j" if "j < 3" for j
    using GetLeafIndex_pos [of j] Index_At_leaf [of j] that by (simp add: LeafIndex_From_def)
  then show "\<forall>j < length [[1], [2], [3 :: u8]]. \<exists>k. Inr (Some ([[1], [2], [3]] ! unat (m_leafIndex (LeafIndex_From (node j 0))))) =
      (Inr (Some k) :: bytes option result) \<and> id k = [[1], [2], [3]] ! j"
    by (simp add: numeral_3_eq_3)
qed (simp_all add: one_hash_node GetLeafOffset_def GetSegmentCapacity_def)

section \<open>Bitmap segments\<close>

lemma collect_chunks_map:
  assumes "\<forall>p \<in> set (leaf_positions ps). unat (GetLeafIndex (Index_At p)) < length cs" "length cs < 2 ^ 64"
  shows "collect_chunks cs ps =
    Some (leaf_positions ps, map (\<lambda>p. cs ! unat (GetLeafIndex (Index_At p))) (leaf_positions ps))"
  using assms by (induction ps) (auto simp: word_le_nat_alt unat_of_nat_u64)

lemma no_zero_hash_ok: "hash_ok B leaves \<Longrightarrow> no_zero_hash B leaves"
proof -
  assume ok: "hash_ok B leaves"
  have "\<not> BigInteger_equal (hash_at B leaves p) ZERO_HASH" if "p < mmr_pos (length leaves) 0" for p
  proof -
    have node: "is_node (leaf_at p) (height_at p)" "mmr_pos (leaf_at p) (height_at p) = p" by (rule coordinates_node)+
    then have "leaf_at p < length leaves" using that node_pos_less_iff [OF node(1)] by simp
    then show ?thesis using node_hash_nonzero [OF ok node(1)] hash_at_node [OF node(1), of B leaves] node(2) by simp
  qed
  then show ?thesis by (simp add: no_zero_hash_def mmr_hashes_def list_all_iff)
qed

lemma reads_accumulator:
  assumes N: "length leaves < 2 ^ 50"
  shows "reads_range B leaves
    (\<lambda>position. Inr (Accumulator_GetHashAt \<lparr>ba_chunks = cs, ba_nodes = mmr_hashes B leaves\<rparr> position))"
  unfolding reads_range_def
proof (intro allI impI)
  fix m h assume node: "is_node m h" and m: "m < length leaves"
  have lt: "mmr_pos m h < mmr_pos (length leaves) 0" using node_pos_less_iff [OF node] m by simp
  have small: "mmr_pos (length leaves) 0 < 2 ^ 64" using mmr_pos_small [of "length leaves" 0] N by simp
  then show "Inr (Accumulator_GetHashAt \<lparr>ba_chunks = cs, ba_nodes = mmr_hashes B leaves\<rparr> (of_nat (mmr_pos m h))) =
      Inr (Some (node_hash B leaves m h))"
    using lt hash_at_node [OF node, of B leaves]
    by (simp add: Accumulator_GetHashAt_def mmr_hashes_def word_le_nat_alt unat_of_nat_u64)
qed

lemma bitmap_segment_built:
  assumes N: "length cs < 2 ^ 50" and h: "seg_height si < 64" and lt: "seg_first si < length cs"
    and acc: "acc = \<lparr>ba_chunks = cs, ba_nodes = mmr_hashes B cs\<rparr>"
    and gen: "SegmentProof_Generate B (range_size cs) (fst (GetPositionRange (range_size cs) si))
      (snd (GetPositionRange (range_size cs) si)) None (\<lambda>position. Inr (Accumulator_GetHashAt acc position)) = Some (Inr (Some hs))"
  shows "OutputBitmapSegment B si acc = Some (Inr (Some (FromSegment
    \<lparr>sg_id = si, sg_hash_pos = [], sg_hashes = [],
     sg_leaf_pos = map (\<lambda>j. of_nat (mmr_pos j 0)) [seg_first si..<min (length cs) (seg_first si + 2 ^ seg_height si)],
     sg_leaves = map ((!) cs) [seg_first si..<min (length cs) (seg_first si + 2 ^ seg_height si)], sg_proof = hs\<rparr>)))"
proof -
  let ?js = "[seg_first si..<min (length cs) (seg_first si + 2 ^ seg_height si)]"
  have size: "GetMMRSize acc = range_size cs" by (simp add: GetMMRSize_def acc mmr_hashes_def)
  have idx: "unat (GetLeafIndex (Index_At (of_nat (mmr_pos j 0)))) = j" if "j < length cs" for j
    using that N by (intro GetLeafIndex_pos) simp
  have "collect_chunks cs (segment_positions (range_size cs) si) =
      Some (map (\<lambda>j. of_nat (mmr_pos j 0)) ?js, map ((!) cs) ?js)"
    using collect_chunks_map [of "segment_positions (range_size cs) si" cs] idx N
    unfolding leaf_positions_eq [OF h N lt] by (simp add: comp_def)
  moreover have "GetSegmentUnprunedSize (range_size cs) si \<noteq> 0" using segment_interval [OF h N lt] by metis
  moreover have "ba_chunks acc = cs" by (simp add: acc)
  ultimately show ?thesis
    using gen by (simp add: OutputBitmapSegment_def size segment_positions_fold Let_def del: upt_Suc)
qed

text \<open>
  C8. A bitmap segment that a node builds from its accumulator is found, unpacks on the other side to a segment with
  all its chunks, and validates against the root of the accumulator.
\<close>

theorem bitmap_segment_validates:
  assumes ok: "hash_ok B cs" and chunks: "chunks_ok cs" and N: "length cs < 2 ^ 50"
    and h: "seg_height si < 64" and lt: "seg_first si < length cs"
  shows "\<exists>acc root bs sg. append_chunks B cs Accumulator_New = Some (Inr acc) \<and> Accumulator_Root B acc = Inr root \<and>
    OutputBitmapSegment B si acc = Some (Inr (Some bs)) \<and> ToSegment bs = Inr sg \<and>
    Segment_Validate B Chunk_Serialize (GetMMRSize acc) root None sg = Some True"
proof -
  let ?acc = "\<lparr>ba_chunks = cs, ba_nodes = mmr_hashes B cs\<rparr>"
  let ?js = "[seg_first si..<min (length cs) (seg_first si + 2 ^ seg_height si)]"
  have acc: "append_chunks B cs Accumulator_New = Some (Inr ?acc)"
    using append_chunks_correct [of "[]" cs B] N
    by (simp add: Accumulator_New_def mmr_hashes_def [of B "[]"] mmr_pos_def map_idI)
  have root: "Accumulator_Root B ?acc = Inr (mmr_root B cs)"
    by (rule Accumulator_Root_correct [OF N no_zero_hash_ok [OF ok]])
  note rd = reads_accumulator [OF N, of B cs]
  obtain hs where gen: "SegmentProof_Generate B (range_size cs) (fst (GetPositionRange (range_size cs) si))
      (snd (GetPositionRange (range_size cs) si)) None (\<lambda>position. Inr (Accumulator_GetHashAt ?acc position)) = Some (Inr (Some hs))"
    using generate_total [OF rd N h lt] .
  let ?sg = "\<lparr>sg_id = si, sg_hash_pos = [], sg_hashes = [], sg_leaf_pos = map (\<lambda>j. of_nat (mmr_pos j 0)) ?js,
     sg_leaves = map ((!) cs) ?js, sg_proof = hs\<rparr>"
  note built = bitmap_segment_built [OF N h lt refl gen]
  have len: "min (length cs) (seg_first si + 2 ^ seg_height si) \<le> length cs" by simp
  have "chunks_ok (map ((!) cs) ?js)" using chunks len by (auto simp: all_set_conv_all_nth)
  moreover have "map (\<lambda>i. LeafIndex_GetPosition (LeafIndex_At (GetLeafOffset si + of_nat i))) [0..<length ?js] =
      map (\<lambda>j. of_nat (mmr_pos j 0)) ?js"
  proof (rule nth_equalityI)
    fix i assume "i < length (map (\<lambda>i. LeafIndex_GetPosition (LeafIndex_At (GetLeafOffset si + of_nat i))) [0..<length ?js])"
    then have i: "i < length ?js" "seg_first si + i < 2 ^ 50" using N by auto
    then have "unat (GetLeafOffset si + of_nat i) = seg_first si + i"
      by (subst unat_add_no_overflow) (simp_all add: unat_of_nat_u64)
    then show "map (\<lambda>i. LeafIndex_GetPosition (LeafIndex_At (GetLeafOffset si + of_nat i))) [0..<length ?js] ! i =
        map (\<lambda>j. of_nat (mmr_pos j 0)) ?js ! i"
      using i(1) nth_upt [of "seg_first si" i "min (length cs) (seg_first si + 2 ^ seg_height si)"]
      by (simp add: LeafIndex_At_position less_diff_conv add.commute)
  qed simp
  ultimately have unpack: "ToSegment (FromSegment ?sg) = Inr ?sg"
    by (simp add: ToSegment_def FromSegment_def chunks_of_blocks_of Let_def)
  have "sg_leaves ?sg = map (\<lambda>p. cs ! unat (GetLeafIndex (Index_At p))) (sg_leaf_pos ?sg)"
    using GetLeafIndex_pos N len by simp
  then have "holds_leaves Chunk_Serialize cs ?sg"
    using GetLeafIndex_pos N
    by (intro holds_leaves_positions [where f = "\<lambda>p. cs ! unat (GetLeafIndex (Index_At p))", OF _ N])
       (simp_all add: h leaf_positions_eq [OF h N lt])
  then have "Segment_Validate B Chunk_Serialize (range_size cs) (mmr_root B cs) None ?sg = Some True"
    using gen by (intro honest_segment [OF ok N _ _ _ rd]) (simp_all add: h lt)
  moreover have "GetMMRSize ?acc = range_size cs" by (simp add: GetMMRSize_def mmr_hashes_def)
  ultimately show ?thesis using acc root built unpack by metis
qed

theorem bitmap_segment_validates_witness:
  "let cs = [BitmapChunk_New, Chunk_Set 5 True BitmapChunk_New, BitmapChunk_New]; si = \<lparr>si_height = 0, si_index = 1\<rparr>
   in \<exists>acc root bs sg. append_chunks one_hash cs Accumulator_New = Some (Inr acc) \<and> Accumulator_Root one_hash acc = Inr root \<and>
      OutputBitmapSegment one_hash si acc = Some (Inr (Some bs)) \<and> ToSegment bs = Inr sg \<and>
      Segment_Validate one_hash Chunk_Serialize (GetMMRSize acc) root None sg = Some True"
  unfolding Let_def
  by (rule bitmap_segment_validates [OF one_hash_ok])
     (simp_all add: GetLeafOffset_def GetSegmentCapacity_def length_New)

end
