(* ===== verification/Desegmenter.thy ===== *)
theory Desegmenter
  imports SegmentComplete BlockModels
begin

text \<open>
  \<^verbatim>\<open>include/PMMR/TxHashSetDesegmenter.h\<close>: the state machine that a new node runs while it downloads the ranges in
  segments. It validates the segments it is given against the archive header, caches them, says which segments
  to ask for next, and hands the cached segments over in order. The types of the leaves and their serializations
  are parameters; so are the callbacks that apply a segment, which have a state of their own, may refuse a segment
  and may throw. \<open>None\<close> around a result is a loop of \<open>FamilyBranch\<close> or of the bitmap accumulator that does not end.
\<close>

section \<open>Parameters\<close>

definition BITMAP_SEGMENT_HEIGHT :: u8 where "BITMAP_SEGMENT_HEIGHT = 9"
definition OUTPUT_SEGMENT_HEIGHT :: u8 where "OUTPUT_SEGMENT_HEIGHT = 11"
definition RANGEPROOF_SEGMENT_HEIGHT :: u8 where "RANGEPROOF_SEGMENT_HEIGHT = 11"
definition KERNEL_SEGMENT_HEIGHT :: u8 where "KERNEL_SEGMENT_HEIGHT = 11"
definition MAX_CACHED_SEGMENTS :: nat where "MAX_CACHED_SEGMENTS = 30"
definition SEGMENT_APPLY_BATCH_SIZE :: nat where "SEGMENT_APPLY_BATCH_SIZE = 12"

datatype SegmentType = OutputBitmap | Output | RangeProof | Kernel

type_synonym SegmentTypeIdentifier = "SegmentType \<times> SegmentIdentifier"

fun ValidateHeight :: "SegmentType \<Rightarrow> u8 \<Rightarrow> bool" where
  "ValidateHeight OutputBitmap height = (9 \<le> height \<and> height \<le> 14)"
| "ValidateHeight Output height = (11 \<le> height \<and> height \<le> 16)"
| "ValidateHeight RangeProof height = (7 \<le> height \<and> height \<le> 12)"
| "ValidateHeight Kernel height = (9 \<le> height \<and> height \<le> 14)"

section \<open>Which segments are applied, cached and required\<close>

definition CacheSegment :: "'a Segment list \<Rightarrow> 'a Segment \<Rightarrow> 'a Segment list" where
  "CacheSegment cache segment =
     (if list_ex (\<lambda>cached. sg_id cached = sg_id segment) cache then cache else cache @ [segment])"

definition HasSegment :: "'a Segment list \<Rightarrow> SegmentIdentifier \<Rightarrow> bool" where
  "HasSegment cache identifier = list_ex (\<lambda>segment. sg_id segment = identifier) cache"

definition NextRequiredSegmentIndex :: "u64 \<Rightarrow> u8 \<Rightarrow> u64" where
  "NextRequiredSegmentIndex localMMRSize height =
     (if localMMRSize = 0 \<or> localMMRSize = 1 then 0
      else
        let segmentCount = CountSegmentsRequired localMMRSize height;
            theoreticalSize = GetPMMRSize segmentCount height
        in if 0 < segmentCount \<and> localMMRSize < theoreticalSize then segmentCount - 1 else segmentCount)"

definition IsSegmentApplied :: "SegmentIdentifier \<Rightarrow> u64 \<Rightarrow> u64 \<Rightarrow> bool" where
  "IsSegmentApplied identifier targetMMRSize appliedMMRSize =
     (if appliedMMRSize = 0 \<or> GetSegmentUnprunedSize targetMMRSize identifier = 0 then False
      else snd (GetPositionRange targetMMRSize identifier) < appliedMMRSize)"

definition AppliedMMRSizeAfterSegment :: "SegmentIdentifier \<Rightarrow> u64 \<Rightarrow> u64" where
  "AppliedMMRSizeAfterSegment identifier targetMMRSize =
     min (GetPMMRSize (si_index identifier + 1) (si_height identifier)) targetMMRSize"

text \<open>\<open>find_if\<close> by index followed by \<open>erase\<close>: the first segment with the index, and the cache without it.\<close>

fun take_index :: "u64 \<Rightarrow> 'a Segment list \<Rightarrow> ('a Segment \<times> 'a Segment list) option" where
  "take_index nextIndex [] = None"
| "take_index nextIndex (segment # cache) =
     (if si_index (sg_id segment) = nextIndex then Some (segment, cache)
      else map_option (\<lambda>(found, rest). (found, segment # rest)) (take_index nextIndex cache))"

section \<open>Taking and applying ready segments\<close>

text \<open>The loop runs at most \<open>SEGMENT_APPLY_BATCH_SIZE\<close> rounds; the first argument is the number of rounds left.\<close>

fun take_ready :: "nat \<Rightarrow> u64 \<Rightarrow> u64 \<Rightarrow> 'a Segment list \<Rightarrow> u64 \<Rightarrow> 'a Segment list \<times> 'a Segment list \<times> u64" where
  "take_ready 0 nextIndex targetMMRSize cache appliedMMRSize = ([], cache, appliedMMRSize)"
| "take_ready (Suc n) nextIndex targetMMRSize cache appliedMMRSize =
     (case take_index nextIndex cache of
        None \<Rightarrow> ([], cache, appliedMMRSize)
      | Some (segment, cache) \<Rightarrow>
          let (result, cache, appliedMMRSize) =
                take_ready n (nextIndex + 1) targetMMRSize cache
                  (AppliedMMRSizeAfterSegment (sg_id segment) targetMMRSize)
          in (segment # result, cache, appliedMMRSize))"

definition TakeReadySegmentBatch ::
  "'a Segment list \<Rightarrow> u64 \<Rightarrow> u8 \<Rightarrow> u64 \<Rightarrow> 'a Segment list \<times> 'a Segment list \<times> u64" where
  "TakeReadySegmentBatch cache appliedMMRSize height targetMMRSize =
     take_ready SEGMENT_APPLY_BATCH_SIZE (NextRequiredSegmentIndex appliedMMRSize height) targetMMRSize cache
       appliedMMRSize"

text \<open>
  The cache and the applied size are references: what was applied before a refusal or an exception stays
  applied. The result is the number of segments applied, or no number when a segment was refused. A callback that
  does not return is \<open>None\<close>.
\<close>

type_synonym ('a, 's) applier = "'a Segment \<Rightarrow> u64 \<Rightarrow> 's \<Rightarrow> (bool result \<times> 's) option"

fun apply_ready ::
  "('a, 's) applier \<Rightarrow> nat \<Rightarrow> u64 \<Rightarrow> u64 \<Rightarrow> nat \<Rightarrow> 'a Segment list \<Rightarrow> u64 \<Rightarrow> 's \<Rightarrow>
   (nat option result \<times> 'a Segment list \<times> u64 \<times> 's) option" where
  "apply_ready applySegment 0 nextIndex targetMMRSize appliedCount cache appliedMMRSize s =
     Some (Inr (Some appliedCount), cache, appliedMMRSize, s)"
| "apply_ready applySegment (Suc n) nextIndex targetMMRSize appliedCount cache appliedMMRSize s =
     (case take_index nextIndex cache of
        None \<Rightarrow> Some (Inr (Some appliedCount), cache, appliedMMRSize, s)
      | Some (segment, rest) \<Rightarrow>
          (case applySegment segment targetMMRSize s of
             None \<Rightarrow> None
           | Some (Inl e, s) \<Rightarrow> Some (Inl e, cache, appliedMMRSize, s)
           | Some (Inr False, s) \<Rightarrow> Some (Inr None, cache, appliedMMRSize, s)
           | Some (Inr True, s) \<Rightarrow>
               apply_ready applySegment n (nextIndex + 1) targetMMRSize (Suc appliedCount) rest
                 (AppliedMMRSizeAfterSegment (sg_id segment) targetMMRSize) s))"

definition ApplyReadySegmentBatch ::
  "('a, 's) applier \<Rightarrow> 'a Segment list \<Rightarrow> u64 \<Rightarrow> u8 \<Rightarrow> u64 \<Rightarrow> 's \<Rightarrow>
   (nat option result \<times> 'a Segment list \<times> u64 \<times> 's) option" where
  "ApplyReadySegmentBatch applySegment cache appliedMMRSize height targetMMRSize s =
     apply_ready applySegment SEGMENT_APPLY_BATCH_SIZE (NextRequiredSegmentIndex appliedMMRSize height) targetMMRSize 0
       cache appliedMMRSize s"

section \<open>Which segments to ask for\<close>

text \<open>The indices not looked at yet are a list; its end is the number of segments of the range.\<close>

fun append_desired ::
  "SegmentType \<Rightarrow> nat \<Rightarrow> u64 \<Rightarrow> u8 \<Rightarrow> u64 \<Rightarrow> 'a Segment list \<Rightarrow> nat list \<Rightarrow> SegmentTypeIdentifier list \<Rightarrow>
   SegmentTypeIdentifier list" where
  "append_desired ty maxElements targetMMRSize height localMMRSize cache [] desired = desired"
| "append_desired ty maxElements targetMMRSize height localMMRSize cache (nextIndex # indices) desired =
     (if maxElements \<le> length desired then desired
      else
        let identifier = \<lparr>si_height = height, si_index = of_nat nextIndex\<rparr>
        in if \<not> IsSegmentApplied identifier targetMMRSize localMMRSize \<and> \<not> HasSegment cache identifier then
             if MAX_CACHED_SEGMENTS \<le> length cache then desired @ [(ty, identifier)]
             else append_desired ty maxElements targetMMRSize height localMMRSize cache indices
                    (desired @ [(ty, identifier)])
           else append_desired ty maxElements targetMMRSize height localMMRSize cache indices desired)"

definition AppendDesiredSegments ::
  "SegmentTypeIdentifier list \<Rightarrow> nat \<Rightarrow> SegmentType \<Rightarrow> u64 \<Rightarrow> u8 \<Rightarrow> u64 \<Rightarrow> 'a Segment list \<Rightarrow>
   SegmentTypeIdentifier list" where
  "AppendDesiredSegments desired maxElements ty targetMMRSize height localMMRSize cache =
     append_desired ty maxElements targetMMRSize height localMMRSize cache
       [unat (NextRequiredSegmentIndex localMMRSize height)..<unat (CountSegmentsRequired targetMMRSize height)] desired"

definition AppendBlockingSegment ::
  "SegmentTypeIdentifier list \<Rightarrow> SegmentType \<Rightarrow> u64 \<Rightarrow> u8 \<Rightarrow> u64 \<Rightarrow> 'a Segment list \<Rightarrow> SegmentTypeIdentifier list" where
  "AppendBlockingSegment blockers ty targetMMRSize height localMMRSize cache =
     (let totalSegments = CountSegmentsRequired targetMMRSize height;
          nextIndex = NextRequiredSegmentIndex localMMRSize height;
          identifier = \<lparr>si_height = height, si_index = nextIndex\<rparr>
      in if totalSegments \<le> nextIndex then blockers
         else if \<not> IsSegmentApplied identifier targetMMRSize localMMRSize \<and> \<not> HasSegment cache identifier
         then blockers @ [(ty, identifier)]
         else blockers)"

text \<open>
  The loops that take one segment of each type in turn, starting with a type that changes from call to call. A
  round that finds nothing ends the loop.
\<close>

definition desired_round ::
  "nat \<Rightarrow> nat \<Rightarrow> nat \<Rightarrow> 'i list \<Rightarrow> 'i list \<Rightarrow> 'i list \<Rightarrow> 'i list \<Rightarrow> bool \<times> 'i list" where
  "desired_round maxElements typeOffset index outputDesired rangeProofDesired kernelDesired desired =
     fold (\<lambda>typeIndex (appended, desired).
       if maxElements \<le> length desired then (appended, desired)
       else
         let rotatedType = (typeOffset + typeIndex) mod 3
         in if rotatedType = 0 \<and> index < length outputDesired then (True, desired @ [outputDesired ! index])
            else if rotatedType = 1 \<and> index < length rangeProofDesired then (True, desired @ [rangeProofDesired ! index])
            else if rotatedType = 2 \<and> index < length kernelDesired then (True, desired @ [kernelDesired ! index])
            else (appended, desired)) [0..<3] (False, desired)"

lemma fold_fixed: "(\<And>x. f x st = st) \<Longrightarrow> fold f xs st = st"
  by (induction xs) simp_all

lemma desired_round_appends:
  "desired_round m t i os rs ks ds = (True, ds') \<Longrightarrow> i < length os \<or> i < length rs \<or> i < length ks"
proof (rule ccontr)
  assume round: "desired_round m t i os rs ks ds = (True, ds')" and "\<not> (i < length os \<or> i < length rs \<or> i < length ks)"
  then have "desired_round m t i os rs ks ds = (False, ds)"
    unfolding desired_round_def by (intro fold_fixed) simp
  then show False using round by simp
qed

function desired_loop ::
  "nat \<Rightarrow> nat \<Rightarrow> nat \<Rightarrow> 'i list \<Rightarrow> 'i list \<Rightarrow> 'i list \<Rightarrow> 'i list \<Rightarrow> 'i list" where
  "desired_loop maxElements typeOffset index outputDesired rangeProofDesired kernelDesired desired =
     (if maxElements \<le> length desired then desired
      else
        case desired_round maxElements typeOffset index outputDesired rangeProofDesired kernelDesired desired of
          (False, desired) \<Rightarrow> desired
        | (True, desired) \<Rightarrow>
            desired_loop maxElements typeOffset (Suc index) outputDesired rangeProofDesired kernelDesired desired)"
  by auto
termination
  by (relation "measure (\<lambda>(m, t, i, os, rs, ks, ds). length os + length rs + length ks - i)")
     (auto dest!: desired_round_appends [OF sym])

declare desired_loop.simps [simp del]

section \<open>The state\<close>

record ('o, 'r, 'k) Desegmenter =
  ds_archiveHeader :: BlockHeader
  ds_bitmapAccumulator :: BitmapAccumulator
  ds_bitmapCacheComplete :: bool
  ds_allSegmentsComplete :: bool
  ds_bitmapMMRSize :: u64
  ds_appliedBitmapMMRSize :: u64
  ds_appliedOutputMMRSize :: u64
  ds_appliedRangeProofMMRSize :: u64
  ds_appliedKernelMMRSize :: u64
  ds_nextDesiredTypeOffset :: u64
  ds_bitmapSegments :: "BitmapChunk Segment list"
  ds_outputSegments :: "'o Segment list"
  ds_rangeProofSegments :: "'r Segment list"
  ds_kernelSegments :: "'k Segment list"

definition CalculateBitmapMMRSizes :: "BlockHeader \<Rightarrow> u64" where
  "CalculateBitmapMMRSizes header =
     (let outputLeaves = CountLeaves (h_outputMMRSize header);
          bitmapLeaves = (outputLeaves + LEN_BITS - 1) div LEN_BITS
      in if bitmapLeaves = 0 then 0 else LeafIndex_GetPosition (LeafIndex_At bitmapLeaves))"

text \<open>The constructor calls \<open>Reset\<close>, which sets every field but the header.\<close>

definition Desegmenter_Reset :: "BlockHeader \<Rightarrow> ('o, 'r, 'k) Desegmenter" where
  "Desegmenter_Reset header =
     \<lparr>ds_archiveHeader = header, ds_bitmapAccumulator = Accumulator_New, ds_bitmapCacheComplete = False,
      ds_allSegmentsComplete = False, ds_bitmapMMRSize = CalculateBitmapMMRSizes header, ds_appliedBitmapMMRSize = 0,
      ds_appliedOutputMMRSize = 0, ds_appliedRangeProofMMRSize = 0, ds_appliedKernelMMRSize = 0,
      ds_nextDesiredTypeOffset = 0, ds_bitmapSegments = [], ds_outputSegments = [], ds_rangeProofSegments = [],
      ds_kernelSegments = []\<rparr>"

fun IsApplied :: "SegmentTypeIdentifier \<Rightarrow> ('o, 'r, 'k) Desegmenter \<Rightarrow> bool" where
  "IsApplied (OutputBitmap, identifier) ds =
     IsSegmentApplied identifier (ds_bitmapMMRSize ds) (ds_appliedBitmapMMRSize ds)"
| "IsApplied (Output, identifier) ds =
     IsSegmentApplied identifier (h_outputMMRSize (ds_archiveHeader ds)) (ds_appliedOutputMMRSize ds)"
| "IsApplied (RangeProof, identifier) ds =
     IsSegmentApplied identifier (h_outputMMRSize (ds_archiveHeader ds)) (ds_appliedRangeProofMMRSize ds)"
| "IsApplied (Kernel, identifier) ds =
     IsSegmentApplied identifier (h_kernelMMRSize (ds_archiveHeader ds)) (ds_appliedKernelMMRSize ds)"

definition GetCompletedLeaves :: "('o, 'r, 'k) Desegmenter \<Rightarrow> u64" where
  "GetCompletedLeaves ds =
     CountLeaves (ds_appliedBitmapMMRSize ds) + CountLeaves (ds_appliedOutputMMRSize ds) +
     CountLeaves (ds_appliedRangeProofMMRSize ds) + CountLeaves (ds_appliedKernelMMRSize ds)"

definition GetLeavesRequired :: "('o, 'r, 'k) Desegmenter \<Rightarrow> u64" where
  "GetLeavesRequired ds =
     CountLeaves (ds_bitmapMMRSize ds) + CountLeaves (h_outputMMRSize (ds_archiveHeader ds)) * 2 +
     CountLeaves (h_kernelMMRSize (ds_archiveHeader ds))"

definition GetCompletedToHeight :: "('o, 'r, 'k) Desegmenter \<Rightarrow> u64" where
  "GetCompletedToHeight ds =
     (let leavesRequired = GetLeavesRequired ds
      in if leavesRequired = 0 then 0
         else
           let completedLeaves = min (GetCompletedLeaves ds) leavesRequired;
               requiredHeight = h_height (ds_archiveHeader ds)
           in min requiredHeight (completedLeaves * requiredHeight div leavesRequired))"

definition SetAppliedMMRSizes :: "u64 \<Rightarrow> u64 \<Rightarrow> u64 \<Rightarrow> ('o, 'r, 'k) Desegmenter \<Rightarrow> ('o, 'r, 'k) Desegmenter" where
  "SetAppliedMMRSizes outputMMRSize rangeProofMMRSize kernelMMRSize ds =
     ds\<lparr>ds_appliedOutputMMRSize := min outputMMRSize (h_outputMMRSize (ds_archiveHeader ds)),
        ds_appliedRangeProofMMRSize := min rangeProofMMRSize (h_outputMMRSize (ds_archiveHeader ds)),
        ds_appliedKernelMMRSize := min kernelMMRSize (h_kernelMMRSize (ds_archiveHeader ds))\<rparr>"

section \<open>Adding segments\<close>

definition AddBitmapSegment ::
  "(bytes \<Rightarrow> bytes) \<Rightarrow> BitmapSegment \<Rightarrow> bytes \<Rightarrow> ('o, 'r, 'k) Desegmenter \<Rightarrow>
   (bool \<times> ('o, 'r, 'k) Desegmenter) result option" where
  "AddBitmapSegment Blake2b bitmapSegment outputRoot ds =
     (case ToSegment bitmapSegment of
        Inl e \<Rightarrow> Some (Inl e)
      | Inr segment \<Rightarrow>
          if \<not> ValidateHeight OutputBitmap (si_height (sg_id segment)) then Some (Inr (False, ds))
          else
            map_option (\<lambda>valid.
              Inr (if valid then (True, ds\<lparr>ds_bitmapSegments := CacheSegment (ds_bitmapSegments ds) segment\<rparr>)
                   else (False, ds)))
              (Segment_ValidateWith Blake2b Chunk_Serialize (ds_bitmapMMRSize ds) (h_outputRoot (ds_archiveHeader ds))
                (h_outputMMRSize (ds_archiveHeader ds)) outputRoot True None segment))"

text \<open>The second validation, with the root of the message, is only for the log.\<close>

definition AddOutputSegment ::
  "(bytes \<Rightarrow> bytes) \<Rightarrow> ('o \<Rightarrow> bytes) \<Rightarrow> 'o Segment \<Rightarrow> ('o, 'r, 'k) Desegmenter \<Rightarrow>
   (bool \<times> ('o, 'r, 'k) Desegmenter) result option" where
  "AddOutputSegment Blake2b ser segment ds =
     (if \<not> ValidateHeight Output (si_height (sg_id segment)) then Some (Inr (False, ds))
      else if \<not> ds_bitmapCacheComplete ds then Some (Inr (False, ds))
      else
        let mmrSize = h_outputMMRSize (ds_archiveHeader ds)
        in case FirstUnprunedParent Blake2b ser mmrSize (Some (ds_bitmapAccumulator ds)) segment of
             None \<Rightarrow> None
           | Some None \<Rightarrow> Some (Inr (False, ds))
           | Some (Some (hash, pos)) \<Rightarrow>
               let posRange = GetPositionRange mmrSize (sg_id segment)
               in case Accumulator_Root Blake2b (ds_bitmapAccumulator ds) of
                    Inl e \<Rightarrow> Some (Inl e)
                  | Inr localBitmapRoot \<Rightarrow>
                      map_option (\<lambda>merged.
                        Inr (if merged then (True, ds\<lparr>ds_outputSegments := CacheSegment (ds_outputSegments ds) segment\<rparr>)
                             else (False, ds)))
                        (SegmentProof_ValidateWith Blake2b mmrSize (fst posRange) (snd posRange) hash pos mmrSize
                          localBitmapRoot False (h_outputRoot (ds_archiveHeader ds)) (sg_proof segment)))"

text \<open>Range proofs and kernels: the reconstructed root is compared with a root of the header.\<close>

definition root_matches ::
  "(bytes \<Rightarrow> bytes) \<Rightarrow> ('a \<Rightarrow> bytes) \<Rightarrow> u64 \<Rightarrow> bytes \<Rightarrow> BitmapAccumulator option \<Rightarrow> 'a Segment \<Rightarrow> bool option" where
  "root_matches Blake2b ser mmrSize headerRoot pBitmap segment =
     (case FirstUnprunedParent Blake2b ser mmrSize pBitmap segment of
        None \<Rightarrow> None
      | Some None \<Rightarrow> Some False
      | Some (Some (hash, pos)) \<Rightarrow>
          let posRange = GetPositionRange mmrSize (sg_id segment)
          in map_option (\<lambda>reconstructedRoot.
               case reconstructedRoot of None \<Rightarrow> False | Some root \<Rightarrow> BigInteger_equal root headerRoot)
               (ReconstructRoot Blake2b mmrSize (fst posRange) (snd posRange) hash pos (sg_proof segment)))"

definition AddRangeProofSegment ::
  "(bytes \<Rightarrow> bytes) \<Rightarrow> ('r \<Rightarrow> bytes) \<Rightarrow> 'r Segment \<Rightarrow> ('o, 'r, 'k) Desegmenter \<Rightarrow>
   (bool \<times> ('o, 'r, 'k) Desegmenter) option" where
  "AddRangeProofSegment Blake2b ser segment ds =
     (if \<not> ValidateHeight RangeProof (si_height (sg_id segment)) then Some (False, ds)
      else if \<not> ds_bitmapCacheComplete ds then Some (False, ds)
      else
        map_option (\<lambda>matches.
          if matches then (True, ds\<lparr>ds_rangeProofSegments := CacheSegment (ds_rangeProofSegments ds) segment\<rparr>)
          else (False, ds))
          (root_matches Blake2b ser (h_outputMMRSize (ds_archiveHeader ds)) (h_rangeProofRoot (ds_archiveHeader ds))
            (Some (ds_bitmapAccumulator ds)) segment))"

definition AddKernelSegment ::
  "(bytes \<Rightarrow> bytes) \<Rightarrow> ('k \<Rightarrow> bytes) \<Rightarrow> 'k Segment \<Rightarrow> ('o, 'r, 'k) Desegmenter \<Rightarrow>
   (bool \<times> ('o, 'r, 'k) Desegmenter) option" where
  "AddKernelSegment Blake2b ser segment ds =
     (if \<not> ValidateHeight Kernel (si_height (sg_id segment)) then Some (False, ds)
      else
        map_option (\<lambda>matches.
          if matches then (True, ds\<lparr>ds_kernelSegments := CacheSegment (ds_kernelSegments ds) segment\<rparr>)
          else (False, ds))
          (root_matches Blake2b ser (h_kernelMMRSize (ds_archiveHeader ds)) (h_kernelRoot (ds_archiveHeader ds)) None
            segment))"

section \<open>The requests\<close>

definition sizes_complete :: "('o, 'r, 'k) Desegmenter \<Rightarrow> bool" where
  "sizes_complete ds =
     (ds_appliedOutputMMRSize ds = h_outputMMRSize (ds_archiveHeader ds) \<and>
      ds_appliedRangeProofMMRSize ds = h_outputMMRSize (ds_archiveHeader ds) \<and>
      ds_appliedKernelMMRSize ds = h_kernelMMRSize (ds_archiveHeader ds))"

definition NextDesiredSegments ::
  "nat \<Rightarrow> ('o, 'r, 'k) Desegmenter \<Rightarrow> SegmentTypeIdentifier list \<times> ('o, 'r, 'k) Desegmenter" where
  "NextDesiredSegments maxElements ds =
     (if \<not> ds_bitmapCacheComplete ds then
        (AppendDesiredSegments [] maxElements OutputBitmap (ds_bitmapMMRSize ds) BITMAP_SEGMENT_HEIGHT
           (ds_appliedBitmapMMRSize ds) (ds_bitmapSegments ds), ds)
      else
        let outputDesired =
              AppendDesiredSegments [] maxElements Output (h_outputMMRSize (ds_archiveHeader ds)) OUTPUT_SEGMENT_HEIGHT
                (ds_appliedOutputMMRSize ds) (ds_outputSegments ds);
            rangeProofDesired =
              AppendDesiredSegments [] maxElements RangeProof (h_outputMMRSize (ds_archiveHeader ds))
                RANGEPROOF_SEGMENT_HEIGHT (ds_appliedRangeProofMMRSize ds) (ds_rangeProofSegments ds);
            kernelDesired =
              AppendDesiredSegments [] maxElements Kernel (h_kernelMMRSize (ds_archiveHeader ds)) KERNEL_SEGMENT_HEIGHT
                (ds_appliedKernelMMRSize ds) (ds_kernelSegments ds);
            typeOffset = unat (ds_nextDesiredTypeOffset ds mod 3);
            desired = desired_loop maxElements typeOffset 0 outputDesired rangeProofDesired kernelDesired []
        in (desired,
            ds\<lparr>ds_nextDesiredTypeOffset := ds_nextDesiredTypeOffset ds + 1,
               ds_allSegmentsComplete := desired = [] \<and> sizes_complete ds\<rparr>))"

definition GetBlockingSegments :: "('o, 'r, 'k) Desegmenter \<Rightarrow> SegmentTypeIdentifier list" where
  "GetBlockingSegments ds =
     (if \<not> ds_bitmapCacheComplete ds then
        AppendBlockingSegment [] OutputBitmap (ds_bitmapMMRSize ds) BITMAP_SEGMENT_HEIGHT (ds_appliedBitmapMMRSize ds)
          (ds_bitmapSegments ds)
      else
        let blockers = AppendBlockingSegment [] Output (h_outputMMRSize (ds_archiveHeader ds)) OUTPUT_SEGMENT_HEIGHT
              (ds_appliedOutputMMRSize ds) (ds_outputSegments ds);
            blockers = AppendBlockingSegment blockers RangeProof (h_outputMMRSize (ds_archiveHeader ds))
              RANGEPROOF_SEGMENT_HEIGHT (ds_appliedRangeProofMMRSize ds) (ds_rangeProofSegments ds)
        in AppendBlockingSegment blockers Kernel (h_kernelMMRSize (ds_archiveHeader ds)) KERNEL_SEGMENT_HEIGHT
             (ds_appliedKernelMMRSize ds) (ds_kernelSegments ds))"

section \<open>Handing over\<close>

definition ApplyNextBitmapSegment ::
  "(bytes \<Rightarrow> bytes) \<Rightarrow> ('o, 'r, 'k) Desegmenter \<Rightarrow> (bool \<times> ('o, 'r, 'k) Desegmenter) result option" where
  "ApplyNextBitmapSegment Blake2b ds =
     (case take_index (NextRequiredSegmentIndex (ds_appliedBitmapMMRSize ds) BITMAP_SEGMENT_HEIGHT)
             (ds_bitmapSegments ds) of
        None \<Rightarrow> Some (Inr (False, ds))
      | Some (segment, rest) \<Rightarrow>
          map_option (\<lambda>r. rbind r (\<lambda>accumulator.
              Inr (True, ds\<lparr>ds_bitmapAccumulator := accumulator,
                            ds_appliedBitmapMMRSize := GetMMRSize accumulator,
                            ds_bitmapSegments := rest,
                            ds_bitmapCacheComplete := GetMMRSize accumulator = ds_bitmapMMRSize ds\<rparr>)))
            (append_chunks Blake2b (sg_leaves segment) (ds_bitmapAccumulator ds)))"

definition TakeReadyOutputSegments ::
  "('o, 'r, 'k) Desegmenter \<Rightarrow> 'o Segment list \<times> ('o, 'r, 'k) Desegmenter" where
  "TakeReadyOutputSegments ds =
     (let (result, cache, applied) = TakeReadySegmentBatch (ds_outputSegments ds) (ds_appliedOutputMMRSize ds)
            OUTPUT_SEGMENT_HEIGHT (h_outputMMRSize (ds_archiveHeader ds))
      in (result, ds\<lparr>ds_outputSegments := cache, ds_appliedOutputMMRSize := applied\<rparr>))"

definition TakeReadyRangeProofSegments ::
  "('o, 'r, 'k) Desegmenter \<Rightarrow> 'r Segment list \<times> ('o, 'r, 'k) Desegmenter" where
  "TakeReadyRangeProofSegments ds =
     (let (result, cache, applied) = TakeReadySegmentBatch (ds_rangeProofSegments ds) (ds_appliedRangeProofMMRSize ds)
            RANGEPROOF_SEGMENT_HEIGHT (h_outputMMRSize (ds_archiveHeader ds))
      in (result, ds\<lparr>ds_rangeProofSegments := cache, ds_appliedRangeProofMMRSize := applied\<rparr>))"

definition TakeReadyKernelSegments ::
  "('o, 'r, 'k) Desegmenter \<Rightarrow> 'k Segment list \<times> ('o, 'r, 'k) Desegmenter" where
  "TakeReadyKernelSegments ds =
     (let (result, cache, applied) = TakeReadySegmentBatch (ds_kernelSegments ds) (ds_appliedKernelMMRSize ds)
            KERNEL_SEGMENT_HEIGHT (h_kernelMMRSize (ds_archiveHeader ds))
      in (result, ds\<lparr>ds_kernelSegments := cache, ds_appliedKernelMMRSize := applied\<rparr>))"

text \<open>The three batches of \<open>ApplyReadySegments\<close>, one after the other; each may end the call.\<close>

definition apply_outputs ::
  "('o, 's) applier \<Rightarrow> ('o, 'r, 'k) Desegmenter \<Rightarrow> 's \<Rightarrow> (nat option result \<times> ('o, 'r, 'k) Desegmenter \<times> 's) option" where
  "apply_outputs applySegment ds s =
     map_option (\<lambda>(r, cache, applied, s).
         (r, ds\<lparr>ds_outputSegments := cache, ds_appliedOutputMMRSize := applied\<rparr>, s))
       (ApplyReadySegmentBatch applySegment (ds_outputSegments ds) (ds_appliedOutputMMRSize ds) OUTPUT_SEGMENT_HEIGHT
         (h_outputMMRSize (ds_archiveHeader ds)) s)"

definition apply_range_proofs ::
  "('r, 's) applier \<Rightarrow> ('o, 'r, 'k) Desegmenter \<Rightarrow> 's \<Rightarrow> (nat option result \<times> ('o, 'r, 'k) Desegmenter \<times> 's) option" where
  "apply_range_proofs applySegment ds s =
     map_option (\<lambda>(r, cache, applied, s).
         (r, ds\<lparr>ds_rangeProofSegments := cache, ds_appliedRangeProofMMRSize := applied\<rparr>, s))
       (ApplyReadySegmentBatch applySegment (ds_rangeProofSegments ds) (ds_appliedRangeProofMMRSize ds)
         RANGEPROOF_SEGMENT_HEIGHT (h_outputMMRSize (ds_archiveHeader ds)) s)"

definition apply_kernels ::
  "('k, 's) applier \<Rightarrow> ('o, 'r, 'k) Desegmenter \<Rightarrow> 's \<Rightarrow> (nat option result \<times> ('o, 'r, 'k) Desegmenter \<times> 's) option" where
  "apply_kernels applySegment ds s =
     map_option (\<lambda>(r, cache, applied, s).
         (r, ds\<lparr>ds_kernelSegments := cache, ds_appliedKernelMMRSize := applied\<rparr>, s))
       (ApplyReadySegmentBatch applySegment (ds_kernelSegments ds) (ds_appliedKernelMMRSize ds) KERNEL_SEGMENT_HEIGHT
         (h_kernelMMRSize (ds_archiveHeader ds)) s)"

definition ApplyReadySegments ::
  "('o, 's) applier \<Rightarrow> ('r, 's) applier \<Rightarrow> ('k, 's) applier \<Rightarrow> ('o, 'r, 'k) Desegmenter \<Rightarrow> 's \<Rightarrow>
   (nat option result \<times> ('o, 'r, 'k) Desegmenter \<times> 's) option" where
  "ApplyReadySegments applyOutput applyRangeProof applyKernel ds s =
     (if \<not> ds_bitmapCacheComplete ds then Some (Inr (Some 0), ds, s)
      else
        case apply_outputs applyOutput ds s of
          Some (Inr (Some outputCount), ds, s) \<Rightarrow>
            (case apply_range_proofs applyRangeProof ds s of
               Some (Inr (Some rangeProofCount), ds, s) \<Rightarrow>
                 (case apply_kernels applyKernel ds s of
                    Some (Inr (Some kernelCount), ds, s) \<Rightarrow>
                      Some (Inr (Some (outputCount + rangeProofCount + kernelCount)),
                       ds\<lparr>ds_allSegmentsComplete := ds_bitmapCacheComplete ds \<and> sizes_complete ds\<rparr>, s)
                  | r \<Rightarrow> r)
             | r \<Rightarrow> r)
        | r \<Rightarrow> r)"

section \<open>Sizes and indices\<close>

text \<open>The size of a range of \<open>n\<close> leaves; heights are at least one, as all the default heights are.\<close>

abbreviation leaves_size :: "nat \<Rightarrow> u64" where
  "leaves_size n \<equiv> of_nat (mmr_pos n 0)"

abbreviation segment_count :: "nat \<Rightarrow> nat \<Rightarrow> nat" where
  "segment_count n h \<equiv> (n + 2 ^ h - 1) div 2 ^ h"

lemma unat_leaves_size: "n < 2 ^ 60 \<Longrightarrow> unat (leaves_size n) = mmr_pos n 0"
  by (intro unat_of_nat_u64) (simp add: mmr_pos_def)

lemma leaves_size_less: "m < 2 ^ 60 \<Longrightarrow> n < 2 ^ 60 \<Longrightarrow> leaves_size m < leaves_size n \<longleftrightarrow> m < n"
  using leaf_pos_mono [of m n] leaf_pos_le [of n m 0] unat_leaves_size [of m] unat_leaves_size [of n]
  unfolding word_less_nat_alt by linarith

lemma leaves_size_eq: "m < 2 ^ 60 \<Longrightarrow> n < 2 ^ 60 \<Longrightarrow> leaves_size m = leaves_size n \<longleftrightarrow> m = n"
  using leaves_size_less [of m n] leaves_size_less [of n m] by auto

lemma leaves_size_min:
  "m < 2 ^ 60 \<Longrightarrow> n < 2 ^ 60 \<Longrightarrow> min (leaves_size m) (leaves_size n) = leaves_size (min m n)"
  using leaves_size_less [of m n] leaves_size_less [of n m] by (auto simp: min_def not_le)

lemma leaves_size_small: "leaves_size 0 = 0" "leaves_size 1 = 1"
  by code_simp+

lemma CountSegmentsRequired_eq:
  assumes "n < 2 ^ 50" "unat height < 50"
  shows "CountSegmentsRequired (leaves_size n) height = of_nat (segment_count n (unat height))"
proof -
  let ?h = "unat height"
  have pow: "(2::nat) ^ ?h < 2 ^ 50" "0 < (2::nat) ^ ?h" using assms(2) power_strict_increasing [of ?h 50 "2::nat"] by simp_all
  have cap: "unat (push_bit ?h 1 :: u64) = 2 ^ ?h" using unat_pow [of ?h] assms(2) by (simp add: push_bit_eq_mult)
  have sum: "unat (of_nat n + push_bit ?h 1 :: u64) = n + 2 ^ ?h"
    using assms(1) pow(1) by (subst unat_add_no_overflow) (use cap in \<open>simp_all add: unat_of_nat_u64\<close>)
  then have "(of_nat n + push_bit ?h 1 :: u64) \<noteq> 0" using pow(2) by force
  then have "unat (of_nat n + push_bit ?h 1 - 1 :: u64) = n + 2 ^ ?h - 1" using sum by (simp add: unat_minus_one)
  then have "unat ((of_nat n + push_bit ?h 1 - 1) div push_bit ?h 1 :: u64) = segment_count n ?h"
    by (simp only: unat_div cap)
  then show ?thesis
    unfolding CountSegmentsRequired_def Let_def Segment_CountLeaves_eq [OF assms(1)]
    by (metis of_nat_unat ucast_id)
qed

lemma GetPMMRSize_eq:
  assumes "k * 2 ^ unat height < 2 ^ 60" "unat height < 50"
  shows "GetPMMRSize (of_nat k) height = leaves_size (k * 2 ^ unat height)"
proof -
  have "k * 1 \<le> k * 2 ^ unat height" by (intro mult_le_mono2) simp
  then have k: "k < 2 ^ 60" using assms(1) by linarith
  have un: "unat (of_nat k :: u64) = k" using k by (intro unat_of_nat_u64) simp
  have cap: "unat (push_bit (unat height) 1 :: u64) = 2 ^ unat height"
    using unat_pow [of "unat height"] assms(2) by (simp add: push_bit_eq_mult)
  have "unat (of_nat k * push_bit (unat height) 1 :: u64) = k * 2 ^ unat height"
    using assms(1) unfolding unat_word_ariths un cap by simp
  moreover have "of_nat k = (0 :: u64) \<longleftrightarrow> k = 0" using un by (metis unat_eq_zero)
  ultimately show ?thesis
    by (auto simp: GetPMMRSize_def LeafIndex_At_position mmr_pos_def)
qed

lemma segment_count_bounds:
  assumes "0 < n"
  shows "segment_count n h * 2 ^ h < n + 2 ^ h" "n \<le> segment_count n h * 2 ^ h"
    and "k < segment_count n h \<longleftrightarrow> k * 2 ^ h < n"
proof -
  obtain q r where n: "n + 2 ^ h - 1 = q * 2 ^ h + r" "r < 2 ^ h"
    using that [of "(n + 2 ^ h - 1) div 2 ^ h" "(n + 2 ^ h - 1) mod 2 ^ h"] by (simp add: div_mult_mod_eq)
  have q: "segment_count n h = q" using n by (intro div_nat_eqI) simp_all
  show lt: "segment_count n h * 2 ^ h < n + 2 ^ h" using n assms unfolding q by linarith
  show ge: "n \<le> segment_count n h * 2 ^ h" using n assms unfolding q by linarith
  show "k < segment_count n h \<longleftrightarrow> k * 2 ^ h < n"
  proof
    assume "k < segment_count n h"
    then have "Suc k * 2 ^ h \<le> segment_count n h * 2 ^ h" by (intro mult_le_mono1) simp
    then show "k * 2 ^ h < n" using lt by simp
  next
    assume "k * 2 ^ h < n"
    then have "k * 2 ^ h < segment_count n h * 2 ^ h" using ge by linarith
    then show "k < segment_count n h" by simp
  qed
qed

lemma NextRequiredSegmentIndex_eq:
  assumes n: "n < 2 ^ 50" and h: "0 < unat height" "unat height < 50"
  shows "NextRequiredSegmentIndex (leaves_size n) height = of_nat (n div 2 ^ unat height)"
proof (cases "n < 2")
  case True
  then have "n = 0 \<or> n = 1" by linarith
  moreover have "1 div 2 ^ unat height = (0::nat)" using h(1) one_less_power [of "2::nat" "unat height"] by simp
  ultimately show ?thesis using leaves_size_small by (auto simp: NextRequiredSegmentIndex_def)
next
  case False
  let ?h = "unat height"
  define c where "c = segment_count n (unat height)"
  have bounds: "c * 2 ^ ?h < n + 2 ^ ?h" "n \<le> c * 2 ^ ?h" "k < c \<longleftrightarrow> k * 2 ^ ?h < n" for k
    using segment_count_bounds(1,2) [of n ?h] segment_count_bounds(3) [of n k ?h] False by (simp_all add: c_def)
  have small: "leaves_size n \<noteq> 0" "leaves_size n \<noteq> 1"
    using leaves_size_eq [of n 0] leaves_size_eq [of n 1] leaves_size_small n False by simp_all
  have pow: "(2::nat) ^ ?h < 2 ^ 50" using h(2) power_strict_increasing [of ?h 50 "2::nat"] by simp
  have c: "c * 2 ^ ?h < 2 ^ 60" using bounds(1) n pow by simp
  have "c * 1 \<le> c * 2 ^ ?h" by (intro mult_le_mono2) simp
  then have "c < 2 ^ 60" using c by linarith
  then have uc: "unat (of_nat c :: u64) = c" by (intro unat_of_nat_u64) simp
  have pos: "0 < c" using bounds(2) False by (cases "c = 0") simp_all
  have "(0 :: u64) < of_nat c" using pos uc by (simp add: word_less_nat_alt)
  moreover have "of_nat c - 1 = (of_nat (c - 1) :: u64)" using pos by simp
  moreover have "leaves_size n < GetPMMRSize (of_nat c) height \<longleftrightarrow> n < c * 2 ^ ?h"
    unfolding GetPMMRSize_eq [OF c h(2)] using n c by (intro leaves_size_less) simp_all
  ultimately have "NextRequiredSegmentIndex (leaves_size n) height = of_nat (if n < c * 2 ^ ?h then c - 1 else c)"
    using small unfolding NextRequiredSegmentIndex_def Let_def CountSegmentsRequired_eq [OF n h(2)] c_def [symmetric] by simp
  moreover have "(if n < c * 2 ^ ?h then c - 1 else c) = n div 2 ^ ?h"
  proof (cases "n < c * 2 ^ ?h")
    case True
    have "(c - 1) * 2 ^ ?h < n" using bounds(3) [of "c - 1"] pos by simp
    then have "n div 2 ^ ?h = c - 1" using True pos by (intro div_nat_eqI) (simp_all add: mult.commute)
    then show ?thesis using True by simp
  next
    case n: False
    then have "n = c * 2 ^ ?h" using bounds(2) by linarith
    then have "n div 2 ^ ?h = c" by simp
    then show ?thesis using n by simp
  qed
  ultimately show ?thesis by simp
qed

text \<open>The segment with index \<open>k\<close> of a range of \<open>N\<close> leaves covers the leaves from \<open>k * 2 ^ h\<close> on.\<close>

abbreviation seg_id :: "u8 \<Rightarrow> nat \<Rightarrow> SegmentIdentifier" where
  "seg_id height k \<equiv> \<lparr>si_height = height, si_index = of_nat k\<rparr>"

lemma seg_first_index:
  assumes "k * 2 ^ unat height < 2 ^ 60" "unat height < 50"
  shows "seg_first (seg_id height k) = k * 2 ^ unat height"
proof -
  have "k * 1 \<le> k * 2 ^ unat height" by (intro mult_le_mono2) simp
  then have "k < 2 ^ 60" using assms(1) by linarith
  then have un: "unat (of_nat k :: u64) = k" by (intro unat_of_nat_u64) simp
  have cap: "unat (push_bit (unat height) 1 :: u64) = 2 ^ unat height"
    using unat_pow [of "unat height"] assms(2) by (simp add: push_bit_eq_mult)
  show ?thesis
    using assms(1) unfolding GetLeafOffset_def GetSegmentCapacity_def unat_word_ariths by (simp add: un cap [simplified])
qed

lemma IsSegmentApplied_eq:
  assumes N: "N < 2 ^ 50" and h: "unat height < 50" and k: "k * 2 ^ unat height < N" and n: "n \<le> N"
  shows "IsSegmentApplied (seg_id height k) (leaves_size N) (leaves_size n) \<longleftrightarrow>
    min N ((k + 1) * 2 ^ unat height) \<le> n"
proof -
  let ?h = "unat height" and ?si = "seg_id height k"
  have o': "seg_first ?si = k * 2 ^ ?h" using k N h by (intro seg_first_index) simp_all
  have h64: "seg_height ?si < 64" using h by simp
  have lt: "seg_first ?si < N" using k o' by simp
  have size: "GetSegmentUnprunedSize (leaves_size N) ?si \<noteq> 0"
    using segment_interval [OF h64 N lt] by metis
  have z: "leaves_size n = 0 \<longleftrightarrow> n = 0" using leaves_size_eq [of n 0] leaves_size_small N n by simp
  have pow: "0 < (2::nat) ^ ?h" by simp
  show ?thesis
  proof (cases "seg_first ?si + 2 ^ ?h \<le> N")
    case True
    let ?m = "seg_first ?si + 2 ^ ?h - 1"
    have m: "Suc ?m = seg_first ?si + 2 ^ ?h" "?m < N" using True pow by linarith+
    have node: "is_node ?m ?h" unfolding is_node_def m(1) using o' by simp
    have "mmr_pos ?m ?h < 2 ^ 52" using m(2) N node_height_small [OF node] by (intro mmr_pos_small) simp_all
    then have un: "unat (of_nat (mmr_pos ?m ?h) :: u64) = mmr_pos ?m ?h" by (intro unat_of_nat_u64) simp
    have "snd (GetPositionRange (leaves_size N) ?si) = of_nat (mmr_pos ?m ?h)"
      using full_range(2) [OF h64 N] True by simp
    moreover have "(of_nat (mmr_pos ?m ?h) :: u64) < leaves_size n \<longleftrightarrow> ?m < n"
      unfolding word_less_nat_alt un using unat_leaves_size [of n] n N node_pos_less_iff [OF node] by simp
    moreover have "min N ((k + 1) * 2 ^ ?h) = Suc ?m" using True o' m(1) by simp
    ultimately show ?thesis using size z by (auto simp: IsSegmentApplied_def)
  next
    case False
    then have lt': "N < seg_first ?si + 2 ^ seg_height ?si" by simp
    have pos: "0 < mmr_pos N 0" using leaf_pos_mono [of 0 N] lt by simp
    have "mmr_pos N 0 < 2 ^ 52" using N by (intro mmr_pos_small) simp_all
    then have un: "unat (of_nat (mmr_pos N 0 - 1) :: u64) = mmr_pos N 0 - 1" by (intro unat_of_nat_u64) simp
    have "snd (GetPositionRange (leaves_size N) ?si) = of_nat (mmr_pos N 0 - 1)"
      unfolding partial_range(2) [OF h64 N lt lt'] by (rule snd_conv)
    moreover have "(of_nat (mmr_pos N 0 - 1) :: u64) < leaves_size n \<longleftrightarrow> N \<le> n"
      unfolding word_less_nat_alt un using unat_leaves_size [of n] n N leaf_pos_mono [of n N] pos
      by (cases "n < N") auto
    moreover have "min N ((k + 1) * 2 ^ ?h) = N" using False o' by simp
    ultimately show ?thesis using size z lt by (auto simp: IsSegmentApplied_def)
  qed
qed

lemma AppliedMMRSizeAfterSegment_eq:
  assumes N: "N < 2 ^ 50" and h: "unat height < 50" and k: "k * 2 ^ unat height < N"
  shows "AppliedMMRSizeAfterSegment (seg_id height k) (leaves_size N) = leaves_size (min N ((k + 1) * 2 ^ unat height))"
proof -
  have pow: "(2::nat) ^ unat height < 2 ^ 50" using h power_strict_increasing [of "unat height" 50 "2::nat"] by simp
  have lt: "(k + 1) * 2 ^ unat height < 2 ^ 60" using k N pow by simp
  have "of_nat k + 1 = (of_nat (k + 1) :: u64)" by simp
  then have "AppliedMMRSizeAfterSegment (seg_id height k) (leaves_size N) =
      min (GetPMMRSize (of_nat (k + 1)) height) (leaves_size N)"
    unfolding AppliedMMRSizeAfterSegment_def by (simp only: SegmentIdentifier.simps)
  then show ?thesis
    unfolding GetPMMRSize_eq [OF lt h] using leaves_size_min [OF _ lt, of N] N by (simp only: min.commute) simp
qed

section \<open>The contract of a callback\<close>

text \<open>
  A segment carries the leaves \<open>o..<e\<close> of \<open>L\<close>: its positions increase, end before the leaf \<open>e\<close>, and every leaf of
  the interval is there.
\<close>

definition carries :: "'a list \<Rightarrow> nat \<Rightarrow> nat \<Rightarrow> 'a Segment \<Rightarrow> bool" where
  "carries L o' e sg \<longleftrightarrow>
     length (sg_leaf_pos sg) = length (sg_leaves sg) \<and> sorted_wrt (<) (sg_leaf_pos sg) \<and>
     (\<forall>p \<in> set (sg_leaf_pos sg). p < leaves_size e) \<and> (\<forall>j \<in> {o'..<e}. segment_leaf_at sg j = Some (L ! j))"

text \<open>
  A segment is ready for a download of \<open>L\<close> when it has an index of the range and carries its leaves. The frontier
  of a download: segment \<open>k\<close> is the next one, \<open>a\<close> leaves are recorded as applied and the store holds \<open>n\<close> of them.
\<close>

definition ready :: "'a list \<Rightarrow> u8 \<Rightarrow> 'a Segment \<Rightarrow> bool" where
  "ready L height sg \<longleftrightarrow>
     (\<exists>k. sg_id sg = seg_id height k \<and> k * 2 ^ unat height < length L \<and>
          carries L (k * 2 ^ unat height) (min (length L) ((k + 1) * 2 ^ unat height)) sg)"

definition frontier :: "nat \<Rightarrow> nat \<Rightarrow> nat \<Rightarrow> nat \<Rightarrow> nat \<Rightarrow> bool" where
  "frontier N h k a n \<longleftrightarrow> min N (k * 2 ^ h) \<le> a \<and> a \<le> n \<and> n \<le> min N ((k + 1) * 2 ^ h)"

lemma take_index_None: "take_index i cache = None \<longleftrightarrow> (\<forall>sg \<in> set cache. si_index (sg_id sg) \<noteq> i)"
  by (induction cache) auto

lemma take_index_Some:
  "take_index i cache = Some (sg, rest) \<Longrightarrow> sg \<in> set cache \<and> si_index (sg_id sg) = i \<and> set rest \<subseteq> set cache"
  by (induction cache arbitrary: rest) (auto split: if_splits)

lemma ready_index:
  assumes "ready L height sg" "si_index (sg_id sg) = of_nat k" "k < 2 ^ 60" "length L < 2 ^ 50"
  shows "sg_id sg = seg_id height k" "k * 2 ^ unat height < length L"
    and "carries L (k * 2 ^ unat height) (min (length L) ((k + 1) * 2 ^ unat height)) sg"
proof -
  obtain i where i: "sg_id sg = seg_id height i" "i * 2 ^ unat height < length L"
    "carries L (i * 2 ^ unat height) (min (length L) ((i + 1) * 2 ^ unat height)) sg"
    using assms(1) unfolding ready_def by blast
  have "i * 1 \<le> i * 2 ^ unat height" by (intro mult_le_mono2) simp
  then have "i < 2 ^ 50" using i(2) assms(4) by linarith
  then have "unat (of_nat i :: u64) = i" "unat (of_nat k :: u64) = k" using assms(3) by (intro unat_of_nat_u64; simp)+
  moreover have "(of_nat i :: u64) = of_nat k" using i(1) assms(2) by (simp only: SegmentIdentifier.simps)
  ultimately have "i = k" by metis
  then show "sg_id sg = seg_id height k" "k * 2 ^ unat height < length L"
    "carries L (k * 2 ^ unat height) (min (length L) ((k + 1) * 2 ^ unat height)) sg"
    using i by blast+
qed

text \<open>
  The callback of a store that holds a prefix of \<open>L\<close>: it returns, and a segment that starts inside the prefix
  and carries the leaves that follow either extends the prefix to the end of the segment or, when it has hashes
  besides its leaves, is refused and changes nothing.
\<close>

locale segment_applier =
  fixes apply_segment :: "('a, 's) applier"
    and holds :: "'s \<Rightarrow> 'a list \<Rightarrow> bool"
    and L :: "'a list"
  assumes apply_carried:
    "holds s (take n L) \<Longrightarrow> carries L o' e sg \<Longrightarrow> o' \<le> n \<Longrightarrow> n \<le> e \<Longrightarrow> e \<le> length L \<Longrightarrow>
     length L < 2 ^ 50 \<Longrightarrow> sg_hash_pos sg = [] \<Longrightarrow>
     \<exists>s'. apply_segment sg target s = Some (Inr True, s') \<and> holds s' (take e L)"
    and apply_refused: "sg_hash_pos sg \<noteq> [] \<Longrightarrow> apply_segment sg target s = Some (Inr False, s)"
begin
lemma apply_ready_prefix:
  assumes N: "length L < 2 ^ 50" and h: "unat height < 50" and rounds: "k + rounds < 2 ^ 60"
    and cache: "\<forall>sg \<in> set cache. ready L height sg" and inv: "frontier (length L) (unat height) k a n"
    and s: "holds s (take n L)"
  shows "\<exists>r cache' k' a' n' s'.
    apply_ready apply_segment rounds (of_nat k) (leaves_size (length L)) c cache (leaves_size a) s =
      Some (r, cache', leaves_size a', s') \<and>
    holds s' (take n' L) \<and> frontier (length L) (unat height) k' a' n' \<and> set cache' \<subseteq> set cache \<and>
    k \<le> k' \<and> a' = (if k' = k then a else min (length L) (k' * 2 ^ unat height)) \<and>
    (r = Inr None \<and> (\<exists>sg \<in> set cache. sg_hash_pos sg \<noteq> []) \<or>
     r = Inr (Some (c + (k' - k))) \<and> (k' = k \<longrightarrow> 0 < rounds \<longrightarrow> take_index (of_nat k) cache = None))"
  using rounds cache inv s
proof (induction rounds arbitrary: k c cache a n s)
  case 0
  then show ?case
    by (intro exI [of _ "Inr (Some c)"] exI [of _ cache] exI [of _ k] exI [of _ a] exI [of _ n] exI [of _ s]) simp
next
  case (Suc rounds)
  let ?N = "length L" and ?h = "unat height"
  show ?case
  proof (cases "take_index (of_nat k) cache")
    case None
    then show ?thesis using Suc.prems
      by (intro exI [of _ "Inr (Some c)"] exI [of _ cache] exI [of _ k] exI [of _ a] exI [of _ n] exI [of _ s]) simp
  next
    case (Some p)
    then obtain sg rest where p: "take_index (of_nat k) cache = Some (sg, rest)" by (cases p) simp
    note sg = take_index_Some [OF p]
    have "ready L height sg" "si_index (sg_id sg) = of_nat k" "k < 2 ^ 60" using sg Suc.prems(1,2) by simp_all
    note id = ready_index [OF this N]
    let ?e = "min ?N ((k + 1) * 2 ^ ?h)"
    show ?thesis
    proof (cases "sg_hash_pos sg = []")
      case True
      have n: "k * 2 ^ ?h \<le> n" "n \<le> ?e" using Suc.prems(3) id(2) by (simp_all add: frontier_def)
      obtain s' where s': "apply_segment sg (leaves_size ?N) s = Some (Inr True, s')" "holds s' (take ?e L)"
        using apply_carried [OF Suc.prems(4) id(3) n min.cobounded1 N True] by blast
      have step: "apply_ready apply_segment (Suc rounds) (of_nat k) (leaves_size ?N) c cache (leaves_size a) s =
          apply_ready apply_segment rounds (of_nat (Suc k)) (leaves_size ?N) (Suc c) rest (leaves_size ?e) s'"
        using p s'(1) AppliedMMRSizeAfterSegment_eq [OF N h id(2)] id(1) by (simp add: add.commute)
      have "Suc k + rounds < 2 ^ 60" "\<forall>sg \<in> set rest. ready L height sg" "frontier ?N ?h (Suc k) ?e ?e"
        using Suc.prems(1,2) sg by (auto simp: frontier_def)
      from Suc.IH [OF this s'(2), of "Suc c"] obtain r cache' k' a' n' s'' where *:
        "apply_ready apply_segment rounds (of_nat (Suc k)) (leaves_size ?N) (Suc c) rest (leaves_size ?e) s' =
           Some (r, cache', leaves_size a', s'')"
        "holds s'' (take n' L)" "frontier ?N ?h k' a' n'" "set cache' \<subseteq> set rest" "Suc k \<le> k'"
        "a' = (if k' = Suc k then ?e else min ?N (k' * 2 ^ ?h))"
        "r = Inr None \<and> (\<exists>sg \<in> set rest. sg_hash_pos sg \<noteq> []) \<or> r = Inr (Some (Suc c + (k' - Suc k)))"
        by (elim exE conjE) (rule that, assumption+, blast)
      have a': "a' = (if k' = k then a else min ?N (k' * 2 ^ ?h))" using *(5,6) by (simp split: if_splits)
      have r: "r = Inr None \<and> (\<exists>sg \<in> set cache. sg_hash_pos sg \<noteq> []) \<or>
          r = Inr (Some (c + (k' - k))) \<and> (k' = k \<longrightarrow> 0 < Suc rounds \<longrightarrow> take_index (of_nat k) cache = None)"
        using *(5,7) sg by auto
      have "k \<le> k'" "set cache' \<subseteq> set cache" using *(4,5) sg by auto
      then show ?thesis
        unfolding step using *(1-3) a' r
        by (intro exI [of _ r] exI [of _ cache'] exI [of _ k'] exI [of _ a'] exI [of _ n'] exI [of _ s'']) (intro conjI)
    next
      case False
      have "apply_ready apply_segment (Suc rounds) (of_nat k) (leaves_size ?N) c cache (leaves_size a) s =
          Some (Inr None, cache, leaves_size a, s)"
        using p apply_refused [OF False] by simp
      then show ?thesis using Suc.prems(3,4) sg False
        by (intro exI [of _ "Inr None"] exI [of _ cache] exI [of _ k] exI [of _ a] exI [of _ n] exI [of _ s])
          (auto simp del: apply_ready.simps)
    qed
  qed
qed

lemma batch_prefix:
  assumes N: "length L < 2 ^ 50" and h: "0 < unat height" "unat height < 50" and a: "a \<le> length L"
    and cache: "\<forall>sg \<in> set cache. ready L height sg"
    and inv: "frontier (length L) (unat height) (a div 2 ^ unat height) a n" and s: "holds s (take n L)"
  obtains r cache' a' n' s' c where
    "ApplyReadySegmentBatch apply_segment cache (leaves_size a) height (leaves_size (length L)) s =
      Some (r, cache', leaves_size a', s')"
    "holds s' (take n' L)" "a' \<le> length L" "frontier (length L) (unat height) (a' div 2 ^ unat height) a' n'"
    "set cache' \<subseteq> set cache" "a' = (if c = 0 then a else min (length L) ((a div 2 ^ unat height + c) * 2 ^ unat height))"
    "r = Inr None \<and> (\<exists>sg \<in> set cache. sg_hash_pos sg \<noteq> []) \<or>
     r = Inr (Some c) \<and> (c = 0 \<longrightarrow> (\<forall>sg \<in> set cache. si_index (sg_id sg) \<noteq> of_nat (a div 2 ^ unat height)))"
proof -
  let ?N = "length L" and ?h = "unat height" and ?k = "a div 2 ^ unat height"
  have "a div 2 ^ ?h \<le> a" by simp
  then have "?k < 2 ^ 50" using a N by linarith
  then have "?k + SEGMENT_APPLY_BATCH_SIZE < 2 ^ 60" by (simp add: SEGMENT_APPLY_BATCH_SIZE_def)
  from apply_ready_prefix [OF N h(2) this cache inv s, of 0] obtain r cache' k' a' n' s' where *:
    "apply_ready apply_segment SEGMENT_APPLY_BATCH_SIZE (of_nat ?k) (leaves_size ?N) 0 cache (leaves_size a) s =
       Some (r, cache', leaves_size a', s')"
    "holds s' (take n' L)" "frontier ?N ?h k' a' n'" "set cache' \<subseteq> set cache" "?k \<le> k'"
    "a' = (if k' = ?k then a else min ?N (k' * 2 ^ ?h))"
    "r = Inr None \<and> (\<exists>sg \<in> set cache. sg_hash_pos sg \<noteq> []) \<or>
     r = Inr (Some (0 + (k' - ?k))) \<and> (k' = ?k \<longrightarrow> 0 < SEGMENT_APPLY_BATCH_SIZE \<longrightarrow> take_index (of_nat ?k) cache = None)"
    by (elim exE conjE) (rule that, assumption+)
  have a': "a' \<le> ?N" using a *(6) by simp
  have "n' \<le> min ?N ((a' div 2 ^ ?h + 1) * 2 ^ ?h)"
  proof (cases "k' * 2 ^ ?h \<le> a'")
    case True
    then have "k' \<le> a' div 2 ^ ?h" by (simp add: less_eq_div_iff_mult_less_eq)
    then have "(k' + 1) * 2 ^ ?h \<le> (a' div 2 ^ ?h + 1) * 2 ^ ?h" by (intro mult_le_mono1) simp
    moreover have "n' \<le> ?N" "n' \<le> (k' + 1) * 2 ^ ?h" using *(3) unfolding frontier_def by simp_all
    ultimately show ?thesis by linarith
  next
    case False
    then have "?N \<le> a'" using *(3) unfolding frontier_def min_le_iff_disj by blast
    moreover have "a' < (a' div 2 ^ ?h + 1) * 2 ^ ?h" using dividend_less_div_times [of "2 ^ ?h" a'] by simp
    ultimately show ?thesis using *(3) by (simp add: frontier_def)
  qed
  moreover have "a' div 2 ^ ?h * 2 ^ ?h \<le> a'" by (rule div_times_less_eq_dividend)
  ultimately have fr: "frontier ?N ?h (a' div 2 ^ ?h) a' n'" using *(3) unfolding frontier_def min_le_iff_disj by blast
  have "a < 2 ^ 50" using a N by linarith
  note next_index = NextRequiredSegmentIndex_eq [OF this h]
  have batch: "ApplyReadySegmentBatch apply_segment cache (leaves_size a) height (leaves_size ?N) s =
      Some (r, cache', leaves_size a', s')"
    unfolding ApplyReadySegmentBatch_def next_index by (rule *(1))
  have c: "k' - ?k = 0 \<longleftrightarrow> k' = ?k" "?k + (k' - ?k) = k'" using *(5) by linarith+
  have size: "a' = (if k' - ?k = 0 then a else min ?N ((?k + (k' - ?k)) * 2 ^ ?h))" unfolding c by (rule *(6))
  have "0 < SEGMENT_APPLY_BATCH_SIZE" by (simp add: SEGMENT_APPLY_BATCH_SIZE_def)
  then have "r = Inr None \<and> (\<exists>sg \<in> set cache. sg_hash_pos sg \<noteq> []) \<or>
      r = Inr (Some (k' - ?k)) \<and> (k' - ?k = 0 \<longrightarrow> (\<forall>sg \<in> set cache. si_index (sg_id sg) \<noteq> of_nat ?k))"
    using *(7) unfolding c take_index_None by (simp only: add_0) blast
  then show ?thesis by (rule that [OF batch *(2) a' fr *(4) size])
qed

end

end
