(* ===== verification/KernelMMR.thy ===== *)
theory KernelMMR
  imports MMRHash
begin

text \<open>
  The kernel range (\<^verbatim>\<open>src/PMMR/KernelMMR.cpp\<close>): a hash file and the kernels themselves, either in records
  of fixed size (encoding version 1) or one after the other in an append-only file (version 2) with a second
  file of offsets. The hashes are taken from the encoding of version 1 in both formats.
\<close>

section \<open>The code\<close>

definition KERNEL_SIZE :: nat where "KERNEL_SIZE = 114"
definition KERNEL_OFFSET_SIZE :: nat where "KERNEL_OFFSET_SIZE = 8"

text \<open>The storage format with the files that the format uses.\<close>

datatype KernelStorage = Fixed DataFile | Variable AppendOnlyFile DataFile

record KernelMMR =
  km_hashFile :: DataFile
  km_storage :: KernelStorage

definition SerializeOffset :: "u64 \<Rightarrow> bytes" where
  "SerializeOffset offset = AppendU64 offset"

definition KernelMMR_Root :: "(bytes \<Rightarrow> bytes) \<Rightarrow> 'b roaring \<Rightarrow> u64 \<Rightarrow> KernelMMR \<Rightarrow> bytes result" where
  "KernelMMR_Root Blake2b R size' m = MMR_Root Blake2b R (km_hashFile m) size' None"

definition KernelMMR_GetSize :: "KernelMMR \<Rightarrow> u64" where
  "KernelMMR_GetSize m = DataFile_GetSize 32 (km_hashFile m)"

definition KernelMMR_GetHashAt :: "Index \<Rightarrow> KernelMMR \<Rightarrow> bytes result" where
  "KernelMMR_GetHashAt mmrIndex m = GetDataAt 32 (m_position mmrIndex) (km_hashFile m)"

definition GetNumKernels :: "KernelMMR \<Rightarrow> u64" where
  "GetNumKernels m =
     (case km_storage m of
        Fixed d \<Rightarrow> DataFile_GetSize KERNEL_SIZE d
      | Variable f offs \<Rightarrow> DataFile_GetSize KERNEL_OFFSET_SIZE offs)"

definition GetKernelOffset :: "u64 \<Rightarrow> KernelMMR \<Rightarrow> u64 result" where
  "GetKernelOffset leafIndex m =
     (case km_storage m of
        Fixed d \<Rightarrow> Inr (leafIndex * of_nat KERNEL_SIZE)
      | Variable f offs \<Rightarrow>
          if DataFile_GetSize KERNEL_OFFSET_SIZE offs \<le> leafIndex then Inr (AppendOnlyFile_GetSize f)
          else
            rbind (GetDataAt KERNEL_OFFSET_SIZE leafIndex offs) (\<lambda>data.
            rbind (ReadU64 (ByteBuffer_New data V1)) (\<lambda>(offset, b). Inr offset)))"

definition GetKernelRecordSize :: "u64 \<Rightarrow> KernelMMR \<Rightarrow> u64 result" where
  "GetKernelRecordSize leafIndex m =
     rbind (GetKernelOffset leafIndex m) (\<lambda>startOffset.
     rbind (if leafIndex + 1 < GetNumKernels m then GetKernelOffset (leafIndex + 1) m
            else Inr (case km_storage m of
                        Fixed d \<Rightarrow> GetNumKernels m * of_nat KERNEL_SIZE
                      | Variable f offs \<Rightarrow> AppendOnlyFile_GetSize f)) (\<lambda>endOffset.
       Inr (endOffset - startOffset)))"

definition DeserializeKernel :: "bytes \<Rightarrow> EProtocolVersion \<Rightarrow> TransactionKernel result" where
  "DeserializeKernel data protocolVersion =
     rbind (Kernel_Deserialize (ByteBuffer_New data protocolVersion)) (\<lambda>(k, b). Inr k)"

text \<open>\<open>Inr None\<close> is the null pointer.\<close>

definition GetKernelAt :: "LeafIndex \<Rightarrow> KernelMMR \<Rightarrow> TransactionKernel option result" where
  "GetKernelAt leaf_idx m =
     (if GetNumKernels m \<le> m_leafIndex leaf_idx then Inr None
      else
        rbind (GetKernelRecordSize (m_leafIndex leaf_idx) m) (\<lambda>recordSize.
          if recordSize = 0 then Inr None
          else
            case km_storage m of
              Fixed d \<Rightarrow>
                rbind (GetDataAt KERNEL_SIZE (m_leafIndex leaf_idx) d) (\<lambda>data.
                rbind (DeserializeKernel data V1) (\<lambda>k. Inr (Some k)))
            | Variable f offs \<Rightarrow>
                rbind (GetKernelOffset (m_leafIndex leaf_idx) m) (\<lambda>offset.
                rbind (AppendOnlyFile_Read offset recordSize f) (\<lambda>data.
                  case data of
                    None \<Rightarrow> Inr None
                  | Some data \<Rightarrow> rbind (DeserializeKernel data V2) (\<lambda>k. Inr (Some k))))))"

definition KernelMMR_GetLastLeafHashes :: "'b roaring \<Rightarrow> u64 \<Rightarrow> KernelMMR \<Rightarrow> bytes list result" where
  "KernelMMR_GetLastLeafHashes R numHashes m = GetLastLeafHashes R (km_hashFile m) None None numHashes"

text \<open>
  The files are changed one after the other; what was changed before an exception stays changed. The result of
  rewinding the append-only file is ignored.
\<close>

definition KernelMMR_Rewind :: "u64 \<Rightarrow> KernelMMR \<Rightarrow> unit result \<times> KernelMMR" where
  "KernelMMR_Rewind num_kernels m =
     (case km_storage m of
        Fixed d \<Rightarrow>
          (case DataFile_Rewind 32 (LeafIndex_GetPosition (LeafIndex_At num_kernels)) (km_hashFile m) of
             (Inl e, h) \<Rightarrow> (Inl e, m\<lparr>km_hashFile := h\<rparr>)
           | (Inr _, h) \<Rightarrow>
               (let (r, d) = DataFile_Rewind KERNEL_SIZE num_kernels d
                in (r, \<lparr>km_hashFile = h, km_storage = Fixed d\<rparr>)))
      | Variable f offs \<Rightarrow>
          (case if num_kernels < GetNumKernels m then GetKernelOffset num_kernels m
                else Inr (AppendOnlyFile_GetSize f) of
             Inl e \<Rightarrow> (Inl e, m)
           | Inr rawSize \<Rightarrow>
               (case DataFile_Rewind 32 (LeafIndex_GetPosition (LeafIndex_At num_kernels)) (km_hashFile m) of
                  (Inl e, h) \<Rightarrow> (Inl e, m\<lparr>km_hashFile := h\<rparr>)
                | (Inr _, h) \<Rightarrow>
                    (let f = snd (AppendOnlyFile_Rewind rawSize f);
                         (r, offs) = DataFile_Rewind KERNEL_OFFSET_SIZE num_kernels offs
                     in (r, \<lparr>km_hashFile = h, km_storage = Variable f offs\<rparr>)))))"

text \<open>Committing writes the files in turn; the arguments tell which of them can be opened.\<close>

definition KernelMMR_Commit :: "bool \<Rightarrow> bool \<Rightarrow> bool \<Rightarrow> KernelMMR \<Rightarrow> unit result \<times> KernelMMR" where
  "KernelMMR_Commit open_hash open_data open_offsets m =
     (case DataFile_Commit open_hash (km_hashFile m) of
        (Inl e, h) \<Rightarrow> (Inl e, m\<lparr>km_hashFile := h\<rparr>)
      | (Inr _, h) \<Rightarrow>
          (case km_storage m of
             Fixed d \<Rightarrow>
               (let (r, d) = DataFile_Commit open_data d
                in (r, \<lparr>km_hashFile = h, km_storage = Fixed d\<rparr>))
           | Variable f offs \<Rightarrow>
               (case AppendOnlyFile_Commit open_data f of
                  (Inl e, f) \<Rightarrow> (Inl e, \<lparr>km_hashFile = h, km_storage = Variable f offs\<rparr>)
                | (Inr _, f) \<Rightarrow>
                    (let (r, offs) = DataFile_Commit open_offsets offs
                     in (r, \<lparr>km_hashFile = h, km_storage = Variable f offs\<rparr>)))))"

definition KernelMMR_Rollback :: "KernelMMR \<Rightarrow> KernelMMR" where
  "KernelMMR_Rollback m =
     \<lparr>km_hashFile = DataFile_Rollback (km_hashFile m),
      km_storage =
        (case km_storage m of
           Fixed d \<Rightarrow> Fixed (DataFile_Rollback d)
         | Variable f offs \<Rightarrow> Variable (AppendOnlyFile_Rollback f) (DataFile_Rollback offs))\<rparr>"

definition ApplyKernel ::
  "(bytes \<Rightarrow> bytes) \<Rightarrow> 'b roaring \<Rightarrow> TransactionKernel \<Rightarrow> KernelMMR \<Rightarrow> (unit result \<times> KernelMMR) option" where
  "ApplyKernel Blake2b R krn m =
     (let storage =
            (case km_storage m of
               Fixed d \<Rightarrow> Fixed (AddData (Kernel_Serialize V1 krn) d)
             | Variable f offs \<Rightarrow>
                 Variable (AppendOnlyFile_Append (Kernel_Serialize V2 krn) f)
                   (AddData (SerializeOffset (AppendOnlyFile_GetSize f)) offs))
      in map_option (\<lambda>(r, h). (r, \<lparr>km_hashFile = h, km_storage = storage\<rparr>))
           (AddHashes Blake2b R (Kernel_Serialize V1 krn) None (km_hashFile m)))"

text \<open>
  Building the offsets of a raw file: the loop reads kernels until the buffer is empty. It ends because every
  round must consume bytes.
\<close>

function kernel_offsets :: "u64 \<Rightarrow> ByteBuffer \<Rightarrow> DataFile \<Rightarrow> unit result \<times> DataFile" where
  "kernel_offsets offset b offs =
     (if GetRemainingSize b = 0 then (Inr (), offs)
      else
        case Kernel_Deserialize b of
          Inl e \<Rightarrow> (Inl e, offs)
        | Inr (k, b') \<Rightarrow>
            let before = GetRemainingSize b;
                consumed = before - GetRemainingSize b'
            in if consumed = 0 \<or> before < consumed then (Inl FileException, offs)
               else kernel_offsets (offset + consumed) b' (AddData (SerializeOffset offset) offs))"
  by pat_completeness auto
termination
proof (relation "measure (\<lambda>(offset, b, offs). unat (GetRemainingSize b))", goal_cases)
  case 1
  then show ?case by simp
next
  case (2 offset b offs p k b' before consumed)
  let ?r = "GetRemainingSize b" and ?r' = "GetRemainingSize b'"
  have "?r - ?r' \<le> ?r" "?r - ?r' \<noteq> 0" using 2 by (simp_all add: not_less)
  then have "?r' < ?r" by (simp add: word_sub_le_iff less_le)
  then show ?case by (simp add: word_less_nat_alt)
qed

definition BuildKernelOffsetsFromRawFile :: "bool \<Rightarrow> KernelMMR \<Rightarrow> unit result \<times> KernelMMR" where
  "BuildKernelOffsetsFromRawFile is_open m =
     (case km_storage m of
        Fixed d \<Rightarrow> (Inr (), m)
      | Variable f offs \<Rightarrow>
          if AppendOnlyFile_GetSize f = 0 then (Inr (), m)
          else
            case DataFile_Rewind KERNEL_OFFSET_SIZE 0 offs of
              (Inl e, offs) \<Rightarrow> (Inl e, m\<lparr>km_storage := Variable f offs\<rparr>)
            | (Inr _, offs) \<Rightarrow>
                (case kernel_offsets 0 (ByteBuffer_New (aof_mapped f) V2) offs of
                   (Inl e, offs) \<Rightarrow> (Inl e, m\<lparr>km_storage := Variable f offs\<rparr>)
                 | (Inr _, offs) \<Rightarrow>
                     (let (r, offs) = DataFile_Commit is_open offs
                      in (r, m\<lparr>km_storage := Variable f offs\<rparr>))))"

text \<open>
  Loading a range from its directory. The genesis kernel and its root are arguments; when the first entry is not
  the genesis kernel, a range of one entry is rebuilt and a longer one is left as it is.
\<close>

definition rebuild_genesis_kernel ::
  "(bytes \<Rightarrow> bytes) \<Rightarrow> 'b roaring \<Rightarrow> TransactionKernel \<Rightarrow> KernelMMR \<Rightarrow> KernelMMR result option" where
  "rebuild_genesis_kernel Blake2b R genesisKernel m =
     (case KernelMMR_Rewind 0 m of
        (Inl e, m) \<Rightarrow> Some (Inl e)
      | (Inr _, m) \<Rightarrow>
          map_option (\<lambda>(r, m). rbind r (\<lambda>_. Inr m)) (ApplyKernel Blake2b R genesisKernel m))"

definition check_genesis_kernel ::
  "(bytes \<Rightarrow> bytes) \<Rightarrow> 'b roaring \<Rightarrow> bool \<Rightarrow> TransactionKernel \<Rightarrow> bytes \<Rightarrow> KernelMMR \<Rightarrow>
   KernelMMR result option" where
  "check_genesis_kernel Blake2b R includeGenesis genesisKernel genesisRoot m =
     (if includeGenesis \<and> 1 \<le> KernelMMR_GetSize m then
        case rbind (GetKernelAt (LeafIndex_At 0) m) (\<lambda>pGenesisKernel.
             if pGenesisKernel = None then Inr True
             else rbind (KernelMMR_Root Blake2b R 1 m) (\<lambda>root. Inr (\<not> BigInteger_equal root genesisRoot))) of
          Inl e \<Rightarrow> Some (Inl e)
        | Inr inconsistent \<Rightarrow>
            if inconsistent \<and> KernelMMR_GetSize m = 1 then rebuild_genesis_kernel Blake2b R genesisKernel m
            else Some (Inr m)
      else Some (Inr m))"

definition KernelMMR_Load ::
  "(bytes \<Rightarrow> bytes) \<Rightarrow> 'b roaring \<Rightarrow> bool \<Rightarrow> TransactionKernel \<Rightarrow> bytes \<Rightarrow> bool \<Rightarrow>
   bytes \<Rightarrow> bytes \<Rightarrow> bytes option \<Rightarrow> KernelMMR result option" where
  "KernelMMR_Load Blake2b R is_open genesisKernel genesisRoot includeGenesis hashes raw offsets =
     (let pHashFile = DataFile_Load hashes
      in if DataFile_GetSize 32 pHashFile = 0 then
           let m = \<lparr>km_hashFile = pHashFile, km_storage = Fixed (DataFile_Load raw)\<rparr>
           in if includeGenesis
              then map_option (\<lambda>(r, m). rbind r (\<lambda>_. Inr m)) (ApplyKernel Blake2b R genesisKernel m)
              else Some (Inr m)
         else if \<not> (offsets \<noteq> None \<or> length raw mod KERNEL_SIZE \<noteq> 0) then
           check_genesis_kernel Blake2b R includeGenesis genesisKernel genesisRoot
             \<lparr>km_hashFile = pHashFile, km_storage = Fixed (DataFile_Load raw)\<rparr>
         else
           let m = \<lparr>km_hashFile = pHashFile,
                    km_storage = Variable (AppendOnlyFile_Load raw)
                                   (DataFile_Load (case offsets of None \<Rightarrow> [] | Some bs \<Rightarrow> bs))\<rparr>
           in case if offsets = None then BuildKernelOffsetsFromRawFile is_open m else (Inr (), m) of
                (Inl e, m) \<Rightarrow> Some (Inl e)
              | (Inr _, m) \<Rightarrow>
                  check_genesis_kernel Blake2b R includeGenesis genesisKernel genesisRoot m)"

section \<open>What the files hold\<close>

declare kernel_offsets.simps [simp del]

abbreviation fixed_bytes :: "TransactionKernel list \<Rightarrow> bytes" where
  "fixed_bytes ks \<equiv> concat (map (Kernel_Serialize V1) ks)"

abbreviation variable_bytes :: "TransactionKernel list \<Rightarrow> bytes" where
  "variable_bytes ks \<equiv> concat (map (Kernel_Serialize V2) ks)"

definition kernel_start :: "TransactionKernel list \<Rightarrow> nat \<Rightarrow> nat" where
  "kernel_start ks i = length (variable_bytes (take i ks))"

definition offset_records :: "TransactionKernel list \<Rightarrow> bytes list" where
  "offset_records ks = map (\<lambda>i. AppendU64 (of_nat (kernel_start ks i))) [0..<length ks]"

abbreviation offset_bytes :: "TransactionKernel list \<Rightarrow> bytes" where
  "offset_bytes ks \<equiv> concat (offset_records ks)"

fun storage_rep :: "KernelStorage \<Rightarrow> TransactionKernel list \<times> TransactionKernel list \<Rightarrow> bool" where
  "storage_rep (Fixed d) (ks, saved) \<longleftrightarrow>
     data_inv d \<and> data_view d = fixed_bytes ks \<and> data_saved d = fixed_bytes saved"
| "storage_rep (Variable f offs) (ks, saved) \<longleftrightarrow>
     aof_inv f \<and> aof_view f = variable_bytes ks \<and> aof_mapped f = variable_bytes saved \<and>
     data_inv offs \<and> data_view offs = offset_bytes ks \<and> data_saved offs = offset_bytes saved"

definition kernel_rep ::
  "(bytes \<Rightarrow> bytes) \<Rightarrow> KernelMMR \<Rightarrow> TransactionKernel list \<times> TransactionKernel list \<Rightarrow> bool" where
  "kernel_rep B m = (\<lambda>(ks, saved).
     mmr_rep B (km_hashFile m) (map (Kernel_Serialize V1) ks) \<and>
     saved_rep B (data_saved (km_hashFile m)) (map (Kernel_Serialize V1) saved) \<and>
     storage_rep (km_storage m) (ks, saved) \<and>
     list_all (kernel_valid V2) ks \<and> list_all (kernel_valid V2) saved)"

lemma kernel_valid_V1: "kernel_valid V2 k \<Longrightarrow> kernel_valid V1 k"
  by (simp add: kernel_valid_def version_ge_def)

lemma length_Kernel_Serialize:
  assumes "kernel_valid V2 k"
  shows "length (Kernel_Serialize V1 k) = 114"
    and "98 \<le> length (Kernel_Serialize V2 k)" "length (Kernel_Serialize V2 k) \<le> 114"
  using assms
  by (simp_all add: Kernel_Serialize_def kernel_valid_def version_ge_def AppendU8_def AppendU16_def AppendU64_def
      AppendBigInteger_def Fee_Serialize_def)

lemma concat_records: "0 < n \<Longrightarrow> n dvd length bs \<Longrightarrow> concat (records n bs) = bs"
proof (induction "length bs div n" arbitrary: bs)
  case 0
  then show ?case by (auto simp: records_def elim!: dvdE)
next
  case (Suc k)
  let ?m = "k * n"
  have len: "length bs = Suc k * n" using Suc by (metis dvd_div_mult_self)
  have take: "n dvd length (take ?m bs)" "k = length (take ?m bs) div n" using Suc.prems len by simp_all
  have "records n (take ?m bs @ drop ?m bs) = records n (take ?m bs) @ [drop ?m bs]"
    using Suc.prems len take by (intro records_append) simp_all
  then show ?case using Suc.hyps(1) [OF take(2) Suc.prems(1) take(1)] by simp
qed

lemma variable_bytes_length:
  "list_all (kernel_valid V2) ks \<Longrightarrow> length (variable_bytes ks) \<le> 114 * length ks"
  using length_Kernel_Serialize(3) by (induction ks) fastforce+

lemma kernel_start_append: "i \<le> length ks \<Longrightarrow> kernel_start (ks @ [k]) i = kernel_start ks i"
  by (simp add: kernel_start_def)

lemma kernel_start_take: "i \<le> n \<Longrightarrow> kernel_start (take n ks) i = kernel_start ks i"
  by (simp add: kernel_start_def min_def)

lemma kernel_start_Suc:
  "i < length ks \<Longrightarrow> kernel_start ks (Suc i) = kernel_start ks i + length (Kernel_Serialize V2 (ks ! i))"
  by (simp add: kernel_start_def take_Suc_conv_app_nth)

lemma kernel_start_end: "kernel_start ks (length ks) = length (variable_bytes ks)"
  by (simp add: kernel_start_def)

lemma kernel_start_bound:
  assumes "list_all (kernel_valid V2) ks" "length ks < 2 ^ 50"
  shows "kernel_start ks i < 2 ^ 57"
proof -
  have "list_all (kernel_valid V2) (take i ks)"
    using assms(1) by (auto simp: list_all_iff dest: in_set_takeD)
  then show ?thesis
    using variable_bytes_length [of "take i ks"] assms(2) by (simp add: kernel_start_def)
qed

lemma offset_records_append:
  "offset_records (ks @ [k]) = offset_records ks @ [AppendU64 (of_nat (length (variable_bytes ks)))]"
  by (simp add: offset_records_def kernel_start_append kernel_start_end)

lemma offset_records_take: "n \<le> length ks \<Longrightarrow> offset_records (take n ks) = take n (offset_records ks)"
  by (simp add: offset_records_def take_map kernel_start_take min_absorb2)

lemma offset_records_length [simp]: "length (offset_records ks) = length ks"
  by (simp add: offset_records_def)

lemma offset_record: "x \<in> set (offset_records ks) \<Longrightarrow> length x = 8"
  by (auto simp: offset_records_def)

lemma fixed_records:
  assumes "list_all (kernel_valid V2) ks"
  shows "length (fixed_bytes ks) = 114 * length ks"
    and "records 114 (fixed_bytes ks) = map (Kernel_Serialize V1) ks"
  using records_concat [of 114 "map (Kernel_Serialize V1) ks"] length_Kernel_Serialize(1) assms
  by (auto simp: list_all_iff)

lemma offset_bytes_records:
  "length (offset_bytes ks) = 8 * length ks" "records 8 (offset_bytes ks) = offset_records ks"
  using records_concat [of 8 "offset_records ks"] offset_record by auto

text \<open>The record files, seen as aligned files of records.\<close>

lemma fixed_aligned:
  assumes "data_inv d" "data_view d = fixed_bytes ks" "list_all (kernel_valid V2) ks"
  shows "aligned KERNEL_SIZE d" "records KERNEL_SIZE (data_view d) = map (Kernel_Serialize V1) ks"
  using assms fixed_records by (simp_all add: aligned_def KERNEL_SIZE_def)

lemma offset_aligned:
  assumes "data_inv d" "data_view d = offset_bytes ks"
  shows "aligned KERNEL_OFFSET_SIZE d" "records KERNEL_OFFSET_SIZE (data_view d) = offset_records ks"
  using assms offset_bytes_records by (simp_all add: aligned_def KERNEL_OFFSET_SIZE_def)

lemma num_kernels:
  assumes "storage_rep (km_storage m) (ks, saved)" "list_all (kernel_valid V2) ks"
  shows "unat (GetNumKernels m) = length ks"
proof (cases "km_storage m")
  case (Fixed d)
  then show ?thesis
    using fixed_aligned [of d ks] GetSize_records [of KERNEL_SIZE d] assms by (simp add: GetNumKernels_def)
next
  case (Variable f offs)
  then show ?thesis
    using offset_aligned [of offs ks] GetSize_records [of KERNEL_OFFSET_SIZE offs] assms
    by (simp add: GetNumKernels_def)
qed

lemma ReadU64_New: "\<exists>b. ReadU64 (ByteBuffer_New (AppendU64 x) v) = Inr (x, b)"
  using decodes_New [OF decodes_U64, of x v] by auto

lemma GetKernelOffset_variable:
  assumes st: "km_storage m = Variable f offs" and rep: "storage_rep (Variable f offs) (ks, saved)"
    and len: "length ks < 2 ^ 50" and i: "unat i \<le> length ks"
  shows "GetKernelOffset i m = Inr (of_nat (kernel_start ks (unat i)))"
proof -
  have al: "aligned KERNEL_OFFSET_SIZE offs" "records KERNEL_OFFSET_SIZE (data_view offs) = offset_records ks"
    using offset_aligned [of offs ks] rep by auto
  then have size: "unat (DataFile_GetSize KERNEL_OFFSET_SIZE offs) = length ks"
    using GetSize_records by fastforce
  have end': "AppendOnlyFile_GetSize f = of_nat (kernel_start ks (length ks))"
  proof -
    have "unat (AppendOnlyFile_GetSize f) = kernel_start ks (length ks)"
      using unat_GetSize(1) [of f] rep by (simp add: kernel_start_end)
    then have "of_nat (unat (AppendOnlyFile_GetSize f)) = (of_nat (kernel_start ks (length ks)) :: u64)" by (simp only:)
    then show ?thesis by simp
  qed
  show ?thesis
  proof (cases "unat i = length ks")
    case True
    then show ?thesis using st size end' by (simp add: GetKernelOffset_def word_le_nat_alt)
  next
    case False
    then have lt: "unat i < length ks" using i by simp
    then have "unat i * 8 < 2 ^ 64" using len by simp
    then have "GetDataAt KERNEL_OFFSET_SIZE i offs = Inr (AppendU64 (of_nat (kernel_start ks (unat i))))"
      using GetDataAt_view [OF al(1), of i] al(2) lt by (simp add: KERNEL_OFFSET_SIZE_def offset_records_def)
    then show ?thesis
      using st size lt ReadU64_New [of "of_nat (kernel_start ks (unat i))" V1]
      by (auto simp: GetKernelOffset_def word_le_nat_alt)
  qed
qed

lemma DeserializeKernel_Serialize:
  assumes "kernel_valid v k" "length (Kernel_Serialize v k) < 2 ^ 63"
  shows "DeserializeKernel (Kernel_Serialize v k) v = Inr k"
  using kernel_codec.roundtrip [OF assms] by (auto simp: DeserializeKernel_def)

lemma next_kernel:
  assumes "storage_rep (km_storage m) (ks, saved)" "list_all (kernel_valid V2) ks" "length ks < 2 ^ 50"
    and "unat i < length ks"
  shows "unat (i + 1) = Suc (unat i)" "i + 1 < GetNumKernels m \<longleftrightarrow> Suc (unat i) < length ks"
    "\<not> GetNumKernels m \<le> i"
proof -
  show Si: "unat (i + 1) = Suc (unat i)" using assms(3,4) by (subst unat_add_no_overflow) simp_all
  show "i + 1 < GetNumKernels m \<longleftrightarrow> Suc (unat i) < length ks" "\<not> GetNumKernels m \<le> i"
    using assms(4) by (simp_all add: word_less_nat_alt word_le_nat_alt num_kernels [OF assms(1,2)] Si)
qed

lemma GetKernelAt_fixed:
  assumes st: "km_storage m = Fixed d" and rep: "storage_rep (km_storage m) (ks, saved)"
    and valid: "list_all (kernel_valid V2) ks" and len: "length ks < 2 ^ 50"
    and i: "unat (m_leafIndex idx) < length ks"
  shows "GetKernelAt idx m = Inr (Some (ks ! unat (m_leafIndex idx)))"
proof -
  let ?i = "m_leafIndex idx" and ?k = "ks ! unat (m_leafIndex idx)"
  have k: "kernel_valid V2 ?k" using valid i by (simp add: list_all_length)
  note next' = next_kernel [OF rep valid len i]
  have al: "aligned KERNEL_SIZE d" "records KERNEL_SIZE (data_view d) = map (Kernel_Serialize V1) ks"
    using fixed_aligned [of d ks] rep valid st by auto
  have "unat ?i * 114 < 2 ^ 64" using i len by simp
  then have data: "GetDataAt KERNEL_SIZE ?i d = Inr (Kernel_Serialize V1 ?k)"
    using GetDataAt_view [OF al(1), of ?i] al(2) i by (simp add: KERNEL_SIZE_def)
  have "GetNumKernels m = ?i + 1" if "\<not> Suc (unat ?i) < length ks"
    using num_kernels [OF rep valid] next'(1) i that by (simp add: word_unat_eq_iff)
  then have size: "GetKernelRecordSize ?i m = Inr 114"
    using next'(2) by (cases "Suc (unat ?i) < length ks")
      (simp_all add: GetKernelRecordSize_def GetKernelOffset_def st KERNEL_SIZE_def algebra_simps)
  have "DeserializeKernel (Kernel_Serialize V1 ?k) V1 = Inr ?k"
    using DeserializeKernel_Serialize [OF kernel_valid_V1 [OF k]] length_Kernel_Serialize(1) [OF k] by simp
  then show ?thesis using next'(3) data size st by (simp add: GetKernelAt_def)
qed

text \<open>Kernel \<open>i\<close> in the file of kernels of different sizes.\<close>

lemma variable_kernel:
  assumes "i < length ks"
  shows "take (length (Kernel_Serialize V2 (ks ! i))) (drop (kernel_start ks i) (variable_bytes ks)) =
      Kernel_Serialize V2 (ks ! i)"
    and "kernel_start ks i + length (Kernel_Serialize V2 (ks ! i)) \<le> length (variable_bytes ks)"
proof -
  have split: "variable_bytes ks =
      variable_bytes (take i ks) @ Kernel_Serialize V2 (ks ! i) @ variable_bytes (drop (Suc i) ks)"
    using arg_cong [OF id_take_nth_drop [OF assms], of variable_bytes] by simp
  show "take (length (Kernel_Serialize V2 (ks ! i))) (drop (kernel_start ks i) (variable_bytes ks)) =
      Kernel_Serialize V2 (ks ! i)"
    by (subst split) (simp add: kernel_start_def)
  show "kernel_start ks i + length (Kernel_Serialize V2 (ks ! i)) \<le> length (variable_bytes ks)"
    by (subst split) (simp add: kernel_start_def)
qed

lemma GetKernelAt_variable:
  assumes st: "km_storage m = Variable f offs" and rep: "storage_rep (km_storage m) (ks, saved)"
    and valid: "list_all (kernel_valid V2) ks" and len: "length ks < 2 ^ 50"
    and i: "unat (m_leafIndex idx) < length ks"
  shows "GetKernelAt idx m = Inr (Some (ks ! unat (m_leafIndex idx)))"
proof -
  let ?i = "m_leafIndex idx" and ?k = "ks ! unat (m_leafIndex idx)"
  let ?s = "kernel_start ks (unat ?i)" and ?n = "length (Kernel_Serialize V2 ?k)"
  have k: "kernel_valid V2 ?k" using valid i by (simp add: list_all_length)
  note next' = next_kernel [OF rep valid len i]
  have vrep: "storage_rep (Variable f offs) (ks, saved)" using rep st by simp
  have start: "GetKernelOffset ?i m = Inr (of_nat ?s)"
    using GetKernelOffset_variable [OF st vrep len] i by simp
  have end': "GetKernelOffset (?i + 1) m = Inr (of_nat (?s + ?n))"
    using GetKernelOffset_variable [OF st vrep len, of "?i + 1"] i next'(1) kernel_start_Suc [OF i] by simp
  have "AppendOnlyFile_GetSize f = of_nat (?s + ?n)" if "\<not> Suc (unat ?i) < length ks"
  proof -
    have "DataFile_GetSize KERNEL_OFFSET_SIZE offs \<le> ?i + 1"
      using next'(2) that st by (simp add: GetNumKernels_def not_less)
    then show ?thesis using end' st by (simp add: GetKernelOffset_def)
  qed
  then have size: "GetKernelRecordSize ?i m = Inr (of_nat ?n)"
    using next'(2) start end' st
    by (cases "Suc (unat ?i) < length ks") (simp_all add: GetKernelRecordSize_def)
  have small: "?s < 2 ^ 57" "98 \<le> ?n" "?n \<le> 114"
    using kernel_start_bound [OF valid len] length_Kernel_Serialize(2,3) [OF k] by simp_all
  then have u: "unat (of_nat ?s :: u64) = ?s" "unat (of_nat ?n :: u64) = ?n" "(of_nat ?n :: u64) \<noteq> 0"
    using unat_of_nat_u64 [of ?s] unat_of_nat_u64 [of ?n] by (auto simp: word_unat_eq_iff)
  have "AppendOnlyFile_Read (of_nat ?s) (of_nat ?n) f = Inr (Some (Kernel_Serialize V2 ?k))"
    using Read_view [OF _ u(3), of f "of_nat ?s"] vrep variable_kernel [OF i] by (simp add: u)
  moreover have "DeserializeKernel (Kernel_Serialize V2 ?k) V2 = Inr ?k"
    using DeserializeKernel_Serialize [OF k] small(3) by simp
  ultimately show ?thesis using next'(3) size start u(3) st by (simp add: GetKernelAt_def)
qed

lemma GetKernelAt_rep:
  assumes "storage_rep (km_storage m) (ks, saved)" "list_all (kernel_valid V2) ks" "length ks < 2 ^ 50"
    and "i < length ks"
  shows "GetKernelAt (LeafIndex_At (of_nat i)) m = Inr (Some (ks ! i))"
proof -
  have u: "unat (m_leafIndex (LeafIndex_At (of_nat i))) = i"
    using assms(3,4) by (simp add: LeafIndex_At_def unat_of_nat_u64)
  show ?thesis
    using GetKernelAt_fixed [OF _ assms(1-3), of _ "LeafIndex_At (of_nat i)"]
      GetKernelAt_variable [OF _ assms(1-3), of _ _ "LeafIndex_At (of_nat i)"] u assms(4)
    by (cases "km_storage m") simp_all
qed

section \<open>The operations on the files\<close>

lemma Append_saved: "aof_mapped (AppendOnlyFile_Append data f) = aof_mapped f"
  by (simp add: AppendOnlyFile_Append_def)

lemma storage_add:
  assumes "storage_rep st (ks, saved)" "list_all (kernel_valid V2) ks" "length ks + 1 < 2 ^ 50"
    "kernel_valid V2 k"
  shows "storage_rep
    (case st of
       Fixed d \<Rightarrow> Fixed (AddData (Kernel_Serialize V1 k) d)
     | Variable f offs \<Rightarrow>
         Variable (AppendOnlyFile_Append (Kernel_Serialize V2 k) f)
           (AddData (SerializeOffset (AppendOnlyFile_GetSize f)) offs)) (ks @ [k], saved)"
proof (cases st)
  case (Fixed d)
  then have "aligned KERNEL_SIZE d" and view: "data_view d = fixed_bytes ks" "data_saved d = fixed_bytes saved"
    using fixed_aligned [of d ks] assms by auto
  then have "aligned KERNEL_SIZE (AddData (Kernel_Serialize V1 k) d)"
    using assms fixed_records(1) [OF assms(2)] length_Kernel_Serialize(1) [OF assms(4)]
    by (intro AddData_aligned(1)) (simp_all add: KERNEL_SIZE_def)
  then show ?thesis using Fixed view by (simp add: aligned_def AddData_view AddData_saved)
next
  case (Variable f offs)
  then have rep: "aof_inv f" "aof_view f = variable_bytes ks" "aof_mapped f = variable_bytes saved"
    "data_view offs = offset_bytes ks" "data_saved offs = offset_bytes saved"
    and al: "aligned KERNEL_OFFSET_SIZE offs"
    using offset_aligned [of offs ks] assms(1) by auto
  have app: "aof_inv (AppendOnlyFile_Append (Kernel_Serialize V2 k) f)"
    using rep variable_bytes_length [OF assms(2)] length_Kernel_Serialize(3) [OF assms(4)] assms(3)
    by (intro Append_inv) simp_all
  have "AppendOnlyFile_GetSize f = of_nat (length (variable_bytes ks))"
    using arg_cong [OF unat_GetSize(1) [OF rep(1)], of "of_nat :: nat \<Rightarrow> u64"] by (simp add: rep(2))
  moreover have "aligned KERNEL_OFFSET_SIZE (AddData (SerializeOffset (AppendOnlyFile_GetSize f)) offs)"
    using al rep(4) offset_bytes_records(1) [of ks] assms(3)
    by (intro AddData_aligned(1)) (simp_all add: KERNEL_OFFSET_SIZE_def SerializeOffset_def)
  ultimately show ?thesis
    using Variable rep app
    by (simp add: aligned_def AddData_view AddData_saved Append_view offset_records_append SerializeOffset_def
        Append_saved)
qed

lemma fixed_rewind:
  assumes "storage_rep (Fixed d) (ks, saved)" "list_all (kernel_valid V2) ks" "unat n \<le> length ks"
  shows "\<exists>d'. DataFile_Rewind KERNEL_SIZE n d = (Inr (), d') \<and>
    storage_rep (Fixed d') (take (unat n) ks, saved)"
proof -
  have al: "aligned KERNEL_SIZE d" "records KERNEL_SIZE (data_view d) = map (Kernel_Serialize V1) ks"
    using fixed_aligned [of d ks] assms by auto
  obtain d' where d': "DataFile_Rewind KERNEL_SIZE n d = (Inr (), d')" "aligned KERNEL_SIZE d'"
    "records KERNEL_SIZE (data_view d') = map (Kernel_Serialize V1) (take (unat n) ks)" "data_saved d' = data_saved d"
    using DataFile_Rewind_view [OF al(1), of n] al(2) assms(3) by (auto simp: take_map)
  have "data_view d' = fixed_bytes (take (unat n) ks)"
    using concat_records [of KERNEL_SIZE "data_view d'"] d'(2,3) by (simp add: aligned_def)
  then show ?thesis using d' assms(1) by (simp add: aligned_def)
qed

lemma variable_rewind:
  assumes rep: "storage_rep (Variable f offs) (ks, saved)" and len: "length ks < 2 ^ 50"
    and valid: "list_all (kernel_valid V2) ks" and n: "unat n \<le> length ks"
  shows "\<exists>offs'. DataFile_Rewind KERNEL_OFFSET_SIZE n offs = (Inr (), offs') \<and>
    storage_rep (Variable (snd (AppendOnlyFile_Rewind (of_nat (kernel_start ks (unat n))) f)) offs')
      (take (unat n) ks, saved)"
proof -
  have al: "aligned KERNEL_OFFSET_SIZE offs" "records KERNEL_OFFSET_SIZE (data_view offs) = offset_records ks"
    using offset_aligned [of offs ks] rep by auto
  obtain o' where o': "DataFile_Rewind KERNEL_OFFSET_SIZE n offs = (Inr (), o')" "aligned KERNEL_OFFSET_SIZE o'"
    "records KERNEL_OFFSET_SIZE (data_view o') = offset_records (take (unat n) ks)" "data_saved o' = data_saved offs"
    using DataFile_Rewind_view [OF al(1), of n] al(2) n by (auto simp: offset_records_take)
  have view: "data_view o' = offset_bytes (take (unat n) ks)"
    using concat_records [of KERNEL_OFFSET_SIZE "data_view o'"] o'(2,3) by (simp add: aligned_def)
  let ?s = "kernel_start ks (unat n)"
  have s: "unat (of_nat ?s :: u64) = ?s"
    using kernel_start_bound [OF valid len, of "unat n"] by (intro unat_of_nat_u64) simp
  have split: "variable_bytes ks = variable_bytes (take (unat n) ks) @ variable_bytes (drop (unat n) ks)"
    by (metis append_take_drop_id concat_append map_append)
  have take: "take ?s (variable_bytes ks) = variable_bytes (take (unat n) ks)" "?s \<le> length (variable_bytes ks)"
    by (subst split, simp add: kernel_start_def)+
  obtain ok f' where f': "AppendOnlyFile_Rewind (of_nat ?s) f = (ok, f')" by fastforce
  have "aof_view f' = variable_bytes (take (unat n) ks) \<and> aof_mapped f' = aof_mapped f \<and> aof_inv f'"
    using Rewind_view [OF _ f'] rep take by (auto simp: s)
  then show ?thesis using o' view rep f' by (simp add: aligned_def)
qed

lemma aof_commit_True: "aof_inv f \<Longrightarrow> AppendOnlyFile_Commit True f = (Inr (), aof_commit f)"
  using Flush_view(1) [of f "fst (Flush True f)" "snd (Flush True f)"]
  by (auto simp: aof_commit_def AppendOnlyFile_Commit_def split: prod.splits)

lemma kernel_commit:
  assumes "kernel_rep B m (v, d)"
  shows "\<exists>m'. KernelMMR_Commit True True True m = (Inr (), m') \<and> kernel_rep B m' (v, v)"
proof -
  have hash: "data_inv (km_hashFile m)" using assms by (simp add: kernel_rep_def mmr_rep_saved)
  note h = DataFile_Commit_True [OF hash] data_commit_flush [OF hash]
  show ?thesis
  proof (cases "km_storage m")
    case (Fixed d')
    then have "data_inv d'" using assms by (simp add: kernel_rep_def)
    from DataFile_Commit_True [OF this] data_commit_flush [OF this] show ?thesis
      using h Fixed assms by (auto simp: KernelMMR_Commit_def kernel_rep_def mmr_rep_saved)
  next
    case (Variable f offs)
    then have i: "aof_inv f" "data_inv offs" using assms by (simp_all add: kernel_rep_def)
    show ?thesis
      using h Variable assms aof_commit_True [OF i(1)] DataFile_Commit_True [OF i(2)] data_commit_flush [OF i(2)]
        aof.commit_inv [OF i(1)] aof.commit_view [OF i(1)] aof.commit_saved [OF i(1)]
      by (auto simp: KernelMMR_Commit_def kernel_rep_def mmr_rep_saved)
  qed
qed

lemma kernel_rollback:
  assumes "kernel_rep B m (v, d)"
  shows "kernel_rep B (KernelMMR_Rollback m) (d, d)"
proof -
  have hash: "data_inv (km_hashFile m)" using assms by (simp add: kernel_rep_def mmr_rep_saved)
  note h = data.rollback_inv [OF hash] data.rollback_view [OF hash] data.rollback_saved [OF hash]
  show ?thesis
  proof (cases "km_storage m")
    case (Fixed d')
    then have "data_inv d'" using assms by (simp add: kernel_rep_def)
    from data.rollback_inv [OF this] data.rollback_view [OF this] data.rollback_saved [OF this] show ?thesis
      using h Fixed assms by (auto simp: KernelMMR_Rollback_def kernel_rep_def mmr_rep_saved)
  next
    case (Variable f offs)
    then have i: "aof_inv f" "data_inv offs" using assms by (simp_all add: kernel_rep_def)
    show ?thesis
      using h Variable assms data.rollback_inv [OF i(2)] data.rollback_view [OF i(2)] data.rollback_saved [OF i(2)]
        aof.rollback_inv [OF i(1)] aof.rollback_view [OF i(1)] aof.rollback_saved [OF i(1)]
      by (auto simp: KernelMMR_Rollback_def kernel_rep_def mmr_rep_saved)
  qed
qed

lemma kernel_add:
  assumes len: "\<forall>x. length (B x) = 32" and rep: "kernel_rep B m (v, d)"
    and bound: "length v + 1 < 2 ^ 50" and k: "kernel_valid V2 k"
  shows "\<exists>m'. ApplyKernel B R k m = Some (Inr (), m') \<and> kernel_rep B m' (v @ [k], d)"
proof -
  have r: "mmr_rep B (km_hashFile m) (map (Kernel_Serialize V1) v)" "storage_rep (km_storage m) (v, d)"
    "list_all (kernel_valid V2) v"
    using rep by (simp_all add: kernel_rep_def)
  obtain h where "AddHashes B R (Kernel_Serialize V1 k) None (km_hashFile m) = Some (Inr (), h)"
    "mmr_rep B h (map (Kernel_Serialize V1) v @ [Kernel_Serialize V1 k])"
    "data_saved h = data_saved (km_hashFile m)"
    using AddHashes_rep [OF _ r(1), of R "Kernel_Serialize V1 k"] len bound by auto
  then show ?thesis
    using storage_add [OF r(2,3) bound k] rep k by (simp add: ApplyKernel_def Let_def kernel_rep_def)
qed

lemma list_all_take: "list_all P xs \<Longrightarrow> list_all P (take n xs)"
  by (auto simp: list_all_iff dest: in_set_takeD)

lemma kernel_rewind:
  assumes rep: "kernel_rep B m (v, d)" and n: "n < 2 ^ 50"
  shows "kernel_rep B (snd (KernelMMR_Rewind n m)) (range_spec (RangeRewind n) (v, d)) \<and>
    (unat n \<le> length v \<longrightarrow> fst (KernelMMR_Rewind n m) = Inr ())"
proof -
  have r: "mmr_rep B (km_hashFile m) (map (Kernel_Serialize V1) v)" "storage_rep (km_storage m) (v, d)"
    "list_all (kernel_valid V2) v"
    using rep by (simp_all add: kernel_rep_def)
  have len: "length v < 2 ^ 50" using r(1) by (simp add: mmr_rep_def)
  have raw: "(if n < GetNumKernels m then GetKernelOffset n m else Inr (AppendOnlyFile_GetSize f)) =
      Inr (of_nat (kernel_start v (unat n)))"
    if "km_storage m = Variable f offs" "unat n \<le> length v" for f offs
    using GetKernelOffset_variable [of m f offs v d n] that r len num_kernels [OF r(2,3)]
    by (auto simp: GetKernelOffset_def GetNumKernels_def word_less_nat_alt word_le_nat_alt split: if_splits)
  show ?thesis
  proof (cases "unat n \<le> length v")
    case True
    then obtain h where h: "DataFile_Rewind 32 (LeafIndex_GetPosition (LeafIndex_At n)) (km_hashFile m) = (Inr (), h)"
      "mmr_rep B h (map (Kernel_Serialize V1) (take (unat n) v))" "data_saved h = data_saved (km_hashFile m)"
      using Rewind_rep [OF r(1), of n] by (auto simp: take_map)
    show ?thesis
      using h True rep r fixed_rewind [OF _ r(3) True] variable_rewind [OF _ len r(3) True] raw
      by (cases "km_storage m") (fastforce simp: KernelMMR_Rewind_def kernel_rep_def list_all_take)+
  next
    case False
    then obtain h where h: "DataFile_Rewind 32 (LeafIndex_GetPosition (LeafIndex_At n)) (km_hashFile m) = (Inl FileException, h)"
      "mmr_rep B h (map (Kernel_Serialize V1) v)" "data_saved h = data_saved (km_hashFile m)"
      using Rewind_beyond [OF r(1) _ n] by auto
    then have "snd (KernelMMR_Rewind n m) \<in> {m, m\<lparr>km_hashFile := h\<rparr>}"
      by (cases "km_storage m") (auto simp: KernelMMR_Rewind_def split: sum.splits)
    then show ?thesis using h False rep by (auto simp: kernel_rep_def)
  qed
qed

section \<open>The kernel range refines a list of kernels\<close>

fun kernel_step ::
  "(bytes \<Rightarrow> bytes) \<Rightarrow> 'b roaring \<Rightarrow> TransactionKernel range_op \<Rightarrow> KernelMMR \<Rightarrow> KernelMMR option" where
  "kernel_step B R (RangeAdd k) m = map_option snd (ApplyKernel B R k m)"
| "kernel_step B R (RangeRewind n) m = Some (snd (KernelMMR_Rewind n m))"
| "kernel_step B R RangeCommit m = Some (snd (KernelMMR_Commit True True True m))"
| "kernel_step B R RangeRollback m = Some (KernelMMR_Rollback m)"

interpretation kernel_range: range_store "kernel_step B R"
  "\<lambda>m p. (\<forall>x. length (B x) = 32) \<and> kernel_rep B m p" "kernel_valid V2" for B R
proof
  fix m v d and op :: "TransactionKernel range_op"
  assume rep: "(\<forall>x. length (B x) = 32) \<and> kernel_rep B m (v, d)" "length v + 1 < 2 ^ 50"
    "range_op_ok (kernel_valid V2) op"
  then show "\<exists>m'. kernel_step B R op m = Some m' \<and>
      (\<forall>x. length (B x) = 32) \<and> kernel_rep B m' (range_spec op (v, d))"
    using kernel_add [of B m v d _ R] kernel_rewind [of B m v d] kernel_commit [of B m v d]
      kernel_rollback [of B m v d]
    by (cases op) fastforce+
qed

definition empty_storage :: "KernelStorage \<Rightarrow> bool" where
  "empty_storage st \<longleftrightarrow> st = Fixed (DataFile_Load []) \<or> st = Variable (AppendOnlyFile_Load []) (DataFile_Load [])"

lemma kernel_rep_empty:
  "empty_storage st \<Longrightarrow> kernel_rep B \<lparr>km_hashFile = DataFile_Load [], km_storage = st\<rparr> ([], [])"
  using header_rep_empty [of B] Load_inv [of "[]"]
  by (auto simp: header_rep_def kernel_rep_def HeaderMMR_Load_def empty_storage_def offset_records_def mmr_rep_saved
      AppendOnlyFile_Load_def DataFile_Load_def aof_view_def)

text \<open>
  C9. The kernel range implements a list of kernels in both storage formats: from empty files, any sequence of
  applied kernels, rewinds, commits and rollbacks runs to its end; afterwards every kernel of the specified list is
  read back unchanged, and the root at every size is the root over the version 1 encodings of the kernels up to
  there. In particular the two formats have the same roots.
\<close>

theorem kernel_mmr_refines:
  assumes "\<forall>x. length (B x) = 32" "empty_storage st" "length ops < 2 ^ 50"
    and "list_all (range_op_ok (kernel_valid V2)) ops"
    and "fold range_spec ops ([], []) = (ks, saved)"
  shows "\<exists>m. range_run (kernel_step B R) ops \<lparr>km_hashFile = DataFile_Load [], km_storage = st\<rparr> = Some m \<and>
    GetNumKernels m = of_nat (length ks) \<and>
    (\<forall>i < length ks.
       GetKernelAt (LeafIndex_At (of_nat i)) m = Inr (Some (ks ! i)) \<and>
       KernelMMR_Root B R (LeafIndex_GetPosition (LeafIndex_At (of_nat (Suc i)))) m =
         Inr (mmr_root B (map (Kernel_Serialize V1) (take (Suc i) ks))))"
proof -
  obtain m where m: "range_run (kernel_step B R) ops \<lparr>km_hashFile = DataFile_Load [], km_storage = st\<rparr> = Some m"
    "kernel_rep B m (ks, saved)"
    using kernel_range.run_refines [of B "\<lparr>km_hashFile = DataFile_Load [], km_storage = st\<rparr>" "[]" "[]" ops R]
      assms kernel_rep_empty [of st B] by auto
  have r: "mmr_rep B (km_hashFile m) (map (Kernel_Serialize V1) ks)" "storage_rep (km_storage m) (ks, saved)"
    "list_all (kernel_valid V2) ks"
    using m(2) by (simp_all add: kernel_rep_def)
  have len: "length ks < 2 ^ 50" using r(1) by (simp add: mmr_rep_def)
  have num: "GetNumKernels m = of_nat (length ks)"
    using arg_cong [OF num_kernels [OF r(2,3)], of "of_nat :: nat \<Rightarrow> u64"] by simp
  have root: "KernelMMR_Root B R (LeafIndex_GetPosition (LeafIndex_At (of_nat (Suc i)))) m =
      Inr (mmr_root B (map (Kernel_Serialize V1) (take (Suc i) ks)))" if "i < length ks" for i
  proof -
    have u: "unat (of_nat (Suc i) :: u64) = Suc i" using that len by (intro unat_of_nat_u64) simp
    have "LeafIndex_GetPosition (LeafIndex_At (of_nat (Suc i))) = of_nat (mmr_pos (Suc i) 0)"
      by (simp only: LeafIndex_At_position u)
    then show ?thesis
      using Root_rep [OF r(1), of "Suc i" R] that by (simp add: KernelMMR_Root_def take_map)
  qed
  show ?thesis using m(1) num GetKernelAt_rep [OF r(2,3) len] root by blast
qed

theorem kernel_mmr_refines_witness:
  "let k = \<lparr>k_features = HEIGHT_LOCKED, k_fee = Fee_Default, k_lockHeight = 7, k_excessCommitment = replicate 33 8,
            k_excessSignature = replicate 64 7\<rparr>;
       ops = [RangeAdd k, RangeAdd (k\<lparr>k_lockHeight := 9\<rparr>), RangeCommit, RangeRewind 1, RangeRollback];
       B = (\<lambda>bs. replicate 32 (of_nat (length bs)));
       st = Variable (AppendOnlyFile_Load []) (DataFile_Load []);
       ks = [k, k\<lparr>k_lockHeight := 9\<rparr>]
   in \<exists>m. range_run (kernel_step B set_roaring) ops \<lparr>km_hashFile = DataFile_Load [], km_storage = st\<rparr> = Some m \<and>
        GetNumKernels m = of_nat (length ks) \<and>
        (\<forall>i < length ks.
           GetKernelAt (LeafIndex_At (of_nat i)) m = Inr (Some (ks ! i)) \<and>
           KernelMMR_Root B set_roaring (LeafIndex_GetPosition (LeafIndex_At (of_nat (Suc i)))) m =
             Inr (mmr_root B (map (Kernel_Serialize V1) (take (Suc i) ks))))"
  unfolding Let_def
  by (rule kernel_mmr_refines [where saved =
        "[\<lparr>k_features = HEIGHT_LOCKED, k_fee = Fee_Default, k_lockHeight = 7, k_excessCommitment = replicate 33 8,
           k_excessSignature = replicate 64 7\<rparr>,
          \<lparr>k_features = HEIGHT_LOCKED, k_fee = Fee_Default, k_lockHeight = 9, k_excessCommitment = replicate 33 8,
           k_excessSignature = replicate 64 7\<rparr>]"])
    (simp_all add: empty_storage_def kernel_valid_def kernel_features_defs fee_valid_def Fee_Default_def)

section \<open>Rebuilding the offsets\<close>

lemma RemainingSize_rest: "bb_wf b \<Longrightarrow> unat (GetRemainingSize b) = length (bb_rest b)"
proof -
  assume wf: "bb_wf b"
  then have "unat (of_nat (length (m_bytes b)) :: u64) = length (m_bytes b)"
    by (intro unat_of_nat_u64) (simp add: bb_wf_def)
  then show ?thesis using wf by (simp add: GetRemainingSize_def bb_rest_def bb_wf_def unat_sub_no_underflow)
qed

lemma kernel_offsets_correct:
  assumes "list_all (kernel_valid V2) (done @ ks)" "length (done @ ks) < 2 ^ 50"
    and "bb_wf b" "m_protocolVersion b = V2" "bb_rest b = variable_bytes ks"
    and "aligned KERNEL_OFFSET_SIZE offs" "data_view offs = offset_bytes done"
  shows "\<exists>offs'. kernel_offsets (of_nat (length (variable_bytes done))) b offs = (Inr (), offs') \<and>
    aligned KERNEL_OFFSET_SIZE offs' \<and> data_view offs' = offset_bytes (done @ ks)"
  using assms
proof (induction ks arbitrary: "done" b offs)
  case Nil
  then have "GetRemainingSize b = 0" using RemainingSize_rest [of b] by (simp add: unat_eq_zero)
  then show ?case using Nil by (subst kernel_offsets.simps) simp
next
  case (Cons k ks)
  let ?e = "Kernel_Serialize V2 k" and ?n = "length (variable_bytes done)"
  have k: "kernel_valid V2 k" using Cons.prems(1) by simp
  have len: "98 \<le> length ?e" using length_Kernel_Serialize(2) [OF k] .
  obtain b' where b': "Kernel_Deserialize b = Inr (k, b')" "bb_wf b'" "m_protocolVersion b' = V2"
    "bb_rest b' = variable_bytes ks"
    using decodes_Kernel [OF k, unfolded decodes_def, rule_format, OF Cons.prems(3,4), of "variable_bytes ks"]
      Cons.prems(5) by auto
  have size: "unat (GetRemainingSize b) = length ?e + unat (GetRemainingSize b')"
    using RemainingSize_rest [OF Cons.prems(3)] RemainingSize_rest [OF b'(2)] Cons.prems(5) b'(4) by simp
  then have diff: "unat (GetRemainingSize b - GetRemainingSize b') = length ?e"
    by (subst unat_sub_no_underflow) simp_all
  have cons: "GetRemainingSize b - GetRemainingSize b' = of_nat (length ?e)"
    unfolding diff [symmetric] by simp
  have "unat (GetRemainingSize b) \<noteq> 0" "unat (GetRemainingSize b - GetRemainingSize b') \<noteq> 0"
    using size diff len by linarith+
  then have "GetRemainingSize b \<noteq> 0" "GetRemainingSize b - GetRemainingSize b' \<noteq> 0" by (metis unat_0)+
  moreover have "\<not> GetRemainingSize b < GetRemainingSize b - GetRemainingSize b'"
    unfolding word_less_nat_alt diff using size by linarith
  ultimately have step: "kernel_offsets (of_nat ?n) b offs =
      kernel_offsets (of_nat (length (variable_bytes (done @ [k])))) b' (AddData (SerializeOffset (of_nat ?n)) offs)"
    using b'(1) cons by (subst kernel_offsets.simps) (auto simp: Let_def)
  have "aligned KERNEL_OFFSET_SIZE (AddData (SerializeOffset (of_nat ?n)) offs)"
    using Cons.prems(2,6,7) offset_bytes_records(1) [of "done"]
    by (intro AddData_aligned(1)) (simp_all add: SerializeOffset_def KERNEL_OFFSET_SIZE_def)
  moreover have "data_view (AddData (SerializeOffset (of_nat ?n)) offs) = offset_bytes (done @ [k])"
    using Cons.prems(7) by (simp add: AddData_view offset_records_append SerializeOffset_def)
  ultimately show ?case
    using Cons.IH [of "done @ [k]" b' "AddData (SerializeOffset (of_nat ?n)) offs"] Cons.prems(1,2) b'(2-4) step
    by simp
qed

text \<open>
  C24. A raw file without offsets is made readable: for every non-empty file that is the concatenation of version 2
  encodings, building the offsets succeeds, the range then holds exactly these kernels and each of them is
  read back.
\<close>

theorem rebuilt_offsets_correct:
  assumes "list_all (kernel_valid V2) ks" "length ks < 2 ^ 50" "ks \<noteq> []"
  shows "\<exists>m. BuildKernelOffsetsFromRawFile True
      \<lparr>km_hashFile = h, km_storage = Variable (AppendOnlyFile_Load (variable_bytes ks)) (DataFile_Load [])\<rparr> =
      (Inr (), m) \<and>
    km_hashFile m = h \<and> GetNumKernels m = of_nat (length ks) \<and>
    (\<forall>i < length ks. GetKernelAt (LeafIndex_At (of_nat i)) m = Inr (Some (ks ! i)))"
proof -
  let ?f = "AppendOnlyFile_Load (variable_bytes ks)" and ?d = "DataFile_Load []"
  have len: "length (variable_bytes ks) < 2 ^ 57"
    using kernel_start_bound [OF assms(1,2), of "length ks"] by (simp add: kernel_start_end)
  then have f: "aof_inv ?f" "aof_view ?f = variable_bytes ks" "aof_mapped ?f = variable_bytes ks"
    using Load_inv Load_view by (simp_all add: AppendOnlyFile_Load_def)
  have "0 < length (variable_bytes ks)"
    using assms(1,3) length_Kernel_Serialize(2) by (cases ks) fastforce+
  then have size: "AppendOnlyFile_GetSize ?f \<noteq> 0" using unat_GetSize(1) [OF f(1)] f(2) by auto
  have d: "data_inv ?d" "data_view ?d = offset_bytes []"
    using header_rep_empty [of B]
    by (simp_all add: header_rep_def HeaderMMR_Load_def mmr_rep_saved offset_records_def DataFile_Load_def
        AppendOnlyFile_Load_def aof_view_def)
  obtain d0 where d0: "DataFile_Rewind KERNEL_OFFSET_SIZE 0 ?d = (Inr (), d0)" "aligned KERNEL_OFFSET_SIZE d0"
    "records KERNEL_OFFSET_SIZE (data_view d0) = []"
    using DataFile_Rewind_view [OF offset_aligned(1) [OF d], of 0] by auto
  have "data_view d0 = offset_bytes []"
    using concat_records [of KERNEL_OFFSET_SIZE "data_view d0"] d0(2,3) by (simp add: aligned_def offset_records_def)
  then obtain d1 where d1: "kernel_offsets 0 (ByteBuffer_New (variable_bytes ks) V2) d0 = (Inr (), d1)"
    "data_inv d1" "data_view d1 = offset_bytes ks"
    using kernel_offsets_correct [of "[]" ks "ByteBuffer_New (variable_bytes ks) V2" d0] assms(1,2) d0(2) len
    by (auto simp: ByteBuffer_New_def bb_wf_def bb_rest_def aligned_def)
  let ?m = "\<lparr>km_hashFile = h, km_storage = Variable ?f (data_commit d1)\<rparr>"
  have "BuildKernelOffsetsFromRawFile True \<lparr>km_hashFile = h, km_storage = Variable ?f ?d\<rparr> = (Inr (), ?m)"
    using d0(1) d1(1) size f(3) DataFile_Commit_True [OF d1(2)] by (simp add: BuildKernelOffsetsFromRawFile_def)
  moreover have rep: "storage_rep (km_storage ?m) (ks, ks)" using f d1 data_commit_flush [OF d1(2)] by simp
  moreover have "GetNumKernels ?m = of_nat (length ks)"
    using arg_cong [OF num_kernels [OF rep assms(1)], of "of_nat :: nat \<Rightarrow> u64"] by simp
  ultimately show ?thesis using GetKernelAt_rep [OF rep assms(1,2)] by auto
qed

theorem rebuilt_offsets_correct_witness:
  "let ks = [\<lparr>k_features = HEIGHT_LOCKED, k_fee = Fee_Default, k_lockHeight = 7, k_excessCommitment = replicate 33 8,
              k_excessSignature = replicate 64 7\<rparr>,
             \<lparr>k_features = COINBASE_KERNEL, k_fee = Fee_Default, k_lockHeight = 0, k_excessCommitment = replicate 33 8,
              k_excessSignature = replicate 64 7\<rparr>]
   in \<exists>m. BuildKernelOffsetsFromRawFile True
      \<lparr>km_hashFile = DataFile_Load [],
       km_storage = Variable (AppendOnlyFile_Load (variable_bytes ks)) (DataFile_Load [])\<rparr> = (Inr (), m) \<and>
    km_hashFile m = DataFile_Load [] \<and> GetNumKernels m = of_nat (length ks) \<and>
    (\<forall>i < length ks. GetKernelAt (LeafIndex_At (of_nat i)) m = Inr (Some (ks ! i)))"
  unfolding Let_def
  by (rule rebuilt_offsets_correct)
    (simp_all add: kernel_valid_def kernel_features_defs fee_valid_def Fee_Default_def)

end
