(* ===== verification/KernelDownload.thy ===== *)
theory KernelDownload
  imports Desegmenter KernelMMR
begin

text \<open>
  The download of the kernel range: \<^verbatim>\<open>KernelMMR::ApplySegment\<close> (\<^verbatim>\<open>src/PMMR/KernelMMR.cpp\<close>), which the desegmenter
  calls for every kernel segment through \<^verbatim>\<open>TxHashSet::ApplyKernelSegment\<close>, and what the two achieve together.
\<close>

section \<open>The code\<close>

fun apply_kernel_leaves ::
  "(bytes \<Rightarrow> bytes) \<Rightarrow> 'b roaring \<Rightarrow> u64 \<Rightarrow> (u64 \<times> TransactionKernel) list \<Rightarrow> KernelMMR \<Rightarrow>
   (bool result \<times> KernelMMR) option" where
  "apply_kernel_leaves Blake2b R nextKernel [] m = Some (Inr True, m)"
| "apply_kernel_leaves Blake2b R nextKernel ((leafPosition, leaf) # leaves) m =
     (let expectedPosition = LeafIndex_GetPosition (LeafIndex_At nextKernel)
      in if leafPosition < expectedPosition then apply_kernel_leaves Blake2b R nextKernel leaves m
         else if leafPosition \<noteq> expectedPosition then Some (Inr False, m)
         else
           case ApplyKernel Blake2b R leaf m of
             None \<Rightarrow> None
           | Some (Inl e, m) \<Rightarrow> Some (Inl e, m)
           | Some (Inr _, m) \<Rightarrow> apply_kernel_leaves Blake2b R (nextKernel + 1) leaves m)"

definition KernelMMR_ApplySegment ::
  "(bytes \<Rightarrow> bytes) \<Rightarrow> 'b roaring \<Rightarrow> TransactionKernel Segment \<Rightarrow> KernelMMR \<Rightarrow> (bool result \<times> KernelMMR) option" where
  "KernelMMR_ApplySegment Blake2b R segment m =
     (if sg_hash_pos segment \<noteq> [] then Some (Inr False, m)
      else if length (sg_leaf_pos segment) \<noteq> length (sg_leaves segment) then Some (Inr False, m)
      else apply_kernel_leaves Blake2b R (GetNumKernels m) (zip (sg_leaf_pos segment) (sg_leaves segment)) m)"

text \<open>The transaction set is the kernel range and everything else; its kernel callback ignores the target size.\<close>

definition TxHashSet_ApplyKernelSegment ::
  "(bytes \<Rightarrow> bytes) \<Rightarrow> 'b roaring \<Rightarrow> (TransactionKernel, 'x \<times> KernelMMR) applier" where
  "TxHashSet_ApplyKernelSegment Blake2b R segment targetMMRSize s =
     map_option (\<lambda>(r, m). (r, fst s, m)) (KernelMMR_ApplySegment Blake2b R segment (snd s))"

section \<open>Applying a segment that carries the next kernels\<close>

lemma provided_map_of: "length ps = length xs \<Longrightarrow> provided ps xs p = map_of (zip ps xs) p"
  by (induction ps xs rule: list_induct2) (simp_all add: provided_def option.map_comp comp_def)

lemma leaf_position: "n < 2 ^ 60 \<Longrightarrow> LeafIndex_GetPosition (LeafIndex_At (of_nat n)) = leaves_size n"
  by (simp add: LeafIndex_At_position unat_of_nat_u64 mmr_pos_def)

lemma apply_kernel_leaves_carried:
  assumes "\<forall>x. length (B x) = 32" "list_all (kernel_valid V2) L" "length L < 2 ^ 50" "e \<le> length L"
    and "kernel_rep B m (take n L, saved)" "n \<le> e" "sorted_wrt (<) (map fst pl)" "\<forall>p \<in> fst ` set pl. p < leaves_size e"
    and "\<forall>j \<in> {n..<e}. map_of pl (leaves_size j) = Some (L ! j)"
  shows "\<exists>m'. apply_kernel_leaves B R (of_nat n) pl m = Some (Inr True, m') \<and> kernel_rep B m' (take e L, saved)"
  using assms(5-9)
proof (induction pl arbitrary: n m)
  case Nil
  then have "n = e" by fastforce
  then show ?case using Nil.prems(1) by simp
next
  case (Cons pk pl)
  obtain p k where pk: "pk = (p, k)" by (cases pk)
  have small: "j < 2 ^ 60" if "j \<le> e" for j using that assms(3,4) by simp
  have pos: "LeafIndex_GetPosition (LeafIndex_At (of_nat n)) = leaves_size n" using small Cons.prems(2) by (intro leaf_position)
  have less: "leaves_size n < leaves_size e \<Longrightarrow> n < e" using small Cons.prems(2) leaves_size_less [of n e] by simp
  have p: "p < leaves_size e" "\<forall>q \<in> fst ` set pl. p < q" using Cons.prems(3,4) by (auto simp: pk)
  consider "p < leaves_size n" | "p = leaves_size n" | "leaves_size n < p" by fastforce
  then show ?case
  proof cases
    case 1
    have "map_of pl (leaves_size j) = Some (L ! j)" if "j \<in> {n..<e}" for j
    proof -
      have "leaves_size n \<le> leaves_size j" using leaves_size_less [of j n] small that by (simp add: not_less [symmetric])
      then have "leaves_size j \<noteq> p" using 1 by auto
      then show ?thesis using Cons.prems(5) that pk by (auto split: if_splits)
    qed
    then show ?thesis using Cons.IH [OF Cons.prems(1,2)] Cons.prems(3,4) 1 pos by (simp add: pk)
  next
    case 2
    then have n: "n < e" using less p(1) by simp
    have "map_of ((p, k) # pl) (leaves_size n) = Some (L ! n)" using Cons.prems(5) n unfolding pk by simp
    then have k: "k = L ! n" using 2 by simp
    have valid: "kernel_valid V2 k" using assms(2,4) n k by (simp add: list_all_length)
    have "length (take n L) + 1 < 2 ^ 50" using n assms(3,4) by simp
    then obtain m' where m': "ApplyKernel B R k m = Some (Inr (), m')" "kernel_rep B m' (take n L @ [k], saved)"
      using kernel_add [OF assms(1) Cons.prems(1) _ valid] by blast
    have rep: "kernel_rep B m' (take (Suc n) L, saved)" using m'(2) n assms(4) k by (simp add: take_Suc_conv_app_nth)
    have "map_of pl (leaves_size j) = Some (L ! j)" if "j \<in> {Suc n..<e}" for j
    proof -
      have "leaves_size j \<noteq> p" using leaves_size_eq [of j n] small that n 2 by simp
      then show ?thesis using Cons.prems(5) that pk by (auto split: if_splits)
    qed
    then have "\<exists>m''. apply_kernel_leaves B R (of_nat (Suc n)) pl m' = Some (Inr True, m'') \<and>
        kernel_rep B m'' (take e L, saved)"
      using Cons.IH [OF rep] Cons.prems(3,4) n by (simp add: pk)
    then show ?thesis using 2 pos m'(1) by (simp add: pk add.commute)
  next
    case 3
    then have n: "n < e" using less p(1) by simp
    have "map_of ((p, k) # pl) (leaves_size n) = Some (L ! n)" using Cons.prems(5) n unfolding pk by simp
    then have "map_of pl (leaves_size n) = Some (L ! n)" using 3 by (auto split: if_splits)
    then have "leaves_size n \<in> fst ` set pl" by (metis domI dom_map_of_conv_image_fst)
    then show ?thesis using p(2) 3 by fastforce
  qed
qed

definition kernels_held ::
  "(bytes \<Rightarrow> bytes) \<Rightarrow> TransactionKernel list \<Rightarrow> 'x \<times> KernelMMR \<Rightarrow> TransactionKernel list \<Rightarrow> bool" where
  "kernels_held B L s ks \<longleftrightarrow>
     (\<forall>x. length (B x) = 32) \<and> list_all (kernel_valid V2) L \<and> (\<exists>saved. kernel_rep B (snd s) (ks, saved))"

interpretation kernel_applier: segment_applier "TxHashSet_ApplyKernelSegment B R" "kernels_held B L" L for B R L
proof
  fix s :: "'x \<times> KernelMMR" and n o' e sg target
  assume held: "kernels_held B L s (take n L)" and sg: "carries L o' e sg" "sg_hash_pos sg = []"
    and n: "o' \<le> n" "n \<le> e" "e \<le> length L" "length L < 2 ^ 50"
  obtain saved where B: "\<forall>x. length (B x) = 32" "list_all (kernel_valid V2) L"
    and rep: "kernel_rep B (snd s) (take n L, saved)"
    using held by (auto simp: kernels_held_def)
  have len: "length (sg_leaf_pos sg) = length (sg_leaves sg)" using sg(1) by (simp add: carries_def)
  then have zip: "map fst (zip (sg_leaf_pos sg) (sg_leaves sg)) = sg_leaf_pos sg" by simp
  have pos: "sorted_wrt (<) (map fst (zip (sg_leaf_pos sg) (sg_leaves sg)))"
    "\<forall>p \<in> fst ` set (zip (sg_leaf_pos sg) (sg_leaves sg)). p < leaves_size e"
    using sg(1) zip by (simp_all add: carries_def flip: set_map)
  have "\<forall>j \<in> {n..<e}. map_of (zip (sg_leaf_pos sg) (sg_leaves sg)) (leaves_size j) = Some (L ! j)"
    using sg(1) n(1) provided_map_of [OF len] by (simp add: carries_def segment_leaf_at_def)
  from apply_kernel_leaves_carried [OF B n(4,3) rep n(2) pos this]
  obtain m' where m': "apply_kernel_leaves B R (of_nat n) (zip (sg_leaf_pos sg) (sg_leaves sg)) (snd s) =
      Some (Inr True, m')" "kernel_rep B m' (take e L, saved)"
    by blast
  have "unat (GetNumKernels (snd s)) = n"
    using rep num_kernels [of "snd s" "take n L" saved] n by (simp add: kernel_rep_def)
  then have "GetNumKernels (snd s) = of_nat n" by (metis of_nat_unat ucast_id)
  then show "\<exists>s'. TxHashSet_ApplyKernelSegment B R sg target s = Some (Inr True, s') \<and> kernels_held B L s' (take e L)"
    using m' B len sg(2) by (auto simp: TxHashSet_ApplyKernelSegment_def KernelMMR_ApplySegment_def kernels_held_def)
next
  fix sg :: "TransactionKernel Segment" and target and s :: "'x \<times> KernelMMR"
  assume "sg_hash_pos sg \<noteq> []"
  then show "TxHashSet_ApplyKernelSegment B R sg target s = Some (Inr False, s)"
    by (simp add: TxHashSet_ApplyKernelSegment_def KernelMMR_ApplySegment_def)
qed

section \<open>Validated segments carry the leaves of the range\<close>

text \<open>
  What is known of a segment when it reaches the desegmenter: its identifier was requested, the deserializer read
  increasing positions and hashes of 32 bytes. That no position lies behind the segment's own leaves is checked
  nowhere.
\<close>

definition requested :: "nat \<Rightarrow> u8 \<Rightarrow> nat \<Rightarrow> 'a Segment \<Rightarrow> bool" where
  "requested N height k sg \<longleftrightarrow>
     sg_id sg = seg_id height k \<and> k * 2 ^ unat height < N \<and>
     sorted_wrt (<) (sg_leaf_pos sg) \<and> list_all (\<lambda>g. length g = 32) (sg_proof sg)"

definition inside :: "nat \<Rightarrow> u8 \<Rightarrow> nat \<Rightarrow> 'a Segment \<Rightarrow> bool" where
  "inside N height k sg \<longleftrightarrow> (\<forall>p \<in> set (sg_leaf_pos sg). p < leaves_size (min N ((k + 1) * 2 ^ unat height)))"

lemma root_matches_Validate: "root_matches B ser size' root None sg = Segment_Validate B ser size' root None sg"
  by (auto simp: root_matches_def Segment_Validate_def SegmentProof_Validate_def Let_def split: option.splits)

lemma Kernel_Serialize_inject:
  assumes "kernel_valid V2 j" "kernel_valid V2 k" "Kernel_Serialize V1 j = Kernel_Serialize V1 k"
  shows "j = k"
proof -
  let ?b = "ByteBuffer_New (Kernel_Serialize V1 j) V1"
  have b: "bb_wf ?b" "m_protocolVersion ?b = V1" "bb_rest ?b = Kernel_Serialize V1 j @ []" "bb_rest ?b = Kernel_Serialize V1 k @ []"
    using length_Kernel_Serialize(1) [OF assms(1)] assms(3)
    by (simp_all add: ByteBuffer_New_def bb_wf_def bb_rest_def KERNEL_SIZE_def)
  show ?thesis
    using decodes_Kernel [OF kernel_valid_V1 [OF assms(1)], unfolded decodes_def, rule_format, OF b(1-3)]
      decodes_Kernel [OF kernel_valid_V1 [OF assms(2)], unfolded decodes_def, rule_format, OF b(1,2,4)] by auto
qed

lemma segment_leaf_valid:
  assumes "segment_leaf_at sg j = Some leaf" "length (sg_leaf_pos sg) = length (sg_leaves sg)" "list_all P (sg_leaves sg)"
  shows "P leaf"
proof -
  have "(of_nat (mmr_pos j 0), leaf) \<in> set (zip (sg_leaf_pos sg) (sg_leaves sg))"
    using assms(1) provided_map_of [OF assms(2)] by (simp add: segment_leaf_at_def map_of_SomeD)
  then show ?thesis using assms(3) set_zip_rightD by (metis list_all_iff)
qed

lemma validated_ready:
  fixes L :: "TransactionKernel list"
  defines "leaves \<equiv> map (Kernel_Serialize V1) L"
  assumes spf: "second_preimage_free B leaves" and ok: "hash_ok B leaves" and N: "length L < 2 ^ 50"
    and valid: "list_all (kernel_valid V2) L" "list_all (kernel_valid V2) (sg_leaves sg)"
    and h: "unat height < 50" and sg: "requested (length L) height k sg" "inside (length L) height k sg"
    and root: "root_matches B (Kernel_Serialize V1) (leaves_size (length L)) (mmr_root B leaves) None sg = Some True"
  shows "ready L height sg"
proof -
  let ?h = "unat height"
  have id: "sg_id sg = seg_id height k" "k * 2 ^ ?h < length L" "list_all (\<lambda>g. length g = 32) (sg_proof sg)"
    using sg(1) by (simp_all add: requested_def)
  have val: "Segment_Validate B (Kernel_Serialize V1) (range_size leaves) (mmr_root B leaves) None sg = Some True"
    using root unfolding root_matches_Validate by (simp add: leaves_def)
  have len: "length (sg_leaf_pos sg) = length (sg_leaves sg)"
    using Segment_Validate_root [OF val] by (metis Segment_Root_def option.distinct(1))
  have first: "seg_first (sg_id sg) = k * 2 ^ ?h" unfolding id(1) using id(2) N h by (intro seg_first_index) simp_all
  have N': "length leaves < 2 ^ 50" "seg_height (sg_id sg) < 64" using N h id(1) by (simp_all add: leaves_def)
  have "segment_leaf_at sg j = Some (L ! j)" if j: "j \<in> {k * 2 ^ ?h..<min (length L) ((k + 1) * 2 ^ ?h)}" for j
  proof -
    have j': "seg_first (sg_id sg) \<le> j" "j < seg_first (sg_id sg) + 2 ^ seg_height (sg_id sg)" "j < length leaves"
      "j < length L"
      using j first id(1) by (simp_all add: leaves_def)
    have "segment_leaf_at sg j \<noteq> None \<and> segment_list (Kernel_Serialize V1) sg (length leaves) ! j = leaves ! j"
      using segment_sound_full [OF spf ok N'(1,2) id(3) val _ j'(1,2)]
        segment_sound_partial [OF spf ok N'(1,2) id(3) val _ _ j'(1,3)] j' by linarith
    then obtain leaf where leaf: "segment_leaf_at sg j = Some leaf" "Kernel_Serialize V1 leaf = Kernel_Serialize V1 (L ! j)"
      using segment_list_nth [OF j'(3)] j'(4) unfolding leaves_def by (metis length_map nth_map)
    have "kernel_valid V2 (L ! j)" using valid(1) j'(4) by (simp add: list_all_length)
    then show ?thesis
      using leaf segment_leaf_valid [OF leaf(1) len valid(2)] Kernel_Serialize_inject [of leaf "L ! j"] by simp
  qed
  then show ?thesis using id sg len unfolding ready_def carries_def requested_def inside_def by blast
qed

section \<open>The download as a state machine\<close>

text \<open>
  The outputs and range proofs are applied to the part of the transaction set that is not the kernel range, as
  \<^verbatim>\<open>TxHashSet::ApplyOutputSegment\<close> and \<^verbatim>\<open>TxHashSet::ApplyRangeProofSegment\<close> do; how is a parameter.
\<close>

definition on_rest :: "('a, 'x) applier \<Rightarrow> ('a, 'x \<times> KernelMMR) applier" where
  "on_rest f segment targetMMRSize s = map_option (\<lambda>(r, x). (r, x, snd s)) (f segment targetMMRSize (fst s))"

text \<open>
  The calls that change a download: segments arrive, bitmap segments are applied, requests are computed, and ready
  segments are applied. A step is labelled with the kernel segment that arrives, if one does; kernel segments were
  requested and deserialized. A run is a sequence of steps in any order, labelled with all of them.
\<close>

inductive pibd_step ::
  "(bytes \<Rightarrow> bytes) \<Rightarrow> 'b roaring \<Rightarrow> ('o \<Rightarrow> bytes) \<Rightarrow> ('r \<Rightarrow> bytes) \<Rightarrow> ('o, 'x) applier \<Rightarrow> ('r, 'x) applier \<Rightarrow> nat \<Rightarrow>
   ('o, 'r, TransactionKernel) Desegmenter \<times> 'x \<times> KernelMMR \<Rightarrow> TransactionKernel Segment list \<Rightarrow>
   ('o, 'r, TransactionKernel) Desegmenter \<times> 'x \<times> KernelMMR \<Rightarrow> bool"
  for B R serO serR applyO applyR N where
  bitmap_segment: "AddBitmapSegment B bs outputRoot ds = Some (Inr (b, ds')) \<Longrightarrow>
    pibd_step B R serO serR applyO applyR N (ds, s) [] (ds', s)"
| bitmap_applied: "ApplyNextBitmapSegment B ds = Some (Inr (b, ds')) \<Longrightarrow>
    pibd_step B R serO serR applyO applyR N (ds, s) [] (ds', s)"
| output_segment: "AddOutputSegment B serO osg ds = Some (Inr (b, ds')) \<Longrightarrow>
    pibd_step B R serO serR applyO applyR N (ds, s) [] (ds', s)"
| range_proof_segment: "AddRangeProofSegment B serR rsg ds = Some (b, ds') \<Longrightarrow>
    pibd_step B R serO serR applyO applyR N (ds, s) [] (ds', s)"
| kernel_segment: "AddKernelSegment B (Kernel_Serialize V1) sg ds = Some (b, ds') \<Longrightarrow>
    requested N KERNEL_SEGMENT_HEIGHT k sg \<Longrightarrow> list_all (kernel_valid V2) (sg_leaves sg) \<Longrightarrow>
    pibd_step B R serO serR applyO applyR N (ds, s) [sg] (ds', s)"
| segments_requested: "NextDesiredSegments n ds = (ids, ds') \<Longrightarrow>
    pibd_step B R serO serR applyO applyR N (ds, s) [] (ds', s)"
| segments_applied:
    "ApplyReadySegments (on_rest applyO) (on_rest applyR) (TxHashSet_ApplyKernelSegment B R) ds s = Some (r, ds', s') \<Longrightarrow>
    pibd_step B R serO serR applyO applyR N (ds, s) [] (ds', s')"

inductive pibd_run ::
  "(bytes \<Rightarrow> bytes) \<Rightarrow> 'b roaring \<Rightarrow> ('o \<Rightarrow> bytes) \<Rightarrow> ('r \<Rightarrow> bytes) \<Rightarrow> ('o, 'x) applier \<Rightarrow> ('r, 'x) applier \<Rightarrow> nat \<Rightarrow>
   ('o, 'r, TransactionKernel) Desegmenter \<times> 'x \<times> KernelMMR \<Rightarrow> TransactionKernel Segment list \<Rightarrow>
   ('o, 'r, TransactionKernel) Desegmenter \<times> 'x \<times> KernelMMR \<Rightarrow> bool"
  for B R serO serR applyO applyR N st where
  start: "pibd_run B R serO serR applyO applyR N st [] st"
| step: "pibd_run B R serO serR applyO applyR N st segs st' \<Longrightarrow> pibd_step B R serO serR applyO applyR N st' new st'' \<Longrightarrow>
    pibd_run B R serO serR applyO applyR N st (segs @ new) st''"

text \<open>A kernel segment with a leaf behind the range its identifier stands for. Nothing in the code refuses one.\<close>

definition trailing :: "nat \<Rightarrow> TransactionKernel Segment \<Rightarrow> bool" where
  "trailing N sg \<longleftrightarrow> \<not> inside N KERNEL_SEGMENT_HEIGHT (unat (si_index (sg_id sg))) sg"

definition kernel_download ::
  "(bytes \<Rightarrow> bytes) \<Rightarrow> TransactionKernel list \<Rightarrow> BlockHeader \<Rightarrow>
   ('o, 'r, TransactionKernel) Desegmenter \<times> 'x \<times> KernelMMR \<Rightarrow> bool" where
  "kernel_download B L header = (\<lambda>(ds, s).
     ds_archiveHeader ds = header \<and> (\<forall>sg \<in> set (ds_kernelSegments ds). ready L KERNEL_SEGMENT_HEIGHT sg) \<and>
     (\<exists>a n. ds_appliedKernelMMRSize ds = leaves_size a \<and> a \<le> length L \<and>
        frontier (length L) (unat KERNEL_SEGMENT_HEIGHT) (a div 2 ^ unat KERNEL_SEGMENT_HEIGHT) a n \<and>
        kernels_held B L s (take n L) \<and> (ds_allSegmentsComplete ds \<longrightarrow> a = length L)))"

lemma kernel_height: "unat KERNEL_SEGMENT_HEIGHT = 11"
  by (simp add: KERNEL_SEGMENT_HEIGHT_def)

lemma CacheSegment_set: "set (CacheSegment cache sg) \<subseteq> insert sg (set cache)"
  by (auto simp: CacheSegment_def)

text \<open>What the steps that are not about kernels leave as it is.\<close>

definition same_kernels :: "('o, 'r, 'k) Desegmenter \<Rightarrow> ('o, 'r, 'k) Desegmenter \<Rightarrow> bool" where
  "same_kernels ds ds' \<longleftrightarrow>
     ds_archiveHeader ds' = ds_archiveHeader ds \<and> ds_kernelSegments ds' = ds_kernelSegments ds \<and>
     ds_appliedKernelMMRSize ds' = ds_appliedKernelMMRSize ds \<and>
     (ds_allSegmentsComplete ds' \<longrightarrow> ds_allSegmentsComplete ds \<or> sizes_complete ds)"

lemma other_steps:
  "AddBitmapSegment B bs outputRoot ds = Some (Inr (b, ds')) \<Longrightarrow> same_kernels ds ds'"
  "ApplyNextBitmapSegment B ds = Some (Inr (b, ds')) \<Longrightarrow> same_kernels ds ds'"
  "AddOutputSegment B serO osg ds = Some (Inr (b, ds')) \<Longrightarrow> same_kernels ds ds'"
  "AddRangeProofSegment B serR rsg ds = Some (b, ds') \<Longrightarrow> same_kernels ds ds'"
  "NextDesiredSegments n ds = (ids, ds') \<Longrightarrow> same_kernels ds ds'"
  "apply_outputs fo ds s = Some (r, ds', s') \<Longrightarrow> same_kernels ds ds'"
  "apply_range_proofs fr ds s = Some (r, ds', s') \<Longrightarrow> same_kernels ds ds'"
  by (auto simp: same_kernels_def AddBitmapSegment_def ApplyNextBitmapSegment_def AddOutputSegment_def
      AddRangeProofSegment_def NextDesiredSegments_def apply_outputs_def apply_range_proofs_def rbind_def Let_def
      split: sum.splits option.splits if_splits)

lemma on_rest_kernels:
  "apply_ready (on_rest f) rounds i target c cache a s = Some (r, cache', a', s') \<Longrightarrow> snd s' = snd s"
proof (induction rounds arbitrary: i c cache a s)
  case (Suc rounds)
  then show ?case
    by (auto simp: on_rest_def split: option.splits sum.splits bool.splits prod.splits)
qed simp

lemma kernel_download_same:
  assumes "kernel_download B L header (ds, s)" "same_kernels ds ds'" "snd s' = snd s"
    and "h_kernelMMRSize header = leaves_size (length L)" "length L < 2 ^ 50"
  shows "kernel_download B L header (ds', s')"
proof -
  obtain a n where a: "ds_appliedKernelMMRSize ds = leaves_size a" "a \<le> length L"
    "frontier (length L) (unat KERNEL_SEGMENT_HEIGHT) (a div 2 ^ unat KERNEL_SEGMENT_HEIGHT) a n"
    "kernels_held B L s (take n L)" "ds_allSegmentsComplete ds \<longrightarrow> a = length L"
    and hdr: "ds_archiveHeader ds = header"
    using assms(1) by (auto simp: kernel_download_def)
  have "sizes_complete ds \<longrightarrow> a = length L"
    using leaves_size_eq [of a "length L"] a(1,2) hdr assms(4,5) by (simp add: sizes_complete_def)
  then have "ds_allSegmentsComplete ds' \<longrightarrow> a = length L" using a(5) assms(2) by (auto simp: same_kernels_def)
  moreover have "kernels_held B L s' (take n L)" using a(4) assms(3) by (simp add: kernels_held_def)
  ultimately show ?thesis using assms(1,2) a(1-3) by (auto simp: kernel_download_def same_kernels_def)
qed

lemma kernel_download_apply:
  fixes ds :: "('o, 'r, TransactionKernel) Desegmenter" and s :: "'x \<times> KernelMMR"
  assumes inv: "kernel_download B L header (ds, s)" and N: "length L < 2 ^ 50"
    and size: "h_kernelMMRSize header = leaves_size (length L)"
  obtains r ds' s' where "apply_kernels (TxHashSet_ApplyKernelSegment B R) ds s = Some (r, ds', s')"
    "kernel_download B L header (ds', s')" "ds_bitmapCacheComplete ds' = ds_bitmapCacheComplete ds"
proof -
  let ?h = "unat KERNEL_SEGMENT_HEIGHT"
  obtain a n where a: "ds_appliedKernelMMRSize ds = leaves_size a" "a \<le> length L"
    "frontier (length L) ?h (a div 2 ^ ?h) a n" "kernels_held B L s (take n L)" "ds_allSegmentsComplete ds \<longrightarrow> a = length L"
    and hdr: "ds_archiveHeader ds = header" and cache: "\<forall>sg \<in> set (ds_kernelSegments ds). ready L KERNEL_SEGMENT_HEIGHT sg"
    using inv by (auto simp: kernel_download_def)
  have h: "0 < ?h" "?h < 50" by (simp_all add: kernel_height)
  obtain r cache' a' n' s' c where *:
    "ApplyReadySegmentBatch (TxHashSet_ApplyKernelSegment B R) (ds_kernelSegments ds) (leaves_size a)
      KERNEL_SEGMENT_HEIGHT (leaves_size (length L)) s = Some (r, cache', leaves_size a', s')"
    "kernels_held B L s' (take n' L)" "a' \<le> length L" "frontier (length L) ?h (a' div 2 ^ ?h) a' n'"
    "set cache' \<subseteq> set (ds_kernelSegments ds)" "a' = (if c = 0 then a else min (length L) ((a div 2 ^ ?h + c) * 2 ^ ?h))"
    by (rule kernel_applier.batch_prefix [OF N h a(2) cache a(3,4)])
  have "a' = length L" if "a = length L"
  proof (cases "c = 0")
    case False
    then have "(a div 2 ^ ?h + 1) * 2 ^ ?h \<le> (a div 2 ^ ?h + c) * 2 ^ ?h" by (intro mult_le_mono1) simp
    moreover have "a < (a div 2 ^ ?h + 1) * 2 ^ ?h" using dividend_less_div_times [of "2 ^ ?h" a] by simp
    ultimately show ?thesis using *(6) that False by simp
  qed (use *(6) that in simp)
  then have "ds_allSegmentsComplete ds \<longrightarrow> a' = length L" using a(5) by blast
  then have inv': "kernel_download B L header
      (ds\<lparr>ds_kernelSegments := cache', ds_appliedKernelMMRSize := leaves_size a'\<rparr>, s')"
    using *(2-5) hdr cache by (auto simp: kernel_download_def)
  have eq: "apply_kernels (TxHashSet_ApplyKernelSegment B R) ds s =
      Some (r, ds\<lparr>ds_kernelSegments := cache', ds_appliedKernelMMRSize := leaves_size a'\<rparr>, s')"
    using *(1) a(1) hdr size by (simp add: apply_kernels_def)
  show ?thesis by (rule that [OF eq inv']) simp
qed

lemma kernel_download_cache:
  "kernel_download B L header (ds, s) \<Longrightarrow> \<forall>sg \<in> set cache. ready L KERNEL_SEGMENT_HEIGHT sg \<Longrightarrow>
   kernel_download B L header (ds\<lparr>ds_kernelSegments := cache\<rparr>, s)"
  by (simp add: kernel_download_def)

lemma kernel_download_complete:
  assumes "kernel_download B L header (ds, s)" "h_kernelMMRSize header = leaves_size (length L)" "length L < 2 ^ 50"
  shows "kernel_download B L header (ds\<lparr>ds_allSegmentsComplete := c \<and> sizes_complete ds\<rparr>, s)"
  by (rule kernel_download_same [OF assms(1) _ refl assms(2,3)]) (auto simp: same_kernels_def)

text \<open>The parts of a call of \<open>ApplyReadySegments\<close> that returns.\<close>

lemma ApplyReadySegments_cases:
  assumes "ApplyReadySegments fo fr fk ds s = Some (r, ds', s')"
  obtains "ds' = ds" "s' = s"
  | "apply_outputs fo ds s = Some (r, ds', s')"
  | oc ds1 s1 where "apply_outputs fo ds s = Some (oc, ds1, s1)" "apply_range_proofs fr ds1 s1 = Some (r, ds', s')"
  | oc ds1 s1 rc ds2 s2 where "apply_outputs fo ds s = Some (oc, ds1, s1)" "apply_range_proofs fr ds1 s1 = Some (rc, ds2, s2)"
      "apply_kernels fk ds2 s2 = Some (r, ds', s')"
  | oc ds1 s1 rc ds2 s2 kc ds3 where "apply_outputs fo ds s = Some (oc, ds1, s1)"
      "apply_range_proofs fr ds1 s1 = Some (rc, ds2, s2)" "apply_kernels fk ds2 s2 = Some (kc, ds3, s')"
      "ds' = ds3\<lparr>ds_allSegmentsComplete := ds_bitmapCacheComplete ds3 \<and> sizes_complete ds3\<rparr>"
  using assms unfolding ApplyReadySegments_def
  by (auto split: if_splits option.splits sum.splits prod.splits)

lemma kernel_download_rest:
  assumes "kernel_download B L header (ds, s)" "h_kernelMMRSize header = leaves_size (length L)" "length L < 2 ^ 50"
  shows "apply_outputs (on_rest fo) ds s = Some (r, ds', s') \<Longrightarrow> kernel_download B L header (ds', s')"
    and "apply_range_proofs (on_rest fr) ds s = Some (r, ds', s') \<Longrightarrow> kernel_download B L header (ds', s')"
proof -
  assume *: "apply_outputs (on_rest fo) ds s = Some (r, ds', s')"
  then have "snd s' = snd s" by (auto simp: apply_outputs_def ApplyReadySegmentBatch_def dest!: on_rest_kernels)
  then show "kernel_download B L header (ds', s')" by (rule kernel_download_same [OF assms(1) other_steps(6) [OF *] _ assms(2,3)])
next
  assume *: "apply_range_proofs (on_rest fr) ds s = Some (r, ds', s')"
  then have "snd s' = snd s" by (auto simp: apply_range_proofs_def ApplyReadySegmentBatch_def dest!: on_rest_kernels)
  then show "kernel_download B L header (ds', s')" by (rule kernel_download_same [OF assms(1) other_steps(7) [OF *] _ assms(2,3)])
qed

text \<open>The header of the archive commits to the kernels \<open>L\<close>, and the hash function separates what their range hashes.\<close>

definition commits_to :: "(bytes \<Rightarrow> bytes) \<Rightarrow> BlockHeader \<Rightarrow> TransactionKernel list \<Rightarrow> bool" where
  "commits_to B header L \<longleftrightarrow>
     length L < 2 ^ 50 \<and> list_all (kernel_valid V2) L \<and> hash_ok B (map (Kernel_Serialize V1) L) \<and>
     h_kernelMMRSize header = leaves_size (length L) \<and> h_kernelRoot header = mmr_root B (map (Kernel_Serialize V1) L)"

lemma requested_index: "requested N height k sg \<Longrightarrow> k < N"
  using le_less_trans [of k "k * 2 ^ unat height" N] by (simp add: requested_def)

lemma pibd_step_kernels:
  assumes step: "pibd_step B R serO serR applyO applyR (length L) st segs st'" and inv: "kernel_download B L header st"
    and segs: "\<forall>sg \<in> set segs. \<not> trailing (length L) sg"
    and hdr: "commits_to B header L" and spf: "second_preimage_free B (map (Kernel_Serialize V1) L)"
  shows "kernel_download B L header st'"
proof -
  note c = hdr [unfolded commits_to_def]
  have N: "length L < 2 ^ 50" and size: "h_kernelMMRSize header = leaves_size (length L)" using c by simp_all
  note same = kernel_download_same [OF _ _ refl size N]
  show ?thesis
    using step inv
  proof cases
    case (kernel_segment sg ds b ds' k s)
    have header: "ds_archiveHeader ds = header" using inv kernel_segment(1) by (simp add: kernel_download_def)
    show ?thesis
    proof (cases "root_matches B (Kernel_Serialize V1) (h_kernelMMRSize header) (h_kernelRoot header) None sg = Some True")
      case True
      have "k < 2 ^ 64" using requested_index [OF kernel_segment(5)] N by simp
      then have "unat (si_index (sg_id sg)) = k" using kernel_segment(5) unat_of_nat_u64 by (simp add: requested_def)
      then have "inside (length L) KERNEL_SEGMENT_HEIGHT k sg" using segs kernel_segment(2) by (simp add: trailing_def)
      then have "ready L KERNEL_SEGMENT_HEIGHT sg"
        using True c kernel_segment(5,6) spf by (intro validated_ready) (simp_all add: kernel_height)
      moreover have "ds' \<in> {ds, ds\<lparr>ds_kernelSegments := CacheSegment (ds_kernelSegments ds) sg\<rparr>}"
        using kernel_segment(4) by (auto simp: AddKernelSegment_def split: if_splits)
      moreover have "\<forall>sg \<in> set (ds_kernelSegments ds). ready L KERNEL_SEGMENT_HEIGHT sg"
        using inv kernel_segment(1) by (simp add: kernel_download_def)
      ultimately show ?thesis
        using inv kernel_segment(1,3) CacheSegment_set [of "ds_kernelSegments ds" sg]
        by (auto intro!: kernel_download_cache)
    next
      case False
      then have "ds' = ds" using kernel_segment(4) header by (auto simp: AddKernelSegment_def split: if_splits)
      then show ?thesis using inv kernel_segment(1,3) by simp
    qed
  next
    case (segments_applied ds s r ds' s')
    have inv: "kernel_download B L header (ds, s)" using inv segments_applied(1) by simp
    note rest = kernel_download_rest [OF _ size N]
    have kernels: "kernel_download B L header (ds3, s3)"
      if "kernel_download B L header (ds2, s2)" "apply_kernels (TxHashSet_ApplyKernelSegment B R) ds2 s2 = Some (kc, ds3, s3)"
      for ds2 s2 kc ds3 s3
      using kernel_download_apply [OF that(1) N size, of R] that(2) by (metis option.inject prod.inject)
    from segments_applied(4) have "kernel_download B L header (ds', s')"
    proof (cases rule: ApplyReadySegments_cases)
      case 1
      then show ?thesis using inv by simp
    next
      case 2
      then show ?thesis by (rule rest(1) [OF inv])
    next
      case 3
      then show ?thesis using rest(2) [OF rest(1) [OF inv]] by blast
    next
      case 4
      show ?thesis by (rule kernels [OF rest(2) [OF rest(1) [OF inv 4(1)] 4(2)] 4(3)])
    next
      case 5
      show ?thesis unfolding 5(4)
        by (rule kernel_download_complete [OF kernels [OF rest(2) [OF rest(1) [OF inv 5(1)] 5(2)] 5(3)] size N])
    qed
    then show ?thesis using segments_applied(3) by simp
  qed (auto intro: same other_steps)
qed

lemma frontier_start: "n \<le> N \<Longrightarrow> frontier N h (n div 2 ^ h) n n"
  using dividend_less_div_times [of "2 ^ h" n] div_times_less_eq_dividend [of n "2 ^ h"]
  unfolding frontier_def min_le_iff_disj by simp

lemma size_prefix: "kernel_rep B m (take n L, saved) \<Longrightarrow> n \<le> length L \<Longrightarrow> KernelMMR_GetSize m = leaves_size n"
  using GetSize_rep [of B "km_hashFile m" "map (Kernel_Serialize V1) (take n L)"]
  by (simp add: kernel_rep_def KernelMMR_GetSize_def)

lemma prefix_contents:
  assumes hdr: "commits_to B header L" and rep: "kernel_rep B m (take n L, saved)" and n: "n \<le> length L"
  shows "GetNumKernels m = of_nat n" "\<forall>i < n. GetKernelAt (LeafIndex_At (of_nat i)) m = Inr (Some (L ! i))"
    and "n = length L \<longrightarrow> KernelMMR_Root B R (h_kernelMMRSize header) m = Inr (h_kernelRoot header)"
proof -
  note c = hdr [unfolded commits_to_def]
  have r: "mmr_rep B (km_hashFile m) (map (Kernel_Serialize V1) (take n L))" "storage_rep (km_storage m) (take n L, saved)"
    "list_all (kernel_valid V2) (take n L)" "length (take n L) < 2 ^ 50"
    using rep n c by (simp_all add: kernel_rep_def)
  show "GetNumKernels m = of_nat n"
    using arg_cong [OF num_kernels [OF r(2,3)], of "of_nat :: nat \<Rightarrow> u64"] n by simp
  show "\<forall>i < n. GetKernelAt (LeafIndex_At (of_nat i)) m = Inr (Some (L ! i))"
    using GetKernelAt_rep [OF r(2,3,4)] n by simp
  show "n = length L \<longrightarrow> KernelMMR_Root B R (h_kernelMMRSize header) m = Inr (h_kernelRoot header)"
    using Root_rep [OF r(1), of "length L" R] c by (simp add: KernelMMR_Root_def)
qed

lemma pibd_run_kernels:
  assumes run: "pibd_run B R serO serR applyO applyR (length L) st segs st'" and inv: "kernel_download B L header st"
    and segs: "\<forall>sg \<in> set segs. \<not> trailing (length L) sg"
    and hdr: "commits_to B header L" and spf: "second_preimage_free B (map (Kernel_Serialize V1) L)"
  shows "kernel_download B L header st'"
  using run segs
proof induction
  case (step segs st' new st'')
  then show ?case using pibd_step_kernels [OF step.hyps(2) _ _ hdr spf] by simp
qed (rule inv)

text \<open>
  C6. A download that begins with a prefix of the kernels under the kernel root of the archive header, and an empty cache,
  runs through any sequence of arriving segments, requests and applications. Either one of the kernel segments that
  arrived had a leaf behind its own range, or the kernel range still is a prefix of those kernels; in that case, when
  the desegmenter says that the download is complete, the range holds all of them and has this root.
\<close>

theorem kernel_download_safe:
  assumes hdr: "commits_to B header L" and spf: "second_preimage_free B (map (Kernel_Serialize V1) L)"
    and start: "kernel_rep B m0 (take n0 L, saved)" "n0 \<le> length L" "ds_appliedKernelMMRSize ds0 = KernelMMR_GetSize m0"
      "ds_archiveHeader ds0 = header" "ds_kernelSegments ds0 = []" "\<not> ds_allSegmentsComplete ds0"
    and run: "pibd_run B R serO serR applyO applyR (length L) (ds0, x0, m0) segs (ds, x, m)"
  shows "(\<exists>sg \<in> set segs. trailing (length L) sg) \<or>
    (\<exists>n \<le> length L. GetNumKernels m = of_nat n \<and>
      (\<forall>i < n. GetKernelAt (LeafIndex_At (of_nat i)) m = Inr (Some (L ! i))) \<and>
      (ds_allSegmentsComplete ds \<longrightarrow>
         n = length L \<and> KernelMMR_Root B R (h_kernelMMRSize header) m = Inr (h_kernelRoot header)))"
proof (cases "\<exists>sg \<in> set segs. trailing (length L) sg")
  case False
  let ?h = "unat KERNEL_SEGMENT_HEIGHT" and ?N = "length L"
  have inv: "kernel_download B L header (ds0, x0, m0)"
    using start size_prefix [OF start(1,2)] hdr [unfolded commits_to_def] frontier_start [OF start(2), of ?h]
    unfolding kernel_download_def by (auto simp: kernels_held_def hash_ok_def)
  have "kernel_download B L header (ds, x, m)"
    by (rule pibd_run_kernels [OF run inv _ hdr spf]) (use False in blast)
  then obtain a n saved' where fin: "a \<le> n" "n \<le> ?N" "kernel_rep B m (take n L, saved')" "ds_allSegmentsComplete ds \<longrightarrow> a = ?N"
    by (auto simp: kernel_download_def kernels_held_def frontier_def)
  then show ?thesis
    using prefix_contents(1,2) [OF hdr fin(3,2)] prefix_contents(3) [OF hdr fin(3,2), of R] by (intro disjI2 exI [of _ n]) auto
qed simp

section \<open>What validation does not look at\<close>

text \<open>Without a bitmap the root of a segment depends on nothing but the leaves at the positions of its range.\<close>

definition range_leaves :: "u64 \<Rightarrow> 'a Segment \<Rightarrow> u64 \<Rightarrow> 'a option" where
  "range_leaves size' sg p =
     (if fst (GetPositionRange size' (sg_id sg)) \<le> p \<and> p \<le> snd (GetPositionRange size' (sg_id sg))
      then provided (sg_leaf_pos sg) (sg_leaves sg) p else None)"

lemma segment_hashes_cong:
  assumes "\<forall>p \<in> set ps. provided (sg_leaf_pos sg) (sg_leaves sg) p = provided (sg_leaf_pos sg') (sg_leaves sg') p"
  shows "segment_hashes B ser size' None sg ps st = segment_hashes B ser size' None sg' ps st"
  using assms
proof (induction ps arbitrary: st)
  case (Cons p ps)
  have "segment_leaf B ser size' None sg (Index_At p) st = segment_leaf B ser size' None sg' (Index_At p) st"
    using Cons.prems by (simp add: segment_leaf_def Index_At_def)
  moreover have "segment_parent B None sg (Index_At p) st = segment_parent B None sg' (Index_At p) st"
    by (cases st rule: list.exhaust [case_product list.exhaust]) (auto simp: segment_parent_def split: list.splits)
  moreover have "segment_hashes B ser size' None sg ps = segment_hashes B ser size' None sg' ps"
    using Cons.IH Cons.prems by auto
  ultimately show ?case by simp
qed simp

lemma segment_peaks_None: "segment_peaks B size' None sg rng ps st root = segment_peaks B size' None sg' rng ps st root"
  by (induction ps arbitrary: st root) (auto split: list.splits option.splits)

lemma Validate_cong:
  assumes id: "sg_id sg' = sg_id sg" "sg_proof sg' = sg_proof sg" and shape: "well_shaped sg" "well_shaped sg'"
    and leaves: "range_leaves size' sg' = range_leaves size' sg"
  shows "Segment_Validate B ser size' root None sg' = Segment_Validate B ser size' root None sg"
proof -
  let ?ps = "map of_nat [unat (fst (GetPositionRange size' (sg_id sg)))..<Suc (unat (snd (GetPositionRange size' (sg_id sg))))]"
  have "provided (sg_leaf_pos sg') (sg_leaves sg') p = provided (sg_leaf_pos sg) (sg_leaves sg) p" if p: "p \<in> set ?ps" for p
  proof -
    obtain i where i: "p = of_nat i" "unat (fst (GetPositionRange size' (sg_id sg))) \<le> i"
      "i \<le> unat (snd (GetPositionRange size' (sg_id sg)))"
      using p unfolding set_map set_upt by (auto simp: less_Suc_eq_le)
    have "i < 2 ^ LENGTH(64)" using i(3) unsigned_less by (rule le_less_trans)
    then have "i < 2 ^ 64" by simp
    then have "unat p = i" unfolding i(1) by (rule unat_of_nat_u64)
    then show ?thesis using fun_cong [OF leaves, of p] i id by (simp add: range_leaves_def word_le_nat_alt)
  qed
  then have "segment_hashes B ser size' None sg' ?ps [] = segment_hashes B ser size' None sg ?ps []"
    by (intro segment_hashes_cong) blast
  then have "Segment_Root B ser size' None sg' = Segment_Root B ser size' None sg"
    using id shape segment_peaks_None [of B size' sg' _ _ _ _ sg]
    by (simp add: Segment_Root_def Let_def well_shaped_def del: upt_Suc split: option.split)
  then show ?thesis using id by (simp add: Segment_Validate_def FirstUnprunedParent_def Let_def split: option.split)
qed

lemma Validate_shape: "Segment_Validate B ser size' root None sg = Some True \<Longrightarrow> well_shaped sg"
  by (auto simp: Segment_Validate_def FirstUnprunedParent_def Segment_Root_def well_shaped_def Let_def split: if_splits)

text \<open>
  A kernel segment with a hash that nobody needs is validated and cannot be applied. From any validated segment a peer
  gets one that is validated too by adding hash positions with as many hashes. When it has the next required index and
  nothing else waits, it is cached, its application is refused without a change, the segment without the hashes is
  dropped as a duplicate and is not among the blocking segments. The state syncer answers such a refusal by giving up the
  desegmenter and starting anew, so that one peer can make a node start again.
\<close>

theorem extra_hash_blocks:
  assumes sg: "sg_id sg = \<lparr>si_height = KERNEL_SEGMENT_HEIGHT,
      si_index = NextRequiredSegmentIndex (ds_appliedKernelMMRSize ds) KERNEL_SEGMENT_HEIGHT\<rparr>"
    and root: "Segment_Validate B ser (h_kernelMMRSize (ds_archiveHeader ds)) (h_kernelRoot (ds_archiveHeader ds)) None sg =
      Some True"
    and hashes: "hps \<noteq> []" "length hs = length hps"
    and cache: "ds_kernelSegments ds = []" and bitmap: "ds_bitmapCacheComplete ds"
  shows "\<exists>ds'. AddKernelSegment B ser (sg\<lparr>sg_hash_pos := hps, sg_hashes := hs\<rparr>) ds = Some (True, ds') \<and>
    apply_kernels (TxHashSet_ApplyKernelSegment B' R) ds' s = Some (Inr None, ds', s) \<and>
    AddKernelSegment B ser sg ds' = Some (True, ds') \<and> (Kernel, sg_id sg) \<notin> set (GetBlockingSegments ds')"
proof -
  let ?sg = "sg\<lparr>sg_hash_pos := hps, sg_hashes := hs\<rparr>" and ?ds = "\<lambda>sg. ds\<lparr>ds_kernelSegments := [sg]\<rparr>"
  have "Segment_Validate B ser (h_kernelMMRSize (ds_archiveHeader ds)) (h_kernelRoot (ds_archiveHeader ds)) None ?sg = Some True"
    using root hashes Validate_shape [OF root]
    by (subst Validate_cong [of ?sg sg]) (simp_all add: well_shaped_def range_leaves_def fun_eq_iff)
  then have "AddKernelSegment B ser ?sg ds = Some (True, ?ds ?sg)" "AddKernelSegment B ser sg (?ds ?sg) = Some (True, ?ds ?sg)"
    using sg root cache
    by (simp_all add: AddKernelSegment_def root_matches_Validate CacheSegment_def KERNEL_SEGMENT_HEIGHT_def)
  moreover have "apply_kernels (TxHashSet_ApplyKernelSegment B' R) (?ds ?sg) s = Some (Inr None, ?ds ?sg, s)"
    using sg hashes(1) kernel_applier.apply_refused [of ?sg B' R _ s]
    by (simp add: apply_kernels_def ApplyReadySegmentBatch_def SEGMENT_APPLY_BATCH_SIZE_def numeral_eq_Suc)
  moreover have "(Kernel, sg_id sg) \<notin> set (GetBlockingSegments (?ds ?sg))"
    using bitmap sg by (auto simp: GetBlockingSegments_def AppendBlockingSegment_def HasSegment_def Let_def)
  ultimately show ?thesis by blast
qed

lemma provided_append:
  assumes "length ps = length xs" "q \<noteq> p"
  shows "provided (ps @ [p]) (xs @ [x]) q = provided ps xs q"
  using assms by (induction ps xs rule: list_induct2) (simp_all add: provided_def option.map_comp comp_def)

lemma position_range_end:
  assumes "requested N height k sg" "N < 2 ^ 50" "unat height < 50"
  shows "snd (GetPositionRange (leaves_size N) (sg_id sg)) < leaves_size (min N ((k + 1) * 2 ^ unat height))"
  using IsSegmentApplied_eq [of N height k "min N ((k + 1) * 2 ^ unat height)"] assms
  by (auto simp: requested_def IsSegmentApplied_def split: if_splits)

text \<open>
  C34. The proof of a segment does not guard the kernels behind its range. From a validated segment that is requested
  and inside its range, a peer gets one that is validated too by adding any kernel at the position that
  follows; applying it to a range that holds the kernels before it appends the kernel, whatever the header commits to.
\<close>

theorem trailing_kernel_applied:
  fixes L :: "TransactionKernel list"
  defines "leaves \<equiv> map (Kernel_Serialize V1) L"
  assumes spf: "second_preimage_free B leaves" and hdr: "commits_to B header L" and N: "length L + 1 < 2 ^ 50"
    and sg: "requested (length L) KERNEL_SEGMENT_HEIGHT k sg" "inside (length L) KERNEL_SEGMENT_HEIGHT k sg"
      "sg_hash_pos sg = []" "list_all (kernel_valid V2) (sg_leaves sg)"
    and root: "Segment_Validate B (Kernel_Serialize V1) (h_kernelMMRSize header) (h_kernelRoot header) None sg = Some True"
    and e: "e = min (length L) ((k + 1) * 2 ^ 11)" and held: "kernel_rep B m (take (k * 2 ^ 11) L, saved)"
    and any: "kernel_valid V2 any"
    and sg': "sg' = sg\<lparr>sg_leaf_pos := sg_leaf_pos sg @ [leaves_size e], sg_leaves := sg_leaves sg @ [any]\<rparr>"
  shows "Segment_Validate B (Kernel_Serialize V1) (h_kernelMMRSize header) (h_kernelRoot header) None sg' = Some True \<and>
    (\<exists>m'. KernelMMR_ApplySegment B R sg' m = Some (Inr True, m') \<and>
       GetKernelAt (LeafIndex_At (of_nat e)) m' = Inr (Some any))"
proof -
  let ?h = "unat KERNEL_SEGMENT_HEIGHT" and ?L = "take e L @ [any]"
  note c = hdr [unfolded commits_to_def]
  have e': "e = min (length L) ((k + 1) * 2 ^ ?h)" using e by (simp add: kernel_height)
  have id: "sg_id sg = seg_id KERNEL_SEGMENT_HEIGHT k" "k * 2 ^ 11 < length L" "sorted_wrt (<) (sg_leaf_pos sg)"
    using sg(1) by (simp_all add: requested_def kernel_height)
  have le: "e \<le> length L" "k * 2 ^ 11 < e" "e + 1 < 2 ^ 50" using id(2) e N by auto
  have shape: "length (sg_leaf_pos sg) = length (sg_leaves sg)" "well_shaped sg" "well_shaped sg'"
    using Validate_shape [OF root] sg' by (simp_all add: well_shaped_def)
  have rdy: "ready L KERNEL_SEGMENT_HEIGHT sg"
    using c spf sg root unfolding leaves_def
    by (intro validated_ready) (simp_all add: root_matches_Validate kernel_height)
  have carried: "carries L (k * 2 ^ 11) e sg"
    using ready_index(3) [OF rdy, of k] id(1,2) c e' by (simp add: kernel_height)
  have other: "provided (sg_leaf_pos sg') (sg_leaves sg') q = provided (sg_leaf_pos sg) (sg_leaves sg) q"
    if "q \<noteq> leaves_size e" for q
    using provided_append [OF shape(1) that] by (simp add: sg')
  have "snd (GetPositionRange (h_kernelMMRSize header) (sg_id sg)) < leaves_size e"
    using position_range_end [OF sg(1)] c by (simp add: e' kernel_height)
  then have "range_leaves (h_kernelMMRSize header) sg' = range_leaves (h_kernelMMRSize header) sg"
    using other by (auto simp: range_leaves_def fun_eq_iff sg')
  then have valid: "Segment_Validate B (Kernel_Serialize V1) (h_kernelMMRSize header) (h_kernelRoot header) None sg' = Some True"
    using root shape by (subst Validate_cong [of sg' sg]) (simp_all add: sg')
  have "leaves_size e \<notin> set (sg_leaf_pos sg)" using carried by (auto simp: carries_def)
  then have "provided (sg_leaf_pos sg') (sg_leaves sg') (leaves_size e) = Some any"
    using shape(1) by (simp add: sg' provided_map_of map_add_def map_of_zip_is_None [THEN iffD2])
  note last = this
  have "segment_leaf_at sg' j = Some (?L ! j)" if "j \<in> {k * 2 ^ 11..<e + 1}" for j
  proof (cases "j = e")
    case False
    then have j: "j \<in> {k * 2 ^ 11..<e}" using that by simp
    then have "leaves_size j \<noteq> leaves_size e" using leaves_size_eq [of j e] le c by simp
    then show ?thesis using carried j le other by (simp add: carries_def segment_leaf_at_def nth_append)
  qed (use last le in \<open>simp add: segment_leaf_at_def nth_append\<close>)
  moreover have pos: "\<forall>p \<in> set (sg_leaf_pos sg). p < leaves_size e" "leaves_size e < leaves_size (e + 1)"
    using carried le leaves_size_less [of e "e + 1"] by (simp_all add: carries_def)
  ultimately have "carries ?L (k * 2 ^ 11) (e + 1) sg'"
    using shape(1) id(3) by (fastforce simp: carries_def sg' sorted_wrt_append)
  moreover have "kernels_held B ?L ((), m) (take (k * 2 ^ 11) ?L)"
    using held c any le by (auto simp: kernels_held_def hash_ok_def list_all_take)
  ultimately have "\<exists>s'. TxHashSet_ApplyKernelSegment B R sg' 0 ((), m) = Some (Inr True, s') \<and>
      kernels_held B ?L s' (take (e + 1) ?L)"
    using sg(3) le by (intro kernel_applier.apply_carried [of B ?L "((), m)" "k * 2 ^ 11" "k * 2 ^ 11"]) (simp_all add: sg')
  then obtain m' saved' where m': "KernelMMR_ApplySegment B R sg' m = Some (Inr True, m')" "kernel_rep B m' (?L, saved')"
    using le(1) by (auto simp: TxHashSet_ApplyKernelSegment_def kernels_held_def)
  then have "GetKernelAt (LeafIndex_At (of_nat e)) m' = Inr (Some (?L ! e))"
    using GetKernelAt_rep [of m' ?L saved' e] le by (simp add: kernel_rep_def)
  then have "\<exists>m'. KernelMMR_ApplySegment B R sg' m = Some (Inr True, m') \<and>
      GetKernelAt (LeafIndex_At (of_nat e)) m' = Inr (Some any)"
    using m'(1) le(1) by (auto simp: nth_append)
  then show ?thesis using valid by blast
qed

section \<open>A server with the whole range\<close>

text \<open>\<^verbatim>\<open>TxHashSet::GetKernelSegment\<close>: the segmenter on the kernel range of the server.\<close>

definition TxHashSet_GetKernelSegment ::
  "(bytes \<Rightarrow> bytes) \<Rightarrow> SegmentIdentifier \<Rightarrow> KernelMMR \<Rightarrow> TransactionKernel Segment option result option" where
  "TxHashSet_GetKernelSegment Blake2b identifier m =
     KernelSegment Blake2b (KernelMMR_GetSize m) (\<lambda>leaf_idx. GetKernelAt leaf_idx m)
       (\<lambda>mmrIndex. rbind (KernelMMR_GetHashAt mmrIndex m) (\<lambda>hash. Inr (Some hash))) identifier"

lemma hash_file_reads:
  assumes rep: "mmr_rep B (km_hashFile m) leaves" and node: "is_node i h" "i < length leaves"
  shows "KernelMMR_GetHashAt (node i h) m = Inr (node_hash B leaves i h)"
proof -
  have small: "mmr_pos (length leaves) 0 < 2 ^ 52" using rep by (intro mmr_pos_small) (simp_all add: mmr_rep_def)
  have lt: "mmr_pos i h < mmr_pos (length leaves) 0" using node_pos_less_iff [OF node(1)] node(2) by simp
  then show ?thesis
    using GetDataAt_record [of "km_hashFile m" "mmr_pos i h"] rep small hash_at_node [OF node(1)]
    by (simp add: mmr_rep_def mmr_hashes_def KernelMMR_GetHashAt_def node_def)
qed

lemma GetKernelAt_node:
  assumes "storage_rep (km_storage m) (ks, saved)" "list_all (kernel_valid V2) ks" "length ks < 2 ^ 50" "j < length ks"
  shows "GetKernelAt (LeafIndex_From (node j 0)) m = Inr (Some (ks ! j))"
proof -
  have "unat (GetLeafIndex (node j 0)) = j" using GetLeafIndex_pos [of j] Index_At_leaf [of j] assms(3,4) by simp
  then have "GetLeafIndex (node j 0) = of_nat j" by (metis of_nat_unat ucast_id)
  then have "m_leafIndex (LeafIndex_From (node j 0)) = m_leafIndex (LeafIndex_At (of_nat j))"
    by (simp add: LeafIndex_From_def LeafIndex_At_def)
  then show ?thesis using GetKernelAt_rep [OF assms] unfolding GetKernelAt_def by (simp only:)
qed

lemma served_segment:
  assumes hdr: "commits_to B header L" and rep: "kernel_rep B ms (L, saved)"
    and h: "unat height < 50" and k: "k * 2 ^ unat height < length L"
  obtains sg where "TxHashSet_GetKernelSegment B (seg_id height k) ms = Some (Inr (Some sg))"
    "sg_id sg = seg_id height k" "sg_hash_pos sg = []" "ready L height sg"
    "root_matches B (Kernel_Serialize V1) (h_kernelMMRSize header) (h_kernelRoot header) None sg = Some True"
proof -
  let ?leaves = "map (Kernel_Serialize V1) L" and ?si = "seg_id height k" and ?get = "\<lambda>leaf_idx. GetKernelAt leaf_idx ms"
  note c = hdr [unfolded commits_to_def]
  have r: "mmr_rep B (km_hashFile ms) ?leaves" "storage_rep (km_storage ms) (L, saved)" "list_all (kernel_valid V2) L"
    using rep by (simp_all add: kernel_rep_def)
  have first: "seg_first ?si = k * 2 ^ unat height" using k c h by (intro seg_first_index) simp_all
  have get: "GetKernelAt (LeafIndex_From (node j 0)) ms = Inr (Some (L ! j))" if "j < length L" for j
    using GetKernelAt_node [OF r(2,3) _ that] c by simp
  have size: "KernelMMR_GetSize ms = range_size ?leaves" using GetSize_rep [OF r(1)] by (simp add: KernelMMR_GetSize_def)
  obtain hs where hs: "KernelSegment B (range_size ?leaves) ?get
        (\<lambda>mmrIndex. rbind (KernelMMR_GetHashAt mmrIndex ms) (\<lambda>hash. Inr (Some hash))) ?si =
      Some (Inr (Some (kernel_segment_of ?get (range_size ?leaves) ?si hs)))"
    "Segment_Validate B (Kernel_Serialize V1) (range_size ?leaves) (mmr_root B ?leaves) None
      (kernel_segment_of ?get (range_size ?leaves) ?si hs) = Some True"
    using kernel_segment_built [of B ?leaves ?si "\<lambda>mmrIndex. rbind (KernelMMR_GetHashAt mmrIndex ms) (\<lambda>hash. Inr (Some hash))"
        ?get "Kernel_Serialize V1"] c first k h get hash_file_reads [OF r(1)] by auto
  let ?sg = "kernel_segment_of ?get (range_size ?leaves) ?si hs"
  have pos: "sg_leaf_pos ?sg = map leaves_size [k * 2 ^ unat height..<min (length L) ((k + 1) * 2 ^ unat height)]"
    using leaf_positions_eq [of ?si "length L"] first k c h by (simp add: kernel_segment_of_def Let_def add.commute)
  let ?e = "min (length L) ((k + 1) * 2 ^ unat height)"
  have leaf: "segment_leaf_at ?sg j = Some (L ! j)" if j: "j \<in> {k * 2 ^ unat height..<?e}" for j
  proof -
    have ls: "sg_leaves ?sg = map (\<lambda>p. the (projr (?get (LeafIndex_From (Index_At p))))) (sg_leaf_pos ?sg)"
      by (simp add: kernel_segment_of_def Let_def)
    have mem: "leaves_size j \<in> set (sg_leaf_pos ?sg)" using j unfolding pos by simp
    show ?thesis
      unfolding segment_leaf_at_def ls provided_map [OF mem] using j c Index_At_leaf [of j] get [of j] by simp
  qed
  have less: "leaves_size i < leaves_size j" if "i < j" "j \<le> ?e" for i j
    using that c leaves_size_less [of i j] by simp
  have "sorted_wrt (<) (sg_leaf_pos ?sg)" "\<forall>p \<in> set (sg_leaf_pos ?sg). p < leaves_size ?e"
    unfolding pos sorted_wrt_map by (rule sorted_wrt_mono_rel [OF _ sorted_wrt_upt]) (use less in auto)
  then have "ready L height ?sg"
    using leaf k c unfolding ready_def carries_def by (intro exI [of _ k]) (simp add: kernel_segment_of_def Let_def)
  then show ?thesis
    using that [of ?sg] hs c size unfolding root_matches_Validate
    by (simp add: TxHashSet_GetKernelSegment_def kernel_segment_of_def Let_def)
qed

text \<open>
  A round of a download: the first kernel segment among the blocking segments is fetched from the server and added,
  and the ready segments are applied.
\<close>

definition fetch_kernel ::
  "(bytes \<Rightarrow> bytes) \<Rightarrow> KernelMMR \<Rightarrow> ('o, 'r, TransactionKernel) Desegmenter \<Rightarrow> ('o, 'r, TransactionKernel) Desegmenter option" where
  "fetch_kernel B server ds =
     (case filter (\<lambda>blocker. fst blocker = Kernel) (GetBlockingSegments ds) of
        [] \<Rightarrow> Some ds
      | (_, identifier) # _ \<Rightarrow>
          (case TxHashSet_GetKernelSegment B identifier server of
             Some (Inr (Some sg)) \<Rightarrow> map_option snd (AddKernelSegment B (Kernel_Serialize V1) sg ds)
           | _ \<Rightarrow> None))"

definition download_round ::
  "(bytes \<Rightarrow> bytes) \<Rightarrow> 'b roaring \<Rightarrow> ('o, 'x) applier \<Rightarrow> ('r, 'x) applier \<Rightarrow> KernelMMR \<Rightarrow>
   ('o, 'r, TransactionKernel) Desegmenter \<times> 'x \<times> KernelMMR \<Rightarrow>
   (('o, 'r, TransactionKernel) Desegmenter \<times> 'x \<times> KernelMMR) option" where
  "download_round B R applyO applyR server = (\<lambda>(ds, s).
     Option.bind (fetch_kernel B server ds) (\<lambda>ds.
       map_option snd
         (ApplyReadySegments (on_rest applyO) (on_rest applyR) (TxHashSet_ApplyKernelSegment B R) ds s)))"

fun download_rounds ::
  "nat \<Rightarrow> (bytes \<Rightarrow> bytes) \<Rightarrow> 'b roaring \<Rightarrow> ('o, 'x) applier \<Rightarrow> ('r, 'x) applier \<Rightarrow> KernelMMR \<Rightarrow>
   ('o, 'r, TransactionKernel) Desegmenter \<times> 'x \<times> KernelMMR \<Rightarrow>
   (('o, 'r, TransactionKernel) Desegmenter \<times> 'x \<times> KernelMMR) option" where
  "download_rounds 0 B R applyO applyR server st = Some st"
| "download_rounds (Suc n) B R applyO applyR server st =
     Option.bind (download_round B R applyO applyR server st) (download_rounds n B R applyO applyR server)"

text \<open>No outputs and range proofs wait, and no kernel segment can be refused.\<close>

definition only_kernels :: "(bytes \<Rightarrow> bytes) \<Rightarrow> TransactionKernel list \<Rightarrow> BlockHeader \<Rightarrow> nat \<Rightarrow>
    ('o, 'r, TransactionKernel) Desegmenter \<times> 'x \<times> KernelMMR \<Rightarrow> bool" where
  "only_kernels B L header a = (\<lambda>(ds, s).
     ds_archiveHeader ds = header \<and> ds_bitmapCacheComplete ds \<and> ds_outputSegments ds = [] \<and> ds_rangeProofSegments ds = [] \<and>
     (\<forall>sg \<in> set (ds_kernelSegments ds). ready L KERNEL_SEGMENT_HEIGHT sg \<and> sg_hash_pos sg = []) \<and>
     ds_appliedKernelMMRSize ds = leaves_size a \<and> a \<le> length L \<and>
     (\<exists>n. frontier (length L) 11 (a div 2 ^ 11) a n \<and> kernels_held B L s (take n L)))"

lemma kernel_blockers:
  assumes hdr: "commits_to B header L" and st: "only_kernels B L header a (ds, s)"
  shows "filter (\<lambda>blocker. fst blocker = Kernel) (GetBlockingSegments ds) =
    (if a < length L \<and> \<not> HasSegment (ds_kernelSegments ds) (seg_id KERNEL_SEGMENT_HEIGHT (a div 2 ^ 11))
     then [(Kernel, seg_id KERNEL_SEGMENT_HEIGHT (a div 2 ^ 11))] else [])"
proof -
  note c = hdr [unfolded commits_to_def] and d = st [unfolded only_kernels_def prod.case]
  let ?N = "length L" and ?h = "KERNEL_SEGMENT_HEIGHT" and ?k = "a div 2 ^ 11"
  define n where "n = segment_count ?N 11"
  have N: "a \<le> ?N" "?N < 2 ^ 50" using c d by simp_all
  have other: "filter (\<lambda>blocker. fst blocker = Kernel) (AppendBlockingSegment bs ty t h l cache) =
      filter (\<lambda>blocker. fst blocker = Kernel) bs" if "ty \<noteq> Kernel" for bs ty t h l and cache :: "'z Segment list"
    using that by (simp add: AppendBlockingSegment_def Let_def)
  have nxt: "NextRequiredSegmentIndex (leaves_size a) ?h = of_nat ?k"
    using NextRequiredSegmentIndex_eq [of a ?h] N by (simp add: kernel_height)
  have count: "CountSegmentsRequired (leaves_size ?N) ?h = of_nat n"
    using CountSegmentsRequired_eq [of ?N ?h] N by (simp add: kernel_height n_def)
  have "n \<le> ?N" by (cases ?N) (simp_all add: n_def)
  then have "unat (of_nat n :: u64) = n" "unat (of_nat ?k :: u64) = ?k"
    using N by (intro unat_of_nat_u64; simp)+
  moreover have "n \<le> ?k \<longleftrightarrow> ?N \<le> ?k * 2 ^ 11"
    using segment_count_bounds(3) [of ?N ?k 11] by (cases ?N) (auto simp: n_def not_less [symmetric])
  ultimately have lt: "of_nat n \<le> (of_nat ?k :: u64) \<longleftrightarrow> ?N \<le> ?k * 2 ^ 11" by (simp add: word_le_nat_alt)
  have applied: "IsSegmentApplied (seg_id ?h ?k) (leaves_size ?N) (leaves_size a) \<longleftrightarrow> ?N \<le> a" if "?k * 2 ^ 11 < ?N"
  proof -
    have "a < (?k + 1) * 2 ^ 11" using dividend_less_div_times [of "2 ^ 11" a] by simp
    then show ?thesis using IsSegmentApplied_eq [of ?N ?h ?k a] that N by (auto simp: kernel_height)
  qed
  show ?thesis
    using d c lt applied other div_times_less_eq_dividend [of a "2 ^ 11"]
    by (auto simp: GetBlockingSegments_def Let_def AppendBlockingSegment_def nxt count)
qed

lemma fetch_kernel_ready:
  assumes hdr: "commits_to B header L" and st: "only_kernels B L header a (ds, s)" and server: "kernel_rep B server (L, saved)"
  obtains cache where "fetch_kernel B server ds = Some (ds\<lparr>ds_kernelSegments := cache\<rparr>)"
    "\<forall>sg \<in> set cache. ready L KERNEL_SEGMENT_HEIGHT sg \<and> sg_hash_pos sg = []"
    "a < length L \<longrightarrow> (\<exists>sg \<in> set cache. si_index (sg_id sg) = of_nat (a div 2 ^ 11))"
proof (cases "a < length L \<and> \<not> HasSegment (ds_kernelSegments ds) (seg_id KERNEL_SEGMENT_HEIGHT (a div 2 ^ 11))")
  case True
  note d = st [unfolded only_kernels_def prod.case]
  have "a div 2 ^ 11 * 2 ^ unat KERNEL_SEGMENT_HEIGHT < length L"
    unfolding kernel_height using True div_times_less_eq_dividend [of a "2 ^ 11"] by linarith
  then obtain sg where sg:
    "TxHashSet_GetKernelSegment B (seg_id KERNEL_SEGMENT_HEIGHT (a div 2 ^ 11)) server = Some (Inr (Some sg))"
    "sg_id sg = seg_id KERNEL_SEGMENT_HEIGHT (a div 2 ^ 11)" "sg_hash_pos sg = []" "ready L KERNEL_SEGMENT_HEIGHT sg"
    "root_matches B (Kernel_Serialize V1) (h_kernelMMRSize header) (h_kernelRoot header) None sg = Some True"
    using served_segment [OF hdr server, of KERNEL_SEGMENT_HEIGHT] by (auto simp: kernel_height)
  have "CacheSegment (ds_kernelSegments ds) sg = ds_kernelSegments ds @ [sg]"
    using True sg(2) by (simp add: CacheSegment_def HasSegment_def)
  then have "fetch_kernel B server ds = Some (ds\<lparr>ds_kernelSegments := ds_kernelSegments ds @ [sg]\<rparr>)"
    using kernel_blockers [OF hdr st] True sg d
    by (simp add: fetch_kernel_def AddKernelSegment_def KERNEL_SEGMENT_HEIGHT_def)
  then show ?thesis using sg(2-4) d by (intro that) auto
next
  case False
  note d = st [unfolded only_kernels_def prod.case]
  have "fetch_kernel B server ds = Some (ds\<lparr>ds_kernelSegments := ds_kernelSegments ds\<rparr>)"
    using kernel_blockers [OF hdr st] False by (cases ds) (auto simp: fetch_kernel_def)
  moreover have "\<exists>sg \<in> set (ds_kernelSegments ds). si_index (sg_id sg) = of_nat (a div 2 ^ 11)" if "a < length L"
    using False that by (auto simp: HasSegment_def list_ex_iff intro!: bexI)
  ultimately show ?thesis using d by (intro that [of "ds_kernelSegments ds"]) blast+
qed

lemma empty_batches:
  "ds_outputSegments ds = [] \<Longrightarrow> apply_outputs f ds s = Some (Inr (Some 0), ds, s)"
  "ds_rangeProofSegments ds = [] \<Longrightarrow> apply_range_proofs g ds s = Some (Inr (Some 0), ds, s)"
  by (cases ds; simp add: apply_outputs_def apply_range_proofs_def ApplyReadySegmentBatch_def
      SEGMENT_APPLY_BATCH_SIZE_def numeral_eq_Suc)+

lemma download_round_progress:
  fixes st :: "('o, 'r, TransactionKernel) Desegmenter \<times> 'x \<times> KernelMMR"
  assumes hdr: "commits_to B header L" and st: "only_kernels B L header a st" and server: "kernel_rep B server (L, saved)"
  obtains st' a' where "download_round B R applyO applyR server st = Some st'" "only_kernels B L header a' st'"
    "min (length L) ((a div 2 ^ 11 + 1) * 2 ^ 11) \<le> a'"
proof -
  obtain ds s where ds: "st = (ds, s)" by (cases st)
  note c = hdr [unfolded commits_to_def] and d = st [unfolded only_kernels_def ds prod.case]
  let ?h = "unat KERNEL_SEGMENT_HEIGHT" and ?N = "length L"
  obtain cache where cache: "fetch_kernel B server ds = Some (ds\<lparr>ds_kernelSegments := cache\<rparr>)"
    "\<forall>sg \<in> set cache. ready L KERNEL_SEGMENT_HEIGHT sg \<and> sg_hash_pos sg = []"
    "a < ?N \<longrightarrow> (\<exists>sg \<in> set cache. si_index (sg_id sg) = of_nat (a div 2 ^ 11))"
    using fetch_kernel_ready [OF hdr st [unfolded ds] server] .
  obtain n where n: "frontier ?N ?h (a div 2 ^ ?h) a n" "kernels_held B L s (take n L)"
    using d unfolding kernel_height by blast
  have N: "?N < 2 ^ 50" "0 < ?h" "?h < 50" "a \<le> ?N" "\<forall>sg \<in> set cache. ready L KERNEL_SEGMENT_HEIGHT sg"
    using c d cache(2) by (simp_all add: kernel_height)
  obtain r cache' a' n' s' k where *:
    "ApplyReadySegmentBatch (TxHashSet_ApplyKernelSegment B R) cache (leaves_size a) KERNEL_SEGMENT_HEIGHT
      (leaves_size ?N) s = Some (r, cache', leaves_size a', s')"
    "kernels_held B L s' (take n' L)" "a' \<le> ?N" "frontier ?N ?h (a' div 2 ^ ?h) a' n'" "set cache' \<subseteq> set cache"
    "a' = (if k = 0 then a else min ?N ((a div 2 ^ ?h + k) * 2 ^ ?h))"
    "r = Inr None \<and> (\<exists>sg \<in> set cache. sg_hash_pos sg \<noteq> []) \<or>
     r = Inr (Some k) \<and> (k = 0 \<longrightarrow> (\<forall>sg \<in> set cache. si_index (sg_id sg) \<noteq> of_nat (a div 2 ^ ?h)))"
    by (rule kernel_applier.batch_prefix [OF N n])
  have r: "r = Inr (Some k)" using *(7) cache(2) by blast
  let ?ds = "ds\<lparr>ds_kernelSegments := cache', ds_appliedKernelMMRSize := leaves_size a'\<rparr>"
  have "ApplyReadySegments (on_rest applyO) (on_rest applyR) (TxHashSet_ApplyKernelSegment B R)
      (ds\<lparr>ds_kernelSegments := cache\<rparr>) s =
      Some (Inr (Some k), ?ds\<lparr>ds_allSegmentsComplete := ds_bitmapCacheComplete ?ds \<and> sizes_complete ?ds\<rparr>, s')"
    using d c *(1) by (simp add: ApplyReadySegments_def empty_batches apply_kernels_def r)
  then have round: "download_round B R applyO applyR server st =
      Some (?ds\<lparr>ds_allSegmentsComplete := ds_bitmapCacheComplete ?ds \<and> sizes_complete ?ds\<rparr>, s')"
    using cache(1) by (simp add: download_round_def ds)
  have "only_kernels B L header a' (?ds\<lparr>ds_allSegmentsComplete := ds_bitmapCacheComplete ?ds \<and> sizes_complete ?ds\<rparr>, s')"
    using d *(2-5) cache(2) unfolding only_kernels_def kernel_height by auto
  moreover have "min ?N ((a div 2 ^ 11 + 1) * 2 ^ 11) \<le> a'"
  proof (cases "k = 0")
    case True
    then have "\<not> a < ?N" using *(7) r cache(3) unfolding kernel_height by blast
    then show ?thesis using *(6) True by simp
  next
    case False
    then have "(a div 2 ^ 11 + 1) * 2 ^ 11 \<le> (a div 2 ^ 11 + k) * 2 ^ 11" by (intro mult_le_mono1) simp
    then show ?thesis using *(6) False unfolding kernel_height by auto
  qed
  ultimately show ?thesis by (rule that [OF round])
qed

lemma download_rounds_progress:
  fixes st :: "('o, 'r, TransactionKernel) Desegmenter \<times> 'x \<times> KernelMMR"
  assumes hdr: "commits_to B header L" and server: "kernel_rep B server (L, saved)" and st: "only_kernels B L header a st"
  shows "\<exists>st' a'. download_rounds n B R applyO applyR server st = Some st' \<and> only_kernels B L header a' st' \<and>
    a \<le> a' \<and> min (length L) ((a div 2 ^ 11 + n) * 2 ^ 11) \<le> a'"
  using st
proof (induction n arbitrary: a st)
  case 0
  have "min (length L) ((a div 2 ^ 11 + 0) * 2 ^ 11) \<le> a"
    using div_times_less_eq_dividend [of a "2 ^ 11"] unfolding min_le_iff_disj by simp
  then show ?case using 0 by auto
next
  case (Suc n)
  obtain st1 a1 where 1: "download_round B R applyO applyR server st = Some st1" "only_kernels B L header a1 st1"
    "min (length L) ((a div 2 ^ 11 + 1) * 2 ^ 11) \<le> a1"
    by (rule download_round_progress [OF hdr Suc.prems server])
  obtain st' a' where 2: "download_rounds n B R applyO applyR server st1 = Some st'" "only_kernels B L header a' st'"
    "a1 \<le> a'" "min (length L) ((a1 div 2 ^ 11 + n) * 2 ^ 11) \<le> a'"
    using Suc.IH [OF 1(2)] by blast
  have "a < (a div 2 ^ 11 + 1) * 2 ^ 11" using dividend_less_div_times [of "2 ^ 11" a] by simp
  moreover have "a \<le> length L" using Suc.prems by (auto simp: only_kernels_def)
  ultimately have le: "a \<le> a'" using 1(3) 2(3) by linarith
  have "min (length L) ((a div 2 ^ 11 + Suc n) * 2 ^ 11) \<le> a'"
  proof (cases "(a div 2 ^ 11 + 1) * 2 ^ 11 \<le> a1")
    case True
    then have "a div 2 ^ 11 + 1 \<le> a1 div 2 ^ 11" by (simp add: less_eq_div_iff_mult_less_eq)
    then have "(a div 2 ^ 11 + Suc n) * 2 ^ 11 \<le> (a1 div 2 ^ 11 + n) * 2 ^ 11" by (intro mult_le_mono1) simp
    then show ?thesis using 2(4) by linarith
  next
    case False
    then have "length L \<le> a1" using 1(3) unfolding min_le_iff_disj by blast
    then show ?thesis using 2(3) by simp
  qed
  then show ?case using 1(1) 2(1,2) le by auto
qed

text \<open>
  C5. A download from an honest server ends. The client has a prefix of the kernels under the header, all bitmap
  segments, and nothing waits to be applied; in every round it fetches the blocking kernel segment from a server
  that holds all kernels and applies what is ready. After one round for every segment of the range no call has failed,
  the client has recorded the whole range as applied, holds exactly the kernels of the server and computes the root
  of the header.
\<close>

theorem kernel_download_completes:
  assumes hdr: "commits_to B header L" and server: "kernel_rep B server (L, saved)"
    and start: "kernel_rep B m0 (take n0 L, saved0)" "n0 \<le> length L"
    and ds: "ds_archiveHeader ds = header" "ds_bitmapCacheComplete ds" "ds_kernelSegments ds = []"
      "ds_outputSegments ds = []" "ds_rangeProofSegments ds = []" "ds_appliedKernelMMRSize ds = KernelMMR_GetSize m0"
    and rounds: "rounds = unat (CountSegmentsRequired (h_kernelMMRSize header) KERNEL_SEGMENT_HEIGHT)"
  shows "\<exists>ds' x m. download_rounds rounds B R applyO applyR server (ds, x0, m0) = Some (ds', x, m) \<and>
    ds_appliedKernelMMRSize ds' = h_kernelMMRSize header \<and> GetNumKernels m = of_nat (length L) \<and>
    (\<forall>i < length L. GetKernelAt (LeafIndex_At (of_nat i)) m = Inr (Some (L ! i))) \<and>
    KernelMMR_Root B R (h_kernelMMRSize header) m = Inr (h_kernelRoot header)"
proof -
  note c = hdr [unfolded commits_to_def]
  let ?N = "length L"
  have st: "only_kernels B L header n0 (ds, x0, m0)"
    using ds start c size_prefix [OF start] frontier_start [OF start(2), of 11]
    by (auto simp: only_kernels_def kernels_held_def hash_ok_def)
  define n where "n = segment_count ?N 11"
  have "n \<le> ?N" by (cases ?N) (simp_all add: n_def)
  moreover have "CountSegmentsRequired (leaves_size ?N) KERNEL_SEGMENT_HEIGHT = of_nat n"
    using CountSegmentsRequired_eq [of ?N KERNEL_SEGMENT_HEIGHT] c by (simp add: kernel_height n_def)
  ultimately have "rounds = n" using c unat_of_nat_u64 [of n] by (simp add: rounds)
  moreover have "?N \<le> (n0 div 2 ^ 11 + n) * 2 ^ 11"
    using segment_count_bounds(2) [of ?N 11] by (cases ?N) (auto simp: n_def)
  moreover obtain ds' x m a where fin: "download_rounds rounds B R applyO applyR server (ds, x0, m0) = Some (ds', x, m)"
    "only_kernels B L header a (ds', x, m)" "min ?N ((n0 div 2 ^ 11 + rounds) * 2 ^ 11) \<le> a"
    using download_rounds_progress [OF hdr server st, of rounds R applyO applyR] by auto
  ultimately have "?N \<le> a" by simp
  then have "ds_appliedKernelMMRSize ds' = h_kernelMMRSize header"
    "\<exists>saved. kernel_rep B m (take ?N L, saved)"
    using fin(2) c by (auto simp: only_kernels_def kernels_held_def frontier_def)
  then show ?thesis using fin(1) prefix_contents(1,2) [OF hdr _ order.refl, of m] prefix_contents(3) [OF hdr _ order.refl, of m _ R]
    by blast
qed

section \<open>A range of one kernel\<close>

definition sample_kernel :: TransactionKernel where
  "sample_kernel =
     \<lparr>k_features = HEIGHT_LOCKED, k_fee = Fee_Default, k_lockHeight = 7, k_excessCommitment = replicate 33 8,
      k_excessSignature = replicate 64 7\<rparr>"

text \<open>A hash function that separates the only input of the range, a header over it and its only segment.\<close>

definition leaf_hash :: "bytes \<Rightarrow> bytes" where
  "leaf_hash x = (if x = AppendU64 0 @ Kernel_Serialize V1 sample_kernel then replicate 32 1 else replicate 32 2)"

definition kernel_header :: BlockHeader where
  "kernel_header = (sample_header leaf_hash)\<lparr>h_kernelMMRSize := 1, h_kernelRoot := replicate 32 1\<rparr>"

definition kernel_sample_segment :: "TransactionKernel Segment" where
  "kernel_sample_segment =
     \<lparr>sg_id = \<lparr>si_height = 11, si_index = 0\<rparr>, sg_hash_pos = [], sg_hashes = [], sg_leaf_pos = [0],
      sg_leaves = [sample_kernel], sg_proof = []\<rparr>"

definition empty_kernels :: KernelMMR where
  "empty_kernels = \<lparr>km_hashFile = DataFile_Load [], km_storage = Fixed (DataFile_Load [])\<rparr>"

lemma sample_kernel_valid: "kernel_valid V2 sample_kernel"
  by (simp add: sample_kernel_def kernel_valid_def kernel_features_defs fee_valid_def Fee_Default_def)

lemma sample_inputs:
  "range_inputs leaf_hash [Kernel_Serialize V1 sample_kernel] = {AppendU64 0 @ Kernel_Serialize V1 sample_kernel}"
proof -
  have "\<not> is_node 0 (Suc h)" for h by (simp add: is_node_def)
  moreover have "peaks 1 = [(0, 0)]" by code_simp
  then have "peak_hashes leaf_hash [Kernel_Serialize V1 sample_kernel] (peaks (length [Kernel_Serialize V1 sample_kernel])) \<noteq>
      ls @ h # hs" if "hs \<noteq> []" for ls h hs
    using that by (auto simp: Cons_eq_append_conv)
  ultimately show ?thesis
    unfolding range_inputs_def by (auto simp: leaf_input_def mmr_pos_def)
qed

lemma sample_hash:
  "second_preimage_free leaf_hash (map (Kernel_Serialize V1) [sample_kernel])"
  "hash_ok leaf_hash (map (Kernel_Serialize V1) [sample_kernel])"
proof -
  have ne: "replicate 32 (2 :: u8) \<noteq> replicate 32 1" by simp
  then show "second_preimage_free leaf_hash (map (Kernel_Serialize V1) [sample_kernel])"
    using sample_inputs by (auto simp: second_preimage_free_def leaf_hash_def)
  have "\<not> BigInteger_equal (replicate 32 b) ZERO_HASH" if "b \<noteq> 0" for b
    using that by (simp add: ZERO_HASH_def BigInteger_ValueOf_def numeral_eq_Suc)
  then show "hash_ok leaf_hash (map (Kernel_Serialize V1) [sample_kernel])"
    by (simp add: hash_ok_def leaf_hash_def)
qed

lemma sample_commits: "commits_to leaf_hash kernel_header [sample_kernel]"
proof -
  have "mmr_root leaf_hash [Kernel_Serialize V1 sample_kernel] = replicate 32 1" by code_simp
  moreover have "leaves_size (length [sample_kernel]) = 1" by code_simp
  ultimately show ?thesis
    using sample_hash(2) sample_kernel_valid by (simp add: commits_to_def kernel_header_def)
qed

lemma sample_validates:
  "Segment_Validate leaf_hash (Kernel_Serialize V1) 1 (replicate 32 1) None kernel_sample_segment = Some True"
  by code_simp

lemma empty_kernels_rep: "kernel_rep B empty_kernels ([], [])"
  unfolding empty_kernels_def by (rule kernel_rep_empty) (simp add: empty_storage_def)

definition sample_start :: "(bytes, bytes, TransactionKernel) Desegmenter" where
  "sample_start = SetAppliedMMRSizes 0 0 (KernelMMR_GetSize empty_kernels) (Desegmenter_Reset kernel_header)"

lemma sample_requested: "requested 1 KERNEL_SEGMENT_HEIGHT 0 kernel_sample_segment" "inside 1 KERNEL_SEGMENT_HEIGHT 0 kernel_sample_segment"
proof -
  have "(0 :: u64) < leaves_size 1" by code_simp
  then show "inside 1 KERNEL_SEGMENT_HEIGHT 0 kernel_sample_segment"
    by (simp add: inside_def kernel_sample_segment_def kernel_height)
  show "requested 1 KERNEL_SEGMENT_HEIGHT 0 kernel_sample_segment"
    by (simp add: requested_def kernel_sample_segment_def KERNEL_SEGMENT_HEIGHT_def)
qed

lemma sample_added:
  "AddKernelSegment leaf_hash (Kernel_Serialize V1) kernel_sample_segment ds = Some (True, ds\<lparr>ds_kernelSegments := [kernel_sample_segment]\<rparr>)"
  if "ds_archiveHeader ds = kernel_header" "ds_kernelSegments ds = []"
  using sample_validates that
  by (simp add: AddKernelSegment_def root_matches_Validate kernel_header_def kernel_sample_segment_def CacheSegment_def)

definition skip_segment :: "('a, 'x) applier" where
  "skip_segment segment target x = Some (Inr True, x)"

definition sample_client :: "(bytes, bytes, TransactionKernel) Desegmenter" where
  "sample_client =
     (let size = h_outputMMRSize kernel_header
      in (SetAppliedMMRSizes size size 0 (Desegmenter_Reset kernel_header))\<lparr>ds_bitmapCacheComplete := True\<rparr>)"

lemma empty_size: "KernelMMR_GetSize empty_kernels = 0"
  by code_simp

lemma sample_applied:
  "\<exists>r ds m. ApplyReadySegments (on_rest skip_segment) (on_rest skip_segment) (TxHashSet_ApplyKernelSegment leaf_hash set_roaring)
     (sample_client\<lparr>ds_kernelSegments := [kernel_sample_segment]\<rparr>) ((), empty_kernels) = Some (r, ds, (), m) \<and> ds_allSegmentsComplete ds"
proof -
  let ?L = "[sample_kernel]" and ?h = "unat KERNEL_SEGMENT_HEIGHT" and ?cache = "[kernel_sample_segment]"
  note c = sample_commits [unfolded commits_to_def]
  have "ready ?L KERNEL_SEGMENT_HEIGHT kernel_sample_segment"
    using c sample_hash(1) sample_requested sample_kernel_valid sample_validates
    by (intro validated_ready [of _ _ _ _ 0]) (simp_all add: root_matches_Validate kernel_header_def kernel_height kernel_sample_segment_def)
  then have cache: "\<forall>sg \<in> set ?cache. ready ?L KERNEL_SEGMENT_HEIGHT sg" by simp
  have held: "kernels_held leaf_hash ?L ((), empty_kernels) (take 0 ?L)"
    using empty_kernels_rep [of leaf_hash] c by (auto simp: kernels_held_def hash_ok_def)
  have h: "length ?L < 2 ^ 50" "0 < ?h" "?h < 50" "(0 :: nat) \<le> length ?L" by (simp_all add: kernel_height)
  have front: "frontier (length ?L) ?h (0 div 2 ^ ?h) 0 0" by (rule frontier_start) simp
  obtain r cache' a' n' s' k where *:
    "ApplyReadySegmentBatch (TxHashSet_ApplyKernelSegment leaf_hash set_roaring) ?cache (leaves_size 0) KERNEL_SEGMENT_HEIGHT
      (leaves_size (length ?L)) ((), empty_kernels) = Some (r, cache', leaves_size a', s')"
    "a' = (if k = 0 then 0 else min (length ?L) ((0 div 2 ^ ?h + k) * 2 ^ ?h))"
    "r = Inr None \<and> (\<exists>sg \<in> set ?cache. sg_hash_pos sg \<noteq> []) \<or>
     r = Inr (Some k) \<and> (k = 0 \<longrightarrow> (\<forall>sg \<in> set ?cache. si_index (sg_id sg) \<noteq> of_nat (0 div 2 ^ ?h)))"
    by (rule kernel_applier.batch_prefix [OF h cache front held])
  have "r = Inr (Some k)" "k \<noteq> 0" using *(3) by (auto simp: kernel_sample_segment_def)
  moreover have "a' = 1" using *(2) calculation(2) by (simp add: kernel_height)
  moreover have "leaves_size 0 = 0" "leaves_size 1 = 1" by code_simp+
  ultimately show ?thesis
    using *(1) by (cases s') (simp add: ApplyReadySegments_def empty_batches apply_kernels_def sample_client_def
        SetAppliedMMRSizes_def Desegmenter_Reset_def kernel_header_def sizes_complete_def Let_def)
qed

text \<open>A client that gets the only kernel in one segment and applies it.\<close>

theorem kernel_download_safe_witness:
  "\<exists>ds x m. pibd_run leaf_hash set_roaring id id skip_segment skip_segment 1 (sample_client, (), empty_kernels)
       [kernel_sample_segment] (ds, x, m) \<and>
     \<not> trailing 1 kernel_sample_segment \<and> ds_allSegmentsComplete ds \<and>
     GetNumKernels m = 1 \<and> GetKernelAt (LeafIndex_At 0) m = Inr (Some sample_kernel)"
proof -
  let ?ds = "sample_client\<lparr>ds_kernelSegments := [kernel_sample_segment]\<rparr>"
  let ?run = "pibd_run leaf_hash set_roaring id id skip_segment skip_segment (length [sample_kernel]) (sample_client, (), empty_kernels)"
  have start: "ds_archiveHeader sample_client = kernel_header" "ds_kernelSegments sample_client = []"
    "\<not> ds_allSegmentsComplete sample_client" "ds_appliedKernelMMRSize sample_client = KernelMMR_GetSize empty_kernels"
    by (simp_all add: sample_client_def SetAppliedMMRSizes_def Desegmenter_Reset_def kernel_header_def empty_size Let_def)
  have "?run ([] @ [kernel_sample_segment]) (?ds, (), empty_kernels)"
    using sample_requested(1) sample_kernel_valid
    by (intro pibd_run.step [OF pibd_run.start] pibd_step.kernel_segment [OF sample_added [OF start(1,2)]])
      (simp_all add: kernel_sample_segment_def)
  moreover obtain r ds m where applied: "ApplyReadySegments (on_rest skip_segment) (on_rest skip_segment)
      (TxHashSet_ApplyKernelSegment leaf_hash set_roaring) ?ds ((), empty_kernels) = Some (r, ds, (), m)" "ds_allSegmentsComplete ds"
    using sample_applied by blast
  ultimately have run: "?run [kernel_sample_segment] (ds, (), m)"
    using pibd_run.step [OF _ pibd_step.segments_applied [OF applied(1)]] by fastforce
  have inside: "\<not> trailing (length [sample_kernel]) kernel_sample_segment"
    using sample_requested(2) by (simp add: trailing_def kernel_sample_segment_def)
  have "kernel_rep leaf_hash empty_kernels (take 0 [sample_kernel], [])" using empty_kernels_rep by simp
  from kernel_download_safe [OF sample_commits sample_hash(1) this _ start(4,1,2,3), of set_roaring id id skip_segment skip_segment
      "()" "[kernel_sample_segment]" ds "()" m] run inside applied(2)
  show ?thesis by (intro exI [of _ ds] exI [of _ "()"] exI [of _ m]) simp
qed

theorem extra_hash_blocks_witness:
  "let ds = sample_start\<lparr>ds_bitmapCacheComplete := True\<rparr>
   in \<exists>ds'. AddKernelSegment leaf_hash (Kernel_Serialize V1)
        (kernel_sample_segment\<lparr>sg_hash_pos := [5], sg_hashes := [replicate 32 0]\<rparr>) ds = Some (True, ds') \<and>
      apply_kernels (TxHashSet_ApplyKernelSegment leaf_hash set_roaring) ds' ((), empty_kernels) =
        Some (Inr None, ds', (), empty_kernels) \<and>
      AddKernelSegment leaf_hash (Kernel_Serialize V1) kernel_sample_segment ds' = Some (True, ds') \<and>
      (Kernel, sg_id kernel_sample_segment) \<notin> set (GetBlockingSegments ds')"
proof -
  have "KernelMMR_GetSize empty_kernels = 0" by code_simp
  then show ?thesis
    unfolding Let_def using sample_validates
    by (intro extra_hash_blocks)
      (simp_all add: kernel_sample_segment_def sample_start_def SetAppliedMMRSizes_def Desegmenter_Reset_def kernel_header_def
        KERNEL_SEGMENT_HEIGHT_def NextRequiredSegmentIndex_def)
qed

theorem trailing_kernel_applied_witness:
  "let forged = sample_kernel\<lparr>k_lockHeight := 9\<rparr>;
       sg' = kernel_sample_segment\<lparr>sg_leaf_pos := [0, 1], sg_leaves := [sample_kernel, forged]\<rparr>
   in Segment_Validate leaf_hash (Kernel_Serialize V1) (h_kernelMMRSize kernel_header) (h_kernelRoot kernel_header) None sg' =
        Some True \<and>
      (\<exists>m'. KernelMMR_ApplySegment leaf_hash set_roaring sg' empty_kernels = Some (Inr True, m') \<and>
         GetKernelAt (LeafIndex_At (of_nat 1)) m' = Inr (Some forged))"
proof -
  have root: "Segment_Validate leaf_hash (Kernel_Serialize V1) (h_kernelMMRSize kernel_header) (h_kernelRoot kernel_header) None
      kernel_sample_segment = Some True"
    using sample_validates by (simp add: kernel_header_def)
  have "kernel_valid V2 (sample_kernel\<lparr>k_lockHeight := 9\<rparr>)" "leaves_size 1 = 1"
    by (simp add: sample_kernel_def kernel_valid_def kernel_features_defs fee_valid_def Fee_Default_def) code_simp
  then show ?thesis
    unfolding Let_def
    using trailing_kernel_applied [OF sample_hash(1) sample_commits, where k = 0 and sg = kernel_sample_segment and e = 1
        and m = empty_kernels and saved = "[]" and any = "sample_kernel\<lparr>k_lockHeight := 9\<rparr>" and R = set_roaring] root sample_requested empty_kernels_rep [of leaf_hash] sample_kernel_valid
    by (simp add: kernel_sample_segment_def)
qed

theorem kernel_download_completes_witness:
  "let server = snd (the (ApplyKernel leaf_hash set_roaring sample_kernel empty_kernels));
       ds = sample_start\<lparr>ds_bitmapCacheComplete := True\<rparr>
   in \<exists>ds' x m. download_rounds 1 leaf_hash set_roaring (\<lambda>_ _ x. Some (Inr True, x)) (\<lambda>_ _ x. Some (Inr True, x)) server
          (ds, (), empty_kernels) = Some (ds', x, m) \<and>
        ds_appliedKernelMMRSize ds' = h_kernelMMRSize kernel_header \<and> GetNumKernels m = of_nat (length [sample_kernel]) \<and>
        (\<forall>i < length [sample_kernel]. GetKernelAt (LeafIndex_At (of_nat i)) m = Inr (Some ([sample_kernel] ! i))) \<and>
        KernelMMR_Root leaf_hash set_roaring (h_kernelMMRSize kernel_header) m = Inr (h_kernelRoot kernel_header)"
proof -
  have len: "\<forall>x. length (leaf_hash x) = 32" by (simp add: leaf_hash_def)
  obtain m' where "ApplyKernel leaf_hash set_roaring sample_kernel empty_kernels = Some (Inr (), m')"
    "kernel_rep leaf_hash m' ([sample_kernel], [])"
    using kernel_add [OF len empty_kernels_rep _ sample_kernel_valid, of set_roaring] by auto
  then have server: "kernel_rep leaf_hash (snd (the (ApplyKernel leaf_hash set_roaring sample_kernel empty_kernels)))
      ([sample_kernel], [])"
    by simp
  have size: "KernelMMR_GetSize empty_kernels = 0" by code_simp
  have "unat (CountSegmentsRequired 1 11) = 1" by code_simp
  then show ?thesis
    unfolding Let_def using size empty_kernels_rep [of leaf_hash]
    by (intro kernel_download_completes [OF sample_commits server, of _ 0 "[]"])
      (simp_all add: sample_start_def SetAppliedMMRSizes_def Desegmenter_Reset_def kernel_header_def KERNEL_SEGMENT_HEIGHT_def)
qed

end
