(* ===== verification/SegmentRequests.thy ===== *)
theory SegmentRequests
  imports Desegmenter "HOL-Library.Multiset"
begin

text \<open>
  The requests of the desegmenter: \<^verbatim>\<open>NextDesiredSegments\<close> merges the missing segments of three types in rounds. The
  merged list is a sub-multiset of what it merges, so it repeats nothing and asks for nothing else.
\<close>

section \<open>Merging\<close>

definition nth_if :: "'a list \<Rightarrow> nat \<Rightarrow> 'a list" where
  "nth_if xs i = (if i < length xs then [xs ! i] else [])"

definition pick :: "nat \<Rightarrow> nat \<Rightarrow> 'i list \<Rightarrow> bool \<times> 'i list \<Rightarrow> bool \<times> 'i list" where
  "pick m i xs = (\<lambda>(ap, ds). if m \<le> length ds \<or> length xs \<le> i then (ap, ds) else (True, ds @ [xs ! i]))"

lemma desired_round_picks:
  assumes "t < 3"
  shows "desired_round m t i os rs ks ds =
    (if t = 0 then pick m i ks (pick m i rs (pick m i os (False, ds)))
     else if t = 1 then pick m i os (pick m i ks (pick m i rs (False, ds)))
     else pick m i rs (pick m i os (pick m i ks (False, ds))))"
proof -
  have step: "(case st of (ap, desired) \<Rightarrow>
       if m \<le> length desired then (ap, desired)
       else
         let rotatedType = r
         in if rotatedType = 0 \<and> i < length os then (True, desired @ [os ! i])
            else if rotatedType = 1 \<and> i < length rs then (True, desired @ [rs ! i])
            else if rotatedType = 2 \<and> i < length ks then (True, desired @ [ks ! i])
            else (ap, desired)) =
     pick m i (if r = 0 then os else if r = 1 then rs else ks) st" if "r < 3" for r :: nat and st
    using that by (cases st) (auto simp: pick_def)
  have upt: "[0..<3] = [0, 1, 2 :: nat]" by (simp add: upt_rec)
  have "(t + j) mod 3 < 3" for j by simp
  note step = step [OF this]
  have "t = 0 \<or> t = 1 \<or> t = 2" using assms by linarith
  then show ?thesis
    unfolding desired_round_def upt fold_simps step by (elim disjE) simp_all
qed

lemma pick_spec:
  "mset (snd (pick m i xs st)) \<subseteq># mset (snd st) + mset (nth_if xs i)"
  "length (snd (pick m i xs st)) \<le> max m (length (snd st))"
  by (cases st; simp add: pick_def nth_if_def)+

lemma pick3_spec:
  "mset (snd (pick m i xs (pick m i ys (pick m i zs st)))) \<subseteq>#
     mset (snd st) + mset (nth_if zs i) + mset (nth_if ys i) + mset (nth_if xs i)" (is ?sub)
  "length (snd (pick m i xs (pick m i ys (pick m i zs st)))) \<le> max m (length (snd st))" (is ?len)
proof -
  let ?y = "pick m i ys (pick m i zs st)" and ?z = "pick m i zs st"
  have "mset (snd ?y) \<subseteq># mset (snd st) + mset (nth_if zs i) + mset (nth_if ys i)"
    using pick_spec(1) [of m i ys ?z] subset_mset.add_right_mono [OF pick_spec(1) [of m i zs st]]
    by (rule subset_mset.order_trans)
  from subset_mset.add_right_mono [OF this] pick_spec(1) [of m i xs ?y] show ?sub
    by (rule subset_mset.order_trans [rotated])
  show ?len using pick_spec(2) [of m i xs ?y] pick_spec(2) [of m i ys ?z] pick_spec(2) [of m i zs st] by linarith
qed

lemma desired_round_spec:
  assumes "t < 3" "desired_round m t i os rs ks ds = (b, ds')"
  shows "mset ds' \<subseteq># mset ds + mset (nth_if os i) + mset (nth_if rs i) + mset (nth_if ks i)"
    and "length ds' \<le> max m (length ds)"
proof -
  have ds': "ds' = snd (desired_round m t i os rs ks ds)" using assms(2) by simp
  show "mset ds' \<subseteq># mset ds + mset (nth_if os i) + mset (nth_if rs i) + mset (nth_if ks i)"
    "length ds' \<le> max m (length ds)"
    using pick3_spec [of m i ks rs os "(False, ds)"] pick3_spec [of m i os ks rs "(False, ds)"]
      pick3_spec [of m i rs os ks "(False, ds)"]
    unfolding ds' desired_round_picks [OF assms(1)] by (auto simp: ac_simps split: if_splits)
qed

lemma drop_nth_if: "mset (drop i xs) = mset (nth_if xs i) + mset (drop (Suc i) xs)"
  by (cases "i < length xs") (simp_all add: nth_if_def Cons_nth_drop_Suc [symmetric])

lemma desired_loop_spec:
  assumes "t < 3" "length ds \<le> m"
  shows "mset (desired_loop m t i os rs ks ds) \<subseteq># mset ds + mset (drop i os) + mset (drop i rs) + mset (drop i ks) \<and>
    length (desired_loop m t i os rs ks ds) \<le> m"
  using assms
proof (induction m t i os rs ks ds rule: desired_loop.induct)
  case (1 m t i os rs ks ds)
  let ?heads = "mset (nth_if os i) + mset (nth_if rs i) + mset (nth_if ks i)"
  let ?tails = "mset (drop (Suc i) os) + mset (drop (Suc i) rs) + mset (drop (Suc i) ks)"
  obtain b ds' where round: "desired_round m t i os rs ks ds = (b, ds')" by fastforce
  have ds': "mset ds' \<subseteq># mset ds + ?heads" "length ds' \<le> m"
    using desired_round_spec [OF 1(2) round] 1(3) by (simp_all add: ac_simps)
  have split: "mset ds + mset (drop i os) + mset (drop i rs) + mset (drop i ks) = (mset ds + ?heads) + ?tails"
    by (simp add: drop_nth_if [of i] ac_simps)
  show ?case
  proof (cases "m \<le> length ds")
    case True
    then show ?thesis using 1(3) by (simp add: desired_loop.simps)
  next
    case False
    show ?thesis
    proof (cases b)
      case True
      have "mset (desired_loop m t (Suc i) os rs ks ds') \<subseteq># mset ds' + ?tails"
        "length (desired_loop m t (Suc i) os rs ks ds') \<le> m"
        using 1(1) [OF False round [symmetric]] True 1(2) ds'(2) by (simp_all add: ac_simps)
      moreover have "mset ds' + ?tails \<subseteq># (mset ds + ?heads) + ?tails" using ds'(1) by (rule subset_mset.add_right_mono)
      moreover have "desired_loop m t i os rs ks ds = desired_loop m t (Suc i) os rs ks ds'"
        using False round True by (subst desired_loop.simps) simp
      ultimately show ?thesis unfolding split by (simp only:) (blast intro: subset_mset.order_trans)
    next
      case b: False
      have "desired_loop m t i os rs ks ds = ds'" using False round b by (subst desired_loop.simps) simp
      then show ?thesis unfolding split using ds' by (simp add: subset_mset.add_increasing2)
    qed
  qed
qed

lemma distinct_mset_mono: "mset xs \<subseteq># mset ys \<Longrightarrow> distinct ys \<Longrightarrow> distinct xs"
proof -
  assume "mset xs \<subseteq># mset ys" and ys: "distinct ys"
  then obtain zs where "mset ys = mset (xs @ zs)"
    by (metis ex_mset mset_append subset_mset.add_diff_inverse)
  then show ?thesis using ys mset_eq_imp_distinct_iff distinct_append by blast
qed

section \<open>The missing segments of one type\<close>

definition missing :: "SegmentType \<Rightarrow> u64 \<Rightarrow> u8 \<Rightarrow> u64 \<Rightarrow> 'a Segment list \<Rightarrow> SegmentTypeIdentifier \<Rightarrow> bool" where
  "missing ty targetMMRSize height localMMRSize cache = (\<lambda>(ty', identifier).
     ty' = ty \<and> si_height identifier = height \<and> si_index identifier < CountSegmentsRequired targetMMRSize height \<and>
     \<not> IsSegmentApplied identifier targetMMRSize localMMRSize \<and> \<not> HasSegment cache identifier)"

lemma append_desired_spec:
  assumes "list_all (missing ty target height local cache) ds" "distinct ds" "length ds \<le> m"
    and "\<forall>i \<in> set is. i < unat (CountSegmentsRequired target height)" "distinct is"
    and "\<forall>i \<in> set is. (ty, seg_id height i) \<notin> set ds"
  shows "list_all (missing ty target height local cache) (append_desired ty m target height local cache is ds) \<and>
    distinct (append_desired ty m target height local cache is ds) \<and>
    length (append_desired ty m target height local cache is ds) \<le> m"
  using assms
proof (induction "is" arbitrary: ds)
  case (Cons i "is")
  let ?id = "seg_id height i"
  have small: "j < 2 ^ 64" if "j \<in> set (i # is)" for j
  proof -
    have "j < unat (CountSegmentsRequired target height)" using Cons.prems(4) that by auto
    also have "\<dots> < 2 ^ LENGTH(64)" by (rule unsigned_less)
    finally show ?thesis by simp
  qed
  have new: "missing ty target height local cache (ty, ?id)"
    if "\<not> IsSegmentApplied ?id target local" "\<not> HasSegment cache ?id"
    using that Cons.prems(4) small by (simp add: missing_def word_less_nat_alt unat_of_nat_u64)
  have other: "(ty, seg_id height j) \<notin> set (ds @ [(ty, ?id)])" if j: "j \<in> set is" for j
  proof -
    have "unat (of_nat j :: u64) = j" "unat (of_nat i :: u64) = i" using small j by (intro unat_of_nat_u64; simp)+
    moreover have "j \<noteq> i" using j Cons.prems(5) by auto
    ultimately have "(of_nat j :: u64) \<noteq> of_nat i" by metis
    then show ?thesis using Cons.prems(6) j by simp
  qed
  show ?case
  proof (cases "m \<le> length ds \<or> IsSegmentApplied ?id target local \<or> HasSegment cache ?id")
    case True
    then show ?thesis using Cons.IH [of ds] Cons.prems by (auto simp: Let_def)
  next
    case False
    then have ext: "list_all (missing ty target height local cache) (ds @ [(ty, ?id)])" "distinct (ds @ [(ty, ?id)])"
      "length (ds @ [(ty, ?id)]) \<le> m"
      using new Cons.prems by auto
    then show ?thesis using False Cons.IH [OF ext] Cons.prems(4,5) other by (simp add: Let_def)
  qed
qed simp

lemma AppendDesiredSegments_spec:
  "list_all (missing ty target height local cache) (AppendDesiredSegments [] m ty target height local cache)"
  "distinct (AppendDesiredSegments [] m ty target height local cache)"
  "length (AppendDesiredSegments [] m ty target height local cache) \<le> m"
  using append_desired_spec [of ty target height local cache "[]" m
      "[unat (NextRequiredSegmentIndex local height)..<unat (CountSegmentsRequired target height)]"]
  by (simp_all add: AppendDesiredSegments_def)

section \<open>The requests\<close>

text \<open>What a download misses: segments of the default heights, of the range, not applied and not waiting in a cache.\<close>

fun missing_in :: "('o, 'r, 'k) Desegmenter \<Rightarrow> SegmentTypeIdentifier \<Rightarrow> bool" where
  "missing_in ds (OutputBitmap, identifier) =
     missing OutputBitmap (ds_bitmapMMRSize ds) BITMAP_SEGMENT_HEIGHT (ds_appliedBitmapMMRSize ds) (ds_bitmapSegments ds)
       (OutputBitmap, identifier)"
| "missing_in ds (Output, identifier) =
     missing Output (h_outputMMRSize (ds_archiveHeader ds)) OUTPUT_SEGMENT_HEIGHT (ds_appliedOutputMMRSize ds)
       (ds_outputSegments ds) (Output, identifier)"
| "missing_in ds (RangeProof, identifier) =
     missing RangeProof (h_outputMMRSize (ds_archiveHeader ds)) RANGEPROOF_SEGMENT_HEIGHT (ds_appliedRangeProofMMRSize ds)
       (ds_rangeProofSegments ds) (RangeProof, identifier)"
| "missing_in ds (Kernel, identifier) =
     missing Kernel (h_kernelMMRSize (ds_archiveHeader ds)) KERNEL_SEGMENT_HEIGHT (ds_appliedKernelMMRSize ds)
       (ds_kernelSegments ds) (Kernel, identifier)"

lemma missing_in_valid:
  "missing_in ds tid \<Longrightarrow> \<not> IsApplied tid ds \<and> ValidateHeight (fst tid) (si_height (snd tid))"
  by (cases "(ds, tid)" rule: missing_in.cases)
    (auto simp: missing_def BITMAP_SEGMENT_HEIGHT_def OUTPUT_SEGMENT_HEIGHT_def RANGEPROOF_SEGMENT_HEIGHT_def
      KERNEL_SEGMENT_HEIGHT_def)

lemma missing_in_typed:
  "list_all (missing OutputBitmap (ds_bitmapMMRSize ds) BITMAP_SEGMENT_HEIGHT (ds_appliedBitmapMMRSize ds)
     (ds_bitmapSegments ds)) ids \<Longrightarrow> list_all (\<lambda>tid. missing_in ds tid \<and> fst tid = OutputBitmap) ids"
  "list_all (missing Output (h_outputMMRSize (ds_archiveHeader ds)) OUTPUT_SEGMENT_HEIGHT (ds_appliedOutputMMRSize ds)
     (ds_outputSegments ds)) ids \<Longrightarrow> list_all (\<lambda>tid. missing_in ds tid \<and> fst tid = Output) ids"
  "list_all (missing RangeProof (h_outputMMRSize (ds_archiveHeader ds)) RANGEPROOF_SEGMENT_HEIGHT
     (ds_appliedRangeProofMMRSize ds) (ds_rangeProofSegments ds)) ids \<Longrightarrow>
   list_all (\<lambda>tid. missing_in ds tid \<and> fst tid = RangeProof) ids"
  "list_all (missing Kernel (h_kernelMMRSize (ds_archiveHeader ds)) KERNEL_SEGMENT_HEIGHT (ds_appliedKernelMMRSize ds)
     (ds_kernelSegments ds)) ids \<Longrightarrow> list_all (\<lambda>tid. missing_in ds tid \<and> fst tid = Kernel) ids"
  by (induction ids) (auto simp: missing_def)

text \<open>
  C23. The requests of a download are well formed: at most as many as asked for, no segment twice, and each of them
  is a segment of the range with the default height of its type that is neither applied nor cached. The bitmap is
  requested alone and first; segments of the other types only when it is complete.
\<close>

theorem NextDesiredSegments_well_formed:
  "let ids = fst (NextDesiredSegments m ds)
   in length ids \<le> m \<and> distinct ids \<and>
      list_all (\<lambda>tid. missing_in ds tid \<and> \<not> IsApplied tid ds \<and> ValidateHeight (fst tid) (si_height (snd tid)) \<and>
        (fst tid = OutputBitmap) = (\<not> ds_bitmapCacheComplete ds)) ids"
proof (cases "ds_bitmapCacheComplete ds")
  case False
  let ?ids = "AppendDesiredSegments [] m OutputBitmap (ds_bitmapMMRSize ds) BITMAP_SEGMENT_HEIGHT (ds_appliedBitmapMMRSize ds)
    (ds_bitmapSegments ds)"
  have "list_all (\<lambda>tid. missing_in ds tid \<and> fst tid = OutputBitmap) ?ids"
    by (rule missing_in_typed(1) [OF AppendDesiredSegments_spec(1)])
  then show ?thesis
    using False AppendDesiredSegments_spec(2,3) missing_in_valid [of ds]
    by (auto simp: NextDesiredSegments_def Let_def list_all_iff simp del: ValidateHeight.simps)
next
  case True
  let ?os = "AppendDesiredSegments [] m Output (h_outputMMRSize (ds_archiveHeader ds)) OUTPUT_SEGMENT_HEIGHT
    (ds_appliedOutputMMRSize ds) (ds_outputSegments ds)"
  let ?rs = "AppendDesiredSegments [] m RangeProof (h_outputMMRSize (ds_archiveHeader ds)) RANGEPROOF_SEGMENT_HEIGHT
    (ds_appliedRangeProofMMRSize ds) (ds_rangeProofSegments ds)"
  let ?ks = "AppendDesiredSegments [] m Kernel (h_kernelMMRSize (ds_archiveHeader ds)) KERNEL_SEGMENT_HEIGHT
    (ds_appliedKernelMMRSize ds) (ds_kernelSegments ds)"
  let ?t = "unat (ds_nextDesiredTypeOffset ds mod 3)"
  let ?ids = "desired_loop m ?t 0 ?os ?rs ?ks []"
  have ids: "fst (NextDesiredSegments m ds) = ?ids" using True by (simp add: NextDesiredSegments_def Let_def)
  have t: "?t < 3" by (simp add: unat_mod)
  have spec: "mset ?ids \<subseteq># mset (?os @ ?rs @ ?ks)" "length ?ids \<le> m"
    using desired_loop_spec [OF t, of "[]" m 0 ?os ?rs ?ks] by (simp_all add: ac_simps)
  have typed: "list_all (\<lambda>tid. missing_in ds tid \<and> fst tid = Output) ?os"
    "list_all (\<lambda>tid. missing_in ds tid \<and> fst tid = RangeProof) ?rs"
    "list_all (\<lambda>tid. missing_in ds tid \<and> fst tid = Kernel) ?ks"
    by (rule missing_in_typed [OF AppendDesiredSegments_spec(1)])+
  have "set ?os \<inter> set ?rs = {}" "set ?os \<inter> set ?ks = {}" "set ?rs \<inter> set ?ks = {}"
    using typed unfolding list_all_iff by (metis SegmentType.distinct disjoint_iff)+
  then have "distinct (?os @ ?rs @ ?ks)" by (simp add: AppendDesiredSegments_spec(2) Int_Un_distrib)
  then have dist: "distinct ?ids" by (rule distinct_mset_mono [OF spec(1)])
  have "set ?ids \<subseteq> set (?os @ ?rs @ ?ks)" using mset_subset_eqD [OF spec(1)] by auto
  moreover have "\<forall>tid \<in> set (?os @ ?rs @ ?ks). missing_in ds tid \<and> fst tid \<noteq> OutputBitmap"
    using typed unfolding list_all_iff set_append by (metis SegmentType.distinct UnE)
  ultimately have "list_all (\<lambda>tid. missing_in ds tid \<and> fst tid \<noteq> OutputBitmap) ?ids" unfolding list_all_iff by blast
  then show ?thesis
    unfolding ids Let_def using True spec(2) dist missing_in_valid [of ds]
    by (auto simp: list_all_iff simp del: ValidateHeight.simps)
qed

end
