(* ===== verification/PruneableMMR.thy ===== *)
theory PruneableMMR
  imports KernelMMR Segments
begin

text \<open>
  The prunable range of \<^verbatim>\<open>src/PMMR/Common/PruneableMMR.h\<close>, with its two instances
  \<^verbatim>\<open>src/PMMR/OutputPMMR.h\<close> and \<^verbatim>\<open>src/PMMR/RangeProofPMMR.h\<close>: a hash file and a data file from which the
  compacted nodes have been removed, the leaf set of unspent outputs and the prune list. The template
  parameters are arguments: the size of a record, the encoding of an element and its reader. \<open>None\<close> around a
  result is a loop that does not end, \<open>Inr None\<close> the null pointer. Warnings are left out.
\<close>

section \<open>The code\<close>

record 'b PruneableMMR =
  pm_hashFile :: DataFile
  pm_leafSet :: BitmapFile
  pm_pruneList :: "'b PruneList"
  pm_dataFile :: DataFile
  pm_dirty :: bool

definition PMMR_GetSize :: "'b roaring \<Rightarrow> 'b PruneableMMR \<Rightarrow> u64" where
  "PMMR_GetSize R m = GetTotalShift R (pm_pruneList m) + DataFile_GetSize 32 (pm_hashFile m)"

text \<open>What has been added to the files before an exception stays there.\<close>

definition PMMR_Append ::
  "(bytes \<Rightarrow> bytes) \<Rightarrow> 'b roaring \<Rightarrow> ('a \<Rightarrow> bytes) \<Rightarrow> 'a \<Rightarrow> 'b PruneableMMR \<Rightarrow>
   (unit result \<times> 'b PruneableMMR) option" where
  "PMMR_Append Blake2b R ser object m =
     (let mmr_idx = Index_At (DataFile_GetSize 32 (pm_hashFile m) + GetTotalShift R (pm_pruneList m));
          serialized = ser object;
          m = m\<lparr>pm_dirty := True, pm_leafSet := LeafSet_Add (LeafIndex_From mmr_idx) (pm_leafSet m),
                pm_dataFile := AddData serialized (pm_dataFile m)\<rparr>
      in map_option (\<lambda>(r, h). (r, m\<lparr>pm_hashFile := h\<rparr>))
           (AddHashes Blake2b R serialized (Some (pm_pruneList m)) (pm_hashFile m)))"

definition AppendLeaf ::
  "(bytes \<Rightarrow> bytes) \<Rightarrow> 'b roaring \<Rightarrow> ('a \<Rightarrow> bytes) \<Rightarrow> 'a \<Rightarrow> 'b PruneableMMR \<Rightarrow>
   (unit result \<times> 'b PruneableMMR) option" where
  "AppendLeaf Blake2b R ser leaf m =
     (let index = Index_At (PMMR_GetSize R m);
          serialized = ser leaf;
          m = m\<lparr>pm_leafSet := LeafSet_Add (LeafIndex_From index) (pm_leafSet m),
                pm_dataFile := AddData serialized (pm_dataFile m)\<rparr>
      in map_option (\<lambda>(r, h). (r, m\<lparr>pm_hashFile := h\<rparr>))
           (AddHashes Blake2b R serialized (Some (pm_pruneList m)) (pm_hashFile m)))"

definition PMMR_Remove :: "LeafIndex \<Rightarrow> 'b PruneableMMR \<Rightarrow> unit result \<times> 'b PruneableMMR" where
  "PMMR_Remove leaf_idx m =
     (if \<not> LeafSet_Contains (pm_leafSet m) leaf_idx then (Inl TxHashSetException, m)
      else (Inr (), m\<lparr>pm_dirty := True, pm_leafSet := LeafSet_Remove leaf_idx (pm_leafSet m)\<rparr>))"

definition PMMR_Rewind ::
  "'b roaring \<Rightarrow> nat \<Rightarrow> u64 \<Rightarrow> u64 list \<Rightarrow> 'b PruneableMMR \<Rightarrow> unit result \<times> 'b PruneableMMR" where
  "PMMR_Rewind R DATA_SIZE num_leaves leavesToAdd m =
     (let m = m\<lparr>pm_dirty := True\<rparr>;
          next_leaf = LeafIndex_At num_leaves;
          prev = Index_At (m_position (m_nodeIndex next_leaf) - 1)
      in case DataFile_Rewind 32 (LeafIndex_GetPosition next_leaf - GetShift R (pm_pruneList m) prev)
                (pm_hashFile m) of
           (Inl e, h) \<Rightarrow> (Inl e, m\<lparr>pm_hashFile := h\<rparr>)
         | (Inr _, h) \<Rightarrow>
             (case DataFile_Rewind DATA_SIZE (num_leaves - GetLeafShift R (pm_pruneList m) prev)
                     (pm_dataFile m) of
                (Inl e, d) \<Rightarrow> (Inl e, m\<lparr>pm_hashFile := h, pm_dataFile := d\<rparr>)
              | (Inr _, d) \<Rightarrow>
                  (Inr (), m\<lparr>pm_hashFile := h, pm_dataFile := d,
                             pm_leafSet := LeafSet_Rewind num_leaves leavesToAdd (pm_leafSet m)\<rparr>)))"

definition RewindToEmpty :: "nat \<Rightarrow> 'b PruneableMMR \<Rightarrow> unit result \<times> 'b PruneableMMR" where
  "RewindToEmpty DATA_SIZE m =
     (case DataFile_Rewind 32 0 (pm_hashFile m) of
        (Inl e, h) \<Rightarrow> (Inl e, m\<lparr>pm_hashFile := h\<rparr>)
      | (Inr _, h) \<Rightarrow>
          (case DataFile_Rewind DATA_SIZE 0 (pm_dataFile m) of
             (Inl e, d) \<Rightarrow> (Inl e, m\<lparr>pm_hashFile := h, pm_dataFile := d\<rparr>)
           | (Inr _, d) \<Rightarrow>
               (Inr (), m\<lparr>pm_hashFile := h, pm_dataFile := d,
                          pm_leafSet := LeafSet_Rewind 0 [] (pm_leafSet m)\<rparr>)))"

definition ResetToEmpty :: "nat \<Rightarrow> 'b PruneableMMR \<Rightarrow> unit result \<times> 'b PruneableMMR" where
  "ResetToEmpty DATA_SIZE m = RewindToEmpty DATA_SIZE (m\<lparr>pm_dirty := True\<rparr>)"

definition PMMR_Root :: "(bytes \<Rightarrow> bytes) \<Rightarrow> 'b roaring \<Rightarrow> u64 \<Rightarrow> 'b PruneableMMR \<Rightarrow> bytes result" where
  "PMMR_Root Blake2b R size' m = MMR_Root Blake2b R (pm_hashFile m) size' (Some (pm_pruneList m))"

definition UBMTRoot :: "(bytes \<Rightarrow> bytes) \<Rightarrow> u64 \<Rightarrow> 'b PruneableMMR \<Rightarrow> bytes result option" where
  "UBMTRoot Blake2b size' m = LeafSet_Root Blake2b (pm_leafSet m) size'"

definition PMMR_GetHashAt :: "'b roaring \<Rightarrow> Index \<Rightarrow> 'b PruneableMMR \<Rightarrow> bytes option result" where
  "PMMR_GetHashAt R mmrIndex m =
     (if IsCompacted R (pm_pruneList m) mmrIndex then Inr None
      else rbind (GetHashAt R (pm_hashFile m) mmrIndex (Some (pm_pruneList m))) (\<lambda>hash. Inr (Some hash)))"

definition GetSegmentHashAt :: "'b roaring \<Rightarrow> Index \<Rightarrow> 'b PruneableMMR \<Rightarrow> bytes option result" where
  "GetSegmentHashAt = PMMR_GetHashAt"

definition PMMR_GetLastLeafHashes :: "'b roaring \<Rightarrow> u64 \<Rightarrow> 'b PruneableMMR \<Rightarrow> bytes list result" where
  "PMMR_GetLastLeafHashes R numHashes m =
     GetLastLeafHashes R (pm_hashFile m) (Some (pm_leafSet m)) (Some (pm_pruneList m)) numHashes"

definition IsUnpruned :: "'b roaring \<Rightarrow> LeafIndex \<Rightarrow> 'b PruneableMMR \<Rightarrow> bool" where
  "IsUnpruned R leaf_idx m =
     (LeafIndex_GetPosition leaf_idx < PMMR_GetSize R m \<and> LeafSet_Contains (pm_leafSet m) leaf_idx)"

definition PMMR_IsCompacted :: "'b roaring \<Rightarrow> Index \<Rightarrow> 'b PruneableMMR \<Rightarrow> bool" where
  "PMMR_IsCompacted R index m = IsCompacted R (pm_pruneList m) index"

definition PMMR_GetDataAt ::
  "'b roaring \<Rightarrow> nat \<Rightarrow> 'a reader \<Rightarrow> LeafIndex \<Rightarrow> 'b PruneableMMR \<Rightarrow> 'a option result" where
  "PMMR_GetDataAt R DATA_SIZE deser leaf_idx m =
     (if PMMR_GetSize R m \<le> LeafIndex_GetPosition leaf_idx \<or>
         IsCompacted R (pm_pruneList m) (m_nodeIndex leaf_idx) then Inr None
      else
        let shift = GetLeafShift R (pm_pruneList m) (Index_At (LeafIndex_GetPosition leaf_idx + 1));
            shifted_idx = m_leafIndex leaf_idx - shift
        in case rbind (GetDataAt DATA_SIZE shifted_idx (pm_dataFile m)) (\<lambda>data.
                  if length data = DATA_SIZE
                  then rbind (deser (ByteBuffer_New data V1)) (\<lambda>(x, b). Inr (Some x))
                  else Inr None) of
             Inl FileException \<Rightarrow> Inr None
           | r \<Rightarrow> r)"

definition PMMR_GetAt ::
  "'b roaring \<Rightarrow> nat \<Rightarrow> 'a reader \<Rightarrow> LeafIndex \<Rightarrow> 'b PruneableMMR \<Rightarrow> 'a option result" where
  "PMMR_GetAt R DATA_SIZE deser leaf_idx m =
     (if IsUnpruned R leaf_idx m then PMMR_GetDataAt R DATA_SIZE deser leaf_idx m else Inr None)"

text \<open>The arguments tell which of the files can be opened and mapped.\<close>

definition PMMR_Commit ::
  "'b roaring \<Rightarrow> bool \<Rightarrow> bool \<Rightarrow> bool \<Rightarrow> 'b PruneableMMR \<Rightarrow> unit result \<times> 'b PruneableMMR" where
  "PMMR_Commit R open_hash open_data mapped m =
     (if pm_dirty m then
        case DataFile_Commit open_hash (pm_hashFile m) of
          (Inl e, h) \<Rightarrow> (Inl e, m\<lparr>pm_hashFile := h\<rparr>)
        | (Inr _, h) \<Rightarrow>
            (case DataFile_Commit open_data (pm_dataFile m) of
               (Inl e, d) \<Rightarrow> (Inl e, m\<lparr>pm_hashFile := h, pm_dataFile := d\<rparr>)
             | (Inr _, d) \<Rightarrow>
                 (Inr (), \<lparr>pm_hashFile = h, pm_leafSet = BitmapFile_Commit mapped (pm_leafSet m),
                           pm_pruneList = PruneList_Flush R (pm_pruneList m), pm_dataFile = d,
                           pm_dirty = False\<rparr>))
      else (Inr (), m))"

definition PMMR_Rollback :: "'b roaring \<Rightarrow> 'b PruneableMMR \<Rightarrow> 'b PruneableMMR" where
  "PMMR_Rollback R m =
     (if pm_dirty m then
        \<lparr>pm_hashFile = DataFile_Rollback (pm_hashFile m), pm_leafSet = BitmapFile_Rollback (pm_leafSet m),
         pm_pruneList = PruneList_Rollback R (pm_pruneList m),
         pm_dataFile = DataFile_Rollback (pm_dataFile m), pm_dirty = False\<rparr>
      else m)"

definition FlushPruneList :: "'b roaring \<Rightarrow> 'b PruneableMMR \<Rightarrow> 'b PruneableMMR" where
  "FlushPruneList R m = m\<lparr>pm_pruneList := PruneList_Flush R (pm_pruneList m)\<rparr>"

subsection \<open>Setting the leaf set from a bitmap\<close>

definition update_leaf :: "BitmapAccumulator \<Rightarrow> u64 \<Rightarrow> BitmapFile \<Rightarrow> BitmapFile" where
  "update_leaf bitmapAccumulator leafIdx f =
     (let chunks = ba_chunks bitmapAccumulator;
          chunkIdx = leafIdx div LEN_BITS;
          shouldBeUnspent = (chunkIdx < of_nat (length chunks) \<and>
                             Chunk_IsSet (leafIdx mod LEN_BITS) (chunks ! unat chunkIdx));
          leafIndex = LeafIndex_At leafIdx
      in if shouldBeUnspent then LeafSet_Add leafIndex f
         else if LeafSet_Contains f leafIndex then LeafSet_Remove leafIndex f
         else f)"

definition UpdateLeafSet :: "BitmapAccumulator \<Rightarrow> u64 \<Rightarrow> 'b PruneableMMR \<Rightarrow> 'b PruneableMMR" where
  "UpdateLeafSet bitmapAccumulator numLeaves m =
     (let f = fold (\<lambda>i. update_leaf bitmapAccumulator (of_nat i)) [0..<unat numLeaves] (pm_leafSet m)
      in m\<lparr>pm_dirty := True, pm_leafSet := LeafSet_Rewind numLeaves [] f\<rparr>)"

subsection \<open>Applying a segment\<close>

text \<open>The loop of \<open>AppendPrunedSubtree\<close> completes the parents of which the new node closes the right subtree.\<close>

partial_function (option) close_parents ::
    "(bytes \<Rightarrow> bytes) \<Rightarrow> 'b roaring \<Rightarrow> 'b PruneList \<Rightarrow> Index \<Rightarrow> u64 \<Rightarrow> bytes \<Rightarrow> DataFile \<Rightarrow>
     (unit result \<times> DataFile) option" where
  "close_parents Blake2b R p parent currentPosition currentHash hashFile =
     (if IsLeaf parent \<or> m_position (GetRightChild parent) \<noteq> currentPosition then Some (Inr (), hashFile)
      else
        case GetHashAt R hashFile (GetLeftChild parent) (Some p) of
          Inl e \<Rightarrow> Some (Inl e, hashFile)
        | Inr leftHash \<Rightarrow>
            let currentHash = HashParentWithIndex Blake2b leftHash currentHash (m_position parent)
            in close_parents Blake2b R p (GetNext parent) (m_position parent) currentHash
                 (AddData currentHash hashFile))"

definition AppendPrunedSubtree ::
  "(bytes \<Rightarrow> bytes) \<Rightarrow> 'b roaring \<Rightarrow> bytes \<Rightarrow> u64 \<Rightarrow> 'b PruneableMMR \<Rightarrow>
   (unit result \<times> 'b PruneableMMR) option" where
  "AppendPrunedSubtree Blake2b R hash position m =
     (let p = AddPrunedRoot R (Index_At position) (pm_pruneList m)
      in map_option (\<lambda>(r, h). (r, m\<lparr>pm_hashFile := h, pm_pruneList := p\<rparr>))
           (close_parents Blake2b R p (Index_At (position + 1)) position hash (AddData hash (pm_hashFile m))))"

record SegmentNode =
  sn_index :: nat
  sn_position :: u64
  sn_isHash :: bool

definition GetSubtreeFirstPosition :: "Index \<Rightarrow> u64" where
  "GetSubtreeFirstPosition index = m_position index + 1 - (push_bit (unat (m_height index + 1)) 1 - 1)"

text \<open>
  The nodes in increasing position, a hash before a leaf at the same position. The positions of a decoded
  segment are strictly increasing, so no two nodes compare equal and every sorting algorithm gives this order.
\<close>

definition ordered_nodes :: "'a Segment \<Rightarrow> SegmentNode list" where
  "ordered_nodes sg =
     sort_key (\<lambda>n. 2 * unat (sn_position n) + (if sn_isHash n then 0 else 1))
       (map (\<lambda>i. \<lparr>sn_index = i, sn_position = sg_hash_pos sg ! i, sn_isHash = True\<rparr>) [0..<length (sg_hash_pos sg)] @
        map (\<lambda>i. \<lparr>sn_index = i, sn_position = sg_leaf_pos sg ! i, sn_isHash = False\<rparr>) [0..<length (sg_leaf_pos sg)])"

text \<open>What happens after a node: the loop goes on, or \<open>ApplySegment\<close> returns false.\<close>

definition continue_after :: "(unit result \<times> 's) option \<Rightarrow> (bool result \<times> 's) option" where
  "continue_after = map_option (\<lambda>(r, m). (rbind r (\<lambda>_. Inr True), m))"

definition apply_pruned_root ::
  "(bytes \<Rightarrow> bytes) \<Rightarrow> 'b roaring \<Rightarrow> nat \<Rightarrow> 'a Segment \<Rightarrow> SegmentNode \<Rightarrow> 'b PruneableMMR \<Rightarrow>
   (bool result \<times> 'b PruneableMMR) option" where
  "apply_pruned_root Blake2b R DATA_SIZE sg nd m =
     (let localSize = PMMR_GetSize R m;
          subtreeStart = GetSubtreeFirstPosition (Index_At (sn_position nd));
          append = (\<lambda>m. continue_after (AppendPrunedSubtree Blake2b R (sg_hashes sg ! sn_index nd) (sn_position nd) m))
      in if subtreeStart < localSize then
           if subtreeStart = 0 \<and> localSize = 1 then
             (case RewindToEmpty DATA_SIZE m of
                (Inl e, m) \<Rightarrow> Some (Inl e, m)
              | (Inr _, m) \<Rightarrow> append m)
           else Some (Inr False, m)
         else if subtreeStart \<noteq> localSize then Some (Inr False, m)
         else append m)"

definition apply_leaf ::
  "(bytes \<Rightarrow> bytes) \<Rightarrow> 'b roaring \<Rightarrow> ('a \<Rightarrow> bytes) \<Rightarrow> 'a Segment \<Rightarrow> SegmentNode \<Rightarrow> 'b PruneableMMR \<Rightarrow>
   (bool result \<times> 'b PruneableMMR) option" where
  "apply_leaf Blake2b R ser sg nd m =
     (if sn_position nd = PMMR_GetSize R m
      then continue_after (AppendLeaf Blake2b R ser (sg_leaves sg ! sn_index nd) m)
      else Some (Inr False, m))"

definition apply_node ::
  "(bytes \<Rightarrow> bytes) \<Rightarrow> 'b roaring \<Rightarrow> nat \<Rightarrow> ('a \<Rightarrow> bytes) \<Rightarrow> 'a Segment \<Rightarrow> u64 \<Rightarrow> BitmapAccumulator option \<Rightarrow>
   SegmentNode \<Rightarrow> 'b PruneableMMR \<Rightarrow> (bool result \<times> 'b PruneableMMR) option" where
  "apply_node Blake2b R DATA_SIZE ser sg targetMMRSize pBitmap nd m =
     (let index = Index_At (sn_position nd)
      in if sn_position nd < PMMR_GetSize R m then Some (Inr True, m)
         else
           case pBitmap of
             Some bitmap \<Rightarrow>
               if sn_isHash nd then
                 case IsRequiredByBitmap bitmap index targetMMRSize of
                   None \<Rightarrow> None
                 | Some True \<Rightarrow> Some (Inr True, m)
                 | Some False \<Rightarrow> apply_pruned_root Blake2b R DATA_SIZE sg nd m
               else if \<not> IsLeafRequiredByBitmap bitmap index targetMMRSize then Some (Inr True, m)
               else apply_leaf Blake2b R ser sg nd m
           | None \<Rightarrow>
               if sn_isHash nd
               then continue_after (AppendPrunedSubtree Blake2b R (sg_hashes sg ! sn_index nd) (sn_position nd) m)
               else apply_leaf Blake2b R ser sg nd m)"

fun apply_nodes ::
  "(bytes \<Rightarrow> bytes) \<Rightarrow> 'b roaring \<Rightarrow> nat \<Rightarrow> ('a \<Rightarrow> bytes) \<Rightarrow> 'a Segment \<Rightarrow> u64 \<Rightarrow> BitmapAccumulator option \<Rightarrow>
   SegmentNode list \<Rightarrow> 'b PruneableMMR \<Rightarrow> (bool result \<times> 'b PruneableMMR) option" where
  "apply_nodes Blake2b R DATA_SIZE ser sg targetMMRSize pBitmap [] m = Some (Inr True, m)"
| "apply_nodes Blake2b R DATA_SIZE ser sg targetMMRSize pBitmap (nd # nds) m =
     (case apply_node Blake2b R DATA_SIZE ser sg targetMMRSize pBitmap nd m of
        Some (Inr True, m) \<Rightarrow> apply_nodes Blake2b R DATA_SIZE ser sg targetMMRSize pBitmap nds m
      | r \<Rightarrow> r)"

definition PMMR_ApplySegment ::
  "(bytes \<Rightarrow> bytes) \<Rightarrow> 'b roaring \<Rightarrow> nat \<Rightarrow> ('a \<Rightarrow> bytes) \<Rightarrow> 'a Segment \<Rightarrow> u64 \<Rightarrow> BitmapAccumulator option \<Rightarrow>
   'b PruneableMMR \<Rightarrow> (bool result \<times> 'b PruneableMMR) option" where
  "PMMR_ApplySegment Blake2b R DATA_SIZE ser sg targetMMRSize pBitmap m =
     (if length (sg_leaf_pos sg) \<noteq> length (sg_leaves sg) then Some (Inr False, m)
      else if length (sg_hash_pos sg) \<noteq> length (sg_hashes sg) then Some (Inr False, m)
      else apply_nodes Blake2b R DATA_SIZE ser sg targetMMRSize pBitmap (ordered_nodes sg) (m\<lparr>pm_dirty := True\<rparr>))"

subsection \<open>Loading\<close>

text \<open>
  \<open>ConvertToLeaves\<close> rewrites a bitmap of the first version, whose bits are positions in the range, into a
  bitmap of leaves. The marker file \<open>version1\<close> says that this has been done.
\<close>

definition convert_leaf :: "bytes \<Rightarrow> nat \<Rightarrow> bytes \<Rightarrow> bytes" where
  "convert_leaf data k converted =
     (let leaf_idx = LeafIndex_At (of_nat k);
          pos = LeafIndex_GetPosition leaf_idx;
          i = unat (m_leafIndex leaf_idx div 8)
      in if data ! unat (pos div 8) AND BitToByte (ucast (pos mod 8)) \<noteq> 0
         then converted[i := converted ! i OR BitToByte (ucast (m_leafIndex leaf_idx mod 8))]
         else converted)"

definition ConvertToLeaves :: "bytes \<Rightarrow> bytes" where
  "ConvertToLeaves data =
     (let numLeaves = GetLeafIndex (Index_At (of_nat (length data) * 8))
      in fold (convert_leaf data) [0..<unat numLeaves] (replicate (unat (numLeaves div 8 + 1)) 0))"

text \<open>
  The bitmap file and whether the marker exists, before and after. A file that cannot be created, read or
  mapped is an exception in the code; here the files can be.
\<close>

definition BitmapFile_Load :: "bytes option \<Rightarrow> bool \<Rightarrow> BitmapFile \<times> bool" where
  "BitmapFile_Load file version1 =
     (case file of
        None \<Rightarrow> (BitmapFile_New [], True)
      | Some data \<Rightarrow>
          if data = [] then (BitmapFile_New [], True)
          else (BitmapFile_New (if version1 then data else ConvertToLeaves data), True))"

definition load_leaf_set ::
  "'b roaring \<Rightarrow> bool \<Rightarrow> bytes option \<Rightarrow> bytes option \<Rightarrow> BitmapFile result" where
  "load_leaf_set R version1 leafset leaf =
     (case (leafset, leaf) of
        (None, Some outputBytes) \<Rightarrow>
          rbind (rb_readSafe R outputBytes) (\<lambda>outputBitmap.
            let (f, version1) = BitmapFile_Load None version1;
                f = BitmapFile_Commit True (Set_Roaring R outputBitmap f)
            in Inr (fst (BitmapFile_Load (Some (bf_mmap f)) version1)))
      | _ \<Rightarrow> Inr (fst (BitmapFile_Load leafset version1)))"

definition rebuild_genesis ::
  "(bytes \<Rightarrow> bytes) \<Rightarrow> 'b roaring \<Rightarrow> nat \<Rightarrow> ('a \<Rightarrow> bytes) \<Rightarrow> 'a \<Rightarrow> 'b PruneableMMR \<Rightarrow>
   'b PruneableMMR result option" where
  "rebuild_genesis Blake2b R DATA_SIZE ser genesis m =
     (case ResetToEmpty DATA_SIZE m of
        (Inl e, m) \<Rightarrow> Some (Inl e)
      | (Inr _, m) \<Rightarrow> map_option (\<lambda>(r, m). rbind r (\<lambda>_. Inr m)) (PMMR_Append Blake2b R ser genesis m))"

definition check_genesis ::
  "(bytes \<Rightarrow> bytes) \<Rightarrow> 'b roaring \<Rightarrow> nat \<Rightarrow> ('a \<Rightarrow> bytes) \<Rightarrow> 'a reader \<Rightarrow> 'a \<Rightarrow> bytes \<Rightarrow> bool \<Rightarrow>
   'b PruneableMMR \<Rightarrow> 'b PruneableMMR result option" where
  "check_genesis Blake2b R DATA_SIZE ser deser genesis genesisRoot includeGenesis m =
     (if includeGenesis \<and> DataFile_GetSize 32 (pm_hashFile m) = 0 then
        map_option (\<lambda>(r, m). rbind r (\<lambda>_. Inr m)) (PMMR_Append Blake2b R ser genesis m)
      else if includeGenesis \<and> 1 \<le> PMMR_GetSize R m then
        case rbind (PMMR_GetAt R DATA_SIZE deser (LeafIndex_At 0) m) (\<lambda>pGenesis.
               case pGenesis of
                 None \<Rightarrow> Inr True
               | Some _ \<Rightarrow> rbind (PMMR_Root Blake2b R 1 m) (\<lambda>root. Inr (\<not> BigInteger_equal root genesisRoot))) of
          Inl e \<Rightarrow> Some (Inl e)
        | Inr inconsistent \<Rightarrow>
            if inconsistent \<and> PMMR_GetSize R m = 1
            then rebuild_genesis Blake2b R DATA_SIZE ser genesis m
            else Some (Inr m)
      else Some (Inr m))"

definition PMMR_Load ::
  "(bytes \<Rightarrow> bytes) \<Rightarrow> 'b roaring \<Rightarrow> nat \<Rightarrow> ('a \<Rightarrow> bytes) \<Rightarrow> 'a reader \<Rightarrow> 'a \<Rightarrow> bytes \<Rightarrow> bool \<Rightarrow>
   bytes \<Rightarrow> bool \<Rightarrow> bytes option \<Rightarrow> bytes option \<Rightarrow> bytes option \<Rightarrow> bytes \<Rightarrow> 'b PruneableMMR result option" where
  "PMMR_Load Blake2b R DATA_SIZE ser deser genesis genesisRoot includeGenesis hashes version1 leafset leaf prun data =
     (case rbind (load_leaf_set R version1 leafset leaf) (\<lambda>f.
             rbind (PruneList_Load R prun) (\<lambda>p.
               Inr \<lparr>pm_hashFile = DataFile_Load hashes, pm_leafSet = f, pm_pruneList = p,
                    pm_dataFile = DataFile_Load data, pm_dirty = False\<rparr>)) of
        Inl e \<Rightarrow> Some (Inl e)
      | Inr m \<Rightarrow> check_genesis Blake2b R DATA_SIZE ser deser genesis genesisRoot includeGenesis m)"

definition OUTPUT_SIZE :: nat where "OUTPUT_SIZE = 34"
definition RANGE_PROOF_SIZE :: nat where "RANGE_PROOF_SIZE = 683"

definition OutputPMMR_Load ::
  "(bytes \<Rightarrow> bytes) \<Rightarrow> 'b roaring \<Rightarrow> TransactionOutput \<Rightarrow> bytes \<Rightarrow> bool \<Rightarrow>
   bytes \<Rightarrow> bool \<Rightarrow> bytes option \<Rightarrow> bytes option \<Rightarrow> bytes option \<Rightarrow> bytes \<Rightarrow> 'b PruneableMMR result option" where
  "OutputPMMR_Load Blake2b R genesisOutput =
     PMMR_Load Blake2b R OUTPUT_SIZE OutputIdentifier_Serialize OutputIdentifier_Deserialize
       (OutputIdentifier_FromOutput genesisOutput)"

definition RangeProofPMMR_Load ::
  "(bytes \<Rightarrow> bytes) \<Rightarrow> 'b roaring \<Rightarrow> TransactionOutput \<Rightarrow> bytes \<Rightarrow> bool \<Rightarrow>
   bytes \<Rightarrow> bool \<Rightarrow> bytes option \<Rightarrow> bytes option \<Rightarrow> bytes option \<Rightarrow> bytes \<Rightarrow> 'b PruneableMMR result option" where
  "RangeProofPMMR_Load Blake2b R genesisOutput =
     PMMR_Load Blake2b R RANGE_PROOF_SIZE RangeProof_Serialize RangeProof_Deserialize (o_rangeProof genesisOutput)"

end
