(* ===== verification/Compaction.thy ===== *)
theory Compaction
  imports SegmentCorrect
begin

text \<open>
  What compaction leaves in the files of a prunable range. The nodes of a subtree are given by their leaf numbers
  and heights; a compacted node has its parent in the same pruned subtree, so the nodes that the code still needs
  (the children of a new parent, the peaks) are never compacted. The hash file holds the hashes of the other nodes
  in their order, and position minus shift is the place in the file.
\<close>

section \<open>Subtrees by leaf number and height\<close>

lemma subtree_first:
  assumes "is_node m k"
  shows "mmr_pos (Suc m - 2 ^ k) 0 + 2 ^ Suc k = mmr_pos m k + 2"
proof -
  obtain q where q: "Suc m = 2 ^ k * q" using assms by (auto simp: is_node_def elim: dvdE)
  then obtain r where r: "q = Suc r" by (cases q) simp_all
  have m: "m = 2 ^ k * r + (2 ^ k - 1)"
  proof -
    have "Suc m = 2 ^ k * r + 2 ^ k" by (simp add: q r)
    moreover have "1 \<le> (2::nat) ^ k" by simp
    ultimately show ?thesis by linarith
  qed
  have "Suc m - 2 ^ k = 2 ^ k * r" by (simp add: q r)
  moreover have "mmr_pos m k = mmr_pos (2 ^ k * r) 0 + mmr_pos (2 ^ k - 1) k"
    unfolding m by (rule mmr_pos_split [where k = k]) simp_all
  ultimately show ?thesis
    using Suc_le_two_power [of "Suc k"] mmr_pos_all_ones [of k k] by simp
qed

lemma subtree_of_interval:
  assumes "is_node m k"
  shows "subtree_of (mmr_pos m k) = {mmr_pos (Suc m - 2 ^ k) 0 .. mmr_pos m k}"
proof -
  have "mmr_pos m k + 2 - 2 ^ Suc k = mmr_pos (Suc m - 2 ^ k) 0"
    using subtree_first [OF assms] by linarith
  then show ?thesis by (simp only: subtree_of_def node_coordinates [OF assms])
qed

lemma is_node_lower: "is_node m k \<Longrightarrow> h \<le> k \<Longrightarrow> is_node m h"
  unfolding is_node_def by (rule dvd_trans [OF le_imp_power_dvd])

lemma lower_node:
  assumes "is_node m k" "is_node n h" "n < m" "Suc m \<le> n + 2 ^ k"
  shows "h < k"
proof (rule ccontr)
  assume "\<not> h < k"
  then have "(2::nat) ^ k dvd 2 ^ h" by (intro le_imp_power_dvd) simp
  then have "2 ^ k dvd Suc n" using assms(2) by (auto simp: is_node_def intro: dvd_trans)
  moreover have "2 ^ k dvd Suc m" using assms(1) by (simp add: is_node_def)
  ultimately have "2 ^ k dvd Suc m - Suc n" by (intro dvd_diff_nat)
  then have "2 ^ k \<le> Suc m - Suc n" using assms(3) by (intro dvd_imp_le) simp_all
  then show False using assms(3,4) by linarith
qed

lemma subtree_of_node:
  assumes m: "is_node m k" and n: "is_node n h"
  shows "mmr_pos n h \<in> subtree_of (mmr_pos m k) \<longleftrightarrow> Suc m \<le> n + 2 ^ k \<and> n \<le> m \<and> h \<le> k"
proof -
  have lower: "mmr_pos (Suc m - 2 ^ k) 0 \<le> mmr_pos n h \<longleftrightarrow> Suc m \<le> n + 2 ^ k"
    using node_pos_less_iff [OF n, of "Suc m - 2 ^ k"] by (auto simp: not_less [symmetric])
  have upper: "mmr_pos n h \<le> mmr_pos m k \<longleftrightarrow> n \<le> m \<and> h \<le> k" if le: "Suc m \<le> n + 2 ^ k"
  proof (cases n m rule: linorder_cases)
    case less
    then show ?thesis using node_pos_mono [OF n less, of k] lower_node [OF m n less le] by simp
  next
    case equal
    then show ?thesis by (simp add: mmr_pos_def)
  next
    case greater
    then show ?thesis using node_pos_mono [OF m greater, of h] by simp
  qed
  show ?thesis unfolding subtree_of_interval [OF m] using lower upper by auto
qed

text \<open>A node strictly inside a subtree has its parent in the subtree.\<close>

lemma parent_in_subtree:
  assumes m: "is_node m k" and n: "is_node n h" and inside: "mmr_pos n h \<in> compacted_below (mmr_pos m k)"
  shows "pos_of (parent_of (n, h)) \<in> subtree_of (mmr_pos m k)"
proof -
  have s: "Suc m \<le> n + 2 ^ k" "n \<le> m" "h \<le> k" and ne: "mmr_pos n h \<noteq> mmr_pos m k"
    using inside subtree_of_node [OF m n] by (auto simp: compacted_below_def)
  have hk: "h < k"
    using s ne lower_node [OF m n] by (cases "n = m") (auto simp: le_less)
  obtain pn ph where p: "parent_of (n, h) = (pn, ph)" by force
  have node: "is_node pn ph" using is_node_parent [OF n] by (simp add: p)
  have "ph = Suc h" "n \<le> pn" using p by (auto simp: parent_of_def split: if_splits)
  moreover have "pn \<le> m"
  proof (cases "is_right n h")
    case True
    then show ?thesis using p s by (simp add: parent_of_def)
  next
    case False
    have "2 ^ h dvd Suc m" using is_node_lower [OF m, of h] hk by (simp add: is_node_def)
    moreover have "2 ^ h dvd Suc n" using n by (simp add: is_node_def)
    ultimately have "2 ^ h dvd Suc m - Suc n" by (rule dvd_diff_nat)
    moreover have "n \<noteq> m"
    proof
      assume "n = m"
      then have "is_node n (Suc h)" using is_node_lower [OF m, of "Suc h"] hk by simp
      then show False using False by (simp add: is_right_def)
    qed
    ultimately have "2 ^ h \<le> Suc m - Suc n" using s(2) by (intro dvd_imp_le) simp_all
    then show ?thesis using False p s(2) by (simp add: parent_of_def) linarith
  qed
  ultimately show ?thesis using subtree_of_node [OF m node] s hk by (simp add: p)
qed

section \<open>The positions that are kept\<close>

definition kept :: "(nat \<Rightarrow> bool) \<Rightarrow> nat \<Rightarrow> nat list" where
  "kept P n = filter (\<lambda>q. \<not> P q) [0..<n]"

lemma kept_0 [simp]: "kept P 0 = []"
  by (simp add: kept_def)

lemma kept_Suc: "kept P (Suc n) = kept P n @ (if P n then [] else [n])"
  by (simp add: kept_def)

lemma length_kept: "length (kept P n) + card {q. q < n \<and> P q} = n"
proof (induction n)
  case (Suc n)
  have "{q. q < Suc n \<and> P q} = (if P n then insert n {q. q < n \<and> P q} else {q. q < n \<and> P q})"
    by (auto simp: less_Suc_eq)
  then show ?case using Suc by (simp add: kept_Suc)
qed simp

lemma kept_append: "m \<le> n \<Longrightarrow> kept P n = kept P m @ filter (\<lambda>q. \<not> P q) [m..<n]"
  unfolding kept_def using upt_split [of 0 m n] by simp

lemma kept_take: "m \<le> n \<Longrightarrow> take (length (kept P m)) (kept P n) = kept P m"
  by (simp add: kept_append [of m n])

lemma kept_nth:
  assumes "q < n" "\<not> P q"
  shows "length (kept P q) < length (kept P n)" "kept P n ! length (kept P q) = q"
proof -
  have "kept P n = (kept P q @ [q]) @ filter (\<lambda>q. \<not> P q) [Suc q..<n]"
    using kept_append [of "Suc q" n P] assms by (simp add: kept_Suc)
  then show "length (kept P q) < length (kept P n)" "kept P n ! length (kept P q) = q"
    by (simp_all add: nth_append)
qed

lemma length_kept_le: "length (kept P n) \<le> n"
  using length_kept [of P n] by simp

section \<open>Shifts\<close>

abbreviation roots_of :: "'b roaring \<Rightarrow> 'b PruneList \<Rightarrow> u32 list" where
  "roots_of R p \<equiv> rb_elements R (pl_prunedRoots p)"

definition prune_ok :: "'b roaring \<Rightarrow> 'b PruneList \<Rightarrow> bool" where
  "prune_ok R p \<longleftrightarrow> roaring_laws R \<and> caches_ok R p \<and> roots_disjoint (roots_of R p)"

definition roots_under :: "u32 list \<Rightarrow> nat \<Rightarrow> bool" where
  "roots_under es n \<longleftrightarrow> (\<forall>w \<in> set es. root_pos w < n)"

lemma roots_nonzero: "prune_ok R p \<Longrightarrow> w \<in> set (roots_of R p) \<Longrightarrow> w \<noteq> 0"
  by (auto simp: prune_ok_def roots_disjoint_def)

lemma compacted_iff:
  "prune_ok R p \<Longrightarrow> q < 2 ^ 32 - 1 \<Longrightarrow> IsCompacted R p (Index_At (of_nat q)) \<longleftrightarrow> compacted (roots_of R p) q"
  using IsCompacted_iff [of R p q] by (simp add: prune_ok_def compacted_def)

lemma compacted_under: "roots_under es n \<Longrightarrow> compacted es q \<Longrightarrow> Suc q < n"
  by (force simp: roots_under_def compacted_def compacted_below_eq)

lemma shifted_position:
  assumes ok: "prune_ok R p" and q: "q < 2 ^ 32 - 1" and nc: "\<not> compacted (roots_of R p) q"
  shows "of_nat q - GetShift R p (Index_At (of_nat q)) = of_nat (length (kept (compacted (roots_of R p)) q))"
proof -
  have set: "{r. compacted (filter (\<lambda>w. w \<le> wire (of_nat q)) (roots_of R p)) r} =
      {r. r < q \<and> compacted (roots_of R p) r}"
    using compacted_before [OF q nc] roots_nonzero [OF ok] by blast
  have "GetShift R p (Index_At (of_nat q)) = of_nat (card {r. r < q \<and> compacted (roots_of R p) r})"
    using ok GetShift_card [of R p "Index_At (of_nat q)"]
    unfolding prune_ok_def by (simp add: Index_At_def set)
  moreover have "(of_nat q :: u64) = of_nat (length (kept (compacted (roots_of R p)) q)) +
      of_nat (card {r. r < q \<and> compacted (roots_of R p) r})"
    unfolding of_nat_add [symmetric] length_kept ..
  ultimately show ?thesis by simp
qed

lemma roots_le_maximum:
  assumes R: "roaring_laws R" and w: "w \<in> set (rb_elements R b)"
  shows "w \<le> rb_maximum R b"
proof -
  have "sorted (rb_elements R b)" using roaring_elements(2) [OF R, of b] by (simp add: strict_sorted_iff)
  then show ?thesis
    using w roaring_elements(7) [OF R, of b]
    by (auto simp: sorted_iff_nth_mono last_conv_nth in_set_conv_nth)
qed

text \<open>When every root is below \<open>n\<close>, the shifts of the last position and the total shift count all compacted nodes.\<close>

lemma all_roots_before:
  assumes ok: "prune_ok R p" and under: "roots_under (roots_of R p) n" and n: "n \<le> 2 ^ 32 - 2"
  shows "filter (\<lambda>w. w \<le> wire (of_nat n - 1)) (roots_of R p) = roots_of R p"
    and "filter (\<lambda>w. w \<le> wire (of_nat n)) (roots_of R p) = roots_of R p"
    and "filter (\<lambda>w. w \<le> wire (ucast (rb_maximum R (pl_prunedRoots p)))) (roots_of R p) = roots_of R p"
proof -
  have R: "roaring_laws R" using ok by (simp add: prune_ok_def)
  have lt: "root_pos w < n" "w \<noteq> 0" if "w \<in> set (roots_of R p)" for w
    using that under roots_nonzero [OF ok] by (auto simp: roots_under_def)
  have "w \<le> wire (of_nat n - 1)" if "w \<in> set (roots_of R p)" for w
  proof -
    have "of_nat n - 1 = (of_nat (n - 1) :: u64)" using lt [OF that] by (simp add: of_nat_diff)
    then show ?thesis using wire_le_iff [of w "n - 1"] lt [OF that] n by simp
  qed
  then show "filter (\<lambda>w. w \<le> wire (of_nat n - 1)) (roots_of R p) = roots_of R p" by (simp add: filter_id_conv)
  have "w \<le> wire (of_nat n)" if "w \<in> set (roots_of R p)" for w
    using wire_le_iff [of w n] lt [OF that] n by simp
  then show "filter (\<lambda>w. w \<le> wire (of_nat n)) (roots_of R p) = roots_of R p" by (simp add: filter_id_conv)
  have "w \<le> wire (ucast (rb_maximum R (pl_prunedRoots p)))" if w: "w \<in> set (roots_of R p)" for w
  proof -
    let ?max = "rb_maximum R (pl_prunedRoots p)"
    have mem: "?max \<in> set (roots_of R p)" using w roaring_elements(7) [OF R] by (auto intro: last_in_set)
    then have "unat ?max \<le> n" using lt [OF mem] root_index_nat(3) [of ?max] by simp
    then have "unat (wire (ucast ?max) :: u32) = Suc (unat ?max)"
      using n unat_wire [of "ucast ?max"] by (simp add: unat_ucast_u32)
    then show ?thesis using roots_le_maximum [OF R w] by (simp add: word_le_nat_alt)
  qed
  then show "filter (\<lambda>w. w \<le> wire (ucast (rb_maximum R (pl_prunedRoots p)))) (roots_of R p) = roots_of R p"
    by (simp add: filter_id_conv)
qed

lemma all_compacted: "roots_under es n \<Longrightarrow> {q. compacted es q} = {q. q < n \<and> compacted es q}"
  using compacted_under [of es n] by (auto dest: Suc_lessD)

lemma total_shift:
  assumes ok: "prune_ok R p" and under: "roots_under (roots_of R p) n" and n: "n \<le> 2 ^ 32 - 2"
  shows "of_nat (length (kept (compacted (roots_of R p)) n)) + GetTotalShift R p = of_nat n"
    and "of_nat n - GetShift R p (Index_At (of_nat n - 1)) = of_nat (length (kept (compacted (roots_of R p)) n))"
proof -
  let ?k = "length (kept (compacted (roots_of R p)) n)" and ?c = "card {q. q < n \<and> compacted (roots_of R p) q}"
  have sum: "(of_nat n :: u64) = of_nat ?k + of_nat ?c" unfolding of_nat_add [symmetric] length_kept ..
  have shift: "GetShift R p i = of_nat (card {q. compacted (filter (\<lambda>w. w \<le> wire (m_position i)) (roots_of R p)) q})" for i
    using ok GetShift_card unfolding prune_ok_def by blast
  have "GetTotalShift R p = of_nat ?c"
    unfolding GetTotalShift_def shift using all_roots_before(3) [OF ok under n] all_compacted [OF under]
    by (simp add: Index_At_def)
  then show "of_nat ?k + GetTotalShift R p = of_nat n" by (simp add: sum)
  have "GetShift R p (Index_At (of_nat n - 1)) = of_nat ?c"
    unfolding shift using all_roots_before(1) [OF ok under n] all_compacted [OF under] by (simp add: Index_At_def)
  then show "of_nat n - GetShift R p (Index_At (of_nat n - 1)) = of_nat ?k" by (simp add: sum)
qed

text \<open>The leaf shift of a root counts the leaves compacted below it.\<close>

lemma leaves_below_root:
  "card ((\<lambda>i. mmr_pos i 0) -` compacted_below q) = (if height_at q = 0 then 0 else 2 ^ height_at q)"
    (is "card ?S = _")
  and finite_leaves_below: "finite ((\<lambda>i. mmr_pos i 0) -` compacted_below q)"
proof -
  let ?m = "leaf_at q" and ?k = "height_at q"
  have m: "is_node ?m ?k" and q: "mmr_pos ?m ?k = q" by (rule coordinates_node)+
  have "2 ^ ?k \<le> Suc ?m" using m unfolding is_node_def by (rule dvd_imp_le) simp
  have iff: "mmr_pos i 0 \<in> compacted_below q \<longleftrightarrow> ?k \<noteq> 0 \<and> Suc ?m \<le> i + 2 ^ ?k \<and> i \<le> ?m" for i
  proof -
    have "mmr_pos i 0 = q \<longleftrightarrow> ?k = 0 \<and> i = ?m"
      using mmr_pos_inj [OF is_node_leaf m, of i] q by auto
    moreover have "mmr_pos i 0 \<in> subtree_of q \<longleftrightarrow> Suc ?m \<le> i + 2 ^ ?k \<and> i \<le> ?m"
      using subtree_of_node [OF m is_node_leaf, of i] by (simp add: q)
    ultimately show ?thesis by (cases "?k = 0") (auto simp: compacted_below_def)
  qed
  have "?S = (if ?k = 0 then {} else {Suc ?m - 2 ^ ?k .. ?m})" by (auto simp: iff)
  moreover have "card {Suc ?m - 2 ^ ?k .. ?m} = 2 ^ ?k" using \<open>2 ^ ?k \<le> Suc ?m\<close> by simp
  ultimately show "card ?S = (if ?k = 0 then 0 else 2 ^ ?k)" "finite ?S" by auto
qed

lemma leaf_shift_of_root:
  assumes "w \<noteq> 0"
  shows "leaf_shift_of w = of_nat (card ((\<lambda>i. mmr_pos i 0) -` compacted_below (root_pos w)))"
proof -
  have "root_pos w < 2 ^ 64" using root_index_nat(2) [OF assms] by simp
  then have h: "unat (m_height (root_index w)) = height_at (root_pos w)"
    unfolding root_index_nat(1) [OF assms] by (rule m_height_Index_At)
  then have "m_height (root_index w) = 0 \<longleftrightarrow> height_at (root_pos w) = 0" by (metis unat_eq_zero)
  then show ?thesis by (simp add: root_leaf_shift_def leaves_below_root h push_bit_eq_mult)
qed

lemma GetLeafShift_card:
  assumes ok: "prune_ok R p"
  shows "GetLeafShift R p i =
    of_nat (card {j. compacted (filter (\<lambda>w. w \<le> wire (m_position i)) (roots_of R p)) (mmr_pos j 0)})"
proof -
  let ?fs = "filter (\<lambda>w. w \<le> wire (m_position i)) (roots_of R p)" and ?g = "\<lambda>j. mmr_pos j 0"
  have R: "roaring_laws R" and c: "caches_ok R p" and d: "roots_disjoint (roots_of R p)"
    using ok by (simp_all add: prune_ok_def)
  have distinct: "distinct (roots_of R p)"
    using roaring_elements(2) [OF R, of "pl_prunedRoots p"] by (simp add: strict_sorted_iff)
  have "sum_list (map leaf_shift_of ?fs) = of_nat (\<Sum>w \<leftarrow> ?fs. card (?g -` compacted_below (root_pos w)))"
    unfolding sum_list_of_nat [symmetric] map_map
    using leaf_shift_of_root roots_nonzero [OF ok] by (intro arg_cong [of _ _ sum_list] map_cong) auto
  then show ?thesis
    unfolding GetLeafShift_sum [OF R c]
    using card_compacted_roots [OF d, of ?fs ?g] distinct finite_leaves_below by simp
qed

abbreviation leaf_compacted :: "u32 list \<Rightarrow> nat \<Rightarrow> bool" where
  "leaf_compacted es i \<equiv> compacted es (mmr_pos i 0)"

text \<open>
  The code shifts a leaf by the roots up to the next position. A root right behind a leaf that is not compacted is a
  leaf itself and shifts nothing.
\<close>

lemma next_root_is_leaf:
  assumes nc: "\<not> leaf_compacted es i" and w: "w \<in> set es" "root_pos w = Suc (mmr_pos i 0)"
  shows "compacted_below (root_pos w) = {}"
proof -
  let ?m = "leaf_at (root_pos w)" and ?k = "height_at (root_pos w)"
  have "mmr_pos i 0 \<notin> compacted_below (root_pos w)" using nc w(1) by (auto simp: compacted_def)
  then have "?k = 0" using w(2) Suc_le_two_power [of ?k] by (cases ?k) (auto simp: compacted_below_eq)
  then show ?thesis by (simp add: compacted_below_eq)
qed

lemma shifted_leaf:
  assumes ok: "prune_ok R p" and i: "mmr_pos i 0 < 2 ^ 32 - 2" and nc: "\<not> leaf_compacted (roots_of R p) i"
  shows "of_nat i - GetLeafShift R p (Index_At (of_nat (mmr_pos i 0) + 1)) =
    of_nat (length (kept (leaf_compacted (roots_of R p)) i))"
proof -
  let ?es = "roots_of R p" and ?q = "mmr_pos i 0"
  have le: "w \<le> wire (of_nat ?q + 1) \<longleftrightarrow> root_pos w \<le> Suc ?q" if "w \<in> set ?es" for w
    using wire_le_iff [of w "Suc ?q"] roots_nonzero [OF ok that] i by (simp add: add.commute)
  have "compacted (filter (\<lambda>w. w \<le> wire (of_nat ?q + 1)) ?es) (mmr_pos j 0) \<longleftrightarrow>
      j < i \<and> leaf_compacted ?es j" for j
  proof
    assume "compacted (filter (\<lambda>w. w \<le> wire (of_nat ?q + 1)) ?es) (mmr_pos j 0)"
    then obtain w where w: "w \<in> set ?es" "root_pos w \<le> Suc ?q" "mmr_pos j 0 \<in> compacted_below (root_pos w)"
      using le by (auto simp: compacted_def)
    moreover have "root_pos w \<noteq> Suc ?q" using next_root_is_leaf [OF nc w(1)] w(3) by auto
    ultimately have "mmr_pos j 0 < ?q" by (auto simp: compacted_below_eq)
    then show "j < i \<and> leaf_compacted ?es j"
      using w node_pos_less_iff [OF is_node_leaf, of j i] by (auto simp: compacted_def)
  next
    assume j: "j < i \<and> leaf_compacted ?es j"
    then obtain w where w: "w \<in> set ?es" "mmr_pos j 0 \<in> compacted_below (root_pos w)"
      by (auto simp: compacted_def)
    have "mmr_pos j 0 < ?q" using j leaf_pos_mono by blast
    moreover have "?q \<notin> compacted_below (root_pos w)" using nc w(1) by (auto simp: compacted_def)
    ultimately have "root_pos w \<le> ?q" using w(2) by (auto simp: compacted_below_eq)
    then show "compacted (filter (\<lambda>w. w \<le> wire (of_nat ?q + 1)) ?es) (mmr_pos j 0)"
      using w le by (auto simp: compacted_def)
  qed
  then have "GetLeafShift R p (Index_At (of_nat ?q + 1)) = of_nat (card {j. j < i \<and> leaf_compacted ?es j})"
    using GetLeafShift_card [OF ok, of "Index_At (of_nat ?q + 1)"] by (simp add: Index_At_def)
  moreover have "(of_nat i :: u64) = of_nat (length (kept (leaf_compacted ?es) i)) +
      of_nat (card {j. j < i \<and> leaf_compacted ?es j})"
    unfolding of_nat_add [symmetric] length_kept ..
  ultimately show ?thesis by simp
qed

lemma total_leaf_shift:
  assumes ok: "prune_ok R p" and under: "roots_under (roots_of R p) (mmr_pos n 0)" and n: "mmr_pos n 0 \<le> 2 ^ 32 - 2"
  shows "of_nat n - GetLeafShift R p (Index_At (of_nat (mmr_pos n 0) - 1)) =
    of_nat (length (kept (leaf_compacted (roots_of R p)) n))"
proof -
  let ?es = "roots_of R p"
  have "{j. leaf_compacted ?es j} = {j. j < n \<and> leaf_compacted ?es j}"
    using compacted_under [OF under] node_pos_less_iff [OF is_node_leaf, of _ n] by (auto dest!: Suc_lessD)
  then have "GetLeafShift R p (Index_At (of_nat (mmr_pos n 0) - 1)) = of_nat (card {j. j < n \<and> leaf_compacted ?es j})"
    using GetLeafShift_card [OF ok, of "Index_At (of_nat (mmr_pos n 0) - 1)"] all_roots_before(1) [OF ok under n]
    by (simp add: Index_At_def)
  moreover have "(of_nat n :: u64) = of_nat (length (kept (leaf_compacted ?es) n)) +
      of_nat (card {j. j < n \<and> leaf_compacted ?es j})"
    unfolding of_nat_add [symmetric] length_kept ..
  ultimately show ?thesis by simp
qed

section \<open>The compacted hash file\<close>

text \<open>A node whose parent is behind every root is not compacted.\<close>

lemma uncompacted_node:
  assumes "is_node n h" "roots_under es f" "f \<le> pos_of (parent_of (n, h))"
  shows "\<not> compacted es (mmr_pos n h)"
proof
  assume "compacted es (mmr_pos n h)"
  then obtain w where w: "w \<in> set es" "mmr_pos n h \<in> compacted_below (root_pos w)" by (auto simp: compacted_def)
  then have "pos_of (parent_of (n, h)) \<in> subtree_of (root_pos w)"
    using parent_in_subtree [OF coordinates_node(1) assms(1), of "root_pos w"] by (simp add: coordinates_node(2))
  then have "pos_of (parent_of (n, h)) \<le> root_pos w" by (simp add: subtree_of_def)
  then show False using w(1) assms(2,3) by (auto simp: roots_under_def)
qed

definition packed_rep ::
  "(bytes \<Rightarrow> bytes) \<Rightarrow> 'b roaring \<Rightarrow> 'b PruneList \<Rightarrow> nat \<Rightarrow> DataFile \<Rightarrow> bytes list \<Rightarrow> nat \<Rightarrow> bool" where
  "packed_rep B R p f d leaves m \<longleftrightarrow>
     prune_ok R p \<and> roots_under (roots_of R p) f \<and> f \<le> m \<and> m \<le> 2 ^ 32 - 2 \<and> aligned 32 d \<and>
     records 32 (data_view d) = map (hash_at B leaves) (kept (compacted (roots_of R p)) m)"

lemma packed_fetch:
  assumes rep: "packed_rep B R p f d leaves m" and q: "q < m" and nc: "\<not> compacted (roots_of R p) q"
  shows "GetDataAt 32 (GetShiftedIndex R (Index_At (of_nat q)) (Some p)) d = Inr (hash_at B leaves q)"
    and "GetHashAt R d (Index_At (of_nat q)) (Some p) =
      GetDataAt 32 (GetShiftedIndex R (Index_At (of_nat q)) (Some p)) d"
proof -
  let ?kept = "kept (compacted (roots_of R p))"
  have ok: "prune_ok R p" and m: "m \<le> 2 ^ 32 - 2" using rep by (simp_all add: packed_rep_def)
  have small: "q < 2 ^ 32 - 1" using q m by simp
  have "GetShiftedIndex R (Index_At (of_nat q)) (Some p) = of_nat (length (?kept q))"
    using shifted_position [OF ok small nc] by (simp add: GetShiftedIndex_def Index_At_def)
  moreover note kept_nth [OF q, where P = "compacted (roots_of R p)", OF nc]
  ultimately show "GetDataAt 32 (GetShiftedIndex R (Index_At (of_nat q)) (Some p)) d = Inr (hash_at B leaves q)"
    using GetDataAt_record [of d "length (?kept q)"] rep by (simp add: packed_rep_def)
  show "GetHashAt R d (Index_At (of_nat q)) (Some p) =
      GetDataAt 32 (GetShiftedIndex R (Index_At (of_nat q)) (Some p)) d"
    using compacted_iff [OF ok small] nc by (simp add: GetHashAt_def GetShiftedIndex_def)
qed

lemma packed_size: "packed_rep B R p f d leaves m \<Longrightarrow> DataFile_GetSize 32 d + GetTotalShift R p = of_nat m"
proof -
  assume rep: "packed_rep B R p f d leaves m"
  then have "roots_under (roots_of R p) m" by (auto simp: packed_rep_def roots_under_def)
  note total_shift(1) [OF _ this]
  moreover have "DataFile_GetSize 32 d = of_nat (length (kept (compacted (roots_of R p)) m))"
  proof -
    have "unat (DataFile_GetSize 32 d) = length (kept (compacted (roots_of R p)) m)"
      using GetSize_records [of 32 d] rep by (simp add: packed_rep_def)
    then show ?thesis by (metis of_nat_unat ucast_id)
  qed
  ultimately show ?thesis using rep by (simp add: packed_rep_def)
qed

lemma packed_add:
  assumes rep: "packed_rep B R p f d leaves m" and m: "m < 2 ^ 32 - 2" and len: "length (hash_at B leaves m) = 32"
  shows "packed_rep B R p f (AddData (hash_at B leaves m) d) leaves (Suc m)"
proof -
  have under: "roots_under (roots_of R p) m" using rep by (auto simp: packed_rep_def roots_under_def)
  then have nc: "\<not> compacted (roots_of R p) m" using compacted_under [OF under, of m] by auto
  have "length (data_view d) = 32 * length (kept (compacted (roots_of R p)) m)"
  proof -
    have "length (data_view d) div 32 = length (kept (compacted (roots_of R p)) m)" "32 dvd length (data_view d)"
      using rep length_records [of 32 "data_view d"] by (simp_all add: packed_rep_def aligned_def)
    then show ?thesis by auto
  qed
  then have "length (data_view d) + 32 < 2 ^ 62"
    using length_kept_le [of "compacted (roots_of R p)" m] m by simp
  then show ?thesis
    using rep m len nc AddData_aligned [of 32 d "hash_at B leaves m"]
    by (simp add: packed_rep_def kept_Suc)
qed

interpretation packed: hash_store B R "Some p" "packed_rep B R p f" f "2 ^ 32 - 2" for B R p f
proof
  fix d leaves and m n h :: nat
  assume rep: "packed_rep B R p f d leaves m"
  show "next_position R (Some p) d = of_nat m" using packed_size [OF rep] by (simp add: next_position_def)
  show "packed_rep B R p f (AddData (hash_at B leaves m) d) leaves (Suc m)"
    if "\<forall>x. length (B x) = 32" "m < 2 ^ 32 - 2"
    using packed_add [OF rep] that by (simp add: hash_at_def length_hash)
  assume n: "is_node n h" "mmr_pos n h < m" "f \<le> pos_of (parent_of (n, h))"
  have "roots_under (roots_of R p) f" "m \<le> 2 ^ 32 - 2" using rep by (simp_all add: packed_rep_def)
  then have "\<not> compacted (roots_of R p) (mmr_pos n h)" "Index_At (of_nat (mmr_pos n h)) = node n h"
    using uncompacted_node [OF n(1)] n Index_At_node [OF n(1)] by auto
  then show "GetDataAt 32 (GetShiftedIndex R (node n h) (Some p)) d = Inr (node_hash B leaves n h)"
    "GetHashAt R d (node n h) (Some p) = GetDataAt 32 (GetShiftedIndex R (node n h) (Some p)) d"
    using packed_fetch [OF rep n(2)] by (simp_all add: hash_at_node [OF n(1)])
next
  fix d leaves leaf
  assume rep: "packed_rep B R p f d leaves (mmr_pos (length leaves) 0)"
  have "map (hash_at B leaves) (kept (compacted (roots_of R p)) (mmr_pos (length leaves) 0)) =
      map (hash_at B (leaves @ [leaf])) (kept (compacted (roots_of R p)) (mmr_pos (length leaves) 0))"
    using hash_at_append by (intro map_cong) (auto simp: kept_def)
  then show "packed_rep B R p f d (leaves @ [leaf]) (mmr_pos (length leaves) 0)"
    using rep by (simp add: packed_rep_def)
qed

end
