(* ===== verification/PruneableCorrect.thy ===== *)
theory PruneableCorrect
  imports PruneableMMR Compaction
begin

text \<open>
  A prunable range implements a list of elements with the set of those that are unspent, for a prune list that does
  not change meanwhile: adding, spending, rewinding to a point behind the pruned roots, committing and rolling
  back act on the pair as the specification says, and reading gives the unspent elements and the roots of the whole
  list although the compacted nodes are gone from the files.
\<close>

section \<open>What the files hold\<close>

definition record_codec :: "nat \<Rightarrow> ('a \<Rightarrow> bytes) \<Rightarrow> 'a reader \<Rightarrow> ('a \<Rightarrow> bool) \<Rightarrow> bool" where
  "record_codec DATA_SIZE ser deser valid \<longleftrightarrow>
     0 < DATA_SIZE \<and> DATA_SIZE < 2 ^ 20 \<and>
     (\<forall>x. valid x \<longrightarrow> length (ser x) = DATA_SIZE \<and> (\<exists>b. deser (ByteBuffer_New (ser x) V1) = Inr (x, b)))"

lemma output_records:
  "record_codec OUTPUT_SIZE OutputIdentifier_Serialize OutputIdentifier_Deserialize
     (\<lambda>oi. length (oi_commitment oi) = 33)"
proof -
  have len: "length (OutputIdentifier_Serialize oi) = 34" if "length (oi_commitment oi) = 33" for oi
    using that by (simp add: OutputIdentifier_Serialize_def AppendU8_def AppendBigInteger_def)
  then show ?thesis
    using decodes_New [OF decodes_OutputIdentifier] by (fastforce simp: record_codec_def OUTPUT_SIZE_def)
qed

lemma range_proof_records:
  "record_codec RANGE_PROOF_SIZE RangeProof_Serialize RangeProof_Deserialize (\<lambda>p. length p = MAX_PROOF_SIZE)"
proof -
  have len: "length (RangeProof_Serialize p) = 683" if "length p = MAX_PROOF_SIZE" for p
    using that by (simp add: RangeProof_Serialize_def AppendByteVector_def MAX_PROOF_SIZE_def)
  then show ?thesis
    using decodes_New [OF decodes_RangeProof] by (fastforce simp: record_codec_def RANGE_PROOF_SIZE_def)
qed

definition prune_rep :: "'b roaring \<Rightarrow> 'b PruneList \<Rightarrow> u32 list \<Rightarrow> bool" where
  "prune_rep R p es \<longleftrightarrow>
     prune_ok R p \<and> roots_of R p = es \<and> \<not> pl_dirty p \<and>
     (case pl_file p of
        None \<Rightarrow> es = []
      | Some bs \<Rightarrow> \<exists>b. rb_readSafe R bs = Inr b \<and> rb_elements R b = es)"

definition files_rep ::
  "(bytes \<Rightarrow> bytes) \<Rightarrow> nat \<Rightarrow> ('a \<Rightarrow> bytes) \<Rightarrow> u32 list \<Rightarrow> bytes \<Rightarrow> bytes \<Rightarrow> 'a list \<Rightarrow> bool" where
  "files_rep B DATA_SIZE ser es hs ds v \<longleftrightarrow>
     32 dvd length hs \<and> DATA_SIZE dvd length ds \<and> length v < 2 ^ 31 \<and>
     records 32 hs = map (hash_at B (map ser v)) (kept (compacted es) (mmr_pos (length v) 0)) \<and>
     records DATA_SIZE ds = map (\<lambda>i. ser (v ! i)) (kept (leaf_compacted es) (length v))"

definition unspent_ok :: "u32 list \<Rightarrow> 'a list \<times> nat set \<Rightarrow> bool" where
  "unspent_ok es = (\<lambda>(v, u). \<forall>i \<in> u. i < length v \<and> \<not> leaf_compacted es i)"

text \<open>
  What the range shows: the prune list has its roots \<open>es\<close> below leaf \<open>c\<close>, the files hold what compaction leaves of the
  list \<open>v\<close>, and the leaf set is \<open>u\<close>.
\<close>

definition range_view ::
  "(bytes \<Rightarrow> bytes) \<Rightarrow> 'b roaring \<Rightarrow> nat \<Rightarrow> ('a \<Rightarrow> bytes) \<Rightarrow> ('a \<Rightarrow> bool) \<Rightarrow> u32 list \<Rightarrow> nat \<Rightarrow> 'b PruneableMMR \<Rightarrow>
   'a list \<times> nat set \<Rightarrow> bool" where
  "range_view B R DATA_SIZE ser valid es c m = (\<lambda>(v, u).
     prune_ok R (pm_pruneList m) \<and> roots_of R (pm_pruneList m) = es \<and> roots_under es (mmr_pos c 0) \<and> c \<le> length v \<and>
     data_inv (pm_hashFile m) \<and> data_inv (pm_dataFile m) \<and> list_all valid v \<and>
     files_rep B DATA_SIZE ser es (data_view (pm_hashFile m)) (data_view (pm_dataFile m)) v \<and>
     {i. IsSet (pm_leafSet m) i} = of_nat ` u \<and> unspent_ok es (v, u))"

text \<open>The current and the saved pair; \<open>b\<close> bounds the bytes of the leaf set.\<close>

definition pmmr_rep ::
  "(bytes \<Rightarrow> bytes) \<Rightarrow> 'b roaring \<Rightarrow> nat \<Rightarrow> ('a \<Rightarrow> bytes) \<Rightarrow> ('a \<Rightarrow> bool) \<Rightarrow> u32 list \<Rightarrow> nat \<Rightarrow> nat \<Rightarrow> 'b PruneableMMR \<Rightarrow>
   ('a list \<times> nat set) \<times> ('a list \<times> nat set) \<Rightarrow> bool" where
  "pmmr_rep B R DATA_SIZE ser valid es c b m = (\<lambda>((v, u), (v', u')).
     range_view B R DATA_SIZE ser valid es c m (v, u) \<and>
     prune_rep R (pm_pruneList m) es \<and> c \<le> length v' \<and> list_all valid v' \<and>
     files_rep B DATA_SIZE ser es (data_saved (pm_hashFile m)) (data_saved (pm_dataFile m)) v' \<and>
     bitmap_le b (pm_leafSet m) \<and> 2 ^ 29 \<le> b \<and> bitmap_abs (pm_leafSet m) = (of_nat ` u, of_nat ` u') \<and>
     unspent_ok es (v', u') \<and>
     (\<not> pm_dirty m \<longrightarrow> data_view (pm_hashFile m) = data_saved (pm_hashFile m) \<and>
        data_view (pm_dataFile m) = data_saved (pm_dataFile m) \<and> u = u'))"

lemma leaf_pos_double: "mmr_pos n 0 \<le> 2 * n"
  by (simp add: mmr_pos_def)

lemma files_packed:
  assumes "range_view B R DATA_SIZE ser valid es c m (v, u)"
  shows "packed_rep B R (pm_pruneList m) (mmr_pos c 0) (pm_hashFile m) (map ser v) (mmr_pos (length v) 0)"
proof -
  have "mmr_pos (length v) 0 \<le> 2 ^ 32 - 2"
    using leaf_pos_double [of "length v"] assms by (simp add: range_view_def files_rep_def)
  then show ?thesis
    using assms leaf_pos_mono_le [of c "length v"]
    by (simp add: packed_rep_def range_view_def files_rep_def aligned_def)
qed

lemma data_aligned:
  assumes "record_codec DATA_SIZE ser deser valid" "range_view B R DATA_SIZE ser valid es c m (v, u)"
  shows "aligned DATA_SIZE (pm_dataFile m)"
  using assms by (simp add: record_codec_def range_view_def files_rep_def aligned_def)

lemma view_size:
  assumes "range_view B R DATA_SIZE ser valid es c m (v, u)"
  shows "PMMR_GetSize R m = of_nat (mmr_pos (length v) 0)"
  using packed_size [OF files_packed [OF assms]] by (simp add: PMMR_GetSize_def add.commute)

lemma view_root:
  assumes rep: "range_view B R DATA_SIZE ser valid es c m (v, u)" and k: "c \<le> k" "k \<le> length v"
  shows "PMMR_Root B R (of_nat (mmr_pos k 0)) m = Inr (mmr_root B (map ser (take k v)))"
proof -
  have "length v < 2 ^ 50" using rep by (simp add: range_view_def files_rep_def)
  then show ?thesis
    using packed.Root_store [of B R "pm_pruneList m" "mmr_pos c 0" "pm_hashFile m" "map ser v" k] k
      leaf_pos_mono_le [OF k(1)] files_packed [OF rep]
    by (simp add: PMMR_Root_def take_map)
qed

lemma mem_of_nat_image: "i < 2 ^ 64 \<Longrightarrow> u \<subseteq> {..<2 ^ 64} \<Longrightarrow> (of_nat i :: u64) \<in> of_nat ` u \<longleftrightarrow> i \<in> u"
  using unat_of_nat_u64 by (metis image_iff imageI lessThan_iff subset_iff)

lemma unspent_small: "unspent_ok es (v, u) \<Longrightarrow> length v < 2 ^ 31 \<Longrightarrow> u \<subseteq> {..<2 ^ 64}"
  by (fastforce simp: unspent_ok_def)

lemma contains_unspent:
  assumes "range_view B R DATA_SIZE ser valid es c m (v, u)" "i < 2 ^ 64"
  shows "LeafSet_Contains (pm_leafSet m) (LeafIndex_At (of_nat i)) \<longleftrightarrow> i \<in> u"
proof -
  have "{i. IsSet (pm_leafSet m) i} = of_nat ` u" and "u \<subseteq> {..<2 ^ 64}"
    using assms(1) unspent_small [of es v u] by (simp_all add: range_view_def files_rep_def)
  then show ?thesis
    using mem_of_nat_image [OF assms(2)] by (auto simp: LeafSet_Contains_def LeafIndex_At_def)
qed

text \<open>Reading: an element is found when it is unspent.\<close>

lemma view_get:
  assumes codec: "record_codec DATA_SIZE ser deser valid"
    and rep: "range_view B R DATA_SIZE ser valid es c m (v, u)" and i: "i < length v"
  shows "PMMR_GetAt R DATA_SIZE deser (LeafIndex_At (of_nat i)) m = Inr (if i \<in> u then Some (v ! i) else None)"
proof -
  let ?l = "LeafIndex_At (of_nat i)" and ?p = "pm_pruneList m"
  have len: "length v < 2 ^ 31" using rep by (simp add: range_view_def files_rep_def)
  have pos: "mmr_pos i 0 < mmr_pos (length v) 0" "mmr_pos (length v) 0 \<le> 2 ^ 32 - 2"
    using leaf_pos_mono [OF i] leaf_pos_double [of "length v"] len by simp_all
  have ui: "unat (of_nat i :: u64) = i" using i len by (intro unat_of_nat_u64) simp
  have lpos: "LeafIndex_GetPosition ?l = of_nat (mmr_pos i 0)" by (simp add: LeafIndex_At_position ui)
  have below: "\<not> PMMR_GetSize R m \<le> LeafIndex_GetPosition ?l"
    unfolding lpos view_size [OF rep] using pos by (simp add: word_le_nat_alt unat_of_nat_u64)
  have unpruned: "IsUnpruned R ?l m \<longleftrightarrow> i \<in> u"
    using below contains_unspent [OF rep, of i] i len by (simp add: IsUnpruned_def not_le)
  show ?thesis
  proof (cases "i \<in> u")
    case True
    have ok: "prune_ok R ?p" and es: "roots_of R ?p = es" and nc: "\<not> leaf_compacted (roots_of R ?p) i"
      using rep True by (auto simp: range_view_def unspent_ok_def)
    have "\<not> IsCompacted R ?p (m_nodeIndex ?l)"
      using compacted_iff [OF ok, of "mmr_pos i 0"] nc pos Index_At_node [OF is_node_leaf, of i]
      by (simp add: LeafIndex_At_node ui)
    moreover have "m_leafIndex ?l - GetLeafShift R ?p (Index_At (LeafIndex_GetPosition ?l + 1)) =
        of_nat (length (kept (leaf_compacted es) i))"
      using shifted_leaf [OF ok _ nc] pos by (simp add: lpos es) (simp add: LeafIndex_At_def)
    moreover have "GetDataAt DATA_SIZE (of_nat (length (kept (leaf_compacted es) i))) (pm_dataFile m) = Inr (ser (v ! i))"
    proof -
      let ?k = "length (kept (leaf_compacted es) i)"
      have al: "aligned DATA_SIZE (pm_dataFile m)" by (rule data_aligned [OF codec rep])
      have rec: "records DATA_SIZE (data_view (pm_dataFile m)) = map (\<lambda>i. ser (v ! i)) (kept (leaf_compacted es) (length v))"
        using rep by (simp add: range_view_def files_rep_def)
      have "?k \<le> i" by (rule length_kept_le)
      then have k: "?k < 2 ^ 31" using i len by simp
      then have uk: "unat (of_nat ?k :: u64) = ?k" by (intro unat_of_nat_u64) simp
      have "?k * DATA_SIZE \<le> 2 ^ 31 * 2 ^ 20" using k codec by (intro mult_le_mono) (simp_all add: record_codec_def)
      then have "unat (of_nat ?k :: u64) * DATA_SIZE < 2 ^ 64" by (simp add: uk)
      note GetDataAt_view [OF al this]
      then show ?thesis
        using kept_nth [OF i, where P = "leaf_compacted es"] nc es by (simp add: rec uk)
    qed
    moreover have "valid (v ! i)" using rep i by (simp add: range_view_def list_all_length)
    ultimately show ?thesis
      using codec True unpruned below by (auto simp: PMMR_GetAt_def PMMR_GetDataAt_def Let_def record_codec_def)
  qed (simp add: PMMR_GetAt_def unpruned)
qed

section \<open>The operations follow the specification\<close>

lemma kept_bounds: "i \<in> set (kept P n) \<Longrightarrow> i < n"
  by (simp add: kept_def)

lemma last_leaf_uncompacted: "roots_under es (mmr_pos c 0) \<Longrightarrow> c \<le> n \<Longrightarrow> \<not> leaf_compacted es n"
  using compacted_under [of es "mmr_pos c 0" "mmr_pos n 0"] leaf_pos_mono_le [of c n] by auto

text \<open>The data file with one record more.\<close>

lemma data_append:
  assumes al: "aligned DATA_SIZE d" and size: "DATA_SIZE < 2 ^ 20" and x: "length (ser x) = DATA_SIZE"
    and rec: "records DATA_SIZE (data_view d) = map (\<lambda>i. ser (v ! i)) (kept (leaf_compacted es) (length v))"
    and len: "length v < 2 ^ 31" and nc: "\<not> leaf_compacted es (length v)"
  shows "aligned DATA_SIZE (AddData (ser x) d)"
    and "records DATA_SIZE (data_view (AddData (ser x) d)) =
      map (\<lambda>i. ser ((v @ [x]) ! i)) (kept (leaf_compacted es) (Suc (length v)))"
proof -
  have "length (data_view d) div DATA_SIZE = length (kept (leaf_compacted es) (length v))"
    using arg_cong [OF rec, of length] by (simp add: length_records)
  then have "length (data_view d) = length (kept (leaf_compacted es) (length v)) * DATA_SIZE"
    using al by (metis aligned_def dvd_div_mult_self)
  also have "\<dots> \<le> 2 ^ 31 * 2 ^ 20"
    using length_kept_le [of "leaf_compacted es" "length v"] len size by (intro mult_le_mono) simp_all
  finally have "length (data_view d) + DATA_SIZE < 2 ^ 62" using size by simp
  note add = AddData_aligned [OF al x this]
  show "aligned DATA_SIZE (AddData (ser x) d)" by (rule add(1))
  have "map (\<lambda>i. ser ((v @ [x]) ! i)) (kept (leaf_compacted es) (length v)) =
      map (\<lambda>i. ser (v ! i)) (kept (leaf_compacted es) (length v))"
    by (intro map_cong) (auto simp: nth_append dest: kept_bounds)
  then show "records DATA_SIZE (data_view (AddData (ser x) d)) =
      map (\<lambda>i. ser ((v @ [x]) ! i)) (kept (leaf_compacted es) (Suc (length v)))"
    using nc by (simp add: add(2) rec kept_Suc)
qed

lemma leaf_index_from: "n < 2 ^ 50 \<Longrightarrow> m_leafIndex (LeafIndex_From (Index_At (of_nat (mmr_pos n 0)))) = of_nat n"
proof -
  assume n: "n < 2 ^ 50"
  then have pos: "mmr_pos n 0 < 2 ^ 52" using mmr_pos_small [of n 0] by simp
  then have u: "unat (of_nat (mmr_pos n 0) :: u64) = mmr_pos n 0" by (intro unat_of_nat_u64) simp
  have "CalculateLeafIndex (of_nat (mmr_pos n 0)) = of_nat n"
    using CalculateLeafIndex_eq [of "of_nat (mmr_pos n 0)"] pos node_coordinates(2) [OF is_node_leaf, of n]
    by (simp add: u)
  then show ?thesis by (simp add: LeafIndex_From_def GetLeafIndex_def Index_At_def)
qed

lemma AddHashes_view:
  assumes codec: "record_codec DATA_SIZE ser deser valid" and len: "\<forall>x. length (B x) = 32"
    and rep: "range_view B R DATA_SIZE ser valid es c m (v, u)" and n: "length v + 1 < 2 ^ 31" and x: "valid x"
  shows "\<exists>h'. AddHashes B R (ser x) (Some (pm_pruneList m)) (pm_hashFile m) = Some (Inr (), h') \<and>
    data_saved h' = data_saved (pm_hashFile m) \<and>
    range_view B R DATA_SIZE ser valid es c
      (m\<lparr>pm_dirty := dirty, pm_leafSet := BitmapFile_Set (of_nat (length v)) (pm_leafSet m),
         pm_dataFile := AddData (ser x) (pm_dataFile m), pm_hashFile := h'\<rparr>) (v @ [x], insert (length v) u)"
proof -
  let ?n = "length v" and ?h = "pm_hashFile m" and ?p = "pm_pruneList m" and ?d = "pm_dataFile m"
  note r = rep [unfolded range_view_def prod.case]
  have lim: "mmr_pos (Suc ?n) 0 \<le> 2 ^ 32 - 2" using leaf_pos_double [of "Suc ?n"] n by simp
  obtain h' where h': "AddHashes B R (ser x) (Some ?p) ?h = Some (Inr (), h')"
    "packed_rep B R ?p (mmr_pos c 0) h' (map ser (v @ [x])) (mmr_pos (Suc ?n) 0)" "data_saved h' = data_saved ?h"
    using packed.AddHashes_store [OF len, of R ?p "mmr_pos c 0" ?h "map ser v" "ser x"] files_packed [OF rep] lim n r
      leaf_pos_mono_le [of c ?n] by auto
  have xs: "length (ser x) = DATA_SIZE" "DATA_SIZE < 2 ^ 20" using codec x by (auto simp: record_codec_def)
  have nc: "\<not> leaf_compacted es ?n" using last_leaf_uncompacted r by blast
  have rec: "records DATA_SIZE (data_view ?d) = map (\<lambda>i. ser (v ! i)) (kept (leaf_compacted es) ?n)"
    using r by (simp add: files_rep_def)
  note da = data_append [OF data_aligned [OF codec rep] xs(2,1) rec _ nc]
  have "range_view B R DATA_SIZE ser valid es c
      (m\<lparr>pm_dirty := dirty, pm_leafSet := BitmapFile_Set (of_nat ?n) (pm_leafSet m),
         pm_dataFile := AddData (ser x) ?d, pm_hashFile := h'\<rparr>) (v @ [x], insert ?n u)"
    unfolding range_view_def prod.case using r h'(2) da x nc n
    by (auto simp: files_rep_def packed_rep_def aligned_def unspent_ok_def IsSet_Set)
  then show ?thesis using h' by blast
qed

lemma next_leaf_index:
  assumes "range_view B R DATA_SIZE ser valid es c m (v, u)"
  shows "LeafSet_Add (LeafIndex_From (Index_At (PMMR_GetSize R m))) f = BitmapFile_Set (of_nat (length v)) f"
  using view_size [OF assms] leaf_index_from [of "length v"] assms
  by (simp add: LeafSet_Add_def range_view_def files_rep_def)

lemma pmmr_append:
  assumes codec: "record_codec DATA_SIZE ser deser valid" and len: "\<forall>x. length (B x) = 32"
    and rep: "pmmr_rep B R DATA_SIZE ser valid es c b m ((v, u), s)"
    and n: "length v + 1 < 2 ^ 31" and x: "valid x" and b: "b + 1 \<le> 2 ^ 60"
  shows "\<exists>m'. PMMR_Append B R ser x m = Some (Inr (), m') \<and>
    pmmr_rep B R DATA_SIZE ser valid es c (b + 1) m' ((v @ [x], insert (length v) u), s)"
proof -
  let ?n = "length v" and ?d = "pm_dataFile m" and ?f = "BitmapFile_Set (of_nat (length v)) (pm_leafSet m)"
  obtain v' u' where s: "s = (v', u')" by force
  note r = rep [unfolded s pmmr_rep_def prod.case]
  note view = r [THEN conjunct1]
  obtain h' where h': "AddHashes B R (ser x) (Some (pm_pruneList m)) (pm_hashFile m) = Some (Inr (), h')"
    "data_saved h' = data_saved (pm_hashFile m)"
    "range_view B R DATA_SIZE ser valid es c
      (m\<lparr>pm_dirty := True, pm_leafSet := ?f, pm_dataFile := AddData (ser x) ?d, pm_hashFile := h'\<rparr>)
      (v @ [x], insert ?n u)"
    using AddHashes_view [OF codec len view n x] by blast
  have "bitmap_le (b + 1) ?f \<and> bitmap_abs ?f = (of_nat ` insert ?n u, of_nat ` u')"
    using leaf_step_refines [of b "pm_leafSet m" "LeafAdd (of_nat ?n)"] r b n by (simp add: unat_of_nat_u64)
  then have "pmmr_rep B R DATA_SIZE ser valid es c (b + 1)
      (m\<lparr>pm_dirty := True, pm_leafSet := ?f, pm_dataFile := AddData (ser x) ?d, pm_hashFile := h'\<rparr>)
      ((v @ [x], insert ?n u), s)"
    unfolding s pmmr_rep_def prod.case using r h'(2,3) by (simp add: AddData_saved)
  moreover have "PMMR_Append B R ser x m = Some (Inr (),
      m\<lparr>pm_dirty := True, pm_leafSet := ?f, pm_dataFile := AddData (ser x) ?d, pm_hashFile := h'\<rparr>)"
    using h'(1) next_leaf_index [OF view, of "pm_leafSet m"]
    by (simp add: PMMR_Append_def Let_def PMMR_GetSize_def add.commute)
  ultimately show ?thesis by blast
qed

lemma roots_under_mono: "roots_under es m \<Longrightarrow> m \<le> n \<Longrightarrow> roots_under es n"
  by (auto simp: roots_under_def)

text \<open>Where the code rewinds the files to, for a number of leaves behind the pruned roots.\<close>

lemma rewind_targets:
  assumes p: "prune_ok R p" "roots_of R p = es" and under: "roots_under es (mmr_pos c 0)" and k: "c \<le> k" "k < 2 ^ 31"
  defines "l \<equiv> LeafIndex_At (of_nat k)"
  shows "LeafIndex_GetPosition l - GetShift R p (Index_At (m_position (m_nodeIndex l) - 1)) =
      of_nat (length (kept (compacted es) (mmr_pos k 0)))"
    and "of_nat k - GetLeafShift R p (Index_At (m_position (m_nodeIndex l) - 1)) =
      of_nat (length (kept (leaf_compacted es) k))"
proof -
  have uk: "unat (of_nat k :: u64) = k" using k by (intro unat_of_nat_u64) simp
  have lim: "mmr_pos k 0 \<le> 2 ^ 32 - 2" using leaf_pos_double [of k] k by simp
  have u: "roots_under (roots_of R p) (mmr_pos k 0)"
    using roots_under_mono [OF under leaf_pos_mono_le [OF k(1)]] by (simp add: p)
  have pos: "LeafIndex_GetPosition l = of_nat (mmr_pos k 0)" "m_position (m_nodeIndex l) = of_nat (mmr_pos k 0)"
    by (simp_all add: l_def LeafIndex_At_position LeafIndex_At_node node_def uk)
  show "LeafIndex_GetPosition l - GetShift R p (Index_At (m_position (m_nodeIndex l) - 1)) =
      of_nat (length (kept (compacted es) (mmr_pos k 0)))"
    unfolding pos using total_shift(2) [OF p(1) u lim] by (simp add: p)
  show "of_nat k - GetLeafShift R p (Index_At (m_position (m_nodeIndex l) - 1)) =
      of_nat (length (kept (leaf_compacted es) k))"
    unfolding pos using total_leaf_shift [OF p(1) u lim] by (simp add: p)
qed

lemma hash_at_take: "q < mmr_pos k 0 \<Longrightarrow> k \<le> length v \<Longrightarrow> hash_at B (map ser (take k v)) q = hash_at B (map ser v) q"
  using hash_at_append [of q "map ser (take k v)" B "map ser (drop k v)"]
  by (simp flip: map_append)

lemma files_rep_take:
  assumes "files_rep B DATA_SIZE ser es hs ds v" "k \<le> length v" "32 dvd length hs'" "DATA_SIZE dvd length ds'"
    and "records 32 hs' = take (length (kept (compacted es) (mmr_pos k 0))) (records 32 hs)"
    and "records DATA_SIZE ds' = take (length (kept (leaf_compacted es) k)) (records DATA_SIZE ds)"
  shows "files_rep B DATA_SIZE ser es hs' ds' (take k v)"
proof -
  have "map (hash_at B (map ser v)) (kept (compacted es) (mmr_pos k 0)) =
      map (hash_at B (map ser (take k v))) (kept (compacted es) (mmr_pos k 0))"
    using hash_at_take [OF _ assms(2), of _ B ser] by (intro map_cong) (auto dest: kept_bounds)
  moreover have "map (\<lambda>i. ser (v ! i)) (kept (leaf_compacted es) k) =
      map (\<lambda>i. ser (take k v ! i)) (kept (leaf_compacted es) k)"
    by (intro map_cong) (auto dest: kept_bounds)
  ultimately show ?thesis
    using assms kept_take [OF leaf_pos_mono_le [OF assms(2)], of "compacted es"]
      kept_take [OF assms(2), of "leaf_compacted es"]
    by (simp add: files_rep_def take_map min_absorb2)
qed

lemma unat_length_kept: "n < 2 ^ 64 \<Longrightarrow> unat (of_nat (length (kept P n)) :: u64) = length (kept P n)"
  using length_kept_le [of P n] by (intro unat_of_nat_u64) linarith

lemma pmmr_rewind:
  assumes codec: "record_codec DATA_SIZE ser deser valid"
    and rep: "pmmr_rep B R DATA_SIZE ser valid es c b m ((v, u), s)"
    and k: "c \<le> k" "k \<le> length v" and js: "\<forall>j \<in> set js. j < 2 ^ 31 \<and> (j < k \<longrightarrow> \<not> leaf_compacted es j)"
    and b: "b + 1 \<le> 2 ^ 60"
  shows "\<exists>m'. PMMR_Rewind R DATA_SIZE (of_nat k) (map of_nat js) m = (Inr (), m') \<and>
    pmmr_rep B R DATA_SIZE ser valid es c (b + 1) m' ((take k v, {i \<in> u \<union> set js. i < k}), s)"
proof -
  let ?h = "pm_hashFile m" and ?p = "pm_pruneList m" and ?d = "pm_dataFile m" and ?n = "length v"
  let ?kh = "length (kept (compacted es) (mmr_pos k 0))" and ?kd = "length (kept (leaf_compacted es) k)"
  obtain v' u' where s: "s = (v', u')" by force
  note r = rep [unfolded s pmmr_rep_def range_view_def prod.case]
  have files: "files_rep B DATA_SIZE ser es (data_view ?h) (data_view ?d) v" using r by blast
  then have n: "?n < 2 ^ 31" by (simp add: files_rep_def)
  have pos: "mmr_pos ?n 0 \<le> 2 ^ 32" "mmr_pos k 0 \<le> mmr_pos ?n 0"
    using leaf_pos_double [of ?n] n leaf_pos_mono_le [OF k(2)] by simp_all
  have alh: "aligned 32 ?h" and ald: "aligned DATA_SIZE ?d"
    using r codec by (auto simp: files_rep_def aligned_def record_codec_def)
  have uh: "unat (of_nat ?kh :: u64) = ?kh" and ud: "unat (of_nat ?kd :: u64) = ?kd"
    using pos k n by (simp_all add: unat_length_kept)
  have le: "?kh \<le> length (records 32 (data_view ?h))" "?kd \<le> length (records DATA_SIZE (data_view ?d))"
    using files kept_append [OF pos(2), of "compacted es"] kept_append [OF k(2), of "leaf_compacted es"]
    by (simp_all add: files_rep_def)
  obtain h' where h': "DataFile_Rewind 32 (of_nat ?kh) ?h = (Inr (), h')" "aligned 32 h'"
    "records 32 (data_view h') = take ?kh (records 32 (data_view ?h))" "data_saved h' = data_saved ?h"
    using DataFile_Rewind_view [OF alh, of "of_nat ?kh"] le by (auto simp: uh)
  obtain d' where d': "DataFile_Rewind DATA_SIZE (of_nat ?kd) ?d = (Inr (), d')" "aligned DATA_SIZE d'"
    "records DATA_SIZE (data_view d') = take ?kd (records DATA_SIZE (data_view ?d))" "data_saved d' = data_saved ?d"
    using DataFile_Rewind_view [OF ald, of "of_nat ?kd"] le by (auto simp: ud)
  let ?f = "BitmapFile_Rewind (of_nat k) (map of_nat js) (pm_leafSet m)" and ?u = "{i \<in> u \<union> set js. i < k}"
  have jb: "unat (of_nat j :: u64) = j" if "j \<in> u \<union> set js" for j
    using that js k n r by (intro unat_of_nat_u64) (auto simp: unspent_ok_def)
  have "unat (of_nat j :: u64) < 8 * b" if "j \<in> set js" for j
  proof -
    have "j < 2 ^ 31" "2 ^ 29 \<le> b" using js k n r that by auto
    then show ?thesis using jb [of j] that by simp
  qed
  then have "list_all (\<lambda>j. unat (j :: u64) < 8 * b) (map of_nat js)" by (simp add: list_all_iff)
  moreover have "{i \<in> of_nat ` u \<union> of_nat ` set js. i < (of_nat k :: u64)} = of_nat ` ?u"
    using jb k n by (auto simp: word_less_nat_alt unat_of_nat_u64)
  ultimately have f: "bitmap_le (b + 1) ?f \<and> bitmap_abs ?f = (of_nat ` ?u, of_nat ` u')"
    using leaf_step_refines [of b "pm_leafSet m" "LeafRewind (of_nat k) (map of_nat js)"] r b by simp
  note t = rewind_targets [of R ?p es c k]
  have "PMMR_Rewind R DATA_SIZE (of_nat k) (map of_nat js) m = (Inr (), m\<lparr>pm_dirty := True, pm_hashFile := h',
      pm_dataFile := d', pm_leafSet := ?f\<rparr>)"
    using t r k n h'(1) d'(1) by (simp add: PMMR_Rewind_def Let_def LeafSet_Rewind_def)
  moreover have "files_rep B DATA_SIZE ser es (data_view h') (data_view d') (take k v)"
    using files_rep_take [OF files k(2) _ _ h'(3) d'(3)] h'(2) d'(2) by (simp add: aligned_def)
  then have "pmmr_rep B R DATA_SIZE ser valid es c (b + 1) (m\<lparr>pm_dirty := True, pm_hashFile := h',
      pm_dataFile := d', pm_leafSet := ?f\<rparr>) ((take k v, ?u), s)"
    unfolding s pmmr_rep_def range_view_def using r h' d' f k js
    by (auto simp: aligned_def unspent_ok_def list_all_length bitmap_abs_def)
  ultimately show ?thesis by blast
qed

text \<open>A rewind beyond the end throws and changes nothing.\<close>

lemma pmmr_rewind_beyond:
  assumes rep: "pmmr_rep B R DATA_SIZE ser valid es c b m ((v, u), s)" and k: "length v < k" "k < 2 ^ 31"
  shows "\<exists>m'. PMMR_Rewind R DATA_SIZE (of_nat k) js m = (Inl FileException, m') \<and>
    pmmr_rep B R DATA_SIZE ser valid es c (b + 1) m' ((v, u), s)"
proof -
  let ?h = "pm_hashFile m" and ?n = "length v" and ?kh = "length (kept (compacted es) (mmr_pos k 0))"
  obtain v' u' where s: "s = (v', u')" by force
  note r = rep [unfolded s pmmr_rep_def range_view_def prod.case]
  have pos: "mmr_pos k 0 \<le> 2 ^ 32" "mmr_pos ?n 0 < mmr_pos k 0"
    using leaf_pos_double [of k] k leaf_pos_mono [OF k(1)] by simp_all
  have al: "aligned 32 ?h" using r by (auto simp: files_rep_def aligned_def)
  have uh: "unat (of_nat ?kh :: u64) = ?kh" using pos by (simp add: unat_length_kept)
  have "\<not> compacted es (mmr_pos ?n 0)" using last_leaf_uncompacted r by blast
  then have "length (records 32 (data_view ?h)) < ?kh"
    using kept_nth(1) [OF pos(2)] r by (simp add: files_rep_def)
  moreover have "?kh \<le> 2 ^ 32" using length_kept_le [of "compacted es" "mmr_pos k 0"] pos by simp
  ultimately obtain h' where h': "DataFile_Rewind 32 (of_nat ?kh) ?h = (Inl FileException, h')" "aligned 32 h'"
    "data_view h' = data_view ?h" "data_saved h' = data_saved ?h"
    using DataFile_Rewind_fail [OF al, of "of_nat ?kh"] by (auto simp: uh)
  have "PMMR_Rewind R DATA_SIZE (of_nat k) js m = (Inl FileException, m\<lparr>pm_dirty := True, pm_hashFile := h'\<rparr>)"
    using rewind_targets(1) [of R "pm_pruneList m" es c k] r k h'(1) by (simp add: PMMR_Rewind_def Let_def)
  moreover have "pmmr_rep B R DATA_SIZE ser valid es c (b + 1) (m\<lparr>pm_dirty := True, pm_hashFile := h'\<rparr>) ((v, u), s)"
    unfolding s pmmr_rep_def range_view_def using r h' bitmap_le_mono [of b "pm_leafSet m" "b + 1"]
    by (simp add: aligned_def)
  ultimately show ?thesis by blast
qed

lemma pmmr_remove:
  assumes rep: "pmmr_rep B R DATA_SIZE ser valid es c b m ((v, u), s)" and i: "i < 2 ^ 31" and b: "b + 1 \<le> 2 ^ 60"
  shows "\<exists>m'. PMMR_Remove (LeafIndex_At (of_nat i)) m = (if i \<in> u then Inr () else Inl TxHashSetException, m') \<and>
    pmmr_rep B R DATA_SIZE ser valid es c (b + 1) m' ((v, u - {i}), s)"
proof -
  obtain v' u' where s: "s = (v', u')" by force
  note r = rep [unfolded s pmmr_rep_def prod.case]
  have contains: "LeafSet_Contains (pm_leafSet m) (LeafIndex_At (of_nat i)) \<longleftrightarrow> i \<in> u"
    using contains_unspent [of B R DATA_SIZE ser valid es c m v u i] r i by simp
  note r = r [unfolded range_view_def prod.case]
  show ?thesis
  proof (cases "i \<in> u")
    case True
    let ?f = "Unset (of_nat i) (pm_leafSet m)"
    have small: "length v < 2 ^ 31" using r by (simp add: files_rep_def)
    have "unat (of_nat i :: u64) < 8 * b" using i r by (simp add: unat_of_nat_u64)
    moreover have "of_nat ` u - {of_nat i} = (of_nat ` (u - {i}) :: u64 set)"
    proof -
      have "inj_on (of_nat :: nat \<Rightarrow> u64) u"
        using unspent_small [of es v u] r small unat_of_nat_u64 by (intro inj_onI) (metis lessThan_iff subset_iff)
      then show ?thesis using True by (simp add: inj_on_image_set_diff [where C = u])
    qed
    ultimately have f: "bitmap_le (b + 1) ?f \<and> bitmap_abs ?f = (of_nat ` (u - {i}), of_nat ` u')"
      using leaf_step_refines [of b "pm_leafSet m" "LeafRemove (of_nat i)"] r b by simp
    have "PMMR_Remove (LeafIndex_At (of_nat i)) m = (Inr (), m\<lparr>pm_dirty := True, pm_leafSet := ?f\<rparr>)"
      using True by (simp add: PMMR_Remove_def contains LeafSet_Remove_def) (simp add: LeafIndex_At_def)
    moreover have "pmmr_rep B R DATA_SIZE ser valid es c (b + 1) (m\<lparr>pm_dirty := True, pm_leafSet := ?f\<rparr>) ((v, u - {i}), s)"
      unfolding s pmmr_rep_def range_view_def using r f by (simp add: unspent_ok_def bitmap_abs_def)
    ultimately show ?thesis using True by simp
  next
    case False
    then have "pmmr_rep B R DATA_SIZE ser valid es c (b + 1) m ((v, u - {i}), s)"
      unfolding s pmmr_rep_def range_view_def using r bitmap_le_mono [of b "pm_leafSet m" "b + 1"] by simp
    then show ?thesis using False by (simp add: PMMR_Remove_def contains)
  qed
qed

lemma pmmr_commit:
  assumes rep: "pmmr_rep B R DATA_SIZE ser valid es c b m (cur, s)" and b: "b + 1 \<le> 2 ^ 60"
  shows "\<exists>m'. PMMR_Commit R True True True m = (Inr (), m') \<and>
    pmmr_rep B R DATA_SIZE ser valid es c (b + 1) m' (cur, cur)"
proof -
  obtain v u v' u' where p: "cur = (v, u)" "s = (v', u')" by force
  note r = rep [unfolded p pmmr_rep_def range_view_def prod.case]
  show ?thesis
  proof (cases "pm_dirty m")
    case True
    let ?h = "data_commit (pm_hashFile m)" and ?d = "data_commit (pm_dataFile m)"
      and ?f = "BitmapFile_Commit True (pm_leafSet m)"
    have "bitmap_le (b + 1) ?f \<and> bitmap_abs ?f = (of_nat ` u, of_nat ` u)"
      using leaf_step_refines [of b "pm_leafSet m" LeafCommit] r b by simp
    moreover have "PruneList_Flush R (pm_pruneList m) = pm_pruneList m"
      using r by (simp add: PruneList_Flush_def prune_rep_def)
    moreover note data_commit_flush [of "pm_hashFile m"] data_commit_flush [of "pm_dataFile m"]
    ultimately have "pmmr_rep B R DATA_SIZE ser valid es c (b + 1)
        \<lparr>pm_hashFile = ?h, pm_leafSet = ?f, pm_pruneList = pm_pruneList m, pm_dataFile = ?d, pm_dirty = False\<rparr> (cur, cur)"
      unfolding p pmmr_rep_def range_view_def using r by (simp add: bitmap_abs_def)
    moreover have "PMMR_Commit R True True True m = (Inr (),
        \<lparr>pm_hashFile = ?h, pm_leafSet = ?f, pm_pruneList = pm_pruneList m, pm_dataFile = ?d, pm_dirty = False\<rparr>)"
      using True r DataFile_Commit_True [of "pm_hashFile m"] DataFile_Commit_True [of "pm_dataFile m"]
      by (simp add: PMMR_Commit_def PruneList_Flush_def prune_rep_def)
    ultimately show ?thesis by blast
  next
    case False
    then have "pmmr_rep B R DATA_SIZE ser valid es c (b + 1) m (cur, cur)"
      unfolding p pmmr_rep_def range_view_def using r bitmap_le_mono [of b "pm_leafSet m" "b + 1"] by auto
    then show ?thesis using False by (simp add: PMMR_Commit_def)
  qed
qed

text \<open>A rollback reads the prune list again, which gives the same roots.\<close>

lemma prune_rep_rollback: "prune_rep R p es \<Longrightarrow> prune_rep R (PruneList_Rollback R p) es"
proof -
  assume r: "prune_rep R p es"
  then have R: "roaring_laws R" and d: "roots_disjoint es" by (auto simp: prune_rep_def prune_ok_def)
  obtain q where q: "(case pl_file p of None \<Rightarrow> Inr (rb_empty R) | Some data \<Rightarrow> rb_readSafe R data) = Inr q"
    "rb_elements R q = es"
    using r roaring_elements(1) [OF R] by (auto simp: prune_rep_def split: option.splits)
  let ?p = "RebuildCaches R (p\<lparr>pl_prunedRoots := q\<rparr>)"
  have "caches_ok R (?p\<lparr>pl_dirty := False\<rparr>)" using RebuildCaches_ok [of R "p\<lparr>pl_prunedRoots := q\<rparr>"] by (simp add: caches_ok_def)
  then show ?thesis
    using r R d q by (simp add: PruneList_Rollback_def prune_rep_def prune_ok_def) (simp add: RebuildCaches_def)
qed

lemma pmmr_rollback:
  assumes rep: "pmmr_rep B R DATA_SIZE ser valid es c b m (cur, s)" and b: "b + 1 \<le> 2 ^ 60"
  shows "pmmr_rep B R DATA_SIZE ser valid es c (b + 1) (PMMR_Rollback R m) (s, s)"
proof -
  obtain v u v' u' where p: "cur = (v, u)" "s = (v', u')" by force
  note r = rep [unfolded p pmmr_rep_def range_view_def prod.case]
  show ?thesis
  proof (cases "pm_dirty m")
    case True
    let ?f = "BitmapFile_Rollback (pm_leafSet m)"
    have "bitmap_le (b + 1) ?f \<and> bitmap_abs ?f = (of_nat ` u', of_nat ` u')"
      using leaf_step_refines [of b "pm_leafSet m" LeafRollback] r b by simp
    moreover have "data_inv (pm_hashFile m)" "data_inv (pm_dataFile m)" using r by simp_all
    moreover have "prune_rep R (PruneList_Rollback R (pm_pruneList m)) es" using r prune_rep_rollback by blast
    moreover note data.rollback_inv data.rollback_view data.rollback_saved
    ultimately show ?thesis
      unfolding p pmmr_rep_def range_view_def using r True
      by (simp add: PMMR_Rollback_def prune_rep_def bitmap_abs_def)
  next
    case False
    then show ?thesis
      unfolding p pmmr_rep_def range_view_def using r bitmap_le_mono [of b "pm_leafSet m" "b + 1"]
      by (auto simp: PMMR_Rollback_def)
  qed
qed

section \<open>The prunable range refines a list with its unspent elements\<close>

datatype 'a pmmr_op = Add 'a | Spend nat | Rewind nat "nat list" | Commit | Rollback

fun pmmr_spec ::
  "'a pmmr_op \<Rightarrow> ('a list \<times> nat set) \<times> ('a list \<times> nat set) \<Rightarrow> ('a list \<times> nat set) \<times> ('a list \<times> nat set)" where
  "pmmr_spec (Add x) ((v, u), s) = ((v @ [x], insert (length v) u), s)"
| "pmmr_spec (Spend i) ((v, u), s) = ((v, u - {i}), s)"
| "pmmr_spec (Rewind k js) ((v, u), s) =
     (if k \<le> length v then ((take k v, {i \<in> u \<union> set js. i < k}), s) else ((v, u), s))"
| "pmmr_spec Commit (c, s) = (c, c)"
| "pmmr_spec Rollback (c, s) = (s, s)"

fun pmmr_step ::
  "(bytes \<Rightarrow> bytes) \<Rightarrow> 'b roaring \<Rightarrow> nat \<Rightarrow> ('a \<Rightarrow> bytes) \<Rightarrow> 'a pmmr_op \<Rightarrow> 'b PruneableMMR \<Rightarrow> 'b PruneableMMR option" where
  "pmmr_step B R DATA_SIZE ser (Add x) m = map_option snd (PMMR_Append B R ser x m)"
| "pmmr_step B R DATA_SIZE ser (Spend i) m = Some (snd (PMMR_Remove (LeafIndex_At (of_nat i)) m))"
| "pmmr_step B R DATA_SIZE ser (Rewind k js) m = Some (snd (PMMR_Rewind R DATA_SIZE (of_nat k) (map of_nat js) m))"
| "pmmr_step B R DATA_SIZE ser Commit m = Some (snd (PMMR_Commit R True True True m))"
| "pmmr_step B R DATA_SIZE ser Rollback m = Some (PMMR_Rollback R m)"

fun pmmr_run ::
  "(bytes \<Rightarrow> bytes) \<Rightarrow> 'b roaring \<Rightarrow> nat \<Rightarrow> ('a \<Rightarrow> bytes) \<Rightarrow> 'a pmmr_op list \<Rightarrow> 'b PruneableMMR \<Rightarrow> 'b PruneableMMR option"
  where
  "pmmr_run B R DATA_SIZE ser [] m = Some m"
| "pmmr_run B R DATA_SIZE ser (op # ops) m =
     Option.bind (pmmr_step B R DATA_SIZE ser op m) (pmmr_run B R DATA_SIZE ser ops)"

text \<open>A rewind stays behind the pruned roots and restores only elements that are still in the files.\<close>

fun pmmr_op_ok :: "('a \<Rightarrow> bool) \<Rightarrow> u32 list \<Rightarrow> nat \<Rightarrow> 'a pmmr_op \<Rightarrow> bool" where
  "pmmr_op_ok valid es c (Add x) \<longleftrightarrow> valid x"
| "pmmr_op_ok valid es c (Spend i) \<longleftrightarrow> i < 2 ^ 31"
| "pmmr_op_ok valid es c (Rewind k js) \<longleftrightarrow>
     c \<le> k \<and> k < 2 ^ 31 \<and> (\<forall>j \<in> set js. j < 2 ^ 31 \<and> (j < k \<longrightarrow> \<not> leaf_compacted es j))"
| "pmmr_op_ok valid es c Commit \<longleftrightarrow> True"
| "pmmr_op_ok valid es c Rollback \<longleftrightarrow> True"

lemma pmmr_step_refines:
  assumes codec: "record_codec DATA_SIZE ser deser valid" and len: "\<forall>x. length (B x) = 32"
    and rep: "pmmr_rep B R DATA_SIZE ser valid es c b m s"
    and n: "length (fst (fst s)) + 1 < 2 ^ 31" and op: "pmmr_op_ok valid es c op" and b: "b + 1 \<le> 2 ^ 60"
  shows "\<exists>m'. pmmr_step B R DATA_SIZE ser op m = Some m' \<and>
    pmmr_rep B R DATA_SIZE ser valid es c (b + 1) m' (pmmr_spec op s)"
proof -
  obtain v u s' where s: "s = ((v, u), s')" by (metis prod.collapse)
  note r = rep [unfolded s]
  show ?thesis
  proof (cases op)
    case (Add x)
    then show ?thesis using pmmr_append [OF codec len r _ _ b, of x] n op by (auto simp: s)
  next
    case (Spend i)
    then show ?thesis using pmmr_remove [OF r _ b, of i] op by (auto simp: s)
  next
    case (Rewind k js)
    then show ?thesis
      using pmmr_rewind [OF codec r _ _ _ b, of k js] pmmr_rewind_beyond [OF r, of k "map of_nat js"] op
      by (cases "k \<le> length v") (auto simp: s)
  next
    case Commit
    then show ?thesis using pmmr_commit [OF r b] by (auto simp: s)
  next
    case Rollback
    then show ?thesis using pmmr_rollback [OF r b] by (auto simp: s)
  qed
qed

lemma pmmr_spec_length:
  "length (fst (fst (pmmr_spec op ((v, u), (v', u'))))) \<le> max (Suc (length v)) (length v') \<and>
   length (fst (snd (pmmr_spec op ((v, u), (v', u'))))) \<le> max (length v) (length v')"
  by (cases op) auto

lemma pmmr_run_refines:
  assumes codec: "record_codec DATA_SIZE ser deser valid" and len: "\<forall>x. length (B x) = 32"
  shows "pmmr_rep B R DATA_SIZE ser valid es c b m s \<Longrightarrow>
    length (fst (fst s)) + length ops < 2 ^ 31 \<Longrightarrow> length (fst (snd s)) + length ops < 2 ^ 31 \<Longrightarrow>
    list_all (pmmr_op_ok valid es c) ops \<Longrightarrow> b + length ops \<le> 2 ^ 60 \<Longrightarrow>
    \<exists>m'. pmmr_run B R DATA_SIZE ser ops m = Some m' \<and>
      pmmr_rep B R DATA_SIZE ser valid es c (b + length ops) m' (fold pmmr_spec ops s)"
proof (induction ops arbitrary: m s b)
  case (Cons op ops)
  obtain m1 where m1: "pmmr_step B R DATA_SIZE ser op m = Some m1"
    "pmmr_rep B R DATA_SIZE ser valid es c (b + 1) m1 (pmmr_spec op s)"
    using pmmr_step_refines [OF codec len Cons.prems(1), of op] Cons.prems by auto
  obtain v u v' u' where s: "s = ((v, u), (v', u'))" by (metis prod.collapse)
  have "length (fst (fst (pmmr_spec op s))) + length ops < 2 ^ 31"
    "length (fst (snd (pmmr_spec op s))) + length ops < 2 ^ 31"
    using pmmr_spec_length [of op v u v' u'] Cons.prems(2,3) by (auto simp: s)
  then show ?case using Cons.IH [OF m1(2)] m1(1) Cons.prems(4,5) by simp
qed simp

text \<open>
  C10. The prunable range (outputs, range proofs) implements a list of elements with the set of unspent ones. From
  files that represent such a pair and a prune list with its roots before leaf \<open>c\<close>, any sequence of additions,
  spendings, rewinds behind the pruned roots, commits and rollbacks runs to its end, and then: the size is that of the
  whole list, the root of every size from \<open>c\<close> on is the root of the whole list up to it although compacted nodes are
  missing from the file, and looking up an element finds exactly the unspent ones.
\<close>

theorem pruneable_mmr_refines:
  assumes "record_codec DATA_SIZE ser deser valid" "\<forall>x. length (B x) = 32"
    and "pmmr_rep B R DATA_SIZE ser valid es c b m ((v, u), (v', u'))"
    and "list_all (pmmr_op_ok valid es c) ops" "b + length ops \<le> 2 ^ 60"
    and "length v + length ops < 2 ^ 31" "length v' + length ops < 2 ^ 31"
    and "fold pmmr_spec ops ((v, u), (v', u')) = ((w, z), s)"
  shows "\<exists>m'. pmmr_run B R DATA_SIZE ser ops m = Some m' \<and>
    PMMR_GetSize R m' = of_nat (mmr_pos (length w) 0) \<and>
    (\<forall>k. c \<le> k \<and> k \<le> length w \<longrightarrow>
      PMMR_Root B R (of_nat (mmr_pos k 0)) m' = Inr (mmr_root B (map ser (take k w)))) \<and>
    (\<forall>i < length w. PMMR_GetAt R DATA_SIZE deser (LeafIndex_At (of_nat i)) m' =
      Inr (if i \<in> z then Some (w ! i) else None))"
proof -
  obtain m' where m': "pmmr_run B R DATA_SIZE ser ops m = Some m'"
    "pmmr_rep B R DATA_SIZE ser valid es c (b + length ops) m' ((w, z), s)"
    using pmmr_run_refines [OF assms(1-3), of ops] assms(4-8) by auto
  then have view: "range_view B R DATA_SIZE ser valid es c m' (w, z)" by (auto simp: pmmr_rep_def)
  show ?thesis
    using m'(1) view_size [OF view] view_root [OF view] view_get [OF assms(1) view] by (intro exI [of _ m']) simp
qed

text \<open>A range of three outputs whose first two are compacted below the root at position 2.\<close>

definition sample_output :: OutputIdentifier where
  "sample_output = \<lparr>oi_features = 0, oi_commitment = replicate 33 9\<rparr>"

lemma sample_valid: "length (oi_commitment sample_output) = 33"
  by (simp add: sample_output_def)

definition sample_hash :: "bytes \<Rightarrow> bytes" where
  "sample_hash bs = replicate 32 (of_nat (length bs))"

definition sample_roaring :: "u32 set roaring" where
  "sample_roaring = set_roaring\<lparr>rb_readSafe := (\<lambda>_. Inr {3})\<rparr>"

definition sample_hashes :: bytes where
  "sample_hashes =
     concat (map (hash_at sample_hash (replicate 3 (OutputIdentifier_Serialize sample_output))) [2, 3])"

definition sample_range :: "u32 set PruneableMMR" where
  "sample_range =
     \<lparr>pm_hashFile = DataFile_Load sample_hashes,
      pm_leafSet = BitmapFile_New [32],
      pm_pruneList = RebuildCaches sample_roaring (PruneList_New {3} (Some []) sample_roaring),
      pm_dataFile = DataFile_Load (OutputIdentifier_Serialize sample_output),
      pm_dirty = False\<rparr>"

lemma sample_roaring_laws: "roaring_laws sample_roaring"
  using set_roaring_laws unfolding roaring_laws_def by (simp add: sample_roaring_def)

lemma sample_positions:
  "mmr_pos 0 0 = 0" "mmr_pos (Suc 0) 0 = 1" "mmr_pos (Suc (Suc 0)) 0 = 3" "mmr_pos 2 0 = 3" "mmr_pos 3 0 = 4"
  "mmr_pos 1 1 = 2"
  by code_simp+

lemma sample_root: "compacted [3] q \<longleftrightarrow> q < 2"
proof -
  have "height_at 2 = 1" using node_coordinates(1) [of 1 1] sample_positions(6) by (simp add: is_node_def)
  then show ?thesis by (simp add: compacted_def compacted_below_eq root_pos_def)
qed

lemma sample_prune_rep:
  "prune_rep sample_roaring (RebuildCaches sample_roaring (PruneList_New {3} (Some []) sample_roaring)) [3]"
proof -
  let ?p = "RebuildCaches sample_roaring (PruneList_New {3} (Some []) sample_roaring)"
  have "roots_of sample_roaring ?p = [3]" "\<not> pl_dirty ?p" "pl_file ?p = Some []"
    by (simp_all add: RebuildCaches_def PruneList_New_def sample_roaring_def set_roaring_def)
  moreover have "rb_readSafe sample_roaring [] = Inr {3}" "rb_elements sample_roaring {3} = [3]"
    by (simp_all add: sample_roaring_def set_roaring_def)
  moreover have "roots_disjoint [3]" by (simp add: roots_disjoint_def)
  ultimately show ?thesis
    using sample_roaring_laws RebuildCaches_ok [of sample_roaring] by (simp add: prune_rep_def prune_ok_def)
qed

lemma sample_leaf_set: "bitmap_abs (BitmapFile_New [32]) = (of_nat ` {2}, of_nat ` {2})"
proof -
  have "IsSet (BitmapFile_New [32]) i \<longleftrightarrow> i = 2" for i
  proof (cases "i div 8 = 0")
    case True
    then have "GetByte (BitmapFile_New [32]) (i div 8) = 2 ^ 5" by (simp add: GetByte_def BitmapFile_New_def)
    then have "IsSet (BitmapFile_New [32]) i \<longleftrightarrow> bit_of i = 5"
      using bit_of_less [of i] by (simp only: IsSet_bit bit_exp_iff) simp
    then show ?thesis using True leaf_eq_iff [of i 2] by (simp add: bit_of_def)
  next
    case False
    then have "\<not> i div 8 < 1" by simp
    then have "GetByte (BitmapFile_New [32]) (i div 8) = 0" by (simp add: GetByte_def BitmapFile_New_def)
    then show ?thesis using False by (auto simp: IsSet_bit)
  qed
  moreover have "saved_bits (BitmapFile_New [32]) = IsSet (BitmapFile_New [32])"
    by (simp add: saved_bits_def BitmapFile_Rollback_def BitmapFile_New_def)
  ultimately show ?thesis by (auto simp: bitmap_abs_def)
qed

lemma sample_files:
  "files_rep sample_hash OUTPUT_SIZE OutputIdentifier_Serialize [3] sample_hashes
     (OutputIdentifier_Serialize sample_output) (replicate 3 sample_output)"
proof -
  have len: "length (hash_at sample_hash ls q) = 32" for ls q
    by (simp add: hash_at_def length_hash sample_hash_def)
  have kept: "kept (compacted [3]) 4 = [2, 3]" "kept (leaf_compacted [3]) 3 = [2]"
    by (simp_all add: kept_def sample_root sample_positions upt_rec)
  have "length (OutputIdentifier_Serialize sample_output) = 34"
    by (simp add: OutputIdentifier_Serialize_def AppendU8_def AppendBigInteger_def sample_output_def)
  then have "records 34 (OutputIdentifier_Serialize sample_output) = [OutputIdentifier_Serialize sample_output]"
    "34 dvd length (OutputIdentifier_Serialize sample_output)"
    using records_append [of 34 "[]" "OutputIdentifier_Serialize sample_output"] by (simp_all add: records_def)
  moreover have "records 32 (concat (map (hash_at sample_hash ls) [2, 3])) = map (hash_at sample_hash ls) [2, 3]" for ls
    using len by (intro records_concat(2)) auto
  ultimately show ?thesis using len by (simp add: files_rep_def OUTPUT_SIZE_def sample_positions kept sample_hashes_def)
qed

lemma sample_range_rep:
  "pmmr_rep sample_hash sample_roaring OUTPUT_SIZE OutputIdentifier_Serialize (\<lambda>oi. length (oi_commitment oi) = 33)
     [3] 2 (2 ^ 29) sample_range ((replicate 3 sample_output, {2}), (replicate 3 sample_output, {2}))"
proof -
  have load: "data_inv (DataFile_Load bs)" "data_view (DataFile_Load bs) = bs" "data_saved (DataFile_Load bs) = bs"
    if "length bs < 2 ^ 62" for bs
    using that Load_inv [of bs] Load_view [of bs] by (simp_all add: data_inv_def DataFile_Load_def AppendOnlyFile_Load_def)
  have lens: "length (OutputIdentifier_Serialize sample_output) < 2 ^ 62"
    "length sample_hashes < 2 ^ 62"
    by (simp_all add: OutputIdentifier_Serialize_def AppendU8_def AppendBigInteger_def sample_output_def
        hash_at_def length_hash sample_hash_def sample_hashes_def)
  have "unspent_ok [3] (replicate 3 sample_output, {2})"
    by (simp add: unspent_ok_def sample_root sample_positions)
  moreover have "roots_under [3] (mmr_pos 2 0)" by (simp add: roots_under_def root_pos_def sample_positions)
  moreover have "bitmap_le (2 ^ 29) (BitmapFile_New [32])" by (simp add: bitmap_le_def BitmapFile_New_def)
  ultimately show ?thesis
    unfolding pmmr_rep_def range_view_def sample_range_def using sample_files sample_leaf_set sample_prune_rep
    by (simp add: bitmap_abs_def prune_rep_def load [OF lens(1)] load [OF lens(2)] sample_valid list_all_iff)
qed

lemma sample_fold:
  "fold pmmr_spec [Add x, Spend 2, Commit, Add x, Rewind 3 [2], Rollback]
     ((replicate 3 x, {2}), (replicate 3 x, {2})) = ((replicate 4 x, {3}), (replicate 4 x, {3}))"
  by (auto simp: numeral_eq_Suc)

theorem pruneable_mmr_refines_witness:
  "let ops = [Add sample_output, Spend 2, Commit, Add sample_output, Rewind 3 [2], Rollback]; w = replicate 4 sample_output
   in \<exists>m'. pmmr_run sample_hash sample_roaring OUTPUT_SIZE OutputIdentifier_Serialize ops sample_range = Some m' \<and>
     PMMR_GetSize sample_roaring m' = of_nat (mmr_pos (length w) 0) \<and>
     (\<forall>k. 2 \<le> k \<and> k \<le> length w \<longrightarrow> PMMR_Root sample_hash sample_roaring (of_nat (mmr_pos k 0)) m' =
       Inr (mmr_root sample_hash (map OutputIdentifier_Serialize (take k w)))) \<and>
     (\<forall>i < length w. PMMR_GetAt sample_roaring OUTPUT_SIZE OutputIdentifier_Deserialize (LeafIndex_At (of_nat i)) m' =
       Inr (if i \<in> {3} then Some (w ! i) else None))"
  unfolding Let_def
  by (rule pruneable_mmr_refines [OF output_records _ sample_range_rep _ _ _ _ sample_fold])
    (simp_all add: sample_hash_def sample_root sample_positions sample_valid)

end
