(* ===== verification/PruneableDownload.thy ===== *)
theory PruneableDownload
  imports PruneableCorrect
begin

text \<open>
  Downloading outputs and range proofs in segments (\<open>PruneableMMR::ApplySegment\<close>): subtrees without unspent leaves
  arrive as the hash of their root and become roots of the prune list. The range stays a prefix of the list that
  the nodes of the segments come from.
\<close>

section \<open>Adding a pruned subtree\<close>

context hash_store
begin

text \<open>Completing the parents of a node whose hash is the last in the file.\<close>

lemma close_parents_store:
  assumes len: "\<forall>x. length (B x) = 32" and pl: "pl = Some p"
  shows "is_node n h \<Longrightarrow> n < 2 ^ 50 \<Longrightarrow> mmr_pos (Suc n) 0 \<le> limit \<Longrightarrow> floor \<le> Suc (mmr_pos n h) \<Longrightarrow>
   rep d leaves (Suc (mmr_pos n h)) \<Longrightarrow>
   \<exists>d'. close_parents B R p (GetNext (node n h)) (of_nat (mmr_pos n h)) (node_hash B leaves n h) d = Some (Inr (), d') \<and>
     rep d' leaves (mmr_pos (Suc n) 0) \<and> data_saved d' = data_saved d"
proof (induction "60 - h" arbitrary: h d rule: less_induct)
  case less
  have h: "h \<le> 50" by (rule node_height_small [OF less.prems(1,2)])
  have pos: "mmr_pos n k < 2 ^ 52" if "k \<le> 60" for k using mmr_pos_small [OF less.prems(2) that] .
  have range: "in_range n h" using less.prems(1) pos [of h] h by (simp add: in_range_def)
  show ?case
  proof (cases "is_right n h")
    case False
    have "GetNext (node n h) = node (Suc n) 0" using GetNext_node [OF range] False by simp
    moreover have "mmr_pos (Suc n) 0 = Suc (mmr_pos n h)"
      using mmr_pos_next_leaf [OF less.prems(1)] False by (simp add: is_right_def)
    ultimately show ?thesis
      using less.prems(5) by (subst close_parents.simps) (simp add: IsLeaf_node)
  next
    case True
    have node: "is_node n (Suc h)" using True by (simp add: is_right_def)
    have idx: "GetNext (node n h) = node n (Suc h)" using GetNext_node [OF range] True by simp
    have nleaf: "\<not> IsLeaf (node n (Suc h))" using h by (subst IsLeaf_node) simp_all
    have right: "m_position (GetRightChild (node n (Suc h))) = of_nat (mmr_pos n h)"
      by (simp add: GetRightChild_node) (simp add: node_def)
    have left: "2 ^ h \<le> n" "is_node (n - 2 ^ h) h" "\<not> is_right (n - 2 ^ h) h" by (rule right_node_shift [OF True])+
    have lt: "mmr_pos (n - 2 ^ h) h < Suc (mmr_pos n h)"
      using mmr_pos_right_shift [OF True, of h] one_le_power [of "2::nat" "Suc h"] by linarith
    have next': "mmr_pos n (Suc h) = Suc (mmr_pos n h)" by (simp add: mmr_pos_def)
    have floor: "floor \<le> pos_of (parent_of (n - 2 ^ h, h))"
      using less.prems(4) left by (simp add: parent_of_def next')
    have gl: "GetHashAt R d (GetLeftChild (node n (Suc h))) (Some p) = Inr (node_hash B leaves (n - 2 ^ h) h)"
      using fetch [OF less.prems(5) left(2) lt floor] uncompacted [OF less.prems(5) left(2) lt floor]
        GetLeftChild_node [OF node] h by (simp add: pl)
    have pos': "m_position (node n (Suc h)) = of_nat (mmr_pos n (Suc h))" by (simp add: node_def)
    have "mmr_pos n (Suc h) < limit" using node_before_next [OF node] less.prems(3) by simp
    then have rep: "rep (AddData (node_hash B leaves n (Suc h)) d) leaves (Suc (mmr_pos n (Suc h)))"
      using add [OF len less.prems(5)] less.prems(4) hash_at_node [OF node, of B leaves] unfolding next' by simp
    have unf: "close_parents B R p (GetNext (node n h)) (of_nat (mmr_pos n h)) (node_hash B leaves n h) d =
        close_parents B R p (GetNext (node n (Suc h))) (of_nat (mmr_pos n (Suc h))) (node_hash B leaves n (Suc h))
          (AddData (node_hash B leaves n (Suc h)) d)"
      unfolding idx by (subst close_parents.simps) (simp add: nleaf right gl pos' Let_def)
    have "60 - Suc h < 60 - h" using h by simp
    moreover have "floor \<le> Suc (mmr_pos n (Suc h))" using less.prems(4) by (simp add: next')
    ultimately show ?thesis
      using less.hyps [OF _ node less.prems(2,3) _ rep] unfolding unf by (simp add: AddData_saved)
  qed
qed

end

text \<open>The prune list after a root behind all others was added.\<close>

lemma AddPrunedRoot_rep:
  assumes ok: "prune_ok R p" and under: "roots_under (roots_of R p) (mmr_pos n 0)"
    and node: "is_node a h" and first: "Suc a - 2 ^ h = n" and small: "mmr_pos a h < 2 ^ 32 - 2"
  defines "p' \<equiv> AddPrunedRoot R (Index_At (of_nat (mmr_pos a h))) p"
  shows "roots_of R p' = roots_of R p @ [wire (of_nat (mmr_pos a h))]" and "prune_ok R p'"
proof -
  let ?q = "mmr_pos a h" and ?es = "roots_of R p"
  let ?w = "wire (of_nat (mmr_pos a h)) :: u32"
  have R: "roaring_laws R" using ok by (simp add: prune_ok_def)
  have uq: "unat (of_nat ?q :: u64) = ?q" using small by (intro unat_of_nat_u64) simp
  have uw: "unat ?w = Suc ?q" using unat_wire [of "of_nat ?q"] uq small by simp
  then have rw: "root_pos ?w = ?q" "?w \<noteq> 0" by (auto simp: root_pos_def)
  have le: "mmr_pos n 0 \<le> ?q" using leaf_pos_le [of n a h] first one_le_power [of "2 :: nat" h] by linarith
  have below: "y < ?w" if "y \<in> set ?es" for y
  proof -
    have "root_pos y < ?q" using that under le by (auto simp: roots_under_def)
    then show ?thesis using root_index_nat(3) [OF roots_nonzero [OF ok that]] uw by (simp add: word_less_nat_alt)
  qed
  have fresh: "\<not> rb_contains R ?w (pl_prunedRoots p)" using below roaring_elements(5) [OF R] by auto
  have "pl_prunedRoots p' = rb_add R ?w (pl_prunedRoots p)"
    using fresh by (simp add: p'_def AddPrunedRoot_def Let_def Index_At_def AppendRootToShiftCaches_def RebuildCaches_def)
  then show es: "roots_of R p' = ?es @ [?w]" using elements_append [OF R below] by simp
  have "caches_ok R p'"
    unfolding p'_def using ok small uq by (intro caches_ok_AddPrunedRoot) (simp_all add: prune_ok_def word_less_nat_alt)
  moreover have "roots_disjoint (?es @ [?w])"
  proof -
    have "subtree_of (root_pos ?w) = {mmr_pos n 0 .. ?q}" using subtree_of_interval [OF node] by (simp add: rw first)
    moreover have "subtree_of (root_pos y) \<subseteq> {..<mmr_pos n 0}" if "y \<in> set ?es" for y
      using that under by (auto simp: roots_under_def subtree_of_def)
    ultimately have "subtree_of (root_pos y) \<inter> subtree_of (root_pos ?w) = {}" if "y \<in> set ?es" for y
      using that by fastforce
    then show ?thesis using ok rw(2) by (auto simp: roots_disjoint_def prune_ok_def)
  qed
  ultimately show "prune_ok R p'" using R es by (simp add: prune_ok_def)
qed

text \<open>Which positions are kept when the subtree from leaf \<open>n\<close> on is compacted below its root.\<close>

lemma compacted_snoc: "compacted (es @ [w]) q \<longleftrightarrow> compacted es q \<or> q \<in> compacted_below (root_pos w)"
  by (auto simp: compacted_def)

lemma compacted_below_interval:
  "is_node a h \<Longrightarrow> compacted_below (mmr_pos a h) = {mmr_pos (Suc a - 2 ^ h) 0 ..< mmr_pos a h}"
  unfolding compacted_below_def subtree_of_interval by (rule set_eqI) (simp add: le_less, blast)

lemma kept_cong: "(\<And>q. q < n \<Longrightarrow> P q = Q q) \<Longrightarrow> kept P n = kept Q n"
  unfolding kept_def by (rule filter_cong) simp_all

lemma kept_skip: "m \<le> n \<Longrightarrow> (\<And>q. m \<le> q \<Longrightarrow> q < n \<Longrightarrow> P q) \<Longrightarrow> kept P n = kept P m"
  unfolding kept_append [of m n P] by (simp add: filter_empty_conv)

lemma kept_pruned:
  assumes node: "is_node a h" and first: "Suc a - 2 ^ h = n" and w: "root_pos w = mmr_pos a h"
    and under: "roots_under es (mmr_pos n 0)"
  shows "kept (compacted (es @ [w])) (Suc (mmr_pos a h)) = kept (compacted es) (mmr_pos n 0) @ [mmr_pos a h]"
    and "0 < h \<Longrightarrow> kept (leaf_compacted (es @ [w])) (Suc a) = kept (leaf_compacted es) n"
proof -
  let ?q = "mmr_pos a h" and ?es = "es @ [w]"
  have below: "compacted_below (root_pos w) = {mmr_pos n 0 ..< ?q}"
    using compacted_below_interval [OF node] by (simp add: w first)
  have le: "n \<le> a" using first one_le_power [of "2 :: nat" h] by linarith
  have pos: "mmr_pos n 0 \<le> ?q" using leaf_pos_le [OF le] .
  have "\<not> compacted ?es ?q"
    using compacted_under [OF under, of ?q] pos by (auto simp: compacted_snoc below)
  moreover have "kept (compacted ?es) ?q = kept (compacted ?es) (mmr_pos n 0)"
    using pos by (intro kept_skip) (simp_all add: compacted_snoc below)
  moreover have "kept (compacted ?es) (mmr_pos n 0) = kept (compacted es) (mmr_pos n 0)"
    by (rule kept_cong) (simp add: compacted_snoc below)
  ultimately show "kept (compacted ?es) (Suc ?q) = kept (compacted es) (mmr_pos n 0) @ [?q]"
    by (simp add: kept_Suc)
  assume h: "0 < h"
  have "leaf_compacted ?es i" if "n \<le> i" "i < Suc a" for i
  proof -
    have "mmr_pos i 0 < ?q"
    proof (cases "i = a")
      case True
      then show ?thesis using h by (simp add: mmr_pos_def)
    next
      case False
      then show ?thesis using node_pos_mono [OF is_node_leaf, of i a h] that by simp
    qed
    then show ?thesis using leaf_pos_mono_le [OF that(1)] by (simp add: compacted_snoc below)
  qed
  then have "kept (leaf_compacted ?es) (Suc a) = kept (leaf_compacted ?es) n"
    using le by (intro kept_skip) simp_all
  also have "\<dots> = kept (leaf_compacted es) n"
  proof (rule kept_cong)
    fix i assume "i < n"
    then show "leaf_compacted ?es i = leaf_compacted es i"
      using leaf_pos_mono [of i n] by (simp add: compacted_snoc below)
  qed
  finally show "kept (leaf_compacted ?es) (Suc a) = kept (leaf_compacted es) n" .
qed

lemma unspent_pruned:
  assumes "unspent_ok es (v, u)" "is_node a h" "Suc a - 2 ^ h = length v" "root_pos w = mmr_pos a h"
  shows "unspent_ok (es @ [w]) (v @ xs, u)"
  unfolding unspent_ok_def
proof (clarify, intro conjI)
  fix i assume "i \<in> u"
  then have i: "i < length v" "\<not> leaf_compacted es i" using assms(1) by (auto simp: unspent_ok_def)
  then show "i < length (v @ xs)" by simp
  show "\<not> leaf_compacted (es @ [w]) i"
    using i(2) leaf_pos_mono [OF i(1)] compacted_below_interval [OF assms(2)] assms(3,4) by (simp add: compacted_snoc)
qed

text \<open>The new root in the prune list, for a range with \<open>v\<close> and a node whose subtree starts behind it.\<close>

lemma new_root:
  assumes rep: "range_view B R DATA_SIZE ser valid es c m (v, u)"
    and node: "is_node a h" and first: "Suc a - 2 ^ h = length v" and small: "Suc a < 2 ^ 31"
  defines "w \<equiv> wire (of_nat (mmr_pos a h)) :: u32"
    and "p' \<equiv> AddPrunedRoot R (Index_At (of_nat (mmr_pos a h))) (pm_pruneList m)"
  shows "roots_under es (mmr_pos (length v) 0)" "root_pos w = mmr_pos a h" "roots_of R p' = es @ [w]" "prune_ok R p'"
    and "roots_under (es @ [w]) (Suc (mmr_pos a h))"
proof -
  let ?q = "mmr_pos a h"
  note r = rep [unfolded range_view_def prod.case]
  show under: "roots_under es (mmr_pos (length v) 0)"
    using r roots_under_mono [of es "mmr_pos c 0"] leaf_pos_mono_le [of c "length v"] by simp
  have q: "?q < 2 ^ 32 - 2" using node_before_next [OF node] leaf_pos_double [of "Suc a"] small by simp
  then have "unat (of_nat ?q :: u64) = ?q" by (intro unat_of_nat_u64) simp
  then show rw: "root_pos w = ?q" using unat_wire [of "of_nat ?q"] q by (simp add: root_pos_def w_def)
  show "roots_of R p' = es @ [w]" "prune_ok R p'"
    unfolding w_def p'_def using AddPrunedRoot_rep [OF _ _ node first, of R "pm_pruneList m"] r under q by auto
  have "mmr_pos (length v) 0 \<le> ?q" using leaf_pos_le [of "length v" a h] first one_le_power [of "2 :: nat" h] by linarith
  then show "roots_under (es @ [w]) (Suc ?q)"
    using roots_under_mono [OF under, of "Suc ?q"] rw by (simp add: roots_under_def)
qed

lemma AppendPrunedSubtree_packed:
  assumes len: "\<forall>x. length (B x) = 32"
    and rep: "range_view B R DATA_SIZE ser valid es c m (v, u)"
    and node: "is_node a h" and first: "Suc a - 2 ^ h = length v"
    and w: "length (v @ w) = Suc a" "Suc a < 2 ^ 31"
  defines "p' \<equiv> AddPrunedRoot R (Index_At (of_nat (mmr_pos a h))) (pm_pruneList m)"
  shows "\<exists>d'. AppendPrunedSubtree B R (node_hash B (map ser (v @ w)) a h) (of_nat (mmr_pos a h)) m =
      Some (Inr (), m\<lparr>pm_hashFile := d', pm_pruneList := p'\<rparr>) \<and>
    packed_rep B R p' (Suc (mmr_pos a h)) d' (map ser (v @ w)) (mmr_pos (Suc a) 0)"
proof -
  let ?n = "length v" and ?q = "mmr_pos a h" and ?ls = "map ser (v @ w)" and ?d = "pm_hashFile m"
  let ?hash = "node_hash B ?ls a h"
  note r = rep [unfolded range_view_def prod.case]
  note root = new_root [OF rep node first w(2), folded p'_def]
  have lim: "mmr_pos (Suc a) 0 \<le> 2 ^ 32 - 2" using leaf_pos_double [of "Suc a"] w(2) by simp
  have q: "?q < mmr_pos (Suc a) 0" by (rule node_before_next [OF node])
  note kp = kept_pruned(1) [OF node first root(2,1)]
  have al: "aligned 32 ?d" and rec: "records 32 (data_view ?d) = map (hash_at B (map ser v)) (kept (compacted es) (mmr_pos ?n 0))"
    using r by (simp_all add: files_rep_def aligned_def)
  have same: "map (hash_at B (map ser v)) (kept (compacted es) (mmr_pos ?n 0)) =
      map (hash_at B ?ls) (kept (compacted es) (mmr_pos ?n 0))"
    using hash_at_append [of _ "map ser v" B "map ser w"] by (intro map_cong) (auto dest: kept_bounds)
  have "length (data_view ?d) div 32 \<le> mmr_pos ?n 0"
    using arg_cong [OF rec, of length] length_kept_le [of "compacted es" "mmr_pos ?n 0"] by (simp add: length_records)
  moreover have "mmr_pos ?n 0 \<le> 2 ^ 32" using leaf_pos_double [of ?n] w by simp
  ultimately have "length (data_view ?d) + 32 < 2 ^ 62" by simp
  note add = AddData_aligned [OF al length_hash this, of B ?ls a h]
  have packed: "packed_rep B R p' (Suc ?q) (AddData ?hash ?d) ?ls (Suc ?q)"
    using root add len kp q lim hash_at_node [OF node, of B ?ls] by (simp add: packed_rep_def rec same)
  have small: "a < 2 ^ 50" using w(2) by simp
  have idx: "Index_At (of_nat ?q + 1) = GetNext (node a h)" by (simp add: GetNext_def node_def)
  from packed.close_parents_store [OF len refl node small lim le_refl packed]
  obtain d' where d': "close_parents B R p' (Index_At (of_nat ?q + 1)) (of_nat ?q) ?hash (AddData ?hash ?d) = Some (Inr (), d')"
    "packed_rep B R p' (Suc ?q) d' ?ls (mmr_pos (Suc a) 0)"
    unfolding idx by blast
  have "AppendPrunedSubtree B R ?hash (of_nat ?q) m = Some (Inr (), m\<lparr>pm_hashFile := d', pm_pruneList := p'\<rparr>)"
    using d'(1) by (simp add: AppendPrunedSubtree_def Let_def p'_def)
  then show ?thesis using d'(2) by blast
qed

lemma AppendPrunedSubtree_view:
  assumes len: "\<forall>x. length (B x) = 32"
    and rep: "range_view B R DATA_SIZE ser valid es c m (v, u)"
    and node: "is_node a h" and first: "Suc a - 2 ^ h = length v" and h: "0 < h"
    and w: "length (v @ w) = Suc a" "list_all valid w" "Suc a < 2 ^ 31"
  shows "\<exists>m'. AppendPrunedSubtree B R (node_hash B (map ser (v @ w)) a h) (of_nat (mmr_pos a h)) m = Some (Inr (), m') \<and>
    range_view B R DATA_SIZE ser valid (es @ [wire (of_nat (mmr_pos a h))]) (Suc a) m' (v @ w, u) \<and>
    pm_leafSet m' = pm_leafSet m"
proof -
  let ?n = "length v" and ?q = "mmr_pos a h" and ?w = "wire (of_nat (mmr_pos a h)) :: u32"
  let ?p = "AddPrunedRoot R (Index_At (of_nat (mmr_pos a h))) (pm_pruneList m)"
  note r = rep [unfolded range_view_def prod.case]
  note root = new_root [OF rep node first w(3)]
  note kp = kept_pruned(2) [OF node first root(2,1) h]
  obtain d' where d': "AppendPrunedSubtree B R (node_hash B (map ser (v @ w)) a h) (of_nat ?q) m =
      Some (Inr (), m\<lparr>pm_hashFile := d', pm_pruneList := ?p\<rparr>)"
    "packed_rep B R ?p (Suc ?q) d' (map ser (v @ w)) (mmr_pos (Suc a) 0)"
    using AppendPrunedSubtree_packed [OF len rep node first w(1,3)] by blast
  let ?m = "m\<lparr>pm_hashFile := d', pm_pruneList := ?p\<rparr>"
  have "unspent_ok (es @ [?w]) (v @ w, u)" using unspent_pruned [OF _ node first root(2)] r by simp
  moreover have "map (\<lambda>i. ser (v ! i)) (kept (leaf_compacted es) ?n) = map (\<lambda>i. ser ((v @ w) ! i)) (kept (leaf_compacted es) ?n)"
    by (intro map_cong) (auto simp: nth_append dest: kept_bounds)
  moreover have "roots_under (es @ [?w]) (mmr_pos (Suc a) 0)"
    using roots_under_mono [OF root(5)] node_before_next [OF node] by simp
  ultimately have "range_view B R DATA_SIZE ser valid (es @ [?w]) (Suc a) ?m (v @ w, u)"
    using r d'(2) root w kp unfolding range_view_def by (simp add: files_rep_def packed_rep_def aligned_def)
  then show ?thesis using d'(1) by (intro exI [of _ ?m]) simp
qed

lemma AppendLeaf_view:
  assumes codec: "record_codec DATA_SIZE ser deser valid" and len: "\<forall>x. length (B x) = 32"
    and rep: "range_view B R DATA_SIZE ser valid es c m (v, u)" and n: "length v + 1 < 2 ^ 31" and x: "valid x"
  shows "\<exists>m'. AppendLeaf B R ser x m = Some (Inr (), m') \<and>
    range_view B R DATA_SIZE ser valid es c m' (v @ [x], insert (length v) u) \<and>
    pm_leafSet m' = BitmapFile_Set (of_nat (length v)) (pm_leafSet m)"
proof -
  let ?f = "BitmapFile_Set (of_nat (length v)) (pm_leafSet m)"
  obtain h' where h': "AddHashes B R (ser x) (Some (pm_pruneList m)) (pm_hashFile m) = Some (Inr (), h')"
    "range_view B R DATA_SIZE ser valid es c
      (m\<lparr>pm_dirty := pm_dirty m, pm_leafSet := ?f, pm_dataFile := AddData (ser x) (pm_dataFile m), pm_hashFile := h'\<rparr>)
      (v @ [x], insert (length v) u)"
    using AddHashes_view [OF codec len rep n x] by blast
  let ?m = "m\<lparr>pm_leafSet := ?f, pm_dataFile := AddData (ser x) (pm_dataFile m), pm_hashFile := h'\<rparr>"
  have "AppendLeaf B R ser x m = Some (Inr (), ?m)"
    using h'(1) next_leaf_index [OF rep, of "pm_leafSet m"] by (simp add: AppendLeaf_def Let_def)
  then show ?thesis using h'(2) by (intro exI [of _ ?m]) simp
qed

lemma RewindToEmpty_view:
  assumes codec: "record_codec DATA_SIZE ser deser valid"
    and rep: "range_view B R DATA_SIZE ser valid [] c m (v, u)" and le: "bitmap_le b (pm_leafSet m)" "b + 1 \<le> 2 ^ 60"
  shows "\<exists>m'. RewindToEmpty DATA_SIZE m = (Inr (), m') \<and> range_view B R DATA_SIZE ser valid [] 0 m' ([], {}) \<and>
    bitmap_le (b + 1) (pm_leafSet m')"
proof -
  note r = rep [unfolded range_view_def prod.case]
  have "aligned 32 (pm_hashFile m)" using r by (simp add: files_rep_def aligned_def)
  from DataFile_Rewind_view [OF this, of 0] obtain h' where h': "DataFile_Rewind 32 0 (pm_hashFile m) = (Inr (), h')"
    "aligned 32 h'" "records 32 (data_view h') = []" by auto
  from DataFile_Rewind_view [OF data_aligned [OF codec rep], of 0] obtain d' where
    d': "DataFile_Rewind DATA_SIZE 0 (pm_dataFile m) = (Inr (), d')" "aligned DATA_SIZE d'"
    "records DATA_SIZE (data_view d') = []" by auto
  let ?f = "BitmapFile_Rewind 0 [] (pm_leafSet m)"
  let ?m = "m\<lparr>pm_hashFile := h', pm_dataFile := d', pm_leafSet := ?f\<rparr>"
  have "bitmap_ok (pm_leafSet m)" using bitmap_le_ok [OF le(1)] le(2) by simp
  then have "{i. IsSet ?f i} = {}" using IsSet_Rewind [of "pm_leafSet m" "[]" 0] by simp
  then have "range_view B R DATA_SIZE ser valid [] 0 ?m ([], {})"
    unfolding range_view_def using r h' d'
    by (simp add: files_rep_def aligned_def unspent_ok_def roots_under_def mmr_pos_def)
  moreover have "RewindToEmpty DATA_SIZE m = (Inr (), ?m)"
    using h'(1) d'(1) by (simp add: RewindToEmpty_def LeafSet_Rewind_def)
  moreover have "bitmap_le (b + 1) ?f" using bitmap_le_Rewind [OF le, of "[]" 0] by simp
  ultimately show ?thesis by (intro exI [of _ ?m]) simp
qed

section \<open>Where the code looks at the bitmap\<close>

lemma first_leaf_loop_node:
  "is_node a h \<Longrightarrow> a < 2 ^ 50 \<Longrightarrow> first_leaf_loop (node a h) = Some (node (Suc a - 2 ^ h) 0)"
proof (induction h arbitrary: a)
  case 0
  then show ?case by (subst first_leaf_loop.simps) (simp add: IsLeaf_node)
next
  case (Suc h)
  have right: "is_right a h" using Suc.prems(1) by (simp add: is_right_def)
  note left = right_node_shift [OF right]
  have h: "Suc h \<le> 50" by (rule node_height_small [OF Suc.prems])
  have "\<not> IsLeaf (node a (Suc h))" using h by (subst IsLeaf_node) simp_all
  moreover have "GetLeftChild (node a (Suc h)) = node (a - 2 ^ h) h" using GetLeftChild_node [OF Suc.prems(1)] h by simp
  moreover have "first_leaf_loop (node (a - 2 ^ h) h) = Some (node (Suc (a - 2 ^ h) - 2 ^ h) 0)"
    using Suc.IH [OF left(2)] Suc.prems(2) by simp
  moreover have "Suc (a - 2 ^ h) - 2 ^ h = Suc a - 2 ^ Suc h" using left(1) by simp
  ultimately show ?case by (subst first_leaf_loop.simps) simp
qed

lemma GetFirstLeafIndex_node:
  assumes "is_node a h" "a < 2 ^ 50"
  shows "GetFirstLeafIndex (node a h) = Some (of_nat (Suc a - 2 ^ h))"
proof -
  let ?n = "Suc a - 2 ^ h"
  have "?n < 2 ^ 50" using assms(2) one_le_power [of "2 :: nat" h] by linarith
  then have "m_leafIndex (LeafIndex_From (Index_At (of_nat (mmr_pos ?n 0)))) = of_nat ?n" by (rule leaf_index_from)
  then have "GetLeafIndex (node ?n 0) = of_nat ?n"
    by (simp add: LeafIndex_From_def GetLeafIndex_def Index_At_def node_def)
  then show ?thesis by (simp add: GetFirstLeafIndex_def first_leaf_loop_node [OF assms])
qed

text \<open>A subtree is required when the bitmap has a bit for one of its leaves.\<close>

lemma IsRequiredByBitmap_node:
  assumes node: "is_node a h" and a: "a < N" and N: "N < 2 ^ 31"
  shows "IsRequiredByBitmap bitmap (node a h) (of_nat (mmr_pos N 0)) =
    Some (\<exists>i \<in> {Suc a - 2 ^ h .. a}. BitmapContains bitmap (of_nat i))"
proof -
  let ?n = "Suc a - 2 ^ h"
  have h: "h \<le> 50" using node_height_small [OF node] a N by simp
  have le: "2 ^ h \<le> Suc a" using node unfolding is_node_def by (rule dvd_imp_le) simp
  have "unat (of_nat h :: u64) = h" using h by (intro unat_of_nat_u64) simp
  then have count: "push_bit (unat (m_height (node a h))) 1 = (of_nat (2 ^ h) :: u64)"
    by (simp add: node_def push_bit_eq_mult)
  have sum: "of_nat ?n + (of_nat (2 ^ h) :: u64) = of_nat (Suc a)"
    using le by (simp only: of_nat_add [symmetric]) simp
  have "mmr_pos N 0 < 2 ^ 32" using leaf_pos_double [of N] N by simp
  then have "CountLeaves (of_nat (mmr_pos N 0)) = of_nat N"
    using CountLeaves_eq [of "of_nat (mmr_pos N 0)"] node_coordinates(2) [OF is_node_leaf, of N]
    by (simp add: unat_of_nat_u64)
  moreover have u: "unat (of_nat (Suc a) :: u64) = Suc a" "unat (of_nat ?n :: u64) = ?n" "unat (of_nat N :: u64) = N"
    using a N le by (intro unat_of_nat_u64, simp)+
  ultimately have "min (CountLeaves (of_nat (mmr_pos N 0))) (of_nat (Suc a)) = of_nat (Suc a)"
  proof -
    have "(of_nat (Suc a) :: u64) \<le> of_nat N" unfolding word_le_nat_alt u using a by simp
    with \<open>CountLeaves _ = _\<close> show ?thesis by (simp only: min_absorb2)
  qed
  note last = this
  have "a < 2 ^ 50" using a N by simp
  show ?thesis
    unfolding IsRequiredByBitmap_def GetFirstLeafIndex_node [OF node \<open>a < 2 ^ 50\<close>] Let_def count option.map(2) sum last u
    unfolding list_ex_iff set_upt atLeastLessThanSuc_atLeastAtMost ..
qed

lemma GetSubtreeFirstPosition_node:
  assumes node: "is_node a h" and a: "a < 2 ^ 31"
  shows "GetSubtreeFirstPosition (node a h) = of_nat (mmr_pos (Suc a - 2 ^ h) 0)"
proof -
  have h: "h \<le> 50" using node_height_small [OF node] a by simp
  then have "unat (of_nat h + 1 :: u64) = Suc h" by (simp add: unat_height_Suc)
  then have "push_bit (unat (m_height (node a h) + 1)) 1 = (of_nat (2 ^ Suc h) :: u64)"
    by (simp add: node_def push_bit_eq_mult)
  moreover have "(of_nat (mmr_pos (Suc a - 2 ^ h) 0) :: u64) + of_nat (2 ^ Suc h) = of_nat (mmr_pos a h) + 2"
    using arg_cong [OF subtree_first [OF node], of "of_nat :: nat \<Rightarrow> u64"] by (simp only: of_nat_add of_nat_numeral)
  ultimately show ?thesis by (simp add: GetSubtreeFirstPosition_def node_def algebra_simps)
qed

section \<open>Applying the nodes of a segment\<close>

text \<open>
  The nodes of a segment are genuine for a list of elements: every hash belongs to an inner node of the range and is
  the hash of that node, every leaf is the element at its position. A hash at the position of a leaf is excluded.
\<close>

definition genuine :: "(bytes \<Rightarrow> bytes) \<Rightarrow> ('a \<Rightarrow> bytes) \<Rightarrow> 'a list \<Rightarrow> 'a Segment \<Rightarrow> bool" where
  "genuine B ser L sg \<longleftrightarrow>
     list_all2 (\<lambda>p x. 0 < height_at (unat p) \<and> unat p < mmr_pos (length L) 0 \<and> x = hash_at B (map ser L) (unat p))
       (sg_hash_pos sg) (sg_hashes sg) \<and>
     list_all2 (\<lambda>p x. height_at (unat p) = 0 \<and> unat p < mmr_pos (length L) 0 \<and> x = L ! leaf_at (unat p))
       (sg_leaf_pos sg) (sg_leaves sg)"

definition genuine_node :: "(bytes \<Rightarrow> bytes) \<Rightarrow> ('a \<Rightarrow> bytes) \<Rightarrow> 'a list \<Rightarrow> 'a Segment \<Rightarrow> SegmentNode \<Rightarrow> bool" where
  "genuine_node B ser L sg nd \<longleftrightarrow>
     (\<exists>a h. is_node a h \<and> a < length L \<and> sn_position nd = of_nat (mmr_pos a h) \<and>
        (if sn_isHash nd then 0 < h \<and> sg_hashes sg ! sn_index nd = node_hash B (map ser L) a h
         else h = 0 \<and> sg_leaves sg ! sn_index nd = L ! a))"

lemma genuine_nodes:
  assumes "genuine B ser L sg" "nd \<in> set (ordered_nodes sg)"
  shows "genuine_node B ser L sg nd"
proof -
  let ?p = "unat (sn_position nd)"
  have node: "is_node (leaf_at ?p) (height_at ?p)" "sn_position nd = of_nat (mmr_pos (leaf_at ?p) (height_at ?p))"
    using coordinates_node [of ?p] by simp_all
  have "leaf_at ?p < length L \<and>
      (if sn_isHash nd then 0 < height_at ?p \<and> sg_hashes sg ! sn_index nd = node_hash B (map ser L) (leaf_at ?p) (height_at ?p)
       else height_at ?p = 0 \<and> sg_leaves sg ! sn_index nd = L ! leaf_at ?p)"
    using assms leaf_at_less by (auto simp: ordered_nodes_def genuine_def list_all2_conv_all_nth hash_at_def)
  then show ?thesis unfolding genuine_node_def using node by blast
qed

text \<open>
  The range while a segment is applied: a prefix of \<open>n\<close> elements, pruned roots that are inner nodes, and every leaf of
  \<open>need\<close> below \<open>n\<close> unspent.
\<close>

definition prefix_view ::
  "(bytes \<Rightarrow> bytes) \<Rightarrow> 'b roaring \<Rightarrow> nat \<Rightarrow> ('a \<Rightarrow> bytes) \<Rightarrow> ('a \<Rightarrow> bool) \<Rightarrow> 'a list \<Rightarrow> (nat \<Rightarrow> bool) \<Rightarrow> nat \<Rightarrow>
   'b PruneableMMR \<Rightarrow> nat \<Rightarrow> bool" where
  "prefix_view B R DATA_SIZE ser valid L need b m n \<longleftrightarrow>
     n \<le> length L \<and> bitmap_le b (pm_leafSet m) \<and> 2 ^ 29 \<le> b \<and>
     (\<exists>es c u. range_view B R DATA_SIZE ser valid es c m (take n L, u) \<and>
        (\<forall>w \<in> set es. 0 < height_at (root_pos w)) \<and> (\<forall>i < n. need i \<longrightarrow> i \<in> u))"

lemma prefix_view_mono: "prefix_view B R D ser valid L need b m n \<Longrightarrow> prefix_view B R D ser valid L need (b + 1) m n"
  unfolding prefix_view_def using bitmap_le_mono [of b "pm_leafSet m" "b + 1"] by auto

lemma prefix_view_dirty:
  "prefix_view B R D ser valid L need b (m\<lparr>pm_dirty := x\<rparr>) n = prefix_view B R D ser valid L need b m n"
  by (simp add: prefix_view_def range_view_def)

lemma prefix_size: "prefix_view B R D ser valid L need b m n \<Longrightarrow> PMMR_GetSize R m = of_nat (mmr_pos n 0)"
  unfolding prefix_view_def using view_size by fastforce

lemma apply_leaf_prefix:
  assumes codec: "record_codec DATA_SIZE ser deser valid" and len: "\<forall>x. length (B x) = 32"
    and L: "list_all valid L" "length L < 2 ^ 31"
    and rep: "prefix_view B R DATA_SIZE ser valid L need b m n" and gen: "genuine_node B ser L sg nd"
    and leaf: "\<not> sn_isHash nd"
  shows "\<exists>r m' n'. apply_leaf B R ser sg nd m = Some (Inr r, m') \<and> n \<le> n' \<and>
    prefix_view B R DATA_SIZE ser valid L need (b + 1) m' n'"
proof (cases "sn_position nd = PMMR_GetSize R m")
  case False
  then show ?thesis using prefix_view_mono [OF rep] by (auto simp: apply_leaf_def)
next
  case True
  obtain a where a: "a < length L" "sn_position nd = of_nat (mmr_pos a 0)" "sg_leaves sg ! sn_index nd = L ! a"
    using gen leaf by (auto simp: genuine_node_def)
  obtain es c u where v: "range_view B R DATA_SIZE ser valid es c m (take n L, u)" "n \<le> length L" "bitmap_le b (pm_leafSet m)"
      "2 ^ 29 \<le> b" "\<forall>w \<in> set es. 0 < height_at (root_pos w)" "\<forall>i < n. need i \<longrightarrow> i \<in> u"
    using rep unfolding prefix_view_def by blast
  have "mmr_pos a 0 < 2 ^ 64" "mmr_pos n 0 < 2 ^ 64"
    using leaf_pos_double [of a] leaf_pos_double [of n] a(1) v(2) L(2) by simp_all
  moreover have "(of_nat (mmr_pos a 0) :: u64) = of_nat (mmr_pos n 0)"
    using True a(2) prefix_size [OF rep] by simp
  ultimately have "mmr_pos a 0 = mmr_pos n 0" by (metis unat_of_nat_u64)
  then have an: "a = n" using mmr_pos_inj [OF is_node_leaf is_node_leaf] by blast
  have "valid (L ! n)" using L(1) a(1) by (simp add: an list_all_length)
  then obtain m' where m': "AppendLeaf B R ser (L ! n) m = Some (Inr (), m')"
    "range_view B R DATA_SIZE ser valid es c m' (take n L @ [L ! n], insert n u)"
    "pm_leafSet m' = BitmapFile_Set (of_nat n) (pm_leafSet m)"
    using AppendLeaf_view [OF codec len v(1), of "L ! n"] v(2) a(1) L(2) an by auto
  have "unat (of_nat n :: u64) < 8 * b" using v(2,4) L(2) by (simp add: unat_of_nat_u64)
  then have "bitmap_le (b + 1) (pm_leafSet m')"
    unfolding m'(3) using bitmap_le_Set [OF v(3)] bitmap_le_mono by fastforce
  then have "prefix_view B R DATA_SIZE ser valid L need (b + 1) m' (Suc n)"
    unfolding prefix_view_def using m'(2) v(4-6) a(1) an
    by (intro conjI exI [of _ es] exI [of _ c] exI [of _ "insert n u"]) (auto simp: take_Suc_conv_app_nth less_Suc_eq)
  then show ?thesis
    using True m'(1) a(3) an by (intro exI [of _ True] exI [of _ m'] exI [of _ "Suc n"])
      (simp add: apply_leaf_def continue_after_def)
qed

text \<open>The subtree that starts at the end of the range becomes a pruned root.\<close>

lemma append_pruned_prefix:
  assumes len: "\<forall>x. length (B x) = 32" and L: "list_all valid L" "length L < 2 ^ 31"
    and rep: "prefix_view B R DATA_SIZE ser valid L need b m n"
    and node: "is_node a h" "a < length L" "0 < h" "Suc a - 2 ^ h = n"
    and free: "\<forall>i \<in> {n..a}. \<not> need i"
  shows "\<exists>m'. AppendPrunedSubtree B R (node_hash B (map ser L) a h) (of_nat (mmr_pos a h)) m = Some (Inr (), m') \<and>
    prefix_view B R DATA_SIZE ser valid L need b m' (Suc a)"
proof -
  obtain es c u where v: "range_view B R DATA_SIZE ser valid es c m (take n L, u)" "n \<le> length L" "bitmap_le b (pm_leafSet m)"
      "2 ^ 29 \<le> b" "\<forall>w \<in> set es. 0 < height_at (root_pos w)" "\<forall>i < n. need i \<longrightarrow> i \<in> u"
    using rep unfolding prefix_view_def by blast
  let ?w = "drop n (take (Suc a) L)" and ?q = "mmr_pos a h"
  have na: "n \<le> Suc a" using node(4) by simp
  have split: "take n L @ ?w = take (Suc a) L"
    using na append_take_drop_id [of n "take (Suc a) L"] by (simp add: min_absorb1)
  have hash: "node_hash B (map ser (take (Suc a) L)) a h = node_hash B (map ser L) a h"
    using node(2) by (intro node_hash_cong) simp
  have "list_all valid ?w" using L(1) by (auto simp: list_all_iff dest!: in_set_dropD in_set_takeD)
  then obtain m' where m': "AppendPrunedSubtree B R (node_hash B (map ser L) a h) (of_nat ?q) m = Some (Inr (), m')"
    "range_view B R DATA_SIZE ser valid (es @ [wire (of_nat ?q)]) (Suc a) m' (take (Suc a) L, u)"
    "pm_leafSet m' = pm_leafSet m"
    using AppendPrunedSubtree_view [OF len v(1) node(1) _ node(3), of ?w] node v(2) L(2) unfolding split hash
    by (auto simp: min_absorb1 min_absorb2)
  have "?q < 2 ^ 32 - 1"
    using node_before_next [OF node(1)] leaf_pos_double [of "Suc a"] node(2) L(2) by simp
  then have "root_pos (wire (of_nat ?q)) = ?q"
    using unat_wire [of "of_nat ?q"] unat_of_nat_u64 [of ?q] by (simp add: root_pos_def)
  then have "0 < height_at (root_pos (wire (of_nat ?q)))" using node_coordinates(1) [OF node(1)] node(3) by simp
  then have roots: "\<forall>w \<in> set (es @ [wire (of_nat ?q)]). 0 < height_at (root_pos w)" using v(5) by simp
  have "\<forall>i < Suc a. need i \<longrightarrow> i \<in> u"
  proof (intro allI impI)
    fix i assume "i < Suc a" "need i"
    then show "i \<in> u" using free v(6) by (cases "i < n") auto
  qed
  then have "prefix_view B R DATA_SIZE ser valid L need b m' (Suc a)"
    unfolding prefix_view_def using m'(2,3) roots v(3,4) node(2)
    by (intro conjI exI [of _ "es @ [wire (of_nat ?q)]"] exI [of _ "Suc a"] exI [of _ u]) simp_all
  then show ?thesis using m'(1) by blast
qed

lemma rewind_prefix:
  assumes codec: "record_codec DATA_SIZE ser deser valid"
    and rep: "prefix_view B R DATA_SIZE ser valid L need b m 1" and b: "b + 1 \<le> 2 ^ 60"
  shows "\<exists>m'. RewindToEmpty DATA_SIZE m = (Inr (), m') \<and> prefix_view B R DATA_SIZE ser valid L need (b + 1) m' 0"
proof -
  obtain es c u where v: "range_view B R DATA_SIZE ser valid es c m (take 1 L, u)" "bitmap_le b (pm_leafSet m)" "2 ^ 29 \<le> b"
      "\<forall>w \<in> set es. 0 < height_at (root_pos w)"
    using rep unfolding prefix_view_def by blast
  have "root_pos w = 0" if "w \<in> set es" for w
  proof -
    have "c \<le> 1" "roots_under es (mmr_pos c 0)" using v(1) by (auto simp: range_view_def)
    then have "root_pos w < mmr_pos 1 0" using that leaf_pos_mono_le [of c 1] by (force simp: roots_under_def)
    then show ?thesis by (simp add: sample_positions)
  qed
  moreover have "height_at 0 = 0" using node_coordinates(1) [OF is_node_leaf, of 0] by (simp add: sample_positions)
  ultimately have "set es = {}" using v(4) by fastforce
  then have "range_view B R DATA_SIZE ser valid [] c m (take 1 L, u)" using v(1) by simp
  from RewindToEmpty_view [OF codec this v(2) b] v(3) show ?thesis
    unfolding prefix_view_def by fastforce
qed

lemma leaf_position_eq_iff: "m < 2 ^ 31 \<Longrightarrow> n < 2 ^ 31 \<Longrightarrow> (of_nat (mmr_pos m 0) :: u64) = of_nat (mmr_pos n 0) \<longleftrightarrow> m = n"
proof -
  assume "m < 2 ^ 31" "n < 2 ^ 31"
  then have "mmr_pos m 0 < 2 ^ 64" "mmr_pos n 0 < 2 ^ 64" using leaf_pos_double [of m] leaf_pos_double [of n] by simp_all
  then show ?thesis
    using mmr_pos_inj [OF is_node_leaf is_node_leaf, of m n] unat_of_nat_u64 by metis
qed

lemma apply_pruned_root_prefix:
  assumes codec: "record_codec DATA_SIZE ser deser valid" and len: "\<forall>x. length (B x) = 32"
    and L: "list_all valid L" "length L < 2 ^ 31"
    and rep: "prefix_view B R DATA_SIZE ser valid L need b m n" and b: "b + 1 \<le> 2 ^ 60"
    and node: "is_node a h" "a < length L" "0 < h" and pos: "sn_position nd = of_nat (mmr_pos a h)" "n \<le> Suc a"
    and hash: "sg_hashes sg ! sn_index nd = node_hash B (map ser L) a h"
    and free: "\<forall>i \<in> {Suc a - 2 ^ h..a}. \<not> need i"
  shows "\<exists>r m' n'. apply_pruned_root B R DATA_SIZE sg nd m = Some (Inr r, m') \<and> n \<le> n' \<and>
    prefix_view B R DATA_SIZE ser valid L need (b + 1) m' n'"
proof -
  let ?s = "Suc a - 2 ^ h"
  have n: "n < 2 ^ 31" using rep L(2) by (simp add: prefix_view_def)
  have a: "a < 2 ^ 50" "a < 2 ^ 31" "?s < 2 ^ 31" using node(2) L(2) by simp_all
  have start: "GetSubtreeFirstPosition (Index_At (sn_position nd)) = of_nat (mmr_pos ?s 0)"
    unfolding pos(1) Index_At_pos [OF node(1) a(1)] by (rule GetSubtreeFirstPosition_node [OF node(1) a(2)])
  note size = prefix_size [OF rep]
  have zero: "of_nat (mmr_pos ?s 0) = (0 :: u64) \<longleftrightarrow> ?s = 0"
    using leaf_position_eq_iff [OF a(3), of 0] by (simp add: sample_positions)
  have one: "of_nat (mmr_pos n 0) = (1 :: u64) \<longleftrightarrow> n = 1"
    using leaf_position_eq_iff [OF n, of 1] by (simp add: sample_positions)
  have append: "\<exists>r m2 n'. continue_after (AppendPrunedSubtree B R (sg_hashes sg ! sn_index nd) (sn_position nd) m1) =
      Some (Inr r, m2) \<and> n \<le> n' \<and> prefix_view B R DATA_SIZE ser valid L need (b + 1) m2 n'"
    if "prefix_view B R DATA_SIZE ser valid L need (b + 1) m1 ?s" for m1
    using append_pruned_prefix [OF len L that node refl free] pos(2)
    by (force simp: continue_after_def hash pos(1))
  have stop: ?thesis if "apply_pruned_root B R DATA_SIZE sg nd m = Some (Inr False, m)"
    using that prefix_view_mono [OF rep] by blast
  show ?thesis
  proof (cases "?s = n")
    case True
    then show ?thesis
      using append [of m] prefix_view_mono [OF rep] by (simp add: apply_pruned_root_def Let_def start size)
  next
    case ne: False
    then have neq: "of_nat (mmr_pos ?s 0) \<noteq> (of_nat (mmr_pos n 0) :: u64)" using leaf_position_eq_iff [OF a(3) n] by simp
    show ?thesis
    proof (cases "(of_nat (mmr_pos ?s 0) :: u64) < of_nat (mmr_pos n 0) \<and> ?s = 0 \<and> n = 1")
      case True
      then obtain m1 where m1: "RewindToEmpty DATA_SIZE m = (Inr (), m1)" "prefix_view B R DATA_SIZE ser valid L need (b + 1) m1 0"
        using rewind_prefix [OF codec, of B R L need b m] rep b by auto
      then show ?thesis
        using True append [of m1] zero one by (simp add: apply_pruned_root_def Let_def start size)
    next
      case False
      then show ?thesis
        using neq zero one by (intro stop) (auto simp: apply_pruned_root_def Let_def start size)
    qed
  qed
qed

lemma apply_node_prefix:
  assumes codec: "record_codec DATA_SIZE ser deser valid" and len: "\<forall>x. length (B x) = 32"
    and L: "list_all valid L" "length L < 2 ^ 31"
    and rep: "prefix_view B R DATA_SIZE ser valid L need b m n" and b: "b + 1 \<le> 2 ^ 60"
    and gen: "genuine_node B ser L sg nd" and need: "\<And>i. need i \<Longrightarrow> BitmapContains bitmap (of_nat i)"
  shows "\<exists>r m' n'. apply_node B R DATA_SIZE ser sg (of_nat (mmr_pos (length L) 0)) (Some bitmap) nd m = Some (Inr r, m') \<and>
    n \<le> n' \<and> prefix_view B R DATA_SIZE ser valid L need (b + 1) m' n'"
proof (cases "sn_position nd < PMMR_GetSize R m \<or>
    \<not> sn_isHash nd \<and> \<not> IsLeafRequiredByBitmap bitmap (Index_At (sn_position nd)) (of_nat (mmr_pos (length L) 0))")
  case True
  then show ?thesis using prefix_view_mono [OF rep] by (auto simp: apply_node_def Let_def)
next
  case False
  show ?thesis
  proof (cases "sn_isHash nd")
    case leaf: False
    then show ?thesis
      using apply_leaf_prefix [OF codec len L rep gen leaf] False by (simp add: apply_node_def Let_def)
  next
    case hash: True
    then obtain a h where a: "is_node a h" "a < length L" "0 < h" "sn_position nd = of_nat (mmr_pos a h)"
      "sg_hashes sg ! sn_index nd = node_hash B (map ser L) a h"
      using gen unfolding genuine_node_def by auto
    have idx: "Index_At (sn_position nd) = node a h" using Index_At_pos [OF a(1)] a(2,4) L(2) by simp
    have "n \<le> length L" using rep by (simp add: prefix_view_def)
    then have "n \<le> Suc a"
    proof -
      have small: "mmr_pos a h < 2 ^ 64" "mmr_pos n 0 < 2 ^ 64"
        using node_before_next [OF a(1)] leaf_pos_double [of "Suc a"] leaf_pos_double [of n] a(2) L(2) \<open>n \<le> length L\<close> by simp_all
      have "\<not> sn_position nd < PMMR_GetSize R m" using False by blast
      then have "\<not> mmr_pos a h < mmr_pos n 0"
        unfolding a(4) prefix_size [OF rep] word_less_nat_alt unat_of_nat_u64 [OF small(1)] unat_of_nat_u64 [OF small(2)] .
      then show ?thesis using node_pos_less_iff [OF a(1), of n] by simp
    qed
    note req = IsRequiredByBitmap_node [OF a(1,2) L(2), of bitmap]
    show ?thesis
    proof (cases "\<exists>i \<in> {Suc a - 2 ^ h .. a}. BitmapContains bitmap (of_nat i)")
      case True
      then show ?thesis
        using False hash prefix_view_mono [OF rep] by (auto simp: apply_node_def Let_def idx req)
    next
      case free: False
      have "\<forall>i \<in> {Suc a - 2 ^ h .. a}. \<not> need i" using free need by blast
      from apply_pruned_root_prefix [OF codec len L rep b a(1-4) \<open>n \<le> Suc a\<close> a(5) this]
      show ?thesis using False hash free by (simp add: apply_node_def Let_def idx req)
    qed
  qed
qed

lemma apply_nodes_prefix:
  assumes codec: "record_codec DATA_SIZE ser deser valid" and len: "\<forall>x. length (B x) = 32"
    and L: "list_all valid L" "length L < 2 ^ 31" and need: "\<And>i. need i \<Longrightarrow> BitmapContains bitmap (of_nat i)"
  shows "prefix_view B R DATA_SIZE ser valid L need b m n \<Longrightarrow> b + length nds \<le> 2 ^ 60 \<Longrightarrow>
    \<forall>nd \<in> set nds. genuine_node B ser L sg nd \<Longrightarrow>
    \<exists>r m' n' b'. apply_nodes B R DATA_SIZE ser sg (of_nat (mmr_pos (length L) 0)) (Some bitmap) nds m = Some (Inr r, m') \<and>
      n \<le> n' \<and> prefix_view B R DATA_SIZE ser valid L need b' m' n'"
proof (induction nds arbitrary: m n b)
  case Nil
  then show ?case by auto
next
  case (Cons nd nds)
  obtain r m1 n1 where m1: "apply_node B R DATA_SIZE ser sg (of_nat (mmr_pos (length L) 0)) (Some bitmap) nd m = Some (Inr r, m1)"
    "n \<le> n1" "prefix_view B R DATA_SIZE ser valid L need (b + 1) m1 n1"
    using apply_node_prefix [OF codec len L Cons.prems(1) _ _ need, of sg nd] Cons.prems(2,3) by auto
  show ?case
  proof (cases r)
    case True
    have "b + 1 + length nds \<le> 2 ^ 60" "\<forall>nd \<in> set nds. genuine_node B ser L sg nd" using Cons.prems(2,3) by simp_all
    from Cons.IH [OF m1(3) this] obtain r' m' n' b' where
      m': "apply_nodes B R DATA_SIZE ser sg (of_nat (mmr_pos (length L) 0)) (Some bitmap) nds m1 = Some (Inr r', m')"
      "n1 \<le> n'" "prefix_view B R DATA_SIZE ser valid L need b' m' n'" by blast
    have "n \<le> n'" using m1(2) m'(2) by simp
    then show ?thesis using True m1(1) m'(1,3) by (intro exI [of _ r'] exI [of _ m'] exI [of _ n'] exI [of _ b']) simp
  next
    case False
    then show ?thesis using m1 by (intro exI [of _ False] exI [of _ m1] exI [of _ n1] exI [of _ "b + 1"]) simp
  qed
qed

text \<open>
  C11. Applying a segment of outputs or range proofs whose hashes all belong to inner nodes never damages the range. Take a
  range that holds the first \<open>n\<close> elements of a list \<open>L\<close> (with inner nodes pruned), any bitmap, and a segment whose hashes
  are those of inner nodes and whose leaves are those of \<open>L\<close>, in whatever selection: \<open>ApplySegment\<close> returns without an
  exception, and afterwards the range is again a prefix of \<open>L\<close>, at least as long, with its size, its root and in every
  lookup the right element or none. No unspent leaf is lost: a leaf that the bitmap marks is found when it was unspent
  before or is new. (The code does not refuse the hash of a leaf; with one, an unspent leaf can be lost, as shown below.)
\<close>

theorem genuine_segment_keeps_range:
  assumes "record_codec DATA_SIZE ser deser valid" "\<forall>x. length (B x) = 32" "list_all valid L" "length L < 2 ^ 31"
    and "genuine B ser L sg" "n \<le> length L"
    and "range_view B R DATA_SIZE ser valid es c m (take n L, u)" "\<forall>w \<in> set es. 0 < height_at (root_pos w)"
    and "bitmap_le b (pm_leafSet m)" "2 ^ 29 \<le> b" "b + length (sg_hash_pos sg) + length (sg_leaf_pos sg) \<le> 2 ^ 60"
  shows "\<exists>r m' n'. PMMR_ApplySegment B R DATA_SIZE ser sg (of_nat (mmr_pos (length L) 0)) (Some bitmap) m = Some (Inr r, m') \<and>
    n \<le> n' \<and> n' \<le> length L \<and> PMMR_GetSize R m' = of_nat (mmr_pos n' 0) \<and>
    PMMR_Root B R (of_nat (mmr_pos n' 0)) m' = Inr (mmr_root B (map ser (take n' L))) \<and>
    (\<forall>i < n'. PMMR_GetAt R DATA_SIZE deser (LeafIndex_At (of_nat i)) m' \<in> {Inr None, Inr (Some (L ! i))}) \<and>
    (\<forall>i < n'. (i \<in> u \<or> n \<le> i) \<and> BitmapContains bitmap (of_nat i) \<longrightarrow>
      PMMR_GetAt R DATA_SIZE deser (LeafIndex_At (of_nat i)) m' = Inr (Some (L ! i)))"
proof -
  let ?need = "\<lambda>i. (i \<in> u \<or> n \<le> i) \<and> BitmapContains bitmap (of_nat i)"
  let ?apply = "PMMR_ApplySegment B R DATA_SIZE ser sg (of_nat (mmr_pos (length L) 0)) (Some bitmap) m"
  have rep: "prefix_view B R DATA_SIZE ser valid L ?need b (m\<lparr>pm_dirty := True\<rparr>) n"
    unfolding prefix_view_dirty unfolding prefix_view_def using assms(6-10) by auto
  have lens: "length (sg_leaf_pos sg) = length (sg_leaves sg)" "length (sg_hash_pos sg) = length (sg_hashes sg)"
    using assms(5) by (auto simp: genuine_def dest: list_all2_lengthD)
  have "length (ordered_nodes sg) = length (sg_hash_pos sg) + length (sg_leaf_pos sg)"
    by (simp add: ordered_nodes_def)
  then obtain r m' n' b' where m': "?apply = Some (Inr r, m')" "n \<le> n'" "prefix_view B R DATA_SIZE ser valid L ?need b' m' n'"
    using apply_nodes_prefix [OF assms(1-4) _ rep, of bitmap "ordered_nodes sg" sg] genuine_nodes [OF assms(5)] assms(11) lens
    by (auto simp: PMMR_ApplySegment_def)
  obtain es' c' u' where v: "range_view B R DATA_SIZE ser valid es' c' m' (take n' L, u')" "n' \<le> length L" "\<forall>i < n'. ?need i \<longrightarrow> i \<in> u'"
    using m'(3) unfolding prefix_view_def by blast
  have "c' \<le> n'" using v(1,2) by (simp add: range_view_def)
  then have root: "PMMR_Root B R (of_nat (mmr_pos n' 0)) m' = Inr (mmr_root B (map ser (take n' L)))"
    using view_root [OF v(1), of n'] v(2) by simp
  have get: "PMMR_GetAt R DATA_SIZE deser (LeafIndex_At (of_nat i)) m' = Inr (if i \<in> u' then Some (L ! i) else None)"
    if "i < n'" for i
    using view_get [OF assms(1) v(1), of i] that v(2) by simp
  show ?thesis
    using m'(1,2) v(2,3) prefix_size [OF m'(3)] root get
    by (intro exI [of _ r] exI [of _ m'] exI [of _ n']) simp
qed

definition sample_segment :: "OutputIdentifier Segment" where
  "sample_segment =
     \<lparr>sg_id = \<lparr>si_height = 2, si_index = 0\<rparr>, sg_hash_pos = [2],
      sg_hashes = [hash_at sample_hash (replicate 4 (OutputIdentifier_Serialize sample_output)) 2],
      sg_leaf_pos = [4], sg_leaves = [sample_output], sg_proof = []\<rparr>"

lemma sample_genuine: "genuine sample_hash OutputIdentifier_Serialize (replicate 4 sample_output) sample_segment"
proof -
  have "height_at 2 = 1" using node_coordinates(1) [of 1 1] sample_positions(6) by (simp add: is_node_def)
  moreover have "height_at 4 = 0" "leaf_at 4 = 3"
    using node_coordinates [OF is_node_leaf, of 3] by (simp_all add: sample_positions)
  moreover have "mmr_pos 4 0 = 7" by code_simp
  ultimately show ?thesis by (simp add: genuine_def sample_segment_def)
qed

text \<open>The bitmap marks the unspent leaf of the range and the new leaf of the segment.\<close>

definition marked_bitmap :: BitmapAccumulator where
  "marked_bitmap = Accumulator_New\<lparr>ba_chunks := [Chunk_Set 3 True (Chunk_Set 2 True BitmapChunk_New)]\<rparr>"

lemma marked_bitmap_bits: "BitmapContains marked_bitmap 2" "BitmapContains marked_bitmap 3"
  by code_simp+

theorem genuine_segment_keeps_range_witness:
  "BitmapContains marked_bitmap 2 \<and> BitmapContains marked_bitmap 3 \<and>
   (\<exists>r m' n'. PMMR_ApplySegment sample_hash sample_roaring OUTPUT_SIZE OutputIdentifier_Serialize sample_segment
      (of_nat (mmr_pos (length (replicate 4 sample_output)) 0)) (Some marked_bitmap) sample_range = Some (Inr r, m') \<and>
    3 \<le> n' \<and> n' \<le> length (replicate 4 sample_output) \<and> PMMR_GetSize sample_roaring m' = of_nat (mmr_pos n' 0) \<and>
    PMMR_Root sample_hash sample_roaring (of_nat (mmr_pos n' 0)) m' =
      Inr (mmr_root sample_hash (map OutputIdentifier_Serialize (take n' (replicate 4 sample_output)))) \<and>
    (\<forall>i < n'. PMMR_GetAt sample_roaring OUTPUT_SIZE OutputIdentifier_Deserialize (LeafIndex_At (of_nat i)) m' \<in>
      {Inr None, Inr (Some (replicate 4 sample_output ! i))}) \<and>
    (\<forall>i < n'. (i \<in> {2} \<or> 3 \<le> i) \<and> BitmapContains marked_bitmap (of_nat i) \<longrightarrow>
      PMMR_GetAt sample_roaring OUTPUT_SIZE OutputIdentifier_Deserialize (LeafIndex_At (of_nat i)) m' =
        Inr (Some (replicate 4 sample_output ! i))))"
proof (intro conjI marked_bitmap_bits, rule genuine_segment_keeps_range [OF output_records _ _ _ sample_genuine])
  have "take 3 (replicate 4 sample_output) = replicate 3 sample_output" by simp
  then show "range_view sample_hash sample_roaring OUTPUT_SIZE OutputIdentifier_Serialize (\<lambda>oi. length (oi_commitment oi) = 33)
      [3] 2 sample_range (take 3 (replicate 4 sample_output), {2})"
    using sample_range_rep unfolding pmmr_rep_def by (simp only: prod.case)
  have "height_at 2 = 1" using node_coordinates(1) [of 1 1] sample_positions(6) by (simp add: is_node_def)
  then show "\<forall>w \<in> set [3]. 0 < height_at (root_pos w)" by (simp add: root_pos_def)
  show "bitmap_le (2 ^ 29) (pm_leafSet sample_range)" "(2 :: nat) ^ 29 \<le> 2 ^ 29"
    using sample_range_rep unfolding pmmr_rep_def by (simp_all only: prod.case)
qed (simp_all add: sample_hash_def sample_valid sample_segment_def list_all_iff)

section \<open>A hash at the position of a leaf\<close>

text \<open>
  The prune list counts no leaf as compacted below a root of height 0, but \<open>AppendPrunedSubtree\<close> adds no record to the data
  file for it either. The segment below provides two leaves and, at the position of the first, its hash as well.
\<close>

definition leaf_hash_segment :: "(bytes \<Rightarrow> bytes) \<Rightarrow> ('a \<Rightarrow> bytes) \<Rightarrow> nat \<Rightarrow> 'a \<Rightarrow> 'a \<Rightarrow> SegmentIdentifier \<Rightarrow> SegmentProof \<Rightarrow> 'a Segment"
  where
  "leaf_hash_segment B ser n y x si pf =
     \<lparr>sg_id = si, sg_hash_pos = [of_nat (mmr_pos n 0)], sg_hashes = [HashLeafWithIndex B (ser y) (of_nat (mmr_pos n 0))],
      sg_leaf_pos = [of_nat (mmr_pos n 0), of_nat (mmr_pos (Suc n) 0)], sg_leaves = [y, x], sg_proof = pf\<rparr>"

lemma leaf_hash_nodes:
  assumes "Suc n < 2 ^ 31"
  shows "ordered_nodes (leaf_hash_segment B ser n y x si pf) =
    [\<lparr>sn_index = 0, sn_position = of_nat (mmr_pos n 0), sn_isHash = True\<rparr>,
     \<lparr>sn_index = 0, sn_position = of_nat (mmr_pos n 0), sn_isHash = False\<rparr>,
     \<lparr>sn_index = 1, sn_position = of_nat (mmr_pos (Suc n) 0), sn_isHash = False\<rparr>]"
proof -
  have "unat (of_nat (mmr_pos n 0) :: u64) = mmr_pos n 0" "unat (of_nat (mmr_pos (Suc n) 0) :: u64) = mmr_pos (Suc n) 0"
    using leaf_pos_double [of n] leaf_pos_double [of "Suc n"] assms by (simp_all add: unat_of_nat_u64)
  moreover have "mmr_pos n 0 < mmr_pos (Suc n) 0" by (rule leaf_pos_mono) simp
  ultimately show ?thesis by (simp add: ordered_nodes_def leaf_hash_segment_def upt_rec)
qed

text \<open>The root of height 0 compacts nothing.\<close>

lemma leaf_root_compacts_nothing: "root_pos w = mmr_pos n 0 \<Longrightarrow> compacted (es @ [w]) = compacted es"
  using compacted_below_interval [OF is_node_leaf, of n] by (intro ext) (simp add: compacted_snoc)

lemma leaf_hash_applied:
  assumes len: "\<forall>x. length (B x) = 32" and rep: "range_view B R DATA_SIZE ser valid es c m (v, u)"
    and n: "length v = n" "n < N" "N < 2 ^ 31" and free: "\<not> BitmapContains bitmap (of_nat n)"
  defines "p' \<equiv> AddPrunedRoot R (Index_At (of_nat (mmr_pos n 0))) (pm_pruneList m)"
  shows "\<exists>d'. apply_node B R DATA_SIZE ser (leaf_hash_segment B ser n y x si pf) (of_nat (mmr_pos N 0)) (Some bitmap)
      \<lparr>sn_index = 0, sn_position = of_nat (mmr_pos n 0), sn_isHash = True\<rparr> m =
      Some (Inr True, m\<lparr>pm_hashFile := d', pm_pruneList := p'\<rparr>) \<and>
    packed_rep B R p' (Suc (mmr_pos n 0)) d' (map ser (v @ [y])) (mmr_pos (Suc n) 0)"
proof -
  have idx: "Index_At (of_nat (mmr_pos n 0)) = node n 0" using Index_At_pos [OF is_node_leaf] n by simp
  have req: "IsRequiredByBitmap bitmap (node n 0) (of_nat (mmr_pos N 0)) = Some False"
    using IsRequiredByBitmap_node [OF is_node_leaf n(2,3), of bitmap] free by simp
  have start: "GetSubtreeFirstPosition (node n 0) = of_nat (mmr_pos n 0)"
    using GetSubtreeFirstPosition_node [OF is_node_leaf, of n] n by simp
  have hash: "HashLeafWithIndex B (ser y) (of_nat (mmr_pos n 0)) = node_hash B (map ser (v @ [y])) n 0"
    using n(1) by (auto simp: nth_append)
  obtain d' where d': "AppendPrunedSubtree B R (node_hash B (map ser (v @ [y])) n 0) (of_nat (mmr_pos n 0)) m =
      Some (Inr (), m\<lparr>pm_hashFile := d', pm_pruneList := p'\<rparr>)"
    "packed_rep B R p' (Suc (mmr_pos n 0)) d' (map ser (v @ [y])) (mmr_pos (Suc n) 0)"
    unfolding p'_def using AppendPrunedSubtree_packed [OF len rep is_node_leaf [of n], of "[y]"] n by auto
  have "apply_pruned_root B R DATA_SIZE (leaf_hash_segment B ser n y x si pf)
      \<lparr>sn_index = 0, sn_position = of_nat (mmr_pos n 0), sn_isHash = True\<rparr> m =
      Some (Inr True, m\<lparr>pm_hashFile := d', pm_pruneList := p'\<rparr>)"
    unfolding apply_pruned_root_def Let_def leaf_hash_segment_def Segment.simps SegmentNode.simps idx start
      view_size [OF rep] n(1) hash nth_Cons_0 d'(1) by (simp add: continue_after_def)
  then show ?thesis
    using d'(2) view_size [OF rep] n(1) by (intro exI [of _ d']) (simp add: apply_node_def Let_def idx req)
qed

text \<open>The second leaf is added behind it; the data file has one record less than the prune list tells.\<close>

lemma leaf_after_leaf_hash:
  assumes codec: "record_codec DATA_SIZE ser deser valid" and len: "\<forall>x. length (B x) = 32"
    and rep: "range_view B R DATA_SIZE ser valid es c m (v, u)" and n: "length v = n" "Suc (Suc n) < 2 ^ 31" and x: "valid x"
    and d: "packed_rep B R p' (Suc (mmr_pos n 0)) d (map ser (v @ [y])) (mmr_pos (Suc n) 0)"
    and p': "p' = AddPrunedRoot R (Index_At (of_nat (mmr_pos n 0))) (pm_pruneList m)"
  defines "m1 \<equiv> m\<lparr>pm_hashFile := d, pm_pruneList := p'\<rparr>"
  shows "\<exists>m'. AppendLeaf B R ser x m1 = Some (Inr (), m') \<and>
    PMMR_GetSize R m' = of_nat (mmr_pos (n + 2) 0) \<and>
    PMMR_Root B R (of_nat (mmr_pos (n + 2) 0)) m' = Inr (mmr_root B (map ser (v @ [y, x]))) \<and>
    IsUnpruned R (LeafIndex_At (of_nat (n + 1))) m' \<and>
    PMMR_GetAt R DATA_SIZE deser (LeafIndex_At (of_nat (n + 1))) m' = Inr None"
proof -
  let ?q = "mmr_pos (Suc n) 0" and ?l = "LeafIndex_At (of_nat (n + 1))" and ?w = "wire (of_nat (mmr_pos n 0)) :: u32"
  note root = new_root [OF rep is_node_leaf [of n], folded p'] and r = rep [unfolded range_view_def prod.case]
  have roots: "roots_of R p' = es @ [?w]" "prune_ok R p'" "root_pos ?w = mmr_pos n 0" using root n by simp_all
  have lim: "mmr_pos (Suc (Suc n)) 0 \<le> 2 ^ 32 - 2" using leaf_pos_double [of "Suc (Suc n)"] n by simp
  have lt: "mmr_pos n 0 < ?q" "?q < mmr_pos (Suc (Suc n)) 0" by (simp_all add: leaf_pos_mono)
  obtain d2 where d2: "AddHashes B R (ser x) (Some p') d = Some (Inr (), d2)"
    "packed_rep B R p' (Suc (mmr_pos n 0)) d2 (map ser (v @ [y, x])) (mmr_pos (Suc (Suc n)) 0)"
    using packed.AddHashes_store [OF len, of R p' "Suc (mmr_pos n 0)" d "map ser (v @ [y])" "ser x"] d n lim lt by auto
  let ?f = "BitmapFile_Set (of_nat (Suc n)) (pm_leafSet m)" and ?dat = "AddData (ser x) (pm_dataFile m)"
  let ?m = "m1\<lparr>pm_leafSet := ?f, pm_dataFile := ?dat, pm_hashFile := d2\<rparr>"
  have "PMMR_GetSize R m1 = of_nat ?q" using packed_size [OF d] by (simp add: PMMR_GetSize_def m1_def add.commute)
  then have append: "AppendLeaf B R ser x m1 = Some (Inr (), ?m)"
    using d2(1) leaf_index_from [of "Suc n"] n by (simp add: AppendLeaf_def Let_def LeafSet_Add_def m1_def)
  have size: "PMMR_GetSize R ?m = of_nat (mmr_pos (Suc (Suc n)) 0)"
    using packed_size [OF d2(2)] by (simp add: PMMR_GetSize_def m1_def add.commute)
  have rt: "PMMR_Root B R (of_nat (mmr_pos (Suc (Suc n)) 0)) ?m = Inr (mmr_root B (map ser (v @ [y, x])))"
    using packed.Root_store [of B R p' "Suc (mmr_pos n 0)" d2 "map ser (v @ [y, x])" "Suc (Suc n)"] d2(2) n lt
    by (simp add: PMMR_Root_def m1_def)
  have un: "unat (of_nat (n + 1) :: u64) = Suc n" using n by (simp add: unat_of_nat_u64 del: of_nat_Suc)
  have lpos: "LeafIndex_GetPosition ?l = of_nat ?q" by (simp only: LeafIndex_At_position un)
  have below: "\<not> PMMR_GetSize R ?m \<le> LeafIndex_GetPosition ?l"
    unfolding size lpos using lim lt by (simp add: word_le_nat_alt unat_of_nat_u64)
  have unpruned: "IsUnpruned R ?l ?m"
    using below by (simp add: IsUnpruned_def LeafSet_Contains_def IsSet_Set) (simp add: LeafIndex_At_def)
  have nc: "\<not> leaf_compacted es n" "\<not> leaf_compacted es (Suc n)"
    using last_leaf_uncompacted [of es c] r n by (simp_all add: le_SucI)
  then have nc': "\<not> leaf_compacted (roots_of R p') (Suc n)"
    by (simp add: roots(1) leaf_root_compacts_nothing [OF roots(3)])
  have "\<not> IsCompacted R p' (m_nodeIndex ?l)"
  proof -
    have "m_nodeIndex ?l = Index_At (of_nat ?q)"
      using Index_At_pos [OF is_node_leaf, of "Suc n"] n by (simp only: LeafIndex_At_node un) simp
    then show ?thesis using compacted_iff [OF roots(2), of ?q] nc' lt lim by simp
  qed
  moreover have "m_leafIndex ?l - GetLeafShift R p' (Index_At (LeafIndex_GetPosition ?l + 1)) =
      of_nat (Suc (length (kept (leaf_compacted es) n)))"
  proof -
    have "m_leafIndex ?l = of_nat (Suc n)" by (simp add: LeafIndex_At_def)
    moreover have "length (kept (leaf_compacted (roots_of R p')) (Suc n)) = Suc (length (kept (leaf_compacted es) n))"
      using nc by (simp add: roots(1) leaf_root_compacts_nothing [OF roots(3)] kept_Suc)
    ultimately show ?thesis using shifted_leaf [OF roots(2) _ nc'] lt lim by (simp only: lpos)
  qed
  moreover have "GetDataAt DATA_SIZE (of_nat (Suc (length (kept (leaf_compacted es) n)))) ?dat = Inl FileException"
  proof -
    let ?k = "length (kept (leaf_compacted es) n)"
    have xs: "length (ser x) = DATA_SIZE" "DATA_SIZE < 2 ^ 20" using codec x by (auto simp: record_codec_def)
    note da = data_append [where ser = ser and x = x and v = v and es = es, OF data_aligned [OF codec rep] xs(2,1)]
    have al: "aligned DATA_SIZE ?dat" and rec: "length (records DATA_SIZE (data_view ?dat)) = Suc ?k"
      using da r n nc by (simp_all add: files_rep_def kept_Suc)
    have "Suc ?k < 2 ^ 31" using length_kept_le [of "leaf_compacted es" n] n by simp
    then have "unat (of_nat (Suc ?k) :: u64) = Suc ?k" "Suc ?k * DATA_SIZE \<le> 2 ^ 31 * 2 ^ 20"
      using xs by (intro unat_of_nat_u64 mult_le_mono; simp)+
    then show ?thesis using GetDataAt_view [OF al, of "of_nat (Suc ?k)"] rec by simp
  qed
  ultimately have "PMMR_GetAt R DATA_SIZE deser ?l ?m = Inr None"
    using unpruned below by (simp add: PMMR_GetAt_def PMMR_GetDataAt_def Let_def m1_def)
  then show ?thesis using append size rt unpruned by (intro exI [of _ ?m]) simp
qed

text \<open>
  C35. An extra hash makes the node lose outputs. A segment gives the next two leaves and, besides, the hash of the first leaf at
  its own position; the first is spent, the second unspent. \<open>ApplySegment\<close> takes the hash for a pruned subtree, skips
  the leaf, and returns true. Size and root are those of the right list, but the data file has a record too few:
  the second output is in the leaf set and cannot be read.
\<close>

theorem leaf_hash_loses_output:
  assumes "record_codec DATA_SIZE ser deser valid" "\<forall>x. length (B x) = 32"
    and "range_view B R DATA_SIZE ser valid es c m (v, u)" "length v = n" "Suc n < N" "N < 2 ^ 31" "valid x"
    and "\<not> BitmapContains bitmap (of_nat n)" "BitmapContains bitmap (of_nat (Suc n))"
  shows "\<exists>m'. PMMR_ApplySegment B R DATA_SIZE ser (leaf_hash_segment B ser n y x si pf) (of_nat (mmr_pos N 0)) (Some bitmap) m =
      Some (Inr True, m') \<and>
    PMMR_GetSize R m' = of_nat (mmr_pos (n + 2) 0) \<and>
    PMMR_Root B R (of_nat (mmr_pos (n + 2) 0)) m' = Inr (mmr_root B (map ser (v @ [y, x]))) \<and>
    IsUnpruned R (LeafIndex_At (of_nat (n + 1))) m' \<and>
    PMMR_GetAt R DATA_SIZE deser (LeafIndex_At (of_nat (n + 1))) m' = Inr None"
proof -
  let ?m = "m\<lparr>pm_dirty := True\<rparr>" and ?sg = "leaf_hash_segment B ser n y x si pf" and ?q = "mmr_pos (Suc n) 0"
  let ?p = "AddPrunedRoot R (Index_At (of_nat (mmr_pos n 0))) (pm_pruneList ?m)"
  have rep: "range_view B R DATA_SIZE ser valid es c ?m (v, u)" using assms(3) by (simp add: range_view_def)
  have nN: "n < N" "Suc n < 2 ^ 31" "Suc (Suc n) < 2 ^ 31" using assms(5,6) by simp_all
  obtain d where d: "apply_node B R DATA_SIZE ser ?sg (of_nat (mmr_pos N 0)) (Some bitmap)
      \<lparr>sn_index = 0, sn_position = of_nat (mmr_pos n 0), sn_isHash = True\<rparr> ?m =
      Some (Inr True, ?m\<lparr>pm_hashFile := d, pm_pruneList := ?p\<rparr>)"
    "packed_rep B R ?p (Suc (mmr_pos n 0)) d (map ser (v @ [y])) ?q"
    using leaf_hash_applied [OF assms(2) rep assms(4) nN(1) assms(6,8)] by blast
  define m1 where "m1 = ?m\<lparr>pm_hashFile := d, pm_pruneList := ?p\<rparr>"
  have size: "PMMR_GetSize R m1 = of_nat ?q"
    using packed_size [OF d(2)] by (simp add: PMMR_GetSize_def m1_def add.commute)
  have "mmr_pos n 0 < ?q" "?q < 2 ^ 32" using leaf_pos_mono [of n "Suc n"] leaf_pos_double [of "Suc n"] nN by simp_all
  then have skip: "apply_node B R DATA_SIZE ser ?sg (of_nat (mmr_pos N 0)) (Some bitmap)
      \<lparr>sn_index = 0, sn_position = of_nat (mmr_pos n 0), sn_isHash = False\<rparr> m1 = Some (Inr True, m1)"
    by (simp add: apply_node_def Let_def size word_less_nat_alt unat_of_nat_u64)
  have "GetLeafIndex (Index_At (of_nat ?q)) = of_nat (Suc n)"
    using leaf_index_from [of "Suc n"] nN by (simp add: LeafIndex_From_def)
  then have "IsLeafRequiredByBitmap bitmap (Index_At (of_nat ?q)) (of_nat (mmr_pos N 0))"
    using assms(9) by (simp add: IsLeafRequiredByBitmap_def Let_def)
  then have leaf: "apply_node B R DATA_SIZE ser ?sg (of_nat (mmr_pos N 0)) (Some bitmap)
      \<lparr>sn_index = 1, sn_position = of_nat ?q, sn_isHash = False\<rparr> m1 = continue_after (AppendLeaf B R ser x m1)"
    by (simp add: apply_node_def apply_leaf_def Let_def size leaf_hash_segment_def)
  obtain m' where m': "AppendLeaf B R ser x m1 = Some (Inr (), m')"
    "PMMR_GetSize R m' = of_nat (mmr_pos (n + 2) 0)"
    "PMMR_Root B R (of_nat (mmr_pos (n + 2) 0)) m' = Inr (mmr_root B (map ser (v @ [y, x])))"
    "IsUnpruned R (LeafIndex_At (of_nat (n + 1))) m'"
    "PMMR_GetAt R DATA_SIZE deser (LeafIndex_At (of_nat (n + 1))) m' = Inr None"
    unfolding m1_def using leaf_after_leaf_hash [OF assms(1,2) rep assms(4) nN(3) assms(7) d(2) refl] by blast
  have "PMMR_ApplySegment B R DATA_SIZE ser ?sg (of_nat (mmr_pos N 0)) (Some bitmap) m = Some (Inr True, m')"
    unfolding PMMR_ApplySegment_def leaf_hash_nodes [OF nN(2)]
    using d(1) [folded m1_def] skip leaf m'(1) by (simp add: continue_after_def) (simp add: leaf_hash_segment_def)
  then show ?thesis using m'(2-5) by blast
qed

definition sample_bitmap :: BitmapAccumulator where
  "sample_bitmap = \<lparr>ba_chunks = [8 # replicate 127 0], ba_nodes = []\<rparr>"

theorem leaf_hash_loses_output_witness:
  "\<exists>m'. PMMR_ApplySegment sample_hash sample_roaring OUTPUT_SIZE OutputIdentifier_Serialize
      (leaf_hash_segment sample_hash OutputIdentifier_Serialize 3 sample_output sample_output \<lparr>si_height = 2, si_index = 0\<rparr> [])
      (of_nat (mmr_pos 5 0)) (Some sample_bitmap) sample_range = Some (Inr True, m') \<and>
    PMMR_GetSize sample_roaring m' = of_nat (mmr_pos (3 + 2) 0) \<and>
    PMMR_Root sample_hash sample_roaring (of_nat (mmr_pos (3 + 2) 0)) m' =
      Inr (mmr_root sample_hash (map OutputIdentifier_Serialize (replicate 3 sample_output @ [sample_output, sample_output]))) \<and>
    IsUnpruned sample_roaring (LeafIndex_At (of_nat (3 + 1))) m' \<and>
    PMMR_GetAt sample_roaring OUTPUT_SIZE OutputIdentifier_Deserialize (LeafIndex_At (of_nat (3 + 1))) m' = Inr None"
proof (rule leaf_hash_loses_output [OF output_records])
  show "range_view sample_hash sample_roaring OUTPUT_SIZE OutputIdentifier_Serialize (\<lambda>oi. length (oi_commitment oi) = 33)
      [3] 2 sample_range (replicate 3 sample_output, {2})"
    using sample_range_rep unfolding pmmr_rep_def by (simp only: prod.case)
  show "\<not> BitmapContains sample_bitmap (of_nat 3)" "BitmapContains sample_bitmap (of_nat (Suc 3))"
    by (simp_all add: BitmapContains_def sample_bitmap_def ChunkIndex_def NBITS_def LEN_BITS_def Chunk_IsSet_def BitToByte_def)
qed (simp_all add: sample_hash_def sample_valid)

end
