(* ===== verification/Database.thy ===== *)
theory Database
  imports Files BlockModels Caches "HOL-Library.AList"
begin

text \<open>
  The chain database: \<^verbatim>\<open>src/Database/RocksDB/RocksDB.h\<close>, the wrapper of an optimistic transaction database,
  and the block database on top of it (\<^verbatim>\<open>src/Database/BlockDBImpl.cpp\<close>). The external store is a list of rows,
  the key of a row being the name of its table and the key in it; an open transaction is the list of its
  writes, a deleted row being written as \<open>None\<close>. Reads, writes and deletions of the store succeed; committing may
  fail on a conflict, which is an argument. Values are stored as bytes under protocol version 1.
\<close>

section \<open>The store\<close>

type_synonym row_key = "string \<times> bytes"

record RocksDB =
  rd_rows :: "(row_key \<times> bytes) list"
  rd_transaction :: "(row_key \<times> bytes option) list option"

definition IsTransactional :: "RocksDB \<Rightarrow> bool" where
  "IsTransactional d = (rd_transaction d \<noteq> None)"

definition row :: "RocksDB \<Rightarrow> row_key \<Rightarrow> bytes option" where
  "row d k =
     (case rd_transaction d of
        None \<Rightarrow> map_of (rd_rows d) k
      | Some writes \<Rightarrow> (case map_of writes k of Some v \<Rightarrow> v | None \<Rightarrow> map_of (rd_rows d) k))"

definition RocksDB_Get :: "'a reader \<Rightarrow> string \<Rightarrow> bytes \<Rightarrow> RocksDB \<Rightarrow> 'a option result" where
  "RocksDB_Get deser table key d =
     (case row d (table, key) of
        None \<Rightarrow> Inr None
      | Some data \<Rightarrow> rbind (deser (ByteBuffer_New data V1)) (\<lambda>(x, b). Inr (Some x)))"

definition RocksDB_Put :: "string \<Rightarrow> bytes \<Rightarrow> bytes \<Rightarrow> RocksDB \<Rightarrow> RocksDB" where
  "RocksDB_Put table key val d =
     (case rd_transaction d of
        None \<Rightarrow> d\<lparr>rd_rows := AList.update (table, key) val (rd_rows d)\<rparr>
      | Some writes \<Rightarrow> d\<lparr>rd_transaction := Some (AList.update (table, key) (Some val) writes)\<rparr>)"

definition write_row :: "row_key \<times> bytes option \<Rightarrow> (row_key \<times> bytes) list \<Rightarrow> (row_key \<times> bytes) list" where
  "write_row w rows = (case w of (k, Some v) \<Rightarrow> AList.update k v rows | (k, None) \<Rightarrow> AList.delete k rows)"

text \<open>A transaction that has been committed or rolled back is empty and stays open.\<close>

definition RocksDB_Commit :: "bool \<Rightarrow> RocksDB \<Rightarrow> unit result \<times> RocksDB" where
  "RocksDB_Commit ok d =
     (case rd_transaction d of
        None \<Rightarrow> (Inr (), d)
      | Some writes \<Rightarrow>
          if ok then (Inr (), \<lparr>rd_rows = fold write_row writes (rd_rows d), rd_transaction = Some []\<rparr>)
          else (Inl DatabaseException, d))"

definition RocksDB_Rollback :: "RocksDB \<Rightarrow> unit result \<times> RocksDB" where
  "RocksDB_Rollback d =
     (if IsTransactional d then (Inr (), d\<lparr>rd_transaction := Some []\<rparr>) else (Inl Undefined, d))"

definition RocksDB_OnInitWrite :: "bool \<Rightarrow> RocksDB \<Rightarrow> RocksDB" where
  "RocksDB_OnInitWrite batch d = (if batch then d\<lparr>rd_transaction := Some []\<rparr> else d)"

definition RocksDB_OnEndWrite :: "RocksDB \<Rightarrow> RocksDB" where
  "RocksDB_OnEndWrite d = d\<lparr>rd_transaction := None\<rparr>"

text \<open>Several rows are written in a transaction of their own when none is open.\<close>

definition RocksDB_PutAll :: "string \<Rightarrow> (bytes \<times> bytes) list \<Rightarrow> RocksDB \<Rightarrow> RocksDB" where
  "RocksDB_PutAll table entries d =
     (let put = fold (\<lambda>(key, val). RocksDB_Put table key val) entries
      in if IsTransactional d then put d
         else RocksDB_OnEndWrite (snd (RocksDB_Commit True (put (d\<lparr>rd_transaction := Some []\<rparr>)))))"

definition RocksDB_Delete :: "string \<Rightarrow> bytes \<Rightarrow> RocksDB \<Rightarrow> RocksDB" where
  "RocksDB_Delete table key d =
     (case rd_transaction d of
        None \<Rightarrow> d\<lparr>rd_rows := AList.delete (table, key) (rd_rows d)\<rparr>
      | Some writes \<Rightarrow> d\<lparr>rd_transaction := Some (AList.update (table, key) None writes)\<rparr>)"

definition RocksDB_DeleteKeys :: "string \<Rightarrow> bytes list \<Rightarrow> RocksDB \<Rightarrow> RocksDB" where
  "RocksDB_DeleteKeys table keys d = fold (RocksDB_Delete table) keys d"

text \<open>The keys an iterator meets: those of the rows, and those of the writes when it belongs to the transaction.\<close>

definition table_keys :: "string \<Rightarrow> (row_key \<times> 'v) list \<Rightarrow> bytes list" where
  "table_keys table rows = map (snd \<circ> fst) (filter (\<lambda>((t, k), v). t = table) rows)"

definition RocksDB_DeleteAll :: "string \<Rightarrow> RocksDB \<Rightarrow> RocksDB" where
  "RocksDB_DeleteAll table d =
     (let keys = table_keys table (rd_rows d) @
                 (case rd_transaction d of None \<Rightarrow> [] | Some writes \<Rightarrow> table_keys table writes)
      in fold (RocksDB_Delete table) (filter (\<lambda>key. row d (table, key) \<noteq> None) keys) d)"

section \<open>The block database\<close>

record BlockDB =
  bd_rocks :: RocksDB
  bd_headersCache :: "(bytes, BlockHeader) fixed_sized_cache"
  bd_uncommitted :: "BlockHeader list"

abbreviation on_rocks :: "(RocksDB \<Rightarrow> RocksDB) \<Rightarrow> BlockDB \<Rightarrow> BlockDB" where
  "on_rocks f db \<equiv> db\<lparr>bd_rocks := f (bd_rocks db)\<rparr>"

definition BlockDB_OpenDB :: "(row_key \<times> bytes) list \<Rightarrow> BlockDB" where
  "BlockDB_OpenDB rows =
     \<lparr>bd_rocks = RocksDB_DeleteAll ''INPUT_BITMAP'' \<lparr>rd_rows = rows, rd_transaction = None\<rparr>,
      bd_headersCache = Cache_New 128, bd_uncommitted = []\<rparr>"

definition BlockDB_Commit :: "bool \<Rightarrow> BlockDB \<Rightarrow> unit result \<times> BlockDB" where
  "BlockDB_Commit ok db =
     (case RocksDB_Commit ok (bd_rocks db) of
        (Inl e, d) \<Rightarrow> (Inl e, db\<lparr>bd_rocks := d\<rparr>)
      | (Inr _, d) \<Rightarrow>
          (Inr (), \<lparr>bd_rocks = d,
                    bd_headersCache = fold (\<lambda>h. FIFO_Put (Header_GetHash h) h) (bd_uncommitted db) (bd_headersCache db),
                    bd_uncommitted = []\<rparr>))"

definition BlockDB_Rollback :: "BlockDB \<Rightarrow> unit result \<times> BlockDB" where
  "BlockDB_Rollback db =
     (let (r, d) = RocksDB_Rollback (bd_rocks db) in (r, db\<lparr>bd_uncommitted := [], bd_rocks := d\<rparr>))"

definition BlockDB_OnInitWrite :: "bool \<Rightarrow> BlockDB \<Rightarrow> BlockDB" where
  "BlockDB_OnInitWrite batch = on_rocks (RocksDB_OnInitWrite batch)"

definition BlockDB_OnEndWrite :: "BlockDB \<Rightarrow> BlockDB" where
  "BlockDB_OnEndWrite = on_rocks RocksDB_OnEndWrite"

definition VERSION_KEY :: bytes where "VERSION_KEY = map of_char ''VERSION''"

definition GetVersion :: "BlockDB \<Rightarrow> u8 result" where
  "GetVersion db =
     rbind (RocksDB_Get ReadU8 ''default'' VERSION_KEY (bd_rocks db)) (\<lambda>version.
       Inr (case version of None \<Rightarrow> 0 | Some v \<Rightarrow> v))"

definition SetVersion :: "u8 \<Rightarrow> BlockDB \<Rightarrow> BlockDB" where
  "SetVersion version = on_rocks (RocksDB_Put ''default'' VERSION_KEY (AppendU8 version))"

definition MigrateBlocks :: "BlockDB \<Rightarrow> BlockDB" where
  "MigrateBlocks db = db"

text \<open>A header that is cached is not read from the store.\<close>

definition GetBlockHeader :: "(bytes \<Rightarrow> bytes) \<Rightarrow> bytes \<Rightarrow> BlockDB \<Rightarrow> BlockHeader option result" where
  "GetBlockHeader Blake2b hash db =
     (if Cached (bd_headersCache db) hash
      then rbind (FIFO_Get (bd_headersCache db) hash) (\<lambda>h. Inr (Some h))
      else RocksDB_Get (Header_Deserialize Blake2b) ''HEADER'' hash (bd_rocks db))"

definition AddBlockHeader :: "BlockHeader \<Rightarrow> BlockDB \<Rightarrow> BlockDB" where
  "AddBlockHeader h db =
     (let db = on_rocks (RocksDB_Put ''HEADER'' (Header_GetHash h) (Header_Serialize h)) db
      in if IsTransactional (bd_rocks db) then db\<lparr>bd_uncommitted := bd_uncommitted db @ [h]\<rparr>
         else db\<lparr>bd_headersCache := FIFO_Put (Header_GetHash h) h (bd_headersCache db)\<rparr>)"

definition AddBlockHeaders :: "BlockHeader list \<Rightarrow> BlockDB \<Rightarrow> BlockDB" where
  "AddBlockHeaders hs =
     on_rocks (RocksDB_PutAll ''HEADER'' (map (\<lambda>h. (Header_GetHash h, Header_Serialize h)) hs))"

definition AddBlock :: "FullBlock \<Rightarrow> BlockDB \<Rightarrow> BlockDB" where
  "AddBlock block =
     on_rocks (RocksDB_Put ''BLOCK'' (Header_GetHash (fb_header block)) (FullBlock_Serialize V1 block))"

definition GetBlock ::
  "(bytes \<Rightarrow> bytes) \<Rightarrow> (bytes \<Rightarrow> u8) \<Rightarrow> bytes \<Rightarrow> BlockDB \<Rightarrow> FullBlock option result" where
  "GetBlock Blake2b GetOutputType hash db =
     RocksDB_Get (FullBlock_Deserialize Blake2b GetOutputType) ''BLOCK'' hash (bd_rocks db)"

definition ClearBlocks :: "BlockDB \<Rightarrow> BlockDB" where
  "ClearBlocks = on_rocks (RocksDB_DeleteAll ''BLOCK'')"

text \<open>
  The iterator of \<open>Compact\<close> runs over the stored rows, but the blocks are read through the transaction: a
  stored block that the transaction has deleted is a null pointer, and its height is asked for.
\<close>

fun blocks_to_remove ::
  "(bytes \<Rightarrow> bytes) \<Rightarrow> (bytes \<Rightarrow> u8) \<Rightarrow> u64 \<Rightarrow> bytes list \<Rightarrow> BlockDB \<Rightarrow> bytes list result" where
  "blocks_to_remove Blake2b GetOutputType horizon [] db = Inr []"
| "blocks_to_remove Blake2b GetOutputType horizon (key # keys) db =
     (case GetBlock Blake2b GetOutputType key db of
        Inl _ \<Rightarrow> rbind (blocks_to_remove Blake2b GetOutputType horizon keys db) (\<lambda>ks. Inr (key # ks))
      | Inr None \<Rightarrow> Inl Undefined
      | Inr (Some block) \<Rightarrow>
          rbind (blocks_to_remove Blake2b GetOutputType horizon keys db) (\<lambda>ks.
            Inr (if h_height (fb_header block) < horizon then key # ks else ks)))"

definition BlockDB_Compact ::
  "(bytes \<Rightarrow> bytes) \<Rightarrow> (bytes \<Rightarrow> u8) \<Rightarrow> u64 \<Rightarrow> BlockDB \<Rightarrow> BlockDB result" where
  "BlockDB_Compact Blake2b GetOutputType chainHeight db =
     rbind (blocks_to_remove Blake2b GetOutputType (GetHorizonHeight chainHeight)
              (table_keys ''BLOCK'' (rd_rows (bd_rocks db))) db) (\<lambda>keys.
       Inr (on_rocks (RocksDB_DeleteKeys ''BLOCK'' keys) db))"

definition AddBlockSums :: "bytes \<Rightarrow> BlockSums \<Rightarrow> BlockDB \<Rightarrow> BlockDB" where
  "AddBlockSums blockHash blockSums =
     on_rocks (RocksDB_Put ''BLOCK_SUMS'' blockHash (BlockSums_Serialize blockSums))"

definition GetBlockSums :: "bytes \<Rightarrow> BlockDB \<Rightarrow> BlockSums option result" where
  "GetBlockSums blockHash db = RocksDB_Get BlockSums_Deserialize ''BLOCK_SUMS'' blockHash (bd_rocks db)"

definition ClearBlockSums :: "BlockDB \<Rightarrow> BlockDB" where
  "ClearBlockSums = on_rocks (RocksDB_DeleteAll ''BLOCK_SUMS'')"

definition AddOutputPosition :: "bytes \<Rightarrow> OutputLocation \<Rightarrow> BlockDB \<Rightarrow> BlockDB" where
  "AddOutputPosition outputCommitment location =
     on_rocks (RocksDB_Put ''OUTPUT_POS'' outputCommitment (OutputLocation_Serialize location))"

definition GetOutputPosition :: "bytes \<Rightarrow> BlockDB \<Rightarrow> OutputLocation option result" where
  "GetOutputPosition outputCommitment db =
     RocksDB_Get OutputLocation_Deserialize ''OUTPUT_POS'' outputCommitment (bd_rocks db)"

definition RemoveOutputPositions :: "bytes list \<Rightarrow> BlockDB \<Rightarrow> BlockDB" where
  "RemoveOutputPositions outputCommitments =
     on_rocks (RocksDB_DeleteKeys ''OUTPUT_POS'' outputCommitments)"

definition ClearOutputPositions :: "BlockDB \<Rightarrow> BlockDB" where
  "ClearOutputPositions = on_rocks (RocksDB_DeleteAll ''OUTPUT_POS'')"

definition AddSpentPositions :: "bytes \<Rightarrow> SpentOutput list \<Rightarrow> BlockDB \<Rightarrow> BlockDB" where
  "AddSpentPositions blockHash outputPositions =
     on_rocks (RocksDB_Put ''SPENT_OUTPUTS'' blockHash (SpentOutputs_Serialize outputPositions))"

definition GetSpentPositions :: "bytes \<Rightarrow> BlockDB \<Rightarrow> (bytes \<rightharpoonup> OutputLocation) result" where
  "GetSpentPositions blockHash db =
     rbind (RocksDB_Get SpentOutputs_Deserialize ''SPENT_OUTPUTS'' blockHash (bd_rocks db)) (\<lambda>spent.
       case spent of None \<Rightarrow> Inl DatabaseException | Some outs \<Rightarrow> Inr (SpentOutputs_BuildMap outs))"

definition ClearSpentPositions :: "BlockDB \<Rightarrow> BlockDB" where
  "ClearSpentPositions = on_rocks (RocksDB_DeleteAll ''SPENT_OUTPUTS'')"

section \<open>Rows and transactions\<close>

lemma row_Put [simp]: "row (RocksDB_Put table key val d) = (row d)((table, key) \<mapsto> val)"
  by (rule ext) (simp add: row_def RocksDB_Put_def update_conv' split: option.split)

lemma row_Delete [simp]: "row (RocksDB_Delete table key d) = (row d)((table, key) := None)"
  by (rule ext) (simp add: row_def RocksDB_Delete_def update_conv' delete_conv' split: option.split)

lemma row_DeleteKeys [simp]:
  "row (RocksDB_DeleteKeys table keys d) (t, k) = (if t = table \<and> k \<in> set keys then None else row d (t, k))"
  by (induction keys arbitrary: d) (auto simp: RocksDB_DeleteKeys_def)

lemma row_key_listed:
  "row d (table, key) \<noteq> None \<Longrightarrow>
   key \<in> set (table_keys table (rd_rows d) @
              (case rd_transaction d of None \<Rightarrow> [] | Some writes \<Rightarrow> table_keys table writes))"
  by (force simp: row_def table_keys_def split: option.splits dest: map_of_SomeD)

lemma row_DeleteAll [simp]:
  "row (RocksDB_DeleteAll table d) (t, k) = (if t = table then None else row d (t, k))"
proof -
  have "RocksDB_DeleteAll table d = RocksDB_DeleteKeys table
      (filter (\<lambda>key. row d (table, key) \<noteq> None) (table_keys table (rd_rows d) @
        (case rd_transaction d of None \<Rightarrow> [] | Some writes \<Rightarrow> table_keys table writes))) d"
    by (simp add: RocksDB_DeleteAll_def RocksDB_DeleteKeys_def Let_def)
  then show ?thesis using row_key_listed [of d table k] by (cases "row d (table, k)") auto
qed

lemma row_PutAll:
  "IsTransactional d \<Longrightarrow>
   row (RocksDB_PutAll table entries d) = fold (\<lambda>(k, v) m. m((table, k) \<mapsto> v)) entries (row d)"
proof -
  have "row (fold (\<lambda>(key, val). RocksDB_Put table key val) entries d) =
      fold (\<lambda>(k, v) m. m((table, k) \<mapsto> v)) entries (row d)" for d
    by (induction entries arbitrary: d) auto
  then show "IsTransactional d \<Longrightarrow> ?thesis" by (simp add: RocksDB_PutAll_def)
qed

text \<open>A store with an open transaction whose writes have distinct keys; what is read and what is stored.\<close>

definition open_batch :: "RocksDB \<Rightarrow> bool" where
  "open_batch d \<longleftrightarrow> (\<exists>writes. rd_transaction d = Some writes \<and> distinct (map fst writes))"

definition stored :: "RocksDB \<Rightarrow> row_key \<Rightarrow> bytes option" where
  "stored d = map_of (rd_rows d)"

definition rocks_commit :: "RocksDB \<Rightarrow> RocksDB" where
  "rocks_commit d = snd (RocksDB_Commit True d)"

definition rocks_rollback :: "RocksDB \<Rightarrow> RocksDB" where
  "rocks_rollback d = snd (RocksDB_Rollback d)"

lemma map_of_write_row: "map_of (write_row (k, v) rows) = (map_of rows)(k := v)"
  by (cases v) (simp_all add: write_row_def update_conv' delete_conv')

lemma map_of_writes:
  "distinct (map fst writes) \<Longrightarrow>
   map_of (fold write_row writes rows) k = (case map_of writes k of Some v \<Rightarrow> v | None \<Rightarrow> map_of rows k)"
proof (induction writes arbitrary: rows)
  case (Cons w writes)
  obtain k' v where w: "w = (k', v)" by (cases w)
  have "map_of writes k' = None" using Cons.prems by (simp add: w map_of_eq_None_iff)
  then show ?case using Cons by (auto simp: w map_of_write_row split: option.split)
qed simp

interpretation rocks: batchable open_batch row stored rocks_commit rocks_rollback
proof
  fix d assume "open_batch d"
  then obtain writes where w: "rd_transaction d = Some writes" "distinct (map fst writes)"
    by (auto simp: open_batch_def)
  show "open_batch (rocks_commit d)" "open_batch (rocks_rollback d)"
    using w by (simp_all add: open_batch_def rocks_commit_def rocks_rollback_def RocksDB_Commit_def RocksDB_Rollback_def
        IsTransactional_def)
  show "row (rocks_commit d) = row d" "stored (rocks_commit d) = row d"
    using w map_of_writes [OF w(2)]
    by (auto simp: fun_eq_iff row_def stored_def rocks_commit_def RocksDB_Commit_def split: option.split)
  show "row (rocks_rollback d) = stored d" "stored (rocks_rollback d) = stored d"
    using w by (auto simp: fun_eq_iff row_def stored_def rocks_rollback_def RocksDB_Rollback_def IsTransactional_def)
qed

lemma open_batch_Put [simp]: "open_batch d \<Longrightarrow> open_batch (RocksDB_Put table key val d)"
  by (auto simp: open_batch_def RocksDB_Put_def distinct_update)

lemma open_batch_Delete [simp]: "open_batch d \<Longrightarrow> open_batch (RocksDB_Delete table key d)"
  by (auto simp: open_batch_def RocksDB_Delete_def distinct_update)

lemma stored_Put [simp]: "open_batch d \<Longrightarrow> stored (RocksDB_Put table key val d) = stored d"
  by (auto simp: open_batch_def stored_def RocksDB_Put_def)

lemma stored_Delete [simp]: "open_batch d \<Longrightarrow> stored (RocksDB_Delete table key d) = stored d"
  by (auto simp: open_batch_def stored_def RocksDB_Delete_def)

lemma batch_DeleteKeys [simp]:
  "open_batch d \<Longrightarrow> open_batch (RocksDB_DeleteKeys table keys d) \<and> stored (RocksDB_DeleteKeys table keys d) = stored d"
  by (induction keys arbitrary: d) (simp_all add: RocksDB_DeleteKeys_def)

lemma open_batch_transactional: "open_batch d \<Longrightarrow> IsTransactional d"
  by (auto simp: open_batch_def IsTransactional_def)

section \<open>Typed tables\<close>

text \<open>A table of values of a serialisable type: what has been put is read back.\<close>

locale db_table = codec ser deser valid
  for ser :: "EProtocolVersion \<Rightarrow> 'a \<Rightarrow> bytes" and deser :: "'a reader" and valid :: "EProtocolVersion \<Rightarrow> 'a \<Rightarrow> bool" +
  fixes table :: string
begin

lemma get_stored:
  "row d (table, key) = Some (ser V1 x) \<Longrightarrow> valid V1 x \<Longrightarrow> length (ser V1 x) < 2 ^ 63 \<Longrightarrow>
   RocksDB_Get deser table key d = Inr (Some x)"
  using roundtrip [of V1 x] by (auto simp: RocksDB_Get_def)

lemma get_put:
  "valid V1 x \<Longrightarrow> length (ser V1 x) < 2 ^ 63 \<Longrightarrow>
   RocksDB_Get deser table key (RocksDB_Put table key' (ser V1 x) d) =
     (if key = key' then Inr (Some x) else RocksDB_Get deser table key d)"
  by (cases "key = key'") (simp_all add: get_stored, simp add: RocksDB_Get_def)

end

lemma RocksDB_Get_cong: "row d (table, key) = row d' (table, key) \<Longrightarrow> RocksDB_Get deser table key d = RocksDB_Get deser table key d'"
  by (simp add: RocksDB_Get_def)

interpretation position_table: db_table "\<lambda>_. OutputLocation_Serialize" OutputLocation_Deserialize "\<lambda>_. location_valid"
  "''OUTPUT_POS''"
  by unfold_locales (rule decodes_OutputLocation)

interpretation spent_table: db_table "\<lambda>_. SpentOutputs_Serialize" SpentOutputs_Deserialize
  "\<lambda>_ outs. (\<forall>s \<in> set outs. location_valid (so_location s) \<and> length (so_commitment s) = 33) \<and> length outs < 2 ^ 16"
  "''SPENT_OUTPUTS''"
  by unfold_locales (rule decodes_SpentOutputs, auto)

interpretation sums_table: db_table "\<lambda>_. BlockSums_Serialize" BlockSums_Deserialize
  "\<lambda>_ s. length (bs_outputSum s) = 33 \<and> length (bs_kernelSum s) = 33" "''BLOCK_SUMS''"
  by unfold_locales

interpretation header_table: db_table "\<lambda>_. Header_Serialize" "Header_Deserialize Blake2b" "\<lambda>_. header_valid Blake2b"
  "''HEADER''" for Blake2b
  by unfold_locales (rule decodes_Header)

interpretation block_table: db_table FullBlock_Serialize "FullBlock_Deserialize Blake2b GetOutputType"
  "\<lambda>v block. header_valid Blake2b (fb_header block) \<and> body_valid Blake2b GetOutputType v (fb_body block)" "''BLOCK''"
  for Blake2b GetOutputType
  by unfold_locales

lemma length_location: "length (OutputLocation_Serialize l) = 16"
  by (simp add: OutputLocation_Serialize_def)

lemma length_spent_outputs:
  assumes "\<forall>s \<in> set outs. length (so_commitment s) = 33" "length outs < 2 ^ 16"
  shows "length (SpentOutputs_Serialize outs) < 2 ^ 63"
proof -
  have "length (concat (map SpentOutput_Serialize outs)) = 49 * length outs" using assms(1)
    by (induction outs) (simp_all add: SpentOutput_Serialize_def length_location AppendBigInteger_def)
  then show ?thesis using assms(2) by (simp add: SpentOutputs_Serialize_def)
qed

lemma GetOutputPosition_Add:
  "location_valid l \<Longrightarrow>
   GetOutputPosition c (AddOutputPosition c' l db) = (if c = c' then Inr (Some l) else GetOutputPosition c db)"
  by (simp add: GetOutputPosition_def AddOutputPosition_def position_table.get_put length_location)

lemma GetOutputPosition_Remove:
  "GetOutputPosition c (RemoveOutputPositions cs db) = (if c \<in> set cs then Inr None else GetOutputPosition c db)"
  by (simp add: GetOutputPosition_def RemoveOutputPositions_def RocksDB_Get_def)

lemma GetOutputPosition_other [simp]:
  "GetOutputPosition c (AddSpentPositions h outs db) = GetOutputPosition c db"
  "GetOutputPosition c (AddBlockSums h sums db) = GetOutputPosition c db"
  "GetOutputPosition c (AddBlock block db) = GetOutputPosition c db"
  by (simp_all add: GetOutputPosition_def AddSpentPositions_def AddBlockSums_def AddBlock_def RocksDB_Get_def)

lemma GetSpentPositions_Add:
  assumes "\<forall>s \<in> set outs. location_valid (so_location s) \<and> length (so_commitment s) = 33" "length outs < 2 ^ 16"
  shows "GetSpentPositions h (AddSpentPositions h' outs db) =
    (if h = h' then Inr (SpentOutputs_BuildMap outs) else GetSpentPositions h db)"
  using assms length_spent_outputs [of outs] spent_table.get_put [of outs h h' "bd_rocks db"]
  by (simp add: GetSpentPositions_def AddSpentPositions_def)

lemma GetSpentPositions_other [simp]:
  "GetSpentPositions h (AddOutputPosition c l db) = GetSpentPositions h db"
  "GetSpentPositions h (RemoveOutputPositions cs db) = GetSpentPositions h db"
  "GetSpentPositions h (AddBlock block db) = GetSpentPositions h db"
  "GetSpentPositions h (AddBlockSums h' sums db) = GetSpentPositions h db"
  by (simp_all add: GetSpentPositions_def AddOutputPosition_def RemoveOutputPositions_def AddBlock_def AddBlockSums_def
      RocksDB_Get_def)

section \<open>The block database as a pair of tables\<close>

text \<open>
  The operations that a batch of the chain state performs on the database, with commits that succeed. Clearing a table,
  compaction and the version are not among them; they are modelled above.
\<close>

datatype db_op =
    Db_AddHeader BlockHeader
  | Db_AddHeaders "BlockHeader list"
  | Db_AddBlock FullBlock
  | Db_AddSums bytes BlockSums
  | Db_AddPosition bytes OutputLocation
  | Db_RemovePositions "bytes list"
  | Db_AddSpent bytes "SpentOutput list"
  | Db_Commit
  | Db_Rollback

fun db_run :: "db_op \<Rightarrow> BlockDB \<Rightarrow> BlockDB" where
  "db_run (Db_AddHeader h) = AddBlockHeader h"
| "db_run (Db_AddHeaders hs) = AddBlockHeaders hs"
| "db_run (Db_AddBlock block) = AddBlock block"
| "db_run (Db_AddSums hash sums) = AddBlockSums hash sums"
| "db_run (Db_AddPosition c l) = AddOutputPosition c l"
| "db_run (Db_RemovePositions cs) = RemoveOutputPositions cs"
| "db_run (Db_AddSpent hash outs) = AddSpentPositions hash outs"
| "db_run Db_Commit = (\<lambda>db. snd (BlockDB_Commit True db))"
| "db_run Db_Rollback = (\<lambda>db. snd (BlockDB_Rollback db))"

type_synonym rows = "row_key \<rightharpoonup> bytes"

definition put_header :: "BlockHeader \<Rightarrow> rows \<Rightarrow> rows" where
  "put_header h m = m((''HEADER'', Header_GetHash h) \<mapsto> Header_Serialize h)"

fun db_spec :: "db_op \<Rightarrow> rows \<times> rows \<Rightarrow> rows \<times> rows" where
  "db_spec (Db_AddHeader h) (cur, saved) = (put_header h cur, saved)"
| "db_spec (Db_AddHeaders hs) (cur, saved) = (fold put_header hs cur, saved)"
| "db_spec (Db_AddBlock block) (cur, saved) =
     (cur((''BLOCK'', Header_GetHash (fb_header block)) \<mapsto> FullBlock_Serialize V1 block), saved)"
| "db_spec (Db_AddSums hash sums) (cur, saved) = (cur((''BLOCK_SUMS'', hash) \<mapsto> BlockSums_Serialize sums), saved)"
| "db_spec (Db_AddPosition c l) (cur, saved) = (cur((''OUTPUT_POS'', c) \<mapsto> OutputLocation_Serialize l), saved)"
| "db_spec (Db_RemovePositions cs) (cur, saved) =
     ((\<lambda>(t, k). if t = ''OUTPUT_POS'' \<and> k \<in> set cs then None else cur (t, k)), saved)"
| "db_spec (Db_AddSpent hash outs) (cur, saved) =
     (cur((''SPENT_OUTPUTS'', hash) \<mapsto> SpentOutputs_Serialize outs), saved)"
| "db_spec Db_Commit (cur, saved) = (cur, cur)"
| "db_spec Db_Rollback (cur, saved) = (saved, saved)"

fun db_headers :: "db_op \<Rightarrow> BlockHeader list" where
  "db_headers (Db_AddHeader h) = [h]"
| "db_headers (Db_AddHeaders hs) = hs"
| "db_headers _ = []"

text \<open>Cached headers are stored, and neither the transaction nor a later one overwrites them with another header.\<close>

definition has_header :: "BlockHeader \<Rightarrow> rows \<Rightarrow> bool" where
  "has_header h m \<longleftrightarrow> m (''HEADER'', Header_GetHash h) = Some (Header_Serialize h)"

definition db_rep :: "BlockHeader set \<Rightarrow> BlockDB \<Rightarrow> rows \<times> rows \<Rightarrow> bool" where
  "db_rep H db s \<longleftrightarrow>
     open_batch (bd_rocks db) \<and> row (bd_rocks db) = fst s \<and> stored (bd_rocks db) = snd s \<and>
     cache_inv (bd_headersCache db) \<and>
     (\<forall>hash h. map_of (cache_items (bd_headersCache db)) hash = Some h \<longrightarrow>
        h \<in> H \<and> hash = Header_GetHash h \<and> has_header h (fst s) \<and> has_header h (snd s)) \<and>
     (\<forall>h \<in> set (bd_uncommitted db). h \<in> H \<and> has_header h (fst s))"

lemma has_header_put:
  assumes "inj_on Header_GetHash H" "h \<in> H" "h' \<in> H" "has_header h m \<or> h = h'"
  shows "has_header h (put_header h' m)"
  using assms inj_onD [OF assms(1)] by (auto simp: has_header_def put_header_def)

lemma has_header_puts:
  "inj_on Header_GetHash H \<Longrightarrow> h \<in> H \<Longrightarrow> set hs \<subseteq> H \<Longrightarrow> has_header h m \<Longrightarrow> has_header h (fold put_header hs m)"
  by (induction hs arbitrary: m) (simp_all add: has_header_put)

lemma db_rep_other:
  assumes "db_rep H db (cur, saved)" "row d = cur'" "stored d = saved" "open_batch d"
    and "\<And>h. h \<in> H \<Longrightarrow> has_header h cur \<Longrightarrow> has_header h cur'"
  shows "db_rep H (db\<lparr>bd_rocks := d\<rparr>) (cur', saved)"
  using assms by (fastforce simp: db_rep_def)

lemma cache_fold_Put:
  assumes "cache_inv c" "\<And>hash h. map_of (cache_items c) hash = Some h \<Longrightarrow> P hash h" "\<And>h. h \<in> set hs \<Longrightarrow> P (Header_GetHash h) h"
  shows "cache_inv (fold (\<lambda>h. FIFO_Put (Header_GetHash h) h) hs c) \<and>
    (\<forall>hash h. map_of (cache_items (fold (\<lambda>h. FIFO_Put (Header_GetHash h) h) hs c)) hash = Some h \<longrightarrow> P hash h)"
  using assms
proof (induction hs arbitrary: c)
  case (Cons x hs)
  let ?c = "FIFO_Put (Header_GetHash x) x c"
  have "cache_inv ?c" using FIFO_Put_inv [OF Cons.prems(1)] .
  moreover have "P hash h" if "map_of (cache_items ?c) hash = Some h" for hash h
    using FIFO_Put_lookup [OF _ that] Cons.prems by (auto simp: cache_inv_def)
  ultimately show ?case using Cons.IH [of ?c] Cons.prems(3) by simp
qed simp

lemma fold_put_rows:
  "open_batch d \<Longrightarrow>
   row (RocksDB_PutAll ''HEADER'' (map (\<lambda>h. (Header_GetHash h, Header_Serialize h)) hs) d) = fold put_header hs (row d) \<and>
   open_batch (RocksDB_PutAll ''HEADER'' (map (\<lambda>h. (Header_GetHash h, Header_Serialize h)) hs) d) \<and>
   stored (RocksDB_PutAll ''HEADER'' (map (\<lambda>h. (Header_GetHash h, Header_Serialize h)) hs) d) = stored d"
proof -
  have "row (fold (\<lambda>(key, val). RocksDB_Put ''HEADER'' key val) (map (\<lambda>h. (Header_GetHash h, Header_Serialize h)) hs) d) =
      fold put_header hs (row d) \<and>
    open_batch (fold (\<lambda>(key, val). RocksDB_Put ''HEADER'' key val) (map (\<lambda>h. (Header_GetHash h, Header_Serialize h)) hs) d) \<and>
    stored (fold (\<lambda>(key, val). RocksDB_Put ''HEADER'' key val) (map (\<lambda>h. (Header_GetHash h, Header_Serialize h)) hs) d) = stored d"
    if "open_batch d" for d
    using that by (induction hs arbitrary: d) (simp_all add: put_header_def)
  then show "open_batch d \<Longrightarrow> ?thesis" by (simp add: RocksDB_PutAll_def open_batch_transactional)
qed

lemma db_step_refines:
  assumes "inj_on Header_GetHash H" "set (db_headers op) \<subseteq> H" "db_rep H db (cur, saved)"
  shows "db_rep H (db_run op db) (db_spec op (cur, saved))"
proof -
  have d: "open_batch (bd_rocks db)" "row (bd_rocks db) = cur" "stored (bd_rocks db) = saved"
    using assms(3) by (auto simp: db_rep_def)
  note other = db_rep_other [OF assms(3)]
  show ?thesis
  proof (cases op)
    case (Db_AddHeader h)
    have h: "h \<in> H" using assms(2) Db_AddHeader by simp
    let ?db = "db\<lparr>bd_rocks := RocksDB_Put ''HEADER'' (Header_GetHash h) (Header_Serialize h) (bd_rocks db)\<rparr>"
    have "db_rep H ?db (put_header h cur, saved)"
    proof (rule other)
      show "has_header x (put_header h cur)" if "x \<in> H" "has_header x cur" for x
        using has_header_put [OF assms(1) that(1) h] that(2) by blast
    qed (simp_all add: d put_header_def)
    moreover have "has_header h (put_header h cur)" by (simp add: has_header_def put_header_def)
    moreover have "db_run op db = ?db\<lparr>bd_uncommitted := bd_uncommitted db @ [h]\<rparr>"
      using d(1) by (simp add: Db_AddHeader AddBlockHeader_def Let_def open_batch_transactional)
    ultimately show ?thesis using h by (simp add: Db_AddHeader db_rep_def)
  next
    case (Db_AddHeaders hs)
    then have hs: "set hs \<subseteq> H" using assms(2) by simp
    note put = fold_put_rows [OF d(1), of hs]
    show ?thesis unfolding Db_AddHeaders db_run.simps db_spec.simps AddBlockHeaders_def
    proof (rule other)
      show "has_header x (fold put_header hs cur)" if "x \<in> H" "has_header x cur" for x
        by (rule has_header_puts [OF assms(1) that(1) hs that(2)])
    qed (simp_all add: put d(2,3))
  next
    case (Db_AddBlock block)
    show ?thesis unfolding Db_AddBlock db_run.simps db_spec.simps AddBlock_def
      by (rule other) (simp_all add: d has_header_def)
  next
    case (Db_AddSums hash sums)
    show ?thesis unfolding Db_AddSums db_run.simps db_spec.simps AddBlockSums_def
      by (rule other) (simp_all add: d has_header_def)
  next
    case (Db_AddPosition c l)
    show ?thesis unfolding Db_AddPosition db_run.simps db_spec.simps AddOutputPosition_def
      by (rule other) (simp_all add: d has_header_def)
  next
    case (Db_RemovePositions cs)
    show ?thesis unfolding Db_RemovePositions db_run.simps db_spec.simps RemoveOutputPositions_def
      by (rule other) (auto simp add: d has_header_def)
  next
    case (Db_AddSpent hash outs)
    show ?thesis unfolding Db_AddSpent db_run.simps db_spec.simps AddSpentPositions_def
      by (rule other) (simp_all add: d has_header_def)
  next
    case Db_Commit
    obtain writes where w: "rd_transaction (bd_rocks db) = Some writes" using d(1) by (auto simp: open_batch_def)
    let ?c = "fold (\<lambda>h. FIFO_Put (Header_GetHash h) h) (bd_uncommitted db) (bd_headersCache db)"
    let ?P = "\<lambda>hash h. h \<in> H \<and> hash = Header_GetHash h \<and> has_header h cur"
    have "cache_inv ?c \<and> (\<forall>hash h. map_of (cache_items ?c) hash = Some h \<longrightarrow> ?P hash h)"
    proof (rule cache_fold_Put)
      show "?P hash h" if "map_of (cache_items (bd_headersCache db)) hash = Some h" for hash h
        using assms(3) that by (simp add: db_rep_def)
      show "?P (Header_GetHash h) h" if "h \<in> set (bd_uncommitted db)" for h
        using assms(3) that by (simp add: db_rep_def)
    qed (use assms(3) in \<open>simp add: db_rep_def\<close>)
    moreover have "RocksDB_Commit True (bd_rocks db) = (Inr (), rocks_commit (bd_rocks db))"
      using w by (simp add: rocks_commit_def RocksDB_Commit_def)
    then have "db_run op db = \<lparr>bd_rocks = rocks_commit (bd_rocks db), bd_headersCache = ?c, bd_uncommitted = []\<rparr>"
      by (simp add: Db_Commit BlockDB_Commit_def)
    moreover have "open_batch (rocks_commit (bd_rocks db))" "row (rocks_commit (bd_rocks db)) = cur"
      "stored (rocks_commit (bd_rocks db)) = cur"
      using d by (simp_all add: rocks.commit_inv rocks.commit_view rocks.commit_saved)
    ultimately show ?thesis
      unfolding Db_Commit db_spec.simps db_rep_def fst_conv snd_conv by (simp only: BlockDB.simps list.set ball_empty) blast
  next
    case Db_Rollback
    have "db_run op db = db\<lparr>bd_uncommitted := [], bd_rocks := rocks_rollback (bd_rocks db)\<rparr>"
      by (simp add: Db_Rollback BlockDB_Rollback_def rocks_rollback_def split_beta)
    then show ?thesis
      using assms(3) d by (simp add: Db_Rollback db_rep_def rocks.rollback_inv rocks.rollback_view rocks.rollback_saved)
  qed
qed

lemma db_run_refines:
  "inj_on Header_GetHash H \<Longrightarrow> (\<And>op. op \<in> set ops \<Longrightarrow> set (db_headers op) \<subseteq> H) \<Longrightarrow> db_rep H db s \<Longrightarrow>
   db_rep H (fold db_run ops db) (fold db_spec ops s)"
proof (induction ops arbitrary: db s)
  case (Cons op ops)
  then show ?case using db_step_refines [of H op db "fst s" "snd s"] by simp
qed simp

lemma length_Header_bound: "header_valid B h \<Longrightarrow> length (Header_Serialize h) < 2 ^ 63"
proof -
  assume h: "header_valid B h"
  then have "unat (pow_edgeBits (h_proofOfWork h)) \<le> 63"
    by (simp add: header_valid_def pow_valid_def word_le_nat_alt)
  then show ?thesis using length_Header_Serialize [OF h] by (simp add: cycle_bytes_len_def PROOFSIZE_def)
qed

definition read_header :: "(bytes \<Rightarrow> bytes) \<Rightarrow> bytes \<Rightarrow> rows \<Rightarrow> BlockHeader option result" where
  "read_header B hash m =
     (case m (''HEADER'', hash) of
        None \<Rightarrow> Inr None
      | Some data \<Rightarrow> rbind (Header_Deserialize B (ByteBuffer_New data V1)) (\<lambda>(h, b). Inr (Some h)))"

lemma GetBlockHeader_rep:
  assumes "db_rep H db (cur, saved)" "\<forall>h \<in> H. header_valid B h"
  shows "GetBlockHeader B hash db = read_header B hash cur"
proof (cases "map_of (cache_items (bd_headersCache db)) hash")
  case None
  then show ?thesis using assms(1) by (simp add: GetBlockHeader_def Cached_def RocksDB_Get_def read_header_def db_rep_def)
next
  case (Some h)
  then have "header_valid B h" "row (bd_rocks db) (''HEADER'', hash) = Some (Header_Serialize h)"
    using assms by (auto simp: db_rep_def has_header_def)
  then have "RocksDB_Get (Header_Deserialize B) ''HEADER'' hash (bd_rocks db) = Inr (Some h)"
    by (intro header_table.get_stored length_Header_bound)
  then have "read_header B hash cur = Inr (Some h)"
    using assms(1) by (simp add: db_rep_def RocksDB_Get_def read_header_def)
  then show ?thesis using Some by (simp add: GetBlockHeader_def Cached_def FIFO_Get_def)
qed

text \<open>
  C16. The block database implements a pair of tables, the current and the committed one. From a database that has been
  opened for a batch, any sequence of additions, removals, commits and rollbacks reads and leaves the rows that the
  pair prescribes, and the cache in front of the headers never shows: a header looked up is the one in the current
  table. The headers that are added are told apart by their hashes.
\<close>

theorem block_db_refines:
  assumes "inj_on Header_GetHash H" "\<forall>h \<in> H. header_valid B h" "\<forall>op \<in> set ops. set (db_headers op) \<subseteq> H"
    and "m = (\<lambda>(t, k). if t = ''INPUT_BITMAP'' then None else map_of rows (t, k))"
    and "fold db_spec ops (m, m) = (cur, saved)"
    and "db = fold db_run ops (BlockDB_OnInitWrite True (BlockDB_OpenDB rows))"
  shows "row (bd_rocks db) = cur \<and> stored (bd_rocks db) = saved \<and> GetBlockHeader B hash db = read_header B hash cur"
proof -
  have "row (bd_rocks (BlockDB_OpenDB rows)) = m"
    by (auto simp: fun_eq_iff assms(4) BlockDB_OpenDB_def) (simp add: row_def)
  moreover have "rd_transaction (bd_rocks (BlockDB_OpenDB rows)) = None"
    by (simp add: BlockDB_OpenDB_def RocksDB_DeleteAll_def fold_invariant [where P = "\<lambda>d. rd_transaction d = None" and Q = "\<lambda>_. True"]
        RocksDB_Delete_def)
  ultimately have "db_rep H (BlockDB_OnInitWrite True (BlockDB_OpenDB rows)) (m, m)"
    by (auto simp: db_rep_def open_batch_def stored_def row_def BlockDB_OnInitWrite_def RocksDB_OnInitWrite_def
        BlockDB_OpenDB_def Cache_New_def cache_inv_def)
  then have "db_rep H db (cur, saved)"
    using db_run_refines [OF assms(1), of ops] assms(3,5,6) by fastforce
  then show ?thesis using GetBlockHeader_rep [OF _ assms(2)] by (auto simp: db_rep_def)
qed

theorem block_db_refines_witness:
  "let h = sample_header (\<lambda>_. replicate 32 0);
       db = fold db_run [Db_AddHeader h, Db_Commit, Db_RemovePositions [[1]], Db_AddHeader h, Db_Rollback]
              (BlockDB_OnInitWrite True (BlockDB_OpenDB [((''INPUT_BITMAP'', [1]), [2])]))
   in GetBlockHeader (\<lambda>_. replicate 32 0) (Header_GetHash h) db = Inr (Some h)"
proof -
  let ?B = "\<lambda>_::bytes. replicate 32 (0::u8)"
  let ?h = "sample_header ?B"
  let ?m = "\<lambda>(t, k). if t = ''INPUT_BITMAP'' then None else map_of [((''INPUT_BITMAP'', [1]), [2::u8])] (t, k)"
  let ?ops = "[Db_AddHeader ?h, Db_Commit, Db_RemovePositions [[1]], Db_AddHeader ?h, Db_Rollback]"
  have valid: "header_valid ?B ?h" by (rule sample_header_valid)
  have spec: "fold db_spec ?ops (?m, ?m) = (put_header ?h ?m, put_header ?h ?m)" by simp
  have "GetBlockHeader ?B (Header_GetHash ?h)
      (fold db_run ?ops (BlockDB_OnInitWrite True (BlockDB_OpenDB [((''INPUT_BITMAP'', [1]), [2])]))) =
    read_header ?B (Header_GetHash ?h) (put_header ?h ?m)"
    using block_db_refines [OF _ _ _ refl spec refl, of "{?h}" ?B] valid by simp
  also have "\<dots> = Inr (Some ?h)"
    using header_codec.roundtrip [OF valid length_Header_bound [OF valid], of V1]
    by (auto simp: read_header_def put_header_def)
  finally show ?thesis by (simp only: Let_def)
qed

end
