(* ===== verification/TxHashSet.thy ===== *)
theory TxHashSet
  imports Database PruneableMMR Segmenter
begin

text \<open>
  The transaction hash set (\<^verbatim>\<open>src/PMMR/TxHashSetImpl.cpp\<close>): the ranges of kernels, outputs and range proofs kept
  together, with the header of the block they belong to. Blocks are applied and rewound in step with the block
  database. \<open>None\<close> around a result is an operation that does not come back: a loop that does not end, or an
  exception that leaves a thread and ends the program. \<open>Undefined\<close> is a null pointer that is followed; the \<open>assert\<close>
  of \<open>ApplyBlock\<close> is not compiled into a release. Locks and log output are left out.
\<close>

section \<open>Running operations in sequence\<close>

type_synonym ('s, 'a) exec = "'s \<Rightarrow> ('a result \<times> 's) option"

definition ereturn :: "'a \<Rightarrow> ('s, 'a) exec" where
  "ereturn x s = Some (Inr x, s)"

definition eraise :: "exn \<Rightarrow> ('s, 'a) exec" where
  "eraise e s = Some (Inl e, s)"

definition ebind :: "('s, 'a) exec \<Rightarrow> ('a \<Rightarrow> ('s, 'c) exec) \<Rightarrow> ('s, 'c) exec" where
  "ebind f g s =
     (case f s of
        None \<Rightarrow> None
      | Some (Inl e, s') \<Rightarrow> Some (Inl e, s')
      | Some (Inr x, s') \<Rightarrow> g x s')"

text \<open>Reading from the state, and changing it.\<close>

definition easks :: "('s \<Rightarrow> 'a result) \<Rightarrow> ('s, 'a) exec" where
  "easks f s = Some (f s, s)"

definition emodify :: "('s \<Rightarrow> 's) \<Rightarrow> ('s, unit) exec" where
  "emodify f s = Some (Inr (), f s)"

text \<open>A loop whose body may make the function return false.\<close>

fun efor :: "('x \<Rightarrow> ('s, bool) exec) \<Rightarrow> 'x list \<Rightarrow> ('s, bool) exec" where
  "efor f [] = ereturn True"
| "efor f (x # xs) = ebind (f x) (\<lambda>b. if b then efor f xs else ereturn False)"

text \<open>A loop that fills a vector, unless its body makes the function return false.\<close>

fun ecollect :: "('x \<Rightarrow> ('s, 'y option) exec) \<Rightarrow> 'x list \<Rightarrow> ('s, 'y list option) exec" where
  "ecollect f [] = ereturn (Some [])"
| "ecollect f (x # xs) =
     ebind (f x) (\<lambda>y. case y of
       None \<Rightarrow> ereturn None
     | Some y \<Rightarrow> ebind (ecollect f xs) (\<lambda>ys. ereturn (map_option (Cons y) ys)))"

section \<open>The state\<close>

record 'b TxHashSet =
  th_kernel :: KernelMMR
  th_output :: "'b PruneableMMR"
  th_proof :: "'b PruneableMMR"
  th_header :: "BlockHeader option"
  th_headerBackup :: "BlockHeader option"
  th_bitmapCache :: "BitmapAccumulator option"
  th_bitmapCacheSize :: u64

definition TxHashSet_New ::
  "KernelMMR \<Rightarrow> 'b PruneableMMR \<Rightarrow> 'b PruneableMMR \<Rightarrow> BlockHeader option \<Rightarrow> 'b TxHashSet" where
  "TxHashSet_New pKernelMMR pOutputPMMR pRangeProofPMMR pBlockHeader =
     \<lparr>th_kernel = pKernelMMR, th_output = pOutputPMMR, th_proof = pRangeProofPMMR, th_header = pBlockHeader,
      th_headerBackup = pBlockHeader, th_bitmapCache = None, th_bitmapCacheSize = 0\<rparr>"

abbreviation GetFlushedBlockHeader :: "'b TxHashSet \<Rightarrow> BlockHeader option" where
  "GetFlushedBlockHeader \<equiv> th_headerBackup"

definition GetOutputMMRSize :: "'b roaring \<Rightarrow> 'b TxHashSet \<Rightarrow> u64" where
  "GetOutputMMRSize R t = PMMR_GetSize R (th_output t)"

definition GetRangeProofMMRSize :: "'b roaring \<Rightarrow> 'b TxHashSet \<Rightarrow> u64" where
  "GetRangeProofMMRSize R t = PMMR_GetSize R (th_proof t)"

definition GetKernelMMRSize :: "'b TxHashSet \<Rightarrow> u64" where
  "GetKernelMMRSize t = KernelMMR_GetSize (th_kernel t)"

abbreviation output_at :: "'b roaring \<Rightarrow> LeafIndex \<Rightarrow> 'b TxHashSet \<Rightarrow> OutputIdentifier option result" where
  "output_at R leaf_idx t \<equiv> PMMR_GetAt R OUTPUT_SIZE OutputIdentifier_Deserialize leaf_idx (th_output t)"

abbreviation proof_at :: "'b roaring \<Rightarrow> LeafIndex \<Rightarrow> 'b TxHashSet \<Rightarrow> bytes option result" where
  "proof_at R leaf_idx t \<equiv> PMMR_GetAt R RANGE_PROOF_SIZE RangeProof_Deserialize leaf_idx (th_proof t)"

definition OutputIdentifier_IsCoinbase :: "OutputIdentifier \<Rightarrow> bool" where
  "OutputIdentifier_IsCoinbase oi = (oi_features oi AND COINBASE_OUTPUT = COINBASE_OUTPUT)"

definition InvalidateOutputBitmapCache :: "'b TxHashSet \<Rightarrow> 'b TxHashSet" where
  "InvalidateOutputBitmapCache t = t\<lparr>th_bitmapCache := None, th_bitmapCacheSize := 0\<rparr>"

text \<open>Operations of a range, of the hash set or of the database, run on hash set and database together.\<close>

type_synonym 'b chain_data = "'b TxHashSet \<times> BlockDB"

definition on_output :: "('b PruneableMMR, 'a) exec \<Rightarrow> ('b chain_data, 'a) exec" where
  "on_output f s = map_option (\<lambda>(r, m). (r, ((fst s)\<lparr>th_output := m\<rparr>, snd s))) (f (th_output (fst s)))"

definition on_proof :: "('b PruneableMMR, 'a) exec \<Rightarrow> ('b chain_data, 'a) exec" where
  "on_proof f s = map_option (\<lambda>(r, m). (r, ((fst s)\<lparr>th_proof := m\<rparr>, snd s))) (f (th_proof (fst s)))"

definition on_kernel :: "(KernelMMR, 'a) exec \<Rightarrow> ('b chain_data, 'a) exec" where
  "on_kernel f s = map_option (\<lambda>(r, m). (r, ((fst s)\<lparr>th_kernel := m\<rparr>, snd s))) (f (th_kernel (fst s)))"

definition on_db :: "(BlockDB \<Rightarrow> BlockDB) \<Rightarrow> ('b chain_data, unit) exec" where
  "on_db f = emodify (apsnd f)"

definition on_hash_set :: "('b TxHashSet \<Rightarrow> 'b TxHashSet) \<Rightarrow> ('b chain_data, unit) exec" where
  "on_hash_set f = emodify (apfst f)"

section \<open>Transactions and blocks\<close>

fun inputs_valid :: "'b roaring \<Rightarrow> u64 \<Rightarrow> TransactionInput list \<Rightarrow> BlockDB \<Rightarrow> 'b TxHashSet \<Rightarrow> bool result" where
  "inputs_valid R maximumBlockHeight [] db t = Inr True"
| "inputs_valid R maximumBlockHeight (input # inputs) db t =
     rbind (GetOutputPosition (i_commitment input) db) (\<lambda>pOutputPosition.
       case pOutputPosition of
         None \<Rightarrow> Inr False
       | Some position \<Rightarrow>
           rbind (output_at R (ol_leafIndex position) t) (\<lambda>pOutput.
             case pOutput of
               None \<Rightarrow> Inr False
             | Some out \<Rightarrow>
                 if \<not> BigInteger_equal (oi_commitment out) (i_commitment input) then Inr False
                 else if OutputIdentifier_IsCoinbase out \<and> maximumBlockHeight < ol_blockHeight position then Inr False
                 else inputs_valid R maximumBlockHeight inputs db t))"

fun outputs_valid :: "'b roaring \<Rightarrow> TransactionOutput list \<Rightarrow> BlockDB \<Rightarrow> 'b TxHashSet \<Rightarrow> bool result" where
  "outputs_valid R [] db t = Inr True"
| "outputs_valid R (out # outs) db t =
     rbind (GetOutputPosition (o_commitment out) db) (\<lambda>pOutputPosition.
       case pOutputPosition of
         None \<Rightarrow> outputs_valid R outs db t
       | Some position \<Rightarrow>
           rbind (output_at R (ol_leafIndex position) t) (\<lambda>pOutput.
             case pOutput of
               None \<Rightarrow> outputs_valid R outs db t
             | Some x \<Rightarrow>
                 if BigInteger_equal (oi_commitment x) (o_commitment out) then Inr False
                 else outputs_valid R outs db t))"

definition TxHashSet_IsValid ::
  "'b roaring \<Rightarrow> Environment \<Rightarrow> BlockDB \<Rightarrow> Transaction \<Rightarrow> 'b TxHashSet \<Rightarrow> bool result" where
  "TxHashSet_IsValid R env db transaction t =
     (case th_header t of
        None \<Rightarrow> Inl Undefined
      | Some header \<Rightarrow>
          let maximumBlockHeight = GetMaxCoinbaseHeight env (h_height header + 1)
          in rbind (inputs_valid R maximumBlockHeight (b_inputs (tx_body transaction)) db t) (\<lambda>valid.
               if valid then outputs_valid R (b_outputs (tx_body transaction)) db t else Inr False))"

text \<open>The body of the loop over the inputs of a block; \<open>None\<close> makes \<open>ApplyBlock\<close> return false.\<close>

definition spend_input :: "'b roaring \<Rightarrow> u64 \<Rightarrow> TransactionInput \<Rightarrow> ('b chain_data, SpentOutput option) exec" where
  "spend_input R maximumBlockHeight input =
     ebind (easks (\<lambda>(t, db). GetOutputPosition (i_commitment input) db)) (\<lambda>pOutputPosition.
       case pOutputPosition of
         None \<Rightarrow> ereturn None
       | Some position \<Rightarrow>
           ebind (easks (\<lambda>(t, db). output_at R (ol_leafIndex position) t)) (\<lambda>pOutput.
             case pOutput of
               None \<Rightarrow> eraise Undefined
             | Some out \<Rightarrow>
                 if OutputIdentifier_IsCoinbase out \<and> maximumBlockHeight < ol_blockHeight position then ereturn None
                 else
                   ebind (on_output (\<lambda>m. Some (PMMR_Remove (ol_leafIndex position) m))) (\<lambda>_.
                   ebind (on_proof (\<lambda>m. Some (PMMR_Remove (ol_leafIndex position) m))) (\<lambda>_.
                     ereturn (Some \<lparr>so_commitment = i_commitment input, so_location = position\<rparr>)))))"

definition append_output ::
  "(bytes \<Rightarrow> bytes) \<Rightarrow> 'b roaring \<Rightarrow> u64 \<Rightarrow> TransactionOutput \<Rightarrow> ('b chain_data, bool) exec" where
  "append_output Blake2b R height out =
     ebind (easks (\<lambda>(t, db). rbind (GetOutputPosition (o_commitment out) db) (\<lambda>pOutputPosition.
              Inr (case pOutputPosition of
                     None \<Rightarrow> False
                   | Some position \<Rightarrow> IsUnpruned R (ol_leafIndex position) (th_output t))))) (\<lambda>exists.
       if exists then ereturn False
       else
         ebind (easks (\<lambda>(t, db). Inr \<lparr>ol_leafIndex = LeafIndex_AtPos (PMMR_GetSize R (th_output t)),
                                        ol_blockHeight = height\<rparr>)) (\<lambda>location.
         ebind (on_output (PMMR_Append Blake2b R OutputIdentifier_Serialize (OutputIdentifier_FromOutput out))) (\<lambda>_.
         ebind (on_proof (PMMR_Append Blake2b R RangeProof_Serialize (o_rangeProof out))) (\<lambda>_.
         ebind (on_db (AddOutputPosition (o_commitment out) location)) (\<lambda>_.
           ereturn True)))))"

definition append_kernel ::
  "(bytes \<Rightarrow> bytes) \<Rightarrow> 'b roaring \<Rightarrow> TransactionKernel \<Rightarrow> ('b chain_data, bool) exec" where
  "append_kernel Blake2b R krn = ebind (on_kernel (ApplyKernel Blake2b R krn)) (\<lambda>_. ereturn True)"

definition ApplyBlock ::
  "(bytes \<Rightarrow> bytes) \<Rightarrow> 'b roaring \<Rightarrow> Environment \<Rightarrow> FullBlock \<Rightarrow> ('b chain_data, bool) exec" where
  "ApplyBlock Blake2b R env block =
     (let height = h_height (fb_header block);
          maximumBlockHeight = GetMaxCoinbaseHeight env height;
          body = fb_body block
      in ebind (on_hash_set InvalidateOutputBitmapCache) (\<lambda>_.
         ebind (ecollect (spend_input R maximumBlockHeight) (b_inputs body)) (\<lambda>spent.
           case spent of
             None \<Rightarrow> ereturn False
           | Some spentPositions \<Rightarrow>
               ebind (on_db (AddSpentPositions (Header_GetHash (fb_header block)) spentPositions)) (\<lambda>_.
               ebind (efor (append_output Blake2b R height) (b_outputs body)) (\<lambda>added.
                 if \<not> added then ereturn False
                 else
                   ebind (on_db (RemoveOutputPositions (map i_commitment (b_inputs body)))) (\<lambda>_.
                   ebind (efor (append_kernel Blake2b R) (b_kernels body)) (\<lambda>_.
                   ebind (on_hash_set (\<lambda>t. t\<lparr>th_header := Some (fb_header block)\<rparr>)) (\<lambda>_.
                     ereturn True))))))))"

section \<open>Duplicate kernels\<close>

text \<open>
  The kernels without recent duplicate of a block, with their relative heights; \<open>None\<close> when a relative height is
  out of bounds or a kernel occurs twice.
\<close>

fun nrd_kernels :: "TransactionKernel list \<Rightarrow> (bytes \<times> u64) list \<Rightarrow> (bytes \<times> u64) list option" where
  "nrd_kernels [] acc = Some acc"
| "nrd_kernels (krn # krns) acc =
     (if k_features krn \<noteq> NO_RECENT_DUPLICATE then nrd_kernels krns acc
      else if k_lockHeight krn = 0 \<or> WEEK_HEIGHT < k_lockHeight krn then None
      else if map_of acc (k_excessCommitment krn) \<noteq> None then None
      else nrd_kernels krns ((k_excessCommitment krn, k_lockHeight krn) # acc))"

text \<open>The headers below a block, from its predecessor down to a height, in increasing height.\<close>

partial_function (option) previous_headers ::
    "(bytes \<Rightarrow> bytes) \<Rightarrow> BlockDB \<Rightarrow> u64 \<Rightarrow> u64 \<Rightarrow> bytes \<Rightarrow> BlockHeader list \<Rightarrow> BlockHeader list option result option" where
  "previous_headers Blake2b db firstHeaderHeight expectedHeight headerHash headers =
     (case GetBlockHeader Blake2b headerHash db of
        Inl e \<Rightarrow> Some (Inl e)
      | Inr None \<Rightarrow> Some (Inr None)
      | Inr (Some header) \<Rightarrow>
          if h_height header \<noteq> expectedHeight then Some (Inr None)
          else if expectedHeight = firstHeaderHeight then Some (Inr (Some (header # headers)))
          else previous_headers Blake2b db firstHeaderHeight (expectedHeight - 1) (h_previousBlockHash header)
                 (header # headers))"

text \<open>The kernels of one earlier block, at the leaves from \<open>i\<close> on.\<close>

definition nrd_kernel_ok :: "KernelMMR \<Rightarrow> (bytes \<times> u64) list \<Rightarrow> u64 \<Rightarrow> u64 \<Rightarrow> nat \<Rightarrow> bool result" where
  "nrd_kernel_ok m nrds currentHeight height kernelIndex =
     rbind (GetKernelAt (LeafIndex_At (of_nat kernelIndex)) m) (\<lambda>pKernel.
       Inr (case pKernel of
              None \<Rightarrow> False
            | Some krn \<Rightarrow>
                k_features krn \<noteq> NO_RECENT_DUPLICATE \<or>
                (case map_of nrds (k_excessCommitment krn) of
                   None \<Rightarrow> True
                 | Some relativeHeight \<Rightarrow> \<not> currentHeight - height < relativeHeight)))"

fun all_ok :: "('x \<Rightarrow> bool result) \<Rightarrow> 'x list \<Rightarrow> bool result" where
  "all_ok f [] = Inr True"
| "all_ok f (x # xs) = rbind (f x) (\<lambda>b. if b then all_ok f xs else Inr False)"

fun nrd_headers_ok ::
  "KernelMMR \<Rightarrow> (bytes \<times> u64) list \<Rightarrow> u64 \<Rightarrow> u64 \<Rightarrow> BlockHeader list \<Rightarrow> bool result" where
  "nrd_headers_ok m nrds currentHeight previousNumKernels [] = Inr True"
| "nrd_headers_ok m nrds currentHeight previousNumKernels (header # headers) =
     (let currentNumKernels = Header_GetNumKernels header
      in if currentNumKernels < previousNumKernels then Inr False
         else
           rbind (all_ok (nrd_kernel_ok m nrds currentHeight (h_height header))
                    [unat previousNumKernels..<unat currentNumKernels]) (\<lambda>ok.
             if ok then nrd_headers_ok m nrds currentHeight currentNumKernels headers else Inr False))"

definition ValidateNRDKernelRules ::
  "(bytes \<Rightarrow> bytes) \<Rightarrow> BlockDB \<Rightarrow> FullBlock \<Rightarrow> 'b TxHashSet \<Rightarrow> bool result option" where
  "ValidateNRDKernelRules Blake2b db block t =
     (case nrd_kernels (b_kernels (fb_body block)) [] of
        None \<Rightarrow> Some (Inr False)
      | Some nrds \<Rightarrow>
          if nrds = [] then Some (Inr True)
          else
            let maxRelativeHeight = foldl max 0 (map snd nrds);
                currentHeight = h_height (fb_header block);
                startHeight = (if maxRelativeHeight < currentHeight then currentHeight - maxRelativeHeight + 1 else 0);
                firstHeaderHeight = (if 0 < startHeight then startHeight - 1 else startHeight)
            in case (if 0 < currentHeight
                     then previous_headers Blake2b db firstHeaderHeight (currentHeight - 1)
                            (h_previousBlockHash (fb_header block)) []
                     else Some (Inr (Some []))) of
                 None \<Rightarrow> None
               | Some (Inl e) \<Rightarrow> Some (Inl e)
               | Some (Inr None) \<Rightarrow> Some (Inr False)
               | Some (Inr (Some headers)) \<Rightarrow>
                   Some (if 0 < startHeight
                         then nrd_headers_ok (th_kernel t) nrds currentHeight (Header_GetNumKernels (hd headers)) (tl headers)
                         else nrd_headers_ok (th_kernel t) nrds currentHeight 0 headers))"

section \<open>Roots\<close>

definition GetOutputRoot :: "(bytes \<Rightarrow> bytes) \<Rightarrow> 'b roaring \<Rightarrow> u64 \<Rightarrow> 'b TxHashSet \<Rightarrow> bytes result" where
  "GetOutputRoot Blake2b R outputMMRSize t = PMMR_Root Blake2b R outputMMRSize (th_output t)"

definition GetOutputBitmapRoot :: "(bytes \<Rightarrow> bytes) \<Rightarrow> u64 \<Rightarrow> 'b TxHashSet \<Rightarrow> bytes result option" where
  "GetOutputBitmapRoot Blake2b numOutputs t = UBMTRoot Blake2b numOutputs (th_output t)"

text \<open>From version 3 on the header commits to the root of the outputs merged with the root of the bitmap.\<close>

definition output_root_ok ::
  "(bytes \<Rightarrow> bytes) \<Rightarrow> bytes \<Rightarrow> BlockHeader \<Rightarrow> 'b TxHashSet \<Rightarrow> bool result option" where
  "output_root_ok Blake2b outputRoot header t =
     (if h_version header < 3 then Some (Inr (BigInteger_equal outputRoot (h_outputRoot header)))
      else
        map_option (\<lambda>r. rbind r (\<lambda>ubmt.
            Inr (BigInteger_equal (HashParentWithIndex Blake2b outputRoot ubmt (h_outputMMRSize header))
                   (h_outputRoot header))))
          (GetOutputBitmapRoot Blake2b (Header_GetNumOutputs header) t))"

definition ValidateRoots ::
  "(bytes \<Rightarrow> bytes) \<Rightarrow> 'b roaring \<Rightarrow> BlockHeader \<Rightarrow> 'b TxHashSet \<Rightarrow> bool result option" where
  "ValidateRoots Blake2b R header t =
     (case KernelMMR_Root Blake2b R (h_kernelMMRSize header) (th_kernel t) of
        Inl e \<Rightarrow> Some (Inl e)
      | Inr kernelRoot \<Rightarrow>
          if \<not> BigInteger_equal kernelRoot (h_kernelRoot header) then Some (Inr False)
          else
            case PMMR_Root Blake2b R (h_outputMMRSize header) (th_output t) of
              Inl e \<Rightarrow> Some (Inl e)
            | Inr outputRoot \<Rightarrow>
                (case output_root_ok Blake2b outputRoot header t of
                   None \<Rightarrow> None
                 | Some (Inl e) \<Rightarrow> Some (Inl e)
                 | Some (Inr False) \<Rightarrow> Some (Inr False)
                 | Some (Inr True) \<Rightarrow>
                     Some (rbind (PMMR_Root Blake2b R (h_outputMMRSize header) (th_proof t)) (\<lambda>rangeProofRoot.
                       Inr (BigInteger_equal rangeProofRoot (h_rangeProofRoot header))))))"

record TxHashSetRoots =
  tr_kernel :: "bytes \<times> u64"
  tr_output :: "bytes \<times> u64"
  tr_rangeProof :: "bytes \<times> u64"

definition roots_spend :: "TransactionInput \<Rightarrow> ('b chain_data, bool) exec" where
  "roots_spend input =
     ebind (easks (\<lambda>(t, db). GetOutputPosition (i_commitment input) db)) (\<lambda>pOutputPosition.
       case pOutputPosition of
         None \<Rightarrow> eraise RuntimeError
       | Some position \<Rightarrow>
           ebind (on_output (\<lambda>m. Some (PMMR_Remove (ol_leafIndex position) m))) (\<lambda>_.
           ebind (on_proof (\<lambda>m. Some (PMMR_Remove (ol_leafIndex position) m))) (\<lambda>_.
             ereturn True)))"

definition roots_append ::
  "(bytes \<Rightarrow> bytes) \<Rightarrow> 'b roaring \<Rightarrow> TransactionOutput \<Rightarrow> ('b chain_data, bool) exec" where
  "roots_append Blake2b R out =
     ebind (on_output (PMMR_Append Blake2b R OutputIdentifier_Serialize (OutputIdentifier_FromOutput out))) (\<lambda>_.
     ebind (on_proof (PMMR_Append Blake2b R RangeProof_Serialize (o_rangeProof out))) (\<lambda>_.
       ereturn True))"

definition body_roots ::
  "(bytes \<Rightarrow> bytes) \<Rightarrow> 'b roaring \<Rightarrow> TransactionBody \<Rightarrow> 'b TxHashSet \<Rightarrow> TxHashSetRoots result" where
  "body_roots Blake2b R body t =
     (case th_header t of
        None \<Rightarrow> Inl Undefined
      | Some header \<Rightarrow>
          let num_kernels = Header_GetNumKernels header + of_nat (length (b_kernels body));
              kernel_size = LeafIndex_GetPosition (LeafIndex_At num_kernels);
              num_outputs = Header_GetNumOutputs header + of_nat (length (b_outputs body));
              output_size = LeafIndex_GetPosition (LeafIndex_At num_outputs)
          in rbind (KernelMMR_Root Blake2b R kernel_size (th_kernel t)) (\<lambda>kernel_root.
             rbind (PMMR_Root Blake2b R output_size (th_output t)) (\<lambda>output_root.
             rbind (PMMR_Root Blake2b R output_size (th_proof t)) (\<lambda>proof_root.
               Inr \<lparr>tr_kernel = (kernel_root, kernel_size), tr_output = (output_root, output_size),
                    tr_rangeProof = (proof_root, output_size)\<rparr>))))"

definition GetRoots ::
  "(bytes \<Rightarrow> bytes) \<Rightarrow> 'b roaring \<Rightarrow> TransactionBody \<Rightarrow> ('b chain_data, TxHashSetRoots) exec" where
  "GetRoots Blake2b R body =
     ebind (on_hash_set InvalidateOutputBitmapCache) (\<lambda>_.
     ebind (efor (append_kernel Blake2b R) (b_kernels body)) (\<lambda>_.
     ebind (efor roots_spend (b_inputs body)) (\<lambda>_.
     ebind (efor (roots_append Blake2b R) (b_outputs body)) (\<lambda>_.
       easks (\<lambda>(t, db). body_roots Blake2b R body t)))))"

section \<open>Rewinding, committing, rolling back\<close>

definition restore_input ::
  "(bytes \<rightharpoonup> OutputLocation) \<Rightarrow> TransactionInput \<Rightarrow> ('b chain_data, u64 option) exec" where
  "restore_input spentOutputs input =
     (case spentOutputs (i_commitment input) of
        None \<Rightarrow> eraise TxHashSetException
      | Some location \<Rightarrow>
          ebind (on_db (AddOutputPosition (i_commitment input) location)) (\<lambda>_.
            ereturn (Some (m_leafIndex (ol_leafIndex location)))))"

text \<open>One round of the loop of \<open>Rewind\<close>: the positions of a block are undone, its predecessor becomes the tip.\<close>

definition rewind_block ::
  "(bytes \<Rightarrow> bytes) \<Rightarrow> (bytes \<Rightarrow> u8) \<Rightarrow> BlockHeader \<Rightarrow> ('b chain_data, u64 list) exec" where
  "rewind_block Blake2b GetOutputType header =
     ebind (easks (\<lambda>(t, db). GetBlock Blake2b GetOutputType (Header_GetHash header) db)) (\<lambda>pBlock.
       case pBlock of
         None \<Rightarrow> eraise TxHashSetException
       | Some block \<Rightarrow>
           ebind (easks (\<lambda>(t, db). GetSpentPositions (Header_GetHash header) db)) (\<lambda>spentOutputs.
           ebind (on_db (RemoveOutputPositions (map o_commitment (b_outputs (fb_body block))))) (\<lambda>_.
           ebind (ecollect (restore_input spentOutputs) (b_inputs (fb_body block))) (\<lambda>leaves.
           ebind (easks (\<lambda>(t, db). GetBlockHeader Blake2b (h_previousBlockHash header) db)) (\<lambda>previous.
           ebind (on_hash_set (\<lambda>t. t\<lparr>th_header := previous\<rparr>)) (\<lambda>_.
             ereturn (case leaves of None \<Rightarrow> [] | Some ls \<Rightarrow> ls)))))))"

partial_function (option) rewind_blocks ::
    "(bytes \<Rightarrow> bytes) \<Rightarrow> (bytes \<Rightarrow> u8) \<Rightarrow> BlockHeader \<Rightarrow> u64 list \<Rightarrow> 'b chain_data \<Rightarrow>
     (u64 list result \<times> 'b chain_data) option" where
  "rewind_blocks Blake2b GetOutputType header leavesToAdd s =
     (case th_header (fst s) of
        None \<Rightarrow> Some (Inl Undefined, s)
      | Some tip \<Rightarrow>
          if BigInteger_equal (Header_GetHash tip) (Header_GetHash header) then Some (Inr leavesToAdd, s)
          else
            case rewind_block Blake2b GetOutputType tip s of
              None \<Rightarrow> None
            | Some (r, s) \<Rightarrow>
                (case r of
                   Inl e \<Rightarrow> Some (Inl e, s)
                 | Inr leaves \<Rightarrow> rewind_blocks Blake2b GetOutputType header (leavesToAdd @ leaves) s))"

definition TxHashSet_Rewind ::
  "(bytes \<Rightarrow> bytes) \<Rightarrow> 'b roaring \<Rightarrow> (bytes \<Rightarrow> u8) \<Rightarrow> BlockHeader \<Rightarrow> ('b chain_data, unit) exec" where
  "TxHashSet_Rewind Blake2b R GetOutputType header =
     ebind (on_hash_set InvalidateOutputBitmapCache) (\<lambda>_.
     ebind (rewind_blocks Blake2b GetOutputType header []) (\<lambda>leavesToAdd.
     ebind (on_kernel (\<lambda>m. Some (KernelMMR_Rewind (Header_GetNumKernels header) m))) (\<lambda>_.
     ebind (on_output (\<lambda>m. Some (PMMR_Rewind R OUTPUT_SIZE (Header_GetNumOutputs header) leavesToAdd m))) (\<lambda>_.
       on_proof (\<lambda>m. Some (PMMR_Rewind R RANGE_PROOF_SIZE (Header_GetNumOutputs header) leavesToAdd m))))))"

text \<open>
  The three ranges are committed in threads of their own; an exception there ends the program. The arguments tell
  which files can be opened and mapped.
\<close>

definition TxHashSet_Commit ::
  "'b roaring \<Rightarrow> bool \<times> bool \<times> bool \<Rightarrow> bool \<times> bool \<times> bool \<Rightarrow> bool \<times> bool \<times> bool \<Rightarrow> 'b TxHashSet \<Rightarrow> 'b TxHashSet option" where
  "TxHashSet_Commit R kf outf prf t =
     (case (case kf of (a, b, c) \<Rightarrow> KernelMMR_Commit a b c (th_kernel t),
            case outf of (a, b, c) \<Rightarrow> PMMR_Commit R a b c (th_output t),
            case prf of (a, b, c) \<Rightarrow> PMMR_Commit R a b c (th_proof t)) of
        ((Inr _, k), (Inr _, out), (Inr _, p)) \<Rightarrow>
          Some (t\<lparr>th_kernel := k, th_output := out, th_proof := p, th_headerBackup := th_header t\<rparr>)
      | _ \<Rightarrow> None)"

definition TxHashSet_Rollback :: "'b roaring \<Rightarrow> 'b TxHashSet \<Rightarrow> 'b TxHashSet" where
  "TxHashSet_Rollback R t =
     (InvalidateOutputBitmapCache t)\<lparr>th_kernel := KernelMMR_Rollback (th_kernel t),
        th_output := PMMR_Rollback R (th_output t), th_proof := PMMR_Rollback R (th_proof t),
        th_header := th_headerBackup t\<rparr>"

definition TxHashSet_Compact ::
  "'b roaring \<Rightarrow> bool \<times> bool \<times> bool \<Rightarrow> bool \<times> bool \<times> bool \<Rightarrow> bool \<times> bool \<times> bool \<Rightarrow> ('b chain_data, unit) exec" where
  "TxHashSet_Compact R kf outf prf =
     ebind (on_hash_set InvalidateOutputBitmapCache) (\<lambda>_.
     ebind (on_kernel (\<lambda>m. Some (case kf of (a, b, c) \<Rightarrow> KernelMMR_Commit a b c m))) (\<lambda>_.
     ebind (on_output (\<lambda>m. Some (case outf of (a, b, c) \<Rightarrow> PMMR_Commit R a b c m))) (\<lambda>_.
     ebind (on_proof (\<lambda>m. Some (case prf of (a, b, c) \<Rightarrow> PMMR_Commit R a b c m))) (\<lambda>_.
     ebind (on_output (emodify (FlushPruneList R))) (\<lambda>_.
       on_proof (emodify (FlushPruneList R)))))))"

section \<open>Queries\<close>

text \<open>
  The positions of the unspent outputs are written again, block by block. The chain is the function from heights
  to hashes that \<open>GetByHeight\<close> computes. The height of a block is below the largest 64-bit number, so the outer loop
  ends.
\<close>

definition save_position :: "'b roaring \<Rightarrow> u64 \<Rightarrow> 'b TxHashSet \<Rightarrow> nat \<Rightarrow> BlockDB \<Rightarrow> BlockDB result" where
  "save_position R height t leaf db =
     rbind (output_at R (LeafIndex_At (of_nat leaf)) t) (\<lambda>pOutput.
       Inr (case pOutput of
              None \<Rightarrow> db
            | Some out \<Rightarrow> AddOutputPosition (oi_commitment out)
                \<lparr>ol_leafIndex = LeafIndex_At (of_nat leaf), ol_blockHeight = height\<rparr> db))"

fun rfold :: "('x \<Rightarrow> 's \<Rightarrow> 's result) \<Rightarrow> 'x list \<Rightarrow> 's \<Rightarrow> 's result" where
  "rfold f [] s = Inr s"
| "rfold f (x # xs) s = rbind (f x s) (rfold f xs)"

definition save_height ::
  "(bytes \<Rightarrow> bytes) \<Rightarrow> 'b roaring \<Rightarrow> (u64 \<Rightarrow> bytes option) \<Rightarrow> 'b TxHashSet \<Rightarrow> nat \<Rightarrow> nat \<times> BlockDB \<Rightarrow> (nat \<times> BlockDB) result" where
  "save_height Blake2b R getByHeight t height s =
     (case s of (leaf, db) \<Rightarrow>
        (case getByHeight (of_nat height) of
           None \<Rightarrow> Inr (leaf, db)
         | Some hash \<Rightarrow>
             rbind (GetBlockHeader Blake2b hash db) (\<lambda>pHeader.
               case pHeader of
                 None \<Rightarrow> Inr (leaf, db)
               | Some header \<Rightarrow>
                   rbind (rfold (save_position R (h_height header) t) [leaf..<unat (Header_GetNumOutputs header)] db) (\<lambda>db.
                     Inr (max leaf (unat (Header_GetNumOutputs header)), db)))))"

definition SaveOutputPositions ::
  "(bytes \<Rightarrow> bytes) \<Rightarrow> 'b roaring \<Rightarrow> (u64 \<Rightarrow> bytes option) \<Rightarrow> 'b TxHashSet \<Rightarrow> BlockDB \<Rightarrow> BlockDB result" where
  "SaveOutputPositions Blake2b R getByHeight t db =
     (case th_header t of
        None \<Rightarrow> Inl Undefined
      | Some header \<Rightarrow>
          rbind (rfold (save_height Blake2b R getByHeight t) [0..<Suc (unat (h_height header))] (0, db)) (\<lambda>(leaf, db).
            Inr db))"

definition GetLastKernelHashes :: "'b roaring \<Rightarrow> u64 \<Rightarrow> 'b TxHashSet \<Rightarrow> bytes list result" where
  "GetLastKernelHashes R numberOfKernels t = KernelMMR_GetLastLeafHashes R numberOfKernels (th_kernel t)"

definition GetLastOutputHashes :: "'b roaring \<Rightarrow> u64 \<Rightarrow> 'b TxHashSet \<Rightarrow> bytes list result" where
  "GetLastOutputHashes R numberOfOutputs t = PMMR_GetLastLeafHashes R numberOfOutputs (th_output t)"

definition GetLastRangeProofHashes :: "'b roaring \<Rightarrow> u64 \<Rightarrow> 'b TxHashSet \<Rightarrow> bytes list result" where
  "GetLastRangeProofHashes R numberOfRangeProofs t = PMMR_GetLastLeafHashes R numberOfRangeProofs (th_proof t)"

record OutputDTO =
  od_spent :: bool
  od_identifier :: OutputIdentifier
  od_location :: OutputLocation
  od_rangeProof :: bytes

record OutputRange =
  or_highestIndex :: u64
  or_lastRetrievedIndex :: u64
  or_outputs :: "OutputDTO list"

text \<open>What the loop does with one leaf: the output there, if it is unspent.\<close>

definition output_dto :: "'b roaring \<Rightarrow> BlockDB \<Rightarrow> 'b TxHashSet \<Rightarrow> LeafIndex \<Rightarrow> OutputDTO option result" where
  "output_dto R db t leaf_idx =
     rbind (output_at R leaf_idx t) (\<lambda>pOutput.
       case pOutput of
         None \<Rightarrow> Inr None
       | Some out \<Rightarrow>
           rbind (proof_at R leaf_idx t) (\<lambda>pRangeProof.
           rbind (GetOutputPosition (oi_commitment out) db) (\<lambda>pOutputPosition.
             case (pRangeProof, pOutputPosition) of
               (Some rangeProof, Some position) \<Rightarrow>
                 if m_leafIndex leaf_idx \<noteq> m_leafIndex (ol_leafIndex position) then Inl TxHashSetException
                 else Inr (Some \<lparr>od_spent = False, od_identifier = out, od_location = position,
                                 od_rangeProof = rangeProof\<rparr>)
             | _ \<Rightarrow> Inl TxHashSetException)))"

partial_function (option) outputs_from ::
    "'b roaring \<Rightarrow> BlockDB \<Rightarrow> 'b TxHashSet \<Rightarrow> u64 \<Rightarrow> u64 \<Rightarrow> u64 \<Rightarrow> OutputDTO list \<Rightarrow> OutputDTO list result option" where
  "outputs_from R db t outputSize maxNumOutputs leaf outputs =
     (if maxNumOutputs \<le> of_nat (length outputs) then Some (Inr outputs)
      else if outputSize \<le> LeafIndex_GetPosition (LeafIndex_At leaf) then Some (Inr outputs)
      else
        case output_dto R db t (LeafIndex_At leaf) of
          Inl e \<Rightarrow> Some (Inl e)
        | Inr pOutput \<Rightarrow>
            outputs_from R db t outputSize maxNumOutputs (leaf + 1)
              (case pOutput of None \<Rightarrow> outputs | Some out \<Rightarrow> outputs @ [out]))"

definition GetOutputsByLeafIndex ::
  "'b roaring \<Rightarrow> BlockDB \<Rightarrow> u64 \<Rightarrow> u64 \<Rightarrow> 'b TxHashSet \<Rightarrow> OutputRange result option" where
  "GetOutputsByLeafIndex R db startIndex maxNumOutputs t =
     (let outputSize = PMMR_GetSize R (th_output t);
          maxLeafIndex = m_leafIndex (LeafIndex_AtPos outputSize)
      in map_option (\<lambda>r. rbind r (\<lambda>outputs. Inr
             \<lparr>or_highestIndex = (if 0 < maxLeafIndex then maxLeafIndex - 1 else 0),
              or_lastRetrievedIndex =
                (if outputs = [] then 0 else m_leafIndex (ol_leafIndex (od_location (last outputs)))),
              or_outputs = outputs\<rparr>))
           (outputs_from R db t outputSize maxNumOutputs startIndex []))"

text \<open>Here a missing range proof or position is not looked for.\<close>

definition mmr_output_dto :: "'b roaring \<Rightarrow> BlockDB \<Rightarrow> 'b TxHashSet \<Rightarrow> LeafIndex \<Rightarrow> OutputDTO option result" where
  "mmr_output_dto R db t leaf_idx =
     rbind (output_at R leaf_idx t) (\<lambda>pOutput.
       case pOutput of
         None \<Rightarrow> Inr None
       | Some out \<Rightarrow>
           rbind (proof_at R leaf_idx t) (\<lambda>pRangeProof.
           rbind (GetOutputPosition (oi_commitment out) db) (\<lambda>pOutputPosition.
             case (pRangeProof, pOutputPosition) of
               (Some rangeProof, Some position) \<Rightarrow>
                 Inr (Some \<lparr>od_spent = False, od_identifier = out, od_location = position, od_rangeProof = rangeProof\<rparr>)
             | _ \<Rightarrow> Inl Undefined)))"

partial_function (option) mmr_outputs_from ::
    "'b roaring \<Rightarrow> BlockDB \<Rightarrow> 'b TxHashSet \<Rightarrow> u64 \<Rightarrow> Index \<Rightarrow> OutputDTO list \<Rightarrow> OutputDTO list result option" where
  "mmr_outputs_from R db t lastIndex mmr_idx outputs =
     (if lastIndex < m_position mmr_idx then Some (Inr outputs)
      else
        case (if IsLeaf mmr_idx then mmr_output_dto R db t (LeafIndex_From mmr_idx) else Inr None) of
          Inl e \<Rightarrow> Some (Inl e)
        | Inr pOutput \<Rightarrow>
            mmr_outputs_from R db t lastIndex (GetNext mmr_idx)
              (case pOutput of None \<Rightarrow> outputs | Some out \<Rightarrow> outputs @ [out]))"

definition GetOutputsByMMRIndex ::
  "'b roaring \<Rightarrow> BlockDB \<Rightarrow> u64 \<Rightarrow> u64 \<Rightarrow> 'b TxHashSet \<Rightarrow> OutputDTO list result option" where
  "GetOutputsByMMRIndex R db startIndex lastIndex t = mmr_outputs_from R db t lastIndex (Index_At startIndex) []"

definition GetOutput :: "'b roaring \<Rightarrow> OutputLocation \<Rightarrow> 'b TxHashSet \<Rightarrow> OutputDTO result" where
  "GetOutput R location t =
     rbind (output_at R (ol_leafIndex location) t) (\<lambda>pOutput.
     rbind (proof_at R (ol_leafIndex location) t) (\<lambda>pRangeProof.
       case (pOutput, pRangeProof) of
         (Some out, Some rangeProof) \<Rightarrow>
           Inr \<lparr>od_spent = False, od_identifier = out, od_location = location, od_rangeProof = rangeProof\<rparr>
       | _ \<Rightarrow> Inl TxHashSetException))"

section \<open>Segments and the bitmap\<close>

definition BuildOutputBitmapCache :: "(bytes \<Rightarrow> bytes) \<Rightarrow> 'b roaring \<Rightarrow> ('b TxHashSet, unit) exec" where
  "BuildOutputBitmapCache Blake2b R t =
     (let outputMMRSize = PMMR_GetSize R (th_output t)
      in if th_bitmapCache t \<noteq> None \<and> th_bitmapCacheSize t = outputMMRSize then Some (Inr (), t)
         else
           case output_accumulator Blake2b outputMMRSize (\<lambda>leaf_idx. IsUnpruned R leaf_idx (th_output t)) of
             None \<Rightarrow> None
           | Some (Inl e) \<Rightarrow> Some (Inl e, t)
           | Some (Inr accumulator) \<Rightarrow>
               Some (Inr (), t\<lparr>th_bitmapCacheSize := outputMMRSize, th_bitmapCache := Some accumulator\<rparr>))"

definition GetOutputBitmapAccumulator :: "(bytes \<Rightarrow> bytes) \<Rightarrow> 'b roaring \<Rightarrow> ('b TxHashSet, BitmapAccumulator) exec" where
  "GetOutputBitmapAccumulator Blake2b R =
     ebind (BuildOutputBitmapCache Blake2b R) (\<lambda>_.
       easks (\<lambda>t. case th_bitmapCache t of None \<Rightarrow> Inl StdException | Some accumulator \<Rightarrow> Inr accumulator))"

definition GetOutputBitmapSegment ::
  "(bytes \<Rightarrow> bytes) \<Rightarrow> 'b roaring \<Rightarrow> SegmentIdentifier \<Rightarrow> ('b TxHashSet, BitmapSegment option) exec" where
  "GetOutputBitmapSegment Blake2b R identifier =
     ebind (GetOutputBitmapAccumulator Blake2b R) (\<lambda>accumulator.
       (\<lambda>t. map_option (\<lambda>r. (r, t)) (OutputBitmapSegment Blake2b identifier accumulator)))"

definition GetOutputSegment ::
  "(bytes \<Rightarrow> bytes) \<Rightarrow> 'b roaring \<Rightarrow> SegmentIdentifier \<Rightarrow> 'b TxHashSet \<Rightarrow> OutputIdentifier Segment option result option" where
  "GetOutputSegment Blake2b R identifier t =
     OutputSegment Blake2b (PMMR_GetSize R (th_output t)) (\<lambda>leaf_idx. output_at R leaf_idx t)
       (\<lambda>leaf_idx. PMMR_GetDataAt R OUTPUT_SIZE OutputIdentifier_Deserialize leaf_idx (th_output t))
       (\<lambda>leaf_idx. IsUnpruned R leaf_idx (th_output t)) (\<lambda>index. GetSegmentHashAt R index (th_output t)) identifier"

definition GetRangeProofSegment ::
  "(bytes \<Rightarrow> bytes) \<Rightarrow> 'b roaring \<Rightarrow> SegmentIdentifier \<Rightarrow> 'b TxHashSet \<Rightarrow> bytes Segment option result option" where
  "GetRangeProofSegment Blake2b R identifier t =
     OutputSegment Blake2b (PMMR_GetSize R (th_proof t)) (\<lambda>leaf_idx. proof_at R leaf_idx t)
       (\<lambda>leaf_idx. PMMR_GetDataAt R RANGE_PROOF_SIZE RangeProof_Deserialize leaf_idx (th_proof t))
       (\<lambda>leaf_idx. IsUnpruned R leaf_idx (th_output t)) (\<lambda>index. GetSegmentHashAt R index (th_proof t)) identifier"

definition ApplyOutputSegment ::
  "(bytes \<Rightarrow> bytes) \<Rightarrow> 'b roaring \<Rightarrow> OutputIdentifier Segment \<Rightarrow> u64 \<Rightarrow> BitmapAccumulator option \<Rightarrow> ('b TxHashSet, bool) exec" where
  "ApplyOutputSegment Blake2b R segment targetMMRSize pBitmap t =
     (let t = InvalidateOutputBitmapCache t
      in map_option (\<lambda>(r, m). (r, t\<lparr>th_output := m\<rparr>))
           (PMMR_ApplySegment Blake2b R OUTPUT_SIZE OutputIdentifier_Serialize segment targetMMRSize pBitmap (th_output t)))"

definition ApplyRangeProofSegment ::
  "(bytes \<Rightarrow> bytes) \<Rightarrow> 'b roaring \<Rightarrow> bytes Segment \<Rightarrow> u64 \<Rightarrow> BitmapAccumulator option \<Rightarrow> ('b TxHashSet, bool) exec" where
  "ApplyRangeProofSegment Blake2b R segment targetMMRSize pBitmap t =
     map_option (\<lambda>(r, m). (r, t\<lparr>th_proof := m\<rparr>))
       (PMMR_ApplySegment Blake2b R RANGE_PROOF_SIZE RangeProof_Serialize segment targetMMRSize pBitmap (th_proof t))"

definition UpdateLeafSets ::
  "'b roaring \<Rightarrow> BitmapAccumulator \<Rightarrow> u64 \<Rightarrow> 'b TxHashSet \<Rightarrow> 'b TxHashSet" where
  "UpdateLeafSets R outputBitmap numOutputs t =
     (let t = (InvalidateOutputBitmapCache t)\<lparr>th_output := UpdateLeafSet outputBitmap numOutputs (th_output t),
                                               th_proof := UpdateLeafSet outputBitmap numOutputs (th_proof t)\<rparr>
      in t\<lparr>th_bitmapCacheSize := PMMR_GetSize R (th_output t), th_bitmapCache := Some outputBitmap\<rparr>)"

end
