(* ===== verification/Ledger.thy ===== *)
theory Ledger
  imports TxHashSet PruneableCorrect
begin

text \<open>
  The transaction hash set and the block database together implement a ledger: the outputs ever created with the
  heights of their blocks, the set of those that are unspent, and the kernels. Applying a block extends the ledger
  exactly when its inputs are unspent and mature and its outputs are new, rewinding takes any number of blocks back,
  and a rollback restores what was committed.
\<close>

section \<open>The ledger and its representation\<close>

record ledger =
  lg_outputs :: "(TransactionOutput \<times> u64) list"
  lg_unspent :: "nat set"
  lg_kernels :: "TransactionKernel list"

abbreviation commit_at :: "ledger \<Rightarrow> nat \<Rightarrow> bytes" where
  "commit_at L i \<equiv> o_commitment (fst (lg_outputs L ! i))"

definition location_at :: "ledger \<Rightarrow> nat \<Rightarrow> OutputLocation" where
  "location_at L i = \<lparr>ol_leafIndex = LeafIndex_At (of_nat i), ol_blockHeight = snd (lg_outputs L ! i)\<rparr>"

abbreviation commitment_valid :: "OutputIdentifier \<Rightarrow> bool" where
  "commitment_valid oi \<equiv> length (oi_commitment oi) = 33"

abbreviation proof_valid :: "bytes \<Rightarrow> bool" where
  "proof_valid p \<equiv> length p = MAX_PROOF_SIZE"

definition identifiers :: "ledger \<Rightarrow> OutputIdentifier list \<times> nat set" where
  "identifiers L = (map (\<lambda>x. OutputIdentifier_FromOutput (fst x)) (lg_outputs L), lg_unspent L)"

definition proofs :: "ledger \<Rightarrow> bytes list \<times> nat set" where
  "proofs L = (map (\<lambda>x. o_rangeProof (fst x)) (lg_outputs L), lg_unspent L)"

text \<open>The three ranges hold the ledger \<open>L\<close>, and \<open>S\<close> is what they have saved.\<close>

definition ranges_rep ::
  "(bytes \<Rightarrow> bytes) \<Rightarrow> 'b roaring \<Rightarrow> u32 list \<Rightarrow> nat \<Rightarrow> nat \<Rightarrow> 'b TxHashSet \<Rightarrow> ledger \<Rightarrow> ledger \<Rightarrow> bool" where
  "ranges_rep B R es c b t L S \<longleftrightarrow>
     pmmr_rep B R OUTPUT_SIZE OutputIdentifier_Serialize commitment_valid es c b (th_output t) (identifiers L, identifiers S) \<and>
     pmmr_rep B R RANGE_PROOF_SIZE RangeProof_Serialize proof_valid es c b (th_proof t) (proofs L, proofs S) \<and>
     kernel_rep B (th_kernel t) (lg_kernels L, lg_kernels S)"

text \<open>The table of positions holds the unspent outputs, by commitment.\<close>

definition read_position :: "rows \<Rightarrow> bytes \<Rightarrow> OutputLocation option result" where
  "read_position m commitment =
     (case m (''OUTPUT_POS'', commitment) of
        None \<Rightarrow> Inr None
      | Some data \<Rightarrow> rbind (OutputLocation_Deserialize (ByteBuffer_New data V1)) (\<lambda>(x, b). Inr (Some x)))"

definition positions_ok :: "ledger \<Rightarrow> rows \<Rightarrow> bool" where
  "positions_ok L m \<longleftrightarrow>
     inj_on (commit_at L) (lg_unspent L) \<and> (\<forall>i \<in> lg_unspent L. i < length (lg_outputs L)) \<and>
     (\<forall>i \<in> lg_unspent L. read_position m (commit_at L i) = Inr (Some (location_at L i))) \<and>
     (\<forall>commitment. commitment \<notin> commit_at L ` lg_unspent L \<longrightarrow> read_position m commitment = Inr None)"

text \<open>
  While a block is applied, the outputs \<open>Z\<close> it has spent are gone from the leaf sets and still have their
  positions.
\<close>

definition mid_rep ::
  "(bytes \<Rightarrow> bytes) \<Rightarrow> 'b roaring \<Rightarrow> u32 list \<Rightarrow> nat \<Rightarrow> nat \<Rightarrow> nat set \<Rightarrow> 'b chain_data \<Rightarrow> ledger \<Rightarrow> ledger \<Rightarrow> bool" where
  "mid_rep B R es c b Z s L S \<longleftrightarrow>
     ranges_rep B R es c b (fst s) L S \<and> open_batch (bd_rocks (snd s)) \<and>
     positions_ok (L\<lparr>lg_unspent := lg_unspent L \<union> Z\<rparr>) (row (bd_rocks (snd s))) \<and> lg_unspent L \<inter> Z = {} \<and>
     positions_ok S (stored (bd_rocks (snd s)))"

abbreviation hash_set_rep ::
  "(bytes \<Rightarrow> bytes) \<Rightarrow> 'b roaring \<Rightarrow> u32 list \<Rightarrow> nat \<Rightarrow> nat \<Rightarrow> 'b chain_data \<Rightarrow> ledger \<Rightarrow> ledger \<Rightarrow> bool" where
  "hash_set_rep B R es c b s L S \<equiv> mid_rep B R es c b {} s L S"

lemma GetOutputPosition_row: "GetOutputPosition commitment db = read_position (row (bd_rocks db)) commitment"
  by (simp add: GetOutputPosition_def RocksDB_Get_def read_position_def)

lemma ranges_view:
  assumes "ranges_rep B R es c b t L S"
  shows "range_view B R OUTPUT_SIZE OutputIdentifier_Serialize commitment_valid es c (th_output t) (identifiers L)"
    and "range_view B R RANGE_PROOF_SIZE RangeProof_Serialize proof_valid es c (th_proof t) (proofs L)"
  using assms by (auto simp: ranges_rep_def pmmr_rep_def split: prod.splits)

lemma ranges_length:
  assumes "ranges_rep B R es c b t L S"
  shows "length (lg_outputs L) < 2 ^ 31" "c \<le> length (lg_outputs L)" "length (lg_kernels L) < 2 ^ 50"
    and "\<forall>i \<in> lg_unspent L. i < length (lg_outputs L) \<and> \<not> leaf_compacted es i"
  using ranges_view(1) [OF assms] assms
  by (auto simp: range_view_def identifiers_def files_rep_def unspent_ok_def ranges_rep_def kernel_rep_def mmr_rep_def)

lemma output_at_rep:
  assumes "ranges_rep B R es c b t L S" "i < length (lg_outputs L)"
  shows "output_at R (LeafIndex_At (of_nat i)) t =
    Inr (if i \<in> lg_unspent L then Some (OutputIdentifier_FromOutput (fst (lg_outputs L ! i))) else None)"
  using view_get [OF output_records ranges_view(1) [OF assms(1), unfolded identifiers_def], of i] assms(2) by simp

lemma proof_at_rep:
  assumes "ranges_rep B R es c b t L S" "i < length (lg_outputs L)"
  shows "proof_at R (LeafIndex_At (of_nat i)) t =
    Inr (if i \<in> lg_unspent L then Some (o_rangeProof (fst (lg_outputs L ! i))) else None)"
  using view_get [OF range_proof_records ranges_view(2) [OF assms(1), unfolded proofs_def], of i] assms(2) by simp

lemma leaf_in_range: "n < 2 ^ 31 \<Longrightarrow> in_range (unat (of_nat n :: u64)) 0"
  using leaf_pos_double [of n] is_node_leaf [of n] by (simp add: in_range_def unat_of_nat_u64)

lemma location_at_valid: "i < 2 ^ 31 \<Longrightarrow> location_valid (location_at L i)"
  using leaf_in_range [of i] by (simp add: location_valid_def location_at_def) (simp add: LeafIndex_At_def)

lemma location_at_simps [simp]:
  "ol_leafIndex (location_at L i) = LeafIndex_At (of_nat i)" "ol_blockHeight (location_at L i) = snd (lg_outputs L ! i)"
  by (simp_all add: location_at_def)

section \<open>Spending\<close>

lemma ebind_simps [simp]:
  "f s = Some (Inr x, s') \<Longrightarrow> ebind f g s = g x s'"
  "f s = Some (Inl e, s') \<Longrightarrow> ebind f g s = Some (Inl e, s')"
  "f s = None \<Longrightarrow> ebind f g s = None"
  by (simp_all add: ebind_def)

lemma exec_simps [simp]:
  "ereturn x s = Some (Inr x, s)" "eraise e s = Some (Inl e, s)" "easks f s = Some (f s, s)"
  "on_db h s = Some (Inr (), (fst s, h (snd s)))" "on_hash_set k s = Some (Inr (), (k (fst s), snd s))"
  by (simp_all add: ereturn_def eraise_def easks_def on_db_def on_hash_set_def emodify_def prod_eq_iff)

lemma ebind_easks [simp]:
  "ebind (easks f) g s = (case f s of Inl e \<Rightarrow> Some (Inl e, s) | Inr x \<Rightarrow> g x s)"
  by (simp add: ebind_def easks_def split: sum.split)

lemma ranges_spend:
  assumes rep: "ranges_rep B R es c b t L S" and i: "i \<in> lg_unspent L" and b: "b + 1 \<le> 2 ^ 60"
  shows "\<exists>m p. PMMR_Remove (LeafIndex_At (of_nat i)) (th_output t) = (Inr (), m) \<and>
    PMMR_Remove (LeafIndex_At (of_nat i)) (th_proof t) = (Inr (), p) \<and>
    ranges_rep B R es c (b + 1) (t\<lparr>th_output := m, th_proof := p\<rparr>) (L\<lparr>lg_unspent := lg_unspent L - {i}\<rparr>) S"
proof -
  have small: "i < 2 ^ 31" using ranges_length [OF rep] i by force
  have out: "pmmr_rep B R OUTPUT_SIZE OutputIdentifier_Serialize commitment_valid es c b (th_output t) (identifiers L, identifiers S)"
    and pr: "pmmr_rep B R RANGE_PROOF_SIZE RangeProof_Serialize proof_valid es c b (th_proof t) (proofs L, proofs S)"
    using rep by (simp_all add: ranges_rep_def)
  obtain m where m: "PMMR_Remove (LeafIndex_At (of_nat i)) (th_output t) = (Inr (), m)"
    "pmmr_rep B R OUTPUT_SIZE OutputIdentifier_Serialize commitment_valid es c (b + 1) m
       (identifiers (L\<lparr>lg_unspent := lg_unspent L - {i}\<rparr>), identifiers S)"
    using pmmr_remove [OF out [unfolded identifiers_def [of L]] small b] i by (auto simp: identifiers_def)
  obtain p where p: "PMMR_Remove (LeafIndex_At (of_nat i)) (th_proof t) = (Inr (), p)"
    "pmmr_rep B R RANGE_PROOF_SIZE RangeProof_Serialize proof_valid es c (b + 1) p
       (proofs (L\<lparr>lg_unspent := lg_unspent L - {i}\<rparr>), proofs S)"
    using pmmr_remove [OF pr [unfolded proofs_def [of L]] small b] i by (auto simp: proofs_def)
  show ?thesis using m p rep by (simp add: ranges_rep_def)
qed

text \<open>What an input can meet: an output that is unspent and mature, one that is not, or none.\<close>

definition mature :: "u64 \<Rightarrow> ledger \<Rightarrow> nat \<Rightarrow> bool" where
  "mature maximumBlockHeight L i \<longleftrightarrow>
     \<not> (Output_IsCoinbase (fst (lg_outputs L ! i)) \<and> maximumBlockHeight < snd (lg_outputs L ! i))"

definition spendable :: "u64 \<Rightarrow> ledger \<Rightarrow> bytes \<Rightarrow> bool" where
  "spendable maximumBlockHeight L commitment \<longleftrightarrow>
     (\<exists>i \<in> lg_unspent L. commit_at L i = commitment \<and> mature maximumBlockHeight L i)"

lemma coinbase_identifier: "OutputIdentifier_IsCoinbase (OutputIdentifier_FromOutput out) = Output_IsCoinbase out"
  by (simp add: OutputIdentifier_IsCoinbase_def OutputIdentifier_FromOutput_def Output_IsCoinbase_def)

lemma mid_position:
  assumes "mid_rep B R es c b Z s L S" "i \<in> lg_unspent L \<union> Z"
  shows "GetOutputPosition (commit_at L i) (snd s) = Inr (Some (location_at L i))"
    and "i < length (lg_outputs L)"
  using assms by (auto simp: mid_rep_def positions_ok_def GetOutputPosition_row location_at_def)

lemma mid_no_position:
  assumes "mid_rep B R es c b Z s L S" "commitment \<notin> commit_at L ` (lg_unspent L \<union> Z)"
  shows "GetOutputPosition commitment (snd s) = Inr None"
  using assms by (auto simp: mid_rep_def positions_ok_def GetOutputPosition_row)

lemma spend_input_ok:
  assumes rep: "mid_rep B R es c b Z s L S" and i: "i \<in> lg_unspent L" "commit_at L i = i_commitment input"
    and mature: "mature maximumBlockHeight L i" and b: "b + 1 \<le> 2 ^ 60"
  shows "\<exists>t. spend_input R maximumBlockHeight input s =
      Some (Inr (Some \<lparr>so_commitment = i_commitment input, so_location = location_at L i\<rparr>), (t, snd s)) \<and>
    mid_rep B R es c (b + 1) (insert i Z) (t, snd s) (L\<lparr>lg_unspent := lg_unspent L - {i}\<rparr>) S"
proof -
  have ranges: "ranges_rep B R es c b (fst s) L S" using rep by (simp add: mid_rep_def)
  obtain m p where mp: "PMMR_Remove (LeafIndex_At (of_nat i)) (th_output (fst s)) = (Inr (), m)"
    "PMMR_Remove (LeafIndex_At (of_nat i)) (th_proof (fst s)) = (Inr (), p)"
    "ranges_rep B R es c (b + 1) ((fst s)\<lparr>th_output := m, th_proof := p\<rparr>) (L\<lparr>lg_unspent := lg_unspent L - {i}\<rparr>) S"
    using ranges_spend [OF ranges i(1) b] by blast
  have pos: "GetOutputPosition (i_commitment input) (snd s) = Inr (Some (location_at L i))"
    using mid_position(1) [OF rep, of i] i by simp
  have "output_at R (LeafIndex_At (of_nat i)) (fst s) = Inr (Some (OutputIdentifier_FromOutput (fst (lg_outputs L ! i))))"
    using output_at_rep [OF ranges, of i] ranges_length(4) [OF ranges] i by simp
  then have "spend_input R maximumBlockHeight input s =
      Some (Inr (Some \<lparr>so_commitment = i_commitment input, so_location = location_at L i\<rparr>),
        ((fst s)\<lparr>th_output := m, th_proof := p\<rparr>, snd s))"
    using pos mp mature
    by (simp add: spend_input_def split_beta on_output_def on_proof_def coinbase_identifier mature_def)
  moreover have "lg_unspent L - {i} \<union> insert i Z = lg_unspent L \<union> Z" using i by blast
  then have "mid_rep B R es c (b + 1) (insert i Z) ((fst s)\<lparr>th_output := m, th_proof := p\<rparr>, snd s)
      (L\<lparr>lg_unspent := lg_unspent L - {i}\<rparr>) S"
    using rep mp(3) by (auto simp: mid_rep_def)
  ultimately show ?thesis by blast
qed

lemma spend_input_refused:
  assumes rep: "mid_rep B R es c b Z s L S" and new: "i_commitment input \<notin> commit_at L ` Z"
    and no: "\<not> spendable maximumBlockHeight L (i_commitment input)"
  shows "spend_input R maximumBlockHeight input s = Some (Inr None, s)"
proof (cases "i_commitment input \<in> commit_at L ` lg_unspent L")
  case True
  then obtain i where i: "i \<in> lg_unspent L" "i_commitment input = commit_at L i" by blast
  have ranges: "ranges_rep B R es c b (fst s) L S" using rep by (simp add: mid_rep_def)
  have "GetOutputPosition (i_commitment input) (snd s) = Inr (Some (location_at L i))"
    using mid_position(1) [OF rep, of i] i by simp
  moreover have "output_at R (LeafIndex_At (of_nat i)) (fst s) = Inr (Some (OutputIdentifier_FromOutput (fst (lg_outputs L ! i))))"
    using output_at_rep [OF ranges, of i] ranges_length(4) [OF ranges] i by simp
  moreover have "\<not> mature maximumBlockHeight L i" using no i by (auto simp: spendable_def)
  ultimately show ?thesis
    by (simp add: spend_input_def split_beta coinbase_identifier mature_def)
next
  case False
  then show ?thesis
    using mid_no_position [OF rep, of "i_commitment input"] new by (simp add: spend_input_def split_beta image_Un)
qed

text \<open>An output that the block has already spent: its position is found, the output is not.\<close>

lemma spend_input_twice:
  assumes rep: "mid_rep B R es c b Z s L S" and i: "i \<in> Z" "commit_at L i = i_commitment input"
  shows "spend_input R maximumBlockHeight input s = Some (Inl Undefined, s)"
proof -
  have ranges: "ranges_rep B R es c b (fst s) L S" using rep by (simp add: mid_rep_def)
  have "GetOutputPosition (i_commitment input) (snd s) = Inr (Some (location_at L i))"
    using mid_position(1) [OF rep, of i] i by simp
  moreover have "output_at R (LeafIndex_At (of_nat i)) (fst s) = Inr None"
    using output_at_rep [OF ranges, of i] mid_position(2) [OF rep, of i] rep i by (auto simp: mid_rep_def)
  ultimately show ?thesis by (simp add: spend_input_def split_beta)
qed

text \<open>The loop over the inputs: it gets to its end exactly when every input can be spent.\<close>

definition spent_by :: "bytes list \<Rightarrow> ledger \<Rightarrow> nat set" where
  "spent_by commitments L = {i \<in> lg_unspent L. commit_at L i \<in> set commitments}"

definition spent_record :: "ledger \<Rightarrow> SpentOutput \<Rightarrow> bool" where
  "spent_record L x \<longleftrightarrow> (\<exists>i \<in> lg_unspent L. x = \<lparr>so_commitment = commit_at L i, so_location = location_at L i\<rparr>)"

lemma spendable_other:
  assumes "mid_rep B R es c b Z s L S" "i \<in> lg_unspent L" "commitment \<noteq> commit_at L i"
  shows "spendable h (L\<lparr>lg_unspent := lg_unspent L - {i}\<rparr>) commitment = spendable h L commitment"
  using assms(2,3) by (auto simp: spendable_def mature_def)

lemma spent_by_Cons:
  assumes "mid_rep B R es c b Z s L S" "i \<in> lg_unspent L"
  shows "spent_by (commit_at L i # cs) L = insert i (spent_by cs (L\<lparr>lg_unspent := lg_unspent L - {i}\<rparr>))"
proof -
  have "inj_on (commit_at L) (lg_unspent L)"
    using assms(1) by (auto simp: mid_rep_def positions_ok_def inj_on_Un)
  then have "commit_at L j = commit_at L i \<longleftrightarrow> j = i" if "j \<in> lg_unspent L" for j
    using that assms(2) inj_onD by fastforce
  then show ?thesis using assms(2) by (auto simp: spent_by_def)
qed

lemma spend_inputs:
  assumes "mid_rep B R es c b Z s L S" "distinct (map i_commitment inputs)"
    and "i_commitment ` set inputs \<inter> commit_at L ` Z = {}" "b + length inputs \<le> 2 ^ 60"
  shows "\<exists>r t. ecollect (spend_input R h) inputs s = Some (Inr r, (t, snd s)) \<and>
    (if \<forall>input \<in> set inputs. spendable h L (i_commitment input)
     then (\<exists>spent. r = Some spent \<and> map so_commitment spent = map i_commitment inputs \<and> list_all (spent_record L) spent) \<and>
       mid_rep B R es c (b + length inputs) (Z \<union> spent_by (map i_commitment inputs) L) (t, snd s)
         (L\<lparr>lg_unspent := lg_unspent L - spent_by (map i_commitment inputs) L\<rparr>) S
     else r = None \<and> (\<exists>b' Z' L'. b' \<le> b + length inputs \<and> mid_rep B R es c b' Z' (t, snd s) L' S))"
  using assms
proof (induction inputs arbitrary: b Z s L)
  case Nil
  then show ?case by (intro exI [of _ "Some []"] exI [of _ "fst s"]) (simp add: spent_by_def)
next
  case (Cons input inputs)
  show ?case
  proof (cases "spendable h L (i_commitment input)")
    case True
    then obtain i where i: "i \<in> lg_unspent L" "commit_at L i = i_commitment input" "mature h L i"
      by (auto simp: spendable_def)
    let ?L = "L\<lparr>lg_unspent := lg_unspent L - {i}\<rparr>"
    obtain t where t: "spend_input R h input s =
        Some (Inr (Some \<lparr>so_commitment = i_commitment input, so_location = location_at L i\<rparr>), (t, snd s))"
      "mid_rep B R es c (b + 1) (insert i Z) (t, snd s) ?L S"
      using spend_input_ok [OF Cons.prems(1) i] Cons.prems(4) by auto
    have fresh: "i_commitment ` set inputs \<inter> commit_at ?L ` insert i Z = {}"
      using Cons.prems(2,3) i(2) by auto
    have pre: "distinct (map i_commitment inputs)" "b + 1 + length inputs \<le> 2 ^ 60" using Cons.prems(2,4) by simp_all
    obtain r t' where ind: "ecollect (spend_input R h) inputs (t, snd s) = Some (Inr r, (t', snd s))"
      "if \<forall>input \<in> set inputs. spendable h ?L (i_commitment input)
       then (\<exists>spent. r = Some spent \<and> map so_commitment spent = map i_commitment inputs \<and> list_all (spent_record ?L) spent) \<and>
         mid_rep B R es c (b + 1 + length inputs) (insert i Z \<union> spent_by (map i_commitment inputs) ?L) (t', snd s)
           (?L\<lparr>lg_unspent := lg_unspent ?L - spent_by (map i_commitment inputs) ?L\<rparr>) S
       else r = None \<and> (\<exists>b' Z' L'. b' \<le> b + 1 + length inputs \<and> mid_rep B R es c b' Z' (t', snd s) L' S)"
      using Cons.IH [OF t(2) pre(1) fresh pre(2)] unfolding snd_conv by blast
    have other: "spendable h ?L (i_commitment x) = spendable h L (i_commitment x)" if "x \<in> set inputs" for x
      using spendable_other [OF Cons.prems(1) i(1)] that Cons.prems(2) i(2) by (auto simp: image_iff)
    have sb: "spent_by (map i_commitment (input # inputs)) L = insert i (spent_by (map i_commitment inputs) ?L)"
      using spent_by_Cons [OF Cons.prems(1) i(1)] i(2) by simp
    have rec: "list_all (spent_record ?L) spent \<Longrightarrow> list_all (spent_record L) spent" for spent
      by (auto simp: list_all_iff spent_record_def location_at_def)
    have run: "ecollect (spend_input R h) (input # inputs) s =
        Some (Inr (map_option (Cons \<lparr>so_commitment = i_commitment input, so_location = location_at L i\<rparr>) r), (t', snd s))"
      using t(1) ind(1) by simp
    show ?thesis
    proof (cases "\<forall>x \<in> set inputs. spendable h L (i_commitment x)")
      case all: True
      then obtain spent where spent: "r = Some spent" "map so_commitment spent = map i_commitment inputs"
        "list_all (spent_record ?L) spent"
        using ind(2) other by auto
      have "spent_record L \<lparr>so_commitment = i_commitment input, so_location = location_at L i\<rparr>"
        using i by (simp add: spent_record_def) metis
      moreover have "mid_rep B R es c (b + length (input # inputs)) (Z \<union> spent_by (map i_commitment (input # inputs)) L)
          (t', snd s) (L\<lparr>lg_unspent := lg_unspent L - spent_by (map i_commitment (input # inputs)) L\<rparr>) S"
        using ind(2) other all unfolding sb by (simp add: Diff_insert2 [symmetric] insert_commute)
      ultimately show ?thesis using run spent all True rec by simp
    next
      case False
      then have no: "\<not> (\<forall>x \<in> set inputs. spendable h ?L (i_commitment x))" using other by blast
      have "r = None \<and> (\<exists>b' Z' L'. b' \<le> b + length (input # inputs) \<and> mid_rep B R es c b' Z' (t', snd s) L' S)"
        using ind(2) [unfolded if_not_P [OF no]] by simp
      moreover have "\<not> (\<forall>x \<in> set (input # inputs). spendable h L (i_commitment x))" using False by simp
      ultimately show ?thesis using run by (simp only: if_False option.map) blast
    qed
  next
    case False
    then have "spend_input R h input s = Some (Inr None, s)"
      using spend_input_refused [OF Cons.prems(1)] Cons.prems(3) by auto
    then have "ecollect (spend_input R h) (input # inputs) s = Some (Inr None, (fst s, snd s))" by simp
    moreover have "mid_rep B R es c b Z (fst s, snd s) L S" using Cons.prems(1) by simp
    ultimately show ?thesis using False by (metis le_add1 list.set_intros(1))
  qed
qed

section \<open>Creating outputs and kernels\<close>

definition add_output :: "TransactionOutput \<times> u64 \<Rightarrow> ledger \<Rightarrow> ledger" where
  "add_output x L =
     L\<lparr>lg_outputs := lg_outputs L @ [x], lg_unspent := insert (length (lg_outputs L)) (lg_unspent L)\<rparr>"

lemma unpruned_rep:
  assumes "ranges_rep B R es c b t L S" "i < length (lg_outputs L)"
  shows "IsUnpruned R (LeafIndex_At (of_nat i)) (th_output t) \<longleftrightarrow> i \<in> lg_unspent L"
proof -
  note view = ranges_view(1) [OF assms(1), unfolded identifiers_def]
  have n: "length (lg_outputs L) < 2 ^ 31" by (rule ranges_length(1) [OF assms(1)])
  have "mmr_pos i 0 < mmr_pos (length (lg_outputs L)) 0" "mmr_pos (length (lg_outputs L)) 0 < 2 ^ 32"
    using leaf_pos_mono [OF assms(2)] leaf_pos_double [of "length (lg_outputs L)"] n by simp_all
  moreover have "LeafIndex_GetPosition (LeafIndex_At (of_nat i)) = of_nat (mmr_pos i 0)"
    using assms(2) n by (simp add: LeafIndex_At_position unat_of_nat_u64)
  ultimately show ?thesis
    using view_size [OF view] contains_unspent [OF view, of i] assms(2) n
    by (simp add: IsUnpruned_def word_less_nat_alt unat_of_nat_u64)
qed

lemma next_location:
  assumes "ranges_rep B R es c b t L S"
  shows "LeafIndex_AtPos (PMMR_GetSize R (th_output t)) = LeafIndex_At (of_nat (length (lg_outputs L)))"
proof -
  note view = ranges_view(1) [OF assms(1), unfolded identifiers_def]
  have n: "length (lg_outputs L) < 2 ^ 31" by (rule ranges_length(1) [OF assms(1)])
  have "LeafIndex_GetPosition (LeafIndex_At (of_nat (length (lg_outputs L)))) = of_nat (mmr_pos (length (lg_outputs L)) 0)"
    using n by (simp add: LeafIndex_At_position unat_of_nat_u64)
  then show ?thesis using view_size [OF view] LeafIndex_AtPos_At [OF leaf_in_range [OF n]] by simp
qed

lemma ranges_append:
  assumes len: "\<forall>x. length (B x) = 32" and rep: "ranges_rep B R es c b t L S" and out: "output_valid out"
    and n: "length (lg_outputs L) + 1 < 2 ^ 31" and b: "b + 1 \<le> 2 ^ 60"
  shows "\<exists>m p. PMMR_Append B R OutputIdentifier_Serialize (OutputIdentifier_FromOutput out) (th_output t) = Some (Inr (), m) \<and>
    PMMR_Append B R RangeProof_Serialize (o_rangeProof out) (th_proof t) = Some (Inr (), p) \<and>
    ranges_rep B R es c (b + 1) (t\<lparr>th_output := m, th_proof := p\<rparr>) (add_output (out, height) L) S"
proof -
  have o: "pmmr_rep B R OUTPUT_SIZE OutputIdentifier_Serialize commitment_valid es c b (th_output t) (identifiers L, identifiers S)"
    and pr: "pmmr_rep B R RANGE_PROOF_SIZE RangeProof_Serialize proof_valid es c b (th_proof t) (proofs L, proofs S)"
    using rep by (simp_all add: ranges_rep_def)
  have v: "commitment_valid (OutputIdentifier_FromOutput out)" "proof_valid (o_rangeProof out)"
    using out by (simp_all add: output_valid_def OutputIdentifier_FromOutput_def)
  obtain m where m: "PMMR_Append B R OutputIdentifier_Serialize (OutputIdentifier_FromOutput out) (th_output t) = Some (Inr (), m)"
    "pmmr_rep B R OUTPUT_SIZE OutputIdentifier_Serialize commitment_valid es c (b + 1) m
       (identifiers (add_output (out, height) L), identifiers S)"
    using pmmr_append [OF output_records len o [unfolded identifiers_def [of L]] _ v(1) b] n
    by (auto simp: identifiers_def add_output_def)
  obtain p where p: "PMMR_Append B R RangeProof_Serialize (o_rangeProof out) (th_proof t) = Some (Inr (), p)"
    "pmmr_rep B R RANGE_PROOF_SIZE RangeProof_Serialize proof_valid es c (b + 1) p
       (proofs (add_output (out, height) L), proofs S)"
    using pmmr_append [OF range_proof_records len pr [unfolded proofs_def [of L]] _ v(2) b] n
    by (auto simp: proofs_def add_output_def)
  show ?thesis using m p rep by (simp add: ranges_rep_def add_output_def)
qed

lemma read_position_put:
  "location_valid l \<Longrightarrow>
   read_position (m((''OUTPUT_POS'', commitment) \<mapsto> OutputLocation_Serialize l)) x =
     (if x = commitment then Inr (Some l) else read_position m x)"
  using decodes_New [OF decodes_OutputLocation [of l V1]]
  by (auto simp: read_position_def length_location)

text \<open>Outputs beyond the old ones do not disturb their commitments and locations.\<close>

lemma ledger_appended:
  assumes "i < length (lg_outputs L)" "lg_outputs L' = lg_outputs L @ xs"
  shows "commit_at L' i = commit_at L i" "location_at L' i = location_at L i"
  using assms by (simp_all add: nth_append location_at_def)

lemma positions_add:
  fixes height :: u64
  assumes ok: "positions_ok (L\<lparr>lg_unspent := lg_unspent L \<union> Z\<rparr>) m" and n: "length (lg_outputs L) < 2 ^ 31"
    and new: "o_commitment out \<notin> commit_at L ` (lg_unspent L \<union> Z)"
  defines "L' \<equiv> add_output (out, height) L"
  shows "positions_ok (L'\<lparr>lg_unspent := lg_unspent L' \<union> Z\<rparr>)
    (m((''OUTPUT_POS'', o_commitment out) \<mapsto> OutputLocation_Serialize (location_at L' (length (lg_outputs L)))))"
proof -
  let ?n = "length (lg_outputs L)" and ?u = "lg_unspent L \<union> Z"
  have small: "\<forall>i \<in> ?u. i < ?n" using ok by (auto simp: positions_ok_def)
  have L': "lg_outputs L' = lg_outputs L @ [(out, height)]" "lg_unspent L' \<union> Z = insert ?n ?u"
    by (auto simp: L'_def add_output_def)
  have old: "commit_at L' i = commit_at L i" "location_at L' i = location_at L i" if "i \<in> ?u" for i
    using ledger_appended [OF _ L'(1), of i] small that by auto
  have at: "commit_at L' ?n = o_commitment out" by (simp add: L'(1))
  have img: "commit_at L' ` insert ?n ?u = insert (o_commitment out) (commit_at L ` ?u)"
    using at old by (auto simp: image_iff)
  have "inj_on (commit_at L') ?u = inj_on (commit_at L) ?u" using old by (intro inj_on_cong) simp
  then have inj: "inj_on (commit_at L') (insert ?n ?u)"
    using ok new at old by (auto simp: positions_ok_def image_iff)
  have "location_valid (location_at L' ?n)" by (rule location_at_valid [OF n])
  note put = read_position_put [OF this, of m "o_commitment out"]
  have reads: "read_position m (commit_at L i) = Inr (Some (location_at L i))" if "i \<in> ?u" for i
    using ok that by (auto simp: positions_ok_def location_at_def)
  have none: "read_position m x = Inr None" if "x \<notin> commit_at L ` ?u" for x
    using ok that by (auto simp: positions_ok_def)
  let ?m = "m((''OUTPUT_POS'', o_commitment out) \<mapsto> OutputLocation_Serialize (location_at L' ?n))"
  have "commit_at L i \<noteq> o_commitment out" if "i \<in> ?u" for i using new that by (metis imageI)
  then have "\<forall>i \<in> insert ?n ?u. read_position ?m (commit_at L' i) = Inr (Some (location_at L' i))"
    using put at old reads by simp
  moreover have "\<forall>x. x \<notin> commit_at L' ` insert ?n ?u \<longrightarrow> read_position ?m x = Inr None"
    unfolding img using put none by auto
  moreover have "\<forall>i \<in> insert ?n ?u. i < length (lg_outputs L')" using small by (auto simp: L'(1) less_Suc_eq)
  ultimately show ?thesis using inj by (simp add: positions_ok_def L'(2) location_at_def)
qed

lemma mid_db:
  assumes "mid_rep B R es c b Z s L S" "open_batch (bd_rocks db)" "stored (bd_rocks db) = stored (bd_rocks (snd s))"
    and "\<And>x. read_position (row (bd_rocks db)) x = read_position (row (bd_rocks (snd s))) x"
  shows "mid_rep B R es c b Z (fst s, db) L S"
  using assms by (simp add: mid_rep_def positions_ok_def)

lemma append_output_ok:
  assumes len: "\<forall>x. length (B x) = 32" and rep: "mid_rep B R es c b Z s L S" and out: "output_valid out"
    and new: "o_commitment out \<notin> commit_at L ` (lg_unspent L \<union> Z)"
    and n: "length (lg_outputs L) + 1 < 2 ^ 31" and b: "b + 1 \<le> 2 ^ 60"
  shows "\<exists>t. append_output B R height out s = Some (Inr True,
      (t, AddOutputPosition (o_commitment out) (location_at (add_output (out, height) L) (length (lg_outputs L))) (snd s))) \<and>
    mid_rep B R es c (b + 1) Z
      (t, AddOutputPosition (o_commitment out) (location_at (add_output (out, height) L) (length (lg_outputs L))) (snd s))
      (add_output (out, height) L) S"
proof -
  let ?L = "add_output (out, height) L" and ?n = "length (lg_outputs L)"
  let ?l = "location_at ?L ?n"
  have ranges: "ranges_rep B R es c b (fst s) L S" and batch: "open_batch (bd_rocks (snd s))"
    and pos: "positions_ok (L\<lparr>lg_unspent := lg_unspent L \<union> Z\<rparr>) (row (bd_rocks (snd s)))"
    using rep by (simp_all add: mid_rep_def)
  obtain m p where mp: "PMMR_Append B R OutputIdentifier_Serialize (OutputIdentifier_FromOutput out) (th_output (fst s)) = Some (Inr (), m)"
    "PMMR_Append B R RangeProof_Serialize (o_rangeProof out) (th_proof (fst s)) = Some (Inr (), p)"
    "ranges_rep B R es c (b + 1) ((fst s)\<lparr>th_output := m, th_proof := p\<rparr>) ?L S"
    using ranges_append [OF len ranges out n b] by blast
  have l: "\<lparr>ol_leafIndex = LeafIndex_AtPos (PMMR_GetSize R (th_output (fst s))), ol_blockHeight = height\<rparr> = ?l"
    using next_location [OF ranges] by (simp add: location_at_def add_output_def)
  have "append_output B R height out s =
      Some (Inr True, ((fst s)\<lparr>th_output := m, th_proof := p\<rparr>, AddOutputPosition (o_commitment out) ?l (snd s)))"
    using mid_no_position [OF rep new] mp(1,2)
    by (simp add: append_output_def split_beta on_output_def on_proof_def l)
  moreover have "?n \<notin> Z" using pos by (auto simp: positions_ok_def)
  then have "lg_unspent ?L \<inter> Z = {}" using rep by (auto simp: mid_rep_def add_output_def)
  then have "mid_rep B R es c (b + 1) Z
      ((fst s)\<lparr>th_output := m, th_proof := p\<rparr>, AddOutputPosition (o_commitment out) ?l (snd s)) ?L S"
    using mp(3) positions_add [OF pos _ new] n batch rep by (simp add: mid_rep_def AddOutputPosition_def)
  ultimately show ?thesis by blast
qed

lemma append_output_refused:
  assumes rep: "mid_rep B R es c b Z s L S" and old: "o_commitment out \<in> commit_at L ` lg_unspent L"
  shows "append_output B R height out s = Some (Inr False, s)"
proof -
  obtain i where i: "i \<in> lg_unspent L" "o_commitment out = commit_at L i" using old by blast
  have ranges: "ranges_rep B R es c b (fst s) L S" using rep by (simp add: mid_rep_def)
  have "IsUnpruned R (LeafIndex_At (of_nat i)) (th_output (fst s))"
    using unpruned_rep [OF ranges, of i] ranges_length(4) [OF ranges] i by blast
  then show ?thesis
    using mid_position(1) [OF rep, of i] i by (simp add: append_output_def split_beta)
qed

text \<open>What a database holds besides the positions of outputs.\<close>

definition other_rows :: "BlockDB \<Rightarrow> rows \<times> (bytes, BlockHeader) fixed_sized_cache" where
  "other_rows db = ((\<lambda>(t, k). if t = ''OUTPUT_POS'' then None else row (bd_rocks db) (t, k)), bd_headersCache db)"

lemma other_rows_positions [simp]:
  "other_rows (AddOutputPosition commitment l db) = other_rows db"
  "other_rows (RemoveOutputPositions cs db) = other_rows db"
  by (auto simp: other_rows_def AddOutputPosition_def RemoveOutputPositions_def fun_eq_iff)

lemma fold_add_output:
  "fold add_output xs L = L\<lparr>lg_outputs := lg_outputs L @ xs,
     lg_unspent := lg_unspent L \<union> {length (lg_outputs L)..<length (lg_outputs L) + length xs}\<rparr>"
proof (induction xs arbitrary: L)
  case (Cons x xs)
  have "lg_unspent (add_output x L) \<union> {Suc (length (lg_outputs L))..<Suc (length (lg_outputs L)) + length xs} =
      lg_unspent L \<union> {length (lg_outputs L)..<Suc (length (lg_outputs L)) + length xs}"
    by (auto simp: add_output_def)
  then show ?case using Cons.IH [of "add_output x L"] by (simp add: add_output_def)
qed simp

lemma append_outputs:
  assumes len: "\<forall>x. length (B x) = 32"
  shows "mid_rep B R es c b Z s L S \<Longrightarrow> list_all output_valid outs \<Longrightarrow>
    o_commitment ` set outs \<inter> commit_at L ` Z = {} \<Longrightarrow>
    length (lg_outputs L) + length outs < 2 ^ 31 \<Longrightarrow> b + length outs \<le> 2 ^ 60 \<Longrightarrow>
    \<exists>s'. efor (append_output B R height) outs s =
        Some (Inr (distinct (map o_commitment outs) \<and> o_commitment ` set outs \<inter> commit_at L ` lg_unspent L = {}), s') \<and>
      other_rows (snd s') = other_rows (snd s) \<and>
      (if distinct (map o_commitment outs) \<and> o_commitment ` set outs \<inter> commit_at L ` lg_unspent L = {}
       then mid_rep B R es c (b + length outs) Z s' (fold add_output (map (\<lambda>out. (out, height)) outs) L) S
       else \<exists>b' L'. b' \<le> b + length outs \<and> mid_rep B R es c b' Z s' L' S)"
proof (induction outs arbitrary: b s L)
  case (Cons out outs)
  show ?case
  proof (cases "o_commitment out \<in> commit_at L ` lg_unspent L")
    case True
    then have "efor (append_output B R height) (out # outs) s = Some (Inr False, s)"
      using append_output_refused [OF Cons.prems(1), of out height] by (simp add: ebind_def)
    moreover have "b \<le> b + length (out # outs)" by simp
    moreover have "\<not> (distinct (map o_commitment (out # outs)) \<and>
        o_commitment ` set (out # outs) \<inter> commit_at L ` lg_unspent L = {})" using True by auto
    ultimately show ?thesis using Cons.prems(1) by (intro exI [of _ s]) (simp only: if_False, blast)
  next
    case False
    let ?L = "add_output (out, height) L" and ?n = "length (lg_outputs L)"
    have ov: "output_valid out" "list_all output_valid outs" using Cons.prems(2) by simp_all
    have new: "o_commitment out \<notin> commit_at L ` (lg_unspent L \<union> Z)" using False Cons.prems(3) by auto
    obtain s1 where s1: "append_output B R height out s = Some (Inr True, s1)" "mid_rep B R es c (b + 1) Z s1 ?L S"
      "other_rows (snd s1) = other_rows (snd s)"
      using append_output_ok [OF len Cons.prems(1) ov(1) new, of height] Cons.prems(4,5) by fastforce
    have small: "i < ?n" if "i \<in> lg_unspent L \<union> Z" for i using mid_position(2) [OF Cons.prems(1) that] .
    have old: "commit_at ?L i = commit_at L i" if "i \<in> lg_unspent L \<union> Z" for i
      using small [OF that] by (simp add: add_output_def nth_append)
    have Z: "commit_at ?L ` Z = commit_at L ` Z" using old by (intro image_cong) auto
    have u: "commit_at ?L ` lg_unspent ?L = insert (o_commitment out) (commit_at L ` lg_unspent L)"
    proof -
      have "commit_at ?L ` lg_unspent L = commit_at L ` lg_unspent L" using old by (intro image_cong) auto
      then show ?thesis by (simp add: add_output_def)
    qed
    have pre: "o_commitment ` set outs \<inter> commit_at ?L ` Z = {}" "length (lg_outputs ?L) + length outs < 2 ^ 31"
      "b + 1 + length outs \<le> 2 ^ 60"
      using Cons.prems(3-5) Z by (auto simp: add_output_def)
    have cond: "(distinct (map o_commitment outs) \<and> o_commitment ` set outs \<inter> commit_at ?L ` lg_unspent ?L = {}) =
        (distinct (map o_commitment (out # outs)) \<and> o_commitment ` set (out # outs) \<inter> commit_at L ` lg_unspent L = {})"
      unfolding u using False by auto
    have run: "efor (append_output B R height) (out # outs) s = efor (append_output B R height) outs s1"
      using s1(1) by (simp add: ebind_def)
    have b: "b + length (out # outs) = b + 1 + length outs" by simp
    show ?thesis
      using Cons.IH [OF s1(2) ov(2) pre] unfolding run cond b s1(3) list.map fold_simps by simp
  qed
qed (simp add: ereturn_def)

definition add_kernels :: "TransactionKernel list \<Rightarrow> ledger \<Rightarrow> ledger" where
  "add_kernels ks L = L\<lparr>lg_kernels := lg_kernels L @ ks\<rparr>"

lemma append_kernels:
  assumes len: "\<forall>x. length (B x) = 32"
  shows "mid_rep B R es c b Z s L S \<Longrightarrow> list_all (kernel_valid V2) ks \<Longrightarrow>
    length (lg_kernels L) + length ks < 2 ^ 50 \<Longrightarrow>
    \<exists>t. efor (append_kernel B R) ks s = Some (Inr True, (t, snd s)) \<and> mid_rep B R es c b Z (t, snd s) (add_kernels ks L) S"
proof (induction ks arbitrary: s L)
  case Nil
  then show ?case by (intro exI [of _ "fst s"]) (simp add: add_kernels_def)
next
  case (Cons k ks)
  have "kernel_rep B (th_kernel (fst s)) (lg_kernels L, lg_kernels S)"
    using Cons.prems(1) by (simp add: mid_rep_def ranges_rep_def)
  then obtain m where m: "ApplyKernel B R k (th_kernel (fst s)) = Some (Inr (), m)"
    "kernel_rep B m (lg_kernels L @ [k], lg_kernels S)"
    using kernel_add [OF len, of "th_kernel (fst s)"] Cons.prems(2,3) by fastforce
  let ?t = "(fst s)\<lparr>th_kernel := m\<rparr>"
  have "mid_rep B R es c b Z (?t, snd s) (add_kernels [k] L) S"
    using Cons.prems(1) m(2)
    by (simp add: mid_rep_def ranges_rep_def add_kernels_def identifiers_def proofs_def positions_ok_def location_at_def)
  then obtain t where t: "efor (append_kernel B R) ks (?t, snd s) = Some (Inr True, (t, snd s))"
    "mid_rep B R es c b Z (t, snd s) (add_kernels ks (add_kernels [k] L)) S"
    using Cons.IH [of "(?t, snd s)" "add_kernels [k] L"] Cons.prems(2,3) by (auto simp: add_kernels_def)
  have "efor (append_kernel B R) (k # ks) s = efor (append_kernel B R) ks (?t, snd s)"
    using m(1) by (simp add: append_kernel_def ebind_def on_kernel_def)
  then show ?case using t by (auto simp: add_kernels_def)
qed

end
