(* ===== verification/TxHashSetCorrect.thy ===== *)
theory TxHashSetCorrect
  imports Ledger
begin

text \<open>
  Whole blocks on the transaction hash set: a block is applied exactly when the ledger allows it, rewinding takes
  blocks back, and a rollback restores what was committed.
\<close>

section \<open>Applying a block\<close>

definition apply_ledger :: "u64 \<Rightarrow> TransactionBody \<Rightarrow> ledger \<Rightarrow> ledger" where
  "apply_ledger height body L =
     \<lparr>lg_outputs = lg_outputs L @ map (\<lambda>out. (out, height)) (b_outputs body),
      lg_unspent = (lg_unspent L - spent_by (map i_commitment (b_inputs body)) L) \<union>
        {length (lg_outputs L)..<length (lg_outputs L) + length (b_outputs body)},
      lg_kernels = lg_kernels L @ b_kernels body\<rparr>"

definition applies :: "Environment \<Rightarrow> u64 \<Rightarrow> TransactionBody \<Rightarrow> ledger \<Rightarrow> bool" where
  "applies env height body L \<longleftrightarrow>
     (\<forall>input \<in> set (b_inputs body). spendable (GetMaxCoinbaseHeight env height) L (i_commitment input)) \<and>
     distinct (map o_commitment (b_outputs body)) \<and>
     o_commitment ` set (b_outputs body) \<inter> commit_at L ` lg_unspent L = {}"

text \<open>
  What is assumed of the body of a block: no commitment is spent twice, none is spent and created, the parts are well
  formed. The validators check this except for the first: two inputs with the same commitment and different features pass
  them, and what \<open>ApplyBlock\<close> does then is shown at the end.
\<close>

definition body_ok :: "TransactionBody \<Rightarrow> bool" where
  "body_ok body \<longleftrightarrow>
     distinct (map i_commitment (b_inputs body)) \<and>
     i_commitment ` set (b_inputs body) \<inter> o_commitment ` set (b_outputs body) = {} \<and>
     list_all (\<lambda>i. length (i_commitment i) = 33) (b_inputs body) \<and>
     list_all output_valid (b_outputs body) \<and> list_all (kernel_valid V2) (b_kernels body)"

definition fits :: "nat \<Rightarrow> TransactionBody \<Rightarrow> ledger \<Rightarrow> bool" where
  "fits b body L \<longleftrightarrow>
     length (b_inputs body) < 2 ^ 16 \<and> length (lg_outputs L) + length (b_outputs body) < 2 ^ 31 \<and>
     length (lg_kernels L) + length (b_kernels body) < 2 ^ 50 \<and>
     b + length (b_inputs body) + length (b_outputs body) < 2 ^ 60"

lemma spent_commitments:
  assumes "\<forall>x \<in> set cs. spendable h L x"
  shows "commit_at L ` spent_by cs L = set cs"
  using assms by (fastforce simp: spent_by_def spendable_def image_iff)

lemma positions_okI:
  assumes "inj_on (commit_at L) (lg_unspent L)" "\<And>i. i \<in> lg_unspent L \<Longrightarrow> i < length (lg_outputs L)"
    and "\<And>i. i \<in> lg_unspent L \<Longrightarrow> read_position m (commit_at L i) = Inr (Some (location_at L i))"
    and "\<And>x. x \<notin> commit_at L ` lg_unspent L \<Longrightarrow> read_position m x = Inr None"
  shows "positions_ok L m"
  using assms by (simp add: positions_ok_def)

lemma positions_okD:
  assumes "positions_ok L m"
  shows "inj_on (commit_at L) (lg_unspent L)" "\<And>i. i \<in> lg_unspent L \<Longrightarrow> i < length (lg_outputs L)"
    and "\<And>i. i \<in> lg_unspent L \<Longrightarrow> read_position m (commit_at L i) = Inr (Some (location_at L i))"
    and "\<And>x. x \<notin> commit_at L ` lg_unspent L \<Longrightarrow> read_position m x = Inr None"
  using assms by (simp_all add: positions_ok_def)

lemma positions_remove:
  assumes ok: "positions_ok (L\<lparr>lg_unspent := lg_unspent L \<union> Z\<rparr>) m" and Z: "lg_unspent L \<inter> Z = {}" "commit_at L ` Z = set cs"
    and m': "\<And>x. read_position m' x = (if x \<in> set cs then Inr None else read_position m x)"
  shows "positions_ok L m'"
proof -
  note pos = positions_okD [OF ok, simplified]
  have out: "commit_at L i \<notin> set cs" if "i \<in> lg_unspent L" for i
  proof
    assume "commit_at L i \<in> set cs"
    then have "commit_at L i \<in> commit_at L ` Z" by (simp only: Z(2))
    then obtain z where z: "commit_at L i = commit_at L z" "z \<in> Z" by (rule imageE)
    then have "i = z" using that by (intro inj_onD [OF pos(1)]) simp_all
    then show False using that z(2) Z(1) by blast
  qed
  show ?thesis
  proof (rule positions_okI)
    show "inj_on (commit_at L) (lg_unspent L)" by (rule inj_on_subset [OF pos(1)]) simp
    show "read_position m' (commit_at L i) = Inr (Some (location_at L i))" if "i \<in> lg_unspent L" for i
      using pos(3) [of i] that out [OF that] m' by (simp add: location_at_def)
    show "read_position m' x = Inr None" if "x \<notin> commit_at L ` lg_unspent L" for x
    proof (cases "x \<in> set cs")
      case False
      then have "x \<notin> commit_at L ` (lg_unspent L \<union> Z)" using that by (simp only: image_Un Z(2) Un_iff simp_thms)
      then show ?thesis using pos(4) [of x] m' False by simp
    qed (simp add: m')
  qed (simp add: pos(2))
qed

lemma read_position_other [simp]:
  "read_position (m((''SPENT_OUTPUTS'', k) \<mapsto> v)) x = read_position m x"
  "read_position (m((''BLOCK'', k) \<mapsto> v)) x = read_position m x"
  "read_position (m((''BLOCK_SUMS'', k) \<mapsto> v)) x = read_position m x"
  by (simp_all add: read_position_def)

lemma read_position_removed:
  "read_position (row (bd_rocks (RemoveOutputPositions cs db))) x =
     (if x \<in> set cs then Inr None else read_position (row (bd_rocks db)) x)"
  by (simp add: read_position_def RemoveOutputPositions_def)

lemma mid_invalidate: "mid_rep B R es c b Z (InvalidateOutputBitmapCache t, db) L S = mid_rep B R es c b Z (t, db) L S"
  by (simp add: mid_rep_def ranges_rep_def InvalidateOutputBitmapCache_def)

lemma mid_header: "mid_rep B R es c b Z (t\<lparr>th_header := h\<rparr>, db) L S = mid_rep B R es c b Z (t, db) L S"
  by (simp add: mid_rep_def ranges_rep_def)

text \<open>The inputs come first: when one of them cannot be spent, nothing else happens.\<close>

lemma ApplyBlock_inputs:
  fixes env :: Environment
  assumes rep: "hash_set_rep B R es c b s L S" and ok: "body_ok (fb_body block)" and fits: "fits b (fb_body block) L"
  defines "body \<equiv> fb_body block" and "h \<equiv> GetMaxCoinbaseHeight env (h_height (fb_header block))"
  shows "\<exists>r t. ecollect (spend_input R h) (b_inputs body) (InvalidateOutputBitmapCache (fst s), snd s) = Some (Inr r, (t, snd s)) \<and>
    (if \<forall>input \<in> set (b_inputs body). spendable h L (i_commitment input)
     then (\<exists>spent. r = Some spent \<and> map so_commitment spent = map i_commitment (b_inputs body) \<and> list_all (spent_record L) spent) \<and>
       mid_rep B R es c (b + length (b_inputs body)) (spent_by (map i_commitment (b_inputs body)) L) (t, snd s)
         (L\<lparr>lg_unspent := lg_unspent L - spent_by (map i_commitment (b_inputs body)) L\<rparr>) S
     else r = None \<and> (\<exists>b' Z' L'. b' \<le> b + length (b_inputs body) \<and> mid_rep B R es c b' Z' (t, snd s) L' S))"
proof -
  have rep0: "mid_rep B R es c b {} (InvalidateOutputBitmapCache (fst s), snd s) L S" using rep by (simp add: mid_invalidate)
  have ins: "distinct (map i_commitment (b_inputs body))" "i_commitment ` set (b_inputs body) \<inter> commit_at L ` {} = {}"
    "b + length (b_inputs body) \<le> 2 ^ 60"
    using ok fits by (simp_all add: body_ok_def fits_def body_def)
  show ?thesis using spend_inputs [OF rep0 ins, of h] unfolding snd_conv Un_empty_left .
qed

lemma ApplyBlock_steps:
  assumes "ecollect (spend_input R (GetMaxCoinbaseHeight env (h_height (fb_header block)))) (b_inputs (fb_body block))
      (InvalidateOutputBitmapCache (fst s), snd s) = Some (Inr r, s1)"
  shows "r = None \<Longrightarrow> ApplyBlock B R env block s = Some (Inr False, s1)"
    and "r = Some spent \<Longrightarrow>
      efor (append_output B R (h_height (fb_header block))) (b_outputs (fb_body block))
        (fst s1, AddSpentPositions (Header_GetHash (fb_header block)) spent (snd s1)) = Some (Inr added, s2) \<Longrightarrow>
      ApplyBlock B R env block s =
        (if added
         then ebind (efor (append_kernel B R) (b_kernels (fb_body block)))
           (\<lambda>_. ebind (on_hash_set (\<lambda>t. t\<lparr>th_header := Some (fb_header block)\<rparr>)) (\<lambda>_. ereturn True))
           (fst s2, RemoveOutputPositions (map i_commitment (b_inputs (fb_body block))) (snd s2))
         else Some (Inr False, s2))"
  using assms by (simp_all add: ApplyBlock_def Let_def)

text \<open>Then the outputs are added, in a state where the positions of the spent ones are still there.\<close>

lemma applies_outputs:
  assumes all: "\<forall>input \<in> set (b_inputs body). spendable (GetMaxCoinbaseHeight env height) L (i_commitment input)"
    and ok: "body_ok body"
  defines "cs \<equiv> map i_commitment (b_inputs body)"
  shows "o_commitment ` set (b_outputs body) \<inter> commit_at L ` spent_by cs L = {}"
    and "(distinct (map o_commitment (b_outputs body)) \<and>
       o_commitment ` set (b_outputs body) \<inter> commit_at L ` (lg_unspent L - spent_by cs L) = {}) = applies env height body L"
proof -
  have cs: "commit_at L ` spent_by cs L = i_commitment ` set (b_inputs body)"
    using spent_commitments [of cs "GetMaxCoinbaseHeight env height" L] all by (simp add: cs_def)
  have out: "i_commitment ` set (b_inputs body) \<inter> o_commitment ` set (b_outputs body) = {}"
    using ok by (simp add: body_ok_def)
  then show "o_commitment ` set (b_outputs body) \<inter> commit_at L ` spent_by cs L = {}" unfolding cs by blast
  have "spent_by cs L \<subseteq> lg_unspent L" by (auto simp: spent_by_def)
  then have "commit_at L ` lg_unspent L = commit_at L ` (lg_unspent L - spent_by cs L) \<union> i_commitment ` set (b_inputs body)"
    unfolding cs [symmetric] image_Un [symmetric] by (simp add: Un_absorb2)
  then have "(o_commitment ` set (b_outputs body) \<inter> commit_at L ` (lg_unspent L - spent_by cs L) = {}) =
      (o_commitment ` set (b_outputs body) \<inter> commit_at L ` lg_unspent L = {})"
    using out by (simp only: Int_Un_distrib Int_commute Un_empty) simp
  then show "(distinct (map o_commitment (b_outputs body)) \<and>
       o_commitment ` set (b_outputs body) \<inter> commit_at L ` (lg_unspent L - spent_by cs L) = {}) = applies env height body L"
    unfolding applies_def using all by simp
qed

lemma ApplyBlock_outputs:
  assumes len: "\<forall>x. length (B x) = 32" and ok: "body_ok body" and fits: "fits b body L"
    and all: "\<forall>input \<in> set (b_inputs body). spendable (GetMaxCoinbaseHeight env height) L (i_commitment input)"
    and mid: "mid_rep B R es c (b + length (b_inputs body)) (spent_by (map i_commitment (b_inputs body)) L) (t, db)
         (L\<lparr>lg_unspent := lg_unspent L - spent_by (map i_commitment (b_inputs body)) L\<rparr>) S"
  shows "\<exists>s1. efor (append_output B R height) (b_outputs body) (t, db) = Some (Inr (applies env height body L), s1) \<and>
    other_rows (snd s1) = other_rows db \<and>
    (if applies env height body L
     then mid_rep B R es c (b + length (b_inputs body) + length (b_outputs body)) (spent_by (map i_commitment (b_inputs body)) L) s1
       (fold add_output (map (\<lambda>out. (out, height)) (b_outputs body))
         (L\<lparr>lg_unspent := lg_unspent L - spent_by (map i_commitment (b_inputs body)) L\<rparr>)) S
     else \<exists>b' Z' L'. b' \<le> b + length (b_inputs body) + length (b_outputs body) \<and> mid_rep B R es c b' Z' s1 L' S)"
proof -
  let ?Z = "spent_by (map i_commitment (b_inputs body)) L"
  let ?L = "L\<lparr>lg_unspent := lg_unspent L - ?Z\<rparr>"
  have L: "lg_outputs ?L = lg_outputs L" "lg_unspent ?L = lg_unspent L - ?Z" by simp_all
  have outs: "list_all output_valid (b_outputs body)" "o_commitment ` set (b_outputs body) \<inter> commit_at ?L ` ?Z = {}"
    "length (lg_outputs ?L) + length (b_outputs body) < 2 ^ 31"
    "b + length (b_inputs body) + length (b_outputs body) \<le> 2 ^ 60"
    using ok fits applies_outputs(1) [OF all ok] unfolding L by (simp_all add: body_ok_def fits_def)
  show ?thesis
    using append_outputs [OF len mid outs, of height]
    unfolding L applies_outputs(2) [OF all ok] snd_conv by (cases "applies env height body L") (simp, (simp, blast))
qed

text \<open>Last the positions of the spent outputs go and the kernels are added.\<close>

lemma mid_remove_positions:
  assumes mid: "mid_rep B R es c b (spent_by cs L0) s L S" and cs: "commit_at L ` spent_by cs L0 = set cs"
  shows "hash_set_rep B R es c b (fst s, RemoveOutputPositions cs (snd s)) L S"
proof -
  have "positions_ok L (row (bd_rocks (RemoveOutputPositions cs (snd s))))"
    using mid by (intro positions_remove [OF _ _ cs read_position_removed]) (simp_all add: mid_rep_def)
  then show ?thesis using mid by (simp add: mid_rep_def RemoveOutputPositions_def)
qed

text \<open>What a block leaves behind in the database for the way back.\<close>

definition undo_record :: "bytes \<Rightarrow> TransactionBody \<Rightarrow> ledger \<Rightarrow> BlockDB \<Rightarrow> BlockDB \<Rightarrow> bool" where
  "undo_record hash body L db db' \<longleftrightarrow>
     (\<exists>spent. map so_commitment spent = map i_commitment (b_inputs body) \<and> list_all (spent_record L) spent \<and>
        other_rows db' = other_rows (AddSpentPositions hash spent db))"

definition block_outcome ::
  "(bytes \<Rightarrow> bytes) \<Rightarrow> 'b roaring \<Rightarrow> u32 list \<Rightarrow> nat \<Rightarrow> nat \<Rightarrow> Environment \<Rightarrow> FullBlock \<Rightarrow> ledger \<Rightarrow> ledger \<Rightarrow>
     'b chain_data \<Rightarrow> 'b chain_data \<Rightarrow> bool" where
  "block_outcome B R es c b env block L S s s' \<longleftrightarrow>
     (if applies env (h_height (fb_header block)) (fb_body block) L
      then hash_set_rep B R es c b s' (apply_ledger (h_height (fb_header block)) (fb_body block) L) S \<and>
        th_header (fst s') = Some (fb_header block) \<and>
        undo_record (Header_GetHash (fb_header block)) (fb_body block) L (snd s) (snd s')
      else \<exists>b' Z L'. b' \<le> b \<and> mid_rep B R es c b' Z s' L' S)"

lemma ApplyBlock_finish:
  assumes len: "\<forall>x. length (B x) = 32" and rep: "hash_set_rep B R es c b s L S"
    and ok: "body_ok body" and fits: "fits b body L"
    and all: "\<forall>input \<in> set (b_inputs body). spendable h L (i_commitment input)"
    and mid: "mid_rep B R es c b1 (spent_by (map i_commitment (b_inputs body)) L) s1
       (fold add_output (map (\<lambda>out. (out, height)) (b_outputs body))
         (L\<lparr>lg_unspent := lg_unspent L - spent_by (map i_commitment (b_inputs body)) L\<rparr>)) S"
  shows "\<exists>t. efor (append_kernel B R) (b_kernels body)
        (fst s1, RemoveOutputPositions (map i_commitment (b_inputs body)) (snd s1)) =
      Some (Inr True, (t, RemoveOutputPositions (map i_commitment (b_inputs body)) (snd s1))) \<and>
    hash_set_rep B R es c b1 (t, RemoveOutputPositions (map i_commitment (b_inputs body)) (snd s1)) (apply_ledger height body L) S"
proof -
  let ?cs = "map i_commitment (b_inputs body)" and ?xs = "map (\<lambda>out. (out, height)) (b_outputs body)"
  let ?L1 = "fold add_output ?xs (L\<lparr>lg_unspent := lg_unspent L - spent_by ?cs L\<rparr>)"
  have "positions_ok L (row (bd_rocks (snd s)))" using rep by (simp add: mid_rep_def)
  then have "commit_at ?L1 i = commit_at L i" if "i \<in> spent_by ?cs L" for i
    using positions_okD(2) [of L _ i] that by (simp add: fold_add_output nth_append spent_by_def)
  then have "commit_at ?L1 ` spent_by ?cs L = commit_at L ` spent_by ?cs L" by (intro image_cong) simp_all
  also have "\<dots> = set ?cs" using all by (intro spent_commitments [of _ h]) simp
  finally have rep1: "hash_set_rep B R es c b1 (fst s1, RemoveOutputPositions ?cs (snd s1)) ?L1 S"
    by (rule mid_remove_positions [OF mid])
  have ks: "list_all (kernel_valid V2) (b_kernels body)" "length (lg_kernels ?L1) + length (b_kernels body) < 2 ^ 50"
    using ok fits by (simp_all add: body_ok_def fits_def fold_add_output)
  have "add_kernels (b_kernels body) ?L1 = apply_ledger height body L"
    by (simp add: add_kernels_def fold_add_output apply_ledger_def)
  then show ?thesis using append_kernels [OF len rep1 ks] by simp
qed

lemma ApplyBlock_run:
  assumes len: "\<forall>x. length (B x) = 32" and rep: "hash_set_rep B R es c b s L S"
    and ok: "body_ok (fb_body block)" and fits: "fits b (fb_body block) L"
  shows "\<exists>s'. ApplyBlock B R env block s =
      Some (Inr (applies env (h_height (fb_header block)) (fb_body block) L), s') \<and>
    block_outcome B R es c (b + length (b_inputs (fb_body block)) + length (b_outputs (fb_body block))) env block L S s s'"
proof -
  let ?body = "fb_body block" and ?height = "h_height (fb_header block)"
  let ?cs = "map i_commitment (b_inputs ?body)" and ?h = "GetMaxCoinbaseHeight env ?height"
  let ?all = "\<forall>input \<in> set (b_inputs ?body). spendable ?h L (i_commitment input)"
  note def = block_outcome_def [of B R es c _ env block L S s]
  obtain r t where col: "ecollect (spend_input R ?h) (b_inputs ?body) (InvalidateOutputBitmapCache (fst s), snd s) = Some (Inr r, (t, snd s))"
    and res: "if ?all
      then (\<exists>spent. r = Some spent \<and> map so_commitment spent = ?cs \<and> list_all (spent_record L) spent) \<and>
        mid_rep B R es c (b + length (b_inputs ?body)) (spent_by ?cs L) (t, snd s) (L\<lparr>lg_unspent := lg_unspent L - spent_by ?cs L\<rparr>) S
      else r = None \<and> (\<exists>b' Z' L'. b' \<le> b + length (b_inputs ?body) \<and> mid_rep B R es c b' Z' (t, snd s) L' S)"
    using ApplyBlock_inputs [OF rep ok fits, of env] by blast
  show ?thesis
  proof (cases ?all)
    case False
    then have no: "\<not> applies env ?height ?body L" unfolding applies_def by blast
    obtain b' Z' L' where "r = None" "b' \<le> b + length (b_inputs ?body)" "mid_rep B R es c b' Z' (t, snd s) L' S"
      using res unfolding if_not_P [OF False] by blast
    then show ?thesis using ApplyBlock_steps(1) [OF col] trans_le_add1 unfolding def if_not_P [OF no]
      by (intro exI [of _ "(t, snd s)"]) (simp only: no simp_thms, blast)
  next
    case True
    obtain spent where spent: "r = Some spent" "map so_commitment spent = ?cs" "list_all (spent_record L) spent"
      and mid: "mid_rep B R es c (b + length (b_inputs ?body)) (spent_by ?cs L) (t, snd s) (L\<lparr>lg_unspent := lg_unspent L - spent_by ?cs L\<rparr>) S"
      using res unfolding if_P [OF True] by blast
    let ?db = "AddSpentPositions (Header_GetHash (fb_header block)) spent (snd s)"
    have mid1: "mid_rep B R es c (b + length (b_inputs ?body)) (spent_by ?cs L) (t, ?db) (L\<lparr>lg_unspent := lg_unspent L - spent_by ?cs L\<rparr>) S"
      using mid_db [OF mid, of ?db] mid by (simp add: AddSpentPositions_def mid_rep_def)
    obtain s1 where s1: "efor (append_output B R ?height) (b_outputs ?body) (t, ?db) = Some (Inr (applies env ?height ?body L), s1)"
      "other_rows (snd s1) = other_rows ?db"
      "if applies env ?height ?body L
       then mid_rep B R es c (b + length (b_inputs ?body) + length (b_outputs ?body)) (spent_by ?cs L) s1
         (fold add_output (map (\<lambda>out. (out, ?height)) (b_outputs ?body)) (L\<lparr>lg_unspent := lg_unspent L - spent_by ?cs L\<rparr>)) S
       else \<exists>b' Z' L'. b' \<le> b + length (b_inputs ?body) + length (b_outputs ?body) \<and> mid_rep B R es c b' Z' s1 L' S"
      using ApplyBlock_outputs [OF len ok fits True mid1] by blast
    note run = ApplyBlock_steps(2) [OF col spent(1), of B, unfolded fst_conv snd_conv, OF s1(1)]
    show ?thesis
    proof (cases "applies env ?height ?body L")
      case no: False
      show ?thesis using s1(3) run unfolding def if_not_P [OF no] by (intro exI [of _ s1]) (simp only: no simp_thms)
    next
      case app: True
      obtain t2 where t2: "efor (append_kernel B R) (b_kernels ?body) (fst s1, RemoveOutputPositions ?cs (snd s1)) =
          Some (Inr True, (t2, RemoveOutputPositions ?cs (snd s1)))"
        "hash_set_rep B R es c (b + length (b_inputs ?body) + length (b_outputs ?body)) (t2, RemoveOutputPositions ?cs (snd s1))
           (apply_ledger ?height ?body L) S"
        using ApplyBlock_finish [OF len rep ok fits True, of _ s1 ?height] s1(3) unfolding if_P [OF app] by blast
      have "undo_record (Header_GetHash (fb_header block)) ?body L (snd s) (RemoveOutputPositions ?cs (snd s1))"
        unfolding undo_record_def using spent(2,3) s1(2) by (intro exI [of _ spent]) simp
      then show ?thesis using t2 run app unfolding def if_P [OF app]
        by (intro exI [of _ "(t2\<lparr>th_header := Some (fb_header block)\<rparr>, RemoveOutputPositions ?cs (snd s1))"])
          (simp add: mid_header)
    qed
  qed
qed

section \<open>Committing and rolling back\<close>

lemma mid_saved:
  assumes "mid_rep B R es c b Z s L S"
  shows "ranges_rep B R es c b (fst s) L S" "open_batch (bd_rocks (snd s))" "positions_ok S (stored (bd_rocks (snd s)))"
  using assms by (simp_all add: mid_rep_def)

lemma ranges_repD:
  assumes "ranges_rep B R es c b t L S"
  shows "pmmr_rep B R OUTPUT_SIZE OutputIdentifier_Serialize commitment_valid es c b (th_output t) (identifiers L, identifiers S)"
    "pmmr_rep B R RANGE_PROOF_SIZE RangeProof_Serialize proof_valid es c b (th_proof t) (proofs L, proofs S)"
    "kernel_rep B (th_kernel t) (lg_kernels L, lg_kernels S)"
  using assms by (simp_all add: ranges_rep_def)

lemma ranges_rollback:
  assumes rep: "ranges_rep B R es c b t L S" and b: "b + 1 \<le> 2 ^ 60"
  shows "ranges_rep B R es c (b + 1) (TxHashSet_Rollback R t) S S"
  using pmmr_rollback [OF ranges_repD(1) [OF rep] b] pmmr_rollback [OF ranges_repD(2) [OF rep] b]
    kernel_rollback [OF ranges_repD(3) [OF rep]]
  by (simp add: ranges_rep_def TxHashSet_Rollback_def InvalidateOutputBitmapCache_def)

lemma ranges_commit:
  assumes rep: "ranges_rep B R es c b t L S" and b: "b + 1 \<le> 2 ^ 60"
  defines "f \<equiv> (True, True, True)"
  shows "\<exists>t'. TxHashSet_Commit R f f f t = Some t' \<and> ranges_rep B R es c (b + 1) t' L L \<and>
    th_header t' = th_header t \<and> th_headerBackup t' = th_header t"
proof -
  note r = ranges_repD [OF rep]
  obtain m where m: "PMMR_Commit R True True True (th_output t) = (Inr (), m)"
    "pmmr_rep B R OUTPUT_SIZE OutputIdentifier_Serialize commitment_valid es c (b + 1) m (identifiers L, identifiers L)"
    using pmmr_commit [OF r(1) b] by blast
  obtain p where p: "PMMR_Commit R True True True (th_proof t) = (Inr (), p)"
    "pmmr_rep B R RANGE_PROOF_SIZE RangeProof_Serialize proof_valid es c (b + 1) p (proofs L, proofs L)"
    using pmmr_commit [OF r(2) b] by blast
  obtain k where k: "KernelMMR_Commit True True True (th_kernel t) = (Inr (), k)" "kernel_rep B k (lg_kernels L, lg_kernels L)"
    using kernel_commit [OF r(3)] by blast
  show ?thesis using m p k by (simp add: TxHashSet_Commit_def f_def ranges_rep_def)
qed

lemma hash_set_rollback:
  assumes mid: "mid_rep B R es c b Z s L S" and b: "b + 1 \<le> 2 ^ 60"
  shows "\<exists>db. BlockDB_Rollback (snd s) = (Inr (), db) \<and> hash_set_rep B R es c (b + 1) (TxHashSet_Rollback R (fst s), db) S S"
proof -
  note saved = mid_saved [OF mid]
  let ?db = "(snd s)\<lparr>bd_uncommitted := [], bd_rocks := rocks_rollback (bd_rocks (snd s))\<rparr>"
  have "BlockDB_Rollback (snd s) = (Inr (), ?db)"
    using open_batch_transactional [OF saved(2)] by (simp add: BlockDB_Rollback_def RocksDB_Rollback_def rocks_rollback_def)
  moreover have "hash_set_rep B R es c (b + 1) (TxHashSet_Rollback R (fst s), ?db) S S"
    using ranges_rollback [OF saved(1) b] saved(2,3)
    by (simp add: mid_rep_def rocks.rollback_inv rocks.rollback_view rocks.rollback_saved)
  ultimately show ?thesis by blast
qed

lemma hash_set_commit:
  assumes rep: "hash_set_rep B R es c b s L S" and b: "b + 1 \<le> 2 ^ 60"
  defines "f \<equiv> (True, True, True)"
  shows "\<exists>t db. TxHashSet_Commit R f f f (fst s) = Some t \<and> BlockDB_Commit True (snd s) = (Inr (), db) \<and>
    hash_set_rep B R es c (b + 1) (t, db) L L \<and> th_header t = th_header (fst s) \<and> th_headerBackup t = th_header (fst s)"
proof -
  note saved = mid_saved [OF rep]
  obtain t where t: "TxHashSet_Commit R f f f (fst s) = Some t" "ranges_rep B R es c (b + 1) t L L"
    "th_header t = th_header (fst s)" "th_headerBackup t = th_header (fst s)"
    using ranges_commit [OF saved(1) b] unfolding f_def by blast
  obtain db where db: "BlockDB_Commit True (snd s) = (Inr (), db)" "bd_rocks db = rocks_commit (bd_rocks (snd s))"
    by (cases "rd_transaction (bd_rocks (snd s))") (simp_all add: BlockDB_Commit_def RocksDB_Commit_def rocks_commit_def)
  have "hash_set_rep B R es c (b + 1) (t, db) L L"
    using rep t(2) by (simp add: mid_rep_def db(2) rocks.commit_inv rocks.commit_view rocks.commit_saved)
  then show ?thesis using t(1,3,4) db(1) by blast
qed

section \<open>A commitment that is spent twice\<close>

lemma ecollect_raise:
  "ecollect f xs s = Some (Inr (Some ys), s1) \<Longrightarrow> f x s1 = Some (Inl e, s2) \<Longrightarrow>
   ecollect f (xs @ x # zs) s = Some (Inl e, s2)"
proof (induction xs arbitrary: s ys)
  case (Cons a xs)
  from Cons.prems(1) show ?case
    using Cons.IH [OF _ Cons.prems(2)] by (auto simp: ebind_def ereturn_def split: option.splits prod.splits sum.splits)
qed (simp add: ereturn_def ebind_def)

section \<open>An empty hash set\<close>

definition empty_range :: "u32 set PruneableMMR" where
  "empty_range =
     \<lparr>pm_hashFile = DataFile_Load [], pm_leafSet = BitmapFile_New [],
      pm_pruneList = RebuildCaches set_roaring (PruneList_New {} None set_roaring),
      pm_dataFile = DataFile_Load [], pm_dirty = False\<rparr>"

definition empty_state :: "BlockHeader \<Rightarrow> u32 set chain_data" where
  "empty_state header =
     (TxHashSet_New \<lparr>km_hashFile = DataFile_Load [], km_storage = Fixed (DataFile_Load [])\<rparr> empty_range empty_range (Some header),
      (BlockDB_OpenDB [])\<lparr>bd_rocks := \<lparr>rd_rows = [], rd_transaction = Some []\<rparr>\<rparr>)"

definition empty_ledger :: ledger where
  "empty_ledger = \<lparr>lg_outputs = [], lg_unspent = {}, lg_kernels = []\<rparr>"

lemma empty_leaf_set: "\<not> IsSet (BitmapFile_New []) i" "bitmap_abs (BitmapFile_New []) = ({}, {})"
proof -
  have bits: "\<not> IsSet (BitmapFile_New []) i" for i by (simp add: IsSet_bit GetByte_def BitmapFile_New_def)
  then show "\<not> IsSet (BitmapFile_New []) i" .
  have "saved_bits (BitmapFile_New []) = IsSet (BitmapFile_New [])"
    by (simp add: saved_bits_def BitmapFile_Rollback_def BitmapFile_New_def)
  then show "bitmap_abs (BitmapFile_New []) = ({}, {})" using bits by (simp add: bitmap_abs_def)
qed

lemma empty_range_rep:
  "pmmr_rep B set_roaring DATA_SIZE ser valid [] 0 (2 ^ 29) empty_range (([], {}), ([], {}))"
proof -
  let ?p = "RebuildCaches set_roaring (PruneList_New {} None set_roaring)"
  have "roots_of set_roaring ?p = []" "\<not> pl_dirty ?p" "pl_file ?p = None"
    by (simp_all add: RebuildCaches_def PruneList_New_def set_roaring_def)
  moreover have "roots_disjoint []" by (simp add: roots_disjoint_def)
  ultimately have p: "prune_rep set_roaring ?p []"
    using set_roaring_laws RebuildCaches_ok [of set_roaring] by (simp add: prune_rep_def prune_ok_def)
  have load: "data_inv (DataFile_Load [])" "data_view (DataFile_Load []) = []" "data_saved (DataFile_Load []) = []"
    using Load_inv [of "[]"] Load_view [of "[]"] by (simp_all add: data_inv_def DataFile_Load_def AppendOnlyFile_Load_def)
  have "files_rep B DATA_SIZE ser [] [] [] []" "bitmap_le (2 ^ 29) (BitmapFile_New [])" "unspent_ok [] ([], {})"
    by (simp_all add: files_rep_def records_def kept_def mmr_pos_def bitmap_le_def BitmapFile_New_def unspent_ok_def)
  moreover have "roots_under [] (mmr_pos 0 0)" by (simp add: roots_under_def)
  ultimately show ?thesis
    unfolding pmmr_rep_def range_view_def empty_range_def using p load empty_leaf_set by (simp add: prune_rep_def)
qed

lemma empty_state_rep: "hash_set_rep B set_roaring [] 0 (2 ^ 29) (empty_state header) empty_ledger empty_ledger"
proof -
  have "kernel_rep B \<lparr>km_hashFile = DataFile_Load [], km_storage = Fixed (DataFile_Load [])\<rparr> ([], [])"
    by (rule kernel_rep_empty) (simp add: empty_storage_def)
  then have "ranges_rep B set_roaring [] 0 (2 ^ 29) (fst (empty_state header)) empty_ledger empty_ledger"
    by (simp add: ranges_rep_def empty_state_def TxHashSet_New_def identifiers_def proofs_def empty_ledger_def
        empty_range_rep [simplified])
  then show ?thesis
    by (simp add: mid_rep_def empty_state_def open_batch_def positions_ok_def read_position_def row_def stored_def
        empty_ledger_def)
qed

definition sample_utxo :: TransactionOutput where
  "sample_utxo = \<lparr>o_features = 0, o_commitment = replicate 33 7, o_rangeProof = replicate 675 1\<rparr>"

definition sample_block :: "TransactionInput list \<Rightarrow> TransactionOutput list \<Rightarrow> FullBlock" where
  "sample_block inputs outputs =
     \<lparr>fb_header = sample_header sample_hash, fb_body = \<lparr>b_inputs = inputs, b_outputs = outputs, b_kernels = []\<rparr>\<rparr>"

section \<open>Theorems\<close>

text \<open>
  C12. Applying a block to the transaction hash set. In a state that represents a ledger \<open>L\<close>, with the ledger \<open>S\<close> committed,
  a well-formed block that fits is always processed to the end. The result is true exactly when the block may follow:
  every input spends an unspent output that is not an immature coinbase, and no output has the commitment of an
  unspent output or of another one. Then the new state represents the ledger with the inputs spent and the outputs
  and kernels appended, and the block is the tip. In either case a rollback of hash set and database represents the
  committed ledger \<open>S\<close> again.
\<close>

theorem ApplyBlock_correct:
  assumes "\<forall>x. length (B x) = 32" "hash_set_rep B R es c b s L S" "body_ok (fb_body block)" "fits b (fb_body block) L"
  shows "\<exists>s'. ApplyBlock B R env block s = Some (Inr (applies env (h_height (fb_header block)) (fb_body block) L), s') \<and>
    (applies env (h_height (fb_header block)) (fb_body block) L \<longrightarrow>
      hash_set_rep B R es c (b + length (b_inputs (fb_body block)) + length (b_outputs (fb_body block))) s'
        (apply_ledger (h_height (fb_header block)) (fb_body block) L) S \<and>
      th_header (fst s') = Some (fb_header block)) \<and>
    (\<exists>b' db. BlockDB_Rollback (snd s') = (Inr (), db) \<and> hash_set_rep B R es c b' (TxHashSet_Rollback R (fst s'), db) S S)"
proof -
  let ?b = "b + length (b_inputs (fb_body block)) + length (b_outputs (fb_body block))"
  let ?app = "applies env (h_height (fb_header block)) (fb_body block) L"
  obtain s' where s': "ApplyBlock B R env block s = Some (Inr ?app, s')" "block_outcome B R es c ?b env block L S s s'"
    using ApplyBlock_run [OF assms] by blast
  obtain b' Z M where mid: "b' \<le> ?b" "mid_rep B R es c b' Z s' M S"
    using s'(2) unfolding block_outcome_def by (cases ?app) auto
  moreover have "?b < 2 ^ 60" using assms(4) by (simp add: fits_def)
  ultimately show ?thesis using s' hash_set_rollback [OF mid(2)] by (fastforce simp: block_outcome_def)
qed

theorem ApplyBlock_correct_witness:
  "\<exists>s'. ApplyBlock sample_hash set_roaring MAINNET (sample_block [] [sample_utxo]) (empty_state (sample_header sample_hash)) =
      Some (Inr True, s') \<and>
    hash_set_rep sample_hash set_roaring [] 0 (2 ^ 29 + 1) s'
      \<lparr>lg_outputs = [(sample_utxo, h_height (sample_header sample_hash))], lg_unspent = {0}, lg_kernels = []\<rparr> empty_ledger"
proof -
  have pre: "\<forall>x. length (sample_hash x) = 32" "body_ok (fb_body (sample_block [] [sample_utxo]))"
    "fits (2 ^ 29) (fb_body (sample_block [] [sample_utxo])) empty_ledger"
    by (simp_all add: sample_hash_def body_ok_def fits_def sample_block_def sample_utxo_def output_valid_def MAX_PROOF_SIZE_def
        empty_ledger_def)
  have app: "applies MAINNET h (fb_body (sample_block [] [sample_utxo])) empty_ledger" for h
    by (simp add: applies_def sample_block_def empty_ledger_def)
  show ?thesis
    using ApplyBlock_correct [OF pre(1) empty_state_rep [of _ "sample_header sample_hash"] pre(2,3), of MAINNET] app
    by (auto simp: apply_ledger_def sample_block_def empty_ledger_def spent_by_def)
qed

text \<open>
  C37. A block that spends the same unspent output twice is not refused but crashes the node: the second input finds the
  position of the output, the lookup of the output then gives no output, and the null pointer is followed (the
  assertion is not compiled into a release). The validators of the block accept repeated commitments when the
  features of the two inputs differ.
\<close>

theorem ApplyBlock_spent_twice:
  assumes rep: "hash_set_rep B R es c b s L S" and ins: "b_inputs (fb_body block) = xs @ x # zs"
    and xs: "distinct (map i_commitment xs)" "b + length xs \<le> 2 ^ 60"
    and all: "\<forall>input \<in> set xs. spendable (GetMaxCoinbaseHeight env (h_height (fb_header block))) L (i_commitment input)"
    and twice: "i_commitment x \<in> i_commitment ` set xs"
  shows "\<exists>s'. ApplyBlock B R env block s = Some (Inl Undefined, s')"
proof -
  let ?h = "GetMaxCoinbaseHeight env (h_height (fb_header block))" and ?cs = "map i_commitment xs"
  have rep0: "mid_rep B R es c b {} (InvalidateOutputBitmapCache (fst s), snd s) L S" using rep by (simp add: mid_invalidate)
  have none: "i_commitment ` set xs \<inter> commit_at L ` {} = {}" by simp
  obtain spent t where t: "ecollect (spend_input R ?h) xs (InvalidateOutputBitmapCache (fst s), snd s) = Some (Inr (Some spent), (t, snd s))"
    "mid_rep B R es c (b + length xs) (spent_by ?cs L) (t, snd s) (L\<lparr>lg_unspent := lg_unspent L - spent_by ?cs L\<rparr>) S"
    using spend_inputs [OF rep0 xs(1) none xs(2), of ?h] unfolding if_P [OF all] snd_conv Un_empty_left by blast
  have "commit_at L ` spent_by ?cs L = set ?cs" using all by (intro spent_commitments [of _ ?h]) simp
  then obtain i where "i \<in> spent_by ?cs L" "commit_at L i = i_commitment x"
    using twice by (metis (no_types, lifting) imageE list.set_map)
  then have "spend_input R ?h x (t, snd s) = Some (Inl Undefined, (t, snd s))"
    by (intro spend_input_twice [OF t(2)]) simp_all
  from ecollect_raise [OF t(1) this] show ?thesis by (simp add: ApplyBlock_def Let_def ins)
qed

theorem ApplyBlock_spent_twice_witness:
  "\<exists>s s'. ApplyBlock sample_hash set_roaring MAINNET
     (sample_block [\<lparr>i_features = 0, i_commitment = replicate 33 7\<rparr>, \<lparr>i_features = 1, i_commitment = replicate 33 7\<rparr>] []) s =
     Some (Inl Undefined, s')"
proof -
  let ?L = "\<lparr>lg_outputs = [(sample_utxo, h_height (sample_header sample_hash))], lg_unspent = {0}, lg_kernels = []\<rparr>"
  let ?in = "\<lambda>f. \<lparr>i_features = f, i_commitment = replicate 33 7\<rparr>"
  have "body_ok (fb_body (sample_block [] [sample_utxo]))" "fits (2 ^ 29) (fb_body (sample_block [] [sample_utxo])) empty_ledger"
    "applies MAINNET h (fb_body (sample_block [] [sample_utxo])) empty_ledger" for h
    by (simp_all add: body_ok_def fits_def applies_def sample_block_def sample_utxo_def output_valid_def MAX_PROOF_SIZE_def
        empty_ledger_def)
  then obtain s where s: "hash_set_rep sample_hash set_roaring [] 0 (2 ^ 29 + 1) s ?L empty_ledger"
    using ApplyBlock_run [of sample_hash set_roaring "[]" 0 "2 ^ 29" _ empty_ledger empty_ledger "sample_block [] [sample_utxo]" MAINNET,
        OF _ empty_state_rep [of _ "sample_header sample_hash"]]
    by (auto simp: block_outcome_def sample_hash_def apply_ledger_def sample_block_def empty_ledger_def spent_by_def)
  have "\<forall>input \<in> set [?in 0]. spendable h ?L (i_commitment input)" for h
    by (simp add: spendable_def sample_utxo_def mature_def Output_IsCoinbase_def COINBASE_OUTPUT_def)
  then have "\<exists>s'. ApplyBlock sample_hash set_roaring MAINNET (sample_block [?in 0, ?in 1] []) s = Some (Inl Undefined, s')"
    by (intro ApplyBlock_spent_twice [OF s, of _ "[?in 0]" "?in 1" "[]"]) (simp_all add: sample_block_def)
  then show ?thesis by blast
qed

end
