(* ===== verification/Rewind.thy ===== *)
theory Rewind
  imports TxHashSetCorrect
begin

text \<open>
  Rewinding: the blocks that have been applied since a header are undone from the records that applying them has
  left in the database, and the ledger of that header is back.
\<close>

section \<open>Undoing one block\<close>

lemma other_rowsD:
  assumes "other_rows db = other_rows db'"
  shows "t \<noteq> ''OUTPUT_POS'' \<Longrightarrow> row (bd_rocks db) (t, k) = row (bd_rocks db') (t, k)"
    and "bd_headersCache db = bd_headersCache db'"
proof -
  have "fst (other_rows db) (t, k) = fst (other_rows db') (t, k)" using assms by simp
  then show "t \<noteq> ''OUTPUT_POS'' \<Longrightarrow> row (bd_rocks db) (t, k) = row (bd_rocks db') (t, k)" by (simp add: other_rows_def)
  show "bd_headersCache db = bd_headersCache db'" using assms by (simp add: other_rows_def)
qed

lemma other_rows_reads:
  assumes "other_rows db = other_rows db'"
  shows "GetBlock B G hash db = GetBlock B G hash db'" "GetSpentPositions hash db = GetSpentPositions hash db'"
    and "GetBlockHeader B hash db = GetBlockHeader B hash db'"
  using other_rowsD [OF assms] by (simp_all add: GetBlock_def GetSpentPositions_def GetBlockHeader_def RocksDB_Get_def)

definition undoable ::
  "(bytes \<Rightarrow> bytes) \<Rightarrow> (bytes \<Rightarrow> u8) \<Rightarrow> FullBlock \<Rightarrow> BlockHeader \<Rightarrow> ledger \<Rightarrow> BlockDB \<Rightarrow> bool" where
  "undoable B G block previous L db \<longleftrightarrow>
     GetBlock B G (Header_GetHash (fb_header block)) db = Inr (Some block) \<and>
     (\<exists>m. GetSpentPositions (Header_GetHash (fb_header block)) db = Inr m \<and>
        (\<forall>i \<in> spent_by (map i_commitment (b_inputs (fb_body block))) L. m (commit_at L i) = Some (location_at L i))) \<and>
     GetBlockHeader B (h_previousBlockHash (fb_header block)) db = Inr (Some previous)"

lemma undoable_cong: "other_rows db = other_rows db' \<Longrightarrow> undoable B G block previous L db = undoable B G block previous L db'"
  unfolding undoable_def using other_rows_reads [of db db'] by simp

lemma read_position_add:
  "location_valid l \<Longrightarrow>
   read_position (row (bd_rocks (AddOutputPosition c l db))) x =
     (if x = c then Inr (Some l) else read_position (row (bd_rocks db)) x)"
  by (simp add: AddOutputPosition_def read_position_put)

lemma restore_inputs:
  assumes "\<forall>input \<in> set inputs. \<exists>l. m (i_commitment input) = Some l \<and> location_valid l" "open_batch (bd_rocks db)"
  shows "\<exists>db'. ecollect (restore_input m) inputs (t, db) =
      Some (Inr (Some (map (\<lambda>input. m_leafIndex (ol_leafIndex (the (m (i_commitment input))))) inputs)), (t, db')) \<and>
    open_batch (bd_rocks db') \<and> stored (bd_rocks db') = stored (bd_rocks db) \<and> other_rows db' = other_rows db \<and>
    (\<forall>x. read_position (row (bd_rocks db')) x =
       (if x \<in> i_commitment ` set inputs then Inr (m x) else read_position (row (bd_rocks db)) x))"
  using assms
proof (induction inputs arbitrary: db)
  case (Cons input inputs)
  obtain l where l: "m (i_commitment input) = Some l" "location_valid l" using Cons.prems(1) by auto
  let ?db = "AddOutputPosition (i_commitment input) l db"
  have "open_batch (bd_rocks ?db)" "stored (bd_rocks ?db) = stored (bd_rocks db)"
    using Cons.prems(2) by (simp_all add: AddOutputPosition_def)
  then obtain db' where db': "ecollect (restore_input m) inputs (t, ?db) =
      Some (Inr (Some (map (\<lambda>input. m_leafIndex (ol_leafIndex (the (m (i_commitment input))))) inputs)), (t, db'))"
    "open_batch (bd_rocks db')" "stored (bd_rocks db') = stored (bd_rocks db)" "other_rows db' = other_rows db"
    "\<forall>x. read_position (row (bd_rocks db')) x =
       (if x \<in> i_commitment ` set inputs then Inr (m x) else read_position (row (bd_rocks ?db)) x)"
    using Cons.IH [of ?db] Cons.prems(1) by auto
  have "ecollect (restore_input m) (input # inputs) (t, db) =
      Some (Inr (Some (map (\<lambda>input. m_leafIndex (ol_leafIndex (the (m (i_commitment input))))) (input # inputs))), (t, db'))"
    using db'(1) l(1) by (simp add: restore_input_def)
  moreover have "\<forall>x. read_position (row (bd_rocks db')) x =
       (if x \<in> i_commitment ` set (input # inputs) then Inr (m x) else read_position (row (bd_rocks db)) x)"
    using db'(5) l by (simp add: read_position_add)
  ultimately show ?case using db'(2-4) by blast
qed simp

text \<open>Every input of a block that has been applied leads back to one output.\<close>

lemma spendable_spent:
  assumes "spendable h L (i_commitment input)" "input \<in> set (b_inputs body)"
  shows "\<exists>i \<in> spent_by (map i_commitment (b_inputs body)) L. commit_at L i = i_commitment input"
  using assms by (fastforce simp: spendable_def spent_by_def)

lemma positions_restore:
  assumes ok: "positions_ok (apply_ledger height body L) m" and L: "inj_on (commit_at L) (lg_unspent L)"
      "\<And>i. i \<in> lg_unspent L \<Longrightarrow> i < length (lg_outputs L)"
    and app: "applies env height body L"
    and spent: "\<And>i. i \<in> spent_by (map i_commitment (b_inputs body)) L \<Longrightarrow> f (commit_at L i) = Some (location_at L i)"
    and reads: "\<And>x. read_position m' x = (if x \<in> i_commitment ` set (b_inputs body) then Inr (f x)
        else if x \<in> o_commitment ` set (b_outputs body) then Inr None else read_position m x)"
  shows "positions_ok L m'"
proof (rule positions_okI)
  let ?Z = "spent_by (map i_commitment (b_inputs body)) L" and ?L = "apply_ledger height body L"
  note old = ledger_appended [of _ L ?L "map (\<lambda>out. (out, height)) (b_outputs body)"]
  have out: "lg_outputs ?L = lg_outputs L @ map (\<lambda>out. (out, height)) (b_outputs body)"
    and un: "lg_unspent ?L = (lg_unspent L - ?Z) \<union> {length (lg_outputs L)..<length (lg_outputs L) + length (b_outputs body)}"
    by (simp_all add: apply_ledger_def)
  note pos = positions_okD [OF ok]
  show "inj_on (commit_at L) (lg_unspent L)" by (rule L(1))
  show "read_position m' (commit_at L i) = Inr (Some (location_at L i))" if i: "i \<in> lg_unspent L" for i
  proof (cases "i \<in> ?Z")
    case True
    then have "commit_at L i \<in> i_commitment ` set (b_inputs body)" by (simp add: spent_by_def)
    then show ?thesis using reads spent [OF True] by simp
  next
    case False
    then have "commit_at L i \<notin> i_commitment ` set (b_inputs body)" using i by (simp add: spent_by_def)
    moreover have "commit_at L i \<notin> o_commitment ` set (b_outputs body)" using app i unfolding applies_def by blast
    moreover have "read_position m (commit_at L i) = Inr (Some (location_at L i))"
      using pos(3) [of i] False i old [OF L(2) out, of i] by (simp add: un)
    ultimately show ?thesis using reads by simp
  qed
  show "read_position m' x = Inr None" if x: "x \<notin> commit_at L ` lg_unspent L" for x
  proof -
    have "i_commitment ` set (b_inputs body) \<subseteq> commit_at L ` lg_unspent L"
      using app by (auto simp: applies_def spendable_def image_iff) metis
    then have "x \<notin> i_commitment ` set (b_inputs body)" using x by blast
    moreover have "read_position m x = Inr None" if new: "x \<notin> o_commitment ` set (b_outputs body)"
    proof (rule pos(4))
      have "commit_at ?L i \<noteq> x" if "i \<in> lg_unspent ?L" for i
      proof (cases "i < length (lg_outputs L)")
        case True
        then have "i \<in> lg_unspent L" using that by (simp add: un)
        then show ?thesis using x old(1) [OF True out] by auto
      next
        case False
        then have "i - length (lg_outputs L) < length (b_outputs body)" using that L(2) [of i] by (auto simp: un)
        then show ?thesis using new False by (auto simp: out nth_append)
      qed
      then show "x \<notin> commit_at ?L ` lg_unspent ?L" by blast
    qed
    ultimately show ?thesis using reads by simp
  qed
qed (rule L(2))

lemma spent_leaves:
  assumes "inj_on (commit_at L) (lg_unspent L)"
    and g: "\<forall>input \<in> set inputs. g input \<in> spent_by (map i_commitment inputs) L \<and> commit_at L (g input) = i_commitment input"
  shows "set (map g inputs) = spent_by (map i_commitment inputs) L"
proof (intro equalityI subsetI)
  fix i assume i: "i \<in> spent_by (map i_commitment inputs) L"
  then obtain input where "input \<in> set inputs" "commit_at L i = i_commitment input" by (auto simp: spent_by_def)
  moreover from this have "i = g input" using g i by (intro inj_onD [OF assms(1)]) (auto simp: spent_by_def)
  ultimately show "i \<in> set (map g inputs)" by simp
qed (use g in auto)

lemma rewind_block_ok:
  assumes undo: "undoable B G block previous L db" and app: "applies env height (fb_body block) L"
    and pos: "positions_ok (apply_ledger height (fb_body block) L) (row (bd_rocks db))" and batch: "open_batch (bd_rocks db)"
    and L: "inj_on (commit_at L) (lg_unspent L)" "\<And>i. i \<in> lg_unspent L \<Longrightarrow> i < length (lg_outputs L)"
      "length (lg_outputs L) \<le> 2 ^ 31"
    and ok: "body_ok (fb_body block)"
  shows "\<exists>js db'. rewind_block B G (fb_header block) (t, db) =
      Some (Inr (map of_nat js), (t\<lparr>th_header := Some previous\<rparr>, db')) \<and>
    set js = spent_by (map i_commitment (b_inputs (fb_body block))) L \<and>
    positions_ok L (row (bd_rocks db')) \<and> open_batch (bd_rocks db') \<and>
    stored (bd_rocks db') = stored (bd_rocks db) \<and> other_rows db' = other_rows db"
proof -
  let ?body = "fb_body block" and ?hash = "Header_GetHash (fb_header block)"
  let ?cs = "map i_commitment (b_inputs ?body)"
  obtain f where f: "GetSpentPositions ?hash db = Inr f"
    "\<And>i. i \<in> spent_by ?cs L \<Longrightarrow> f (commit_at L i) = Some (location_at L i)"
    and blk: "GetBlock B G ?hash db = Inr (Some block)" "GetBlockHeader B (h_previousBlockHash (fb_header block)) db = Inr (Some previous)"
    using undo unfolding undoable_def by blast
  let ?db = "RemoveOutputPositions (map o_commitment (b_outputs ?body)) db"
  have sp: "\<exists>i \<in> spent_by ?cs L. commit_at L i = i_commitment input" if "input \<in> set (b_inputs ?body)" for input
    using spendable_spent [OF _ that] app that unfolding applies_def by blast
  have small: "i < 2 ^ 31" if "i \<in> spent_by ?cs L" for i using L(2) [of i] L(3) that by (simp add: spent_by_def)
  have known: "\<forall>input \<in> set (b_inputs ?body). \<exists>l. f (i_commitment input) = Some l \<and> location_valid l"
    using sp f(2) small location_at_valid by (metis (no_types, lifting))
  have batch': "open_batch (bd_rocks ?db)" "stored (bd_rocks ?db) = stored (bd_rocks db)"
    using batch by (simp_all add: RemoveOutputPositions_def)
  obtain db' where db': "ecollect (restore_input f) (b_inputs ?body) (t, ?db) =
      Some (Inr (Some (map (\<lambda>input. m_leafIndex (ol_leafIndex (the (f (i_commitment input))))) (b_inputs ?body))), (t, db'))"
    "open_batch (bd_rocks db')" "stored (bd_rocks db') = stored (bd_rocks db)" "other_rows db' = other_rows db"
    "\<And>x. read_position (row (bd_rocks db')) x =
       (if x \<in> i_commitment ` set (b_inputs ?body) then Inr (f x) else read_position (row (bd_rocks ?db)) x)"
    using restore_inputs [OF known batch'(1), of t] batch'(2) by auto
  obtain g where g: "\<forall>input \<in> set (b_inputs ?body). g input \<in> spent_by ?cs L \<and> commit_at L (g input) = i_commitment input"
    using bchoice [of "set (b_inputs ?body)" "\<lambda>input i. i \<in> spent_by ?cs L \<and> commit_at L i = i_commitment input"] sp by blast
  have "f (i_commitment input) = Some (location_at L (g input))" if "input \<in> set (b_inputs ?body)" for input
    using f(2) [of "g input"] g that by metis
  then have leaves: "map (\<lambda>input. m_leafIndex (ol_leafIndex (the (f (i_commitment input))))) (b_inputs ?body) =
      map of_nat (map g (b_inputs ?body))"
    by (simp add: LeafIndex_At_def)
  have run: "rewind_block B G (fb_header block) (t, db) =
      Some (Inr (map of_nat (map g (b_inputs ?body))), (t\<lparr>th_header := Some previous\<rparr>, db'))"
    using blk f(1) db'(1) other_rows_reads(3) [OF db'(4), of B] unfolding leaves
    by (simp add: rewind_block_def split_beta del: map_map)
  have "positions_ok L (row (bd_rocks db'))"
    by (rule positions_restore [OF pos L(1,2) app f(2)]) (simp_all add: db'(5) read_position_removed)
  then show ?thesis using run spent_leaves [OF L(1) g] db'(2-4) by (intro exI [of _ "map g (b_inputs ?body)"] exI [of _ db']) simp
qed

section \<open>Undoing a chain of blocks\<close>

text \<open>Blocks on top of a header, the newest first.\<close>

fun ledger_after :: "ledger \<Rightarrow> FullBlock list \<Rightarrow> ledger" where
  "ledger_after L [] = L"
| "ledger_after L (block # past) = apply_ledger (h_height (fb_header block)) (fb_body block) (ledger_after L past)"

fun tip_of :: "BlockHeader \<Rightarrow> FullBlock list \<Rightarrow> BlockHeader" where
  "tip_of header [] = header"
| "tip_of header (block # past) = fb_header block"

definition ledger_ok :: "ledger \<Rightarrow> bool" where
  "ledger_ok L \<longleftrightarrow> inj_on (commit_at L) (lg_unspent L) \<and> (\<forall>i \<in> lg_unspent L. i < length (lg_outputs L)) \<and>
     length (lg_outputs L) < 2 ^ 31"

definition step_ok :: "Environment \<Rightarrow> FullBlock \<Rightarrow> ledger \<Rightarrow> bool" where
  "step_ok env block L \<longleftrightarrow> ledger_ok L \<and> body_ok (fb_body block) \<and> applies env (h_height (fb_header block)) (fb_body block) L"

fun undo_chain ::
  "(bytes \<Rightarrow> bytes) \<Rightarrow> (bytes \<Rightarrow> u8) \<Rightarrow> Environment \<Rightarrow> BlockHeader \<Rightarrow> ledger \<Rightarrow> BlockDB \<Rightarrow> FullBlock list \<Rightarrow> bool" where
  "undo_chain B G env header L db [] = True"
| "undo_chain B G env header L db (block # past) =
     (undoable B G block (tip_of header past) (ledger_after L past) db \<and> step_ok env block (ledger_after L past) \<and>
      undo_chain B G env header L db past)"

lemma undo_chain_cong:
  "other_rows db = other_rows db' \<Longrightarrow> undo_chain B G env header L db past = undo_chain B G env header L db' past"
  by (induction past) (simp_all add: undoable_cong [of db db'])

lemma ledger_after_length: "length (lg_outputs L) \<le> length (lg_outputs (ledger_after L past))"
  by (induction past) (simp_all add: apply_ledger_def)

lemma leaves_before:
  assumes "k \<le> length (lg_outputs L)" "{i \<in> lg_unspent L \<union> J. i < k} = U"
  shows "{i \<in> lg_unspent (apply_ledger height body L) \<union> (spent_by (map i_commitment (b_inputs body)) L \<union> J). i < k} = U"
  using assms by (auto simp: apply_ledger_def spent_by_def)

lemma rewind_blocks_ok:
  assumes "undo_chain B G env header L db past" "positions_ok (ledger_after L past) (row (bd_rocks db))"
    and "open_batch (bd_rocks db)" "\<forall>block \<in> set past. \<not> BigInteger_equal (Header_GetHash (fb_header block)) (Header_GetHash header)"
    and "th_header t = Some (tip_of header past)" "ledger_ok L"
  shows "\<exists>js db'. rewind_blocks B G header acc (t, db) =
      Some (Inr (acc @ map of_nat js), (t\<lparr>th_header := Some header\<rparr>, db')) \<and>
    {i \<in> lg_unspent (ledger_after L past) \<union> set js. i < length (lg_outputs L)} = lg_unspent L \<and>
    (\<forall>j \<in> set js. j < 2 ^ 31) \<and> positions_ok L (row (bd_rocks db')) \<and> open_batch (bd_rocks db') \<and>
    stored (bd_rocks db') = stored (bd_rocks db) \<and> other_rows db' = other_rows db"
  using assms
proof (induction past arbitrary: t db acc)
  case Nil
  have "rewind_blocks B G header acc (t, db) = Some (Inr (acc @ map of_nat []), (t\<lparr>th_header := Some header\<rparr>, db))"
    using Nil.prems(5) by (subst rewind_blocks.simps) (simp add: BigInteger_equal_iff)
  then show ?case
    using Nil.prems by (intro exI [of _ "[]"] exI [of _ db]) (auto simp: ledger_ok_def)
next
  case (Cons block past)
  let ?M = "ledger_after L past" and ?t = "t\<lparr>th_header := Some (tip_of header past)\<rparr>"
  have undo: "undoable B G block (tip_of header past) ?M db" and step: "step_ok env block ?M"
    and rest: "undo_chain B G env header L db past"
    using Cons.prems(1) by simp_all
  have M: "inj_on (commit_at ?M) (lg_unspent ?M)" "\<And>i. i \<in> lg_unspent ?M \<Longrightarrow> i < length (lg_outputs ?M)"
    "length (lg_outputs ?M) \<le> 2 ^ 31" "body_ok (fb_body block)" "applies env (h_height (fb_header block)) (fb_body block) ?M"
    using step by (simp_all add: step_ok_def ledger_ok_def)
  obtain js db1 where one: "rewind_block B G (fb_header block) (t, db) = Some (Inr (map of_nat js), (?t, db1))"
    "set js = spent_by (map i_commitment (b_inputs (fb_body block))) ?M"
    "positions_ok ?M (row (bd_rocks db1))" "open_batch (bd_rocks db1)" "stored (bd_rocks db1) = stored (bd_rocks db)"
    "other_rows db1 = other_rows db"
    using rewind_block_ok [OF undo M(5) _ Cons.prems(3) M(1-4), of t] Cons.prems(2) by (simp only: ledger_after.simps) blast
  obtain ks db2 where more: "rewind_blocks B G header (acc @ map of_nat js) (?t, db1) =
      Some (Inr ((acc @ map of_nat js) @ map of_nat ks), (?t\<lparr>th_header := Some header\<rparr>, db2))"
    "{i \<in> lg_unspent ?M \<union> set ks. i < length (lg_outputs L)} = lg_unspent L" "\<forall>j \<in> set ks. j < 2 ^ 31"
    "positions_ok L (row (bd_rocks db2))" "open_batch (bd_rocks db2)" "stored (bd_rocks db2) = stored (bd_rocks db1)"
    "other_rows db2 = other_rows db1"
    using Cons.IH [of db1 ?t "acc @ map of_nat js"] Cons.prems(4,6) one(3,4) rest undo_chain_cong [OF one(6)] by auto
  have "\<not> BigInteger_equal (Header_GetHash (fb_header block)) (Header_GetHash header)" using Cons.prems(4) by simp
  then have "rewind_blocks B G header acc (t, db) =
      Some (Inr (acc @ map of_nat (js @ ks)), (t\<lparr>th_header := Some header\<rparr>, db2))"
    using Cons.prems(5) one(1) more(1) by (subst rewind_blocks.simps) simp
  moreover have "{i \<in> lg_unspent (ledger_after L (block # past)) \<union> set (js @ ks). i < length (lg_outputs L)} = lg_unspent L"
    using leaves_before [OF ledger_after_length more(2)] by (simp add: one(2))
  moreover have "\<forall>j \<in> set (js @ ks). j < 2 ^ 31"
    using more(3) one(2) M(2,3) by (auto simp: spent_by_def) (meson less_le_trans)
  ultimately show ?case using more(4-7) one(5,6) by (intro exI [of _ "js @ ks"] exI [of _ db2]) simp
qed

section \<open>The ranges\<close>

lemma ledger_after_prefix:
  "take (length (lg_outputs L)) (lg_outputs (ledger_after L past)) = lg_outputs L"
  "take (length (lg_kernels L)) (lg_kernels (ledger_after L past)) = lg_kernels L"
  "length (lg_kernels L) \<le> length (lg_kernels (ledger_after L past))"
proof -
  have "\<exists>xs ks. lg_outputs (ledger_after L past) = lg_outputs L @ xs \<and> lg_kernels (ledger_after L past) = lg_kernels L @ ks"
    by (induction past) (auto simp: apply_ledger_def)
  then show "take (length (lg_outputs L)) (lg_outputs (ledger_after L past)) = lg_outputs L"
    "take (length (lg_kernels L)) (lg_kernels (ledger_after L past)) = lg_kernels L"
    "length (lg_kernels L) \<le> length (lg_kernels (ledger_after L past))" by auto
qed

lemma ranges_rewind:
  assumes rep: "ranges_rep B R es c b t M S" and b: "b + 1 \<le> 2 ^ 60"
    and L: "c \<le> length (lg_outputs L)" "length (lg_outputs L) \<le> length (lg_outputs M)" "length (lg_kernels L) \<le> length (lg_kernels M)"
      "take (length (lg_outputs L)) (lg_outputs M) = lg_outputs L" "take (length (lg_kernels L)) (lg_kernels M) = lg_kernels L"
    and js: "{i \<in> lg_unspent M \<union> set js. i < length (lg_outputs L)} = lg_unspent L" "\<forall>j \<in> set js. j < 2 ^ 31"
    and es: "\<forall>i \<in> lg_unspent L. \<not> leaf_compacted es i"
  shows "\<exists>k m p. KernelMMR_Rewind (of_nat (length (lg_kernels L))) (th_kernel t) = (Inr (), k) \<and>
    PMMR_Rewind R OUTPUT_SIZE (of_nat (length (lg_outputs L))) (map of_nat js) (th_output t) = (Inr (), m) \<and>
    PMMR_Rewind R RANGE_PROOF_SIZE (of_nat (length (lg_outputs L))) (map of_nat js) (th_proof t) = (Inr (), p) \<and>
    ranges_rep B R es c (b + 1) (t\<lparr>th_kernel := k, th_output := m, th_proof := p\<rparr>) L S"
proof -
  note r = ranges_repD [OF rep]
  have j: "\<forall>j \<in> set js. j < 2 ^ 31 \<and> (j < length (lg_outputs L) \<longrightarrow> \<not> leaf_compacted es j)" using js es by blast
  have ids: "(take (length (lg_outputs L)) (fst (identifiers M)), {i \<in> lg_unspent M \<union> set js. i < length (lg_outputs L)}) = identifiers L"
    and prs: "(take (length (lg_outputs L)) (fst (proofs M)), {i \<in> lg_unspent M \<union> set js. i < length (lg_outputs L)}) = proofs L"
    using L(4) js(1) by (simp_all add: identifiers_def proofs_def take_map)
  obtain m where m: "PMMR_Rewind R OUTPUT_SIZE (of_nat (length (lg_outputs L))) (map of_nat js) (th_output t) = (Inr (), m)"
    "pmmr_rep B R OUTPUT_SIZE OutputIdentifier_Serialize commitment_valid es c (b + 1) m (identifiers L, identifiers S)"
    using pmmr_rewind [OF output_records r(1) [unfolded identifiers_def [of M]] L(1) _ j b] L(2) ids
    by (auto simp: identifiers_def)
  obtain p where p: "PMMR_Rewind R RANGE_PROOF_SIZE (of_nat (length (lg_outputs L))) (map of_nat js) (th_proof t) = (Inr (), p)"
    "pmmr_rep B R RANGE_PROOF_SIZE RangeProof_Serialize proof_valid es c (b + 1) p (proofs L, proofs S)"
    using pmmr_rewind [OF range_proof_records r(2) [unfolded proofs_def [of M]] L(1) _ j b] L(2) prs
    by (auto simp: proofs_def)
  have n: "length (lg_kernels L) < 2 ^ 50" using ranges_length(3) [OF rep] L(3) by simp
  then have "(of_nat (length (lg_kernels L)) :: u64) < 2 ^ 50" "unat (of_nat (length (lg_kernels L)) :: u64) = length (lg_kernels L)"
    by (simp_all add: word_less_nat_alt unat_of_nat_u64)
  then have "kernel_rep B (snd (KernelMMR_Rewind (of_nat (length (lg_kernels L))) (th_kernel t))) (lg_kernels L, lg_kernels S)"
    "fst (KernelMMR_Rewind (of_nat (length (lg_kernels L))) (th_kernel t)) = Inr ()"
    using kernel_rewind [OF r(3), of "of_nat (length (lg_kernels L))"] L(3,5) by simp_all
  then obtain k where "KernelMMR_Rewind (of_nat (length (lg_kernels L))) (th_kernel t) = (Inr (), k)" "kernel_rep B k (lg_kernels L, lg_kernels S)"
    by (metis prod.collapse)
  then show ?thesis using m p by (simp add: ranges_rep_def)
qed

lemma TxHashSet_Rewind_ok:
  assumes rep: "hash_set_rep B R es c b s (ledger_after L past) S" and b: "b + 1 \<le> 2 ^ 60"
    and chain: "undo_chain B G env header L (snd s) past" and ok: "ledger_ok L" "c \<le> length (lg_outputs L)"
    and es: "\<forall>i \<in> lg_unspent L. \<not> leaf_compacted es i"
    and hashes: "\<forall>block \<in> set past. \<not> BigInteger_equal (Header_GetHash (fb_header block)) (Header_GetHash header)"
    and tip: "th_header (fst s) = Some (tip_of header past)"
    and n: "Header_GetNumOutputs header = of_nat (length (lg_outputs L))" "Header_GetNumKernels header = of_nat (length (lg_kernels L))"
  shows "\<exists>s'. TxHashSet_Rewind B R G header s = Some (Inr (), s') \<and> hash_set_rep B R es c (b + 1) s' L S \<and>
    th_header (fst s') = Some header \<and> other_rows (snd s') = other_rows (snd s)"
proof -
  let ?t = "InvalidateOutputBitmapCache (fst s)"
  have rep0: "hash_set_rep B R es c b (?t, snd s) (ledger_after L past) S" using rep by (simp add: mid_invalidate)
  have pos: "positions_ok (ledger_after L past) (row (bd_rocks (snd s)))" "open_batch (bd_rocks (snd s))"
    "positions_ok S (stored (bd_rocks (snd s)))"
    using rep by (simp_all add: mid_rep_def)
  have "th_header ?t = Some (tip_of header past)" using tip by (simp add: InvalidateOutputBitmapCache_def)
  then obtain js db where run: "rewind_blocks B G header [] (?t, snd s) = Some (Inr (map of_nat js), (?t\<lparr>th_header := Some header\<rparr>, db))"
    "{i \<in> lg_unspent (ledger_after L past) \<union> set js. i < length (lg_outputs L)} = lg_unspent L" "\<forall>j \<in> set js. j < 2 ^ 31"
    "positions_ok L (row (bd_rocks db))" "open_batch (bd_rocks db)" "stored (bd_rocks db) = stored (bd_rocks (snd s))"
    "other_rows db = other_rows (snd s)"
    using rewind_blocks_ok [OF chain pos(1,2) hashes _ ok(1), of ?t "[]"] by auto
  have "ranges_rep B R es c b ?t (ledger_after L past) S" by (rule mid_saved(1) [OF rep0, unfolded fst_conv])
  then obtain k m p where kmp: "KernelMMR_Rewind (of_nat (length (lg_kernels L))) (th_kernel ?t) = (Inr (), k)"
    "PMMR_Rewind R OUTPUT_SIZE (of_nat (length (lg_outputs L))) (map of_nat js) (th_output ?t) = (Inr (), m)"
    "PMMR_Rewind R RANGE_PROOF_SIZE (of_nat (length (lg_outputs L))) (map of_nat js) (th_proof ?t) = (Inr (), p)"
    "ranges_rep B R es c (b + 1) (?t\<lparr>th_kernel := k, th_output := m, th_proof := p\<rparr>) L S"
    using ranges_rewind [OF _ b ok(2) ledger_after_length ledger_after_prefix(3,1,2) run(2,3) es] by blast
  let ?s = "(?t\<lparr>th_header := Some header, th_kernel := k, th_output := m, th_proof := p\<rparr>, db)"
  have "TxHashSet_Rewind B R G header s = Some (Inr (), ?s)"
    using run(1) kmp(1-3) by (simp add: TxHashSet_Rewind_def on_kernel_def on_output_def on_proof_def n)
  moreover have "hash_set_rep B R es c (b + 1) ?s L S"
    using kmp(4) run(4-6) pos(3) by (simp add: mid_rep_def ranges_rep_def)
  ultimately show ?thesis using run(7) by (intro exI [of _ ?s]) simp
qed

section \<open>What applying a block leaves behind\<close>

text \<open>A block that has been stored with the outputs it spends; besides positions, only its own rows have changed.\<close>

definition block_stored :: "FullBlock \<Rightarrow> ledger \<Rightarrow> BlockDB \<Rightarrow> BlockDB \<Rightarrow> bool" where
  "block_stored block L db db' \<longleftrightarrow>
     (\<exists>spent. map so_commitment spent = map i_commitment (b_inputs (fb_body block)) \<and> list_all (spent_record L) spent \<and>
        row (bd_rocks db') (''SPENT_OUTPUTS'', Header_GetHash (fb_header block)) = Some (SpentOutputs_Serialize spent)) \<and>
     row (bd_rocks db') (''BLOCK'', Header_GetHash (fb_header block)) = Some (FullBlock_Serialize V1 block) \<and>
     (\<forall>t k. t \<noteq> ''OUTPUT_POS'' \<longrightarrow> k \<noteq> Header_GetHash (fb_header block) \<or> t = ''HEADER'' \<longrightarrow>
        row (bd_rocks db') (t, k) = row (bd_rocks db) (t, k)) \<and>
     bd_headersCache db' = bd_headersCache db"

lemma block_stored_headers:
  "block_stored block L db db' \<Longrightarrow> GetBlockHeader B hash db' = GetBlockHeader B hash db"
  by (simp add: block_stored_def GetBlockHeader_def RocksDB_Get_def)

lemma block_stored_keeps:
  assumes "block_stored block L db db'" "Header_GetHash (fb_header b) \<noteq> Header_GetHash (fb_header block)"
  shows "undoable B G b previous M db' = undoable B G b previous M db"
proof -
  have "row (bd_rocks db') (''BLOCK'', Header_GetHash (fb_header b)) = row (bd_rocks db) (''BLOCK'', Header_GetHash (fb_header b))"
    "row (bd_rocks db') (''SPENT_OUTPUTS'', Header_GetHash (fb_header b)) = row (bd_rocks db) (''SPENT_OUTPUTS'', Header_GetHash (fb_header b))"
    using assms by (simp_all add: block_stored_def)
  then show ?thesis
    using block_stored_headers [OF assms(1)] by (simp add: undoable_def GetBlock_def GetSpentPositions_def RocksDB_Get_def)
qed

lemma block_stored_keeps_chain:
  assumes "block_stored block L db db'" "\<forall>b \<in> set past. Header_GetHash (fb_header b) \<noteq> Header_GetHash (fb_header block)"
  shows "undo_chain B G env header M db' past = undo_chain B G env header M db past"
  using assms by (induction past) (simp_all add: block_stored_keeps)

lemma BuildMap_lookup:
  assumes "distinct (map so_commitment outs)" "x \<in> set outs"
  shows "SpentOutputs_BuildMap outs (so_commitment x) = Some (so_location x)"
proof -
  have fold: "fold (\<lambda>out m. if m (so_commitment out) = None then m(so_commitment out \<mapsto> so_location out) else m) outs m k =
      (case m k of Some l \<Rightarrow> Some l | None \<Rightarrow> map_of (map (\<lambda>out. (so_commitment out, so_location out)) outs) k)" for m k
    by (induction outs arbitrary: m) (auto split: option.split)
  have "map_of (map (\<lambda>out. (so_commitment out, so_location out)) outs) (so_commitment x) = Some (so_location x)"
    using assms by (intro map_of_is_SomeI) (simp_all add: comp_def)
  then show ?thesis by (simp add: SpentOutputs_BuildMap_def fold)
qed

definition block_valid :: "(bytes \<Rightarrow> bytes) \<Rightarrow> (bytes \<Rightarrow> u8) \<Rightarrow> FullBlock \<Rightarrow> bool" where
  "block_valid B G block \<longleftrightarrow>
     header_valid B (fb_header block) \<and> body_valid B G V1 (fb_body block) \<and> body_ok (fb_body block) \<and>
     length (b_inputs (fb_body block)) < 2 ^ 16 \<and> length (FullBlock_Serialize V1 block) < 2 ^ 63"

lemma block_stored_undoable:
  assumes st: "block_stored block L db db'" and valid: "block_valid B G block" and L: "ledger_ok L"
    and prev: "GetBlockHeader B (h_previousBlockHash (fb_header block)) db = Inr (Some previous)"
  shows "undoable B G block previous L db'"
proof -
  let ?hash = "Header_GetHash (fb_header block)" and ?cs = "map i_commitment (b_inputs (fb_body block))"
  obtain spent where spent: "map so_commitment spent = ?cs" "list_all (spent_record L) spent"
    "row (bd_rocks db') (''SPENT_OUTPUTS'', ?hash) = Some (SpentOutputs_Serialize spent)"
    using st unfolding block_stored_def by blast
  have ok: "distinct ?cs" "\<forall>c \<in> set ?cs. length c = 33" "length spent < 2 ^ 16"
    using valid arg_cong [OF spent(1), of length] by (simp_all add: block_valid_def body_ok_def list_all_iff)
  have "GetBlock B G ?hash db' = Inr (Some block)"
    using st valid unfolding block_stored_def GetBlock_def
    by (intro block_table.get_stored) (simp_all add: block_valid_def)
  moreover have outs: "\<forall>x \<in> set spent. location_valid (so_location x) \<and> length (so_commitment x) = 33"
  proof
    fix x assume x: "x \<in> set spent"
    then have "so_commitment x \<in> set ?cs" by (metis image_eqI list.set_map spent(1))
    moreover obtain i where "i \<in> lg_unspent L" "so_location x = location_at L i"
      using spent(2) x by (auto simp: list_all_iff spent_record_def)
    ultimately show "location_valid (so_location x) \<and> length (so_commitment x) = 33"
      using ok(2) L location_at_valid [of i] by (fastforce simp: ledger_ok_def)
  qed
  then have "GetSpentPositions ?hash db' = Inr (SpentOutputs_BuildMap spent)"
    using spent_table.get_stored [OF spent(3)] ok(3) length_spent_outputs [of spent] by (simp add: GetSpentPositions_def)
  moreover have "SpentOutputs_BuildMap spent (commit_at L i) = Some (location_at L i)" if i: "i \<in> spent_by ?cs L" for i
  proof -
    have "commit_at L i \<in> set (map so_commitment spent)" using i unfolding spent(1) by (simp add: spent_by_def)
    then obtain x where x: "x \<in> set spent" "so_commitment x = commit_at L i" by auto
    then obtain j where j: "j \<in> lg_unspent L" "so_commitment x = commit_at L j" "so_location x = location_at L j"
      using spent(2) by (auto simp: list_all_iff spent_record_def)
    have "j = i" using j(1,2) x(2) i L by (intro inj_onD [of "commit_at L" "lg_unspent L"]) (simp_all add: ledger_ok_def spent_by_def)
    then show ?thesis using BuildMap_lookup [OF _ x(1)] ok(1) spent(1) x(2) j(3) by simp
  qed
  moreover have "GetBlockHeader B (h_previousBlockHash (fb_header block)) db' = Inr (Some previous)"
    using prev block_stored_headers [OF st] by simp
  ultimately show ?thesis unfolding undoable_def by blast
qed

end
