(* ===== verification/Chain.thy ===== *)
theory Chain
  imports Files Serialization
begin

text \<open>
  The chains of block hashes: \<^verbatim>\<open>src/BlockChain/Chain.cpp\<close> with the indices of \<^verbatim>\<open>include/BlockChain/Chain.h\<close>, and the pair
  of them in \<^verbatim>\<open>src/BlockChain/ChainStore.cpp\<close>. A chain keeps the hash of the block at each height, in memory and in a
  file of records. The allocator of indices looks for an equal index in the chains registered with it; a chain never
  finds one in itself, so the other chains are an argument. An operation without the writer that a batch opens
  follows a null pointer (\<open>Undefined\<close>), as does an access to an index outside the vector.
\<close>

section \<open>Chains\<close>

record BlockIndex =
  bi_hash :: bytes
  bi_height :: u64

record Chain =
  ch_indices :: "BlockIndex list"
  ch_height :: u64
  ch_dataFile :: DataFile
  ch_writing :: bool
  ch_dirty :: bool

definition GetByHeight :: "u64 \<Rightarrow> Chain \<Rightarrow> BlockIndex option" where
  "GetByHeight height ch =
     (if height \<le> ch_height ch \<and> height < of_nat (length (ch_indices ch)) then Some (ch_indices ch ! unat height) else None)"

definition index_at :: "u64 \<Rightarrow> Chain \<Rightarrow> BlockIndex result" where
  "index_at height ch =
     (if unat height < length (ch_indices ch) then Inr (ch_indices ch ! unat height) else Inl Undefined)"

definition Chain_GetHash :: "u64 \<Rightarrow> Chain \<Rightarrow> bytes result" where
  "Chain_GetHash height ch = rbind (index_at height ch) (\<lambda>i. Inr (bi_hash i))"

definition GetTip :: "Chain \<Rightarrow> BlockIndex result" where
  "GetTip ch = index_at (ch_height ch) ch"

definition GetTipHash :: "Chain \<Rightarrow> bytes result" where
  "GetTipHash ch = rbind (GetTip ch) (\<lambda>i. Inr (bi_hash i))"

definition IsOnChain :: "u64 \<Rightarrow> bytes \<Rightarrow> Chain \<Rightarrow> bool result" where
  "IsOnChain height hash ch =
     (if height \<le> ch_height ch then rbind (Chain_GetHash height ch) (\<lambda>h. Inr (BigInteger_equal h hash)) else Inr False)"

fun GetOrCreateIndex :: "Chain list \<Rightarrow> bytes \<Rightarrow> u64 \<Rightarrow> BlockIndex" where
  "GetOrCreateIndex [] hash height = \<lparr>bi_hash = hash, bi_height = height\<rparr>"
| "GetOrCreateIndex (ch # others) hash height =
     (case GetByHeight height ch of
        None \<Rightarrow> GetOrCreateIndex others hash height
      | Some i \<Rightarrow> if BigInteger_equal (bi_hash i) hash then i else GetOrCreateIndex others hash height)"

text \<open>The loop that reads the indices from the file, from the number of those already there.\<close>

function load_indices :: "Chain list \<Rightarrow> DataFile \<Rightarrow> BlockIndex list \<Rightarrow> BlockIndex list result" where
  "load_indices others d indices =
     (if length indices < unat (DataFile_GetSize 32 d)
      then rbind (GetDataAt 32 (of_nat (length indices)) d) (\<lambda>hash.
             load_indices others d (indices @ [GetOrCreateIndex others hash (of_nat (length indices))]))
      else Inr indices)"
  by pat_completeness auto
termination by (relation "measure (\<lambda>(others, d, indices). unat (DataFile_GetSize 32 d) - length indices)") auto

declare load_indices.simps [simp del]

text \<open>The first argument tells whether the file can be opened for writing.\<close>

definition Chain_Load :: "bool \<Rightarrow> Chain list \<Rightarrow> bytes \<Rightarrow> BlockIndex \<Rightarrow> Chain result" where
  "Chain_Load is_open others file genesis =
     (let d = DataFile_Load file
      in rbind (if DataFile_GetSize 32 d = 0
                then (case DataFile_Commit is_open (AddData (bi_hash genesis) d) of (r, d) \<Rightarrow> rbind r (\<lambda>_. Inr d))
                else Inr d) (\<lambda>d.
         rbind (load_indices others d [genesis]) (\<lambda>indices.
           Inr \<lparr>ch_indices = indices, ch_height = of_nat (length indices) - 1, ch_dataFile = d, ch_writing = False,
                ch_dirty = False\<rparr>)))"

definition Chain_AddBlock :: "Chain list \<Rightarrow> bytes \<Rightarrow> u64 \<Rightarrow> Chain \<Rightarrow> unit result \<times> Chain" where
  "Chain_AddBlock others hash height ch =
     (if height \<noteq> ch_height ch + 1 then (Inl BlockChainException, ch)
      else
        let ch = ch\<lparr>ch_dirty := True, ch_indices := ch_indices ch @ [GetOrCreateIndex others hash height]\<rparr>
        in if \<not> ch_writing ch then (Inl Undefined, ch)
           else (Inr (), ch\<lparr>ch_dataFile := AddData (bi_hash (last (ch_indices ch))) (ch_dataFile ch),
                            ch_height := ch_height ch + 1\<rparr>))"

definition Chain_Rewind :: "u64 \<Rightarrow> Chain \<Rightarrow> unit result \<times> Chain" where
  "Chain_Rewind lastHeight ch =
     (if ch_height ch < lastHeight then (Inl BlockChainException, ch)
      else if lastHeight < ch_height ch then
        let ch = ch\<lparr>ch_dirty := True, ch_indices := take (unat (lastHeight + 1)) (ch_indices ch)\<rparr>
        in if \<not> ch_writing ch then (Inl Undefined, ch)
           else
             (case DataFile_Rewind 32 (lastHeight + 1) (ch_dataFile ch) of
                (Inl e, d) \<Rightarrow> (Inl e, ch\<lparr>ch_dataFile := d\<rparr>)
              | (Inr _, d) \<Rightarrow> (Inr (), ch\<lparr>ch_dataFile := d, ch_height := lastHeight\<rparr>))
      else (Inr (), ch))"

definition Chain_Commit :: "bool \<Rightarrow> Chain \<Rightarrow> unit result \<times> Chain" where
  "Chain_Commit is_open ch =
     (if ch_dirty ch then
        if \<not> ch_writing ch then (Inl Undefined, ch)
        else
          (case DataFile_Commit is_open (ch_dataFile ch) of
             (Inl e, d) \<Rightarrow> (Inl e, ch\<lparr>ch_dataFile := d\<rparr>)
           | (Inr _, d) \<Rightarrow> (Inr (), ch\<lparr>ch_dataFile := d, ch_dirty := False\<rparr>))
      else (Inr (), ch\<lparr>ch_dirty := False\<rparr>))"

text \<open>An exception while the indices are read again ends the program: the operation is declared not to throw.\<close>

definition Chain_Rollback :: "Chain list \<Rightarrow> Chain \<Rightarrow> Chain option" where
  "Chain_Rollback others ch =
     (if ch_dirty ch then
        if \<not> ch_writing ch then None
        else
          let d = DataFile_Rollback (ch_dataFile ch)
          in case load_indices others d [] of
               Inl e \<Rightarrow> None
             | Inr indices \<Rightarrow>
                 Some (ch\<lparr>ch_dataFile := d, ch_indices := indices, ch_height := of_nat (length indices) - 1, ch_dirty := False\<rparr>)
      else Some (ch\<lparr>ch_dirty := False\<rparr>))"

definition Chain_OnInitWrite :: "Chain \<Rightarrow> Chain" where
  "Chain_OnInitWrite ch = ch\<lparr>ch_dirty := False, ch_dataFile := (ch_dataFile ch)\<lparr>df_dirty := True\<rparr>, ch_writing := True\<rparr>"

text \<open>The writer of the file is given up, which rolls the file back.\<close>

definition Chain_OnEndWrite :: "Chain \<Rightarrow> Chain" where
  "Chain_OnEndWrite ch =
     (if ch_writing ch then ch\<lparr>ch_dataFile := DataFile_Rollback (ch_dataFile ch), ch_writing := False\<rparr> else ch)"

section \<open>The store of the two chains\<close>

datatype EChainType = CANDIDATE | CONFIRMED

record ChainStore =
  cs_confirmed :: Chain
  cs_candidate :: Chain

fun GetChain :: "EChainType \<Rightarrow> ChainStore \<Rightarrow> Chain" where
  "GetChain CONFIRMED cs = cs_confirmed cs"
| "GetChain CANDIDATE cs = cs_candidate cs"

fun set_chain :: "EChainType \<Rightarrow> Chain \<Rightarrow> ChainStore \<Rightarrow> ChainStore" where
  "set_chain CONFIRMED ch cs = cs\<lparr>cs_confirmed := ch\<rparr>"
| "set_chain CANDIDATE ch cs = cs\<lparr>cs_candidate := ch\<rparr>"

fun other_chains :: "EChainType \<Rightarrow> ChainStore \<Rightarrow> Chain list" where
  "other_chains CONFIRMED cs = [cs_candidate cs]"
| "other_chains CANDIDATE cs = [cs_confirmed cs]"

definition on_chain :: "EChainType \<Rightarrow> (Chain list \<Rightarrow> Chain \<Rightarrow> 'a \<times> Chain) \<Rightarrow> ChainStore \<Rightarrow> 'a \<times> ChainStore" where
  "on_chain ty f cs = (case f (other_chains ty cs) (GetChain ty cs) of (r, ch) \<Rightarrow> (r, set_chain ty ch cs))"

definition ChainStore_Load :: "bool \<Rightarrow> bool \<Rightarrow> bytes \<Rightarrow> bytes \<Rightarrow> BlockIndex \<Rightarrow> ChainStore result" where
  "ChainStore_Load open1 open2 confirmed candidate genesis =
     rbind (Chain_Load open1 [] confirmed genesis) (\<lambda>c1.
     rbind (Chain_Load open2 [c1] candidate genesis) (\<lambda>c2.
       Inr \<lparr>cs_confirmed = c1, cs_candidate = c2\<rparr>))"

definition ChainStore_Commit :: "bool \<Rightarrow> bool \<Rightarrow> ChainStore \<Rightarrow> unit result \<times> ChainStore" where
  "ChainStore_Commit open1 open2 cs =
     (case Chain_Commit open2 (cs_candidate cs) of
        (Inl e, ch) \<Rightarrow> (Inl e, cs\<lparr>cs_candidate := ch\<rparr>)
      | (Inr _, ch) \<Rightarrow>
          let cs = cs\<lparr>cs_candidate := ch\<rparr>
          in (case Chain_Commit open1 (cs_confirmed cs) of (r, ch) \<Rightarrow> (r, cs\<lparr>cs_confirmed := ch\<rparr>)))"

definition ChainStore_Rollback :: "ChainStore \<Rightarrow> ChainStore option" where
  "ChainStore_Rollback cs =
     (case Chain_Rollback [cs_confirmed cs] (cs_candidate cs) of
        None \<Rightarrow> None
      | Some candidate \<Rightarrow>
          map_option (\<lambda>confirmed. \<lparr>cs_confirmed = confirmed, cs_candidate = candidate\<rparr>)
            (Chain_Rollback [candidate] (cs_confirmed cs)))"

definition ChainStore_OnInitWrite :: "ChainStore \<Rightarrow> ChainStore" where
  "ChainStore_OnInitWrite cs =
     \<lparr>cs_confirmed = Chain_OnInitWrite (cs_confirmed cs), cs_candidate = Chain_OnInitWrite (cs_candidate cs)\<rparr>"

definition ChainStore_OnEndWrite :: "ChainStore \<Rightarrow> ChainStore" where
  "ChainStore_OnEndWrite cs =
     \<lparr>cs_confirmed = Chain_OnEndWrite (cs_confirmed cs), cs_candidate = Chain_OnEndWrite (cs_candidate cs)\<rparr>"

text \<open>The search for the last common block goes down; below the first block the height wraps around.\<close>

partial_function (option) find_common :: "Chain \<Rightarrow> Chain \<Rightarrow> u64 \<Rightarrow> BlockIndex result option" where
  "find_common chain1 chain2 height =
     (case (GetByHeight height chain1, GetByHeight height chain2) of
        (Some i, Some j) \<Rightarrow>
          if BigInteger_equal (bi_hash i) (bi_hash j) then Some (Inr i) else find_common chain1 chain2 (height - 1)
      | _ \<Rightarrow> Some (Inl Undefined))"

definition FindCommonIndex :: "EChainType \<Rightarrow> EChainType \<Rightarrow> ChainStore \<Rightarrow> BlockIndex result option" where
  "FindCommonIndex ty1 ty2 cs =
     (let chain1 = GetChain ty1 cs; chain2 = GetChain ty2 cs
      in find_common chain1 chain2 (min (ch_height chain1) (ch_height chain2)))"

fun copy_blocks :: "EChainType \<Rightarrow> EChainType \<Rightarrow> u64 list \<Rightarrow> ChainStore \<Rightarrow> unit result \<times> ChainStore" where
  "copy_blocks source destination [] cs = (Inr (), cs)"
| "copy_blocks source destination (i # is) cs =
     (case Chain_GetHash i (GetChain source cs) of
        Inl e \<Rightarrow> (Inl e, cs)
      | Inr hash \<Rightarrow>
          (case on_chain destination (\<lambda>others. Chain_AddBlock others hash i) cs of
             (Inl e, cs) \<Rightarrow> (Inl e, cs)
           | (Inr _, cs) \<Rightarrow> copy_blocks source destination is cs))"

definition ReorgChain :: "EChainType \<Rightarrow> EChainType \<Rightarrow> u64 \<Rightarrow> ChainStore \<Rightarrow> (unit result \<times> ChainStore) option" where
  "ReorgChain source destination height cs =
     (if ch_height (GetChain source cs) < height then Some (Inl BlockChainException, cs)
      else
        case FindCommonIndex source destination cs of
          None \<Rightarrow> None
        | Some (Inl e) \<Rightarrow> Some (Inl e, cs)
        | Some (Inr i) \<Rightarrow>
            let commonHeight = min (bi_height i) height
            in Some (case on_chain destination (\<lambda>others. Chain_Rewind commonHeight) cs of
                 (Inl e, cs) \<Rightarrow> (Inl e, cs)
               | (Inr _, cs) \<Rightarrow>
                   copy_blocks source destination (map of_nat [Suc (unat commonHeight)..<Suc (unat height)]) cs))"

definition ReorgChain_tip :: "EChainType \<Rightarrow> EChainType \<Rightarrow> ChainStore \<Rightarrow> (unit result \<times> ChainStore) option" where
  "ReorgChain_tip source destination cs = ReorgChain source destination (ch_height (GetChain source cs)) cs"

definition ChainStore_AddBlock :: "EChainType \<Rightarrow> EChainType \<Rightarrow> u64 \<Rightarrow> ChainStore \<Rightarrow> unit result \<times> ChainStore" where
  "ChainStore_AddBlock source destination height cs =
     (case (GetTip (GetChain destination cs), GetTip (GetChain source cs)) of
        (Inr d, Inr s) \<Rightarrow>
          if bi_height d + 1 = height \<and> height \<le> bi_height s then
            (case Chain_GetHash height (GetChain source cs) of
               Inl e \<Rightarrow> (Inl e, cs)
             | Inr hash \<Rightarrow> on_chain destination (\<lambda>others. Chain_AddBlock others hash height) cs)
          else (Inl BlockChainException, cs)
      | _ \<Rightarrow> (Inl Undefined, cs))"

section \<open>A chain is a list of hashes\<close>

definition index_list :: "bytes list \<Rightarrow> BlockIndex list" where
  "index_list hs = map (\<lambda>i. \<lparr>bi_hash = hs ! i, bi_height = of_nat i\<rparr>) [0..<length hs]"

definition hashes_ok :: "bytes list \<Rightarrow> bool" where
  "hashes_ok hs \<longleftrightarrow> hs \<noteq> [] \<and> length hs < 2 ^ 32 \<and> list_all (\<lambda>h. length h = 32) hs"

text \<open>The hashes a chain shows, and those it has saved.\<close>

definition chain_rep :: "Chain \<Rightarrow> bytes list \<times> bytes list \<Rightarrow> bool" where
  "chain_rep ch = (\<lambda>(hs, saved).
     hashes_ok hs \<and> hashes_ok saved \<and> ch_indices ch = index_list hs \<and> ch_height ch = of_nat (length hs - 1) \<and>
     ch_writing ch \<and> aligned 32 (ch_dataFile ch) \<and> records 32 (data_view (ch_dataFile ch)) = hs \<and>
     32 dvd length (data_saved (ch_dataFile ch)) \<and> records 32 (data_saved (ch_dataFile ch)) = saved \<and>
     (\<not> ch_dirty ch \<longrightarrow> hs = saved))"

lemma index_list_length [simp]: "length (index_list hs) = length hs"
  by (simp add: index_list_def)

lemma index_list_nth [simp]: "i < length hs \<Longrightarrow> index_list hs ! i = \<lparr>bi_hash = hs ! i, bi_height = of_nat i\<rparr>"
  by (simp add: index_list_def)

lemma index_list_snoc: "index_list (hs @ [h]) = index_list hs @ [\<lparr>bi_hash = h, bi_height = of_nat (length hs)\<rparr>]"
  by (rule nth_equalityI) (auto simp: nth_append less_Suc_eq)

lemma index_list_take: "take k (index_list hs) = index_list (take k hs)"
  by (rule nth_equalityI) (auto simp: min_def split: if_splits)

text \<open>What the other chains hold does not matter: an index is its hash and its height.\<close>

definition indices_ok :: "Chain \<Rightarrow> bool" where
  "indices_ok ch \<longleftrightarrow> (\<exists>hs. hashes_ok hs \<and> ch_indices ch = index_list hs)"

lemma GetOrCreateIndex_value:
  "list_all indices_ok others \<Longrightarrow> length hash = 32 \<Longrightarrow>
   GetOrCreateIndex others hash height = \<lparr>bi_hash = hash, bi_height = height\<rparr>"
proof (induction others)
  case (Cons ch others)
  show ?case
  proof (cases "GetByHeight height ch")
    case (Some i)
    obtain hs where hs: "hashes_ok hs" "ch_indices ch = index_list hs" using Cons.prems(1) by (auto simp: indices_ok_def)
    have "unat height < length hs"
      using Some hs by (auto simp: GetByHeight_def hashes_ok_def word_less_nat_alt unat_of_nat_u64 split: if_splits)
    moreover from this have "i = \<lparr>bi_hash = hs ! unat height, bi_height = height\<rparr>" "length (hs ! unat height) = 32"
      using Some hs by (auto simp: GetByHeight_def hashes_ok_def list_all_length split: if_splits)
    ultimately show ?thesis using Some Cons by (auto simp: BigInteger_equal_iff)
  qed (use Cons in simp)
qed simp

lemma chain_rep_indices: "chain_rep ch hs \<Longrightarrow> indices_ok ch"
  by (auto simp: chain_rep_def indices_ok_def split: prod.splits)

lemma chain_rep_height:
  assumes "chain_rep ch (hs, saved)"
  shows "Suc (unat (ch_height ch)) = length hs" "ch_height ch + 1 = of_nat (length hs)" "0 < length hs" "length hs < 2 ^ 32"
proof -
  have h: "ch_height ch = of_nat (length hs - 1)" and len: "hs \<noteq> []" "length hs < 2 ^ 32"
    using assms by (simp_all add: chain_rep_def hashes_ok_def)
  then show "Suc (unat (ch_height ch)) = length hs" by (cases hs) (simp_all add: unat_of_nat_u64)
  show "ch_height ch + 1 = of_nat (length hs)" using h len(1) by (cases hs) simp_all
qed (use assms in \<open>simp_all add: chain_rep_def hashes_ok_def\<close>)

text \<open>Lookups.\<close>

lemma index_at_rep:
  "chain_rep ch (hs, saved) \<Longrightarrow>
   index_at height ch = (if unat height < length hs then Inr \<lparr>bi_hash = hs ! unat height, bi_height = height\<rparr> else Inl Undefined)"
  by (simp add: index_at_def chain_rep_def)

lemma GetByHeight_rep:
  assumes "chain_rep ch (hs, saved)"
  shows "GetByHeight height ch =
    (if unat height < length hs then Some \<lparr>bi_hash = hs ! unat height, bi_height = height\<rparr> else None)"
proof -
  note h = chain_rep_height [OF assms]
  have "height \<le> ch_height ch \<longleftrightarrow> unat height < length hs" using h(1) by (auto simp: word_le_nat_alt)
  moreover have "height < of_nat (length (ch_indices ch)) \<longleftrightarrow> unat height < length hs"
    using assms h(4) by (simp add: chain_rep_def word_less_nat_alt unat_of_nat_u64)
  moreover have "ch_indices ch = index_list hs" using assms by (simp add: chain_rep_def)
  ultimately show ?thesis by (simp add: GetByHeight_def)
qed

lemma GetTipHash_rep:
  assumes "chain_rep ch (hs, saved)"
  shows "GetTipHash ch = Inr (last hs)"
proof -
  note h = chain_rep_height(1,3) [OF assms]
  have "unat (ch_height ch) = length hs - 1" using h(1) by simp
  then show ?thesis using h(2) index_at_rep [OF assms] by (simp add: GetTipHash_def GetTip_def last_conv_nth)
qed

lemma IsOnChain_rep:
  assumes rep: "chain_rep ch (hs, saved)" and len: "length hash = 32"
  shows "IsOnChain height hash ch = Inr (unat height < length hs \<and> hs ! unat height = hash)"
proof -
  note h = chain_rep_height [OF rep]
  have le: "height \<le> ch_height ch \<longleftrightarrow> unat height < length hs" using h(1) by (auto simp: word_le_nat_alt)
  have "length (hs ! unat height) = 32" if "unat height < length hs"
    using rep that by (simp add: chain_rep_def hashes_ok_def list_all_length)
  then show ?thesis
    using index_at_rep [OF rep, of height] len by (simp add: IsOnChain_def Chain_GetHash_def le BigInteger_equal_iff)
qed

text \<open>Changes.\<close>

lemma hashes_ok_snoc: "hashes_ok hs \<Longrightarrow> length h = 32 \<Longrightarrow> length hs + 1 < 2 ^ 32 \<Longrightarrow> hashes_ok (hs @ [h])"
  by (simp add: hashes_ok_def)

lemma aligned_bound:
  assumes "aligned 32 d" "length (records 32 (data_view d)) < 2 ^ 32"
  shows "length (data_view d) + 32 < 2 ^ 62"
proof -
  obtain k where k: "length (data_view d) = 32 * k" using assms(1) by (auto simp: aligned_def elim: dvdE)
  then show ?thesis using assms(2) by (simp add: length_records)
qed

lemma AddBlock_rep:
  assumes rep: "chain_rep ch (hs, saved)" and others: "list_all indices_ok others"
    and hash: "length hash = 32" and n: "length hs + 1 < 2 ^ 32"
  shows "\<exists>ch'. Chain_AddBlock others hash (of_nat (length hs)) ch = (Inr (), ch') \<and> chain_rep ch' (hs @ [hash], saved)"
proof -
  note h = chain_rep_height [OF rep]
  have r: "hashes_ok hs" "hashes_ok saved" "ch_indices ch = index_list hs" "ch_writing ch" "aligned 32 (ch_dataFile ch)"
    "records 32 (data_view (ch_dataFile ch)) = hs" "32 dvd length (data_saved (ch_dataFile ch))"
    "records 32 (data_saved (ch_dataFile ch)) = saved"
    using rep by (simp_all add: chain_rep_def)
  have "length (data_view (ch_dataFile ch)) + 32 < 2 ^ 62" using aligned_bound [OF r(5)] r(6) n by simp
  note add = AddData_aligned [OF r(5) hash this]
  let ?i = "\<lparr>bi_hash = hash, bi_height = of_nat (length hs)\<rparr>"
  let ?ch = "ch\<lparr>ch_dirty := True, ch_indices := ch_indices ch @ [?i],
      ch_dataFile := AddData hash (ch_dataFile ch), ch_height := ch_height ch + 1\<rparr>"
  have "Chain_AddBlock others hash (of_nat (length hs)) ch = (Inr (), ?ch)"
    using h(2) r(4) GetOrCreateIndex_value [OF others hash] by (simp add: Chain_AddBlock_def)
  moreover have "chain_rep ?ch (hs @ [hash], saved)"
    using r add h(2,3) hashes_ok_snoc [OF r(1) hash n] by (simp add: chain_rep_def index_list_snoc AddData_def AppendOnlyFile_Append_def)
  ultimately show ?thesis by blast
qed

lemma Chain_Rewind_rep:
  assumes rep: "chain_rep ch (hs, saved)" and k: "k < length hs"
  shows "\<exists>ch'. Chain_Rewind (of_nat k) ch = (Inr (), ch') \<and> chain_rep ch' (take (Suc k) hs, saved)"
proof -
  note h = chain_rep_height [OF rep]
  have r: "hashes_ok hs" "hashes_ok saved" "ch_indices ch = index_list hs" "ch_writing ch" "aligned 32 (ch_dataFile ch)"
    "records 32 (data_view (ch_dataFile ch)) = hs" "32 dvd length (data_saved (ch_dataFile ch))"
    "records 32 (data_saved (ch_dataFile ch)) = saved"
    using rep by (simp_all add: chain_rep_def)
  have uk: "unat (of_nat k :: u64) = k" "unat (of_nat k + 1 :: u64) = Suc k"
    using k h(4) unat_of_nat_u64 [of k] unat_of_nat_u64 [of "Suc k"] by (simp_all add: add.commute)
  have lt: "(of_nat k < ch_height ch) = (Suc k < length hs)" "\<not> ch_height ch < of_nat k"
    using k h(1) uk(1) by (auto simp: word_less_nat_alt)
  show ?thesis
  proof (cases "Suc k < length hs")
    case True
    obtain d where d: "DataFile_Rewind 32 (of_nat k + 1) (ch_dataFile ch) = (Inr (), d)" "aligned 32 d"
      "records 32 (data_view d) = take (Suc k) hs" "data_saved d = data_saved (ch_dataFile ch)"
      using DataFile_Rewind_view [OF r(5), of "of_nat k + 1"] r(6) k uk(2) by auto
    let ?ch = "ch\<lparr>ch_dirty := True, ch_indices := index_list (take (Suc k) hs), ch_dataFile := d, ch_height := of_nat k\<rparr>"
    have "Chain_Rewind (of_nat k) ch = (Inr (), ?ch)"
      using lt True r(3,4) d(1) uk(2) by (simp add: Chain_Rewind_def index_list_take)
    moreover have "hashes_ok (take (Suc k) hs)" using r(1) by (auto simp: hashes_ok_def list_all_length)
    then have "chain_rep ?ch (take (Suc k) hs, saved)" using r d True by (simp add: chain_rep_def min_def)
    ultimately show ?thesis by blast
  next
    case False
    then show ?thesis using lt k rep by (simp add: Chain_Rewind_def)
  qed
qed

lemma load_indices_rep:
  assumes "aligned 32 d" "records 32 (data_view d) = hs" "hashes_ok hs" "list_all indices_ok others"
  shows "k \<le> length hs \<Longrightarrow> load_indices others d (index_list (take k hs)) = Inr (index_list hs)"
proof (induction "length hs - k" arbitrary: k)
  case 0
  then show ?case using GetSize_records [OF assms(1)] assms(2) by (simp add: load_indices.simps)
next
  case (Suc m)
  have n: "length hs < 2 ^ 32" using assms(3) by (simp add: hashes_ok_def)
  have k: "k < length hs" using Suc.hyps(2) by simp
  then have uk: "unat (of_nat k :: u64) = k" using n by (simp add: unat_of_nat_u64)
  have "GetDataAt 32 (of_nat k) d = Inr (hs ! k)"
    using GetDataAt_view [OF assms(1), of "of_nat k"] assms(2) k n uk by simp
  moreover have "length (hs ! k) = 32" using assms(3) k by (simp add: hashes_ok_def list_all_length)
  ultimately have "load_indices others d (index_list (take k hs)) = load_indices others d (index_list (take (Suc k) hs))"
    using GetSize_records [OF assms(1)] assms(2) k GetOrCreateIndex_value [OF assms(4)]
    by (subst load_indices.simps) (simp add: take_Suc_conv_app_nth index_list_snoc min_def)
  then show ?case using Suc.hyps(1) [of "Suc k"] Suc.hyps(2) k by simp
qed

lemma Commit_rep:
  assumes rep: "chain_rep ch (hs, saved)"
  shows "\<exists>ch'. Chain_Commit True ch = (Inr (), ch') \<and> chain_rep ch' (hs, hs)"
proof (cases "ch_dirty ch")
  case True
  have r: "data_inv (ch_dataFile ch)" "ch_writing ch" using rep by (simp_all add: chain_rep_def aligned_def)
  note d = DataFile_Commit_True [OF r(1)] data.commit_inv [OF r(1)] data.commit_view [OF r(1)] data.commit_saved [OF r(1)]
  have "Chain_Commit True ch = (Inr (), ch\<lparr>ch_dataFile := data_commit (ch_dataFile ch), ch_dirty := False\<rparr>)"
    using True r(2) d(1) by (simp add: Chain_Commit_def)
  moreover have "chain_rep (ch\<lparr>ch_dataFile := data_commit (ch_dataFile ch), ch_dirty := False\<rparr>) (hs, hs)"
    using rep d by (simp add: chain_rep_def aligned_def)
  ultimately show ?thesis by blast
next
  case False
  then show ?thesis using rep by (auto simp: Chain_Commit_def chain_rep_def)
qed

lemma Rollback_rep:
  assumes rep: "chain_rep ch (hs, saved)" and others: "list_all indices_ok others"
  shows "\<exists>ch'. Chain_Rollback others ch = Some ch' \<and> chain_rep ch' (saved, saved)"
proof (cases "ch_dirty ch")
  case True
  have r: "data_inv (ch_dataFile ch)" "ch_writing ch" "hashes_ok saved" "32 dvd length (data_saved (ch_dataFile ch))"
    "records 32 (data_saved (ch_dataFile ch)) = saved"
    using rep by (simp_all add: chain_rep_def aligned_def)
  let ?d = "DataFile_Rollback (ch_dataFile ch)"
  note d = data.rollback_inv [OF r(1)] data.rollback_view [OF r(1)] data.rollback_saved [OF r(1)]
  have al: "aligned 32 ?d" "records 32 (data_view ?d) = saved" using d r(4,5) by (simp_all add: aligned_def)
  have "load_indices others ?d [] = Inr (index_list saved)"
    using load_indices_rep [OF al r(3) others, of 0] by (simp add: index_list_def)
  then have "Chain_Rollback others ch = Some (ch\<lparr>ch_dataFile := ?d, ch_indices := index_list saved,
      ch_height := of_nat (length saved) - 1, ch_dirty := False\<rparr>)"
    using True r(2) by (simp add: Chain_Rollback_def)
  moreover have "of_nat (length saved) - 1 = (of_nat (length saved - 1) :: u64)"
    using r(3) by (simp add: hashes_ok_def Suc_leI of_nat_diff)
  ultimately show ?thesis using r al d by (simp add: chain_rep_def)
next
  case False
  then show ?thesis using rep by (auto simp: Chain_Rollback_def chain_rep_def)
qed

section \<open>Reorganisation\<close>

text \<open>The hash of a block determines the hashes below it.\<close>

definition follows :: "(bytes \<Rightarrow> bytes) \<Rightarrow> bytes list \<Rightarrow> bool" where
  "follows parent hs \<longleftrightarrow> (\<forall>i. Suc i < length hs \<longrightarrow> parent (hs ! Suc i) = hs ! i)"

lemma follows_prefix:
  assumes "follows parent hs" "follows parent ds"
  shows "k < length hs \<Longrightarrow> k < length ds \<Longrightarrow> hs ! k = ds ! k \<Longrightarrow> take (Suc k) hs = take (Suc k) ds"
proof (induction k)
  case 0
  then show ?case by (cases hs; cases ds) simp_all
next
  case (Suc k)
  have "hs ! k = ds ! k" using assms Suc.prems by (metis follows_def)
  then show ?case using Suc by (simp add: take_Suc_conv_app_nth)
qed

lemma find_common_rep:
  assumes c1: "chain_rep chain1 (hs, s1)" and c2: "chain_rep chain2 (ds, s2)" and gen: "hs ! 0 = ds ! 0"
  shows "h < length hs \<Longrightarrow> h < length ds \<Longrightarrow>
    \<exists>k \<le> h. hs ! k = ds ! k \<and> find_common chain1 chain2 (of_nat h) = Some (Inr \<lparr>bi_hash = hs ! k, bi_height = of_nat k\<rparr>)"
proof (induction h)
  case (0)
  then show ?case
    using GetByHeight_rep [OF c1] GetByHeight_rep [OF c2] gen by (subst find_common.simps) (simp add: BigInteger_equal_iff)
next
  case (Suc h)
  have u: "unat (of_nat (Suc h) :: u64) = Suc h" using Suc.prems(1) chain_rep_height(4) [OF c1] by (intro unat_of_nat_u64) simp
  have look: "GetByHeight (of_nat (Suc h)) chain1 = Some \<lparr>bi_hash = hs ! Suc h, bi_height = of_nat (Suc h)\<rparr>"
    "GetByHeight (of_nat (Suc h)) chain2 = Some \<lparr>bi_hash = ds ! Suc h, bi_height = of_nat (Suc h)\<rparr>"
    using GetByHeight_rep [OF c1, of "of_nat (Suc h)"] GetByHeight_rep [OF c2, of "of_nat (Suc h)"] u Suc.prems by simp_all
  have len: "length (hs ! Suc h) = length (ds ! Suc h)"
    using c1 c2 Suc.prems by (simp add: chain_rep_def hashes_ok_def list_all_length)
  show ?case
  proof (cases "hs ! Suc h = ds ! Suc h")
    case True
    then have "find_common chain1 chain2 (of_nat (Suc h)) = Some (Inr \<lparr>bi_hash = hs ! Suc h, bi_height = of_nat (Suc h)\<rparr>)"
      using look by (subst find_common.simps) (simp add: BigInteger_equal_iff del: of_nat_Suc)
    then show ?thesis using True by blast
  next
    case False
    have "of_nat (Suc h) - 1 = (of_nat h :: u64)" by simp
    then have "find_common chain1 chain2 (of_nat (Suc h)) = find_common chain1 chain2 (of_nat h)"
      using look False len by (subst find_common.simps) (simp add: BigInteger_equal_iff del: of_nat_Suc)
    moreover obtain k where "k \<le> h" "hs ! k = ds ! k"
      "find_common chain1 chain2 (of_nat h) = Some (Inr \<lparr>bi_hash = hs ! k, bi_height = of_nat k\<rparr>)"
      using Suc.IH Suc.prems by auto
    ultimately show ?thesis by (intro exI [of _ k]) simp
  qed
qed

lemma set_chain_simps [simp]:
  "GetChain ty (set_chain ty ch cs) = ch"
  "ty \<noteq> ty' \<Longrightarrow> GetChain ty' (set_chain ty ch cs) = GetChain ty' cs"
  by (cases ty; cases ty'; simp)+

lemma other_chains_eq: "ty \<noteq> ty' \<Longrightarrow> other_chains ty cs = [GetChain ty' cs]"
  by (cases ty; cases ty') simp_all

lemma copy_blocks_rep:
  assumes ne: "source \<noteq> destination" and src: "chain_rep (GetChain source cs) (hs, s1)"
    and m: "m < length hs" and dst: "chain_rep (GetChain destination cs) (take (Suc k) hs, s2)" and k: "k \<le> m"
  shows "\<exists>cs'. copy_blocks source destination (map of_nat [Suc k..<Suc m]) cs = (Inr (), cs') \<and>
    chain_rep (GetChain destination cs') (take (Suc m) hs, s2) \<and> GetChain source cs' = GetChain source cs"
  using k src dst
proof (induction "m - k" arbitrary: k cs)
  case 0
  then show ?case by simp
next
  case (Suc n)
  have k: "Suc k < Suc m" using Suc.hyps(2) by simp
  have n: "length hs < 2 ^ 32" by (rule chain_rep_height(4) [OF Suc.prems(2)])
  have u: "unat (of_nat (Suc k) :: u64) = Suc k" using k m n by (intro unat_of_nat_u64) simp
  have hash: "Chain_GetHash (of_nat (Suc k)) (GetChain source cs) = Inr (hs ! Suc k)"
    using index_at_rep [OF Suc.prems(2), of "of_nat (Suc k)"] u k m by (simp add: Chain_GetHash_def del: of_nat_Suc)
  have others: "list_all indices_ok (other_chains destination cs)"
    using chain_rep_indices [OF Suc.prems(2)] ne by (simp add: other_chains_eq [of destination source])
  have len: "length (hs ! Suc k) = 32" using Suc.prems(2) k m by (simp add: chain_rep_def hashes_ok_def list_all_length)
  obtain ch where ch: "Chain_AddBlock (other_chains destination cs) (hs ! Suc k) (of_nat (Suc k)) (GetChain destination cs) = (Inr (), ch)"
    "chain_rep ch (take (Suc (Suc k)) hs, s2)"
    using AddBlock_rep [OF Suc.prems(3) others len] k m n by (auto simp: min_def take_Suc_conv_app_nth simp del: of_nat_Suc)
  have "[Suc k..<Suc m] = Suc k # [Suc (Suc k)..<Suc m]" using k by (rule upt_conv_Cons)
  then have "copy_blocks source destination (map of_nat [Suc k..<Suc m]) cs =
      copy_blocks source destination (map of_nat [Suc (Suc k)..<Suc m]) (set_chain destination ch cs)"
    using hash ch(1) by (simp add: on_chain_def del: of_nat_Suc upt_Suc)
  then show ?case
    using Suc.hyps(1) [of "Suc k" "set_chain destination ch cs"] Suc.hyps(2) Suc.prems(2) ch(2) ne k by auto
qed

text \<open>
  C17. Reorganising one chain after another. When two chains of block hashes start with the same block and every hash
  determines its predecessor, making the one follow the other up to a height of the other always succeeds: the
  search for the last common block ends at it, and afterwards the destination holds exactly the hashes of the source
  up to that height, what it has saved and the source being as before.
\<close>

theorem ReorgChain_correct:
  assumes "source \<noteq> destination" "chain_rep (GetChain source cs) (hs, saved1)"
    and "chain_rep (GetChain destination cs) (ds, saved2)" "follows parent hs" "follows parent ds" "hd hs = hd ds"
    and "height < length hs"
  shows "\<exists>cs'. ReorgChain source destination (of_nat height) cs = Some (Inr (), cs') \<and>
    chain_rep (GetChain destination cs') (take (Suc height) hs, saved2) \<and> GetChain source cs' = GetChain source cs"
proof -
  note h1 = chain_rep_height [OF assms(2)] and h2 = chain_rep_height [OF assms(3)]
  let ?h = "min (ch_height (GetChain source cs)) (ch_height (GetChain destination cs))"
  have low: "unat ?h < length hs" "unat ?h < length ds" using h1(1) h2(1) by (auto simp: min_def word_le_nat_alt)
  have "hs ! 0 = ds ! 0" using assms(6) h1(3) h2(3) by (simp add: hd_conv_nth)
  then obtain k where k: "k \<le> unat ?h" "hs ! k = ds ! k"
    "find_common (GetChain source cs) (GetChain destination cs) ?h = Some (Inr \<lparr>bi_hash = hs ! k, bi_height = of_nat k\<rparr>)"
    using find_common_rep [OF assms(2,3) _ low] by auto
  let ?m = "min k height"
  have uk: "unat (of_nat k :: u64) = k" "unat (of_nat height :: u64) = height"
    using k(1) low(1) h1(4) assms(7) by (simp_all add: unat_of_nat_u64)
  have m: "min (of_nat k) (of_nat height) = (of_nat ?m :: u64)" using uk by (simp add: min_def word_le_nat_alt)
  obtain ch where ch: "Chain_Rewind (of_nat ?m) (GetChain destination cs) = (Inr (), ch)" "chain_rep ch (take (Suc ?m) ds, saved2)"
    using Chain_Rewind_rep [OF assms(3) le_less_trans [OF min.cobounded1 le_less_trans [OF k(1) low(2)]]] by blast
  have "take (Suc k) hs = take (Suc k) ds" using follows_prefix [OF assms(4,5) _ _ k(2)] k(1) low by simp
  then have "take (Suc ?m) ds = take (Suc ?m) hs" by (metis min.cobounded1 Suc_le_mono take_take min.absorb1)
  then have dst: "chain_rep (GetChain destination (set_chain destination ch cs)) (take (Suc ?m) hs, saved2)" using ch(2) by simp
  have src: "chain_rep (GetChain source (set_chain destination ch cs)) (hs, saved1)" using assms(1,2) by simp
  obtain cs' where "copy_blocks source destination (map of_nat [Suc ?m..<Suc height]) (set_chain destination ch cs) = (Inr (), cs')"
    "chain_rep (GetChain destination cs') (take (Suc height) hs, saved2)"
    "GetChain source cs' = GetChain source (set_chain destination ch cs)"
    using copy_blocks_rep [OF assms(1) src assms(7) dst] by auto
  moreover have "\<not> ch_height (GetChain source cs) < of_nat height" using h1(1) assms(7) uk by (simp add: word_less_nat_alt)
  moreover have "unat (of_nat ?m :: u64) = ?m" using uk by (simp add: min_def)
  ultimately show ?thesis
    using assms(1) k(3) ch(1) uk(2) by (simp add: ReorgChain_def FindCommonIndex_def on_chain_def m del: upt_Suc)
qed

definition sample_chain :: "bytes list \<Rightarrow> Chain" where
  "sample_chain hs =
     \<lparr>ch_indices = index_list hs, ch_height = of_nat (length hs - 1), ch_dataFile = DataFile_Load (concat hs),
      ch_writing = True, ch_dirty = False\<rparr>"

lemma sample_chain_rep:
  assumes "hashes_ok hs"
  shows "chain_rep (sample_chain hs) (hs, hs)"
proof -
  have h: "\<And>x. x \<in> set hs \<Longrightarrow> length x = 32" "length hs < 2 ^ 32" using assms by (auto simp: hashes_ok_def list_all_iff)
  note c = records_concat [of 32 hs, OF _ h(1)]
  have "length (concat hs) < 2 ^ 62" using c(1) h(2) by simp
  then have "data_inv (DataFile_Load (concat hs))" "data_view (DataFile_Load (concat hs)) = concat hs"
    "data_saved (DataFile_Load (concat hs)) = concat hs"
    using Load_inv [of "concat hs"] Load_view [of "concat hs"] by (simp_all add: data_inv_def DataFile_Load_def AppendOnlyFile_Load_def)
  then show ?thesis using assms c by (simp add: chain_rep_def sample_chain_def aligned_def)
qed

theorem ReorgChain_correct_witness:
  "let h = \<lambda>b. replicate 32 b; cs = \<lparr>cs_confirmed = sample_chain [h 0, h 1], cs_candidate = sample_chain [h 0, h 2, h 3]\<rparr>
   in \<exists>cs'. ReorgChain CANDIDATE CONFIRMED (of_nat 1) cs = Some (Inr (), cs') \<and> chain_rep (cs_confirmed cs') ([h 0, h 2], [h 0, h 1])"
proof -
  let ?h = "\<lambda>b::u8. replicate 32 b" and ?parent = "\<lambda>x. if x = replicate 32 (3::u8) then replicate 32 2 else replicate 32 0"
  let ?cs = "\<lparr>cs_confirmed = sample_chain [?h 0, ?h 1], cs_candidate = sample_chain [?h 0, ?h 2, ?h 3]\<rparr>"
  have rep: "chain_rep (GetChain CANDIDATE ?cs) ([?h 0, ?h 2, ?h 3], [?h 0, ?h 2, ?h 3])"
    "chain_rep (GetChain CONFIRMED ?cs) ([?h 0, ?h 1], [?h 0, ?h 1])"
    using sample_chain_rep [of "[?h 0, ?h 2, ?h 3]"] sample_chain_rep [of "[?h 0, ?h 1]"] by (simp_all add: hashes_ok_def)
  have neq: "?h 1 \<noteq> ?h 3" "?h 2 \<noteq> ?h 3" by simp_all
  have "follows ?parent [?h 0, ?h 2, ?h 3]" "follows ?parent [?h 0, ?h 1]"
    unfolding follows_def using neq by (auto simp: less_Suc_eq numeral_3_eq_3 simp del: replicate.simps)
  then show ?thesis
    using ReorgChain_correct [OF _ rep, of ?parent 1] by (auto simp: Let_def)
qed

end
