(* ===== verification/OrphanPool.thy ===== *)
theory OrphanPool
  imports BlockModels Caches
begin

text \<open>
  The pool of blocks whose predecessor is not known yet (\<^verbatim>\<open>src/BlockChain/OrphanPool\<close>): blocks by height, and a cache of
  64 headers.
\<close>

record OrphanPool =
  op_orphans :: "u64 \<rightharpoonup> FullBlock list"
  op_headers :: "(bytes, BlockHeader) fixed_sized_cache"

definition OrphanPool_New :: OrphanPool where
  "OrphanPool_New = \<lparr>op_orphans = Map.empty, op_headers = Cache_New 64\<rparr>"

abbreviation block_hash :: "FullBlock \<Rightarrow> bytes" where
  "block_hash block \<equiv> Header_GetHash (fb_header block)"

abbreviation block_height :: "FullBlock \<Rightarrow> u64" where
  "block_height block \<equiv> h_height (fb_header block)"

definition has_hash :: "bytes \<Rightarrow> FullBlock \<Rightarrow> bool" where
  "has_hash hash block = BigInteger_equal (block_hash block) hash"

definition IsOrphan :: "u64 \<Rightarrow> bytes \<Rightarrow> OrphanPool \<Rightarrow> bool" where
  "IsOrphan height hash pool =
     (case op_orphans pool height of None \<Rightarrow> False | Some orphans \<Rightarrow> list_ex (has_hash hash) orphans)"

definition AddOrphanBlock :: "FullBlock \<Rightarrow> OrphanPool \<Rightarrow> OrphanPool" where
  "AddOrphanBlock block pool =
     (let pool = (if Cached (op_headers pool) (block_hash block) then pool
                  else pool\<lparr>op_headers := Cache_Put (block_hash block) (fb_header block) (op_headers pool)\<rparr>)
      in case op_orphans pool (block_height block) of
           Some orphans \<Rightarrow>
             if list_ex (has_hash (block_hash block)) orphans then pool
             else pool\<lparr>op_orphans := (op_orphans pool)(block_height block \<mapsto> orphans @ [block])\<rparr>
         | None \<Rightarrow> pool\<lparr>op_orphans := (op_orphans pool)(block_height block \<mapsto> [block])\<rparr>)"

definition GetOrphanBlock :: "u64 \<Rightarrow> bytes \<Rightarrow> OrphanPool \<Rightarrow> FullBlock option" where
  "GetOrphanBlock height hash pool =
     (case op_orphans pool height of None \<Rightarrow> None | Some orphans \<Rightarrow> find (has_hash hash) orphans)"

definition GetNextOrphanBlock :: "u64 \<Rightarrow> bytes \<Rightarrow> OrphanPool \<Rightarrow> FullBlock option" where
  "GetNextOrphanBlock height previousHash pool =
     (case op_orphans pool height of
        None \<Rightarrow> None
      | Some orphans \<Rightarrow> find (\<lambda>block. BigInteger_equal (h_previousBlockHash (fb_header block)) previousHash) orphans)"

fun remove_first :: "('a \<Rightarrow> bool) \<Rightarrow> 'a list \<Rightarrow> 'a list" where
  "remove_first P [] = []"
| "remove_first P (x # xs) = (if P x then xs else x # remove_first P xs)"

definition RemoveOrphan :: "u64 \<Rightarrow> bytes \<Rightarrow> OrphanPool \<Rightarrow> OrphanPool" where
  "RemoveOrphan height hash pool =
     (case op_orphans pool height of
        None \<Rightarrow> pool
      | Some orphans \<Rightarrow>
          let rest = remove_first (has_hash hash) orphans
          in pool\<lparr>op_orphans := (op_orphans pool)(height := (if rest = [] then None else Some rest))\<rparr>)"

text \<open>A header that is found becomes the most recently used one.\<close>

definition GetOrphanHeader :: "bytes \<Rightarrow> OrphanPool \<Rightarrow> BlockHeader option result \<times> OrphanPool" where
  "GetOrphanHeader hash pool =
     (if Cached (op_headers pool) hash then
        (case Cache_Get (op_headers pool) hash of
           Inl e \<Rightarrow> (Inl e, pool)
         | Inr (h, c) \<Rightarrow> (Inr (Some h), pool\<lparr>op_headers := c\<rparr>))
      else (Inr None, pool))"

definition AddOrphanHeader :: "BlockHeader \<Rightarrow> OrphanPool \<Rightarrow> OrphanPool" where
  "AddOrphanHeader h pool = pool\<lparr>op_headers := Cache_Put (Header_GetHash h) h (op_headers pool)\<rparr>"

section \<open>Invariant and lookups\<close>

text \<open>Blocks are filed under their heights, no hash twice, hashes have 32 bytes, and no height has an empty list.\<close>

definition orphans_ok :: "OrphanPool \<Rightarrow> bool" where
  "orphans_ok pool \<longleftrightarrow> cache_inv (op_headers pool) \<and>
     (\<forall>height orphans. op_orphans pool height = Some orphans \<longrightarrow>
        orphans \<noteq> [] \<and> distinct (map block_hash orphans) \<and>
        list_all (\<lambda>block. block_height block = height \<and> length (block_hash block) = 32) orphans)"

definition orphan_set :: "OrphanPool \<Rightarrow> FullBlock set" where
  "orphan_set pool = {block. \<exists>orphans. op_orphans pool (block_height block) = Some orphans \<and> block \<in> set orphans}"

lemma has_hash_iff: "length (block_hash block) = 32 \<Longrightarrow> length hash = 32 \<Longrightarrow> has_hash hash block \<longleftrightarrow> block_hash block = hash"
  by (simp add: has_hash_def BigInteger_equal_iff)

lemma orphans_okD:
  assumes "orphans_ok pool" "op_orphans pool height = Some orphans"
  shows "orphans \<noteq> []" "distinct (map block_hash orphans)" "\<And>block. block \<in> set orphans \<Longrightarrow> block_height block = height"
    and "\<And>block. block \<in> set orphans \<Longrightarrow> length (block_hash block) = 32"
  using assms by (auto simp: orphans_ok_def list_all_iff)

lemma find_has_hash:
  assumes "\<And>x. x \<in> set xs \<Longrightarrow> length (block_hash x) = 32" "distinct (map block_hash xs)" "length hash = 32"
  shows "find (has_hash hash) xs = Some block \<longleftrightarrow> block \<in> set xs \<and> block_hash block = hash"
  using assms by (induction xs) (auto simp: has_hash_iff image_iff)

lemma orphan_set_at:
  assumes "orphans_ok pool" "op_orphans pool height = Some orphans"
  shows "block \<in> set orphans \<longleftrightarrow> block \<in> orphan_set pool \<and> block_height block = height"
proof
  assume "block \<in> set orphans"
  moreover from this have "block_height block = height" by (rule orphans_okD(3) [OF assms])
  ultimately show "block \<in> orphan_set pool \<and> block_height block = height" using assms(2) by (simp add: orphan_set_def)
next
  assume "block \<in> orphan_set pool \<and> block_height block = height"
  then show "block \<in> set orphans" using assms(2) unfolding orphan_set_def by auto
qed

lemma orphan_set_none: "op_orphans pool height = None \<Longrightarrow> block \<in> orphan_set pool \<Longrightarrow> block_height block \<noteq> height"
  by (auto simp: orphan_set_def)

text \<open>A lookup finds exactly the block of the pool with that height and hash.\<close>

lemma GetOrphanBlock_iff:
  assumes "orphans_ok pool" "length hash = 32"
  shows "GetOrphanBlock height hash pool = Some block \<longleftrightarrow>
    block \<in> orphan_set pool \<and> block_height block = height \<and> block_hash block = hash"
proof (cases "op_orphans pool height")
  case None
  then show ?thesis using orphan_set_none [OF None] by (auto simp: GetOrphanBlock_def)
next
  case (Some orphans)
  show ?thesis
    using find_has_hash [OF orphans_okD(4,2) [OF assms(1) Some] assms(2), of block] Some
    unfolding orphan_set_at [OF assms(1) Some] GetOrphanBlock_def by simp
qed

lemma IsOrphan_iff:
  assumes "orphans_ok pool" "length hash = 32"
  shows "IsOrphan height hash pool \<longleftrightarrow> (\<exists>block \<in> orphan_set pool. block_height block = height \<and> block_hash block = hash)"
proof (cases "op_orphans pool height")
  case None
  then show ?thesis using orphan_set_none [OF None] by (auto simp: IsOrphan_def)
next
  case (Some orphans)
  have "list_ex (has_hash hash) orphans \<longleftrightarrow> (\<exists>block \<in> set orphans. block_hash block = hash)"
    using orphans_okD(4) [OF assms(1) Some] assms(2) has_hash_iff unfolding list_ex_iff by blast
  then show ?thesis using Some orphan_set_at [OF assms(1) Some] by (simp add: IsOrphan_def Bex_def conj_ac)
qed

lemma remove_first_hash:
  assumes "\<And>x. x \<in> set xs \<Longrightarrow> length (block_hash x) = 32" "distinct (map block_hash xs)" "length hash = 32"
  shows "remove_first (has_hash hash) xs = filter (\<lambda>block. block_hash block \<noteq> hash) xs"
  using assms
proof (induction xs)
  case (Cons x xs)
  show ?case
  proof (cases "block_hash x = hash")
    case True
    then have "filter (\<lambda>block. block_hash block \<noteq> hash) xs = xs" using Cons.prems(2) by (auto simp: filter_id_conv image_iff)
    then show ?thesis using True Cons.prems has_hash_iff [of x hash] by simp
  next
    case False
    then show ?thesis using Cons has_hash_iff [of x hash] by simp
  qed
qed simp

lemma AddOrphanBlock_set:
  assumes ok: "orphans_ok pool" and len: "length (block_hash block) = 32"
  shows "orphan_set (AddOrphanBlock block pool) =
      (if IsOrphan (block_height block) (block_hash block) pool then orphan_set pool else insert block (orphan_set pool))"
    and "orphans_ok (AddOrphanBlock block pool)"
proof -
  let ?h = "if Cached (op_headers pool) (block_hash block) then op_headers pool
    else Cache_Put (block_hash block) (fb_header block) (op_headers pool)"
  have cache: "cache_inv ?h" using ok Cache_Put_inv by (auto simp: orphans_ok_def)
  have add: "AddOrphanBlock block pool = pool\<lparr>op_headers := ?h, op_orphans :=
      (if IsOrphan (block_height block) (block_hash block) pool then op_orphans pool
       else (op_orphans pool)(block_height block \<mapsto>
         (case op_orphans pool (block_height block) of None \<Rightarrow> [] | Some orphans \<Rightarrow> orphans) @ [block]))\<rparr>"
    by (auto simp: AddOrphanBlock_def IsOrphan_def Let_def split: option.split)
  show "orphan_set (AddOrphanBlock block pool) =
      (if IsOrphan (block_height block) (block_hash block) pool then orphan_set pool else insert block (orphan_set pool))"
  proof (cases "IsOrphan (block_height block) (block_hash block) pool")
    case False
    then show ?thesis
      unfolding add by (cases "op_orphans pool (block_height block)") (auto simp: orphan_set_def)
  qed (simp add: add orphan_set_def)
  have fresh: "distinct (map block_hash (orphans @ [block]))"
    if some: "op_orphans pool (block_height block) = Some orphans" and no: "\<not> IsOrphan (block_height block) (block_hash block) pool" for orphans
  proof -
    have "\<forall>x \<in> set orphans. \<not> has_hash (block_hash block) x" using some no by (simp add: IsOrphan_def list_ex_iff)
    then have "block_hash block \<notin> block_hash ` set orphans" using BigInteger_equal_iff unfolding has_hash_def by force
    then show ?thesis using orphans_okD(2) [OF ok some] by simp
  qed
  have rest: "op_orphans pool height = Some orphans \<Longrightarrow> orphans \<noteq> [] \<and> distinct (map block_hash orphans) \<and>
      list_all (\<lambda>b. block_height b = height \<and> length (block_hash b) = 32) orphans" for height orphans
    using ok unfolding orphans_ok_def by blast
  show "orphans_ok (AddOrphanBlock block pool)"
  proof (cases "IsOrphan (block_height block) (block_hash block) pool")
    case True
    then show ?thesis unfolding add orphans_ok_def using cache rest by simp
  next
    case False
    then show ?thesis
      unfolding add orphans_ok_def using cache rest fresh len
      by (cases "op_orphans pool (block_height block)") simp_all
  qed
qed

lemma RemoveOrphan_set:
  assumes ok: "orphans_ok pool" and len: "length hash = 32"
  shows "orphan_set (RemoveOrphan height hash pool) =
      {block \<in> orphan_set pool. \<not> (block_height block = height \<and> block_hash block = hash)}"
    and "orphans_ok (RemoveOrphan height hash pool)"
proof -
  have "orphan_set (RemoveOrphan height hash pool) =
      {block \<in> orphan_set pool. \<not> (block_height block = height \<and> block_hash block = hash)} \<and>
    orphans_ok (RemoveOrphan height hash pool)"
  proof (cases "op_orphans pool height")
    case (Some orphans)
    note o = orphans_okD [OF ok Some]
    let ?rest = "filter (\<lambda>block. block_hash block \<noteq> hash) orphans"
    have rm: "RemoveOrphan height hash pool =
        pool\<lparr>op_orphans := (op_orphans pool)(height := (if ?rest = [] then None else Some ?rest))\<rparr>"
      using Some remove_first_hash [OF o(4,2) len] by (simp add: RemoveOrphan_def Let_def)
    have "distinct (map block_hash ?rest)" using o(2) by (rule distinct_map_filter)
    moreover have "list_all (\<lambda>b. block_height b = height \<and> length (block_hash b) = 32) ?rest"
      using o(3,4) by (simp add: list_all_iff)
    ultimately have "orphans_ok (RemoveOrphan height hash pool)"
      unfolding rm orphans_ok_def using ok unfolding orphans_ok_def by simp
    moreover have "orphan_set (RemoveOrphan height hash pool) =
        {block \<in> orphan_set pool. \<not> (block_height block = height \<and> block_hash block = hash)}"
    proof -
      have "block \<in> orphan_set (RemoveOrphan height hash pool) \<longleftrightarrow>
          block \<in> orphan_set pool \<and> \<not> (block_height block = height \<and> block_hash block = hash)" for block
        unfolding rm using Some by (cases "block_height block = height") (auto simp: orphan_set_def filter_empty_conv)
      then show ?thesis by blast
    qed
    ultimately show ?thesis by simp
  qed (use ok in \<open>auto simp: RemoveOrphan_def orphan_set_def\<close>)
  then show "orphan_set (RemoveOrphan height hash pool) =
      {block \<in> orphan_set pool. \<not> (block_height block = height \<and> block_hash block = hash)}"
    "orphans_ok (RemoveOrphan height hash pool)" by auto
qed

end
