(* ===== verification/TxPool.thy ===== *)
theory TxPool
  imports TxHashSetCorrect Validation OrphanPool "HOL-Library.Sublist"
begin

text \<open>
  The transaction pool: \<^verbatim>\<open>src/TxPool\<close> and the aggregation of transactions in \<^verbatim>\<open>include/Core/Util/TransactionUtil.h\<close>. A pointer
  to a transaction is an address with what it points to; a new transaction gets an address that is an argument. The
  clock (in nanoseconds) and random numbers are arguments too. The cache of verified range proofs is a global of the
  code and is passed along. An exception that is caught is any but \<open>Undefined\<close>.
\<close>

section \<open>Libraries and configuration\<close>

record 'b node =
  nd_secp :: secp
  nd_blindSum :: "bytes list \<Rightarrow> nat \<Rightarrow> bytes option"
  nd_blake2b :: "bytes \<Rightarrow> bytes"
  nd_sipHash :: "u64 \<Rightarrow> u64 \<Rightarrow> bytes \<Rightarrow> u64"
  nd_roaring :: "'b roaring"
  nd_env :: Environment
  nd_feeBase :: u64
  nd_stemProbability :: u8
  nd_embargoSeconds :: u16

definition AddBlindingFactors :: "'b node \<Rightarrow> bytes list \<Rightarrow> bytes list \<Rightarrow> bytes result" where
  "AddBlindingFactors N positive negative =
     (let sanitizedPositive = filter (\<lambda>x. \<not> BigInteger_equal x ZERO_HASH) positive;
          sanitizedNegative = filter (\<lambda>x. \<not> BigInteger_equal x ZERO_HASH) negative
      in if sanitizedPositive = [] \<and> sanitizedNegative = [] then Inr ZERO_HASH
         else or_throw CryptoException
                (nd_blindSum N (sanitizedPositive @ sanitizedNegative) (length sanitizedPositive)))"

section \<open>Aggregation\<close>

type_synonym TransactionPtr = "nat \<times> Transaction"

definition PerformCutThrough ::
  "TransactionInput list \<Rightarrow> TransactionOutput list \<Rightarrow> TransactionInput list \<times> TransactionOutput list" where
  "PerformCutThrough inputs outputs =
     (filter (\<lambda>input. i_commitment input \<notin> o_commitment ` set outputs) inputs,
      filter (\<lambda>out. o_commitment out \<notin> i_commitment ` set inputs) outputs)"

definition Aggregate_many :: "'b node \<Rightarrow> Transaction list \<Rightarrow> Transaction result" where
  "Aggregate_many N transactions =
     (let inputs = concat (map (\<lambda>tx. b_inputs (tx_body tx)) transactions);
          outputs = concat (map (\<lambda>tx. b_outputs (tx_body tx)) transactions);
          kernels = concat (map (\<lambda>tx. b_kernels (tx_body tx)) transactions);
          (inputs, outputs) = PerformCutThrough inputs outputs
      in rbind (AddBlindingFactors N (map tx_offset transactions) []) (\<lambda>totalKernelOffset.
           Inr \<lparr>tx_offset = totalKernelOffset, tx_body = TransactionBody_New (nd_blake2b N) inputs outputs kernels\<rparr>))"

definition Aggregate :: "'b node \<Rightarrow> nat \<Rightarrow> TransactionPtr list \<Rightarrow> TransactionPtr result" where
  "Aggregate N address transactions =
     (if length transactions = 1 then Inr (hd transactions)
      else rbind (Aggregate_many N (map snd transactions)) (\<lambda>tx. Inr (address, tx)))"

section \<open>A pool\<close>

datatype EDandelionStatus = TO_STEM | STEMMED | TO_FLUFF | FLUFFED

record TxPoolEntry =
  te_transaction :: TransactionPtr
  te_status :: EDandelionStatus
  te_timestamp :: int

type_synonym Pool = "TxPoolEntry list"

abbreviation entry_tx :: "TxPoolEntry \<Rightarrow> Transaction" where
  "entry_tx entry \<equiv> snd (te_transaction entry)"

definition Transaction_equal :: "(bytes \<Rightarrow> bytes) \<Rightarrow> Transaction \<Rightarrow> Transaction \<Rightarrow> bool" where
  "Transaction_equal Blake2b a b = BigInteger_equal (Transaction_GetHash Blake2b a) (Transaction_GetHash Blake2b b)"

definition Kernel_equal :: "(bytes \<Rightarrow> bytes) \<Rightarrow> TransactionKernel \<Rightarrow> TransactionKernel \<Rightarrow> bool" where
  "Kernel_equal Blake2b a b = BigInteger_equal (Kernel_GetHash Blake2b a) (Kernel_GetHash Blake2b b)"

text \<open>The search by short ids ends when as many transactions are found as ids are missing.\<close>

fun short_id_search ::
  "(TransactionKernel \<Rightarrow> bool result) \<Rightarrow> nat \<Rightarrow> (TransactionPtr \<times> TransactionKernel) list \<Rightarrow> TransactionPtr list \<Rightarrow>
   TransactionPtr list result" where
  "short_id_search missing n [] found = Inr found"
| "short_id_search missing n ((tx, krn) # rest) found =
     rbind (missing krn) (\<lambda>m.
       if m then
         let found = found @ [tx]
         in if length found = n then Inr found else short_id_search missing n rest found
       else short_id_search missing n rest found)"

definition Pool_GetTransactionsByShortId ::
  "'b node \<Rightarrow> bytes \<Rightarrow> u64 \<Rightarrow> bytes set \<Rightarrow> Pool \<Rightarrow> TransactionPtr list result" where
  "Pool_GetTransactionsByShortId N hash nonce missingShortIds pool =
     short_id_search
       (\<lambda>krn. rbind (ShortId_Create (nd_blake2b N) (nd_sipHash N) (Kernel_GetHash (nd_blake2b N) krn) hash nonce)
                (\<lambda>shortId. Inr (shortId \<in> missingShortIds)))
       (card missingShortIds)
       (concat (map (\<lambda>entry. map (Pair (te_transaction entry)) (b_kernels (tx_body (entry_tx entry)))) pool)) []"

definition Pool_AddTransaction :: "int \<Rightarrow> TransactionPtr \<Rightarrow> EDandelionStatus \<Rightarrow> Pool \<Rightarrow> Pool" where
  "Pool_AddTransaction now transaction status pool =
     pool @ [\<lparr>te_transaction = transaction, te_status = status, te_timestamp = now\<rparr>]"

definition ContainsTransaction :: "(bytes \<Rightarrow> bytes) \<Rightarrow> Transaction \<Rightarrow> Pool \<Rightarrow> bool" where
  "ContainsTransaction Blake2b transaction pool = list_ex (\<lambda>entry. Transaction_equal Blake2b (entry_tx entry) transaction) pool"

text \<open>
  Kernels in a set are told apart by their excess commitments. The set of pointers that is copied to a vector is
  ordered by address.
\<close>

definition Pool_FindTransactionsByKernel :: "TransactionKernel set \<Rightarrow> Pool \<Rightarrow> TransactionPtr list" where
  "Pool_FindTransactionsByKernel kernels pool =
     sort_key fst (remdups (map te_transaction (filter (\<lambda>entry.
       list_ex (\<lambda>krn. k_excessCommitment krn \<in> k_excessCommitment ` kernels) (b_kernels (tx_body (entry_tx entry)))) pool)))"

definition Pool_FindTransactionByKernelHash :: "(bytes \<Rightarrow> bytes) \<Rightarrow> bytes \<Rightarrow> Pool \<Rightarrow> TransactionPtr option" where
  "Pool_FindTransactionByKernelHash Blake2b kernelHash pool =
     map_option te_transaction (find (\<lambda>entry.
       list_ex (\<lambda>krn. BigInteger_equal (Kernel_GetHash Blake2b krn) kernelHash) (b_kernels (tx_body (entry_tx entry)))) pool)"

definition FindTransactionsByStatus :: "EDandelionStatus \<Rightarrow> Pool \<Rightarrow> TransactionPtr list" where
  "FindTransactionsByStatus status pool = map te_transaction (filter (\<lambda>entry. te_status entry = status) pool)"

definition Pool_GetExpiredTransactions :: "int \<Rightarrow> u16 \<Rightarrow> Pool \<Rightarrow> TransactionPtr list" where
  "Pool_GetExpiredTransactions now embargoSeconds pool =
     map te_transaction (filter (\<lambda>entry. te_timestamp entry < now - uint embargoSeconds * 1000000000) pool)"

definition RemoveTransaction :: "(bytes \<Rightarrow> bytes) \<Rightarrow> Transaction \<Rightarrow> Pool \<Rightarrow> Pool" where
  "RemoveTransaction Blake2b transaction = remove_first (\<lambda>entry. Transaction_equal Blake2b transaction (entry_tx entry))"

definition ChangeStatus :: "TransactionPtr list \<Rightarrow> EDandelionStatus \<Rightarrow> Pool \<Rightarrow> Pool" where
  "ChangeStatus transactions status =
     map (\<lambda>entry. if fst (te_transaction entry) \<in> fst ` set transactions then entry\<lparr>te_status := status\<rparr> else entry)"

definition ShouldEvict :: "(bytes \<Rightarrow> bytes) \<Rightarrow> Transaction \<Rightarrow> FullBlock \<Rightarrow> bool" where
  "ShouldEvict Blake2b transaction block =
     (list_ex (\<lambda>input. list_ex (\<lambda>x. Input_equal x input) (b_inputs (fb_body block))) (b_inputs (tx_body transaction)) \<or>
      list_ex (\<lambda>krn. list_ex (\<lambda>x. Kernel_equal Blake2b x krn) (b_kernels (fb_body block))) (b_kernels (tx_body transaction)))"

definition Pool_Aggregate :: "'b node \<Rightarrow> nat \<Rightarrow> Pool \<Rightarrow> TransactionPtr option result" where
  "Pool_Aggregate N address pool =
     (if pool = [] then Inr None
      else rbind (Aggregate N address (map te_transaction pool)) (\<lambda>tx. Inr (Some tx)))"

section \<open>Valid transactions\<close>

definition IsValidTransaction ::
  "'b node \<Rightarrow> BlockDB \<Rightarrow> 'b TxHashSet \<Rightarrow> Transaction \<Rightarrow> proof_cache \<Rightarrow> bool result \<times> proof_cache" where
  "IsValidTransaction N db t transaction cache =
     (case th_headerBackup t of
        None \<Rightarrow> (Inl Undefined, cache)
      | Some header \<Rightarrow>
          let (r, cache) = TransactionValidator_Validate (nd_secp N) (nd_blake2b N) (nd_env N) cache transaction (h_height header + 1);
              r = rbind r (\<lambda>_. TxHashSet_IsValid (nd_roaring N) (nd_env N) db transaction t)
          in (case r of Inl Undefined \<Rightarrow> Inl Undefined | Inl e \<Rightarrow> Inr False | Inr valid \<Rightarrow> Inr valid, cache))"

fun valid_transactions ::
  "'b node \<Rightarrow> BlockDB \<Rightarrow> 'b TxHashSet \<Rightarrow> TransactionPtr option \<Rightarrow> TransactionPtr list \<Rightarrow> TransactionPtr list \<Rightarrow> proof_cache \<Rightarrow>
   TransactionPtr list result \<times> proof_cache" where
  "valid_transactions N db t extra [] valid cache = (Inr valid, cache)"
| "valid_transactions N db t extra (tx # txs) valid cache =
     (case Aggregate N 0 (valid @ (case extra of None \<Rightarrow> [] | Some x \<Rightarrow> [x]) @ [tx]) of
        Inl e \<Rightarrow> (Inl e, cache)
      | Inr aggregated \<Rightarrow>
          (case IsValidTransaction N db t (snd aggregated) cache of
             (Inl e, cache) \<Rightarrow> (Inl e, cache)
           | (Inr ok, cache) \<Rightarrow> valid_transactions N db t extra txs (if ok then valid @ [tx] else valid) cache))"

definition FindValidTransactions ::
  "'b node \<Rightarrow> BlockDB \<Rightarrow> 'b TxHashSet \<Rightarrow> TransactionPtr list \<Rightarrow> TransactionPtr option \<Rightarrow> proof_cache \<Rightarrow>
   TransactionPtr list result \<times> proof_cache" where
  "FindValidTransactions N db t transactions extra cache = valid_transactions N db t extra transactions [] cache"

text \<open>The pool is cleared before the transactions are validated again: an exception leaves it empty.\<close>

definition Pool_ReconcileBlock ::
  "'b node \<Rightarrow> BlockDB \<Rightarrow> 'b TxHashSet \<Rightarrow> FullBlock \<Rightarrow> TransactionPtr option \<Rightarrow> Pool \<Rightarrow> proof_cache \<Rightarrow>
   unit result \<times> Pool \<times> proof_cache" where
  "Pool_ReconcileBlock N db t block pMemPoolAggTx pool cache =
     (let filtered = filter (\<lambda>entry. \<not> ShouldEvict (nd_blake2b N) (entry_tx entry) block) pool;
          entry_of = (\<lambda>tx. find (\<lambda>entry. Transaction_equal (nd_blake2b N) (entry_tx entry) tx) filtered)
      in (case FindValidTransactions N db t (map te_transaction filtered) pMemPoolAggTx cache of
            (Inl e, cache) \<Rightarrow> (Inl e, [], cache)
          | (Inr valid, cache) \<Rightarrow> (Inr (), List.map_filter (\<lambda>tx. entry_of (snd tx)) valid, cache)))"

section \<open>The two pools\<close>

record TransactionPool =
  tp_memPool :: Pool
  tp_stemPool :: Pool

datatype EPoolType = STEMPOOL | MEMPOOL

datatype EAddTransactionStatus = ADDED | DUPL_TX | LOW_FEE | TX_INVALID | NOT_ADDED

definition add_to_pool :: "'b node \<Rightarrow> u8 \<Rightarrow> int \<Rightarrow> TransactionPtr \<Rightarrow> EPoolType \<Rightarrow> TransactionPool \<Rightarrow> TransactionPool" where
  "add_to_pool N random now transaction poolType tp =
     (case poolType of
        MEMPOOL \<Rightarrow>
          tp\<lparr>tp_memPool := Pool_AddTransaction now transaction FLUFFED (tp_memPool tp),
             tp_stemPool := RemoveTransaction (nd_blake2b N) (snd transaction) (tp_stemPool tp)\<rparr>
      | STEMPOOL \<Rightarrow>
          tp\<lparr>tp_stemPool := Pool_AddTransaction now transaction
               (if random \<le> nd_stemProbability N then TO_STEM else TO_FLUFF) (tp_stemPool tp)\<rparr>)"

definition TransactionPool_AddTransaction ::
  "'b node \<Rightarrow> u8 \<Rightarrow> int \<Rightarrow> BlockDB \<Rightarrow> 'b TxHashSet option \<Rightarrow> TransactionPtr \<Rightarrow> EPoolType \<Rightarrow> BlockHeader \<Rightarrow>
   TransactionPool \<Rightarrow> proof_cache \<Rightarrow> EAddTransactionStatus result \<times> TransactionPool \<times> proof_cache" where
  "TransactionPool_AddTransaction N random now db pTxHashSet transaction poolType lastConfirmedBlock tp cache =
     (let next_block_height = h_height lastConfirmedBlock + 1; tx = snd transaction
      in if poolType = MEMPOOL \<and> ContainsTransaction (nd_blake2b N) tx (tp_memPool tp) then (Inr DUPL_TX, tp, cache)
         else if \<not> FeeMeetsMinimum (nd_env N) (nd_feeBase N) tx next_block_height then (Inr LOW_FEE, tp, cache)
         else if list_ex (\<lambda>krn. next_block_height < k_lockHeight krn) (b_kernels (tx_body tx)) then (Inr NOT_ADDED, tp, cache)
         else
           (case TransactionValidator_Validate (nd_secp N) (nd_blake2b N) (nd_env N) cache tx next_block_height of
              (Inl Undefined, cache) \<Rightarrow> (Inl Undefined, tp, cache)
            | (Inl e, cache) \<Rightarrow> (Inr TX_INVALID, tp, cache)
            | (Inr _, cache) \<Rightarrow>
                (case (case pTxHashSet of None \<Rightarrow> Inr False | Some t \<Rightarrow> TxHashSet_IsValid (nd_roaring N) (nd_env N) db tx t) of
                   Inl e \<Rightarrow> (Inl e, tp, cache)
                 | Inr False \<Rightarrow> (Inr NOT_ADDED, tp, cache)
                 | Inr True \<Rightarrow> (Inr ADDED, add_to_pool N random now transaction poolType tp, cache))))"

definition TransactionPool_GetTransactions :: "EPoolType \<Rightarrow> TransactionPool \<Rightarrow> TxPoolEntry list" where
  "TransactionPool_GetTransactions poolType tp = (if poolType = STEMPOOL then tp_stemPool tp else tp_memPool tp)"

definition TransactionPool_FindTransactionByKernelHash :: "'b node \<Rightarrow> bytes \<Rightarrow> TransactionPool \<Rightarrow> TransactionPtr option" where
  "TransactionPool_FindTransactionByKernelHash N kernelHash tp =
     (case Pool_FindTransactionByKernelHash (nd_blake2b N) kernelHash (tp_memPool tp) of
        None \<Rightarrow> Pool_FindTransactionByKernelHash (nd_blake2b N) kernelHash (tp_stemPool tp)
      | Some tx \<Rightarrow> Some tx)"

definition TransactionPool_ReconcileBlock ::
  "'b node \<Rightarrow> BlockDB \<Rightarrow> 'b TxHashSet \<Rightarrow> FullBlock \<Rightarrow> TransactionPool \<Rightarrow> proof_cache \<Rightarrow>
   unit result \<times> TransactionPool \<times> proof_cache" where
  "TransactionPool_ReconcileBlock N db t block tp cache =
     (case Pool_ReconcileBlock N db t block None (tp_memPool tp) cache of
        (Inl e, mem, cache) \<Rightarrow> (Inl e, tp\<lparr>tp_memPool := mem\<rparr>, cache)
      | (Inr _, mem, cache) \<Rightarrow>
          let tp = tp\<lparr>tp_memPool := mem\<rparr>
          in (case Pool_Aggregate N 0 mem of
                Inl e \<Rightarrow> (Inl e, tp, cache)
              | Inr pMemPoolAggTx \<Rightarrow>
                  (case Pool_ReconcileBlock N db t block pMemPoolAggTx (tp_stemPool tp) cache of
                     (r, stem, cache) \<Rightarrow> (r, tp\<lparr>tp_stemPool := stem\<rparr>, cache))))"

text \<open>What \<open>GetTransactionToStem\<close> and \<open>GetTransactionToFluff\<close> have in common: the valid ones of a status, aggregated.\<close>

definition aggregate_status ::
  "'b node \<Rightarrow> nat \<Rightarrow> BlockDB \<Rightarrow> 'b TxHashSet \<Rightarrow> EDandelionStatus \<Rightarrow> TransactionPool \<Rightarrow> proof_cache \<Rightarrow>
   (TransactionPtr \<times> TransactionPtr list) option result \<times> proof_cache" where
  "aggregate_status N address db t status tp cache =
     (let transactions = FindTransactionsByStatus status (tp_stemPool tp)
      in if transactions = [] then (Inr None, cache)
         else
           (case Pool_Aggregate N 0 (tp_memPool tp) of
              Inl e \<Rightarrow> (Inl e, cache)
            | Inr pMemPoolAggTx \<Rightarrow>
                (case FindValidTransactions N db t transactions pMemPoolAggTx cache of
                   (Inl e, cache) \<Rightarrow> (Inl e, cache)
                 | (Inr valid, cache) \<Rightarrow>
                     (if valid = [] then Inr None
                      else rbind (Aggregate N address valid) (\<lambda>tx. Inr (Some (tx, valid))), cache))))"

definition GetTransactionToStem ::
  "'b node \<Rightarrow> nat \<Rightarrow> BlockDB \<Rightarrow> 'b TxHashSet \<Rightarrow> TransactionPool \<Rightarrow> proof_cache \<Rightarrow>
   TransactionPtr option result \<times> TransactionPool \<times> proof_cache" where
  "GetTransactionToStem N address db t tp cache =
     (case aggregate_status N address db t TO_STEM tp cache of
        (Inl e, cache) \<Rightarrow> (Inl e, tp, cache)
      | (Inr None, cache) \<Rightarrow> (Inr None, tp, cache)
      | (Inr (Some (tx, valid)), cache) \<Rightarrow>
          (Inr (Some tx), tp\<lparr>tp_stemPool := ChangeStatus valid STEMMED (tp_stemPool tp)\<rparr>, cache))"

definition GetTransactionToFluff ::
  "'b node \<Rightarrow> nat \<Rightarrow> int \<Rightarrow> BlockDB \<Rightarrow> 'b TxHashSet \<Rightarrow> TransactionPool \<Rightarrow> proof_cache \<Rightarrow>
   TransactionPtr option result \<times> TransactionPool \<times> proof_cache" where
  "GetTransactionToFluff N address now db t tp cache =
     (case aggregate_status N address db t TO_FLUFF tp cache of
        (Inl e, cache) \<Rightarrow> (Inl e, tp, cache)
      | (Inr None, cache) \<Rightarrow> (Inr None, tp, cache)
      | (Inr (Some (tx, valid)), cache) \<Rightarrow>
          (Inr (Some tx),
           tp\<lparr>tp_memPool := Pool_AddTransaction now tx FLUFFED (tp_memPool tp),
              tp_stemPool := fold (\<lambda>x. RemoveTransaction (nd_blake2b N) (snd x)) valid (tp_stemPool tp)\<rparr>, cache))"

definition GetExpiredTransactions :: "'b node \<Rightarrow> u16 \<Rightarrow> int \<Rightarrow> TransactionPool \<Rightarrow> TransactionPtr list" where
  "GetExpiredTransactions N random now tp = Pool_GetExpiredTransactions now (nd_embargoSeconds N + random) (tp_stemPool tp)"

section \<open>What is left in the pools\<close>

text \<open>
  A transaction that is accepted on top of the hash set: the validator lets it pass for the next height, with some
  cache of range proofs that were verified before, its inputs are unspent and its outputs new.
\<close>

definition accepted :: "'b node \<Rightarrow> BlockDB \<Rightarrow> 'b TxHashSet \<Rightarrow> Transaction \<Rightarrow> bool" where
  "accepted N db t tx \<longleftrightarrow>
     (\<exists>header c c'. th_headerBackup t = Some header \<and>
        TransactionValidator_Validate (nd_secp N) (nd_blake2b N) (nd_env N) c tx (h_height header + 1) = (Inr (), c') \<and>
        TxHashSet_IsValid (nd_roaring N) (nd_env N) db tx t = Inr True)"

definition accepted_all :: "'b node \<Rightarrow> BlockDB \<Rightarrow> 'b TxHashSet \<Rightarrow> TransactionPtr list \<Rightarrow> bool" where
  "accepted_all N db t txs \<longleftrightarrow> (\<exists>aggregated. Aggregate N 0 txs = Inr aggregated \<and> accepted N db t (snd aggregated))"

definition no_collision :: "'b node \<Rightarrow> Pool \<Rightarrow> bool" where
  "no_collision N pool \<longleftrightarrow> inj_on (Transaction_GetHash (nd_blake2b N)) (entry_tx ` set pool)"

abbreviation opt_list :: "'a option \<Rightarrow> 'a list" where
  "opt_list x \<equiv> (case x of None \<Rightarrow> [] | Some y \<Rightarrow> [y])"

lemma IsValidTransaction_accepted:
  assumes "IsValidTransaction N db t tx c = (Inr True, c')"
  shows "accepted N db t tx"
proof -
  obtain header where header: "th_headerBackup t = Some header"
    using assms by (cases "th_headerBackup t") (simp_all add: IsValidTransaction_def)
  obtain r d where r: "TransactionValidator_Validate (nd_secp N) (nd_blake2b N) (nd_env N) c tx (h_height header + 1) = (r, d)"
    by fastforce
  have "rbind r (\<lambda>_. TxHashSet_IsValid (nd_roaring N) (nd_env N) db tx t) = Inr True"
    using assms header r by (auto simp: IsValidTransaction_def split: sum.splits exn.splits)
  then have "r = Inr ()" "TxHashSet_IsValid (nd_roaring N) (nd_env N) db tx t = Inr True" by (cases r; simp)+
  then show ?thesis using header r unfolding accepted_def by blast
qed

lemma valid_transactions_accepted:
  assumes "valid_transactions N db t extra txs valid c = (Inr r, c')"
  shows "\<exists>ws. r = valid @ ws \<and> subseq ws txs \<and>
    (ws \<noteq> [] \<longrightarrow> accepted_all N db t (butlast r @ opt_list extra @ [last r]))"
  using assms
proof (induction txs arbitrary: valid c)
  case (Cons tx txs)
  obtain a where a: "Aggregate N 0 (valid @ opt_list extra @ [tx]) = Inr a"
    using Cons.prems unfolding valid_transactions.simps by (cases "Aggregate N 0 (valid @ opt_list extra @ [tx])") simp_all
  obtain ok d where v: "IsValidTransaction N db t (snd a) c = (Inr ok, d)"
    using Cons.prems unfolding valid_transactions.simps a
    by (cases "IsValidTransaction N db t (snd a) c"; cases "fst (IsValidTransaction N db t (snd a) c)") simp_all
  have rest: "valid_transactions N db t extra txs (if ok then valid @ [tx] else valid) d = (Inr r, c')"
    using Cons.prems unfolding valid_transactions.simps a by (simp add: v)
  show ?case
  proof (cases ok)
    case True
    then obtain ws where ws: "r = (valid @ [tx]) @ ws" "subseq ws txs"
      "ws \<noteq> [] \<longrightarrow> accepted_all N db t (butlast r @ opt_list extra @ [last r])"
      using Cons.IH [OF rest] by (auto simp only: if_True)
    moreover have "accepted_all N db t (valid @ opt_list extra @ [tx])"
      using a v True IsValidTransaction_accepted [of N db t "snd a" c d] by (simp add: accepted_all_def)
    ultimately show ?thesis by (cases "ws = []") (intro exI [of _ "tx # ws"]; simp)+
  next
    case False
    then obtain ws where "r = valid @ ws" "subseq ws txs"
      "ws \<noteq> [] \<longrightarrow> accepted_all N db t (butlast r @ opt_list extra @ [last r])"
      using Cons.IH [OF rest] by (auto simp only: if_False)
    then show ?thesis by (intro exI [of _ ws]) (auto intro: list_emb_Cons)
  qed
qed simp

lemma Aggregate_snd:
  assumes "map snd xs = map snd ys" "Aggregate N a xs = Inr x"
  obtains y where "Aggregate N a ys = Inr y" "snd y = snd x"
proof (cases "length xs = 1")
  case True
  then have "length ys = 1" using map_eq_imp_length_eq [OF assms(1)] by simp
  then show ?thesis
    using that [of "hd ys"] True assms by (auto simp: Aggregate_def length_Suc_conv)
next
  case False
  then have "length ys \<noteq> 1" using map_eq_imp_length_eq [OF assms(1)] by simp
  then show ?thesis using that [of x] False assms by (cases "Aggregate_many N (map snd xs)") (auto simp: Aggregate_def)
qed

lemma accepted_all_snd: "map snd xs = map snd ys \<Longrightarrow> accepted_all N db t xs \<Longrightarrow> accepted_all N db t ys"
  unfolding accepted_all_def by (metis Aggregate_snd)

lemma subseq_mapE:
  assumes "subseq xs (map f ys)"
  obtains zs where "subseq zs ys" "xs = map f zs"
  using assms by (metis subseq_conv_nths nths_map)

text \<open>The entry that is found for a transaction may be another one, with the same transaction.\<close>

lemma find_entry:
  assumes len: "\<forall>x. length (nd_blake2b N x) = 32" and inj: "no_collision N pool" and "e \<in> set pool"
  obtains e' where "find (\<lambda>entry. Transaction_equal (nd_blake2b N) (entry_tx entry) (entry_tx e)) pool = Some e'"
    "e' \<in> set pool" "entry_tx e' = entry_tx e"
proof -
  have eq: "Transaction_equal (nd_blake2b N) (entry_tx x) (entry_tx e) \<longleftrightarrow> entry_tx x = entry_tx e" if "x \<in> set pool" for x
    using len that assms(3) inj_on_eq_iff [OF inj [unfolded no_collision_def], of "entry_tx x" "entry_tx e"]
    by (simp add: Transaction_equal_def Transaction_GetHash_def BigInteger_equal_iff)
  obtain e' where e': "find (\<lambda>entry. Transaction_equal (nd_blake2b N) (entry_tx entry) (entry_tx e)) pool = Some e'"
    using assms(3) eq [OF assms(3)] by (cases "find (\<lambda>entry. Transaction_equal (nd_blake2b N) (entry_tx entry) (entry_tx e)) pool")
      (auto simp: find_None_iff)
  then have "e' \<in> set pool" "Transaction_equal (nd_blake2b N) (entry_tx e') (entry_tx e)" by (auto simp: find_Some_iff)
  then show ?thesis using that e' eq by blast
qed

lemma found_entries:
  assumes "\<forall>x. length (nd_blake2b N x) = 32" "no_collision N pool" "set es \<subseteq> set pool"
  defines "found \<equiv> List.map_filter (\<lambda>tx. find (\<lambda>entry. Transaction_equal (nd_blake2b N) (entry_tx entry) (snd tx)) pool)
    (map te_transaction es)"
  shows "set found \<subseteq> set pool" "map entry_tx found = map entry_tx es"
proof -
  have "set found \<subseteq> set pool \<and> map entry_tx found = map entry_tx es"
    using assms(3) unfolding found_def
  proof (induction es)
    case (Cons e es)
    moreover obtain e' where "find (\<lambda>entry. Transaction_equal (nd_blake2b N) (entry_tx entry) (entry_tx e)) pool = Some e'"
      "e' \<in> set pool" "entry_tx e' = entry_tx e"
      using find_entry [OF assms(1,2), of e] Cons.prems by auto
    ultimately show ?case by (simp add: List.map_filter_simps)
  qed (simp add: List.map_filter_simps)
  then show "set found \<subseteq> set pool" "map entry_tx found = map entry_tx es" by simp_all
qed

lemma Pool_ReconcileBlock_keeps:
  assumes run: "Pool_ReconcileBlock N db t block extra pool c = (Inr (), pool', c')"
    and len: "\<forall>x. length (nd_blake2b N x) = 32" and inj: "no_collision N pool"
  shows "set pool' \<subseteq> set pool" "subseq (map entry_tx pool') (map entry_tx pool)"
    "\<forall>entry \<in> set pool'. \<not> ShouldEvict (nd_blake2b N) (entry_tx entry) block"
    "pool' \<noteq> [] \<longrightarrow> accepted_all N db t (butlast (map te_transaction pool') @ opt_list extra @ [last (map te_transaction pool')])"
proof -
  let ?kept = "filter (\<lambda>entry. \<not> ShouldEvict (nd_blake2b N) (entry_tx entry) block) pool"
  let ?find = "\<lambda>tx. find (\<lambda>entry. Transaction_equal (nd_blake2b N) (entry_tx entry) (snd tx)) ?kept"
  obtain valid where valid: "valid_transactions N db t extra (map te_transaction ?kept) [] c = (Inr valid, c')"
    "pool' = List.map_filter ?find valid"
    using run by (auto simp: Pool_ReconcileBlock_def FindValidTransactions_def Let_def split: prod.splits sum.splits)
  obtain ws where ws: "valid = ws" "subseq ws (map te_transaction ?kept)"
    "ws \<noteq> [] \<longrightarrow> accepted_all N db t (butlast valid @ opt_list extra @ [last valid])"
    using valid_transactions_accepted [OF valid(1)] by auto
  then obtain es where es: "subseq es ?kept" "valid = map te_transaction es" by (auto elim: subseq_mapE)
  have sub: "set es \<subseteq> set ?kept" using es(1) by (auto elim: list_emb_set)
  have inj': "no_collision N ?kept" using inj unfolding no_collision_def by (rule inj_on_subset) auto
  note f = found_entries [OF len inj' sub, folded es(2), folded valid(2)]
  show "set pool' \<subseteq> set pool" "\<forall>entry \<in> set pool'. \<not> ShouldEvict (nd_blake2b N) (entry_tx entry) block"
    using f(1) by auto
  show "subseq (map entry_tx pool') (map entry_tx pool)"
    unfolding f(2) using subseq_map [OF subseq_order.trans [OF es(1) subseq_filter_left]] .
  have eq: "map snd valid = map snd (map te_transaction pool')" using f(2) by (simp add: es(2) comp_def)
  have "map snd (butlast valid @ opt_list extra @ [last valid]) =
      map snd (butlast (map te_transaction pool') @ opt_list extra @ [last (map te_transaction pool')])" if "pool' \<noteq> []"
  proof -
    have "valid \<noteq> []" using that f(2) es(2) by auto
    then show ?thesis using that arg_cong [OF eq, of butlast] arg_cong [OF eq, of last] by (simp add: map_butlast last_map)
  qed
  moreover have "ws \<noteq> []" if "pool' \<noteq> []" using that f(2) es(2) ws(1) by auto
  ultimately show "pool' \<noteq> [] \<longrightarrow>
      accepted_all N db t (butlast (map te_transaction pool') @ opt_list extra @ [last (map te_transaction pool')])"
    using ws(3) accepted_all_snd by blast
qed

lemma not_evicted:
  assumes "\<not> ShouldEvict B tx block"
  shows "set (b_inputs (tx_body tx)) \<inter> set (b_inputs (fb_body block)) = {}"
    and "Kernel_GetHash B ` set (b_kernels (tx_body tx)) \<inter> Kernel_GetHash B ` set (b_kernels (fb_body block)) = {}"
proof -
  have "Input_equal i i" for i by (simp add: Input_equal_def)
  then show "set (b_inputs (tx_body tx)) \<inter> set (b_inputs (fb_body block)) = {}"
    using assms by (auto simp: ShouldEvict_def list_ex_iff)
  show "Kernel_GetHash B ` set (b_kernels (tx_body tx)) \<inter> Kernel_GetHash B ` set (b_kernels (fb_body block)) = {}"
  proof (rule ccontr)
    assume "\<not> ?thesis"
    then obtain x krn where "krn \<in> set (b_kernels (tx_body tx))" "x \<in> set (b_kernels (fb_body block))"
      "Kernel_GetHash B krn = Kernel_GetHash B x" by auto
    then have "ShouldEvict B tx block" unfolding ShouldEvict_def list_ex_iff Kernel_equal_def by (metis BigInteger_equal_refl)
    then show False using assms by simp
  qed
qed

text \<open>
  C18. The pools after a block. When a block is reconciled without an exception, the entries that are left in either
  pool are old ones, in their old order; none has an input of the block, or a kernel with the hash of a kernel of the
  block; the transactions of the
  memory pool together form one transaction that is accepted on top of the hash set; and so do those of the stem
  pool together with the memory pool's. (No two transactions in a pool have the same hash unless they are equal.)
\<close>

theorem ReconcileBlock_keeps_valid:
  assumes run: "TransactionPool_ReconcileBlock N db t block tp cache = (Inr (), tp', cache')"
    and hash: "\<forall>x. length (nd_blake2b N x) = 32" "no_collision N (tp_memPool tp)" "no_collision N (tp_stemPool tp)"
  shows "set (tp_memPool tp') \<subseteq> set (tp_memPool tp) \<and> set (tp_stemPool tp') \<subseteq> set (tp_stemPool tp) \<and>
    subseq (map entry_tx (tp_memPool tp')) (map entry_tx (tp_memPool tp)) \<and>
    subseq (map entry_tx (tp_stemPool tp')) (map entry_tx (tp_stemPool tp)) \<and>
    (\<forall>entry \<in> set (tp_memPool tp' @ tp_stemPool tp').
       set (b_inputs (tx_body (entry_tx entry))) \<inter> set (b_inputs (fb_body block)) = {} \<and>
       Kernel_GetHash (nd_blake2b N) ` set (b_kernels (tx_body (entry_tx entry))) \<inter>
         Kernel_GetHash (nd_blake2b N) ` set (b_kernels (fb_body block)) = {}) \<and>
    (tp_memPool tp' \<noteq> [] \<longrightarrow> accepted_all N db t (map te_transaction (tp_memPool tp'))) \<and>
    (tp_stemPool tp' \<noteq> [] \<longrightarrow> (\<exists>mem. Pool_Aggregate N 0 (tp_memPool tp') = Inr mem \<and>
       accepted_all N db t (butlast (map te_transaction (tp_stemPool tp')) @ opt_list mem @
         [last (map te_transaction (tp_stemPool tp'))])))"
proof -
  obtain mem c where mem: "Pool_ReconcileBlock N db t block None (tp_memPool tp) cache = (Inr (), mem, c)"
    using run by (auto simp: TransactionPool_ReconcileBlock_def split: prod.splits sum.splits)
  then obtain extra where extra: "Pool_Aggregate N 0 mem = Inr extra"
    using run by (auto simp: TransactionPool_ReconcileBlock_def Let_def split: prod.splits sum.splits)
  then obtain stem where stem: "Pool_ReconcileBlock N db t block extra (tp_stemPool tp) c = (Inr (), stem, cache')"
    "tp' = tp\<lparr>tp_memPool := mem, tp_stemPool := stem\<rparr>"
    using run mem by (auto simp: TransactionPool_ReconcileBlock_def Let_def split: prod.splits)
  note m = Pool_ReconcileBlock_keeps [OF mem hash(1,2)] and s = Pool_ReconcileBlock_keeps [OF stem(1) hash(1,3)]
  have "accepted_all N db t (map te_transaction mem)" if "mem \<noteq> []"
    using m(4) that append_butlast_last_id [of "map te_transaction mem"] by simp
  moreover have "\<forall>entry \<in> set (mem @ stem). \<not> ShouldEvict (nd_blake2b N) (entry_tx entry) block" using m(3) s(3) by auto
  then have "\<forall>entry \<in> set (mem @ stem). set (b_inputs (tx_body (entry_tx entry))) \<inter> set (b_inputs (fb_body block)) = {} \<and>
      Kernel_GetHash (nd_blake2b N) ` set (b_kernels (tx_body (entry_tx entry))) \<inter>
        Kernel_GetHash (nd_blake2b N) ` set (b_kernels (fb_body block)) = {}"
    using not_evicted by blast
  ultimately show ?thesis using m(1,2) s(1,2,4) stem(2) extra by simp
qed

definition tail_hash :: "bytes \<Rightarrow> bytes" where
  "tail_hash bs = take 32 (rev bs @ replicate 32 0)"

definition sample_node :: "u32 set node" where
  "sample_node = \<lparr>nd_secp = \<lparr>pedersen_commit = \<lambda>_ _. Some (replicate 33 8), pedersen_commit_sum = \<lambda>_ _. Some (replicate 33 9),
       rangeproof_verify_multi = \<lambda>_ _. Some True, schnorrsig_verify_batch = \<lambda>_ _ _. True\<rparr>,
     nd_blindSum = \<lambda>_ _. Some (replicate 32 1), nd_blake2b = tail_hash, nd_sipHash = \<lambda>_ _ _. 0, nd_roaring = set_roaring,
     nd_env = MAINNET, nd_feeBase = 500000, nd_stemProbability = 90, nd_embargoSeconds = 180\<rparr>"

definition sample_entry :: "u8 \<Rightarrow> TxPoolEntry" where
  "sample_entry n = \<lparr>te_transaction = (unat n, \<lparr>tx_offset = replicate 32 3, tx_body =
       \<lparr>b_inputs = [], b_outputs = [\<lparr>o_features = 0, o_commitment = replicate 33 n, o_rangeProof = []\<rparr>],
        b_kernels = [\<lparr>k_features = DEFAULT_KERNEL, k_fee = Fee_Default, k_lockHeight = 0, k_excessCommitment = replicate 33 n,
          k_excessSignature = replicate 64 n\<rparr>]\<rparr>\<rparr>), te_status = FLUFFED, te_timestamp = 0\<rparr>"

lemma sample_kernel_hash: "Kernel_GetHash tail_hash krn = replicate 32 n" if "k_excessSignature krn = replicate 64 n"
  using that by (simp add: Kernel_GetHash_def Kernel_Serialize_def version_ge_def AppendBigInteger_def tail_hash_def)

lemma sample_evicted:
  "ShouldEvict tail_hash (entry_tx (sample_entry m)) (sample_block [] []\<lparr>fb_body := tx_body (entry_tx (sample_entry n))\<rparr>) \<longleftrightarrow> m = n"
  by (auto simp: ShouldEvict_def Kernel_equal_def sample_entry_def sample_kernel_hash BigInteger_equal_iff)

lemma sample_validated:
  "\<exists>c. TransactionValidator_Validate (nd_secp sample_node) tail_hash MAINNET (Cache_New 10) (entry_tx (sample_entry n)) h = (Inr (), c)"
proof -
  have weight: "ValidateWeight MAINNET (tx_body (entry_tx (sample_entry n))) h = Inr ()"
    by (simp add: ValidateWeight_def CalcWeight_def sample_entry_def require_def CalculateWeightV4_def CalculateWeightV5_def
        MAX_BLOCK_WEIGHT_def OUTPUT_WEIGHT_def KERNEL_WEIGHT_def)
  have features: "ValidateFeatures (tx_body (entry_tx (sample_entry n))) = Inr ()"
    by (simp add: ValidateFeatures_def sample_entry_def require_def Output_IsCoinbase_def Kernel_IsCoinbase_def
        kernel_features_defs COINBASE_OUTPUT_def)
  have sums: "Transaction_ValidateKernelSums (nd_secp sample_node) (entry_tx (sample_entry n)) = Inr ()"
    by (simp add: Transaction_ValidateKernelSums_def sample_entry_def Fee_Default_def ValidateKernelSums_body_def
        ValidateKernelSums_def overage_commitments_def AddCommitmentsChunked_def COMMITMENT_SUM_CHUNK_SIZE_def AddCommitments_def
        AddKernelOffset_def CommitBlinded_def or_throw_def rethrow_bad_data_def sample_node_def BigInteger_equal_iff)
  have "\<exists>c. TxBodyValidator_Validate (nd_secp sample_node) tail_hash (Cache_New 10) (tx_body (entry_tx (sample_entry n))) = (Inr (), c)"
    by (simp add: TxBodyValidator_Validate_def VerifySorted_def VerifyCutThrough_def VerifyRangeProofs_def VerifyBulletproofs_def
        sample_entry_def require_def BatchVerify_def VerifyKernelSignatures_def sample_node_def WasAlreadyVerified_def
        Cache_Get_def Cache_New_def)
  then show ?thesis using weight features sums by (auto simp: TransactionValidator_Validate_def)
qed

lemma sample_unspent:
  "TxHashSet_IsValid set_roaring MAINNET (snd (empty_state h)) (entry_tx (sample_entry n)) (fst (empty_state h)) = Inr True"
  by (simp add: TxHashSet_IsValid_def sample_entry_def empty_state_def TxHashSet_New_def GetOutputPosition_row row_def read_position_def)

theorem ReconcileBlock_keeps_valid_witness:
  "let s = empty_state (sample_header tail_hash); block = sample_block [] []\<lparr>fb_body := tx_body (entry_tx (sample_entry 7))\<rparr>
   in \<exists>c. TransactionPool_ReconcileBlock sample_node (snd s) (fst s) block
        \<lparr>tp_memPool = [sample_entry 7, sample_entry 6], tp_stemPool = []\<rparr> (Cache_New 10) =
        (Inr (), \<lparr>tp_memPool = [sample_entry 6], tp_stemPool = []\<rparr>, c) \<and>
      accepted_all sample_node (snd s) (fst s) [te_transaction (sample_entry 6)]"
proof -
  let ?s = "empty_state (sample_header tail_hash)" and ?six = "sample_entry 6"
  let ?block = "sample_block [] []\<lparr>fb_body := tx_body (entry_tx (sample_entry 7))\<rparr>"
  let ?pool = "\<lparr>tp_memPool = [sample_entry 7, ?six], tp_stemPool = []\<rparr>"
  have node: "nd_blake2b sample_node = tail_hash" "nd_env sample_node = MAINNET" "nd_roaring sample_node = set_roaring"
    by (simp_all add: sample_node_def)
  have header: "th_headerBackup (fst ?s) = Some (sample_header tail_hash)" by (simp add: empty_state_def TxHashSet_New_def)
  obtain c where "TransactionValidator_Validate (nd_secp sample_node) tail_hash MAINNET (Cache_New 10) (entry_tx ?six)
      (h_height (sample_header tail_hash) + 1) = (Inr (), c)"
    using sample_validated by blast
  then have c: "IsValidTransaction sample_node (snd ?s) (fst ?s) (entry_tx ?six) (Cache_New 10) = (Inr True, c)"
    by (simp add: IsValidTransaction_def node header sample_unspent)
  have same: "Transaction_equal tail_hash (entry_tx ?six) (entry_tx ?six)" by (simp add: Transaction_equal_def BigInteger_equal_iff)
  have mem: "Pool_ReconcileBlock sample_node (snd ?s) (fst ?s) ?block None [sample_entry 7, ?six] (Cache_New 10) = (Inr (), [?six], c)"
    by (simp add: Pool_ReconcileBlock_def FindValidTransactions_def node sample_evicted Aggregate_def c same List.map_filter_simps)
  have run: "TransactionPool_ReconcileBlock sample_node (snd ?s) (fst ?s) ?block ?pool (Cache_New 10) =
      (Inr (), \<lparr>tp_memPool = [?six], tp_stemPool = []\<rparr>, c)"
    by (simp add: TransactionPool_ReconcileBlock_def mem Pool_Aggregate_def Aggregate_def Pool_ReconcileBlock_def [of _ _ _ _ _ "[]"]
        FindValidTransactions_def List.map_filter_simps)
  have hash: "Transaction_GetHash tail_hash (entry_tx (sample_entry n)) = replicate 32 n" for n
    by (simp add: Transaction_GetHash_def Transaction_Serialize_def Body_Serialize_def sample_entry_def Kernel_Serialize_def
        version_ge_def AppendBigInteger_def tail_hash_def)
  have "\<forall>x. length (nd_blake2b sample_node x) = 32" "no_collision sample_node (tp_memPool ?pool)"
    "no_collision sample_node (tp_stemPool ?pool)"
    by (auto simp: no_collision_def node hash inj_on_def) (simp add: tail_hash_def min_def)
  from ReconcileBlock_keeps_valid [OF run this] run show ?thesis by (auto simp: Let_def)
qed

end
