(* ===== verification/BlockProcessor.thy ===== *)
theory BlockProcessor
  imports Rewind Chain TxPool
begin

text \<open>
  The state of the chain and the processing of blocks and headers: \<^verbatim>\<open>src/BlockChain/ChainState.cpp\<close>,
  \<^verbatim>\<open>src/BlockChain/Processors\<close> and the batches of \<^verbatim>\<open>include/Core/Traits/Lockable.h\<close>. A batch opens a writer on the
  chains, the block database, the header range and the hash set; when it ends, whatever was not committed is rolled
  back. Which files can be written is an argument, as are the clock and the libraries. A block carries the flag whether
  it was validated before; blocks in the orphan pool were, blocks read from the database were not. A header that cannot
  be read while a proof of work is validated counts as missing.
\<close>

section \<open>The state\<close>

record 'b ChainState =
  st_chains :: ChainStore
  st_db :: BlockDB
  st_headers :: HeaderMMR
  st_hashSet :: "'b TxHashSet option"
  st_orphans :: OrphanPool
  st_pool :: TransactionPool
  st_cache :: proof_cache

record disk =
  dk_confirmed :: bool
  dk_candidate :: bool
  dk_db :: bool
  dk_header :: bool
  dk_kernel :: "bool \<times> bool \<times> bool"
  dk_output :: "bool \<times> bool \<times> bool"
  dk_proof :: "bool \<times> bool \<times> bool"

text \<open>Running an operation of a part of the state.\<close>

definition on_chains :: "(ChainStore \<Rightarrow> 'a result \<times> ChainStore) \<Rightarrow> ('b ChainState, 'a) exec" where
  "on_chains f st = (case f (st_chains st) of (r, cs) \<Rightarrow> Some (r, st\<lparr>st_chains := cs\<rparr>))"

definition on_database :: "(BlockDB \<Rightarrow> 'a result \<times> BlockDB) \<Rightarrow> ('b ChainState, 'a) exec" where
  "on_database f st = (case f (st_db st) of (r, db) \<Rightarrow> Some (r, st\<lparr>st_db := db\<rparr>))"

definition on_headers :: "(HeaderMMR, 'a) exec \<Rightarrow> ('b ChainState, 'a) exec" where
  "on_headers f st = map_option (\<lambda>(r, m). (r, st\<lparr>st_headers := m\<rparr>)) (f (st_headers st))"

definition on_data :: "('b chain_data, 'a) exec \<Rightarrow> ('b ChainState, 'a) exec" where
  "on_data f st =
     (case st_hashSet st of
        None \<Rightarrow> Some (Inl Undefined, st)
      | Some t \<Rightarrow> map_option (\<lambda>(r, s). (r, st\<lparr>st_hashSet := Some (fst s), st_db := snd s\<rparr>)) (f (t, st_db st)))"

text \<open>Reading from the state, where a loop may not end.\<close>

definition eread :: "('s \<Rightarrow> 'a result option) \<Rightarrow> ('s, 'a) exec" where
  "eread f s = map_option (\<lambda>r. (r, s)) (f s)"

definition echeck :: "bool \<Rightarrow> exn \<Rightarrow> ('s, unit) exec" where
  "echeck c e = (if c then ereturn () else eraise e)"

fun eforeach :: "('x \<Rightarrow> ('s, unit) exec) \<Rightarrow> 'x list \<Rightarrow> ('s, unit) exec" where
  "eforeach f [] = ereturn ()"
| "eforeach f (x # xs) = ebind (f x) (\<lambda>_. eforeach f xs)"

section \<open>Batches\<close>

text \<open>Giving up the batch of the header range gives up the writer of its file, which rolls the file back.\<close>

definition HeaderMMR_OnEndWrite :: "HeaderMMR \<Rightarrow> HeaderMMR" where
  "HeaderMMR_OnEndWrite m = m\<lparr>hm_hashFile := DataFile_Rollback (hm_hashFile m)\<rparr>"

definition Manager_Commit :: "'b roaring \<Rightarrow> disk \<Rightarrow> ('b ChainState, unit) exec" where
  "Manager_Commit R D st =
     (case st_hashSet st of
        None \<Rightarrow> Some (Inr (), st)
      | Some t \<Rightarrow>
          map_option (\<lambda>t. (Inr (), st\<lparr>st_hashSet := Some t\<rparr>))
            (TxHashSet_Commit R (dk_kernel D) (dk_output D) (dk_proof D) t))"

definition Manager_Rollback :: "'b roaring \<Rightarrow> 'b ChainState \<Rightarrow> 'b ChainState" where
  "Manager_Rollback R st = st\<lparr>st_hashSet := map_option (TxHashSet_Rollback R) (st_hashSet st)\<rparr>"

definition ChainState_Commit :: "'b roaring \<Rightarrow> disk \<Rightarrow> ('b ChainState, unit) exec" where
  "ChainState_Commit R D =
     ebind (on_chains (ChainStore_Commit (dk_confirmed D) (dk_candidate D))) (\<lambda>_.
     ebind (on_database (BlockDB_Commit (dk_db D))) (\<lambda>_.
     ebind (on_headers (\<lambda>m. Some (HeaderMMR_Commit (dk_header D) m))) (\<lambda>_.
       Manager_Commit R D)))"

definition rollback_chains :: "('b ChainState, unit) exec" where
  "rollback_chains st = map_option (\<lambda>cs. (Inr (), st\<lparr>st_chains := cs\<rparr>)) (ChainStore_Rollback (st_chains st))"

definition ChainState_Rollback :: "'b roaring \<Rightarrow> ('b ChainState, unit) exec" where
  "ChainState_Rollback R =
     ebind rollback_chains (\<lambda>_.
     ebind (on_database BlockDB_Rollback) (\<lambda>_.
     ebind (on_headers (emodify HeaderMMR_Rollback)) (\<lambda>_.
       emodify (Manager_Rollback R))))"

definition ChainState_OnInitWrite :: "'b ChainState \<Rightarrow> 'b ChainState" where
  "ChainState_OnInitWrite st =
     st\<lparr>st_chains := ChainStore_OnInitWrite (st_chains st), st_db := BlockDB_OnInitWrite True (st_db st),
        st_headers := HeaderMMR_OnInitWrite (st_headers st)\<rparr>"

text \<open>The writers are given up one after the other; each rolls back once more what it wrote to.\<close>

definition ChainState_OnEndWrite :: "'b roaring \<Rightarrow> ('b ChainState, unit) exec" where
  "ChainState_OnEndWrite R =
     ebind rollback_chains (\<lambda>_.
     ebind (on_chains (\<lambda>cs. (Inr (), ChainStore_OnEndWrite cs))) (\<lambda>_.
     ebind (on_database BlockDB_Rollback) (\<lambda>_.
     ebind (on_database (\<lambda>db. (Inr (), BlockDB_OnEndWrite db))) (\<lambda>_.
     ebind (on_headers (emodify (HeaderMMR_OnEndWrite \<circ> HeaderMMR_Rollback))) (\<lambda>_.
       emodify (Manager_Rollback R))))))"

definition BatchWrite :: "'b roaring \<Rightarrow> ('b ChainState, 'a) exec \<Rightarrow> ('b ChainState, 'a) exec" where
  "BatchWrite R f st =
     (case f (ChainState_OnInitWrite st) of
        None \<Rightarrow> None
      | Some (r, st) \<Rightarrow>
          ebind (ChainState_Rollback R) (\<lambda>_. ebind (ChainState_OnEndWrite R) (\<lambda>_. easks (\<lambda>_. r))) st)"

section \<open>Queries\<close>

definition GetTipBlockHeader :: "(bytes \<Rightarrow> bytes) \<Rightarrow> EChainType \<Rightarrow> 'b ChainState \<Rightarrow> BlockHeader option result" where
  "GetTipBlockHeader Blake2b ty st =
     rbind (GetTipHash (GetChain ty (st_chains st))) (\<lambda>headHash. GetBlockHeader Blake2b headHash (st_db st))"

definition GetTotalDifficulty :: "(bytes \<Rightarrow> bytes) \<Rightarrow> EChainType \<Rightarrow> 'b ChainState \<Rightarrow> u64 result" where
  "GetTotalDifficulty Blake2b ty st =
     rbind (GetTipBlockHeader Blake2b ty st) (\<lambda>head. Inr (case head of None \<Rightarrow> 0 | Some h \<Rightarrow> h_totalDifficulty h))"

definition GetBlockHeaderByHeight ::
  "(bytes \<Rightarrow> bytes) \<Rightarrow> u64 \<Rightarrow> EChainType \<Rightarrow> 'b ChainState \<Rightarrow> BlockHeader option result" where
  "GetBlockHeaderByHeight Blake2b height ty st =
     (case GetByHeight height (GetChain ty (st_chains st)) of
        None \<Rightarrow> Inr None
      | Some i \<Rightarrow> GetBlockHeader Blake2b (bi_hash i) (st_db st))"

definition GetBlockHeaderByCommitment ::
  "(bytes \<Rightarrow> bytes) \<Rightarrow> bytes \<Rightarrow> 'b ChainState \<Rightarrow> BlockHeader option result" where
  "GetBlockHeaderByCommitment Blake2b outputCommitment st =
     rbind (GetOutputPosition outputCommitment (st_db st)) (\<lambda>location.
       case location of
         None \<Rightarrow> Inr None
       | Some l \<Rightarrow> GetBlockHeaderByHeight Blake2b (ol_blockHeight l) CONFIRMED st)"

definition GetBlockByHeight ::
  "(bytes \<Rightarrow> bytes) \<Rightarrow> (bytes \<Rightarrow> u8) \<Rightarrow> u64 \<Rightarrow> 'b ChainState \<Rightarrow> FullBlock option result" where
  "GetBlockByHeight Blake2b GetOutputType height st =
     (case GetByHeight height (cs_confirmed (st_chains st)) of
        None \<Rightarrow> Inr None
      | Some i \<Rightarrow> GetBlock Blake2b GetOutputType (bi_hash i) (st_db st))"

text \<open>The heights from \<open>nextHeight\<close> on are looked up until enough blocks are found; a gap in the chain is a null pointer.\<close>

fun blocks_needed :: "nat \<Rightarrow> 'b ChainState \<Rightarrow> u64 list \<Rightarrow> (u64 \<times> bytes) list \<Rightarrow> (u64 \<times> bytes) list result" where
  "blocks_needed n st [] found = Inr found"
| "blocks_needed n st (height # heights) found =
     (case GetByHeight height (cs_candidate (st_chains st)) of
        None \<Rightarrow> Inl Undefined
      | Some i \<Rightarrow>
          if IsOrphan height (bi_hash i) (st_orphans st) then blocks_needed n st heights found
          else
            let found = found @ [(height, bi_hash i)]
            in if length found = n then Inr found else blocks_needed n st heights found)"

definition GetBlocksNeeded :: "nat \<Rightarrow> 'b ChainState \<Rightarrow> (u64 \<times> bytes) list result option" where
  "GetBlocksNeeded maxNumBlocks st =
     (case GetTip (cs_candidate (st_chains st)) of
        Inl e \<Rightarrow> Some (Inl e)
      | Inr tip \<Rightarrow>
          map_option (\<lambda>common. rbind common (\<lambda>i.
            blocks_needed maxNumBlocks st (map of_nat [unat (bi_height i + 1)..<Suc (unat (bi_height tip))]) []))
            (FindCommonIndex CANDIDATE CONFIRMED (st_chains st)))"

section \<open>Adding a block\<close>

datatype EBlockChainStatus =
  SUCCESS | UNKNOWN_ERROR | STORE_ERROR | TRANSACTIONS_MISSING | ALREADY_EXISTS | NOT_FOUND | INVALID | ORPHANED

datatype EBlockStatus = NEXT_BLOCK | REORG | ORPHAN

type_synonym flagged_block = "bool \<times> FullBlock"

definition verify_block :: "'b node \<Rightarrow> flagged_block \<Rightarrow> ('b ChainState, unit) exec" where
  "verify_block N fb st =
     (case VerifySelfConsistent (nd_secp N) (nd_blake2b N) (nd_env N) (st_cache st) (snd fb) (fst fb) of
        (r, cache, _) \<Rightarrow> Some (r, st\<lparr>st_cache := cache\<rparr>))"

definition reconcile_pool :: "'b node \<Rightarrow> FullBlock \<Rightarrow> ('b ChainState, unit) exec" where
  "reconcile_pool N block st =
     (case st_hashSet st of
        None \<Rightarrow> Some (Inl Undefined, st)
      | Some t \<Rightarrow>
          (case TransactionPool_ReconcileBlock N (st_db st) t block (st_pool st) (st_cache st) of
             (r, tp, cache) \<Rightarrow> Some (r, st\<lparr>st_pool := tp, st_cache := cache\<rparr>)))"

text \<open>What is checked and stored once the block has been applied to the hash set.\<close>

definition finish_block :: "'b node \<Rightarrow> flagged_block \<Rightarrow> ('b ChainState, unit) exec" where
  "finish_block N fb =
     (let block = snd fb; header = fb_header block; hash = Header_GetHash header;
          previousHash = h_previousBlockHash header; Blake2b = nd_blake2b N
      in ebind (eread (\<lambda>st. ValidateNRDKernelRules Blake2b (st_db st) block (the (st_hashSet st)))) (\<lambda>nrd.
         ebind (echeck nrd BadDataException) (\<lambda>_.
         ebind (verify_block N fb) (\<lambda>_.
         ebind (eread (\<lambda>st. ValidateRoots Blake2b (nd_roaring N) header (the (st_hashSet st)))) (\<lambda>roots.
         ebind (echeck roots BadDataException) (\<lambda>_.
         ebind (easks (\<lambda>st. GetBlockSums previousHash (st_db st))) (\<lambda>pPreviousBlockSums.
         ebind (echeck (pPreviousBlockSums \<noteq> None) BlockChainException) (\<lambda>_.
         ebind (easks (\<lambda>_. ValidateKernelSums_body (nd_secp N) (fb_body block) (0 - REWARD)
                  (h_totalKernelOffset header) pPreviousBlockSums)) (\<lambda>blockSums.
         ebind (on_database (\<lambda>db. (Inr (), AddBlock block (AddBlockSums hash blockSums db)))) (\<lambda>_.
         ebind (emodify (\<lambda>st. st\<lparr>st_orphans := RemoveOrphan (h_height header) hash (st_orphans st)\<rparr>)) (\<lambda>_.
           reconcile_pool N block)))))))))))"

definition ValidateAndAddBlock :: "'b node \<Rightarrow> flagged_block \<Rightarrow> ('b ChainState, unit) exec" where
  "ValidateAndAddBlock N fb =
     (let block = snd fb; previousHash = h_previousBlockHash (fb_header block)
      in ebind (easks (\<lambda>st. GetBlockHeader (nd_blake2b N) previousHash (st_db st))) (\<lambda>pPreviousHeader.
         ebind (echeck (pPreviousHeader \<noteq> None) BlockChainException) (\<lambda>_.
         ebind (easks (\<lambda>st. Inr (st_hashSet st = None))) (\<lambda>isNull.
         ebind (if isNull then ereturn False else on_data (ApplyBlock (nd_blake2b N) (nd_roaring N) (nd_env N) block)) (\<lambda>applied.
         ebind (echeck applied BadDataException) (\<lambda>_.
           finish_block N fb))))))"

section \<open>Processing a block\<close>

text \<open>The predecessor of a block, unless it is on the confirmed chain (\<open>Inl\<close>); it may be missing (\<open>Inr None\<close>).\<close>

definition fork_parent ::
  "(bytes \<Rightarrow> bytes) \<Rightarrow> (bytes \<Rightarrow> u8) \<Rightarrow> 'b ChainState \<Rightarrow> FullBlock \<Rightarrow> (unit + flagged_block option) result" where
  "fork_parent Blake2b GetOutputType st pForkBlock =
     (let previousHash = h_previousBlockHash (fb_header pForkBlock); height = block_height pForkBlock - 1
      in rbind (IsOnChain height previousHash (cs_confirmed (st_chains st))) (\<lambda>confirmed.
           if confirmed then Inr (Inl ())
           else
             case GetOrphanBlock height previousHash (st_orphans st) of
               Some block \<Rightarrow> Inr (Inr (Some (True, block)))
             | None \<Rightarrow>
                 rbind (GetBlock Blake2b GetOutputType previousHash (st_db st)) (\<lambda>pBlock.
                   Inr (Inr (map_option (Pair False) pBlock)))))"

text \<open>The blocks of a fork, from the new one down to the one whose predecessor is on the confirmed chain.\<close>

partial_function (option) fork_blocks ::
    "(bytes \<Rightarrow> bytes) \<Rightarrow> (bytes \<Rightarrow> u8) \<Rightarrow> 'b ChainState \<Rightarrow> FullBlock \<Rightarrow> flagged_block list \<Rightarrow>
     flagged_block list option result option" where
  "fork_blocks Blake2b GetOutputType st pForkBlock reorgBlocks =
     (case fork_parent Blake2b GetOutputType st pForkBlock of
        Inl e \<Rightarrow> Some (Inl e)
      | Inr p \<Rightarrow>
          (case p of
             Inl _ \<Rightarrow> Some (Inr (Some reorgBlocks))
           | Inr q \<Rightarrow>
               (case q of
                  None \<Rightarrow> Some (Inr None)
                | Some fb \<Rightarrow> fork_blocks Blake2b GetOutputType st (snd fb) (fb # reorgBlocks))))"

definition DetermineBlockStatus ::
  "(bytes \<Rightarrow> bytes) \<Rightarrow> (bytes \<Rightarrow> u8) \<Rightarrow> flagged_block \<Rightarrow> 'b ChainState \<Rightarrow>
   (EBlockStatus \<times> flagged_block list) result option" where
  "DetermineBlockStatus Blake2b GetOutputType fb st =
     (case GetBlockHeader Blake2b (block_hash (snd fb)) (st_db st) of
        Inl e \<Rightarrow> Some (Inl e)
      | Inr None \<Rightarrow> Some (Inr (ORPHAN, []))
      | Inr (Some _) \<Rightarrow>
          (case GetTipHash (cs_confirmed (st_chains st)) of
             Inl e \<Rightarrow> Some (Inl e)
           | Inr tip \<Rightarrow>
               if BigInteger_equal tip (h_previousBlockHash (fb_header (snd fb))) then Some (Inr (NEXT_BLOCK, []))
               else
                 map_option (\<lambda>r. rbind r (\<lambda>found. Inr (case found of None \<Rightarrow> (ORPHAN, []) | Some blocks \<Rightarrow> (REORG, blocks))))
                   (fork_blocks Blake2b GetOutputType st (snd fb) [fb])))"

definition add_confirmed :: "FullBlock \<Rightarrow> ('b ChainState, unit) exec" where
  "add_confirmed block =
     on_chains (on_chain CONFIRMED (\<lambda>others. Chain_AddBlock others (block_hash block) (block_height block)))"

definition HandleReorg ::
  "'b node \<Rightarrow> (bytes \<Rightarrow> u8) \<Rightarrow> disk \<Rightarrow> flagged_block list \<Rightarrow> ('b ChainState, unit) exec" where
  "HandleReorg N GetOutputType D reorgBlocks =
     (let Blake2b = nd_blake2b N; R = nd_roaring N; first = fb_header (snd (hd reorgBlocks))
      in ebind (easks (GetTotalDifficulty Blake2b CONFIRMED)) (\<lambda>totalDifficulty.
         ebind (easks (\<lambda>st. Inr (st_hashSet st = None))) (\<lambda>isNull.
         ebind (echeck (\<not> isNull) BlockChainException) (\<lambda>_.
         ebind (easks (\<lambda>st. GetBlockHeader Blake2b (h_previousBlockHash first) (st_db st))) (\<lambda>pCommonHeader.
         ebind (echeck (pCommonHeader \<noteq> None) BlockChainException) (\<lambda>_.
         ebind (on_data (TxHashSet_Rewind Blake2b R GetOutputType (the pCommonHeader))) (\<lambda>_.
         ebind (eforeach (ValidateAndAddBlock N) reorgBlocks) (\<lambda>_.
           if totalDifficulty < h_totalDifficulty (fb_header (snd (last reorgBlocks))) then
             ebind (on_chains (on_chain CONFIRMED (\<lambda>others. Chain_Rewind (h_height first - 1)))) (\<lambda>_.
             ebind (eforeach (\<lambda>fb. add_confirmed (snd fb)) reorgBlocks) (\<lambda>_.
               ChainState_Commit R D))
           else
             ebind (ChainState_Rollback R) (\<lambda>_.
             ebind (on_database (\<lambda>db. (Inr (), fold (\<lambda>fb. AddBlock (snd fb)) reorgBlocks db))) (\<lambda>_.
               on_database (BlockDB_Commit (dk_db D))))))))))))"

definition ProcessBlockInternal ::
  "'b node \<Rightarrow> (bytes \<Rightarrow> u8) \<Rightarrow> disk \<Rightarrow> flagged_block \<Rightarrow> ('b ChainState, EBlockChainStatus) exec" where
  "ProcessBlockInternal N GetOutputType D fb =
     (let block = snd fb; hash = block_hash block; height = block_height block; Blake2b = nd_blake2b N
      in BatchWrite (nd_roaring N)
           (ebind (easks (\<lambda>st. IsOnChain height hash (cs_confirmed (st_chains st)))) (\<lambda>confirmed.
            if confirmed then ereturn ALREADY_EXISTS
            else
              ebind (easks (\<lambda>st. GetBlock Blake2b GetOutputType hash (st_db st))) (\<lambda>pBlock.
              if pBlock \<noteq> None then ereturn ALREADY_EXISTS
              else
                ebind (eread (DetermineBlockStatus Blake2b GetOutputType fb)) (\<lambda>(status, reorgBlocks).
                if status = ORPHAN then
                  ebind (easks (\<lambda>st. Inr (IsOrphan height hash (st_orphans st)))) (\<lambda>orphan.
                  if orphan then ereturn ALREADY_EXISTS
                  else
                    ebind (emodify (\<lambda>st. st\<lparr>st_orphans := AddOrphanBlock block (st_orphans st)\<rparr>)) (\<lambda>_.
                      ereturn ORPHANED))
                else if status = REORG then
                  ebind (HandleReorg N GetOutputType D reorgBlocks) (\<lambda>_. ereturn SUCCESS)
                else
                  ebind (ValidateAndAddBlock N fb) (\<lambda>_.
                  ebind (add_confirmed block) (\<lambda>_.
                  ebind (ChainState_Commit (nd_roaring N) D) (\<lambda>_. ereturn SUCCESS))))))))"

section \<open>Processing headers\<close>

definition BAD_BLOCKS :: "bytes list" where
  "BAD_BLOCKS = [[0x00, 0x02, 0x89, 0x71, 0x82, 0xD8, 0xCF, 0x76, 0x31, 0xE8, 0x6D, 0x56, 0xAD, 0x54, 0x6B, 0x7C,
     0xF0, 0x89, 0x3B, 0xDA, 0x81, 0x15, 0x92, 0xAA, 0x93, 0x12, 0xAE, 0x63, 0x3C, 0xE0, 0x48, 0x13]]"

definition is_bad :: "BlockHeader \<Rightarrow> bool" where
  "is_bad header = list_ex (\<lambda>hash. BigInteger_equal hash (Header_GetHash header)) BAD_BLOCKS"

definition SYNC_BATCH_SIZE :: nat where "SYNC_BATCH_SIZE = 512"

text \<open>
  The time, in ticks of which there are \<open>tps\<close> in a second, stands still during a call. The root of the header range is
  compared last; the comparison with an empty root holds, and an exception while it is computed is raised afterwards.
\<close>

record clock =
  ck_ticksPerSecond :: u64
  ck_now :: u64

definition validate_header :: "'b node \<Rightarrow> clock \<Rightarrow> BlockHeader \<Rightarrow> BlockHeader \<Rightarrow> ('b ChainState, unit) exec" where
  "validate_header N C header prev_header =
     eread (\<lambda>st.
       let lookup = (\<lambda>hash. case GetBlockHeader (nd_blake2b N) hash (st_db st) of Inl _ \<Rightarrow> None | Inr h \<Rightarrow> h);
           root = (\<lambda>height. HeaderMMR_Root (nd_blake2b N) (nd_roaring N) height (st_headers st))
       in map_option (\<lambda>r. rbind r (\<lambda>_. rbind (root (h_height header - 1)) (\<lambda>_. Inr ())))
            (BlockHeaderValidator_Validate (nd_blake2b N) (nd_env N) (ck_ticksPerSecond C) (ck_now C) lookup
               (\<lambda>height. case root height of Inl _ \<Rightarrow> [] | Inr r \<Rightarrow> r) header prev_header))"

definition add_header :: "'b node \<Rightarrow> BlockHeader \<Rightarrow> ('b ChainState, unit) exec" where
  "add_header N header = on_headers (AddHeader (nd_blake2b N) (nd_roaring N) header)"

definition add_candidate :: "BlockHeader \<Rightarrow> ('b ChainState, unit) exec" where
  "add_candidate header =
     on_chains (on_chain CANDIDATE (\<lambda>others. Chain_AddBlock others (Header_GetHash header) (h_height header)))"

fun validate_headers :: "'b node \<Rightarrow> clock \<Rightarrow> BlockHeader list \<Rightarrow> BlockHeader \<Rightarrow> ('b ChainState, unit) exec" where
  "validate_headers N C [] previous = ereturn ()"
| "validate_headers N C (header # headers) previous =
     ebind (validate_header N C header previous) (\<lambda>_.
     ebind (add_header N header) (\<lambda>_.
     ebind (on_database (\<lambda>db. (Inr (), AddBlockHeader header db))) (\<lambda>_.
     ebind (add_candidate header) (\<lambda>_. validate_headers N C headers header))))"

definition ValidateHeaders :: "'b node \<Rightarrow> clock \<Rightarrow> BlockHeader list \<Rightarrow> ('b ChainState, unit) exec" where
  "ValidateHeaders N C headers =
     ebind (easks (\<lambda>st. GetBlockHeader (nd_blake2b N) (h_previousBlockHash (hd headers)) (st_db st))) (\<lambda>pPreviousHeader.
       case pPreviousHeader of
         None \<Rightarrow> eraise BlockChainException
       | Some previous \<Rightarrow> validate_headers N C headers previous)"

text \<open>Rewinding the candidate chain and the header range to below a header.\<close>

definition rewind_candidate :: "BlockHeader \<Rightarrow> ('b ChainState, unit) exec" where
  "rewind_candidate header =
     ebind (on_chains (on_chain CANDIDATE (\<lambda>others. Chain_Rewind (h_height header - 1)))) (\<lambda>_.
       on_headers (\<lambda>m. Some (HeaderMMR_Rewind (h_height header) m)))"

text \<open>A branch that is not heavier is kept in the database, but not on the candidate chain.\<close>

definition drop_branch :: "u64 \<Rightarrow> u64 \<Rightarrow> ('b ChainState, unit) exec" where
  "drop_branch difficulty totalDifficulty =
     (if difficulty \<le> totalDifficulty then
        ebind (on_headers (emodify HeaderMMR_Rollback)) (\<lambda>_ st.
          map_option (\<lambda>ch. (Inr (), st\<lparr>st_chains := (st_chains st)\<lparr>cs_candidate := ch\<rparr>\<rparr>))
            (Chain_Rollback [cs_confirmed (st_chains st)] (cs_candidate (st_chains st))))
      else ereturn ())"

text \<open>The next header on the way down: an orphan (its lookup refreshes the cache) or a stored one.\<close>

definition header_parent ::
  "(bytes \<Rightarrow> bytes) \<Rightarrow> BlockDB \<Rightarrow> BlockHeader \<Rightarrow> OrphanPool \<Rightarrow> BlockHeader option result \<times> OrphanPool" where
  "header_parent Blake2b db header orphans =
     (case GetOrphanHeader (h_previousBlockHash header) orphans of
        (Inl e, orphans) \<Rightarrow> (Inl e, orphans)
      | (Inr (Some h), orphans) \<Rightarrow> (Inr (Some h), orphans)
      | (Inr None, orphans) \<Rightarrow> (GetBlockHeader Blake2b (h_previousBlockHash header) db, orphans))"

partial_function (option) reorg_headers ::
    "(bytes \<Rightarrow> bytes) \<Rightarrow> Chain \<Rightarrow> BlockDB \<Rightarrow> BlockHeader \<Rightarrow> BlockHeader list \<Rightarrow> OrphanPool \<Rightarrow>
     (BlockHeader list option result \<times> OrphanPool) option" where
  "reorg_headers Blake2b candidate db header headers orphans =
     (case IsOnChain (h_height header) (Header_GetHash header) candidate of
        Inl e \<Rightarrow> Some (Inl e, orphans)
      | Inr confirmed \<Rightarrow>
          if confirmed then Some (Inr (Some headers), orphans)
          else
            let p = header_parent Blake2b db header orphans
            in (case fst p of
                  Inl e \<Rightarrow> Some (Inl e, snd p)
                | Inr q \<Rightarrow>
                    (case q of
                       None \<Rightarrow> Some (Inr None, snd p)
                     | Some parent \<Rightarrow> reorg_headers Blake2b candidate db parent (header # headers) (snd p))))"

definition ProcessOrphan :: "'b node \<Rightarrow> clock \<Rightarrow> disk \<Rightarrow> BlockHeader \<Rightarrow> ('b ChainState, EBlockChainStatus) exec" where
  "ProcessOrphan N C D header =
     ebind (easks (GetTotalDifficulty (nd_blake2b N) CANDIDATE)) (\<lambda>totalDifficulty.
     ebind (\<lambda>st. map_option (\<lambda>(r, orphans). (r, st\<lparr>st_orphans := orphans\<rparr>))
              (reorg_headers (nd_blake2b N) (cs_candidate (st_chains st)) (st_db st) header [] (st_orphans st))) (\<lambda>found.
       case found of
         None \<Rightarrow>
           ebind (emodify (\<lambda>st. st\<lparr>st_orphans := AddOrphanHeader header (st_orphans st)\<rparr>)) (\<lambda>_. ereturn ORPHANED)
       | Some [] \<Rightarrow> eraise Undefined
       | Some (first # rest) \<Rightarrow>
           ebind (rewind_candidate first) (\<lambda>_.
           ebind (ValidateHeaders N C (first # rest)) (\<lambda>_.
           ebind (drop_branch (h_totalDifficulty header) totalDifficulty) (\<lambda>_.
           ebind (ChainState_Commit (nd_roaring N) D) (\<lambda>_. ereturn SUCCESS))))))"

definition ProcessSingleHeader ::
  "'b node \<Rightarrow> clock \<Rightarrow> disk \<Rightarrow> BlockHeader \<Rightarrow> ('b ChainState, EBlockChainStatus) exec" where
  "ProcessSingleHeader N C D header =
     (if is_bad header then ereturn INVALID
      else BatchWrite (nd_roaring N)
        (ebind (easks (\<lambda>st. GetBlockHeader (nd_blake2b N) (Header_GetHash header) (st_db st))) (\<lambda>known.
         if known \<noteq> None then ereturn ALREADY_EXISTS
         else
           ebind (easks (\<lambda>st. GetTipHash (cs_candidate (st_chains st)))) (\<lambda>tip.
           if \<not> BigInteger_equal tip (h_previousBlockHash header) then ProcessOrphan N C D header
           else
             ebind (easks (\<lambda>st. GetBlockHeader (nd_blake2b N) tip (st_db st))) (\<lambda>pPreviousHeader.
               case pPreviousHeader of
                 None \<Rightarrow> eraise Undefined
               | Some previous \<Rightarrow>
                   ebind (validate_header N C header previous) (\<lambda>_.
                   ebind (on_database (\<lambda>db. (Inr (), AddBlockHeader header db))) (\<lambda>_.
                   ebind (add_header N header) (\<lambda>_.
                   ebind (add_candidate header) (\<lambda>_.
                   ebind (ChainState_Commit (nd_roaring N) D) (\<lambda>_. ereturn SUCCESS))))))))))"

text \<open>The headers from the first on that is not on the candidate chain.\<close>

fun new_headers :: "Chain \<Rightarrow> BlockHeader list \<Rightarrow> BlockHeader list result" where
  "new_headers candidate [] = Inr []"
| "new_headers candidate (header # headers) =
     rbind (IsOnChain (h_height header) (Header_GetHash header) candidate) (\<lambda>known.
       if known then new_headers candidate headers else Inr (header # headers))"

definition ProcessChunkedSyncHeaders ::
  "'b node \<Rightarrow> clock \<Rightarrow> disk \<Rightarrow> BlockHeader list \<Rightarrow> ('b ChainState, EBlockChainStatus) exec" where
  "ProcessChunkedSyncHeaders N C D headers =
     BatchWrite (nd_roaring N)
       (ebind (easks (GetTotalDifficulty (nd_blake2b N) CANDIDATE)) (\<lambda>totalDifficulty.
        ebind (easks (\<lambda>st. IsOnChain (h_height (hd headers) - 1) (h_previousBlockHash (hd headers)) (cs_candidate (st_chains st))))
          (\<lambda>known.
        ebind (echeck known BlockChainException) (\<lambda>_.
        ebind (easks (\<lambda>st. new_headers (cs_candidate (st_chains st)) headers)) (\<lambda>newHeaders.
        if newHeaders = [] then ereturn ALREADY_EXISTS
        else
          ebind (rewind_candidate (hd newHeaders)) (\<lambda>_.
          ebind (ValidateHeaders N C newHeaders) (\<lambda>_.
          ebind (drop_branch (h_totalDifficulty (last newHeaders)) totalDifficulty) (\<lambda>_.
          ebind (ChainState_Commit (nd_roaring N) D) (\<lambda>_. ereturn SUCCESS)))))))))"

fun process_chunks ::
  "'b node \<Rightarrow> clock \<Rightarrow> disk \<Rightarrow> BlockHeader list list \<Rightarrow> ('b ChainState, EBlockChainStatus) exec" where
  "process_chunks N C D [] = ereturn SUCCESS"
| "process_chunks N C D (chunk # chunks') =
     ebind (ProcessChunkedSyncHeaders N C D chunk) (\<lambda>status.
       if status \<noteq> SUCCESS \<and> status \<noteq> ALREADY_EXISTS then ereturn status else process_chunks N C D chunks')"

function chunked :: "nat \<Rightarrow> 'a list \<Rightarrow> 'a list list" where
  "chunked n xs = (if xs = [] \<or> n = 0 then [] else take n xs # chunked n (drop n xs))"
  by pat_completeness auto
termination by (relation "measure (\<lambda>(n, xs). length xs)") auto

declare chunked.simps [simp del]

definition ProcessSyncHeaders ::
  "'b node \<Rightarrow> clock \<Rightarrow> disk \<Rightarrow> BlockHeader list \<Rightarrow> ('b ChainState, EBlockChainStatus) exec" where
  "ProcessSyncHeaders N C D headers =
     (if headers = [] then ereturn SUCCESS
      else if list_ex is_bad headers then eraise BadDataException
      else if h_height (hd headers) = 0 then eraise BadDataException
      else if \<not> list_all (\<lambda>(a, b). h_height b = h_height a + 1) (zip headers (tl headers)) then eraise BadDataException
      else process_chunks N C D (chunked SYNC_BATCH_SIZE headers))"

text \<open>
  A block is validated after its header was processed; the outcome for the header is not looked at.
\<close>

definition ProcessBlock ::
  "'b node \<Rightarrow> (bytes \<Rightarrow> u8) \<Rightarrow> clock \<Rightarrow> disk \<Rightarrow> disk \<Rightarrow> flagged_block \<Rightarrow> ('b ChainState, EBlockChainStatus) exec" where
  "ProcessBlock N GetOutputType C D1 D2 fb =
     ebind (easks (\<lambda>st. Inr (ch_height (cs_candidate (st_chains st))))) (\<lambda>candidateHeight.
     ebind (echeck (\<not> block_height (snd fb) \<le> GetHorizonHeight candidateHeight) BadDataException) (\<lambda>_.
     ebind (ProcessSingleHeader N C D1 (fb_header (snd fb))) (\<lambda>_.
     ebind (verify_block N fb) (\<lambda>_.
       ProcessBlockInternal N GetOutputType D2 (True, snd fb)))))"

end
