(* ===== verification/BlockProcessorCorrect.thy ===== *)
theory BlockProcessorCorrect
  imports BlockProcessor
begin

text \<open>
  What adding a block to the chain state does to the ledger that the hash set and the database represent, and that the
  way back restores it.
\<close>

section \<open>Running operations in sequence\<close>

lemma ebind_cases:
  assumes "ebind f g s = Some (r, s')"
  obtains (raises) e where "f s = Some (Inl e, s')" "r = Inl e"
  | (goes_on) x s1 where "f s = Some (Inr x, s1)" "g x s1 = Some (r, s')"
  using assms by (auto simp: ebind_def split: option.splits prod.splits sum.splits)

lemma ebind_run: "f s = Some (Inr x, s1) \<Longrightarrow> ebind f g s = g x s1"
  by (simp add: ebind_def)

section \<open>Adding a block\<close>

text \<open>An operation that changes neither ranges nor database nor chains.\<close>

definition same_data :: "'b ChainState \<Rightarrow> 'b ChainState \<Rightarrow> bool" where
  "same_data st st' \<longleftrightarrow>
     st_hashSet st' = st_hashSet st \<and> st_chains st' = st_chains st \<and> st_headers st' = st_headers st \<and> st_db st' = st_db st"

definition keeps :: "('b ChainState, 'a) exec \<Rightarrow> bool" where
  "keeps f \<longleftrightarrow> (\<forall>s r s'. f s = Some (r, s') \<longrightarrow> same_data s s')"

lemma keeps_basic:
  "keeps (eread f)" "keeps (echeck c e)" "keeps (easks g)" "keeps (emodify (\<lambda>st. st\<lparr>st_orphans := h st\<rparr>))"
  by (auto simp: keeps_def same_data_def eread_def echeck_def ereturn_def eraise_def easks_def emodify_def split: if_splits)

lemma keeps_verify: "keeps (verify_block N fb)"
  by (auto simp: keeps_def same_data_def verify_block_def split: prod.splits)

lemma keeps_reconcile: "keeps (reconcile_pool N block)"
  by (auto simp: keeps_def same_data_def reconcile_pool_def split: prod.splits option.splits)

lemma keeps_bind:
  assumes "keeps f" "\<And>x. keeps (g x)"
  shows "keeps (ebind f g)"
  unfolding keeps_def
proof (intro allI impI)
  fix s r s' assume "ebind f g s = Some (r, s')"
  then show "same_data s s'"
  proof (cases rule: ebind_cases)
    case (raises e)
    then show ?thesis using assms(1) by (simp add: keeps_def)
  next
    case (goes_on x s1)
    then have "same_data s s1" "same_data s1 s'" using assms by (auto simp: keeps_def)
    then show ?thesis by (simp add: same_data_def)
  qed
qed

text \<open>An operation that at most adds a block and its sums to the database, and does so when it succeeds.\<close>

definition added_to :: "FullBlock \<Rightarrow> 'b ChainState \<Rightarrow> bool \<Rightarrow> 'b ChainState \<Rightarrow> bool" where
  "added_to block st ok st' \<longleftrightarrow>
     st_hashSet st' = st_hashSet st \<and> st_chains st' = st_chains st \<and> st_headers st' = st_headers st \<and>
     (\<not> ok \<and> st_db st' = st_db st \<or>
      (\<exists>sums. st_db st' = AddBlock block (AddBlockSums (block_hash block) sums (st_db st))))"

definition adds :: "FullBlock \<Rightarrow> ('b ChainState, unit) exec \<Rightarrow> bool" where
  "adds block f \<longleftrightarrow> (\<forall>s r s'. f s = Some (r, s') \<longrightarrow> added_to block s (r = Inr ()) s')"

lemma adds_bind:
  assumes "keeps f" "\<And>x. adds block (g x)"
  shows "adds block (ebind f g)"
  unfolding adds_def
proof (intro allI impI)
  fix s r s' assume "ebind f g s = Some (r, s')"
  then show "added_to block s (r = Inr ()) s'"
  proof (cases rule: ebind_cases)
    case (raises e)
    then have "same_data s s'" using assms(1) by (simp add: keeps_def)
    then show ?thesis using raises(2) by (simp add: same_data_def added_to_def)
  next
    case (goes_on x s1)
    then have "same_data s s1" "added_to block s1 (r = Inr ()) s'" using assms by (auto simp: keeps_def adds_def)
    then show ?thesis by (simp add: same_data_def added_to_def)
  qed
qed

lemma adds_store:
  assumes "\<And>x. keeps (g x)"
  shows "adds block (ebind (on_database (\<lambda>db. (Inr (), AddBlock block (AddBlockSums (block_hash block) sums db)))) g)"
  using assms by (fastforce simp: adds_def keeps_def same_data_def added_to_def ebind_def on_database_def)

lemma adds_finish: "adds (snd fb) (finish_block N fb)"
  unfolding finish_block_def Let_def
  by (intro adds_bind adds_store keeps_bind keeps_basic keeps_verify keeps_reconcile)

section \<open>The ledger\<close>

text \<open>The hash set and the database represent a ledger, and another one when they are rolled back.\<close>

definition state_rep ::
  "'b node \<Rightarrow> u32 list \<Rightarrow> nat \<Rightarrow> nat \<Rightarrow> 'b ChainState \<Rightarrow> ledger \<Rightarrow> ledger \<Rightarrow> bool" where
  "state_rep N es c b st L S \<longleftrightarrow>
     (\<exists>t. st_hashSet st = Some t \<and> hash_set_rep (nd_blake2b N) (nd_roaring N) es c b (t, st_db st) L S)"

definition rolls_back_to ::
  "'b node \<Rightarrow> u32 list \<Rightarrow> nat \<Rightarrow> 'b ChainState \<Rightarrow> ledger \<Rightarrow> bool" where
  "rolls_back_to N es c st S \<longleftrightarrow>
     (\<exists>db b. BlockDB_Rollback (st_db st) = (Inr (), db) \<and>
        state_rep N es c b ((Manager_Rollback (nd_roaring N) st)\<lparr>st_db := db\<rparr>) S S)"

lemma stored_rows:
  fixes block :: FullBlock and sums :: BlockSums and db :: BlockDB
  assumes "open_batch (bd_rocks db)"
  defines "db' \<equiv> AddBlock block (AddBlockSums (block_hash block) sums db)"
  shows "read_position (row (bd_rocks db')) k = read_position (row (bd_rocks db)) k"
    and "open_batch (bd_rocks db')" "stored (bd_rocks db') = stored (bd_rocks db)"
  using assms by (simp_all add: AddBlock_def AddBlockSums_def read_position_def)

lemma added_mid:
  assumes mid: "mid_rep B R es c b Z (t, st_db st) L S" and add: "added_to block st ok st'"
  shows "mid_rep B R es c b Z (t, st_db st') L S"
proof -
  have batch: "open_batch (bd_rocks (st_db st))" using mid by (simp add: mid_rep_def)
  consider "st_db st' = st_db st" | sums where "st_db st' = AddBlock block (AddBlockSums (block_hash block) sums (st_db st))"
    using add by (auto simp: added_to_def)
  then show ?thesis
  proof cases
    case 2
    show ?thesis using mid_db [OF mid, of "st_db st'"] stored_rows [OF batch, of block] 2 by simp
  qed (use mid in simp)
qed

lemma mid_rolls_back:
  assumes "mid_rep (nd_blake2b N) (nd_roaring N) es c b Z (t, st_db st) L S" "b + 1 \<le> 2 ^ 60" "st_hashSet st = Some t"
  shows "rolls_back_to N es c st S"
proof -
  obtain db where "BlockDB_Rollback (st_db st) = (Inr (), db)"
    "hash_set_rep (nd_blake2b N) (nd_roaring N) es c (b + 1) (TxHashSet_Rollback (nd_roaring N) t, db) S S"
    using hash_set_rollback [OF assms(1,2)] by auto
  then show ?thesis using assms(3) by (auto simp: rolls_back_to_def state_rep_def Manager_Rollback_def)
qed

lemma undo_record_stored:
  assumes undo: "undo_record (block_hash block) (fb_body block) L db db1"
  shows "block_stored block L db (AddBlock block (AddBlockSums (block_hash block) sums db1))"
proof -
  obtain spent where spent: "map so_commitment spent = map i_commitment (b_inputs (fb_body block))" "list_all (spent_record L) spent"
    "other_rows db1 = other_rows (AddSpentPositions (block_hash block) spent db)"
    using undo by (auto simp: undo_record_def)
  note rows = other_rowsD [OF spent(3)]
  let ?db = "AddBlock block (AddBlockSums (block_hash block) sums db1)"
  have row: "row (bd_rocks ?db) (t, k) = (if (t, k) = (''BLOCK'', block_hash block) then Some (FullBlock_Serialize V1 block)
      else if (t, k) = (''BLOCK_SUMS'', block_hash block) then Some (BlockSums_Serialize sums)
      else if (t, k) = (''SPENT_OUTPUTS'', block_hash block) then Some (SpentOutputs_Serialize spent)
      else row (bd_rocks db) (t, k))" if "t \<noteq> ''OUTPUT_POS''" for t k
  proof -
    have "row (bd_rocks db1) (t, k) = (if (t, k) = (''SPENT_OUTPUTS'', block_hash block) then Some (SpentOutputs_Serialize spent)
        else row (bd_rocks db) (t, k))"
      using rows(1) [OF that, of k] by (simp add: AddSpentPositions_def)
    moreover have "row (bd_rocks ?db) = (row (bd_rocks db1))((''BLOCK_SUMS'', block_hash block) \<mapsto> BlockSums_Serialize sums,
        (''BLOCK'', block_hash block) \<mapsto> FullBlock_Serialize V1 block)"
      by (simp add: AddBlock_def AddBlockSums_def)
    ultimately show ?thesis by (simp only: fun_upd_apply)
  qed
  have "bd_headersCache ?db = bd_headersCache db"
    using rows(2) by (simp add: AddBlock_def AddBlockSums_def AddSpentPositions_def)
  moreover have "row (bd_rocks ?db) (t, k) = row (bd_rocks db) (t, k)"
    if "t \<noteq> ''OUTPUT_POS''" "k \<noteq> block_hash block \<or> t = ''HEADER''" for t k
  proof -
    have "(t, k) \<noteq> (''BLOCK'', block_hash block)" "(t, k) \<noteq> (''BLOCK_SUMS'', block_hash block)"
      "(t, k) \<noteq> (''SPENT_OUTPUTS'', block_hash block)"
      using that(2) by auto
    then show ?thesis using row [OF that(1), of k] by (simp only: if_False)
  qed
  ultimately show ?thesis
    unfolding block_stored_def using spent(1,2) row [of "''SPENT_OUTPUTS''" "block_hash block"]
      row [of "''BLOCK''" "block_hash block"] by simp blast
qed

lemma ValidateAndAddBlock_run:
  assumes len: "\<forall>x. length (nd_blake2b N x) = 32" and rep: "state_rep N es c b st L S"
    and ok: "body_ok (fb_body block)" and fits: "fits b (fb_body block) L"
    and run: "ValidateAndAddBlock N (flag, block) st = Some (r, st')"
  defines "height \<equiv> h_height (fb_header block)"
  shows "rolls_back_to N es c st' S \<and> st_chains st' = st_chains st \<and> st_headers st' = st_headers st \<and>
    (r = Inr () \<longrightarrow> applies (nd_env N) height (fb_body block) L \<and>
       state_rep N es c (b + length (b_inputs (fb_body block)) + length (b_outputs (fb_body block))) st'
         (apply_ledger height (fb_body block) L) S \<and>
       map_option th_header (st_hashSet st') = Some (Some (fb_header block)) \<and> block_stored block L (st_db st) (st_db st'))"
proof -
  let ?B = "nd_blake2b N" and ?R = "nd_roaring N" and ?app = "applies (nd_env N) height (fb_body block) L"
  let ?b = "b + length (b_inputs (fb_body block)) + length (b_outputs (fb_body block))"
  obtain t where t: "st_hashSet st = Some t" "hash_set_rep ?B ?R es c b (t, st_db st) L S" using rep by (auto simp: state_rep_def)
  have b: "?b + 1 \<le> 2 ^ 60" "b + 1 \<le> 2 ^ 60" using fits by (simp_all add: fits_def)
  obtain s' where s': "ApplyBlock ?B ?R (nd_env N) block (t, st_db st) = Some (Inr ?app, s')"
    "block_outcome ?B ?R es c ?b (nd_env N) block L S (t, st_db st) s'"
    using ApplyBlock_run [OF len t(2) ok fits, of "nd_env N"] unfolding height_def by blast
  let ?st = "st\<lparr>st_hashSet := Some (fst s'), st_db := snd s'\<rparr>"
  note steps = ValidateAndAddBlock_def on_data_def t(1) s'(1) ebind_def easks_def echeck_def ereturn_def eraise_def
  show ?thesis
  proof (cases "st' = st \<and> r \<noteq> Inr ()")
    case True
    then show ?thesis using mid_rolls_back [OF t(2) b(2)] t(1) by simp
  next
    case False
    then have go: "(if ?app then finish_block N (flag, block) ?st else Some (Inl BadDataException, ?st)) = Some (r, st')"
      using run by (auto simp: steps split: sum.splits if_splits option.splits)
    show ?thesis
    proof (cases ?app)
      case app: False
      obtain b' Z L' where "b' \<le> ?b" "mid_rep ?B ?R es c b' Z (fst s', st_db ?st) L' S"
        using s'(2) app by (auto simp: block_outcome_def height_def)
      then show ?thesis using go app mid_rolls_back [of N es c b' Z "fst s'" ?st L' S] b(1) by auto
    next
      case app: True
      have out: "hash_set_rep ?B ?R es c ?b (fst s', st_db ?st) (apply_ledger height (fb_body block) L) S"
        "th_header (fst s') = Some (fb_header block)" "undo_record (block_hash block) (fb_body block) L (st_db st) (snd s')"
        using s'(2) app by (simp_all add: block_outcome_def height_def)
      have add: "added_to block ?st (r = Inr ()) st'"
        using go app adds_finish [of "(flag, block)" N] by (simp add: adds_def)
      have hs: "st_hashSet st' = Some (fst s')" "st_chains st' = st_chains st" "st_headers st' = st_headers st"
        using add by (simp_all add: added_to_def)
      note rep' = added_mid [OF out(1) add]
      have "block_stored block L (st_db st) (st_db st')" if "r = Inr ()"
        using that add undo_record_stored [OF out(3)] by (auto simp: added_to_def)
      then show ?thesis
        using hs rep' out(2) app mid_rolls_back [OF rep' b(1) hs(1)] by (auto simp: state_rep_def)
    qed
  qed
qed

section \<open>Adding blocks and taking them back\<close>

text \<open>Blocks that follow one another in the database of headers, and that fit.\<close>

fun linked :: "(bytes \<Rightarrow> bytes) \<Rightarrow> BlockDB \<Rightarrow> BlockHeader \<Rightarrow> FullBlock list \<Rightarrow> bool" where
  "linked B db tip [] = True"
| "linked B db tip (block # blocks) =
     (GetBlockHeader B (h_previousBlockHash (fb_header block)) db = Inr (Some tip) \<and> linked B db (fb_header block) blocks)"

fun blocks_fit :: "nat \<Rightarrow> ledger \<Rightarrow> FullBlock list \<Rightarrow> bool" where
  "blocks_fit b L [] \<longleftrightarrow> b + 1 \<le> 2 ^ 60"
| "blocks_fit b L (block # blocks) \<longleftrightarrow> fits b (fb_body block) L \<and>
     blocks_fit (b + length (b_inputs (fb_body block)) + length (b_outputs (fb_body block)))
       (apply_ledger (h_height (fb_header block)) (fb_body block) L) blocks"

lemma block_stored_linked: "block_stored block L db db' \<Longrightarrow> linked B db' tip blocks = linked B db tip blocks"
  by (induction blocks arbitrary: tip) (simp_all add: block_stored_headers)

lemma state_rep_ledger:
  assumes "state_rep N es c b st L S"
  shows "ledger_ok L" "c \<le> length (lg_outputs L)" "\<forall>i \<in> lg_unspent L. \<not> leaf_compacted es i"
proof -
  obtain t where "ranges_rep (nd_blake2b N) (nd_roaring N) es c b t L S" "positions_ok L (row (bd_rocks (st_db st)))"
    using assms by (auto simp: state_rep_def mid_rep_def)
  then show "ledger_ok L" "c \<le> length (lg_outputs L)" "\<forall>i \<in> lg_unspent L. \<not> leaf_compacted es i"
    using ranges_length by (fastforce simp: ledger_ok_def positions_ok_def)+
qed

lemma eforeach_Cons:
  assumes "eforeach f (x # xs) s = Some (Inr (), s')"
  obtains s1 where "f x s = Some (Inr (), s1)" "eforeach f xs s1 = Some (Inr (), s')"
  using assms by (auto elim: ebind_cases)

lemma add_blocks:
  assumes len: "\<forall>x. length (nd_blake2b N x) = 32"
    and run: "eforeach (ValidateAndAddBlock N) fbs st = Some (Inr (), st')"
    and rep: "state_rep N es c b st (ledger_after L past) S"
    and chain: "undo_chain (nd_blake2b N) G (nd_env N) header L (st_db st) past"
    and tip: "map_option th_header (st_hashSet st) = Some (Some (tip_of header past))"
    and valid: "\<forall>block \<in> set (map snd fbs). block_valid (nd_blake2b N) G block"
    and linked: "linked (nd_blake2b N) (st_db st) (tip_of header past) (map snd fbs)"
    and fit: "blocks_fit b (ledger_after L past) (map snd fbs)"
    and distinct: "distinct (map block_hash (rev (map snd fbs) @ past))"
  shows "\<exists>b'. state_rep N es c b' st' (ledger_after L (rev (map snd fbs) @ past)) S \<and> b' + 1 \<le> 2 ^ 60 \<and>
    undo_chain (nd_blake2b N) G (nd_env N) header L (st_db st') (rev (map snd fbs) @ past) \<and>
    map_option th_header (st_hashSet st') = Some (Some (tip_of header (rev (map snd fbs) @ past)))"
  using run rep chain tip valid linked fit distinct
proof (induction fbs arbitrary: st b past)
  case Nil
  then show ?case by (auto simp: ereturn_def)
next
  case (Cons fb fbs)
  obtain flag block where fb: "fb = (flag, block)" by fastforce
  let ?M = "ledger_after L past" and ?b = "b + length (b_inputs (fb_body block)) + length (b_outputs (fb_body block))"
  obtain st1 where st1: "ValidateAndAddBlock N (flag, block) st = Some (Inr (), st1)"
    "eforeach (ValidateAndAddBlock N) fbs st1 = Some (Inr (), st')"
    using Cons.prems(1) unfolding fb by (rule eforeach_Cons)
  have ok: "body_ok (fb_body block)" "fits b (fb_body block) ?M" "block_valid (nd_blake2b N) G block"
    using Cons.prems(5,7) by (simp_all add: fb block_valid_def)
  have step: "applies (nd_env N) (h_height (fb_header block)) (fb_body block) ?M"
    "state_rep N es c ?b st1 (ledger_after L (block # past)) S"
    "map_option th_header (st_hashSet st1) = Some (Some (fb_header block))" "block_stored block ?M (st_db st) (st_db st1)"
    using ValidateAndAddBlock_run [OF len Cons.prems(2) ok(1,2) st1(1)] by simp_all
  have prev: "GetBlockHeader (nd_blake2b N) (h_previousBlockHash (fb_header block)) (st_db st) = Inr (Some (tip_of header past))"
    "linked (nd_blake2b N) (st_db st1) (fb_header block) (map snd fbs)"
    using Cons.prems(6) block_stored_linked [OF step(4)] by (simp_all add: fb)
  have M: "ledger_ok ?M" by (rule state_rep_ledger(1) [OF Cons.prems(2)])
  have "\<forall>x \<in> set past. block_hash x \<noteq> block_hash block" using Cons.prems(8) by (simp add: fb) (metis imageI)
  then have "undo_chain (nd_blake2b N) G (nd_env N) header L (st_db st1) (block # past)"
    using block_stored_undoable [OF step(4) ok(3) M prev(1)] block_stored_keeps_chain [OF step(4)] Cons.prems(3) M ok(1) step(1)
    by (simp add: step_ok_def)
  then show ?case
    using Cons.IH [OF st1(2) step(2), of] step(3) Cons.prems(5,7,8) prev(2) by (simp add: fb)
qed

lemma rewind_to:
  assumes rep: "state_rep N es c b st (ledger_after L past) S" "b + 1 \<le> 2 ^ 60"
    and chain: "undo_chain (nd_blake2b N) G (nd_env N) header L (st_db st) past"
    and tip: "map_option th_header (st_hashSet st) = Some (Some (tip_of header past))"
    and base: "ledger_ok L" "c \<le> length (lg_outputs L)" "\<forall>i \<in> lg_unspent L. \<not> leaf_compacted es i"
    and count: "Header_GetNumOutputs header = of_nat (length (lg_outputs L))" "Header_GetNumKernels header = of_nat (length (lg_kernels L))"
    and hash: "\<forall>block \<in> set past. length (block_hash block) = 32 \<and> block_hash block \<noteq> Header_GetHash header"
      "length (Header_GetHash header) = 32"
  obtains t db where
    "on_data (TxHashSet_Rewind (nd_blake2b N) (nd_roaring N) G header) st = Some (Inr (), st\<lparr>st_hashSet := Some t, st_db := db\<rparr>)"
    "state_rep N es c (b + 1) (st\<lparr>st_hashSet := Some t, st_db := db\<rparr>) L S" "th_header t = Some header"
    "other_rows db = other_rows (st_db st)"
proof -
  let ?B = "nd_blake2b N" and ?R = "nd_roaring N"
  obtain t where t: "st_hashSet st = Some t" "hash_set_rep ?B ?R es c b (t, st_db st) (ledger_after L past) S"
    using rep(1) by (auto simp: state_rep_def)
  have "\<forall>block \<in> set past. \<not> BigInteger_equal (block_hash block) (Header_GetHash header)"
    using hash by (simp add: BigInteger_equal_iff)
  moreover have undo: "undo_chain ?B G (nd_env N) header L (snd (t, st_db st)) past" using chain by simp
  moreover have "th_header (fst (t, st_db st)) = Some (tip_of header past)" using tip t(1) by simp
  ultimately obtain s' where s': "TxHashSet_Rewind ?B ?R G header (t, st_db st) = Some (Inr (), s')"
    "hash_set_rep ?B ?R es c (b + 1) s' L S" "th_header (fst s') = Some header" "other_rows (snd s') = other_rows (st_db st)"
    using TxHashSet_Rewind_ok [OF t(2) rep(2) undo base _ _ count] by (metis snd_conv)
  show thesis
    by (rule that [of "snd s'" "fst s'"]) (use s' t(1) in \<open>simp_all add: on_data_def state_rep_def\<close>)
qed

section \<open>Adding a block ends\<close>

text \<open>The way down from a block to an earlier height ends, even if the height wraps around.\<close>

lemma previous_headers_return: "\<exists>r. previous_headers B db first expected hash headers = Some r"
proof (induction "unat (expected - first)" arbitrary: expected hash headers)
  case 0
  then have "expected = first" by (simp add: unat_eq_0)
  then show ?case by (subst previous_headers.simps) (simp split: sum.splits option.splits)
next
  case (Suc n)
  have "expected \<noteq> first" using Suc.hyps(2) by auto
  then have "unat (expected - 1 - first) = n"
    using Suc.hyps(2) unat_minus_one [of "expected - first"] by (simp add: algebra_simps)
  then have "\<exists>r. previous_headers B db first (expected - 1) hash' headers' = Some r" for hash' headers' using Suc.hyps(1) by metis
  then show ?case by (subst previous_headers.simps) (simp split: sum.splits option.splits)
qed

lemma NRD_returns: "\<exists>r. ValidateNRDKernelRules B db block t = Some r"
proof -
  have never: "previous_headers B db first expected hash headers \<noteq> None" for first expected hash headers
    using previous_headers_return by blast
  have "(case (if b then previous_headers B db first expected hash [] else Some (Inr (Some []))) of
      None \<Rightarrow> None | Some (Inl e) \<Rightarrow> Some (Inl e) | Some (Inr None) \<Rightarrow> Some (Inr False)
    | Some (Inr (Some headers)) \<Rightarrow> Some (F headers)) \<noteq> None" for b first expected hash F
    by (auto simp del: not_None_eq simp add: never split: option.splits sum.splits)
  then show ?thesis unfolding ValidateNRDKernelRules_def Let_def by (cases "nrd_kernels (b_kernels (fb_body block)) []") auto
qed

lemma roots_return:
  assumes "Header_GetNumOutputs header < 2 ^ 50"
  shows "\<exists>r. ValidateRoots B R header t = Some r"
proof -
  let ?n = "Header_GetNumOutputs header"
  have n: "unat ?n < 2 ^ 50" using assms by (simp add: word_less_nat_alt)
  then have "unat ((?n + 1023) div 1024) < 2 ^ 50" by (simp add: unat_div unat_add_no_overflow)
  then have "append_chunks B (map (leaf_set_chunk f) [0..<unat ((?n + 1023) div 1024)]) Accumulator_New \<noteq> None" for f
    using append_chunks_correct [of "[]" "map (leaf_set_chunk f) [0..<unat ((?n + 1023) div 1024)]" B]
    by (simp add: Accumulator_New_def mmr_hashes_def [of B "[]"] mmr_pos_def comp_def)
  then have "output_root_ok B root header t \<noteq> None" for root
    by (simp add: output_root_ok_def GetOutputBitmapRoot_def UBMTRoot_def LeafSet_Root_def Let_def)
  then have never: "(output_root_ok B root header t = None) = False" for root by blast
  show ?thesis unfolding ValidateRoots_def by (auto simp: never split: sum.splits option.splits bool.splits)
qed

lemma ebind_returns: "\<exists>r. f s = Some r \<Longrightarrow> (\<And>x s1. \<exists>r. g x s1 = Some r) \<Longrightarrow> \<exists>r. ebind f g s = Some r"
  by (auto simp: ebind_def split: sum.splits)

lemma steps_return:
  "\<exists>r. easks f s = Some r" "\<exists>r. echeck c e s = Some r" "\<exists>r. on_database g st = Some r" "\<exists>r. emodify h s = Some r"
  "\<exists>r. verify_block N fb st = Some r" "\<exists>r. reconcile_pool N block st = Some r"
  by (auto simp: easks_def echeck_def ereturn_def eraise_def on_database_def emodify_def verify_block_def reconcile_pool_def
      split: prod.splits option.splits sum.splits)

lemma finish_block_returns:
  assumes "Header_GetNumOutputs (fb_header block) < 2 ^ 50"
  shows "\<exists>r. finish_block N (flag, block) st = Some r"
  unfolding finish_block_def Let_def snd_conv
  by (intro ebind_returns steps_return) (use NRD_returns roots_return [OF assms] in \<open>simp_all add: eread_def\<close>)

lemma ValidateAndAddBlock_returns:
  assumes len: "\<forall>x. length (nd_blake2b N x) = 32" and rep: "state_rep N es c b st L S"
    and ok: "body_ok (fb_body block)" "fits b (fb_body block) L" "Header_GetNumOutputs (fb_header block) < 2 ^ 50"
  shows "\<exists>r st'. ValidateAndAddBlock N (flag, block) st = Some (r, st')"
proof -
  obtain t where t: "st_hashSet st = Some t" "hash_set_rep (nd_blake2b N) (nd_roaring N) es c b (t, st_db st) L S"
    using rep by (auto simp: state_rep_def)
  obtain s' where s': "ApplyBlock (nd_blake2b N) (nd_roaring N) (nd_env N) block (t, st_db st) =
      Some (Inr (applies (nd_env N) (block_height block) (fb_body block) L), s')"
    using ApplyBlock_run [OF len t(2) ok(1,2), of "nd_env N"] by blast
  have "\<exists>r. finish_block N (flag, block) st1 = Some r" for st1 using finish_block_returns [OF ok(3)] .
  then show ?thesis
    using s' t(1)
    by (auto simp: ValidateAndAddBlock_def Let_def ebind_def easks_def echeck_def ereturn_def eraise_def on_data_def split: sum.splits)
qed


text \<open>
  C15. Taking blocks back. When a sequence of valid blocks, each following the one before, is added to a state that
  represents a ledger \<open>L\<close>, rewinding the hash set to the header it started from succeeds, and the state represents \<open>L\<close>
  again: outputs that the blocks have spent are unspent, with their positions, and those they created are gone. This is
  the first half of a reorganisation.
\<close>

theorem rewind_restores:
  assumes "\<forall>x. length (nd_blake2b N x) = 32" "state_rep N es c b st L S"
    and header: "map_option th_header (st_hashSet st) = Some (Some header)"
    and count: "Header_GetNumOutputs header = of_nat (length (lg_outputs L))" "Header_GetNumKernels header = of_nat (length (lg_kernels L))"
    and "\<forall>block \<in> set (map snd fbs). block_valid (nd_blake2b N) G block"
    and "linked (nd_blake2b N) (st_db st) header (map snd fbs)" "blocks_fit b L (map snd fbs)"
    and hash: "distinct (map block_hash (map snd fbs))" "length (Header_GetHash header) = 32"
      "Header_GetHash header \<notin> block_hash ` set (map snd fbs)"
    and "eforeach (ValidateAndAddBlock N) fbs st = Some (Inr (), st')"
  shows "\<exists>st'' b'. on_data (TxHashSet_Rewind (nd_blake2b N) (nd_roaring N) G header) st' = Some (Inr (), st'') \<and>
    state_rep N es c b' st'' L S \<and> map_option th_header (st_hashSet st'') = Some (Some header)"
proof -
  let ?B = "nd_blake2b N" and ?R = "nd_roaring N" and ?past = "rev (map snd fbs)"
  have "distinct (map block_hash (?past @ []))" using hash(1) by (simp only: append_Nil2 rev_map [symmetric] distinct_rev)
  then obtain b' where after: "state_rep N es c b' st' (ledger_after L ?past) S" "b' + 1 \<le> 2 ^ 60"
    "undo_chain ?B G (nd_env N) header L (st_db st') ?past"
    "map_option th_header (st_hashSet st') = Some (Some (tip_of header ?past))"
    using add_blocks [OF assms(1) assms(12), of es c b L "[]" S G header] assms(2,6-8) header by auto
  have "length (block_hash block) = 32 \<and> block_hash block \<noteq> Header_GetHash header" if "block \<in> set ?past" for block
  proof -
    have block: "block \<in> set (map snd fbs)" using that by simp
    then have "block_valid ?B G block" using assms(6) by blast
    then have "length (block_hash block) = 32"
      using assms(1) by (simp add: block_valid_def header_valid_def pow_valid_def Header_GetHash_def)
    moreover have "block_hash block \<noteq> Header_GetHash header" using hash(3) block by (metis imageI)
    ultimately show ?thesis by blast
  qed
  then obtain t db where "on_data (TxHashSet_Rewind ?B ?R G header) st' = Some (Inr (), st'\<lparr>st_hashSet := Some t, st_db := db\<rparr>)"
    "state_rep N es c (b' + 1) (st'\<lparr>st_hashSet := Some t, st_db := db\<rparr>) L S" "th_header t = Some header"
    using rewind_to [OF after(1-4) state_rep_ledger [OF assms(2)] count _ hash(2)] by blast
  then show ?thesis by (intro exI [of _ "st'\<lparr>st_hashSet := Some t, st_db := db\<rparr>"] exI [of _ "b' + 1"]) simp
qed

section \<open>A block of one output\<close>

definition parent_header :: BlockHeader where
  "parent_header = (sample_header sample_hash)\<lparr>h_height := 0, h_outputMMRSize := 0, h_kernelMMRSize := 0\<rparr>"

definition child_block :: FullBlock where
  "child_block =
     \<lparr>fb_header = parent_header\<lparr>h_version := 1, h_height := 1, h_previousBlockHash := Header_GetHash parent_header, h_outputMMRSize := 1,
        h_totalDifficulty := h_totalDifficulty parent_header + 1,
        h_kernelRoot := mmr_root sample_hash [],
        h_outputRoot := mmr_root sample_hash [OutputIdentifier_Serialize (OutputIdentifier_FromOutput sample_utxo)],
        h_rangeProofRoot := mmr_root sample_hash [RangeProof_Serialize (o_rangeProof sample_utxo)],
        h_proofOfWork := ProofOfWork_New sample_hash 29 (map of_nat [0..<42])\<rparr>,
      fb_body = \<lparr>b_inputs = [], b_outputs = [sample_utxo], b_kernels = []\<rparr>\<rparr>"

definition start_state :: "u32 set ChainState" where
  "start_state =
     \<lparr>st_chains = \<lparr>cs_confirmed = sample_chain [Header_GetHash parent_header], cs_candidate = sample_chain [Header_GetHash parent_header]\<rparr>,
      st_db = AddBlockSums (Header_GetHash parent_header) \<lparr>bs_outputSum = replicate 33 9, bs_kernelSum = replicate 33 9\<rparr>
        (AddBlockHeader parent_header (snd (empty_state parent_header))),
      st_headers = HeaderMMR_Load [], st_hashSet = Some (fst (empty_state parent_header)), st_orphans = OrphanPool_New,
      st_pool = \<lparr>tp_memPool = [], tp_stemPool = []\<rparr>, st_cache = Cache_New 10\<rparr>"

definition chain_node :: "u32 set node" where
  "chain_node = sample_node\<lparr>nd_blake2b := sample_hash\<rparr>"

lemma chain_node_simps [simp]:
  "nd_blake2b chain_node = sample_hash" "nd_roaring chain_node = set_roaring" "nd_env chain_node = MAINNET"
  by (simp_all add: chain_node_def sample_node_def)

lemma one_leaf_root: "mmr_root sample_hash [x] = replicate 32 (of_nat (8 + length x))"
proof -
  have "bit_width (Suc 0) = Suc 0" by (simp add: bit_width.simps)
  then show ?thesis
    by (auto simp: mmr_root_def peak_nodes_def bag_def sample_hash_def HashLeafWithIndex_def AppendByteVector_def
        BigInteger_equal_iff ZERO_HASH_def)
qed

lemma no_leaf_root: "mmr_root B [] = ZERO_HASH"
  by (simp add: mmr_root_def peak_nodes_def)

lemma child_hashes: "Header_GetHash parent_header = replicate 32 168" "block_hash child_block = replicate 32 153"
  by (simp_all add: parent_header_def child_block_def Header_GetHash_def sample_header_def ProofOfWork_New_def sample_hash_def
      length_SerializeCycle(1) cycle_bytes_len_def PROOFSIZE_def)

lemma child_valid: "header_valid sample_hash parent_header" "block_valid sample_hash G child_block"
proof -
  show "header_valid sample_hash parent_header"
    using sample_header_valid [of sample_hash] by (simp add: parent_header_def header_valid_def)
  then have "header_valid sample_hash (fb_header child_block)"
    by (auto simp: child_block_def header_valid_def one_leaf_root no_leaf_root child_hashes pow_valid_def ProofOfWork_New_def
        PROOFSIZE_def unat_of_nat ZERO_HASH_def)
  moreover have "body_valid sample_hash G V1 (fb_body child_block)" "body_ok (fb_body child_block)"
    by (simp_all add: child_block_def body_valid_def body_ok_def sample_utxo_def output_valid_def MAX_PROOF_SIZE_def)
  moreover have "length (FullBlock_Serialize V1 child_block) < 2 ^ 63"
    using length_Header_Serialize [OF calculation(1)]
    by (simp add: FullBlock_Serialize_def Body_Serialize_def child_block_def sample_utxo_def Output_Serialize_def
        RangeProof_Serialize_def AppendByteVector_def AppendBigInteger_def cycle_bytes_len_def PROOFSIZE_def ProofOfWork_New_def)
  ultimately show "block_valid sample_hash G child_block" by (simp add: block_valid_def child_block_def)
qed

lemma start_database:
  "GetBlockHeader sample_hash (Header_GetHash parent_header) (st_db start_state) = Inr (Some parent_header)"
  "row (bd_rocks (st_db start_state)) (''BLOCK_SUMS'', Header_GetHash parent_header) =
     Some (BlockSums_Serialize \<lparr>bs_outputSum = replicate 33 9, bs_kernelSum = replicate 33 9\<rparr>)"
proof -
  have "row (bd_rocks (st_db start_state)) (''HEADER'', Header_GetHash parent_header) = Some (Header_Serialize parent_header)"
    by (simp add: start_state_def AddBlockSums_def AddBlockHeader_def Let_def)
  then have "RocksDB_Get (Header_Deserialize sample_hash) ''HEADER'' (Header_GetHash parent_header) (bd_rocks (st_db start_state)) =
      Inr (Some parent_header)"
    using child_valid(1) length_Header_bound by (intro header_table.get_stored) auto
  moreover have "\<not> Cached (bd_headersCache (st_db start_state)) (Header_GetHash parent_header)"
    by (simp add: start_state_def AddBlockSums_def AddBlockHeader_def Let_def empty_state_def BlockDB_OpenDB_def
        IsTransactional_def RocksDB_Put_def Cached_def Cache_New_def)
  ultimately show "GetBlockHeader sample_hash (Header_GetHash parent_header) (st_db start_state) = Inr (Some parent_header)"
    by (simp add: GetBlockHeader_def)
  show "row (bd_rocks (st_db start_state)) (''BLOCK_SUMS'', Header_GetHash parent_header) =
      Some (BlockSums_Serialize \<lparr>bs_outputSum = replicate 33 9, bs_kernelSum = replicate 33 9\<rparr>)"
    by (simp add: start_state_def AddBlockSums_def)
qed

lemma start_rep: "state_rep chain_node [] 0 (2 ^ 29) start_state empty_ledger empty_ledger"
proof -
  note rep = empty_state_rep [of sample_hash parent_header]
  have batch: "open_batch (bd_rocks (snd (empty_state parent_header)))" using rep by (simp add: mid_rep_def)
  have "open_batch (bd_rocks (st_db start_state))" "stored (bd_rocks (st_db start_state)) = stored (bd_rocks (snd (empty_state parent_header)))"
    "read_position (row (bd_rocks (st_db start_state))) x = read_position (row (bd_rocks (snd (empty_state parent_header)))) x" for x
    using batch by (simp_all add: start_state_def AddBlockSums_def AddBlockHeader_def Let_def read_position_def)
  then show ?thesis using mid_db [OF rep, of "st_db start_state"] by (simp add: state_rep_def start_state_def)
qed

lemma child_fits: "body_ok (fb_body child_block)" "fits (2 ^ 29) (fb_body child_block) empty_ledger"
  "applies env h (fb_body child_block) empty_ledger"
  using child_valid(2) by (simp_all add: block_valid_def child_block_def fits_def empty_ledger_def applies_def)

lemma child_roots:
  assumes rep: "ranges_rep sample_hash set_roaring [] 0 b t (apply_ledger h (fb_body child_block) empty_ledger) S"
  shows "ValidateRoots sample_hash set_roaring (fb_header child_block) t = Some (Inr True)"
proof -
  let ?L = "apply_ledger h (fb_body child_block) empty_ledger"
  have L: "lg_outputs ?L = [(sample_utxo, h)]" "lg_kernels ?L = []"
    by (simp_all add: apply_ledger_def child_block_def empty_ledger_def)
  have sizes: "h_kernelMMRSize (fb_header child_block) = of_nat (mmr_pos 0 0)" "h_outputMMRSize (fb_header child_block) = of_nat (mmr_pos 1 0)"
    by (simp_all add: child_block_def parent_header_def mmr_pos_def popcount_Suc_double [of 0, simplified])
  have "mmr_rep sample_hash (km_hashFile (th_kernel t)) []"
    using rep L(2) by (simp add: ranges_rep_def kernel_rep_def)
  then have "KernelMMR_Root sample_hash set_roaring (h_kernelMMRSize (fb_header child_block)) (th_kernel t) = Inr (mmr_root sample_hash [])"
    unfolding sizes KernelMMR_Root_def using Root_rep [of sample_hash _ "[]" 0] by simp
  moreover have "PMMR_Root sample_hash set_roaring (h_outputMMRSize (fb_header child_block)) (th_output t) =
      Inr (mmr_root sample_hash [OutputIdentifier_Serialize (OutputIdentifier_FromOutput sample_utxo)])"
    unfolding sizes using view_root [OF ranges_view(1) [OF rep, unfolded identifiers_def], of 1] L by simp
  moreover have "PMMR_Root sample_hash set_roaring (h_outputMMRSize (fb_header child_block)) (th_proof t) =
      Inr (mmr_root sample_hash [RangeProof_Serialize (o_rangeProof sample_utxo)])"
    unfolding sizes using view_root [OF ranges_view(2) [OF rep, unfolded proofs_def], of 1] L by simp
  moreover have "h_kernelRoot (fb_header child_block) = mmr_root sample_hash []" "h_version (fb_header child_block) = 1"
    "h_outputRoot (fb_header child_block) = mmr_root sample_hash [OutputIdentifier_Serialize (OutputIdentifier_FromOutput sample_utxo)]"
    "h_rangeProofRoot (fb_header child_block) = mmr_root sample_hash [RangeProof_Serialize (o_rangeProof sample_utxo)]"
    by (simp_all add: child_block_def)
  ultimately show ?thesis by (simp add: ValidateRoots_def output_root_ok_def BigInteger_equal_iff)
qed

lemma child_sums:
  "ValidateKernelSums_body (nd_secp chain_node) (fb_body child_block) (0 - REWARD) k
     (Some \<lparr>bs_outputSum = replicate 33 9, bs_kernelSum = replicate 33 9\<rparr>) =
   Inr \<lparr>bs_outputSum = replicate 33 9, bs_kernelSum = replicate 33 9\<rparr>"
  by (simp add: child_block_def ValidateKernelSums_body_def ValidateKernelSums_def overage_commitments_def AddCommitmentsChunked_def
      COMMITMENT_SUM_CHUNK_SIZE_def AddCommitments_def CommitTransparent_def AddKernelOffset_def CommitBlinded_def or_throw_def
      chain_node_def sample_node_def BigInteger_equal_iff)

lemma child_applied:
  assumes rep: "state_rep chain_node [] 0 b st empty_ledger S" and fits: "fits b (fb_body child_block) empty_ledger"
  shows "\<exists>s'. ApplyBlock sample_hash set_roaring MAINNET child_block (the (st_hashSet st), st_db st) = Some (Inr True, s') \<and>
    ranges_rep sample_hash set_roaring [] 0 (b + 1) (fst s')
      (apply_ledger (block_height child_block) (fb_body child_block) empty_ledger) S \<and>
    undo_record (block_hash child_block) (fb_body child_block) empty_ledger (st_db st) (snd s')"
proof -
  obtain t where t: "st_hashSet st = Some t"
    "hash_set_rep sample_hash set_roaring [] 0 (b) (t, st_db st) empty_ledger S"
    using rep by (auto simp: state_rep_def)
  have len: "\<forall>x. length (sample_hash x) = 32" by (simp add: sample_hash_def)
  obtain s' where s': "ApplyBlock sample_hash set_roaring MAINNET child_block (t, st_db st) =
      Some (Inr (applies MAINNET (block_height child_block) (fb_body child_block) empty_ledger), s')"
    "block_outcome sample_hash set_roaring [] 0 (b + length (b_inputs (fb_body child_block)) + length (b_outputs (fb_body child_block)))
      MAINNET child_block empty_ledger S (t, st_db st) s'"
    using ApplyBlock_run [OF len t(2) child_fits(1) fits, of MAINNET] by blast
  have n: "b + length (b_inputs (fb_body child_block)) + length (b_outputs (fb_body child_block)) = b + 1"
    by (simp add: child_block_def)
  show ?thesis
    using s' child_fits(3) unfolding n block_outcome_def t(1) option.sel by (intro exI [of _ s']) (simp only: if_True mid_rep_def snd_conv simp_thms)
qed

lemma child_previous_sums:
  assumes st: "row (bd_rocks (st_db st)) (''BLOCK_SUMS'', Header_GetHash parent_header) =
      Some (BlockSums_Serialize \<lparr>bs_outputSum = replicate 33 9, bs_kernelSum = replicate 33 9\<rparr>)"
    and undo: "undo_record (block_hash child_block) (fb_body child_block) empty_ledger (st_db st) db"
  shows "GetBlockSums (Header_GetHash parent_header) db = Inr (Some \<lparr>bs_outputSum = replicate 33 9, bs_kernelSum = replicate 33 9\<rparr>)"
proof -
  obtain spent where "other_rows db = other_rows (AddSpentPositions (block_hash child_block) spent (st_db st))"
    using undo unfolding undo_record_def by blast
  then have "row (bd_rocks db) (''BLOCK_SUMS'', Header_GetHash parent_header) =
      row (bd_rocks (AddSpentPositions (block_hash child_block) spent (st_db st))) (''BLOCK_SUMS'', Header_GetHash parent_header)"
    by (rule other_rowsD(1)) simp
  also have "\<dots> = Some (BlockSums_Serialize \<lparr>bs_outputSum = replicate 33 9, bs_kernelSum = replicate 33 9\<rparr>)"
    using st by (simp add: AddSpentPositions_def)
  finally show ?thesis
    unfolding GetBlockSums_def by (intro sums_table.get_stored) (simp_all add: BlockSums_Serialize_def AppendBigInteger_def)
qed

lemma empty_pools:
  assumes "st_hashSet st = Some t" "st_pool st = \<lparr>tp_memPool = [], tp_stemPool = []\<rparr>"
  shows "\<exists>st'. reconcile_pool N block st = Some (Inr (), st')"
  using assms by (simp add: reconcile_pool_def TransactionPool_ReconcileBlock_def Pool_ReconcileBlock_def FindValidTransactions_def
      List.map_filter_simps Pool_Aggregate_def)

lemma child_added:
  assumes rep: "state_rep chain_node [] 0 b st empty_ledger S" and fits: "fits b (fb_body child_block) empty_ledger"
    and pool: "st_pool st = \<lparr>tp_memPool = [], tp_stemPool = []\<rparr>"
    and parent: "GetBlockHeader sample_hash (Header_GetHash parent_header) (st_db st) = Inr (Some parent_header)"
    and row: "row (bd_rocks (st_db st)) (''BLOCK_SUMS'', Header_GetHash parent_header) =
      Some (BlockSums_Serialize \<lparr>bs_outputSum = replicate 33 9, bs_kernelSum = replicate 33 9\<rparr>)"
  shows "\<exists>st'. ValidateAndAddBlock chain_node (True, child_block) st = Some (Inr (), st')"
proof -
  let ?sums = "\<lparr>bs_outputSum = replicate 33 9, bs_kernelSum = replicate 33 9\<rparr>"
  obtain s' where s': "ApplyBlock sample_hash set_roaring MAINNET child_block (the (st_hashSet st), st_db st) = Some (Inr True, s')"
    "ranges_rep sample_hash set_roaring [] 0 (b + 1) (fst s')
      (apply_ledger (block_height child_block) (fb_body child_block) empty_ledger) S"
    "undo_record (block_hash child_block) (fb_body child_block) empty_ledger (st_db st) (snd s')"
    using child_applied [OF rep fits] by blast
  let ?st = "st\<lparr>st_hashSet := Some (fst s'), st_db := snd s'\<rparr>"
  have prev: "h_previousBlockHash (fb_header child_block) = Header_GetHash parent_header" by (simp add: child_block_def)
  have nrd: "ValidateNRDKernelRules sample_hash db child_block u = Some (Inr True)" for db and u :: "u32 set TxHashSet"
    by (simp add: ValidateNRDKernelRules_def child_block_def)
  note roots = child_roots [OF s'(2)] and sums = child_previous_sums [OF row s'(3)]
  let ?st2 = "?st\<lparr>st_db := AddBlock child_block (AddBlockSums (block_hash child_block) ?sums (snd s')),
    st_orphans := RemoveOrphan (block_height child_block) (block_hash child_block) (st_orphans st)\<rparr>"
  have set: "\<exists>t. st_hashSet st = Some t" using rep by (auto simp: state_rep_def)
  have "finish_block chain_node (True, child_block) ?st = reconcile_pool chain_node child_block ?st2"
    unfolding finish_block_def Let_def snd_conv chain_node_simps
    by (simp add: ebind_def eread_def echeck_def easks_def ereturn_def emodify_def verify_block_def VerifySelfConsistent_def
        on_database_def nrd roots prev sums child_sums [unfolded diff_0])
  moreover obtain st' where "reconcile_pool chain_node child_block ?st2 = Some (Inr (), st')"
    using empty_pools [of ?st2 "fst s'" chain_node child_block] pool by auto
  moreover have "ValidateAndAddBlock chain_node (True, child_block) st = finish_block chain_node (True, child_block) ?st"
    unfolding ValidateAndAddBlock_def Let_def snd_conv chain_node_simps
    using parent s'(1) set prev by (auto simp: ebind_def easks_def echeck_def ereturn_def on_data_def)
  ultimately show ?thesis by auto
qed

lemma child_outputs: "Header_GetNumOutputs (fb_header child_block) < 2 ^ 50"
  by (simp add: Header_GetNumOutputs_def child_block_def) code_simp

lemma start_pool: "st_pool start_state = \<lparr>tp_memPool = [], tp_stemPool = []\<rparr>"
  by (simp add: start_state_def)


theorem rewind_restores_witness:
  "\<exists>st' st'' b'. eforeach (ValidateAndAddBlock chain_node) [(True, child_block)] start_state = Some (Inr (), st') \<and>
     on_data (TxHashSet_Rewind sample_hash set_roaring (\<lambda>_. 0) parent_header) st' = Some (Inr (), st'') \<and>
     state_rep chain_node [] 0 b' st'' empty_ledger empty_ledger"
proof -
  obtain st' where "ValidateAndAddBlock chain_node (True, child_block) start_state = Some (Inr (), st')"
    using child_added [OF start_rep child_fits(2) start_pool start_database] by blast
  then have st': "eforeach (ValidateAndAddBlock chain_node) [(True, child_block)] start_state = Some (Inr (), st')"
    by (simp add: ebind_def ereturn_def)
  have len: "\<forall>x. length (nd_blake2b chain_node x) = 32" by (simp add: sample_hash_def)
  have header: "map_option th_header (st_hashSet start_state) = Some (Some parent_header)"
    by (simp add: start_state_def empty_state_def TxHashSet_New_def)
  have count: "Header_GetNumOutputs parent_header = of_nat (length (lg_outputs empty_ledger))"
    "Header_GetNumKernels parent_header = of_nat (length (lg_kernels empty_ledger))"
    by (simp_all add: Header_GetNumOutputs_def Header_GetNumKernels_def parent_header_def empty_ledger_def) code_simp+
  have "block_valid sample_hash (\<lambda>_. 0) child_block" by (rule child_valid(2))
  then have valid: "\<forall>block \<in> set (map snd [(True, child_block)]). block_valid (nd_blake2b chain_node) (\<lambda>_. 0) block" by simp
  have linked: "linked (nd_blake2b chain_node) (st_db start_state) parent_header (map snd [(True, child_block)])"
    using start_database(1) by (simp add: child_block_def)
  have fit: "blocks_fit (2 ^ 29) empty_ledger (map snd [(True, child_block)])"
    using child_fits(2) by (simp add: child_block_def)
  have hash: "distinct (map block_hash (map snd [(True, child_block)]))" "length (Header_GetHash parent_header) = 32"
    "Header_GetHash parent_header \<notin> block_hash ` set (map snd [(True, child_block)])"
    using child_hashes by simp_all
  show ?thesis using rewind_restores [OF len start_rep header count valid linked fit hash st'] st' by auto
qed

end
