(* ===== verification/Reorg.thy ===== *)
theory Reorg
  imports BlockProcessorCorrect
begin

text \<open>
  The change to another branch (\<^verbatim>\<open>BlockProcessor::HandleReorg\<close>): what it leaves in the hash set, the database and the
  chain of confirmed blocks, for a branch that is heavier and for one that is not.
\<close>

lemma ebind_Inr_iff: "ebind f g s = Some (Inr y, s') \<longleftrightarrow> (\<exists>x s1. f s = Some (Inr x, s1) \<and> g x s1 = Some (Inr y, s'))"
  by (auto simp: ebind_def split: option.splits prod.splits sum.splits)

lemma exec_Inr_iff:
  "easks f s = Some (Inr x, s1) \<longleftrightarrow> s1 = s \<and> f s = Inr x" "echeck c e s = Some (Inr u, s1) \<longleftrightarrow> s1 = s \<and> c"
  by (auto simp: easks_def echeck_def ereturn_def eraise_def)

section \<open>The chain of confirmed blocks\<close>

definition chains_rep :: "'b ChainState \<Rightarrow> bytes list \<times> bytes list \<Rightarrow> bool" where
  "chains_rep st hs \<longleftrightarrow> chain_rep (cs_confirmed (st_chains st)) hs \<and> (\<exists>cand. chain_rep (cs_candidate (st_chains st)) cand)"

lemma add_confirmed_rep:
  assumes rep: "chains_rep st (hs, saved)" and block: "length (block_hash block) = 32" and n: "length hs + 1 < 2 ^ 32"
    and run: "add_confirmed block st = Some (Inr (), st')"
  shows "\<exists>cs. st' = st\<lparr>st_chains := cs\<rparr> \<and> chains_rep st' (hs @ [block_hash block], saved)"
proof -
  let ?ch = "cs_confirmed (st_chains st)" and ?others = "[cs_candidate (st_chains st)]"
  have chains: "chain_rep ?ch (hs, saved)" "list_all indices_ok ?others"
    using rep chain_rep_indices by (auto simp: chains_rep_def)
  have step: "Chain_AddBlock ?others (block_hash block) (block_height block) ?ch = (Inr (), cs_confirmed (st_chains st'))"
    "st' = st\<lparr>st_chains := (st_chains st)\<lparr>cs_confirmed := cs_confirmed (st_chains st')\<rparr>\<rparr>"
    using run by (auto simp: add_confirmed_def on_chains_def on_chain_def split: prod.splits)
  have "block_height block = ch_height ?ch + 1" using step(1) by (auto simp: Chain_AddBlock_def split: if_splits)
  also have "\<dots> = of_nat (length hs)" using chains(1) by (cases hs) (simp_all add: chain_rep_def hashes_ok_def)
  finally have "chain_rep (cs_confirmed (st_chains st')) (hs @ [block_hash block], saved)"
    using AddBlock_rep [OF chains block n] step(1) by auto
  moreover have "cs_candidate (st_chains st') = cs_candidate (st_chains st)" by (subst step(2)) simp
  ultimately show ?thesis using step(2) rep unfolding chains_rep_def by auto
qed

lemma confirm_blocks:
  assumes "chains_rep st (hs, saved)" "\<forall>fb \<in> set fbs. length (block_hash (snd fb)) = 32" "length hs + length fbs < 2 ^ 32"
    and "eforeach (\<lambda>fb. add_confirmed (snd fb)) fbs st = Some (Inr (), st')"
  shows "\<exists>cs. st' = st\<lparr>st_chains := cs\<rparr> \<and> chains_rep st' (hs @ map block_hash (map snd fbs), saved)"
  using assms
proof (induction fbs arbitrary: st hs)
  case Nil
  then show ?case by (intro exI [of _ "st_chains st"]) (simp add: ereturn_def)
next
  case (Cons fb fbs)
  obtain st1 where st1: "add_confirmed (snd fb) st = Some (Inr (), st1)" "eforeach (\<lambda>fb. add_confirmed (snd fb)) fbs st1 = Some (Inr (), st')"
    using Cons.prems(4) by (rule eforeach_Cons)
  obtain cs where "st1 = st\<lparr>st_chains := cs\<rparr>" "chains_rep st1 (hs @ [block_hash (snd fb)], saved)"
    using add_confirmed_rep [OF Cons.prems(1) _ _ st1(1)] Cons.prems(2,3) by auto
  moreover obtain cs' where "st' = st1\<lparr>st_chains := cs'\<rparr>" "chains_rep st' ((hs @ [block_hash (snd fb)]) @ map block_hash (map snd fbs), saved)"
    using Cons.IH [OF calculation(2) _ _ st1(2)] Cons.prems(2,3) by auto
  ultimately show ?case by (intro exI [of _ cs']) simp
qed

lemma rewind_confirmed:
  assumes rep: "chains_rep st (hs, saved)"
    and run: "on_chains (on_chain CONFIRMED (\<lambda>others. Chain_Rewind (height - 1))) st = Some (Inr (), st')"
  shows "\<exists>cs. st' = st\<lparr>st_chains := cs\<rparr> \<and> chains_rep st' (take (unat height) hs, saved)" "unat height \<le> length hs"
proof -
  let ?ch = "cs_confirmed (st_chains st)" and ?k = "unat (height - 1)"
  have ch: "chain_rep ?ch (hs, saved)" using rep by (simp add: chains_rep_def)
  note h = chain_rep_height [OF ch]
  have step: "Chain_Rewind (height - 1) ?ch = (Inr (), cs_confirmed (st_chains st'))"
    "st' = st\<lparr>st_chains := (st_chains st)\<lparr>cs_confirmed := cs_confirmed (st_chains st')\<rparr>\<rparr>"
    using run by (auto simp: on_chains_def on_chain_def split: prod.splits)
  have "\<not> ch_height ?ch < height - 1" using step(1) by (auto simp: Chain_Rewind_def split: if_splits)
  then have k: "?k < length hs" using h by (auto simp: word_less_nat_alt)
  have "length hs < 2 ^ 32" using ch by (simp add: chain_rep_def hashes_ok_def)
  moreover have "unat (0 - 1 :: u64) = 18446744073709551615" by (simp add: unsigned_minus_1_eq_mask mask_eq_exp_minus_1)
  ultimately have "height \<noteq> 0" using k by (intro notI) simp
  then have height: "unat height = Suc ?k" using unat_minus_one [of height] by (simp add: unat_gt_0)
  have "chain_rep (cs_confirmed (st_chains st')) (take (Suc ?k) hs, saved)"
    using Chain_Rewind_rep [OF ch k] step(1) by auto
  moreover have "cs_candidate (st_chains st') = cs_candidate (st_chains st)" by (subst step(2)) simp
  ultimately show "\<exists>cs. st' = st\<lparr>st_chains := cs\<rparr> \<and> chains_rep st' (take (unat height) hs, saved)" "unat height \<le> length hs"
    using step(2) rep height k unfolding chains_rep_def by auto
qed

section \<open>Committing and rolling back\<close>

lemma chains_commit:
  assumes "chains_rep st (hs, saved)"
  shows "\<exists>cs. ChainStore_Commit True True (st_chains st) = (Inr (), cs) \<and> chains_rep (st\<lparr>st_chains := cs\<rparr>) (hs, hs)"
proof -
  obtain cand csaved where "chain_rep (cs_candidate (st_chains st)) (cand, csaved)" "chain_rep (cs_confirmed (st_chains st)) (hs, saved)"
    using assms by (auto simp: chains_rep_def)
  then obtain c1 c2 where "Chain_Commit True (cs_candidate (st_chains st)) = (Inr (), c1)" "chain_rep c1 (cand, cand)"
    "Chain_Commit True (cs_confirmed (st_chains st)) = (Inr (), c2)" "chain_rep c2 (hs, hs)"
    using Commit_rep by metis
  then show ?thesis by (auto simp: ChainStore_Commit_def chains_rep_def)
qed

lemma chains_rollback:
  assumes "chains_rep st (hs, saved)"
  shows "\<exists>cs. ChainStore_Rollback (st_chains st) = Some cs \<and> chains_rep (st\<lparr>st_chains := cs\<rparr>) (saved, saved)"
proof -
  obtain cand csaved where rep: "chain_rep (cs_candidate (st_chains st)) (cand, csaved)" "chain_rep (cs_confirmed (st_chains st)) (hs, saved)"
    using assms by (auto simp: chains_rep_def)
  obtain c1 where c1: "Chain_Rollback [cs_confirmed (st_chains st)] (cs_candidate (st_chains st)) = Some c1" "chain_rep c1 (csaved, csaved)"
    using Rollback_rep [OF rep(1), of "[cs_confirmed (st_chains st)]"] chain_rep_indices [OF rep(2)] by auto
  obtain c2 where "Chain_Rollback [c1] (cs_confirmed (st_chains st)) = Some c2" "chain_rep c2 (saved, saved)"
    using Rollback_rep [OF rep(2), of "[c1]"] chain_rep_indices [OF c1(2)] by auto
  then show ?thesis using c1 by (auto simp: ChainStore_Rollback_def chains_rep_def)
qed

abbreviation all_written :: disk where
  "all_written \<equiv> \<lparr>dk_confirmed = True, dk_candidate = True, dk_db = True, dk_header = True, dk_kernel = (True, True, True),
     dk_output = (True, True, True), dk_proof = (True, True, True)\<rparr>"

lemma state_commit:
  assumes rep: "state_rep N es c b st L S" "b + 1 \<le> 2 ^ 60" and chains: "chains_rep st (hs, saved)"
    and run: "ChainState_Commit (nd_roaring N) all_written st = Some (Inr (), st')"
  shows "state_rep N es c (b + 1) st' L L" "chains_rep st' (hs, hs)"
proof -
  obtain t where t: "st_hashSet st = Some t" "hash_set_rep (nd_blake2b N) (nd_roaring N) es c b (t, st_db st) L S"
    using rep(1) by (auto simp: state_rep_def)
  obtain t' db where c: "TxHashSet_Commit (nd_roaring N) (True, True, True) (True, True, True) (True, True, True) t = Some t'"
    "BlockDB_Commit True (st_db st) = (Inr (), db)" "hash_set_rep (nd_blake2b N) (nd_roaring N) es c (b + 1) (t', db) L L"
    using hash_set_commit [OF t(2) rep(2)] by auto
  obtain cs where cs: "ChainStore_Commit True True (st_chains st) = (Inr (), cs)" "chains_rep (st\<lparr>st_chains := cs\<rparr>) (hs, hs)"
    using chains_commit [OF chains] by blast
  have "\<exists>m. st' = st\<lparr>st_chains := cs, st_db := db, st_headers := m, st_hashSet := Some t'\<rparr>"
    using run cs(1) c(1,2) t(1)
    by (auto simp: ChainState_Commit_def ebind_Inr_iff on_chains_def on_database_def on_headers_def Manager_Commit_def
        split: prod.splits)
  then obtain m where "st' = st\<lparr>st_chains := cs, st_db := db, st_headers := m, st_hashSet := Some t'\<rparr>" by blast
  then show "state_rep N es c (b + 1) st' L L" "chains_rep st' (hs, hs)"
    using c(3) cs(2) by (simp_all add: state_rep_def chains_rep_def)
qed

lemma state_commit_runs:
  assumes rep: "state_rep N es c b st L S" "b + 1 \<le> 2 ^ 60" and chains: "chains_rep st (hs, saved)"
    and headers: "data_inv (hm_hashFile (st_headers st))"
  shows "\<exists>st'. ChainState_Commit (nd_roaring N) all_written st = Some (Inr (), st')"
proof -
  obtain t where t: "st_hashSet st = Some t" "hash_set_rep (nd_blake2b N) (nd_roaring N) es c b (t, st_db st) L S"
    using rep(1) by (auto simp: state_rep_def)
  obtain t' db where c: "TxHashSet_Commit (nd_roaring N) (True, True, True) (True, True, True) (True, True, True) t = Some t'"
    "BlockDB_Commit True (st_db st) = (Inr (), db)"
    using hash_set_commit [OF t(2) rep(2)] by auto
  obtain cs where cs: "ChainStore_Commit True True (st_chains st) = (Inr (), cs)" using chains_commit [OF chains] by blast
  obtain m where "HeaderMMR_Commit True (st_headers st) = (Inr (), m)"
    using DataFile_Commit_True [OF headers] by (cases "hm_dirty (st_headers st)") (simp_all add: HeaderMMR_Commit_def)
  then show ?thesis
    using c cs t(1) by (simp add: ChainState_Commit_def ebind_def on_chains_def on_database_def on_headers_def Manager_Commit_def)
qed

lemma state_rollback:
  assumes rep: "state_rep N es c b st L S" "b + 1 \<le> 2 ^ 60" and chains: "chains_rep st (hs, saved)"
    and run: "ChainState_Rollback (nd_roaring N) st = Some (Inr (), st')"
  shows "state_rep N es c (b + 1) st' S S" "chains_rep st' (saved, saved)"
proof -
  obtain t where t: "st_hashSet st = Some t" "hash_set_rep (nd_blake2b N) (nd_roaring N) es c b (t, st_db st) L S"
    using rep(1) by (auto simp: state_rep_def)
  obtain db where c: "BlockDB_Rollback (st_db st) = (Inr (), db)"
    "hash_set_rep (nd_blake2b N) (nd_roaring N) es c (b + 1) (TxHashSet_Rollback (nd_roaring N) t, db) S S"
    using hash_set_rollback [OF t(2) rep(2)] by auto
  obtain cs where cs: "ChainStore_Rollback (st_chains st) = Some cs" "chains_rep (st\<lparr>st_chains := cs\<rparr>) (saved, saved)"
    using chains_rollback [OF chains] by blast
  have "st' = st\<lparr>st_chains := cs, st_db := db, st_headers := HeaderMMR_Rollback (st_headers st),
      st_hashSet := Some (TxHashSet_Rollback (nd_roaring N) t)\<rparr>"
    using run cs(1) c(1) t(1)
    by (auto simp: ChainState_Rollback_def ebind_Inr_iff rollback_chains_def on_database_def on_headers_def emodify_def Manager_Rollback_def)
  then show "state_rep N es c (b + 1) st' S S" "chains_rep st' (saved, saved)"
    using c(2) cs(2) by (simp_all add: state_rep_def chains_rep_def)
qed

text \<open>Blocks that are stored without being applied do not touch the ledger.\<close>

lemma store_blocks:
  assumes rep: "state_rep N es c b st S S"
    and "BlockDB_Commit True (fold (\<lambda>fb. AddBlock (snd fb)) fbs (st_db st)) = (r, db)"
  shows "state_rep N es c b (st\<lparr>st_db := db\<rparr>) S S"
proof -
  let ?db = "fold (\<lambda>fb. AddBlock (snd fb)) fbs (st_db st)"
  obtain t where t: "st_hashSet st = Some t" "hash_set_rep (nd_blake2b N) (nd_roaring N) es c b (t, st_db st) S S"
    using rep by (auto simp: state_rep_def)
  have "open_batch (bd_rocks db0) \<Longrightarrow> open_batch (bd_rocks (fold (\<lambda>fb. AddBlock (snd fb)) fbs db0)) \<and>
      (\<forall>k. read_position (row (bd_rocks (fold (\<lambda>fb. AddBlock (snd fb)) fbs db0))) k = read_position (row (bd_rocks db0)) k)" for db0
    by (induction fbs arbitrary: db0) (simp_all add: AddBlock_def read_position_def)
  then have d: "open_batch (bd_rocks ?db)" "read_position (row (bd_rocks ?db)) k = read_position (row (bd_rocks (st_db st))) k" for k
    using t(2) by (simp_all add: mid_rep_def)
  have "bd_rocks db = rocks_commit (bd_rocks ?db)"
    using assms(2) by (cases "rd_transaction (bd_rocks ?db)") (auto simp: BlockDB_Commit_def RocksDB_Commit_def rocks_commit_def)
  then have "hash_set_rep (nd_blake2b N) (nd_roaring N) es c b (t, db) S S"
    using t(2) d by (simp add: mid_rep_def positions_ok_def rocks.commit_inv rocks.commit_view rocks.commit_saved)
  then show ?thesis using t(1) by (simp add: state_rep_def)
qed

section \<open>A reorganisation\<close>

lemma other_rows_linked: "other_rows db = other_rows db' \<Longrightarrow> linked B db tip blocks = linked B db' tip blocks"
  by (induction blocks arbitrary: tip) (simp_all add: other_rows_reads(3) [of db db'])

lemma foreach_keeps_chains:
  assumes "\<forall>x. length (nd_blake2b N x) = 32" "state_rep N es c b st (ledger_after L past) S"
    and "\<forall>block \<in> set (map snd fbs). body_ok (fb_body block)" "blocks_fit b (ledger_after L past) (map snd fbs)"
    and "eforeach (ValidateAndAddBlock N) fbs st = Some (Inr (), st')"
  shows "st_chains st' = st_chains st"
  using assms
proof (induction fbs arbitrary: st b past)
  case (Cons fb fbs)
  obtain flag block where fb: "fb = (flag, block)" by fastforce
  obtain st1 where st1: "ValidateAndAddBlock N (flag, block) st = Some (Inr (), st1)" "eforeach (ValidateAndAddBlock N) fbs st1 = Some (Inr (), st')"
    using Cons.prems(5) unfolding fb by (rule eforeach_Cons)
  note run = ValidateAndAddBlock_run [OF Cons.prems(1,2) _ _ st1(1)]
  show ?case using Cons.IH [of _ st1 "block # past"] run st1(2) Cons.prems(1,3,4) by (simp add: fb) blast
qed (simp add: ereturn_def)

section \<open>A reorganisation ends\<close>

lemma ebind_returns_from:
  "f s = Some (r, s1) \<Longrightarrow> (\<And>x. r = Inr x \<Longrightarrow> \<exists>q. g x s1 = Some q) \<Longrightarrow> \<exists>q. ebind f g s = Some q"
  by (auto simp: ebind_def split: sum.splits)

lemma eforeach_returns: "(\<And>x s. \<exists>q. f x s = Some q) \<Longrightarrow> \<exists>q. eforeach f xs s = Some q"
proof (induction xs arbitrary: s)
  case (Cons x xs)
  then show ?case unfolding eforeach.simps by (intro ebind_returns) blast+
qed (simp add: ereturn_def)

lemma blocks_return:
  assumes "\<forall>x. length (nd_blake2b N x) = 32" "state_rep N es c b st L S" "blocks_fit b L (map snd fbs)"
    and "\<forall>block \<in> set (map snd fbs). body_ok (fb_body block) \<and> Header_GetNumOutputs (fb_header block) < 2 ^ 50"
  shows "\<exists>q. eforeach (ValidateAndAddBlock N) fbs st = Some q"
  using assms
proof (induction fbs arbitrary: st b L)
  case (Cons fb fbs)
  obtain flag block where fb: "fb = (flag, block)" by fastforce
  have block: "body_ok (fb_body block)" "fits b (fb_body block) L" "Header_GetNumOutputs (fb_header block) < 2 ^ 50"
    using Cons.prems(3,4) by (simp_all add: fb)
  obtain r st1 where st1: "ValidateAndAddBlock N (flag, block) st = Some (r, st1)"
    using ValidateAndAddBlock_returns [OF Cons.prems(1,2) block] by blast
  note run = ValidateAndAddBlock_run [OF Cons.prems(1,2) block(1,2) st1]
  have "\<exists>q. eforeach (ValidateAndAddBlock N) fbs st1 = Some q" if "r = Inr x" for x
    using Cons.IH [OF Cons.prems(1), of _ st1] run that Cons.prems(3,4) by (simp add: fb) blast
  then show ?case unfolding eforeach.simps fb by (intro ebind_returns_from [of "ValidateAndAddBlock N (flag, block)" st r st1] st1)
qed (simp add: ereturn_def)

lemma commit_returns:
  assumes "state_rep N es c b st L S" "b + 1 \<le> 2 ^ 60"
  shows "\<exists>q. ChainState_Commit (nd_roaring N) all_written st = Some q"
proof -
  obtain t where t: "st_hashSet st = Some t" "hash_set_rep (nd_blake2b N) (nd_roaring N) es c b (t, st_db st) L S"
    using assms(1) by (auto simp: state_rep_def)
  obtain t' where "TxHashSet_Commit (nd_roaring N) (True, True, True) (True, True, True) (True, True, True) t = Some t'"
    using hash_set_commit [OF t(2) assms(2)] by auto
  then show ?thesis
    using t(1) by (auto simp: ChainState_Commit_def ebind_def on_chains_def on_database_def on_headers_def Manager_Commit_def
        split: prod.splits sum.splits)
qed

lemma rollback_returns:
  assumes "chains_rep st (hs, saved)"
  shows "\<exists>q. ChainState_Rollback R st = Some q"
  using chains_rollback [OF assms]
  by (auto simp: ChainState_Rollback_def rollback_chains_def ebind_def on_database_def on_headers_def emodify_def split: prod.splits sum.splits)

lemma heavier_returns:
  assumes rep: "state_rep N es c b st L S" "b + 1 \<le> 2 ^ 60"
  shows "\<exists>q. ebind (on_chains (on_chain CONFIRMED (\<lambda>others. Chain_Rewind height))) (\<lambda>_.
    ebind (eforeach (\<lambda>fb. add_confirmed (snd fb)) fbs) (\<lambda>_. ChainState_Commit (nd_roaring N) all_written)) st = Some q"
proof -
  have same: "st_hashSet st' = st_hashSet st0 \<and> st_db st' = st_db st0"
    if "eforeach (\<lambda>fb. add_confirmed (snd fb)) fbs st0 = Some (q, st')" for q st' st0 fbs
    using that
  proof (induction fbs arbitrary: st0)
    case (Cons fb fbs)
    have "st_hashSet st1 = st_hashSet st0 \<and> st_db st1 = st_db st0" if "add_confirmed (snd fb) st0 = Some (r, st1)" for r st1
      using that by (auto simp: add_confirmed_def on_chains_def split: prod.splits)
    then show ?case using Cons.prems Cons.IH by (auto elim!: ebind_cases)
  qed (simp add: ereturn_def)
  have confirm: "\<exists>q. eforeach (\<lambda>fb. add_confirmed (snd fb)) fbs st0 = Some q" for st0
    by (rule eforeach_returns) (auto simp: add_confirmed_def on_chains_def split: prod.splits)
  obtain r cs where st1: "on_chains (on_chain CONFIRMED (\<lambda>others. Chain_Rewind height)) st = Some (r, st\<lparr>st_chains := cs\<rparr>)"
    by (cases "on_chain CONFIRMED (\<lambda>others. Chain_Rewind height) (st_chains st)") (simp add: on_chains_def)
  obtain q st2 where st2: "eforeach (\<lambda>fb. add_confirmed (snd fb)) fbs (st\<lparr>st_chains := cs\<rparr>) = Some (q, st2)"
    using confirm [of "st\<lparr>st_chains := cs\<rparr>"] by auto
  have "state_rep N es c b st2 L S" using rep(1) same [OF st2] by (simp add: state_rep_def)
  from commit_returns [OF this rep(2)] show ?thesis
    by (intro ebind_returns_from [of "on_chains _" st r "st\<lparr>st_chains := cs\<rparr>"] ebind_returns_from [of "eforeach _ fbs" "st\<lparr>st_chains := cs\<rparr>" q st2] st1 st2)
qed

lemma HandleReorg_returns:
  assumes len: "\<forall>x. length (nd_blake2b N x) = 32" and chains: "chains_rep st (hs, saved)"
    and rw: "on_data (TxHashSet_Rewind (nd_blake2b N) (nd_roaring N) G header) st = Some (Inr (), st1)"
      "state_rep N es c b st1 L S" "st_chains st1 = st_chains st"
    and header: "GetBlockHeader (nd_blake2b N) (h_previousBlockHash (fb_header (snd (hd fbs)))) (st_db st) = Inr (Some header)"
    and blocks: "blocks_fit b L (map snd fbs)"
      "\<forall>block \<in> set (map snd fbs). body_ok (fb_body block) \<and> Header_GetNumOutputs (fb_header block) < 2 ^ 50"
    and added: "\<And>st2. eforeach (ValidateAndAddBlock N) fbs st1 = Some (Inr (), st2) \<Longrightarrow>
      \<exists>b L. state_rep N es c b st2 L S \<and> b + 1 \<le> 2 ^ 60 \<and> st_chains st2 = st_chains st1"
  shows "\<exists>q. HandleReorg N G all_written fbs st = Some q"
proof -
  obtain r st2 where st2: "eforeach (ValidateAndAddBlock N) fbs st1 = Some (r, st2)"
    using blocks_return [OF len rw(2) blocks] by auto
  let ?last = "\<lambda>d d' height. if d < d' then
        ebind (on_chains (on_chain CONFIRMED (\<lambda>others. Chain_Rewind height))) (\<lambda>_.
        ebind (eforeach (\<lambda>fb. add_confirmed (snd fb)) fbs) (\<lambda>_. ChainState_Commit (nd_roaring N) all_written))
      else
        ebind (ChainState_Rollback (nd_roaring N)) (\<lambda>_.
        ebind (on_database (\<lambda>db. (Inr (), fold (\<lambda>fb. AddBlock (snd fb)) fbs db))) (\<lambda>_.
          on_database (BlockDB_Commit (dk_db all_written))))"
  have last: "\<exists>q. ?last d d' height st2 = Some q" if r: "r = Inr x" for x height and d d' :: u64
  proof -
    obtain b' L' where after: "state_rep N es c b' st2 L' S" "b' + 1 \<le> 2 ^ 60" "st_chains st2 = st_chains st1"
      using added [of st2] st2 r by fastforce
    have "chains_rep st2 (hs, saved)" using chains after(3) rw(3) by (simp add: chains_rep_def)
    from rollback_returns [OF this] heavier_returns [OF after(1,2)] show ?thesis
      by (cases "d < d'") (simp_all only: if_True if_False ebind_returns steps_return)
  qed
  have run: "\<exists>q. ebind (eforeach (ValidateAndAddBlock N) fbs) (\<lambda>_. ?last d d' height) st1 = Some q" for d d' :: u64 and height
    by (rule ebind_returns_from [of "eforeach (ValidateAndAddBlock N) fbs" st1 r st2 "\<lambda>_. ?last d d' height"]) (rule st2, rule last)
  let ?d = "GetTotalDifficulty (nd_blake2b N) CONFIRMED st" and ?hashSet = "st_hashSet st"
  show ?thesis
    using rw(1) header run [of "projr ?d" "h_totalDifficulty (fb_header (snd (last fbs)))" "block_height (snd (hd fbs)) - 1"]
    unfolding HandleReorg_def Let_def
    by (cases ?d; cases ?hashSet)
      (simp_all add: ebind_run ebind_def [of "easks _"] ebind_def [of "echeck _ _"] easks_def echeck_def ereturn_def eraise_def
        split del: if_split)
qed

section \<open>What it leaves\<close>

text \<open>The last part of a reorganisation, when the blocks of the branch have been added.\<close>

definition branch_end :: "'b node \<Rightarrow> disk \<Rightarrow> flagged_block list \<Rightarrow> u64 \<Rightarrow> ('b ChainState, unit) exec" where
  "branch_end N D fbs totalDifficulty =
     (if totalDifficulty < h_totalDifficulty (fb_header (snd (last fbs))) then
        ebind (on_chains (on_chain CONFIRMED (\<lambda>others. Chain_Rewind (h_height (fb_header (snd (hd fbs))) - 1)))) (\<lambda>_.
        ebind (eforeach (\<lambda>fb. add_confirmed (snd fb)) fbs) (\<lambda>_. ChainState_Commit (nd_roaring N) D))
      else
        ebind (ChainState_Rollback (nd_roaring N)) (\<lambda>_.
        ebind (on_database (\<lambda>db. (Inr (), fold (\<lambda>fb. AddBlock (snd fb)) fbs db))) (\<lambda>_.
          on_database (BlockDB_Commit (dk_db D)))))"

lemma HandleReorg_steps:
  assumes "HandleReorg N G D fbs st = Some (Inr (), st')"
    and "on_data (TxHashSet_Rewind (nd_blake2b N) (nd_roaring N) G header) st = Some (Inr (), st1)"
    and "GetBlockHeader (nd_blake2b N) (h_previousBlockHash (fb_header (snd (hd fbs)))) (st_db st) = Inr (Some header)"
  obtains total st2 where "GetTotalDifficulty (nd_blake2b N) CONFIRMED st = Inr total"
    "eforeach (ValidateAndAddBlock N) fbs st1 = Some (Inr (), st2)" "branch_end N D fbs total st2 = Some (Inr (), st')"
  using assms(1) unfolding HandleReorg_def Let_def ebind_Inr_iff exec_Inr_iff branch_end_def by (auto simp: assms(2,3))

lemma take_branch:
  assumes rep: "state_rep N es c b st L S" "b + 1 \<le> 2 ^ 60" "chains_rep st (hs, saved)"
    and blocks: "\<forall>fb \<in> set fbs. length (block_hash (snd fb)) = 32" "length hs + length fbs < 2 ^ 32"
    and run: "ebind (on_chains (on_chain CONFIRMED (\<lambda>others. Chain_Rewind (height - 1)))) (\<lambda>_.
      ebind (eforeach (\<lambda>fb. add_confirmed (snd fb)) fbs) (\<lambda>_. ChainState_Commit (nd_roaring N) all_written)) st = Some (Inr (), st')"
  defines "new \<equiv> take (unat height) hs @ map block_hash (map snd fbs)"
  shows "state_rep N es c (b + 1) st' L L \<and> chains_rep st' (new, new)"
proof -
  obtain st1 st2 where st1: "on_chains (on_chain CONFIRMED (\<lambda>others. Chain_Rewind (height - 1))) st = Some (Inr (), st1)"
    and st2: "eforeach (\<lambda>fb. add_confirmed (snd fb)) fbs st1 = Some (Inr (), st2)"
    and com: "ChainState_Commit (nd_roaring N) all_written st2 = Some (Inr (), st')"
    using run by (auto simp: ebind_Inr_iff)
  obtain cs where ch1: "st1 = st\<lparr>st_chains := cs\<rparr>" "chains_rep st1 (take (unat height) hs, saved)"
    using rewind_confirmed(1) [OF rep(3) st1] by blast
  have "length (take (unat height) hs) + length fbs < 2 ^ 32" using blocks(2) by simp
  then obtain cs' where ch2: "st2 = st1\<lparr>st_chains := cs'\<rparr>" "chains_rep st2 (new, saved)"
    using confirm_blocks [OF ch1(2) blocks(1) _ st2] unfolding new_def by blast
  have "state_rep N es c b st2 L S" using rep(1) by (simp add: ch1(1) ch2(1) state_rep_def)
  from state_commit [OF this rep(2) ch2(2) com] show ?thesis by blast
qed

lemma leave_branch:
  assumes rep: "state_rep N es c b st L S" "b + 1 \<le> 2 ^ 60" "chains_rep st (hs, saved)"
    and run: "ebind (ChainState_Rollback (nd_roaring N)) (\<lambda>_.
      ebind (on_database (\<lambda>db. (Inr (), fold (\<lambda>fb. AddBlock (snd fb)) fbs db))) (\<lambda>_. on_database (BlockDB_Commit True))) st =
        Some (Inr (), st')"
  shows "state_rep N es c (b + 1) st' S S \<and> chains_rep st' (saved, saved)"
proof -
  let ?add = "\<lambda>st. st\<lparr>st_db := fold (\<lambda>fb. AddBlock (snd fb)) fbs (st_db st)\<rparr>"
  obtain st1 where st1: "ChainState_Rollback (nd_roaring N) st = Some (Inr (), st1)"
    and st2: "on_database (BlockDB_Commit True) (?add st1) = Some (Inr (), st')"
    using run unfolding ebind_Inr_iff by (auto simp: on_database_def [of "\<lambda>db. (Inr (), fold (\<lambda>fb. AddBlock (snd fb)) fbs db)"])
  obtain db where com: "BlockDB_Commit True (fold (\<lambda>fb. AddBlock (snd fb)) fbs (st_db st1)) = (Inr (), db)" "st' = st1\<lparr>st_db := db\<rparr>"
    using st2 by (cases "BlockDB_Commit True (fold (\<lambda>fb. AddBlock (snd fb)) fbs (st_db st1))") (simp add: on_database_def)
  note undone = state_rollback [OF rep st1]
  have "chains_rep st' (saved, saved)" using undone(2) com(2) by (simp add: chains_rep_def)
  then show ?thesis using store_blocks [OF undone(1) com(1)] com(2) by simp
qed

text \<open>
  C14. A change to another branch. The state represents the ledger after the blocks \<open>past\<close> on top of a header, all of
  which can be undone, and the blocks of the new branch follow that header; all files can be written. Then the change
  ends. If it ends without an exception: when the new branch is heavier, hash set and database represent the ledger
  after the new blocks, and have it committed, and the confirmed chain consists of its old blocks below the branch and
  of the new ones; otherwise everything that was committed before is back.
\<close>

theorem HandleReorg_correct:
  assumes len: "\<forall>x. length (nd_blake2b N x) = 32"
    and rep: "state_rep N es c b st (ledger_after L past) S" "chains_rep st (hs, saved)"
    and undo: "undo_chain (nd_blake2b N) G (nd_env N) header L (st_db st) past"
      "map_option th_header (st_hashSet st) = Some (Some (tip_of header past))"
    and base: "ledger_ok L" "c \<le> length (lg_outputs L)" "\<forall>i \<in> lg_unspent L. \<not> leaf_compacted es i"
    and count: "Header_GetNumOutputs header = of_nat (length (lg_outputs L))" "Header_GetNumKernels header = of_nat (length (lg_kernels L))"
    and hash: "\<forall>block \<in> set past. length (block_hash block) = 32 \<and> block_hash block \<noteq> Header_GetHash header"
      "length (Header_GetHash header) = 32"
    and blocks: "fbs \<noteq> []" "\<forall>block \<in> set (map snd fbs). block_valid (nd_blake2b N) G block"
      "linked (nd_blake2b N) (st_db st) header (map snd fbs)" "blocks_fit (b + 1) L (map snd fbs)"
      "distinct (map block_hash (map snd fbs))" "length hs + length fbs < 2 ^ 32" "b + 1 \<le> 2 ^ 60"
      "\<forall>block \<in> set (map snd fbs). Header_GetNumOutputs (fb_header block) < 2 ^ 50"
  shows "\<exists>r st'. HandleReorg N G all_written fbs st = Some (r, st') \<and>
    (r = Inr () \<longrightarrow> (\<exists>total b'. GetTotalDifficulty (nd_blake2b N) CONFIRMED st = Inr total \<and>
      (if total < h_totalDifficulty (fb_header (snd (last fbs)))
       then state_rep N es c b' st' (ledger_after L (rev (map snd fbs))) (ledger_after L (rev (map snd fbs))) \<and>
         (\<exists>new. new = take (unat (block_height (snd (hd fbs)))) hs @ map block_hash (map snd fbs) \<and> chains_rep st' (new, new))
       else state_rep N es c b' st' S S \<and> chains_rep st' (saved, saved))))"
proof -
  let ?B = "nd_blake2b N" and ?R = "nd_roaring N" and ?M = "ledger_after L (rev (map snd fbs))"
  have lens: "\<forall>fb \<in> set fbs. length (block_hash (snd fb)) = 32"
    using blocks(2) len by (simp add: block_valid_def header_valid_def pow_valid_def Header_GetHash_def)
  have ok: "\<forall>block \<in> set (map snd fbs). body_ok (fb_body block) \<and> Header_GetNumOutputs (fb_header block) < 2 ^ 50"
    using blocks(2,8) by (auto simp: block_valid_def)
  have first: "GetBlockHeader ?B (h_previousBlockHash (fb_header (snd (hd fbs)))) (st_db st) = Inr (Some header)"
    using blocks(1,3) by (cases fbs) simp_all
  obtain t db where rw: "on_data (TxHashSet_Rewind ?B ?R G header) st = Some (Inr (), st\<lparr>st_hashSet := Some t, st_db := db\<rparr>)"
    "state_rep N es c (b + 1) (st\<lparr>st_hashSet := Some t, st_db := db\<rparr>) L S" "th_header t = Some header"
    "other_rows db = other_rows (st_db st)"
    using rewind_to [OF rep(1) blocks(7) undo base count hash] by blast
  let ?st1 = "st\<lparr>st_hashSet := Some t, st_db := db\<rparr>"
  have linked: "linked ?B (st_db ?st1) header (map snd fbs)" using blocks(3) other_rows_linked [OF rw(4)] by simp
  have dist: "distinct (map block_hash (rev (map snd fbs) @ []))" using blocks(5) by (simp only: append_Nil2 rev_map [symmetric] distinct_rev)
  have after: "\<exists>b2. state_rep N es c b2 st2 ?M S \<and> b2 + 1 \<le> 2 ^ 60 \<and> st_chains st2 = st_chains ?st1"
    if add: "eforeach (ValidateAndAddBlock N) fbs ?st1 = Some (Inr (), st2)" for st2
  proof -
    obtain b2 where "state_rep N es c b2 st2 ?M S" "b2 + 1 \<le> 2 ^ 60"
      using add_blocks [OF len add, of es c "b + 1" L "[]" S G header] rw(2,3) blocks(2,4) linked dist by auto
    moreover have "st_chains st2 = st_chains ?st1"
      by (rule foreach_keeps_chains [OF len _ _ _ add, of es c "b + 1" L "[]" S])
        (use rw(2) blocks(2,4) in \<open>simp_all add: block_valid_def\<close>)
    ultimately show ?thesis by blast
  qed
  have chains: "st_chains ?st1 = st_chains st" by simp
  have "\<exists>b L. state_rep N es c b st2 L S \<and> b + 1 \<le> 2 ^ 60 \<and> st_chains st2 = st_chains ?st1"
    if "eforeach (ValidateAndAddBlock N) fbs ?st1 = Some (Inr (), st2)" for st2 using after [OF that] by blast
  from HandleReorg_returns [OF len rep(2) rw(1,2) chains first blocks(4) ok this]
  obtain r st' where run: "HandleReorg N G all_written fbs st = Some (r, st')" by auto
  show ?thesis
  proof (cases "r = Inr ()")
    case True
    then have "HandleReorg N G all_written fbs st = Some (Inr (), st')" using run by simp
    from HandleReorg_steps [OF this rw(1) first] obtain total st2 where total: "GetTotalDifficulty ?B CONFIRMED st = Inr total"
      and add: "eforeach (ValidateAndAddBlock N) fbs ?st1 = Some (Inr (), st2)"
      and fin: "branch_end N all_written fbs total st2 = Some (Inr (), st')" .
    obtain b2 where st2: "state_rep N es c b2 st2 ?M S" "b2 + 1 \<le> 2 ^ 60" "chains_rep st2 (hs, saved)"
      using after [OF add] rep(2) chains unfolding chains_rep_def by metis
    show ?thesis
    proof (cases "total < h_totalDifficulty (fb_header (snd (last fbs)))")
      case heavier: True
      show ?thesis using take_branch [OF st2 lens blocks(6)] fin run total heavier by (auto simp: branch_end_def)
    next
      case lighter: False
      show ?thesis using leave_branch [OF st2] fin run total lighter by (auto simp: branch_end_def)
    qed
  qed (use run in auto)
qed

text \<open>The block of one output, on a chain that ends with its predecessor.\<close>

lemma start_chains: "chains_rep start_state ([Header_GetHash parent_header], [Header_GetHash parent_header])"
  using sample_chain_rep [of "[Header_GetHash parent_header]"] child_hashes by (auto simp: chains_rep_def start_state_def hashes_ok_def)

lemma start_difficulty: "GetTotalDifficulty sample_hash CONFIRMED start_state = Inr (h_totalDifficulty parent_header)"
proof -
  have "GetTipHash (GetChain CONFIRMED (st_chains start_state)) = Inr (Header_GetHash parent_header)"
    by (simp add: start_state_def GetTipHash_def GetTip_def sample_chain_def index_list_def index_at_def)
  then show ?thesis using start_database(1) by (simp add: GetTotalDifficulty_def GetTipBlockHeader_def)
qed

lemma child_heavier: "h_totalDifficulty parent_header < h_totalDifficulty (fb_header child_block)"
  by (simp add: child_block_def parent_header_def sample_header_def)

lemma start_count:
  "Header_GetNumOutputs parent_header = of_nat (length (lg_outputs empty_ledger))"
  "Header_GetNumKernels parent_header = of_nat (length (lg_kernels empty_ledger))"
  by (simp_all add: Header_GetNumOutputs_def Header_GetNumKernels_def parent_header_def empty_ledger_def) code_simp+

lemma child_confirmed:
  assumes "chains_rep st ([Header_GetHash parent_header], saved)"
  shows "\<exists>cs. on_chains (on_chain CONFIRMED (\<lambda>others. Chain_Rewind (block_height child_block - 1))) st = Some (Inr (), st) \<and>
    add_confirmed child_block st = Some (Inr (), st\<lparr>st_chains := cs\<rparr>) \<and>
    chains_rep (st\<lparr>st_chains := cs\<rparr>) ([Header_GetHash parent_header, block_hash child_block], saved)"
proof -
  let ?ch = "cs_confirmed (st_chains st)" and ?cand = "cs_candidate (st_chains st)"
  have ch: "chain_rep ?ch ([Header_GetHash parent_header], saved)" "ch_height ?ch = 0" "list_all indices_ok [?cand]"
    using assms chain_rep_indices by (auto simp: chains_rep_def chain_rep_def)
  have height: "block_height child_block = 1" by (simp add: child_block_def)
  have hash: "length (block_hash child_block) = 32" by (simp add: child_hashes)
  obtain ch' where ch': "Chain_AddBlock [?cand] (block_hash child_block) 1 ?ch = (Inr (), ch')"
    "chain_rep ch' ([Header_GetHash parent_header, block_hash child_block], saved)"
    using AddBlock_rep [OF ch(1,3) hash] by auto
  show ?thesis
  proof (intro exI [of _ "(st_chains st)\<lparr>cs_confirmed := ch'\<rparr>"] conjI)
    show "on_chains (on_chain CONFIRMED (\<lambda>others. Chain_Rewind (block_height child_block - 1))) st = Some (Inr (), st)"
      using ch(2) by (simp add: height on_chains_def on_chain_def Chain_Rewind_def)
    show "add_confirmed child_block st = Some (Inr (), st\<lparr>st_chains := (st_chains st)\<lparr>cs_confirmed := ch'\<rparr>\<rparr>)"
      using ch'(1) by (simp add: add_confirmed_def on_chains_def on_chain_def height)
  qed (use assms ch'(2) in \<open>simp add: chains_rep_def\<close>)
qed

lemma child_fits_again: "blocks_fit (2 ^ 29 + 1) empty_ledger (map snd [(True, child_block)])"
  "fits (2 ^ 29 + 1) (fb_body child_block) empty_ledger"
  by (simp_all add: child_block_def fits_def empty_ledger_def)

lemma start_tip: "map_option th_header (st_hashSet start_state) = Some (Some (tip_of parent_header []))"
  by (simp add: start_state_def empty_state_def TxHashSet_New_def)

lemma start_rewound:
  obtains t db where
    "on_data (TxHashSet_Rewind sample_hash set_roaring G parent_header) start_state =
       Some (Inr (), start_state\<lparr>st_hashSet := Some t, st_db := db\<rparr>)"
    "state_rep chain_node [] 0 (2 ^ 29 + 1) (start_state\<lparr>st_hashSet := Some t, st_db := db\<rparr>) empty_ledger empty_ledger"
    "other_rows db = other_rows (st_db start_state)"
proof -
  have b: "(2 ^ 29 :: nat) + 1 \<le> 2 ^ 60" by simp
  show thesis
    using rewind_to [OF _ b, of chain_node "[]" 0 start_state empty_ledger "[]" empty_ledger G parent_header] that
      start_rep state_rep_ledger [OF start_rep] start_count start_tip child_hashes(1)
    by (simp del: power_numeral) blast
qed

lemma child_reorg_runs:
  "\<exists>st'. HandleReorg chain_node (\<lambda>_. 0) all_written [(True, child_block)] start_state = Some (Inr (), st')"
proof -
  let ?hs = "[Header_GetHash parent_header]"
  obtain t db where rw: "on_data (TxHashSet_Rewind sample_hash set_roaring (\<lambda>_. 0) parent_header) start_state =
      Some (Inr (), start_state\<lparr>st_hashSet := Some t, st_db := db\<rparr>)"
    "state_rep chain_node [] 0 (2 ^ 29 + 1) (start_state\<lparr>st_hashSet := Some t, st_db := db\<rparr>) empty_ledger empty_ledger"
    "other_rows db = other_rows (st_db start_state)"
    by (rule start_rewound)
  let ?st1 = "start_state\<lparr>st_hashSet := Some t, st_db := db\<rparr>"
  obtain st2 where st2: "ValidateAndAddBlock chain_node (True, child_block) ?st1 = Some (Inr (), st2)"
    using child_added [OF rw(2) child_fits_again(2)] start_pool start_database other_rowsD(1) [OF rw(3)] other_rows_reads(3) [OF rw(3)]
    by auto
  have len: "\<forall>x. length (nd_blake2b chain_node x) = 32" by (simp add: sample_hash_def)
  note run = ValidateAndAddBlock_run [OF len rw(2) child_fits(1) child_fits_again(2) st2]
  have same: "st_chains st2 = st_chains start_state" "st_headers st2 = HeaderMMR_Load []" using run by (simp_all add: start_state_def)
  have "chains_rep st2 (?hs, ?hs)" using start_chains same(1) by (simp add: chains_rep_def)
  from child_confirmed [OF this] obtain cs where
    cs: "on_chains (on_chain CONFIRMED (\<lambda>others. Chain_Rewind (block_height child_block - 1))) st2 = Some (Inr (), st2)"
    "add_confirmed child_block st2 = Some (Inr (), st2\<lparr>st_chains := cs\<rparr>)"
    "chains_rep (st2\<lparr>st_chains := cs\<rparr>) (?hs @ [block_hash child_block], ?hs)" by auto
  have "data_inv (hm_hashFile (st_headers (st2\<lparr>st_chains := cs\<rparr>)))"
    using same(2) by (simp add: HeaderMMR_Load_def data_inv_def DataFile_Load_def AppendOnlyFile_Load_def aof_inv_def)
  moreover obtain b L where "state_rep chain_node [] 0 b (st2\<lparr>st_chains := cs\<rparr>) L empty_ledger" "b + 1 \<le> 2 ^ 60"
    using run child_fits_again(2) by (fastforce simp: state_rep_def fits_def)
  ultimately obtain st' where "ChainState_Commit set_roaring all_written (st2\<lparr>st_chains := cs\<rparr>) = Some (Inr (), st')"
    using state_commit_runs [OF _ _ cs(3)] by fastforce
  moreover have "h_previousBlockHash (fb_header child_block) = Header_GetHash parent_header" by (simp add: child_block_def)
  moreover have "\<exists>t. st_hashSet start_state = Some t" by (simp add: start_state_def)
  ultimately show ?thesis
    using rw(1) st2 cs(1,2) start_difficulty start_database(1) child_heavier
    by (auto simp: HandleReorg_def ebind_def easks_def echeck_def ereturn_def Let_def)
qed

theorem HandleReorg_correct_witness:
  "\<exists>st' b'. HandleReorg chain_node (\<lambda>_. 0) all_written [(True, child_block)] start_state = Some (Inr (), st') \<and>
     state_rep chain_node [] 0 b' st' (ledger_after empty_ledger [child_block]) (ledger_after empty_ledger [child_block]) \<and>
     (let hs = [Header_GetHash parent_header, block_hash child_block] in chains_rep st' (hs, hs))"
proof -
  let ?fbs = "[(True, child_block)]" and ?G = "\<lambda>_ :: bytes. 0 :: u8"
  obtain st' where st': "HandleReorg chain_node ?G all_written ?fbs start_state = Some (Inr (), st')"
    using child_reorg_runs by blast
  have len: "\<forall>x. length (nd_blake2b chain_node x) = 32" by (simp add: sample_hash_def)
  have rep: "state_rep chain_node [] 0 (2 ^ 29) start_state (ledger_after empty_ledger []) empty_ledger" using start_rep by simp
  have undo: "undo_chain (nd_blake2b chain_node) ?G (nd_env chain_node) parent_header empty_ledger (st_db start_state) []" by simp
  have hash: "\<forall>block \<in> set []. length (block_hash block) = 32 \<and> block_hash block \<noteq> Header_GetHash parent_header"
    "length (Header_GetHash parent_header) = 32"
    by (simp_all add: child_hashes)
  have blocks: "?fbs \<noteq> []" "\<forall>block \<in> set (map snd ?fbs). block_valid (nd_blake2b chain_node) ?G block"
    "linked (nd_blake2b chain_node) (st_db start_state) parent_header (map snd ?fbs)"
    "distinct (map block_hash (map snd ?fbs))" "length [Header_GetHash parent_header] + length ?fbs < 2 ^ 32"
    using child_valid(2) start_database(1) by (simp_all add: child_block_def)
  have b: "(2 ^ 29 :: nat) + 1 \<le> 2 ^ 60" by simp
  have outputs: "\<forall>block \<in> set (map snd ?fbs). Header_GetNumOutputs (fb_header block) < 2 ^ 50" using child_outputs by simp
  note all = HandleReorg_correct [OF len rep start_chains undo start_tip state_rep_ledger [OF start_rep] start_count hash
      blocks(1-3) child_fits_again(1) blocks(4,5) b outputs]
  have "take (unat (block_height child_block)) [Header_GetHash parent_header] = [Header_GetHash parent_header]"
    by (simp add: child_block_def)
  with all show ?thesis using st' start_difficulty child_heavier by (simp add: Let_def)
qed

end
