(* ===== verification/Spec2Isabelle.thy ===== *)
theory Spec2Isabelle
  imports Validation KernelDownload SegmentRequests PruneableDownload Rewind Chain TxPool Reorg
begin

text \<open>
  Grin++ is a node of the Grin network. A node receives headers, transactions and blocks as bytes, checks them
  against the consensus rules, and keeps headers, outputs, range proofs and kernels in Merkle mountain ranges
  whose roots the headers commit to. This development models the path from bytes to a validated block and the
  storage below the ranges, in the order in which the code builds one part on the other.

  \<^bold>\<open>Numbers and bytes.\<close> \<^verbatim>\<open>Prelude\<close> names the machine integers (\<open>u8\<close> to \<open>u64\<close> are words of that
  width, arithmetic wraps), byte vectors, and the result type \<open>error + 'a\<close> of a throwing operation. \<^verbatim>\<open>BitUtil\<close>
  is \<^verbatim>\<open>include/Common/Util/BitUtil.h\<close>. \<^verbatim>\<open>Serialization\<close> is \<open>ByteBuffer\<close>, \<open>Serializer\<close> and \<open>CBigInteger\<close>; its locale
  \<open>codec\<close> is the contract of a serialisable type (what is written is read back, whatever follows it) and is
  interpreted for every model below.

  \<^bold>\<open>Consensus data.\<close> \<^verbatim>\<open>Consensus\<close> is \<^verbatim>\<open>include/Consensus.h\<close>. \<^verbatim>\<open>TxModels\<close> holds fees, kernels, inputs, outputs
  and the other parts of transactions, \<^verbatim>\<open>BlockModels\<close> proofs of work, headers, bodies, transactions and blocks
  (\<^verbatim>\<open>src/Core/Models\<close>, \<^verbatim>\<open>include/Core/Models\<close>), with their encodings under every protocol version.

  \<^bold>\<open>Proof of work.\<close> \<^verbatim>\<open>Cuckoo\<close> is SipHash and the five cycle verifiers of \<^verbatim>\<open>src/PoW\<close>; their search loops are partial
  functions into \<open>option\<close>, and the locale \<open>cycle_walk\<close> carries the proofs that they end and find exactly the
  cycles. \<^verbatim>\<open>Difficulty\<close> is the difficulty loader, both retargeting formulas and \<open>PoWValidator\<close>.

  \<^bold>\<open>Validation.\<close> \<^verbatim>\<open>Caches\<close> is the cache of \<^verbatim>\<open>deps/caches\<close> under its two policies. \<^verbatim>\<open>Validation\<close> holds the validators of
  \<^verbatim>\<open>src/Core/Validation\<close> and \<^verbatim>\<open>src/BlockChain/Validators\<close>, with the functions of libsecp256k1 as the fields of a
  record: kernel sums, ordering and cut-through of bodies, range proofs and their cache, signatures, weights, lock
  heights, coinbase sums, header checks.

  \<^bold>\<open>Merkle mountain ranges.\<close> \<^verbatim>\<open>MMRIndex\<close> and \<^verbatim>\<open>MMRUtil\<close> are the numbering of nodes (\<^verbatim>\<open>Index\<close>, \<^verbatim>\<open>LeafIndex\<close>,
  \<^verbatim>\<open>MMRUtil\<close>). \<^verbatim>\<open>Files\<close> is the file layer: mapped files, append-only files and files of records; its locale
  \<open>batchable\<close> is the contract of what is changed in a batch and then committed or rolled back, interpreted for
  append-only files, record files and bitmap files. \<^verbatim>\<open>PruneList\<close> is the list of pruned subtrees with its caches,
  \<^verbatim>\<open>Bitmap\<close> the bitmap file and the leaf set, \<^verbatim>\<open>MMRHash\<close> the hash file, the root of a range and the header range; its
  locale \<open>range_store\<close> is the contract of a range kept in files, interpreted for the header range and for the kernel
  range of \<^verbatim>\<open>KernelMMR\<close>. A file of hashes from which nodes may be missing is the locale \<open>hash_store\<close>, interpreted for
  whole files there and for compacted files in \<^verbatim>\<open>Compaction\<close>. \<^verbatim>\<open>PruneableMMR\<close> is the prunable range of outputs and of range
  proofs, \<^verbatim>\<open>PruneableCorrect\<close> its refinement.

  \<^bold>\<open>Segments.\<close> A new node downloads the ranges in segments. \<^verbatim>\<open>BitmapAccumulator\<close> is the range over the bitmap of
  unspent outputs and the root of the leaf set, \<^verbatim>\<open>Segments\<close> the identifiers, proofs and segments, \<^verbatim>\<open>BitmapSegment\<close> the
  packed segments of the bitmap, and \<^verbatim>\<open>Segmenter\<close> the builder of segments (\<^verbatim>\<open>include/PMMR/Common\<close> and
  \<^verbatim>\<open>src/PMMR/TxHashSetSegmenter.h\<close>). \<^verbatim>\<open>SegmentCorrect\<close> shows that a segment that validates holds the leaves of the range,
  \<^verbatim>\<open>SegmentComplete\<close> that the segments a node builds validate. \<^verbatim>\<open>Desegmenter\<close> is the state machine of a download
  (\<^verbatim>\<open>include/PMMR/TxHashSetDesegmenter.h\<close>); the callbacks it applies segments with are arguments, and its locale
  \<open>segment_applier\<close> is the contract of such a callback, interpreted for the kernel range in \<^verbatim>\<open>KernelDownload\<close>. There the
  calls that change a download are a step relation: reachable states hold a prefix of the committed kernels, and a
  download from a server with all kernels ends. \<^verbatim>\<open>SegmentRequests\<close> is about the requests, \<^verbatim>\<open>PruneableDownload\<close> about
  segments of outputs and range proofs.

  \<^bold>\<open>Database and hash set.\<close> \<^verbatim>\<open>Database\<close> is the wrapper of the transactional store and the block database
  (\<^verbatim>\<open>src/Database\<close>): tables of headers, blocks, sums, positions of outputs and spent outputs; its locale \<open>db_table\<close> is the
  contract of a typed table, and the open transaction is another instance of \<open>batchable\<close>. \<^verbatim>\<open>TxHashSet\<close> is
  \<^verbatim>\<open>src/PMMR/TxHashSetImpl.cpp\<close>, the three ranges together, changed in step with the database. \<^verbatim>\<open>Ledger\<close> says when hash set
  and database represent a ledger (outputs, which of them are unspent, kernels), \<^verbatim>\<open>TxHashSetCorrect\<close> is about applying,
  committing and rolling back a block, \<^verbatim>\<open>Rewind\<close> about taking blocks back.

  \<^bold>\<open>Chains and pools.\<close> \<^verbatim>\<open>Chain\<close> is \<^verbatim>\<open>src/BlockChain/Chain.cpp\<close> and \<^verbatim>\<open>src/BlockChain/ChainStore.cpp\<close>: the chains of confirmed and of
  candidate headers, each a list of hashes with its file, and the change from one branch to another. \<^verbatim>\<open>OrphanPool\<close> holds
  blocks whose predecessor is missing. \<^verbatim>\<open>TxPool\<close> is \<^verbatim>\<open>src/TxPool\<close>: transactions that wait for a block, in a memory pool and a
  stem pool, their aggregation with cut-through, and what is left of them after a block.

  \<^bold>\<open>Block processing.\<close> \<^verbatim>\<open>BlockProcessor\<close> is \<^verbatim>\<open>src/BlockChain/ChainState.cpp\<close> and \<^verbatim>\<open>src/BlockChain/Processors\<close>: the state of the chain (chains,
  database, header range, hash set, orphans, transactions), the batch in which it is changed, committed and rolled back
  as a whole, and what is done with an arriving block (the next one, an orphan, a branch) or with arriving headers. Its
  operations are composed of those of the parts above. \<^verbatim>\<open>BlockProcessorCorrect\<close> is about adding blocks and taking them back,
  \<^verbatim>\<open>Reorg\<close> about the change to another branch.

  \<^bold>\<open>What is shown.\<close> The numbering operations agree with a reference numbering by leaf number and height; peaks,
  branches and roots are those of the list of leaves. Encodings round-trip and are self-delimiting. The
  cuckatoo verifier accepts exactly the cycles, and a header is accepted exactly when its proof reaches the
  prescribed difficulty. Validated bodies are canonical, validated headers are ordered, and kernel sums conserve
  the supply along a chain. Files, bitmaps, the header range, the kernel range and the prunable ranges
  refine pairs of a current and a saved value under every sequence of their operations, and so does the block
  database. A block is applied to the hash set exactly when the ledger allows it, and a rollback restores the
  committed ledger. A chain that is reorganised becomes a copy of the other one, and a rollback restores the saved one.
  After a block the transactions left in the pools share nothing with it and can still be spent together. Adding a block
  ends, and leaves the ledger after the block or, after a rollback, the committed one; a change to another branch leaves the
  ledger and the chain of the heavier branch. Where the code does not do what it means to, a theorem says so: a block that
  crashes the node, a range proof cache that is keyed too coarsely, a limit on timestamps that never applies, a flush that loses
  data, segments that are validated and then applied beyond what was validated, or applied so that outputs are lost.

  \<^bold>\<open>Bounds.\<close> Sizes of ranges are bounded by \<open>2 ^ 50\<close> leaves, far above what 64-bit positions and 32-bit pruned
  positions of the code can meet in use; below it no position computation wraps. No definition uses fuel: a loop
  is a terminating function, or a partial function with a theorem that it returns.

  \<^bold>\<open>Parameters.\<close> Blake2b, SipHash of short ids, libsecp256k1 and the roaring bitmap library are arguments; theorems
  that need their documented behaviour name it as a hypothesis.

  \<^bold>\<open>Not modelled.\<close> The validator of a downloaded hash set and its snapshots, the interface of the block chain to the other
  subsystems, resynchronisation, compact blocks and the wallet are not modelled. Sockets, threads, the peer and wallet databases,
  servers, logging, configuration files and the genesis data are left out: they are input and output, wrappers of
  external libraries, or data.
\<close>

end
